(* ===== verification/Prelude.thy ===== *)
theory Prelude
  imports "HOL-Library.Word" "HOL-Library.Monad_Syntax"
begin

text \<open>
  What every component of the model shares.

  \<^item> The machine integers of the C code on a POSIX LP64 target, as words of their width:
    \<^verbatim>\<open>unsigned char\<close> is \<open>u8\<close>, \<^verbatim>\<open>unsigned int\<close> (\<^verbatim>\<open>mtapi_uint_t\<close>) and the bit pattern of
    \<^verbatim>\<open>int\<close> are \<open>u32\<close>, \<^verbatim>\<open>unsigned long\<close>, \<^verbatim>\<open>unsigned long long\<close>, \<^verbatim>\<open>uint64_t\<close>, \<^verbatim>\<open>size_t\<close> and
    pointers are \<open>u64\<close>.
  \<^item> C arrays as lists. A read or write outside the array is undefined behaviour in C and
    is \<open>None\<close> here (\<open>arr_get\<close>, \<open>arr_set\<close>), so a theorem that a function returns \<open>Some\<close> says
    that it stays inside its arrays. Functions are composed in the option monad.
  \<^item> The counting loops \<^verbatim>\<open>for (ii = a; ii < n; ii++)\<close> and \<^verbatim>\<open>for (ii = a; ii <= n; ii++)\<close> over
    32-bit counters. The second one runs for ever when \<open>n\<close> is the largest 32-bit value, so it
    is a partial function.
  \<^item> Little-endian byte encoding, for the copies between typed variables and raw memory.
\<close>

unbundle bit_operations_syntax

type_synonym u8 = "8 word"
type_synonym u16 = "16 word"
type_synonym u32 = "32 word"
type_synonym u64 = "64 word"

named_theorems arr_simps \<open>reads and writes of C arrays inside their bounds\<close>
named_theorems unat_simps \<open>32-bit counters that do not wrap, read as natural numbers\<close>

section \<open>C arrays\<close>

definition arr_get :: "'a list \<Rightarrow> u32 \<Rightarrow> 'a option" where
  "arr_get xs i = (if unat i < length xs then Some (xs ! unat i) else None)"

definition arr_set :: "'a list \<Rightarrow> u32 \<Rightarrow> 'a \<Rightarrow> 'a list option" where
  "arr_set xs i v = (if unat i < length xs then Some (xs[unat i := v]) else None)"

text \<open>The same for positions that are natural numbers: iterators into a range, and indices of the containers.\<close>

definition deref :: "'a list \<Rightarrow> nat \<Rightarrow> 'a option" where
  "deref xs it = (if it < length xs then Some (xs ! it) else None)"

definition assign :: "'a list \<Rightarrow> nat \<Rightarrow> 'a \<Rightarrow> 'a list option" where
  "assign xs it v = (if it < length xs then Some (xs[it := v]) else None)"

text \<open>
  \<^verbatim>\<open>embb_mtapi_alloc_allocate(sizeof(T)*n)\<close> takes its byte count as an \<^verbatim>\<open>unsigned int\<close>: the
  product is computed in 64 bits and cut to 32. \<open>alloc_count sz n\<close> is the number of elements
  of size \<open>sz\<close> that fit the block which is really requested.
\<close>

definition alloc_count :: "nat \<Rightarrow> u32 \<Rightarrow> nat" where
  "alloc_count sz n = (sz * unat n) mod 2 ^ 32 div sz"

lemma arr_get_Some [arr_simps]: "unat i < length xs \<Longrightarrow> arr_get xs i = Some (xs ! unat i)"
  by (simp add: arr_get_def)

lemma arr_set_Some [arr_simps]: "unat i < length xs \<Longrightarrow> arr_set xs i v = Some (xs[unat i := v])"
  by (simp add: arr_set_def)

lemma deref_Some [simp]: "it < length xs \<Longrightarrow> deref xs it = Some (xs ! it)"
  by (simp add: deref_def)

lemma assign_Some [simp]: "it < length xs \<Longrightarrow> assign xs it v = Some (xs[it := v])"
  by (simp add: assign_def)

lemma deref_eq_Some_iff: "deref xs it = Some x \<longleftrightarrow> it < length xs \<and> xs ! it = x"
  by (auto simp: deref_def)

lemma arr_get_eq_Some_iff: "arr_get xs i = Some v \<longleftrightarrow> unat i < length xs \<and> xs ! unat i = v"
  by (auto simp: arr_get_def)

lemma arr_set_eq_Some_iff:
  "arr_set xs i v = Some ys \<longleftrightarrow> unat i < length xs \<and> ys = xs[unat i := v]"
  by (auto simp: arr_set_def)

lemma alloc_count_exact:
  assumes "0 < sz" "sz * unat n < 2 ^ 32"
  shows "alloc_count sz n = unat n"
  using assms by (simp add: alloc_count_def)

lemma alloc_count_short:
  assumes "0 < sz" "2 ^ 32 \<le> sz * unat n"
  shows "alloc_count sz n < unat n"
proof -
  have "sz * alloc_count sz n \<le> (sz * unat n) mod 2 ^ 32"
    by (simp add: alloc_count_def)
  also have "\<dots> < 2 ^ 32" by simp
  also have "\<dots> \<le> sz * unat n" by (rule assms(2))
  finally have "sz * alloc_count sz n < sz * unat n" .
  then show ?thesis by (metis nat_mult_less_cancel1 mult_less_cancel1)
qed

lemma map_Some_the: "None \<notin> set xs \<Longrightarrow> map Some (map the xs) = xs"
  by (induction xs) auto

lemma nth_update_any: "xs[i := x] ! j = (if i = j \<and> i < length xs then x else xs ! j)"
  by (cases "i < length xs") (auto simp: nth_list_update list_update_beyond)

section \<open>Counters that do not wrap\<close>

lemma unat_inc_less [unat_simps]: "(i::'a::len word) < n \<Longrightarrow> unat (i + 1) = Suc (unat i)"
  by unat_arith

lemma unat_inc_bound: "unat (i::u32) < m \<Longrightarrow> m < 2 ^ 32 \<Longrightarrow> unat (i + 1) = Suc (unat i)"
  by (simp add: unat_word_ariths)

lemma unat_dec_pos [unat_simps]: "0 < (i::'a::len word) \<Longrightarrow> unat (i - 1) = unat i - 1"
  by (metis unat_minus_one word_neq_0_conv)

lemma word_less_unat: "(a::'a::len word) < b \<longleftrightarrow> unat a < unat b"
  by (rule word_less_nat_alt)

lemma word_le_unat: "(a::'a::len word) \<le> b \<longleftrightarrow> unat a \<le> unat b"
  by (rule word_le_nat_alt)

lemma unat_u32_less: "unat (x::u32) < 2 ^ 32"
  using unsigned_less[of x] by simp

lemma unat_of_nat_u32: "k < 2 ^ 32 \<Longrightarrow> unat (of_nat k :: u32) = k"
  by (simp add: unat_of_nat unsigned_of_nat take_bit_nat_eq_self)

lemma unat_max_u32: "unat (- 1 :: u32) = 2 ^ 32 - 1"
  by (simp add: unsigned_minus_1_eq_mask mask_eq_exp_minus_1)

section \<open>Counting loops\<close>

function for_less :: "(u32 \<Rightarrow> 's \<Rightarrow> 's option) \<Rightarrow> u32 \<Rightarrow> u32 \<Rightarrow> 's \<Rightarrow> 's option" where
  "for_less body ii n s =
     (if ii < n then Option.bind (body ii s) (for_less body (ii + 1) n) else Some s)"
  by pat_completeness auto
termination
  by (relation "measure (\<lambda>(body, ii, n, s). unat n - unat ii)")
     (auto simp: unat_inc_less word_less_unat)

declare for_less.simps [simp del]

partial_function (option) for_le :: "(u32 \<Rightarrow> 's \<Rightarrow> 's option) \<Rightarrow> u32 \<Rightarrow> u32 \<Rightarrow> 's \<Rightarrow> 's option" where
  [code]: "for_le body ii n s =
     (if ii \<le> n then Option.bind (body ii s) (for_le body (ii + 1) n) else Some s)"

lemma for_less_done [simp]: "\<not> ii < n \<Longrightarrow> for_less body ii n s = Some s"
  by (simp add: for_less.simps)

lemma for_less_step:
  "ii < n \<Longrightarrow> for_less body ii n s = Option.bind (body ii s) (for_less body (ii + 1) n)"
  by (simp add: for_less.simps)

text \<open>Below the largest counter value the two loops are the same loop.\<close>

lemma for_le_for_less:
  assumes "n < - 1"
  shows "for_le body ii n s = for_less body ii (n + 1) s"
proof (induction body ii "n + 1" s rule: for_less.induct)
  case (1 body ii s)
  have iff: "ii \<le> n \<longleftrightarrow> ii < n + 1"
    using assms by (simp add: word_le_unat word_less_unat unat_inc_less[OF assms] less_Suc_eq_le)
  show ?case
  proof (cases "ii \<le> n")
    case True
    then have "for_le body (ii + 1) n s' = for_less body (ii + 1) (n + 1) s'"
      if "body ii s = Some s'" for s'
      using 1 iff that by simp
    then show ?thesis
      using True iff
      by (cases "body ii s") (simp_all add: for_le.simps[of body ii] for_less.simps[of body ii])
  next
    case False
    then show ?thesis
      using iff by (subst for_le.simps) (simp add: for_less.simps)
  qed
qed

text \<open>
  The loop rule: an invariant over the counter, read as a natural number, that every
  iteration establishes for the next counter value makes the loop return, and holds at its end.
\<close>

lemma for_less_rule:
  assumes step: "\<And>k t. unat ii \<le> k \<Longrightarrow> k < unat n \<Longrightarrow> P k t \<Longrightarrow>
                   \<exists>t'. body (of_nat k) t = Some t' \<and> P (Suc k) t'"
    and start: "P (unat ii) s" and le: "ii \<le> n"
  shows "\<exists>t. for_less body ii n s = Some t \<and> P (unat n) t"
  using start le step
proof (induction "unat n - unat ii" arbitrary: ii s)
  case 0
  then have "ii = n" by (simp add: word_le_unat word_unat_eq_iff)
  with 0 show ?case by auto
next
  case (Suc d)
  then have less: "ii < n" by (simp add: word_less_unat)
  then have next_ii: "unat (ii + 1) = Suc (unat ii)" by (rule unat_inc_less)
  obtain t where t: "body ii s = Some t" "P (unat (ii + 1)) t"
    using Suc.prems(3)[of "unat ii" s] Suc.prems(1) less
    by (auto simp: word_less_unat next_ii)
  have "\<exists>r. for_less body (ii + 1) n t = Some r \<and> P (unat n) r"
  proof (rule Suc.hyps(1))
    show "d = unat n - unat (ii + 1)"
      using Suc.hyps(2) by (simp add: next_ii)
    show "P (unat (ii + 1)) t"
      by (rule t)
    show "ii + 1 \<le> n"
      using less by (simp add: word_le_unat word_less_unat next_ii)
    show "\<And>k t. unat (ii + 1) \<le> k \<Longrightarrow> k < unat n \<Longrightarrow> P k t \<Longrightarrow>
            \<exists>t'. body (word_of_nat k) t = Some t' \<and> P (Suc k) t'"
      by (rule Suc.prems(3)) (simp_all add: next_ii)
  qed
  then show ?case
    using t by (simp add: for_less_step[OF less])
qed

text \<open>
  A counting loop with \<^verbatim>\<open>break\<close>: the body also says whether the loop goes on. Its rule has the invariant
  \<open>P\<close> at the head of the loop and \<open>Q\<close> at its end.
\<close>

function for_break :: "(u32 \<Rightarrow> 's \<Rightarrow> (bool \<times> 's) option) \<Rightarrow> u32 \<Rightarrow> u32 \<Rightarrow> 's \<Rightarrow> 's option" where
  "for_break body ii n s =
     (if ii < n then
        (case body ii s of
           None \<Rightarrow> None
         | Some (go, s') \<Rightarrow> if go then for_break body (ii + 1) n s' else Some s')
      else Some s)"
  by pat_completeness auto
termination
  by (relation "measure (\<lambda>(body, ii, n, s). unat n - unat ii)")
     (auto simp: unat_inc_less word_less_unat)

declare for_break.simps [simp del]

lemma for_break_done [simp]: "\<not> ii < n \<Longrightarrow> for_break body ii n s = Some s"
  by (simp add: for_break.simps)

lemma for_break_rule:
  assumes step: "\<And>k t. unat ii \<le> k \<Longrightarrow> k < unat n \<Longrightarrow> P k t \<Longrightarrow>
                   \<exists>go t'. body (of_nat k) t = Some (go, t') \<and> (if go then P (Suc k) t' else Q t')"
    and final: "\<And>t. P (unat n) t \<Longrightarrow> Q t"
    and start: "P (unat ii) s" and le: "ii \<le> n"
  shows "\<exists>t. for_break body ii n s = Some t \<and> Q t"
  using start le step
proof (induction "unat n - unat ii" arbitrary: ii s)
  case 0
  then have "ii = n" by (simp add: word_le_unat word_unat_eq_iff)
  with 0 final show ?case by auto
next
  case (Suc d)
  then have less: "ii < n" by (simp add: word_less_unat)
  then have next_ii: "unat (ii + 1) = Suc (unat ii)" by (rule unat_inc_less)
  obtain go t where t: "body ii s = Some (go, t)" "if go then P (unat (ii + 1)) t else Q t"
    using Suc.prems(3)[of "unat ii" s] Suc.prems(1) less
    by (auto simp: word_less_unat next_ii)
  show ?case
  proof (cases go)
    case True
    have "\<exists>r. for_break body (ii + 1) n t = Some r \<and> Q r"
    proof (rule Suc.hyps(1))
      show "d = unat n - unat (ii + 1)"
        using Suc.hyps(2) by (simp add: next_ii)
      show "P (unat (ii + 1)) t"
        using t(2) True by simp
      show "ii + 1 \<le> n"
        using less by (simp add: word_le_unat word_less_unat next_ii)
      show "\<And>k t. unat (ii + 1) \<le> k \<Longrightarrow> k < unat n \<Longrightarrow> P k t \<Longrightarrow>
              \<exists>go t'. body (word_of_nat k) t = Some (go, t') \<and> (if go then P (Suc k) t' else Q t')"
        by (rule Suc.prems(3)) (simp_all add: next_ii)
    qed
    then show ?thesis
      using t True less by (simp add: for_break.simps[of body ii])
  next
    case False
    then show ?thesis
      using t less by (simp add: for_break.simps[of body ii])
  qed
qed

section \<open>Little-endian bytes\<close>

definition byte_of :: "'a::len word \<Rightarrow> nat \<Rightarrow> u8" where
  "byte_of w k = ucast (drop_bit (8 * k) w)"

definition bytes_le :: "nat \<Rightarrow> 'a::len word \<Rightarrow> u8 list" where
  "bytes_le n w = map (byte_of w) [0..<n]"

fun word_le :: "u8 list \<Rightarrow> 'a::len word" where
  "word_le [] = 0"
| "word_le (b # bs) = ucast b OR push_bit 8 (word_le bs)"

lemma length_bytes_le [simp]: "length (bytes_le n w) = n"
  by (simp add: bytes_le_def)

lemma bytes_le_Suc: "bytes_le (Suc n) w = ucast w # bytes_le n (drop_bit 8 w)"
proof -
  have "map (byte_of w) [0..<Suc n] = byte_of w 0 # map (\<lambda>k. byte_of w (Suc k)) [0..<n]"
    by (rule map_upt_Suc)
  also have "byte_of w 0 = ucast w"
    by (simp add: byte_of_def)
  also have "(\<lambda>k. byte_of w (Suc k)) = byte_of (drop_bit 8 w)"
    by (simp add: byte_of_def fun_eq_iff add.commute)
  finally show ?thesis
    by (simp add: bytes_le_def)
qed

lemma word_le_bytes_le_bits:
  fixes w :: "'a::len word"
  shows "bit (word_le (bytes_le n w) :: 'a word) i \<longleftrightarrow> bit w i \<and> i < 8 * n"
proof (induction n arbitrary: w i)
  case 0
  then show ?case by (simp add: bytes_le_def)
next
  case (Suc n)
  show ?case
  proof (cases "i < 8")
    case True
    then show ?thesis
      by (auto simp: bytes_le_Suc bit_simps dest: bit_imp_le_length)
  next
    case False
    then obtain j where j: "i = 8 + j"
      using le_Suc_ex by (metis not_less)
    then show ?thesis
      using Suc[of "drop_bit 8 w" j] by (auto simp: bytes_le_Suc bit_simps dest: bit_imp_le_length)
  qed
qed

lemma word_le_bytes_le: "LENGTH('a) \<le> 8 * n \<Longrightarrow> word_le (bytes_le n w) = (w :: 'a::len word)"
  by (rule bit_word_eqI) (simp add: word_le_bytes_le_bits)

end
