(* ===== verification/Ring_Buffer.thy ===== *)
theory Ring_Buffer
  imports Prelude
begin

text \<open>
  Ring buffers. The id pool (\<^verbatim>\<open>embb_mtapi_id_pool_t.c\<close>) and the task queue
  (\<^verbatim>\<open>embb_mtapi_task_queue_t.c\<close>) keep a fixed array, a read position, a write position and a
  count. This theory holds the contents of such a ring as a list, how a write and a read
  change it, and the interface \<open>bounded_fifo\<close> both components implement, with the
  first-in-first-out law for every sequence of operations proved once.
\<close>

section \<open>The contents of a ring\<close>

definition ring_list :: "'a list \<Rightarrow> nat \<Rightarrow> nat \<Rightarrow> 'a list" where
  "ring_list buf g n = map (\<lambda>k. buf ! ((g + k) mod length buf)) [0..<n]"

definition ring_wf :: "'a list \<Rightarrow> nat \<Rightarrow> nat \<Rightarrow> nat \<Rightarrow> bool" where
  "ring_wf buf g p n \<longleftrightarrow>
     g < length buf \<and> n \<le> length buf \<and> p = (g + n) mod length buf"

named_theorems ring_simps \<open>writes to and reads from a well-formed ring\<close>

lemma length_ring_list [simp]: "length (ring_list buf g n) = n"
  by (simp add: ring_list_def)

lemma ring_list_0 [simp]: "ring_list buf g 0 = []"
  by (simp add: ring_list_def)

lemma ring_wf_put_bound [ring_simps]: "ring_wf buf g p n \<Longrightarrow> p < length buf"
  unfolding ring_wf_def by (metis gr_zeroI mod_less_divisor not_less_zero)

lemma ring_wf_get_bound [ring_simps]: "ring_wf buf g p n \<Longrightarrow> g < length buf"
  by (simp add: ring_wf_def)

text \<open>The slots before the write position are not the write position.\<close>

lemma ring_slot_ne:
  assumes "ring_wf buf g p n" "n < length buf" "k < n"
  shows "(g + k) mod length buf \<noteq> p"
proof
  let ?m = "length buf"
  assume "(g + k) mod ?m = p"
  then have "(g + k) mod ?m = (g + n) mod ?m"
    using assms(1) by (simp add: ring_wf_def)
  then have "?m dvd (g + n) - (g + k)"
    using assms(3) by (metis mod_eq_dvd_iff_nat add_le_mono less_imp_le_nat order_refl)
  then have "?m dvd n - k" by simp
  then show False
    using assms(2,3) by (auto dest: dvd_imp_le)
qed

lemma ring_list_put [ring_simps]:
  assumes "ring_wf buf g p n" "n < length buf"
  shows "ring_list (buf[p := x]) g (Suc n) = ring_list buf g n @ [x]"
proof -
  have p: "p = (g + n) mod length buf" "p < length buf"
    using assms(1) ring_wf_put_bound[OF assms(1)] by (auto simp: ring_wf_def)
  have "buf[p := x] ! ((g + k) mod length buf) = buf ! ((g + k) mod length buf)" if "k < n" for k
    using ring_slot_ne[OF assms that] by simp
  then have "map (\<lambda>k. buf[p := x] ! ((g + k) mod length buf)) [0..<n] = ring_list buf g n"
    by (simp add: ring_list_def)
  moreover have "buf[p := x] ! ((g + n) mod length buf) = x"
    using p by simp
  ultimately show ?thesis
    by (simp add: ring_list_def)
qed

lemma ring_wf_put [ring_simps]:
  assumes "ring_wf buf g p n" "n < length buf"
  shows "ring_wf (buf[p := x]) g (Suc p mod length buf) (Suc n)"
  using assms by (auto simp: ring_wf_def mod_Suc_eq)

lemma ring_list_head:
  assumes "ring_wf buf g p n" "0 < n"
  shows "ring_list buf g n = buf ! g # ring_list buf (Suc g mod length buf) (n - 1)"
proof -
  obtain m where n: "n = Suc m"
    using assms(2) by (cases n) auto
  have "ring_list buf g (Suc m) = buf ! ((g + 0) mod length buf) #
          map (\<lambda>k. buf ! ((g + Suc k) mod length buf)) [0..<m]"
    unfolding ring_list_def by (rule map_upt_Suc)
  also have "(g + 0) mod length buf = g"
    using assms(1) by (simp add: ring_wf_def)
  also have "(\<lambda>k. buf ! ((g + Suc k) mod length buf)) =
               (\<lambda>k. buf ! ((Suc g mod length buf + k) mod length buf))"
    by (simp add: fun_eq_iff mod_add_left_eq)
  finally show ?thesis
    by (simp add: n ring_list_def)
qed

text \<open>Reading the head and overwriting its slot leaves the tail.\<close>

lemma ring_list_get [ring_simps]:
  assumes "ring_wf buf g p n" "0 < n"
  shows "ring_list (buf[g := y]) (Suc g mod length buf) (n - 1) = tl (ring_list buf g n)"
proof -
  have g: "g < length buf" "n \<le> length buf"
    using assms(1) by (auto simp: ring_wf_def)
  have "(Suc g mod length buf + k) mod length buf \<noteq> g" if "k < n - 1" for k
  proof
    assume eq: "(Suc g mod length buf + k) mod length buf = g"
    then have "(g + Suc k) mod length buf = g mod length buf"
      using g by (simp add: mod_add_left_eq)
    then have "length buf dvd Suc k"
      by (metis add_diff_cancel_left' le_add1 mod_eq_dvd_iff_nat)
    then show False
      using that g by (auto dest!: dvd_imp_le)
  qed
  then have "ring_list (buf[g := y]) (Suc g mod length buf) (n - 1) =
             ring_list buf (Suc g mod length buf) (n - 1)"
    unfolding ring_list_def
    by (intro map_cong refl) (metis atLeastLessThan_iff length_list_update nth_list_update_neq set_upt)
  then show ?thesis
    by (simp add: ring_list_head[OF assms])
qed

lemma ring_list_hd [ring_simps]:
  "ring_wf buf g p n \<Longrightarrow> 0 < n \<Longrightarrow> hd (ring_list buf g n) = buf ! g"
  by (simp add: ring_list_head)

lemma ring_wf_get [ring_simps]:
  assumes "ring_wf buf g p n" "0 < n"
  shows "ring_wf (buf[g := y]) (Suc g mod length buf) p (n - 1)"
proof -
  have "(Suc g mod length buf + (n - 1)) mod length buf = (g + n) mod length buf"
  proof -
    have "(Suc g mod length buf + (n - 1)) mod length buf = (Suc g + (n - 1)) mod length buf"
      by (rule mod_add_left_eq)
    then show ?thesis
      using assms(2) by simp
  qed
  then show ?thesis
    using assms unfolding ring_wf_def
    by (metis diff_le_self gr_zeroI le_trans length_list_update mod_less_divisor not_less_zero)
qed

text \<open>
  The position update of both components, \<^verbatim>\<open>pos++; if (last < pos) pos = 0\<close> and
  \<^verbatim>\<open>pos++; if (limit <= pos) pos = 0\<close>, on 32-bit positions.
\<close>

lemma unat_pos_next_le:
  assumes "unat (pos::u32) < unat limit"
  shows "unat (if limit \<le> pos + 1 then 0 else pos + 1) = Suc (unat pos) mod unat limit"
proof -
  have "unat (pos + 1) = Suc (unat pos)"
    using assms by (intro unat_inc_less[of _ limit]) (simp add: word_less_unat)
  then show ?thesis
    using assms by (cases "Suc (unat pos) = unat limit") (auto simp: word_le_unat)
qed

lemma unat_pos_next_less:
  assumes "unat (pos::u32) \<le> unat cap" "unat cap < 2 ^ 32 - 1"
  shows "unat (if cap < pos + 1 then 0 else pos + 1) = Suc (unat pos) mod Suc (unat cap)"
proof -
  have "unat (pos + 1) = Suc (unat pos)"
    using assms by (intro unat_inc_bound[of _ "2 ^ 32 - 1"]) auto
  then show ?thesis
    using assms by (cases "unat pos = unat cap") (auto simp: word_less_unat)
qed

section \<open>The interface of a bounded first-in-first-out queue\<close>

datatype 'a fifo_op = Put 'a | Get

text \<open>
  Running a list of operations: the elements that were accepted, in order, the elements that
  were returned, in order, and the queue at the end.
\<close>

fun fifo_run :: "('q \<Rightarrow> 'a \<Rightarrow> (bool \<times> 'q) option) \<Rightarrow> ('q \<Rightarrow> ('a option \<times> 'q) option) \<Rightarrow>
    'a fifo_op list \<Rightarrow> 'q \<Rightarrow> ('a list \<times> 'a list \<times> 'q) option" where
  "fifo_run put get [] q = Some ([], [], q)"
| "fifo_run put get (Put x # ops) q =
     do { (ok, q1) \<leftarrow> put q x;
          (ins, outs, q2) \<leftarrow> fifo_run put get ops q1;
          Some (if ok then x # ins else ins, outs, q2) }"
| "fifo_run put get (Get # ops) q =
     do { (r, q1) \<leftarrow> get q;
          (ins, outs, q2) \<leftarrow> fifo_run put get ops q1;
          Some (ins, (case r of None \<Rightarrow> outs | Some x \<Rightarrow> x # outs), q2) }"

locale bounded_fifo =
  fixes put :: "'q \<Rightarrow> 'a \<Rightarrow> (bool \<times> 'q) option"
    and get :: "'q \<Rightarrow> ('a option \<times> 'q) option"
    and contents :: "'q \<Rightarrow> 'a list"
    and bound :: "'q \<Rightarrow> nat"
    and invar :: "'q \<Rightarrow> bool"
    and elem_ok :: "'a \<Rightarrow> bool"
  assumes length_bound: "invar q \<Longrightarrow> length (contents q) \<le> bound q"
    and put_room: "invar q \<Longrightarrow> elem_ok x \<Longrightarrow> length (contents q) < bound q \<Longrightarrow>
       \<exists>q'. put q x = Some (True, q') \<and> invar q' \<and> contents q' = contents q @ [x] \<and> bound q' = bound q"
    and put_full: "invar q \<Longrightarrow> length (contents q) = bound q \<Longrightarrow> put q x = Some (False, q)"
    and get_elem: "invar q \<Longrightarrow> contents q = x # xs \<Longrightarrow>
       \<exists>q'. get q = Some (Some x, q') \<and> invar q' \<and> contents q' = xs \<and> bound q' = bound q"
    and get_none: "invar q \<Longrightarrow> contents q = [] \<Longrightarrow> get q = Some (None, q)"
begin

lemma put_cases:
  assumes "invar q" "elem_ok x"
  obtains q' where "put q x = Some (True, q')" "invar q'" "contents q' = contents q @ [x]"
      "bound q' = bound q" "length (contents q) < bound q"
  | "put q x = Some (False, q)" "length (contents q) = bound q"
  using put_room[OF assms] put_full[OF assms(1)] length_bound[OF assms(1)]
  by (metis le_neq_implies_less)

lemma get_cases:
  assumes "invar q"
  obtains x q' where "get q = Some (Some x, q')" "invar q'" "contents q = x # contents q'"
      "bound q' = bound q"
  | "get q = Some (None, q)" "contents q = []"
  using get_elem[OF assms] get_none[OF assms] by (cases "contents q") auto

text \<open>
  The first-in-first-out law: whatever the operations, they all return, the invariant is kept,
  and what was in the queue followed by what was accepted is what was returned followed by
  what is still in the queue.
\<close>

lemma fifo_law:
  assumes "invar q" "\<forall>x. Put x \<in> set ops \<longrightarrow> elem_ok x"
  shows "\<exists>ins outs q'. fifo_run put get ops q = Some (ins, outs, q') \<and> invar q' \<and>
           bound q' = bound q \<and> contents q @ ins = outs @ contents q'"
  using assms
proof (induction ops arbitrary: q)
  case Nil
  then show ?case by simp
next
  case (Cons op ops)
  show ?case
  proof (cases op)
    case (Put x)
    with Cons.prems have ok: "elem_ok x" by simp
    show ?thesis
      using put_cases[OF Cons.prems(1) ok]
    proof cases
      case (1 q1)
      then obtain ins outs q' where "fifo_run put get ops q1 = Some (ins, outs, q')" "invar q'"
          "bound q' = bound q1" "contents q1 @ ins = outs @ contents q'"
        using Cons.IH[of q1] Cons.prems(2) by auto
      with 1 Put show ?thesis by auto
    next
      case 2
      then show ?thesis
        using Cons.IH[OF Cons.prems(1)] Cons.prems(2) Put by auto
    qed
  next
    case Get
    show ?thesis
      using get_cases[OF Cons.prems(1)]
    proof cases
      case (1 x q1)
      then obtain ins outs q' where "fifo_run put get ops q1 = Some (ins, outs, q')" "invar q'"
          "bound q' = bound q1" "contents q1 @ ins = outs @ contents q'"
        using Cons.IH[of q1] Cons.prems(2) by auto
      with 1 Get show ?thesis by auto
    next
      case 2
      then show ?thesis
        using Cons.IH[OF Cons.prems(1)] Cons.prems(2) Get by auto
    qed
  qed
qed

text \<open>Nothing is accepted beyond the bound, and what is returned was there or was accepted.\<close>

lemma fifo_outs:
  assumes "invar q" "\<forall>x. Put x \<in> set ops \<longrightarrow> elem_ok x"
    and "fifo_run put get ops q = Some (ins, outs, q')"
  shows "outs = take (length outs) (contents q @ ins)" "length (contents q @ ins) \<le> length outs + bound q"
proof -
  have "contents q @ ins = outs @ contents q'" "invar q'" "bound q' = bound q"
    using fifo_law[OF assms(1,2)] assms(3) by auto
  then show "outs = take (length outs) (contents q @ ins)"
      "length (contents q @ ins) \<le> length outs + bound q"
    using length_bound[of q'] by (simp_all del: length_append add: length_append[of outs])
qed

end

end
