(* ===== verification/Spinlock.thy ===== *)
theory Spinlock
  imports Prelude
begin

text \<open>
  Atomic integers (\<^verbatim>\<open>base_c/include/embb/base/c/atomic.h\<close>) and the spin lock built from them
  (\<^verbatim>\<open>mtapi_c/src/embb_mtapi_spinlock_t.c\<close>).

  The lock word is shared with other threads. The functions below take the values it has just
  before each compare-and-swap of the calling thread (\<open>obs k\<close> for the \<open>k\<close>-th attempt) and
  return the value it has after the last one. A caller whose lock word nobody else changes passes the
  constant sequence. The second half is the interleaving of any number of threads around one
  lock, made of the same turns of the acquire loops and the same release, one at a time. Its theorem, that critical sections run as if they were
  atomic and in the order in which the lock was taken, is what lets every other
  theory model a locked section of a function as one step.
\<close>

section \<open>Atomic integers\<close>

definition embb_atomic_compare_and_swap :: "'a::len word \<Rightarrow> 'a word \<Rightarrow> 'a word \<Rightarrow> bool \<times> 'a word \<times> 'a word" where
  "embb_atomic_compare_and_swap variable expected desired =
     (if variable = expected then (True, desired, expected) else (False, variable, variable))"

definition embb_atomic_fetch_and_add :: "'a::len word \<Rightarrow> 'a word \<Rightarrow> 'a word \<times> 'a word" where
  "embb_atomic_fetch_and_add variable val = (variable, variable + val)"

section \<open>The spin lock\<close>

type_synonym embb_mtapi_spinlock = u32

definition embb_mtapi_spinlock_initialize :: embb_mtapi_spinlock where
  "embb_mtapi_spinlock_initialize = 0"

definition embb_mtapi_spinlock_finalize :: embb_mtapi_spinlock where
  "embb_mtapi_spinlock_finalize = 0"

text \<open>
  One turn of the loop of \<^verbatim>\<open>embb_mtapi_spinlock_acquire\<close>: the compare-and-swap, which on failure
  overwrites \<open>expected\<close> with the value it has found, the global counter
  \<^verbatim>\<open>embb_mtapi_spinlock_spins\<close>, and the reset of \<open>expected\<close> for the next turn. The result says whether the
  lock has been taken, and gives the lock word, \<open>expected\<close> and the counter.
\<close>

definition acquire_expected :: u32 where
  "acquire_expected = 0"

definition acquire_attempt ::
    "embb_mtapi_spinlock \<Rightarrow> u32 \<Rightarrow> u32 \<Rightarrow> bool \<times> embb_mtapi_spinlock \<times> u32 \<times> u32" where
  "acquire_attempt that expected spins =
     (case embb_atomic_compare_and_swap that expected 1 of
        (ok, that, expected) \<Rightarrow>
          if ok then (True, that, expected, spins)
          else
            let spins = snd (embb_atomic_fetch_and_add spins 1); expected = 0 in
            (False, that, expected, spins))"

text \<open>
  The loop, from its \<open>k\<close>-th turn on. It returns the lock word after the successful attempt and the
  counter of spins.
\<close>

partial_function (option) acquire_loop ::
    "(nat \<Rightarrow> u32) \<Rightarrow> nat \<Rightarrow> u32 \<Rightarrow> u32 \<Rightarrow> (embb_mtapi_spinlock \<times> u32) option" where
  [code]: "acquire_loop obs k expected spins =
     (case acquire_attempt (obs k) expected spins of
        (ok, that, expected, spins) \<Rightarrow>
          if ok then Some (that, spins) else acquire_loop obs (Suc k) expected spins)"

definition embb_mtapi_spinlock_acquire ::
    "(nat \<Rightarrow> u32) \<Rightarrow> u32 \<Rightarrow> (bool \<times> embb_mtapi_spinlock \<times> u32) option" where
  "embb_mtapi_spinlock_acquire obs spins =
     do { (that, spins) \<leftarrow> acquire_loop obs 0 acquire_expected spins; Some (True, that, spins) }"

text \<open>
  One turn of the loop of the bounded variant. It ends the loop with success or with failure
  (\<open>Some True\<close>, \<open>Some False\<close>), or leaves \<open>expected\<close> and the count for the next turn (\<open>None\<close>).
\<close>

definition acquire_spincount_attempt ::
    "embb_mtapi_spinlock \<Rightarrow> u32 \<Rightarrow> u32 \<Rightarrow> u32 \<Rightarrow>
     bool option \<times> embb_mtapi_spinlock \<times> u32 \<times> u32 \<times> u32" where
  "acquire_spincount_attempt that expected spin_count spins =
     (case embb_atomic_compare_and_swap that expected 1 of
        (ok, that, expected) \<Rightarrow>
          if ok then (Some True, that, expected, spin_count, spins)
          else
            let spins = snd (embb_atomic_fetch_and_add spins 1); spin_count = spin_count - 1 in
            if 0 = spin_count then (Some False, that, expected, spin_count, spins)
            else let expected = 0 in (None, that, expected, spin_count, spins))"

lemma spincount_decreases:
  assumes "acquire_spincount_attempt that expected n sp = (None, w, e, n', sp')"
  shows "unat (n' - 1) < unat (n - 1)"
proof -
  have "n' = n - 1" "0 < n'"
    using assms by (auto simp: acquire_spincount_attempt_def Let_def word_neq_0_conv[symmetric]
        split: prod.splits if_splits)
  moreover from this(2) have "unat (n' - 1) < unat n'"
    by (simp add: unat_dec_pos word_less_unat)
  ultimately show ?thesis
    by simp
qed

text \<open>
  The bounded variant. The lock word is returned as the calling thread leaves it. The counter
  is decremented before it is compared with 0, so the loop ends for every start value; a
  start value of 0 wraps around.
\<close>

function acquire_spincount_loop ::
    "(nat \<Rightarrow> u32) \<Rightarrow> nat \<Rightarrow> u32 \<Rightarrow> u32 \<Rightarrow> u32 \<Rightarrow> bool \<times> embb_mtapi_spinlock \<times> u32" where
  "acquire_spincount_loop obs k expected spin_count spins =
     (case acquire_spincount_attempt (obs k) expected spin_count spins of
        (out, that, expected, spin_count, spins) \<Rightarrow>
          (case out of
             Some ok \<Rightarrow> (ok, that, spins)
           | None \<Rightarrow> acquire_spincount_loop obs (Suc k) expected spin_count spins))"
  by pat_completeness auto
termination
  by (relation "measure (\<lambda>(obs, k, expected, spin_count, spins). unat (spin_count - 1))")
     (auto dest!: sym[of _ "acquire_spincount_attempt _ _ _ _"] intro: spincount_decreases)

declare acquire_spincount_loop.simps [simp del]

definition embb_mtapi_spinlock_acquire_with_spincount ::
    "(nat \<Rightarrow> u32) \<Rightarrow> u32 \<Rightarrow> u32 \<Rightarrow> bool \<times> embb_mtapi_spinlock \<times> u32" where
  "embb_mtapi_spinlock_acquire_with_spincount obs max_spin_count spins =
     acquire_spincount_loop obs 0 acquire_expected max_spin_count spins"

definition embb_mtapi_spinlock_release :: "embb_mtapi_spinlock \<Rightarrow> bool \<times> embb_mtapi_spinlock" where
  "embb_mtapi_spinlock_release that =
     (case embb_atomic_compare_and_swap that 1 0 of (ok, that, _) \<Rightarrow> (ok, that))"

text \<open>
  The lock as a function that has the lock word to itself uses it. The counter of spins is a
  statistic that is only written to the log, and it is dropped here.
\<close>

definition spin_lock :: "embb_mtapi_spinlock \<Rightarrow> (bool \<times> embb_mtapi_spinlock) option" where
  "spin_lock that = do { (ok, that, _) \<leftarrow> embb_mtapi_spinlock_acquire (\<lambda>_. that) 0; Some (ok, that) }"

definition spin_lock_count :: "embb_mtapi_spinlock \<Rightarrow> u32 \<Rightarrow> bool \<times> embb_mtapi_spinlock" where
  "spin_lock_count that n =
     (case embb_mtapi_spinlock_acquire_with_spincount (\<lambda>_. that) n 0 of (ok, that, _) \<Rightarrow> (ok, that))"

section \<open>What one caller sees\<close>

lemmas attempt_defs = acquire_expected_def acquire_attempt_def acquire_spincount_attempt_def
  embb_atomic_compare_and_swap_def embb_atomic_fetch_and_add_def

named_theorems lock_simps \<open>taking and releasing a lock nobody else holds\<close>

lemma acquire_loop_skip:
  assumes "\<forall>j<n. obs (k + j) \<noteq> 0" "obs (k + n) = 0"
  shows "acquire_loop obs k 0 spins = Some (1, spins + of_nat n)"
  using assms
proof (induction n arbitrary: k spins)
  case 0
  then show ?case
    by (subst acquire_loop.simps) (simp add: attempt_defs)
next
  case (Suc n)
  have "obs k \<noteq> 0"
    using Suc.prems(1)[rule_format, of 0] by simp
  then have "acquire_loop obs k 0 spins = acquire_loop obs (Suc k) 0 (spins + 1)"
    by (subst acquire_loop.simps)
       (simp add: attempt_defs)
  also have "\<dots> = Some (1, spins + 1 + of_nat n)"
    using Suc.prems by (intro Suc.IH) (auto dest: spec[of _ "Suc _"])
  finally show ?case
    by (simp add: add.assoc)
qed

lemma acquire_spincount_loop_first:
  assumes "\<forall>j<n. obs (k + j) \<noteq> 0" "obs (k + n) = 0" "n \<le> unat (c - 1)"
  shows "acquire_spincount_loop obs k 0 c spins = (True, 1, spins + of_nat n)"
  using assms
proof (induction n arbitrary: k c spins)
  case 0
  then show ?case
    by (simp add: acquire_spincount_loop.simps attempt_defs)
next
  case (Suc n)
  have ne: "obs k \<noteq> 0"
    using Suc.prems(1)[rule_format, of 0] by simp
  have pos: "0 < c - 1"
    using Suc.prems(3) by (simp add: word_less_unat)
  then have "c \<noteq> 1"
    by auto
  then have "acquire_spincount_loop obs k 0 c spins =
      acquire_spincount_loop obs (Suc k) 0 (c - 1) (spins + 1)"
    using ne by (subst acquire_spincount_loop.simps)
      (simp add: attempt_defs)
  also have "\<dots> = (True, 1, spins + 1 + of_nat n)"
    using Suc.prems unat_dec_pos[OF pos] by (intro Suc.IH) (auto dest: spec[of _ "Suc _"])
  finally show ?case
    by (simp add: add.assoc)
qed

lemma acquire_spincount_loop_timeout:
  assumes "\<forall>j\<le>n. obs (k + j) \<noteq> 0" "n = unat (c - 1)"
  shows "acquire_spincount_loop obs k 0 c spins = (False, obs (k + n), spins + of_nat (Suc n))"
  using assms
proof (induction n arbitrary: k c spins)
  case 0
  then have "c - 1 = 0"
    by (simp add: unat_eq_0)
  with 0 show ?case
    by (subst acquire_spincount_loop.simps)
       (simp add: attempt_defs)
next
  case (Suc n)
  have ne: "obs k \<noteq> 0"
    using Suc.prems(1)[rule_format, of 0] by simp
  have pos: "0 < c - 1"
    using Suc.prems(2) by (simp add: word_less_unat)
  then have "c \<noteq> 1"
    by auto
  then have "acquire_spincount_loop obs k 0 c spins =
      acquire_spincount_loop obs (Suc k) 0 (c - 1) (spins + 1)"
    using ne by (subst acquire_spincount_loop.simps)
      (simp add: attempt_defs)
  also have "\<dots> = (False, obs (Suc k + n), spins + 1 + of_nat (Suc n))"
  proof (rule Suc.IH)
    show "\<forall>j\<le>n. obs (Suc k + j) \<noteq> 0"
      using Suc.prems(1) by (auto dest: spec[of _ "Suc _"])
    show "n = unat (c - 1 - 1)"
      using Suc.prems(2) unat_dec_pos[OF pos] by simp
  qed
  finally show ?case
    by (simp add: add.assoc)
qed

lemma spin_lock_free [lock_simps]: "spin_lock 0 = Some (True, 1)"
  using acquire_loop_skip[of 0 "\<lambda>_. 0" 0 0]
  by (simp add: spin_lock_def acquire_expected_def embb_mtapi_spinlock_acquire_def)

lemma spin_lock_count_free [lock_simps]: "0 < n \<Longrightarrow> spin_lock_count 0 n = (True, 1)"
  using acquire_spincount_loop_first[of 0 "\<lambda>_. 0" 0 n 0]
  by (simp add: spin_lock_count_def acquire_expected_def embb_mtapi_spinlock_acquire_with_spincount_def word_less_unat)

lemma spin_lock_count_held:
  "that \<noteq> 0 \<Longrightarrow> spin_lock_count that n = (False, that)"
  using acquire_spincount_loop_timeout[of "unat (n - 1)" "\<lambda>_. that" 0 n 0]
  by (simp add: spin_lock_count_def acquire_expected_def embb_mtapi_spinlock_acquire_with_spincount_def)

lemma release_held [lock_simps]: "embb_mtapi_spinlock_release 1 = (True, 0)"
  by (simp add: embb_mtapi_spinlock_release_def embb_atomic_compare_and_swap_def)

lemma release_free: "embb_mtapi_spinlock_release 0 = (False, 0)"
  by (simp add: embb_mtapi_spinlock_release_def embb_atomic_compare_and_swap_def)

lemma acquire_loop_never:
  assumes "acquire_loop obs k expected spins = Some r"
  shows "expected = 0 \<longrightarrow> (\<exists>n. obs n = 0)"
proof (rule acquire_loop.raw_induct[where P = "\<lambda>obs k expected spins r. expected = 0 \<longrightarrow> (\<exists>n. obs n = 0)"])
  show "acquire_loop obs k expected spins = Some r" by (rule assms)
next
  fix loop obs k expected spins r
  assume IH: "\<And>obs k expected spins r. loop obs k expected spins = Some r \<Longrightarrow>
      expected = 0 \<longrightarrow> (\<exists>n. obs n = (0::u32))"
    and body: "(case acquire_attempt (obs k) expected spins of
      (ok, that, expected, spins) \<Rightarrow>
        if ok then Some (that, spins) else loop obs (Suc k) expected spins) = Some r"
  show "expected = 0 \<longrightarrow> (\<exists>n. obs n = 0)"
    using body IH[of obs "Suc k" 0]
    by (auto simp: attempt_defs split: if_splits)
qed

text \<open>
  The number of attempts of the bounded variant: with a bound of \<open>c\<close> the loop looks at the
  lock word at most \<open>unat (c - 1) + 1\<close> times, which is \<open>c\<close> times for a positive bound.
\<close>

lemma spin_attempts: "0 < c \<Longrightarrow> Suc (unat (c - 1)) = unat (c :: u32)"
  by (simp add: unat_dec_pos word_less_unat)

section \<open>Threads around one lock\<close>

text \<open>
  A critical section is the list of the memory accesses a thread makes while it holds the lock,
  each a function on the guarded data. A thread is outside, is in the loop of one of the two
  acquire functions for a section, with the values of its local variables \<open>expected\<close> and \<open>spin_count\<close>, or is
  inside, with the accesses it still has to make. The steps are those of the functions above: the
  loops' turns, one at a time, and the release. The field \<open>completed\<close> records the finished sections in order.
\<close>

type_synonym 'd section_code = "('d \<Rightarrow> 'd) list"

datatype 'd thread_pc =
  Outside
| Trying "'d section_code" u32
| Trying_Count "'d section_code" u32 u32
| Inside "'d section_code" "'d section_code"

record 'd lock_sys =
  lock_word :: embb_mtapi_spinlock
  lock_spins :: u32
  guarded :: 'd
  pcs :: "nat \<Rightarrow> 'd thread_pc"
  completed :: "'d section_code list"

definition run_section :: "'d section_code \<Rightarrow> 'd \<Rightarrow> 'd" where
  "run_section sec d = fold (\<lambda>m d. m d) sec d"

definition run_sections :: "'d section_code list \<Rightarrow> 'd \<Rightarrow> 'd" where
  "run_sections secs d = fold run_section secs d"

definition lock_sys_init :: "'d \<Rightarrow> 'd lock_sys" where
  "lock_sys_init d = \<lparr>lock_word = embb_mtapi_spinlock_initialize, lock_spins = 0, guarded = d,
     pcs = (\<lambda>_. Outside), completed = []\<rparr>"

inductive lock_step :: "'d lock_sys \<Rightarrow> 'd lock_sys \<Rightarrow> bool" where
  enter: "pcs s t = Outside \<Longrightarrow>
    lock_step s (s\<lparr>pcs := (pcs s)(t := Trying sec acquire_expected)\<rparr>)"
| enter_count: "pcs s t = Outside \<Longrightarrow>
    lock_step s (s\<lparr>pcs := (pcs s)(t := Trying_Count sec acquire_expected max_spin_count)\<rparr>)"
| attempt: "pcs s t = Trying sec expected \<Longrightarrow>
    acquire_attempt (lock_word s) expected (lock_spins s) = (ok, w, expected', spins') \<Longrightarrow>
    lock_step s (s\<lparr>lock_word := w, lock_spins := spins',
      pcs := (pcs s)(t := if ok then Inside sec sec else Trying sec expected')\<rparr>)"
| attempt_count: "pcs s t = Trying_Count sec expected n \<Longrightarrow>
    acquire_spincount_attempt (lock_word s) expected n (lock_spins s) =
      (out, w, expected', n', spins') \<Longrightarrow>
    lock_step s (s\<lparr>lock_word := w, lock_spins := spins',
      pcs := (pcs s)(t := case out of Some True \<Rightarrow> Inside sec sec | Some False \<Rightarrow> Outside
        | None \<Rightarrow> Trying_Count sec expected' n')\<rparr>)"
| access: "pcs s t = Inside sec (m # ms) \<Longrightarrow>
    lock_step s (s\<lparr>guarded := m (guarded s), pcs := (pcs s)(t := Inside sec ms)\<rparr>)"
| leave: "pcs s t = Inside sec [] \<Longrightarrow> embb_mtapi_spinlock_release (lock_word s) = (ok, w) \<Longrightarrow>
    lock_step s (s\<lparr>lock_word := w, pcs := (pcs s)(t := Outside),
      completed := completed s @ [sec]\<rparr>)"

inductive lock_reach :: "'d \<Rightarrow> 'd lock_sys \<Rightarrow> bool" for d where
  reach_init: "lock_reach d (lock_sys_init d)"
| reach_step: "lock_reach d s \<Longrightarrow> lock_step s s' \<Longrightarrow> lock_reach d s'"

definition inside :: "'d lock_sys \<Rightarrow> nat \<Rightarrow> bool" where
  "inside s t \<longleftrightarrow> (\<exists>sec ms. pcs s t = Inside sec ms)"

text \<open>A thread in a loop compares the lock word with 0 at every turn.\<close>

definition expects_zero :: "'d lock_sys \<Rightarrow> bool" where
  "expects_zero s \<longleftrightarrow> (\<forall>t sec e n. (pcs s t = Trying sec e \<longrightarrow> e = 0) \<and>
     (pcs s t = Trying_Count sec e n \<longrightarrow> e = 0))"

definition lock_free_inv :: "'d \<Rightarrow> 'd lock_sys \<Rightarrow> bool" where
  "lock_free_inv d s \<longleftrightarrow> lock_word s = 0 \<and> (\<forall>t. \<not> inside s t) \<and>
     guarded s = run_sections (completed s) d"

definition lock_held_inv :: "'d \<Rightarrow> 'd lock_sys \<Rightarrow> nat \<Rightarrow> bool" where
  "lock_held_inv d s t \<longleftrightarrow> lock_word s = 1 \<and> (\<forall>u. u \<noteq> t \<longrightarrow> \<not> inside s u) \<and>
     (\<exists>past rest. pcs s t = Inside (past @ rest) rest \<and>
        guarded s = run_section past (run_sections (completed s) d))"

lemma run_section_snoc: "run_section (sec @ [m]) d = m (run_section sec d)"
  by (simp add: run_section_def)

lemma run_sections_snoc: "run_sections (secs @ [sec]) d = run_section sec (run_sections secs d)"
  by (simp add: run_sections_def)

lemma acquire_attempt_zero:
  "acquire_attempt 0 0 sp = (True, 1, 0, sp)"
  "w \<noteq> 0 \<Longrightarrow> acquire_attempt w 0 sp = (False, w, 0, sp + 1)"
  by (simp_all add: attempt_defs)

lemma acquire_spincount_attempt_zero:
  "acquire_spincount_attempt 0 0 n sp = (Some True, 1, 0, n, sp)"
  "w \<noteq> 0 \<Longrightarrow> acquire_spincount_attempt w 0 n sp =
     (if n - 1 = 0 then (Some False, w, w, 0, sp + 1) else (None, w, 0, n - 1, sp + 1))"
  by (simp_all add: attempt_defs)

lemmas attempt_zero = acquire_attempt_zero acquire_spincount_attempt_zero

lemma lock_step_expects:
  assumes "lock_step s s'" "expects_zero s"
  shows "expects_zero s'"
  using assms
  by (cases rule: lock_step.cases)
     (auto simp: expects_zero_def attempt_defs Let_def split: if_splits)

lemma lock_step_free:
  assumes "lock_step s s'" "expects_zero s" "lock_free_inv d s"
  shows "lock_free_inv d s' \<or> (\<exists>t. lock_held_inv d s' t)"
  using assms(1)
proof (cases rule: lock_step.cases)
  case (attempt t sec e ok w e' sp)
  then have "e = 0"
    using assms(2) by (auto simp: expects_zero_def)
  then have "lock_held_inv d s' t"
    using attempt assms(3)
    by (auto simp: lock_held_inv_def lock_free_inv_def inside_def run_section_def attempt_zero)
  then show ?thesis by blast
next
  case (attempt_count t sec e n out w e' n' sp)
  then have "e = 0"
    using assms(2) by (auto simp: expects_zero_def)
  then have "lock_held_inv d s' t"
    using attempt_count assms(3)
    by (auto simp: lock_held_inv_def lock_free_inv_def inside_def run_section_def attempt_zero)
  then show ?thesis by blast
qed (use assms(3) in \<open>auto simp: lock_free_inv_def inside_def split: if_splits\<close>)

lemma lock_step_held:
  assumes "lock_step s s'" "expects_zero s" "lock_held_inv d s t"
  shows "lock_free_inv d s' \<or> lock_held_inv d s' t"
proof -
  obtain past rest where pc: "pcs s t = Inside (past @ rest) rest"
      "guarded s = run_section past (run_sections (completed s) d)"
    and word: "lock_word s = 1" and others: "\<And>u sec ms. u \<noteq> t \<Longrightarrow> pcs s u \<noteq> Inside sec ms"
    using assms(3) by (auto simp: lock_held_inv_def inside_def)
  show ?thesis
    using assms(1)
  proof (cases rule: lock_step.cases)
    case (access u sec m ms)
    then have u: "u = t"
      using others by blast
    have "pcs s' t = Inside ((past @ [m]) @ ms) ms"
        "guarded s' = run_section (past @ [m]) (run_sections (completed s') d)"
      using access pc u by (auto simp: run_section_snoc)
    then have "lock_held_inv d s' t"
      using access u others word unfolding lock_held_inv_def inside_def by (auto intro!: exI)
    then show ?thesis ..
  next
    case (leave u sec ok w)
    then have "u = t"
      using others by blast
    then have "lock_free_inv d s'"
      using leave pc others word
      by (auto simp: lock_free_inv_def inside_def run_sections_snoc release_held)
    then show ?thesis ..
  next
    case (attempt u sec e ok w e' sp)
    then have "e = 0" "u \<noteq> t"
      using assms(2) pc by (auto simp: expects_zero_def)
    then show ?thesis
      using attempt pc others word by (auto simp: lock_held_inv_def inside_def attempt_zero)
  next
    case (attempt_count u sec e n out w e' n' sp)
    then have "e = 0" "u \<noteq> t"
      using assms(2) pc by (auto simp: expects_zero_def)
    then show ?thesis
      using attempt_count pc others word
      by (auto simp: lock_held_inv_def inside_def attempt_zero split: if_splits)
  qed (use pc others word in \<open>auto simp: lock_held_inv_def inside_def split: if_splits\<close>)
qed

lemma lock_reach_expects: "lock_reach d s \<Longrightarrow> expects_zero s"
proof (induction rule: lock_reach.induct)
  case reach_init
  show ?case by (simp add: expects_zero_def lock_sys_init_def)
next
  case (reach_step s s')
  then show ?case by (blast intro: lock_step_expects)
qed

lemma lock_reach_inv: "lock_reach d s \<Longrightarrow> lock_free_inv d s \<or> (\<exists>t. lock_held_inv d s t)"
proof (induction rule: lock_reach.induct)
  case reach_init
  show ?case
    by (simp add: lock_free_inv_def lock_sys_init_def inside_def run_sections_def
        embb_mtapi_spinlock_initialize_def)
next
  case (reach_step s s')
  from reach_step.IH show ?case
  proof
    assume "lock_free_inv d s"
    with reach_step.hyps(2) lock_reach_expects[OF reach_step.hyps(1)] show ?thesis
      by (rule lock_step_free)
  next
    assume "\<exists>t. lock_held_inv d s t"
    then obtain t where "lock_held_inv d s t" ..
    with reach_step.hyps(2) lock_reach_expects[OF reach_step.hyps(1)]
    have "lock_free_inv d s' \<or> lock_held_inv d s' t" by (rule lock_step_held)
    then show ?thesis by blast
  qed
qed

lemma first_free:
  fixes obs :: "nat \<Rightarrow> u32"
  assumes "\<exists>n. obs n = 0"
  obtains m where "(LEAST n. obs n = 0) = m" "obs m = 0" "\<forall>j<m. obs j \<noteq> 0"
  using LeastI_ex[OF assms] not_less_Least[of _ "\<lambda>n. obs n = 0"] that by blast

section \<open>Properties\<close>

text \<open>
  C6. Mutual exclusion and serialisation. In every state that any number of threads can reach by
  taking the lock (with or without a bound on the spins), accessing the guarded data one access at a time, and
  releasing it: at most one thread is inside a critical section, and then the lock word is 1; and
  whenever the lock word is 0, the data is what the completed sections compute when each is run as a whole, in the
  order in which they were completed.
\<close>

theorem spinlock_serialises_sections:
  assumes "lock_reach d s"
  shows "(inside s t \<and> inside s u \<longrightarrow> t = u) \<and> (inside s t \<longrightarrow> lock_word s = 1) \<and>
         (lock_word s = 0 \<longrightarrow> guarded s = run_sections (completed s) d)"
  using lock_reach_inv[OF assms]
proof
  assume "\<exists>t. lock_held_inv d s t"
  then obtain v where "lock_word s = 1" "\<And>u. inside s u \<Longrightarrow> u = v"
    by (auto simp: lock_held_inv_def)
  then show ?thesis by auto
qed (simp add: lock_free_inv_def)

lemma two_threads_example:
  fixes f :: "nat \<Rightarrow> nat"
  defines "s \<equiv> \<lparr>lock_word = 1, lock_spins = 1, guarded = f 5,
    pcs = (\<lambda>_. Outside)(0 := Inside [f] [], 1 := Trying [] 0), completed = []\<rparr>"
  shows "lock_reach 5 s"
proof -
  let ?s0 = "lock_sys_init (5::nat)"
  let ?s1 = "?s0\<lparr>pcs := (pcs ?s0)(0 := Trying [f] acquire_expected)\<rparr>"
  let ?s2 = "?s1\<lparr>lock_word := 1, lock_spins := 0, pcs := (pcs ?s1)(0 := Inside [f] [f])\<rparr>"
  let ?s3 = "?s2\<lparr>guarded := f (guarded ?s2), pcs := (pcs ?s2)(0 := Inside [f] [])\<rparr>"
  let ?s4 = "?s3\<lparr>pcs := (pcs ?s3)(1 := Trying [] acquire_expected)\<rparr>"
  let ?s5 = "?s4\<lparr>lock_word := 1, lock_spins := 1, pcs := (pcs ?s4)(1 := Trying [] 0)\<rparr>"
  note init = lock_sys_init_def embb_mtapi_spinlock_initialize_def acquire_expected_def attempt_zero
  have "lock_step ?s0 ?s1"
    by (rule lock_step.enter) (simp add: lock_sys_init_def)
  moreover have "lock_step ?s1 ?s2"
    using lock_step.attempt[of ?s1 0 "[f]" 0 True 1 0 0] by (simp add: init)
  moreover have "lock_step ?s2 ?s3"
    by (rule lock_step.access[where sec = "[f]"]) (simp add: lock_sys_init_def)
  moreover have "lock_step ?s3 ?s4"
    by (rule lock_step.enter) (simp add: lock_sys_init_def)
  moreover have "lock_step ?s4 ?s5"
    using lock_step.attempt[of ?s4 1 "[]" 0 False 1 0 1] by (simp add: init)
  ultimately have "lock_reach 5 ?s5"
    by (meson lock_reach.intros)
  moreover have "?s5 = s"
    by (simp add: s_def lock_sys_init_def fun_upd_twist)
  ultimately show ?thesis by simp
qed

theorem spinlock_serialises_sections_witness:
  "let s = \<lparr>lock_word = 1, lock_spins = 1, guarded = Suc 5,
     pcs = (\<lambda>_. Outside)(0 := Inside [Suc] [], 1 := Trying [] 0), completed = []\<rparr>
   in lock_reach 5 s \<and> inside s 0 \<and> lock_word s = 1 \<and> \<not> inside s 1"
  using two_threads_example[of Suc]
    spinlock_serialises_sections[OF two_threads_example[of Suc], of 0 1]
  by (simp add: inside_def)

text \<open>
  The unbounded acquire returns exactly when the lock word is 0 at one of its attempts. It then has taken
  the lock at the first such attempt, has left the value 1, and has counted the failed
  attempts before it. Otherwise it does not return.
\<close>

lemma spinlock_acquire_returns:
  "embb_mtapi_spinlock_acquire obs spins =
     (if \<exists>n. obs n = 0 then Some (True, 1, spins + of_nat (LEAST n. obs n = 0)) else None)"
proof (cases "\<exists>n. obs n = 0")
  case True
  then obtain m where m: "(LEAST n. obs n = 0) = m" "obs m = 0" "\<forall>j<m. obs j \<noteq> 0"
    by (rule first_free)
  then have "acquire_loop obs 0 0 spins = Some (1, spins + of_nat m)"
    by (intro acquire_loop_skip) simp_all
  then show ?thesis
    using True by (simp add: embb_mtapi_spinlock_acquire_def acquire_expected_def m(1))
next
  case False
  then have "acquire_loop obs 0 0 spins = None"
    using acquire_loop_never[of obs 0 0 spins] by (cases "acquire_loop obs 0 0 spins") auto
  then show ?thesis
    using False by (simp add: embb_mtapi_spinlock_acquire_def acquire_expected_def)
qed

text \<open>
  The bounded acquire always returns. With a bound of \<open>c\<close> it makes at most \<open>unat (c - 1) + 1\<close> attempts, that
  is \<open>c\<close> of them for a positive bound and \<open>2 ^ 32\<close> for a bound of 0. It takes the lock at the first of
  them that finds it free; if none does it reports failure and leaves the lock word alone.
\<close>

lemma spinlock_acquire_with_spincount_bound:
  "embb_mtapi_spinlock_acquire_with_spincount obs c spins =
     (if \<exists>n \<le> unat (c - 1). obs n = 0 then (True, 1, spins + of_nat (LEAST n. obs n = 0))
      else (False, obs (unat (c - 1)), spins + of_nat (Suc (unat (c - 1))))) \<and>
   (if c = 0 then Suc (unat (c - 1)) = 2 ^ 32 else Suc (unat (c - 1)) = unat c)"
proof
  show "if c = 0 then Suc (unat (c - 1)) = 2 ^ 32 else Suc (unat (c - 1)) = unat c"
    using spin_attempts[of c] by (simp add: unat_max_u32 word_neq_0_conv)
  show "embb_mtapi_spinlock_acquire_with_spincount obs c spins =
     (if \<exists>n \<le> unat (c - 1). obs n = 0 then (True, 1, spins + of_nat (LEAST n. obs n = 0))
      else (False, obs (unat (c - 1)), spins + of_nat (Suc (unat (c - 1)))))"
  proof (cases "\<exists>n \<le> unat (c - 1). obs n = 0")
    case True
    then obtain n where n: "n \<le> unat (c - 1)" "obs n = 0" by blast
    then obtain m where m: "(LEAST n. obs n = 0) = m" "obs m = 0" "\<forall>j<m. obs j \<noteq> 0"
      using first_free[of obs] by blast
    then have "m \<le> unat (c - 1)"
      using n by (metis leI le_trans)
    then have "acquire_spincount_loop obs 0 0 c spins = (True, 1, spins + of_nat m)"
      using m(2,3) by (intro acquire_spincount_loop_first) simp_all
    then show ?thesis
      using True by (simp add: embb_mtapi_spinlock_acquire_with_spincount_def acquire_expected_def m(1))
  next
    case False
    then show ?thesis
      using acquire_spincount_loop_timeout[of "unat (c - 1)" obs 0 c spins]
      by (auto simp: embb_mtapi_spinlock_acquire_with_spincount_def acquire_expected_def)
  qed
qed

end
