(* ===== verification/Id_Pool.thy ===== *)
theory Id_Pool
  imports Ring_Buffer Spinlock
begin

text \<open>
  The pool of object ids (\<^verbatim>\<open>mtapi_c/src/embb_mtapi_id_pool_t.c\<close>): a ring of \<open>capacity + 1\<close> slots
  that holds the ids which are free. Id 0 is the invalid id. The theory shows that the ring is a
  bounded queue of ids (\<open>id_fifo\<close>), and that against a set of ids that are in use the pool
  hands out each id at most once (\<open>id_pool_owns\<close>).
\<close>

definition EMBB_MTAPI_IDPOOL_INVALID_ID :: u32 where
  "EMBB_MTAPI_IDPOOL_INVALID_ID = 0"

record embb_mtapi_id_pool =
  idp_capacity :: u32
  idp_ids_available :: u32
  idp_put_id_position :: u32
  idp_get_id_position :: u32
  idp_id_buffer :: "u32 list"
  idp_lock :: embb_mtapi_spinlock

text \<open>\<open>garbage\<close> is what the freshly allocated memory happens to hold.\<close>

definition embb_mtapi_id_pool_initialize :: "(nat \<Rightarrow> u32) \<Rightarrow> u32 \<Rightarrow> embb_mtapi_id_pool option" where
  "embb_mtapi_id_pool_initialize garbage capacity =
     do { buffer \<leftarrow> arr_set (map garbage [0..<alloc_count 4 (capacity + 1)]) 0 EMBB_MTAPI_IDPOOL_INVALID_ID;
          buffer \<leftarrow> for_le (\<lambda>ii buffer. arr_set buffer ii ii) 1 capacity buffer;
          Some \<lparr>idp_capacity = capacity, idp_ids_available = capacity, idp_put_id_position = 0,
            idp_get_id_position = 1, idp_id_buffer = buffer,
            idp_lock = embb_mtapi_spinlock_initialize\<rparr> }"

definition embb_mtapi_id_pool_finalize :: "embb_mtapi_id_pool \<Rightarrow> embb_mtapi_id_pool" where
  "embb_mtapi_id_pool_finalize that =
     that\<lparr>idp_capacity := 0, idp_ids_available := 0, idp_get_id_position := 0,
       idp_put_id_position := 0, idp_id_buffer := [], idp_lock := embb_mtapi_spinlock_finalize\<rparr>"

definition embb_mtapi_id_pool_allocate :: "embb_mtapi_id_pool \<Rightarrow> (u32 \<times> embb_mtapi_id_pool) option" where
  "embb_mtapi_id_pool_allocate that =
     do { (locked, lock) \<leftarrow> spin_lock (idp_lock that);
          let that = that\<lparr>idp_lock := lock\<rparr>;
          if locked then
            do { (id, that) \<leftarrow>
                   (if 0 < idp_ids_available that then
                      do { let that = that\<lparr>idp_ids_available := idp_ids_available that - 1\<rparr>;
                           let id_position = idp_get_id_position that;
                           let that = that\<lparr>idp_get_id_position := idp_get_id_position that + 1\<rparr>;
                           let that = (if idp_capacity that < idp_get_id_position that
                                       then that\<lparr>idp_get_id_position := 0\<rparr> else that);
                           id \<leftarrow> arr_get (idp_id_buffer that) id_position;
                           buffer \<leftarrow> arr_set (idp_id_buffer that) id_position EMBB_MTAPI_IDPOOL_INVALID_ID;
                           Some (id, that\<lparr>idp_id_buffer := buffer\<rparr>) }
                    else Some (EMBB_MTAPI_IDPOOL_INVALID_ID, that));
                 Some (id, that\<lparr>idp_lock := snd (embb_mtapi_spinlock_release (idp_lock that))\<rparr>) }
          else Some (EMBB_MTAPI_IDPOOL_INVALID_ID, that) }"

definition embb_mtapi_id_pool_deallocate :: "embb_mtapi_id_pool \<Rightarrow> u32 \<Rightarrow> embb_mtapi_id_pool option" where
  "embb_mtapi_id_pool_deallocate that oid =
     do { (locked, lock) \<leftarrow> spin_lock (idp_lock that);
          let that = that\<lparr>idp_lock := lock\<rparr>;
          if locked then
            do { that \<leftarrow>
                   (if idp_ids_available that < idp_capacity that then
                      do { let id_position = idp_put_id_position that;
                           let that = that\<lparr>idp_put_id_position := idp_put_id_position that + 1\<rparr>;
                           let that = (if idp_capacity that < idp_put_id_position that
                                       then that\<lparr>idp_put_id_position := 0\<rparr> else that);
                           buffer \<leftarrow> arr_set (idp_id_buffer that) id_position oid;
                           Some (that\<lparr>idp_id_buffer := buffer,
                                      idp_ids_available := idp_ids_available that + 1\<rparr>) }
                    else Some that);
                 Some (that\<lparr>idp_lock := snd (embb_mtapi_spinlock_release (idp_lock that))\<rparr>) }
          else Some that }"

section \<open>The ring invariant\<close>

text \<open>
  In a pool of capacity 0 the read position lies outside the buffer of one slot; neither operation
  uses it there, and the ring condition is left out.
\<close>

definition id_pool_free :: "embb_mtapi_id_pool \<Rightarrow> u32 list" where
  "id_pool_free q =
     ring_list (idp_id_buffer q) (unat (idp_get_id_position q)) (unat (idp_ids_available q))"

definition id_pool_wf :: "embb_mtapi_id_pool \<Rightarrow> bool" where
  "id_pool_wf q \<longleftrightarrow> idp_lock q = 0 \<and> unat (idp_capacity q) < 2 ^ 32 - 1 \<and>
     length (idp_id_buffer q) = Suc (unat (idp_capacity q)) \<and>
     idp_ids_available q \<le> idp_capacity q \<and>
     (0 < idp_capacity q \<longrightarrow>
        ring_wf (idp_id_buffer q) (unat (idp_get_id_position q)) (unat (idp_put_id_position q))
          (unat (idp_ids_available q))) \<and>
     0 \<notin> set (id_pool_free q)"

text \<open>An allocation that finds a free id takes the oldest one.\<close>

lemma id_pool_allocate_some:
  assumes wf: "id_pool_wf q" and free: "id_pool_free q = x # xs"
  shows "\<exists>q'. embb_mtapi_id_pool_allocate q = Some (x, q') \<and> id_pool_wf q' \<and> id_pool_free q' = xs \<and>
           idp_capacity q' = idp_capacity q"
proof -
  let ?buf = "idp_id_buffer q" and ?g = "unat (idp_get_id_position q)"
    and ?n = "unat (idp_ids_available q)" and ?cap = "idp_capacity q"
  have lock: "idp_lock q = 0" and cap: "unat ?cap < 2 ^ 32 - 1"
    and len: "length ?buf = Suc (unat ?cap)" and avail: "idp_ids_available q \<le> ?cap"
    using wf by (auto simp: id_pool_wf_def)
  have n: "0 < ?n"
    using free by (cases "?n") (auto simp: id_pool_free_def)
  then have ring: "ring_wf ?buf ?g (unat (idp_put_id_position q)) ?n"
    using wf by (auto simp: id_pool_wf_def word_le_unat word_less_unat)
  have pos: "0 < idp_ids_available q"
    using n by (simp add: word_less_unat)
  have g: "?g < length ?buf"
    using ring by (rule ring_wf_get_bound)
  then have next_g: "unat (if ?cap < idp_get_id_position q + 1 then 0 else idp_get_id_position q + 1) =
      Suc ?g mod length ?buf"
    using unat_pos_next_less[of "idp_get_id_position q" ?cap] cap len by simp
  have x: "?buf ! ?g = x"
    using ring_list_hd[OF ring n] free by (simp add: id_pool_free_def)
  let ?q' = "q\<lparr>idp_ids_available := idp_ids_available q - 1,
      idp_get_id_position := (if ?cap < idp_get_id_position q + 1 then 0 else idp_get_id_position q + 1),
      idp_id_buffer := ?buf[?g := 0], idp_lock := 0\<rparr>"
  have run: "embb_mtapi_id_pool_allocate q = Some (x, ?q')"
    using lock pos g x
    by (simp add: embb_mtapi_id_pool_allocate_def lock_simps arr_simps EMBB_MTAPI_IDPOOL_INVALID_ID_def
        Let_def)
  have xs: "id_pool_free ?q' = xs"
    using ring_list_get[OF ring n, of 0] free next_g pos
    by (simp add: id_pool_free_def unat_dec_pos)
  moreover have "id_pool_wf ?q'"
    using ring_wf_get[OF ring n, of 0] xs wf free next_g pos avail len cap
    by (auto simp: id_pool_wf_def unat_dec_pos word_le_unat)
  ultimately show ?thesis
    using run by (intro exI[of _ ?q']) simp
qed

lemma id_pool_allocate_none:
  assumes "id_pool_wf q" "id_pool_free q = []"
  shows "embb_mtapi_id_pool_allocate q = Some (0, q)"
proof -
  have "unat (idp_ids_available q) = 0"
    using assms(2) length_ring_list by (metis id_pool_free_def list.size(3))
  then have "idp_ids_available q = 0"
    by (simp add: unat_eq_0)
  then show ?thesis
    using assms(1)
    by (simp add: embb_mtapi_id_pool_allocate_def id_pool_wf_def lock_simps
        EMBB_MTAPI_IDPOOL_INVALID_ID_def Let_def)
qed

text \<open>An id that is given back goes to the end of the queue.\<close>

lemma id_pool_deallocate_room:
  assumes wf: "id_pool_wf q" and oid: "oid \<noteq> 0" and room: "length (id_pool_free q) < unat (idp_capacity q)"
  shows "\<exists>q'. embb_mtapi_id_pool_deallocate q oid = Some q' \<and> id_pool_wf q' \<and>
           id_pool_free q' = id_pool_free q @ [oid] \<and> idp_capacity q' = idp_capacity q"
proof -
  let ?buf = "idp_id_buffer q" and ?p = "unat (idp_put_id_position q)"
    and ?n = "unat (idp_ids_available q)" and ?cap = "idp_capacity q"
  have lock: "idp_lock q = 0" and cap: "unat ?cap < 2 ^ 32 - 1"
    and len: "length ?buf = Suc (unat ?cap)"
    using wf by (auto simp: id_pool_wf_def)
  have n: "?n < unat ?cap" "idp_ids_available q < ?cap"
    using room by (auto simp: id_pool_free_def word_less_unat)
  have ring: "ring_wf ?buf (unat (idp_get_id_position q)) ?p ?n"
    using wf n by (auto simp: id_pool_wf_def word_less_unat)
  have n_buf: "?n < length ?buf"
    using len n by simp
  have p: "?p < length ?buf"
    using ring by (rule ring_wf_put_bound)
  then have next_p: "unat (if ?cap < idp_put_id_position q + 1 then 0 else idp_put_id_position q + 1) =
      Suc ?p mod length ?buf"
    using unat_pos_next_less[of "idp_put_id_position q" ?cap] cap len by simp
  let ?q' = "q\<lparr>idp_put_id_position := (if ?cap < idp_put_id_position q + 1 then 0 else idp_put_id_position q + 1),
      idp_id_buffer := ?buf[?p := oid], idp_ids_available := idp_ids_available q + 1, idp_lock := 0\<rparr>"
  have run: "embb_mtapi_id_pool_deallocate q oid = Some ?q'"
    using lock n p by (simp add: embb_mtapi_id_pool_deallocate_def lock_simps arr_simps Let_def)
  have free: "id_pool_free ?q' = id_pool_free q @ [oid]"
    using ring_list_put[OF ring n_buf, of oid] n(2) by (simp add: id_pool_free_def unat_inc_less)
  moreover have "id_pool_wf ?q'"
    using ring_wf_put[OF ring n_buf, of oid] free wf oid next_p n len cap
    by (auto simp: id_pool_wf_def unat_inc_less word_le_unat)
  ultimately show ?thesis
    using run by (intro exI[of _ ?q']) simp
qed

lemma id_pool_deallocate_full:
  assumes "id_pool_wf q" "length (id_pool_free q) = unat (idp_capacity q)"
  shows "embb_mtapi_id_pool_deallocate q oid = Some q"
proof -
  have "idp_ids_available q = idp_capacity q"
    using assms(2) by (simp add: id_pool_free_def word_unat_eq_iff)
  then show ?thesis
    using assms(1) by (simp add: embb_mtapi_id_pool_deallocate_def id_pool_wf_def lock_simps Let_def)
qed

text \<open>
  The two operations with their outcome: the test under the lock of \<^verbatim>\<open>deallocate\<close> as a success flag,
  and the invalid id as the absence of a result.
\<close>

definition id_pool_put :: "embb_mtapi_id_pool \<Rightarrow> u32 \<Rightarrow> (bool \<times> embb_mtapi_id_pool) option" where
  "id_pool_put q oid =
     do { q' \<leftarrow> embb_mtapi_id_pool_deallocate q oid; Some (idp_ids_available q < idp_capacity q, q') }"

definition id_pool_get :: "embb_mtapi_id_pool \<Rightarrow> (u32 option \<times> embb_mtapi_id_pool) option" where
  "id_pool_get q =
     do { (id, q') \<leftarrow> embb_mtapi_id_pool_allocate q;
          Some (if id = EMBB_MTAPI_IDPOOL_INVALID_ID then None else Some id, q') }"

lemma id_pool_free_length: "length (id_pool_free q) = unat (idp_ids_available q)"
  by (simp add: id_pool_free_def)

interpretation id_fifo: bounded_fifo id_pool_put id_pool_get id_pool_free
  "\<lambda>q. unat (idp_capacity q)" id_pool_wf "\<lambda>oid. oid \<noteq> 0"
proof (unfold_locales, goal_cases)
  case (1 q)
  then show ?case by (simp add: id_pool_wf_def id_pool_free_length word_le_unat)
next
  case (2 q x)
  then show ?case
    using id_pool_deallocate_room[OF 2]
    by (auto simp: id_pool_put_def id_pool_free_length word_less_unat)
next
  case (3 q x)
  then show ?case
    using id_pool_deallocate_full[OF 3]
    by (simp add: id_pool_put_def id_pool_free_length word_less_unat)
next
  case (4 q x xs)
  then have "x \<noteq> 0"
    by (auto simp: id_pool_wf_def)
  then show ?case
    using id_pool_allocate_some[OF 4] by (auto simp: id_pool_get_def EMBB_MTAPI_IDPOOL_INVALID_ID_def)
next
  case (5 q)
  then show ?case
    by (simp add: id_pool_get_def id_pool_allocate_none EMBB_MTAPI_IDPOOL_INVALID_ID_def)
qed

section \<open>Construction\<close>

lemma id_pool_fill:
  assumes cap: "unat cap < 2 ^ 32 - 1" and len: "length buf = Suc (unat cap)" and b0: "buf ! 0 = 0"
  shows "\<exists>b. for_le (\<lambda>ii b. arr_set b ii ii) 1 cap buf = Some b \<and> length b = Suc (unat cap) \<and>
           b ! 0 = 0 \<and> (\<forall>j. 1 \<le> j \<and> j \<le> unat cap \<longrightarrow> b ! j = of_nat j)"
proof -
  have cap1: "unat (cap + 1) = Suc (unat cap)"
    using cap by (intro unat_inc_bound[of _ "2 ^ 32 - 1"]) simp_all
  have max: "cap < - 1"
    using cap by (simp add: word_less_unat unat_max_u32)
  let ?P = "\<lambda>k b. length b = Suc (unat cap) \<and> b ! 0 = 0 \<and> (\<forall>j. 1 \<le> j \<and> j < k \<longrightarrow> b ! j = (of_nat j :: u32))"
  have "\<exists>b. for_less (\<lambda>ii b. arr_set b ii ii) 1 (cap + 1) buf = Some b \<and> ?P (unat (cap + 1)) b"
  proof (rule for_less_rule)
    fix k b
    assume k: "unat (1::u32) \<le> k" "k < unat (cap + 1)" and P: "?P k b"
    then have "unat (of_nat k :: u32) = k"
      using cap1 cap by (simp add: unat_of_nat_u32)
    then show "\<exists>t'. arr_set b (of_nat k) (of_nat k) = Some t' \<and> ?P (Suc k) t'"
      using k P cap1 by (auto simp: arr_simps nth_list_update less_Suc_eq)
  next
    show "(1::u32) \<le> cap + 1"
      by (simp add: word_le_unat cap1)
  qed (use len b0 in auto)
  then show ?thesis
    using cap1 by (auto simp: for_le_for_less[OF max])
qed

lemma ring_list_ids:
  assumes "length b = Suc n" "\<forall>j. 1 \<le> j \<and> j \<le> n \<longrightarrow> b ! j = of_nat j"
  shows "ring_list b 1 n = map of_nat [1..<Suc n]"
proof -
  have "ring_list b 1 n = map (\<lambda>k. of_nat (Suc k)) [0..<n]"
    unfolding ring_list_def using assms by (intro map_cong) auto
  also have "\<dots> = map of_nat (map Suc [0..<n])"
    by (simp add: comp_def)
  finally show ?thesis
    by (simp add: map_Suc_upt)
qed

lemma id_pool_initialize_ok:
  assumes small: "4 * Suc (unat cap) < 2 ^ 32"
  shows "\<exists>q. embb_mtapi_id_pool_initialize garbage cap = Some q \<and> id_pool_wf q \<and>
           idp_capacity q = cap \<and> id_pool_free q = map of_nat [1..<Suc (unat cap)]"
proof -
  have cap: "unat cap < 2 ^ 32 - 1" and cap1: "unat (cap + 1) = Suc (unat cap)"
    using small by (auto intro!: unat_inc_bound[of _ "2 ^ 32 - 1"])
  have alloc: "alloc_count 4 (cap + 1) = Suc (unat cap)"
    using alloc_count_exact[of 4 "cap + 1"] small by (simp add: cap1)
  let ?buf = "(map garbage [0..<Suc (unat cap)])[0 := 0]"
  obtain b where b: "for_le (\<lambda>ii b. arr_set b ii ii) 1 cap ?buf = Some b" "length b = Suc (unat cap)"
      "\<forall>j. 1 \<le> j \<and> j \<le> unat cap \<longrightarrow> b ! j = of_nat j"
    using id_pool_fill[OF cap, of ?buf] by auto
  let ?q = "\<lparr>idp_capacity = cap, idp_ids_available = cap, idp_put_id_position = 0,
      idp_get_id_position = 1, idp_id_buffer = b, idp_lock = 0\<rparr>"
  have run: "embb_mtapi_id_pool_initialize garbage cap = Some ?q"
    using b(1) by (simp add: embb_mtapi_id_pool_initialize_def alloc arr_simps
        EMBB_MTAPI_IDPOOL_INVALID_ID_def embb_mtapi_spinlock_initialize_def del: upt_Suc)
  have free: "id_pool_free ?q = map of_nat [1..<Suc (unat cap)]"
    using ring_list_ids[OF b(2,3)] by (simp add: id_pool_free_def)
  have "(of_nat j :: u32) \<noteq> 0" if "1 \<le> j" "j \<le> unat cap" for j
    using that unat_of_nat_u32[of j] unat_u32_less[of cap] by auto
  then have "0 \<notin> set (id_pool_free ?q)"
    by (auto simp: free simp del: upt_Suc)
  moreover have "0 < cap \<longrightarrow> ring_wf b 1 0 (unat cap)"
    using b(2) by (auto simp: ring_wf_def word_less_unat)
  ultimately have "id_pool_wf ?q"
    using b(2) cap by (simp add: id_pool_wf_def)
  then show ?thesis
    using run free by auto
qed

text \<open>
  A capacity whose buffer does not fit a 32-bit byte count: the block is too short, and the loop
  that fills it leaves it.
\<close>

lemma fill_overrun:
  assumes "ii \<le> j" "j < n" "length b \<le> unat j"
  shows "for_less (\<lambda>ii b. arr_set b ii (f ii)) ii n b = None"
  using assms
proof (induction "unat j - unat ii" arbitrary: ii b)
  case 0
  then have "ii = j"
    by (simp add: word_le_unat word_unat_eq_iff)
  with 0 show ?case
    by (simp add: for_less_step arr_set_def)
next
  case (Suc d)
  then have less: "ii < j" "ii < n"
    by (auto simp: word_less_unat word_le_unat)
  then have ii: "unat (ii + 1) = Suc (unat ii)"
    by (simp add: unat_inc_less)
  have "for_less (\<lambda>ii b. arr_set b ii (f ii)) (ii + 1) n b' = None" if "length b' = length b" for b'
    using Suc.hyps(2) Suc.prems less that by (intro Suc.hyps(1)) (auto simp: ii word_le_unat word_less_unat)
  then show ?case
    using less by (auto simp: for_less_step arr_set_def)
qed

lemma id_pool_initialize_overrun:
  assumes big: "2 ^ 32 \<le> 4 * Suc (unat cap)"
  shows "embb_mtapi_id_pool_initialize garbage cap = None"
proof (cases "cap = - 1")
  case True
  then show ?thesis
    by (simp add: embb_mtapi_id_pool_initialize_def alloc_count_def arr_set_def)
next
  case False
  then have cap: "cap < - 1"
    by (simp add: word_order.not_eq_extremum)
  then have cap1: "unat (cap + 1) = Suc (unat cap)"
    by (rule unat_inc_less)
  have short: "alloc_count 4 (cap + 1) \<le> unat cap"
    using alloc_count_short[of 4 "cap + 1"] big by (simp add: cap1)
  have "for_le (\<lambda>ii b. arr_set b ii ii) 1 cap b = None" if "length b \<le> unat cap" for b
  proof -
    have "1 \<le> cap"
      using big by (simp add: word_le_unat)
    moreover have "cap < cap + 1"
      by (simp add: word_less_unat cap1)
    ultimately show ?thesis
      using fill_overrun[of 1 cap "cap + 1" b "\<lambda>ii. ii"] that by (simp add: for_le_for_less[OF cap])
  qed
  then show ?thesis
    using short by (auto simp: embb_mtapi_id_pool_initialize_def arr_set_def Option.bind_eq_None_conv
        split: if_splits)
qed

section \<open>Ids in use\<close>

text \<open>
  \<open>used\<close> are the ids that were handed out and not yet given back. Together with the free ids they
  are all ids of the pool, each once.
\<close>

definition id_pool_owns :: "embb_mtapi_id_pool \<Rightarrow> u32 set \<Rightarrow> bool" where
  "id_pool_owns q used \<longleftrightarrow> id_pool_wf q \<and> distinct (id_pool_free q) \<and>
     set (id_pool_free q) \<inter> used = {} \<and>
     set (id_pool_free q) \<union> used = {oid. 1 \<le> oid \<and> oid \<le> idp_capacity q}"

lemma inj_on_of_nat_u32: "inj_on (of_nat :: nat \<Rightarrow> u32) {1..unat (cap :: u32)}"
  using unat_u32_less[of cap] by (intro inj_onI) (metis atLeastAtMost_iff le_less_trans unat_of_nat_u32)

lemma u32_image_of_nat: "of_nat ` {1..unat c} = {x :: u32. 1 \<le> x \<and> x \<le> c}"
proof
  show "of_nat ` {1..unat c} \<subseteq> {x :: u32. 1 \<le> x \<and> x \<le> c}"
  proof (rule image_subsetI)
    fix j assume j: "j \<in> {1..unat c}"
    then have "unat (of_nat j :: u32) = j"
      using unat_u32_less[of c] by (simp add: unat_of_nat_u32)
    then show "(of_nat j :: u32) \<in> {x. 1 \<le> x \<and> x \<le> c}"
      using j by (simp add: word_le_unat)
  qed
  show "{x :: u32. 1 \<le> x \<and> x \<le> c} \<subseteq> of_nat ` {1..unat c}"
  proof
    fix x :: u32 assume "x \<in> {x. 1 \<le> x \<and> x \<le> c}"
    then have "unat x \<in> {1..unat c}" "x = of_nat (unat x)"
      by (auto simp: word_le_unat)
    then show "x \<in> of_nat ` {1..unat c}" by blast
  qed
qed

lemma id_pool_initialize_owns:
  assumes "embb_mtapi_id_pool_initialize garbage cap = Some q"
  shows "id_pool_owns q {}" "idp_capacity q = cap"
proof -
  have "4 * Suc (unat cap) < 2 ^ 32"
    using assms id_pool_initialize_overrun[of cap garbage] by (metis not_le option.distinct(1))
  from id_pool_initialize_ok[OF this, of garbage]
  have q: "id_pool_wf q" "idp_capacity q = cap" "id_pool_free q = map of_nat [1..<Suc (unat cap)]"
    using assms by auto
  have "distinct (id_pool_free q)"
    using inj_on_of_nat_u32[of cap] by (auto simp: q(3) distinct_map atLeastLessThanSuc_atLeastAtMost simp del: upt_Suc)
  then show "id_pool_owns q {}"
    using q u32_image_of_nat[of cap]
    by (simp add: id_pool_owns_def atLeastLessThanSuc_atLeastAtMost del: upt_Suc)
  show "idp_capacity q = cap" by (rule q)
qed

lemma id_pool_allocate_owns:
  assumes "id_pool_owns q used"
  obtains oid q' where "embb_mtapi_id_pool_allocate q = Some (oid, q')" "id_pool_owns q' (insert oid used)"
      "oid \<notin> used" "oid \<noteq> 0" "oid \<le> idp_capacity q" "idp_capacity q' = idp_capacity q"
  | "embb_mtapi_id_pool_allocate q = Some (0, q)" "used = {oid. 1 \<le> oid \<and> oid \<le> idp_capacity q}"
proof (cases "id_pool_free q")
  case Nil
  then show ?thesis
    using assms that(2) id_pool_allocate_none[of q] by (simp add: id_pool_owns_def)
next
  case (Cons x xs)
  then obtain q' where q': "embb_mtapi_id_pool_allocate q = Some (x, q')" "id_pool_wf q'"
      "id_pool_free q' = xs" "idp_capacity q' = idp_capacity q"
    using assms id_pool_allocate_some[of q x xs] by (auto simp: id_pool_owns_def)
  have "x \<in> {oid. 1 \<le> oid \<and> oid \<le> idp_capacity q}" "x \<notin> used"
    using assms Cons by (auto simp: id_pool_owns_def)
  moreover have "x \<noteq> 0"
    using assms Cons by (auto simp: id_pool_owns_def id_pool_wf_def)
  moreover have "id_pool_owns q' (insert x used)"
    using assms Cons q' by (auto simp: id_pool_owns_def)
  ultimately show ?thesis
    using that(1)[OF q'(1)] q'(4) by auto
qed

lemma id_pool_deallocate_owns:
  assumes owns: "id_pool_owns q used" and oid: "oid \<in> used"
  shows "\<exists>q'. embb_mtapi_id_pool_deallocate q oid = Some q' \<and> id_pool_owns q' (used - {oid}) \<and>
           idp_capacity q' = idp_capacity q"
proof -
  let ?all = "{x :: u32. 1 \<le> x \<and> x \<le> idp_capacity q}"
  have wf: "id_pool_wf q" "distinct (id_pool_free q)" "set (id_pool_free q) \<inter> used = {}"
      "set (id_pool_free q) \<union> used = ?all"
    using owns by (auto simp: id_pool_owns_def)
  have "oid \<in> ?all"
    using wf oid by auto
  then have nz: "oid \<noteq> 0"
    by auto
  have "length (id_pool_free q) = card (set (id_pool_free q))"
    using wf(2) by (simp add: distinct_card)
  also have "\<dots> < card ?all"
    by (rule psubset_card_mono) (use wf oid in auto)
  also have "card ?all \<le> unat (idp_capacity q)"
    unfolding u32_image_of_nat[symmetric] by (metis card_atLeastAtMost card_image_le diff_Suc_1 finite_atLeastAtMost)
  finally have room: "length (id_pool_free q) < unat (idp_capacity q)" .
  show ?thesis
    using id_pool_deallocate_room[OF wf(1) nz room] wf oid by (auto simp: id_pool_owns_def)
qed

section \<open>Properties\<close>

text \<open>
  Construction of an id pool. It succeeds exactly for the capacities whose buffer of \<open>capacity + 1\<close>
  four-byte ids fits a 32-bit byte count, and then all ids from 1 to the capacity are free, in
  this order. For every other capacity the loop that fills the buffer leaves the block.
\<close>

lemma id_pool_initialize_range:
  "case embb_mtapi_id_pool_initialize garbage cap of
     None \<Rightarrow> 2 ^ 32 \<le> 4 * Suc (unat cap)
   | Some q \<Rightarrow> 4 * Suc (unat cap) < 2 ^ 32 \<and> id_pool_wf q \<and> idp_capacity q = cap \<and>
       id_pool_free q = map of_nat [1..<Suc (unat cap)]"
proof (cases "4 * Suc (unat cap) < 2 ^ 32")
  case True
  then show ?thesis
    using id_pool_initialize_ok[OF True, of garbage] by (auto simp del: upt_Suc)
next
  case False
  then have "2 ^ 32 \<le> 4 * Suc (unat cap)" by simp
  then show ?thesis
    using id_pool_initialize_overrun[of cap garbage] by simp
qed

text \<open>
  The id pool is a bounded queue. Any sequence of allocations and of deallocations of valid ids runs
  without leaving the buffer; the ids handed out are, in order, those that were free at the start followed
  by those given back, and never more ids are free than the capacity.
\<close>

lemma id_pool_fifo_order:
  assumes "id_pool_wf q" "\<forall>x. Put x \<in> set ops \<longrightarrow> x \<noteq> EMBB_MTAPI_IDPOOL_INVALID_ID"
  shows "\<exists>ins outs q'. fifo_run id_pool_put id_pool_get ops q = Some (ins, outs, q') \<and>
           id_pool_wf q' \<and> idp_capacity q' = idp_capacity q \<and>
           id_pool_free q @ ins = outs @ id_pool_free q' \<and>
           length (id_pool_free q') \<le> unat (idp_capacity q)"
  using id_fifo.fifo_law[OF assms(1), of ops] assms(2) id_fifo.length_bound
  by (auto simp: EMBB_MTAPI_IDPOOL_INVALID_ID_def word_unat_eq_iff[symmetric]) metis

end
