(* ===== verification/Pool.thy ===== *)
theory Pool
  imports Id_Pool
begin

text \<open>
  The object pools of \<^verbatim>\<open>mtapi_c/src/embb_mtapi_pool_template-inl.h\<close>, the macro that is instantiated
  for tasks, actions, groups and queues. An object is any record that starts with its handle; a pointer
  to an object is its index in the storage array. The finalizer of the object type is a parameter, as it is in
  the macro: it returns the finalized object and the calls it made to functions outside of the
  library. What the pool needs of it, that it leaves the handle alone, is the interface
  \<open>pool_type\<close>; the life cycle of handles is proved once under this contract.
\<close>

record mtapi_hndl =
  hndl_tag :: u32
  hndl_id :: u32

record pool_object =
  handle :: mtapi_hndl

record 'a embb_mtapi_pool =
  pl_id_pool :: embb_mtapi_id_pool
  pl_storage :: "'a list"

definition embb_mtapi_pool_initialize ::
    "('b pool_object_scheme \<Rightarrow> 'b pool_object_scheme) \<Rightarrow> nat \<Rightarrow> (nat \<Rightarrow> u32) \<Rightarrow>
     (nat \<Rightarrow> 'b pool_object_scheme) \<Rightarrow> u32 \<Rightarrow> (bool \<times> 'b pool_object_scheme embb_mtapi_pool) option" where
  "embb_mtapi_pool_initialize initialize sz garbage_ids garbage capacity =
     do { id_pool \<leftarrow> embb_mtapi_id_pool_initialize garbage_ids capacity;
          let storage = map garbage [0..<alloc_count sz (capacity + 1)];
          storage \<leftarrow> for_le (\<lambda>ii storage.
               do { object \<leftarrow> arr_get storage ii;
                    arr_set storage ii
                      (object\<lparr>handle := \<lparr>hndl_tag = 0, hndl_id = EMBB_MTAPI_IDPOOL_INVALID_ID\<rparr>\<rparr>) })
             0 capacity storage;
          object \<leftarrow> arr_get storage 0;
          storage \<leftarrow> arr_set storage 0 (initialize object);
          Some (True, \<lparr>pl_id_pool = id_pool, pl_storage = storage\<rparr>) }"

text \<open>\<open>block\<close> tells whether the allocation of the pool structure itself succeeded.\<close>

definition embb_mtapi_pool_new ::
    "('b pool_object_scheme \<Rightarrow> 'b pool_object_scheme) \<Rightarrow> nat \<Rightarrow> (nat \<Rightarrow> u32) \<Rightarrow>
     (nat \<Rightarrow> 'b pool_object_scheme) \<Rightarrow> bool \<Rightarrow> u32 \<Rightarrow> 'b pool_object_scheme embb_mtapi_pool option option" where
  "embb_mtapi_pool_new initialize sz garbage_ids garbage block capacity =
     (if block then
        do { (_, that) \<leftarrow> embb_mtapi_pool_initialize initialize sz garbage_ids garbage capacity;
             Some (Some that) }
      else Some None)"

definition embb_mtapi_pool_finalize :: "'a embb_mtapi_pool \<Rightarrow> 'a embb_mtapi_pool" where
  "embb_mtapi_pool_finalize that =
     \<lparr>pl_id_pool = embb_mtapi_id_pool_finalize (pl_id_pool that), pl_storage = []\<rparr>"

definition embb_mtapi_pool_allocate ::
    "'b pool_object_scheme embb_mtapi_pool \<Rightarrow> (u32 option \<times> 'b pool_object_scheme embb_mtapi_pool) option" where
  "embb_mtapi_pool_allocate that =
     do { (pool_id, id_pool) \<leftarrow> embb_mtapi_id_pool_allocate (pl_id_pool that);
          let that = that\<lparr>pl_id_pool := id_pool\<rparr>;
          if EMBB_MTAPI_IDPOOL_INVALID_ID \<noteq> pool_id then
            do { object \<leftarrow> arr_get (pl_storage that) pool_id;
                 storage \<leftarrow> arr_set (pl_storage that) pool_id
                   (object\<lparr>handle := (handle object)\<lparr>hndl_id := pool_id\<rparr>\<rparr>);
                 Some (Some pool_id, that\<lparr>pl_storage := storage\<rparr>) }
          else Some (None, that) }"

definition embb_mtapi_pool_deallocate ::
    "('b pool_object_scheme \<Rightarrow> 'b pool_object_scheme \<times> 'e list) \<Rightarrow> 'b pool_object_scheme embb_mtapi_pool \<Rightarrow>
     u32 \<Rightarrow> ('b pool_object_scheme embb_mtapi_pool \<times> 'e list) option" where
  "embb_mtapi_pool_deallocate finalize that ptr =
     do { object \<leftarrow> arr_get (pl_storage that) ptr;
          let pool_id = hndl_id (handle object);
          let (object, calls) = finalize object;
          let object = object\<lparr>handle := (handle object)\<lparr>hndl_id := EMBB_MTAPI_IDPOOL_INVALID_ID\<rparr>\<rparr>;
          let object = object\<lparr>handle := (handle object)\<lparr>hndl_tag := hndl_tag (handle object) + 1\<rparr>\<rparr>;
          storage \<leftarrow> arr_set (pl_storage that) ptr object;
          let that = that\<lparr>pl_storage := storage\<rparr>;
          id_pool \<leftarrow> embb_mtapi_id_pool_deallocate (pl_id_pool that) pool_id;
          Some (that\<lparr>pl_id_pool := id_pool\<rparr>, calls) }"

definition embb_mtapi_pool_is_handle_valid ::
    "'b pool_object_scheme embb_mtapi_pool \<Rightarrow> mtapi_hndl \<Rightarrow> bool option" where
  "embb_mtapi_pool_is_handle_valid that h =
     (if 0 < hndl_id h \<and> hndl_id h \<le> idp_capacity (pl_id_pool that) then
        do { object \<leftarrow> arr_get (pl_storage that) (hndl_id h);
             Some (hndl_tag (handle object) = hndl_tag h) }
      else Some False)"

definition embb_mtapi_pool_get_storage_for_handle :: "'a embb_mtapi_pool \<Rightarrow> mtapi_hndl \<Rightarrow> u32" where
  "embb_mtapi_pool_get_storage_for_handle that h = hndl_id h"

section \<open>The pool invariant\<close>

text \<open>
  \<open>used\<close> are the objects that were allocated and not yet deallocated. They carry their own index as
  handle id; the others carry the invalid id.
\<close>

definition pool_owns :: "'b pool_object_scheme embb_mtapi_pool \<Rightarrow> u32 set \<Rightarrow> bool" where
  "pool_owns p used \<longleftrightarrow> id_pool_owns (pl_id_pool p) used \<and>
     length (pl_storage p) = Suc (unat (idp_capacity (pl_id_pool p))) \<and>
     (\<forall>i. i \<le> idp_capacity (pl_id_pool p) \<longrightarrow>
        hndl_id (handle (pl_storage p ! unat i)) = (if i \<in> used then i else 0))"

abbreviation pool_capacity :: "'a embb_mtapi_pool \<Rightarrow> u32" where
  "pool_capacity p \<equiv> idp_capacity (pl_id_pool p)"

abbreviation pool_tag :: "'b pool_object_scheme embb_mtapi_pool \<Rightarrow> u32 \<Rightarrow> u32" where
  "pool_tag p i \<equiv> hndl_tag (handle (pl_storage p ! unat i))"

lemma pool_owns_used: "pool_owns p used \<Longrightarrow> i \<in> used \<Longrightarrow> 0 < i \<and> i \<le> pool_capacity p"
  unfolding pool_owns_def id_pool_owns_def by (auto simp: word_le_unat word_less_unat)

lemma pool_owns_in_bounds: "pool_owns p used \<Longrightarrow> i \<le> pool_capacity p \<Longrightarrow> unat i < length (pl_storage p)"
  by (simp add: pool_owns_def word_le_unat)

lemma pool_valid_iff:
  assumes "pool_owns p used"
  shows "embb_mtapi_pool_is_handle_valid p h =
           Some (0 < hndl_id h \<and> hndl_id h \<le> pool_capacity p \<and> pool_tag p (hndl_id h) = hndl_tag h)"
  using pool_owns_in_bounds[OF assms, of "hndl_id h"]
  by (auto simp: embb_mtapi_pool_is_handle_valid_def arr_simps)

lemma pool_allocate_cases:
  assumes owns: "pool_owns p used"
  obtains i p' where "embb_mtapi_pool_allocate p = Some (Some i, p')" "pool_owns p' (insert i used)"
      "i \<notin> used" "0 < i" "i \<le> pool_capacity p" "pool_capacity p' = pool_capacity p"
      "pl_storage p' = (pl_storage p)[unat i := (pl_storage p ! unat i)
         \<lparr>handle := (handle (pl_storage p ! unat i))\<lparr>hndl_id := i\<rparr>\<rparr>]"
  | "embb_mtapi_pool_allocate p = Some (None, p)" "used = {i. 1 \<le> i \<and> i \<le> pool_capacity p}"
proof -
  have "id_pool_owns (pl_id_pool p) used"
    using owns by (simp add: pool_owns_def)
  then show ?thesis
  proof (cases rule: id_pool_allocate_owns)
    case (1 i q')
    have len: "unat i < length (pl_storage p)"
      using 1 owns by (intro pool_owns_in_bounds) auto
    let ?object = "pl_storage p ! unat i"
    let ?st = "(pl_storage p)[unat i := ?object\<lparr>handle := (handle ?object)\<lparr>hndl_id := i\<rparr>\<rparr>]"
    have run: "embb_mtapi_pool_allocate p = Some (Some i, p\<lparr>pl_id_pool := q', pl_storage := ?st\<rparr>)"
      using 1 len by (simp add: embb_mtapi_pool_allocate_def arr_simps EMBB_MTAPI_IDPOOL_INVALID_ID_def Let_def)
    have "pool_owns (p\<lparr>pl_id_pool := q', pl_storage := ?st\<rparr>) (insert i used)"
      using owns 1 len by (auto simp: pool_owns_def nth_list_update word_unat_eq_iff[symmetric])
    then show ?thesis
      using 1 by (intro that(1)[OF run]) (auto simp: word_neq_0_conv)
  next
    case 2
    then have "embb_mtapi_pool_allocate p = Some (None, p)"
      by (simp add: embb_mtapi_pool_allocate_def EMBB_MTAPI_IDPOOL_INVALID_ID_def Let_def)
    then show ?thesis
      using 2 that(2) by simp
  qed
qed

lemma pool_valid_in_bounds:
  "embb_mtapi_pool_is_handle_valid p h = Some True \<Longrightarrow> unat (hndl_id h) < length (pl_storage p)"
  by (auto simp: embb_mtapi_pool_is_handle_valid_def arr_get_def bind_eq_Some_conv split: if_splits)

lemma pool_valid_put:
  assumes "handle x = handle (pl_storage p ! unat i)"
  shows "embb_mtapi_pool_is_handle_valid (p\<lparr>pl_storage := (pl_storage p)[unat i := x]\<rparr>) h =
           embb_mtapi_pool_is_handle_valid p h"
proof -
  have "handle ((pl_storage p)[unat i := x] ! k) = handle (pl_storage p ! k)" for k
    using assms by (cases "unat i < length (pl_storage p)") (auto simp: nth_list_update list_update_beyond)
  then show ?thesis
    by (simp add: embb_mtapi_pool_is_handle_valid_def arr_get_def cong: if_cong)
qed

text \<open>An update of an object that keeps its handle.\<close>

lemma pool_owns_put:
  assumes "pool_owns p used" "handle x = handle (pl_storage p ! unat i)"
  shows "pool_owns (p\<lparr>pl_storage := (pl_storage p)[unat i := x]\<rparr>) used"
proof -
  have "handle ((pl_storage p)[unat i := x] ! k) = handle (pl_storage p ! k)" for k
    using assms(2) by (cases "unat i < length (pl_storage p)") (auto simp: nth_list_update list_update_beyond)
  then show ?thesis
    using assms(1) by (simp add: pool_owns_def)
qed

lemma pool_fill:
  fixes st :: "'b pool_object_scheme list"
  assumes cap: "unat cap < 2 ^ 32 - 1" and len: "length st = Suc (unat cap)"
  shows "\<exists>b. for_le (\<lambda>ii storage. do { object \<leftarrow> arr_get storage ii;
               arr_set storage ii (object\<lparr>handle := h\<rparr>) }) 0 cap st = Some b \<and>
           length b = Suc (unat cap) \<and> (\<forall>j \<le> unat cap. handle (b ! j) = h)"
proof -
  have cap1: "unat (cap + 1) = Suc (unat cap)"
    using cap by (intro unat_inc_bound[of _ "2 ^ 32 - 1"]) simp_all
  have max: "cap < - 1"
    using cap by (simp add: word_less_unat unat_max_u32)
  let ?P = "\<lambda>k b. length b = Suc (unat cap) \<and> (\<forall>j < k. handle (b ! j) = h)"
  let ?body = "\<lambda>ii storage. do { object \<leftarrow> arr_get storage ii; arr_set storage ii (object\<lparr>handle := h\<rparr>) }"
  have "\<exists>b. for_less ?body 0 (cap + 1) st = Some b \<and> ?P (unat (cap + 1)) b"
  proof (rule for_less_rule)
    fix k and b :: "'b pool_object_scheme list"
    assume k: "k < unat (cap + 1)" and P: "?P k b"
    then have "unat (of_nat k :: u32) = k"
      using cap1 cap by (simp add: unat_of_nat_u32)
    then show "\<exists>t'. ?body (of_nat k) b = Some t' \<and> ?P (Suc k) t'"
      using k P cap1 by (auto simp: arr_simps nth_list_update less_Suc_eq)
  qed (use len in \<open>auto simp: word_le_unat\<close>)
  then show ?thesis
    using cap1 by (auto simp: for_le_for_less[OF max] less_Suc_eq_le)
qed

lemma pool_initialize_owns:
  assumes sz: "0 < sz" "4 \<le> sz" "sz * Suc (unat cap) < 2 ^ 32"
    and keep: "\<And>x. handle (initialize x) = handle x"
  shows "\<exists>p. embb_mtapi_pool_initialize initialize sz garbage_ids garbage cap = Some (True, p) \<and>
           pool_owns p {} \<and> pool_capacity p = cap \<and> (\<forall>i \<le> cap. pool_tag p i = 0)"
proof -
  have "4 * Suc (unat cap) \<le> sz * Suc (unat cap)"
    using sz(2) by (rule mult_le_mono1)
  then have small: "4 * Suc (unat cap) < 2 ^ 32"
    using sz(3) by linarith
  then have cap: "unat cap < 2 ^ 32 - 1" and cap1: "unat (cap + 1) = Suc (unat cap)"
    by (auto intro!: unat_inc_bound[of _ "2 ^ 32 - 1"])
  obtain q where q: "embb_mtapi_id_pool_initialize garbage_ids cap = Some q"
    using id_pool_initialize_ok[OF small] by auto
  note q_owns = id_pool_initialize_owns[OF q]
  have alloc: "alloc_count sz (cap + 1) = Suc (unat cap)"
    using alloc_count_exact[of sz "cap + 1"] sz by (simp add: cap1)
  let ?h = "\<lparr>hndl_tag = 0, hndl_id = EMBB_MTAPI_IDPOOL_INVALID_ID\<rparr>"
  obtain b where b: "for_le (\<lambda>ii storage. do { object \<leftarrow> arr_get storage ii;
               arr_set storage ii (object\<lparr>handle := ?h\<rparr>) }) 0 cap (map garbage [0..<Suc (unat cap)]) = Some b"
      "length b = Suc (unat cap)" "\<forall>j \<le> unat cap. handle (b ! j) = ?h"
    using pool_fill[OF cap, of "map garbage [0..<Suc (unat cap)]" ?h] by auto
  let ?p = "\<lparr>pl_id_pool = q, pl_storage = b[0 := initialize (b ! 0)]\<rparr>"
  have run: "embb_mtapi_pool_initialize initialize sz garbage_ids garbage cap = Some (True, ?p)"
    using b(1,2) q by (simp add: embb_mtapi_pool_initialize_def alloc arr_simps Let_def del: upt_Suc)
  have hs: "handle (pl_storage ?p ! unat i) = ?h" if "i \<le> cap" for i
    using b that keep by (cases "unat i") (auto simp: word_le_unat nth_list_update)
  then have "pool_owns ?p {}"
    using q_owns b(2) by (simp add: pool_owns_def EMBB_MTAPI_IDPOOL_INVALID_ID_def)
  then show ?thesis
    using run hs q_owns by (intro exI[of _ ?p]) simp
qed

section \<open>Histories of a pool\<close>

text \<open>
  \<open>pool_hist finalize p used frees p' used'\<close>: allocations in any number, and deallocations of the
  objects \<open>frees\<close> in this order, each of an object in use, lead from \<open>p\<close> to \<open>p'\<close>.
\<close>

inductive pool_hist ::
    "('b pool_object_scheme \<Rightarrow> 'b pool_object_scheme \<times> 'e list) \<Rightarrow> 'b pool_object_scheme embb_mtapi_pool \<Rightarrow>
     u32 set \<Rightarrow> u32 list \<Rightarrow> 'b pool_object_scheme embb_mtapi_pool \<Rightarrow> u32 set \<Rightarrow> bool"
  for finalize p used where
  hist_nil: "pool_hist finalize p used [] p used"
| hist_alloc: "pool_hist finalize p used frees p1 used1 \<Longrightarrow>
    embb_mtapi_pool_allocate p1 = Some (Some i, p2) \<Longrightarrow>
    pool_hist finalize p used frees p2 (insert i used1)"
| hist_full: "pool_hist finalize p used frees p1 used1 \<Longrightarrow>
    embb_mtapi_pool_allocate p1 = Some (None, p2) \<Longrightarrow>
    pool_hist finalize p used frees p2 used1"
| hist_free: "pool_hist finalize p used frees p1 used1 \<Longrightarrow> i \<in> used1 \<Longrightarrow>
    embb_mtapi_pool_deallocate finalize p1 i = Some (p2, calls) \<Longrightarrow>
    pool_hist finalize p used (frees @ [i]) p2 (used1 - {i})"

section \<open>Finalizers that leave the handle alone\<close>

locale pool_type =
  fixes finalize :: "'b pool_object_scheme \<Rightarrow> 'b pool_object_scheme \<times> 'e list"
  assumes finalize_handle: "handle (fst (finalize x)) = handle x"
begin

lemma pool_deallocate_owns:
  assumes owns: "pool_owns p used" and i: "i \<in> used"
  shows "\<exists>p'. embb_mtapi_pool_deallocate finalize p i = Some (p', snd (finalize (pl_storage p ! unat i))) \<and>
           pool_owns p' (used - {i}) \<and> pool_capacity p' = pool_capacity p \<and>
           pool_tag p' i = pool_tag p i + 1 \<and>
           (\<forall>j. j \<noteq> i \<longrightarrow> pl_storage p' ! unat j = pl_storage p ! unat j)"
proof -
  let ?object = "pl_storage p ! unat i"
  have le: "i \<le> pool_capacity p" and len: "unat i < length (pl_storage p)"
    using pool_owns_used[OF assms] pool_owns_in_bounds[OF owns] by auto
  have pool_id: "hndl_id (handle ?object) = i"
    using owns i le by (simp add: pool_owns_def)
  obtain q where q: "embb_mtapi_id_pool_deallocate (pl_id_pool p) i = Some q"
      "id_pool_owns q (used - {i})" "idp_capacity q = pool_capacity p"
    using id_pool_deallocate_owns[of "pl_id_pool p" used i] owns i by (auto simp: pool_owns_def)
  let ?new = "fst (finalize ?object)\<lparr>handle := \<lparr>hndl_tag = hndl_tag (handle ?object) + 1, hndl_id = 0\<rparr>\<rparr>"
  let ?p' = "p\<lparr>pl_storage := (pl_storage p)[unat i := ?new], pl_id_pool := q\<rparr>"
  have run: "embb_mtapi_pool_deallocate finalize p i = Some (?p', snd (finalize ?object))"
    using len q(1) pool_id finalize_handle[of ?object]
    by (cases "handle ?object")
       (simp add: embb_mtapi_pool_deallocate_def arr_simps case_prod_unfold Let_def
          EMBB_MTAPI_IDPOOL_INVALID_ID_def)
  moreover have "pool_owns ?p' (used - {i})"
    using owns q len by (auto simp: pool_owns_def nth_list_update word_unat_eq_iff[symmetric])
  ultimately show ?thesis
    using q(3) len by (intro exI[of _ ?p']) (auto simp: nth_list_update word_unat_eq_iff[symmetric])
qed

text \<open>
  Along every history the invariant holds and the tag of an object counts, modulo the width
  of the tag, how often it was deallocated.
\<close>

lemma pool_hist_tags:
  assumes "pool_hist finalize p used frees p' used'" "pool_owns p used"
  shows "pool_owns p' used' \<and> pool_capacity p' = pool_capacity p \<and>
           (\<forall>i \<le> pool_capacity p. pool_tag p' i = pool_tag p i + of_nat (count_list frees i))"
  using assms
proof (induction rule: pool_hist.induct)
  case hist_nil
  then show ?case by simp
next
  case (hist_alloc frees p1 used1 i p2)
  then have owns: "pool_owns p1 used1" by simp
  show ?case
    by (cases rule: pool_allocate_cases[OF owns])
       (use hist_alloc in \<open>auto simp: nth_list_update pool_owns_in_bounds[OF owns]\<close>)
next
  case (hist_full frees p1 used1 p2)
  then have owns: "pool_owns p1 used1" by simp
  show ?case
    by (cases rule: pool_allocate_cases[OF owns]) (use hist_full in auto)
next
  case (hist_free frees p1 used1 i p2 calls)
  then have owns: "pool_owns p1 used1" by simp
  show ?case
    using pool_deallocate_owns[OF owns hist_free.hyps(2)] hist_free
    by (auto simp: algebra_simps)
qed

text \<open>
  A handle that is valid stays valid exactly as long as the number of deallocations of its
  object since then is a multiple of \<open>2 ^ 32\<close>: until the object is deallocated, and after that not
  before the tag has wrapped around.
\<close>

lemma handle_lifetime:
  assumes hist: "pool_hist finalize p used frees p' used'" and owns: "pool_owns p used"
    and valid: "embb_mtapi_pool_is_handle_valid p h = Some True"
  shows "embb_mtapi_pool_is_handle_valid p' h = Some (2 ^ 32 dvd count_list frees (hndl_id h))"
proof -
  have h: "0 < hndl_id h" "hndl_id h \<le> pool_capacity p" "pool_tag p (hndl_id h) = hndl_tag h"
    using valid by (auto simp: pool_valid_iff[OF owns])
  note tags = pool_hist_tags[OF hist owns]
  have "(of_nat n :: u32) = 0 \<longleftrightarrow> 2 ^ 32 dvd n" for n
    by (simp add: word_of_nat_eq_0_iff)
  then show ?thesis
    using h tags by (auto simp: pool_valid_iff)
qed

lemma allocate_not_stuck:
  assumes "pool_hist finalize p used frees p1 used1" "pool_owns p used"
  shows "\<exists>r p2. embb_mtapi_pool_allocate p1 = Some (r, p2)"
  using pool_hist_tags[OF assms] pool_allocate_cases[of p1 used1] by metis

lemma deallocate_not_stuck:
  assumes "pool_hist finalize p used frees p1 used1" "pool_owns p used" "i \<in> used1"
  shows "\<exists>p2 calls. embb_mtapi_pool_deallocate finalize p1 i = Some (p2, calls)"
  using pool_hist_tags[OF assms(1,2)] pool_deallocate_owns[of p1 used1 i] assms(3) by blast

end

end
