(* ===== verification/Bitset.thy ===== *)
theory Bitset
  imports Prelude
begin

text \<open>
  Sets of processor cores: the 64-bit sets of \<^verbatim>\<open>base_c/include/embb/base/c/internal/bitset.h\<close> and the
  core sets of \<^verbatim>\<open>base_c/src/core_set.c\<close> over them. A shift by 64 or more is undefined in C and \<open>None\<close> here. The interface
  \<open>index_set\<close> is the abstract specification: sets of the numbers below 64.
  The number of cores of the machine, \<^verbatim>\<open>get_nprocs()\<close>, is a parameter.
\<close>

definition shift_one :: "u32 \<Rightarrow> u64 option" where
  "shift_one n = (if unat n < 64 then Some (push_bit (unat n) 1) else None)"

definition embb_bitset_set :: "u64 \<Rightarrow> u32 \<Rightarrow> u64 option" where
  "embb_bitset_set that b = do { m \<leftarrow> shift_one b; Some (that OR m) }"

definition embb_bitset_set_n :: "u64 \<Rightarrow> u32 \<Rightarrow> u64 option" where
  "embb_bitset_set_n that count =
     (if 64 = count then Some (NOT 0) else do { m \<leftarrow> shift_one count; Some (m - 1) })"

definition embb_bitset_clear :: "u64 \<Rightarrow> u32 \<Rightarrow> u64 option" where
  "embb_bitset_clear that b = do { m \<leftarrow> shift_one b; Some (that AND NOT m) }"

definition embb_bitset_clear_all :: "u64 \<Rightarrow> u64" where
  "embb_bitset_clear_all that = 0"

definition embb_bitset_is_set :: "u64 \<Rightarrow> u32 \<Rightarrow> u32 option" where
  "embb_bitset_is_set that b = do { m \<leftarrow> shift_one b; Some (if that AND m \<noteq> 0 then 1 else 0) }"

definition embb_bitset_intersect :: "u64 \<Rightarrow> u64 \<Rightarrow> u64" where
  "embb_bitset_intersect that m = that AND m"

definition embb_bitset_union :: "u64 \<Rightarrow> u64 \<Rightarrow> u64" where
  "embb_bitset_union that m = that OR m"

definition embb_bitset_count :: "u64 \<Rightarrow> u32 option" where
  "embb_bitset_count that =
     do { (count, msk) \<leftarrow> for_less (\<lambda>ii (count, msk).
            Some (if 0 < that AND msk then count + 1 else count, push_bit 1 msk)) 0 64 (0, 1);
          Some count }"

section \<open>Core sets\<close>

record embb_core_set =
  rep :: u64

definition embb_core_count_available :: "u32 \<Rightarrow> u32" where
  "embb_core_count_available nprocs = nprocs"

definition embb_core_set_init :: "u32 \<Rightarrow> embb_core_set \<Rightarrow> bool \<Rightarrow> embb_core_set option" where
  "embb_core_set_init nprocs core_set initializer =
     (if \<not> initializer then Some (core_set\<lparr>rep := embb_bitset_clear_all (rep core_set)\<rparr>)
      else do { r \<leftarrow> embb_bitset_set_n (rep core_set) (embb_core_count_available nprocs);
                Some (core_set\<lparr>rep := r\<rparr>) })"

definition embb_core_set_add :: "embb_core_set \<Rightarrow> u32 \<Rightarrow> embb_core_set option" where
  "embb_core_set_add core_set core_number =
     do { r \<leftarrow> embb_bitset_set (rep core_set) core_number; Some (core_set\<lparr>rep := r\<rparr>) }"

definition embb_core_set_remove :: "embb_core_set \<Rightarrow> u32 \<Rightarrow> embb_core_set option" where
  "embb_core_set_remove core_set core_number =
     do { r \<leftarrow> embb_bitset_clear (rep core_set) core_number; Some (core_set\<lparr>rep := r\<rparr>) }"

definition embb_core_set_contains :: "embb_core_set \<Rightarrow> u32 \<Rightarrow> u32 option" where
  "embb_core_set_contains core_set core_number = embb_bitset_is_set (rep core_set) core_number"

definition embb_core_set_intersection :: "embb_core_set \<Rightarrow> embb_core_set \<Rightarrow> embb_core_set" where
  "embb_core_set_intersection set1 set2 = set1\<lparr>rep := embb_bitset_intersect (rep set1) (rep set2)\<rparr>"

definition embb_core_set_union :: "embb_core_set \<Rightarrow> embb_core_set \<Rightarrow> embb_core_set" where
  "embb_core_set_union set1 set2 = set1\<lparr>rep := embb_bitset_union (rep set1) (rep set2)\<rparr>"

definition embb_core_set_count :: "embb_core_set \<Rightarrow> u32 option" where
  "embb_core_set_count core_set = embb_bitset_count (rep core_set)"

section \<open>Bit sets as sets of numbers\<close>

definition bits_of :: "u64 \<Rightarrow> nat set" where
  "bits_of b = {i. bit b i}"

lemma bits_of_less: "i \<in> bits_of b \<Longrightarrow> i < 64"
  by (auto simp: bits_of_def dest: bit_imp_le_length)

lemma finite_bits_of [simp]: "finite (bits_of b)"
  by (rule finite_subset[of _ "{..<64}"]) (auto dest: bits_of_less)

lemma bits_of_set_n:
  assumes "unat n \<le> 64"
  shows "\<exists>b. embb_bitset_set_n that n = Some b \<and> bits_of b = {..<unat n}"
proof (cases "n = 64")
  case True
  then show ?thesis
    by (auto simp: embb_bitset_set_n_def bits_of_def bit_simps)
next
  case False
  then have n: "unat n < 64"
    using assms by (auto simp: word_unat_eq_iff)
  have "(push_bit (unat n) 1 - 1 :: u64) = mask (unat n)"
    by (simp add: mask_eq_decr_exp push_bit_eq_mult mask_eq_exp_minus_1)
  then show ?thesis
    using False n by (auto simp: embb_bitset_set_n_def shift_one_def bits_of_def bit_simps)
qed

lemma and_shift_one_pos: "(b AND 2 ^ k = (0::u64)) \<longleftrightarrow> \<not> bit b k"
  by (rule and_exp_eq_0_iff_not_bit)

lemma bitset_count_loop:
  "\<exists>t. for_less (\<lambda>ii (count, msk). Some (if 0 < b AND msk then count + 1 else count, push_bit 1 msk)) 0 64
      (0 :: u32, 1 :: u64) = Some t \<and>
     (case t of (count, msk) \<Rightarrow> unat count = card {i \<in> bits_of b. i < 64})"
proof -
  let ?P = "\<lambda>k (count :: u32, msk :: u64). unat count = card {i \<in> bits_of b. i < k} \<and> msk = push_bit k 1"
  have "\<exists>t. for_less (\<lambda>ii (count, msk). Some (if 0 < b AND msk then count + 1 else count, push_bit 1 msk)) 0 64
      (0 :: u32, 1 :: u64) = Some t \<and> ?P (unat (64 :: u32)) t"
  proof (rule for_less_rule)
    fix k and t :: "u32 \<times> u64"
    assume k: "k < unat (64 :: u32)" and P: "?P k t"
    obtain count msk where t: "t = (count, msk)" by force
    have set: "{i \<in> bits_of b. i < Suc k} = (if bit b k then insert k {i \<in> bits_of b. i < k} else {i \<in> bits_of b. i < k})"
      by (auto simp: bits_of_def less_Suc_eq)
    have "card {i \<in> bits_of b. i < k} \<le> card {..<64::nat}"
      by (intro card_mono) (auto dest: bits_of_less)
    then have inc: "unat (count + 1) = Suc (unat count)"
      using P t by (intro unat_inc_bound[of _ 65]) auto
    show "\<exists>t'. (case t of (count, msk) \<Rightarrow> Some (if 0 < b AND msk then count + 1 else count, push_bit 1 msk)) = Some t' \<and> ?P (Suc k) t'"
      using k P t inc by (simp add: set and_shift_one_pos word_neq_0_conv[symmetric] del: word_neq_0_conv)
  qed auto
  then show ?thesis
    by auto
qed

text \<open>The interface of a set of the numbers below \<open>bound\<close>, with \<open>None\<close> for a number outside.\<close>

locale index_set =
  fixes members :: "'s \<Rightarrow> nat set"
    and bound :: nat
    and add :: "'s \<Rightarrow> u32 \<Rightarrow> 's option"
    and remove :: "'s \<Rightarrow> u32 \<Rightarrow> 's option"
    and contains :: "'s \<Rightarrow> u32 \<Rightarrow> u32 option"
    and inter :: "'s \<Rightarrow> 's \<Rightarrow> 's"
    and union :: "'s \<Rightarrow> 's \<Rightarrow> 's"
    and count :: "'s \<Rightarrow> u32 option"
  assumes add: "unat i < bound \<Longrightarrow> \<exists>s'. add s i = Some s' \<and> members s' = insert (unat i) (members s)"
    and remove: "unat i < bound \<Longrightarrow> \<exists>s'. remove s i = Some s' \<and> members s' = members s - {unat i}"
    and contains: "unat i < bound \<Longrightarrow> contains s i = Some (if unat i \<in> members s then 1 else 0)"
    and inter: "members (inter s t) = members s \<inter> members t"
    and union: "members (union s t) = members s \<union> members t"
    and count: "\<exists>n. count s = Some n \<and> unat n = card (members s)"
    and bounded: "members s \<subseteq> {..<bound}"
begin

lemma contains_add:
  assumes "unat i < bound" "unat j < bound"
  shows "\<exists>s'. add s i = Some s' \<and> contains s' j = (if i = j then Some 1 else contains s j)"
proof -
  obtain s' where s': "add s i = Some s'" "members s' = insert (unat i) (members s)"
    using add[OF assms(1)] by blast
  then show ?thesis
    by (intro exI[of _ s']) (simp add: contains[OF assms(2)] word_unat_eq_iff[symmetric])
qed

lemma contains_remove:
  assumes "unat i < bound" "unat j < bound"
  shows "\<exists>s'. remove s i = Some s' \<and> contains s' j = (if i = j then Some 0 else contains s j)"
proof -
  obtain s' where s': "remove s i = Some s'" "members s' = members s - {unat i}"
    using remove[OF assms(1)] by blast
  then show ?thesis
    by (intro exI[of _ s']) (simp add: contains[OF assms(2)] word_unat_eq_iff[symmetric])
qed

lemma count_add_remove:
  assumes "unat i < bound"
  shows "\<exists>s1 s2 n. add s i = Some s1 \<and> remove s1 i = Some s2 \<and> count s1 = Some n \<and>
           unat n = Suc (card (members s2))"
proof -
  obtain s1 where s1: "add s i = Some s1" "members s1 = insert (unat i) (members s)"
    using add[OF assms] by blast
  obtain s2 where s2: "remove s1 i = Some s2" "members s2 = members s1 - {unat i}"
    using remove[OF assms] by blast
  obtain n where n: "count s1 = Some n" "unat n = card (members s1)"
    using count by blast
  have "finite (members s1)"
    by (rule finite_subset[OF bounded]) simp
  then have "card (members s1) = Suc (card (members s2))"
    using s1(2) s2(2) by (metis card_Suc_Diff1 insertI1)
  then show ?thesis
    using s1 s2 n by metis
qed

end

lemma bits_of_OR: "bits_of (a OR b) = bits_of a \<union> bits_of b"
  by (auto simp: bits_of_def bit_simps)

lemma bits_of_AND: "bits_of (a AND b) = bits_of a \<inter> bits_of b"
  by (auto simp: bits_of_def bit_simps)

lemma bits_of_clear: "bits_of (a AND NOT (2 ^ k)) = bits_of a - {k}"
  by (auto simp: bits_of_def bit_simps dest: bit_imp_le_length)

lemma bits_of_shift_one: "k < 64 \<Longrightarrow> bits_of (2 ^ k) = {k}"
  by (auto simp: bits_of_def bit_simps)

lemma bitset_count_card: "\<exists>n. embb_bitset_count b = Some n \<and> unat n = card (bits_of b)"
proof -
  have "{i \<in> bits_of b. i < 64} = bits_of b"
    by (auto dest: bits_of_less)
  then show ?thesis
    using bitset_count_loop[of b] by (auto simp: embb_bitset_count_def)
qed

interpretation bits: index_set bits_of 64 embb_bitset_set embb_bitset_clear embb_bitset_is_set
  embb_bitset_intersect embb_bitset_union embb_bitset_count
proof (unfold_locales, goal_cases)
  case 1
  then show ?case
    by (auto simp: embb_bitset_set_def shift_one_def bits_of_OR bits_of_shift_one)
next
  case 2
  then show ?case
    by (auto simp: embb_bitset_clear_def shift_one_def bits_of_clear)
next
  case 3
  then show ?case
    by (auto simp: embb_bitset_is_set_def shift_one_def and_shift_one_pos bits_of_def)
next
  case 6
  show ?case by (rule bitset_count_card)
qed (auto simp: embb_bitset_intersect_def embb_bitset_union_def bits_of_OR bits_of_AND dest: bits_of_less)

interpretation cores: index_set "\<lambda>s. bits_of (rep s)" 64 embb_core_set_add embb_core_set_remove
  embb_core_set_contains embb_core_set_intersection embb_core_set_union embb_core_set_count
proof (unfold_locales, goal_cases)
  case (1 i s)
  then show ?case
    using bits.add[of i "rep s"] by (auto simp: embb_core_set_add_def)
next
  case (2 i s)
  then show ?case
    using bits.remove[of i "rep s"] by (auto simp: embb_core_set_remove_def)
qed (simp_all add: embb_core_set_contains_def embb_core_set_intersection_def embb_core_set_union_def
      embb_core_set_count_def bits.contains bits.inter bits.union bits.count bits.bounded)

lemma core_set_init_all:
  assumes "unat nprocs \<le> 64"
  shows "\<exists>s. embb_core_set_init nprocs core_set True = Some s \<and> bits_of (rep s) = {..<unat nprocs} \<and>
           embb_core_set_count s = Some nprocs"
proof -
  obtain b where b: "embb_bitset_set_n (rep core_set) nprocs = Some b" "bits_of b = {..<unat nprocs}"
    using bits_of_set_n[OF assms] by blast
  obtain n where n: "embb_bitset_count b = Some n" "unat n = card (bits_of b)"
    using bitset_count_card by blast
  then have "n = nprocs"
    by (simp add: b(2) word_unat_eq_iff[symmetric])
  then have "embb_bitset_count b = Some nprocs"
    using n(1) by simp
  then show ?thesis
    using b by (simp add: embb_core_set_init_def embb_core_count_available_def embb_core_set_count_def)
qed

section \<open>Properties\<close>

text \<open>
  A core set represents a set of core numbers. Adding a core below 64 makes exactly this core a member, removing it
  makes it no member, membership of every other core is not affected, and the count is the number of members.
\<close>

lemma core_set_add_remove:
  assumes "unat i < 64" "unat j < 64"
  shows "(\<exists>s'. embb_core_set_add s i = Some s' \<and>
            embb_core_set_contains s' j = (if i = j then Some 1 else embb_core_set_contains s j)) \<and>
         (\<exists>s'. embb_core_set_remove s i = Some s' \<and>
            embb_core_set_contains s' j = (if i = j then Some 0 else embb_core_set_contains s j)) \<and>
         (\<exists>n. embb_core_set_count s = Some n \<and> unat n = card (bits_of (rep s)))"
  using cores.contains_add[OF assms] cores.contains_remove[OF assms] cores.count by blast

text \<open>
  A core set that is initialised with all cores of a machine with at most 64 processors holds exactly the
  cores of the machine, and its count is the number of processors; the number 64 itself, for which
  a shift would be undefined, included.
\<close>

theorem core_set_init_counts:
  assumes "unat nprocs \<le> 64"
  shows "\<exists>s. embb_core_set_init nprocs core_set True = Some s \<and> bits_of (rep s) = {..<unat nprocs} \<and>
           embb_core_set_count s = Some nprocs"
  by (rule core_set_init_all[OF assms])

theorem core_set_init_counts_witness:
  "\<exists>s. embb_core_set_init 64 \<lparr>rep = 0\<rparr> True = Some s \<and> bits_of (rep s) = {..<64} \<and>
     embb_core_set_count s = Some 64"
  using core_set_init_counts[of 64 "\<lparr>rep = 0\<rparr>"] by simp

end
