(* ===== verification/Attributes.thy ===== *)
theory Attributes
  imports Bitset
begin

text \<open>
  The status codes and the attribute structures of MTAPI (\<^verbatim>\<open>mtapi_c/include/embb/mtapi/c/mtapi.h\<close>) with the
  functions that initialize and set them: \<^verbatim>\<open>embb_mtapi_attr.c\<close>, \<^verbatim>\<open>mtapi_affinity_t.c\<close> and
  \<^verbatim>\<open>mtapi_*_attributes_t.c\<close> under \<^verbatim>\<open>mtapi_c/src\<close>.

  An attribute value is passed as an untyped pointer with a size. Memory is a function from addresses
  to bytes; a value is read and written little-endian. The size 0 says that the pointer is
  the value. A pointer to an attribute structure that may be \<^verbatim>\<open>MTAPI_NULL\<close> is an option. The functions
  that look at the node instance take its attributes, \<open>None\<close> when there is no instance.
\<close>

datatype mtapi_status =
  MTAPI_SUCCESS | MTAPI_TIMEOUT | MTAPI_ERR_PARAMETER | MTAPI_ERR_ATTR_READONLY | MTAPI_ERR_ATTR_NUM
| MTAPI_ERR_ATTR_SIZE | MTAPI_ERR_NODE_INITFAILED | MTAPI_ERR_NODE_INITIALIZED | MTAPI_ERR_NODE_INVALID
| MTAPI_ERR_DOMAIN_INVALID | MTAPI_ERR_NODE_NOTINIT | MTAPI_ERR_ACTION_INVALID | MTAPI_ERR_ACTION_EXISTS
| MTAPI_ERR_ACTION_LIMIT | MTAPI_ERR_ACTION_NUM_INVALID | MTAPI_ERR_ACTION_FAILED
| MTAPI_ERR_ACTION_CANCELLED | MTAPI_ERR_ACTION_DELETED | MTAPI_ERR_ACTION_DISABLED
| MTAPI_ERR_CONTEXT_INVALID | MTAPI_ERR_CONTEXT_OUTOFCONTEXT | MTAPI_ERR_TASK_INVALID
| MTAPI_ERR_TASK_LIMIT | MTAPI_ERR_JOB_INVALID | MTAPI_ERR_QUEUE_INVALID | MTAPI_ERR_QUEUE_DELETED
| MTAPI_ERR_QUEUE_DISABLED | MTAPI_ERR_QUEUE_LIMIT | MTAPI_ERR_GROUP_INVALID | MTAPI_ERR_GROUP_LIMIT
| MTAPI_GROUP_COMPLETED | MTAPI_ERR_UNKNOWN | MTAPI_ERR_BUFFER_SIZE | MTAPI_ERR_RESULT_SIZE
| MTAPI_ERR_ARG_SIZE | MTAPI_ERR_WAIT_PENDING | MTAPI_ERR_FUNC_NOT_IMPLEMENTED
| MTAPI_ERR_ARG_NOT_IMPLEMENTED | MTAPI_ERR_RUNTIME_REMOTETASKS_NOTSUPPORTED
| MTAPI_ERR_RUNTIME_LOADBALANCING_NOTSUPPORTED | MTAPI_ERR_CORE_NUM

type_synonym mtapi_boolean = u8
type_synonym mtapi_affinity = u64
type_synonym memory = "u64 \<Rightarrow> u8"

abbreviation (input) MTAPI_TRUE :: mtapi_boolean where "MTAPI_TRUE \<equiv> 1"
abbreviation (input) MTAPI_FALSE :: mtapi_boolean where "MTAPI_FALSE \<equiv> 0"
abbreviation (input) MTAPI_ATTRIBUTE_POINTER_AS_VALUE :: u32 where "MTAPI_ATTRIBUTE_POINTER_AS_VALUE \<equiv> 0"

section \<open>Typed values in raw memory\<close>

definition mem_read :: "memory \<Rightarrow> u64 \<Rightarrow> nat \<Rightarrow> u8 list" where
  "mem_read m p n = map (\<lambda>k. m (p + of_nat k)) [0..<n]"

definition mem_write :: "memory \<Rightarrow> u64 \<Rightarrow> u8 list \<Rightarrow> memory" where
  "mem_write m p bs = (\<lambda>a. if unat (a - p) < length bs then bs ! unat (a - p) else m a)"

definition size_of :: "'a::len word \<Rightarrow> nat" where
  "size_of w = LENGTH('a) div 8"

text \<open>
  The macro is instantiated for \<^verbatim>\<open>mtapi_uint_t\<close>, \<^verbatim>\<open>mtapi_affinity_t\<close> and \<^verbatim>\<open>mtapi_boolean_t\<close>: words of 32,
  64 and 8 bits.
\<close>

definition embb_mtapi_attr_set ::
    "memory \<Rightarrow> 'a::len word \<Rightarrow> u64 \<Rightarrow> u32 \<Rightarrow> mtapi_status \<times> 'a word" where
  "embb_mtapi_attr_set m target attribute attribute_size =
     (if of_nat (size_of target) = attribute_size then
        (MTAPI_SUCCESS, word_le (mem_read m attribute (size_of target)))
      else if MTAPI_ATTRIBUTE_POINTER_AS_VALUE = attribute_size then
        (MTAPI_SUCCESS, word_le (bytes_le (size_of target) attribute))
      else (MTAPI_ERR_ATTR_SIZE, target))"

definition embb_mtapi_attr_get ::
    "memory \<Rightarrow> 'a::len word \<Rightarrow> u64 \<Rightarrow> u32 \<Rightarrow> mtapi_status \<times> memory" where
  "embb_mtapi_attr_get m source attribute attribute_size =
     (if of_nat (size_of source) = attribute_size then
        (MTAPI_SUCCESS, mem_write m attribute (bytes_le (size_of source) source))
      else (MTAPI_ERR_ATTR_SIZE, m))"

section \<open>Node attributes\<close>

abbreviation (input) MTAPI_NODE_CORE_AFFINITY :: u32 where "MTAPI_NODE_CORE_AFFINITY \<equiv> 0"
abbreviation (input) MTAPI_NODE_NUMCORES :: u32 where "MTAPI_NODE_NUMCORES \<equiv> 1"
abbreviation (input) MTAPI_NODE_TYPE :: u32 where "MTAPI_NODE_TYPE \<equiv> 2"
abbreviation (input) MTAPI_NODE_MAX_TASKS :: u32 where "MTAPI_NODE_MAX_TASKS \<equiv> 3"
abbreviation (input) MTAPI_NODE_MAX_ACTIONS :: u32 where "MTAPI_NODE_MAX_ACTIONS \<equiv> 4"
abbreviation (input) MTAPI_NODE_MAX_GROUPS :: u32 where "MTAPI_NODE_MAX_GROUPS \<equiv> 5"
abbreviation (input) MTAPI_NODE_MAX_QUEUES :: u32 where "MTAPI_NODE_MAX_QUEUES \<equiv> 6"
abbreviation (input) MTAPI_NODE_QUEUE_LIMIT :: u32 where "MTAPI_NODE_QUEUE_LIMIT \<equiv> 7"
abbreviation (input) MTAPI_NODE_MAX_JOBS :: u32 where "MTAPI_NODE_MAX_JOBS \<equiv> 8"
abbreviation (input) MTAPI_NODE_MAX_ACTIONS_PER_JOB :: u32 where "MTAPI_NODE_MAX_ACTIONS_PER_JOB \<equiv> 9"
abbreviation (input) MTAPI_NODE_MAX_PRIORITIES :: u32 where "MTAPI_NODE_MAX_PRIORITIES \<equiv> 10"
abbreviation (input) MTAPI_NODE_TYPE_SMP :: u32 where "MTAPI_NODE_TYPE_SMP \<equiv> 1"
abbreviation (input) MTAPI_NODE_CORE_AFFINITY_SIZE :: u32 where "MTAPI_NODE_CORE_AFFINITY_SIZE \<equiv> 8"

record mtapi_node_attributes =
  na_core_affinity :: embb_core_set
  na_num_cores :: u32
  na_type :: u32
  na_max_tasks :: u32
  na_max_actions :: u32
  na_max_groups :: u32
  na_max_queues :: u32
  na_queue_limit :: u32
  na_max_jobs :: u32
  na_max_actions_per_job :: u32
  na_max_priorities :: u32

definition mtapi_nodeattr_init ::
    "u32 \<Rightarrow> mtapi_node_attributes option \<Rightarrow> (mtapi_status \<times> mtapi_node_attributes option) option" where
  "mtapi_nodeattr_init nprocs attributes =
     (case attributes of
        Some a \<Rightarrow>
          do { core_affinity \<leftarrow> embb_core_set_init nprocs (na_core_affinity a) True;
               num_cores \<leftarrow> embb_core_set_count core_affinity;
               Some (MTAPI_SUCCESS, Some (a\<lparr>na_max_tasks := 1024, na_type := MTAPI_NODE_TYPE_SMP,
                 na_max_actions := 1024, na_max_groups := 128, na_max_queues := 16,
                 na_queue_limit := 1024, na_max_jobs := 256, na_max_actions_per_job := 4,
                 na_max_priorities := 4, na_core_affinity := core_affinity,
                 na_num_cores := num_cores\<rparr>)) }
      | None \<Rightarrow> Some (MTAPI_ERR_PARAMETER, None))"

text \<open>
  Setting one field through \<open>embb_mtapi_attr_set\<close>: \<open>get\<close> and \<open>put\<close> read and write the field of the
  structure whose address the code passes.
\<close>

definition attr_set_field ::
    "memory \<Rightarrow> u64 \<Rightarrow> u32 \<Rightarrow> 'r \<Rightarrow> ('r \<Rightarrow> 'a::len word) \<Rightarrow> ('a word \<Rightarrow> 'r \<Rightarrow> 'r) \<Rightarrow> mtapi_status \<times> 'r" where
  "attr_set_field m attribute attribute_size a get put =
     (case embb_mtapi_attr_set m (get a) attribute attribute_size of (st, v) \<Rightarrow> (st, put v a))"

definition mtapi_nodeattr_set ::
    "memory \<Rightarrow> mtapi_node_attributes option \<Rightarrow> u32 \<Rightarrow> u64 \<Rightarrow> u32 \<Rightarrow>
     (mtapi_status \<times> mtapi_node_attributes option) option" where
  "mtapi_nodeattr_set m attributes attribute_num attribute attribute_size =
     (case attributes of
        None \<Rightarrow> Some (MTAPI_ERR_PARAMETER, None)
      | Some a \<Rightarrow>
          if MTAPI_ATTRIBUTE_POINTER_AS_VALUE \<noteq> attribute_size \<and> attribute = 0 then
            Some (MTAPI_ERR_PARAMETER, Some a)
          else
            let set_uint = (\<lambda>get put. map_prod (\<lambda>x. x) Some (attr_set_field m attribute attribute_size a get put)) in
            if attribute_num = MTAPI_NODE_CORE_AFFINITY then
              if MTAPI_NODE_CORE_AFFINITY_SIZE = attribute_size then
                do { let core_affinity = \<lparr>rep = word_le (mem_read m attribute 8)\<rparr>;
                     num_cores \<leftarrow> embb_core_set_count core_affinity;
                     Some (MTAPI_SUCCESS, Some (a\<lparr>na_core_affinity := core_affinity, na_num_cores := num_cores\<rparr>)) }
              else Some (MTAPI_ERR_ATTR_SIZE, Some a)
            else if attribute_num = MTAPI_NODE_NUMCORES then Some (MTAPI_ERR_ATTR_READONLY, Some a)
            else if attribute_num = MTAPI_NODE_TYPE then
              Some (set_uint na_type (\<lambda>v. na_type_update (\<lambda>_. v)))
            else if attribute_num = MTAPI_NODE_MAX_TASKS then
              Some (set_uint na_max_tasks (\<lambda>v. na_max_tasks_update (\<lambda>_. v)))
            else if attribute_num = MTAPI_NODE_MAX_ACTIONS then
              Some (set_uint na_max_actions (\<lambda>v. na_max_actions_update (\<lambda>_. v)))
            else if attribute_num = MTAPI_NODE_MAX_GROUPS then
              Some (set_uint na_max_groups (\<lambda>v. na_max_groups_update (\<lambda>_. v)))
            else if attribute_num = MTAPI_NODE_MAX_QUEUES then
              Some (set_uint na_max_queues (\<lambda>v. na_max_queues_update (\<lambda>_. v)))
            else if attribute_num = MTAPI_NODE_QUEUE_LIMIT then
              Some (set_uint na_queue_limit (\<lambda>v. na_queue_limit_update (\<lambda>_. v)))
            else if attribute_num = MTAPI_NODE_MAX_JOBS then
              Some (set_uint na_max_jobs (\<lambda>v. na_max_jobs_update (\<lambda>_. v)))
            else if attribute_num = MTAPI_NODE_MAX_ACTIONS_PER_JOB then
              Some (set_uint na_max_actions_per_job (\<lambda>v. na_max_actions_per_job_update (\<lambda>_. v)))
            else if attribute_num = MTAPI_NODE_MAX_PRIORITIES then
              Some (set_uint na_max_priorities (\<lambda>v. na_max_priorities_update (\<lambda>_. v)))
            else Some (MTAPI_ERR_ATTR_NUM, Some a))"

section \<open>Affinities\<close>

definition mtapi_affinity_init ::
    "mtapi_node_attributes option \<Rightarrow> mtapi_affinity option \<Rightarrow> mtapi_boolean \<Rightarrow>
     (mtapi_status \<times> mtapi_affinity option) option" where
  "mtapi_affinity_init node m affinity =
     (case node of
        Some n \<Rightarrow>
          (case m of
             Some b \<Rightarrow>
               do { let b = embb_bitset_clear_all b;
                    b \<leftarrow> (if affinity \<noteq> 0 then embb_bitset_set_n b (na_num_cores n) else Some b);
                    Some (MTAPI_SUCCESS, Some b) }
           | None \<Rightarrow> Some (MTAPI_ERR_PARAMETER, None))
      | None \<Rightarrow> Some (MTAPI_ERR_NODE_NOTINIT, m))"

definition mtapi_affinity_set ::
    "mtapi_node_attributes option \<Rightarrow> mtapi_affinity option \<Rightarrow> u32 \<Rightarrow> mtapi_boolean \<Rightarrow>
     (mtapi_status \<times> mtapi_affinity option) option" where
  "mtapi_affinity_set node m core_num affinity =
     (case node of
        Some n \<Rightarrow>
          (case m of
             Some b \<Rightarrow>
               if core_num < na_num_cores n then
                 do { b \<leftarrow> (if affinity \<noteq> 0 then embb_bitset_set b core_num else embb_bitset_clear b core_num);
                      Some (MTAPI_SUCCESS, Some b) }
               else Some (MTAPI_ERR_CORE_NUM, Some b)
           | None \<Rightarrow> Some (MTAPI_ERR_PARAMETER, None))
      | None \<Rightarrow> Some (MTAPI_ERR_NODE_NOTINIT, m))"

definition mtapi_affinity_get ::
    "mtapi_node_attributes option \<Rightarrow> mtapi_affinity option \<Rightarrow> u32 \<Rightarrow> (mtapi_status \<times> mtapi_boolean) option" where
  "mtapi_affinity_get node m core_num =
     (case node of
        Some n \<Rightarrow>
          (case m of
             Some b \<Rightarrow>
               if core_num < na_num_cores n then
                 do { r \<leftarrow> embb_bitset_is_set b core_num;
                      Some (MTAPI_SUCCESS, if r \<noteq> 0 then MTAPI_TRUE else MTAPI_FALSE) }
               else Some (MTAPI_ERR_CORE_NUM, MTAPI_FALSE)
           | None \<Rightarrow> Some (MTAPI_ERR_PARAMETER, MTAPI_FALSE))
      | None \<Rightarrow> Some (MTAPI_ERR_NODE_NOTINIT, MTAPI_FALSE))"

section \<open>Task, action, queue and group attributes\<close>

abbreviation (input) MTAPI_TASK_DETACHED :: u32 where "MTAPI_TASK_DETACHED \<equiv> 0"
abbreviation (input) MTAPI_TASK_INSTANCES :: u32 where "MTAPI_TASK_INSTANCES \<equiv> 1"
abbreviation (input) MTAPI_TASK_PRIORITY :: u32 where "MTAPI_TASK_PRIORITY \<equiv> 2"
abbreviation (input) MTAPI_TASK_AFFINITY :: u32 where "MTAPI_TASK_AFFINITY \<equiv> 3"
abbreviation (input) MTAPI_TASK_USER_DATA :: u32 where "MTAPI_TASK_USER_DATA \<equiv> 4"
abbreviation (input) MTAPI_TASK_COMPLETE_FUNCTION :: u32 where "MTAPI_TASK_COMPLETE_FUNCTION \<equiv> 5"

record mtapi_task_attributes =
  ta_is_detached :: mtapi_boolean
  ta_num_instances :: u32
  ta_priority :: u32
  ta_affinity :: mtapi_affinity
  ta_user_data :: u64
  ta_complete_func :: u64

definition mtapi_taskattr_init ::
    "mtapi_node_attributes option \<Rightarrow> mtapi_task_attributes option \<Rightarrow>
     (mtapi_status \<times> mtapi_task_attributes option) option" where
  "mtapi_taskattr_init node attributes =
     (case attributes of
        Some a \<Rightarrow>
          do { let a = a\<lparr>ta_num_instances := 1, ta_is_detached := MTAPI_FALSE, ta_priority := 0,
                         ta_complete_func := 0\<rparr>;
               (local_status, affinity) \<leftarrow> mtapi_affinity_init node (Some (ta_affinity a)) MTAPI_TRUE;
               Some (local_status, Some (a\<lparr>ta_affinity := the affinity\<rparr>)) }
      | None \<Rightarrow> Some (MTAPI_ERR_PARAMETER, None))"

definition mtapi_taskattr_set ::
    "memory \<Rightarrow> mtapi_task_attributes option \<Rightarrow> u32 \<Rightarrow> u64 \<Rightarrow> u32 \<Rightarrow>
     mtapi_status \<times> mtapi_task_attributes option" where
  "mtapi_taskattr_set m attributes attribute_num attribute attribute_size =
     (case attributes of
        None \<Rightarrow> (MTAPI_ERR_PARAMETER, None)
      | Some a \<Rightarrow>
          if MTAPI_ATTRIBUTE_POINTER_AS_VALUE \<noteq> attribute_size \<and> attribute = 0 then
            (MTAPI_ERR_PARAMETER, Some a)
          else map_prod (\<lambda>x. x) Some (
            if attribute_num = MTAPI_TASK_DETACHED then
              attr_set_field m attribute attribute_size a ta_is_detached (\<lambda>v. ta_is_detached_update (\<lambda>_. v))
            else if attribute_num = MTAPI_TASK_INSTANCES then
              attr_set_field m attribute attribute_size a ta_num_instances (\<lambda>v. ta_num_instances_update (\<lambda>_. v))
            else if attribute_num = MTAPI_TASK_PRIORITY then
              attr_set_field m attribute attribute_size a ta_priority (\<lambda>v. ta_priority_update (\<lambda>_. v))
            else if attribute_num = MTAPI_TASK_AFFINITY then
              attr_set_field m attribute attribute_size a ta_affinity (\<lambda>v. ta_affinity_update (\<lambda>_. v))
            else if attribute_num = MTAPI_TASK_USER_DATA then
              (MTAPI_SUCCESS, a\<lparr>ta_user_data := attribute\<rparr>)
            else if attribute_num = MTAPI_TASK_COMPLETE_FUNCTION then
              (MTAPI_SUCCESS, a\<lparr>ta_complete_func := attribute\<rparr>)
            else (MTAPI_ERR_ATTR_NUM, a)))"

abbreviation (input) MTAPI_ACTION_GLOBAL :: u32 where "MTAPI_ACTION_GLOBAL \<equiv> 0"
abbreviation (input) MTAPI_ACTION_AFFINITY :: u32 where "MTAPI_ACTION_AFFINITY \<equiv> 1"
abbreviation (input) MTAPI_ACTION_DOMAIN_SHARED :: u32 where "MTAPI_ACTION_DOMAIN_SHARED \<equiv> 2"

record mtapi_action_attributes =
  aa_global :: mtapi_boolean
  aa_affinity :: mtapi_affinity
  aa_domain_shared :: mtapi_boolean

definition mtapi_actionattr_init ::
    "mtapi_node_attributes option \<Rightarrow> mtapi_action_attributes option \<Rightarrow>
     (mtapi_status \<times> mtapi_action_attributes option) option" where
  "mtapi_actionattr_init node attributes =
     (case attributes of
        Some a \<Rightarrow>
          do { let a = a\<lparr>aa_domain_shared := MTAPI_TRUE, aa_global := MTAPI_TRUE\<rparr>;
               (local_status, affinity) \<leftarrow> mtapi_affinity_init node (Some (aa_affinity a)) MTAPI_TRUE;
               Some (local_status, Some (a\<lparr>aa_affinity := the affinity\<rparr>)) }
      | None \<Rightarrow> Some (MTAPI_ERR_PARAMETER, None))"

definition mtapi_actionattr_set ::
    "memory \<Rightarrow> mtapi_action_attributes option \<Rightarrow> u32 \<Rightarrow> u64 \<Rightarrow> u32 \<Rightarrow>
     mtapi_status \<times> mtapi_action_attributes option" where
  "mtapi_actionattr_set m attributes attribute_num attribute attribute_size =
     (case attributes of
        None \<Rightarrow> (MTAPI_ERR_PARAMETER, None)
      | Some a \<Rightarrow>
          if MTAPI_ATTRIBUTE_POINTER_AS_VALUE \<noteq> attribute_size \<and> attribute = 0 then
            (MTAPI_ERR_PARAMETER, Some a)
          else map_prod (\<lambda>x. x) Some (
            if attribute_num = MTAPI_ACTION_GLOBAL then
              attr_set_field m attribute attribute_size a aa_global (\<lambda>v. aa_global_update (\<lambda>_. v))
            else if attribute_num = MTAPI_ACTION_AFFINITY then
              attr_set_field m attribute attribute_size a aa_affinity (\<lambda>v. aa_affinity_update (\<lambda>_. v))
            else if attribute_num = MTAPI_ACTION_DOMAIN_SHARED then
              attr_set_field m attribute attribute_size a aa_domain_shared (\<lambda>v. aa_domain_shared_update (\<lambda>_. v))
            else (MTAPI_ERR_ATTR_NUM, a)))"

abbreviation (input) MTAPI_QUEUE_GLOBAL :: u32 where "MTAPI_QUEUE_GLOBAL \<equiv> 0"
abbreviation (input) MTAPI_QUEUE_PRIORITY :: u32 where "MTAPI_QUEUE_PRIORITY \<equiv> 1"
abbreviation (input) MTAPI_QUEUE_LIMIT :: u32 where "MTAPI_QUEUE_LIMIT \<equiv> 2"
abbreviation (input) MTAPI_QUEUE_ORDERED :: u32 where "MTAPI_QUEUE_ORDERED \<equiv> 3"
abbreviation (input) MTAPI_QUEUE_RETAIN :: u32 where "MTAPI_QUEUE_RETAIN \<equiv> 4"
abbreviation (input) MTAPI_QUEUE_DOMAIN_SHARED :: u32 where "MTAPI_QUEUE_DOMAIN_SHARED \<equiv> 5"

record mtapi_queue_attributes =
  qa_global :: mtapi_boolean
  qa_priority :: u32
  qa_limit :: u32
  qa_ordered :: mtapi_boolean
  qa_retain :: mtapi_boolean
  qa_domain_shared :: mtapi_boolean

definition mtapi_queueattr_init ::
    "mtapi_node_attributes option \<Rightarrow> mtapi_queue_attributes option \<Rightarrow>
     mtapi_status \<times> mtapi_queue_attributes option" where
  "mtapi_queueattr_init node attributes =
     (case node of
        Some n \<Rightarrow>
          (case attributes of
             Some a \<Rightarrow> (MTAPI_SUCCESS, Some (a\<lparr>qa_global := MTAPI_TRUE, qa_priority := 0,
               qa_limit := na_queue_limit n, qa_ordered := MTAPI_TRUE, qa_retain := MTAPI_FALSE,
               qa_domain_shared := MTAPI_TRUE\<rparr>))
           | None \<Rightarrow> (MTAPI_ERR_PARAMETER, None))
      | None \<Rightarrow> (MTAPI_ERR_NODE_NOTINIT, attributes))"

definition mtapi_queueattr_set ::
    "memory \<Rightarrow> mtapi_queue_attributes option \<Rightarrow> u32 \<Rightarrow> u64 \<Rightarrow> u32 \<Rightarrow>
     mtapi_status \<times> mtapi_queue_attributes option" where
  "mtapi_queueattr_set m attributes attribute_num attribute attribute_size =
     (case attributes of
        None \<Rightarrow> (MTAPI_ERR_PARAMETER, None)
      | Some a \<Rightarrow>
          if MTAPI_ATTRIBUTE_POINTER_AS_VALUE \<noteq> attribute_size \<and> attribute = 0 then
            (MTAPI_ERR_PARAMETER, Some a)
          else map_prod (\<lambda>x. x) Some (
            if attribute_num = MTAPI_QUEUE_GLOBAL then
              attr_set_field m attribute attribute_size a qa_global (\<lambda>v. qa_global_update (\<lambda>_. v))
            else if attribute_num = MTAPI_QUEUE_PRIORITY then
              attr_set_field m attribute attribute_size a qa_priority (\<lambda>v. qa_priority_update (\<lambda>_. v))
            else if attribute_num = MTAPI_QUEUE_LIMIT then
              attr_set_field m attribute attribute_size a qa_limit (\<lambda>v. qa_limit_update (\<lambda>_. v))
            else if attribute_num = MTAPI_QUEUE_ORDERED then
              attr_set_field m attribute attribute_size a qa_ordered (\<lambda>v. qa_ordered_update (\<lambda>_. v))
            else if attribute_num = MTAPI_QUEUE_RETAIN then
              attr_set_field m attribute attribute_size a qa_retain (\<lambda>v. qa_retain_update (\<lambda>_. v))
            else if attribute_num = MTAPI_QUEUE_DOMAIN_SHARED then
              attr_set_field m attribute attribute_size a qa_domain_shared (\<lambda>v. qa_domain_shared_update (\<lambda>_. v))
            else (MTAPI_ERR_ATTR_NUM, a)))"

record mtapi_group_attributes =
  ga_some_value :: u32

definition mtapi_groupattr_init ::
    "mtapi_group_attributes option \<Rightarrow> mtapi_status \<times> mtapi_group_attributes option" where
  "mtapi_groupattr_init attributes =
     (case attributes of
        Some a \<Rightarrow> (MTAPI_SUCCESS, Some (a\<lparr>ga_some_value := 0\<rparr>))
      | None \<Rightarrow> (MTAPI_ERR_PARAMETER, None))"

definition mtapi_groupattr_set ::
    "mtapi_group_attributes option \<Rightarrow> u32 \<Rightarrow> u64 \<Rightarrow> u32 \<Rightarrow> mtapi_status \<times> mtapi_group_attributes option" where
  "mtapi_groupattr_set attributes attribute_num attribute attribute_size =
     (case attributes of
        Some a \<Rightarrow>
          if MTAPI_ATTRIBUTE_POINTER_AS_VALUE \<noteq> attribute_size \<and> attribute = 0 then
            (MTAPI_ERR_PARAMETER, Some a)
          else (MTAPI_ERR_ATTR_NUM, Some a)
      | None \<Rightarrow> (MTAPI_ERR_PARAMETER, None))"

section \<open>Values that survive the way through memory\<close>

named_theorems attr_simps \<open>reading and writing attributes\<close>

lemma size_of_u8 [attr_simps]: "size_of (w :: u8) = 1" by (simp add: size_of_def)
lemma size_of_u32 [attr_simps]: "size_of (w :: u32) = 4" by (simp add: size_of_def)
lemma size_of_u64 [attr_simps]: "size_of (w :: u64) = 8" by (simp add: size_of_def)

lemma length_mem_read [simp]: "length (mem_read m p n) = n"
  by (simp add: mem_read_def)

lemma mem_read_write:
  assumes "length bs \<le> 2 ^ 64 - 1"
  shows "mem_read (mem_write m p bs) p (length bs) = bs"
proof (rule nth_equalityI)
  fix i assume "i < length (mem_read (mem_write m p bs) p (length bs))"
  then have i: "i < length bs" by simp
  then have "unat (of_nat i :: u64) = i"
    using assms by (simp add: unsigned_of_nat take_bit_nat_eq_self)
  then show "mem_read (mem_write m p bs) p (length bs) ! i = bs ! i"
    using i by (simp add: mem_read_def mem_write_def)
qed simp

text \<open>What one value's bytes in memory are read back as.\<close>

definition holds_value :: "memory \<Rightarrow> u64 \<Rightarrow> 'a::len word \<Rightarrow> bool" where
  "holds_value m p w \<longleftrightarrow> mem_read m p (size_of w) = bytes_le (size_of w) w"

lemma attr_set_holds:
  fixes w target :: "'a::len word"
  assumes "holds_value m p w" "8 dvd LENGTH('a)"
  shows "embb_mtapi_attr_set m target p (of_nat (size_of target)) = (MTAPI_SUCCESS, w)"
proof -
  have "size_of target = size_of w" "LENGTH('a) \<le> 8 * size_of w"
    using assms(2) by (auto simp: size_of_def)
  then show ?thesis
    using assms(1) by (simp add: embb_mtapi_attr_set_def holds_value_def word_le_bytes_le)
qed

lemma attr_get_holds:
  fixes w :: "'a::len word"
  assumes "LENGTH('a) \<le> 64"
  shows "\<exists>m'. embb_mtapi_attr_get m w p (of_nat (size_of w)) = (MTAPI_SUCCESS, m') \<and> holds_value m' p w"
  using mem_read_write[of "bytes_le (size_of w) w" m p] assms
  by (simp add: embb_mtapi_attr_get_def holds_value_def size_of_def)

lemma attr_set_cases:
  "embb_mtapi_attr_set m target p n = (st, v) \<Longrightarrow> st \<noteq> MTAPI_SUCCESS \<Longrightarrow>
     st = MTAPI_ERR_ATTR_SIZE \<and> v = target"
  by (auto simp: embb_mtapi_attr_set_def split: if_splits)

lemma attr_set_field_error:
  assumes "attr_set_field m p n a get put = (st, a')" "st \<noteq> MTAPI_SUCCESS" "put (get a) a = a"
  shows "st = MTAPI_ERR_ATTR_SIZE \<and> a' = a"
proof (cases "embb_mtapi_attr_set m (get a) p n")
  case (Pair st' v)
  then show ?thesis
    using assms attr_set_cases[OF Pair] by (auto simp: attr_set_field_def)
qed

section \<open>Properties\<close>

text \<open>
  Setting an attribute of a task is all or nothing. On success exactly the named attribute has changed, to
  the value at the given address (or to the address itself for the two attributes that are
  pointers). Otherwise nothing has changed, and the status says why: the wrong size, an unknown attribute number,
  or a null pointer.
\<close>

lemma taskattr_set_all_or_nothing:
  "case mtapi_taskattr_set m (Some a) k p n of (st, a') \<Rightarrow>
     if st = MTAPI_SUCCESS then
       (\<exists>d i pr af. a' = Some (
          if k = MTAPI_TASK_DETACHED then a\<lparr>ta_is_detached := d\<rparr>
          else if k = MTAPI_TASK_INSTANCES then a\<lparr>ta_num_instances := i\<rparr>
          else if k = MTAPI_TASK_PRIORITY then a\<lparr>ta_priority := pr\<rparr>
          else if k = MTAPI_TASK_AFFINITY then a\<lparr>ta_affinity := af\<rparr>
          else if k = MTAPI_TASK_USER_DATA then a\<lparr>ta_user_data := p\<rparr>
          else a\<lparr>ta_complete_func := p\<rparr>)) \<and> k \<le> MTAPI_TASK_COMPLETE_FUNCTION
     else a' = Some a \<and>
       st = (if n \<noteq> MTAPI_ATTRIBUTE_POINTER_AS_VALUE \<and> p = 0 then MTAPI_ERR_PARAMETER
             else if k \<le> MTAPI_TASK_COMPLETE_FUNCTION then MTAPI_ERR_ATTR_SIZE else MTAPI_ERR_ATTR_NUM)"
proof -
  have k: "k \<le> 5 \<longleftrightarrow> k = 0 \<or> k = 1 \<or> k = 2 \<or> k = 3 \<or> k = 4 \<or> k = 5" for k :: u32
    by (auto simp: word_le_unat word_unat_eq_iff)
  show ?thesis
    by (auto simp: mtapi_taskattr_set_def attr_set_field_def embb_mtapi_attr_set_def k split: prod.splits if_splits)
qed

text \<open>
  The attributes of a task survive the way through memory: the value whose bytes are at the given address is the
  value of the attribute afterwards, for each of the three widths, and reading the attribute back writes the
  bytes of this value to the address of the reader.
\<close>

lemma taskattr_set_get_roundtrip:
  fixes i :: u32 and af :: u64 and d :: u8
  assumes "p \<noteq> 0" "holds_value m p i" "holds_value m2 p af" "holds_value m3 p d"
  shows "mtapi_taskattr_set m (Some a) MTAPI_TASK_INSTANCES p 4 = (MTAPI_SUCCESS, Some (a\<lparr>ta_num_instances := i\<rparr>)) \<and>
         mtapi_taskattr_set m (Some a) MTAPI_TASK_PRIORITY p 4 = (MTAPI_SUCCESS, Some (a\<lparr>ta_priority := i\<rparr>)) \<and>
         mtapi_taskattr_set m2 (Some a) MTAPI_TASK_AFFINITY p 8 = (MTAPI_SUCCESS, Some (a\<lparr>ta_affinity := af\<rparr>)) \<and>
         mtapi_taskattr_set m3 (Some a) MTAPI_TASK_DETACHED p 1 = (MTAPI_SUCCESS, Some (a\<lparr>ta_is_detached := d\<rparr>)) \<and>
         (\<exists>m'. embb_mtapi_attr_get m i q 4 = (MTAPI_SUCCESS, m') \<and> holds_value m' q i) \<and>
         (\<exists>m'. embb_mtapi_attr_get m2 af q 8 = (MTAPI_SUCCESS, m') \<and> holds_value m' q af) \<and>
         (\<exists>m'. embb_mtapi_attr_get m3 d q 1 = (MTAPI_SUCCESS, m') \<and> holds_value m' q d)"
  using attr_set_holds[OF assms(2)] attr_set_holds[OF assms(3)] attr_set_holds[OF assms(4)]
    attr_get_holds[of m i q] attr_get_holds[of m2 af q] attr_get_holds[of m3 d q] assms(1)
  by (simp add: mtapi_taskattr_set_def attr_set_field_def attr_simps)

text \<open>
  Affinities. On a node with at most 64 cores, setting the affinity of a core makes \<^verbatim>\<open>mtapi_affinity_get\<close> return the
  value that was set for this core and what it returned before for every other core. A core number the node does not
  have is refused by both and changes nothing.
\<close>

lemma affinity_set_get:
  assumes "unat (na_num_cores n) \<le> 64"
  shows "if c < na_num_cores n
         then \<exists>b'. mtapi_affinity_set (Some n) (Some b) c v = Some (MTAPI_SUCCESS, Some b') \<and>
           (\<forall>c' < na_num_cores n. mtapi_affinity_get (Some n) (Some b') c' =
              (if c' = c then Some (MTAPI_SUCCESS, if v = 0 then MTAPI_FALSE else MTAPI_TRUE)
               else mtapi_affinity_get (Some n) (Some b) c'))
         else mtapi_affinity_set (Some n) (Some b) c v = Some (MTAPI_ERR_CORE_NUM, Some b) \<and>
           mtapi_affinity_get (Some n) (Some b) c = Some (MTAPI_ERR_CORE_NUM, MTAPI_FALSE)"
proof (cases "c < na_num_cores n")
  case True
  have c64: "unat c' < 64" if "c' < na_num_cores n" for c'
    using that assms by (simp add: word_less_unat)
  obtain b' where b': "(if v \<noteq> 0 then embb_bitset_set b c else embb_bitset_clear b c) = Some b'"
      "bits_of b' = (if v \<noteq> 0 then insert (unat c) (bits_of b) else bits_of b - {unat c})"
    using bits.add[OF c64[OF True], of b] bits.remove[OF c64[OF True], of b] by (cases "v = 0") auto
  then have "mtapi_affinity_set (Some n) (Some b) c v = Some (MTAPI_SUCCESS, Some b')"
    using True by (simp add: mtapi_affinity_set_def)
  then show ?thesis
    using True b'(2)
    by (auto simp: mtapi_affinity_get_def bits.contains[OF c64] word_unat_eq_iff[symmetric])
qed (simp add: mtapi_affinity_set_def mtapi_affinity_get_def)

end
