(* ===== verification/Duration_Time.thy ===== *)
theory Duration_Time
  imports Prelude
begin

text \<open>
  Durations and points in time: \<^verbatim>\<open>base_c/src/duration.c\<close> and \<^verbatim>\<open>base_c/src/time.c\<close>. Both are pairs of
  64-bit seconds and nanoseconds. What they denote is a number of nanoseconds (\<open>dur_ns\<close>, \<open>time_ns\<close>).
  The clock, \<^verbatim>\<open>clock_gettime(CLOCK_REALTIME, ...)\<close>, is a parameter.
\<close>

datatype embb_errors =
  EMBB_SUCCESS | EMBB_NOMEM | EMBB_TIMEDOUT | EMBB_BUSY | EMBB_OVERFLOW | EMBB_UNDERFLOW | EMBB_ERROR

record embb_duration =
  du_seconds :: u64
  du_nanoseconds :: u64

record embb_time =
  ti_seconds :: u64
  ti_nanoseconds :: u64

abbreviation (input) EMBB_DURATION_MAX_SECONDS :: u64 where "EMBB_DURATION_MAX_SECONDS \<equiv> 604800"
abbreviation (input) EMBB_DURATION_MIN_NANOSECONDS :: u64 where "EMBB_DURATION_MIN_NANOSECONDS \<equiv> 1"
abbreviation (input) ULLONG_MAX :: u64 where "ULLONG_MAX \<equiv> - 1"
abbreviation (input) EMBB_TIME_MAX_SECONDS :: u64 where "EMBB_TIME_MAX_SECONDS \<equiv> - 1"

definition embb_duration_max :: embb_duration where
  "embb_duration_max = \<lparr>du_seconds = EMBB_DURATION_MAX_SECONDS, du_nanoseconds = 0\<rparr>"

definition embb_duration_min :: embb_duration where
  "embb_duration_min = \<lparr>du_seconds = 0, du_nanoseconds = EMBB_DURATION_MIN_NANOSECONDS\<rparr>"

definition embb_duration_zero :: embb_duration where
  "embb_duration_zero = \<lparr>du_seconds = 0, du_nanoseconds = 0\<rparr>"

definition embb_duration_set_nanoseconds :: "embb_duration \<Rightarrow> u64 \<Rightarrow> embb_errors \<times> embb_duration" where
  "embb_duration_set_nanoseconds duration nanoseconds =
     (if 0 < nanoseconds \<and> nanoseconds < du_nanoseconds embb_duration_min then (EMBB_UNDERFLOW, duration)
      else if 0 < nanoseconds \<and>
         du_seconds embb_duration_max * 1000000000 + du_nanoseconds embb_duration_max < nanoseconds then
        (EMBB_OVERFLOW, duration)
      else (EMBB_SUCCESS, duration\<lparr>du_seconds := nanoseconds div 1000000000,
              du_nanoseconds := nanoseconds mod 1000000000\<rparr>))"

definition embb_duration_set_microseconds :: "embb_duration \<Rightarrow> u64 \<Rightarrow> embb_errors \<times> embb_duration" where
  "embb_duration_set_microseconds duration microseconds =
     (if 0 < microseconds \<and> microseconds * 1000 < du_nanoseconds embb_duration_min then (EMBB_UNDERFLOW, duration)
      else if 0 < microseconds \<and>
         du_seconds embb_duration_max * 1000000 + du_nanoseconds embb_duration_max div 1000 < microseconds then
        (EMBB_OVERFLOW, duration)
      else (EMBB_SUCCESS, duration\<lparr>du_seconds := microseconds div 1000000,
              du_nanoseconds := (microseconds mod 1000000) * 1000\<rparr>))"

definition embb_duration_set_milliseconds :: "embb_duration \<Rightarrow> u64 \<Rightarrow> embb_errors \<times> embb_duration" where
  "embb_duration_set_milliseconds duration milliseconds =
     (if 0 < milliseconds \<and> milliseconds * 1000000 < du_nanoseconds embb_duration_min then (EMBB_UNDERFLOW, duration)
      else if 0 < milliseconds \<and>
         du_seconds embb_duration_max * 1000 + du_nanoseconds embb_duration_max div 1000000 < milliseconds then
        (EMBB_OVERFLOW, duration)
      else (EMBB_SUCCESS, duration\<lparr>du_seconds := milliseconds div 1000,
              du_nanoseconds := (milliseconds mod 1000) * 1000000\<rparr>))"

definition embb_duration_set_seconds :: "embb_duration \<Rightarrow> u64 \<Rightarrow> embb_errors \<times> embb_duration" where
  "embb_duration_set_seconds duration seconds =
     (if 0 < seconds \<and> seconds * 1000000000 < du_nanoseconds embb_duration_min then (EMBB_UNDERFLOW, duration)
      else if 0 < seconds \<and>
         du_seconds embb_duration_max + du_nanoseconds embb_duration_max div 1000000000 < seconds then
        (EMBB_OVERFLOW, duration)
      else (EMBB_SUCCESS, duration\<lparr>du_seconds := seconds, du_nanoseconds := 0\<rparr>))"

text \<open>The conversion of an \<^verbatim>\<open>unsigned long\<close> to the \<^verbatim>\<open>int\<close> \<^verbatim>\<open>carry\<close>, and back to 64 bits.\<close>

definition carry_of :: "u64 \<Rightarrow> u32" where
  "carry_of ns = ucast (ns div 1000000000)"

definition embb_duration_add :: "embb_duration \<Rightarrow> embb_duration \<Rightarrow> embb_errors \<times> embb_duration" where
  "embb_duration_add lhs rhs =
     (let carry = carry_of (du_nanoseconds lhs + du_nanoseconds rhs) in
      if EMBB_DURATION_MAX_SECONDS < du_seconds lhs + du_seconds rhs + scast carry then (EMBB_OVERFLOW, lhs)
      else (EMBB_SUCCESS, lhs\<lparr>du_nanoseconds := (du_nanoseconds lhs + du_nanoseconds rhs) mod 1000000000,
              du_seconds := du_seconds lhs + du_seconds rhs + scast carry\<rparr>))"

definition embb_duration_as_nanoseconds :: "embb_duration \<Rightarrow> embb_errors \<times> u64 option" where
  "embb_duration_as_nanoseconds duration =
     (if ULLONG_MAX < du_seconds duration * 1000000000 + du_nanoseconds duration then (EMBB_OVERFLOW, None)
      else (EMBB_SUCCESS, Some (du_seconds duration * 1000000000 + du_nanoseconds duration)))"

definition embb_duration_as_microseconds :: "embb_duration \<Rightarrow> embb_errors \<times> u64 option" where
  "embb_duration_as_microseconds duration =
     (if 0 < du_nanoseconds duration mod 1000 then (EMBB_UNDERFLOW, None)
      else if ULLONG_MAX < du_seconds duration * 1000000 + du_nanoseconds duration div 1000 then (EMBB_OVERFLOW, None)
      else (EMBB_SUCCESS, Some (du_seconds duration * 1000000 + du_nanoseconds duration div 1000)))"

definition embb_duration_as_milliseconds :: "embb_duration \<Rightarrow> embb_errors \<times> u64 option" where
  "embb_duration_as_milliseconds duration =
     (if 0 < du_nanoseconds duration mod 1000000 then (EMBB_UNDERFLOW, None)
      else if ULLONG_MAX < du_seconds duration * 1000 + du_nanoseconds duration div 1000000 then (EMBB_OVERFLOW, None)
      else (EMBB_SUCCESS, Some (du_seconds duration * 1000 + du_nanoseconds duration div 1000000)))"

definition embb_duration_as_seconds :: "embb_duration \<Rightarrow> embb_errors \<times> u64 option" where
  "embb_duration_as_seconds duration =
     (if 0 < du_nanoseconds duration mod 1000000000 then (EMBB_UNDERFLOW, None)
      else if ULLONG_MAX < du_seconds duration then (EMBB_OVERFLOW, None)
      else (EMBB_SUCCESS, Some (du_seconds duration)))"

definition embb_duration_compare :: "embb_duration \<Rightarrow> embb_duration \<Rightarrow> int" where
  "embb_duration_compare lhs rhs =
     (if du_seconds rhs < du_seconds lhs then 1
      else if du_seconds lhs < du_seconds rhs then -1
      else if du_nanoseconds rhs < du_nanoseconds lhs then 1
      else if du_nanoseconds lhs < du_nanoseconds rhs then -1
      else 0)"

section \<open>Points in time\<close>

definition embb_time_compare :: "embb_time \<Rightarrow> embb_time \<Rightarrow> int" where
  "embb_time_compare lhs rhs =
     (if ti_seconds rhs < ti_seconds lhs then 1
      else if ti_seconds lhs < ti_seconds rhs then -1
      else if ti_nanoseconds rhs < ti_nanoseconds lhs then 1
      else if ti_nanoseconds lhs < ti_nanoseconds rhs then -1
      else 0)"

text \<open>
  \<open>clock\<close> is the time \<^verbatim>\<open>clock_gettime\<close> returns. The product \<^verbatim>\<open>carry * 1000000000\<close> is one of two \<^verbatim>\<open>int\<close>s
  and overflows, which is undefined, unless the carry is between \<open>-2\<close> and \<open>2\<close>.
\<close>

definition embb_time_in :: "embb_time \<Rightarrow> embb_time \<Rightarrow> embb_duration \<Rightarrow> (embb_errors \<times> embb_time) option" where
  "embb_time_in clock time duration =
     (let time = time\<lparr>ti_seconds := ti_seconds clock, ti_nanoseconds := ti_nanoseconds clock\<rparr>;
          carry = carry_of (ti_nanoseconds time + du_nanoseconds duration) in
      if EMBB_TIME_MAX_SECONDS < ti_seconds time + du_seconds duration + scast carry then
        Some (EMBB_OVERFLOW, time)
      else if - 2 \<le> sint carry \<and> sint carry \<le> 2 then
        Some (EMBB_SUCCESS, time\<lparr>ti_seconds := ti_seconds time + (du_seconds duration + scast carry),
          ti_nanoseconds := ti_nanoseconds time + (du_nanoseconds duration - scast (carry * 1000000000))\<rparr>)
      else None)"

definition embb_time_now :: "embb_time \<Rightarrow> embb_time \<Rightarrow> embb_time option" where
  "embb_time_now clock time = map_option snd (embb_time_in clock time embb_duration_zero)"

section \<open>Nanoseconds\<close>

definition dur_ns :: "embb_duration \<Rightarrow> nat" where
  "dur_ns d = unat (du_seconds d) * 1000000000 + unat (du_nanoseconds d)"

definition dur_normal :: "embb_duration \<Rightarrow> bool" where
  "dur_normal d \<longleftrightarrow> du_nanoseconds d < 1000000000 \<and> du_seconds d \<le> EMBB_DURATION_MAX_SECONDS"

definition time_ns :: "embb_time \<Rightarrow> nat" where
  "time_ns t = unat (ti_seconds t) * 1000000000 + unat (ti_nanoseconds t)"

definition time_normal :: "embb_time \<Rightarrow> bool" where
  "time_normal t \<longleftrightarrow> ti_nanoseconds t < 1000000000"

lemmas duration_defs =
  embb_duration_set_nanoseconds_def embb_duration_set_microseconds_def
  embb_duration_set_milliseconds_def embb_duration_set_seconds_def
  embb_duration_min_def embb_duration_max_def

lemma unat_mult_less: "unat (a :: u64) * unat b < 2 ^ 64 \<Longrightarrow> unat (a * b) = unat a * unat b"
  by (simp add: unat_word_ariths)

lemma unat_add_less: "unat (a :: u64) + unat b < 2 ^ 64 \<Longrightarrow> unat (a + b) = unat a + unat b"
  by (simp add: unat_word_ariths)

lemma word_pos_iff: "0 < (w :: u64) \<longleftrightarrow> 0 < unat w"
  by (simp add: word_less_unat)

text \<open>
  The four setters at once: \<open>scale\<close> is the number of nanoseconds of the unit, \<open>per\<close> the number of units of a
  second.
\<close>

lemma set_scaled_ns:
  fixes x per scale :: u64
  assumes "unat scale * unat per = 1000000000" "unat x \<le> 604800 * unat per"
  shows "unat (x div per) * 1000000000 + unat (x mod per * scale) = unat x * unat scale"
    and "x mod per * scale < 1000000000" and "x div per \<le> 604800"
proof -
  have pos: "0 < unat per" "0 < unat scale"
    using assms(1) by (auto intro!: gr0I)
  have m: "unat (x mod per) = unat x mod unat per" and d: "unat (x div per) = unat x div unat per"
    by (simp_all add: unat_mod_distrib unat_div_distrib)
  have "unat x mod unat per * unat scale < unat per * unat scale"
    using pos by simp
  also have "unat per * unat scale = 1000000000"
    using assms(1) by (simp add: mult.commute)
  finally have less: "unat (x mod per) * unat scale < 1000000000"
    by (simp only: m)
  then have prod: "unat (x mod per * scale) = unat x mod unat per * unat scale"
    using unat_mult_less[of "x mod per" scale] by (simp add: m)
  have "unat (x div per) * 1000000000 + unat (x mod per * scale) =
      unat x div unat per * (unat scale * unat per) + unat x mod unat per * unat scale"
    by (simp add: prod d assms(1))
  also have "\<dots> = (unat x div unat per * unat per + unat x mod unat per) * unat scale"
    by (simp only: add_mult_distrib add_mult_distrib2 ac_simps)
  also have "\<dots> = unat x * unat scale"
    by simp
  finally show "unat (x div per) * 1000000000 + unat (x mod per * scale) = unat x * unat scale" .
  show "x mod per * scale < 1000000000"
    using less by (simp add: word_less_unat prod m)
  have "unat x div unat per \<le> 604800 * unat per div unat per"
    using assms(2) by (rule div_le_mono)
  then show "x div per \<le> 604800"
    using pos by (simp add: word_le_unat d)
qed

lemma set_nanoseconds_ns:
  "embb_duration_set_nanoseconds d x =
     (if unat x \<le> 604800000000000
      then (EMBB_SUCCESS, d\<lparr>du_seconds := x div 1000000000, du_nanoseconds := x mod 1000000000\<rparr>)
      else (EMBB_OVERFLOW, d))"
  by (auto simp: duration_defs word_less_unat word_pos_iff)

lemma set_microseconds_ns:
  "embb_duration_set_microseconds d x =
     (if unat x \<le> 604800000000
      then (EMBB_SUCCESS, d\<lparr>du_seconds := x div 1000000, du_nanoseconds := x mod 1000000 * 1000\<rparr>)
      else (if x * 1000 = 0 then EMBB_UNDERFLOW else EMBB_OVERFLOW, d))"
proof (cases "unat x \<le> 604800000000")
  case True
  then have "unat (x * 1000) = unat x * 1000"
    using unat_mult_less[of x 1000] by simp
  then show ?thesis
    using True by (auto simp: duration_defs word_less_unat)
qed (auto simp: duration_defs word_less_unat unat_eq_0)

lemma set_milliseconds_ns:
  "embb_duration_set_milliseconds d x =
     (if unat x \<le> 604800000
      then (EMBB_SUCCESS, d\<lparr>du_seconds := x div 1000, du_nanoseconds := x mod 1000 * 1000000\<rparr>)
      else (if x * 1000000 = 0 then EMBB_UNDERFLOW else EMBB_OVERFLOW, d))"
proof (cases "unat x \<le> 604800000")
  case True
  then have "unat (x * 1000000) = unat x * 1000000"
    using unat_mult_less[of x 1000000] by simp
  then show ?thesis
    using True by (auto simp: duration_defs word_less_unat)
qed (auto simp: duration_defs word_less_unat unat_eq_0)

lemma carry_of_sum:
  assumes "a < 1000000000" "b < 1000000000"
  shows "unat (a + b) = unat a + unat b"
    and "carry_of (a + b) = (if unat a + unat b < 1000000000 then 0 else 1)"
proof -
  have ab: "unat a < 1000000000" "unat b < 1000000000"
    using assms by (simp_all add: word_less_unat)
  then show sum: "unat (a + b) = unat a + unat b"
    by (intro unat_add_less) simp
  have "unat ((a + b) div 1000000000) = (unat a + unat b) div 1000000000"
    by (simp add: unat_div_distrib sum)
  also have "\<dots> = (if unat a + unat b < 1000000000 then 0 else 1)"
    using ab by (auto intro: div_nat_eqI)
  finally have "(a + b) div 1000000000 = (if unat a + unat b < 1000000000 then 0 else 1)"
    by (simp add: word_unat_eq_iff split: if_splits)
  then show "carry_of (a + b) = (if unat a + unat b < 1000000000 then 0 else 1)"
    by (simp add: carry_of_def)
qed

lemma compare_lex:
  fixes s1 n1 s2 n2 :: nat
  assumes "n1 < 1000000000" "n2 < 1000000000"
  shows "s1 * 1000000000 + n1 < s2 * 1000000000 + n2 \<longleftrightarrow> s1 < s2 \<or> s1 = s2 \<and> n1 < n2"
proof -
  have step: "a * 1000000000 + 1000000000 \<le> b * 1000000000" if "a < b" for a b :: nat
    using mult_le_mono1[of "Suc a" b 1000000000] that by simp
  show ?thesis
    using assms step[of s1 s2] step[of s2 s1] by (cases s1 s2 rule: linorder_cases) auto
qed

lemma time_compare_order:
  assumes "time_normal a" "time_normal b"
  shows "(0 < embb_time_compare a b) = (time_ns b < time_ns a)"
    and "(embb_time_compare a b = 0) = (time_ns a = time_ns b)"
proof -
  have n: "unat (ti_nanoseconds a) < 1000000000" "unat (ti_nanoseconds b) < 1000000000"
    using assms by (simp_all add: time_normal_def word_less_unat)
  show "(0 < embb_time_compare a b) = (time_ns b < time_ns a)"
    unfolding time_ns_def compare_lex[OF n(2,1)]
    by (auto simp: embb_time_compare_def word_less_unat)
  have "time_ns a = time_ns b \<longleftrightarrow> \<not> time_ns b < time_ns a \<and> \<not> time_ns a < time_ns b"
    by auto
  then show "(embb_time_compare a b = 0) = (time_ns a = time_ns b)"
    unfolding time_ns_def compare_lex[OF n(2,1)] compare_lex[OF n]
    by (auto simp: embb_time_compare_def word_less_unat)
qed

lemma time_in_ns:
  assumes "time_normal clock" "dur_normal d" "unat (ti_seconds clock) < 2 ^ 63"
  shows "\<exists>t. embb_time_in clock t0 d = Some (EMBB_SUCCESS, t) \<and> time_normal t \<and>
           time_ns t = time_ns clock + dur_ns d"
proof -
  have n: "ti_nanoseconds clock < 1000000000" "du_nanoseconds d < 1000000000"
    and s: "unat (du_seconds d) \<le> 604800"
    using assms by (auto simp: time_normal_def dur_normal_def word_le_unat)
  have nn: "unat (ti_nanoseconds clock) < 1000000000" "unat (du_nanoseconds d) < 1000000000"
    using n by (simp_all add: word_less_unat)
  note carry = carry_of_sum[OF n]
  have max: "\<not> (- 1 < (x :: u64))" for x
    by (simp add: not_less)
  show ?thesis
  proof (cases "unat (ti_nanoseconds clock) + unat (du_nanoseconds d) < 1000000000")
    case True
    then show ?thesis
      using carry s assms(3) max
      by (auto simp: embb_time_in_def Let_def time_normal_def time_ns_def dur_ns_def word_less_unat
          unat_add_less)
  next
    case False
    have ns: "unat (ti_nanoseconds clock + (du_nanoseconds d - 1000000000)) =
        unat (ti_nanoseconds clock) + unat (du_nanoseconds d) - 1000000000"
    proof -
      have "1000000000 \<le> ti_nanoseconds clock + du_nanoseconds d"
        using False carry(1) by (simp add: word_le_unat)
      then have "unat (ti_nanoseconds clock + du_nanoseconds d - 1000000000) =
          unat (ti_nanoseconds clock + du_nanoseconds d) - 1000000000"
        by (simp add: unat_sub)
      then show ?thesis
        by (simp add: carry(1) add_diff_eq)
    qed
    have sec: "unat (ti_seconds clock + (du_seconds d + 1)) = unat (ti_seconds clock) + (unat (du_seconds d) + 1)"
      using s assms(3) by (simp add: unat_add_less)
    show ?thesis
      using False carry ns sec nn max
      by (auto simp: embb_time_in_def Let_def time_normal_def time_ns_def dur_ns_def word_less_unat)
  qed
qed

lemma duration_add_ns:
  assumes "dur_normal a" "dur_normal b"
  shows "embb_duration_add a b =
           (if 604800 < unat (du_seconds a) + unat (du_seconds b) +
               (unat (du_nanoseconds a) + unat (du_nanoseconds b)) div 1000000000
            then (EMBB_OVERFLOW, a)
            else (EMBB_SUCCESS, snd (embb_duration_add a b)))"
    and "fst (embb_duration_add a b) = EMBB_SUCCESS \<Longrightarrow>
           dur_normal (snd (embb_duration_add a b)) \<and>
           dur_ns (snd (embb_duration_add a b)) = dur_ns a + dur_ns b"
proof -
  have n: "du_nanoseconds a < 1000000000" "du_nanoseconds b < 1000000000"
    and s: "unat (du_seconds a) \<le> 604800" "unat (du_seconds b) \<le> 604800"
    using assms by (auto simp: dur_normal_def word_le_unat)
  then have nn: "unat (du_nanoseconds a) < 1000000000" "unat (du_nanoseconds b) < 1000000000"
    by (simp_all add: word_less_unat)
  note carry = carry_of_sum[OF n]
  let ?n = "unat (du_nanoseconds a) + unat (du_nanoseconds b)"
  have c: "?n div 1000000000 = (if ?n < 1000000000 then 0 else 1)"
    using nn by (auto intro: div_nat_eqI)
  have sc: "unat (scast (carry_of (du_nanoseconds a + du_nanoseconds b)) :: u64) = ?n div 1000000000"
    by (simp add: carry c)
  have sec: "unat (du_seconds a + du_seconds b + scast (carry_of (du_nanoseconds a + du_nanoseconds b))) =
      unat (du_seconds a) + unat (du_seconds b) + ?n div 1000000000"
    using s sc c by (simp add: unat_add_less)
  have "unat ((du_nanoseconds a + du_nanoseconds b) mod 1000000000) = ?n mod 1000000000"
    by (simp add: unat_mod_distrib carry)
  note ns = this
  show "embb_duration_add a b =
           (if 604800 < unat (du_seconds a) + unat (du_seconds b) + ?n div 1000000000
            then (EMBB_OVERFLOW, a) else (EMBB_SUCCESS, snd (embb_duration_add a b)))"
    using sec by (simp add: embb_duration_add_def Let_def word_less_unat)
  assume "fst (embb_duration_add a b) = EMBB_SUCCESS"
  then show "dur_normal (snd (embb_duration_add a b)) \<and>
      dur_ns (snd (embb_duration_add a b)) = dur_ns a + dur_ns b"
    using sec ns
    by (simp add: embb_duration_add_def Let_def dur_normal_def dur_ns_def word_less_unat word_le_unat
        split: if_splits)
qed

section \<open>Properties\<close>

text \<open>
  Timeouts in milliseconds. Up to the maximum of one week the setter succeeds, the
  result is normalised and denotes the given number of milliseconds in nanoseconds, and the conversion back
  returns the number. Above the maximum the setter reports an error and leaves the duration alone.
\<close>

lemma duration_set_milliseconds_exact:
  "case embb_duration_set_milliseconds d x of (err, d') \<Rightarrow>
     if unat x \<le> 604800000
     then err = EMBB_SUCCESS \<and> dur_normal d' \<and> dur_ns d' = unat x * 1000000 \<and>
       embb_duration_as_milliseconds d' = (EMBB_SUCCESS, Some x)
     else err \<noteq> EMBB_SUCCESS \<and> d' = d"
proof (cases "unat x \<le> 604800000")
  case True
  let ?d = "d\<lparr>du_seconds := x div 1000, du_nanoseconds := x mod 1000 * 1000000\<rparr>"
  note facts = set_scaled_ns[of 1000000 1000 x]
  have norm: "dur_normal ?d" "dur_ns ?d = unat x * 1000000"
    using facts True by (simp_all add: dur_normal_def dur_ns_def)
  have prod: "unat (x mod 1000 * 1000000) = unat (x mod 1000) * 1000000"
    using unat_mult_less[of "x mod 1000" 1000000] by (simp add: unat_mod_distrib)
  then have rem: "x mod 1000 * 1000000 mod 1000000 = 0" "x mod 1000 * 1000000 div 1000000 = x mod 1000"
    by (simp_all add: word_unat_eq_iff unat_mod_distrib unat_div_distrib)
  have "x div 1000 * 1000 + x mod 1000 = x"
    by (rule div_mult_mod_eq)
  then have "embb_duration_as_milliseconds ?d = (EMBB_SUCCESS, Some x)"
    using rem by (simp add: embb_duration_as_milliseconds_def not_less)
  then show ?thesis
    using True norm by (simp add: set_milliseconds_ns)
qed (simp add: set_milliseconds_ns)

text \<open>
  Adding durations. For normalised durations the sum is exact and normalised, or, if it exceeds the maximum of
  604800 seconds, an overflow is reported and the duration stays as it was.
\<close>

lemma duration_add_exact:
  assumes "dur_normal a" "dur_normal b"
  shows "case embb_duration_add a b of (err, d) \<Rightarrow>
     if dur_ns a + dur_ns b < 604801 * 1000000000
     then err = EMBB_SUCCESS \<and> dur_normal d \<and> dur_ns d = dur_ns a + dur_ns b
     else err = EMBB_OVERFLOW \<and> d = a"
proof -
  let ?n = "unat (du_nanoseconds a) + unat (du_nanoseconds b)"
  let ?s = "unat (du_seconds a) + unat (du_seconds b)"
  have "dur_ns a + dur_ns b = (?s + ?n div 1000000000) * 1000000000 + ?n mod 1000000000"
    by (simp add: dur_ns_def algebra_simps)
  then have "dur_ns a + dur_ns b < 604801 * 1000000000 \<longleftrightarrow> ?s + ?n div 1000000000 \<le> 604800"
    using compare_lex[of "?n mod 1000000000" 0 "?s + ?n div 1000000000" 604801] by auto
  then show ?thesis
    using duration_add_ns[OF assms] by (auto simp: not_le split: prod.splits if_splits)
qed

text \<open>
  The end of a wait. With a normalised clock before the year \<open>2 ^ 63\<close> seconds and a normalised duration, \<^verbatim>\<open>embb_time_in\<close>
  succeeds, and gives the normalised point in time that is exactly the duration after the clock; comparing points in
  time compares their nanoseconds, so the point is reached exactly when the duration has passed.
\<close>

lemma time_in_reached:
  assumes "time_normal clock" "dur_normal d" "unat (ti_seconds clock) < 2 ^ 63" "time_normal now"
  shows "\<exists>t. embb_time_in clock t0 d = Some (EMBB_SUCCESS, t) \<and> time_normal t \<and>
           time_ns t = time_ns clock + dur_ns d \<and>
           (0 < embb_time_compare now t \<longleftrightarrow> time_ns clock + dur_ns d < time_ns now)"
  using time_in_ns[OF assms(1-3), of t0] time_compare_order(1)[OF assms(4)] by fastforce

text \<open>
  The overflow checks of the conversions never fire: each compares a 64-bit value with the largest 64-bit value. The
  conversion to nanoseconds reports success for every duration, also where the product has wrapped around; for
  normalised durations it is exact.
\<close>

lemma duration_as_nanoseconds_total:
  "embb_duration_as_nanoseconds d = (EMBB_SUCCESS, Some (of_nat (dur_ns d))) \<and>
   (\<exists>d. embb_duration_as_nanoseconds d = (EMBB_SUCCESS, Some 0) \<and> 2 ^ 64 \<le> dur_ns d) \<and>
   (if dur_normal d then unat (of_nat (dur_ns d) :: u64) = dur_ns d else True)"
proof (intro conjI)
  show "embb_duration_as_nanoseconds d = (EMBB_SUCCESS, Some (of_nat (dur_ns d)))"
    by (simp add: embb_duration_as_nanoseconds_def dur_ns_def not_less)
  show "\<exists>d. embb_duration_as_nanoseconds d = (EMBB_SUCCESS, Some 0) \<and> 2 ^ 64 \<le> dur_ns d"
    by (rule exI[of _ "\<lparr>du_seconds = 2 ^ 55, du_nanoseconds = 0\<rparr>"])
       (simp add: embb_duration_as_nanoseconds_def dur_ns_def)
  show "if dur_normal d then unat (of_nat (dur_ns d) :: u64) = dur_ns d else True"
    by (auto simp: dur_normal_def dur_ns_def word_le_unat word_less_unat unat_mult_less unat_add_less)
qed

end
