(* ===== verification/Task_Queue.thy ===== *)
theory Task_Queue
  imports Ring_Buffer Spinlock Attributes
begin

text \<open>
  The queue of tasks (\<^verbatim>\<open>mtapi_c/src/embb_mtapi_task_queue_t.c\<close>) that every worker has one of per priority and that
  a group collects its completed tasks in. A task pointer is the index of the task in
  the task pool, \<open>None\<close> for \<^verbatim>\<open>MTAPI_NULL\<close>. The queue implements \<open>bounded_fifo\<close>.
  \<^verbatim>\<open>embb_mtapi_task_queue_process\<close> calls a visitor on tasks in the queue; the visitor is a function on the
  state it works on, and says whether to go on.
\<close>

record embb_mtapi_task_queue =
  tq_task_buffer :: "u32 option list"
  tq_tasks_available :: u32
  tq_get_task_position :: u32
  tq_put_task_position :: u32
  tq_attributes :: mtapi_queue_attributes
  tq_lock :: embb_mtapi_spinlock

definition embb_mtapi_task_queue_initialize ::
    "mtapi_node_attributes option \<Rightarrow> embb_mtapi_task_queue \<Rightarrow> embb_mtapi_task_queue" where
  "embb_mtapi_task_queue_initialize node that =
     that\<lparr>tq_task_buffer := [], tq_tasks_available := 0, tq_get_task_position := 0,
       tq_put_task_position := 0,
       tq_attributes := the (snd (mtapi_queueattr_init node (Some (tq_attributes that)))),
       tq_lock := embb_mtapi_spinlock_initialize\<rparr>"

definition embb_mtapi_task_queue_initialize_with_capacity ::
    "(nat \<Rightarrow> u32 option) \<Rightarrow> mtapi_node_attributes option \<Rightarrow> embb_mtapi_task_queue \<Rightarrow> u32 \<Rightarrow> embb_mtapi_task_queue" where
  "embb_mtapi_task_queue_initialize_with_capacity garbage node that capacity =
     that\<lparr>tq_task_buffer := map garbage [0..<alloc_count 8 capacity], tq_tasks_available := 0,
       tq_get_task_position := 0, tq_put_task_position := 0,
       tq_attributes := (the (snd (mtapi_queueattr_init node (Some (tq_attributes that)))))\<lparr>qa_limit := capacity\<rparr>,
       tq_lock := embb_mtapi_spinlock_initialize\<rparr>"

definition embb_mtapi_task_queue_finalize ::
    "mtapi_node_attributes option \<Rightarrow> embb_mtapi_task_queue \<Rightarrow> embb_mtapi_task_queue" where
  "embb_mtapi_task_queue_finalize node that =
     (embb_mtapi_task_queue_initialize node (that\<lparr>tq_task_buffer := []\<rparr>))\<lparr>tq_lock := embb_mtapi_spinlock_finalize\<rparr>"

definition embb_mtapi_task_queue_pop ::
    "embb_mtapi_task_queue \<Rightarrow> (u32 option \<times> embb_mtapi_task_queue) option" where
  "embb_mtapi_task_queue_pop that =
     (case spin_lock_count (tq_lock that) 128 of (locked, lock) \<Rightarrow>
        let that = that\<lparr>tq_lock := lock\<rparr> in
        if locked then
          do { (task, that) \<leftarrow>
                 (if 0 < tq_tasks_available that then
                    do { let that = that\<lparr>tq_tasks_available := tq_tasks_available that - 1\<rparr>;
                         let task_position = tq_get_task_position that;
                         let that = that\<lparr>tq_get_task_position := tq_get_task_position that + 1\<rparr>;
                         let that = (if qa_limit (tq_attributes that) \<le> tq_get_task_position that
                                     then that\<lparr>tq_get_task_position := 0\<rparr> else that);
                         task \<leftarrow> arr_get (tq_task_buffer that) task_position;
                         buffer \<leftarrow> arr_set (tq_task_buffer that) task_position None;
                         Some (task, that\<lparr>tq_task_buffer := buffer\<rparr>) }
                  else Some (None, that));
               Some (task, that\<lparr>tq_lock := snd (embb_mtapi_spinlock_release (tq_lock that))\<rparr>) }
        else Some (None, that))"

definition embb_mtapi_task_queue_push ::
    "embb_mtapi_task_queue \<Rightarrow> u32 option \<Rightarrow> (bool \<times> embb_mtapi_task_queue) option" where
  "embb_mtapi_task_queue_push that task =
     do { (locked, lock) \<leftarrow> spin_lock (tq_lock that);
          let that = that\<lparr>tq_lock := lock\<rparr>;
          if locked then
            do { (result, that) \<leftarrow>
                   (if tq_tasks_available that < qa_limit (tq_attributes that) then
                      do { let task_position = tq_put_task_position that;
                           let that = that\<lparr>tq_put_task_position := tq_put_task_position that + 1\<rparr>;
                           let that = (if qa_limit (tq_attributes that) \<le> tq_put_task_position that
                                       then that\<lparr>tq_put_task_position := 0\<rparr> else that);
                           buffer \<leftarrow> arr_set (tq_task_buffer that) task_position task;
                           Some (True, that\<lparr>tq_task_buffer := buffer,
                                            tq_tasks_available := tq_tasks_available that + 1\<rparr>) }
                    else Some (False, that));
                 Some (result, that\<lparr>tq_lock := snd (embb_mtapi_spinlock_release (tq_lock that))\<rparr>) }
          else Some (False, that) }"

text \<open>The modulo by a limit of 0 would be a division by zero.\<close>

definition task_queue_process_body ::
    "u32 option list \<Rightarrow> u32 \<Rightarrow> (u32 option \<Rightarrow> 's \<Rightarrow> (bool \<times> 's) option) \<Rightarrow> u32 \<Rightarrow> bool \<times> u32 \<times> 's \<Rightarrow>
     (bool \<times> bool \<times> u32 \<times> 's) option" where
  "task_queue_process_body buffer limit process ii = (\<lambda>(result, idx, s).
     do { task \<leftarrow> arr_get buffer ii;
          (result, s) \<leftarrow> process task s;
          if \<not> result then Some (False, result, idx, s)
          else if limit = 0 then None
          else Some (True, result, (idx + 1) mod limit, s) })"

definition embb_mtapi_task_queue_process ::
    "embb_mtapi_task_queue \<Rightarrow> (u32 option \<Rightarrow> 's \<Rightarrow> (bool \<times> 's) option) \<Rightarrow> 's \<Rightarrow>
     (bool \<times> embb_mtapi_task_queue \<times> 's) option" where
  "embb_mtapi_task_queue_process that process s =
     do { (locked, lock) \<leftarrow> spin_lock (tq_lock that);
          let that = that\<lparr>tq_lock := lock\<rparr>;
          if locked then
            do { (result, idx, s) \<leftarrow>
                   for_break
                     (task_queue_process_body (tq_task_buffer that) (qa_limit (tq_attributes that)) process)
                     0 (tq_tasks_available that) (True, tq_get_task_position that, s);
                 Some (result, that\<lparr>tq_lock := snd (embb_mtapi_spinlock_release (tq_lock that))\<rparr>, s) }
          else Some (True, that, s) }"

section \<open>The queue as a bounded queue\<close>

abbreviation tq_limit :: "embb_mtapi_task_queue \<Rightarrow> u32" where
  "tq_limit q \<equiv> qa_limit (tq_attributes q)"

definition tq_slots :: "embb_mtapi_task_queue \<Rightarrow> u32 option list" where
  "tq_slots q =
     ring_list (tq_task_buffer q) (unat (tq_get_task_position q)) (unat (tq_tasks_available q))"

definition tq_tasks :: "embb_mtapi_task_queue \<Rightarrow> u32 list" where
  "tq_tasks q = map the (tq_slots q)"

definition task_queue_wf :: "embb_mtapi_task_queue \<Rightarrow> bool" where
  "task_queue_wf q \<longleftrightarrow> tq_lock q = 0 \<and> length (tq_task_buffer q) = unat (tq_limit q) \<and>
     tq_tasks_available q \<le> tq_limit q \<and>
     (0 < tq_limit q \<longrightarrow>
        ring_wf (tq_task_buffer q) (unat (tq_get_task_position q)) (unat (tq_put_task_position q))
          (unat (tq_tasks_available q))) \<and>
     None \<notin> set (tq_slots q)"

lemma length_tq_tasks: "length (tq_tasks q) = unat (tq_tasks_available q)"
  by (simp add: tq_tasks_def tq_slots_def)

lemma task_queue_pop_some:
  assumes wf: "task_queue_wf q" and tasks: "tq_tasks q = x # xs"
  shows "\<exists>q'. embb_mtapi_task_queue_pop q = Some (Some x, q') \<and> task_queue_wf q' \<and> tq_tasks q' = xs \<and>
           tq_limit q' = tq_limit q"
proof -
  let ?buf = "tq_task_buffer q" and ?g = "unat (tq_get_task_position q)"
    and ?n = "unat (tq_tasks_available q)" and ?lim = "tq_limit q"
  have lock: "tq_lock q = 0" and len: "length ?buf = unat ?lim" and avail: "tq_tasks_available q \<le> ?lim"
    using wf by (auto simp: task_queue_wf_def)
  have n: "0 < ?n"
    using tasks length_tq_tasks[of q] by simp
  then have pos: "0 < tq_tasks_available q"
    by (simp add: word_less_unat)
  have ring: "ring_wf ?buf ?g (unat (tq_put_task_position q)) ?n"
    using wf n by (auto simp: task_queue_wf_def word_le_unat word_less_unat)
  have g: "?g < length ?buf"
    using ring by (rule ring_wf_get_bound)
  then have next_g: "unat (if ?lim \<le> tq_get_task_position q + 1 then 0 else tq_get_task_position q + 1) =
      Suc ?g mod length ?buf"
    using unat_pos_next_le[of "tq_get_task_position q" ?lim] len by simp
  have slots: "tq_slots q = Some x # map Some xs"
    using tasks wf map_Some_the[of "tq_slots q"]
    by (simp add: tq_tasks_def task_queue_wf_def)
  then have x: "?buf ! ?g = Some x"
    using ring_list_hd[OF ring n] by (simp add: tq_slots_def)
  let ?q' = "q\<lparr>tq_tasks_available := tq_tasks_available q - 1,
      tq_get_task_position := (if ?lim \<le> tq_get_task_position q + 1 then 0 else tq_get_task_position q + 1),
      tq_task_buffer := ?buf[?g := None], tq_lock := 0\<rparr>"
  have run: "embb_mtapi_task_queue_pop q = Some (Some x, ?q')"
    using lock pos g x by (simp add: embb_mtapi_task_queue_pop_def lock_simps arr_simps Let_def)
  have xs: "tq_slots ?q' = map Some xs"
    using ring_list_get[OF ring n, of None] slots next_g pos
    by (simp add: tq_slots_def unat_dec_pos)
  moreover have "task_queue_wf ?q'"
    using ring_wf_get[OF ring n, of None] xs wf next_g pos avail len
    by (auto simp: task_queue_wf_def unat_dec_pos word_le_unat)
  ultimately show ?thesis
    using run by (intro exI[of _ ?q']) (simp add: tq_tasks_def)
qed

lemma task_queue_pop_none:
  assumes "task_queue_wf q" "tq_tasks q = []"
  shows "embb_mtapi_task_queue_pop q = Some (None, q)"
proof -
  have "tq_tasks_available q = 0"
    using assms(2) length_tq_tasks[of q] by (simp add: unat_eq_0)
  then show ?thesis
    using assms(1) by (simp add: embb_mtapi_task_queue_pop_def task_queue_wf_def lock_simps Let_def)
qed

text \<open>While another thread holds the lock a pop gives up and changes nothing.\<close>

lemma task_queue_pop_locked:
  assumes "tq_lock q \<noteq> 0"
  shows "embb_mtapi_task_queue_pop q = Some (None, q)"
  using assms by (simp add: embb_mtapi_task_queue_pop_def spin_lock_count_held)

lemma task_queue_push_room:
  assumes wf: "task_queue_wf q" and room: "length (tq_tasks q) < unat (tq_limit q)"
  shows "\<exists>q'. embb_mtapi_task_queue_push q (Some x) = Some (True, q') \<and> task_queue_wf q' \<and>
           tq_tasks q' = tq_tasks q @ [x] \<and> tq_limit q' = tq_limit q"
proof -
  let ?buf = "tq_task_buffer q" and ?p = "unat (tq_put_task_position q)"
    and ?n = "unat (tq_tasks_available q)" and ?lim = "tq_limit q"
  have lock: "tq_lock q = 0" and len: "length ?buf = unat ?lim"
    using wf by (auto simp: task_queue_wf_def)
  have n: "?n < unat ?lim" "tq_tasks_available q < ?lim"
    using room by (auto simp: length_tq_tasks word_less_unat)
  have ring: "ring_wf ?buf (unat (tq_get_task_position q)) ?p ?n"
    using wf n by (auto simp: task_queue_wf_def word_less_unat)
  have n_buf: "?n < length ?buf"
    using len n by simp
  have p: "?p < length ?buf"
    using ring by (rule ring_wf_put_bound)
  then have next_p: "unat (if ?lim \<le> tq_put_task_position q + 1 then 0 else tq_put_task_position q + 1) =
      Suc ?p mod length ?buf"
    using unat_pos_next_le[of "tq_put_task_position q" ?lim] len by simp
  let ?q' = "q\<lparr>tq_put_task_position := (if ?lim \<le> tq_put_task_position q + 1 then 0 else tq_put_task_position q + 1),
      tq_task_buffer := ?buf[?p := Some x], tq_tasks_available := tq_tasks_available q + 1, tq_lock := 0\<rparr>"
  have run: "embb_mtapi_task_queue_push q (Some x) = Some (True, ?q')"
    using lock n p by (simp add: embb_mtapi_task_queue_push_def lock_simps arr_simps Let_def)
  have slots: "tq_slots ?q' = tq_slots q @ [Some x]"
    using ring_list_put[OF ring n_buf, of "Some x"] n(2) by (simp add: tq_slots_def unat_inc_less)
  moreover have "task_queue_wf ?q'"
    using ring_wf_put[OF ring n_buf, of "Some x"] slots wf next_p n len
    by (auto simp: task_queue_wf_def unat_inc_less word_le_unat)
  ultimately show ?thesis
    using run by (intro exI[of _ ?q']) (simp add: tq_tasks_def)
qed

lemma task_queue_push_full:
  assumes "task_queue_wf q" "length (tq_tasks q) = unat (tq_limit q)"
  shows "embb_mtapi_task_queue_push q x = Some (False, q)"
proof -
  have "tq_tasks_available q = tq_limit q"
    using assms(2) by (simp add: length_tq_tasks word_unat_eq_iff)
  then show ?thesis
    using assms(1) by (simp add: embb_mtapi_task_queue_push_def task_queue_wf_def lock_simps Let_def)
qed

interpretation task_fifo: bounded_fifo "\<lambda>q x. embb_mtapi_task_queue_push q (Some x)"
  embb_mtapi_task_queue_pop tq_tasks "\<lambda>q. unat (tq_limit q)" task_queue_wf "\<lambda>_. True"
proof (unfold_locales, goal_cases)
  case (1 q)
  then show ?case by (simp add: task_queue_wf_def length_tq_tasks word_le_unat)
next
  case (2 q x)
  then show ?case using task_queue_push_room[of q x] by auto
next
  case (3 q x)
  then show ?case by (simp add: task_queue_push_full)
next
  case (4 q x xs)
  then show ?case using task_queue_pop_some[of q x xs] by auto
next
  case (5 q)
  then show ?case by (simp add: task_queue_pop_none)
qed

lemma task_queue_initialize_wf:
  assumes "8 * unat capacity < 2 ^ 32"
  shows "task_queue_wf (embb_mtapi_task_queue_initialize_with_capacity garbage node that capacity)"
    and "tq_tasks (embb_mtapi_task_queue_initialize_with_capacity garbage node that capacity) = []"
    and "tq_limit (embb_mtapi_task_queue_initialize_with_capacity garbage node that capacity) = capacity"
  using alloc_count_exact[of 8 capacity] assms
  by (simp_all add: embb_mtapi_task_queue_initialize_with_capacity_def task_queue_wf_def tq_tasks_def
      tq_slots_def ring_wf_def embb_mtapi_spinlock_initialize_def word_less_unat)

section \<open>Visiting the tasks in a queue\<close>

text \<open>Calling a visitor on a list of slots until it asks to stop.\<close>

fun visit_slots :: "(u32 option \<Rightarrow> 's \<Rightarrow> (bool \<times> 's) option) \<Rightarrow> u32 option list \<Rightarrow> 's \<Rightarrow> (bool \<times> 's) option" where
  "visit_slots process [] s = Some (True, s)"
| "visit_slots process (t # ts) s =
     (case process t s of
        None \<Rightarrow> None
      | Some (go, s') \<Rightarrow> if go then visit_slots process ts s' else Some (False, s'))"

lemma process_loop_visits:
  assumes "unat ii \<le> unat n" "unat n \<le> length buf" "lim \<noteq> 0"
  shows "map_option (\<lambda>(r, idx, s). (r, s))
           (for_break (task_queue_process_body buf lim process) ii n (True, idx, s)) =
         visit_slots process (drop (unat ii) (take (unat n) buf)) s"
  using assms
proof (induction "unat n - unat ii" arbitrary: ii idx s)
  case 0
  then have "ii = n" by (simp add: word_unat_eq_iff)
  then show ?case by simp
next
  case (Suc d)
  then have less: "ii < n" by (simp add: word_less_unat)
  then have next_ii: "unat (ii + 1) = Suc (unat ii)" by (rule unat_inc_less)
  have ii: "unat ii < length buf" "unat ii < length (take (unat n) buf)"
    using less Suc.prems by (auto simp: word_less_unat)
  have drop: "drop (unat ii) (take (unat n) buf) = buf ! unat ii # drop (Suc (unat ii)) (take (unat n) buf)"
    using Cons_nth_drop_Suc[OF ii(2)] less by (simp add: word_less_unat)
  show ?case
  proof (cases "process (buf ! unat ii) s")
    case None
    then show ?thesis
      using less ii by (simp add: for_break.simps[of _ ii] task_queue_process_body_def drop arr_simps)
  next
    case (Some r)
    obtain go s' where r: "r = (go, s')" by force
    show ?thesis
    proof (cases go)
      case False
      then show ?thesis
        using Some r less ii by (simp add: for_break.simps[of _ ii] task_queue_process_body_def drop arr_simps)
    next
      case True
      have "d = unat n - unat (ii + 1)" "unat (ii + 1) \<le> unat n"
        using Suc.hyps(2) less by (auto simp: next_ii word_less_unat)
      note IH = Suc.hyps(1)[OF this assms(2,3), of "(idx + 1) mod lim" s']
      then show ?thesis
        using Some r True less ii assms(3) by (simp add: for_break.simps[of _ ii] task_queue_process_body_def drop arr_simps next_ii)
    qed
  qed
qed

text \<open>
  What \<^verbatim>\<open>embb_mtapi_task_queue_process\<close> visits: the first slots of the buffer, as many as there are
  tasks in the queue, wherever the read position is.
\<close>

lemma task_queue_process_visits:
  assumes wf: "task_queue_wf q"
  shows "embb_mtapi_task_queue_process q process s =
           map_option (\<lambda>(r, s'). (r, q, s'))
             (visit_slots process (take (unat (tq_tasks_available q)) (tq_task_buffer q)) s)"
proof (cases "tq_tasks_available q = 0")
  case True
  then show ?thesis
    using wf by (simp add: embb_mtapi_task_queue_process_def task_queue_wf_def lock_simps Let_def)
next
  case False
  have "tq_limit q \<noteq> 0" "unat (tq_tasks_available q) \<le> length (tq_task_buffer q)"
    using wf False by (auto simp: task_queue_wf_def word_le_unat unat_eq_0)
  note visits = process_loop_visits[OF _ this(2,1), of 0 process "tq_get_task_position q" s]
  have lock: "tq_lock q = 0"
    using wf by (simp add: task_queue_wf_def)
  let ?loop = "for_break (task_queue_process_body (tq_task_buffer q) (tq_limit q) process) 0
      (tq_tasks_available q) (True, tq_get_task_position q, s)"
  have "embb_mtapi_task_queue_process q process s = map_option (\<lambda>(r, idx, s). (r, q, s)) ?loop"
    using lock by (cases ?loop) (auto simp: embb_mtapi_task_queue_process_def lock_simps Let_def)
  also have "\<dots> = map_option (\<lambda>(r, s'). (r, q, s')) (map_option (\<lambda>(r, idx, s). (r, s)) ?loop)"
    by (cases ?loop) auto
  finally show ?thesis
    using visits by simp
qed

text \<open>While the read position is at the start of the buffer these are the tasks in the queue.\<close>

lemma ring_list_from_start:
  "n \<le> length buf \<Longrightarrow> ring_list buf 0 n = take n buf"
  unfolding ring_list_def by (intro nth_equalityI) auto

lemma task_queue_slots_from_start:
  assumes "task_queue_wf q" "tq_get_task_position q = 0"
  shows "take (unat (tq_tasks_available q)) (tq_task_buffer q) = map Some (tq_tasks q)"
proof -
  have "take (unat (tq_tasks_available q)) (tq_task_buffer q) = tq_slots q"
    using assms by (simp add: tq_slots_def ring_list_from_start task_queue_wf_def word_le_unat)
  also have "\<dots> = map Some (tq_tasks q)"
    using assms(1) map_Some_the[of "tq_slots q"] by (simp add: task_queue_wf_def tq_tasks_def)
  finally show ?thesis .
qed

section \<open>Properties\<close>

text \<open>
  C19. A task queue is a bounded queue. Any sequence of pushes and pops runs without leaving the buffer; the tasks
  popped are, in order, those in the queue at the start followed by those whose push succeeded; and
  the queue never holds more tasks than its limit.
\<close>

theorem task_queue_fifo_order:
  assumes "task_queue_wf q"
  shows "\<exists>ins outs q'.
           fifo_run (\<lambda>q x. embb_mtapi_task_queue_push q (Some x)) embb_mtapi_task_queue_pop ops q =
             Some (ins, outs, q') \<and>
           task_queue_wf q' \<and> tq_limit q' = tq_limit q \<and>
           tq_tasks q @ ins = outs @ tq_tasks q' \<and> length (tq_tasks q') \<le> unat (tq_limit q)"
  using task_fifo.fifo_law[OF assms, of ops] task_fifo.length_bound
  by (auto simp: word_unat_eq_iff[symmetric]) metis

text \<open>A queue with the read position in the middle of its buffer.\<close>

definition wrapped_queue :: "embb_mtapi_task_queue" where
  "wrapped_queue = \<lparr>tq_task_buffer = [Some 3, None, Some 2], tq_tasks_available = 2,
     tq_get_task_position = 2, tq_put_task_position = 1,
     tq_attributes = \<lparr>qa_global = 0, qa_priority = 0, qa_limit = 3, qa_ordered = 0, qa_retain = 0,
       qa_domain_shared = 0\<rparr>, tq_lock = 0\<rparr>"

lemma wrapped_queue_wf: "task_queue_wf wrapped_queue" "tq_tasks wrapped_queue = [2, 3]"
  by (simp_all add: wrapped_queue_def task_queue_wf_def tq_tasks_def tq_slots_def ring_list_def ring_wf_def
      upt_rec)

theorem task_queue_fifo_order_witness:
  "\<exists>ins outs q'.
     fifo_run (\<lambda>q x. embb_mtapi_task_queue_push q (Some x)) embb_mtapi_task_queue_pop
       [Put 4, Put 5, Get, Get] wrapped_queue = Some (ins, outs, q') \<and>
     task_queue_wf q' \<and> [2, 3] @ ins = outs @ tq_tasks q' \<and> length (tq_tasks q') \<le> 3"
  using task_queue_fifo_order[OF wrapped_queue_wf(1), of "[Put 4, Put 5, Get, Get]"]
  by (auto simp: wrapped_queue_wf(2)) (simp add: wrapped_queue_def)

text \<open>
  A push succeeds exactly when there is room, a full queue is left as it is, and a pop fails exactly when the
  queue is empty; while another thread holds the lock, a pop gives up after 128 attempts, returns no task
  and changes nothing, even if there are tasks in the queue.
\<close>

lemma task_queue_outcomes:
  assumes "task_queue_wf q"
  shows "(length (tq_tasks q) < unat (tq_limit q) \<longrightarrow>
            (\<exists>q'. embb_mtapi_task_queue_push q (Some x) = Some (True, q') \<and> tq_tasks q' = tq_tasks q @ [x])) \<and>
         (length (tq_tasks q) = unat (tq_limit q) \<longrightarrow> embb_mtapi_task_queue_push q (Some x) = Some (False, q)) \<and>
         (tq_tasks q \<noteq> [] \<longrightarrow>
            (\<exists>q'. embb_mtapi_task_queue_pop q = Some (Some (hd (tq_tasks q)), q') \<and> tq_tasks q' = tl (tq_tasks q))) \<and>
         (tq_tasks q = [] \<longrightarrow> embb_mtapi_task_queue_pop q = Some (None, q)) \<and>
         embb_mtapi_task_queue_pop (q\<lparr>tq_lock := 1\<rparr>) = Some (None, q\<lparr>tq_lock := 1\<rparr>)"
  using task_queue_push_room[OF assms, of x] task_queue_push_full[OF assms, of "Some x"]
    task_queue_pop_some[OF assms, of "hd (tq_tasks q)" "tl (tq_tasks q)"] task_queue_pop_none[OF assms]
    task_queue_pop_locked[of "q\<lparr>tq_lock := 1\<rparr>"]
  by auto

text \<open>
  Visiting the tasks of a queue. The visitor is called on the first slots of the buffer, as many as there are
  tasks in the queue, until it asks to stop, and the queue is not changed. While the read position is at the start
  of the buffer these slots hold exactly the tasks in the queue, in order.
\<close>

lemma task_queue_process_from_start:
  assumes "task_queue_wf q"
  shows "embb_mtapi_task_queue_process q process s =
           map_option (\<lambda>(r, s'). (r, q, s'))
             (visit_slots process (take (unat (tq_tasks_available q)) (tq_task_buffer q)) s) \<and>
         (tq_get_task_position q = 0 \<longrightarrow>
            take (unat (tq_tasks_available q)) (tq_task_buffer q) = map Some (tq_tasks q))"
  by (intro conjI impI task_queue_process_visits task_queue_slots_from_start assms)




end
