(* ===== verification/Node_State.thy ===== *)
theory Node_State
  imports Pool Task_Queue Duration_Time
begin

text \<open>
  The state of an MTAPI node: the structures of \<^verbatim>\<open>embb_mtapi_job_t.h\<close>, \<^verbatim>\<open>embb_mtapi_action_t.h\<close>,
  \<^verbatim>\<open>embb_mtapi_task_t.h\<close>, \<^verbatim>\<open>embb_mtapi_group_t.h\<close>, \<^verbatim>\<open>embb_mtapi_queue_t.h\<close>, \<^verbatim>\<open>embb_mtapi_thread_context_t.h\<close>,
  \<^verbatim>\<open>embb_mtapi_task_context_t.h\<close>, \<^verbatim>\<open>embb_mtapi_scheduler_t.h\<close> and \<^verbatim>\<open>embb_mtapi_node_t.h\<close>.

  A pointer to an object in a pool is its index in the storage of the pool, a pointer to a worker its
  index among the workers. Function pointers are addresses. What the functions behind them do, action
  functions, completion callbacks and plugins, is not part of the library: it is the parameter
  \<open>env\<close> of the functions that call them, and it may change the whole state, as a call back into the
  library does. \<open>env_yield\<close> is what the other threads do while this one yields.

  The mutex, the condition variable and the thread of a worker are objects of the operating system and are
  left out of the structure; waking a worker is recorded in \<open>st_calls\<close>. The thread-specific
  slot of a worker maps a thread to the worker that was stored by this thread.
\<close>

datatype mtapi_task_state =
  MTAPI_TASK_INTENTIONALLY_UNUSED | MTAPI_TASK_ERROR | MTAPI_TASK_PRENATAL | MTAPI_TASK_CREATED
| MTAPI_TASK_SCHEDULED | MTAPI_TASK_RUNNING | MTAPI_TASK_WAITING | MTAPI_TASK_RETAINED
| MTAPI_TASK_DELETED | MTAPI_TASK_CANCELLED | MTAPI_TASK_COMPLETED

datatype embb_mtapi_scheduler_mode = WORK_STEAL_VHPF | WORK_STEAL_LF | NUM_SCHEDULER_MODES

section \<open>Structures\<close>

record embb_mtapi_job = pool_object +
  jb_domain_id :: u32
  jb_node_id :: u32
  jb_num_actions :: u32
  jb_max_actions :: u32
  jb_actions :: "mtapi_hndl list"

record embb_mtapi_action = pool_object +
  ac_domain_id :: u32
  ac_node_id :: u32
  ac_job_id :: u32
  ac_action_function :: u64
  ac_node_local_data :: u64
  ac_node_local_data_size :: u32
  ac_attributes :: mtapi_action_attributes
  ac_enabled :: mtapi_boolean
  ac_is_plugin_action :: mtapi_boolean
  ac_plugin_data :: u64
  ac_plugin_task_start_function :: u64
  ac_plugin_task_cancel_function :: u64
  ac_plugin_action_finalize_function :: u64
  ac_num_tasks :: u32

record embb_mtapi_task = pool_object +
  tk_task_id :: u32
  tk_job :: mtapi_hndl
  tk_arguments :: u64
  tk_arguments_size :: u32
  tk_result_buffer :: u64
  tk_result_size :: u32
  tk_attributes :: mtapi_task_attributes
  tk_group :: mtapi_hndl
  tk_queue :: mtapi_hndl
  tk_action :: mtapi_hndl
  tk_state_lock :: embb_mtapi_spinlock
  tk_state :: mtapi_task_state
  tk_current_instance :: u32
  tk_instances_todo :: u32
  tk_error_code :: mtapi_status

record embb_mtapi_group = pool_object +
  gr_group_id :: u32
  gr_deleted :: mtapi_boolean
  gr_num_tasks :: u32
  gr_attributes :: mtapi_group_attributes
  gr_queue :: embb_mtapi_task_queue

record embb_mtapi_queue = pool_object +
  qu_queue_id :: u32
  qu_enabled :: mtapi_boolean
  qu_job_handle :: mtapi_hndl
  qu_attributes :: mtapi_queue_attributes
  qu_num_tasks :: u32
  qu_ordered_affinity :: mtapi_affinity

record embb_mtapi_thread_context =
  tc_tss :: "u32 \<Rightarrow> u32 option"
  tc_is_sleeping :: u32
  tc_queue :: "embb_mtapi_task_queue list"
  tc_private_queue :: "embb_mtapi_task_queue list"
  tc_priorities :: u32
  tc_worker_index :: u32
  tc_core_num :: u32
  tc_run :: u32

record embb_mtapi_task_context =
  cx_instance_num :: u32
  cx_num_instances :: u32
  cx_task :: u32
  cx_thread_context :: u32

record embb_mtapi_scheduler =
  sc_worker_count :: u32
  sc_worker_contexts :: "embb_mtapi_thread_context list"
  sc_mode :: embb_mtapi_scheduler_mode
  sc_affine_task_counter :: u32

text \<open>The structure \<^verbatim>\<open>mtapi_info_t\<close>.\<close>

record mtapi_info =
  in_hardware_concurrency :: u32
  in_used_memory :: u32

record embb_mtapi_node =
  nd_domain_id :: u32
  nd_node_id :: u32
  nd_attributes :: mtapi_node_attributes
  nd_info :: mtapi_info
  nd_scheduler :: "embb_mtapi_scheduler option"
  nd_job_list :: "embb_mtapi_job list"
  nd_action_pool :: "embb_mtapi_action embb_mtapi_pool option"
  nd_group_pool :: "embb_mtapi_group embb_mtapi_pool option"
  nd_task_pool :: "embb_mtapi_task embb_mtapi_pool option"
  nd_queue_pool :: "embb_mtapi_queue embb_mtapi_pool option"
  nd_is_scheduler_running :: u32
  nd_affinity_all :: mtapi_affinity

text \<open>The arguments of an action function, in the order of the call.\<close>

record action_call =
  cl_arguments :: u64
  cl_arguments_size :: u32
  cl_result_buffer :: u64
  cl_result_size :: u32
  cl_node_local_data :: u64
  cl_node_local_data_size :: u32
  cl_context :: embb_mtapi_task_context

text \<open>
  What is recorded of the calls to the outside: the finalizers of plugins, the wake-ups of workers, and the calls of those action functions whose model chooses
  to record itself.
\<close>

datatype mtapi_call = Plugin_Finalize u64 mtapi_hndl | Notify_One u32 | Action_Called u64 action_call

record mtapi_state =
  st_node :: "embb_mtapi_node option"
  st_memory :: memory
  st_clock :: embb_time
  st_calls :: "mtapi_call list"

record mtapi_env =
  env_action :: "u64 \<Rightarrow> action_call \<Rightarrow> mtapi_state \<Rightarrow> mtapi_state option"
  env_complete :: "u64 \<Rightarrow> mtapi_hndl \<Rightarrow> mtapi_state \<Rightarrow> mtapi_state option"
  env_plugin_start :: "u64 \<Rightarrow> mtapi_hndl \<Rightarrow> mtapi_status \<Rightarrow> mtapi_state \<Rightarrow> (mtapi_status \<times> mtapi_state) option"
  env_plugin_cancel :: "u64 \<Rightarrow> mtapi_hndl \<Rightarrow> mtapi_status \<Rightarrow> mtapi_state \<Rightarrow> (mtapi_status \<times> mtapi_state) option"
  env_yield :: "mtapi_state \<Rightarrow> mtapi_state option"

abbreviation MTAPI_HNDL_NONE :: mtapi_hndl where
  "MTAPI_HNDL_NONE \<equiv> \<lparr>hndl_tag = 0, hndl_id = EMBB_MTAPI_IDPOOL_INVALID_ID\<rparr>"

abbreviation node_attr :: "mtapi_state \<Rightarrow> mtapi_node_attributes option" where
  "node_attr s \<equiv> map_option nd_attributes (st_node s)"

section \<open>Reading and writing objects through pointers\<close>

text \<open>
  A read or write through a null pointer or outside of a pool is \<open>None\<close>. The four pools of the node
  have the same accessors, written over the pool fields.
\<close>

definition task_pool :: "mtapi_state \<Rightarrow> embb_mtapi_task embb_mtapi_pool option" where
  "task_pool s = Option.bind (st_node s) nd_task_pool"

definition action_pool :: "mtapi_state \<Rightarrow> embb_mtapi_action embb_mtapi_pool option" where
  "action_pool s = Option.bind (st_node s) nd_action_pool"

definition group_pool :: "mtapi_state \<Rightarrow> embb_mtapi_group embb_mtapi_pool option" where
  "group_pool s = Option.bind (st_node s) nd_group_pool"

definition queue_pool :: "mtapi_state \<Rightarrow> embb_mtapi_queue embb_mtapi_pool option" where
  "queue_pool s = Option.bind (st_node s) nd_queue_pool"

definition set_task_pool :: "embb_mtapi_task embb_mtapi_pool \<Rightarrow> mtapi_state \<Rightarrow> mtapi_state" where
  "set_task_pool p s = s\<lparr>st_node := map_option (nd_task_pool_update (\<lambda>_. Some p)) (st_node s)\<rparr>"

definition set_action_pool :: "embb_mtapi_action embb_mtapi_pool \<Rightarrow> mtapi_state \<Rightarrow> mtapi_state" where
  "set_action_pool p s = s\<lparr>st_node := map_option (nd_action_pool_update (\<lambda>_. Some p)) (st_node s)\<rparr>"

definition set_group_pool :: "embb_mtapi_group embb_mtapi_pool \<Rightarrow> mtapi_state \<Rightarrow> mtapi_state" where
  "set_group_pool p s = s\<lparr>st_node := map_option (nd_group_pool_update (\<lambda>_. Some p)) (st_node s)\<rparr>"

definition set_queue_pool :: "embb_mtapi_queue embb_mtapi_pool \<Rightarrow> mtapi_state \<Rightarrow> mtapi_state" where
  "set_queue_pool p s = s\<lparr>st_node := map_option (nd_queue_pool_update (\<lambda>_. Some p)) (st_node s)\<rparr>"

definition get_task :: "mtapi_state \<Rightarrow> u32 \<Rightarrow> embb_mtapi_task option" where
  "get_task s i = do { p \<leftarrow> task_pool s; arr_get (pl_storage p) i }"

definition put_task :: "u32 \<Rightarrow> embb_mtapi_task \<Rightarrow> mtapi_state \<Rightarrow> mtapi_state option" where
  "put_task i x s = do { p \<leftarrow> task_pool s; st \<leftarrow> arr_set (pl_storage p) i x;
     Some (set_task_pool (p\<lparr>pl_storage := st\<rparr>) s) }"

definition upd_task :: "u32 \<Rightarrow> (embb_mtapi_task \<Rightarrow> embb_mtapi_task) \<Rightarrow> mtapi_state \<Rightarrow> mtapi_state option" where
  "upd_task i f s = do { x \<leftarrow> get_task s i; put_task i (f x) s }"

definition get_action :: "mtapi_state \<Rightarrow> u32 \<Rightarrow> embb_mtapi_action option" where
  "get_action s i = do { p \<leftarrow> action_pool s; arr_get (pl_storage p) i }"

definition put_action :: "u32 \<Rightarrow> embb_mtapi_action \<Rightarrow> mtapi_state \<Rightarrow> mtapi_state option" where
  "put_action i x s = do { p \<leftarrow> action_pool s; st \<leftarrow> arr_set (pl_storage p) i x;
     Some (set_action_pool (p\<lparr>pl_storage := st\<rparr>) s) }"

definition upd_action :: "u32 \<Rightarrow> (embb_mtapi_action \<Rightarrow> embb_mtapi_action) \<Rightarrow> mtapi_state \<Rightarrow> mtapi_state option" where
  "upd_action i f s = do { x \<leftarrow> get_action s i; put_action i (f x) s }"

definition get_group :: "mtapi_state \<Rightarrow> u32 \<Rightarrow> embb_mtapi_group option" where
  "get_group s i = do { p \<leftarrow> group_pool s; arr_get (pl_storage p) i }"

definition put_group :: "u32 \<Rightarrow> embb_mtapi_group \<Rightarrow> mtapi_state \<Rightarrow> mtapi_state option" where
  "put_group i x s = do { p \<leftarrow> group_pool s; st \<leftarrow> arr_set (pl_storage p) i x;
     Some (set_group_pool (p\<lparr>pl_storage := st\<rparr>) s) }"

definition upd_group :: "u32 \<Rightarrow> (embb_mtapi_group \<Rightarrow> embb_mtapi_group) \<Rightarrow> mtapi_state \<Rightarrow> mtapi_state option" where
  "upd_group i f s = do { x \<leftarrow> get_group s i; put_group i (f x) s }"

definition get_queue :: "mtapi_state \<Rightarrow> u32 \<Rightarrow> embb_mtapi_queue option" where
  "get_queue s i = do { p \<leftarrow> queue_pool s; arr_get (pl_storage p) i }"

definition put_queue :: "u32 \<Rightarrow> embb_mtapi_queue \<Rightarrow> mtapi_state \<Rightarrow> mtapi_state option" where
  "put_queue i x s = do { p \<leftarrow> queue_pool s; st \<leftarrow> arr_set (pl_storage p) i x;
     Some (set_queue_pool (p\<lparr>pl_storage := st\<rparr>) s) }"

definition upd_queue :: "u32 \<Rightarrow> (embb_mtapi_queue \<Rightarrow> embb_mtapi_queue) \<Rightarrow> mtapi_state \<Rightarrow> mtapi_state option" where
  "upd_queue i f s = do { x \<leftarrow> get_queue s i; put_queue i (f x) s }"

definition get_job :: "mtapi_state \<Rightarrow> u32 \<Rightarrow> embb_mtapi_job option" where
  "get_job s i = do { n \<leftarrow> st_node s; arr_get (nd_job_list n) i }"

definition put_job :: "u32 \<Rightarrow> embb_mtapi_job \<Rightarrow> mtapi_state \<Rightarrow> mtapi_state option" where
  "put_job i x s = do { n \<leftarrow> st_node s; l \<leftarrow> arr_set (nd_job_list n) i x;
     Some (s\<lparr>st_node := Some (n\<lparr>nd_job_list := l\<rparr>)\<rparr>) }"

definition scheduler :: "mtapi_state \<Rightarrow> embb_mtapi_scheduler option" where
  "scheduler s = Option.bind (st_node s) nd_scheduler"

definition set_scheduler :: "embb_mtapi_scheduler \<Rightarrow> mtapi_state \<Rightarrow> mtapi_state" where
  "set_scheduler c s = s\<lparr>st_node := map_option (nd_scheduler_update (\<lambda>_. Some c)) (st_node s)\<rparr>"

definition get_worker :: "mtapi_state \<Rightarrow> u32 \<Rightarrow> embb_mtapi_thread_context option" where
  "get_worker s w = do { c \<leftarrow> scheduler s; arr_get (sc_worker_contexts c) w }"

definition put_worker :: "u32 \<Rightarrow> embb_mtapi_thread_context \<Rightarrow> mtapi_state \<Rightarrow> mtapi_state option" where
  "put_worker w x s = do { c \<leftarrow> scheduler s; l \<leftarrow> arr_set (sc_worker_contexts c) w x;
     Some (set_scheduler (c\<lparr>sc_worker_contexts := l\<rparr>) s) }"

text \<open>The public and the private queue of worker \<open>w\<close> for priority \<open>prio\<close>.\<close>

definition get_public :: "mtapi_state \<Rightarrow> u32 \<Rightarrow> u32 \<Rightarrow> embb_mtapi_task_queue option" where
  "get_public s w prio = do { x \<leftarrow> get_worker s w; arr_get (tc_queue x) prio }"

definition put_public :: "u32 \<Rightarrow> u32 \<Rightarrow> embb_mtapi_task_queue \<Rightarrow> mtapi_state \<Rightarrow> mtapi_state option" where
  "put_public w prio q s = do { x \<leftarrow> get_worker s w; l \<leftarrow> arr_set (tc_queue x) prio q;
     put_worker w (x\<lparr>tc_queue := l\<rparr>) s }"

definition get_private :: "mtapi_state \<Rightarrow> u32 \<Rightarrow> u32 \<Rightarrow> embb_mtapi_task_queue option" where
  "get_private s w prio = do { x \<leftarrow> get_worker s w; arr_get (tc_private_queue x) prio }"

definition put_private :: "u32 \<Rightarrow> u32 \<Rightarrow> embb_mtapi_task_queue \<Rightarrow> mtapi_state \<Rightarrow> mtapi_state option" where
  "put_private w prio q s = do { x \<leftarrow> get_worker s w; l \<leftarrow> arr_set (tc_private_queue x) prio q;
     put_worker w (x\<lparr>tc_private_queue := l\<rparr>) s }"

definition add_call :: "mtapi_call \<Rightarrow> mtapi_state \<Rightarrow> mtapi_state" where
  "add_call e s = s\<lparr>st_calls := st_calls s @ [e]\<rparr>"

section \<open>What a write leaves alone\<close>

named_theorems state_simps \<open>reads after writes through pointers\<close>

lemma frame_task_pool [state_simps]:
  shows "task_pool (set_action_pool ap s) = task_pool s"
    and "task_pool (set_group_pool gp s) = task_pool s"
    and "task_pool (set_queue_pool qp s) = task_pool s"
    and "task_pool (set_scheduler c s) = task_pool s"
    and "task_pool (add_call e s) = task_pool s"
  by (cases "st_node s"; simp add: add_call_def set_action_pool_def set_group_pool_def set_queue_pool_def set_scheduler_def task_pool_def)+

lemma own_task_pool [state_simps]:
  "st_node s \<noteq> None \<Longrightarrow> task_pool (set_task_pool tp s) = Some tp"
  by (cases "st_node s") (simp_all add: task_pool_def set_task_pool_def)

lemma frame_action_pool [state_simps]:
  shows "action_pool (set_task_pool tp s) = action_pool s"
    and "action_pool (set_group_pool gp s) = action_pool s"
    and "action_pool (set_queue_pool qp s) = action_pool s"
    and "action_pool (set_scheduler c s) = action_pool s"
    and "action_pool (add_call e s) = action_pool s"
  by (cases "st_node s"; simp add: action_pool_def add_call_def set_group_pool_def set_queue_pool_def set_scheduler_def set_task_pool_def)+

lemma own_action_pool [state_simps]:
  "st_node s \<noteq> None \<Longrightarrow> action_pool (set_action_pool ap s) = Some ap"
  by (cases "st_node s") (simp_all add: action_pool_def set_action_pool_def)

lemma frame_group_pool [state_simps]:
  shows "group_pool (set_task_pool tp s) = group_pool s"
    and "group_pool (set_action_pool ap s) = group_pool s"
    and "group_pool (set_queue_pool qp s) = group_pool s"
    and "group_pool (set_scheduler c s) = group_pool s"
    and "group_pool (add_call e s) = group_pool s"
  by (cases "st_node s"; simp add: add_call_def group_pool_def set_action_pool_def set_queue_pool_def set_scheduler_def set_task_pool_def)+

lemma own_group_pool [state_simps]:
  "st_node s \<noteq> None \<Longrightarrow> group_pool (set_group_pool gp s) = Some gp"
  by (cases "st_node s") (simp_all add: group_pool_def set_group_pool_def)

lemma frame_queue_pool [state_simps]:
  shows "queue_pool (set_task_pool tp s) = queue_pool s"
    and "queue_pool (set_action_pool ap s) = queue_pool s"
    and "queue_pool (set_group_pool gp s) = queue_pool s"
    and "queue_pool (set_scheduler c s) = queue_pool s"
    and "queue_pool (add_call e s) = queue_pool s"
  by (cases "st_node s"; simp add: add_call_def queue_pool_def set_action_pool_def set_group_pool_def set_scheduler_def set_task_pool_def)+

lemma own_queue_pool [state_simps]:
  "st_node s \<noteq> None \<Longrightarrow> queue_pool (set_queue_pool qp s) = Some qp"
  by (cases "st_node s") (simp_all add: queue_pool_def set_queue_pool_def)

lemma frame_scheduler [state_simps]:
  shows "scheduler (set_task_pool tp s) = scheduler s"
    and "scheduler (set_action_pool ap s) = scheduler s"
    and "scheduler (set_group_pool gp s) = scheduler s"
    and "scheduler (set_queue_pool qp s) = scheduler s"
    and "scheduler (add_call e s) = scheduler s"
  by (cases "st_node s"; simp add: add_call_def scheduler_def set_action_pool_def set_group_pool_def set_queue_pool_def set_task_pool_def)+

lemma own_scheduler [state_simps]:
  "st_node s \<noteq> None \<Longrightarrow> scheduler (set_scheduler c s) = Some c"
  by (cases "st_node s") (simp_all add: scheduler_def set_scheduler_def)

lemma frame_node_none [state_simps]:
  shows "st_node (set_task_pool tp s) = None \<longleftrightarrow> st_node s = None"
    and "st_node (set_action_pool ap s) = None \<longleftrightarrow> st_node s = None"
    and "st_node (set_group_pool gp s) = None \<longleftrightarrow> st_node s = None"
    and "st_node (set_queue_pool qp s) = None \<longleftrightarrow> st_node s = None"
    and "st_node (set_scheduler c s) = None \<longleftrightarrow> st_node s = None"
    and "st_node (add_call e s) = None \<longleftrightarrow> st_node s = None"
  by (cases "st_node s"; simp add: set_task_pool_def set_action_pool_def set_group_pool_def set_queue_pool_def set_scheduler_def add_call_def)+

lemma frame_node_attr [state_simps]:
  shows "node_attr (set_task_pool tp s) = node_attr s"
    and "node_attr (set_action_pool ap s) = node_attr s"
    and "node_attr (set_group_pool gp s) = node_attr s"
    and "node_attr (set_queue_pool qp s) = node_attr s"
    and "node_attr (set_scheduler c s) = node_attr s"
    and "node_attr (add_call e s) = node_attr s"
  by (cases "st_node s"; simp add: set_task_pool_def set_action_pool_def set_group_pool_def set_queue_pool_def set_scheduler_def add_call_def)+

lemma frame_memory [state_simps]:
  shows "st_memory (set_task_pool tp s) = st_memory s"
    and "st_memory (set_action_pool ap s) = st_memory s"
    and "st_memory (set_group_pool gp s) = st_memory s"
    and "st_memory (set_queue_pool qp s) = st_memory s"
    and "st_memory (set_scheduler c s) = st_memory s"
    and "st_memory (add_call e s) = st_memory s"
  by (cases "st_node s"; simp add: set_task_pool_def set_action_pool_def set_group_pool_def set_queue_pool_def set_scheduler_def add_call_def)+

lemma frame_clock [state_simps]:
  shows "st_clock (set_task_pool tp s) = st_clock s"
    and "st_clock (set_action_pool ap s) = st_clock s"
    and "st_clock (set_group_pool gp s) = st_clock s"
    and "st_clock (set_queue_pool qp s) = st_clock s"
    and "st_clock (set_scheduler c s) = st_clock s"
    and "st_clock (add_call e s) = st_clock s"
  by (cases "st_node s"; simp add: set_task_pool_def set_action_pool_def set_group_pool_def set_queue_pool_def set_scheduler_def add_call_def)+

lemma frame_jobs [state_simps]:
  shows "get_job (set_task_pool tp s) i = get_job s i"
    and "get_job (set_action_pool ap s) i = get_job s i"
    and "get_job (set_group_pool gp s) i = get_job s i"
    and "get_job (set_queue_pool qp s) i = get_job s i"
    and "get_job (set_scheduler c s) i = get_job s i"
    and "get_job (add_call e s) i = get_job s i"
  by (cases "st_node s"; simp add: get_job_def set_task_pool_def set_action_pool_def set_group_pool_def set_queue_pool_def set_scheduler_def add_call_def)+

lemma set_pool_twice [simp]:
  shows "set_task_pool tp' (set_task_pool tp s) = set_task_pool tp' s"
    and "set_action_pool ap' (set_action_pool ap s) = set_action_pool ap' s"
    and "set_group_pool gp' (set_group_pool gp s) = set_group_pool gp' s"
    and "set_queue_pool qp' (set_queue_pool qp s) = set_queue_pool qp' s"
    and "set_scheduler c' (set_scheduler c s) = set_scheduler c' s"
  by (cases "st_node s"; simp add: set_task_pool_def set_action_pool_def set_group_pool_def set_queue_pool_def set_scheduler_def)+

lemma upd_task_Some:
  assumes "task_pool s = Some p" "unat i < length (pl_storage p)"
  shows "upd_task i f s = Some (set_task_pool (p\<lparr>pl_storage := (pl_storage p)[unat i := f (pl_storage p ! unat i)]\<rparr>) s)"
    and "put_task i x s = Some (set_task_pool (p\<lparr>pl_storage := (pl_storage p)[unat i := x]\<rparr>) s)"
    and "get_task s i = Some (pl_storage p ! unat i)"
  using assms by (simp_all add: upd_task_def get_task_def put_task_def arr_simps)

lemma task_pool_node: "task_pool s = Some p \<Longrightarrow> st_node s \<noteq> None"
  by (auto simp: task_pool_def bind_eq_Some_conv)

lemma upd_action_Some:
  assumes "action_pool s = Some p" "unat i < length (pl_storage p)"
  shows "upd_action i f s = Some (set_action_pool (p\<lparr>pl_storage := (pl_storage p)[unat i := f (pl_storage p ! unat i)]\<rparr>) s)"
    and "put_action i x s = Some (set_action_pool (p\<lparr>pl_storage := (pl_storage p)[unat i := x]\<rparr>) s)"
    and "get_action s i = Some (pl_storage p ! unat i)"
  using assms by (simp_all add: upd_action_def get_action_def put_action_def arr_simps)

lemma action_pool_node: "action_pool s = Some p \<Longrightarrow> st_node s \<noteq> None"
  by (auto simp: action_pool_def bind_eq_Some_conv)

lemma upd_group_Some:
  assumes "group_pool s = Some p" "unat i < length (pl_storage p)"
  shows "upd_group i f s = Some (set_group_pool (p\<lparr>pl_storage := (pl_storage p)[unat i := f (pl_storage p ! unat i)]\<rparr>) s)"
    and "put_group i x s = Some (set_group_pool (p\<lparr>pl_storage := (pl_storage p)[unat i := x]\<rparr>) s)"
    and "get_group s i = Some (pl_storage p ! unat i)"
  using assms by (simp_all add: upd_group_def get_group_def put_group_def arr_simps)

lemma group_pool_node: "group_pool s = Some p \<Longrightarrow> st_node s \<noteq> None"
  by (auto simp: group_pool_def bind_eq_Some_conv)

lemma upd_queue_Some:
  assumes "queue_pool s = Some p" "unat i < length (pl_storage p)"
  shows "upd_queue i f s = Some (set_queue_pool (p\<lparr>pl_storage := (pl_storage p)[unat i := f (pl_storage p ! unat i)]\<rparr>) s)"
    and "put_queue i x s = Some (set_queue_pool (p\<lparr>pl_storage := (pl_storage p)[unat i := x]\<rparr>) s)"
    and "get_queue s i = Some (pl_storage p ! unat i)"
  using assms by (simp_all add: upd_queue_def get_queue_def put_queue_def arr_simps)

lemma queue_pool_node: "queue_pool s = Some p \<Longrightarrow> st_node s \<noteq> None"
  by (auto simp: queue_pool_def bind_eq_Some_conv)

lemma scheduler_node: "scheduler s = Some c \<Longrightarrow> st_node s \<noteq> None"
  by (auto simp: scheduler_def bind_eq_Some_conv)

end
