(* ===== verification/Example_Node.thy ===== *)
theory Example_Node
  imports Node_State
begin

text \<open>
  A small concrete node, at which the theorems about whole nodes are instantiated: two workers, two priorities, queues of two tasks, a job with one
  action, a group, and two task slots. Task 1 is in use, scheduled and in the group; task 2 is free. The action, the group and the queue have index 1.
\<close>

definition example_attributes :: mtapi_node_attributes where
  "example_attributes = \<lparr>na_core_affinity = \<lparr>rep = 3\<rparr>, na_num_cores = 2, na_type = 1, na_max_tasks = 2,
     na_max_actions = 1, na_max_groups = 1, na_max_queues = 1, na_queue_limit = 2, na_max_jobs = 1,
     na_max_actions_per_job = 1, na_max_priorities = 2\<rparr>"

definition example_queue :: embb_mtapi_task_queue where
  "example_queue = \<lparr>tq_task_buffer = [None, None], tq_tasks_available = 0, tq_get_task_position = 0,
     tq_put_task_position = 0,
     tq_attributes = \<lparr>qa_global = 1, qa_priority = 0, qa_limit = 2, qa_ordered = 1, qa_retain = 0,
       qa_domain_shared = 1\<rparr>, tq_lock = 0\<rparr>"

definition example_worker :: "u32 \<Rightarrow> embb_mtapi_thread_context" where
  "example_worker w = \<lparr>tc_tss = (\<lambda>_. None)(w + 1 := Some w), tc_is_sleeping = 0,
     tc_queue = [example_queue, example_queue], tc_private_queue = [example_queue, example_queue],
     tc_priorities = 2, tc_worker_index = w, tc_core_num = w, tc_run = 1\<rparr>"

definition example_scheduler :: embb_mtapi_scheduler where
  "example_scheduler = \<lparr>sc_worker_count = 2, sc_worker_contexts = [example_worker 0, example_worker 1],
     sc_mode = WORK_STEAL_VHPF, sc_affine_task_counter = 0\<rparr>"

definition example_task :: "mtapi_hndl \<Rightarrow> embb_mtapi_task" where
  "example_task h = \<lparr>handle = h, tk_task_id = 0, tk_job = \<lparr>hndl_tag = 0, hndl_id = 1\<rparr>, tk_arguments = 0,
     tk_arguments_size = 0, tk_result_buffer = 4096, tk_result_size = 4,
     tk_attributes = \<lparr>ta_is_detached = 0, ta_num_instances = 1, ta_priority = 1, ta_affinity = 3,
       ta_user_data = 0, ta_complete_func = 0\<rparr>,
     tk_group = \<lparr>hndl_tag = 0, hndl_id = 1\<rparr>, tk_queue = \<lparr>hndl_tag = 0, hndl_id = 0\<rparr>,
     tk_action = \<lparr>hndl_tag = 0, hndl_id = 1\<rparr>, tk_state_lock = 0, tk_state = MTAPI_TASK_SCHEDULED,
     tk_current_instance = 0, tk_instances_todo = 1, tk_error_code = MTAPI_SUCCESS\<rparr>"

definition example_action :: "mtapi_hndl \<Rightarrow> embb_mtapi_action" where
  "example_action h = \<lparr>handle = h, ac_domain_id = 1, ac_node_id = 1, ac_job_id = 1, ac_action_function = 8192,
     ac_node_local_data = 0, ac_node_local_data_size = 0,
     ac_attributes = \<lparr>aa_global = 1, aa_affinity = 3, aa_domain_shared = 1\<rparr>, ac_enabled = 1,
     ac_is_plugin_action = 0, ac_plugin_data = 0, ac_plugin_task_start_function = 0,
     ac_plugin_task_cancel_function = 0, ac_plugin_action_finalize_function = 0, ac_num_tasks = 1\<rparr>"

definition example_group :: "mtapi_hndl \<Rightarrow> embb_mtapi_group" where
  "example_group h = \<lparr>handle = h, gr_group_id = 0, gr_deleted = 0, gr_num_tasks = 1,
     gr_attributes = \<lparr>ga_some_value = 0\<rparr>, gr_queue = example_queue\<rparr>"

definition example_mtapi_queue :: "mtapi_hndl \<Rightarrow> embb_mtapi_queue" where
  "example_mtapi_queue h = \<lparr>handle = h, qu_queue_id = hndl_id h + 6, qu_enabled = 1,
     qu_job_handle = \<lparr>hndl_tag = 0, hndl_id = 1\<rparr>,
     qu_attributes = \<lparr>qa_global = 1, qa_priority = 0, qa_limit = 2, qa_ordered = 1, qa_retain = 0,
       qa_domain_shared = 1\<rparr>, qu_num_tasks = 0, qu_ordered_affinity = 2\<rparr>"

text \<open>A pool of capacity 1 whose only object is in use, and a pool of capacity 2 with the first object in use.\<close>

definition pool_of_1 :: "(mtapi_hndl \<Rightarrow> 'a) \<Rightarrow> 'a embb_mtapi_pool" where
  "pool_of_1 obj = \<lparr>pl_id_pool = \<lparr>idp_capacity = 1, idp_ids_available = 0, idp_put_id_position = 0,
       idp_get_id_position = 0, idp_id_buffer = [0, 0], idp_lock = 0\<rparr>,
     pl_storage = [obj \<lparr>hndl_tag = 0, hndl_id = 0\<rparr>, obj \<lparr>hndl_tag = 0, hndl_id = 1\<rparr>]\<rparr>"

definition pool_of_2 :: "(mtapi_hndl \<Rightarrow> 'a) \<Rightarrow> 'a embb_mtapi_pool" where
  "pool_of_2 obj = \<lparr>pl_id_pool = \<lparr>idp_capacity = 2, idp_ids_available = 1, idp_put_id_position = 0,
       idp_get_id_position = 2, idp_id_buffer = [0, 0, 2], idp_lock = 0\<rparr>,
     pl_storage = [obj \<lparr>hndl_tag = 0, hndl_id = 0\<rparr>, obj \<lparr>hndl_tag = 0, hndl_id = 1\<rparr>,
       obj \<lparr>hndl_tag = 0, hndl_id = 0\<rparr>]\<rparr>"

definition example_job :: "mtapi_hndl \<Rightarrow> u32 \<Rightarrow> embb_mtapi_job" where
  "example_job h n = \<lparr>handle = h, jb_domain_id = 1, jb_node_id = 1, jb_num_actions = n, jb_max_actions = 1,
     jb_actions = [\<lparr>hndl_tag = 0, hndl_id = 1\<rparr>]\<rparr>"

definition example_node :: embb_mtapi_node where
  "example_node = \<lparr>nd_domain_id = 1, nd_node_id = 1, nd_attributes = example_attributes,
     nd_info = \<lparr>in_hardware_concurrency = 2, in_used_memory = 0\<rparr>, nd_scheduler = Some example_scheduler,
     nd_job_list = [example_job \<lparr>hndl_tag = 0, hndl_id = 0\<rparr> 0, example_job \<lparr>hndl_tag = 0, hndl_id = 1\<rparr> 1],
     nd_action_pool = Some (pool_of_1 example_action), nd_group_pool = Some (pool_of_1 example_group),
     nd_task_pool = Some (pool_of_2 example_task), nd_queue_pool = Some (pool_of_1 example_mtapi_queue),
     nd_is_scheduler_running = 1, nd_affinity_all = 3\<rparr>"

definition example_state :: mtapi_state where
  "example_state = \<lparr>st_node = Some example_node, st_memory = (\<lambda>_. 0),
     st_clock = \<lparr>ti_seconds = 1000, ti_nanoseconds = 0\<rparr>, st_calls = []\<rparr>"

text \<open>Surroundings in which action functions, callbacks and other threads change nothing.\<close>

definition idle_env :: mtapi_env where
  "idle_env = \<lparr>env_action = (\<lambda>_ _ s. Some s), env_complete = (\<lambda>_ _ s. Some s),
     env_plugin_start = (\<lambda>_ _ _ s. Some (MTAPI_SUCCESS, s)), env_plugin_cancel = (\<lambda>_ _ _ s. Some (MTAPI_SUCCESS, s)),
     env_yield = (\<lambda>s. Some s)\<rparr>"

named_theorems example_defs \<open>the definitions of the example node\<close>

declare example_attributes_def [example_defs] example_queue_def [example_defs] example_worker_def [example_defs]
  example_scheduler_def [example_defs] example_task_def [example_defs] example_action_def [example_defs]
  example_group_def [example_defs] example_mtapi_queue_def [example_defs] pool_of_1_def [example_defs]
  pool_of_2_def [example_defs] example_job_def [example_defs] example_node_def [example_defs]
  example_state_def [example_defs] idle_env_def [example_defs]

lemma u32_le_1: "(i :: u32) \<le> 1 \<longleftrightarrow> i = 0 \<or> i = 1"
  by (auto simp: word_le_unat word_unat_eq_iff)

lemma u32_le_2: "(i :: u32) \<le> 2 \<longleftrightarrow> i = 0 \<or> i = 1 \<or> i = 2"
  by (auto simp: word_le_unat word_unat_eq_iff)

lemma u32_ids_1: "{i :: u32. 1 \<le> i \<and> i \<le> 1} = {1}"
  by auto

lemma u32_ids_2: "{i :: u32. 1 \<le> i \<and> i \<le> 2} = {1, 2}"
  by (auto simp: u32_le_2)

lemma example_pools [simp]:
  "task_pool example_state = Some (pool_of_2 example_task)"
  "action_pool example_state = Some (pool_of_1 example_action)"
  "group_pool example_state = Some (pool_of_1 example_group)"
  "queue_pool example_state = Some (pool_of_1 example_mtapi_queue)"
  "scheduler example_state = Some example_scheduler"
  "st_node example_state = Some example_node"
  by (simp_all add: task_pool_def action_pool_def group_pool_def queue_pool_def scheduler_def
      example_state_def example_node_def)

lemma pool_of_1_owns:
  assumes "\<And>h. handle (obj h) = h"
  shows "pool_owns (pool_of_1 obj) {1}"
  by (auto simp: pool_owns_def id_pool_owns_def id_pool_wf_def id_pool_free_def ring_list_def ring_wf_def
      pool_of_1_def u32_ids_1 u32_le_1 assms)

lemma pool_of_2_owns:
  assumes "\<And>h. handle (obj h) = h"
  shows "pool_owns (pool_of_2 obj) {1}"
  by (auto simp: pool_owns_def id_pool_owns_def id_pool_wf_def id_pool_free_def ring_list_def ring_wf_def
      pool_of_2_def u32_ids_2 u32_le_2 assms)

lemma example_pools_own:
  "pool_owns (pool_of_2 example_task) {1}" "pool_owns (pool_of_1 example_action) {1}"
  "pool_owns (pool_of_1 example_group) {1}" "pool_owns (pool_of_1 example_mtapi_queue) {1}"
  by (auto intro!: pool_of_1_owns pool_of_2_owns
      simp: example_task_def example_action_def example_group_def example_mtapi_queue_def)

lemma example_queue_wf: "task_queue_wf example_queue" "tq_tasks example_queue = []"
  by (simp_all add: example_queue_def task_queue_wf_def tq_tasks_def tq_slots_def ring_list_def ring_wf_def)

lemma example_queue_limit: "tq_limit example_queue = 2"
  by (simp add: example_queue_def)

end
