(* ===== verification/Job.thy ===== *)
theory Job
  imports Example_Node
begin

text \<open>
  Jobs (\<^verbatim>\<open>mtapi_c/src/embb_mtapi_job_t.c\<close>). A job is a bounded list of the actions that implement it; the node has
  a fixed array of them. \<open>job_handles\<close> is the list a job stands for, and the two updates
  are characterised on it.
\<close>

definition embb_mtapi_job_initialize ::
    "(nat \<Rightarrow> mtapi_hndl) \<Rightarrow> embb_mtapi_job \<Rightarrow> u32 \<Rightarrow> embb_mtapi_job option" where
  "embb_mtapi_job_initialize garbage that max_actions =
     do { let that = that\<lparr>handle := (handle that)\<lparr>hndl_tag := 0\<rparr>, jb_domain_id := 0, jb_node_id := 0,
            jb_num_actions := 0, jb_max_actions := max_actions\<rparr>;
          actions \<leftarrow> for_less (\<lambda>ii actions.
              do { a \<leftarrow> arr_get actions ii; arr_set actions ii (a\<lparr>hndl_id := EMBB_MTAPI_IDPOOL_INVALID_ID\<rparr>) })
            0 max_actions (map garbage [0..<alloc_count 8 max_actions]);
          Some (that\<lparr>jb_actions := actions\<rparr>) }"

definition embb_mtapi_job_finalize :: "embb_mtapi_job \<Rightarrow> embb_mtapi_job" where
  "embb_mtapi_job_finalize that =
     that\<lparr>handle := (handle that)\<lparr>hndl_tag := hndl_tag (handle that) + 1\<rparr>, jb_domain_id := 0, jb_node_id := 0,
       jb_num_actions := 0, jb_max_actions := 0, jb_actions := []\<rparr>"

definition embb_mtapi_job_add_action ::
    "embb_mtapi_job \<Rightarrow> embb_mtapi_action \<Rightarrow> (bool \<times> embb_mtapi_job) option" where
  "embb_mtapi_job_add_action that action =
     (if jb_num_actions that < jb_max_actions that then
        do { actions \<leftarrow> arr_set (jb_actions that) (jb_num_actions that) (handle action);
             Some (True, that\<lparr>jb_domain_id := ac_domain_id action, jb_node_id := ac_node_id action,
               jb_actions := actions, jb_num_actions := jb_num_actions that + 1\<rparr>) }
      else Some (False, that))"

text \<open>
  The loop \<^verbatim>\<open>for (ii = 0; ii + 1 < num_actions; ii++)\<close> has no iteration for an empty job and ends before the
  last action otherwise.
\<close>

definition job_remove_body :: "u32 \<Rightarrow> mtapi_hndl \<Rightarrow> u32 \<Rightarrow> mtapi_hndl list \<Rightarrow> mtapi_hndl list option" where
  "job_remove_body num_actions h ii actions =
     do { a \<leftarrow> arr_get actions ii;
          if hndl_id a = hndl_id h \<and> hndl_tag a = hndl_tag h then
            do { l \<leftarrow> arr_get actions (num_actions - 1); arr_set actions ii l }
          else Some actions }"

definition embb_mtapi_job_remove_action :: "embb_mtapi_job \<Rightarrow> mtapi_hndl \<Rightarrow> embb_mtapi_job option" where
  "embb_mtapi_job_remove_action that h =
     do { actions \<leftarrow> for_less (job_remove_body (jb_num_actions that) h) 0
            (if jb_num_actions that = 0 then 0 else jb_num_actions that - 1) (jb_actions that);
          Some (that\<lparr>jb_actions := actions, jb_num_actions := jb_num_actions that - 1\<rparr>) }"

section \<open>The list of jobs of the node\<close>

definition embb_mtapi_job_initialize_list ::
    "(nat \<Rightarrow> embb_mtapi_job) \<Rightarrow> (nat \<Rightarrow> nat \<Rightarrow> mtapi_hndl) \<Rightarrow> embb_mtapi_node \<Rightarrow> (bool \<times> embb_mtapi_node) option" where
  "embb_mtapi_job_initialize_list garbage garbage_actions node =
     do { let jobs = map garbage [0..<alloc_count 32 (na_max_jobs (nd_attributes node) + 1)];
          jobs \<leftarrow> for_le (\<lambda>ii jobs.
              do { job \<leftarrow> arr_get jobs ii;
                   job \<leftarrow> embb_mtapi_job_initialize (garbage_actions (unat ii)) job
                            (na_max_actions_per_job (nd_attributes node));
                   arr_set jobs ii (job\<lparr>handle := \<lparr>hndl_tag = 0, hndl_id = ii\<rparr>\<rparr>) })
            0 (na_max_jobs (nd_attributes node)) jobs;
          Some (True, node\<lparr>nd_job_list := jobs\<rparr>) }"

definition embb_mtapi_job_finalize_list :: "embb_mtapi_node \<Rightarrow> embb_mtapi_node option" where
  "embb_mtapi_job_finalize_list node =
     do { _ \<leftarrow> for_le (\<lambda>ii jobs.
              do { job \<leftarrow> arr_get jobs ii;
                   let job = embb_mtapi_job_finalize job;
                   arr_set jobs ii (job\<lparr>handle := (handle job)\<lparr>hndl_id := 0\<rparr>\<rparr>) })
            0 (na_max_jobs (nd_attributes node)) (nd_job_list node);
          Some (node\<lparr>nd_job_list := []\<rparr>) }"

definition embb_mtapi_job_is_handle_valid :: "embb_mtapi_node \<Rightarrow> mtapi_hndl \<Rightarrow> bool option" where
  "embb_mtapi_job_is_handle_valid node h =
     (if 0 < hndl_id h \<and> hndl_id h \<le> na_max_jobs (nd_attributes node) then
        do { job \<leftarrow> arr_get (nd_job_list node) (hndl_id h); Some (hndl_tag (handle job) = hndl_tag h) }
      else Some False)"

definition embb_mtapi_job_is_id_valid :: "embb_mtapi_node \<Rightarrow> u32 \<Rightarrow> bool" where
  "embb_mtapi_job_is_id_valid node oid \<longleftrightarrow> 0 < oid \<and> oid \<le> na_max_jobs (nd_attributes node)"

definition embb_mtapi_job_get_storage_for_handle :: "embb_mtapi_node \<Rightarrow> mtapi_hndl \<Rightarrow> u32" where
  "embb_mtapi_job_get_storage_for_handle node h = hndl_id h"

definition embb_mtapi_job_get_storage_for_id :: "embb_mtapi_node \<Rightarrow> u32 \<Rightarrow> u32" where
  "embb_mtapi_job_get_storage_for_id node oid = oid"

definition mtapi_job_get :: "u32 \<Rightarrow> u32 \<Rightarrow> mtapi_state \<Rightarrow> (mtapi_status \<times> mtapi_hndl) option" where
  "mtapi_job_get job_id domain_id s =
     (case st_node s of
        Some node \<Rightarrow>
          if embb_mtapi_job_is_id_valid node job_id then
            do { job \<leftarrow> get_job s (embb_mtapi_job_get_storage_for_id node job_id); Some (MTAPI_SUCCESS, handle job) }
          else Some (MTAPI_ERR_JOB_INVALID, MTAPI_HNDL_NONE)
      | None \<Rightarrow> Some (MTAPI_ERR_NODE_NOTINIT, MTAPI_HNDL_NONE))"

section \<open>The actions of a job\<close>

definition job_handles :: "embb_mtapi_job \<Rightarrow> mtapi_hndl list" where
  "job_handles j = take (unat (jb_num_actions j)) (jb_actions j)"

definition job_wf :: "embb_mtapi_job \<Rightarrow> bool" where
  "job_wf j \<longleftrightarrow> length (jb_actions j) = unat (jb_max_actions j) \<and> jb_num_actions j \<le> jb_max_actions j"

lemma job_add_action_room:
  assumes "job_wf j" "jb_num_actions j < jb_max_actions j"
  shows "\<exists>j'. embb_mtapi_job_add_action j a = Some (True, j') \<and> job_wf j' \<and>
           job_handles j' = job_handles j @ [handle a] \<and> jb_max_actions j' = jb_max_actions j \<and>
           handle j' = handle j"
proof -
  have n: "unat (jb_num_actions j) < length (jb_actions j)"
    using assms by (simp add: job_wf_def word_less_unat)
  have inc: "unat (jb_num_actions j + 1) = Suc (unat (jb_num_actions j))"
    using assms(2) by (rule unat_inc_less)
  show ?thesis
    using assms n inc
    by (simp add: embb_mtapi_job_add_action_def arr_simps job_wf_def job_handles_def word_le_unat
        take_Suc_conv_app_nth)
qed

lemma job_add_action_full:
  "\<not> jb_num_actions j < jb_max_actions j \<Longrightarrow> embb_mtapi_job_add_action j a = Some (False, j)"
  by (simp add: embb_mtapi_job_add_action_def)

lemma job_remove_loop:
  assumes n: "0 < n" and len: "unat n \<le> length xs"
  shows "\<exists>ys. for_less (job_remove_body n h) 0 (n - 1) xs = Some ys \<and> length ys = length xs \<and>
           (\<forall>j < unat n - 1. ys ! j = (if xs ! j = h then xs ! (unat n - 1) else xs ! j))"
proof -
  let ?l = "unat n - 1"
  have n1: "unat (n - 1) = ?l"
    using n by (rule unat_dec_pos)
  have l: "?l < length xs"
    using n len by (simp add: word_less_unat)
  let ?P = "\<lambda>k ys. length ys = length xs \<and> (\<forall>j. k \<le> j \<and> j < length xs \<longrightarrow> ys ! j = xs ! j) \<and>
      (\<forall>j < k. ys ! j = (if xs ! j = h then xs ! ?l else xs ! j))"
  have "\<exists>ys. for_less (job_remove_body n h) 0 (n - 1) xs = Some ys \<and> ?P (unat (n - 1)) ys"
  proof (rule for_less_rule)
    fix k ys
    assume k: "k < unat (n - 1)" and P: "?P k ys"
    have uk: "unat (of_nat k :: u32) = k"
      using k unat_u32_less[of "n - 1"] by (simp add: unat_of_nat_u32)
    have k_len: "k < length ys" and at: "ys ! k = xs ! k" "ys ! ?l = xs ! ?l"
      using k l P n1 by auto
    have eq: "(hndl_id (xs ! k) = hndl_id h \<and> hndl_tag (xs ! k) = hndl_tag h) \<longleftrightarrow> xs ! k = h"
      by (cases "xs ! k"; cases h) auto
    show "\<exists>t'. job_remove_body n h (of_nat k) ys = Some t' \<and> ?P (Suc k) t'"
      using k_len at P l n1 k
      by (auto simp: job_remove_body_def arr_get_def arr_set_def uk eq nth_list_update less_Suc_eq)
  qed auto
  then show ?thesis
    using n1 by auto
qed

text \<open>
  Removing an action: the last entry takes the place of every entry that is the action, and the list
  gets shorter by one, whether the action was there or not.
\<close>

lemma job_remove_action_handles:
  assumes wf: "job_wf j" and n: "0 < jb_num_actions j"
  shows "\<exists>j'. embb_mtapi_job_remove_action j h = Some j' \<and> job_wf j' \<and>
           job_handles j' = map (\<lambda>x. if x = h then last (job_handles j) else x) (butlast (job_handles j))"
proof -
  let ?n = "jb_num_actions j" and ?xs = "jb_actions j"
  have len: "unat ?n \<le> length ?xs" and n1: "unat (?n - 1) = unat ?n - 1" and pos: "0 < unat ?n"
    using wf n by (auto simp: job_wf_def word_le_unat word_less_unat unat_dec_pos)
  obtain ys where ys: "for_less (job_remove_body ?n h) 0 (?n - 1) ?xs = Some ys"
      "length ys = length ?xs" "\<forall>i < unat ?n - 1. ys ! i = (if ?xs ! i = h then ?xs ! (unat ?n - 1) else ?xs ! i)"
    using job_remove_loop[OF n len] by blast
  let ?j' = "j\<lparr>jb_actions := ys, jb_num_actions := ?n - 1\<rparr>"
  have run: "embb_mtapi_job_remove_action j h = Some ?j'"
    using n ys(1) by (simp add: embb_mtapi_job_remove_action_def)
  have last: "last (job_handles j) = ?xs ! (unat ?n - 1)"
    using len pos by (subst last_conv_nth) (auto simp: job_handles_def min_absorb2)
  have "job_handles ?j' = map (\<lambda>x. if x = h then last (job_handles j) else x) (butlast (job_handles j))"
    unfolding last
    by (rule nth_equalityI) (use len pos ys in \<open>auto simp: job_handles_def n1 nth_butlast\<close>)
  moreover have "job_wf ?j'"
    using wf ys(2) by (auto simp: job_wf_def word_le_unat n1)
  ultimately show ?thesis
    using run by blast
qed

lemma job_remove_action_empty:
  "jb_num_actions j = 0 \<Longrightarrow> embb_mtapi_job_remove_action j h = Some (j\<lparr>jb_num_actions := - 1\<rparr>)"
  by (simp add: embb_mtapi_job_remove_action_def)

text \<open>What remains when the action is there once: the other actions, each once.\<close>

lemma remove_by_last_set:
  assumes "distinct xs" "h \<in> set xs"
  shows "set (map (\<lambda>x. if x = h then last xs else x) (butlast xs)) = set xs - {h}"
    and "distinct (map (\<lambda>x. if x = h then last xs else x) (butlast xs))"
proof -
  obtain ys l where xs: "xs = ys @ [l]"
    using assms(2) by (cases xs rule: rev_cases) auto
  have ys: "distinct ys" "l \<notin> set ys" "h \<in> set ys \<or> h = l"
    using assms by (auto simp: xs)
  then show "set (map (\<lambda>x. if x = h then last xs else x) (butlast xs)) = set xs - {h}"
    by (auto simp: xs)
  have "inj_on (\<lambda>x. if x = h then last xs else x) (set ys)"
    using ys(2) by (auto simp: xs inj_on_def)
  then show "distinct (map (\<lambda>x. if x = h then last xs else x) (butlast xs))"
    using ys(1) by (simp add: distinct_map butlast_append xs)
qed

section \<open>Properties\<close>

text \<open>
  The actions of a job. In a well-formed job with distinct actions, adding an action appends it, or, if the job is full, reports failure and
  changes nothing; removing an action of the job leaves exactly the others, each once.
\<close>

lemma job_actions_add_remove:
  assumes "job_wf j" "distinct (job_handles j)" "h \<in> set (job_handles j)"
  shows "(if jb_num_actions j < jb_max_actions j
          then \<exists>j'. embb_mtapi_job_add_action j a = Some (True, j') \<and> job_wf j' \<and>
                 job_handles j' = job_handles j @ [handle a]
          else embb_mtapi_job_add_action j a = Some (False, j)) \<and>
         (\<exists>j'. embb_mtapi_job_remove_action j h = Some j' \<and> job_wf j' \<and> distinct (job_handles j') \<and>
            set (job_handles j') = set (job_handles j) - {h})"
proof
  show "if jb_num_actions j < jb_max_actions j
    then \<exists>j'. embb_mtapi_job_add_action j a = Some (True, j') \<and> job_wf j' \<and> job_handles j' = job_handles j @ [handle a]
    else embb_mtapi_job_add_action j a = Some (False, j)"
    using job_add_action_room[OF assms(1)] job_add_action_full[of j a] by auto
  have "0 < jb_num_actions j"
    using assms(3) by (auto simp: job_handles_def word_neq_0_conv[symmetric] simp del: word_neq_0_conv)
  then show "\<exists>j'. embb_mtapi_job_remove_action j h = Some j' \<and> job_wf j' \<and> distinct (job_handles j') \<and>
      set (job_handles j') = set (job_handles j) - {h}"
    using job_remove_action_handles[OF assms(1), of h] remove_by_last_set[OF assms(2,3)] by metis
qed

text \<open>
  C38. Removing an action that is not in the job. The last action of the job is dropped instead, and for an empty job the number
  of actions wraps around to the largest value.
\<close>

theorem job_remove_absent_drops_last:
  assumes "job_wf j" "h \<notin> set (job_handles j)"
  shows "\<exists>j'. embb_mtapi_job_remove_action j h = Some j' \<and>
           (if job_handles j = [] then unat (jb_num_actions j') = 2 ^ 32 - 1
            else job_handles j' = butlast (job_handles j))"
proof (cases "jb_num_actions j = 0")
  case True
  then show ?thesis
    by (simp add: job_remove_action_empty job_handles_def unat_max_u32)
next
  case False
  then have "0 < jb_num_actions j"
    by (simp add: word_neq_0_conv)
  then obtain j' where j': "embb_mtapi_job_remove_action j h = Some j'"
      "job_handles j' = map (\<lambda>x. if x = h then last (job_handles j) else x) (butlast (job_handles j))"
    using job_remove_action_handles[OF assms(1), of h] by blast
  have "map (\<lambda>x. if x = h then last (job_handles j) else x) (butlast (job_handles j)) = butlast (job_handles j)"
    using assms(2) by (intro map_idI) (auto dest: in_set_butlastD)
  moreover have "job_handles j \<noteq> []"
    using False assms(1) by (auto simp: job_handles_def job_wf_def word_le_unat unat_eq_0)
  ultimately show ?thesis
    using j' by simp
qed

theorem job_remove_absent_drops_last_witness:
  "\<exists>j'. embb_mtapi_job_remove_action (example_job \<lparr>hndl_tag = 0, hndl_id = 1\<rparr> 0) \<lparr>hndl_tag = 0, hndl_id = 7\<rparr> = Some j' \<and>
     unat (jb_num_actions j') = 2 ^ 32 - 1"
  using job_remove_absent_drops_last[of "example_job \<lparr>hndl_tag = 0, hndl_id = 1\<rparr> 0" "\<lparr>hndl_tag = 0, hndl_id = 7\<rparr>"]
  by (auto simp: job_wf_def job_handles_def example_job_def)

end
