(* ===== verification/Task.thy ===== *)
theory Task
  imports Job
begin

text \<open>
  Tasks and the execution of one instance of a task: the class members of \<^verbatim>\<open>mtapi_c/src/embb_mtapi_task_t.c\<close> and
  \<^verbatim>\<open>mtapi_c/src/embb_mtapi_task_context_t.c\<close>. \<open>task_pool_type\<close> is the instance of the pool for tasks.
\<close>

definition embb_mtapi_task_initialize :: "embb_mtapi_task \<Rightarrow> embb_mtapi_task" where
  "embb_mtapi_task_initialize that =
     that\<lparr>tk_action := (tk_action that)\<lparr>hndl_id := EMBB_MTAPI_IDPOOL_INVALID_ID\<rparr>,
       tk_job := (tk_job that)\<lparr>hndl_id := EMBB_MTAPI_IDPOOL_INVALID_ID\<rparr>,
       tk_state := MTAPI_TASK_ERROR, tk_task_id := 0,
       tk_group := (tk_group that)\<lparr>hndl_id := EMBB_MTAPI_IDPOOL_INVALID_ID\<rparr>,
       tk_queue := (tk_queue that)\<lparr>hndl_id := EMBB_MTAPI_IDPOOL_INVALID_ID\<rparr>,
       tk_error_code := MTAPI_SUCCESS, tk_current_instance := 0,
       tk_state_lock := embb_mtapi_spinlock_initialize\<rparr>"

definition embb_mtapi_task_finalize :: "embb_mtapi_task \<Rightarrow> embb_mtapi_task" where
  "embb_mtapi_task_finalize that =
     (embb_mtapi_task_initialize that)\<lparr>tk_state_lock := embb_mtapi_spinlock_finalize\<rparr>"

text \<open>The finalizer as the pool calls it; it calls nothing outside of the library.\<close>

definition task_finalizer :: "embb_mtapi_task \<Rightarrow> embb_mtapi_task \<times> mtapi_call list" where
  "task_finalizer x = (embb_mtapi_task_finalize x, [])"

definition embb_mtapi_task_new ::
    "embb_mtapi_task embb_mtapi_pool \<Rightarrow> (u32 option \<times> embb_mtapi_task embb_mtapi_pool) option" where
  "embb_mtapi_task_new pool =
     do { (that, pool) \<leftarrow> embb_mtapi_pool_allocate pool;
          (case that of
             Some t \<Rightarrow> do { x \<leftarrow> arr_get (pl_storage pool) t;
                           st \<leftarrow> arr_set (pl_storage pool) t (embb_mtapi_task_initialize x);
                           Some (Some t, pool\<lparr>pl_storage := st\<rparr>) }
           | None \<Rightarrow> Some (None, pool)) }"

definition embb_mtapi_task_delete :: "u32 \<Rightarrow> mtapi_state \<Rightarrow> mtapi_state option" where
  "embb_mtapi_task_delete that s =
     do { s \<leftarrow> upd_task that embb_mtapi_task_finalize s;
          p \<leftarrow> task_pool s;
          (p, calls) \<leftarrow> embb_mtapi_pool_deallocate task_finalizer p that;
          Some (set_task_pool p s) }"

definition embb_mtapi_task_set_state :: "u32 \<Rightarrow> mtapi_task_state \<Rightarrow> mtapi_state \<Rightarrow> mtapi_state option" where
  "embb_mtapi_task_set_state that state s =
     do { x \<leftarrow> get_task s that;
          (_, lock) \<leftarrow> spin_lock (tk_state_lock x);
          put_task that (x\<lparr>tk_state := state, tk_state_lock := snd (embb_mtapi_spinlock_release lock)\<rparr>) s }"

section \<open>Task contexts\<close>

definition embb_mtapi_task_context_initialize_with_thread_context_and_task ::
    "u32 \<Rightarrow> u32 \<Rightarrow> mtapi_state \<Rightarrow> (embb_mtapi_task_context \<times> mtapi_state) option" where
  "embb_mtapi_task_context_initialize_with_thread_context_and_task thread_context task s =
     do { x \<leftarrow> get_task s task;
          let (instance_num, next_instance) = embb_atomic_fetch_and_add (tk_current_instance x) 1;
          s \<leftarrow> put_task task (x\<lparr>tk_current_instance := next_instance\<rparr>) s;
          Some (\<lparr>cx_instance_num = instance_num, cx_num_instances = ta_num_instances (tk_attributes x),
                 cx_task = task, cx_thread_context = thread_context\<rparr>, s) }"

section \<open>Execution\<close>

text \<open>The call of the action function, unless an earlier instance of the task reported an error.\<close>

definition task_run_action ::
    "mtapi_env \<Rightarrow> u32 \<Rightarrow> u32 \<Rightarrow> embb_mtapi_task_context \<Rightarrow> mtapi_state \<Rightarrow> mtapi_state option" where
  "task_run_action env that local_action context s =
     do { cx_x \<leftarrow> get_task s (cx_task context);
          if tk_error_code cx_x = MTAPI_SUCCESS then
            do { x \<leftarrow> get_task s that;
                 a \<leftarrow> get_action s local_action;
                 env_action env (ac_action_function a)
                   \<lparr>cl_arguments = tk_arguments x, cl_arguments_size = tk_arguments_size x,
                    cl_result_buffer = tk_result_buffer x, cl_result_size = tk_result_size x,
                    cl_node_local_data = ac_node_local_data a,
                    cl_node_local_data_size = ac_node_local_data_size a, cl_context = context\<rparr> s }
          else Some s }"

text \<open>The last instance of a task that is in a group hands the task to the queue of the group.\<close>

definition task_notify_group :: "u32 \<Rightarrow> mtapi_state \<Rightarrow> mtapi_state option" where
  "task_notify_group that s =
     do { x \<leftarrow> get_task s that;
          p \<leftarrow> group_pool s;
          valid \<leftarrow> embb_mtapi_pool_is_handle_valid p (tk_group x);
          if valid then
            do { let local_group = embb_mtapi_pool_get_storage_for_handle p (tk_group x);
                 g \<leftarrow> get_group s local_group;
                 (_, q) \<leftarrow> embb_mtapi_task_queue_push (gr_queue g) (Some that);
                 put_group local_group (g\<lparr>gr_queue := q\<rparr>) s }
          else Some s }"

definition embb_mtapi_task_execute ::
    "mtapi_env \<Rightarrow> u32 \<Rightarrow> embb_mtapi_task_context \<Rightarrow> mtapi_state \<Rightarrow> (bool \<times> mtapi_state) option" where
  "embb_mtapi_task_execute env that context s =
     do { x \<leftarrow> get_task s that;
          let todo = ta_num_instances (tk_attributes x);
          s \<leftarrow> embb_mtapi_task_set_state that MTAPI_TASK_RUNNING s;
          x \<leftarrow> get_task s that;
          p \<leftarrow> action_pool s;
          valid \<leftarrow> embb_mtapi_pool_is_handle_valid p (tk_action x);
          (todo, s) \<leftarrow>
            (if valid then
               do { let local_action = embb_mtapi_pool_get_storage_for_handle p (tk_action x);
                    s \<leftarrow> task_run_action env that local_action context s;
                    x \<leftarrow> get_task s that;
                    let (todo, rest) = embb_atomic_fetch_and_add (tk_instances_todo x) (- 1);
                    s \<leftarrow> put_task that (x\<lparr>tk_instances_todo := rest\<rparr>) s;
                    s \<leftarrow> (if todo = 1 then embb_mtapi_task_set_state that MTAPI_TASK_COMPLETED s else Some s);
                    s \<leftarrow> upd_action local_action
                           (\<lambda>a. a\<lparr>ac_num_tasks := snd (embb_atomic_fetch_and_add (ac_num_tasks a) (- 1))\<rparr>) s;
                    Some (todo, s) }
             else
               do { s \<leftarrow> upd_task that (\<lambda>x. x\<lparr>tk_error_code := MTAPI_ERR_ACTION_DELETED\<rparr>) s;
                    s \<leftarrow> embb_mtapi_task_set_state that MTAPI_TASK_ERROR s;
                    Some (todo, s) });
          if todo = 1 then
            do { s \<leftarrow> task_notify_group that s; Some (True, s) }
          else Some (False, s) }"

section \<open>Facts\<close>

lemma task_initialize_handle [simp]: "handle (embb_mtapi_task_initialize x) = handle x"
  by (simp add: embb_mtapi_task_initialize_def)

lemma task_finalize_handle [simp]: "handle (embb_mtapi_task_finalize x) = handle x"
  by (simp add: embb_mtapi_task_finalize_def)

interpretation task_type: pool_type task_finalizer
  by unfold_locales (simp add: task_finalizer_def)

lemma task_set_state_Some:
  assumes "task_pool s = Some p" "unat t < length (pl_storage p)" "tk_state_lock (pl_storage p ! unat t) = 0"
  shows "embb_mtapi_task_set_state t st s = Some (set_task_pool
           (p\<lparr>pl_storage := (pl_storage p)[unat t := (pl_storage p ! unat t)\<lparr>tk_state := st, tk_state_lock := 0\<rparr>]\<rparr>) s)"
  using assms by (simp add: embb_mtapi_task_set_state_def upd_task_Some lock_simps)

text \<open>
  Deleting a task gives its slot back: the handle of the task is no longer valid and no other task
  changes.
\<close>

lemma task_delete_owns:
  assumes pool: "task_pool s = Some p" and owns: "pool_owns p used" and t: "t \<in> used"
  shows "\<exists>s' p'. embb_mtapi_task_delete t s = Some s' \<and> s' = set_task_pool p' s \<and> pool_owns p' (used - {t}) \<and>
           pool_capacity p' = pool_capacity p \<and> pool_tag p' t = pool_tag p t + 1 \<and>
           (\<forall>j. j \<noteq> t \<longrightarrow> pl_storage p' ! unat j = pl_storage p ! unat j)"
proof -
  have len: "unat t < length (pl_storage p)"
    using pool_owns_in_bounds[OF owns] pool_owns_used[OF owns t] by blast
  let ?p1 = "p\<lparr>pl_storage := (pl_storage p)[unat t := embb_mtapi_task_finalize (pl_storage p ! unat t)]\<rparr>"
  have owns1: "pool_owns ?p1 used"
    using pool_owns_put[OF owns, of "embb_mtapi_task_finalize (pl_storage p ! unat t)" t] by simp
  obtain p' calls where p': "embb_mtapi_pool_deallocate task_finalizer ?p1 t = Some (p', calls)"
      "pool_owns p' (used - {t})" "pool_capacity p' = pool_capacity ?p1"
      "pool_tag p' t = pool_tag ?p1 t + 1" "\<forall>j. j \<noteq> t \<longrightarrow> pl_storage p' ! unat j = pl_storage ?p1 ! unat j"
    using task_type.pool_deallocate_owns[OF owns1 t] by blast
  have node: "st_node s \<noteq> None"
    using task_pool_node[OF pool] .
  have twice: "set_task_pool a (set_task_pool b s) = set_task_pool a s" for a b
    by (cases "st_node s") (simp_all add: set_task_pool_def)
  have "embb_mtapi_task_delete t s = Some (set_task_pool p' s)"
    using p'(1) node by (simp add: embb_mtapi_task_delete_def upd_task_Some[OF pool len] state_simps twice)
  moreover have "pl_storage ?p1 ! unat j = pl_storage p ! unat j" if "j \<noteq> t" for j
    using that by (simp add: nth_list_update word_unat_eq_iff[symmetric])
  moreover have "pool_tag ?p1 t = pool_tag p t"
    using len by simp
  ultimately show ?thesis
    using p' by (intro exI[of _ "set_task_pool p' s"] exI[of _ p']) simp
qed

end
