(* ===== verification/Task_Execution.thy ===== *)
theory Task_Execution
  imports Task
begin

text \<open>
  What the execution of an instance of a task does, and the life cycle of task handles. An action function may change the whole state; the
  effect of an instance is described relative to the state the action function leaves behind. \<open>task_ready\<close> is what
  an execution needs.
\<close>

text \<open>The arguments with which the action function of a task is called.\<close>

definition task_call :: "embb_mtapi_task \<Rightarrow> embb_mtapi_action \<Rightarrow> embb_mtapi_task_context \<Rightarrow> action_call" where
  "task_call x a context =
     \<lparr>cl_arguments = tk_arguments x, cl_arguments_size = tk_arguments_size x, cl_result_buffer = tk_result_buffer x,
      cl_result_size = tk_result_size x, cl_node_local_data = ac_node_local_data a,
      cl_node_local_data_size = ac_node_local_data_size a, cl_context = context\<rparr>"

text \<open>The state in which the action function is entered: the task is running.\<close>

definition task_entered :: "u32 \<Rightarrow> mtapi_state \<Rightarrow> mtapi_state" where
  "task_entered t s = (case task_pool s of
     Some p \<Rightarrow> set_task_pool (p\<lparr>pl_storage := (pl_storage p)[unat t := (pl_storage p ! unat t)
        \<lparr>tk_state := MTAPI_TASK_RUNNING, tk_state_lock := 0\<rparr>]\<rparr>) s | None \<Rightarrow> s)"

text \<open>What the end of an instance does to the task and to its action.\<close>

definition instance_done :: "embb_mtapi_task \<Rightarrow> embb_mtapi_task" where
  "instance_done y = y\<lparr>tk_instances_todo := tk_instances_todo y - 1,
     tk_state := (if tk_instances_todo y = 1 then MTAPI_TASK_COMPLETED else tk_state y)\<rparr>"

lemma pools_keep_calls [simp]:
  "st_calls (set_task_pool p s) = st_calls s" "st_calls (set_action_pool q s) = st_calls s" "st_calls (set_group_pool r s) = st_calls s"
  by (simp_all add: set_task_pool_def set_action_pool_def set_group_pool_def)

text \<open>The state after a context for the next instance of a task has been made, and this context, for worker \<open>w\<close>.\<close>

definition task_drawn :: "u32 \<Rightarrow> mtapi_state \<Rightarrow> mtapi_state" where
  "task_drawn t s = (case task_pool s of
     Some p \<Rightarrow> set_task_pool (p\<lparr>pl_storage := (pl_storage p)[unat t := (pl_storage p ! unat t)
        \<lparr>tk_current_instance := tk_current_instance (pl_storage p ! unat t) + 1\<rparr>]\<rparr>) s | None \<Rightarrow> s)"

definition next_context :: "u32 \<Rightarrow> embb_mtapi_task \<Rightarrow> u32 \<Rightarrow> embb_mtapi_task_context" where
  "next_context t x w = \<lparr>cx_instance_num = tk_current_instance x, cx_num_instances = ta_num_instances (tk_attributes x),
     cx_task = t, cx_thread_context = w\<rparr>"

lemma task_lock_noop: "tk_state_lock y = 0 \<Longrightarrow> y\<lparr>tk_state_lock := 0\<rparr> = y"
  by (cases y) simp

lemma task_execute_body:
  assumes p: "task_pool s = Some p" "unat t < length (pl_storage p)" "tk_state_lock (pl_storage p ! unat t) = 0"
    and ap: "action_pool s = Some ap" "embb_mtapi_pool_is_handle_valid ap (tk_action (pl_storage p ! unat t)) = Some True"
    and run: "task_run_action env t (hndl_id (tk_action (pl_storage p ! unat t))) context (task_entered t s) = Some s2"
    and p2: "task_pool s2 = Some p2" "unat t < length (pl_storage p2)" "tk_state_lock (pl_storage p2 ! unat t) = 0"
    and ap2: "action_pool s2 = Some ap2" "unat (hndl_id (tk_action (pl_storage p ! unat t))) < length (pl_storage ap2)"
  shows "\<exists>s3. embb_mtapi_task_execute env t context s =
      (if tk_instances_todo (pl_storage p2 ! unat t) = 1
       then do { s \<leftarrow> task_notify_group t s3; Some (True, s) } else Some (False, s3)) \<and>
      s3 = set_action_pool (ap2\<lparr>pl_storage := (pl_storage ap2)[unat (hndl_id (tk_action (pl_storage p ! unat t))) :=
         (let a = pl_storage ap2 ! unat (hndl_id (tk_action (pl_storage p ! unat t))) in a\<lparr>ac_num_tasks := ac_num_tasks a - 1\<rparr>)]\<rparr>)
       (set_task_pool (p2\<lparr>pl_storage := (pl_storage p2)[unat t := instance_done (pl_storage p2 ! unat t)]\<rparr>) s2)"
proof -
  have n: "st_node s \<noteq> None" "st_node s2 \<noteq> None"
    using task_pool_node p(1) p2(1) by blast+
  have entered: "embb_mtapi_task_set_state t MTAPI_TASK_RUNNING s = Some (task_entered t s)"
      "task_pool (task_entered t s) = Some (p\<lparr>pl_storage := (pl_storage p)[unat t := (pl_storage p ! unat t)
         \<lparr>tk_state := MTAPI_TASK_RUNNING, tk_state_lock := 0\<rparr>]\<rparr>)"
      "action_pool (task_entered t s) = Some ap"
    using task_set_state_Some[OF p] p(1) ap(1) n by (simp_all add: task_entered_def state_simps)
  show ?thesis
    using p p2 ap ap2 n run
    by (simp add: embb_mtapi_task_execute_def entered upd_task_Some upd_action_Some
        embb_mtapi_pool_get_storage_for_handle_def embb_atomic_fetch_and_add_def task_set_state_Some state_simps
        instance_done_def task_lock_noop Let_def cong: if_cong)
qed

text \<open>The last instance hands the task to its group.\<close>

lemma task_notify_group_valid:
  assumes p: "task_pool s = Some p" "unat t < length (pl_storage p)" and gp: "group_pool s = Some gp"
      "embb_mtapi_pool_is_handle_valid gp (tk_group (pl_storage p ! unat t)) = Some True"
    and g: "i = hndl_id (tk_group (pl_storage p ! unat t))" "g = pl_storage gp ! unat i" "task_queue_wf (gr_queue g)"
  shows "\<exists>q. task_notify_group t s =
             Some (set_group_pool (gp\<lparr>pl_storage := (pl_storage gp)[unat i := g\<lparr>gr_queue := q\<rparr>]\<rparr>) s) \<and> task_queue_wf q \<and>
           tq_tasks q = (if length (tq_tasks (gr_queue g)) < unat (tq_limit (gr_queue g))
                         then tq_tasks (gr_queue g) @ [t] else tq_tasks (gr_queue g))"
proof -
  have i: "unat i < length (pl_storage gp)"
    using pool_valid_in_bounds[OF gp(2)] g(1) by simp
  obtain ok q where q: "embb_mtapi_task_queue_push (gr_queue g) (Some t) = Some (ok, q)" "task_queue_wf q"
      "tq_tasks q = (if length (tq_tasks (gr_queue g)) < unat (tq_limit (gr_queue g))
                     then tq_tasks (gr_queue g) @ [t] else tq_tasks (gr_queue g))"
    using task_queue_push_room[OF g(3), of t] task_queue_push_full[OF g(3), of "Some t"] task_fifo.length_bound[OF g(3)] g(3)
    by (cases "length (tq_tasks (gr_queue g)) < unat (tq_limit (gr_queue g))") auto
  have "task_notify_group t s =
      Some (set_group_pool (gp\<lparr>pl_storage := (pl_storage gp)[unat i := g\<lparr>gr_queue := q\<rparr>]\<rparr>) s)"
    using p gp i g(1,2) q(1)
    by (simp add: task_notify_group_def upd_task_Some upd_group_Some embb_mtapi_pool_get_storage_for_handle_def Let_def)
  then show ?thesis
    using q(2,3) by blast
qed

text \<open>
  A task an instance of which can be executed: its lock is free, its action exists, and so does its group, if it has one.
\<close>

definition task_ready :: "mtapi_state \<Rightarrow> u32 \<Rightarrow> bool" where
  "task_ready s t \<longleftrightarrow> (\<exists>p ap gp valid. task_pool s = Some p \<and> unat t < length (pl_storage p) \<and>
     tk_state_lock (pl_storage p ! unat t) = 0 \<and>
     action_pool s = Some ap \<and> embb_mtapi_pool_is_handle_valid ap (tk_action (pl_storage p ! unat t)) = Some True \<and>
     group_pool s = Some gp \<and> embb_mtapi_pool_is_handle_valid gp (tk_group (pl_storage p ! unat t)) = Some valid \<and>
     (valid \<longrightarrow> task_queue_wf (gr_queue (pl_storage gp ! unat (hndl_id (tk_group (pl_storage p ! unat t)))))))"

text \<open>The group of a task, if the task is in one.\<close>

definition group_of :: "mtapi_state \<Rightarrow> embb_mtapi_task \<Rightarrow> u32 option" where
  "group_of s y = do { gp \<leftarrow> group_pool s; valid \<leftarrow> embb_mtapi_pool_is_handle_valid gp (tk_group y);
     if valid then Some (hndl_id (tk_group y)) else None }"

definition group_tasks :: "mtapi_state \<Rightarrow> u32 \<Rightarrow> u32 list" where
  "group_tasks s i = (case get_group s i of Some g \<Rightarrow> tq_tasks (gr_queue g) | None \<Rightarrow> [])"

definition group_room :: "mtapi_state \<Rightarrow> u32 \<Rightarrow> bool" where
  "group_room s i \<longleftrightarrow> (case get_group s i of Some g \<Rightarrow> length (tq_tasks (gr_queue g)) < unat (tq_limit (gr_queue g)) | None \<Rightarrow> False)"

lemma task_execute_done:
  assumes ready: "task_ready s t" and x: "get_task s t = Some x"
    and run: "task_run_action env t (hndl_id (tk_action x)) context (task_entered t s) = Some s2"
    and ready2: "task_ready s2 t" and y: "get_task s2 t = Some y" "tk_action y = tk_action x"
    and b: "get_action s2 (hndl_id (tk_action x)) = Some b"
  shows "\<exists>s3. embb_mtapi_task_execute env t context s = Some (tk_instances_todo y = 1, s3) \<and>
           task_ready s3 t \<and> get_task s3 t = Some (instance_done y) \<and>
           get_action s3 (hndl_id (tk_action x)) = Some (b\<lparr>ac_num_tasks := ac_num_tasks b - 1\<rparr>) \<and>
           (\<forall>i. group_of s2 y = Some i \<and> tk_instances_todo y = 1 \<longrightarrow>
              group_tasks s3 i = (if group_room s2 i then group_tasks s2 i @ [t] else group_tasks s2 i)) \<and>
           st_calls s3 = st_calls s2"
proof -
  obtain p ap where p: "task_pool s = Some p" "unat t < length (pl_storage p)"
      "tk_state_lock (pl_storage p ! unat t) = 0" "pl_storage p ! unat t = x"
    and ap: "action_pool s = Some ap" "embb_mtapi_pool_is_handle_valid ap (tk_action x) = Some True"
    using ready x by (auto simp: task_ready_def upd_task_Some)
  obtain p2 ap2 gp valid where p2: "task_pool s2 = Some p2" "unat t < length (pl_storage p2)"
      "tk_state_lock (pl_storage p2 ! unat t) = 0" "pl_storage p2 ! unat t = y"
    and ap2: "action_pool s2 = Some ap2" "embb_mtapi_pool_is_handle_valid ap2 (tk_action x) = Some True"
    and gp: "group_pool s2 = Some gp" "embb_mtapi_pool_is_handle_valid gp (tk_group y) = Some valid"
      "valid \<longrightarrow> task_queue_wf (gr_queue (pl_storage gp ! unat (hndl_id (tk_group y))))"
    using ready2 y by (auto simp: task_ready_def upd_task_Some)
  let ?a = "hndl_id (tk_action x)"
  have a: "unat ?a < length (pl_storage ap2)" "pl_storage ap2 ! unat ?a = b"
    using pool_valid_in_bounds[OF ap2(2)] b ap2(1) by (auto simp: upd_action_Some)
  let ?p3 = "p2\<lparr>pl_storage := (pl_storage p2)[unat t := instance_done y]\<rparr>"
  let ?ap3 = "ap2\<lparr>pl_storage := (pl_storage ap2)[unat ?a := b\<lparr>ac_num_tasks := ac_num_tasks b - 1\<rparr>]\<rparr>"
  let ?s3 = "set_action_pool ?ap3 (set_task_pool ?p3 s2)"
  have exec: "embb_mtapi_task_execute env t context s =
      (if tk_instances_todo y = 1 then do { s \<leftarrow> task_notify_group t ?s3; Some (True, s) } else Some (False, ?s3))"
    using task_execute_body[OF p(1-3) ap(1) _ _ p2(1-3) ap2(1), of env "context"] ap(2) run a p(4) p2(4)
    by (simp add: Let_def)
  have n: "st_node s2 \<noteq> None"
    using task_pool_node[OF p2(1)] .
  have s3: "task_pool ?s3 = Some ?p3" "action_pool ?s3 = Some ?ap3" "group_pool ?s3 = Some gp"
    using n gp(1) by (simp_all add: state_simps)
  have y3: "pl_storage ?p3 ! unat t = instance_done y" "tk_group (instance_done y) = tk_group y"
      "tk_action (instance_done y) = tk_action x" "tk_state_lock (instance_done y) = 0"
    using p2 y(2) by (simp_all add: instance_done_def)
  have ap3: "embb_mtapi_pool_is_handle_valid ?ap3 (tk_action x) = Some True" "get_action ?s3 ?a = Some (b\<lparr>ac_num_tasks := ac_num_tasks b - 1\<rparr>)"
    using ap2(2) a s3(2) by (simp_all add: pool_valid_put upd_action_Some)
  let ?i = "hndl_id (tk_group y)" and ?g = "pl_storage gp ! unat (hndl_id (tk_group y))"
  show ?thesis
  proof (cases "tk_instances_todo y = 1 \<and> valid")
    case False
    then have "embb_mtapi_task_execute env t context s = Some (tk_instances_todo y = 1, ?s3)"
      using exec s3 p2(2) y3(1,2) gp(2) by (auto simp: task_notify_group_def upd_task_Some)
    moreover have "task_ready ?s3 t"
      unfolding task_ready_def using s3 p2(2) y3 ap3(1) gp(2,3) by auto
    ultimately show ?thesis
      using ap3(2) s3(1) p2(2) y3(1) False gp by (auto simp: upd_task_Some group_of_def)
  next
    case True
    then obtain q where q: "task_notify_group t ?s3 =
          Some (set_group_pool (gp\<lparr>pl_storage := (pl_storage gp)[unat ?i := ?g\<lparr>gr_queue := q\<rparr>]\<rparr>) ?s3)" "task_queue_wf q"
        "tq_tasks q = (if length (tq_tasks (gr_queue ?g)) < unat (tq_limit (gr_queue ?g))
                       then tq_tasks (gr_queue ?g) @ [t] else tq_tasks (gr_queue ?g))"
      using task_notify_group_valid[OF s3(1) _ s3(3), of t ?i ?g] p2(2) y3(1,2) gp(2,3) by auto
    let ?gp4 = "gp\<lparr>pl_storage := (pl_storage gp)[unat ?i := ?g\<lparr>gr_queue := q\<rparr>]\<rparr>"
    let ?s4 = "set_group_pool ?gp4 ?s3"
    have i: "unat ?i < length (pl_storage gp)"
      using pool_valid_in_bounds[of gp "tk_group y"] gp(2) True by simp
    have s4: "task_pool ?s4 = Some ?p3" "action_pool ?s4 = Some ?ap3" "group_pool ?s4 = Some ?gp4"
      using n s3 by (simp_all add: state_simps)
    have "task_ready ?s4 t"
      unfolding task_ready_def using s4 p2(2) y3 ap3(1) gp(2) q(2) i by (auto simp: pool_valid_put)
    moreover have "get_action ?s4 ?a = get_action ?s3 ?a" "group_tasks ?s4 ?i = tq_tasks q"
      using s3 s4 i by (simp_all add: get_action_def group_tasks_def upd_group_Some)
    moreover have "group_of s2 y = Some ?i" "group_tasks s2 ?i = tq_tasks (gr_queue ?g)"
        "group_room s2 ?i \<longleftrightarrow> length (tq_tasks (gr_queue ?g)) < unat (tq_limit (gr_queue ?g))"
      using True gp i by (simp_all add: group_of_def group_tasks_def group_room_def upd_group_Some)
    ultimately show ?thesis
      using exec q(1,3) True ap3(2) s4(1) p2(2) y3(1) by (auto simp: upd_task_Some)
  qed
qed

text \<open>
  Executing instances of a task one after the other, each as a worker does it: it makes a context for the next instance and calls
  \<^verbatim>\<open>embb_mtapi_task_execute\<close>.
\<close>

fun execute_instances :: "mtapi_env \<Rightarrow> u32 \<Rightarrow> u32 list \<Rightarrow> mtapi_state \<Rightarrow> (bool list \<times> mtapi_state) option" where
  "execute_instances env t [] s = Some ([], s)"
| "execute_instances env t (w # ws) s =
     do { (task_context, s) \<leftarrow> embb_mtapi_task_context_initialize_with_thread_context_and_task w t s;
          (fin, s) \<leftarrow> embb_mtapi_task_execute env t task_context s;
          (fins, s) \<leftarrow> execute_instances env t ws s;
          Some (fin # fins, s) }"

lemma same_node_pools:
  assumes "st_node s' = st_node s"
  shows "task_pool s' = task_pool s" "action_pool s' = action_pool s" "group_pool s' = group_pool s"
    "get_task s' t = get_task s t" "get_action s' a = get_action s a" "task_ready s' t = task_ready s t"
  using assms by (simp_all add: task_pool_def action_pool_def group_pool_def get_task_def get_action_def task_ready_def)

lemma task_entered_ready:
  assumes "task_ready s t" "get_task s t = Some x"
  shows "task_ready (task_entered t s) t"
    and "get_task (task_entered t s) t = Some (x\<lparr>tk_state := MTAPI_TASK_RUNNING\<rparr>)"
    and "get_action (task_entered t s) a = get_action s a"
proof -
  obtain p ap gp valid where p: "task_pool s = Some p" "unat t < length (pl_storage p)" "tk_state_lock x = 0" "pl_storage p ! unat t = x"
    and rest: "action_pool s = Some ap" "embb_mtapi_pool_is_handle_valid ap (tk_action x) = Some True"
      "group_pool s = Some gp" "embb_mtapi_pool_is_handle_valid gp (tk_group x) = Some valid"
      "valid \<longrightarrow> task_queue_wf (gr_queue (pl_storage gp ! unat (hndl_id (tk_group x))))"
    using assms by (auto simp: task_ready_def upd_task_Some)
  have n: "st_node s \<noteq> None"
    using task_pool_node[OF p(1)] .
  show "task_ready (task_entered t s) t"
    unfolding task_ready_def using p rest n by (auto simp: task_entered_def state_simps)
  show "get_task (task_entered t s) t = Some (x\<lparr>tk_state := MTAPI_TASK_RUNNING\<rparr>)"
    using p n by (auto simp: task_entered_def get_task_def arr_simps state_simps task_lock_noop)
  show "get_action (task_entered t s) a = get_action s a"
    using p(1) by (simp add: task_entered_def get_action_def state_simps)
qed

lemma task_drawn_ready:
  assumes "task_ready s t" "get_task s t = Some x"
  shows "embb_mtapi_task_context_initialize_with_thread_context_and_task w t s = Some (next_context t x w, task_drawn t s)"
    and "task_ready (task_drawn t s) t"
    and "get_task (task_drawn t s) t = Some (x\<lparr>tk_current_instance := tk_current_instance x + 1\<rparr>)"
    and "get_action (task_drawn t s) a = get_action s a" "st_calls (task_drawn t s) = st_calls s"
    and "st_calls (task_entered t s) = st_calls s"
proof -
  obtain p ap gp valid where p: "task_pool s = Some p" "unat t < length (pl_storage p)" "tk_state_lock x = 0" "pl_storage p ! unat t = x"
    and rest: "action_pool s = Some ap" "embb_mtapi_pool_is_handle_valid ap (tk_action x) = Some True"
      "group_pool s = Some gp" "embb_mtapi_pool_is_handle_valid gp (tk_group x) = Some valid"
      "valid \<longrightarrow> task_queue_wf (gr_queue (pl_storage gp ! unat (hndl_id (tk_group x))))"
    using assms by (auto simp: task_ready_def upd_task_Some)
  have n: "st_node s \<noteq> None"
    using task_pool_node[OF p(1)] .
  show "embb_mtapi_task_context_initialize_with_thread_context_and_task w t s = Some (next_context t x w, task_drawn t s)"
    using p by (simp add: embb_mtapi_task_context_initialize_with_thread_context_and_task_def upd_task_Some
        embb_atomic_fetch_and_add_def task_drawn_def next_context_def)
  show "task_ready (task_drawn t s) t"
    unfolding task_ready_def using p rest n by (auto simp: task_drawn_def state_simps)
  show "get_task (task_drawn t s) t = Some (x\<lparr>tk_current_instance := tk_current_instance x + 1\<rparr>)"
    using p n by (auto simp: task_drawn_def get_task_def arr_simps state_simps)
  show "get_action (task_drawn t s) a = get_action s a" "st_calls (task_drawn t s) = st_calls s"
      "st_calls (task_entered t s) = st_calls s"
    using p(1) by (simp_all add: task_drawn_def task_entered_def get_action_def state_simps)
qed

lemma task_ready_objects:
  assumes "task_ready s t"
  obtains x a where "get_task s t = Some x" "get_action s (hndl_id (tk_action x)) = Some a"
proof -
  obtain p ap where p: "task_pool s = Some p" "unat t < length (pl_storage p)" "action_pool s = Some ap"
      "embb_mtapi_pool_is_handle_valid ap (tk_action (pl_storage p ! unat t)) = Some True"
    using assms by (auto simp: task_ready_def)
  show ?thesis
    using that[OF upd_task_Some(3)[OF p(1,2)] upd_action_Some(3)[OF p(3) pool_valid_in_bounds[OF p(4)]]] .
qed

text \<open>Action functions that return, leave the node alone and record that they have been called, and with what.\<close>

definition recording_actions :: "mtapi_env \<Rightarrow> bool" where
  "recording_actions env \<longleftrightarrow> (\<forall>f c s. \<exists>s'. env_action env f c s = Some s' \<and> st_node s' = st_node s \<and>
     st_calls s' = st_calls s @ [Action_Called f c])"

lemma task_call_same [simp]:
  "task_call (x\<lparr>tk_state := st\<rparr>) a c = task_call x a c" "task_call (x\<lparr>tk_current_instance := i\<rparr>) a c = task_call x a c"
  "task_call (instance_done x) a c = task_call x a c" "task_call x (a\<lparr>ac_num_tasks := n\<rparr>) c = task_call x a c"
  by (simp_all add: task_call_def instance_done_def)

text \<open>One instance, from the context on.\<close>

definition one_instance :: "mtapi_env \<Rightarrow> u32 \<Rightarrow> u32 \<Rightarrow> mtapi_state \<Rightarrow> (bool \<times> mtapi_state) option" where
  "one_instance env w t s =
     do { (task_context, s) \<leftarrow> embb_mtapi_task_context_initialize_with_thread_context_and_task w t s;
          embb_mtapi_task_execute env t task_context s }"

lemma execute_instances_Cons:
  "execute_instances env t (w # ws) s =
     do { (fin, s) \<leftarrow> one_instance env w t s; (fins, s) \<leftarrow> execute_instances env t ws s; Some (fin # fins, s) }"
  by (simp add: one_instance_def case_prod_unfold)

lemma one_instance_done:
  assumes ready: "task_ready s t" and x: "get_task s t = Some x" "tk_error_code x = MTAPI_SUCCESS"
    and a: "get_action s (hndl_id (tk_action x)) = Some a"
    and run: "env_action env (ac_action_function a) (task_call x a (next_context t x w)) (task_entered t (task_drawn t s)) = Some s2"
    and s2: "task_ready s2 t" "get_task s2 t = Some y" "tk_action y = tk_action x" "get_action s2 (hndl_id (tk_action x)) = Some b"
  shows "\<exists>s3. one_instance env w t s = Some (tk_instances_todo y = 1, s3) \<and>
           task_ready s3 t \<and> get_task s3 t = Some (instance_done y) \<and>
           get_action s3 (hndl_id (tk_action x)) = Some (b\<lparr>ac_num_tasks := ac_num_tasks b - 1\<rparr>) \<and>
           (\<forall>i. group_of s2 y = Some i \<and> tk_instances_todo y = 1 \<longrightarrow>
              group_tasks s3 i = (if group_room s2 i then group_tasks s2 i @ [t] else group_tasks s2 i)) \<and>
           st_calls s3 = st_calls s2"
proof -
  note drawn = task_drawn_ready[OF ready x(1)]
  note entered = task_entered_ready[OF drawn(2,3)]
  have "task_run_action env t (hndl_id (tk_action x)) (next_context t x w) (task_entered t (task_drawn t s)) = Some s2"
    using x(2) a run entered drawn(4) task_call_same
    by (simp add: task_run_action_def task_call_def next_context_def)
  then show ?thesis
    using task_execute_done[OF drawn(2,3), of env "next_context t x w" s2 y b] s2 drawn(1) by (simp add: one_instance_def)
qed

lemma one_instance_recorded:
  assumes env: "recording_actions env" and ready: "task_ready s t" and x: "get_task s t = Some x" "tk_error_code x = MTAPI_SUCCESS"
    and a: "get_action s (hndl_id (tk_action x)) = Some a"
  shows "\<exists>s3. one_instance env w t s = Some (tk_instances_todo x = 1, s3) \<and> task_ready s3 t \<and>
           get_task s3 t = Some (instance_done (x\<lparr>tk_current_instance := tk_current_instance x + 1, tk_state := MTAPI_TASK_RUNNING\<rparr>)) \<and>
           get_action s3 (hndl_id (tk_action x)) = Some (a\<lparr>ac_num_tasks := ac_num_tasks a - 1\<rparr>) \<and>
           st_calls s3 = st_calls s @ [Action_Called (ac_action_function a) (task_call x a (next_context t x w))]"
proof -
  let ?y = "x\<lparr>tk_current_instance := tk_current_instance x + 1, tk_state := MTAPI_TASK_RUNNING\<rparr>"
  note drawn = task_drawn_ready[OF ready x(1)]
  note entered = task_entered_ready[OF drawn(2,3)]
  obtain s2 where s2: "env_action env (ac_action_function a) (task_call x a (next_context t x w)) (task_entered t (task_drawn t s)) = Some s2"
      "st_node s2 = st_node (task_entered t (task_drawn t s))"
      "st_calls s2 = st_calls s @ [Action_Called (ac_action_function a) (task_call x a (next_context t x w))]"
    using env[unfolded recording_actions_def, rule_format, of "ac_action_function a" "task_call x a (next_context t x w)"
        "task_entered t (task_drawn t s)"] task_drawn_ready(6)[OF drawn(2,3)] drawn(5) by auto
  note same = same_node_pools[OF s2(2)]
  have "get_action s2 (hndl_id (tk_action x)) = Some a" "task_ready s2 t" "get_task s2 t = Some ?y" "tk_action ?y = tk_action x"
    using same entered drawn(4) a by simp_all
  from one_instance_done[OF ready x a s2(1) this(2-4,1)] show ?thesis
    using s2(3) by auto
qed

lemma instance_done_fields:
  "tk_instances_todo (instance_done y) = tk_instances_todo y - 1"
  "tk_state (instance_done y) = (if tk_instances_todo y = 1 then MTAPI_TASK_COMPLETED else tk_state y)"
  by (simp_all add: instance_done_def)

text \<open>The calls of \<open>n\<close> instances from the next one on.\<close>

definition instance_calls :: "u32 \<Rightarrow> embb_mtapi_task \<Rightarrow> embb_mtapi_action \<Rightarrow> u32 list \<Rightarrow> mtapi_call list" where
  "instance_calls t x a ws = map (\<lambda>k. Action_Called (ac_action_function a) (task_call x a
     \<lparr>cx_instance_num = tk_current_instance x + of_nat k, cx_num_instances = ta_num_instances (tk_attributes x),
      cx_task = t, cx_thread_context = ws ! k\<rparr>)) [0..<length ws]"

lemma instance_calls_Cons:
  "instance_calls t x a (w # ws) = Action_Called (ac_action_function a) (task_call x a (next_context t x w)) #
     instance_calls t (instance_done (x\<lparr>tk_current_instance := tk_current_instance x + 1, tk_state := st\<rparr>)) (a\<lparr>ac_num_tasks := n\<rparr>) ws"
proof -
  have "[0..<length (w # ws)] = 0 # map Suc [0..<length ws]"
    using map_upt_Suc[of "\<lambda>k. k" "length ws"] by simp
  then show ?thesis
    by (simp add: instance_calls_def next_context_def instance_done_def task_call_def add.assoc)
qed

lemma execute_instances_once:
  assumes "recording_actions env" "task_ready s t" "get_task s t = Some x" "tk_error_code x = MTAPI_SUCCESS"
    and "get_action s (hndl_id (tk_action x)) = Some a"
    and "length ws = unat (tk_instances_todo x)" "ws \<noteq> []"
  shows "\<exists>s' x'. execute_instances env t ws s = Some (replicate (length ws - 1) False @ [True], s') \<and>
           st_calls s' = st_calls s @ instance_calls t x a ws \<and>
           get_task s' t = Some x' \<and> tk_state x' = MTAPI_TASK_COMPLETED \<and> tk_instances_todo x' = 0 \<and>
           tk_current_instance x' = tk_current_instance x + of_nat (length ws)"
  using assms(2-)
proof (induction ws arbitrary: s x a)
  case (Cons w ws)
  let ?y = "instance_done (x\<lparr>tk_current_instance := tk_current_instance x + 1, tk_state := MTAPI_TASK_RUNNING\<rparr>)"
  let ?a = "a\<lparr>ac_num_tasks := ac_num_tasks a - 1\<rparr>"
  have y: "tk_error_code ?y = MTAPI_SUCCESS" "tk_action ?y = tk_action x" "tk_current_instance ?y = tk_current_instance x + 1"
      "tk_instances_todo ?y = tk_instances_todo x - 1"
    using Cons.prems(3) by (simp_all add: instance_done_def)
  obtain s1 where s1: "one_instance env w t s = Some (tk_instances_todo x = 1, s1)" "task_ready s1 t" "get_task s1 t = Some ?y"
      "get_action s1 (hndl_id (tk_action ?y)) = Some ?a"
      "st_calls s1 = st_calls s @ [Action_Called (ac_action_function a) (task_call x a (next_context t x w))]"
    using one_instance_recorded[OF assms(1) Cons.prems(1-4), of w] unfolding y(2) by blast
  show ?case
  proof (cases ws)
    case Nil
    then have "tk_instances_todo x = 1"
      using Cons.prems(5) by (simp add: word_unat_eq_iff)
    then show ?thesis
      using s1 y(3) Nil unfolding execute_instances_Cons
      by (simp add: instance_done_fields instance_calls_def next_context_def)
  next
    case (Cons w' ws')
    then have ne: "tk_instances_todo x \<noteq> 1" and pos: "0 < tk_instances_todo x"
      using Cons.prems(5) by (auto simp: word_less_unat)
    have len: "length ws = unat (tk_instances_todo ?y)" and nonempty: "ws \<noteq> []"
      using Cons.prems(5) unat_dec_pos[OF pos] y(4) Cons by simp_all
    obtain s' x' where rest: "execute_instances env t ws s1 = Some (replicate (length ws - 1) False @ [True], s')"
        "st_calls s' = st_calls s1 @ instance_calls t ?y ?a ws" "get_task s' t = Some x'"
        "tk_state x' = MTAPI_TASK_COMPLETED" "tk_instances_todo x' = 0" "tk_current_instance x' = tk_current_instance ?y + of_nat (length ws)"
      using Cons.IH[OF s1(2,3) y(1) s1(4) len nonempty] by blast
    have "replicate (length ws) False = False # replicate (length ws - 1) False"
      using Cons by simp
    then have "execute_instances env t (w # ws) s = Some (replicate (length (w # ws) - 1) False @ [True], s')"
      using s1(1) ne rest(1) unfolding execute_instances_Cons by simp
    moreover have "st_calls s' = st_calls s @ instance_calls t x a (w # ws)"
      using rest(2) s1(5) instance_calls_Cons[of t x a w ws MTAPI_TASK_RUNNING "ac_num_tasks a - 1"] by simp
    moreover have "tk_current_instance x' = tk_current_instance x + of_nat (length (w # ws))"
      using rest(6) y(3) by (simp add: add.assoc)
    ultimately show ?thesis
      using rest(3-5) by blast
  qed
qed simp

section \<open>Properties\<close>

text \<open>
  C7. Life cycle of task handles. Whatever tasks are allocated and deleted after a handle was valid, the handle is valid exactly as long as the number of
  deletions of its task since then is a multiple of \<open>2 ^ 32\<close>: until the task is deleted, and then not before the tag wraps around.
\<close>

theorem task_handle_lifetime:
  assumes "pool_hist task_finalizer p used frees p' used'" "pool_owns p used"
    and "embb_mtapi_pool_is_handle_valid p h = Some True"
  shows "embb_mtapi_pool_is_handle_valid p' h = Some (2 ^ 32 dvd count_list frees (hndl_id h))"
  by (rule task_type.handle_lifetime[OF assms])

theorem task_handle_lifetime_witness:
  "\<exists>p'. embb_mtapi_pool_deallocate task_finalizer (pool_of_2 example_task) 1 = Some (p', []) \<and>
     embb_mtapi_pool_is_handle_valid (pool_of_2 example_task) \<lparr>hndl_tag = 0, hndl_id = 1\<rparr> = Some True \<and>
     embb_mtapi_pool_is_handle_valid p' \<lparr>hndl_tag = 0, hndl_id = 1\<rparr> = Some False"
proof -
  let ?p = "pool_of_2 example_task" and ?h = "\<lparr>hndl_tag = 0, hndl_id = 1\<rparr>"
  obtain p' where p': "embb_mtapi_pool_deallocate task_finalizer ?p 1 = Some (p', [])"
    using task_type.pool_deallocate_owns[OF example_pools_own(1), of 1] by (auto simp: task_finalizer_def)
  have "pool_hist task_finalizer ?p {1} ([] @ [1]) p' ({1} - {1})"
    using p' by (intro pool_hist.hist_free[OF pool_hist.hist_nil]) simp_all
  moreover have "embb_mtapi_pool_is_handle_valid ?p ?h = Some True"
    by (subst pool_valid_iff[OF example_pools_own(1)]) (simp add: pool_of_2_def example_task_def)
  ultimately show ?thesis
    using task_handle_lifetime[of ?p "{1}" "[1]" p' "{}" ?h] p' example_pools_own(1) by simp
qed

text \<open>
  Allocation of tasks. After any history of a freshly initialised task pool, an allocation returns a task that is not in use, with an index from 1 to
  the capacity and a valid handle that carries this index; it fails, without any change, exactly when as many tasks are in use as the
  pool has.
\<close>

lemma task_allocation_fresh:
  assumes "embb_mtapi_pool_initialize embb_mtapi_task_initialize sz garbage_ids garbage cap = Some (ok, p0)"
    and "4 \<le> sz" "sz * Suc (unat cap) < 2 ^ 32"
    and "pool_hist task_finalizer p0 {} frees p used"
  shows "case embb_mtapi_pool_allocate p of
           None \<Rightarrow> False
         | Some (None, p') \<Rightarrow> p' = p \<and> card used = unat cap
         | Some (Some i, p') \<Rightarrow> i \<notin> used \<and> 1 \<le> i \<and> i \<le> cap \<and>
             hndl_id (handle (pl_storage p' ! unat i)) = i \<and>
             embb_mtapi_pool_is_handle_valid p' (handle (pl_storage p' ! unat i)) = Some True"
proof -
  have "pool_owns p0 {}" "pool_capacity p0 = cap"
    using pool_initialize_owns[of sz cap embb_mtapi_task_initialize garbage_ids garbage] assms(1-3) by auto
  then have owns: "pool_owns p used" and cap: "pool_capacity p = cap"
    using task_type.pool_hist_tags[OF assms(4)] by auto
  show ?thesis
  proof (cases rule: pool_allocate_cases[OF owns])
    case (1 i p')
    have "hndl_id (handle (pl_storage p' ! unat i)) = i"
      using 1(2,5,6) by (simp add: pool_owns_def)
    then show ?thesis
      using 1 cap pool_valid_iff[OF 1(2)] by (simp add: word_le_unat word_less_unat)
  next
    case 2
    have "card used = card (of_nat ` {1..unat cap} :: u32 set)"
      using 2(2) cap u32_image_of_nat[of cap] by simp
    also have "\<dots> = unat cap"
      using inj_on_of_nat_u32[of cap] by (simp add: card_image)
    finally show ?thesis
      using 2 by simp
  qed
qed

text \<open>
  C5. Execution of one instance. A worker makes a context for the next instance of a ready task without an error so far and executes it. The number of the next
  instance is drawn from the task, the task is set to running, and in this state the action function is called with the arguments of the task
  and the context of the drawn number. When the action function returns with the task still ready, one instance is done: the number of instances to do and the number of tasks of the action
  are one less, the execution reports completion exactly for the last instance, which also sets the task to completed and puts it into the queue of its
  group, if it has one. If the queue of the group is full, the task is lost to the group.
\<close>

theorem task_execute_instance:
  assumes "task_ready s t" "get_task s t = Some x" "tk_error_code x = MTAPI_SUCCESS"
    and "get_action s (hndl_id (tk_action x)) = Some a"
    and "env_action env (ac_action_function a)
           (task_call x a \<lparr>cx_instance_num = tk_current_instance x, cx_num_instances = ta_num_instances (tk_attributes x),
              cx_task = t, cx_thread_context = w\<rparr>)
           (task_entered t (task_drawn t s)) = Some s2"
    and "task_ready s2 t" "get_task s2 t = Some y" "tk_action y = tk_action x"
    and "get_action s2 (hndl_id (tk_action x)) = Some b"
  shows "get_task (task_entered t (task_drawn t s)) t =
           Some (x\<lparr>tk_current_instance := tk_current_instance x + 1, tk_state := MTAPI_TASK_RUNNING\<rparr>) \<and>
         (\<exists>s3. do { (task_context, s) \<leftarrow> embb_mtapi_task_context_initialize_with_thread_context_and_task w t s;
                embb_mtapi_task_execute env t task_context s } = Some (tk_instances_todo y = 1, s3) \<and>
           get_task s3 t = Some (y\<lparr>tk_instances_todo := tk_instances_todo y - 1,
             tk_state := (if tk_instances_todo y = 1 then MTAPI_TASK_COMPLETED else tk_state y)\<rparr>) \<and>
           get_action s3 (hndl_id (tk_action x)) = Some (b\<lparr>ac_num_tasks := ac_num_tasks b - 1\<rparr>) \<and>
           (\<forall>i. group_of s2 y = Some i \<and> tk_instances_todo y = 1 \<longrightarrow>
              group_tasks s3 i = (if group_room s2 i then group_tasks s2 i @ [t] else group_tasks s2 i)))"
proof -
  note drawn = task_drawn_ready[OF assms(1,2)]
  have "\<exists>s3. one_instance env w t s = Some (tk_instances_todo y = 1, s3) \<and> get_task s3 t = Some (instance_done y) \<and>
      get_action s3 (hndl_id (tk_action x)) = Some (b\<lparr>ac_num_tasks := ac_num_tasks b - 1\<rparr>) \<and>
      (\<forall>i. group_of s2 y = Some i \<and> tk_instances_todo y = 1 \<longrightarrow>
         group_tasks s3 i = (if group_room s2 i then group_tasks s2 i @ [t] else group_tasks s2 i))"
    using one_instance_done[OF assms(1-4) _ assms(6-9), of env w] assms(5) unfolding next_context_def by blast
  then show ?thesis
    using task_entered_ready(2)[OF drawn(2,3)] unfolding one_instance_def instance_done_def by simp
qed

lemma example_task_ready:
  "task_ready example_state 1" "get_task example_state 1 = Some (example_task \<lparr>hndl_tag = 0, hndl_id = 1\<rparr>)"
  "get_action example_state 1 = Some (example_action \<lparr>hndl_tag = 0, hndl_id = 1\<rparr>)"
proof -
  show "task_ready example_state 1"
    by (simp add: task_ready_def pool_valid_iff[OF example_pools_own(2)] pool_valid_iff[OF example_pools_own(3)])
       (simp add: pool_of_1_def pool_of_2_def example_task_def example_action_def example_group_def example_queue_wf)
  show "get_task example_state 1 = Some (example_task \<lparr>hndl_tag = 0, hndl_id = 1\<rparr>)"
    by (simp add: upd_task_Some pool_of_2_def)
  show "get_action example_state 1 = Some (example_action \<lparr>hndl_tag = 0, hndl_id = 1\<rparr>)"
    by (simp add: upd_action_Some pool_of_1_def)
qed

theorem task_execute_instance_witness:
  "\<exists>s3 x3. do { (task_context, s) \<leftarrow> embb_mtapi_task_context_initialize_with_thread_context_and_task 0 1 example_state;
       embb_mtapi_task_execute idle_env 1 task_context s } = Some (True, s3) \<and>
     get_task s3 1 = Some x3 \<and> tk_state x3 = MTAPI_TASK_COMPLETED \<and> tk_current_instance x3 = 1 \<and> group_tasks s3 1 = [1]"
proof -
  let ?x = "example_task \<lparr>hndl_tag = 0, hndl_id = 1\<rparr>" and ?s = example_state
  let ?e = "task_entered 1 (task_drawn 1 ?s)"
  let ?y = "?x\<lparr>tk_current_instance := tk_current_instance ?x + 1, tk_state := MTAPI_TASK_RUNNING\<rparr>"
  note drawn = task_drawn_ready[OF example_task_ready(1,2)]
  note entered = task_entered_ready[OF drawn(2,3)]
  have grp: "group_of ?e ?y = Some 1" "group_room ?e 1" "group_tasks ?e 1 = []"
    by (simp_all add: group_of_def group_room_def group_tasks_def get_group_def task_entered_def task_drawn_def state_simps
        pool_valid_iff[OF example_pools_own(3)])
       (simp_all add: pool_of_1_def arr_get_def example_group_def example_task_def example_queue_wf example_queue_limit)
  have x: "tk_action ?x = \<lparr>hndl_tag = 0, hndl_id = 1\<rparr>" "tk_error_code ?x = MTAPI_SUCCESS" "tk_instances_todo ?x = 1"
      "tk_current_instance ?x = 0"
    by (simp_all add: example_task_def)
  show ?thesis
    using task_execute_instance[OF example_task_ready(1,2) x(2), where a = "example_action \<lparr>hndl_tag = 0, hndl_id = 1\<rparr>"
        and env = idle_env and ?s2.0 = ?e and y = ?y and b = "example_action \<lparr>hndl_tag = 0, hndl_id = 1\<rparr>" and w = 0]
      entered drawn(4) example_task_ready(3) grp x
    by (auto simp: idle_env_def)
qed

text \<open>
  C32. A task with several instances completes exactly once. If the action functions return and leave the node alone, executing a ready task as often as it has instances to do, on any
  workers one after the other, always succeeds. The action function is called once for each instance, with the numbers of the instances in order from the next one on; the last execution
  reports completion and no other, and it leaves the task completed with no instance to do.
\<close>

theorem task_instances_complete_once:
  assumes "recording_actions env" "task_ready s t" "get_task s t = Some x" "tk_error_code x = MTAPI_SUCCESS"
    and "get_action s (hndl_id (tk_action x)) = Some a"
    and "length ws = unat (tk_instances_todo x)" "ws \<noteq> []"
  shows "\<exists>s' x'. execute_instances env t ws s = Some (replicate (length ws - 1) False @ [True], s') \<and>
           st_calls s' = st_calls s @ map (\<lambda>k. Action_Called (ac_action_function a) (task_call x a
             \<lparr>cx_instance_num = tk_current_instance x + of_nat k, cx_num_instances = ta_num_instances (tk_attributes x),
              cx_task = t, cx_thread_context = ws ! k\<rparr>)) [0..<length ws] \<and>
           get_task s' t = Some x' \<and> tk_state x' = MTAPI_TASK_COMPLETED \<and> tk_instances_todo x' = 0 \<and>
           tk_current_instance x' = tk_current_instance x + of_nat (length ws)"
  using execute_instances_once[OF assms] unfolding instance_calls_def .

definition recording_env :: mtapi_env where
  "recording_env = idle_env\<lparr>env_action := (\<lambda>f c s. Some (add_call (Action_Called f c) s))\<rparr>"

theorem task_instances_complete_once_witness:
  "\<exists>s0 s' x'. put_task 1 (example_task \<lparr>hndl_tag = 0, hndl_id = 1\<rparr>\<lparr>tk_instances_todo := 3\<rparr>) example_state = Some s0 \<and>
     execute_instances recording_env 1 [0, 1, 0] s0 = Some ([False, False, True], s') \<and>
     map (\<lambda>e. case e of Action_Called f c \<Rightarrow> cx_instance_num (cl_context c) | _ \<Rightarrow> 9) (st_calls s') = [0, 1, 2] \<and>
     get_task s' 1 = Some x' \<and> tk_state x' = MTAPI_TASK_COMPLETED"
proof -
  let ?x = "example_task \<lparr>hndl_tag = 0, hndl_id = 1\<rparr>\<lparr>tk_instances_todo := 3\<rparr>"
  let ?p = "(pool_of_2 example_task)\<lparr>pl_storage := (pl_storage (pool_of_2 example_task))[1 := ?x]\<rparr>"
  let ?s0 = "set_task_pool ?p example_state"
  have s0: "put_task 1 ?x example_state = Some ?s0"
    by (simp add: upd_task_Some) (simp add: pool_of_2_def put_task_def arr_set_def)
  have x: "get_task ?s0 1 = Some ?x"
    by (simp add: get_task_def state_simps) (simp add: pool_of_2_def arr_get_def)
  have fields: "tk_error_code ?x = MTAPI_SUCCESS" "tk_current_instance ?x = 0" "hndl_id (tk_action ?x) = 1"
    by (simp_all add: example_task_def)
  have a: "get_action ?s0 1 = Some (example_action \<lparr>hndl_tag = 0, hndl_id = 1\<rparr>)"
    using example_task_ready(3) by (simp add: get_action_def state_simps)
  have calls: "st_calls ?s0 = []"
    by (simp add: example_state_def)
  have "task_ready ?s0 1"
    by (simp add: task_ready_def state_simps pool_valid_iff[OF example_pools_own(2)] pool_valid_iff[OF example_pools_own(3)])
       (simp add: pool_of_1_def pool_of_2_def example_task_def example_action_def example_group_def example_queue_wf)
  moreover have "recording_actions recording_env"
    by (simp add: recording_actions_def recording_env_def add_call_def)
  moreover have "length [0, 1, 0 :: u32] = unat (tk_instances_todo ?x)"
    by simp
  moreover have "replicate 2 False @ [True] = [False, False, True]" "[0..<3] = [0, 1, 2]"
    by (simp_all add: numeral_2_eq_2 numeral_3_eq_3)
  ultimately show ?thesis
    using task_instances_complete_once[of recording_env ?s0 1 ?x "example_action \<lparr>hndl_tag = 0, hndl_id = 1\<rparr>" "[0, 1, 0]"]
      s0 x fields a calls
    by (auto simp: task_call_def simp del: execute_instances.simps)
qed

end
