(* ===== verification/Thread_Context.thy ===== *)
theory Thread_Context
  imports Task
begin

text \<open>
  Worker threads (\<^verbatim>\<open>mtapi_c/src/embb_mtapi_thread_context_t.c\<close>). Creating a thread and what the new thread first reports
  are the business of the operating system and come in as a parameter (\<open>start_outcome\<close>): the thread could not be created,
  it came up as the thread with the given index, or it could not create its thread-specific
  slot. The size of the context structure depends on the platform and is a parameter as well.
\<close>

datatype start_outcome = Create_Failed | Worker_Up u32 | Tss_Failed

text \<open>
  The arrays of queue pointers are allocated with the size of a queue (40 bytes) per entry, not with that
  of a pointer (8 bytes), and so have more slots than the node has priorities.
\<close>

definition queue_slots :: "u32 \<Rightarrow> nat" where
  "queue_slots priorities = (40 * unat priorities) mod 2 ^ 32 div 8"

definition embb_mtapi_thread_context_initialize_with_node_worker_and_core ::
    "(nat \<Rightarrow> embb_mtapi_task_queue) \<Rightarrow> (nat \<Rightarrow> u32 option) \<Rightarrow> embb_mtapi_node \<Rightarrow> embb_mtapi_thread_context \<Rightarrow>
     u32 \<Rightarrow> u32 \<Rightarrow> embb_mtapi_thread_context option" where
  "embb_mtapi_thread_context_initialize_with_node_worker_and_core garbage garbage_tasks node that worker_index core_num =
     do { let priorities = na_max_priorities (nd_attributes node);
          let queues = map garbage [0..<queue_slots priorities];
          (queue, private_queue) \<leftarrow> for_less (\<lambda>ii (queue, private_queue).
              do { q \<leftarrow> arr_get queue ii;
                   queue \<leftarrow> arr_set queue ii
                     (embb_mtapi_task_queue_initialize_with_capacity garbage_tasks (Some (nd_attributes node)) q
                        (na_queue_limit (nd_attributes node)));
                   q \<leftarrow> arr_get private_queue ii;
                   private_queue \<leftarrow> arr_set private_queue ii
                     (embb_mtapi_task_queue_initialize_with_capacity garbage_tasks (Some (nd_attributes node)) q
                        (na_queue_limit (nd_attributes node)));
                   Some (queue, private_queue) })
            0 priorities (queues, queues);
          Some (that\<lparr>tc_worker_index := worker_index, tc_core_num := core_num, tc_priorities := priorities,
            tc_run := 0, tc_queue := queue, tc_private_queue := private_queue, tc_is_sleeping := 0\<rparr>) }"

text \<open>
  The loop that waits for the worker to come up ends when the worker has stored 1 or \<open>-1\<close>; the thread-specific slot
  then holds the worker's context for the worker's thread.
\<close>

definition embb_mtapi_thread_context_start ::
    "start_outcome \<Rightarrow> u32 \<Rightarrow> embb_mtapi_thread_context \<Rightarrow> (bool \<times> embb_mtapi_thread_context) option" where
  "embb_mtapi_thread_context_start outcome w that =
     do { core_set \<leftarrow> embb_core_set_init 0 \<lparr>rep = 0\<rparr> False;
          _ \<leftarrow> embb_core_set_add core_set (tc_core_num that);
          (case outcome of
             Create_Failed \<Rightarrow> Some (False, that)
           | Worker_Up thread \<Rightarrow> Some (True, that\<lparr>tc_tss := (tc_tss that)(thread := Some w), tc_run := 1\<rparr>)
           | Tss_Failed \<Rightarrow> Some (False, that\<lparr>tc_run := - 1\<rparr>)) }"

text \<open>Joining the worker lets the other threads run until it has ended.\<close>

definition embb_mtapi_thread_context_stop :: "mtapi_env \<Rightarrow> u32 \<Rightarrow> mtapi_state \<Rightarrow> mtapi_state option" where
  "embb_mtapi_thread_context_stop env w s =
     do { x \<leftarrow> get_worker s w;
          if 0 <s tc_run x then
            do { s \<leftarrow> put_worker w (x\<lparr>tc_run := 0\<rparr>) s;
                 env_yield env (add_call (Notify_One w) s) }
          else Some s }"

definition embb_mtapi_thread_context_finalize ::
    "mtapi_node_attributes option \<Rightarrow> embb_mtapi_thread_context \<Rightarrow> embb_mtapi_thread_context option" where
  "embb_mtapi_thread_context_finalize node that =
     do { _ \<leftarrow> for_less (\<lambda>ii (queue, private_queue).
              do { q \<leftarrow> arr_get queue ii;
                   queue \<leftarrow> arr_set queue ii (embb_mtapi_task_queue_finalize node q);
                   q \<leftarrow> arr_get private_queue ii;
                   private_queue \<leftarrow> arr_set private_queue ii (embb_mtapi_task_queue_finalize node q);
                   Some (queue, private_queue) })
            0 (tc_priorities that) (tc_queue that, tc_private_queue that);
          Some (that\<lparr>tc_queue := [], tc_private_queue := [], tc_priorities := 0\<rparr>) }"

text \<open>A visitor works on the state; it gets the task pointer the queue holds.\<close>

type_synonym task_visitor = "u32 option \<Rightarrow> mtapi_state \<Rightarrow> (bool \<times> mtapi_state) option"

definition process_private :: "task_visitor \<Rightarrow> u32 \<Rightarrow> u32 \<Rightarrow> mtapi_state \<Rightarrow> (bool \<times> mtapi_state) option" where
  "process_private process w prio s =
     do { q \<leftarrow> get_private s w prio;
          (result, q, s) \<leftarrow> embb_mtapi_task_queue_process q process s;
          s \<leftarrow> put_private w prio q s;
          Some (result, s) }"

definition process_public :: "task_visitor \<Rightarrow> u32 \<Rightarrow> u32 \<Rightarrow> mtapi_state \<Rightarrow> (bool \<times> mtapi_state) option" where
  "process_public process w prio s =
     do { q \<leftarrow> get_public s w prio;
          (result, q, s) \<leftarrow> embb_mtapi_task_queue_process q process s;
          s \<leftarrow> put_public w prio q s;
          Some (result, s) }"

definition embb_mtapi_thread_context_process_tasks ::
    "task_visitor \<Rightarrow> u32 \<Rightarrow> mtapi_state \<Rightarrow> (bool \<times> mtapi_state) option" where
  "embb_mtapi_thread_context_process_tasks process w s =
     do { x \<leftarrow> get_worker s w;
          for_break (\<lambda>ii (result, s).
              do { (result, s) \<leftarrow> process_private process w ii s;
                   if \<not> result then Some (False, result, s)
                   else do { (result, s) \<leftarrow> process_public process w ii s;
                             Some (result, result, s) } })
            0 (tc_priorities x) (True, s) }"

section \<open>Construction\<close>

definition worker_wf :: "embb_mtapi_thread_context \<Rightarrow> bool" where
  "worker_wf x \<longleftrightarrow> unat (tc_priorities x) \<le> length (tc_queue x) \<and>
     unat (tc_priorities x) \<le> length (tc_private_queue x) \<and>
     (\<forall>k < unat (tc_priorities x). task_queue_wf (tc_queue x ! k) \<and> task_queue_wf (tc_private_queue x ! k))"

lemma thread_context_initialize_wf:
  assumes prio: "40 * unat (na_max_priorities (nd_attributes node)) < 2 ^ 32"
    and lim: "8 * unat (na_queue_limit (nd_attributes node)) < 2 ^ 32"
  shows "\<exists>x. embb_mtapi_thread_context_initialize_with_node_worker_and_core garbage garbage_tasks node that w core = Some x \<and>
           worker_wf x \<and> tc_priorities x = na_max_priorities (nd_attributes node) \<and> tc_worker_index x = w \<and>
           tc_core_num x = core \<and> tc_run x = 0 \<and>
           (\<forall>k < unat (tc_priorities x). tq_tasks (tc_queue x ! k) = [] \<and> tq_tasks (tc_private_queue x ! k) = [] \<and>
              tq_limit (tc_queue x ! k) = na_queue_limit (nd_attributes node) \<and> tq_limit (tc_private_queue x ! k) = na_queue_limit (nd_attributes node))"
proof -
  let ?n = "na_max_priorities (nd_attributes node)"
  let ?init = "\<lambda>q. embb_mtapi_task_queue_initialize_with_capacity garbage_tasks (Some (nd_attributes node)) q
                 (na_queue_limit (nd_attributes node))"
  have slots: "queue_slots ?n = 5 * unat ?n"
    using prio by (simp add: queue_slots_def)
  let ?body = "\<lambda>ii (queue, private_queue).
              do { q \<leftarrow> arr_get queue ii;
                   queue \<leftarrow> arr_set queue ii (?init q);
                   q \<leftarrow> arr_get private_queue ii;
                   private_queue \<leftarrow> arr_set private_queue ii (?init q);
                   Some (queue, private_queue) }"
  let ?ok = "\<lambda>k qs. length qs = 5 * unat ?n \<and> (\<forall>j < k. task_queue_wf (qs ! j) \<and> tq_tasks (qs ! j) = [] \<and> tq_limit (qs ! j) = na_queue_limit (nd_attributes node))"
  let ?P = "\<lambda>k t. ?ok k (fst t) \<and> ?ok k (snd t)"
  let ?qs = "map garbage [0..<queue_slots ?n]"
  have "\<exists>t. for_less ?body 0 ?n (?qs, ?qs) = Some t \<and> ?P (unat ?n) t"
  proof (rule for_less_rule[where P = ?P])
    fix k t
    assume k: "k < unat ?n" and P: "?P k t"
    then have uk: "unat (of_nat k :: u32) = k"
      using unat_u32_less[of ?n] by (simp add: unat_of_nat_u32)
    show "\<exists>t'. ?body (of_nat k) t = Some t' \<and> ?P (Suc k) t'"
      using k P task_queue_initialize_wf[OF lim]
      by (cases t) (auto simp: arr_simps uk nth_list_update less_Suc_eq)
  qed (auto simp: slots)
  then obtain qs ps where loop: "for_less ?body 0 ?n (?qs, ?qs) = Some (qs, ps)" "?ok (unat ?n) qs" "?ok (unat ?n) ps"
    by auto
  then show ?thesis
    by (simp add: embb_mtapi_thread_context_initialize_with_node_worker_and_core_def worker_wf_def Let_def)
qed

end
