(* ===== verification/Scheduler.thy ===== *)
theory Scheduler
  imports Thread_Context
begin

text \<open>
  The work-stealing scheduler (\<^verbatim>\<open>mtapi_c/src/embb_mtapi_scheduler_t.c\<close>): the search of a worker for its next task in its two modes, the
  iteration of a worker, waiting, the distribution of new tasks over the workers, and the start and stop of the workers.

  A wait loop ends when its condition is false or its deadline has passed; in between it executes
  other tasks or yields. It is a partial function, and \<open>None\<close> when it does neither.
\<close>

section \<open>The next task of a worker\<close>

definition embb_mtapi_scheduler_get_private_task_from_context ::
    "u32 \<Rightarrow> u32 \<Rightarrow> mtapi_state \<Rightarrow> (u32 option \<times> mtapi_state) option" where
  "embb_mtapi_scheduler_get_private_task_from_context w priority s =
     do { q \<leftarrow> get_private s w priority;
          (task, q) \<leftarrow> embb_mtapi_task_queue_pop q;
          s \<leftarrow> put_private w priority q s;
          Some (task, s) }"

definition embb_mtapi_scheduler_get_public_task_from_context ::
    "u32 \<Rightarrow> u32 \<Rightarrow> mtapi_state \<Rightarrow> (u32 option \<times> mtapi_state) option" where
  "embb_mtapi_scheduler_get_public_task_from_context w priority s =
     do { q \<leftarrow> get_public s w priority;
          (task, q) \<leftarrow> embb_mtapi_task_queue_pop q;
          s \<leftarrow> put_public w priority q s;
          Some (task, s) }"

text \<open>The loop that steals from the other workers, starting after worker \<open>w\<close>.\<close>

definition scheduler_steal :: "u32 \<Rightarrow> u32 \<Rightarrow> mtapi_state \<Rightarrow> (u32 option \<times> mtapi_state) option" where
  "scheduler_steal w priority s =
     do { that \<leftarrow> scheduler s;
          x \<leftarrow> get_worker s w;
          if sc_worker_count that = 0 then None
          else
            do { (task, context_index, s) \<leftarrow>
                   for_break (\<lambda>kk (task, context_index, s).
                       do { (task, s) \<leftarrow> embb_mtapi_scheduler_get_public_task_from_context context_index priority s;
                            Some (task = None, task, (context_index + 1) mod sc_worker_count that, s) })
                     0 (sc_worker_count that - 1)
                     (None, (tc_worker_index x + 1) mod sc_worker_count that, s);
                 Some (task, s) } }"

definition embb_mtapi_scheduler_get_next_task_vhpf :: "u32 \<Rightarrow> mtapi_state \<Rightarrow> (u32 option \<times> mtapi_state) option" where
  "embb_mtapi_scheduler_get_next_task_vhpf w s =
     do { node \<leftarrow> st_node s;
          for_break (\<lambda>ii (task, s).
              do { (task, s) \<leftarrow> embb_mtapi_scheduler_get_private_task_from_context w ii s;
                   (task, s) \<leftarrow> (if task = None then embb_mtapi_scheduler_get_public_task_from_context w ii s
                                 else Some (task, s));
                   (task, s) \<leftarrow> (if task = None then scheduler_steal w ii s else Some (task, s));
                   Some (task = None, task, s) })
            0 (na_max_priorities (nd_attributes node)) (None, s) }"

definition embb_mtapi_scheduler_get_next_task_lf :: "u32 \<Rightarrow> mtapi_state \<Rightarrow> (u32 option \<times> mtapi_state) option" where
  "embb_mtapi_scheduler_get_next_task_lf w s =
     do { node \<leftarrow> st_node s;
          let n = na_max_priorities (nd_attributes node);
          (task, s) \<leftarrow> for_break (\<lambda>prio (task, s).
              do { (task, s) \<leftarrow> embb_mtapi_scheduler_get_private_task_from_context w prio s;
                   Some (task = None, task, s) }) 0 n (None, s);
          (task, s) \<leftarrow> (if task = None then for_break (\<lambda>prio (task, s).
              do { (task, s) \<leftarrow> embb_mtapi_scheduler_get_public_task_from_context w prio s;
                   Some (task = None, task, s) }) 0 n (None, s) else Some (task, s));
          (if task = None then for_break (\<lambda>prio (task, s).
              do { (task, s) \<leftarrow> scheduler_steal w prio s;
                   Some (task = None, task, s) }) 0 n (None, s) else Some (task, s)) }"

definition embb_mtapi_scheduler_get_next_task :: "u32 \<Rightarrow> mtapi_state \<Rightarrow> (u32 option \<times> mtapi_state) option" where
  "embb_mtapi_scheduler_get_next_task w s =
     do { that \<leftarrow> scheduler s;
          (case sc_mode that of
             WORK_STEAL_LF \<Rightarrow> embb_mtapi_scheduler_get_next_task_lf w s
           | WORK_STEAL_VHPF \<Rightarrow> embb_mtapi_scheduler_get_next_task_vhpf w s
           | NUM_SCHEDULER_MODES \<Rightarrow> Some (None, s)) }"

text \<open>\<open>thread\<close> is the calling thread; the result is the worker that runs on it.\<close>

definition embb_mtapi_scheduler_get_current_thread_context :: "u32 \<Rightarrow> mtapi_state \<Rightarrow> u32 option option" where
  "embb_mtapi_scheduler_get_current_thread_context thread s =
     do { that \<leftarrow> scheduler s;
          for_break (\<lambda>ii context.
              do { x \<leftarrow> get_worker s ii;
                   let context = tc_tss x thread;
                   Some (context = None, context) })
            0 (sc_worker_count that) None }"

definition embb_mtapi_scheduler_execute_task_or_yield ::
    "mtapi_env \<Rightarrow> u32 option \<Rightarrow> mtapi_state \<Rightarrow> mtapi_state option" where
  "embb_mtapi_scheduler_execute_task_or_yield env thread_context s =
     (case thread_context of
        Some w \<Rightarrow>
          do { (new_task, s) \<leftarrow> embb_mtapi_scheduler_get_next_task w s;
               (case new_task of
                  Some t \<Rightarrow>
                    do { (task_context, s) \<leftarrow>
                           embb_mtapi_task_context_initialize_with_thread_context_and_task w t s;
                         (_, s) \<leftarrow> embb_mtapi_task_execute env t task_context s;
                         Some s }
                | None \<Rightarrow> env_yield env s) }
      | None \<Rightarrow> env_yield env s)"

section \<open>Scheduling a task\<close>

text \<open>
  The loop that looks for a core the affinity allows. It does not end when the affinity allows none of the
  cores of the node.
\<close>

partial_function (option) affinity_loop ::
    "mtapi_node_attributes option \<Rightarrow> mtapi_affinity \<Rightarrow> u32 \<Rightarrow> u32 \<Rightarrow> u32 option" where
  [code]: "affinity_loop node affinity worker_count ii =
     Option.bind (mtapi_affinity_get node (Some affinity) ii) (\<lambda>(affinity_status, b).
       if MTAPI_FALSE = b then
         if worker_count = 0 then None
         else affinity_loop node affinity worker_count ((ii + 1) mod worker_count)
       else Some ii)"

text \<open>The affinity of a task: that of its ordered queue, or what its action and its own attributes have in common.\<close>

definition schedule_affinity :: "embb_mtapi_task \<Rightarrow> embb_mtapi_action \<Rightarrow> mtapi_state \<Rightarrow> mtapi_affinity option" where
  "schedule_affinity x a s =
     do { node \<leftarrow> st_node s;
          let affinity = aa_affinity (ac_attributes a) AND ta_affinity (tk_attributes x);
          qp \<leftarrow> queue_pool s;
          valid \<leftarrow> embb_mtapi_pool_is_handle_valid qp (tk_queue x);
          affinity \<leftarrow>
            (if valid then
               do { q \<leftarrow> get_queue s (embb_mtapi_pool_get_storage_for_handle qp (tk_queue x));
                    Some (if qa_ordered (qu_attributes q) \<noteq> 0 then qu_ordered_affinity q else affinity) }
             else Some affinity);
          Some (if affinity = 0 then nd_affinity_all node else affinity) }"

definition embb_mtapi_scheduler_schedule_task ::
    "u32 \<Rightarrow> u32 \<Rightarrow> mtapi_state \<Rightarrow> (bool \<times> mtapi_state) option" where
  "embb_mtapi_scheduler_schedule_task task inst s =
     do { that \<leftarrow> scheduler s;
          x \<leftarrow> get_task s task;
          if sc_worker_count that = 0 then None
          else
            do { let ii = (hndl_id (handle x) + inst) mod sc_worker_count that;
                 node \<leftarrow> st_node s;
                 ap \<leftarrow> action_pool s;
                 valid \<leftarrow> embb_mtapi_pool_is_handle_valid ap (tk_action x);
                 if valid then
                   do { let local_action = embb_mtapi_pool_get_storage_for_handle ap (tk_action x);
                        a \<leftarrow> get_action s local_action;
                        affinity \<leftarrow> schedule_affinity x a s;
                        s \<leftarrow> upd_action local_action
                               (\<lambda>a. a\<lparr>ac_num_tasks := snd (embb_atomic_fetch_and_add (ac_num_tasks a) 1)\<rparr>) s;
                        (pushed, ii, s) \<leftarrow>
                          (if affinity = nd_affinity_all node then
                             do { q \<leftarrow> get_public s ii (ta_priority (tk_attributes x));
                                  (pushed, q) \<leftarrow> embb_mtapi_task_queue_push q (Some task);
                                  s \<leftarrow> put_public ii (ta_priority (tk_attributes x)) q s;
                                  Some (pushed, ii, s) }
                           else
                             do { let (ii, counter) = embb_atomic_fetch_and_add (sc_affine_task_counter that) 1;
                                  let s = set_scheduler (that\<lparr>sc_affine_task_counter := counter\<rparr>) s;
                                  ii \<leftarrow> affinity_loop (node_attr s) affinity (sc_worker_count that) ii;
                                  q \<leftarrow> get_private s ii (ta_priority (tk_attributes x));
                                  (pushed, q) \<leftarrow> embb_mtapi_task_queue_push q (Some task);
                                  s \<leftarrow> put_private ii (ta_priority (tk_attributes x)) q s;
                                  Some (pushed, ii, s) });
                        if pushed then
                          do { w \<leftarrow> get_worker s ii;
                               Some (True, if tc_is_sleeping w \<noteq> 0 then add_call (Notify_One ii) s else s) }
                        else
                          do { s \<leftarrow> upd_action local_action
                                 (\<lambda>a. a\<lparr>ac_num_tasks := snd (embb_atomic_fetch_and_add (ac_num_tasks a) (- 1))\<rparr>) s;
                               Some (False, s) } }
                 else Some (False, s) } }"

section \<open>The workers\<close>

definition embb_mtapi_queue_task_finished :: "embb_mtapi_queue \<Rightarrow> embb_mtapi_queue" where
  "embb_mtapi_queue_task_finished that =
     that\<lparr>qu_num_tasks := snd (embb_atomic_fetch_and_add (qu_num_tasks that) (- 1))\<rparr>"

definition finish_in_queue :: "u32 option \<Rightarrow> mtapi_state \<Rightarrow> mtapi_state option" where
  "finish_in_queue local_queue s =
     (case local_queue of Some q \<Rightarrow> upd_queue q embb_mtapi_queue_task_finished s | None \<Rightarrow> Some s)"

text \<open>What a worker does with a task it found, by the state of the task, up to the completion callback.\<close>

definition worker_handle_task :: "mtapi_env \<Rightarrow> u32 \<Rightarrow> u32 \<Rightarrow> int \<Rightarrow> mtapi_state \<Rightarrow> (int \<times> mtapi_state) option" where
  "worker_handle_task env w task counter s =
     do { x \<leftarrow> get_task s task;
          qp \<leftarrow> queue_pool s;
          valid \<leftarrow> embb_mtapi_pool_is_handle_valid qp (tk_queue x);
          let local_queue = (if valid then Some (embb_mtapi_pool_get_storage_for_handle qp (tk_queue x)) else None);
          (if tk_state x = MTAPI_TASK_SCHEDULED \<or> tk_state x = MTAPI_TASK_RUNNING then
             do { (task_context, s) \<leftarrow> embb_mtapi_task_context_initialize_with_thread_context_and_task w task s;
                  (finished, s) \<leftarrow> embb_mtapi_task_execute env task task_context s;
                  s \<leftarrow> (if finished then finish_in_queue local_queue s else Some s);
                  Some (0, s) }
           else if tk_state x = MTAPI_TASK_RETAINED then
             do { (_, s) \<leftarrow> embb_mtapi_scheduler_schedule_task task 0 s;
                  s \<leftarrow> env_yield env s;
                  Some (counter, s) }
           else if tk_state x = MTAPI_TASK_CANCELLED then
             do { let (todo, rest) = embb_atomic_fetch_and_add (tk_instances_todo x) (- 1);
                  s \<leftarrow> put_task task (x\<lparr>tk_error_code := MTAPI_ERR_ACTION_CANCELLED, tk_instances_todo := rest\<rparr>) s;
                  s \<leftarrow> (if todo = 0 then finish_in_queue local_queue s else Some s);
                  Some (counter, s) }
           else Some (counter, s)) }"

definition worker_complete :: "mtapi_env \<Rightarrow> u32 \<Rightarrow> mtapi_state \<Rightarrow> mtapi_state option" where
  "worker_complete env task s =
     do { x \<leftarrow> get_task s task;
          if ta_complete_func (tk_attributes x) \<noteq> 0 then
            env_complete env (ta_complete_func (tk_attributes x)) (handle x) s
          else Some s }"

text \<open>
  The body of the loop of a worker; \<open>counter\<close> is the number of fruitless searches in a row. While a worker sleeps the other threads run.
\<close>

definition scheduler_worker_body :: "mtapi_env \<Rightarrow> u32 \<Rightarrow> int \<Rightarrow> mtapi_state \<Rightarrow> (int \<times> mtapi_state) option" where
  "scheduler_worker_body env w counter s =
     do { (task, s) \<leftarrow> embb_mtapi_scheduler_get_next_task w s;
          (case task of
             Some t \<Rightarrow>
               do { (counter, s) \<leftarrow> worker_handle_task env w t counter s;
                    s \<leftarrow> worker_complete env t s;
                    Some (counter, s) }
           | None \<Rightarrow>
               if counter < 1024 then do { s \<leftarrow> env_yield env s; Some (counter + 1, s) }
               else
                 do { x \<leftarrow> get_worker s w;
                      s \<leftarrow> put_worker w (x\<lparr>tc_is_sleeping := 1\<rparr>) s;
                      s \<leftarrow> env_yield env s;
                      x \<leftarrow> get_worker s w;
                      s \<leftarrow> put_worker w (x\<lparr>tc_is_sleeping := 0\<rparr>) s;
                      Some (counter, s) }) }"

partial_function (option) scheduler_worker_loop :: "mtapi_env \<Rightarrow> u32 \<Rightarrow> int \<Rightarrow> mtapi_state \<Rightarrow> mtapi_state option" where
  [code]: "scheduler_worker_loop env w counter s =
     Option.bind (get_worker s w) (\<lambda>x.
       if tc_run x \<noteq> 0 then
         Option.bind (scheduler_worker_body env w counter s) (\<lambda>(counter, s). scheduler_worker_loop env w counter s)
       else Some s)"

partial_function (option) wait_running :: "mtapi_env \<Rightarrow> mtapi_state \<Rightarrow> mtapi_state option" where
  [code]: "wait_running env s =
     Option.bind (st_node s) (\<lambda>node.
       if nd_is_scheduler_running node = 0 then Option.bind (env_yield env s) (wait_running env)
       else Some s)"

text \<open>\<open>tss_ok\<close> tells whether the thread-specific slot could be created; \<open>thread\<close> is the worker's thread.\<close>

definition embb_mtapi_scheduler_worker ::
    "mtapi_env \<Rightarrow> bool \<Rightarrow> u32 \<Rightarrow> u32 \<Rightarrow> mtapi_state \<Rightarrow> (bool \<times> mtapi_state) option" where
  "embb_mtapi_scheduler_worker env tss_ok thread w s =
     do { x \<leftarrow> get_worker s w;
          if \<not> tss_ok then
            do { s \<leftarrow> put_worker w (x\<lparr>tc_run := - 1\<rparr>) s; Some (False, s) }
          else
            do { s \<leftarrow> put_worker w (x\<lparr>tc_tss := (tc_tss x)(thread := Some w), tc_run := 1\<rparr>) s;
                 s \<leftarrow> wait_running env s;
                 s \<leftarrow> scheduler_worker_loop env w 0 s;
                 x \<leftarrow> get_worker s w;
                 s \<leftarrow> put_worker w (x\<lparr>tc_tss := (\<lambda>_. None)\<rparr>) s;
                 Some (True, s) } }"

section \<open>Waiting\<close>

text \<open>
  The deadline of a wait. The duration is a local variable that \<^verbatim>\<open>embb_duration_set_milliseconds\<close> does not
  write when the timeout is longer than the longest duration; \<open>dur0\<close> and \<open>end0\<close> are what the
  variables hold before.
\<close>

definition wait_end_time :: "embb_duration \<Rightarrow> embb_time \<Rightarrow> int \<Rightarrow> mtapi_state \<Rightarrow> embb_time option" where
  "wait_end_time dur0 end0 timeout s =
     (if - 1 < timeout then
        do { let (_, wait_duration) = embb_duration_set_milliseconds dur0 (of_int timeout);
             (_, end_time) \<leftarrow> embb_time_in (st_clock s) end0 wait_duration;
             Some end_time }
      else Some end0)"

definition wait_timed_out :: "embb_time \<Rightarrow> int \<Rightarrow> mtapi_state \<Rightarrow> bool option" where
  "wait_timed_out end_time timeout s =
     (if - 1 < timeout then
        do { current_time \<leftarrow> embb_time_now (st_clock s) \<lparr>ti_seconds = 0, ti_nanoseconds = 0\<rparr>;
             Some (0 < embb_time_compare current_time end_time) }
      else Some False)"

text \<open>
  \<open>waiting\<close> is the condition of the loop. The result tells whether the loop ended because the condition became
  false; otherwise the wait timed out.
\<close>

partial_function (option) wait_loop ::
    "(mtapi_state \<Rightarrow> bool option) \<Rightarrow> mtapi_env \<Rightarrow> u32 option \<Rightarrow> embb_time \<Rightarrow> int \<Rightarrow> mtapi_state \<Rightarrow>
     (bool \<times> mtapi_state) option" where
  [code]: "wait_loop waiting env context end_time timeout s =
     Option.bind (waiting s) (\<lambda>w.
       if w then
         Option.bind (wait_timed_out end_time timeout s) (\<lambda>late.
           if late then Some (False, s)
           else Option.bind (embb_mtapi_scheduler_execute_task_or_yield env context s)
                  (wait_loop waiting env context end_time timeout))
       else Some (True, s))"

definition task_unfinished :: "u32 \<Rightarrow> mtapi_state \<Rightarrow> bool option" where
  "task_unfinished task s =
     do { x \<leftarrow> get_task s task;
          Some (tk_state x = MTAPI_TASK_SCHEDULED \<or> tk_state x = MTAPI_TASK_RUNNING \<or>
                tk_state x = MTAPI_TASK_RETAINED) }"

definition embb_mtapi_scheduler_wait_for_task ::
    "mtapi_env \<Rightarrow> embb_duration \<Rightarrow> embb_time \<Rightarrow> u32 \<Rightarrow> u32 \<Rightarrow> int \<Rightarrow> mtapi_state \<Rightarrow> (bool \<times> mtapi_state) option" where
  "embb_mtapi_scheduler_wait_for_task env dur0 end0 thread task timeout s =
     do { end_time \<leftarrow> wait_end_time dur0 end0 timeout s;
          context \<leftarrow> embb_mtapi_scheduler_get_current_thread_context thread s;
          wait_loop (task_unfinished task) env context end_time timeout s }"

section \<open>Start and stop\<close>

text \<open>The core a worker is pinned to: the core with number \<open>ii\<close> among those of the node.\<close>

function find_core :: "embb_core_set \<Rightarrow> u32 \<Rightarrow> u32 \<Rightarrow> u32 \<Rightarrow> u32 option" where
  "find_core cores ii ll core_num =
     (case embb_core_set_contains cores core_num of
        None \<Rightarrow> None
      | Some c \<Rightarrow>
          if c \<noteq> 0 then
            if ll = ii then Some core_num else find_core cores ii (ll + 1) (core_num + 1)
          else find_core cores ii ll (core_num + 1))"
  by pat_completeness auto
termination
proof (relation "measure (\<lambda>(cores, ii, ll, core_num). 64 - unat core_num)", goal_cases)
  case 1
  then show ?case by simp
next
  case (2 cores ii ll core_num c)
  then have "unat core_num < 64"
    by (auto simp: embb_core_set_contains_def embb_bitset_is_set_def shift_one_def split: if_splits)
  then have "unat (core_num + 1) = Suc (unat core_num)"
    by (intro unat_inc_bound[of _ 64]) auto
  then show ?case
    using \<open>unat core_num < 64\<close> by simp
next
  case (3 cores ii ll core_num c)
  then have "unat core_num < 64"
    by (auto simp: embb_core_set_contains_def embb_bitset_is_set_def shift_one_def split: if_splits)
  then have "unat (core_num + 1) = Suc (unat core_num)"
    by (intro unat_inc_bound[of _ 64]) auto
  then show ?case
    using \<open>unat core_num < 64\<close> by simp
qed

declare find_core.simps [simp del]

text \<open>
  \<open>outcome\<close> is what starting each worker comes to, \<open>context_size\<close> the size of a worker structure.
  The result is false when a worker did not start.
\<close>

definition embb_mtapi_scheduler_initialize_with_mode ::
    "nat \<Rightarrow> (nat \<Rightarrow> embb_mtapi_thread_context) \<Rightarrow> (nat \<Rightarrow> embb_mtapi_task_queue) \<Rightarrow> (nat \<Rightarrow> u32 option) \<Rightarrow>
     (u32 \<Rightarrow> start_outcome) \<Rightarrow> embb_mtapi_scheduler_mode \<Rightarrow> embb_mtapi_node \<Rightarrow> (bool \<times> embb_mtapi_scheduler) option" where
  "embb_mtapi_scheduler_initialize_with_mode context_size garbage garbage_queues garbage_tasks outcome mode node =
     do { let mode = (if mode = NUM_SCHEDULER_MODES then WORK_STEAL_VHPF else mode);
          let worker_count = na_num_cores (nd_attributes node);
          contexts \<leftarrow> for_less (\<lambda>ii contexts.
              do { core_num \<leftarrow> find_core (na_core_affinity (nd_attributes node)) ii 0 0;
                   x \<leftarrow> arr_get contexts ii;
                   x \<leftarrow> embb_mtapi_thread_context_initialize_with_node_worker_and_core
                          garbage_queues garbage_tasks node x ii core_num;
                   arr_set contexts ii x })
            0 worker_count (map garbage [0..<alloc_count context_size worker_count]);
          (started, contexts) \<leftarrow> for_break (\<lambda>ii (started, contexts).
              do { x \<leftarrow> arr_get contexts ii;
                   (ok, x) \<leftarrow> embb_mtapi_thread_context_start (outcome ii) ii x;
                   contexts \<leftarrow> arr_set contexts ii x;
                   Some (ok, ok, contexts) })
            0 worker_count (True, contexts);
          Some (started, \<lparr>sc_worker_count = worker_count, sc_worker_contexts = contexts, sc_mode = mode,
                          sc_affine_task_counter = 0\<rparr>) }"

definition embb_mtapi_scheduler_initialize ::
    "nat \<Rightarrow> (nat \<Rightarrow> embb_mtapi_thread_context) \<Rightarrow> (nat \<Rightarrow> embb_mtapi_task_queue) \<Rightarrow> (nat \<Rightarrow> u32 option) \<Rightarrow>
     (u32 \<Rightarrow> start_outcome) \<Rightarrow> embb_mtapi_node \<Rightarrow> (bool \<times> embb_mtapi_scheduler) option" where
  "embb_mtapi_scheduler_initialize context_size garbage garbage_queues garbage_tasks outcome node =
     embb_mtapi_scheduler_initialize_with_mode context_size garbage garbage_queues garbage_tasks outcome WORK_STEAL_VHPF node"

text \<open>Stopping all workers, then releasing their queues; the structure itself is freed by the caller.\<close>

definition embb_mtapi_scheduler_finalize :: "mtapi_env \<Rightarrow> mtapi_state \<Rightarrow> mtapi_state option" where
  "embb_mtapi_scheduler_finalize env s =
     do { that \<leftarrow> scheduler s;
          s \<leftarrow> for_less (embb_mtapi_thread_context_stop env) 0 (sc_worker_count that) s;
          s \<leftarrow> for_less (\<lambda>ii s.
              do { x \<leftarrow> get_worker s ii;
                   x \<leftarrow> embb_mtapi_thread_context_finalize (node_attr s) x;
                   put_worker ii x s }) 0 (sc_worker_count that) s;
          that \<leftarrow> scheduler s;
          Some (set_scheduler (that\<lparr>sc_worker_count := 0, sc_worker_contexts := []\<rparr>) s) }"

definition embb_mtapi_scheduler_process_tasks :: "task_visitor \<Rightarrow> mtapi_state \<Rightarrow> (bool \<times> mtapi_state) option" where
  "embb_mtapi_scheduler_process_tasks process s =
     do { that \<leftarrow> scheduler s;
          for_break (\<lambda>ii (result, s).
              do { (result, s) \<leftarrow> embb_mtapi_thread_context_process_tasks process ii s;
                   Some (result, result, s) })
            0 (sc_worker_count that) (True, s) }"

end
