(* ===== verification/Scheduler_Search.thy ===== *)
theory Scheduler_Search
  imports Scheduler
begin

text \<open>
  What the search for the next task does. The queues of the scheduler are named by references, the two search
  functions of the scheduler are shown to be the same abstract search (\<open>search_result\<close>) along two orders of
  references. The abstract search takes the oldest task of the first queue in the order that is not empty, and leaves
  all other queues alone.
\<close>

datatype queue_ref = Public u32 u32 | Private u32 u32

fun get_ref :: "mtapi_state \<Rightarrow> queue_ref \<Rightarrow> embb_mtapi_task_queue option" where
  "get_ref s (Public w prio) = get_public s w prio"
| "get_ref s (Private w prio) = get_private s w prio"

fun put_ref :: "queue_ref \<Rightarrow> embb_mtapi_task_queue \<Rightarrow> mtapi_state \<Rightarrow> mtapi_state option" where
  "put_ref (Public w prio) q s = put_public w prio q s"
| "put_ref (Private w prio) q s = put_private w prio q s"

fun ref_worker :: "queue_ref \<Rightarrow> u32" where
  "ref_worker (Public w prio) = w"
| "ref_worker (Private w prio) = w"

fun ref_prio :: "queue_ref \<Rightarrow> u32" where
  "ref_prio (Public w prio) = prio"
| "ref_prio (Private w prio) = prio"

definition pop_ref :: "queue_ref \<Rightarrow> mtapi_state \<Rightarrow> (u32 option \<times> mtapi_state) option" where
  "pop_ref r s = do { q \<leftarrow> get_ref s r; (task, q) \<leftarrow> embb_mtapi_task_queue_pop q; s \<leftarrow> put_ref r q s; Some (task, s) }"

definition ref_tasks :: "mtapi_state \<Rightarrow> queue_ref \<Rightarrow> u32 list" where
  "ref_tasks s r = (case get_ref s r of Some q \<Rightarrow> tq_tasks q | None \<Rightarrow> [])"

lemma private_pop_ref: "embb_mtapi_scheduler_get_private_task_from_context w prio = pop_ref (Private w prio)"
  by (simp add: fun_eq_iff embb_mtapi_scheduler_get_private_task_from_context_def pop_ref_def)

lemma public_pop_ref: "embb_mtapi_scheduler_get_public_task_from_context w prio = pop_ref (Public w prio)"
  by (simp add: fun_eq_iff embb_mtapi_scheduler_get_public_task_from_context_def pop_ref_def)

section \<open>The invariant of the scheduler\<close>

definition sched_ok :: "embb_mtapi_node \<Rightarrow> embb_mtapi_scheduler \<Rightarrow> bool" where
  "sched_ok n c \<longleftrightarrow> 0 < sc_worker_count c \<and> length (sc_worker_contexts c) = unat (sc_worker_count c) \<and>
     (\<forall>k < unat (sc_worker_count c). worker_wf (sc_worker_contexts c ! k) \<and>
        tc_priorities (sc_worker_contexts c ! k) = na_max_priorities (nd_attributes n) \<and>
        tc_worker_index (sc_worker_contexts c ! k) = of_nat k)"

definition sched_wf :: "mtapi_state \<Rightarrow> bool" where
  "sched_wf s \<longleftrightarrow> (\<exists>n c. st_node s = Some n \<and> nd_scheduler n = Some c \<and> sched_ok n c)"

definition ref_ok :: "mtapi_state \<Rightarrow> queue_ref \<Rightarrow> bool" where
  "ref_ok s r \<longleftrightarrow> (\<exists>n c. st_node s = Some n \<and> nd_scheduler n = Some c \<and> ref_worker r < sc_worker_count c \<and>
     ref_prio r < na_max_priorities (nd_attributes n))"

lemma get_ref_wf:
  assumes "sched_wf s" "ref_ok s r"
  shows "\<exists>q. get_ref s r = Some q \<and> task_queue_wf q"
proof -
  obtain n c where s: "st_node s = Some n" "nd_scheduler n = Some c" "sched_ok n c"
    and r: "ref_worker r < sc_worker_count c" "ref_prio r < na_max_priorities (nd_attributes n)"
    using assms by (auto simp: sched_wf_def ref_ok_def)
  let ?x = "sc_worker_contexts c ! unat (ref_worker r)"
  have w: "unat (ref_worker r) < length (sc_worker_contexts c)" "worker_wf ?x"
      "tc_priorities ?x = na_max_priorities (nd_attributes n)"
    using s(3) r(1) by (auto simp: sched_ok_def word_less_unat)
  then have "unat (ref_prio r) < length (tc_queue ?x)" "unat (ref_prio r) < length (tc_private_queue ?x)"
      "task_queue_wf (tc_queue ?x ! unat (ref_prio r))" "task_queue_wf (tc_private_queue ?x ! unat (ref_prio r))"
    using r(2) by (auto simp: worker_wf_def word_less_unat)
  then show ?thesis
    using s w by (cases r) (simp_all add: get_public_def get_private_def get_worker_def scheduler_def arr_simps)
qed

lemma worker_wf_put:
  assumes "worker_wf x" "task_queue_wf q"
  shows "worker_wf (x\<lparr>tc_queue := (tc_queue x)[k := q]\<rparr>)" "worker_wf (x\<lparr>tc_private_queue := (tc_private_queue x)[k := q]\<rparr>)"
  using assms by (auto simp: worker_wf_def nth_update_any)

text \<open>Writing a queue back: a new scheduler structure with that queue replaced.\<close>

definition sched_put :: "embb_mtapi_scheduler \<Rightarrow> queue_ref \<Rightarrow> embb_mtapi_task_queue \<Rightarrow> embb_mtapi_scheduler" where
  "sched_put c r q =
     c\<lparr>sc_worker_contexts := (sc_worker_contexts c)[unat (ref_worker r) :=
         (let x = sc_worker_contexts c ! unat (ref_worker r) in
          case r of
            Public w prio \<Rightarrow> x\<lparr>tc_queue := (tc_queue x)[unat prio := q]\<rparr>
          | Private w prio \<Rightarrow> x\<lparr>tc_private_queue := (tc_private_queue x)[unat prio := q]\<rparr>)]\<rparr>"

lemma sched_ok_put:
  assumes "sched_ok n c" "task_queue_wf q"
  shows "sched_ok n (sched_put c r q)"
  using assms worker_wf_put
  by (cases r) (auto simp: sched_ok_def sched_put_def nth_update_any Let_def)

lemma put_ref_Some:
  assumes "sched_wf s" "ref_ok s r" "scheduler s = Some c"
  shows "put_ref r q s = Some (set_scheduler (sched_put c r q) s)"
proof -
  obtain n where s: "st_node s = Some n" "nd_scheduler n = Some c" "sched_ok n c"
    and r: "ref_worker r < sc_worker_count c" "ref_prio r < na_max_priorities (nd_attributes n)"
    using assms by (auto simp: sched_wf_def ref_ok_def scheduler_def)
  let ?x = "sc_worker_contexts c ! unat (ref_worker r)"
  have w: "unat (ref_worker r) < length (sc_worker_contexts c)" "worker_wf ?x"
      "tc_priorities ?x = na_max_priorities (nd_attributes n)"
    using s(3) r(1) by (auto simp: sched_ok_def word_less_unat)
  then have "unat (ref_prio r) < length (tc_queue ?x)" "unat (ref_prio r) < length (tc_private_queue ?x)"
    using r(2) by (auto simp: worker_wf_def word_less_unat)
  then show ?thesis
    using s w by (cases r)
      (simp_all add: put_public_def put_private_def put_worker_def get_worker_def scheduler_def arr_simps sched_put_def Let_def)
qed

lemma get_ref_put:
  assumes "sched_wf s" "ref_ok s r" "scheduler s = Some c"
  shows "get_ref (set_scheduler (sched_put c r q) s) r' = (if r' = r then Some q else get_ref s r')"
proof -
  obtain n where s: "st_node s = Some n" "nd_scheduler n = Some c" "sched_ok n c"
    and r: "ref_worker r < sc_worker_count c" "ref_prio r < na_max_priorities (nd_attributes n)"
    using assms by (auto simp: sched_wf_def ref_ok_def scheduler_def)
  let ?x = "sc_worker_contexts c ! unat (ref_worker r)"
  have w: "unat (ref_worker r) < length (sc_worker_contexts c)" "worker_wf ?x"
      "tc_priorities ?x = na_max_priorities (nd_attributes n)"
    using s(3) r(1) by (auto simp: sched_ok_def word_less_unat)
  then have len: "unat (ref_prio r) < length (tc_queue ?x)" "unat (ref_prio r) < length (tc_private_queue ?x)"
    using r(2) by (auto simp: worker_wf_def word_less_unat)
  have sched: "scheduler (set_scheduler (sched_put c r q) s) = Some (sched_put c r q)"
    using s by (simp add: state_simps)
  have workers: "get_worker (set_scheduler (sched_put c r q) s) w' =
      (if w' = ref_worker r then
         Some (case r of
            Public w prio \<Rightarrow> ?x\<lparr>tc_queue := (tc_queue ?x)[unat prio := q]\<rparr>
          | Private w prio \<Rightarrow> ?x\<lparr>tc_private_queue := (tc_private_queue ?x)[unat prio := q]\<rparr>)
       else get_worker s w')" for w'
    using w(1) s unfolding get_worker_def sched
    by (auto simp: sched_put_def arr_get_def nth_list_update word_unat_eq_iff[symmetric] Let_def scheduler_def)
  have old: "get_worker s (ref_worker r) = Some ?x"
    using w(1) s by (simp add: get_worker_def scheduler_def arr_simps)
  show ?thesis
    using len old workers
    by (cases r; cases r')
       (auto simp: get_public_def get_private_def arr_get_def nth_list_update word_unat_eq_iff[symmetric])
qed

lemma set_scheduler_same: "scheduler s = Some c \<Longrightarrow> set_scheduler c s = s"
  by (cases "st_node s") (auto simp: set_scheduler_def scheduler_def)

lemma put_ref_same:
  assumes "sched_wf s" "ref_ok s r" "get_ref s r = Some q"
  shows "put_ref r q s = Some s"
proof -
  obtain n c where s: "st_node s = Some n" "nd_scheduler n = Some c" "sched_ok n c"
    using assms(1) by (auto simp: sched_wf_def)
  have c: "scheduler s = Some c"
    using s by (simp add: scheduler_def)
  have "sched_put c r q = c"
    using assms(3) c
    by (cases r) (auto simp: sched_put_def get_public_def get_private_def get_worker_def bind_eq_Some_conv
        arr_get_eq_Some_iff Let_def)
  then show ?thesis
    using put_ref_Some[OF assms(1,2) c, of q] by (simp add: set_scheduler_same[OF c])
qed

section \<open>Taking a task from one queue\<close>

lemma pop_ref_empty:
  assumes "sched_wf s" "ref_ok s r" "ref_tasks s r = []"
  shows "pop_ref r s = Some (None, s)"
proof -
  obtain q where q: "get_ref s r = Some q" "task_queue_wf q"
    using get_ref_wf[OF assms(1,2)] by blast
  then show ?thesis
    using assms task_queue_pop_none[of q] put_ref_same[OF assms(1,2) q(1)] by (simp add: pop_ref_def ref_tasks_def)
qed

text \<open>
  A state that differs from \<open>s\<close> only in the contents of the queues.
\<close>

definition same_but_queues :: "mtapi_state \<Rightarrow> mtapi_state \<Rightarrow> bool" where
  "same_but_queues s s' \<longleftrightarrow> (\<exists>c c'. scheduler s = Some c \<and> s' = set_scheduler c' s \<and>
     sc_worker_count c' = sc_worker_count c \<and> sc_mode c' = sc_mode c \<and>
     sc_affine_task_counter c' = sc_affine_task_counter c)"

lemma sched_wf_set:
  assumes "st_node s = Some n" "sched_ok n c"
  shows "sched_wf (set_scheduler c s)"
  using assms by (auto simp: sched_wf_def set_scheduler_def sched_ok_def)

lemma ref_ok_set:
  assumes "scheduler s = Some c" "sc_worker_count c' = sc_worker_count c"
  shows "ref_ok (set_scheduler c' s) r = ref_ok s r"
  using assms by (cases "st_node s") (auto simp: ref_ok_def set_scheduler_def scheduler_def)

lemma put_ref_wf:
  assumes "sched_wf s" "ref_ok s r" "task_queue_wf q"
  shows "\<exists>s'. put_ref r q s = Some s' \<and> sched_wf s' \<and> same_but_queues s s' \<and>
           (\<forall>r'. ref_ok s' r' = ref_ok s r') \<and> (\<forall>r'. get_ref s' r' = (if r' = r then Some q else get_ref s r'))"
proof -
  obtain n c where s: "st_node s = Some n" "nd_scheduler n = Some c" "sched_ok n c"
    using assms(1) by (auto simp: sched_wf_def)
  have c: "scheduler s = Some c"
    using s by (simp add: scheduler_def)
  have counts: "sc_worker_count (sched_put c r q) = sc_worker_count c" "sc_mode (sched_put c r q) = sc_mode c"
      "sc_affine_task_counter (sched_put c r q) = sc_affine_task_counter c"
    by (simp_all add: sched_put_def)
  show ?thesis
    using put_ref_Some[OF assms(1,2) c, of q] get_ref_put[OF assms(1,2) c, of q] counts c
      sched_wf_set[OF s(1) sched_ok_put[OF s(3) assms(3)]] ref_ok_set[OF c counts(1)]
    by (auto simp: same_but_queues_def)
qed

lemma pop_ref_some:
  assumes "sched_wf s" "ref_ok s r" "ref_tasks s r = x # xs"
  shows "\<exists>s'. pop_ref r s = Some (Some x, s') \<and> sched_wf s' \<and> same_but_queues s s' \<and>
           (\<forall>r'. ref_ok s' r' = ref_ok s r') \<and>
           (\<forall>r'. ref_tasks s' r' = (if r' = r then xs else ref_tasks s r'))"
proof -
  obtain q where q: "get_ref s r = Some q" "task_queue_wf q"
    using get_ref_wf[OF assms(1,2)] by blast
  then obtain q' where q': "embb_mtapi_task_queue_pop q = Some (Some x, q')" "task_queue_wf q'" "tq_tasks q' = xs"
    using task_queue_pop_some[of q x xs] assms(3) by (auto simp: ref_tasks_def)
  obtain s' where s': "put_ref r q' s = Some s'" "sched_wf s'" "same_but_queues s s'"
      "\<forall>r'. ref_ok s' r' = ref_ok s r'" "\<forall>r'. get_ref s' r' = (if r' = r then Some q' else get_ref s r')"
    using put_ref_wf[OF assms(1,2) q'(2)] by blast
  then show ?thesis
    using q q' by (simp add: pop_ref_def ref_tasks_def)
qed

section \<open>Search along a list of queues\<close>

definition search_result :: "mtapi_state \<Rightarrow> queue_ref list \<Rightarrow> (u32 option \<times> mtapi_state) option" where
  "search_result s rs =
     (case find (\<lambda>r. ref_tasks s r \<noteq> []) rs of None \<Rightarrow> Some (None, s) | Some r \<Rightarrow> pop_ref r s)"

fun search_seq :: "('s \<Rightarrow> ('a option \<times> 's) option) list \<Rightarrow> 's \<Rightarrow> ('a option \<times> 's) option" where
  "search_seq [] s = Some (None, s)"
| "search_seq (f # fs) s = do { (t, s) \<leftarrow> f s; if t = None then search_seq fs s else Some (t, s) }"

lemma find_append: "find P (xs @ ys) = (case find P xs of None \<Rightarrow> find P ys | Some x \<Rightarrow> Some x)"
  by (induction xs) auto

lemma search_result_cases:
  assumes "sched_wf s" "\<forall>r \<in> set rs. ref_ok s r"
  obtains "find (\<lambda>r. ref_tasks s r \<noteq> []) rs = None" "search_result s rs = Some (None, s)"
  | r x xs s' where "find (\<lambda>r. ref_tasks s r \<noteq> []) rs = Some r" "ref_tasks s r = x # xs"
      "search_result s rs = Some (Some x, s')" "sched_wf s'" "same_but_queues s s'"
      "\<forall>r'. ref_ok s' r' = ref_ok s r'" "\<forall>r'. ref_tasks s' r' = (if r' = r then xs else ref_tasks s r')"
proof (cases "find (\<lambda>r. ref_tasks s r \<noteq> []) rs")
  case None
  then show ?thesis using that(1) by (simp add: search_result_def)
next
  case (Some r)
  then have r: "r \<in> set rs" "ref_tasks s r \<noteq> []"
    by (auto simp: find_Some_iff)
  then obtain x xs where x: "ref_tasks s r = x # xs"
    by (cases "ref_tasks s r") auto
  show ?thesis
    using pop_ref_some[OF assms(1) _ x] r assms(2) Some x that(2)[of r x xs] by (auto simp: search_result_def)
qed

lemma search_result_single:
  assumes "sched_wf s" "ref_ok s r"
  shows "search_result s [r] = pop_ref r s"
  using pop_ref_empty[OF assms] by (cases "ref_tasks s r = []") (simp_all add: search_result_def)

lemma search_seq_result:
  assumes "sched_wf s" "list_all2 (\<lambda>f rs. f s = search_result s rs \<and> (\<forall>r \<in> set rs. ref_ok s r)) fs rss"
  shows "search_seq fs s = search_result s (concat rss)"
  using assms(2)
proof (induction rule: list_all2_induct)
  case Nil
  then show ?case by (simp add: search_result_def)
next
  case (Cons f fs rs rss)
  then have f: "f s = search_result s rs" and ok: "\<forall>r \<in> set rs. ref_ok s r" by auto
  show ?case
    by (rule search_result_cases[OF assms(1) ok])
       (use Cons f in \<open>auto simp: search_result_def find_append\<close>)
qed

lemma search_seq_3:
  "do { (t, s) \<leftarrow> f s; (t, s) \<leftarrow> (if t = None then g s else Some (t, s)); (if t = None then h s else Some (t, s)) } =
   search_seq [f, g, h] s"
  by (auto simp: case_prod_unfold split: bind_splits)

text \<open>The two shapes of search loops in the scheduler.\<close>

lemma for_break_search:
  assumes "unat ii \<le> unat n"
  shows "for_break (\<lambda>ii (t, s). do { (t, s) \<leftarrow> f ii s; Some (t = None, t, s) }) ii n (None, s) =
         search_seq (map (\<lambda>k. f (of_nat k)) [unat ii..<unat n]) s"
  using assms
proof (induction "unat n - unat ii" arbitrary: ii s)
  case 0
  then have "ii = n" by (simp add: word_unat_eq_iff)
  then show ?case by simp
next
  case (Suc d)
  then have less: "ii < n" by (simp add: word_less_unat)
  then have next_ii: "unat (ii + 1) = Suc (unat ii)" by (rule unat_inc_less)
  have upt: "[unat ii..<unat n] = unat ii # [Suc (unat ii)..<unat n]"
    using less by (simp add: word_less_unat upt_conv_Cons)
  have IH: "for_break (\<lambda>ii (t, s). do { (t, s) \<leftarrow> f ii s; Some (t = None, t, s) }) (ii + 1) n (None, s') =
         search_seq (map (\<lambda>k. f (of_nat k)) [Suc (unat ii)..<unat n]) s'" for s'
    using Suc.hyps(1)[of "ii + 1" s'] Suc.hyps(2) less by (simp add: next_ii word_less_unat)
  show ?case
    using less by (cases "f ii s") (auto simp: for_break.simps[of _ ii] upt IH)
qed

fun victims :: "u32 \<Rightarrow> u32 \<Rightarrow> nat \<Rightarrow> u32 list" where
  "victims worker_count context_index 0 = []"
| "victims worker_count context_index (Suc n) =
     context_index # victims worker_count ((context_index + 1) mod worker_count) n"

lemma for_break_victims:
  assumes "unat kk \<le> unat n"
  shows "map_option (\<lambda>(t, ci, s). (t, s))
           (for_break (\<lambda>kk (t, ci, s). do { (t, s) \<leftarrow> f ci s; Some (t = None, t, (ci + 1) mod wc, s) }) kk n (None, ci, s)) =
         search_seq (map f (victims wc ci (unat n - unat kk))) s"
  using assms
proof (induction "unat n - unat kk" arbitrary: kk ci s)
  case 0
  then have "kk = n" by (simp add: word_unat_eq_iff)
  then show ?case by simp
next
  case (Suc d)
  then have less: "kk < n" by (simp add: word_less_unat)
  then have next_kk: "unat (kk + 1) = Suc (unat kk)" by (rule unat_inc_less)
  have m: "unat n - unat kk = Suc (unat n - Suc (unat kk))"
    using less by (simp add: word_less_unat Suc_diff_Suc)
  have IH: "map_option (\<lambda>(t, ci, s). (t, s))
           (for_break (\<lambda>kk (t, ci, s). do { (t, s) \<leftarrow> f ci s; Some (t = None, t, (ci + 1) mod wc, s) }) (kk + 1) n (None, ci', s')) =
         search_seq (map f (victims wc ci' (unat n - Suc (unat kk)))) s'" for ci' s'
    using Suc.hyps(1)[of "kk + 1" ci' s'] Suc.hyps(2) less by (simp add: next_kk word_less_unat)
  show ?case
    using less unfolding m by (cases "f ci s") (auto simp: for_break.simps[of _ kk] IH)
qed

section \<open>The order of the victims\<close>

lemma unat_succ_mod:
  assumes "c < wc"
  shows "unat ((c + 1) mod wc) = Suc (unat c) mod unat wc"
  using assms by (simp add: unat_mod_distrib unat_inc_less)

lemma victims_less:
  assumes "ci < wc" "v \<in> set (victims wc ci n)"
  shows "v < wc"
  using assms
proof (induction n arbitrary: ci)
  case (Suc n)
  have "0 < unat wc"
    using Suc.prems(1) by (simp add: word_less_unat)
  then have "(ci + 1) mod wc < wc"
    by (simp add: word_less_unat unat_mod_distrib)
  then show ?case
    using Suc by auto
qed simp

lemma victims_unat:
  assumes "ci < wc"
  shows "map unat (victims wc ci n) = map (\<lambda>k. (unat ci + k) mod unat wc) [0..<n]"
  using assms
proof (induction n arbitrary: ci)
  case (Suc n)
  have pos: "0 < unat wc" and ci: "unat ci < unat wc"
    using Suc.prems by (auto simp: word_less_unat)
  then have less: "(ci + 1) mod wc < wc"
    by (simp add: word_less_unat unat_mod_distrib)
  have "map unat (victims wc ((ci + 1) mod wc) n) = map (\<lambda>k. (unat ci + Suc k) mod unat wc) [0..<n]"
    using Suc.IH[OF less] by (simp add: unat_succ_mod[OF Suc.prems] mod_add_left_eq)
  moreover have "map (\<lambda>k. (unat ci + k) mod unat wc) [0..<Suc n] =
      (unat ci + 0) mod unat wc # map (\<lambda>k. (unat ci + Suc k) mod unat wc) [0..<n]"
    by (rule map_upt_Suc)
  ultimately show ?case
    using ci by simp
qed simp

text \<open>The victims of worker \<open>w\<close> are all other workers.\<close>

lemma victims_all:
  assumes "w < wc"
  shows "set (victims wc ((w + 1) mod wc) (unat (wc - 1))) = {v. v < wc} - {w}"
proof -
  let ?m = "unat wc"
  have w: "unat w < ?m" and pos: "0 < ?m"
    using assms by (auto simp: word_less_unat)
  have wc1: "unat (wc - 1) = ?m - 1"
    using pos by (intro unat_dec_pos) (simp add: word_less_unat)
  have less: "(w + 1) mod wc < wc"
    using pos by (simp add: word_less_unat unat_mod_distrib)
  let ?vs = "victims wc ((w + 1) mod wc) (unat (wc - 1))"
  have us: "unat ` set ?vs = (\<lambda>k. (unat w + Suc k) mod ?m) ` {0..<?m - 1}"
  proof -
    have "unat ` set ?vs = set (map unat ?vs)"
      by simp
    also have "\<dots> = (\<lambda>k. (unat w + Suc k) mod ?m) ` {0..<?m - 1}"
      unfolding victims_unat[OF less] by (simp add: unat_succ_mod[OF assms] mod_add_left_eq wc1)
    finally show ?thesis .
  qed
  have img: "(\<lambda>k. (unat w + Suc k) mod ?m) ` {0..<?m - 1} = {..<?m} - {unat w}"
  proof (rule card_subset_eq)
    show "finite ({..<?m} - {unat w})" by simp
    have ne: "(unat w + Suc k) mod ?m \<noteq> unat w" if "k < ?m - 1" for k
    proof
      assume "(unat w + Suc k) mod ?m = unat w"
      then have "(unat w + Suc k) mod ?m = unat w mod ?m"
        using w by simp
      then have "?m dvd Suc k"
        by (metis add_diff_cancel_left' le_add1 mod_eq_dvd_iff_nat)
      then show False
        using that by (auto dest: dvd_imp_le)
    qed
    show "(\<lambda>k. (unat w + Suc k) mod ?m) ` {0..<?m - 1} \<subseteq> {..<?m} - {unat w}"
      using ne pos by auto
    have "inj_on (\<lambda>k. (unat w + Suc k) mod ?m) {0..<?m - 1}"
    proof (rule linorder_inj_onI')
      fix i j assume ij: "i \<in> {0..<?m - 1}" "j \<in> {0..<?m - 1}" "i < j"
      show "(unat w + Suc i) mod ?m \<noteq> (unat w + Suc j) mod ?m"
      proof
        assume "(unat w + Suc i) mod ?m = (unat w + Suc j) mod ?m"
        then have "?m dvd (unat w + Suc j) - (unat w + Suc i)"
          using ij(3) by (metis add_le_cancel_left less_imp_le_nat mod_eq_dvd_iff_nat not_less_eq_eq Suc_le_mono)
        then have "?m dvd j - i" by simp
        then show False
          using ij by (auto dest!: dvd_imp_le)
      qed
    qed
    then show "card ((\<lambda>k. (unat w + Suc k) mod ?m) ` {0..<?m - 1}) = card ({..<?m} - {unat w})"
      using w by (simp add: card_image)
  qed
  show ?thesis
  proof (rule set_eqI)
    fix v
    have "v \<in> set ?vs \<longleftrightarrow> unat v \<in> unat ` set ?vs"
      by (auto simp: word_unat_eq_iff[symmetric])
    also have "\<dots> \<longleftrightarrow> unat v < ?m \<and> unat v \<noteq> unat w"
      unfolding us img by simp
    finally show "v \<in> set ?vs \<longleftrightarrow> v \<in> {v. v < wc} - {w}"
      by (simp add: word_less_unat word_unat_eq_iff[symmetric])
  qed
qed

section \<open>The two search orders\<close>

definition steal_order :: "u32 \<Rightarrow> u32 \<Rightarrow> u32 \<Rightarrow> queue_ref list" where
  "steal_order wc w prio = map (\<lambda>v. Public v prio) (victims wc ((w + 1) mod wc) (unat (wc - 1)))"

definition vhpf_order :: "u32 \<Rightarrow> u32 \<Rightarrow> u32 \<Rightarrow> queue_ref list" where
  "vhpf_order n wc w =
     concat (map (\<lambda>k. [Private w (of_nat k), Public w (of_nat k)] @ steal_order wc w (of_nat k)) [0..<unat n])"

definition lf_order :: "u32 \<Rightarrow> u32 \<Rightarrow> u32 \<Rightarrow> queue_ref list" where
  "lf_order n wc w =
     map (\<lambda>k. Private w (of_nat k)) [0..<unat n] @ map (\<lambda>k. Public w (of_nat k)) [0..<unat n] @
     concat (map (\<lambda>k. steal_order wc w (of_nat k)) [0..<unat n])"

lemma steal_order_ok:
  assumes "st_node s = Some n" "nd_scheduler n = Some c" "w < sc_worker_count c" "prio < na_max_priorities (nd_attributes n)"
  shows "\<forall>r \<in> set (steal_order (sc_worker_count c) w prio). ref_ok s r"
proof -
  have "0 < unat (sc_worker_count c)"
    using assms(3) by (simp add: word_less_unat)
  then have "(w + 1) mod sc_worker_count c < sc_worker_count c"
    by (simp add: word_less_unat unat_mod_distrib)
  then show ?thesis
    using assms victims_less by (auto simp: steal_order_def ref_ok_def)
qed

lemma scheduler_steal_result:
  assumes s: "st_node s = Some n" "nd_scheduler n = Some c" "sched_ok n c"
    and w: "w < sc_worker_count c" and prio: "prio < na_max_priorities (nd_attributes n)"
  shows "scheduler_steal w prio s = search_result s (steal_order (sc_worker_count c) w prio)"
proof -
  let ?wc = "sc_worker_count c"
  have wf: "sched_wf s"
    using s by (auto simp: sched_wf_def)
  have worker: "get_worker s w = Some (sc_worker_contexts c ! unat w)"
      "tc_worker_index (sc_worker_contexts c ! unat w) = w"
    using s w by (auto simp: get_worker_def scheduler_def arr_get_def sched_ok_def word_less_unat)
  have "?wc \<noteq> 0"
    using w by auto
  then have "scheduler_steal w prio s = search_seq (map (\<lambda>v. pop_ref (Public v prio))
      (victims ?wc ((w + 1) mod ?wc) (unat (?wc - 1)))) s"
    using for_break_victims[of 0 "?wc - 1" "\<lambda>v. pop_ref (Public v prio)" ?wc "(w + 1) mod ?wc" s] worker s
    by (cases "for_break (\<lambda>kk (t, ci, s). do { (t, s) \<leftarrow> pop_ref (Public ci prio) s;
          Some (t = None, t, (ci + 1) mod ?wc, s) }) 0 (?wc - 1) (None, (w + 1) mod ?wc, s)")
       (auto simp: scheduler_steal_def scheduler_def public_pop_ref)
  also have "\<dots> = search_result s (concat (map (\<lambda>r. [r]) (steal_order ?wc w prio)))"
    using steal_order_ok[OF s(1,2) w prio]
    by (intro search_seq_result wf)
       (auto simp: steal_order_def list_all2_conv_all_nth search_result_single[OF wf])
  finally show ?thesis
    by (simp add: concat_map_singleton)
qed

lemma map_upt_list_all2:
  "(\<And>k. k < n \<Longrightarrow> P (f k) (g k)) \<Longrightarrow> list_all2 P (map f [0..<n]) (map g [0..<n])"
  by (simp add: list_all2_conv_all_nth)

lemma of_nat_less_u32: "k < unat (n :: u32) \<Longrightarrow> of_nat k < n"
  using unat_u32_less[of n] by (simp add: word_less_unat unat_of_nat_u32)

text \<open>Victims with higher priority first: the priorities one after the other.\<close>

lemma next_task_vhpf_result:
  assumes s: "st_node s = Some n" "nd_scheduler n = Some c" "sched_ok n c" and w: "w < sc_worker_count c"
  shows "embb_mtapi_scheduler_get_next_task_vhpf w s =
           search_result s (vhpf_order (na_max_priorities (nd_attributes n)) (sc_worker_count c) w)"
proof -
  let ?n = "na_max_priorities (nd_attributes n)" and ?wc = "sc_worker_count c"
  have wf: "sched_wf s"
    using s by (auto simp: sched_wf_def)
  let ?f = "\<lambda>ii. search_seq [pop_ref (Private w ii), pop_ref (Public w ii), scheduler_steal w ii]"
  have body: "(\<lambda>ii (task, s).
              do { (task, s) \<leftarrow> embb_mtapi_scheduler_get_private_task_from_context w ii s;
                   (task, s) \<leftarrow> (if task = None then embb_mtapi_scheduler_get_public_task_from_context w ii s
                                 else Some (task, s));
                   (task, s) \<leftarrow> (if task = None then scheduler_steal w ii s else Some (task, s));
                   Some (task = None, task, s) }) =
      (\<lambda>ii (t :: u32 option, s). do { (t, s) \<leftarrow> ?f ii s; Some (t = None, t, s) })"
    by (auto simp: fun_eq_iff private_pop_ref public_pop_ref case_prod_unfold split: bind_splits)
  have "embb_mtapi_scheduler_get_next_task_vhpf w s = search_seq (map (\<lambda>k. ?f (of_nat k)) [0..<unat ?n]) s"
    using for_break_search[of 0 ?n ?f s] s
    unfolding embb_mtapi_scheduler_get_next_task_vhpf_def body by simp
  also have "\<dots> = search_result s (concat (map (\<lambda>k. [Private w (of_nat k), Public w (of_nat k)] @
      steal_order ?wc w (of_nat k)) [0..<unat ?n]))"
  proof (rule search_seq_result[OF wf], rule map_upt_list_all2)
    fix k assume "k < unat ?n"
    then have prio: "of_nat k < ?n"
      by (rule of_nat_less_u32)
    have ok: "ref_ok s (Private w (of_nat k))" "ref_ok s (Public w (of_nat k))"
      using s w prio by (auto simp: ref_ok_def)
    note steal = steal_order_ok[OF s(1,2) w prio]
    have "?f (of_nat k) s = search_result s (concat [[Private w (of_nat k)], [Public w (of_nat k)], steal_order ?wc w (of_nat k)])"
      using ok steal scheduler_steal_result[OF s w prio]
      by (intro search_seq_result[OF wf]) (simp add: search_result_single[OF wf])
    then show "?f (of_nat k) s = search_result s ([Private w (of_nat k), Public w (of_nat k)] @ steal_order ?wc w (of_nat k)) \<and>
        (\<forall>r \<in> set ([Private w (of_nat k), Public w (of_nat k)] @ steal_order ?wc w (of_nat k)). ref_ok s r)"
      using ok steal by simp
  qed
  finally show ?thesis
    by (simp add: vhpf_order_def)
qed

text \<open>Local first: the private queues, the public queues, then the other workers.\<close>

lemma next_task_lf_result:
  assumes s: "st_node s = Some n" "nd_scheduler n = Some c" "sched_ok n c" and w: "w < sc_worker_count c"
  shows "embb_mtapi_scheduler_get_next_task_lf w s =
           search_result s (lf_order (na_max_priorities (nd_attributes n)) (sc_worker_count c) w)"
proof -
  let ?n = "na_max_priorities (nd_attributes n)" and ?wc = "sc_worker_count c"
  have wf: "sched_wf s"
    using s by (auto simp: sched_wf_def)
  let ?loop = "\<lambda>f. search_seq (map (\<lambda>k. f (of_nat k)) [0..<unat ?n])"
  let ?steals = "\<lambda>k. steal_order ?wc w (of_nat k)"
  have prio: "of_nat k < ?n" if "k < unat ?n" for k
    using that by (rule of_nat_less_u32)
  have refs: "ref_ok s (Private w (of_nat k))" "ref_ok s (Public w (of_nat k))" if "k < unat ?n" for k
    using s w prio[OF that] by (auto simp: ref_ok_def)
  have steals: "ref_ok s r" if "k < unat ?n" "r \<in> set (?steals k)" for k r
    using steal_order_ok[OF s(1,2) w prio[OF that(1)]] that(2) by blast
  have loop: "for_break (\<lambda>ii (t, s). do { (t, s) \<leftarrow> f ii s; Some (t = None, t, s) }) 0 ?n (None, s0) = ?loop f s0"
    for f :: "u32 \<Rightarrow> mtapi_state \<Rightarrow> (u32 option \<times> mtapi_state) option" and s0
    using for_break_search[of 0 ?n f s0] by simp
  have priv: "?loop (\<lambda>prio. pop_ref (Private w prio)) s =
      search_result s (concat (map (\<lambda>k. [Private w (of_nat k)]) [0..<unat ?n]))"
    using s w prio by (intro search_seq_result[OF wf] map_upt_list_all2) (auto simp: ref_ok_def search_result_single[OF wf])
  have publ: "?loop (\<lambda>prio. pop_ref (Public w prio)) s =
      search_result s (concat (map (\<lambda>k. [Public w (of_nat k)]) [0..<unat ?n]))"
    using s w prio by (intro search_seq_result[OF wf] map_upt_list_all2) (auto simp: ref_ok_def search_result_single[OF wf])
  have steal: "?loop (scheduler_steal w) s = search_result s (concat (map ?steals [0..<unat ?n]))"
    by (intro search_seq_result[OF wf] map_upt_list_all2)
      (use prio steal_order_ok[OF s(1,2) w] scheduler_steal_result[OF s w] in blast)
  have "embb_mtapi_scheduler_get_next_task_lf w s =
      search_seq [?loop (\<lambda>prio. pop_ref (Private w prio)), ?loop (\<lambda>prio. pop_ref (Public w prio)), ?loop (scheduler_steal w)] s"
    unfolding embb_mtapi_scheduler_get_next_task_lf_def private_pop_ref public_pop_ref search_seq_3[symmetric]
    using s by (simp add: loop Let_def cong: if_cong)
  also have "\<dots> = search_result s (concat [concat (map (\<lambda>k. [Private w (of_nat k)]) [0..<unat ?n]),
      concat (map (\<lambda>k. [Public w (of_nat k)]) [0..<unat ?n]), concat (map ?steals [0..<unat ?n])])"
    using refs by (intro search_seq_result[OF wf]) (auto simp: priv publ steal intro: steals)
  finally show ?thesis
    by (simp add: lf_order_def concat_map_singleton)
qed

end
