(* ===== verification/Scheduler_Order.thy ===== *)
theory Scheduler_Order
  imports Scheduler_Search "HOL-Library.Product_Lexorder"
begin

text \<open>
  What the two search orders of the scheduler mean: a rank for the queues a worker can reach, such that a search returns a task from a
  queue of least rank among those that are not empty, and none only if all of them are empty.
\<close>

text \<open>The queues worker \<open>w\<close> may take tasks from: its private queues and all public ones.\<close>

definition accessible :: "mtapi_state \<Rightarrow> u32 \<Rightarrow> queue_ref \<Rightarrow> bool" where
  "accessible s w r \<longleftrightarrow> ref_ok s r \<and> (case r of Public v prio \<Rightarrow> True | Private v prio \<Rightarrow> v = w)"

definition vhpf_rank :: "queue_ref \<Rightarrow> nat" where
  "vhpf_rank r = unat (ref_prio r)"

text \<open>
  The place of a queue among those of one priority: the private queue, then the public one of the worker itself, then those of the other
  workers, from the next one round to the one before. \<open>vhpf_before wc w r' r\<close>: worker \<open>w\<close> of \<open>wc\<close> is to look at \<open>r'\<close> before \<open>r\<close>.
\<close>

definition steal_distance :: "u32 \<Rightarrow> u32 \<Rightarrow> u32 \<Rightarrow> nat" where
  "steal_distance wc w v = (unat v + unat wc - unat w) mod unat wc"

definition vhpf_place :: "u32 \<Rightarrow> u32 \<Rightarrow> queue_ref \<Rightarrow> nat" where
  "vhpf_place wc w r = (case r of Private v prio \<Rightarrow> 0 | Public v prio \<Rightarrow> 1 + steal_distance wc w v)"

definition vhpf_before :: "u32 \<Rightarrow> u32 \<Rightarrow> queue_ref \<Rightarrow> queue_ref \<Rightarrow> bool" where
  "vhpf_before wc w r' r \<longleftrightarrow> ref_prio r' < ref_prio r \<or>
     ref_prio r' = ref_prio r \<and> vhpf_place wc w r' < vhpf_place wc w r"

definition vhpf_key :: "u32 \<Rightarrow> u32 \<Rightarrow> queue_ref \<Rightarrow> nat \<times> nat" where
  "vhpf_key wc w r = (unat (ref_prio r), vhpf_place wc w r)"

lemma vhpf_before_key: "vhpf_before wc w r' r \<longleftrightarrow> vhpf_key wc w r' < vhpf_key wc w r"
  by (auto simp: vhpf_before_def vhpf_key_def less_prod_def word_less_unat word_unat_eq_iff)

definition lf_rank :: "u32 \<Rightarrow> queue_ref \<Rightarrow> nat \<times> nat" where
  "lf_rank w r = (case r of Private v prio \<Rightarrow> (0, unat prio)
     | Public v prio \<Rightarrow> (if v = w then 1 else 2, unat prio))"

section \<open>Sorted search lists\<close>

lemma sorted_concat:
  assumes "\<And>k. k < n \<Longrightarrow> sorted_wrt R (f k)"
    "\<And>j k a b. j < k \<Longrightarrow> k < n \<Longrightarrow> a \<in> set (f j) \<Longrightarrow> b \<in> set (f k) \<Longrightarrow> R a b"
  shows "sorted_wrt R (concat (map f [0..<n]))"
  using assms by (induction n) (auto simp: sorted_wrt_append)

lemma sorted_blocks:
  fixes rank :: "'a \<Rightarrow> 'b::linorder"
  assumes "\<And>k x. k < n \<Longrightarrow> x \<in> set (f k) \<Longrightarrow> rank x = g k" "\<And>j k. j < k \<Longrightarrow> k < n \<Longrightarrow> g j \<le> g k"
  shows "sorted_wrt (\<lambda>a b. rank a \<le> rank b) (concat (map f [0..<n]))"
proof (rule sorted_concat)
  have const: "sorted_wrt (\<lambda>a b. rank a \<le> rank b) xs" if "\<And>x. x \<in> set xs \<Longrightarrow> rank x = c" for xs c
    using that by (induction xs) auto
  show "sorted_wrt (\<lambda>a b. rank a \<le> rank b) (f k)" if "k < n" for k
    by (rule const) (rule assms(1)[OF that])
  show "rank a \<le> rank b" if "j < k" "k < n" "a \<in> set (f j)" "b \<in> set (f k)" for j k a b
    using assms(1)[of j a] assms(1)[of k b] assms(2)[of j k] that by simp
qed

lemma find_sorted_least:
  fixes rank :: "'a \<Rightarrow> 'b::linorder"
  assumes "find P xs = Some x" "sorted_wrt (\<lambda>a b. rank a \<le> rank b) xs" "y \<in> set xs" "rank y < rank x"
  shows "\<not> P y"
  using assms by (induction xs) (auto split: if_splits)

lemma steal_order_mem:
  "w < wc \<Longrightarrow> r \<in> set (steal_order wc w prio) \<longleftrightarrow> (\<exists>v. v < wc \<and> v \<noteq> w \<and> r = Public v prio)"
  unfolding steal_order_def set_map victims_all by blast

lemma steal_order_prio: "r \<in> set (steal_order wc w prio) \<Longrightarrow> \<exists>v. r = Public v prio"
  by (auto simp: steal_order_def)

lemma unat_of_nat_below: "k < unat (n :: u32) \<Longrightarrow> unat (of_nat k :: u32) = k"
  using unat_u32_less[of n] by (simp add: unat_of_nat_u32)

lemma steal_distance_victim:
  assumes "unat w < m" "unat v = (Suc (unat w) + k) mod m" "Suc k < m" "m = unat wc"
  shows "steal_distance wc w v = Suc k"
proof (cases "Suc (unat w) + k < m")
  case True
  then have "unat v + m - unat w = Suc k + m"
    using assms by simp
  then show ?thesis
    using assms(3,4) mod_add_self2[of "Suc k" m] by (simp add: steal_distance_def)
next
  case False
  then have "unat v = Suc (unat w) + k - m"
    using assms(1-3) by (simp add: le_mod_geq)
  then have "unat v + m - unat w = Suc k"
    using False assms(1) by simp
  then show ?thesis
    using assms(3,4) by (simp add: steal_distance_def)
qed

lemma steal_order_keys:
  assumes "w < wc"
  shows "map (vhpf_key wc w) (steal_order wc w prio) = map (\<lambda>k. (unat prio, k + 2)) [0..<unat wc - 1]"
proof (rule nth_equalityI)
  let ?m = "unat wc"
  let ?vs = "victims wc ((w + 1) mod wc) (unat (wc - 1))"
  have w: "unat w < ?m"
    using assms by (simp add: word_less_unat)
  have wc1: "unat (wc - 1) = ?m - 1"
    using w by (intro unat_dec_pos) (simp add: word_less_unat)
  have "(w + 1) mod wc < wc"
    using w by (simp add: word_less_unat unat_mod_distrib)
  then have vs: "map unat ?vs = map (\<lambda>k. (Suc (unat w) + k) mod ?m) [0..<?m - 1]"
    by (simp add: victims_unat unat_succ_mod[OF assms] mod_add_left_eq wc1)
  have len: "length ?vs = ?m - 1"
    using arg_cong[OF vs, of length] by simp
  then show "length (map (vhpf_key wc w) (steal_order wc w prio)) = length (map (\<lambda>k. (unat prio, k + 2)) [0..<?m - 1])"
    by (simp add: steal_order_def)
  fix k assume "k < length (map (vhpf_key wc w) (steal_order wc w prio))"
  then have k: "k < length ?vs" "k < ?m - 1"
    using len by (simp_all add: steal_order_def)
  have "unat (?vs ! k) = map unat ?vs ! k"
    using k(1) by simp
  also have "\<dots> = (Suc (unat w) + k) mod ?m"
    unfolding vs using k(2) by simp
  finally have "steal_distance wc w (?vs ! k) = Suc k"
    using k(2) by (intro steal_distance_victim[OF w]) auto
  then show "map (vhpf_key wc w) (steal_order wc w prio) ! k = map (\<lambda>k. (unat prio, k + 2)) [0..<?m - 1] ! k"
    using k by (simp add: steal_order_def vhpf_key_def vhpf_place_def)
qed

lemma sorted_keys: "sorted_wrt (\<lambda>a b. key a \<le> key b) xs \<longleftrightarrow> sorted (map key xs)"
  for key :: "'a \<Rightarrow> 'b::linorder"
  by (simp add: sorted_wrt_map)

lemma sorted_pairs: "sorted (map (\<lambda>j. (p :: nat, j + 2 :: nat)) [0..<m])"
  by (auto simp: sorted_wrt_iff_nth_less less_eq_prod_def)

text \<open>The search list of a worker is the list of the queues in the order of their keys.\<close>

lemma vhpf_order_keys:
  assumes "w < wc"
  shows "sorted_wrt (\<lambda>a b. vhpf_key wc w a \<le> vhpf_key wc w b) (vhpf_order n wc w)"
  unfolding vhpf_order_def
proof (rule sorted_concat)
  fix k
  have "steal_distance wc w w = 0"
    by (simp add: steal_distance_def)
  moreover have "sorted (map (\<lambda>j. (p, j + 2)) [0..<m])" for p m :: nat
    by (rule sorted_pairs)
  ultimately show "sorted_wrt (\<lambda>a b. vhpf_key wc w a \<le> vhpf_key wc w b)
      ([Private w (of_nat k), Public w (of_nat k)] @ steal_order wc w (of_nat k))"
    unfolding sorted_keys[of "vhpf_key wc w"] map_append steal_order_keys[OF assms]
    by (auto simp: vhpf_key_def vhpf_place_def less_eq_prod_def)
next
  have prio: "ref_prio r = of_nat k" if "r \<in> set ([Private w (of_nat k), Public w (of_nat k)] @ steal_order wc w (of_nat k))" for r k
    using that by (auto dest: steal_order_prio)
  fix j k a b
  assume "j < k" "k < unat n" and mem:
    "a \<in> set ([Private w (of_nat j), Public w (of_nat j)] @ steal_order wc w (of_nat j))"
    "b \<in> set ([Private w (of_nat k), Public w (of_nat k)] @ steal_order wc w (of_nat k))"
  then have "unat (ref_prio a) < unat (ref_prio b)"
    using unat_of_nat_below[of _ n] unfolding prio[OF mem(1)] prio[OF mem(2)] by simp
  then show "vhpf_key wc w a \<le> vhpf_key wc w b"
    by (simp add: vhpf_key_def less_eq_prod_def)
qed

lemma vhpf_order_sorted:
  assumes "w < wc"
  shows "sorted_wrt (\<lambda>a b. vhpf_rank a \<le> vhpf_rank b) (vhpf_order n wc w)"
  by (rule sorted_wrt_mono_rel[OF _ vhpf_order_keys[OF assms]])
     (auto simp: vhpf_rank_def vhpf_key_def less_eq_prod_def)

lemma lf_order_sorted:
  assumes "w < wc"
  shows "sorted_wrt (\<lambda>a b. lf_rank w a \<le> lf_rank w b) (lf_order n wc w)"
proof -
  have steal: "lf_rank w r = (2, k)" if "k < unat n" "r \<in> set (steal_order wc w (of_nat k))" for k r
    using that(2) unat_of_nat_below[OF that(1)] by (auto simp: steal_order_mem[OF assms] lf_rank_def)
  have blocks: "sorted_wrt (\<lambda>a b. lf_rank w a \<le> lf_rank w b) (map (\<lambda>k. Private w (of_nat k)) [0..<unat n])"
    "sorted_wrt (\<lambda>a b. lf_rank w a \<le> lf_rank w b) (map (\<lambda>k. Public w (of_nat k)) [0..<unat n])"
    "sorted_wrt (\<lambda>a b. lf_rank w a \<le> lf_rank w b) (concat (map (\<lambda>k. steal_order wc w (of_nat k)) [0..<unat n]))"
    using sorted_blocks[of "unat n" "\<lambda>k. [Private w (of_nat k)]" "lf_rank w" "\<lambda>k. (0, k)"]
      sorted_blocks[of "unat n" "\<lambda>k. [Public w (of_nat k)]" "lf_rank w" "\<lambda>k. (1, k)"]
      sorted_blocks[of "unat n" "\<lambda>k. steal_order wc w (of_nat k)" "lf_rank w" "\<lambda>k. (2, k)"] steal
    by (simp_all add: lf_rank_def unat_of_nat_below[of _ n])
  have firsts: "fst (lf_rank w r) = 0" if "r \<in> set (map (\<lambda>k. Private w (of_nat k)) [0..<unat n])" for r
    using that by (auto simp: lf_rank_def)
  have seconds: "fst (lf_rank w r) = 1" if "r \<in> set (map (\<lambda>k. Public w (of_nat k)) [0..<unat n])" for r
    using that by (auto simp: lf_rank_def)
  have thirds: "fst (lf_rank w r) = 2" if "r \<in> set (concat (map (\<lambda>k. steal_order wc w (of_nat k)) [0..<unat n]))" for r
    using that steal by auto
  have less: "a \<le> b" if "fst a < fst b" for a b :: "nat \<times> nat"
    using that by (simp add: less_eq_prod_def)
  let ?A = "map (\<lambda>k. Private w (of_nat k)) [0..<unat n]" and ?B = "map (\<lambda>k. Public w (of_nat k)) [0..<unat n]"
    and ?C = "concat (map (\<lambda>k. steal_order wc w (of_nat k)) [0..<unat n])"
  have "\<forall>a \<in> set ?A. \<forall>b \<in> set (?B @ ?C). lf_rank w a \<le> lf_rank w b"
  proof (intro ballI less)
    fix a b assume "a \<in> set ?A" "b \<in> set (?B @ ?C)"
    then have "fst (lf_rank w a) = 0" "fst (lf_rank w b) = 1 \<or> fst (lf_rank w b) = 2"
      using firsts[of a] seconds[of b] thirds[of b] by (blast, unfold set_append, blast)
    then show "fst (lf_rank w a) < fst (lf_rank w b)" by auto
  qed
  moreover have "\<forall>a \<in> set ?B. \<forall>b \<in> set ?C. lf_rank w a \<le> lf_rank w b"
  proof (intro ballI less)
    fix a b assume "a \<in> set ?B" "b \<in> set ?C"
    then have "fst (lf_rank w a) = 1" "fst (lf_rank w b) = 2"
      using seconds[of a] thirds[of b] by blast+
    then show "fst (lf_rank w a) < fst (lf_rank w b)" by simp
  qed
  ultimately show ?thesis
    unfolding lf_order_def sorted_wrt_append using blocks by blast
qed

lemma vhpf_order_all:
  assumes s: "st_node s = Some n" "nd_scheduler n = Some c" and w: "w < sc_worker_count c"
  shows "set (vhpf_order (na_max_priorities (nd_attributes n)) (sc_worker_count c) w) = {r. accessible s w r}"
    and "set (lf_order (na_max_priorities (nd_attributes n)) (sc_worker_count c) w) = {r. accessible s w r}"
proof -
  let ?n = "na_max_priorities (nd_attributes n)" and ?wc = "sc_worker_count c"
  have prio: "prio < ?n \<longleftrightarrow> (\<exists>k < unat ?n. prio = of_nat k)" for prio
    using unat_of_nat_below[of _ ?n] by (auto simp: word_less_unat intro!: exI[of _ "unat prio"])
  have acc: "accessible s w r \<longleftrightarrow>
      (\<exists>k < unat ?n. r = Private w (of_nat k) \<or> (\<exists>v. v < ?wc \<and> r = Public v (of_nat k)))" for r
    using s w by (cases r) (auto simp: accessible_def ref_ok_def prio)
  have "r \<in> set (vhpf_order ?n ?wc w) \<longleftrightarrow> (\<exists>k < unat ?n. r = Private w (of_nat k) \<or> r = Public w (of_nat k) \<or>
      (\<exists>v. v < ?wc \<and> v \<noteq> w \<and> r = Public v (of_nat k)))" for r
    by (auto simp: vhpf_order_def steal_order_mem[OF w])
  then show "set (vhpf_order ?n ?wc w) = {r. accessible s w r}"
    unfolding set_eq_iff mem_Collect_eq acc using w by metis
  have "r \<in> set (lf_order ?n ?wc w) \<longleftrightarrow> (\<exists>k < unat ?n. r = Private w (of_nat k) \<or> r = Public w (of_nat k) \<or>
      (\<exists>v. v < ?wc \<and> v \<noteq> w \<and> r = Public v (of_nat k)))" for r
    by (auto simp: lf_order_def steal_order_mem[OF w])
  then show "set (lf_order ?n ?wc w) = {r. accessible s w r}"
    unfolding set_eq_iff mem_Collect_eq acc using w by metis
qed

text \<open>A search along a list that is sorted by a rank.\<close>

definition least_rank_search ::
    "(queue_ref \<Rightarrow> 'b::linorder) \<Rightarrow> mtapi_state \<Rightarrow> u32 \<Rightarrow> (u32 option \<times> mtapi_state) option \<Rightarrow> bool" where
  "least_rank_search rank s w result \<longleftrightarrow>
     (case result of
        None \<Rightarrow> False
      | Some (None, s') \<Rightarrow> s' = s \<and> (\<forall>r. accessible s w r \<longrightarrow> ref_tasks s r = [])
      | Some (Some t, s') \<Rightarrow> sched_wf s' \<and>
          (\<exists>r. accessible s w r \<and> ref_tasks s r = t # ref_tasks s' r \<and>
             (\<forall>r'. r' \<noteq> r \<longrightarrow> ref_tasks s' r' = ref_tasks s r') \<and>
             (\<forall>r'. accessible s w r' \<and> rank r' < rank r \<longrightarrow> ref_tasks s r' = [])))"

lemma search_result_least:
  assumes wf: "sched_wf s" and rs: "set rs = {r. accessible s w r}" "sorted_wrt (\<lambda>a b. rank a \<le> rank b) rs"
  shows "least_rank_search rank s w (search_result s rs)"
proof -
  have ok: "\<forall>r \<in> set rs. ref_ok s r"
    using rs(1) by (auto simp: accessible_def)
  show ?thesis
  proof (cases rule: search_result_cases[OF wf ok])
    case 1
    then show ?thesis
      using rs(1) by (auto simp: least_rank_search_def find_None_iff)
  next
    case (2 r x xs s')
    have "accessible s w r"
      using 2(1) rs(1) by (auto simp: find_Some_iff dest: nth_mem)
    moreover have "ref_tasks s r' = []" if "accessible s w r'" "rank r' < rank r" for r'
      using find_sorted_least[OF 2(1) rs(2), of r'] that rs(1) by auto
    ultimately show ?thesis
      unfolding least_rank_search_def using 2 by (auto intro!: exI[of _ r])
  qed
qed

text \<open>A worker finds the only task there is.\<close>

lemma next_task_only:
  assumes n: "st_node s = Some n" "nd_scheduler n = Some c" "sched_wf s" "sc_mode c = WORK_STEAL_VHPF" "w < sc_worker_count c"
    and r: "accessible s w r" "ref_tasks s r = [t]" "\<And>r'. ref_ok s r' \<Longrightarrow> r' \<noteq> r \<Longrightarrow> ref_tasks s r' = []"
  shows "\<exists>s'. embb_mtapi_scheduler_get_next_task w s = Some (Some t, s') \<and> same_but_queues s s'"
proof -
  have ok: "sched_ok n c"
    using n(1-3) by (auto simp: sched_wf_def)
  let ?rs = "vhpf_order (na_max_priorities (nd_attributes n)) (sc_worker_count c) w"
  have rs: "set ?rs = {r. accessible s w r}"
    by (rule vhpf_order_all(1)[OF n(1,2,5)])
  have next_task: "embb_mtapi_scheduler_get_next_task w s = search_result s ?rs"
    using n next_task_vhpf_result[OF n(1,2) ok n(5)] by (simp add: embb_mtapi_scheduler_get_next_task_def scheduler_def)
  have refs: "\<forall>r \<in> set ?rs. ref_ok s r"
    by (auto simp: rs accessible_def)
  show ?thesis
  proof (cases rule: search_result_cases[OF n(3) refs])
    case 1
    then show ?thesis
      using r(1,2) rs by (auto simp: find_None_iff)
  next
    case (2 r' x xs s')
    then have "ref_ok s r'" "ref_tasks s r' \<noteq> []"
      using refs by (auto simp: find_Some_iff dest: nth_mem)
    then have "r' = r"
      using r(3) by blast
    then show ?thesis
      using 2 r(2) next_task by auto
  qed
qed

section \<open>Properties\<close>

lemma example_sched_ok: "sched_ok example_node example_scheduler"
proof -
  have "worker_wf (example_worker k)" for k
    by (auto simp: worker_wf_def example_worker_def less_2_cases_iff example_queue_wf)
  then show ?thesis
    by (auto simp: sched_ok_def example_scheduler_def example_node_def example_attributes_def less_2_cases_iff)
       (simp_all add: example_worker_def)
qed

lemma example_refs_empty: "ref_tasks example_state r = []"
  by (cases r) (auto simp: ref_tasks_def get_public_def get_private_def get_worker_def example_scheduler_def example_worker_def
      arr_get_def bind_eq_Some_conv nth_Cons' example_queue_wf split: option.splits if_splits)

text \<open>Two queues a worker can take tasks from are never at the same place of the order.\<close>

lemma vhpf_before_total:
  assumes "st_node s = Some n" "nd_scheduler n = Some c" "w < sc_worker_count c"
    and "accessible s w r" "accessible s w r'" "r \<noteq> r'"
  shows "vhpf_before (sc_worker_count c) w r r' \<or> vhpf_before (sc_worker_count c) w r' r"
proof -
  let ?m = "unat (sc_worker_count c)"
  have inj: "v = v'" if "v < sc_worker_count c" "v' < sc_worker_count c"
      "steal_distance (sc_worker_count c) w v = steal_distance (sc_worker_count c) w v'" for v v'
  proof -
    have less: "unat v < ?m" "unat v' < ?m" "unat w < ?m"
      using that(1,2) assms(3) by (simp_all add: word_less_unat)
    have "unat u = (steal_distance (sc_worker_count c) w u + unat w) mod ?m" if "unat u < ?m" for u
      using that less(3) by (simp add: steal_distance_def mod_add_left_eq)
    from this[OF less(1)] this[OF less(2)] have "unat v = unat v'"
      using that(3) by simp
    then show ?thesis
      by (simp add: word_unat_eq_iff)
  qed
  have "steal_distance (sc_worker_count c) w v < steal_distance (sc_worker_count c) w v' \<or>
      steal_distance (sc_worker_count c) w v' < steal_distance (sc_worker_count c) w v"
    if "v < sc_worker_count c" "v' < sc_worker_count c" "v \<noteq> v'" for v v'
    using inj[OF that(1,2)] that(3) by (meson linorder_neqE_nat)
  then show ?thesis
    using assms by (cases r; cases r') (auto simp: accessible_def ref_ok_def vhpf_before_def vhpf_place_def)
qed

text \<open>Worker 0 of the example node has task 7 in its private and task 8 in its public queue of priority 1; worker 1 has task 9 in its own.\<close>

definition queue_with :: "u32 \<Rightarrow> embb_mtapi_task_queue" where
  "queue_with t = example_queue\<lparr>tq_task_buffer := [Some t, None], tq_tasks_available := 1, tq_put_task_position := 1\<rparr>"

definition busy_scheduler :: embb_mtapi_scheduler where
  "busy_scheduler = sched_put (sched_put (sched_put example_scheduler (Private 0 1) (queue_with 7))
     (Public 0 1) (queue_with 8)) (Public 1 1) (queue_with 9)"

definition busy_state :: mtapi_state where
  "busy_state = set_scheduler busy_scheduler example_state"

lemma queue_with_wf: "task_queue_wf (queue_with t)" "tq_tasks (queue_with t) = [t]"
  by (simp_all add: queue_with_def example_queue_def task_queue_wf_def tq_tasks_def tq_slots_def ring_list_def ring_wf_def)

lemma busy_sched_ok: "sched_ok example_node busy_scheduler"
  unfolding busy_scheduler_def by (intro sched_ok_put example_sched_ok queue_with_wf)

lemma busy_node:
  "st_node busy_state = Some (example_node\<lparr>nd_scheduler := Some busy_scheduler\<rparr>)"
  "sc_worker_count busy_scheduler = 2"
  by (simp_all add: busy_state_def set_scheduler_def busy_scheduler_def sched_put_def example_scheduler_def)

lemma busy_tasks:
  "ref_tasks busy_state r = (if r = Private 0 1 then [7] else if r = Public 0 1 then [8] else if r = Public 1 1 then [9] else [])"
proof -
  let ?c1 = "sched_put example_scheduler (Private 0 1) (queue_with 7)"
  let ?c2 = "sched_put ?c1 (Public 0 1) (queue_with 8)"
  have ok: "sched_ok example_node example_scheduler" "sched_ok example_node ?c1" "sched_ok example_node ?c2"
    by (intro sched_ok_put example_sched_ok queue_with_wf)+
  let ?s = "\<lambda>c. set_scheduler c example_state"
  have wf: "sched_wf (?s example_scheduler)" "sched_wf (?s ?c1)" "sched_wf (?s ?c2)"
    using sched_wf_set[OF example_pools(6)] ok by blast+
  have count: "sc_worker_count example_scheduler = 2" "sc_worker_count ?c1 = 2" "sc_worker_count ?c2 = 2"
    by (simp_all add: sched_put_def example_scheduler_def)
  have ref: "ref_ok (?s c) q" if "sc_worker_count c = 2" "ref_worker q < 2" "ref_prio q < 2" for c q
    using that by (auto simp: ref_ok_def set_scheduler_def example_node_def example_attributes_def)
  have sched: "scheduler (?s c) = Some c" for c
    by (simp add: scheduler_def set_scheduler_def)
  have again: "set_scheduler c (?s c') = ?s c" for c c'
    by (simp add: set_scheduler_def)
  have put: "get_ref (?s (sched_put c q x)) r = (if r = q then Some x else get_ref (?s c) r)"
    if "sched_wf (?s c)" "sc_worker_count c = 2" "ref_worker q < 2" "ref_prio q < 2" for c q x
    using get_ref_put[OF that(1) ref[OF that(2-4)] sched, of x r] by (simp add: again)
  have "get_ref busy_state r = (if r = Public 1 1 then Some (queue_with 9) else if r = Public 0 1 then Some (queue_with 8)
      else if r = Private 0 1 then Some (queue_with 7) else get_ref (?s example_scheduler) r)"
    unfolding busy_state_def busy_scheduler_def using wf count by (simp add: put)
  moreover have "?s example_scheduler = example_state"
    by (rule set_scheduler_same) simp
  ultimately show ?thesis
    using example_refs_empty[of r] by (simp add: ref_tasks_def queue_with_wf)
qed

text \<open>
  C2. The next task of a worker, highest priority first. On a well-formed node the search always returns. If it returns no task, nothing has changed and all
  queues the worker can reach, its private queues and every worker's public queues, are empty. If it returns a task, this is the oldest task of one of
  these queues, exactly this task has been removed, and every queue the worker is to look at before this one is empty: those of a higher priority (a
  smaller number), and at the same priority the worker's private queue, then its own public queue, then the public queues of the other workers from
  the next one on.
\<close>

theorem next_task_highest_priority_first:
  assumes "st_node s = Some n" "nd_scheduler n = Some c" "sched_ok n c" "w < sc_worker_count c"
  shows "case embb_mtapi_scheduler_get_next_task_vhpf w s of
        None \<Rightarrow> False
      | Some (None, s') \<Rightarrow> s' = s \<and> (\<forall>r. accessible s w r \<longrightarrow> ref_tasks s r = [])
      | Some (Some t, s') \<Rightarrow> sched_wf s' \<and>
          (\<exists>r. accessible s w r \<and> ref_tasks s r = t # ref_tasks s' r \<and>
             (\<forall>r'. r' \<noteq> r \<longrightarrow> ref_tasks s' r' = ref_tasks s r') \<and>
             (\<forall>r'. accessible s w r' \<and> vhpf_before (sc_worker_count c) w r' r \<longrightarrow> ref_tasks s r' = []))"
proof -
  have wf: "sched_wf s"
    using assms by (auto simp: sched_wf_def)
  show ?thesis
    unfolding next_task_vhpf_result[OF assms] vhpf_before_key
    using search_result_least[OF wf vhpf_order_all(1)[OF assms(1,2,4)] vhpf_order_keys[OF assms(4)]]
    by (simp add: least_rank_search_def)
qed

theorem next_task_highest_priority_first_witness:
  "\<exists>s'. embb_mtapi_scheduler_get_next_task_vhpf 0 busy_state = Some (Some 7, s') \<and>
     ref_tasks s' (Private 0 1) = [] \<and> ref_tasks s' (Public 0 1) = [8] \<and> ref_tasks s' (Public 1 1) = [9]"
proof -
  let ?n = "example_node\<lparr>nd_scheduler := Some busy_scheduler\<rparr>"
  have ok: "sched_ok ?n busy_scheduler" "nd_scheduler ?n = Some busy_scheduler" "0 < sc_worker_count busy_scheduler"
    using busy_sched_ok by (simp_all add: sched_ok_def busy_node(2))
  have acc: "accessible busy_state 0 (Private 0 1)"
    by (auto simp: accessible_def ref_ok_def busy_node example_node_def example_attributes_def)
  have task: "ref_tasks busy_state (Private 0 1) \<noteq> []"
    by (simp add: busy_tasks)
  note found = next_task_highest_priority_first[OF busy_node(1) ok(2,1,3)]
  obtain t s' where res: "embb_mtapi_scheduler_get_next_task_vhpf 0 busy_state = Some (Some t, s')"
    using found acc task by (auto split: option.splits)
  obtain r where r: "ref_tasks busy_state r = t # ref_tasks s' r"
      "\<forall>r'. r' \<noteq> r \<longrightarrow> ref_tasks s' r' = ref_tasks busy_state r'"
      "\<forall>r'. accessible busy_state 0 r' \<and> vhpf_before (sc_worker_count busy_scheduler) 0 r' r \<longrightarrow> ref_tasks busy_state r' = []"
    using found unfolding res option.case prod.case by blast
  have "\<not> vhpf_before (sc_worker_count busy_scheduler) 0 (Private 0 1) r"
    using r(3) acc by (auto simp: busy_tasks)
  moreover have "r = Private 0 1 \<or> r = Public 0 1 \<or> r = Public 1 1"
    using r(1) by (auto simp: busy_tasks split: if_splits)
  ultimately have "r = Private 0 1"
    by (auto simp: vhpf_before_def vhpf_place_def)
  then show ?thesis
    using res r by (auto simp: busy_tasks)
qed

text \<open>
  The next task of a worker, local queues first. The search in the other mode also always returns, finds a task if a reachable queue has one, and
  removes exactly the task it returns; it takes it from a private queue of the worker if one has tasks, else from a public queue of
  the worker, else from another worker, and each time from the highest priority that has tasks.
\<close>

lemma next_task_local_first:
  assumes "st_node s = Some n" "nd_scheduler n = Some c" "sched_ok n c" "w < sc_worker_count c"
  shows "case embb_mtapi_scheduler_get_next_task_lf w s of
        None \<Rightarrow> False
      | Some (None, s') \<Rightarrow> s' = s \<and> (\<forall>r. accessible s w r \<longrightarrow> ref_tasks s r = [])
      | Some (Some t, s') \<Rightarrow> sched_wf s' \<and>
          (\<exists>r. accessible s w r \<and> ref_tasks s r = t # ref_tasks s' r \<and>
             (\<forall>r'. r' \<noteq> r \<longrightarrow> ref_tasks s' r' = ref_tasks s r') \<and>
             (\<forall>r'. accessible s w r' \<and> lf_rank w r' < lf_rank w r \<longrightarrow> ref_tasks s r' = []))"
proof -
  have wf: "sched_wf s"
    using assms by (auto simp: sched_wf_def)
  show ?thesis
    using search_result_least[OF wf vhpf_order_all(2)[OF assms(1,2,4)] lf_order_sorted[OF assms(4)]]
    by (simp add: next_task_lf_result[OF assms] least_rank_search_def)
qed

end
