(* ===== verification/Scheduler_Placement.thy ===== *)
theory Scheduler_Placement
  imports Scheduler_Order Task_Execution
begin

text \<open>
  Where \<^verbatim>\<open>embb_mtapi_scheduler_schedule_task\<close> puts a task: the queue a new task goes to, that exactly this queue changes, and when the
  search for an allowed core ends.
\<close>

section \<open>Pushing to a queue of the scheduler\<close>

definition push_ref :: "queue_ref \<Rightarrow> u32 \<Rightarrow> mtapi_state \<Rightarrow> (bool \<times> mtapi_state) option" where
  "push_ref r t s = do { q \<leftarrow> get_ref s r; (ok, q) \<leftarrow> embb_mtapi_task_queue_push q (Some t); s \<leftarrow> put_ref r q s; Some (ok, s) }"

definition ref_room :: "mtapi_state \<Rightarrow> queue_ref \<Rightarrow> bool" where
  "ref_room s r \<longleftrightarrow> (case get_ref s r of Some q \<Rightarrow> length (tq_tasks q) < unat (tq_limit q) | None \<Rightarrow> False)"

lemma push_ref_room:
  assumes "sched_wf s" "ref_ok s r" "ref_room s r"
  shows "\<exists>s'. push_ref r t s = Some (True, s') \<and> sched_wf s' \<and> same_but_queues s s' \<and>
           (\<forall>r'. ref_ok s' r' = ref_ok s r') \<and>
           (\<forall>r'. ref_tasks s' r' = (if r' = r then ref_tasks s r @ [t] else ref_tasks s r'))"
proof -
  obtain q where q: "get_ref s r = Some q" "task_queue_wf q"
    using get_ref_wf[OF assms(1,2)] by blast
  then obtain q' where q': "embb_mtapi_task_queue_push q (Some t) = Some (True, q')" "task_queue_wf q'" "tq_tasks q' = tq_tasks q @ [t]"
    using task_queue_push_room[of q t] assms(3) by (auto simp: ref_room_def)
  obtain s' where s': "put_ref r q' s = Some s'" "sched_wf s'" "same_but_queues s s'" "\<forall>r'. ref_ok s' r' = ref_ok s r'"
      "\<forall>r'. get_ref s' r' = (if r' = r then Some q' else get_ref s r')"
    using put_ref_wf[OF assms(1,2) q'(2)] by blast
  show ?thesis
    using q q' s' by (intro exI[of _ s']) (auto simp: push_ref_def ref_tasks_def)
qed

lemma push_ref_full:
  assumes "sched_wf s" "ref_ok s r" "\<not> ref_room s r"
  shows "push_ref r t s = Some (False, s)"
proof -
  obtain q where q: "get_ref s r = Some q" "task_queue_wf q"
    using get_ref_wf[OF assms(1,2)] by blast
  then have "embb_mtapi_task_queue_push q (Some t) = Some (False, q)"
    using task_queue_push_full[OF q(2), of "Some t"] task_fifo.length_bound[OF q(2)] assms(3) by (auto simp: ref_room_def)
  then show ?thesis
    using q put_ref_same[OF assms(1,2) q(1)] by (simp add: push_ref_def)
qed

lemma frame_refs [state_simps]:
  shows "get_ref (set_action_pool ap s) r = get_ref s r" "get_ref (add_call e s) r = get_ref s r"
    and "ref_tasks (set_action_pool ap s) r = ref_tasks s r" "ref_tasks (add_call e s) r = ref_tasks s r"
    and "ref_room (set_action_pool ap s) r = ref_room s r"
  by (cases r; simp add: ref_tasks_def ref_room_def get_public_def get_private_def get_worker_def state_simps)+

lemma frame_sched_wf [state_simps]:
  shows "sched_wf (set_action_pool ap s) = sched_wf s" "sched_wf (add_call e s) = sched_wf s"
    and "ref_ok (set_action_pool ap s) r = ref_ok s r" "ref_ok (add_call e s) r = ref_ok s r"
  by (cases "st_node s"; auto simp: sched_wf_def ref_ok_def set_action_pool_def add_call_def sched_ok_def)+

lemma frame_node_call [state_simps]: "st_node (add_call e s) = st_node s"
  by (simp add: add_call_def)

section \<open>The search for an allowed core\<close>

lemma affinity_get_bit:
  assumes "unat (na_num_cores n) \<le> 64"
  shows "mtapi_affinity_get (Some n) (Some aff) ii =
           Some (if ii < na_num_cores n then (MTAPI_SUCCESS, if bit aff (unat ii) then MTAPI_TRUE else MTAPI_FALSE)
                 else (MTAPI_ERR_CORE_NUM, MTAPI_FALSE))"
  using assms bits.contains[of ii aff] by (auto simp: mtapi_affinity_get_def bits_of_def word_less_unat)

lemma affinity_loop_step:
  assumes "unat (na_num_cores n) \<le> 64" "0 < wc"
  shows "affinity_loop (Some n) aff wc ii =
           (if ii < na_num_cores n \<and> bit aff (unat ii) then Some ii
            else affinity_loop (Some n) aff wc ((ii + 1) mod wc))"
  using assms by (subst affinity_loop.simps) (auto simp: affinity_get_bit)

lemma affinity_loop_near:
  assumes n: "unat (na_num_cores n) \<le> 64" "na_num_cores n = wc" and wc: "0 < wc"
    and "ii < wc" "bit aff ((unat ii + d) mod unat wc)"
  shows "\<exists>j. affinity_loop (Some n) aff wc ii = Some j \<and> j < wc \<and> bit aff (unat j)"
  using assms(4-)
proof (induction d arbitrary: ii)
  case 0
  then show ?case
    using n by (auto simp: affinity_loop_step[OF n(1) wc] word_less_unat)
next
  case (Suc d)
  have pos: "0 < unat wc"
    using wc by (simp add: word_less_unat)
  have next_ii: "unat ((ii + 1) mod wc) = Suc (unat ii) mod unat wc"
    using Suc.prems(1) by (rule unat_succ_mod)
  have less: "(ii + 1) mod wc < wc"
    using pos by (simp add: word_less_unat unat_mod_distrib)
  have "bit aff ((unat ((ii + 1) mod wc) + d) mod unat wc)"
    using Suc.prems(2) by (simp add: next_ii mod_add_left_eq)
  from Suc.IH[OF less this] Suc.prems(1) n show ?case
    by (simp add: affinity_loop_step[OF n(1) wc, of aff ii])
qed

lemma affinity_loop_finds:
  assumes n: "unat (na_num_cores n) \<le> 64" "na_num_cores n = wc" and k: "k < unat wc" "bit aff k"
  shows "\<exists>j. affinity_loop (Some n) aff wc ii = Some j \<and> j < wc \<and> bit aff (unat j)"
proof -
  have wc: "0 < wc"
    using k(1) by (simp add: word_less_unat)
  have below: "\<exists>j. affinity_loop (Some n) aff wc i = Some j \<and> j < wc \<and> bit aff (unat j)" if "i < wc" for i
  proof -
    have "(unat i + (unat wc - unat i + k)) mod unat wc = k"
      using that k(1) by (simp add: word_less_unat)
    then show ?thesis
      using affinity_loop_near[OF n wc that, of aff "unat wc - unat i + k"] k(2) by simp
  qed
  show ?thesis
  proof (cases "ii < wc")
    case False
    have "(ii + 1) mod wc < wc"
      using wc by (simp add: word_less_unat unat_mod_distrib)
    then show ?thesis
      using below[of "(ii + 1) mod wc"] False n by (simp add: affinity_loop_step[OF n(1) wc, of aff ii])
  qed (rule below)
qed

lemma affinity_loop_sound:
  assumes n: "unat (na_num_cores n) \<le> 64" and "affinity_loop (Some n) aff wc ii = Some j"
  shows "j < na_num_cores n \<and> bit aff (unat j)"
proof -
  have "affinity_loop node aff wc ii = Some j \<Longrightarrow> node = Some n \<longrightarrow> j < na_num_cores n \<and> bit aff (unat j)" for node
  proof (rule affinity_loop.raw_induct[where P = "\<lambda>node aff wc ii j. node = Some n \<longrightarrow> j < na_num_cores n \<and> bit aff (unat j)"])
    fix loop node aff wc ii j
    assume IH: "\<And>node aff wc ii j. loop node aff wc ii = Some j \<Longrightarrow> node = Some n \<longrightarrow> j < na_num_cores n \<and> bit aff (unat j)"
      and "mtapi_affinity_get node (Some aff) ii \<bind> (\<lambda>(st, b).
         if MTAPI_FALSE = b then if wc = 0 then None else loop node aff wc ((ii + 1) mod wc) else Some ii) = Some j"
    then show "node = Some n \<longrightarrow> j < na_num_cores n \<and> bit aff (unat j)"
      using affinity_get_bit[OF n, of aff ii] by (auto split: if_splits)
  qed
  then show ?thesis
    using assms(2) by blast
qed

section \<open>Scheduling a task\<close>

text \<open>The target of a task: the queue, and the scheduler with its counter of restricted tasks.\<close>

definition schedule_target ::
    "embb_mtapi_node \<Rightarrow> embb_mtapi_scheduler \<Rightarrow> embb_mtapi_task \<Rightarrow> u32 \<Rightarrow> mtapi_affinity \<Rightarrow> queue_ref \<Rightarrow> embb_mtapi_scheduler \<Rightarrow> bool" where
  "schedule_target n c x inst aff r c' \<longleftrightarrow>
     (if aff = nd_affinity_all n
      then r = Public ((hndl_id (handle x) + inst) mod sc_worker_count c) (ta_priority (tk_attributes x)) \<and> c' = c
      else \<exists>j. affinity_loop (Some (nd_attributes n)) aff (sc_worker_count c) (sc_affine_task_counter c) = Some j \<and>
             r = Private j (ta_priority (tk_attributes x)) \<and> c' = c\<lparr>sc_affine_task_counter := sc_affine_task_counter c + 1\<rparr>)"

definition count_task :: "u32 \<Rightarrow> u32 \<Rightarrow> embb_mtapi_action embb_mtapi_pool \<Rightarrow> embb_mtapi_action embb_mtapi_pool" where
  "count_task i d ap = ap\<lparr>pl_storage := (pl_storage ap)[unat i := (pl_storage ap ! unat i)
     \<lparr>ac_num_tasks := ac_num_tasks (pl_storage ap ! unat i) + d\<rparr>]\<rparr>"

lemma schedule_task_push:
  assumes n: "st_node s = Some n" "nd_scheduler n = Some c" "0 < sc_worker_count c"
    and x: "get_task s t = Some x" and ap: "action_pool s = Some ap"
      "embb_mtapi_pool_is_handle_valid ap (tk_action x) = Some True"
    and aff: "schedule_affinity x (pl_storage ap ! unat (hndl_id (tk_action x))) s = Some aff"
    and target: "schedule_target n c x inst aff r c'"
  shows "embb_mtapi_scheduler_schedule_task t inst s =
     do { (ok, s3) \<leftarrow> push_ref r t (set_scheduler c' (set_action_pool (count_task (hndl_id (tk_action x)) 1 ap) s));
          if ok then
            do { w \<leftarrow> get_worker s3 (ref_worker r);
                 Some (True, if tc_is_sleeping w \<noteq> 0 then add_call (Notify_One (ref_worker r)) s3 else s3) }
          else
            do { s \<leftarrow> upd_action (hndl_id (tk_action x))
                   (\<lambda>a. a\<lparr>ac_num_tasks := snd (embb_atomic_fetch_and_add (ac_num_tasks a) (- 1))\<rparr>) s3;
                 Some (False, s) } }"
proof -
  have c: "scheduler s = Some c"
    using n by (simp add: scheduler_def)
  have i: "unat (hndl_id (tk_action x)) < length (pl_storage ap)"
    using pool_valid_in_bounds[OF ap(2)] .
  have same: "set_scheduler c (set_action_pool ap' s) = set_action_pool ap' s" for ap'
    using c by (intro set_scheduler_same) (simp add: state_simps)
  have attr: "node_attr (set_scheduler c' (set_action_pool ap' s)) = Some (nd_attributes n)" for c' ap'
    using n(1) by (simp add: set_scheduler_def set_action_pool_def)
  have wc: "sc_worker_count c \<noteq> 0"
    using n(3) by auto
  show ?thesis
    using target wc i
    by (cases "aff = nd_affinity_all n")
       (auto simp: embb_mtapi_scheduler_schedule_task_def schedule_target_def c x n(1) ap aff upd_action_Some push_ref_def
          embb_mtapi_pool_get_storage_for_handle_def embb_atomic_fetch_and_add_def count_task_def same attr Let_def
          case_prod_unfold cong: if_cong)
qed

lemma set_counter_frame:
  assumes n: "st_node s = Some n" "nd_scheduler n = Some c" "sched_ok n c"
    and c': "sc_worker_count c' = sc_worker_count c" "sc_worker_contexts c' = sc_worker_contexts c"
  shows "sched_wf (set_scheduler c' s)" "get_ref (set_scheduler c' s) r = get_ref s r"
    "ref_ok (set_scheduler c' s) r = ref_ok s r" "ref_tasks (set_scheduler c' s) r = ref_tasks s r"
    "ref_room (set_scheduler c' s) r = ref_room s r"
proof -
  show "sched_wf (set_scheduler c' s)"
    using n c' by (auto simp: sched_wf_def set_scheduler_def sched_ok_def)
  show r: "get_ref (set_scheduler c' s) r = get_ref s r"
    using n c' by (cases r) (simp_all add: get_public_def get_private_def get_worker_def scheduler_def set_scheduler_def)
  show "ref_ok (set_scheduler c' s) r = ref_ok s r"
    using n c' by (auto simp: ref_ok_def set_scheduler_def)
  show "ref_tasks (set_scheduler c' s) r = ref_tasks s r" "ref_room (set_scheduler c' s) r = ref_room s r"
    using r by (simp_all add: ref_tasks_def ref_room_def)
qed

lemma schedule_task_effect:
  assumes n: "st_node s = Some n" "nd_scheduler n = Some c" "sched_ok n c"
    and x: "get_task s t = Some x" and ap: "action_pool s = Some ap"
      "embb_mtapi_pool_is_handle_valid ap (tk_action x) = Some True"
    and aff: "schedule_affinity x (pl_storage ap ! unat (hndl_id (tk_action x))) s = Some aff"
    and target: "schedule_target n c x inst aff r c'" and r: "ref_ok s r"
  shows "\<exists>s'. embb_mtapi_scheduler_schedule_task t inst s = Some (ref_room s r, s') \<and> sched_wf s' \<and>
           (\<forall>r'. ref_tasks s' r' = (if r' = r \<and> ref_room s r then ref_tasks s r @ [t] else ref_tasks s r')) \<and>
           action_pool s' = Some (if ref_room s r then count_task (hndl_id (tk_action x)) 1 ap else ap) \<and>
           (\<forall>r'. ref_ok s' r' = ref_ok s r') \<and>
           (\<exists>c3 ap3. st_node s' = Some (n\<lparr>nd_scheduler := Some c3, nd_action_pool := Some ap3\<rparr>) \<and>
              sc_worker_count c3 = sc_worker_count c \<and> sc_mode c3 = sc_mode c)"
proof -
  let ?i = "hndl_id (tk_action x)"
  let ?ap1 = "count_task ?i 1 ap"
  let ?s1 = "set_action_pool ?ap1 s"
  let ?s2 = "set_scheduler c' ?s1"
  have i: "unat ?i < length (pl_storage ap)"
    using pool_valid_in_bounds[OF ap(2)] .
  have wc: "0 < sc_worker_count c"
    using n(3) by (simp add: sched_ok_def)
  note sched = schedule_task_push[OF n(1,2) wc x ap aff target]
  have c': "sc_worker_count c' = sc_worker_count c" "sc_worker_contexts c' = sc_worker_contexts c" "sc_mode c' = sc_mode c"
    using target by (auto simp: schedule_target_def split: if_splits)
  have n1: "st_node ?s1 = Some (n\<lparr>nd_action_pool := Some ?ap1\<rparr>)"
    using n(1) by (simp add: set_action_pool_def)
  have ok1: "nd_scheduler (n\<lparr>nd_action_pool := Some ?ap1\<rparr>) = Some c" "sched_ok (n\<lparr>nd_action_pool := Some ?ap1\<rparr>) c"
    using n(2,3) by (simp_all add: sched_ok_def)
  note frame = set_counter_frame[OF n1 ok1 c'(1,2)]
  have wf2: "sched_wf ?s2" and r2: "ref_ok ?s2 r"
    using frame(1) frame(3)[of r] r by (simp_all add: state_simps)
  have refs2: "ref_tasks ?s2 r' = ref_tasks s r'" "ref_room ?s2 r' = ref_room s r'" for r'
    using frame(4,5)[of r'] by (simp_all add: state_simps)
  have oks2: "ref_ok ?s2 r' = ref_ok s r'" for r'
    using frame(3)[of r'] by (simp add: state_simps)
  have ap2: "action_pool ?s2 = Some ?ap1"
    using n(1) by (simp add: state_simps)
  show ?thesis
  proof (cases "ref_room s r")
    case True
    then obtain s3 where s3: "push_ref r t ?s2 = Some (True, s3)" "sched_wf s3" "same_but_queues ?s2 s3"
        "\<forall>r'. ref_ok s3 r' = ref_ok ?s2 r'"
        "\<forall>r'. ref_tasks s3 r' = (if r' = r then ref_tasks s r @ [t] else ref_tasks s r')"
      using push_ref_room[OF wf2 r2, of t] refs2 by auto
    have "ref_worker r < sc_worker_count c"
      using r n by (auto simp: ref_ok_def)
    moreover obtain c3 where c3: "scheduler s3 = Some c3" "sc_worker_count c3 = sc_worker_count c" "s3 = set_scheduler c3 ?s2" "sc_mode c3 = sc_mode c"
      using s3(3) c' n(1) by (auto simp: same_but_queues_def state_simps)
    moreover have "length (sc_worker_contexts c3) = unat (sc_worker_count c3)"
      using s3(2) c3(1) by (auto simp: sched_wf_def scheduler_def sched_ok_def)
    ultimately obtain w where w: "get_worker s3 (ref_worker r) = Some w"
      by (auto simp: get_worker_def arr_simps word_less_unat)
    have "action_pool s3 = Some ?ap1"
      using c3(3) ap2 by (simp add: state_simps)
    moreover have "st_node s3 = Some (n\<lparr>nd_scheduler := Some c3, nd_action_pool := Some ?ap1\<rparr>)"
      using c3(3) n(1) by (simp add: set_scheduler_def set_action_pool_def)
    ultimately show ?thesis
      using True sched s3(1,2,4,5) w oks2 c3(2,4)
      by (cases "tc_is_sleeping w = 0") (auto simp: state_simps)
  next
    case False
    have "ac_num_tasks a + 1 + - 1 = ac_num_tasks a" for a :: embb_mtapi_action
      by simp
    then have "upd_action ?i (\<lambda>a. a\<lparr>ac_num_tasks := snd (embb_atomic_fetch_and_add (ac_num_tasks a) (- 1))\<rparr>) ?s2 =
        Some (set_action_pool ap ?s2)"
      using upd_action_Some(1)[OF ap2, of ?i] i by (simp add: count_task_def embb_atomic_fetch_and_add_def)
    then have "embb_mtapi_scheduler_schedule_task t inst s = Some (False, set_action_pool ap ?s2)"
      using sched push_ref_full[OF wf2 r2, of t] False refs2 by simp
    moreover have "st_node (set_action_pool ap ?s2) = Some (n\<lparr>nd_scheduler := Some c', nd_action_pool := Some ap\<rparr>)"
      using n(1) by (simp add: set_scheduler_def set_action_pool_def)
    ultimately show ?thesis
      using False wf2 refs2 oks2 n(1) c'(1,3) by (auto simp: state_simps)
  qed
qed

lemma unrestricted_target:
  assumes "st_node s = Some n" "nd_scheduler n = Some c" "sched_ok n c"
    and "ta_priority (tk_attributes x) < na_max_priorities (nd_attributes n)"
    and "r = Public ((hndl_id (handle x) + inst) mod sc_worker_count c) (ta_priority (tk_attributes x))"
  shows "schedule_target n c x inst (nd_affinity_all n) r c" "ref_ok s r"
proof -
  show "schedule_target n c x inst (nd_affinity_all n) r c"
    using assms(5) by (simp add: schedule_target_def)
  have "0 < sc_worker_count c"
    using assms(3) by (simp add: sched_ok_def)
  then have "(hndl_id (handle x) + inst) mod sc_worker_count c < sc_worker_count c"
    by (simp add: word_less_unat unat_mod_distrib)
  then show "ref_ok s r"
    using assms(1,2,4,5) by (auto simp: ref_ok_def)
qed

section \<open>Properties\<close>

text \<open>
  Tasks without a restriction. If the affinity of a task comes out as all cores of the node, the task goes to the public queue of its priority of the
  worker that its index and the number of the instance select in turn, where every worker can take it. If this queue is full, the task is refused, and neither a queue nor
  the number of tasks of the action has changed.
\<close>

lemma schedule_task_unrestricted:
  assumes "st_node s = Some n" "nd_scheduler n = Some c" "sched_ok n c"
    and "get_task s t = Some x" "action_pool s = Some ap"
    and "embb_mtapi_pool_is_handle_valid ap (tk_action x) = Some True"
    and "schedule_affinity x (pl_storage ap ! unat (hndl_id (tk_action x))) s = Some (nd_affinity_all n)"
    and "ta_priority (tk_attributes x) < na_max_priorities (nd_attributes n)"
    and "r = Public ((hndl_id (handle x) + inst) mod sc_worker_count c) (ta_priority (tk_attributes x))"
  shows "\<exists>s'. embb_mtapi_scheduler_schedule_task t inst s = Some (ref_room s r, s') \<and> sched_wf s' \<and>
           (\<forall>r'. ref_tasks s' r' = (if r' = r \<and> ref_room s r then ref_tasks s r @ [t] else ref_tasks s r')) \<and>
           action_pool s' = Some (if ref_room s r then count_task (hndl_id (tk_action x)) 1 ap else ap)"
  using schedule_task_effect[OF assms(1-7) unrestricted_target[OF assms(1-3,8,9)]] by blast

text \<open>
  C23. Tasks with a restriction. If the affinity of a task leaves out some core of the node but allows at least one, scheduling the task returns, and the task goes to the private queue of a worker
  whose core the affinity allows, where no other worker can take it.
\<close>

theorem schedule_task_restricted:
  assumes "st_node s = Some n" "nd_scheduler n = Some c" "sched_ok n c"
    and "get_task s t = Some x" "action_pool s = Some ap"
    and "embb_mtapi_pool_is_handle_valid ap (tk_action x) = Some True"
    and "schedule_affinity x (pl_storage ap ! unat (hndl_id (tk_action x))) s = Some aff" "aff \<noteq> nd_affinity_all n"
    and "ta_priority (tk_attributes x) < na_max_priorities (nd_attributes n)"
    and "sc_worker_count c = na_num_cores (nd_attributes n)" "unat (sc_worker_count c) \<le> 64"
    and "k < unat (sc_worker_count c)" "bit aff k"
  shows "\<exists>j s'. j < sc_worker_count c \<and> bit aff (unat j) \<and>
           (let r = Private j (ta_priority (tk_attributes x)) in
            embb_mtapi_scheduler_schedule_task t inst s = Some (ref_room s r, s') \<and> sched_wf s' \<and>
            (\<forall>r'. ref_tasks s' r' = (if r' = r \<and> ref_room s r then ref_tasks s r @ [t] else ref_tasks s r')))"
proof -
  obtain j where j: "affinity_loop (Some (nd_attributes n)) aff (sc_worker_count c) (sc_affine_task_counter c) = Some j"
      "j < sc_worker_count c" "bit aff (unat j)"
    using affinity_loop_finds[OF _ assms(10)[symmetric] assms(12,13)] assms(10,11) by metis
  let ?r = "Private j (ta_priority (tk_attributes x))"
  have target: "schedule_target n c x inst aff ?r (c\<lparr>sc_affine_task_counter := sc_affine_task_counter c + 1\<rparr>)"
    using j(1) assms(8) by (simp add: schedule_target_def)
  have "ref_ok s ?r"
    using j(2) assms(1,2,9) by (auto simp: ref_ok_def)
  from schedule_task_effect[OF assms(1-7) target this] show ?thesis
    using j(2,3) unfolding Let_def by blast
qed


lemma example_action_valid:
  "embb_mtapi_pool_is_handle_valid (pool_of_1 example_action) \<lparr>hndl_tag = 0, hndl_id = 1\<rparr> = Some True"
  by (simp add: pool_valid_iff[OF example_pools_own(2)]) (simp add: pool_of_1_def example_action_def)

lemma example_room:
  "ref_room example_state (Public 1 1)" "ref_room example_state (Private 0 1)"
  by (simp_all add: ref_room_def get_public_def get_private_def get_worker_def example_scheduler_def example_worker_def
      arr_get_def example_queue_wf example_queue_limit)

lemma example_schedule:
  fixes x ap
  defines "x \<equiv> example_task \<lparr>hndl_tag = 0, hndl_id = 1\<rparr>" and "ap \<equiv> pool_of_1 example_action"
  shows "nd_scheduler example_node = Some example_scheduler" "get_task example_state 1 = Some x" "action_pool example_state = Some ap"
    and "embb_mtapi_pool_is_handle_valid ap (tk_action x) = Some True"
    and "schedule_affinity x (pl_storage ap ! unat (hndl_id (tk_action x))) example_state = Some (nd_affinity_all example_node)"
    and "ta_priority (tk_attributes x) < na_max_priorities (nd_attributes example_node)"
    and "Public 1 1 = Public ((hndl_id (handle x) + 0) mod sc_worker_count example_scheduler) (ta_priority (tk_attributes x))"
proof -
  have act: "tk_action x = \<lparr>hndl_tag = 0, hndl_id = 1\<rparr>" "pl_storage ap ! 1 = example_action \<lparr>hndl_tag = 0, hndl_id = 1\<rparr>"
    by (simp_all add: example_task_def pool_of_1_def x_def ap_def)
  have "schedule_affinity x (example_action \<lparr>hndl_tag = 0, hndl_id = 1\<rparr>) example_state = Some (nd_affinity_all example_node)"
    by (simp add: schedule_affinity_def pool_valid_iff[OF example_pools_own(4)])
       (simp add: example_task_def example_action_def example_node_def x_def)
  then show "schedule_affinity x (pl_storage ap ! unat (hndl_id (tk_action x))) example_state = Some (nd_affinity_all example_node)"
      "embb_mtapi_pool_is_handle_valid ap (tk_action x) = Some True"
    using act example_action_valid by (simp_all add: ap_def)
  show "nd_scheduler example_node = Some example_scheduler" "get_task example_state 1 = Some x" "action_pool example_state = Some ap"
      "ta_priority (tk_attributes x) < na_max_priorities (nd_attributes example_node)"
      "Public 1 1 = Public ((hndl_id (handle x) + 0) mod sc_worker_count example_scheduler) (ta_priority (tk_attributes x))"
    using example_task_ready(2)
    by (simp_all add: x_def ap_def) (simp_all add: example_node_def example_task_def example_attributes_def example_scheduler_def)
qed

theorem schedule_task_restricted_witness:
  "\<exists>s0 s'. put_task 1 (example_task \<lparr>hndl_tag = 0, hndl_id = 1\<rparr>\<lparr>tk_attributes := \<lparr>ta_is_detached = 0, ta_num_instances = 1,
       ta_priority = 1, ta_affinity = 1, ta_user_data = 0, ta_complete_func = 0\<rparr>\<rparr>) example_state = Some s0 \<and>
     embb_mtapi_scheduler_schedule_task 1 0 s0 = Some (True, s') \<and> ref_tasks s' (Private 0 1) = [1]"
proof -
  let ?x = "example_task \<lparr>hndl_tag = 0, hndl_id = 1\<rparr>\<lparr>tk_attributes := \<lparr>ta_is_detached = 0, ta_num_instances = 1,
       ta_priority = 1, ta_affinity = 1, ta_user_data = 0, ta_complete_func = 0\<rparr>\<rparr>" and ?ap = "pool_of_1 example_action"
  let ?p = "(pool_of_2 example_task)\<lparr>pl_storage := (pl_storage (pool_of_2 example_task))[1 := ?x]\<rparr>"
  let ?s0 = "set_task_pool ?p example_state" and ?n = "example_node\<lparr>nd_task_pool := Some ?p\<rparr>"
  have s0: "put_task 1 ?x example_state = Some ?s0"
    by (simp add: upd_task_Some) (simp add: pool_of_2_def put_task_def arr_set_def)
  have x: "get_task ?s0 1 = Some ?x"
    by (simp add: get_task_def state_simps) (simp add: pool_of_2_def arr_get_def)
  have n: "st_node ?s0 = Some ?n" "nd_scheduler ?n = Some example_scheduler" "sched_ok ?n example_scheduler"
    using example_sched_ok by (simp_all add: set_task_pool_def sched_ok_def example_node_def)
  have act: "tk_action ?x = \<lparr>hndl_tag = 0, hndl_id = 1\<rparr>" "pl_storage ?ap ! 1 = example_action \<lparr>hndl_tag = 0, hndl_id = 1\<rparr>"
    by (simp_all add: example_task_def pool_of_1_def)
  have aff: "schedule_affinity ?x (example_action \<lparr>hndl_tag = 0, hndl_id = 1\<rparr>) ?s0 = Some 1"
    by (simp add: schedule_affinity_def state_simps pool_valid_iff[OF example_pools_own(4)])
       (simp add: example_task_def example_action_def example_node_def set_task_pool_def example_state_def)
  have "1 \<noteq> nd_affinity_all ?n" "ta_priority (tk_attributes ?x) < na_max_priorities (nd_attributes ?n)"
      "sc_worker_count example_scheduler = na_num_cores (nd_attributes ?n)" "unat (sc_worker_count example_scheduler) \<le> 64"
      "0 < unat (sc_worker_count example_scheduler)" "bit (1 :: u64) 0"
    by (simp_all add: example_node_def example_attributes_def example_scheduler_def)
  note restr = schedule_task_restricted[OF n x _ _ _ this, of ?ap 0]
  obtain j s' where j: "j < sc_worker_count example_scheduler" "bit (1 :: u64) (unat j)"
      "embb_mtapi_scheduler_schedule_task 1 0 ?s0 = Some (ref_room ?s0 (Private j 1), s')"
      "ref_tasks s' (Private j 1) = (if ref_room ?s0 (Private j 1) then ref_tasks ?s0 (Private j 1) @ [1] else ref_tasks ?s0 (Private j 1))"
    using restr act aff example_action_valid by (auto simp: state_simps Let_def)
  have "j = 0"
    using j(2) by (simp add: bit_1_iff unat_eq_0)
  moreover have "ref_room ?s0 r = ref_room example_state r" "ref_tasks ?s0 r = ref_tasks example_state r" for r
    by (cases r; simp add: ref_room_def ref_tasks_def get_public_def get_private_def get_worker_def state_simps)+
  ultimately show ?thesis
    using s0 j(3,4) example_room(2) by (auto simp: example_refs_empty)
qed

text \<open>
  C36. The search for an allowed core ends exactly when the affinity allows one of the cores of the node. An affinity that is not 0 but names only
  cores the node does not have makes the scheduler search forever.
\<close>

theorem affinity_search_ends_iff:
  assumes "unat (na_num_cores n) \<le> 64" "na_num_cores n = wc"
  shows "(\<exists>j. affinity_loop (Some n) aff wc ii = Some j) \<longleftrightarrow> (\<exists>k < unat wc. bit aff k)"
proof
  assume "\<exists>j. affinity_loop (Some n) aff wc ii = Some j"
  then obtain j where "j < na_num_cores n" "bit aff (unat j)"
    using affinity_loop_sound[OF assms(1)] by blast
  then show "\<exists>k < unat wc. bit aff k"
    using assms(2) by (auto simp: word_less_unat)
next
  assume "\<exists>k < unat wc. bit aff k"
  then show "\<exists>j. affinity_loop (Some n) aff wc ii = Some j"
    using affinity_loop_finds[OF assms] by blast
qed

theorem affinity_search_ends_iff_witness:
  "affinity_loop (Some example_attributes) 256 2 0 = None"
proof -
  have "\<not> bit (256 :: u64) k" if "k < unat (2 :: u32)" for k
    using that by (auto simp: less_2_cases_iff)
  then show ?thesis
    using affinity_search_ends_iff[of example_attributes 2 256 0]
    by (cases "affinity_loop (Some example_attributes) 256 2 0") (auto simp: example_attributes_def)
qed

text \<open>
  C22. Scheduled tasks are found. After a task without a restriction was scheduled successfully, the search of every worker, highest priority first, returns a
  task, and this task has at least the priority of the scheduled one.
\<close>

theorem scheduled_task_is_found:
  assumes "st_node s = Some n" "nd_scheduler n = Some c" "sched_ok n c"
    and "get_task s t = Some x" "action_pool s = Some ap"
    and "embb_mtapi_pool_is_handle_valid ap (tk_action x) = Some True"
    and "schedule_affinity x (pl_storage ap ! unat (hndl_id (tk_action x))) s = Some (nd_affinity_all n)"
    and "ta_priority (tk_attributes x) < na_max_priorities (nd_attributes n)"
    and "embb_mtapi_scheduler_schedule_task t inst s = Some (True, s')"
    and "st_node s' = Some n'" "nd_scheduler n' = Some c'" "w < sc_worker_count c'"
  shows "\<exists>t' s'' r. embb_mtapi_scheduler_get_next_task_vhpf w s' = Some (Some t', s'') \<and>
           accessible s' w r \<and> ref_tasks s' r = t' # ref_tasks s'' r \<and> ref_prio r \<le> ta_priority (tk_attributes x)"
proof -
  define r where "r = Public ((hndl_id (handle x) + inst) mod sc_worker_count c) (ta_priority (tk_attributes x))"
  note target = unrestricted_target[OF assms(1-3,8) r_def]
  have s': "sched_wf s'" "ref_tasks s' r = ref_tasks s r @ [t]" "ref_ok s' r"
    using schedule_task_effect[OF assms(1-7) target] assms(9) target(2) by auto
  have ok: "sched_ok n' c'"
    using s'(1) assms(10,11) by (auto simp: sched_wf_def)
  have acc: "accessible s' w r"
    using s'(3) by (simp add: accessible_def r_def)
  note search = search_result_least[OF s'(1) vhpf_order_all(1)[OF assms(10-12)] vhpf_order_sorted[OF assms(12)],
      folded next_task_vhpf_result[OF assms(10,11) ok assms(12)]]
  then obtain t' s'' where found: "embb_mtapi_scheduler_get_next_task_vhpf w s' = Some (Some t', s'')"
    using acc s'(2) by (auto simp: least_rank_search_def split: option.splits)
  then obtain r' where r': "accessible s' w r'" "ref_tasks s' r' = t' # ref_tasks s'' r'"
      "\<forall>q. accessible s' w q \<and> vhpf_rank q < vhpf_rank r' \<longrightarrow> ref_tasks s' q = []"
    using search by (auto simp: least_rank_search_def)
  have "\<not> vhpf_rank r < vhpf_rank r'"
    using r'(3) acc s'(2) by auto
  then have "ref_prio r' \<le> ta_priority (tk_attributes x)"
    by (simp add: vhpf_rank_def r_def word_le_unat)
  then show ?thesis
    using found r'(1,2) by blast
qed

theorem scheduled_task_is_found_witness:
  "\<exists>s' t s''. embb_mtapi_scheduler_schedule_task 1 0 example_state = Some (True, s') \<and>
     embb_mtapi_scheduler_get_next_task_vhpf 0 s' = Some (Some t, s'')"
proof -
  have ok: "ref_ok example_state (Public 1 1)"
    by (simp add: ref_ok_def example_schedule(1)) (simp add: example_node_def example_scheduler_def example_attributes_def)
  have target: "schedule_target example_node example_scheduler (example_task \<lparr>hndl_tag = 0, hndl_id = 1\<rparr>) 0
      (nd_affinity_all example_node) (Public 1 1) example_scheduler"
    using example_schedule(7) by (simp add: schedule_target_def)
  obtain s' where s': "embb_mtapi_scheduler_schedule_task 1 0 example_state = Some (True, s')" "sched_wf s'"
    using schedule_task_effect[OF example_pools(6) example_schedule(1) example_sched_ok example_schedule(2-5) target ok] example_room(1)
    by auto
  obtain n' c' where n': "st_node s' = Some n'" "nd_scheduler n' = Some c'" "0 < sc_worker_count c'"
    using s'(2) by (auto simp: sched_wf_def sched_ok_def)
  show ?thesis
    using scheduled_task_is_found[OF example_pools(6) example_schedule(1) example_sched_ok example_schedule(2-6) s'(1) n'] s'(1) by blast
qed

end
