(* ===== verification/Task_Api.thy ===== *)
theory Task_Api
  imports Scheduler_Search
begin

text \<open>
  The interface functions on tasks (\<^verbatim>\<open>mtapi_c/src/embb_mtapi_task_t.c\<close>): starting a task directly or through a queue, reading an attribute,
  waiting for a task and cancelling it. Every function returns its status with the new state.
\<close>

section \<open>Starting a task\<close>

text \<open>The arguments of \<^verbatim>\<open>embb_mtapi_task_start\<close>; the attributes may be \<^verbatim>\<open>MTAPI_NULL\<close>.\<close>

record task_start_args =
  sa_task_id :: u32
  sa_job :: mtapi_hndl
  sa_arguments :: u64
  sa_arguments_size :: u32
  sa_result_buffer :: u64
  sa_result_size :: u32
  sa_attributes :: "mtapi_task_attributes option"
  sa_group :: mtapi_hndl
  sa_queue :: mtapi_hndl

text \<open>The fresh task, up to its attributes and the number of instances.\<close>

definition task_start_init :: "task_start_args \<Rightarrow> u32 \<Rightarrow> mtapi_state \<Rightarrow> mtapi_state option" where
  "task_start_init args task s =
     do { s \<leftarrow> upd_task task embb_mtapi_task_initialize s;
          s \<leftarrow> embb_mtapi_task_set_state task MTAPI_TASK_PRENATAL s;
          x \<leftarrow> get_task s task;
          attributes \<leftarrow>
            (case sa_attributes args of
               Some a \<Rightarrow> Some a
             | None \<Rightarrow> do { (_, a) \<leftarrow> mtapi_taskattr_init (node_attr s) (Some (tk_attributes x)); a });
          put_task task (x\<lparr>tk_task_id := sa_task_id args, tk_job := sa_job args, tk_arguments := sa_arguments args,
            tk_arguments_size := sa_arguments_size args, tk_result_buffer := sa_result_buffer args,
            tk_result_size := sa_result_size args, tk_attributes := attributes,
            tk_instances_todo := ta_num_instances attributes\<rparr>) s }"

definition embb_mtapi_queue_task_started :: "embb_mtapi_queue \<Rightarrow> embb_mtapi_queue" where
  "embb_mtapi_queue_task_started that =
     that\<lparr>qu_num_tasks := snd (embb_atomic_fetch_and_add (qu_num_tasks that) 1)\<rparr>"

definition task_start_group :: "mtapi_hndl \<Rightarrow> u32 \<Rightarrow> mtapi_state \<Rightarrow> mtapi_state option" where
  "task_start_group grp task s =
     do { gp \<leftarrow> group_pool s;
          valid \<leftarrow> embb_mtapi_pool_is_handle_valid gp grp;
          if valid then
            do { s \<leftarrow> upd_task task (\<lambda>x. x\<lparr>tk_group := grp\<rparr>) s;
                 upd_group (embb_mtapi_pool_get_storage_for_handle gp grp)
                   (\<lambda>g. g\<lparr>gr_num_tasks := snd (embb_atomic_fetch_and_add (gr_num_tasks g) 1)\<rparr>) s }
          else upd_task task (\<lambda>x. x\<lparr>tk_group := (tk_group x)\<lparr>hndl_id := EMBB_MTAPI_IDPOOL_INVALID_ID\<rparr>\<rparr>) s }"

definition task_start_queue :: "mtapi_hndl \<Rightarrow> u32 \<Rightarrow> mtapi_state \<Rightarrow> mtapi_state option" where
  "task_start_queue queue task s =
     do { qp \<leftarrow> queue_pool s;
          valid \<leftarrow> embb_mtapi_pool_is_handle_valid qp queue;
          if valid then
            do { s \<leftarrow> upd_task task (\<lambda>x. x\<lparr>tk_queue := queue\<rparr>) s;
                 upd_queue (embb_mtapi_pool_get_storage_for_handle qp queue) embb_mtapi_queue_task_started s }
          else upd_task task (\<lambda>x. x\<lparr>tk_queue := (tk_queue x)\<lparr>hndl_id := EMBB_MTAPI_IDPOOL_INVALID_ID\<rparr>\<rparr>) s }"

text \<open>Load balancing: the index of the action with the fewest tasks. Counters are signed.\<close>

definition task_choose_action :: "embb_mtapi_job \<Rightarrow> mtapi_state \<Rightarrow> u32 option" where
  "task_choose_action local_job s =
     do { ap \<leftarrow> action_pool s;
          for_less (\<lambda>ii action_index.
              do { h \<leftarrow> arr_get (jb_actions local_job) ii;
                   valid \<leftarrow> embb_mtapi_pool_is_handle_valid ap h;
                   if valid then
                     do { m \<leftarrow> arr_get (jb_actions local_job) action_index;
                          act_m \<leftarrow> get_action s (embb_mtapi_pool_get_storage_for_handle ap m);
                          act_i \<leftarrow> get_action s (embb_mtapi_pool_get_storage_for_handle ap h);
                          Some (if ac_num_tasks act_i <s ac_num_tasks act_m then ii else action_index) }
                   else Some action_index })
            0 (jb_num_actions local_job) 0 }"

definition task_schedule_instances :: "u32 \<Rightarrow> u32 \<Rightarrow> mtapi_state \<Rightarrow> (bool \<times> mtapi_state) option" where
  "task_schedule_instances task num_instances s =
     for_less (\<lambda>kk (was_scheduled, s).
         do { (ok, s) \<leftarrow> embb_mtapi_scheduler_schedule_task task kk s; Some (was_scheduled \<and> ok, s) })
       0 num_instances (True, s)"

text \<open>Handing the task to the plugin of its action, or all of its instances to the scheduler.\<close>

definition task_start_schedule ::
    "mtapi_env \<Rightarrow> u32 \<Rightarrow> mtapi_hndl \<Rightarrow> mtapi_state \<Rightarrow> (mtapi_status \<times> mtapi_hndl \<times> mtapi_state) option" where
  "task_start_schedule env task task_hndl s =
     do { x \<leftarrow> get_task s task;
          ap \<leftarrow> action_pool s;
          local_action \<leftarrow> get_action s (embb_mtapi_pool_get_storage_for_handle ap (tk_action x));
          s \<leftarrow> embb_mtapi_task_set_state task MTAPI_TASK_SCHEDULED s;
          (was_scheduled, s) \<leftarrow>
            (if ac_is_plugin_action local_action \<noteq> 0 then
               do { (plugin_status, s) \<leftarrow> env_plugin_start env (ac_plugin_task_start_function local_action)
                      task_hndl MTAPI_ERR_UNKNOWN s;
                    Some (plugin_status = MTAPI_SUCCESS, s) }
             else task_schedule_instances task (ta_num_instances (tk_attributes x)) s);
          if was_scheduled then
            do { x \<leftarrow> get_task s task;
                 Some (MTAPI_SUCCESS,
                   if ta_is_detached (tk_attributes x) \<noteq> 0 then task_hndl\<lparr>hndl_id := EMBB_MTAPI_IDPOOL_INVALID_ID\<rparr>
                   else task_hndl, s) }
          else
            do { s \<leftarrow> embb_mtapi_task_set_state task MTAPI_TASK_ERROR s;
                 Some (MTAPI_ERR_TASK_LIMIT, task_hndl, s) } }"

text \<open>What happens to the task that was allocated: the action is chosen, the priority checked, the task scheduled.\<close>

definition task_start_allocated ::
    "mtapi_env \<Rightarrow> task_start_args \<Rightarrow> u32 \<Rightarrow> mtapi_state \<Rightarrow> (mtapi_status \<times> mtapi_hndl \<times> mtapi_state) option" where
  "task_start_allocated env args task s =
     do { s \<leftarrow> task_start_init args task s;
          s \<leftarrow> task_start_group (sa_group args) task s;
          s \<leftarrow> task_start_queue (sa_queue args) task s;
          local_job \<leftarrow> get_job s (hndl_id (sa_job args));
          action_index \<leftarrow> task_choose_action local_job s;
          ap \<leftarrow> action_pool s;
          h \<leftarrow> arr_get (jb_actions local_job) action_index;
          valid \<leftarrow> embb_mtapi_pool_is_handle_valid ap h;
          (local_status, task_hndl, s) \<leftarrow>
            (if valid then
               do { s \<leftarrow> upd_task task (\<lambda>x. x\<lparr>tk_action := h\<rparr>) s;
                    s \<leftarrow> embb_mtapi_task_set_state task MTAPI_TASK_CREATED s;
                    x \<leftarrow> get_task s task;
                    Some (MTAPI_SUCCESS, handle x, s) }
             else Some (MTAPI_ERR_ACTION_INVALID, MTAPI_HNDL_NONE, s));
          x \<leftarrow> get_task s task;
          node \<leftarrow> st_node s;
          let local_status = (if na_max_priorities (nd_attributes node) \<le> ta_priority (tk_attributes x)
                              then MTAPI_ERR_PARAMETER else local_status);
          (local_status, task_hndl, s) \<leftarrow>
            (if local_status = MTAPI_SUCCESS then task_start_schedule env task task_hndl s
             else Some (local_status, task_hndl, s));
          if local_status \<noteq> MTAPI_SUCCESS then
            do { s \<leftarrow> embb_mtapi_task_delete task s;
                 Some (local_status, task_hndl\<lparr>hndl_id := EMBB_MTAPI_IDPOOL_INVALID_ID\<rparr>, s) }
          else Some (local_status, task_hndl, s) }"

definition embb_mtapi_task_start ::
    "mtapi_env \<Rightarrow> task_start_args \<Rightarrow> mtapi_state \<Rightarrow> (mtapi_status \<times> mtapi_hndl \<times> mtapi_state) option" where
  "embb_mtapi_task_start env args s =
     (case st_node s of
        None \<Rightarrow> Some (MTAPI_ERR_NODE_NOTINIT, MTAPI_HNDL_NONE, s)
      | Some node \<Rightarrow>
          do { valid \<leftarrow> embb_mtapi_job_is_handle_valid node (sa_job args);
               if valid then
                 do { tp \<leftarrow> task_pool s;
                      (task, tp) \<leftarrow> embb_mtapi_pool_allocate tp;
                      let s = set_task_pool tp s;
                      (case task of
                         Some t \<Rightarrow> task_start_allocated env args t s
                       | None \<Rightarrow> Some (MTAPI_ERR_TASK_LIMIT, MTAPI_HNDL_NONE, s)) }
               else Some (MTAPI_ERR_JOB_INVALID, MTAPI_HNDL_NONE, s) })"

definition mtapi_task_start ::
    "mtapi_env \<Rightarrow> u32 \<Rightarrow> mtapi_hndl \<Rightarrow> u64 \<Rightarrow> u32 \<Rightarrow> u64 \<Rightarrow> u32 \<Rightarrow> mtapi_task_attributes option \<Rightarrow> mtapi_hndl \<Rightarrow>
     mtapi_state \<Rightarrow> (mtapi_status \<times> mtapi_hndl \<times> mtapi_state) option" where
  "mtapi_task_start env task_id job arguments arguments_size result_buffer result_size attributes grp s =
     embb_mtapi_task_start env
       \<lparr>sa_task_id = task_id, sa_job = job, sa_arguments = arguments, sa_arguments_size = arguments_size,
        sa_result_buffer = result_buffer, sa_result_size = result_size, sa_attributes = attributes,
        sa_group = grp, sa_queue = MTAPI_HNDL_NONE\<rparr> s"

text \<open>\<open>garbage\<close> is what the local attribute structure holds before it is initialized.\<close>

definition mtapi_task_enqueue ::
    "mtapi_env \<Rightarrow> mtapi_task_attributes \<Rightarrow> u32 \<Rightarrow> mtapi_hndl \<Rightarrow> u64 \<Rightarrow> u32 \<Rightarrow> u64 \<Rightarrow> u32 \<Rightarrow>
     mtapi_task_attributes option \<Rightarrow> mtapi_hndl \<Rightarrow> mtapi_state \<Rightarrow> (mtapi_status \<times> mtapi_hndl \<times> mtapi_state) option" where
  "mtapi_task_enqueue env garbage task_id queue arguments arguments_size result_buffer result_size attributes grp s =
     (case st_node s of
        None \<Rightarrow> Some (MTAPI_ERR_NODE_NOTINIT, MTAPI_HNDL_NONE, s)
      | Some node \<Rightarrow>
          do { qp \<leftarrow> queue_pool s;
               valid \<leftarrow> embb_mtapi_pool_is_handle_valid qp queue;
               if valid then
                 do { local_queue \<leftarrow> get_queue s (embb_mtapi_pool_get_storage_for_handle qp queue);
                      if qu_enabled local_queue = MTAPI_TRUE \<or> qa_retain (qu_attributes local_queue) \<noteq> 0 then
                        do { local_attributes \<leftarrow>
                               (case attributes of
                                  Some a \<Rightarrow> Some a
                                | None \<Rightarrow> do { (_, a) \<leftarrow> mtapi_taskattr_init (node_attr s) (Some garbage); a });
                             embb_mtapi_task_start env
                               \<lparr>sa_task_id = task_id, sa_job = qu_job_handle local_queue, sa_arguments = arguments,
                                sa_arguments_size = arguments_size, sa_result_buffer = result_buffer,
                                sa_result_size = result_size,
                                sa_attributes = Some (local_attributes\<lparr>ta_priority := qa_priority (qu_attributes local_queue)\<rparr>),
                                sa_group = grp, sa_queue = queue\<rparr> s }
                      else Some (MTAPI_ERR_QUEUE_DISABLED, MTAPI_HNDL_NONE, s) }
               else Some (MTAPI_ERR_QUEUE_INVALID, MTAPI_HNDL_NONE, s) })"

section \<open>Attributes\<close>

text \<open>The attribute goes to the memory at \<open>attribute\<close>.\<close>

definition attr_get_state :: "'a::len word \<Rightarrow> u64 \<Rightarrow> u32 \<Rightarrow> mtapi_state \<Rightarrow> mtapi_status \<times> mtapi_state" where
  "attr_get_state source attribute attribute_size s =
     (case embb_mtapi_attr_get (st_memory s) source attribute attribute_size of (st, m) \<Rightarrow> (st, s\<lparr>st_memory := m\<rparr>))"

definition mtapi_task_get_attribute ::
    "mtapi_hndl \<Rightarrow> u32 \<Rightarrow> u64 \<Rightarrow> u32 \<Rightarrow> mtapi_state \<Rightarrow> (mtapi_status \<times> mtapi_state) option" where
  "mtapi_task_get_attribute task attribute_num attribute attribute_size s =
     (case st_node s of
        None \<Rightarrow> Some (MTAPI_ERR_NODE_NOTINIT, s)
      | Some node \<Rightarrow>
          do { tp \<leftarrow> task_pool s;
               valid \<leftarrow> embb_mtapi_pool_is_handle_valid tp task;
               if valid then
                 do { x \<leftarrow> get_task s (embb_mtapi_pool_get_storage_for_handle tp task);
                      Some (if attribute = 0 then (MTAPI_ERR_PARAMETER, s)
                        else if attribute_num = MTAPI_TASK_DETACHED then
                          attr_get_state (ta_is_detached (tk_attributes x)) attribute attribute_size s
                        else if attribute_num = MTAPI_TASK_INSTANCES then
                          attr_get_state (ta_num_instances (tk_attributes x)) attribute attribute_size s
                        else if attribute_num = MTAPI_TASK_PRIORITY then
                          attr_get_state (ta_priority (tk_attributes x)) attribute attribute_size s
                        else (MTAPI_ERR_ATTR_NUM, s)) }
               else Some (MTAPI_ERR_QUEUE_INVALID, s) })"

section \<open>Waiting and cancelling\<close>

definition mtapi_task_wait ::
    "mtapi_env \<Rightarrow> embb_duration \<Rightarrow> embb_time \<Rightarrow> u32 \<Rightarrow> mtapi_hndl \<Rightarrow> int \<Rightarrow> mtapi_state \<Rightarrow>
     (mtapi_status \<times> mtapi_state) option" where
  "mtapi_task_wait env dur0 end0 thread task timeout s =
     (case st_node s of
        None \<Rightarrow> Some (MTAPI_ERR_NODE_NOTINIT, s)
      | Some node \<Rightarrow>
          do { tp \<leftarrow> task_pool s;
               valid \<leftarrow> embb_mtapi_pool_is_handle_valid tp task;
               if valid then
                 do { let local_task = embb_mtapi_pool_get_storage_for_handle tp task;
                      (finished, s) \<leftarrow> embb_mtapi_scheduler_wait_for_task env dur0 end0 thread local_task timeout s;
                      if finished then
                        do { x \<leftarrow> get_task s local_task;
                             gp \<leftarrow> group_pool s;
                             in_group \<leftarrow> embb_mtapi_pool_is_handle_valid gp (tk_group x);
                             s \<leftarrow> (if \<not> in_group then embb_mtapi_task_delete local_task s else Some s);
                             Some (tk_error_code x, s) }
                      else Some (MTAPI_TIMEOUT, s) }
               else Some (MTAPI_ERR_TASK_INVALID, s) })"

definition mtapi_task_cancel :: "mtapi_env \<Rightarrow> mtapi_hndl \<Rightarrow> mtapi_state \<Rightarrow> (mtapi_status \<times> mtapi_state) option" where
  "mtapi_task_cancel env task s =
     (case st_node s of
        None \<Rightarrow> Some (MTAPI_ERR_NODE_NOTINIT, s)
      | Some node \<Rightarrow>
          do { tp \<leftarrow> task_pool s;
               valid \<leftarrow> embb_mtapi_pool_is_handle_valid tp task;
               if valid then
                 do { let local_task = embb_mtapi_pool_get_storage_for_handle tp task;
                      s \<leftarrow> embb_mtapi_task_set_state local_task MTAPI_TASK_CANCELLED s;
                      x \<leftarrow> get_task s local_task;
                      ap \<leftarrow> action_pool s;
                      action_valid \<leftarrow> embb_mtapi_pool_is_handle_valid ap (tk_action x);
                      if action_valid then
                        do { a \<leftarrow> get_action s (embb_mtapi_pool_get_storage_for_handle ap (tk_action x));
                             if ac_is_plugin_action a \<noteq> 0 then
                               env_plugin_cancel env (ac_plugin_task_cancel_function a) task MTAPI_ERR_UNKNOWN s
                             else Some (MTAPI_ERR_UNKNOWN, s) }
                      else Some (MTAPI_SUCCESS, s) }
               else Some (MTAPI_ERR_TASK_INVALID, s) })"

end
