(* ===== verification/Action_Api.thy ===== *)
theory Action_Api
  imports Task_Api
begin

text \<open>
  Actions (\<^verbatim>\<open>mtapi_c/src/embb_mtapi_action_t.c\<close>) and plugin actions (\<^verbatim>\<open>mtapi_c/src/embb_mtapi_action_plugin_t.c\<close>). Finalizing a plugin
  action calls the plugin; the call is returned to the pool, which passes it on.
\<close>

definition embb_mtapi_action_initialize :: "embb_mtapi_action \<Rightarrow> embb_mtapi_action" where
  "embb_mtapi_action_initialize that =
     that\<lparr>ac_action_function := 0, ac_job_id := 0, ac_domain_id := 0, ac_node_id := 0, ac_enabled := MTAPI_FALSE,
       ac_node_local_data := 0, ac_node_local_data_size := 0, ac_plugin_data := 0, ac_num_tasks := 0\<rparr>"

definition embb_mtapi_action_finalize :: "embb_mtapi_action \<Rightarrow> embb_mtapi_action \<times> mtapi_call list" where
  "embb_mtapi_action_finalize that =
     (embb_mtapi_action_initialize that,
      if ac_is_plugin_action that \<noteq> 0 then [Plugin_Finalize (ac_plugin_action_finalize_function that) (handle that)]
      else [])"

definition action_pool_deallocate :: "u32 \<Rightarrow> mtapi_state \<Rightarrow> mtapi_state option" where
  "action_pool_deallocate i s =
     do { ap \<leftarrow> action_pool s;
          (ap, calls) \<leftarrow> embb_mtapi_pool_deallocate embb_mtapi_action_finalize ap i;
          Some (fold add_call calls (set_action_pool ap s)) }"

definition embb_mtapi_action_delete_visitor :: "mtapi_hndl \<Rightarrow> task_visitor" where
  "embb_mtapi_action_delete_visitor action task s =
     do { t \<leftarrow> task;
          x \<leftarrow> get_task s t;
          if hndl_id (tk_action x) = hndl_id action \<and> hndl_tag (tk_action x) = hndl_tag action then
            do { s \<leftarrow> embb_mtapi_task_set_state t MTAPI_TASK_CANCELLED s;
                 s \<leftarrow> upd_task t (\<lambda>x. x\<lparr>tk_error_code := MTAPI_ERR_ACTION_DELETED\<rparr>) s;
                 Some (True, s) }
          else Some (False, s) }"

definition embb_mtapi_action_disable_visitor :: "mtapi_hndl \<Rightarrow> task_visitor" where
  "embb_mtapi_action_disable_visitor action task s =
     do { t \<leftarrow> task;
          x \<leftarrow> get_task s t;
          if hndl_id (tk_action x) = hndl_id action \<and> hndl_tag (tk_action x) = hndl_tag action then
            do { s \<leftarrow> embb_mtapi_task_set_state t MTAPI_TASK_CANCELLED s;
                 s \<leftarrow> upd_task t (\<lambda>x. x\<lparr>tk_error_code := MTAPI_ERR_ACTION_DISABLED\<rparr>) s;
                 Some (True, s) }
          else Some (False, s) }"

section \<open>Creation\<close>

text \<open>
  The part \<^verbatim>\<open>mtapi_action_create\<close> and \<^verbatim>\<open>mtapi_ext_plugin_action_create\<close> have in common; \<open>fill\<close> sets the fields in which
  they differ.
\<close>

definition action_create_with ::
    "(embb_mtapi_action \<Rightarrow> embb_mtapi_action) \<Rightarrow> u32 \<Rightarrow> u64 \<Rightarrow> u32 \<Rightarrow> mtapi_action_attributes option \<Rightarrow>
     mtapi_state \<Rightarrow> (mtapi_status \<times> mtapi_hndl \<times> mtapi_state) option" where
  "action_create_with fill job_id node_local_data node_local_data_size attributes s =
     (case st_node s of
        None \<Rightarrow> Some (MTAPI_ERR_NODE_NOTINIT, MTAPI_HNDL_NONE, s)
      | Some node \<Rightarrow>
          if embb_mtapi_job_is_id_valid node job_id then
            do { ap \<leftarrow> action_pool s;
                 (new_action, ap) \<leftarrow> embb_mtapi_pool_allocate ap;
                 let s = set_action_pool ap s;
                 (case new_action of
                    None \<Rightarrow> Some (MTAPI_ERR_ACTION_LIMIT, MTAPI_HNDL_NONE, s)
                  | Some i \<Rightarrow>
                      do { a \<leftarrow> get_action s i;
                           let a = fill (a\<lparr>ac_domain_id := nd_domain_id node, ac_node_id := nd_node_id node,
                             ac_job_id := job_id, ac_node_local_data := node_local_data,
                             ac_node_local_data_size := node_local_data_size, ac_enabled := MTAPI_TRUE,
                             ac_num_tasks := 0\<rparr>);
                           (local_status, attr) \<leftarrow>
                             (case attributes of
                                Some b \<Rightarrow> Some (MTAPI_SUCCESS, Some b)
                              | None \<Rightarrow> mtapi_actionattr_init (node_attr s) (Some (ac_attributes a)));
                           attr \<leftarrow> attr;
                           let a = a\<lparr>ac_attributes := attr\<rparr>;
                           s \<leftarrow> put_action i a s;
                           let local_status = (if aa_affinity (ac_attributes a) = 0 then MTAPI_ERR_PARAMETER else local_status);
                           if local_status = MTAPI_SUCCESS then
                             do { job \<leftarrow> get_job s (embb_mtapi_job_get_storage_for_id node job_id);
                                  (_, job) \<leftarrow> embb_mtapi_job_add_action job a;
                                  s \<leftarrow> put_job (embb_mtapi_job_get_storage_for_id node job_id) job s;
                                  Some (local_status, handle a, s) }
                           else
                             do { s \<leftarrow> action_pool_deallocate i s;
                                  Some (local_status, MTAPI_HNDL_NONE, s) } }) }
          else Some (MTAPI_ERR_JOB_INVALID, MTAPI_HNDL_NONE, s))"

definition mtapi_action_create ::
    "u32 \<Rightarrow> u64 \<Rightarrow> u64 \<Rightarrow> u32 \<Rightarrow> mtapi_action_attributes option \<Rightarrow> mtapi_state \<Rightarrow>
     (mtapi_status \<times> mtapi_hndl \<times> mtapi_state) option" where
  "mtapi_action_create job_id action_function node_local_data node_local_data_size attributes s =
     action_create_with (\<lambda>a. a\<lparr>ac_is_plugin_action := MTAPI_FALSE, ac_action_function := action_function\<rparr>)
       job_id node_local_data node_local_data_size attributes s"

definition mtapi_ext_plugin_action_create ::
    "u32 \<Rightarrow> u64 \<Rightarrow> u64 \<Rightarrow> u64 \<Rightarrow> u64 \<Rightarrow> u64 \<Rightarrow> u32 \<Rightarrow> mtapi_action_attributes option \<Rightarrow> mtapi_state \<Rightarrow>
     (mtapi_status \<times> mtapi_hndl \<times> mtapi_state) option" where
  "mtapi_ext_plugin_action_create job_id task_start_function task_cancel_function action_finalize_function
     plugin_data node_local_data node_local_data_size attributes s =
     action_create_with (\<lambda>a. a\<lparr>ac_is_plugin_action := MTAPI_TRUE,
         ac_plugin_task_start_function := task_start_function,
         ac_plugin_task_cancel_function := task_cancel_function,
         ac_plugin_action_finalize_function := action_finalize_function, ac_plugin_data := plugin_data\<rparr>)
       job_id node_local_data node_local_data_size attributes s"

section \<open>Attributes\<close>

definition mtapi_action_set_attribute ::
    "mtapi_hndl \<Rightarrow> u32 \<Rightarrow> u64 \<Rightarrow> u32 \<Rightarrow> mtapi_state \<Rightarrow> (mtapi_status \<times> mtapi_state) option" where
  "mtapi_action_set_attribute action attribute_num attribute attribute_size s =
     (case st_node s of
        None \<Rightarrow> Some (MTAPI_ERR_NODE_NOTINIT, s)
      | Some node \<Rightarrow>
          do { ap \<leftarrow> action_pool s;
               valid \<leftarrow> embb_mtapi_pool_is_handle_valid ap action;
               if valid then
                 do { let i = embb_mtapi_pool_get_storage_for_handle ap action;
                      a \<leftarrow> get_action s i;
                      let (local_status, attr) = mtapi_actionattr_set (st_memory s) (Some (ac_attributes a))
                            attribute_num attribute attribute_size;
                      attr \<leftarrow> attr;
                      s \<leftarrow> put_action i (a\<lparr>ac_attributes := attr\<rparr>) s;
                      Some (local_status, s) }
               else Some (MTAPI_ERR_ACTION_INVALID, s) })"

definition mtapi_action_get_attribute ::
    "mtapi_hndl \<Rightarrow> u32 \<Rightarrow> u64 \<Rightarrow> u32 \<Rightarrow> mtapi_state \<Rightarrow> (mtapi_status \<times> mtapi_state) option" where
  "mtapi_action_get_attribute action attribute_num attribute attribute_size s =
     (case st_node s of
        None \<Rightarrow> Some (MTAPI_ERR_NODE_NOTINIT, s)
      | Some node \<Rightarrow>
          do { ap \<leftarrow> action_pool s;
               valid \<leftarrow> embb_mtapi_pool_is_handle_valid ap action;
               if valid then
                 do { a \<leftarrow> get_action s (embb_mtapi_pool_get_storage_for_handle ap action);
                      Some (if attribute = 0 then (MTAPI_ERR_PARAMETER, s)
                        else if attribute_num = MTAPI_ACTION_GLOBAL then
                          attr_get_state (aa_global (ac_attributes a)) attribute attribute_size s
                        else if attribute_num = MTAPI_ACTION_AFFINITY then
                          attr_get_state (aa_affinity (ac_attributes a)) attribute attribute_size s
                        else if attribute_num = MTAPI_ACTION_DOMAIN_SHARED then
                          attr_get_state (aa_domain_shared (ac_attributes a)) attribute attribute_size s
                        else (MTAPI_ERR_ATTR_NUM, s)) }
               else Some (MTAPI_ERR_ACTION_INVALID, s) })"

section \<open>Deleting, disabling and enabling\<close>

definition action_has_tasks :: "u32 \<Rightarrow> mtapi_state \<Rightarrow> bool option" where
  "action_has_tasks i s = do { a \<leftarrow> get_action s i; Some (ac_num_tasks a \<noteq> 0) }"

definition mtapi_action_delete ::
    "mtapi_env \<Rightarrow> embb_duration \<Rightarrow> embb_time \<Rightarrow> u32 \<Rightarrow> mtapi_hndl \<Rightarrow> int \<Rightarrow> mtapi_state \<Rightarrow>
     (mtapi_status \<times> mtapi_state) option" where
  "mtapi_action_delete env dur0 end0 thread action timeout s =
     (case st_node s of
        None \<Rightarrow> Some (MTAPI_ERR_NODE_NOTINIT, s)
      | Some node \<Rightarrow>
          do { ap \<leftarrow> action_pool s;
               valid \<leftarrow> embb_mtapi_pool_is_handle_valid ap action;
               if valid then
                 do { let local_action = embb_mtapi_pool_get_storage_for_handle ap action;
                      a \<leftarrow> get_action s local_action;
                      end_time \<leftarrow> wait_end_time dur0 end0 timeout s;
                      (_, s) \<leftarrow> embb_mtapi_scheduler_process_tasks (embb_mtapi_action_delete_visitor (handle a)) s;
                      context \<leftarrow> embb_mtapi_scheduler_get_current_thread_context thread s;
                      (finished, s) \<leftarrow> wait_loop (action_has_tasks local_action) env context end_time timeout s;
                      a \<leftarrow> get_action s local_action;
                      node \<leftarrow> st_node s;
                      s \<leftarrow> (if embb_mtapi_job_is_id_valid node (ac_job_id a) then
                              do { job \<leftarrow> get_job s (embb_mtapi_job_get_storage_for_id node (ac_job_id a));
                                   job \<leftarrow> embb_mtapi_job_remove_action job (handle a);
                                   put_job (embb_mtapi_job_get_storage_for_id node (ac_job_id a)) job s }
                            else Some s);
                      s \<leftarrow> action_pool_deallocate local_action s;
                      Some (if finished then MTAPI_SUCCESS else MTAPI_TIMEOUT, s) }
               else Some (MTAPI_ERR_ACTION_INVALID, s) })"

definition mtapi_action_disable ::
    "mtapi_env \<Rightarrow> embb_duration \<Rightarrow> embb_time \<Rightarrow> u32 \<Rightarrow> mtapi_hndl \<Rightarrow> int \<Rightarrow> mtapi_state \<Rightarrow>
     (mtapi_status \<times> mtapi_state) option" where
  "mtapi_action_disable env dur0 end0 thread action timeout s =
     (case st_node s of
        None \<Rightarrow> Some (MTAPI_ERR_NODE_NOTINIT, s)
      | Some node \<Rightarrow>
          do { ap \<leftarrow> action_pool s;
               valid \<leftarrow> embb_mtapi_pool_is_handle_valid ap action;
               if valid then
                 do { let local_action = embb_mtapi_pool_get_storage_for_handle ap action;
                      s \<leftarrow> upd_action local_action (\<lambda>a. a\<lparr>ac_enabled := MTAPI_FALSE\<rparr>) s;
                      a \<leftarrow> get_action s local_action;
                      end_time \<leftarrow> wait_end_time dur0 end0 timeout s;
                      (_, s) \<leftarrow> embb_mtapi_scheduler_process_tasks (embb_mtapi_action_disable_visitor (handle a)) s;
                      context \<leftarrow> embb_mtapi_scheduler_get_current_thread_context thread s;
                      (finished, s) \<leftarrow> wait_loop (action_has_tasks local_action) env context end_time timeout s;
                      Some (if finished then MTAPI_SUCCESS else MTAPI_TIMEOUT, s) }
               else Some (MTAPI_ERR_ACTION_INVALID, s) })"

definition mtapi_action_enable :: "mtapi_hndl \<Rightarrow> mtapi_state \<Rightarrow> (mtapi_status \<times> mtapi_state) option" where
  "mtapi_action_enable action s =
     (case st_node s of
        None \<Rightarrow> Some (MTAPI_ERR_NODE_NOTINIT, s)
      | Some node \<Rightarrow>
          do { ap \<leftarrow> action_pool s;
               valid \<leftarrow> embb_mtapi_pool_is_handle_valid ap action;
               if valid then
                 do { s \<leftarrow> upd_action (embb_mtapi_pool_get_storage_for_handle ap action) (\<lambda>a. a\<lparr>ac_enabled := MTAPI_TRUE\<rparr>) s;
                      Some (MTAPI_SUCCESS, s) }
               else Some (MTAPI_ERR_ACTION_INVALID, s) })"

interpretation action_type: pool_type embb_mtapi_action_finalize
  by unfold_locales (simp add: embb_mtapi_action_finalize_def embb_mtapi_action_initialize_def)

end
