(* ===== verification/Group_Api.thy ===== *)
theory Group_Api
  imports Task_Api
begin

text \<open>
  Groups of tasks (\<^verbatim>\<open>mtapi_c/src/embb_mtapi_group_t.c\<close>). The last instance of a task in a group puts the task into the queue of the group;
  waiting for the group takes the tasks out again and deletes them.
\<close>

definition embb_mtapi_group_initialize :: "mtapi_node_attributes option \<Rightarrow> embb_mtapi_group \<Rightarrow> embb_mtapi_group" where
  "embb_mtapi_group_initialize node that =
     that\<lparr>gr_group_id := 0, gr_deleted := MTAPI_FALSE, gr_num_tasks := 0,
       gr_queue := embb_mtapi_task_queue_initialize node (gr_queue that)\<rparr>"

definition embb_mtapi_group_initialize_with_node ::
    "(nat \<Rightarrow> u32 option) \<Rightarrow> mtapi_node_attributes \<Rightarrow> embb_mtapi_group \<Rightarrow> embb_mtapi_group" where
  "embb_mtapi_group_initialize_with_node garbage node that =
     that\<lparr>gr_group_id := 0, gr_deleted := MTAPI_FALSE, gr_num_tasks := 0,
       gr_queue := embb_mtapi_task_queue_initialize_with_capacity garbage (Some node) (gr_queue that) (na_queue_limit node)\<rparr>"

definition embb_mtapi_group_finalize :: "mtapi_node_attributes option \<Rightarrow> embb_mtapi_group \<Rightarrow> embb_mtapi_group" where
  "embb_mtapi_group_finalize node that =
     that\<lparr>gr_deleted := MTAPI_TRUE, gr_num_tasks := 0, gr_queue := embb_mtapi_task_queue_finalize node (gr_queue that)\<rparr>"

definition group_finalizer :: "mtapi_node_attributes option \<Rightarrow> embb_mtapi_group \<Rightarrow> embb_mtapi_group \<times> mtapi_call list" where
  "group_finalizer node x = (embb_mtapi_group_finalize node x, [])"

definition group_finalize_deallocate :: "u32 \<Rightarrow> mtapi_state \<Rightarrow> mtapi_state option" where
  "group_finalize_deallocate i s =
     do { s \<leftarrow> upd_group i (embb_mtapi_group_finalize (node_attr s)) s;
          gp \<leftarrow> group_pool s;
          (gp, calls) \<leftarrow> embb_mtapi_pool_deallocate (group_finalizer (node_attr s)) gp i;
          Some (set_group_pool gp s) }"

definition mtapi_group_create ::
    "(nat \<Rightarrow> u32 option) \<Rightarrow> u32 \<Rightarrow> mtapi_group_attributes option \<Rightarrow> mtapi_state \<Rightarrow>
     (mtapi_status \<times> mtapi_hndl \<times> mtapi_state) option" where
  "mtapi_group_create garbage group_id attributes s =
     (case st_node s of
        None \<Rightarrow> Some (MTAPI_ERR_NODE_NOTINIT, MTAPI_HNDL_NONE, s)
      | Some node \<Rightarrow>
          do { gp \<leftarrow> group_pool s;
               (grp, gp) \<leftarrow> embb_mtapi_pool_allocate gp;
               let s = set_group_pool gp s;
               (case grp of
                  None \<Rightarrow> Some (MTAPI_ERR_GROUP_LIMIT, MTAPI_HNDL_NONE, s)
                | Some i \<Rightarrow>
                    do { g \<leftarrow> get_group s i;
                         let g = (embb_mtapi_group_initialize_with_node garbage (nd_attributes node) g)\<lparr>gr_group_id := group_id\<rparr>;
                         let (local_status, attr) =
                           (case attributes of
                              Some b \<Rightarrow> (MTAPI_SUCCESS, Some b)
                            | None \<Rightarrow> mtapi_groupattr_init (Some (gr_attributes g)));
                         attr \<leftarrow> attr;
                         let g = g\<lparr>gr_attributes := attr\<rparr>;
                         s \<leftarrow> put_group i g s;
                         if local_status = MTAPI_SUCCESS then Some (local_status, handle g, s)
                         else
                           do { s \<leftarrow> group_finalize_deallocate i s;
                                Some (local_status, MTAPI_HNDL_NONE, s) } }) })"

definition mtapi_group_set_attribute ::
    "mtapi_hndl \<Rightarrow> u32 \<Rightarrow> u64 \<Rightarrow> u32 \<Rightarrow> mtapi_state \<Rightarrow> (mtapi_status \<times> mtapi_state) option" where
  "mtapi_group_set_attribute grp attribute_num attribute attribute_size s =
     (case st_node s of
        None \<Rightarrow> Some (MTAPI_ERR_NODE_NOTINIT, s)
      | Some node \<Rightarrow>
          do { gp \<leftarrow> group_pool s;
               valid \<leftarrow> embb_mtapi_pool_is_handle_valid gp grp;
               if valid then
                 do { let i = embb_mtapi_pool_get_storage_for_handle gp grp;
                      g \<leftarrow> get_group s i;
                      let (local_status, attr) = mtapi_groupattr_set (Some (gr_attributes g)) attribute_num attribute attribute_size;
                      attr \<leftarrow> attr;
                      s \<leftarrow> put_group i (g\<lparr>gr_attributes := attr\<rparr>) s;
                      Some (local_status, s) }
               else Some (MTAPI_ERR_GROUP_INVALID, s) })"

definition mtapi_group_get_attribute ::
    "mtapi_hndl \<Rightarrow> u32 \<Rightarrow> u64 \<Rightarrow> u32 \<Rightarrow> mtapi_state \<Rightarrow> (mtapi_status \<times> mtapi_state) option" where
  "mtapi_group_get_attribute grp attribute_num attribute attribute_size s =
     (case st_node s of
        None \<Rightarrow> Some (MTAPI_ERR_NODE_NOTINIT, s)
      | Some node \<Rightarrow>
          do { gp \<leftarrow> group_pool s;
               valid \<leftarrow> embb_mtapi_pool_is_handle_valid gp grp;
               Some (if valid then (if attribute = 0 then MTAPI_ERR_PARAMETER else MTAPI_ERR_ATTR_NUM)
                     else MTAPI_ERR_GROUP_INVALID, s) })"

definition mtapi_group_delete :: "mtapi_hndl \<Rightarrow> mtapi_state \<Rightarrow> (mtapi_status \<times> mtapi_state) option" where
  "mtapi_group_delete grp s =
     (case st_node s of
        None \<Rightarrow> Some (MTAPI_ERR_NODE_NOTINIT, s)
      | Some node \<Rightarrow>
          do { gp \<leftarrow> group_pool s;
               valid \<leftarrow> embb_mtapi_pool_is_handle_valid gp grp;
               if valid then
                 do { let i = embb_mtapi_pool_get_storage_for_handle gp grp;
                      g \<leftarrow> get_group s i;
                      if gr_deleted g \<noteq> 0 then Some (MTAPI_ERR_GROUP_INVALID, s)
                      else do { s \<leftarrow> group_finalize_deallocate i s; Some (MTAPI_SUCCESS, s) } }
               else Some (MTAPI_ERR_GROUP_INVALID, s) })"

section \<open>Waiting\<close>

definition group_pop :: "u32 \<Rightarrow> mtapi_state \<Rightarrow> (u32 option \<times> mtapi_state) option" where
  "group_pop i s =
     do { g \<leftarrow> get_group s i;
          (task, q) \<leftarrow> embb_mtapi_task_queue_pop (gr_queue g);
          s \<leftarrow> put_group i (g\<lparr>gr_queue := q\<rparr>) s;
          Some (task, s) }"

definition group_task_done :: "u32 \<Rightarrow> u32 \<Rightarrow> mtapi_state \<Rightarrow> mtapi_state option" where
  "group_task_done i task s =
     do { s \<leftarrow> embb_mtapi_task_delete task s;
          upd_group i (\<lambda>g. g\<lparr>gr_num_tasks := snd (embb_atomic_fetch_and_add (gr_num_tasks g) (- 1))\<rparr>) s }"

text \<open>
  The inner loop of \<^verbatim>\<open>mtapi_group_wait_all\<close>: all tasks in the queue of the group are deleted, and the error of the last
  one that failed is kept.
\<close>

partial_function (option) group_drain :: "u32 \<Rightarrow> mtapi_status \<Rightarrow> mtapi_state \<Rightarrow> (mtapi_status \<times> mtapi_state) option" where
  [code]: "group_drain i local_status s =
     Option.bind (group_pop i s) (\<lambda>(task, s).
       case task of
         None \<Rightarrow> Some (local_status, s)
       | Some t \<Rightarrow>
           Option.bind (get_task s t) (\<lambda>x.
             Option.bind (group_task_done i t s) (\<lambda>s.
               group_drain i (if tk_error_code x \<noteq> MTAPI_SUCCESS then tk_error_code x else local_status) s)))"

partial_function (option) group_wait_all_loop ::
    "mtapi_env \<Rightarrow> u32 option \<Rightarrow> embb_time \<Rightarrow> int \<Rightarrow> u32 \<Rightarrow> mtapi_status \<Rightarrow> mtapi_state \<Rightarrow> (mtapi_status \<times> mtapi_state) option" where
  [code]: "group_wait_all_loop env context end_time timeout i local_status s =
     Option.bind (get_group s i) (\<lambda>g.
       if gr_num_tasks g \<noteq> 0 then
         Option.bind (wait_timed_out end_time timeout s) (\<lambda>late.
           if late then Some (MTAPI_TIMEOUT, s)
           else Option.bind (group_drain i local_status s) (\<lambda>(local_status, s).
             Option.bind (embb_mtapi_scheduler_execute_task_or_yield env context s) (\<lambda>s.
               group_wait_all_loop env context end_time timeout i local_status s)))
       else Some (local_status, s))"

definition mtapi_group_wait_all ::
    "mtapi_env \<Rightarrow> embb_duration \<Rightarrow> embb_time \<Rightarrow> u32 \<Rightarrow> mtapi_hndl \<Rightarrow> int \<Rightarrow> mtapi_state \<Rightarrow>
     (mtapi_status \<times> mtapi_state) option" where
  "mtapi_group_wait_all env dur0 end0 thread grp timeout s =
     (case st_node s of
        None \<Rightarrow> Some (MTAPI_ERR_NODE_NOTINIT, s)
      | Some node \<Rightarrow>
          do { gp \<leftarrow> group_pool s;
               valid \<leftarrow> embb_mtapi_pool_is_handle_valid gp grp;
               if valid then
                 do { let local_group = embb_mtapi_pool_get_storage_for_handle gp grp;
                      end_time \<leftarrow> wait_end_time dur0 end0 timeout s;
                      context \<leftarrow> embb_mtapi_scheduler_get_current_thread_context thread s;
                      (local_status, s) \<leftarrow> group_wait_all_loop env context end_time timeout local_group MTAPI_SUCCESS s;
                      s \<leftarrow> (if local_status \<noteq> MTAPI_TIMEOUT then map_option snd (mtapi_group_delete grp s) else Some s);
                      Some (local_status, s) }
               else Some (MTAPI_ERR_GROUP_INVALID, s) })"

text \<open>The loop of \<^verbatim>\<open>mtapi_group_wait_any\<close>; \<open>None\<close> as the task is the timeout.\<close>

partial_function (option) group_wait_any_loop ::
    "mtapi_env \<Rightarrow> u32 option \<Rightarrow> embb_time \<Rightarrow> int \<Rightarrow> u32 \<Rightarrow> u32 option \<Rightarrow> mtapi_state \<Rightarrow> (u32 option \<times> mtapi_state) option" where
  [code]: "group_wait_any_loop env context end_time timeout i local_task s =
     (case local_task of
        Some t \<Rightarrow> Some (Some t, s)
      | None \<Rightarrow>
          Option.bind (wait_timed_out end_time timeout s) (\<lambda>late.
            if late then Some (None, s)
            else Option.bind (embb_mtapi_scheduler_execute_task_or_yield env context s) (\<lambda>s.
              Option.bind (group_pop i s) (\<lambda>(local_task, s).
                group_wait_any_loop env context end_time timeout i local_task s))))"

text \<open>The second component of the result is what is stored through the \<^verbatim>\<open>result\<close> pointer, if anything.\<close>

definition mtapi_group_wait_any ::
    "mtapi_env \<Rightarrow> embb_duration \<Rightarrow> embb_time \<Rightarrow> u32 \<Rightarrow> mtapi_hndl \<Rightarrow> int \<Rightarrow> mtapi_state \<Rightarrow>
     (mtapi_status \<times> u64 option \<times> mtapi_state) option" where
  "mtapi_group_wait_any env dur0 end0 thread grp timeout s =
     (case st_node s of
        None \<Rightarrow> Some (MTAPI_ERR_NODE_NOTINIT, None, s)
      | Some node \<Rightarrow>
          do { gp \<leftarrow> group_pool s;
               valid \<leftarrow> embb_mtapi_pool_is_handle_valid gp grp;
               if valid then
                 do { let local_group = embb_mtapi_pool_get_storage_for_handle gp grp;
                      g \<leftarrow> get_group s local_group;
                      if gr_num_tasks g = 0 then
                        do { (_, s) \<leftarrow> mtapi_group_delete grp s; Some (MTAPI_GROUP_COMPLETED, None, s) }
                      else
                        do { end_time \<leftarrow> wait_end_time dur0 end0 timeout s;
                             context \<leftarrow> embb_mtapi_scheduler_get_current_thread_context thread s;
                             (local_task, s) \<leftarrow> group_pop local_group s;
                             (local_task, s) \<leftarrow> group_wait_any_loop env context end_time timeout local_group local_task s;
                             (case local_task of
                                None \<Rightarrow> Some (MTAPI_TIMEOUT, None, s)
                              | Some t \<Rightarrow>
                                  do { x \<leftarrow> get_task s t;
                                       s \<leftarrow> group_task_done local_group t s;
                                       Some (tk_error_code x, Some (tk_result_buffer x), s) }) } }
               else Some (MTAPI_ERR_GROUP_INVALID, None, s) })"

lemma group_finalize_handle [simp]: "handle (embb_mtapi_group_finalize node x) = handle x"
  by (simp add: embb_mtapi_group_finalize_def)

interpretation group_type: pool_type "group_finalizer node" for node
  by unfold_locales (simp add: group_finalizer_def)

end
