(* ===== verification/Queue_Api.thy ===== *)
theory Queue_Api
  imports Task_Api
begin

text \<open>
  Queues (\<^verbatim>\<open>mtapi_c/src/embb_mtapi_queue_t.c\<close>). A queue does not store tasks; it counts the tasks that were started
  through it, and an ordered queue sends them all to one worker.
\<close>

definition embb_mtapi_queue_initialize :: "mtapi_node_attributes option \<Rightarrow> embb_mtapi_queue \<Rightarrow> embb_mtapi_queue" where
  "embb_mtapi_queue_initialize node that =
     that\<lparr>qu_attributes := the (snd (mtapi_queueattr_init node (Some (qu_attributes that)))),
       qu_queue_id := 0, qu_enabled := MTAPI_FALSE, qu_num_tasks := 0,
       qu_job_handle := \<lparr>hndl_tag = 0, hndl_id = 0\<rparr>\<rparr>"

definition embb_mtapi_queue_initialize_with_attributes_and_job ::
    "mtapi_queue_attributes \<Rightarrow> mtapi_hndl \<Rightarrow> embb_mtapi_queue \<Rightarrow> embb_mtapi_queue" where
  "embb_mtapi_queue_initialize_with_attributes_and_job attributes job that =
     that\<lparr>qu_attributes := attributes, qu_queue_id := 0, qu_enabled := MTAPI_TRUE, qu_num_tasks := 0,
       qu_job_handle := job\<rparr>"

definition embb_mtapi_queue_finalize :: "mtapi_node_attributes option \<Rightarrow> embb_mtapi_queue \<Rightarrow> embb_mtapi_queue" where
  "embb_mtapi_queue_finalize node that =
     embb_mtapi_queue_initialize node (that\<lparr>qu_job_handle := \<lparr>hndl_tag = 0, hndl_id = 0\<rparr>\<rparr>)"

definition queue_finalizer :: "mtapi_node_attributes option \<Rightarrow> embb_mtapi_queue \<Rightarrow> embb_mtapi_queue \<times> mtapi_call list" where
  "queue_finalizer node x = (embb_mtapi_queue_finalize node x, [])"

definition queue_pool_deallocate :: "u32 \<Rightarrow> mtapi_state \<Rightarrow> mtapi_state option" where
  "queue_pool_deallocate i s =
     do { qp \<leftarrow> queue_pool s;
          (qp, calls) \<leftarrow> embb_mtapi_pool_deallocate (queue_finalizer (node_attr s)) qp i;
          Some (set_queue_pool qp s) }"

section \<open>Visitors\<close>

definition embb_mtapi_queue_delete_visitor :: "mtapi_hndl \<Rightarrow> task_visitor" where
  "embb_mtapi_queue_delete_visitor queue task s =
     do { t \<leftarrow> task;
          x \<leftarrow> get_task s t;
          if hndl_id (tk_queue x) = hndl_id queue \<and> hndl_tag (tk_queue x) = hndl_tag queue then
            do { s \<leftarrow> embb_mtapi_task_set_state t MTAPI_TASK_CANCELLED s;
                 s \<leftarrow> upd_task t (\<lambda>x. x\<lparr>tk_error_code := MTAPI_ERR_QUEUE_DELETED\<rparr>) s;
                 Some (True, s) }
          else Some (False, s) }"

definition embb_mtapi_queue_disable_visitor :: "mtapi_boolean \<Rightarrow> mtapi_hndl \<Rightarrow> task_visitor" where
  "embb_mtapi_queue_disable_visitor retain queue task s =
     do { t \<leftarrow> task;
          x \<leftarrow> get_task s t;
          if hndl_id (tk_queue x) = hndl_id queue \<and> hndl_tag (tk_queue x) = hndl_tag queue then
            if retain \<noteq> 0 then
              do { s \<leftarrow> embb_mtapi_task_set_state t MTAPI_TASK_RETAINED s; Some (True, s) }
            else
              do { s \<leftarrow> embb_mtapi_task_set_state t MTAPI_TASK_CANCELLED s;
                   s \<leftarrow> upd_task t (\<lambda>x. x\<lparr>tk_error_code := MTAPI_ERR_QUEUE_DISABLED\<rparr>) s;
                   Some (True, s) }
          else Some (False, s) }"

definition embb_mtapi_queue_enable_visitor :: "mtapi_hndl \<Rightarrow> task_visitor" where
  "embb_mtapi_queue_enable_visitor queue task s =
     do { t \<leftarrow> task;
          x \<leftarrow> get_task s t;
          if hndl_id (tk_queue x) = hndl_id queue \<and> hndl_tag (tk_queue x) = hndl_tag queue then
            do { s \<leftarrow> embb_mtapi_task_set_state t MTAPI_TASK_SCHEDULED s; Some (True, s) }
          else Some (False, s) }"

section \<open>Creation and lookup\<close>

text \<open>The affinity of an ordered queue: the one worker its id selects. The status of the two calls is not looked at.\<close>

definition queue_ordered_affinity :: "embb_mtapi_queue \<Rightarrow> mtapi_state \<Rightarrow> mtapi_affinity option" where
  "queue_ordered_affinity q s =
     do { (_, m) \<leftarrow> mtapi_affinity_init (node_attr s) (Some (qu_ordered_affinity q)) MTAPI_FALSE;
          c \<leftarrow> scheduler s;
          if sc_worker_count c = 0 then None
          else do { (_, m) \<leftarrow> mtapi_affinity_set (node_attr s) m (hndl_id (handle q) mod sc_worker_count c) MTAPI_TRUE; m } }"

definition mtapi_queue_create ::
    "mtapi_queue_attributes \<Rightarrow> u32 \<Rightarrow> mtapi_hndl \<Rightarrow> mtapi_queue_attributes option \<Rightarrow> mtapi_state \<Rightarrow>
     (mtapi_status \<times> mtapi_hndl \<times> mtapi_state) option" where
  "mtapi_queue_create garbage queue_id job attributes s =
     (case st_node s of
        None \<Rightarrow> Some (MTAPI_ERR_NODE_NOTINIT, MTAPI_HNDL_NONE, s)
      | Some node \<Rightarrow>
          do { qp \<leftarrow> queue_pool s;
               (queue, qp) \<leftarrow> embb_mtapi_pool_allocate qp;
               let s = set_queue_pool qp s;
               (case queue of
                  None \<Rightarrow> Some (MTAPI_ERR_QUEUE_LIMIT, MTAPI_HNDL_NONE, s)
                | Some i \<Rightarrow>
                    do { let (local_status, attr) =
                           (case attributes of
                              Some b \<Rightarrow> (MTAPI_SUCCESS, Some b)
                            | None \<Rightarrow> mtapi_queueattr_init (node_attr s) (Some garbage));
                         attr \<leftarrow> attr;
                         if local_status = MTAPI_SUCCESS then
                           do { valid \<leftarrow> embb_mtapi_job_is_handle_valid node job;
                                if valid then
                                  do { q \<leftarrow> get_queue s i;
                                       let q = embb_mtapi_queue_initialize_with_attributes_and_job attr job q;
                                       affinity \<leftarrow> (if qa_ordered (qu_attributes q) \<noteq> 0 then queue_ordered_affinity q s
                                                    else Some (qu_ordered_affinity q));
                                       s \<leftarrow> put_queue i (q\<lparr>qu_ordered_affinity := affinity, qu_queue_id := queue_id\<rparr>) s;
                                       Some (MTAPI_SUCCESS, handle q, s) }
                                else
                                  do { s \<leftarrow> queue_pool_deallocate i s; Some (MTAPI_ERR_JOB_INVALID, MTAPI_HNDL_NONE, s) } }
                         else
                           do { s \<leftarrow> queue_pool_deallocate i s; Some (local_status, MTAPI_HNDL_NONE, s) } }) })"

definition mtapi_queue_get :: "u32 \<Rightarrow> u32 \<Rightarrow> mtapi_state \<Rightarrow> (mtapi_status \<times> mtapi_hndl) option" where
  "mtapi_queue_get queue_id domain_id s =
     (case st_node s of
        None \<Rightarrow> Some (MTAPI_ERR_NODE_NOTINIT, MTAPI_HNDL_NONE)
      | Some node \<Rightarrow>
          for_break (\<lambda>ii r.
              do { q \<leftarrow> get_queue s ii;
                   Some (if queue_id = qu_queue_id q then (False, MTAPI_SUCCESS, handle q) else (True, r)) })
            0 (na_max_queues (nd_attributes node)) (MTAPI_ERR_QUEUE_INVALID, MTAPI_HNDL_NONE))"

section \<open>Attributes\<close>

definition mtapi_queue_set_attribute ::
    "mtapi_hndl \<Rightarrow> u32 \<Rightarrow> u64 \<Rightarrow> u32 \<Rightarrow> mtapi_state \<Rightarrow> (mtapi_status \<times> mtapi_state) option" where
  "mtapi_queue_set_attribute queue attribute_num attribute attribute_size s =
     (case st_node s of
        None \<Rightarrow> Some (MTAPI_ERR_NODE_NOTINIT, s)
      | Some node \<Rightarrow>
          do { qp \<leftarrow> queue_pool s;
               valid \<leftarrow> embb_mtapi_pool_is_handle_valid qp queue;
               if valid then
                 do { let i = embb_mtapi_pool_get_storage_for_handle qp queue;
                      q \<leftarrow> get_queue s i;
                      let (local_status, attr) = mtapi_queueattr_set (st_memory s) (Some (qu_attributes q))
                            attribute_num attribute attribute_size;
                      attr \<leftarrow> attr;
                      s \<leftarrow> put_queue i (q\<lparr>qu_attributes := attr\<rparr>) s;
                      Some (local_status, s) }
               else Some (MTAPI_ERR_QUEUE_INVALID, s) })"

definition mtapi_queue_get_attribute ::
    "mtapi_hndl \<Rightarrow> u32 \<Rightarrow> u64 \<Rightarrow> u32 \<Rightarrow> mtapi_state \<Rightarrow> (mtapi_status \<times> mtapi_state) option" where
  "mtapi_queue_get_attribute queue attribute_num attribute attribute_size s =
     (case st_node s of
        None \<Rightarrow> Some (MTAPI_ERR_NODE_NOTINIT, s)
      | Some node \<Rightarrow>
          do { qp \<leftarrow> queue_pool s;
               valid \<leftarrow> embb_mtapi_pool_is_handle_valid qp queue;
               if valid then
                 do { q \<leftarrow> get_queue s (embb_mtapi_pool_get_storage_for_handle qp queue);
                      Some (if attribute = 0 then (MTAPI_ERR_PARAMETER, s)
                        else if attribute_num = MTAPI_QUEUE_GLOBAL then
                          attr_get_state (qa_global (qu_attributes q)) attribute attribute_size s
                        else if attribute_num = MTAPI_QUEUE_PRIORITY then
                          attr_get_state (qa_priority (qu_attributes q)) attribute attribute_size s
                        else if attribute_num = MTAPI_QUEUE_LIMIT then
                          attr_get_state (qa_limit (qu_attributes q)) attribute attribute_size s
                        else if attribute_num = MTAPI_QUEUE_ORDERED then
                          attr_get_state (qa_ordered (qu_attributes q)) attribute attribute_size s
                        else if attribute_num = MTAPI_QUEUE_RETAIN then
                          attr_get_state (qa_retain (qu_attributes q)) attribute attribute_size s
                        else if attribute_num = MTAPI_QUEUE_DOMAIN_SHARED then
                          attr_get_state (qa_domain_shared (qu_attributes q)) attribute attribute_size s
                        else (MTAPI_ERR_ATTR_NUM, s)) }
               else Some (MTAPI_ERR_QUEUE_INVALID, s) })"

section \<open>Deleting, disabling and enabling\<close>

definition queue_has_tasks :: "u32 \<Rightarrow> mtapi_state \<Rightarrow> bool option" where
  "queue_has_tasks i s = do { q \<leftarrow> get_queue s i; Some (qu_num_tasks q \<noteq> 0) }"

definition mtapi_queue_delete ::
    "mtapi_env \<Rightarrow> embb_duration \<Rightarrow> embb_time \<Rightarrow> u32 \<Rightarrow> mtapi_hndl \<Rightarrow> int \<Rightarrow> mtapi_state \<Rightarrow>
     (mtapi_status \<times> mtapi_state) option" where
  "mtapi_queue_delete env dur0 end0 thread queue timeout s =
     (case st_node s of
        None \<Rightarrow> Some (MTAPI_ERR_NODE_NOTINIT, s)
      | Some node \<Rightarrow>
          do { qp \<leftarrow> queue_pool s;
               valid \<leftarrow> embb_mtapi_pool_is_handle_valid qp queue;
               if valid then
                 do { let local_queue = embb_mtapi_pool_get_storage_for_handle qp queue;
                      q \<leftarrow> get_queue s local_queue;
                      end_time \<leftarrow> wait_end_time dur0 end0 timeout s;
                      context \<leftarrow> embb_mtapi_scheduler_get_current_thread_context thread s;
                      (_, s) \<leftarrow> embb_mtapi_scheduler_process_tasks (embb_mtapi_queue_delete_visitor (handle q)) s;
                      (finished, s) \<leftarrow> wait_loop (queue_has_tasks local_queue) env context end_time timeout s;
                      s \<leftarrow> upd_queue local_queue (embb_mtapi_queue_finalize (node_attr s)) s;
                      s \<leftarrow> queue_pool_deallocate local_queue s;
                      Some (if finished then MTAPI_SUCCESS else MTAPI_TIMEOUT, s) }
               else Some (MTAPI_ERR_QUEUE_INVALID, s) })"

definition mtapi_queue_disable ::
    "mtapi_env \<Rightarrow> embb_duration \<Rightarrow> embb_time \<Rightarrow> u32 \<Rightarrow> mtapi_hndl \<Rightarrow> int \<Rightarrow> mtapi_state \<Rightarrow>
     (mtapi_status \<times> mtapi_state) option" where
  "mtapi_queue_disable env dur0 end0 thread queue timeout s =
     (case st_node s of
        None \<Rightarrow> Some (MTAPI_ERR_NODE_NOTINIT, s)
      | Some node \<Rightarrow>
          do { qp \<leftarrow> queue_pool s;
               valid \<leftarrow> embb_mtapi_pool_is_handle_valid qp queue;
               if valid then
                 do { let local_queue = embb_mtapi_pool_get_storage_for_handle qp queue;
                      s \<leftarrow> upd_queue local_queue (\<lambda>q. q\<lparr>qu_enabled := MTAPI_FALSE\<rparr>) s;
                      q \<leftarrow> get_queue s local_queue;
                      (_, s) \<leftarrow> embb_mtapi_scheduler_process_tasks
                               (embb_mtapi_queue_disable_visitor (qa_retain (qu_attributes q)) (handle q)) s;
                      q \<leftarrow> get_queue s local_queue;
                      if qa_retain (qu_attributes q) = MTAPI_FALSE then
                        do { context \<leftarrow> embb_mtapi_scheduler_get_current_thread_context thread s;
                             end_time \<leftarrow> wait_end_time dur0 end0 timeout s;
                             (finished, s) \<leftarrow> wait_loop (queue_has_tasks local_queue) env context end_time timeout s;
                             Some (if finished then MTAPI_SUCCESS else MTAPI_TIMEOUT, s) }
                      else Some (MTAPI_SUCCESS, s) }
               else Some (MTAPI_ERR_QUEUE_INVALID, s) })"

definition mtapi_queue_enable :: "mtapi_hndl \<Rightarrow> mtapi_state \<Rightarrow> (mtapi_status \<times> mtapi_state) option" where
  "mtapi_queue_enable queue s =
     (case st_node s of
        None \<Rightarrow> Some (MTAPI_ERR_NODE_NOTINIT, s)
      | Some node \<Rightarrow>
          do { qp \<leftarrow> queue_pool s;
               valid \<leftarrow> embb_mtapi_pool_is_handle_valid qp queue;
               if valid then
                 do { let local_queue = embb_mtapi_pool_get_storage_for_handle qp queue;
                      s \<leftarrow> upd_queue local_queue (\<lambda>q. q\<lparr>qu_enabled := MTAPI_TRUE\<rparr>) s;
                      q \<leftarrow> get_queue s local_queue;
                      s \<leftarrow> (if qa_retain (qu_attributes q) \<noteq> 0 then
                              map_option snd (embb_mtapi_scheduler_process_tasks (embb_mtapi_queue_enable_visitor (handle q)) s)
                            else Some s);
                      Some (MTAPI_SUCCESS, s) }
               else Some (MTAPI_ERR_QUEUE_INVALID, s) })"

lemma queue_finalize_handle [simp]: "handle (embb_mtapi_queue_finalize node x) = handle x"
  by (simp add: embb_mtapi_queue_finalize_def embb_mtapi_queue_initialize_def)

interpretation queue_type: pool_type "queue_finalizer node" for node
  by unfold_locales (simp add: queue_finalizer_def)

end
