(* ===== verification/Context_Api.thy ===== *)
theory Context_Api
  imports Task_Api
begin

text \<open>
  What an action function can ask of the task it runs for (\<^verbatim>\<open>mtapi_c/src/embb_mtapi_task_context_t.c\<close>). The task context is only
  accepted on the thread of the worker that runs the task: \<open>thread\<close> is the calling thread.
\<close>

text \<open>The lookup and comparison every function of the context starts with.\<close>

definition context_on_thread :: "u32 \<Rightarrow> embb_mtapi_task_context \<Rightarrow> mtapi_state \<Rightarrow> bool option" where
  "context_on_thread thread task_context s =
     do { x \<leftarrow> get_worker s (cx_thread_context task_context);
          Some (tc_tss x thread = Some (cx_thread_context task_context)) }"

definition mtapi_context_status_set ::
    "u32 \<Rightarrow> embb_mtapi_task_context option \<Rightarrow> mtapi_status \<Rightarrow> mtapi_state \<Rightarrow> (mtapi_status \<times> mtapi_state) option" where
  "mtapi_context_status_set thread task_context error_code s =
     (case task_context of
        None \<Rightarrow> Some (MTAPI_ERR_CONTEXT_INVALID, s)
      | Some cx \<Rightarrow>
          do { ok \<leftarrow> context_on_thread thread cx s;
               if ok then
                 if error_code \<in> {MTAPI_SUCCESS, MTAPI_ERR_ARG_SIZE, MTAPI_ERR_RESULT_SIZE,
                                  MTAPI_ERR_ACTION_CANCELLED, MTAPI_ERR_ACTION_FAILED, MTAPI_ERR_ACTION_DELETED} then
                   do { s \<leftarrow> upd_task (cx_task cx) (\<lambda>x. x\<lparr>tk_error_code := error_code\<rparr>) s; Some (MTAPI_SUCCESS, s) }
                 else Some (MTAPI_ERR_PARAMETER, s)
               else Some (MTAPI_ERR_CONTEXT_OUTOFCONTEXT, s) })"

text \<open>
  Here the code compares the value of the slot, the address of a worker, with the address of the task context, a local
  variable of the worker.
\<close>

datatype object_addr = Worker_Addr u32 | Task_Context_Addr

definition mtapi_context_runtime_notify ::
    "u32 \<Rightarrow> embb_mtapi_task_context option \<Rightarrow> mtapi_state \<Rightarrow> mtapi_status option" where
  "mtapi_context_runtime_notify thread task_context s =
     (case task_context of
        None \<Rightarrow> Some MTAPI_ERR_CONTEXT_INVALID
      | Some cx \<Rightarrow>
          do { x \<leftarrow> get_worker s (cx_thread_context cx);
               let local_context = map_option Worker_Addr (tc_tss x thread);
               Some (if local_context = Some Task_Context_Addr then MTAPI_SUCCESS else MTAPI_ERR_CONTEXT_OUTOFCONTEXT) })"

definition mtapi_context_taskstate_get ::
    "u32 \<Rightarrow> embb_mtapi_task_context option \<Rightarrow> mtapi_state \<Rightarrow> (mtapi_status \<times> mtapi_task_state) option" where
  "mtapi_context_taskstate_get thread task_context s =
     (case task_context of
        None \<Rightarrow> Some (MTAPI_ERR_CONTEXT_INVALID, MTAPI_TASK_ERROR)
      | Some cx \<Rightarrow>
          do { ok \<leftarrow> context_on_thread thread cx s;
               if ok then do { x \<leftarrow> get_task s (cx_task cx); Some (MTAPI_SUCCESS, tk_state x) }
               else Some (MTAPI_ERR_CONTEXT_OUTOFCONTEXT, MTAPI_TASK_ERROR) })"

definition mtapi_context_instnum_get ::
    "u32 \<Rightarrow> embb_mtapi_task_context option \<Rightarrow> mtapi_state \<Rightarrow> (mtapi_status \<times> u32) option" where
  "mtapi_context_instnum_get thread task_context s =
     (case task_context of
        None \<Rightarrow> Some (MTAPI_ERR_CONTEXT_INVALID, 0)
      | Some cx \<Rightarrow>
          do { ok \<leftarrow> context_on_thread thread cx s;
               Some (if ok then (MTAPI_SUCCESS, cx_instance_num cx) else (MTAPI_ERR_CONTEXT_OUTOFCONTEXT, 0)) })"

definition mtapi_context_numinst_get ::
    "u32 \<Rightarrow> embb_mtapi_task_context option \<Rightarrow> mtapi_state \<Rightarrow> (mtapi_status \<times> u32) option" where
  "mtapi_context_numinst_get thread task_context s =
     (case task_context of
        None \<Rightarrow> Some (MTAPI_ERR_CONTEXT_INVALID, 0)
      | Some cx \<Rightarrow>
          do { ok \<leftarrow> context_on_thread thread cx s;
               Some (if ok then (MTAPI_SUCCESS, cx_num_instances cx) else (MTAPI_ERR_CONTEXT_OUTOFCONTEXT, 0)) })"

definition mtapi_context_corenum_get ::
    "u32 \<Rightarrow> embb_mtapi_task_context option \<Rightarrow> mtapi_state \<Rightarrow> (mtapi_status \<times> u32) option" where
  "mtapi_context_corenum_get thread task_context s =
     (case task_context of
        None \<Rightarrow> Some (MTAPI_ERR_CONTEXT_INVALID, 0)
      | Some cx \<Rightarrow>
          do { ok \<leftarrow> context_on_thread thread cx s;
               if ok then do { x \<leftarrow> get_worker s (cx_thread_context cx); Some (MTAPI_SUCCESS, tc_core_num x) }
               else Some (MTAPI_ERR_CONTEXT_OUTOFCONTEXT, 0) })"

end
