(* ===== verification/Node_Api.thy ===== *)
theory Node_Api
  imports Action_Api Group_Api Queue_Api Context_Api
begin

text \<open>
  The node (\<^verbatim>\<open>mtapi_c/src/embb_mtapi_node_t.c\<close>): initialization and finalization of the whole library, and the functions that read the node. What
  initialization takes from its surroundings is one record, \<open>init_params\<close>: which of the allocations the code checks
  succeed, the number of cores, the sizes of the structures, what fresh memory holds, the allocation counter, and what starting each worker comes to.
\<close>

record init_params =
  ip_node_block :: bool
  ip_scheduler_block :: bool
  ip_pool_blocks :: "bool list"
  ip_nprocs :: u32
  ip_outcome :: "u32 \<Rightarrow> start_outcome"
  ip_sizes :: "nat list"
  ip_context_size :: nat
  ip_node :: embb_mtapi_node
  ip_jobs :: "nat \<Rightarrow> embb_mtapi_job"
  ip_job_actions :: "nat \<Rightarrow> nat \<Rightarrow> mtapi_hndl"
  ip_ids :: "nat \<Rightarrow> u32"
  ip_actions :: "nat \<Rightarrow> embb_mtapi_action"
  ip_groups :: "nat \<Rightarrow> embb_mtapi_group"
  ip_tasks :: "nat \<Rightarrow> embb_mtapi_task"
  ip_queues :: "nat \<Rightarrow> embb_mtapi_queue"
  ip_contexts :: "nat \<Rightarrow> embb_mtapi_thread_context"
  ip_task_queues :: "nat \<Rightarrow> embb_mtapi_task_queue"
  ip_task_slots :: "nat \<Rightarrow> u32 option"
  ip_bytes_allocated :: u32

definition embb_mtapi_node_is_initialized :: "mtapi_state \<Rightarrow> bool" where
  "embb_mtapi_node_is_initialized s \<longleftrightarrow> st_node s \<noteq> None"

section \<open>The scheduler structure\<close>

definition embb_mtapi_scheduler_delete :: "mtapi_env \<Rightarrow> mtapi_state \<Rightarrow> mtapi_state option" where
  "embb_mtapi_scheduler_delete env s =
     do { s \<leftarrow> embb_mtapi_scheduler_finalize env s;
          Some (s\<lparr>st_node := map_option (nd_scheduler_update (\<lambda>_. None)) (st_node s)\<rparr>) }"

text \<open>The scheduler is handed to the node by the caller; when a worker does not start, the workers are stopped again.\<close>

definition embb_mtapi_scheduler_new ::
    "init_params \<Rightarrow> mtapi_env \<Rightarrow> mtapi_state \<Rightarrow> (embb_mtapi_scheduler option \<times> mtapi_state) option" where
  "embb_mtapi_scheduler_new ip env s =
     (if ip_scheduler_block ip then
        do { node \<leftarrow> st_node s;
             (ok, that) \<leftarrow> embb_mtapi_scheduler_initialize (ip_context_size ip) (ip_contexts ip) (ip_task_queues ip)
                            (ip_task_slots ip) (ip_outcome ip) node;
             if ok then Some (Some that, s)
             else do { s \<leftarrow> embb_mtapi_scheduler_delete env (set_scheduler that s); Some (None, s) } }
      else Some (None, s))"

section \<open>Initialization and finalization\<close>

text \<open>The pools and the list of jobs of a node whose attributes are set.\<close>

definition node_storage_new :: "init_params \<Rightarrow> embb_mtapi_node \<Rightarrow> embb_mtapi_node option" where
  "node_storage_new ip node =
     do { (_, node) \<leftarrow> embb_mtapi_job_initialize_list (ip_jobs ip) (ip_job_actions ip) node;
          let attr = nd_attributes node;
          ap \<leftarrow> embb_mtapi_pool_new embb_mtapi_action_initialize (ip_sizes ip ! 0) (ip_ids ip) (ip_actions ip)
                  (ip_pool_blocks ip ! 0) (na_max_actions attr);
          gp \<leftarrow> embb_mtapi_pool_new (embb_mtapi_group_initialize (Some attr)) (ip_sizes ip ! 1) (ip_ids ip) (ip_groups ip)
                  (ip_pool_blocks ip ! 1) (na_max_groups attr);
          tp \<leftarrow> embb_mtapi_pool_new embb_mtapi_task_initialize (ip_sizes ip ! 2) (ip_ids ip) (ip_tasks ip)
                  (ip_pool_blocks ip ! 2) (na_max_tasks attr);
          qp \<leftarrow> embb_mtapi_pool_new (embb_mtapi_queue_initialize (Some attr)) (ip_sizes ip ! 3) (ip_ids ip) (ip_queues ip)
                  (ip_pool_blocks ip ! 3) (na_max_queues attr);
          Some (node\<lparr>nd_action_pool := ap, nd_group_pool := gp, nd_task_pool := tp, nd_queue_pool := qp\<rparr>) }"

text \<open>Finalizing a pool through a null pointer is \<open>None\<close>.\<close>

definition mtapi_finalize :: "mtapi_env \<Rightarrow> mtapi_state \<Rightarrow> (mtapi_status \<times> mtapi_state) option" where
  "mtapi_finalize env s =
     (case st_node s of
        None \<Rightarrow> Some (MTAPI_ERR_NODE_NOTINIT, s)
      | Some node \<Rightarrow>
          do { s \<leftarrow> (if nd_scheduler node \<noteq> None then embb_mtapi_scheduler_delete env s else Some s);
               node \<leftarrow> st_node s;
               qp \<leftarrow> nd_queue_pool node;
               let _ = embb_mtapi_pool_finalize qp;
               tp \<leftarrow> nd_task_pool node;
               let _ = embb_mtapi_pool_finalize tp;
               gp \<leftarrow> nd_group_pool node;
               let _ = embb_mtapi_pool_finalize gp;
               ap \<leftarrow> nd_action_pool node;
               let _ = embb_mtapi_pool_finalize ap;
               _ \<leftarrow> embb_mtapi_job_finalize_list node;
               Some (MTAPI_SUCCESS, s\<lparr>st_node := None\<rparr>) })"

text \<open>The second component of the result is what is stored through \<^verbatim>\<open>mtapi_info\<close>.\<close>

definition mtapi_initialize ::
    "init_params \<Rightarrow> mtapi_env \<Rightarrow> u32 \<Rightarrow> u32 \<Rightarrow> mtapi_node_attributes option \<Rightarrow> mtapi_state \<Rightarrow>
     (mtapi_status \<times> mtapi_info option \<times> mtapi_state) option" where
  "mtapi_initialize ip env domain_id node_id attributes s =
     (case st_node s of
        Some node \<Rightarrow> Some (MTAPI_ERR_NODE_INITIALIZED, Some (nd_info node), s)
      | None \<Rightarrow>
          if \<not> ip_node_block ip then Some (MTAPI_ERR_UNKNOWN, None, s)
          else
            do { let node = (ip_node ip)\<lparr>nd_domain_id := domain_id, nd_node_id := node_id\<rparr>;
                 (local_status, attr) \<leftarrow>
                   (case attributes of
                      Some a \<Rightarrow> Some (MTAPI_SUCCESS, Some a)
                    | None \<Rightarrow> mtapi_nodeattr_init (ip_nprocs ip) (Some (nd_attributes node)));
                 attr \<leftarrow> attr;
                 let node = node\<lparr>nd_attributes := attr\<rparr>;
                 (local_status, affinity) \<leftarrow>
                   (if local_status = MTAPI_SUCCESS then
                      mtapi_affinity_init (Some (nd_attributes node)) (Some (nd_affinity_all node)) MTAPI_TRUE
                    else Some (local_status, Some (nd_affinity_all node)));
                 affinity \<leftarrow> affinity;
                 let node = node\<lparr>nd_affinity_all := affinity\<rparr>;
                 if local_status = MTAPI_SUCCESS then
                   do { node \<leftarrow> node_storage_new ip (node\<lparr>nd_is_scheduler_running := 0\<rparr>);
                        let s = s\<lparr>st_node := Some (node\<lparr>nd_scheduler := None\<rparr>)\<rparr>;
                        (sched, s) \<leftarrow> embb_mtapi_scheduler_new ip env s;
                        (case sched of
                           Some c \<Rightarrow>
                             do { let info = \<lparr>in_hardware_concurrency = embb_core_count_available (ip_nprocs ip),
                                              in_used_memory = ip_bytes_allocated ip\<rparr>;
                                  node \<leftarrow> st_node s;
                                  Some (MTAPI_SUCCESS, Some info,
                                    s\<lparr>st_node := Some (node\<lparr>nd_scheduler := Some c, nd_info := info, nd_is_scheduler_running := 1\<rparr>)\<rparr>) }
                         | None \<Rightarrow>
                             do { (_, s) \<leftarrow> mtapi_finalize env s;
                                  Some (MTAPI_ERR_NODE_INITFAILED, None, s) }) }
                 else Some (MTAPI_ERR_PARAMETER, None, s\<lparr>st_node := Some node\<rparr>) })"

section \<open>Reading the node\<close>

definition mtapi_node_get_attribute ::
    "u32 \<Rightarrow> u32 \<Rightarrow> u64 \<Rightarrow> u32 \<Rightarrow> mtapi_state \<Rightarrow> mtapi_status \<times> mtapi_state" where
  "mtapi_node_get_attribute node attribute_num attribute attribute_size s =
     (case st_node s of
        None \<Rightarrow> (MTAPI_ERR_NODE_NOTINIT, s)
      | Some local_node \<Rightarrow>
          let a = nd_attributes local_node in
          if nd_node_id local_node = node then
            if attribute \<noteq> 0 then
              if attribute_num = MTAPI_NODE_CORE_AFFINITY then
                if MTAPI_NODE_CORE_AFFINITY_SIZE = attribute_size then
                  (MTAPI_SUCCESS, s\<lparr>st_memory := mem_write (st_memory s) attribute (bytes_le 8 (rep (na_core_affinity a)))\<rparr>)
                else (MTAPI_ERR_ATTR_SIZE, s)
              else if attribute_num = MTAPI_NODE_NUMCORES then attr_get_state (na_num_cores a) attribute attribute_size s
              else if attribute_num = MTAPI_NODE_TYPE then attr_get_state (na_type a) attribute attribute_size s
              else if attribute_num = MTAPI_NODE_MAX_TASKS then attr_get_state (na_max_tasks a) attribute attribute_size s
              else if attribute_num = MTAPI_NODE_MAX_ACTIONS then attr_get_state (na_max_actions a) attribute attribute_size s
              else if attribute_num = MTAPI_NODE_MAX_GROUPS then attr_get_state (na_max_groups a) attribute attribute_size s
              else if attribute_num = MTAPI_NODE_MAX_QUEUES then attr_get_state (na_max_queues a) attribute attribute_size s
              else if attribute_num = MTAPI_NODE_QUEUE_LIMIT then attr_get_state (na_queue_limit a) attribute attribute_size s
              else if attribute_num = MTAPI_NODE_MAX_JOBS then attr_get_state (na_max_jobs a) attribute attribute_size s
              else if attribute_num = MTAPI_NODE_MAX_ACTIONS_PER_JOB then
                attr_get_state (na_max_actions_per_job a) attribute attribute_size s
              else if attribute_num = MTAPI_NODE_MAX_PRIORITIES then
                attr_get_state (na_max_priorities a) attribute attribute_size s
              else (MTAPI_ERR_ATTR_NUM, s)
            else (MTAPI_ERR_PARAMETER, s)
          else (MTAPI_ERR_NODE_NOTINIT, s))"

definition mtapi_domain_id_get :: "mtapi_state \<Rightarrow> mtapi_status \<times> u32" where
  "mtapi_domain_id_get s =
     (case st_node s of Some node \<Rightarrow> (MTAPI_SUCCESS, nd_domain_id node) | None \<Rightarrow> (MTAPI_ERR_NODE_NOTINIT, 0))"

definition mtapi_node_id_get :: "mtapi_state \<Rightarrow> mtapi_status \<times> u32" where
  "mtapi_node_id_get s =
     (case st_node s of Some node \<Rightarrow> (MTAPI_SUCCESS, nd_node_id node) | None \<Rightarrow> (MTAPI_ERR_NODE_NOTINIT, 0))"

end
