(* ===== verification/Task_Lifecycle.thy ===== *)
theory Task_Lifecycle
  imports Scheduler_Placement Task_Api
begin

text \<open>
  Tasks from the start to the end as the application sees them: starting a task, the order in which the tasks of an ordered queue are
  queued, cancelling a task and what a worker does with a cancelled one, and waiting for a task.
\<close>

section \<open>Tasks of an ordered queue\<close>

text \<open>
  An ordered queue \<open>h\<close> whose affinity allows exactly the core \<open>k\<close>, as \<^verbatim>\<open>mtapi_queue_create\<close> sets it up, on a node with more than this core.
\<close>

definition ordered_queue :: "mtapi_state \<Rightarrow> mtapi_hndl \<Rightarrow> u32 \<Rightarrow> u32 \<Rightarrow> bool" where
  "ordered_queue s h k prio \<longleftrightarrow> (\<exists>n c qp. st_node s = Some n \<and> nd_scheduler n = Some c \<and> sched_ok n c \<and>
     sc_worker_count c = na_num_cores (nd_attributes n) \<and> unat (sc_worker_count c) \<le> 64 \<and> prio < na_max_priorities (nd_attributes n) \<and>
     queue_pool s = Some qp \<and> embb_mtapi_pool_is_handle_valid qp h = Some True \<and> k < sc_worker_count c \<and>
     (let q = pl_storage qp ! unat (hndl_id h) in qa_ordered (qu_attributes q) \<noteq> 0 \<and>
        qu_ordered_affinity q \<noteq> nd_affinity_all n \<and>
        (\<forall>j < unat (sc_worker_count c). bit (qu_ordered_affinity q) j \<longleftrightarrow> j = unat k)))"

text \<open>A task of the queue \<open>h\<close> that can be scheduled.\<close>

definition queue_task :: "mtapi_state \<Rightarrow> mtapi_hndl \<Rightarrow> u32 \<Rightarrow> u32 \<Rightarrow> bool" where
  "queue_task s h prio t \<longleftrightarrow> (\<exists>x ap. get_task s t = Some x \<and> tk_queue x = h \<and> ta_priority (tk_attributes x) = prio \<and>
     action_pool s = Some ap \<and> embb_mtapi_pool_is_handle_valid ap (tk_action x) = Some True)"

text \<open>Scheduling tasks one after the other, as long as they are accepted.\<close>

fun schedule_all :: "u32 list \<Rightarrow> mtapi_state \<Rightarrow> mtapi_state option" where
  "schedule_all [] s = Some s"
| "schedule_all (t # ts) s =
     do { (ok, s) \<leftarrow> embb_mtapi_scheduler_schedule_task t 0 s; if ok then schedule_all ts s else None }"

lemma ordered_affinity:
  assumes "st_node s = Some n" "queue_pool s = Some qp" "embb_mtapi_pool_is_handle_valid qp (tk_queue x) = Some True"
    and "q = pl_storage qp ! unat (hndl_id (tk_queue x))" "qa_ordered (qu_attributes q) \<noteq> 0" "bit (qu_ordered_affinity q) k"
  shows "schedule_affinity x a s = Some (qu_ordered_affinity q)"
proof -
  have "qu_ordered_affinity q \<noteq> 0"
    using assms(6) by auto
  then show ?thesis
    using assms(1-5) pool_valid_in_bounds[OF assms(3)]
    by (simp add: schedule_affinity_def upd_queue_Some embb_mtapi_pool_get_storage_for_handle_def Let_def)
qed

lemma count_task_valid: "embb_mtapi_pool_is_handle_valid (count_task i d ap) h = embb_mtapi_pool_is_handle_valid ap h"
  unfolding count_task_def by (rule pool_valid_put) simp

lemma ordered_queue_step:
  assumes o: "ordered_queue s h k prio" and t: "queue_task s h prio t"
  shows "\<exists>s'. embb_mtapi_scheduler_schedule_task t 0 s = Some (ref_room s (Private k prio), s') \<and>
           (\<forall>r'. ref_tasks s' r' = (if r' = Private k prio \<and> ref_room s (Private k prio) then ref_tasks s r' @ [t] else ref_tasks s r')) \<and>
           ordered_queue s' h k prio \<and> (\<forall>t'. queue_task s h prio t' \<longrightarrow> queue_task s' h prio t')"
proof -
  obtain n c qp where n: "st_node s = Some n" "nd_scheduler n = Some c" "sched_ok n c"
    and wc: "sc_worker_count c = na_num_cores (nd_attributes n)" "unat (sc_worker_count c) \<le> 64" "prio < na_max_priorities (nd_attributes n)"
    and qp: "queue_pool s = Some qp" "embb_mtapi_pool_is_handle_valid qp h = Some True" and k: "k < sc_worker_count c"
    and q: "qa_ordered (qu_attributes (pl_storage qp ! unat (hndl_id h))) \<noteq> 0"
      "qu_ordered_affinity (pl_storage qp ! unat (hndl_id h)) \<noteq> nd_affinity_all n"
      "\<forall>j < unat (sc_worker_count c). bit (qu_ordered_affinity (pl_storage qp ! unat (hndl_id h))) j \<longleftrightarrow> j = unat k"
    using o unfolding ordered_queue_def Let_def by blast
  obtain x ap where x: "get_task s t = Some x" "tk_queue x = h" "ta_priority (tk_attributes x) = prio"
    and ap: "action_pool s = Some ap" "embb_mtapi_pool_is_handle_valid ap (tk_action x) = Some True"
    using t unfolding queue_task_def by blast
  let ?aff = "qu_ordered_affinity (pl_storage qp ! unat (hndl_id h))" and ?r = "Private k prio"
  have bit_k: "unat k < unat (sc_worker_count c)" "bit ?aff (unat k)"
    using k q(3) by (simp_all add: word_less_unat)
  have aff: "schedule_affinity x a s = Some ?aff" for a
    using ordered_affinity[OF n(1) qp(1), of x, OF _ refl _] qp(2) x(2) q(1) bit_k(2) by simp
  obtain j where "affinity_loop (Some (nd_attributes n)) ?aff (sc_worker_count c) (sc_affine_task_counter c) = Some j"
      "j < sc_worker_count c" "bit ?aff (unat j)"
    using affinity_loop_finds[OF _ wc(1)[symmetric] bit_k] wc by metis
  then have "affinity_loop (Some (nd_attributes n)) ?aff (sc_worker_count c) (sc_affine_task_counter c) = Some k"
    using q(3) by (auto simp: word_less_unat word_unat_eq_iff)
  then have target: "schedule_target n c x 0 ?aff ?r (c\<lparr>sc_affine_task_counter := sc_affine_task_counter c + 1\<rparr>)"
    using q(2) x(3) by (simp add: schedule_target_def)
  have "ref_ok s ?r"
    using n k wc(3) by (auto simp: ref_ok_def)
  from schedule_task_effect[OF n x(1) ap aff target this] obtain s' c3 ap3 where s':
      "embb_mtapi_scheduler_schedule_task t 0 s = Some (ref_room s ?r, s')" "sched_wf s'"
      "\<forall>r'. ref_tasks s' r' = (if r' = ?r \<and> ref_room s ?r then ref_tasks s ?r @ [t] else ref_tasks s r')"
      "action_pool s' = Some (if ref_room s ?r then count_task (hndl_id (tk_action x)) 1 ap else ap)"
      "st_node s' = Some (n\<lparr>nd_scheduler := Some c3, nd_action_pool := Some ap3\<rparr>)" "sc_worker_count c3 = sc_worker_count c"
    by blast
  have ok3: "sched_ok (n\<lparr>nd_scheduler := Some c3, nd_action_pool := Some ap3\<rparr>) c3"
    using s'(2,5) by (auto simp: sched_wf_def)
  have pools: "queue_pool s' = Some qp" "task_pool s' = task_pool s"
    using s'(5) qp(1) n(1) by (simp_all add: queue_pool_def task_pool_def)
  have "ordered_queue s' h k prio"
    unfolding ordered_queue_def Let_def using s'(5,6) ok3 pools(1) wc qp(2) k q by auto
  moreover have "queue_task s' h prio t'" if "queue_task s h prio t'" for t'
    using that s'(4) ap(1) pools(2) by (auto simp: queue_task_def get_task_def count_task_valid)
  ultimately show ?thesis
    using s'(1,3) by auto
qed

lemma schedule_all_ordered:
  assumes "ordered_queue s h k prio" "\<forall>t \<in> set ts. queue_task s h prio t" "schedule_all ts s = Some s'"
  shows "ref_tasks s' r = (if r = Private k prio then ref_tasks s r @ ts else ref_tasks s r)"
  using assms
proof (induction ts arbitrary: s)
  case (Cons t ts)
  obtain s1 where s1: "embb_mtapi_scheduler_schedule_task t 0 s = Some (ref_room s (Private k prio), s1)"
      "\<forall>r'. ref_tasks s1 r' = (if r' = Private k prio \<and> ref_room s (Private k prio) then ref_tasks s r' @ [t] else ref_tasks s r')"
      "ordered_queue s1 h k prio" "\<forall>t'. queue_task s h prio t' \<longrightarrow> queue_task s1 h prio t'"
    using ordered_queue_step[OF Cons.prems(1), of t] Cons.prems(2) by auto
  have room: "ref_room s (Private k prio)" "schedule_all ts s1 = Some s'"
    using Cons.prems(3) s1(1) by (auto split: if_splits)
  then show ?case
    using Cons.IH[OF s1(3)] Cons.prems(2) s1(2,4) by auto
qed simp

section \<open>Starting a task\<close>

lemma frame_task_refs:
  shows "ref_room (set_task_pool p s) r = ref_room s r" "ref_tasks (set_task_pool p s) r = ref_tasks s r"
  by (cases r; simp add: ref_room_def ref_tasks_def get_public_def get_private_def get_worker_def state_simps)+

text \<open>The fields of a task that \<^verbatim>\<open>embb_mtapi_task_start\<close> fills in, outside of groups and queues.\<close>

definition started_task :: "task_start_args \<Rightarrow> mtapi_task_attributes \<Rightarrow> mtapi_hndl \<Rightarrow> embb_mtapi_task \<Rightarrow> embb_mtapi_task" where
  "started_task args a h x = (embb_mtapi_task_initialize x)\<lparr>tk_task_id := sa_task_id args, tk_job := sa_job args,
     tk_arguments := sa_arguments args, tk_arguments_size := sa_arguments_size args, tk_result_buffer := sa_result_buffer args,
     tk_result_size := sa_result_size args, tk_attributes := a, tk_instances_todo := ta_num_instances a,
     tk_action := h, tk_state := MTAPI_TASK_SCHEDULED\<rparr>"

abbreviation task_put :: "u32 \<Rightarrow> embb_mtapi_task \<Rightarrow> embb_mtapi_task embb_mtapi_pool \<Rightarrow> embb_mtapi_task embb_mtapi_pool" where
  "task_put i x p \<equiv> p\<lparr>pl_storage := (pl_storage p)[unat i := x]\<rparr>"

lemma task_choose_action_cong:
  assumes "action_pool s' = action_pool s"
  shows "task_choose_action job s' = task_choose_action job s"
proof -
  have "get_action s' = get_action s"
    using assms by (intro ext) (simp add: get_action_def)
  then show ?thesis
    using assms unfolding task_choose_action_def by presburger
qed

lemma task_initialize_group [simp]:
  "(tk_group (embb_mtapi_task_initialize x))\<lparr>hndl_id := 0\<rparr> = tk_group (embb_mtapi_task_initialize x)"
  "(tk_queue (embb_mtapi_task_initialize x))\<lparr>hndl_id := 0\<rparr> = tk_queue (embb_mtapi_task_initialize x)"
  "tk_state_lock (embb_mtapi_task_initialize x) = 0"
  by (simp_all add: embb_mtapi_task_initialize_def EMBB_MTAPI_IDPOOL_INVALID_ID_def embb_mtapi_spinlock_initialize_def)

lemma set_task_pool_same: "task_pool s = Some p \<Longrightarrow> set_task_pool p s = s"
  by (cases "st_node s") (auto simp: task_pool_def set_task_pool_def)

lemma task_set_state_free:
  assumes "task_pool s = Some p" "unat t < length (pl_storage p)" "tk_state_lock (pl_storage p ! unat t) = 0"
  shows "embb_mtapi_task_set_state t st s = Some (set_task_pool (task_put t ((pl_storage p ! unat t)\<lparr>tk_state := st\<rparr>) p) s)"
proof -
  have "x\<lparr>tk_state := st, tk_state_lock := 0\<rparr> = x\<lparr>tk_state := st\<rparr>" if "tk_state_lock x = 0" for x :: embb_mtapi_task
    using that by (cases x) simp
  from this[OF assms(3)] show ?thesis
    unfolding task_set_state_Some[OF assms] by simp
qed

lemma task_start_init_Some:
  assumes p: "task_pool s = Some p" "unat t < length (pl_storage p)" and a: "sa_attributes args = Some a"
  shows "task_start_init args t s = Some (set_task_pool (task_put t
     ((embb_mtapi_task_initialize (pl_storage p ! unat t))\<lparr>tk_state := MTAPI_TASK_PRENATAL,
        tk_task_id := sa_task_id args, tk_job := sa_job args, tk_arguments := sa_arguments args,
        tk_arguments_size := sa_arguments_size args, tk_result_buffer := sa_result_buffer args,
        tk_result_size := sa_result_size args, tk_attributes := a, tk_instances_todo := ta_num_instances a\<rparr>) p) s)"
  using p a task_pool_node[OF p(1)]
  by (simp add: task_start_init_def upd_task_Some task_set_state_free state_simps)

lemma task_start_none:
  assumes p: "task_pool s = Some p" "unat t < length (pl_storage p)" and x: "pl_storage p ! unat t = x"
  shows "group_pool s = Some gp \<Longrightarrow> embb_mtapi_pool_is_handle_valid gp h = Some False \<Longrightarrow>
      (tk_group x)\<lparr>hndl_id := 0\<rparr> = tk_group x \<Longrightarrow> task_start_group h t s = Some s"
    and "queue_pool s = Some qp \<Longrightarrow> embb_mtapi_pool_is_handle_valid qp h = Some False \<Longrightarrow>
      (tk_queue x)\<lparr>hndl_id := 0\<rparr> = tk_queue x \<Longrightarrow> task_start_queue h t s = Some s"
proof -
  have same: "task_put t x p = p"
    using x by (cases p) auto
  have "x\<lparr>tk_group := tk_group x\<rparr> = x" "x\<lparr>tk_queue := tk_queue x\<rparr> = x"
    by simp_all
  then show "group_pool s = Some gp \<Longrightarrow> embb_mtapi_pool_is_handle_valid gp h = Some False \<Longrightarrow>
      (tk_group x)\<lparr>hndl_id := 0\<rparr> = tk_group x \<Longrightarrow> task_start_group h t s = Some s"
    and "queue_pool s = Some qp \<Longrightarrow> embb_mtapi_pool_is_handle_valid qp h = Some False \<Longrightarrow>
      (tk_queue x)\<lparr>hndl_id := 0\<rparr> = tk_queue x \<Longrightarrow> task_start_queue h t s = Some s"
    using p x same set_task_pool_same[OF p(1)]
    by (simp_all add: task_start_group_def task_start_queue_def upd_task_Some EMBB_MTAPI_IDPOOL_INVALID_ID_def)
qed

text \<open>Up to the point where the task is handed to the scheduler.\<close>

lemma task_start_reaches_schedule:
  assumes p: "task_pool s = Some p" "unat t < length (pl_storage p)" and a: "sa_attributes args = Some a"
    and grp: "group_pool s = Some gp" "embb_mtapi_pool_is_handle_valid gp (sa_group args) = Some False"
    and queue: "queue_pool s = Some qp" "embb_mtapi_pool_is_handle_valid qp (sa_queue args) = Some False"
    and job: "get_job s (hndl_id (sa_job args)) = Some job" "task_choose_action job s = Some k" "arr_get (jb_actions job) k = Some h"
    and ap: "action_pool s = Some ap" "embb_mtapi_pool_is_handle_valid ap h = Some True"
      "ac_is_plugin_action (pl_storage ap ! unat (hndl_id h)) = 0"
    and attr: "st_node s = Some n" "ta_priority a < na_max_priorities (nd_attributes n)" "ta_is_detached a = 0"
    and sched: "task_schedule_instances t (ta_num_instances a)
        (set_task_pool (task_put t (started_task args a h (pl_storage p ! unat t)) p) s) = Some (ok, s2)"
    and s2: "task_pool s2 = Some p2" "unat t < length (pl_storage p2)"
      "pl_storage p2 ! unat t = started_task args a h (pl_storage p ! unat t)"
  shows "task_start_allocated env args t s =
      (if ok then Some (MTAPI_SUCCESS, handle (pl_storage p ! unat t), s2)
       else do { s3 \<leftarrow> embb_mtapi_task_delete t (set_task_pool (task_put t
                   ((pl_storage p2 ! unat t)\<lparr>tk_state := MTAPI_TASK_ERROR\<rparr>) p2) s2);
                 Some (MTAPI_ERR_TASK_LIMIT, (handle (pl_storage p ! unat t))\<lparr>hndl_id := EMBB_MTAPI_IDPOOL_INVALID_ID\<rparr>, s3) })"
proof -
  let ?x = "pl_storage p ! unat t"
  have node: "st_node s \<noteq> None"
    using attr(1) by simp
  define X where "X = (embb_mtapi_task_initialize ?x)\<lparr>tk_state := MTAPI_TASK_PRENATAL,
        tk_task_id := sa_task_id args, tk_job := sa_job args, tk_arguments := sa_arguments args,
        tk_arguments_size := sa_arguments_size args, tk_result_buffer := sa_result_buffer args,
        tk_result_size := sa_result_size args, tk_attributes := a, tk_instances_todo := ta_num_instances a\<rparr>"
  let ?p1 = "task_put t X p"
  let ?s1 = "set_task_pool ?p1 s"
  have init: "task_start_init args t s = Some ?s1"
    using task_start_init_Some[OF p a] by (simp add: X_def)
  have p1: "task_pool ?s1 = Some ?p1" "unat t < length (pl_storage ?p1)" "pl_storage ?p1 ! unat t = X"
    using node p(2) by (simp_all add: state_simps)
  have X: "handle X = handle ?x" "tk_state_lock X = 0" "tk_attributes X = a"
      "(tk_group X)\<lparr>hndl_id := 0\<rparr> = tk_group X" "(tk_queue X)\<lparr>hndl_id := 0\<rparr> = tk_queue X"
    by (simp_all add: X_def)
  have none: "task_start_group (sa_group args) t ?s1 = Some ?s1" "task_start_queue (sa_queue args) t ?s1 = Some ?s1"
    using task_start_none[OF p1] grp queue X by (simp_all add: state_simps)
  have choose: "get_job ?s1 (hndl_id (sa_job args)) = Some job" "task_choose_action job ?s1 = Some k" "action_pool ?s1 = Some ap"
    using job ap(1) task_choose_action_cong[of ?s1 s job] by (simp_all add: state_simps)
  have started: "started_task args a h ?x = X\<lparr>tk_action := h, tk_state := MTAPI_TASK_SCHEDULED\<rparr>"
    by (simp add: started_task_def X_def)
  have fields: "tk_state_lock (started_task args a h ?x) = 0"
      "ta_is_detached (tk_attributes (started_task args a h ?x)) = 0"
    using attr(3) X by (simp_all add: started)
  have act: "get_action (set_task_pool p' s) (hndl_id h) = Some (pl_storage ap ! unat (hndl_id h))" for p'
    using ap pool_valid_in_bounds[OF ap(2)] by (simp add: upd_action_Some state_simps)
  have n1: "\<exists>n1. st_node (set_task_pool p' s) = Some n1 \<and> nd_attributes n1 = nd_attributes n" for p'
    using attr(1) by (simp add: set_task_pool_def)
  let ?C = "X\<lparr>tk_action := h, tk_state := MTAPI_TASK_CREATED\<rparr>"
  let ?s3 = "set_task_pool (task_put t ?C p) s"
  have created: "upd_task t (\<lambda>x. x\<lparr>tk_action := h\<rparr>) ?s1 = Some (set_task_pool (task_put t (X\<lparr>tk_action := h\<rparr>) p) s)"
      "embb_mtapi_task_set_state t MTAPI_TASK_CREATED (set_task_pool (task_put t (X\<lparr>tk_action := h\<rparr>) p) s) = Some ?s3"
      "get_task ?s3 t = Some ?C"
    using p node X by (simp_all add: upd_task_Some task_set_state_free state_simps)
  have schedule: "task_start_schedule env t (handle ?x) ?s3 =
      (if ok then Some (MTAPI_SUCCESS, handle ?x, s2)
       else Some (MTAPI_ERR_TASK_LIMIT, handle ?x, set_task_pool (task_put t ((pl_storage p2 ! unat t)\<lparr>tk_state := MTAPI_TASK_ERROR\<rparr>) p2) s2))"
    using p node s2 fields sched X ap(3) act[unfolded state_simps] ap(1)
    by (simp add: task_start_schedule_def created(3) embb_mtapi_pool_get_storage_for_handle_def upd_task_Some task_set_state_free
        state_simps started)
  show ?thesis
    using n1[of "task_put t ?C p"] attr(2)
    by (auto simp: task_start_allocated_def init none choose job(3) ap(2) created schedule X)
qed

lemma started_task_fields [simp]:
  "handle (started_task args a h x) = handle x" "tk_action (started_task args a h x) = h" "tk_attributes (started_task args a h x) = a"
  "tk_state (started_task args a h x) = MTAPI_TASK_SCHEDULED" "tk_arguments (started_task args a h x) = sa_arguments args"
  "tk_result_buffer (started_task args a h x) = sa_result_buffer args" "hndl_id (tk_queue (started_task args a h x)) = 0"
  by (simp_all add: started_task_def embb_mtapi_task_initialize_def EMBB_MTAPI_IDPOOL_INVALID_ID_def)

text \<open>What the scheduler does with a started task that may run on all cores.\<close>

lemma schedule_started_task:
  assumes n: "st_node s = Some n" "nd_scheduler n = Some c" "sched_ok n c"
    and ap: "action_pool s = Some ap" "embb_mtapi_pool_is_handle_valid ap h = Some True" "queue_pool s = Some qp"
    and i: "unat i < length (pl_storage p)" "hndl_id (handle (pl_storage p ! unat i)) = i"
    and a: "ta_num_instances a = 1" "ta_priority a < na_max_priorities (nd_attributes n)"
      "aa_affinity (ac_attributes (pl_storage ap ! unat (hndl_id h))) AND ta_affinity a \<in> {0, nd_affinity_all n}"
    and r: "r = Public (i mod sc_worker_count c) (ta_priority a)"
    and p1: "p1 = task_put i (started_task args a h (pl_storage p ! unat i)) p"
  shows "\<exists>s2. task_schedule_instances i (ta_num_instances a) (set_task_pool p1 s) = Some (ref_room s r, s2) \<and> task_pool s2 = Some p1 \<and>
           (\<forall>r'. ref_tasks s2 r' = (if r' = r \<and> ref_room s r then ref_tasks s r @ [i] else ref_tasks s r')) \<and>
           sched_wf s2 \<and> action_pool s2 = Some (if ref_room s r then count_task (hndl_id h) 1 ap else ap) \<and>
           (\<exists>c3 ap3. st_node s2 = Some (n\<lparr>nd_task_pool := Some p1, nd_scheduler := Some c3, nd_action_pool := Some ap3\<rparr>) \<and>
              sc_worker_count c3 = sc_worker_count c \<and> sc_mode c3 = sc_mode c)"
proof -
  let ?x = "started_task args a h (pl_storage p ! unat i)"
  let ?s1 = "set_task_pool p1 s" and ?n1 = "n\<lparr>nd_task_pool := Some p1\<rparr>"
  have n1: "st_node ?s1 = Some ?n1" "nd_scheduler ?n1 = Some c" "sched_ok ?n1 c"
    using n by (simp_all add: set_task_pool_def sched_ok_def)
  have x1: "get_task ?s1 i = Some ?x" and ap1: "action_pool ?s1 = Some ap" and valid1: "embb_mtapi_pool_is_handle_valid ap (tk_action ?x) = Some True"
    using n(1) ap i(1) by (simp_all add: get_task_def arr_simps state_simps p1)
  have aff: "schedule_affinity ?x (pl_storage ap ! unat (hndl_id (tk_action ?x))) ?s1 = Some (nd_affinity_all ?n1)"
    using a(3) ap(3) n1(1) by (auto simp: schedule_affinity_def embb_mtapi_pool_is_handle_valid_def state_simps Let_def)
  have "ta_priority (tk_attributes ?x) < na_max_priorities (nd_attributes ?n1)"
      "r = Public ((hndl_id (handle ?x) + 0) mod sc_worker_count c) (ta_priority (tk_attributes ?x))"
    using a(2) r i(2) by simp_all
  note eff = schedule_task_effect[OF n1 x1 ap1 valid1 aff unrestricted_target[OF n1 this]]
  obtain s2 c3 ap3 where s2: "embb_mtapi_scheduler_schedule_task i 0 ?s1 = Some (ref_room s r, s2)"
      "\<forall>r'. ref_tasks s2 r' = (if r' = r \<and> ref_room s r then ref_tasks s r @ [i] else ref_tasks s r')"
      "st_node s2 = Some (?n1\<lparr>nd_scheduler := Some c3, nd_action_pool := Some ap3\<rparr>)" "sc_worker_count c3 = sc_worker_count c" "sc_mode c3 = sc_mode c"
      "sched_wf s2" "action_pool s2 = Some (if ref_room s r then count_task (hndl_id h) 1 ap else ap)"
    using eff unfolding frame_task_refs started_task_fields by blast
  have "task_schedule_instances i (ta_num_instances a) ?s1 = Some (ref_room s r, s2)" "task_pool s2 = Some p1"
    using a(1) s2(1,3) by (simp_all add: task_schedule_instances_def for_less.simps task_pool_def)
  then show ?thesis
    using s2 by blast
qed

text \<open>A start up to the scheduler: the task is filled in and handed over, and the start succeeds if the queue takes it.\<close>

lemma task_start_run:
  assumes "st_node s = Some n" "nd_scheduler n = Some c" "sched_ok n c"
    and "embb_mtapi_job_is_handle_valid n job = Some True" "get_job s (hndl_id job) = Some j"
    and "task_choose_action j s = Some k" "arr_get (jb_actions j) k = Some h"
    and "action_pool s = Some ap" "embb_mtapi_pool_is_handle_valid ap h = Some True"
    and "act = pl_storage ap ! unat (hndl_id h)" "ac_is_plugin_action act = 0"
    and "task_pool s = Some p" "pool_owns p used" "embb_mtapi_pool_allocate p = Some (Some i, p')"
    and "group_pool s = Some gp" "embb_mtapi_pool_is_handle_valid gp grp = Some False" "queue_pool s = Some qp"
    and "ta_num_instances a = 1" "ta_priority a < na_max_priorities (nd_attributes n)" "ta_is_detached a = 0"
    and "aa_affinity (ac_attributes act) AND ta_affinity a \<in> {0, nd_affinity_all n}"
    and "r = Public (i mod sc_worker_count c) (ta_priority a)"
    and x: "x = started_task \<lparr>sa_task_id = tid, sa_job = job, sa_arguments = arguments, sa_arguments_size = asize, sa_result_buffer = result,
        sa_result_size = rsize, sa_attributes = Some a, sa_group = grp, sa_queue = MTAPI_HNDL_NONE\<rparr> a h (pl_storage p' ! unat i)"
    and p1: "p1 = task_put i x p'"
  obtains s2 where "mtapi_task_start env tid job arguments asize result rsize (Some a) grp s =
      (if ref_room s r then Some (MTAPI_SUCCESS, handle (pl_storage p' ! unat i), s2)
       else do { s3 \<leftarrow> embb_mtapi_task_delete i (set_task_pool (task_put i (x\<lparr>tk_state := MTAPI_TASK_ERROR\<rparr>) p1) s2);
                 Some (MTAPI_ERR_TASK_LIMIT, (handle (pl_storage p' ! unat i))\<lparr>hndl_id := EMBB_MTAPI_IDPOOL_INVALID_ID\<rparr>, s3) })"
    "task_pool s2 = Some p1" "\<forall>r'. ref_tasks s2 r' = (if r' = r \<and> ref_room s r then ref_tasks s r @ [i] else ref_tasks s r')"
    "sched_wf s2" "action_pool s2 = Some (if ref_room s r then count_task (hndl_id h) 1 ap else ap)"
    "\<exists>c3 ap3. st_node s2 = Some (n\<lparr>nd_task_pool := Some p1, nd_scheduler := Some c3, nd_action_pool := Some ap3\<rparr>) \<and> sc_worker_count c3 = sc_worker_count c \<and> sc_mode c3 = sc_mode c"
    "pool_owns p1 (insert i used)" "i \<notin> used" "unat i < length (pl_storage p')" "hndl_id (handle (pl_storage p' ! unat i)) = i"
    "embb_mtapi_pool_is_handle_valid p1 (handle (pl_storage p' ! unat i)) = Some True"
proof -
  let ?args = "\<lparr>sa_task_id = tid, sa_job = job, sa_arguments = arguments, sa_arguments_size = asize, sa_result_buffer = result,
        sa_result_size = rsize, sa_attributes = Some a, sa_group = grp, sa_queue = MTAPI_HNDL_NONE\<rparr>"
  have alloc: "pool_owns p' (insert i used)" "i \<notin> used" "0 < i" "unat i < length (pl_storage p')" "hndl_id (handle (pl_storage p' ! unat i)) = i"
    by (cases rule: pool_allocate_cases[OF assms(13)]; use assms(14) pool_owns_in_bounds[of p' "insert i used" i] in \<open>simp add: pool_owns_def\<close>)+
  let ?sa = "set_task_pool p' s" and ?old = "pl_storage p' ! unat i" and ?na = "n\<lparr>nd_task_pool := Some p'\<rparr>"
  have owns1: "pool_owns p1 (insert i used)"
    unfolding p1 x by (rule pool_owns_put[OF alloc(1)]) simp
  have valid: "embb_mtapi_pool_is_handle_valid p1 (handle ?old) = Some True"
    using pool_owns_used[OF owns1, of i] alloc(4,5) by (simp add: pool_valid_iff[OF owns1]) (simp add: p1 x)
  obtain s2 where s2: "task_schedule_instances i (ta_num_instances a) (set_task_pool p1 s) = Some (ref_room s r, s2)" "task_pool s2 = Some p1"
      "\<forall>r'. ref_tasks s2 r' = (if r' = r \<and> ref_room s r then ref_tasks s r @ [i] else ref_tasks s r')"
      "sched_wf s2" "action_pool s2 = Some (if ref_room s r then count_task (hndl_id h) 1 ap else ap)"
      "\<exists>c3 ap3. st_node s2 = Some (n\<lparr>nd_task_pool := Some p1, nd_scheduler := Some c3, nd_action_pool := Some ap3\<rparr>) \<and> sc_worker_count c3 = sc_worker_count c \<and> sc_mode c3 = sc_mode c"
    using schedule_started_task[OF assms(1-3,8,9,17) alloc(4,5) assms(18,19) _ assms(22) p1[unfolded x]] assms(10,21) by blast
  have na: "st_node ?sa = Some ?na" "ta_priority a < na_max_priorities (nd_attributes ?na)"
    using assms(1,19) by (simp_all add: set_task_pool_def)
  have none: "embb_mtapi_pool_is_handle_valid qp (sa_queue ?args) = Some False"
    by (simp add: embb_mtapi_pool_is_handle_valid_def EMBB_MTAPI_IDPOOL_INVALID_ID_def)
  have sa: "task_pool ?sa = Some p'" "group_pool ?sa = Some gp" "queue_pool ?sa = Some qp" "get_job ?sa (hndl_id (sa_job ?args)) = Some j"
      "task_choose_action j ?sa = Some k" "action_pool ?sa = Some ap"
    using assms(1,5,6,8,15,17) task_choose_action_cong[of ?sa s j] by (simp_all add: state_simps)
  have "task_start_allocated env ?args i ?sa =
      (if ref_room s r then Some (MTAPI_SUCCESS, handle ?old, s2)
       else do { s3 \<leftarrow> embb_mtapi_task_delete i (set_task_pool (task_put i (x\<lparr>tk_state := MTAPI_TASK_ERROR\<rparr>) p1) s2);
                 Some (MTAPI_ERR_TASK_LIMIT, (handle ?old)\<lparr>hndl_id := EMBB_MTAPI_IDPOOL_INVALID_ID\<rparr>, s3) })"
    using task_start_reaches_schedule[OF sa(1) alloc(4) _ sa(2) _ sa(3) none sa(4,5) assms(7) sa(6) assms(9) _ na assms(20) _ s2(2), where env = env]
      assms(10,11,16) s2(1) alloc(4) by (simp add: p1 x)
  moreover have "mtapi_task_start env tid job arguments asize result rsize (Some a) grp s = task_start_allocated env ?args i ?sa"
    using assms(1,4,12,14) by (simp add: mtapi_task_start_def embb_mtapi_task_start_def Let_def)
  ultimately show ?thesis
    using that s2(2-6) owns1 alloc(2,4,5) valid by simp
qed

section \<open>Properties\<close>

text \<open>
  C3. Starting a task. On a node with a free slot for a task, starting a task with one instance, outside of groups and without a restriction of the cores, returns. If the public
  queue the slot selects has room, the status is \<^verbatim>\<open>MTAPI_SUCCESS\<close>, the handle is valid and names a scheduled task that
  carries the arguments and the chosen action, and the task is the last one in this queue; no other queue changes. Otherwise the status is \<^verbatim>\<open>MTAPI_ERR_TASK_LIMIT\<close>,
  no queue changes, and the same tasks are in use as before.
\<close>

theorem task_start_places:
  assumes "st_node s = Some n" "nd_scheduler n = Some c" "sched_ok n c"
    and "embb_mtapi_job_is_handle_valid n job = Some True" "get_job s (hndl_id job) = Some j"
    and "task_choose_action j s = Some k" "arr_get (jb_actions j) k = Some h"
    and "action_pool s = Some ap" "embb_mtapi_pool_is_handle_valid ap h = Some True"
    and "act = pl_storage ap ! unat (hndl_id h)" "ac_is_plugin_action act = 0"
    and "task_pool s = Some p" "pool_owns p used" "embb_mtapi_pool_allocate p = Some (Some i, p')"
    and "group_pool s = Some gp" "embb_mtapi_pool_is_handle_valid gp grp = Some False" "queue_pool s = Some qp"
    and "ta_num_instances a = 1" "ta_priority a < na_max_priorities (nd_attributes n)" "ta_is_detached a = 0"
    and "aa_affinity (ac_attributes act) AND ta_affinity a \<in> {0, nd_affinity_all n}"
    and "r = Public (i mod sc_worker_count c) (ta_priority a)"
  shows "\<exists>st h' s' p''. mtapi_task_start env tid job arguments asize result rsize (Some a) grp s = Some (st, h', s') \<and>
           task_pool s' = Some p'' \<and>
           (if ref_room s r then
              st = MTAPI_SUCCESS \<and> pool_owns p'' (insert i used) \<and> h' = handle (pl_storage p' ! unat i) \<and> hndl_id h' = i \<and> embb_mtapi_pool_is_handle_valid p'' h' = Some True \<and>
              (\<exists>x. get_task s' i = Some x \<and> handle x = h' \<and> tk_state x = MTAPI_TASK_SCHEDULED \<and> tk_action x = h \<and> tk_arguments x = arguments \<and>
                 tk_result_buffer x = result) \<and>
              (\<forall>r'. ref_tasks s' r' = (if r' = r then ref_tasks s r @ [i] else ref_tasks s r'))
            else st = MTAPI_ERR_TASK_LIMIT \<and> pool_owns p'' used \<and> (\<forall>r'. ref_tasks s' r' = ref_tasks s r'))"
proof -
  define x where "x = started_task \<lparr>sa_task_id = tid, sa_job = job, sa_arguments = arguments, sa_arguments_size = asize, sa_result_buffer = result,
        sa_result_size = rsize, sa_attributes = Some a, sa_group = grp, sa_queue = MTAPI_HNDL_NONE\<rparr> a h (pl_storage p' ! unat i)"
  define p1 where "p1 = task_put i x p'"
  obtain s2 where s2: "mtapi_task_start env tid job arguments asize result rsize (Some a) grp s =
      (if ref_room s r then Some (MTAPI_SUCCESS, handle (pl_storage p' ! unat i), s2)
       else do { s3 \<leftarrow> embb_mtapi_task_delete i (set_task_pool (task_put i (x\<lparr>tk_state := MTAPI_TASK_ERROR\<rparr>) p1) s2);
                 Some (MTAPI_ERR_TASK_LIMIT, (handle (pl_storage p' ! unat i))\<lparr>hndl_id := EMBB_MTAPI_IDPOOL_INVALID_ID\<rparr>, s3) })"
    "task_pool s2 = Some p1" "\<forall>r'. ref_tasks s2 r' = (if r' = r \<and> ref_room s r then ref_tasks s r @ [i] else ref_tasks s r')"
    "pool_owns p1 (insert i used)" "i \<notin> used" "unat i < length (pl_storage p')" "hndl_id (handle (pl_storage p' ! unat i)) = i"
    "embb_mtapi_pool_is_handle_valid p1 (handle (pl_storage p' ! unat i)) = Some True"
    by (rule task_start_run[OF assms x_def p1_def])
  have x: "get_task s2 i = Some x" "handle x = handle (pl_storage p' ! unat i)" "tk_state x = MTAPI_TASK_SCHEDULED" "tk_action x = h" "tk_arguments x = arguments"
      "tk_result_buffer x = result"
    using s2(2,6) by (simp_all add: upd_task_Some p1_def x_def)
  show ?thesis
  proof (cases "ref_room s r")
    case True
    then show ?thesis
      using s2 x by simp
  next
    case False
    let ?p3 = "task_put i (x\<lparr>tk_state := MTAPI_TASK_ERROR\<rparr>) p1"
    have p3: "task_pool (set_task_pool ?p3 s2) = Some ?p3" "pool_owns ?p3 (insert i used)"
      using task_pool_node[OF s2(2)] pool_owns_put[OF s2(4), of "x\<lparr>tk_state := MTAPI_TASK_ERROR\<rparr>" i] s2(6) x(2) by (simp_all add: state_simps p1_def)
    obtain p4 where p4: "embb_mtapi_task_delete i (set_task_pool ?p3 s2) = Some (set_task_pool p4 s2)" "pool_owns p4 used"
      using task_delete_owns[OF p3 insertI1] s2(5) by auto
    then show ?thesis
      using False s2(1,3) task_pool_node[OF s2(2)] by (simp add: frame_task_refs state_simps)
  qed
qed

lemma example_node_jobs:
  "embb_mtapi_job_is_handle_valid example_node \<lparr>hndl_tag = 0, hndl_id = 1\<rparr> = Some True"
  "get_job example_state 1 = Some (example_job \<lparr>hndl_tag = 0, hndl_id = 1\<rparr> 1)"
  by (simp_all add: embb_mtapi_job_is_handle_valid_def get_job_def)
     (simp_all add: example_node_def example_attributes_def example_job_def arr_get_def)

lemma example_choose: "task_choose_action (example_job \<lparr>hndl_tag = 0, hndl_id = 1\<rparr> 1) example_state = Some 0"
  by (simp add: task_choose_action_def)
     (simp add: example_job_def for_less.simps arr_get_def example_action_valid embb_mtapi_pool_get_storage_for_handle_def example_task_ready(3))

lemma example_room_2: "ref_room example_state (Public 0 1)" and example_room_private: "ref_room example_state (Private 1 1)"
  by (simp_all add: ref_room_def get_public_def get_private_def get_worker_def example_scheduler_def example_worker_def
      arr_get_def example_queue_wf example_queue_limit)

theorem task_start_places_witness:
  "\<exists>s' p'' x. mtapi_task_start idle_env 0 \<lparr>hndl_tag = 0, hndl_id = 1\<rparr> 64 4 128 4 (Some \<lparr>ta_is_detached = 0, ta_num_instances = 1,
       ta_priority = 1, ta_affinity = 3, ta_user_data = 0, ta_complete_func = 0\<rparr>) MTAPI_HNDL_NONE example_state =
       Some (MTAPI_SUCCESS, \<lparr>hndl_tag = 0, hndl_id = 2\<rparr>, s') \<and> task_pool s' = Some p'' \<and> pool_owns p'' {2, 1} \<and>
     get_task s' 2 = Some x \<and> tk_state x = MTAPI_TASK_SCHEDULED \<and> ref_tasks s' (Public 0 1) = [2]"
proof -
  let ?h = "\<lparr>hndl_tag = 0, hndl_id = 1\<rparr> :: mtapi_hndl"
  let ?a = "\<lparr>ta_is_detached = 0, ta_num_instances = 1, ta_priority = 1, ta_affinity = 3, ta_user_data = 0, ta_complete_func = 0\<rparr>"
  obtain p' where alloc: "embb_mtapi_pool_allocate (pool_of_2 example_task) = Some (Some 2, p')"
      "pl_storage p' ! 2 = (example_task \<lparr>hndl_tag = 0, hndl_id = 0\<rparr>)\<lparr>handle := \<lparr>hndl_tag = 0, hndl_id = 2\<rparr>\<rparr>"
    by (simp add: embb_mtapi_pool_allocate_def embb_mtapi_id_pool_allocate_def pool_of_2_def arr_get_def arr_set_def lock_simps
        EMBB_MTAPI_IDPOOL_INVALID_ID_def example_task_def Let_def)
  have job: "arr_get (jb_actions (example_job ?h 1)) 0 = Some ?h"
    by (simp add: example_job_def arr_get_def)
  have act: "ac_is_plugin_action (example_action ?h) = 0" "aa_affinity (ac_attributes (example_action ?h)) = 3"
      "example_action ?h = pl_storage (pool_of_1 example_action) ! unat (hndl_id ?h)"
    by (simp_all add: example_action_def pool_of_1_def)
  have none: "embb_mtapi_pool_is_handle_valid (pool_of_1 example_group) MTAPI_HNDL_NONE = Some False"
    by (simp add: embb_mtapi_pool_is_handle_valid_def EMBB_MTAPI_IDPOOL_INVALID_ID_def)
  have n: "nd_affinity_all example_node = 3" "ta_priority ?a < na_max_priorities (nd_attributes example_node)"
      "Public 0 1 = Public (2 mod sc_worker_count example_scheduler) (ta_priority ?a)"
    by (simp_all add: example_node_def example_attributes_def example_scheduler_def)
  note start = task_start_places[OF example_pools(6) example_schedule(1) example_sched_ok example_node_jobs(1) _ example_choose job example_pools(2)
      example_action_valid act(3,1) example_pools(1) example_pools_own(1) alloc(1) example_pools(3) none example_pools(4) _ n(2) _ _ n(3), of idle_env 0 64 4 128 4]
  then show ?thesis
    using example_node_jobs(2) act(2) n(1) example_room_2 alloc(2) by (auto simp: example_refs_empty)
qed

text \<open>
  C24. Order in ordered queues. However many tasks of an ordered queue are scheduled, if all are accepted they stand in one private queue, that of the
  worker the queue was created for, behind what was there and in the order in which they were scheduled; no other queue changes.
\<close>

theorem ordered_queue_keeps_order:
  assumes "ordered_queue s h k prio" "\<forall>t \<in> set ts. queue_task s h prio t" "schedule_all ts s = Some s'"
  shows "ref_tasks s' (Private k prio) = ref_tasks s (Private k prio) @ ts \<and>
         (\<forall>r. r \<noteq> Private k prio \<longrightarrow> ref_tasks s' r = ref_tasks s r)"
  using schedule_all_ordered[OF assms] by simp

lemma example_put_task:
  assumes "handle x = \<lparr>hndl_tag = 0, hndl_id = 1\<rparr>" and "s = set_task_pool (task_put 1 x (pool_of_2 example_task)) example_state"
  shows "get_task s 1 = Some x" "task_pool s = Some (task_put 1 x (pool_of_2 example_task))" "action_pool s = action_pool example_state"
    "queue_pool s = queue_pool example_state" "group_pool s = group_pool example_state" "scheduler s = scheduler example_state"
    "st_node s = Some (example_node\<lparr>nd_task_pool := Some (task_put 1 x (pool_of_2 example_task))\<rparr>)"
    "pool_owns (task_put 1 x (pool_of_2 example_task)) {1}" "pl_storage (task_put 1 x (pool_of_2 example_task)) ! 1 = x"
    "ref_room s r = ref_room example_state r" "ref_tasks s r = ref_tasks example_state r"
proof -
  show "pool_owns (task_put 1 x (pool_of_2 example_task)) {1}"
    by (rule pool_owns_put[OF example_pools_own(1)]) (simp add: pool_of_2_def example_task_def assms(1))
  show "get_task s 1 = Some x" "pl_storage (task_put 1 x (pool_of_2 example_task)) ! 1 = x"
    by (simp_all add: assms(2) get_task_def state_simps) (simp_all add: pool_of_2_def arr_get_def)
  show "st_node s = Some (example_node\<lparr>nd_task_pool := Some (task_put 1 x (pool_of_2 example_task))\<rparr>)"
    by (simp add: assms(2) set_task_pool_def)
qed (simp_all add: assms(2) state_simps frame_task_refs)

theorem ordered_queue_keeps_order_witness:
  "\<exists>s s'. put_task 1 (example_task \<lparr>hndl_tag = 0, hndl_id = 1\<rparr>\<lparr>tk_queue := \<lparr>hndl_tag = 0, hndl_id = 1\<rparr>\<rparr>) example_state = Some s \<and>
     schedule_all [1] s = Some s' \<and> ref_tasks s' (Private 1 1) = [1]"
proof -
  let ?h = "\<lparr>hndl_tag = 0, hndl_id = 1\<rparr> :: mtapi_hndl"
  let ?x = "example_task ?h\<lparr>tk_queue := ?h\<rparr>"
  let ?s = "set_task_pool (task_put 1 ?x (pool_of_2 example_task)) example_state"
  have x: "handle ?x = ?h" "tk_queue ?x = ?h" "ta_priority (tk_attributes ?x) = 1" "tk_action ?x = ?h"
    by (simp_all add: example_task_def)
  note s = example_put_task[OF x(1) refl]
  have put: "put_task 1 ?x example_state = Some ?s"
    by (simp add: put_task_def) (simp add: pool_of_2_def arr_set_def)
  have task: "queue_task ?s ?h 1 1"
    using s x example_action_valid by (simp add: queue_task_def)
  have valid: "embb_mtapi_pool_is_handle_valid (pool_of_1 example_mtapi_queue) ?h = Some True"
    by (subst pool_valid_iff[OF example_pools_own(4)]) (simp add: pool_of_1_def example_mtapi_queue_def)
  have q: "pl_storage (pool_of_1 example_mtapi_queue) ! 1 = example_mtapi_queue ?h"
    by (simp add: pool_of_1_def)
  have bits: "bit (2 :: u64) j \<longleftrightarrow> j = 1" if "j < 2" for j
    using that by (auto simp: less_2_cases_iff)
  have ok: "sched_ok (example_node\<lparr>nd_task_pool := p\<rparr>) example_scheduler" for p
    using example_sched_ok by (simp add: sched_ok_def)
  have "ordered_queue ?s ?h 1 1"
    unfolding ordered_queue_def s(7) s(4) using ok valid q bits
    by (simp add: example_schedule(1)) (simp add: example_node_def example_attributes_def example_scheduler_def example_mtapi_queue_def)
  moreover obtain s' where "schedule_all [1] ?s = Some s'"
    using ordered_queue_step[OF calculation task] example_room_private s(10) by auto
  ultimately show ?thesis
    using ordered_queue_keeps_order[of ?s ?h 1 1 "[1]" s'] task put s(11) by (auto simp: example_refs_empty)
qed





text \<open>
  A worker that waits for something else does not look at the state of the task it takes: it runs a cancelled task, and the last instance sets the task to completed.
\<close>

lemma waiting_worker_runs_cancelled:
  assumes "embb_mtapi_scheduler_get_next_task w u = Some (Some t, s)" "recording_actions env"
    and "task_ready s t" "get_task s t = Some x" "tk_state x = MTAPI_TASK_CANCELLED" "tk_error_code x = MTAPI_SUCCESS"
    and "get_action s (hndl_id (tk_action x)) = Some a"
  shows "\<exists>s'. embb_mtapi_scheduler_execute_task_or_yield env (Some w) u = Some s' \<and>
           st_calls s' = st_calls s @ [Action_Called (ac_action_function a) (task_call x a (next_context t x w))] \<and>
           (\<exists>x'. get_task s' t = Some x' \<and> tk_error_code x' = MTAPI_SUCCESS \<and>
              tk_state x' = (if tk_instances_todo x = 1 then MTAPI_TASK_COMPLETED else MTAPI_TASK_RUNNING))"
proof -
  obtain s3 where s3: "one_instance env w t s = Some (tk_instances_todo x = 1, s3)"
      "get_task s3 t = Some (instance_done (x\<lparr>tk_current_instance := tk_current_instance x + 1, tk_state := MTAPI_TASK_RUNNING\<rparr>))"
      "st_calls s3 = st_calls s @ [Action_Called (ac_action_function a) (task_call x a (next_context t x w))]"
    using one_instance_recorded[OF assms(2-4,6,7)] by blast
  have "embb_mtapi_scheduler_execute_task_or_yield env (Some w) u = do { (_, s) \<leftarrow> one_instance env w t s; Some s }"
    using assms(1) by (simp add: embb_mtapi_scheduler_execute_task_or_yield_def one_instance_def case_prod_unfold)
  then have "embb_mtapi_scheduler_execute_task_or_yield env (Some w) u = Some s3"
    using s3(1) by simp
  then show ?thesis
    using s3(2,3) assms(6) by (auto simp: instance_done_def)
qed

text \<open>
  Waiting for a task that has finished. The call returns the error code of the task. A task that is in no group is deleted: its slot is free again, its
  handle is invalid, and waiting once more is refused. A task in a group is left to the group.
\<close>

lemma task_wait_finished:
  assumes "task_pool s = Some p" "pool_owns p used" "hndl_id h \<in> used" "embb_mtapi_pool_is_handle_valid p h = Some True"
    and "x = pl_storage p ! unat (hndl_id h)" "tk_state x \<notin> {MTAPI_TASK_SCHEDULED, MTAPI_TASK_RUNNING, MTAPI_TASK_RETAINED}"
    and "group_pool s = Some gp" "embb_mtapi_pool_is_handle_valid gp (tk_group x) = Some in_group"
    and "wait_end_time dur0 end0 timeout s = Some e" "embb_mtapi_scheduler_get_current_thread_context thread s = Some cx"
  shows "\<exists>s' p'. mtapi_task_wait env dur0 end0 thread h timeout s = Some (tk_error_code x, s') \<and> task_pool s' = Some p' \<and>
           (if in_group then s' = s
            else pool_owns p' (used - {hndl_id h}) \<and> mtapi_task_wait env dur0 end0 thread h timeout s' = Some (MTAPI_ERR_TASK_INVALID, s'))"
proof -
  have t: "unat (hndl_id h) < length (pl_storage p)" and node: "st_node s \<noteq> None"
    using pool_valid_in_bounds[OF assms(4)] task_pool_node[OF assms(1)] by simp_all
  have x: "get_task s (hndl_id h) = Some x"
    using upd_task_Some(3)[OF assms(1) t] assms(5) by simp
  have "wait_loop (task_unfinished (hndl_id h)) env cx e timeout s = Some (True, s)"
    using x assms(6) by (subst wait_loop.simps) (simp add: task_unfinished_def)
  then have wait: "embb_mtapi_scheduler_wait_for_task env dur0 end0 thread (hndl_id h) timeout s = Some (True, s)"
    using assms(9,10) by (simp add: embb_mtapi_scheduler_wait_for_task_def)
  have run: "mtapi_task_wait env dur0 end0 thread h timeout s =
      do { s' \<leftarrow> (if \<not> in_group then embb_mtapi_task_delete (hndl_id h) s else Some s); Some (tk_error_code x, s') }"
    using node assms(1,4,7,8) wait x by (auto simp: mtapi_task_wait_def embb_mtapi_pool_get_storage_for_handle_def)
  obtain p' where p': "embb_mtapi_task_delete (hndl_id h) s = Some (set_task_pool p' s)" "pool_owns p' (used - {hndl_id h})"
      "pool_tag p' (hndl_id h) = pool_tag p (hndl_id h) + 1"
    using task_delete_owns[OF assms(1-3)] by blast
  have "embb_mtapi_pool_is_handle_valid p' h = Some False"
    using p'(3) assms(4) by (auto simp: pool_valid_iff[OF p'(2)] pool_valid_iff[OF assms(2)])
  then have "mtapi_task_wait env dur0 end0 thread h timeout (set_task_pool p' s) = Some (MTAPI_ERR_TASK_INVALID, set_task_pool p' s)"
    using node by (auto simp: mtapi_task_wait_def state_simps split: option.splits)
  then show ?thesis
    using run p' assms(1) node by (simp add: state_simps)
qed

end
