(* ===== verification/Group_Wait.thy ===== *)
theory Group_Wait
  imports Group_Api Task_Execution
begin

text \<open>
  Waiting for a group: the loop that takes the finished tasks out of the queue of the group ends, deletes exactly these tasks and counts them, and
  \<^verbatim>\<open>mtapi_group_wait_all\<close> returns and deletes the group when all tasks of the group have finished.
\<close>

section \<open>Taking one task from the queue of a group\<close>

text \<open>A group whose slot is in bounds and whose queue is in order.\<close>

definition group_at :: "mtapi_state \<Rightarrow> u32 \<Rightarrow> embb_mtapi_group embb_mtapi_pool \<Rightarrow> embb_mtapi_group \<Rightarrow> bool" where
  "group_at s i gp g \<longleftrightarrow> group_pool s = Some gp \<and> unat i < length (pl_storage gp) \<and> pl_storage gp ! unat i = g \<and>
     task_queue_wf (gr_queue g)"

abbreviation group_put :: "u32 \<Rightarrow> embb_mtapi_group \<Rightarrow> embb_mtapi_group embb_mtapi_pool \<Rightarrow> embb_mtapi_group embb_mtapi_pool" where
  "group_put i g gp \<equiv> gp\<lparr>pl_storage := (pl_storage gp)[unat i := g]\<rparr>"

lemma set_pools_commute:
  "set_task_pool p (set_group_pool gp s) = set_group_pool gp (set_task_pool p s)"
  by (cases "st_node s") (simp_all add: set_task_pool_def set_group_pool_def)

lemma set_pools_same:
  "group_pool s = Some gp \<Longrightarrow> set_group_pool gp s = s"
  "task_pool s = Some p \<Longrightarrow> set_task_pool p s = s"
  by (cases "st_node s"; auto simp: group_pool_def set_group_pool_def task_pool_def set_task_pool_def)+

lemma group_put_same: "pl_storage gp ! unat i = g \<Longrightarrow> group_put i g gp = gp"
  by (cases gp) auto

lemma group_at_put:
  assumes "group_at s i gp g" "task_queue_wf (gr_queue g')"
  shows "group_at (set_group_pool (group_put i g' gp) (set_task_pool p s)) i (group_put i g' gp) g'"
  using assms group_pool_node[of s gp] by (simp add: group_at_def state_simps)

lemma group_pop_none:
  assumes "group_at s i gp g" "tq_tasks (gr_queue g) = []"
  shows "group_pop i s = Some (None, s)"
  using assms task_queue_pop_none[of "gr_queue g"]
  by (auto simp: group_pop_def group_at_def upd_group_Some group_put_same set_pools_same)

lemma group_pop_some:
  assumes "group_at s i gp g" "tq_tasks (gr_queue g) = t # ts"
  shows "\<exists>q. group_pop i s = Some (Some t, set_group_pool (group_put i (g\<lparr>gr_queue := q\<rparr>) gp) s) \<and> task_queue_wf q \<and> tq_tasks q = ts"
  using assms task_queue_pop_some[of "gr_queue g" t ts]
  by (auto simp: group_pop_def group_at_def upd_group_Some)

lemma group_task_done_effect:
  assumes g: "group_at s i gp g" and p: "task_pool s = Some p" "pool_owns p used" "t \<in> used"
  shows "\<exists>p'. group_task_done i t s =
             Some (set_group_pool (group_put i (g\<lparr>gr_num_tasks := gr_num_tasks g - 1\<rparr>) gp) (set_task_pool p' s)) \<and>
           pool_owns p' (used - {t}) \<and> pool_tag p' t = pool_tag p t + 1 \<and>
           pool_capacity p' = pool_capacity p \<and> (\<forall>j. j \<noteq> t \<longrightarrow> pl_storage p' ! unat j = pl_storage p ! unat j)"
proof -
  obtain p' where p': "embb_mtapi_task_delete t s = Some (set_task_pool p' s)" "pool_owns p' (used - {t})" "pool_tag p' t = pool_tag p t + 1"
      "pool_capacity p' = pool_capacity p" "\<forall>j. j \<noteq> t \<longrightarrow> pl_storage p' ! unat j = pl_storage p ! unat j"
    using task_delete_owns[OF p] by blast
  then show ?thesis
    using g by (auto simp: group_task_done_def group_at_def upd_group_Some state_simps embb_atomic_fetch_and_add_def)
qed

section \<open>Draining the queue of a group\<close>

text \<open>The error the caller gets: that of the last task that failed.\<close>

fun last_error :: "embb_mtapi_task embb_mtapi_pool \<Rightarrow> u32 list \<Rightarrow> mtapi_status \<Rightarrow> mtapi_status" where
  "last_error p [] e = e"
| "last_error p (t # ts) e = last_error p ts
     (if tk_error_code (pl_storage p ! unat t) \<noteq> MTAPI_SUCCESS then tk_error_code (pl_storage p ! unat t) else e)"

lemma last_error_cong:
  "(\<And>t. t \<in> set ts \<Longrightarrow> pl_storage p' ! unat t = pl_storage p ! unat t) \<Longrightarrow> last_error p' ts e = last_error p ts e"
  by (induction ts arbitrary: e) auto

lemma last_error_in: "last_error p ts e = e \<or> (\<exists>t \<in> set ts. last_error p ts e = tk_error_code (pl_storage p ! unat t))"
proof (induction ts arbitrary: e)
  case (Cons t ts)
  then show ?case
    using Cons.IH[of "if tk_error_code (pl_storage p ! unat t) \<noteq> MTAPI_SUCCESS then tk_error_code (pl_storage p ! unat t) else e"]
    by (auto split: if_splits)
qed simp

text \<open>
  What draining leaves behind: the tasks \<open>ts\<close> are deleted, the others are untouched, the queue of the group is empty and its number of tasks
  is smaller by the number of tasks deleted.
\<close>

definition drained ::
    "u32 \<Rightarrow> u32 list \<Rightarrow> embb_mtapi_group \<Rightarrow> embb_mtapi_group embb_mtapi_pool \<Rightarrow> embb_mtapi_task embb_mtapi_pool \<Rightarrow> u32 set \<Rightarrow>
     mtapi_state \<Rightarrow> mtapi_state \<Rightarrow> bool" where
  "drained i ts g gp p used s s' \<longleftrightarrow> (\<exists>q p'. let g' = g\<lparr>gr_queue := q, gr_num_tasks := gr_num_tasks g - of_nat (length ts)\<rparr> in
     s' = set_group_pool (group_put i g' gp) (set_task_pool p' s) \<and> task_queue_wf q \<and> tq_tasks q = [] \<and>
     pool_owns p' (used - set ts) \<and> pool_capacity p' = pool_capacity p \<and>
     (\<forall>j. pool_tag p' j = (if j \<in> set ts then pool_tag p j + 1 else pool_tag p j)) \<and>
     (\<forall>j. j \<notin> set ts \<longrightarrow> pl_storage p' ! unat j = pl_storage p ! unat j))"

lemma group_drain_effect:
  assumes "group_at s i gp g" "task_pool s = Some p" "pool_owns p used"
    and "tq_tasks (gr_queue g) = ts" "distinct ts" "set ts \<subseteq> used"
  shows "\<exists>s'. group_drain i e s = Some (last_error p ts e, s') \<and> drained i ts g gp p used s s'"
  using assms
proof (induction ts arbitrary: s gp g p used e)
  case Nil
  have "drained i [] g gp p used s s"
    unfolding drained_def Let_def using Nil.prems
    by (intro exI[of _ "gr_queue g"] exI[of _ p]) (auto simp: group_at_def set_pools_same group_put_same)
  then show ?case
    using group_pop_none[OF Nil.prems(1,4)] by (subst group_drain.simps) simp
next
  case (Cons t ts)
  obtain q where q: "group_pop i s = Some (Some t, set_group_pool (group_put i (g\<lparr>gr_queue := q\<rparr>) gp) s)" "task_queue_wf q" "tq_tasks q = ts"
    using group_pop_some[OF Cons.prems(1,4)] by blast
  let ?g1 = "g\<lparr>gr_queue := q\<rparr>" and ?gp1 = "group_put i (g\<lparr>gr_queue := q\<rparr>) gp"
  let ?s1 = "set_group_pool ?gp1 s"
  let ?x = "pl_storage p ! unat t"
  have t: "t \<in> used" "unat t < length (pl_storage p)"
    using Cons.prems(6) pool_owns_used[OF Cons.prems(3), of t] pool_owns_in_bounds[OF Cons.prems(3)] by auto
  have at1: "group_at ?s1 i ?gp1 ?g1" and p1: "task_pool ?s1 = Some p"
    using group_at_put[OF Cons.prems(1), of ?g1 p] q(2) Cons.prems(2) by (simp_all add: set_pools_same state_simps)
  obtain p' where p': "group_task_done i t ?s1 = Some (set_group_pool (group_put i (?g1\<lparr>gr_num_tasks := gr_num_tasks g - 1\<rparr>) ?gp1) (set_task_pool p' ?s1))"
      "pool_owns p' (used - {t})" "pool_tag p' t = pool_tag p t + 1" "pool_capacity p' = pool_capacity p"
      "\<forall>j. j \<noteq> t \<longrightarrow> pl_storage p' ! unat j = pl_storage p ! unat j"
    using group_task_done_effect[OF at1 p1 Cons.prems(3) t(1)] by auto
  let ?g2 = "?g1\<lparr>gr_num_tasks := gr_num_tasks g - 1\<rparr>" and ?gp2 = "group_put i (?g1\<lparr>gr_num_tasks := gr_num_tasks g - 1\<rparr>) gp"
  let ?s2 = "set_group_pool ?gp2 (set_task_pool p' s)"
  let ?e = "if tk_error_code ?x \<noteq> MTAPI_SUCCESS then tk_error_code ?x else e"
  have fin: "group_task_done i t ?s1 = Some ?s2"
    using p'(1) by (simp add: set_pools_commute)
  have at2: "group_at ?s2 i ?gp2 ?g2"
    using group_at_put[OF Cons.prems(1), of ?g2 p'] q(2) by simp
  have p2: "task_pool ?s2 = Some p'"
    using task_pool_node[OF Cons.prems(2)] by (simp add: state_simps)
  have x: "get_task ?s1 t = Some ?x"
    using p1 t(2) by (simp add: upd_task_Some)
  obtain s' where s': "group_drain i ?e ?s2 = Some (last_error p' ts ?e, s')" "drained i ts ?g2 ?gp2 p' (used - {t}) ?s2 s'"
    using Cons.IH[OF at2 p2 p'(2), of ?e] q(3) Cons.prems(5,6) by auto
  have "group_drain i e s = group_drain i ?e ?s2"
    by (subst group_drain.simps) (simp add: q(1) x fin)
  moreover have "last_error p' ts ?e = last_error p (t # ts) e"
  proof -
    have "pl_storage p' ! unat j = pl_storage p ! unat j" if "j \<in> set ts" for j
      using p'(5) Cons.prems(5) that by auto
    from last_error_cong[OF this] show ?thesis
      by simp
  qed
  moreover have "drained i (t # ts) g gp p used s s'"
  proof -
    obtain q' p'' where d: "s' = set_group_pool (group_put i (?g2\<lparr>gr_queue := q', gr_num_tasks := gr_num_tasks ?g2 - of_nat (length ts)\<rparr>) ?gp2) (set_task_pool p'' ?s2)"
        "task_queue_wf q'" "tq_tasks q' = []" "pool_owns p'' (used - {t} - set ts)" "pool_capacity p'' = pool_capacity p'"
        "\<forall>j. pool_tag p'' j = (if j \<in> set ts then pool_tag p' j + 1 else pool_tag p' j)"
        "\<forall>j. j \<notin> set ts \<longrightarrow> pl_storage p'' ! unat j = pl_storage p' ! unat j"
      using s'(2) unfolding drained_def Let_def by blast
    have "used - {t} - set ts = used - set (t # ts)"
      by auto
    then show ?thesis
      unfolding drained_def Let_def using d p'(3-5) Cons.prems(5)
      by (intro exI[of _ q'] exI[of _ p'']) (auto simp: set_pools_commute algebra_simps)
  qed
  ultimately show ?case
    using s'(1) by auto
qed

section \<open>Deleting the group\<close>

lemma group_delete_effect:
  assumes n: "st_node s = Some n" and gp: "group_pool s = Some gp" "pool_owns gp used" "hndl_id h \<in> used"
    and h: "embb_mtapi_pool_is_handle_valid gp h = Some True" "gr_deleted (pl_storage gp ! unat (hndl_id h)) = 0"
  shows "\<exists>gp'. mtapi_group_delete h s = Some (MTAPI_SUCCESS, set_group_pool gp' s) \<and> pool_owns gp' (used - {hndl_id h}) \<and>
           embb_mtapi_pool_is_handle_valid gp' h = Some False"
proof -
  let ?i = "hndl_id h" and ?a = "Some (nd_attributes n)"
  let ?g = "embb_mtapi_group_finalize ?a (pl_storage gp ! unat ?i)"
  have i: "unat ?i < length (pl_storage gp)"
    using pool_valid_in_bounds[OF h(1)] .
  let ?gp1 = "group_put ?i ?g gp"
  have owns1: "pool_owns ?gp1 used"
    using pool_owns_put[OF gp(2), of ?g ?i] by simp
  obtain gp' calls where gp': "embb_mtapi_pool_deallocate (group_finalizer ?a) ?gp1 ?i = Some (gp', calls)"
      "pool_owns gp' (used - {?i})" "pool_capacity gp' = pool_capacity ?gp1" "pool_tag gp' ?i = pool_tag ?gp1 ?i + 1"
    using group_type.pool_deallocate_owns[OF owns1 gp(3), of ?a] by blast
  have attr: "node_attr s = ?a"
    using n by simp
  have "group_finalize_deallocate ?i s = Some (set_group_pool gp' s)"
    using gp'(1) gp(1) i n attr by (simp add: group_finalize_deallocate_def upd_group_Some state_simps)
  then have "mtapi_group_delete h s = Some (MTAPI_SUCCESS, set_group_pool gp' s)"
    using n gp(1) h i by (simp add: mtapi_group_delete_def upd_group_Some embb_mtapi_pool_get_storage_for_handle_def Let_def)
  moreover have "embb_mtapi_pool_is_handle_valid gp' h = Some False"
    using gp'(4) h(1) i by (auto simp: pool_valid_iff[OF gp'(2)] pool_valid_iff[OF gp(2)])
  ultimately show ?thesis
    using gp'(2) by blast
qed

section \<open>An example\<close>

text \<open>The example node with its task in the queue of its group.\<close>

definition example_group_done :: embb_mtapi_group where
  "example_group_done = (example_group \<lparr>hndl_tag = 0, hndl_id = 1\<rparr>)
     \<lparr>gr_queue := example_queue\<lparr>tq_task_buffer := [Some 1, None], tq_tasks_available := 1, tq_put_task_position := 1\<rparr>\<rparr>"

definition example_done :: mtapi_state where
  "example_done = set_group_pool (group_put 1 example_group_done (pool_of_1 example_group)) example_state"

lemma example_done:
  "group_at example_done 1 (group_put 1 example_group_done (pool_of_1 example_group)) example_group_done"
  "task_pool example_done = Some (pool_of_2 example_task)"
  "tq_tasks (gr_queue example_group_done) = [1]"
  "pool_owns (group_put 1 example_group_done (pool_of_1 example_group)) {1}"
proof -
  show tasks: "tq_tasks (gr_queue example_group_done) = [1]"
    by (simp add: example_group_done_def example_queue_def tq_tasks_def tq_slots_def ring_list_def)
  have "task_queue_wf (gr_queue example_group_done)"
    by (simp add: example_group_done_def example_queue_def task_queue_wf_def tq_slots_def ring_list_def ring_wf_def)
  then show "group_at example_done 1 (group_put 1 example_group_done (pool_of_1 example_group)) example_group_done"
      "task_pool example_done = Some (pool_of_2 example_task)"
    by (simp_all add: group_at_def example_done_def state_simps) (simp add: pool_of_1_def)
  show "pool_owns (group_put 1 example_group_done (pool_of_1 example_group)) {1}"
    by (rule pool_owns_put[OF example_pools_own(3)]) (simp add: pool_of_1_def example_group_done_def)
qed

section \<open>Properties\<close>

text \<open>
  Collecting finished tasks. The inner loop of waiting for a group always ends: it deletes exactly the tasks in the queue of the group, so
  that their handles become invalid, leaves all other tasks alone, lowers the number of tasks of the group by as many, and returns the
  error of the last one that failed.
\<close>

lemma group_drain_collects:
  assumes "group_at s i gp g" "task_pool s = Some p" "pool_owns p used"
    and "distinct (tq_tasks (gr_queue g))" "set (tq_tasks (gr_queue g)) \<subseteq> used"
  shows "\<exists>s' p' g'. group_drain i e s = Some (last_error p (tq_tasks (gr_queue g)) e, s') \<and>
           task_pool s' = Some p' \<and> pool_owns p' (used - set (tq_tasks (gr_queue g))) \<and>
           (\<forall>t \<in> set (tq_tasks (gr_queue g)). embb_mtapi_pool_is_handle_valid p' (handle (pl_storage p ! unat t)) = Some False) \<and>
           (\<forall>t. t \<notin> set (tq_tasks (gr_queue g)) \<longrightarrow> pl_storage p' ! unat t = pl_storage p ! unat t) \<and>
           get_group s' i = Some g' \<and> tq_tasks (gr_queue g') = [] \<and>
           gr_num_tasks g' = gr_num_tasks g - of_nat (length (tq_tasks (gr_queue g)))"
proof -
  let ?ts = "tq_tasks (gr_queue g)"
  obtain s' where s': "group_drain i e s = Some (last_error p ?ts e, s')" "drained i ?ts g gp p used s s'"
    using group_drain_effect[OF assms(1-3) refl assms(4,5)] by blast
  obtain q p' where d: "s' = set_group_pool (group_put i (g\<lparr>gr_queue := q, gr_num_tasks := gr_num_tasks g - of_nat (length ?ts)\<rparr>) gp) (set_task_pool p' s)"
      "tq_tasks q = []" "pool_owns p' (used - set ?ts)" "pool_capacity p' = pool_capacity p"
      "\<forall>j. pool_tag p' j = (if j \<in> set ?ts then pool_tag p j + 1 else pool_tag p j)"
      "\<forall>j. j \<notin> set ?ts \<longrightarrow> pl_storage p' ! unat j = pl_storage p ! unat j"
    using s'(2) unfolding drained_def Let_def by blast
  have n: "st_node s \<noteq> None" and i: "unat i < length (pl_storage gp)"
    using task_pool_node[OF assms(2)] assms(1) by (auto simp: group_at_def)
  have "hndl_id (handle (pl_storage p ! unat t)) = t" if "t \<in> set ?ts" for t
    using assms(3,5) that pool_owns_used[OF assms(3), of t] by (auto simp: pool_owns_def)
  then have "\<forall>t \<in> set ?ts. embb_mtapi_pool_is_handle_valid p' (handle (pl_storage p ! unat t)) = Some False"
    using d(5) by (auto simp: pool_valid_iff[OF d(3)])
  moreover have "task_pool s' = Some p'"
    using n by (simp add: d(1) state_simps)
  moreover have "get_group s' i = Some (g\<lparr>gr_queue := q, gr_num_tasks := gr_num_tasks g - of_nat (length ?ts)\<rparr>)"
    using n i by (simp add: d(1) get_group_def arr_simps state_simps)
  ultimately show ?thesis
    using s'(1) d(2,3,6) by auto
qed

text \<open>Other threads that run while the caller yields and leave the node alone.\<close>

definition quiet_yields :: "mtapi_env \<Rightarrow> bool" where
  "quiet_yields env \<longleftrightarrow> (\<forall>s. \<exists>s'. env_yield env s = Some s' \<and> st_node s' = st_node s)"

lemma group_wait_all_loop_done:
  assumes "get_group s i = Some g" "gr_num_tasks g = 0"
  shows "group_wait_all_loop env cx end_time timeout i e s = Some (e, s)"
  using assms by (subst group_wait_all_loop.simps) simp

lemma group_wait_all_loop_once:
  assumes at: "group_at s i gp g" and p: "task_pool s = Some p" "pool_owns p used"
    and ts: "tq_tasks (gr_queue g) = ts" "distinct ts" "set ts \<subseteq> used" "gr_num_tasks g = of_nat (length ts)"
    and env: "quiet_yields env" and timeout: "timeout < 0"
  shows "\<exists>s1 s'. group_wait_all_loop env None end_time timeout i e s = Some (last_error p ts e, s') \<and>
           drained i ts g gp p used s s1 \<and> st_node s' = st_node s1"
proof (cases "gr_num_tasks g = 0")
  case True
  have "length ts < 2 ^ 32"
    using task_fifo.length_bound[of "gr_queue g"] at ts(1) unat_u32_less[of "tq_limit (gr_queue g)"] by (simp add: group_at_def)
  then have "unat (gr_num_tasks g) = length ts"
    using ts(4) unat_of_nat_u32 by simp
  then have "ts = []"
    using True by simp
  moreover have "drained i [] g gp p used s s"
    unfolding drained_def Let_def using at p ts(1) \<open>ts = []\<close>
    by (intro exI[of _ "gr_queue g"] exI[of _ p]) (auto simp: group_at_def set_pools_same group_put_same)
  ultimately show ?thesis
    using group_wait_all_loop_done[of s i g env None end_time timeout e] at True by (auto simp: group_at_def upd_group_Some)
next
  case False
  obtain s1 where s1: "group_drain i e s = Some (last_error p ts e, s1)" "drained i ts g gp p used s s1"
    using group_drain_effect[OF at p ts(1-3)] by blast
  obtain s' where s': "env_yield env s1 = Some s'" "st_node s' = st_node s1"
    using env by (auto simp: quiet_yields_def)
  obtain q p' where "s1 = set_group_pool (group_put i (g\<lparr>gr_queue := q, gr_num_tasks := gr_num_tasks g - of_nat (length ts)\<rparr>) gp) (set_task_pool p' s)"
    using s1(2) unfolding drained_def Let_def by blast
  then have "get_group s1 i = Some (g\<lparr>gr_queue := q, gr_num_tasks := 0\<rparr>)"
    using at ts(4) group_pool_node[of s gp] by (simp add: group_at_def get_group_def arr_simps state_simps)
  then have "get_group s' i = Some (g\<lparr>gr_queue := q, gr_num_tasks := 0\<rparr>)"
    using s'(2) by (simp add: get_group_def group_pool_def)
  then have rest: "group_wait_all_loop env None end_time timeout i (last_error p ts e) s' = Some (last_error p ts e, s')"
    by (intro group_wait_all_loop_done) auto
  have "group_wait_all_loop env None end_time timeout i e s = Some (last_error p ts e, s')"
    using False at timeout rest
    by (subst group_wait_all_loop.simps)
       (simp add: group_at_def upd_group_Some wait_timed_out_def s1(1) embb_mtapi_scheduler_execute_task_or_yield_def s'(1))
  then show ?thesis
    using s1(2) s'(2) by blast
qed

text \<open>
  C8. Waiting for all tasks of a group. When all tasks of the group have finished, the call, made without a timeout by a thread that is no worker,
  returns: with \<^verbatim>\<open>MTAPI_SUCCESS\<close>, or the error of the last task that failed. Afterwards exactly the tasks of the group are deleted and the handle of the group is invalid.
\<close>

theorem group_wait_all_completes:
  assumes "group_at s (hndl_id h) gp g" "pool_owns gp groups" "hndl_id h \<in> groups" "gr_deleted g = 0"
    and "embb_mtapi_pool_is_handle_valid gp h = Some True"
    and "task_pool s = Some p" "pool_owns p used" "tq_tasks (gr_queue g) = ts" "distinct ts" "set ts \<subseteq> used"
    and "gr_num_tasks g = of_nat (length ts)" "\<forall>t \<in> set ts. tk_error_code (pl_storage p ! unat t) \<noteq> MTAPI_TIMEOUT"
    and "embb_mtapi_scheduler_get_current_thread_context thread s = Some None" "quiet_yields env" "timeout < 0"
  shows "\<exists>s' p' gp'. mtapi_group_wait_all env dur0 end0 thread h timeout s = Some (last_error p ts MTAPI_SUCCESS, s') \<and>
           task_pool s' = Some p' \<and> pool_owns p' (used - set ts) \<and>
           group_pool s' = Some gp' \<and> pool_owns gp' (groups - {hndl_id h}) \<and> embb_mtapi_pool_is_handle_valid gp' h = Some False"
proof -
  let ?i = "hndl_id h" and ?e = "last_error p ts MTAPI_SUCCESS"
  have gp: "group_pool s = Some gp" "unat ?i < length (pl_storage gp)" "pl_storage gp ! unat ?i = g"
    using assms(1) by (auto simp: group_at_def)
  obtain s1 s2 where loop: "group_wait_all_loop env None end0 timeout ?i MTAPI_SUCCESS s = Some (?e, s2)"
      "drained ?i ts g gp p used s s1" "st_node s2 = st_node s1"
    using group_wait_all_loop_once[OF assms(1,6-11,14,15)] by blast
  obtain q p' where s1: "s1 = set_group_pool (group_put ?i (g\<lparr>gr_queue := q, gr_num_tasks := gr_num_tasks g - of_nat (length ts)\<rparr>) gp) (set_task_pool p' s)"
      "pool_owns p' (used - set ts)"
    using loop(2) unfolding drained_def Let_def by blast
  let ?gp1 = "group_put ?i (g\<lparr>gr_queue := q, gr_num_tasks := gr_num_tasks g - of_nat (length ts)\<rparr>) gp"
  have node: "st_node s \<noteq> None"
    using group_pool_node[OF gp(1)] .
  then obtain n where n: "st_node s2 = Some n"
    using loop(3) s1(1) by (cases "st_node s2") (auto simp: set_group_pool_def set_task_pool_def)
  have pools: "group_pool s2 = Some ?gp1" "task_pool s2 = Some p'"
    using loop(3) node by (simp_all add: group_pool_def task_pool_def s1(1) set_group_pool_def set_task_pool_def split: option.splits)
       (auto simp: set_group_pool_def set_task_pool_def)
  have owns1: "pool_owns ?gp1 groups" and valid1: "embb_mtapi_pool_is_handle_valid ?gp1 h = Some True"
      and del1: "gr_deleted (pl_storage ?gp1 ! unat ?i) = 0"
    using pool_owns_put[OF assms(2), of _ ?i] pool_valid_put[of _ gp ?i] assms(4,5) gp by simp_all
  obtain gp' where gp': "mtapi_group_delete h s2 = Some (MTAPI_SUCCESS, set_group_pool gp' s2)"
      "pool_owns gp' (groups - {?i})" "embb_mtapi_pool_is_handle_valid gp' h = Some False"
    using group_delete_effect[OF n pools(1) owns1 assms(3) valid1 del1] by blast
  have "?e \<noteq> MTAPI_TIMEOUT"
    using last_error_in[of p ts MTAPI_SUCCESS] assms(12) by auto
  then have "mtapi_group_wait_all env dur0 end0 thread h timeout s = Some (?e, set_group_pool gp' s2)"
    using node gp(1) assms(5,13,15) loop(1) gp'(1)
    by (auto simp: mtapi_group_wait_all_def wait_end_time_def embb_mtapi_pool_get_storage_for_handle_def Let_def)
  then show ?thesis
    using gp'(2,3) s1(2) pools(2) n by (simp add: state_simps)
qed

theorem group_wait_all_completes_witness:
  "\<exists>s' p' gp'. mtapi_group_wait_all idle_env \<lparr>du_seconds = 0, du_nanoseconds = 0\<rparr> \<lparr>ti_seconds = 0, ti_nanoseconds = 0\<rparr> 0
       \<lparr>hndl_tag = 0, hndl_id = 1\<rparr> (- 1) example_done = Some (MTAPI_SUCCESS, s') \<and>
     task_pool s' = Some p' \<and> pool_owns p' {} \<and> group_pool s' = Some gp' \<and> pool_owns gp' {}"
proof -
  let ?h = "\<lparr>hndl_tag = 0, hndl_id = 1\<rparr> :: mtapi_hndl" and ?gp = "group_put 1 example_group_done (pool_of_1 example_group)"
  have err: "last_error (pool_of_2 example_task) [1] MTAPI_SUCCESS = MTAPI_SUCCESS"
      "\<forall>t \<in> set [1]. tk_error_code (pl_storage (pool_of_2 example_task) ! unat t) \<noteq> MTAPI_TIMEOUT"
    by (simp_all add: pool_of_2_def example_task_def)
  have g: "gr_deleted example_group_done = 0" "gr_num_tasks example_group_done = of_nat (length [1::nat])"
    by (simp_all add: example_group_done_def example_group_def)
  have valid: "embb_mtapi_pool_is_handle_valid ?gp ?h = Some True"
    by (subst pool_valid_iff[OF example_done(4)]) (simp add: pool_of_1_def example_group_done_def example_group_def)
  have thread: "embb_mtapi_scheduler_get_current_thread_context 0 example_done = Some None"
    by (simp add: embb_mtapi_scheduler_get_current_thread_context_def example_done_def state_simps get_worker_def)
       (simp add: example_scheduler_def for_break.simps arr_get_def example_worker_def)
  have "quiet_yields idle_env"
    by (simp add: quiet_yields_def idle_env_def)
  with group_wait_all_completes[where h = ?h and groups = "{1}" and used = "{1}" and ts = "[1]" and thread = 0 and timeout = "- 1",
      of example_done ?gp example_group_done "pool_of_2 example_task" idle_env]
  show ?thesis
    using example_done example_pools_own(1) err g valid thread by (simp del: last_error.simps) blast
qed

end
