(* ===== verification/Node_Init.thy ===== *)
theory Node_Init
  imports Node_Api Scheduler_Search
begin

text \<open>
  Initialization of a node: the cores the workers are pinned to, and the state in which \<^verbatim>\<open>mtapi_initialize\<close> leaves the node. It satisfies the
  invariants of the components, on which the theorems about their operations rest.
\<close>

section \<open>The cores of the workers\<close>

text \<open>The loop finds the core that has \<open>ii\<close> cores of the node below it, and ends if the node has more than \<open>ii\<close> cores.\<close>

lemma card_bits_le: "card (bits_of b) \<le> 64"
  using card_mono[OF _ bits.bounded, of b] by simp

lemma find_core_from:
  assumes "unat ll \<le> unat ii" "unat ii - unat ll < card {j \<in> bits_of (rep cores). unat c \<le> j}"
  shows "\<exists>k. find_core cores ii ll c = Some k \<and> unat k \<in> bits_of (rep cores) \<and> unat c \<le> unat k \<and>
     card {j \<in> bits_of (rep cores). unat c \<le> j \<and> j < unat k} = unat ii - unat ll"
  using assms
proof (induction cores ii ll c rule: find_core.induct)
  case (1 cores ii ll c)
  let ?B = "bits_of (rep cores)"
  have "{j \<in> ?B. unat c \<le> j} \<noteq> {}"
    using 1(4) by (metis card.empty not_less0)
  then have c64: "unat c < 64"
    using cores.bounded[of cores] by force
  then have inc: "unat (c + 1) = Suc (unat c)"
    by (intro unat_inc_bound[of _ 64]) simp_all
  have contains: "embb_core_set_contains cores c = Some (if unat c \<in> ?B then 1 else 0)"
    using c64 by (rule cores.contains)
  have rest: "{j \<in> ?B. unat c \<le> j} = (if unat c \<in> ?B then {unat c} else {}) \<union> {j \<in> ?B. unat (c + 1) \<le> j}"
    by (auto simp: inc Suc_le_eq le_less)
  have below: "{j \<in> ?B. unat c \<le> j \<and> j < unat k} = (if unat c \<in> ?B then {unat c} else {}) \<union> {j \<in> ?B. unat (c + 1) \<le> j \<and> j < unat k}"
    if "unat (c + 1) \<le> unat k" for k :: u32
    using that by (auto simp: inc Suc_le_eq le_less)
  show ?case
  proof (cases "unat c \<in> ?B \<and> ll = ii")
    case True
    then show ?thesis
      by (subst find_core.simps) (auto simp: contains)
  next
    case False
    let ?ll = "if unat c \<in> ?B then ll + 1 else ll"
    have succ: "unat (ll + 1) = Suc (unat ll)" if "ll \<noteq> ii"
      using that 1(3) by (intro unat_inc_less[of ll ii]) (simp add: word_less_unat word_unat_eq_iff)
    have ll: "unat ?ll = unat ll + (if unat c \<in> ?B then 1 else 0)" "unat ?ll \<le> unat ii"
      using False 1(3) succ by (auto simp: word_unat_eq_iff)
    have "card {j \<in> ?B. unat c \<le> j} = card {j \<in> ?B. unat (c + 1) \<le> j} + (if unat c \<in> ?B then 1 else 0)"
      unfolding rest by (subst card_Un_disjoint) (auto simp: inc)
    then have room: "unat ii - unat ?ll < card {j \<in> ?B. unat (c + 1) \<le> j}"
      using 1(4) ll by (auto split: if_splits)
    have "\<exists>k. find_core cores ii ?ll (c + 1) = Some k \<and> unat k \<in> ?B \<and> unat (c + 1) \<le> unat k \<and>
       card {j \<in> ?B. unat (c + 1) \<le> j \<and> j < unat k} = unat ii - unat ?ll"
      using 1(1,2)[OF contains] False ll(2) room by (cases "unat c \<in> ?B") (simp_all add: )
    then obtain k where k: "find_core cores ii ?ll (c + 1) = Some k" "unat k \<in> ?B" "unat (c + 1) \<le> unat k"
       "card {j \<in> ?B. unat (c + 1) \<le> j \<and> j < unat k} = unat ii - unat ?ll"
      by blast
    have "card {j \<in> ?B. unat c \<le> j \<and> j < unat k} = unat ii - unat ll"
      unfolding below[OF k(3)] using k(4) ll False by (subst card_Un_disjoint) (auto simp: inc)
    moreover have "find_core cores ii ll c = find_core cores ii ?ll (c + 1)"
      using False by (subst find_core.simps) (auto simp: contains)
    ultimately show ?thesis
      using k inc by auto
  qed
qed

lemma find_core_nth:
  assumes "unat ii < card (bits_of (rep cores))"
  shows "\<exists>k. find_core cores ii 0 0 = Some k \<and> unat k \<in> bits_of (rep cores) \<and> card {j \<in> bits_of (rep cores). j < unat k} = unat ii"
  using find_core_from[of 0 ii cores 0] assms by simp

section \<open>The workers\<close>

text \<open>A worker that is set up: its queues are empty, and it is pinned to the core of the node that has as many cores below it as the worker has workers before it.\<close>

definition worker_ready :: "mtapi_node_attributes \<Rightarrow> nat \<Rightarrow> embb_mtapi_thread_context \<Rightarrow> bool" where
  "worker_ready a k x \<longleftrightarrow> worker_wf x \<and> tc_priorities x = na_max_priorities a \<and> tc_worker_index x = of_nat k \<and>
     (\<forall>i < unat (na_max_priorities a). tq_tasks (tc_queue x ! i) = [] \<and> tq_tasks (tc_private_queue x ! i) = [] \<and>
        tq_limit (tc_queue x ! i) = na_queue_limit a \<and> tq_limit (tc_private_queue x ! i) = na_queue_limit a) \<and>
     unat (tc_core_num x) \<in> bits_of (rep (na_core_affinity a)) \<and> card {j \<in> bits_of (rep (na_core_affinity a)). j < unat (tc_core_num x)} = k"

lemma worker_ready_start:
  assumes "worker_ready a k x"
  shows "\<exists>ok y. embb_mtapi_thread_context_start outcome w x = Some (ok, y) \<and> worker_ready a k y \<and> (ok \<longleftrightarrow> (\<exists>t. outcome = Worker_Up t)) \<and> (ok \<longrightarrow> tc_run y = 1)"
proof -
  have "unat (tc_core_num x) < 64"
    using assms bits.bounded[of "rep (na_core_affinity a)"] by (auto simp: worker_ready_def)
  then obtain s where "embb_core_set_add (embb_core_set.make (embb_bitset_clear_all 0)) (tc_core_num x) = Some s"
    using cores.add by blast
  then show ?thesis
    using assms by (auto simp: embb_mtapi_thread_context_start_def embb_core_set_init_def worker_ready_def worker_wf_def embb_core_set.make_def split: start_outcome.splits)
qed

lemma worker_ready_cores:
  assumes "worker_ready a i x" "worker_ready a j y" "i < j"
  shows "tc_core_num x < tc_core_num y"
proof (rule ccontr)
  let ?B = "bits_of (rep (na_core_affinity a))"
  assume "\<not> tc_core_num x < tc_core_num y"
  then have "card {k \<in> ?B. k < unat (tc_core_num y)} \<le> card {k \<in> ?B. k < unat (tc_core_num x)}"
    by (intro card_mono) (auto simp: word_less_unat)
  then show False
    using assms by (simp add: worker_ready_def)
qed

text \<open>The sizes of the structures of the scheduler fit the byte counts of their allocations.\<close>

definition scheduler_fits :: "nat \<Rightarrow> mtapi_node_attributes \<Rightarrow> bool" where
  "scheduler_fits context_size a \<longleftrightarrow> 0 < context_size \<and> context_size * unat (na_num_cores a) < 2 ^ 32 \<and> 40 * unat (na_max_priorities a) < 2 ^ 32 \<and>
     8 * unat (na_queue_limit a) < 2 ^ 32 \<and> unat (na_num_cores a) \<le> card (bits_of (rep (na_core_affinity a)))"

lemma scheduler_contexts_ready:
  assumes fits: "scheduler_fits context_size (nd_attributes node)"
  shows "\<exists>cs. for_less (\<lambda>ii contexts.
              do { core_num \<leftarrow> find_core (na_core_affinity (nd_attributes node)) ii 0 0;
                   x \<leftarrow> arr_get contexts ii;
                   x \<leftarrow> embb_mtapi_thread_context_initialize_with_node_worker_and_core garbage_queues garbage_tasks node x ii core_num;
                   arr_set contexts ii x })
            0 (na_num_cores (nd_attributes node)) (map garbage [0..<alloc_count context_size (na_num_cores (nd_attributes node))]) = Some cs \<and>
     length cs = unat (na_num_cores (nd_attributes node)) \<and> (\<forall>j < unat (na_num_cores (nd_attributes node)). worker_ready (nd_attributes node) j (cs ! j))"
proof (rule for_less_rule[where P = "\<lambda>k cs. length cs = unat (na_num_cores (nd_attributes node)) \<and> (\<forall>j < k. worker_ready (nd_attributes node) j (cs ! j))"])
  let ?a = "nd_attributes node"
  fix k cs
  assume k: "k < unat (na_num_cores ?a)" and P: "length cs = unat (na_num_cores ?a) \<and> (\<forall>j < k. worker_ready ?a j (cs ! j))"
  have uk: "unat (of_nat k :: u32) = k"
    using k unat_u32_less[of "na_num_cores ?a"] by (simp add: unat_of_nat_u32)
  obtain c where c: "find_core (na_core_affinity ?a) (of_nat k) 0 0 = Some c" "unat c \<in> bits_of (rep (na_core_affinity ?a))"
      "card {j \<in> bits_of (rep (na_core_affinity ?a)). j < unat c} = k"
    using find_core_nth[of "of_nat k" "na_core_affinity ?a"] k fits by (auto simp: uk scheduler_fits_def)
  obtain x where x: "embb_mtapi_thread_context_initialize_with_node_worker_and_core garbage_queues garbage_tasks node (cs ! k) (of_nat k) c = Some x"
      "worker_ready ?a k x"
    using thread_context_initialize_wf[of node garbage_queues garbage_tasks "cs ! k" "of_nat k" c] c fits by (auto simp: scheduler_fits_def worker_ready_def)
  show "\<exists>t'. (do { core_num \<leftarrow> find_core (na_core_affinity ?a) (word_of_nat k) 0 0; x \<leftarrow> arr_get cs (word_of_nat k);
       x \<leftarrow> embb_mtapi_thread_context_initialize_with_node_worker_and_core garbage_queues garbage_tasks node x (word_of_nat k) core_num; arr_set cs (word_of_nat k) x }) = Some t' \<and>
     length t' = unat (na_num_cores ?a) \<and> (\<forall>j < Suc k. worker_ready ?a j (t' ! j))"
    using P k x c(1) by (auto simp: arr_simps uk nth_list_update less_Suc_eq)
qed (use fits in \<open>simp_all add: scheduler_fits_def alloc_count_exact\<close>)

lemma scheduler_workers_start:
  assumes cs: "length cs = unat n" "\<forall>j < unat n. worker_ready a j (cs ! j)"
  shows "\<exists>ok cs'. for_break (\<lambda>ii (started, contexts).
              do { x \<leftarrow> arr_get contexts ii;
                   (ok, x) \<leftarrow> embb_mtapi_thread_context_start (outcome ii) ii x;
                   contexts \<leftarrow> arr_set contexts ii x;
                   Some (ok, ok, contexts) }) 0 n (True, cs) = Some (ok, cs') \<and>
     length cs' = unat n \<and> (\<forall>j < unat n. worker_ready a j (cs' ! j)) \<and> (ok \<longleftrightarrow> (\<forall>i < n. \<exists>t. outcome i = Worker_Up t)) \<and>
     (ok \<longrightarrow> (\<forall>j < unat n. tc_run (cs' ! j) = 1))"
proof -
  let ?body = "\<lambda>ii (started :: bool, contexts).
              do { x \<leftarrow> arr_get contexts ii;
                   (ok, x) \<leftarrow> embb_mtapi_thread_context_start (outcome ii) ii x;
                   contexts \<leftarrow> arr_set contexts ii x;
                   Some (ok, ok, contexts) }"
  let ?R = "\<lambda>cs'. length cs' = unat n \<and> (\<forall>j < unat n. worker_ready a j (cs' ! j))"
  let ?P = "\<lambda>k (ok, cs'). ok \<and> ?R cs' \<and> (\<forall>i < k. \<exists>t. outcome (of_nat i) = Worker_Up t) \<and> (\<forall>j < k. tc_run (cs' ! j) = 1)"
  let ?Q = "\<lambda>(ok, cs'). ?R cs' \<and> (ok \<longleftrightarrow> (\<forall>i < unat n. \<exists>t. outcome (of_nat i) = Worker_Up t)) \<and> (ok \<longrightarrow> (\<forall>j < unat n. tc_run (cs' ! j) = 1))"
  have "\<exists>t. for_break ?body 0 n (True, cs) = Some t \<and> ?Q t"
  proof (rule for_break_rule[where P = ?P])
    fix k t
    assume k: "k < unat n" and P: "?P k t"
    obtain cs1 where t: "t = (True, cs1)" "?R cs1"
      using P by (cases t) auto
    have uk: "unat (of_nat k :: u32) = k"
      using k unat_u32_less[of n] by (simp add: unat_of_nat_u32)
    obtain ok y where y: "embb_mtapi_thread_context_start (outcome (of_nat k)) (of_nat k) (cs1 ! k) = Some (ok, y)" "worker_ready a k y"
        "ok \<longleftrightarrow> (\<exists>t. outcome (of_nat k) = Worker_Up t)" "ok \<longrightarrow> tc_run y = 1"
      using worker_ready_start[of a k "cs1 ! k"] t(2) k by blast
    have "?body (of_nat k) t = Some (ok, ok, cs1[k := y])"
      using t k y(1) by (simp add: arr_simps uk)
    then show "\<exists>go t'. ?body (of_nat k) t = Some (go, t') \<and> (if go then ?P (Suc k) t' else ?Q t')"
      using P t k y(2-4) by (auto simp: nth_list_update less_Suc_eq)
  qed (use cs in auto)
  moreover have "(\<forall>i < unat n. \<exists>t. outcome (of_nat i) = Worker_Up t) \<longleftrightarrow> (\<forall>i < n. \<exists>t. outcome i = Worker_Up t)"
  proof (intro iffI allI impI)
    fix i
    assume "\<forall>i < unat n. \<exists>t. outcome (of_nat i) = Worker_Up t" and "i < n"
    then have "\<exists>t. outcome (of_nat (unat i)) = Worker_Up t"
      by (simp only: word_less_unat)
    then show "\<exists>t. outcome i = Worker_Up t"
      by simp
  next
    fix i
    assume "\<forall>i < n. \<exists>t. outcome i = Worker_Up t" and "i < unat n"
    then show "\<exists>t. outcome (of_nat i) = Worker_Up t"
      using unat_u32_less[of n] by (simp add: word_less_unat unat_of_nat_u32)
  qed
  ultimately show ?thesis
    by auto
qed

lemma scheduler_initialize_ready:
  assumes "scheduler_fits context_size (nd_attributes node)"
  shows "\<exists>ok c. embb_mtapi_scheduler_initialize context_size garbage garbage_queues garbage_tasks outcome node = Some (ok, c) \<and>
     sc_worker_count c = na_num_cores (nd_attributes node) \<and> length (sc_worker_contexts c) = unat (sc_worker_count c) \<and> sc_mode c = WORK_STEAL_VHPF \<and>
     (\<forall>j < unat (sc_worker_count c). worker_ready (nd_attributes node) j (sc_worker_contexts c ! j)) \<and>
     (ok \<longleftrightarrow> (\<forall>i < sc_worker_count c. \<exists>t. outcome i = Worker_Up t)) \<and> (ok \<longrightarrow> (\<forall>j < unat (sc_worker_count c). tc_run (sc_worker_contexts c ! j) = 1))"
proof -
  let ?n = "na_num_cores (nd_attributes node)"
  obtain cs where cs: "for_less (\<lambda>ii contexts.
              do { core_num \<leftarrow> find_core (na_core_affinity (nd_attributes node)) ii 0 0;
                   x \<leftarrow> arr_get contexts ii;
                   x \<leftarrow> embb_mtapi_thread_context_initialize_with_node_worker_and_core garbage_queues garbage_tasks node x ii core_num;
                   arr_set contexts ii x })
            0 ?n (map garbage [0..<alloc_count context_size ?n]) = Some cs"
     "length cs = unat ?n" "\<forall>j < unat ?n. worker_ready (nd_attributes node) j (cs ! j)"
    using scheduler_contexts_ready[OF assms] by blast
  obtain ok cs' where "for_break (\<lambda>ii (started, contexts).
              do { x \<leftarrow> arr_get contexts ii;
                   (ok, x) \<leftarrow> embb_mtapi_thread_context_start (outcome ii) ii x;
                   contexts \<leftarrow> arr_set contexts ii x;
                   Some (ok, ok, contexts) }) 0 ?n (True, cs) = Some (ok, cs')"
     "length cs' = unat ?n" "\<forall>j < unat ?n. worker_ready (nd_attributes node) j (cs' ! j)" "ok \<longleftrightarrow> (\<forall>i < ?n. \<exists>t. outcome i = Worker_Up t)"
     "ok \<longrightarrow> (\<forall>j < unat ?n. tc_run (cs' ! j) = 1)"
    using scheduler_workers_start[OF cs(2,3), of outcome] by blast
  then show ?thesis
    unfolding embb_mtapi_scheduler_initialize_def embb_mtapi_scheduler_initialize_with_mode_def Let_def cs(1) by simp
qed

section \<open>Jobs and pools\<close>

lemma job_initialize_empty:
  assumes "8 * unat n < 2 ^ 32"
  shows "\<exists>j'. embb_mtapi_job_initialize garbage j n = Some j' \<and> job_wf j' \<and> jb_num_actions j' = 0 \<and> jb_max_actions j' = n"
proof -
  have "\<exists>as. for_less (\<lambda>ii actions. do { a \<leftarrow> arr_get actions ii; arr_set actions ii (a\<lparr>hndl_id := EMBB_MTAPI_IDPOOL_INVALID_ID\<rparr>) })
      0 n (map garbage [0..<alloc_count 8 n]) = Some as \<and> length as = unat n"
  proof (rule for_less_rule[where P = "\<lambda>k as. length as = unat n"])
    fix k and as :: "mtapi_hndl list"
    assume "k < unat n" "length as = unat n"
    then show "\<exists>t'. (do { a \<leftarrow> arr_get as (word_of_nat k); arr_set as (word_of_nat k) (a\<lparr>hndl_id := EMBB_MTAPI_IDPOOL_INVALID_ID\<rparr>) }) = Some t' \<and> length t' = unat n"
      using unat_u32_less[of n] by (simp add: arr_simps unat_of_nat_u32)
  qed (use assms in \<open>simp_all add: alloc_count_exact\<close>)
  then show ?thesis
    by (auto simp: embb_mtapi_job_initialize_def job_wf_def Let_def)
qed

text \<open>The jobs of a node: each is empty and carries its index as its handle.\<close>

definition jobs_ready :: "mtapi_node_attributes \<Rightarrow> embb_mtapi_job list \<Rightarrow> bool" where
  "jobs_ready a js \<longleftrightarrow> length js = Suc (unat (na_max_jobs a)) \<and> (\<forall>i \<le> na_max_jobs a. job_wf (js ! unat i) \<and> job_handles (js ! unat i) = [] \<and>
     jb_max_actions (js ! unat i) = na_max_actions_per_job a \<and> handle (js ! unat i) = \<lparr>hndl_tag = 0, hndl_id = i\<rparr>)"

lemma job_initialize_list_ready:
  assumes "8 * unat (na_max_actions_per_job (nd_attributes node)) < 2 ^ 32" "32 * Suc (unat (na_max_jobs (nd_attributes node))) < 2 ^ 32"
  shows "\<exists>js. embb_mtapi_job_initialize_list garbage garbage_actions node = Some (True, node\<lparr>nd_job_list := js\<rparr>) \<and> jobs_ready (nd_attributes node) js"
proof -
  let ?n = "na_max_jobs (nd_attributes node)" and ?m = "na_max_actions_per_job (nd_attributes node)"
  let ?body = "\<lambda>ii jobs. do { job \<leftarrow> arr_get jobs ii; job \<leftarrow> embb_mtapi_job_initialize (garbage_actions (unat ii)) job ?m;
                   arr_set jobs ii (job\<lparr>handle := \<lparr>hndl_tag = 0, hndl_id = ii\<rparr>\<rparr>) }"
  let ?R = "\<lambda>j (i :: u32). job_wf j \<and> job_handles j = [] \<and> jb_max_actions j = ?m \<and> handle j = \<lparr>hndl_tag = 0, hndl_id = i\<rparr>"
  have n1: "unat (?n + 1) = Suc (unat ?n)"
    using assms(2) by (intro unat_inc_bound[of _ "2 ^ 32 - 1"]) auto
  then have max: "?n < - 1"
    using unat_u32_less[of "?n + 1"] by (simp add: word_less_unat unat_max_u32)
  have "\<exists>js. for_less ?body 0 (?n + 1) (map garbage [0..<alloc_count 32 (?n + 1)]) = Some js \<and> length js = Suc (unat ?n) \<and> (\<forall>i < unat (?n + 1). ?R (js ! i) (of_nat i))"
  proof (rule for_less_rule[where P = "\<lambda>k js. length js = Suc (unat ?n) \<and> (\<forall>i < k. ?R (js ! i) (of_nat i))"])
    fix k js
    assume k: "k < unat (?n + 1)" and P: "length js = Suc (unat ?n) \<and> (\<forall>i < k. ?R (js ! i) (of_nat i))"
    have uk: "unat (of_nat k :: u32) = k"
      using k unat_u32_less[of "?n + 1"] by (simp add: unat_of_nat_u32)
    obtain j where "embb_mtapi_job_initialize (garbage_actions k) (js ! k) ?m = Some j" "job_wf j" "jb_num_actions j = 0" "jb_max_actions j = ?m"
      using job_initialize_empty[OF assms(1)] by blast
    then show "\<exists>t'. ?body (of_nat k) js = Some t' \<and> length t' = Suc (unat ?n) \<and> (\<forall>i < Suc k. ?R (t' ! i) (of_nat i))"
      using P k n1 by (auto simp: arr_simps uk nth_list_update less_Suc_eq job_wf_def job_handles_def)
  qed (use assms(2) n1 in \<open>simp_all add: alloc_count_exact\<close>)
  then obtain js where js: "for_less ?body 0 (?n + 1) (map garbage [0..<alloc_count 32 (?n + 1)]) = Some js" "length js = Suc (unat ?n)"
      "\<And>i. i < unat (?n + 1) \<Longrightarrow> ?R (js ! i) (of_nat i)"
    by blast
  have "?R (js ! unat i) i" if "i \<le> ?n" for i
    using js(3)[of "unat i"] that n1 by (simp add: word_le_unat)
  then show ?thesis
    using js(1,2) by (auto simp: embb_mtapi_job_initialize_list_def for_le_for_less[OF max] jobs_ready_def)
qed

definition pool_fresh :: "'b pool_object_scheme embb_mtapi_pool \<Rightarrow> u32 \<Rightarrow> bool" where
  "pool_fresh p cap \<longleftrightarrow> pool_owns p {} \<and> pool_capacity p = cap \<and> (\<forall>i \<le> cap. pool_tag p i = 0)"

lemma pool_new_fresh:
  assumes "4 \<le> sz" "sz * Suc (unat cap) < 2 ^ 32" "\<And>x. handle (initialize x) = handle x"
  shows "\<exists>p. embb_mtapi_pool_new initialize sz garbage_ids garbage True cap = Some (Some p) \<and> pool_fresh p cap"
  using pool_initialize_owns[of sz cap initialize garbage_ids garbage] assms by (auto simp: embb_mtapi_pool_new_def pool_fresh_def)

text \<open>What initialization needs: the blocks are there, and all sizes fit the byte counts of their allocations.\<close>

definition pool_fits :: "nat \<Rightarrow> u32 \<Rightarrow> bool" where
  "pool_fits sz cap \<longleftrightarrow> 4 \<le> sz \<and> sz * Suc (unat cap) < 2 ^ 32"

definition init_fits :: "init_params \<Rightarrow> mtapi_node_attributes \<Rightarrow> bool" where
  "init_fits ip a \<longleftrightarrow> ip_node_block ip \<and> ip_scheduler_block ip \<and> ip_pool_blocks ip = [True, True, True, True] \<and>
     scheduler_fits (ip_context_size ip) a \<and> 0 < na_num_cores a \<and>
     8 * unat (na_max_actions_per_job a) < 2 ^ 32 \<and> 32 * Suc (unat (na_max_jobs a)) < 2 ^ 32 \<and>
     pool_fits (ip_sizes ip ! 0) (na_max_actions a) \<and> pool_fits (ip_sizes ip ! 1) (na_max_groups a) \<and>
     pool_fits (ip_sizes ip ! 2) (na_max_tasks a) \<and> pool_fits (ip_sizes ip ! 3) (na_max_queues a)"

text \<open>A node whose storage is set up: no object of any pool is in use, and no job has an action.\<close>

definition storage_fresh :: "embb_mtapi_node \<Rightarrow> bool" where
  "storage_fresh n \<longleftrightarrow> jobs_ready (nd_attributes n) (nd_job_list n) \<and>
     (\<exists>ap gp tp qp. nd_action_pool n = Some ap \<and> pool_fresh ap (na_max_actions (nd_attributes n)) \<and> nd_group_pool n = Some gp \<and> pool_fresh gp (na_max_groups (nd_attributes n)) \<and>
        nd_task_pool n = Some tp \<and> pool_fresh tp (na_max_tasks (nd_attributes n)) \<and> nd_queue_pool n = Some qp \<and> pool_fresh qp (na_max_queues (nd_attributes n)))"

lemma node_storage_new_fresh:
  assumes "init_fits ip (nd_attributes node)"
  shows "\<exists>node'. node_storage_new ip node = Some node' \<and> storage_fresh node' \<and> nd_attributes node' = nd_attributes node \<and> nd_affinity_all node' = nd_affinity_all node"
proof -
  let ?a = "nd_attributes node"
  note fits = assms[unfolded init_fits_def pool_fits_def]
  obtain js where js: "embb_mtapi_job_initialize_list (ip_jobs ip) (ip_job_actions ip) node = Some (True, node\<lparr>nd_job_list := js\<rparr>)" "jobs_ready ?a js"
    using job_initialize_list_ready[of node] fits by blast
  obtain ap where ap: "embb_mtapi_pool_new embb_mtapi_action_initialize (ip_sizes ip ! 0) (ip_ids ip) (ip_actions ip) True (na_max_actions ?a) = Some (Some ap)"
      "pool_fresh ap (na_max_actions ?a)"
    using pool_new_fresh[of "ip_sizes ip ! 0" "na_max_actions ?a" embb_mtapi_action_initialize] fits by (auto simp: embb_mtapi_action_initialize_def)
  obtain gp where gp: "embb_mtapi_pool_new (embb_mtapi_group_initialize (Some ?a)) (ip_sizes ip ! 1) (ip_ids ip) (ip_groups ip) True (na_max_groups ?a) = Some (Some gp)"
      "pool_fresh gp (na_max_groups ?a)"
    using pool_new_fresh[of "ip_sizes ip ! 1" "na_max_groups ?a" "embb_mtapi_group_initialize (Some ?a)"] fits by (auto simp: embb_mtapi_group_initialize_def)
  obtain tp where tp: "embb_mtapi_pool_new embb_mtapi_task_initialize (ip_sizes ip ! 2) (ip_ids ip) (ip_tasks ip) True (na_max_tasks ?a) = Some (Some tp)"
      "pool_fresh tp (na_max_tasks ?a)"
    using pool_new_fresh[of "ip_sizes ip ! 2" "na_max_tasks ?a" embb_mtapi_task_initialize] fits by auto
  obtain qp where qp: "embb_mtapi_pool_new (embb_mtapi_queue_initialize (Some ?a)) (ip_sizes ip ! 3) (ip_ids ip) (ip_queues ip) True (na_max_queues ?a) = Some (Some qp)"
      "pool_fresh qp (na_max_queues ?a)"
    using pool_new_fresh[of "ip_sizes ip ! 3" "na_max_queues ?a" "embb_mtapi_queue_initialize (Some ?a)"] fits by (auto simp: embb_mtapi_queue_initialize_def)
  have blocks: "ip_pool_blocks ip ! 0" "ip_pool_blocks ip ! 1" "ip_pool_blocks ip ! 2" "ip_pool_blocks ip ! 3"
    using fits by simp_all
  have "node_storage_new ip node = Some (node\<lparr>nd_job_list := js, nd_action_pool := Some ap, nd_group_pool := Some gp, nd_task_pool := Some tp, nd_queue_pool := Some qp\<rparr>)"
    using ap(1) gp(1) tp(1) qp(1) blocks by (simp add: node_storage_new_def js(1))
  then show ?thesis
    using js(2) ap(2) gp(2) tp(2) qp(2) by (auto simp: storage_fresh_def)
qed

lemma initialize_ready:
  assumes "st_node s = None" "init_fits ip a" "\<forall>i < na_num_cores a. \<exists>t. ip_outcome ip i = Worker_Up t"
  shows "\<exists>info n c s'. mtapi_initialize ip env domain_id node_id (Some a) s = Some (MTAPI_SUCCESS, Some info, s') \<and>
     st_node s' = Some n \<and> nd_attributes n = a \<and> bits_of (nd_affinity_all n) = {..<unat (na_num_cores a)} \<and> storage_fresh n \<and> nd_scheduler n = Some c \<and> sched_wf s' \<and> sc_mode c = WORK_STEAL_VHPF \<and> sc_worker_count c = na_num_cores a \<and>
     (\<forall>j < unat (na_num_cores a). worker_ready a j (sc_worker_contexts c ! j) \<and> tc_run (sc_worker_contexts c ! j) = 1) \<and>
     (\<forall>i j. i < j \<and> j < unat (na_num_cores a) \<longrightarrow> tc_core_num (sc_worker_contexts c ! i) < tc_core_num (sc_worker_contexts c ! j))"
proof -
  have "unat (na_num_cores a) \<le> 64"
    using assms(2) card_bits_le[of "rep (na_core_affinity a)"] by (simp add: init_fits_def scheduler_fits_def)
  then obtain b where b: "embb_bitset_set_n (embb_bitset_clear_all (nd_affinity_all (ip_node ip))) (na_num_cores a) = Some b" "bits_of b = {..<unat (na_num_cores a)}"
    using bits_of_set_n by blast
  let ?node = "(ip_node ip)\<lparr>nd_domain_id := domain_id, nd_node_id := node_id, nd_attributes := a, nd_affinity_all := b, nd_is_scheduler_running := 0\<rparr>"
  obtain n where n: "node_storage_new ip ?node = Some n" "storage_fresh n" "nd_attributes n = a" "nd_affinity_all n = b"
    using node_storage_new_fresh[of ip ?node] assms(2) by auto
  let ?n = "n\<lparr>nd_scheduler := None\<rparr>"
  obtain c where c: "embb_mtapi_scheduler_initialize (ip_context_size ip) (ip_contexts ip) (ip_task_queues ip) (ip_task_slots ip) (ip_outcome ip) ?n = Some (True, c)"
     "sc_worker_count c = na_num_cores a" "length (sc_worker_contexts c) = unat (na_num_cores a)" "sc_mode c = WORK_STEAL_VHPF"
     "\<forall>j < unat (na_num_cores a). worker_ready a j (sc_worker_contexts c ! j) \<and> tc_run (sc_worker_contexts c ! j) = 1"
    using scheduler_initialize_ready[of "ip_context_size ip" ?n "ip_contexts ip" "ip_task_queues ip" "ip_task_slots ip" "ip_outcome ip"] assms(2,3) n(3)
    by (auto simp: init_fits_def)
  let ?info = "\<lparr>in_hardware_concurrency = embb_core_count_available (ip_nprocs ip), in_used_memory = ip_bytes_allocated ip\<rparr>"
  let ?m = "n\<lparr>nd_scheduler := Some c, nd_info := ?info, nd_is_scheduler_running := 1\<rparr>"
  have "mtapi_initialize ip env domain_id node_id (Some a) s = Some (MTAPI_SUCCESS, Some ?info, s\<lparr>st_node := Some ?m\<rparr>)"
    using assms(1,2) b(1) n(1) c(1) by (simp add: mtapi_initialize_def init_fits_def mtapi_affinity_init_def embb_mtapi_scheduler_new_def Let_def)
  moreover have "sched_ok ?m c"
    using c(2,3,5) n(3) assms(2) by (simp add: sched_ok_def worker_ready_def init_fits_def)
  moreover have "storage_fresh ?m"
    using n(2) by (simp add: storage_fresh_def)
  moreover have "tc_core_num (sc_worker_contexts c ! i) < tc_core_num (sc_worker_contexts c ! j)" if "i < j" "j < unat (na_num_cores a)" for i j
    using c(5) that by (intro worker_ready_cores[of a i _ j]) auto
  ultimately show ?thesis
    using c n(3,4) b(2) by (auto simp: sched_wf_def)
qed

section \<open>Properties\<close>

text \<open>
  C4. Initialization establishes the invariants of the node. When the node is not yet initialized, all blocks can be allocated with sizes that fit their byte counts, the attributes ask for at most as many cores as
  their core set has, and every worker starts, \<^verbatim>\<open>mtapi_initialize\<close> returns \<^verbatim>\<open>MTAPI_SUCCESS\<close> and a node with one worker per core: the workers have empty queues, are pinned to pairwise different cores of the set in
  ascending order, and run; every pool is empty with the capacity that was asked for, and every job is empty.
\<close>

theorem initialize_establishes_invariants:
  assumes "st_node s = None" "init_fits ip a" "\<forall>i < na_num_cores a. \<exists>t. ip_outcome ip i = Worker_Up t"
  shows "\<exists>info n c s'. mtapi_initialize ip env domain_id node_id (Some a) s = Some (MTAPI_SUCCESS, Some info, s') \<and>
     st_node s' = Some n \<and> nd_attributes n = a \<and> storage_fresh n \<and> nd_scheduler n = Some c \<and> sched_wf s' \<and> sc_mode c = WORK_STEAL_VHPF \<and> sc_worker_count c = na_num_cores a \<and>
     (\<forall>j < unat (na_num_cores a). worker_ready a j (sc_worker_contexts c ! j) \<and> tc_run (sc_worker_contexts c ! j) = 1) \<and>
     (\<forall>i j. i < j \<and> j < unat (na_num_cores a) \<longrightarrow> tc_core_num (sc_worker_contexts c ! i) < tc_core_num (sc_worker_contexts c ! j))"
  using initialize_ready[OF assms] by blast


text \<open>Surroundings in which every allocation succeeds and the workers are the threads 1 and 2.\<close>

definition example_init :: init_params where
  "example_init = \<lparr>ip_node_block = True, ip_scheduler_block = True, ip_pool_blocks = [True, True, True, True], ip_nprocs = 2, ip_outcome = (\<lambda>w. Worker_Up (w + 1)),
     ip_sizes = [96, 88, 144, 72], ip_context_size = 256, ip_node = example_node, ip_jobs = (\<lambda>_. example_job \<lparr>hndl_tag = 7, hndl_id = 7\<rparr> 7),
     ip_job_actions = (\<lambda>_ _. \<lparr>hndl_tag = 7, hndl_id = 7\<rparr>), ip_ids = (\<lambda>_. 7), ip_actions = (\<lambda>_. example_action \<lparr>hndl_tag = 7, hndl_id = 7\<rparr>),
     ip_groups = (\<lambda>_. example_group \<lparr>hndl_tag = 7, hndl_id = 7\<rparr>), ip_tasks = (\<lambda>_. example_task \<lparr>hndl_tag = 7, hndl_id = 7\<rparr>),
     ip_queues = (\<lambda>_. example_mtapi_queue \<lparr>hndl_tag = 7, hndl_id = 7\<rparr>), ip_contexts = (\<lambda>_. example_worker 7), ip_task_queues = (\<lambda>_. example_queue),
     ip_task_slots = (\<lambda>_. Some 7), ip_bytes_allocated = 65536\<rparr>"

lemma bits_of_3: "bits_of 3 = {0, 1}"
proof (rule set_eqI)
  fix x
  show "x \<in> bits_of 3 \<longleftrightarrow> x \<in> {0, 1}"
    by (cases x) (auto simp: bits_of_def bit_simps bit_numeral_rec(2)[of num.One])
qed

lemma init_fits_example: "init_fits example_init example_attributes"
  by (simp add: init_fits_def scheduler_fits_def pool_fits_def example_init_def example_attributes_def bits_of_3)

theorem initialize_establishes_invariants_witness:
  "\<exists>info n c s'. mtapi_initialize example_init idle_env 1 1 (Some example_attributes) (example_state\<lparr>st_node := None\<rparr>) = Some (MTAPI_SUCCESS, Some info, s') \<and>
     st_node s' = Some n \<and> storage_fresh n \<and> nd_scheduler n = Some c \<and> sched_wf s' \<and> tc_core_num (sc_worker_contexts c ! 0) < tc_core_num (sc_worker_contexts c ! 1)"
proof -
  have "st_node (example_state\<lparr>st_node := None\<rparr>) = None" "\<forall>i < na_num_cores example_attributes. \<exists>t. ip_outcome example_init i = Worker_Up t"
     "(0 :: nat) < 1" "1 < unat (na_num_cores example_attributes)"
    by (simp_all add: example_init_def example_attributes_def)
  then show ?thesis
    using initialize_establishes_invariants[OF _ init_fits_example] by blast
qed

text \<open>
  C37. A worker that was started waits for the node to come up, whether or not it was asked to stop. While \<^verbatim>\<open>is_scheduler_running\<close> is 0 and the other threads leave it 0, the function of the worker does not return.
  When a later worker can not be started, \<^verbatim>\<open>mtapi_initialize\<close> asks the workers that run to stop and joins them before it would ever set this flag: joining does not return.
\<close>

theorem waiting_worker_ignores_stop:
  assumes stays: "\<And>s s'. map_option nd_is_scheduler_running (st_node s) = Some 0 \<Longrightarrow> env_yield env s = Some s' \<Longrightarrow> map_option nd_is_scheduler_running (st_node s') = Some 0"
    and down: "map_option nd_is_scheduler_running (st_node s) = Some 0"
  shows "embb_mtapi_scheduler_worker env True thread w s = None"
proof -
  have put: "map_option nd_is_scheduler_running (st_node s') = Some 0" if "put_worker w x s = Some s'" for x s'
    using that down by (auto simp: put_worker_def set_scheduler_def bind_eq_Some_conv)
  let ?P = "\<lambda>e s r. e = env \<longrightarrow> map_option nd_is_scheduler_running (st_node s) \<noteq> Some 0"
  have wait: "?P env s r" if "wait_running env s = Some r" for s r
    using that
  proof (rule wait_running.raw_induct[where P = ?P, rotated])
    fix f e s r
    assume IH: "\<And>e s r. f e s = Some r \<Longrightarrow> ?P e s r"
      and step: "Option.bind (st_node s) (\<lambda>node. if nd_is_scheduler_running node = 0 then Option.bind (env_yield e s) (f e) else Some s) = Some r"
    show "?P e s r"
      using step IH stays by (fastforce simp: bind_eq_Some_conv split: if_splits)
  qed
  show ?thesis
  proof (rule ccontr)
    assume "embb_mtapi_scheduler_worker env True thread w s \<noteq> None"
    then obtain x s' r where "put_worker w x s = Some s'" "wait_running env s' = Some r"
      by (auto simp: embb_mtapi_scheduler_worker_def bind_eq_Some_conv)
    then show False
      using put wait by blast
  qed
qed

theorem waiting_worker_ignores_stop_witness:
  "\<exists>x. get_worker (example_state\<lparr>st_node := Some (example_node\<lparr>nd_is_scheduler_running := 0\<rparr>)\<rparr>) 1 = Some x \<and>
     embb_mtapi_scheduler_worker idle_env True 2 1 (example_state\<lparr>st_node := Some (example_node\<lparr>nd_is_scheduler_running := 0\<rparr>)\<rparr>) = None"
proof -
  let ?s = "example_state\<lparr>st_node := Some (example_node\<lparr>nd_is_scheduler_running := 0\<rparr>)\<rparr>"
  have "get_worker ?s 1 = Some (example_worker 1)"
    by (simp add: get_worker_def scheduler_def example_node_def example_scheduler_def arr_get_def)
  moreover have "embb_mtapi_scheduler_worker idle_env True 2 1 ?s = None"
    by (rule waiting_worker_ignores_stop) (simp_all add: idle_env_def)
  ultimately show ?thesis
    by blast
qed

end
