(* ===== verification/Action_Registry.thy ===== *)
theory Action_Registry
  imports Action_Api Example_Node
begin

text \<open>
  Actions and the jobs they implement: what creating an action does to the node, and which of the actions of a job a new task is given to.
\<close>

section \<open>Creating an action\<close>

text \<open>What the slot of a new action holds.\<close>

definition created_action :: "embb_mtapi_node \<Rightarrow> u32 \<Rightarrow> u64 \<Rightarrow> u64 \<Rightarrow> u32 \<Rightarrow> mtapi_action_attributes \<Rightarrow> embb_mtapi_action \<Rightarrow> embb_mtapi_action" where
  "created_action n job_id f data sz b x = x\<lparr>ac_domain_id := nd_domain_id n, ac_node_id := nd_node_id n, ac_job_id := job_id, ac_node_local_data := data,
      ac_node_local_data_size := sz, ac_enabled := MTAPI_TRUE, ac_num_tasks := 0, ac_is_plugin_action := MTAPI_FALSE, ac_action_function := f, ac_attributes := b\<rparr>"

lemma created_action_simps [simp]:
  "handle (created_action n job_id f data sz b x) = handle x" "ac_action_function (created_action n job_id f data sz b x) = f"
  "ac_node_local_data (created_action n job_id f data sz b x) = data" "ac_node_local_data_size (created_action n job_id f data sz b x) = sz"
  "ac_job_id (created_action n job_id f data sz b x) = job_id" "ac_attributes (created_action n job_id f data sz b x) = b"
  "ac_enabled (created_action n job_id f data sz b x) = MTAPI_TRUE" "ac_num_tasks (created_action n job_id f data sz b x) = 0"
  "ac_is_plugin_action (created_action n job_id f data sz b x) = MTAPI_FALSE"
  by (simp_all add: created_action_def)

lemma action_create_effect:
  assumes node: "st_node s = Some n" "nd_action_pool n = Some p" "pool_owns p used" "embb_mtapi_pool_allocate p = Some (Some i, p')"
    and job: "0 < job_id" "job_id \<le> na_max_jobs (nd_attributes n)" "arr_get (nd_job_list n) job_id = Some j" "job_wf j"
    and attr: "aa_affinity b \<noteq> 0"
    and a: "a = created_action n job_id f data sz b (pl_storage p' ! unat i)"
  obtains j' where "mtapi_action_create job_id f data sz (Some b) s =
      Some (MTAPI_SUCCESS, handle a, s\<lparr>st_node := Some (n\<lparr>nd_action_pool := Some (p'\<lparr>pl_storage := (pl_storage p')[unat i := a]\<rparr>),
        nd_job_list := (nd_job_list n)[unat job_id := j']\<rparr>)\<rparr>)"
    "i \<notin> used" "pool_owns (p'\<lparr>pl_storage := (pl_storage p')[unat i := a]\<rparr>) (insert i used)" "hndl_id (handle a) = i" "unat i < length (pl_storage p')"
    "embb_mtapi_pool_is_handle_valid (p'\<lparr>pl_storage := (pl_storage p')[unat i := a]\<rparr>) (handle a) = Some True"
    "job_wf j'" "handle j' = handle j" "if jb_num_actions j < jb_max_actions j then job_handles j' = job_handles j @ [handle a] else j' = j"
proof -
  have alloc: "pool_owns p' (insert i used)" "i \<notin> used" "0 < i" "i \<le> pool_capacity p'" "unat i < length (pl_storage p')" "hndl_id (handle (pl_storage p' ! unat i)) = i"
    by (cases rule: pool_allocate_cases[OF node(3)]; use node(4) pool_owns_in_bounds[of p' "insert i used" i] in \<open>simp add: pool_owns_def\<close>)+
  let ?p = "p'\<lparr>pl_storage := (pl_storage p')[unat i := a]\<rparr>"
  have owns: "pool_owns ?p (insert i used)"
    by (rule pool_owns_put[OF alloc(1)]) (simp add: a)
  have valid: "embb_mtapi_pool_is_handle_valid ?p (handle a) = Some True"
    using pool_valid_iff[OF owns] alloc by (simp add: a)
  obtain ok j' where j': "embb_mtapi_job_add_action j a = Some (ok, j')" "job_wf j'" "handle j' = handle j"
      "if jb_num_actions j < jb_max_actions j then job_handles j' = job_handles j @ [handle a] else j' = j"
    using job_add_action_room[OF job(4), of a] job_add_action_full[of j a] job(4) by (cases "jb_num_actions j < jb_max_actions j") auto
  have ap: "action_pool s = Some p" "action_pool (set_action_pool p' s) = Some p'"
    using node(1,2) by (simp_all add: action_pool_def set_action_pool_def)
  have jobs: "unat job_id < length (nd_job_list n)" "nd_job_list n ! unat job_id = j"
    using job(3) by (simp_all add: arr_get_eq_Some_iff)
  have "mtapi_action_create job_id f data sz (Some b) s =
      Some (MTAPI_SUCCESS, handle a, s\<lparr>st_node := Some (n\<lparr>nd_action_pool := Some ?p, nd_job_list := (nd_job_list n)[unat job_id := j']\<rparr>)\<rparr>)"
    using node job(1,2) attr jobs alloc(5) j'(1)[unfolded a created_action_def] ap
    by (simp add: mtapi_action_create_def action_create_with_def embb_mtapi_job_is_id_valid_def embb_mtapi_job_get_storage_for_id_def upd_action_Some get_job_def put_job_def
        set_action_pool_def arr_simps Let_def a created_action_def)
  then show ?thesis
    using that owns valid alloc(2,5,6) j'(2-4) by (simp add: a)
qed

text \<open>
  Creating an action. With a valid job id, a free slot in the pool of actions and an affinity that names a core, \<^verbatim>\<open>mtapi_action_create\<close> returns \<^verbatim>\<open>MTAPI_SUCCESS\<close> and a valid handle of a slot that was not in use. The slot holds the
  function and the data of the action. The action is appended to the actions of the job if the job has room; a full job is left as it is, but the status is the same. Nothing else of the node changes.
\<close>

lemma action_create_registers:
  assumes node: "st_node s = Some n" "nd_action_pool n = Some p" "pool_owns p used" "embb_mtapi_pool_allocate p = Some (Some i, p')"
    and job: "0 < job_id" "job_id \<le> na_max_jobs (nd_attributes n)" "arr_get (nd_job_list n) job_id = Some j" "job_wf j"
    and attr: "aa_affinity b \<noteq> 0"
  shows "\<exists>h s' p'' j' a. mtapi_action_create job_id f data sz (Some b) s = Some (MTAPI_SUCCESS, h, s') \<and>
     s' = s\<lparr>st_node := Some (n\<lparr>nd_action_pool := Some p'', nd_job_list := (nd_job_list n)[unat job_id := j']\<rparr>)\<rparr> \<and>
     i \<notin> used \<and> pool_owns p'' (insert i used) \<and> hndl_id h = i \<and> embb_mtapi_pool_is_handle_valid p'' h = Some True \<and>
     pl_storage p'' = (pl_storage p')[unat i := a] \<and> handle a = h \<and> ac_action_function a = f \<and> ac_node_local_data a = data \<and> ac_node_local_data_size a = sz \<and> ac_job_id a = job_id \<and>
     ac_attributes a = b \<and> ac_enabled a = MTAPI_TRUE \<and> ac_num_tasks a = 0 \<and> ac_is_plugin_action a = MTAPI_FALSE \<and>
     job_wf j' \<and> (if jb_num_actions j < jb_max_actions j then job_handles j' = job_handles j @ [h] else j' = j)"
proof -
  define a where "a = created_action n job_id f data sz b (pl_storage p' ! unat i)"
  let ?p = "p'\<lparr>pl_storage := (pl_storage p')[unat i := a]\<rparr>"
  have a: "ac_action_function a = f" "ac_node_local_data a = data" "ac_node_local_data_size a = sz" "ac_job_id a = job_id" "ac_attributes a = b" "ac_enabled a = MTAPI_TRUE"
    "ac_num_tasks a = 0" "ac_is_plugin_action a = MTAPI_FALSE" "pl_storage ?p = (pl_storage p')[unat i := a]"
    by (simp_all add: a_def)
  obtain j' where "mtapi_action_create job_id f data sz (Some b) s =
      Some (MTAPI_SUCCESS, handle a, s\<lparr>st_node := Some (n\<lparr>nd_action_pool := Some ?p, nd_job_list := (nd_job_list n)[unat job_id := j']\<rparr>)\<rparr>)"
    "i \<notin> used" "pool_owns ?p (insert i used)" "hndl_id (handle a) = i" "embb_mtapi_pool_is_handle_valid ?p (handle a) = Some True"
    "job_wf j'" "if jb_num_actions j < jb_max_actions j then job_handles j' = job_handles j @ [handle a] else j' = j"
    by (rule action_create_effect[OF assms a_def])
  then show ?thesis
    using a by blast
qed

text \<open>The example node with a second slot for actions and a job without actions.\<close>

definition example_free_node :: embb_mtapi_node where
  "example_free_node = example_node\<lparr>nd_action_pool := Some (pool_of_2 example_action),
     nd_job_list := [example_job \<lparr>hndl_tag = 0, hndl_id = 0\<rparr> 0, example_job \<lparr>hndl_tag = 0, hndl_id = 1\<rparr> 0]\<rparr>"

section \<open>Choosing an action of a job\<close>

text \<open>The number of tasks of the action at an index of the list of a job; the counter is signed.\<close>

definition action_load :: "embb_mtapi_action embb_mtapi_pool \<Rightarrow> embb_mtapi_job \<Rightarrow> nat \<Rightarrow> int" where
  "action_load ap j k = sint (ac_num_tasks (pl_storage ap ! unat (hndl_id (jb_actions j ! k))))"

text \<open>The reference: the first index at which the load is least.\<close>

definition least_loaded :: "embb_mtapi_action embb_mtapi_pool \<Rightarrow> embb_mtapi_job \<Rightarrow> nat" where
  "least_loaded ap j = arg_min_list (action_load ap j) [0..<unat (jb_num_actions j)]"

lemma arg_min_list_snoc:
  "xs \<noteq> [] \<Longrightarrow> arg_min_list f (xs @ [y]) = (if f y < f (arg_min_list f xs) then y else arg_min_list f xs)"
proof (induction xs rule: induct_list012)
  case (3 x1 x2 zs)
  then show ?case
    by (auto simp: Let_def)
qed auto

lemma task_choose_action_least:
  assumes ap: "action_pool s = Some ap" and j: "job_wf j" "0 < jb_num_actions j"
    and valid: "\<forall>h \<in> set (job_handles j). embb_mtapi_pool_is_handle_valid ap h = Some True"
  shows "task_choose_action j s = Some (of_nat (least_loaded ap j))"
proof -
  let ?n = "jb_num_actions j" and ?f = "action_load ap j"
  let ?body = "\<lambda>ii action_index.
              do { h \<leftarrow> arr_get (jb_actions j) ii;
                   valid \<leftarrow> embb_mtapi_pool_is_handle_valid ap h;
                   if valid then
                     do { m \<leftarrow> arr_get (jb_actions j) action_index;
                          act_m \<leftarrow> get_action s (embb_mtapi_pool_get_storage_for_handle ap m);
                          act_i \<leftarrow> get_action s (embb_mtapi_pool_get_storage_for_handle ap h);
                          Some (if ac_num_tasks act_i <s ac_num_tasks act_m then ii else action_index) }
                   else Some action_index }"
  let ?best = "\<lambda>k. if k = 0 then 0 else arg_min_list ?f [0..<k]"
  have len: "unat ?n \<le> length (jb_actions j)"
    using j(1) by (simp add: job_wf_def word_le_unat)
  have val: "embb_mtapi_pool_is_handle_valid ap (jb_actions j ! k) = Some True" if "k < unat ?n" for k
    using valid nth_mem[of k "job_handles j"] that len by (simp add: job_handles_def)
  have "\<exists>m. for_less ?body 0 ?n 0 = Some m \<and> m = of_nat (?best (unat ?n))"
  proof (rule for_less_rule[where P = "\<lambda>k m. m = of_nat (?best k)"])
    fix k and m :: u32
    assume k: "k < unat ?n" and m: "m = of_nat (?best k)"
    have best: "?best k < unat ?n" "?best k \<le> k"
      using k arg_min_list_in[of "[0..<k]" ?f] by auto
    have u: "unat (of_nat k :: u32) = k" "unat m = ?best k"
      using k best unat_u32_less[of ?n] by (simp_all add: unat_of_nat_u32 m del: of_nat_0)
    have get: "arr_get (jb_actions j) (of_nat k) = Some (jb_actions j ! k)" "arr_get (jb_actions j) m = Some (jb_actions j ! ?best k)"
      using k best(1) len u by (simp_all add: arr_get_def)
    have acts: "get_action s (hndl_id (jb_actions j ! i)) = Some (pl_storage ap ! unat (hndl_id (jb_actions j ! i)))" if "i < unat ?n" for i
      using ap pool_valid_in_bounds[OF val[OF that]] by (simp add: get_action_def arr_get_def)
    have "?body (of_nat k) m = Some (if ?f k < ?f (?best k) then of_nat k else m)"
      using get val[OF k] acts[OF k] acts[OF best(1)] by (simp add: embb_mtapi_pool_get_storage_for_handle_def action_load_def word_sless_alt)
    moreover have "(if ?f k < ?f (?best k) then of_nat k else m) = (of_nat (?best (Suc k)) :: u32)"
      by (cases "k = 0") (simp_all add: m arg_min_list_snoc)
    ultimately show "\<exists>t'. ?body (of_nat k) m = Some t' \<and> t' = of_nat (?best (Suc k))"
      by simp
  qed simp_all
  moreover have "unat ?n \<noteq> 0"
    using j(2) by (simp add: word_less_unat)
  ultimately show ?thesis
    using ap by (simp add: task_choose_action_def least_loaded_def)
qed

text \<open>
  C33. Load balancing. When all actions of a job are valid, the loop that chooses the action for a new task returns the first of the actions of the job that have the least number of tasks.
\<close>

theorem choose_action_least_loaded:
  assumes ap: "action_pool s = Some ap" and j: "job_wf j" "0 < jb_num_actions j"
    and valid: "\<forall>h \<in> set (job_handles j). embb_mtapi_pool_is_handle_valid ap h = Some True"
  shows "task_choose_action j s = Some (of_nat (least_loaded ap j))"
  using assms by (rule task_choose_action_least)

text \<open>Two actions, of which the second has no tasks.\<close>

definition example_two_actions :: "embb_mtapi_action embb_mtapi_pool" where
  "example_two_actions = (pool_of_2 example_action)\<lparr>pl_storage := [example_action \<lparr>hndl_tag = 0, hndl_id = 0\<rparr>, example_action \<lparr>hndl_tag = 0, hndl_id = 1\<rparr>,
     (example_action \<lparr>hndl_tag = 0, hndl_id = 2\<rparr>)\<lparr>ac_num_tasks := 0\<rparr>]\<rparr>"

definition example_two_job :: embb_mtapi_job where
  "example_two_job = (example_job \<lparr>hndl_tag = 0, hndl_id = 1\<rparr> 2)\<lparr>jb_max_actions := 2, jb_actions := [\<lparr>hndl_tag = 0, hndl_id = 1\<rparr>, \<lparr>hndl_tag = 0, hndl_id = 2\<rparr>]\<rparr>"

theorem choose_action_least_loaded_witness:
  "task_choose_action example_two_job (set_action_pool example_two_actions example_state) = Some 1"
proof -
  have job: "job_wf example_two_job" "0 < jb_num_actions example_two_job" "job_handles example_two_job = [\<lparr>hndl_tag = 0, hndl_id = 1\<rparr>, \<lparr>hndl_tag = 0, hndl_id = 2\<rparr>]"
    by (simp_all add: example_two_job_def example_job_def job_wf_def job_handles_def)
  have "\<forall>h \<in> set (job_handles example_two_job). embb_mtapi_pool_is_handle_valid example_two_actions h = Some True"
    by (simp add: job(3) embb_mtapi_pool_is_handle_valid_def arr_get_def example_two_actions_def pool_of_2_def example_action_def)
  moreover have "action_pool (set_action_pool example_two_actions example_state) = Some example_two_actions"
    by (simp add: state_simps)
  moreover have "least_loaded example_two_actions example_two_job = 1"
    by (simp add: least_loaded_def action_load_def example_two_actions_def example_two_job_def example_job_def pool_of_2_def example_action_def upt_rec)
  ultimately show ?thesis
    using choose_action_least_loaded[OF _ job(1,2)] by simp
qed

end
