(* ===== verification/End_To_End.thy ===== *)
theory End_To_End
  imports Node_Init Action_Registry Task_Lifecycle
begin

text \<open>
  The components together: a node is initialized, an action is registered, a task is started, and a worker finds it.
\<close>

text \<open>In a node that was just initialized all queues are empty and have room.\<close>

lemma ready_queues:
  assumes n: "st_node s = Some n" "nd_scheduler n = Some c" "length (sc_worker_contexts c) = unat (sc_worker_count c)"
    and ready: "\<forall>j < unat (sc_worker_count c). worker_ready (nd_attributes n) j (sc_worker_contexts c ! j)"
    and r: "ref_ok s r"
  shows "ref_tasks s r = []" "ref_room s r \<longleftrightarrow> 0 < na_queue_limit (nd_attributes n)"
proof -
  have w: "ref_worker r < sc_worker_count c" "ref_prio r < na_max_priorities (nd_attributes n)"
    using r n(1,2) by (auto simp: ref_ok_def)
  let ?x = "sc_worker_contexts c ! unat (ref_worker r)"
  have x: "get_worker s (ref_worker r) = Some ?x" "worker_ready (nd_attributes n) (unat (ref_worker r)) ?x"
    using n ready w(1) by (simp_all add: get_worker_def scheduler_def arr_get_def word_less_unat)
  then have "\<exists>q. get_ref s r = Some q \<and> tq_tasks q = [] \<and> tq_limit q = na_queue_limit (nd_attributes n)"
    using w(2) by (cases r) (auto simp: get_public_def get_private_def worker_ready_def worker_wf_def arr_get_def word_less_unat)
  then show "ref_tasks s r = []" "ref_room s r \<longleftrightarrow> 0 < na_queue_limit (nd_attributes n)"
    by (auto simp: ref_tasks_def ref_room_def word_less_unat)
qed

lemma bits_of_inject: "bits_of a = bits_of b \<Longrightarrow> a = b"
  by (rule bit_word_eqI) (auto simp: bits_of_def set_eq_iff)

lemma pool_fresh_allocate:
  assumes "pool_fresh p cap" "0 < cap"
  obtains i p' where "embb_mtapi_pool_allocate p = Some (Some i, p')"
proof -
  have "1 \<in> {i. 1 \<le> i \<and> i \<le> cap}"
    using assms(2) by (simp add: word_le_unat word_less_unat)
  then have no: "{} \<noteq> {i. 1 \<le> i \<and> i \<le> pool_capacity p}"
    using assms(1) by (auto simp: pool_fresh_def)
  have owns: "pool_owns p {}"
    using assms(1) by (simp add: pool_fresh_def)
  show ?thesis
    by (cases rule: pool_allocate_cases[OF owns]) (use that no in blast)+
qed

text \<open>The first action of a node that was just initialized: it is the only action of its job.\<close>

lemma first_action:
  assumes n: "st_node s = Some n" "storage_fresh n" "0 < na_max_actions (nd_attributes n)" "0 < na_max_actions_per_job (nd_attributes n)"
    and job: "0 < job_id" "job_id \<le> na_max_jobs (nd_attributes n)" and b: "aa_affinity b \<noteq> 0"
  shows "\<exists>h p2 js2 j. mtapi_action_create job_id f data sz (Some b) s =
       Some (MTAPI_SUCCESS, h, s\<lparr>st_node := Some (n\<lparr>nd_action_pool := Some p2, nd_job_list := js2\<rparr>)\<rparr>) \<and>
     embb_mtapi_pool_is_handle_valid p2 h = Some True \<and> ac_action_function (pl_storage p2 ! unat (hndl_id h)) = f \<and>
     ac_attributes (pl_storage p2 ! unat (hndl_id h)) = b \<and> ac_is_plugin_action (pl_storage p2 ! unat (hndl_id h)) = 0 \<and>
     arr_get js2 job_id = Some j \<and> handle j = \<lparr>hndl_tag = 0, hndl_id = job_id\<rparr> \<and> job_wf j \<and> job_handles j = [h]"
proof -
  obtain p where p: "nd_action_pool n = Some p" "pool_fresh p (na_max_actions (nd_attributes n))"
    using n(2) by (auto simp: storage_fresh_def)
  obtain i p' where alloc: "embb_mtapi_pool_allocate p = Some (Some i, p')"
    using pool_fresh_allocate[OF p(2) n(3)] .
  have owns: "pool_owns p {}"
    using p(2) by (simp add: pool_fresh_def)
  let ?j = "nd_job_list n ! unat job_id"
  have j: "arr_get (nd_job_list n) job_id = Some ?j" "job_wf ?j" "job_handles ?j = []" "jb_max_actions ?j = na_max_actions_per_job (nd_attributes n)"
      "handle ?j = \<lparr>hndl_tag = 0, hndl_id = job_id\<rparr>" "unat job_id < length (nd_job_list n)"
    using n(2) job(2) by (simp_all add: storage_fresh_def jobs_ready_def arr_get_def word_le_unat)
  have "jb_num_actions ?j = 0"
    using j(2-4) n(4) by (auto simp: job_handles_def job_wf_def unat_eq_0)
  then have room: "jb_num_actions ?j < jb_max_actions ?j"
    using j(4) n(4) by simp
  define a where "a = created_action n job_id f data sz b (pl_storage p' ! unat i)"
  let ?p2 = "p'\<lparr>pl_storage := (pl_storage p')[unat i := a]\<rparr>"
  obtain j' where "mtapi_action_create job_id f data sz (Some b) s =
      Some (MTAPI_SUCCESS, handle a, s\<lparr>st_node := Some (n\<lparr>nd_action_pool := Some ?p2, nd_job_list := (nd_job_list n)[unat job_id := j']\<rparr>)\<rparr>)"
    "hndl_id (handle a) = i" "unat i < length (pl_storage p')" "embb_mtapi_pool_is_handle_valid ?p2 (handle a) = Some True"
    "job_wf j'" "handle j' = handle ?j" "job_handles j' = [handle a]"
    by (rule action_create_effect[OF n(1) p(1) owns alloc job j(1,2) b a_def]) (use room j(3) in simp)
  then show ?thesis
    using j(5,6) by (intro exI[of _ "handle a"] exI[of _ ?p2] exI[of _ "(nd_job_list n)[unat job_id := j']"] exI[of _ j']) (simp add: arr_get_def a_def)
qed

lemma sched_wf_frame:
  assumes "st_node s = Some n" "sched_wf s" "st_node s' = Some (n\<lparr>nd_action_pool := p, nd_job_list := js\<rparr>)"
  shows "sched_wf s'"
  using assms by (auto simp: sched_wf_def sched_ok_def)

lemma single_action:
  assumes "job_wf j" "job_handles j = [h]" "action_pool s = Some ap" "embb_mtapi_pool_is_handle_valid ap h = Some True"
  shows "task_choose_action j s = Some 0" "arr_get (jb_actions j) 0 = Some h"
proof -
  have n: "unat (jb_num_actions j) = 1" "jb_actions j \<noteq> []" "hd (jb_actions j) = h"
    using arg_cong[OF assms(2), of length] arg_cong[OF assms(2), of hd] assms(1) by (auto simp: job_handles_def job_wf_def word_le_unat)
  then have "least_loaded ap j = 0"
    by (simp add: least_loaded_def upt_rec)
  then show "task_choose_action j s = Some 0"
    using task_choose_action_least[OF assms(3,1)] assms(2,4) n(1) by (simp add: word_less_unat)
  show "arr_get (jb_actions j) 0 = Some h"
    using n(2,3) by (cases "jb_actions j") (simp_all add: arr_get_def)
qed

text \<open>A task of the only action of a job, on a node whose queues and tasks are as initialization leaves them: it is started, and any worker finds it.\<close>

lemma task_on_ready_node:
  assumes n: "st_node s = Some n" "nd_scheduler n = Some c" "sched_wf s" "sc_mode c = WORK_STEAL_VHPF"
    and ready: "\<forall>j < unat (sc_worker_count c). worker_ready (nd_attributes n) j (sc_worker_contexts c ! j)" "0 < na_queue_limit (nd_attributes n)"
    and job: "embb_mtapi_job_is_handle_valid n job = Some True" "get_job s (hndl_id job) = Some j" "job_wf j" "job_handles j = [h]"
    and act: "action_pool s = Some ap" "embb_mtapi_pool_is_handle_valid ap h = Some True" "ac_is_plugin_action (pl_storage ap ! unat (hndl_id h)) = 0"
    and pools: "task_pool s = Some tp" "pool_fresh tp cap" "0 < cap" "group_pool s = Some gp" "hndl_id grp = 0" "queue_pool s = Some qp"
    and ta: "ta_num_instances ta = 1" "ta_priority ta < na_max_priorities (nd_attributes n)" "ta_is_detached ta = 0"
      "aa_affinity (ac_attributes (pl_storage ap ! unat (hndl_id h))) AND ta_affinity ta \<in> {0, nd_affinity_all n}"
    and w: "w < sc_worker_count c"
  shows "\<exists>th s3 s4 x. mtapi_task_start env tid job arguments asize result rsize (Some ta) grp s = Some (MTAPI_SUCCESS, th, s3) \<and>
     embb_mtapi_scheduler_get_next_task w s3 = Some (Some (hndl_id th), s4) \<and>
     get_task s4 (hndl_id th) = Some x \<and> handle x = th \<and> tk_state x = MTAPI_TASK_SCHEDULED \<and> tk_arguments x = arguments \<and> tk_result_buffer x = result \<and> tk_action x = h \<and>
     action_pool s4 = Some (count_task (hndl_id h) 1 ap)"
proof -
  have ok: "sched_ok n c"
    using n(1-3) by (auto simp: sched_wf_def)
  have choose: "task_choose_action j s = Some 0" "arr_get (jb_actions j) 0 = Some h"
    using single_action[OF job(3,4) act(1,2)] by simp_all
  obtain i p' where alloc: "embb_mtapi_pool_allocate tp = Some (Some i, p')"
    using pool_fresh_allocate[OF pools(2,3)] .
  have owns: "pool_owns tp {}"
    using pools(2) by (simp add: pool_fresh_def)
  have none: "embb_mtapi_pool_is_handle_valid gp grp = Some False"
    using pools(5) by (simp add: embb_mtapi_pool_is_handle_valid_def)
  define r where "r = Public (i mod sc_worker_count c) (ta_priority ta)"
  have "0 < sc_worker_count c" and len: "length (sc_worker_contexts c) = unat (sc_worker_count c)"
    using ok by (simp_all add: sched_ok_def)
  then have r: "ref_ok s r"
    using n(1,2) ta(2) by (simp add: ref_ok_def r_def word_mod_less_divisor)
  note queues = ready_queues[OF n(1,2) len ready(1)]
  have room: "ref_room s r"
    using queues(2)[OF r] ready(2) by simp
  define x where "x = started_task \<lparr>sa_task_id = tid, sa_job = job, sa_arguments = arguments, sa_arguments_size = asize, sa_result_buffer = result,
        sa_result_size = rsize, sa_attributes = Some ta, sa_group = grp, sa_queue = MTAPI_HNDL_NONE\<rparr> ta h (pl_storage p' ! unat i)"
  define p1 where "p1 = task_put i x p'"
  note start = task_start_run[OF n(1,2) ok job(1,2) choose act(1,2) refl act(3) pools(1) owns alloc pools(4) none pools(6) ta r_def x_def p1_def, of env]
  obtain s3 c3 ap3 where s3: "mtapi_task_start env tid job arguments asize result rsize (Some ta) grp s = Some (MTAPI_SUCCESS, handle (pl_storage p' ! unat i), s3)"
     "task_pool s3 = Some p1" "\<forall>r'. ref_tasks s3 r' = (if r' = r \<and> ref_room s r then ref_tasks s r @ [i] else ref_tasks s r')"
     "sched_wf s3" "action_pool s3 = Some (count_task (hndl_id h) 1 ap)" "st_node s3 = Some (n\<lparr>nd_task_pool := Some p1, nd_scheduler := Some c3, nd_action_pool := Some ap3\<rparr>)"
     "sc_worker_count c3 = sc_worker_count c" "sc_mode c3 = sc_mode c" "unat i < length (pl_storage p')" "hndl_id (handle (pl_storage p' ! unat i)) = i"
    by (rule start) (use room in auto)
  have ok3: "ref_ok s3 r' \<longleftrightarrow> ref_ok s r'" for r'
    using s3(6,7) n(1,2) by (simp add: ref_ok_def)
  have "\<exists>s4. embb_mtapi_scheduler_get_next_task w s3 = Some (Some i, s4) \<and> same_but_queues s3 s4"
    by (rule next_task_only[OF s3(6) _ s3(4), of c3 w r])
      (use s3(3,7,8) n(4) w r ok3 room queues(1) in \<open>simp_all add: accessible_def, simp add: r_def\<close>)
  then obtain s4 where s4: "embb_mtapi_scheduler_get_next_task w s3 = Some (Some i, s4)" "same_but_queues s3 s4"
    by blast
  have frame: "task_pool s4 = Some p1" "action_pool s4 = Some (count_task (hndl_id h) 1 ap)"
    using s4(2) s3(2,5) by (auto simp: same_but_queues_def state_simps)
  define th where "th = handle (pl_storage p' ! unat i)"
  have "get_task s4 (hndl_id th) = Some x" "handle x = th" "tk_state x = MTAPI_TASK_SCHEDULED" "tk_arguments x = arguments" "tk_result_buffer x = result" "tk_action x = h"
      "embb_mtapi_scheduler_get_next_task w s3 = Some (Some (hndl_id th), s4)"
    using frame(1) s3(9,10) s4(1) by (simp_all add: get_task_def arr_get_def p1_def th_def x_def)
  then show ?thesis
    using s3(1)[folded th_def] frame(2) by blast
qed

text \<open>
  The first task: on a node that was just initialized, an action that all cores may run is registered and a task of its job is started.
\<close>

lemma first_task:
  assumes init: "st_node s = None" "init_fits ip a" "\<forall>i < na_num_cores a. \<exists>t. ip_outcome ip i = Worker_Up t"
    and room: "0 < na_max_actions a" "0 < na_max_actions_per_job a" "0 < na_max_tasks a" "0 < na_queue_limit a"
    and job: "0 < job_id" "job_id \<le> na_max_jobs a"
    and cores: "bits_of (aa_affinity b) = {..<unat (na_num_cores a)}" "bits_of (ta_affinity ta) = {..<unat (na_num_cores a)}"
    and ta: "ta_num_instances ta = 1" "ta_priority ta < na_max_priorities a" "ta_is_detached ta = 0"
    and grp: "hndl_id grp = 0" and w: "w < na_num_cores a"
  shows "\<exists>info s1 h s2 job th s3 s4 x act.
     mtapi_initialize ip env domain_id node_id (Some a) s = Some (MTAPI_SUCCESS, Some info, s1) \<and>
     mtapi_action_create job_id f data sz (Some b) s1 = Some (MTAPI_SUCCESS, h, s2) \<and>
     mtapi_job_get job_id domain_id s2 = Some (MTAPI_SUCCESS, job) \<and>
     mtapi_task_start env tid job arguments asize result rsize (Some ta) grp s2 = Some (MTAPI_SUCCESS, th, s3) \<and>
     embb_mtapi_scheduler_get_next_task w s3 = Some (Some (hndl_id th), s4) \<and>
     get_task s4 (hndl_id th) = Some x \<and> handle x = th \<and> tk_state x = MTAPI_TASK_SCHEDULED \<and> tk_arguments x = arguments \<and> tk_result_buffer x = result \<and>
     tk_action x = h \<and> get_action s4 (hndl_id h) = Some act \<and> ac_action_function act = f"
proof -
  obtain info n c s1 where s1: "mtapi_initialize ip env domain_id node_id (Some a) s = Some (MTAPI_SUCCESS, Some info, s1)"
     "st_node s1 = Some n" "nd_attributes n = a" "bits_of (nd_affinity_all n) = {..<unat (na_num_cores a)}" "storage_fresh n" "nd_scheduler n = Some c" "sched_wf s1"
     "sc_mode c = WORK_STEAL_VHPF" "sc_worker_count c = na_num_cores a" "\<forall>j < unat (na_num_cores a). worker_ready a j (sc_worker_contexts c ! j) \<and> tc_run (sc_worker_contexts c ! j) = 1"
    using initialize_ready[OF init, of env domain_id node_id] by (elim exE conjE) (rule that; assumption)
  have aff: "aa_affinity b = nd_affinity_all n" "ta_affinity ta = nd_affinity_all n"
    using cores s1(4) by (auto intro: bits_of_inject)
  have cores0: "0 < na_num_cores a"
    using init(2) by (simp add: init_fits_def)
  then have "0 \<in> bits_of (aa_affinity b)"
    unfolding cores(1) by (simp add: word_less_unat)
  then have "aa_affinity b \<noteq> 0"
    by (auto simp: bits_of_def)
  then obtain h p2 js2 j where act: "mtapi_action_create job_id f data sz (Some b) s1 =
       Some (MTAPI_SUCCESS, h, s1\<lparr>st_node := Some (n\<lparr>nd_action_pool := Some p2, nd_job_list := js2\<rparr>)\<rparr>)"
     "embb_mtapi_pool_is_handle_valid p2 h = Some True" "ac_action_function (pl_storage p2 ! unat (hndl_id h)) = f"
     "ac_attributes (pl_storage p2 ! unat (hndl_id h)) = b" "ac_is_plugin_action (pl_storage p2 ! unat (hndl_id h)) = 0"
     "arr_get js2 job_id = Some j" "handle j = \<lparr>hndl_tag = 0, hndl_id = job_id\<rparr>" "job_wf j" "job_handles j = [h]"
    using first_action[OF s1(2,5), of job_id b f data sz] room(1,2) job s1(3) by auto
  define n2 where "n2 = n\<lparr>nd_action_pool := Some p2, nd_job_list := js2\<rparr>"
  define s2 where "s2 = s1\<lparr>st_node := Some n2\<rparr>"
  have n2: "st_node s2 = Some n2" "nd_scheduler n2 = Some c" "nd_attributes n2 = a" "nd_affinity_all n2 = nd_affinity_all n" "action_pool s2 = Some p2"
    using s1(3,6) by (simp_all add: s2_def n2_def action_pool_def)
  have wf2: "sched_wf s2"
    by (rule sched_wf_frame[OF s1(2,7)]) (simp add: n2(1) n2_def)
  then have ok2: "sched_ok n2 c"
    using n2(1,2) by (auto simp: sched_wf_def)
  have job2: "get_job s2 job_id = Some j" "mtapi_job_get job_id domain_id s2 = Some (MTAPI_SUCCESS, \<lparr>hndl_tag = 0, hndl_id = job_id\<rparr>)"
     "embb_mtapi_job_is_handle_valid n2 \<lparr>hndl_tag = 0, hndl_id = job_id\<rparr> = Some True"
    using n2 act(6,7) job by (simp_all add: get_job_def mtapi_job_get_def embb_mtapi_job_is_id_valid_def embb_mtapi_job_get_storage_for_id_def embb_mtapi_job_is_handle_valid_def n2_def)
  obtain tp gp qp where pools: "task_pool s2 = Some tp" "pool_fresh tp (na_max_tasks a)" "group_pool s2 = Some gp" "queue_pool s2 = Some qp"
    using s1(3,5) by (auto simp: storage_fresh_def task_pool_def group_pool_def queue_pool_def n2(1)) (simp_all add: n2_def)
  have "\<forall>j < unat (sc_worker_count c). worker_ready (nd_attributes n2) j (sc_worker_contexts c ! j)" "0 < na_queue_limit (nd_attributes n2)"
      "ta_priority ta < na_max_priorities (nd_attributes n2)" "w < sc_worker_count c" "get_job s2 (hndl_id \<lparr>hndl_tag = 0, hndl_id = job_id\<rparr>) = Some j"
      "aa_affinity (ac_attributes (pl_storage p2 ! unat (hndl_id h))) AND ta_affinity ta \<in> {0, nd_affinity_all n2}"
    using s1(9,10) n2 room(4) ta(2) w job2(1) act(4) aff by simp_all
  from task_on_ready_node[OF n2(1,2) wf2 s1(8) this(1,2) job2(3) this(5) act(8,9) n2(5) act(2,5) pools(1,2) room(3) pools(3) grp pools(4) ta(1) this(3) ta(3) this(6,4),
      of env tid arguments asize result rsize]
  obtain th s3 s4 x where s3: "mtapi_task_start env tid \<lparr>hndl_tag = 0, hndl_id = job_id\<rparr> arguments asize result rsize (Some ta) grp s2 = Some (MTAPI_SUCCESS, th, s3)"
     "embb_mtapi_scheduler_get_next_task w s3 = Some (Some (hndl_id th), s4)" "get_task s4 (hndl_id th) = Some x" "handle x = th" "tk_state x = MTAPI_TASK_SCHEDULED"
     "tk_arguments x = arguments" "tk_result_buffer x = result" "tk_action x = h" "action_pool s4 = Some (count_task (hndl_id h) 1 p2)"
    by (elim exE conjE) (rule that; assumption)
  obtain act' where "get_action s4 (hndl_id h) = Some act'" "ac_action_function act' = f"
    using s3(9) pool_valid_in_bounds[OF act(2)] act(3) by (simp add: get_action_def arr_get_def count_task_def)
  then show ?thesis
    using s1(1) act(1)[folded n2_def s2_def] job2(2) s3(1-8) by blast
qed

end
