(* ===== verification/Memory_Allocation.thy ===== *)
theory Memory_Allocation
  imports Spinlock Attributes Duration_Time
begin

text \<open>
  Memory allocation (\<^verbatim>\<open>base_c/src/memory_allocation.c\<close>, in the variant with \<^verbatim>\<open>EMBB_DEBUG\<close> that counts bytes, and \<^verbatim>\<open>mtapi_c/src/embb_mtapi_alloc.c\<close>). The
  allocator of the C library is a parameter: \<open>malloc s n\<close> is the address of a block of \<open>n\<close> bytes, or \<open>None\<close> for \<^verbatim>\<open>NULL\<close>. The state
  records the blocks that were handed out, so that giving back an address that is not one of them is \<open>None\<close>, and so are a header outside of its block and an
  assertion that fails.
\<close>

record alloc_state =
  al_memory :: memory
  al_bytes_allocated :: u64
  al_blocks :: "u64 \<Rightarrow> u64 option"

type_synonym c_malloc = "alloc_state \<Rightarrow> u64 \<Rightarrow> u64 option"

definition INVALID_ALLOCATION :: u64 where
  "INVALID_ALLOCATION = 0x91919191"

definition ALIGNED_ALLOCATION :: u64 where
  "ALIGNED_ALLOCATION = 0x99AABB11"

definition UNALIGNED_ALLOCATION :: u64 where
  "UNALIGNED_ALLOCATION = 0x11AABB99"

section \<open>Blocks\<close>

definition take_block :: "c_malloc \<Rightarrow> u64 \<Rightarrow> alloc_state \<Rightarrow> u64 option \<times> alloc_state" where
  "take_block malloc n s =
     (case malloc s n of
        None \<Rightarrow> (None, s)
      | Some a \<Rightarrow> (Some a, s\<lparr>al_blocks := (al_blocks s)(a \<mapsto> n)\<rparr>))"

definition free_block :: "u64 \<Rightarrow> alloc_state \<Rightarrow> alloc_state option" where
  "free_block a s = (if al_blocks s a = None then None else Some (s\<lparr>al_blocks := (al_blocks s)(a := None)\<rparr>))"

text \<open>A \<^verbatim>\<open>size_t\<close> at an address; \<open>store\<close> checks that the address is inside the block \<open>blk\<close>.\<close>

definition load :: "u64 \<Rightarrow> alloc_state \<Rightarrow> u64" where
  "load a s = word_le (mem_read (al_memory s) a 8)"

definition store :: "u64 \<Rightarrow> u64 \<Rightarrow> u64 \<Rightarrow> alloc_state \<Rightarrow> alloc_state option" where
  "store blk a v s =
     (case al_blocks s blk of
        None \<Rightarrow> None
      | Some n \<Rightarrow> if unat (a - blk) + 8 \<le> unat n
                   then Some (s\<lparr>al_memory := mem_write (al_memory s) a (bytes_le 8 v)\<rparr>) else None)"

definition count_bytes :: "u64 \<Rightarrow> alloc_state \<Rightarrow> alloc_state" where
  "count_bytes d s = s\<lparr>al_bytes_allocated := snd (embb_atomic_fetch_and_add (al_bytes_allocated s) d)\<rparr>"

section \<open>Unaligned allocation\<close>

definition embb_alloc :: "c_malloc \<Rightarrow> u64 \<Rightarrow> alloc_state \<Rightarrow> (u64 option \<times> alloc_state) option" where
  "embb_alloc malloc bytes s =
     (let bytes_to_allocate = 2 * 8 + bytes in
      case take_block malloc bytes_to_allocate s of
        (None, s) \<Rightarrow> Some (None, s)
      | (Some allocated, s) \<Rightarrow>
          do { let s = count_bytes bytes_to_allocate s;
               s \<leftarrow> store allocated (allocated + 8) UNALIGNED_ALLOCATION s;
               s \<leftarrow> store allocated allocated bytes_to_allocate s;
               Some (Some (allocated + 16), s) })"

definition embb_free :: "u64 \<Rightarrow> alloc_state \<Rightarrow> alloc_state option" where
  "embb_free ptr s =
     (if ptr = 0 \<or> load (ptr - 8) s \<noteq> UNALIGNED_ALLOCATION then None
      else
        do { let s = s\<lparr>al_memory := mem_write (al_memory s) (ptr - 8) (bytes_le 8 INVALID_ALLOCATION)\<rparr>;
             let s = count_bytes (0 - load (ptr - 16) s) s;
             free_block (ptr - 16) s })"

section \<open>Aligned allocation\<close>

text \<open>The loop that moves to the next aligned address until the header fits in front. The difference of two pointers is signed.\<close>

partial_function (option) aligned_loop :: "u64 \<Rightarrow> u64 \<Rightarrow> u64 \<Rightarrow> u64 option" where
  [code]: "aligned_loop alignment allocated x =
     (if x - allocated <s 3 * 8 then aligned_loop alignment allocated (x + alignment) else Some x)"

definition embb_alloc_aligned :: "c_malloc \<Rightarrow> u64 \<Rightarrow> u64 \<Rightarrow> alloc_state \<Rightarrow> (u64 option \<times> alloc_state) option" where
  "embb_alloc_aligned malloc alignment sz s =
     (if alignment = 0 then None
      else
        (let n = (sz + (alignment - 1)) div alignment;
             additional_bytes = 3 * 8;
             bytes_to_allocate = (n + 1) * alignment + (additional_bytes - 1) in
         case take_block malloc bytes_to_allocate s of
           (None, s) \<Rightarrow> Some (None, s)
         | (Some allocated, s) \<Rightarrow>
             do { x \<leftarrow> aligned_loop alignment allocated ((allocated + alignment) AND NOT (alignment - 1));
                  if sz \<le> (allocated + bytes_to_allocate) - x \<and> x mod alignment = 0 \<and> allocated \<le> x - additional_bytes then
                    do { s \<leftarrow> store allocated (x - 8) ALIGNED_ALLOCATION s;
                         s \<leftarrow> store allocated (x - 16) allocated s;
                         s \<leftarrow> store allocated (x - 24) bytes_to_allocate s;
                         Some (Some x, count_bytes bytes_to_allocate s) }
                  else None }))"

definition embb_free_aligned :: "u64 \<Rightarrow> alloc_state \<Rightarrow> alloc_state option" where
  "embb_free_aligned ptr s =
     (if ptr = 0 \<or> load (ptr - 8) s \<noteq> ALIGNED_ALLOCATION then None
      else
        do { let s = s\<lparr>al_memory := mem_write (al_memory s) (ptr - 8) (bytes_le 8 INVALID_ALLOCATION)\<rparr>;
             let s = count_bytes (0 - load (ptr - 24) s) s;
             free_block (load (ptr - 16) s) s })"

definition EMBB_PLATFORM_CACHE_LINE_SIZE :: u64 where
  "EMBB_PLATFORM_CACHE_LINE_SIZE = 64"

definition embb_alloc_cache_aligned :: "c_malloc \<Rightarrow> u64 \<Rightarrow> alloc_state \<Rightarrow> (u64 option \<times> alloc_state) option" where
  "embb_alloc_cache_aligned malloc sz s = embb_alloc_aligned malloc EMBB_PLATFORM_CACHE_LINE_SIZE sz s"

definition embb_get_bytes_allocated :: "alloc_state \<Rightarrow> u64" where
  "embb_get_bytes_allocated s = al_bytes_allocated s"

section \<open>Allocation of the task library\<close>

text \<open>The first component of the state is \<^verbatim>\<open>embb_mtapi_alloc_bytes_allocated\<close>.\<close>

definition embb_mtapi_alloc_allocate :: "c_malloc \<Rightarrow> u32 \<Rightarrow> u32 \<times> alloc_state \<Rightarrow> (u64 option \<times> u32 \<times> alloc_state) option" where
  "embb_mtapi_alloc_allocate malloc bytes st =
     do { (ptr, s) \<leftarrow> embb_alloc malloc (ucast bytes) (snd st);
          Some (ptr, if ptr \<noteq> None then snd (embb_atomic_fetch_and_add (fst st) (4 + bytes)) else fst st, s) }"

definition embb_mtapi_alloc_deallocate :: "u64 \<Rightarrow> u32 \<times> alloc_state \<Rightarrow> (u32 \<times> alloc_state) option" where
  "embb_mtapi_alloc_deallocate ptr st =
     (if ptr \<noteq> 0 then do { s \<leftarrow> embb_free ptr (snd st); Some (fst st, s) } else Some st)"

definition embb_mtapi_alloc_reset_bytes_allocated :: "u32 \<times> alloc_state \<Rightarrow> u32 \<times> alloc_state" where
  "embb_mtapi_alloc_reset_bytes_allocated st = (0, snd st)"

definition embb_mtapi_alloc_get_bytes_allocated :: "u32 \<times> alloc_state \<Rightarrow> u32" where
  "embb_mtapi_alloc_get_bytes_allocated st = fst st"

section \<open>Aligned addresses\<close>

lemma unat_add_u64: "unat x + unat y < 2 ^ 64 \<Longrightarrow> unat (x + y :: u64) = unat x + unat y"
  using unat_add_lem[of x y] by simp

lemma unat_mult_u64: "unat x * unat y < 2 ^ 64 \<Longrightarrow> unat (x * y :: u64) = unat x * unat y"
  using unat_mult_lem[of x y] by simp

lemma align_down:
  fixes w :: u64
  assumes "k < 64"
  shows "unat (w AND NOT (2 ^ k - 1)) = unat w - unat w mod 2 ^ k"
proof -
  have mask: "2 ^ k - 1 = (mask k :: u64)"
    by (simp add: mask_eq_exp_minus_1)
  have "w AND NOT (mask k) = w - take_bit k w"
    by (subst disjunctive_diff_eq_and_not) (auto intro!: bit_word_eqI simp: bit_simps)
  moreover have "unat (take_bit k w) = unat w mod 2 ^ k"
    unfolding unsigned_take_bit_eq by (simp add: take_bit_eq_mod)
  moreover have "take_bit k w \<le> w"
    using calculation(2) by (simp add: word_le_unat)
  ultimately show ?thesis
    by (simp add: mask unat_sub)
qed

lemma sless_24:
  assumes "unat (w :: u64) < 2 ^ 63"
  shows "w <s 24 \<longleftrightarrow> unat w < 24"
proof -
  have "int (unat w) < int (2 ^ 63)" "int (unat w) < int 24 \<longleftrightarrow> unat w < 24"
    using assms by (simp_all only: of_nat_less_iff)
  then have less: "uint w < 2 ^ 63" "uint w < 24 \<longleftrightarrow> unat w < 24"
    by simp_all
  have "0 \<le> uint w"
    by simp
  then have "- (2 ^ 63) \<le> uint w"
    by (rule order_trans[rotated]) simp
  then have "sint w = uint w"
    using less(1) by (simp add: sint_uint signed_take_bit_int_eq_self)
  then show ?thesis
    using less(2) by (simp add: word_sless_alt)
qed

lemma aligned_loop_finds:
  assumes "unat x = unat a + d" "0 < unat al" "unat a + max d (23 + unat al) < 2 ^ 64" "max d (23 + unat al) < 2 ^ 63"
  shows "\<exists>x' d' m. aligned_loop al a x = Some x' \<and> unat x' = unat a + d' \<and> d' = d + m * unat al \<and> 24 \<le> d' \<and> d' \<le> max d (23 + unat al)"
  using assms(1,3,4)
proof (induction "24 - d" arbitrary: x d rule: less_induct)
  case less
  have diff: "unat (x - a) = d"
    using less.prems(1) by (simp add: unat_sub word_le_unat)
  have small: "unat (x - a) < 2 ^ 63"
    using diff less.prems(3) by simp
  show ?case
  proof (cases "d < 24")
    case False
    then have "aligned_loop al a x = Some x"
      using diff sless_24[OF small] by (subst aligned_loop.simps) simp
    then show ?thesis
      using False less.prems(1) by (intro exI[of _ x] exI[of _ d] exI[of _ 0]) simp
  next
    case True
    have step: "aligned_loop al a x = aligned_loop al a (x + al)"
      using True diff sless_24[OF small] by (subst aligned_loop.simps) simp
    have "unat x + unat al < 2 ^ 64"
      using True less.prems(1,2) by (simp add: max_def split: if_splits)
    then have next_x: "unat (x + al) = unat a + (d + unat al)"
      using unat_add_lem[of x al] less.prems(1) by simp
    have "24 - (d + unat al) < 24 - d" "max (d + unat al) (23 + unat al) = 23 + unat al" "max d (23 + unat al) = 23 + unat al"
      using True assms(2) by auto
    then obtain x' d' m where x': "aligned_loop al a (x + al) = Some x'" "unat x' = unat a + d'" "d' = d + unat al + m * unat al"
        "24 \<le> d'" "d' \<le> 23 + unat al"
      using less.hyps[OF _ next_x] less.prems(2,3) by auto
    then show ?thesis
      using step True by (intro exI[of _ x'] exI[of _ d'] exI[of _ "Suc m"]) auto
  qed
qed

text \<open>
  The address the aligned allocation returns: a multiple of the alignment, at least the header behind the start of the
  block and early enough for the payload to fit.
\<close>

lemma aligned_address:
  assumes al: "unat al = 2 ^ k" "al = 2 ^ k" "k < 62" and room: "unat a + 23 + 2 ^ k < 2 ^ 64"
  shows "\<exists>x d. aligned_loop al a ((a + al) AND NOT (al - 1)) = Some x \<and> unat x = unat a + d \<and> 24 \<le> d \<and> d \<le> 23 + 2 ^ k \<and> 2 ^ k dvd unat x"
proof -
  let ?y = "(a + al) AND NOT (al - 1)"
  have add: "unat (a + al) = unat a + 2 ^ k"
    using unat_add_lem[of a al] al(1) room by simp
  then have y: "unat ?y = unat a + 2 ^ k - (unat a + 2 ^ k) mod 2 ^ k"
    using align_down[of k "a + al"] al by simp
  have rem: "(unat a + 2 ^ k) mod 2 ^ k = unat a mod 2 ^ k" "unat a mod 2 ^ k < 2 ^ k"
    by simp_all
  define d where "d = 2 ^ k - unat a mod 2 ^ k"
  have d: "unat ?y = unat a + d" "d \<le> 2 ^ k"
    using y rem by (simp_all add: d_def)
  have "(2::nat) ^ k < 2 ^ 62"
    using power_strict_increasing[OF al(3), of "2::nat"] by simp
  then have small: "max d (23 + unat al) < 2 ^ 63" "unat a + max d (23 + unat al) < 2 ^ 64" "max d (23 + unat al) = 23 + 2 ^ k"
    using d(2) room al(1) by auto
  obtain x d' m where x: "aligned_loop al a ?y = Some x" "unat x = unat a + d'" "d' = d + m * unat al" "24 \<le> d'" "d' \<le> max d (23 + unat al)"
    using aligned_loop_finds[OF d(1) _ small(2,1)] al(1) by auto
  have "unat x = unat ?y + m * 2 ^ k"
    using x(2,3) d(1) al(1) by simp
  moreover have "2 ^ k dvd unat ?y"
    unfolding y by (rule dvd_minus_mod)
  ultimately have "2 ^ k dvd unat x"
    by simp
  then show ?thesis
    using x small(3) by auto
qed

section \<open>Headers\<close>

lemma mem_read_write_other:
  assumes "length bs \<le> unat (q - p)" "unat (q - p) + n \<le> 2 ^ 64"
  shows "mem_read (mem_write m p bs) q n = mem_read m q n"
proof -
  have "mem_write m p bs (q + of_nat j) = m (q + of_nat j)" if "j < n" for j
  proof -
    have j: "unat (of_nat j :: u64) = j"
      using that assms(2) by (simp add: unat_of_nat take_bit_nat_eq_self_iff)
    then have "unat ((q - p) + of_nat j) = unat (q - p) + j"
      using unat_add_lem[of "q - p" "of_nat j"] that assms(2) by simp
    then have "unat (q + of_nat j - p) = unat (q - p) + j"
      by (simp add: algebra_simps)
    then show ?thesis
      using assms(1) by (simp add: mem_write_def)
  qed
  then show ?thesis
    by (auto simp: mem_read_def)
qed

lemma load_store:
  assumes "store blk a v s = Some s'"
  shows "load a s' = v" "al_blocks s' = al_blocks s" "al_bytes_allocated s' = al_bytes_allocated s"
    and "8 \<le> unat (b - a) \<Longrightarrow> unat (b - a) + 8 \<le> 2 ^ 64 \<Longrightarrow> load b s' = load b s"
  using assms mem_read_write[of "bytes_le 8 v" "al_memory s" a] mem_read_write_other[of "bytes_le 8 v" b a 8]
  by (auto simp: store_def load_def word_le_bytes_le split: option.splits if_splits)

lemma store_Some:
  assumes "al_blocks s blk = Some n" "unat (a - blk) + 8 \<le> unat n"
  shows "\<exists>s'. store blk a v s = Some s'"
  using assms by (simp add: store_def)

text \<open>Three stores in front of \<open>x\<close>, as the aligned allocation makes them.\<close>

lemma header_stores:
  assumes blk: "al_blocks s a = Some n" and x: "unat x = unat a + d" "24 \<le> d" "d \<le> unat n"
  shows "\<exists>s'. do { s \<leftarrow> store a (x - 8) u s; s \<leftarrow> store a (x - 16) v s; store a (x - 24) w s } = Some s' \<and>
           load (x - 8) s' = u \<and> load (x - 16) s' = v \<and> load (x - 24) s' = w \<and>
           al_blocks s' = al_blocks s \<and> al_bytes_allocated s' = al_bytes_allocated s"
proof -
  have off: "unat (x - 8 - a) = d - 8" "unat (x - 16 - a) = d - 16" "unat (x - 24 - a) = d - 24"
  proof -
    have sub: "unat (x - of_nat j - a) = d - j" if "j \<le> d" "j < 2 ^ 64" for j
    proof -
      have j: "unat (of_nat j :: u64) = j"
        using that(2) by (simp add: unat_of_nat take_bit_nat_eq_self_iff)
      have "unat (x - a) = d"
        using x(1) by (simp add: unat_sub word_le_unat)
      then have "unat (x - a - of_nat j) = d - j"
        using that(1) j by (simp add: unat_sub word_le_unat)
      then show ?thesis
        by (simp add: algebra_simps)
    qed
    show "unat (x - 8 - a) = d - 8" "unat (x - 16 - a) = d - 16" "unat (x - 24 - a) = d - 24"
      using sub[of 8] sub[of 16] sub[of 24] x(2) by simp_all
  qed
  have inside: "unat (x - 8 - a) + 8 \<le> unat n" "unat (x - 16 - a) + 8 \<le> unat n" "unat (x - 24 - a) + 8 \<le> unat n"
    using off x(2,3) by simp_all
  obtain s1 where s1: "store a (x - 8) u s = Some s1"
    using store_Some[OF blk inside(1)] by blast
  then have blk1: "al_blocks s1 a = Some n"
    using load_store(2)[OF s1] blk by simp
  obtain s2 where s2: "store a (x - 16) v s1 = Some s2"
    using store_Some[OF blk1 inside(2)] by blast
  then have blk2: "al_blocks s2 a = Some n"
    using load_store(2)[OF s2] blk1 by simp
  obtain s3 where s3: "store a (x - 24) w s2 = Some s3"
    using store_Some[OF blk2 inside(3)] by blast
  have gaps: "x - 8 - (x - 16) = 8" "x - 8 - (x - 24) = 16" "x - 16 - (x - 24) = 8"
    by simp_all
  have "load (x - 8) s3 = u" "load (x - 16) s3 = v" "load (x - 24) s3 = w"
    using load_store(1)[OF s1] load_store(1)[OF s2] load_store(1)[OF s3] load_store(4)[OF s2, of "x - 8"]
      load_store(4)[OF s3, of "x - 8"] load_store(4)[OF s3, of "x - 16"]
    by (simp_all add: gaps)
  then show ?thesis
    using s1 s2 s3 load_store(2,3)[OF s1] load_store(2,3)[OF s2] load_store(2,3)[OF s3] by auto
qed

section \<open>Sizes\<close>

text \<open>The number of bytes the aligned allocation asks for does not wrap around.\<close>

lemma aligned_size:
  assumes al: "al = (2 ^ k :: u64)" "k < 62" and sz: "unat sz + 2 * 2 ^ k + 23 < 2 ^ 64"
  defines "b \<equiv> ((sz + (al - 1)) div al + 1) * al + (3 * 8 - 1)"
  shows "unat sz + 2 ^ k + 23 \<le> unat b" "unat al = 2 ^ k"
proof -
  have pow: "(2 :: nat) ^ k < 2 ^ 62"
    using power_strict_increasing[OF al(2), of "2::nat"] by simp
  have "al = of_nat (2 ^ k)"
    using al(1) by simp
  then show ual: "unat al = 2 ^ k"
    by (simp only: unsigned_of_nat) (use pow al(2) in \<open>simp add: take_bit_nat_eq_self\<close>)
  define q where "q = (unat sz + (2 ^ k - 1)) div 2 ^ k"
  have q: "q * 2 ^ k \<le> unat sz + (2 ^ k - 1)" "unat sz \<le> q * 2 ^ k" "q \<le> unat sz + (2 ^ k - 1)"
  proof -
    show "q * 2 ^ k \<le> unat sz + (2 ^ k - 1)"
      by (simp add: q_def)
    have "unat sz + (2 ^ k - 1) = q * 2 ^ k + (unat sz + (2 ^ k - 1)) mod 2 ^ k" "(unat sz + (2 ^ k - 1)) mod 2 ^ k < 2 ^ k"
      unfolding q_def by (rule div_mult_mod_eq[symmetric]) simp
    then show "unat sz \<le> q * 2 ^ k"
      by linarith
    show "q \<le> unat sz + (2 ^ k - 1)"
      unfolding q_def by (rule div_le_dividend)
  qed
  have one: "unat (al - 1) = 2 ^ k - 1"
    using ual by (simp add: unat_sub word_le_unat)
  have "unat sz + (2 ^ k - 1) < 2 ^ 64" "q + 1 < 2 ^ 64" and prod: "(q + 1) * 2 ^ k + 23 < 2 ^ 64" "(q + 1) * 2 ^ k < 2 ^ 64"
    using q sz by simp_all
  then have "unat (sz + (al - 1)) = unat sz + (2 ^ k - 1)"
    using unat_add_u64[of sz "al - 1"] one by simp
  then have "unat ((sz + (al - 1)) div al) = q"
    using ual by (simp add: unat_div_distrib q_def)
  then have "unat ((sz + (al - 1)) div al + 1) = q + 1"
    using unat_add_u64[of "(sz + (al - 1)) div al" 1] \<open>q + 1 < 2 ^ 64\<close> by simp
  then have "unat (((sz + (al - 1)) div al + 1) * al) = (q + 1) * 2 ^ k"
    using unat_mult_u64[of "(sz + (al - 1)) div al + 1" al] ual prod(2) by simp
  then have "unat b = (q + 1) * 2 ^ k + 23"
    using unat_add_u64[of "((sz + (al - 1)) div al + 1) * al" 23] prod(1) by (simp add: b_def)
  then show "unat sz + 2 ^ k + 23 \<le> unat b"
    using q(2) by simp
qed

section \<open>Properties\<close>

text \<open>What the C library promises of \<^verbatim>\<open>malloc\<close>: a block that is not in use, lies inside the address space and does not start at \<^verbatim>\<open>NULL\<close>.\<close>

definition fresh_block :: "c_malloc \<Rightarrow> alloc_state \<Rightarrow> bool" where
  "fresh_block malloc s \<longleftrightarrow> (\<forall>n a. malloc s n = Some a \<longrightarrow> a \<noteq> 0 \<and> unat a + unat n < 2 ^ 64 \<and> al_blocks s a = None)"

text \<open>A state that differs from \<open>s\<close> only in what the user of the payload at \<open>x\<close> wrote outside of the header.\<close>

definition payload_used :: "u64 \<Rightarrow> alloc_state \<Rightarrow> alloc_state \<Rightarrow> bool" where
  "payload_used x s t \<longleftrightarrow> al_blocks t = al_blocks s \<and> al_bytes_allocated t = al_bytes_allocated s \<and>
     (\<forall>j \<in> {8, 16, 24}. load (x - j) t = load (x - j) s)"

lemma free_aligned_header:
  assumes "load (x - 8) t = ALIGNED_ALLOCATION" "load (x - 16) t = a" "load (x - 24) t = b" "x \<noteq> 0" "al_blocks t a = Some b"
  shows "\<exists>t'. embb_free_aligned x t = Some t' \<and> al_blocks t' = (al_blocks t)(a := None) \<and>
           al_bytes_allocated t' = al_bytes_allocated t - b"
proof -
  let ?t = "t\<lparr>al_memory := mem_write (al_memory t) (x - 8) (bytes_le 8 INVALID_ALLOCATION)\<rparr>"
  have gap: "x - 16 - (x - 8) = - 8" "x - 24 - (x - 8) = - 16"
    by simp_all
  have "load (x - 16) ?t = a" "load (x - 24) ?t = b"
    using assms(2,3) mem_read_write_other[of "bytes_le 8 INVALID_ALLOCATION" "x - 16" "x - 8" 8 "al_memory t"]
      mem_read_write_other[of "bytes_le 8 INVALID_ALLOCATION" "x - 24" "x - 8" 8 "al_memory t"]
    by (simp_all add: load_def gap)
  then show ?thesis
    using assms(1,4,5)
    by (simp add: embb_free_aligned_def free_block_def count_bytes_def embb_atomic_fetch_and_add_def load_def Let_def)
qed

text \<open>The assertions of the aligned allocation.\<close>

lemma aligned_checks:
  assumes "unat a + unat b < 2 ^ 64" "unat x = unat a + d" "24 \<le> d" "d + unat sz \<le> unat b" "unat al = 2 ^ k" "2 ^ k dvd unat x"
  shows "sz \<le> (a + b) - (x :: u64)" "x mod al = 0" "a \<le> x - 24" "x \<noteq> 0"
proof -
  have "unat (a + b) = unat a + unat b"
    using unat_add_lem[of a b] assms(1) by simp
  then have "unat (a + b - x) = unat b - d"
    using assms(2,4) by (simp add: unat_sub word_le_unat)
  then show "sz \<le> (a + b) - x"
    using assms(4) by (simp add: word_le_unat)
  show "x mod al = 0"
    using assms(5,6) by (simp add: word_unat_eq_iff unat_mod_distrib)
  show "a \<le> x - 24"
    using assms(2,3) by (simp add: word_le_unat unat_sub)
  show "x \<noteq> 0"
    using assms(2,3) by (auto simp: word_unat_eq_iff)
qed

text \<open>
  C35. Aligned allocation. For an alignment that is a power of two, allocation returns; if the C library has a block, the address is a multiple
  of the alignment, the header in front of it and the payload behind it lie inside the block, no assertion fails, and the count of allocated bytes grows by the size of the block. Whatever the
  user writes to the payload, freeing the address gives back exactly this block and restores the count.
\<close>

theorem alloc_aligned_roundtrip:
  assumes "al = 2 ^ k" "k < 62" "unat sz + 2 * 2 ^ k + 23 < 2 ^ 64" "fresh_block malloc s"
  shows "\<exists>r s'. embb_alloc_aligned malloc al sz s = Some (r, s') \<and>
           (case r of
              None \<Rightarrow> s' = s
            | Some x \<Rightarrow> 2 ^ k dvd unat x \<and>
                (\<exists>a b. al_blocks s a = None \<and> al_blocks s' = (al_blocks s)(a \<mapsto> b) \<and> unat a + 24 \<le> unat x \<and> unat x + unat sz \<le> unat a + unat b \<and>
                   embb_get_bytes_allocated s' = embb_get_bytes_allocated s + b) \<and>
                (\<forall>t. payload_used x s' t \<longrightarrow>
                   (\<exists>t'. embb_free_aligned x t = Some t' \<and> al_blocks t' = al_blocks s \<and>
                      embb_get_bytes_allocated t' = embb_get_bytes_allocated s)))"
proof -
  let ?b = "((sz + (al - 1)) div al + 1) * al + (3 * 8 - 1)"
  note sizes = aligned_size[OF assms(1-3)]
  have pos: "al \<noteq> 0"
    using sizes(2) by (auto simp: word_unat_eq_iff)
  show ?thesis
  proof (cases "malloc s ?b")
    case None
    then show ?thesis
      using pos by (simp add: embb_alloc_aligned_def take_block_def Let_def)
  next
    case (Some a)
    have a: "unat a + unat ?b < 2 ^ 64" "al_blocks s a = None"
      using assms(4) Some by (auto simp: fresh_block_def)
    then have "unat a + 23 + 2 ^ k < 2 ^ 64"
      using sizes(1) by linarith
    then obtain x d where x: "aligned_loop al a ((a + al) AND NOT (al - 1)) = Some x" "unat x = unat a + d" "24 \<le> d" "d \<le> 23 + 2 ^ k" "2 ^ k dvd unat x"
      using aligned_address[OF sizes(2) assms(1,2)] by blast
    let ?s1 = "s\<lparr>al_blocks := (al_blocks s)(a \<mapsto> ?b)\<rparr>"
    obtain s2 where s2: "do { s \<leftarrow> store a (x - 8) ALIGNED_ALLOCATION ?s1; s \<leftarrow> store a (x - 16) a s; store a (x - 24) ?b s } = Some s2"
        "load (x - 8) s2 = ALIGNED_ALLOCATION" "load (x - 16) s2 = a" "load (x - 24) s2 = ?b"
        "al_blocks s2 = (al_blocks s)(a \<mapsto> ?b)" "al_bytes_allocated s2 = al_bytes_allocated s"
      using header_stores[of ?s1 a ?b x d ALIGNED_ALLOCATION a ?b] x(2-4) sizes(1) by auto
    have fits: "d + unat sz \<le> unat ?b"
      using x(4) sizes(1) by linarith
    note checks = aligned_checks[OF a(1) x(2,3) fits sizes(2) x(5)]
    have run: "embb_alloc_aligned malloc al sz s = Some (Some x, count_bytes ?b s2)"
      using pos Some x(1) checks s2(1) by (auto simp: embb_alloc_aligned_def take_block_def Let_def bind_eq_Some_conv)
    have free: "\<exists>t'. embb_free_aligned x t = Some t' \<and> al_blocks t' = al_blocks s \<and> embb_get_bytes_allocated t' = embb_get_bytes_allocated s"
      if "payload_used x (count_bytes ?b s2) t" for t
      using that free_aligned_header[of x t a ?b] s2 checks(4) a(2)
      by (auto simp: payload_used_def count_bytes_def embb_atomic_fetch_and_add_def embb_get_bytes_allocated_def load_def fun_upd_idem_iff)
    have "unat a + 24 \<le> unat x" "unat x + unat sz \<le> unat a + unat ?b"
      using x(2-4) sizes(1) by linarith+
    then show ?thesis
      using run x(5) a(2) s2(5,6) free
      by (auto simp: count_bytes_def embb_atomic_fetch_and_add_def embb_get_bytes_allocated_def)
  qed
qed

definition example_malloc :: c_malloc where
  "example_malloc s n = (if n < 1000000 \<and> al_blocks s 4096 = None then Some 4096 else None)"

definition example_heap :: alloc_state where
  "example_heap = \<lparr>al_memory = (\<lambda>_. 0), al_bytes_allocated = 0, al_blocks = (\<lambda>_. None)\<rparr>"

lemma example_fresh: "fresh_block example_malloc example_heap"
  by (auto simp: fresh_block_def example_malloc_def example_heap_def word_less_unat)

theorem alloc_aligned_roundtrip_witness:
  "\<exists>x s' t'. embb_alloc_aligned example_malloc 64 100 example_heap = Some (Some x, s') \<and> 64 dvd unat x \<and>
     embb_free_aligned x s' = Some t' \<and> embb_get_bytes_allocated t' = 0"
proof -
  have "embb_alloc_aligned example_malloc 64 100 example_heap \<noteq> Some (None, s)" for s
    by (auto simp: embb_alloc_aligned_def take_block_def example_malloc_def example_heap_def Let_def bind_eq_Some_conv split: if_splits)
  then obtain x s' where r: "embb_alloc_aligned example_malloc 64 100 example_heap = Some (Some x, s')" "64 dvd unat x"
      "\<forall>t. payload_used x s' t \<longrightarrow> (\<exists>t'. embb_free_aligned x t = Some t' \<and> al_blocks t' = al_blocks example_heap \<and>
         embb_get_bytes_allocated t' = embb_get_bytes_allocated example_heap)"
    using alloc_aligned_roundtrip[of 64 6 100 example_malloc example_heap] example_fresh by (fastforce split: option.splits)
  have "payload_used x s' s'"
    by (simp add: payload_used_def)
  then show ?thesis
    using r by (auto simp: embb_get_bytes_allocated_def example_heap_def)
qed

text \<open>Unaligned allocation, in the same way.\<close>

lemma alloc_roundtrip:
  assumes "fresh_block malloc s" "unat bytes + 16 < 2 ^ 64" "malloc s (16 + bytes) = Some a"
  shows "\<exists>s' t'. embb_alloc malloc bytes s = Some (Some (a + 16), s') \<and> al_blocks s' = (al_blocks s)(a \<mapsto> 16 + bytes) \<and>
           embb_free (a + 16) s' = Some t' \<and> al_blocks t' = al_blocks s \<and> embb_get_bytes_allocated t' = embb_get_bytes_allocated s"
proof -
  have len: "unat (16 + bytes) = 16 + unat bytes"
    using unat_add_u64[of 16 bytes] assms(2) by simp
  have a: "unat a + unat (16 + bytes) < 2 ^ 64" "al_blocks s a = None"
    using assms(1,3) by (auto simp: fresh_block_def)
  let ?s1 = "count_bytes (16 + bytes) (s\<lparr>al_blocks := (al_blocks s)(a \<mapsto> 16 + bytes)\<rparr>)"
  have blk: "al_blocks ?s1 a = Some (16 + bytes)"
    by (simp add: count_bytes_def)
  obtain s2 where s2: "store a (a + 8) UNALIGNED_ALLOCATION ?s1 = Some s2"
    using store_Some[OF blk, of "a + 8"] len by auto
  obtain s3 where s3: "store a a (16 + bytes) s2 = Some s3"
    using store_Some[of s2 a "16 + bytes" a] blk load_store(2)[OF s2] len by auto
  have loads: "load (a + 8) s3 = UNALIGNED_ALLOCATION" "load a s3 = 16 + bytes"
    using load_store(1)[OF s2] load_store(1)[OF s3] load_store(4)[OF s3, of "a + 8"] by simp_all
  let ?t = "s3\<lparr>al_memory := mem_write (al_memory s3) (a + 8) (bytes_le 8 INVALID_ALLOCATION)\<rparr>"
  have "a - (a + 8) = - 8"
    by simp
  then have "load a ?t = 16 + bytes"
    using loads(2) mem_read_write_other[of "bytes_le 8 INVALID_ALLOCATION" a "a + 8" 8 "al_memory s3"] by (simp add: load_def)
  moreover have "a + 16 \<noteq> 0"
    using unat_add_u64[of a 16] a(1) len by (auto simp: word_unat_eq_iff)
  moreover have "al_blocks s3 = (al_blocks s)(a \<mapsto> 16 + bytes)" "al_bytes_allocated s3 = al_bytes_allocated s + (16 + bytes)"
    using load_store(2,3)[OF s2] load_store(2,3)[OF s3] by (simp_all add: count_bytes_def embb_atomic_fetch_and_add_def)
  moreover have "embb_alloc malloc bytes s = Some (Some (a + 16), s3)"
    using assms(3) s2 s3 by (simp add: embb_alloc_def take_block_def Let_def)
  ultimately show ?thesis
    using loads(1) a(2)
    by (auto simp: embb_free_def free_block_def count_bytes_def embb_atomic_fetch_and_add_def embb_get_bytes_allocated_def load_def
        Let_def fun_upd_idem_iff add.commute[of 8 a])
qed

end
