(* ===== verification/Thread_Index.thy ===== *)
theory Thread_Index
  imports Spinlock Bitset Duration_Time
begin

text \<open>
  Atomic counters (\<^verbatim>\<open>base_c/src/counter.c\<close>), the indices of threads (\<^verbatim>\<open>base_c/src/internal/thread_index.c\<close>) and thread-specific storage
  (\<^verbatim>\<open>base_c/src/thread_specific_storage.c\<close>), on which the identification of worker threads rests. The functions are modelled as a
  thread runs them alone; after them the parts of drawing an index are interleaved between any number of threads.
\<close>

section \<open>Counters\<close>

record embb_counter =
  counter_value :: u32

definition embb_counter_init :: "embb_counter \<Rightarrow> embb_errors \<times> embb_counter" where
  "embb_counter_init counter = (EMBB_SUCCESS, counter\<lparr>counter_value := 0\<rparr>)"

definition embb_counter_get :: "embb_counter \<Rightarrow> u32" where
  "embb_counter_get counter = counter_value counter"

definition embb_counter_increment :: "embb_counter \<Rightarrow> u32 \<times> embb_counter" where
  "embb_counter_increment counter =
     (case embb_atomic_fetch_and_add (counter_value counter) 1 of (old, new) \<Rightarrow> (old, counter\<lparr>counter_value := new\<rparr>))"

definition embb_counter_decrement :: "embb_counter \<Rightarrow> u32 \<times> embb_counter" where
  "embb_counter_decrement counter =
     (case embb_atomic_fetch_and_add (counter_value counter) (- 1) of (old, new) \<Rightarrow> (old, counter\<lparr>counter_value := new\<rparr>))"

section \<open>Thread indices\<close>

text \<open>
  The global variables of the file. \<open>tx_var\<close> is the thread-local \<^verbatim>\<open>embb_internal_thread_index_var\<close> of each thread, \<^verbatim>\<open>UINT_MAX\<close> as long as
  the thread has no index.
\<close>

record thread_indices =
  tx_max :: u32
  tx_max_flag :: u32
  tx_counter :: embb_counter
  tx_counter_flag :: u32
  tx_var :: "u32 \<Rightarrow> u32"

abbreviation UINT_MAX :: u32 where
  "UINT_MAX \<equiv> - 1"

definition thread_indices_start :: thread_indices where
  "thread_indices_start = \<lparr>tx_max = 0, tx_max_flag = 0, tx_counter = \<lparr>counter_value = 0\<rparr>, tx_counter_flag = 0,
     tx_var = (\<lambda>_. UINT_MAX)\<rparr>"

text \<open>
  Both variables are initialised by the first thread that comes along; another thread that finds the flag at 1 waits. \<open>nprocs\<close> is
  the number of cores of the machine. \<open>None\<close> is waiting for a thread that is not there.
\<close>

definition embb_max_number_thread_indices :: "u32 \<Rightarrow> thread_indices \<Rightarrow> (u32 \<times> thread_indices) option" where
  "embb_max_number_thread_indices nprocs s =
     (if tx_max_flag s \<noteq> 2 then
        (case embb_atomic_compare_and_swap (tx_max_flag s) 0 1 of
           (first, flag, _) \<Rightarrow>
             let s = s\<lparr>tx_max_flag := flag\<rparr>;
                 s = (if first then s\<lparr>tx_max := embb_core_count_available nprocs * 2, tx_max_flag := 2\<rparr> else s)
             in if tx_max_flag s \<noteq> 2 then None else Some (tx_max s, s))
      else Some (tx_max s, s))"

definition embb_thread_index_counter :: "thread_indices \<Rightarrow> (embb_counter \<times> thread_indices) option" where
  "embb_thread_index_counter s =
     (if tx_counter_flag s \<noteq> 2 then
        (case embb_atomic_compare_and_swap (tx_counter_flag s) 0 1 of
           (first, flag, _) \<Rightarrow>
             let s = s\<lparr>tx_counter_flag := flag\<rparr>;
                 s = (if first then s\<lparr>tx_counter := snd (embb_counter_init (tx_counter s)), tx_counter_flag := 2\<rparr> else s)
             in if tx_counter_flag s \<noteq> 2 then None else Some (tx_counter s, s))
      else Some (tx_counter s, s))"

text \<open>
  \<^verbatim>\<open>embb_try_get_next_thread_index\<close> in its three accesses to the shared variables: the increment that draws an index, the comparison with the
  maximum, and the decrement of a thread that is refused.
\<close>

definition thread_index_draw :: "thread_indices \<Rightarrow> (u32 \<times> thread_indices) option" where
  "thread_index_draw s =
     do { (counter, s) \<leftarrow> embb_thread_index_counter s;
          let (index, counter) = embb_counter_increment counter;
          Some (index, s\<lparr>tx_counter := counter\<rparr>) }"

definition thread_index_refused :: "u32 \<Rightarrow> u32 \<Rightarrow> thread_indices \<Rightarrow> (bool \<times> thread_indices) option" where
  "thread_index_refused nprocs index s =
     do { (limit, s) \<leftarrow> embb_max_number_thread_indices nprocs s; Some (limit \<le> index, s) }"

definition thread_index_undo :: "thread_indices \<Rightarrow> thread_indices option" where
  "thread_index_undo s =
     do { (counter, s) \<leftarrow> embb_thread_index_counter s;
          Some (s\<lparr>tx_counter := snd (embb_counter_decrement counter)\<rparr>) }"

definition embb_try_get_next_thread_index ::
    "u32 \<Rightarrow> thread_indices \<Rightarrow> (embb_errors \<times> u32 option \<times> thread_indices) option" where
  "embb_try_get_next_thread_index nprocs s =
     do { (index, s) \<leftarrow> thread_index_draw s;
          (refused, s) \<leftarrow> thread_index_refused nprocs index s;
          if refused then do { s \<leftarrow> thread_index_undo s; Some (EMBB_ERROR, None, s) }
          else Some (EMBB_SUCCESS, Some index, s) }"

definition embb_internal_thread_index ::
    "u32 \<Rightarrow> u32 \<Rightarrow> thread_indices \<Rightarrow> (embb_errors \<times> u32 option \<times> thread_indices) option" where
  "embb_internal_thread_index nprocs thread s =
     do { (status, s) \<leftarrow>
            (if tx_var s thread = UINT_MAX then
               do { (status, index, s) \<leftarrow> embb_try_get_next_thread_index nprocs s;
                    Some (status, case index of Some i \<Rightarrow> s\<lparr>tx_var := (tx_var s)(thread := i)\<rparr> | None \<Rightarrow> s) }
             else Some (EMBB_SUCCESS, s));
          Some (if status = EMBB_ERROR then (EMBB_ERROR, None, s) else (EMBB_SUCCESS, Some (tx_var s thread), s)) }"

definition embb_internal_thread_index_max :: "u32 \<Rightarrow> thread_indices \<Rightarrow> (u32 \<times> thread_indices) option" where
  "embb_internal_thread_index_max nprocs s = embb_max_number_thread_indices nprocs s"

definition embb_internal_thread_index_set_max :: "u32 \<Rightarrow> u32 \<Rightarrow> thread_indices \<Rightarrow> thread_indices option" where
  "embb_internal_thread_index_set_max nprocs limit s =
     do { (_, s) \<leftarrow> embb_max_number_thread_indices nprocs s; Some (s\<lparr>tx_max := limit\<rparr>) }"

definition embb_internal_thread_index_reset :: "thread_indices \<Rightarrow> thread_indices option" where
  "embb_internal_thread_index_reset s =
     do { (counter, s) \<leftarrow> embb_thread_index_counter s; Some (s\<lparr>tx_counter := snd (embb_counter_init counter)\<rparr>) }"

definition embb_thread_get_max_count :: "u32 \<Rightarrow> thread_indices \<Rightarrow> (u32 \<times> thread_indices) option" where
  "embb_thread_get_max_count nprocs s = embb_internal_thread_index_max nprocs s"

definition embb_thread_set_max_count :: "u32 \<Rightarrow> u32 \<Rightarrow> thread_indices \<Rightarrow> thread_indices option" where
  "embb_thread_set_max_count nprocs limit s = embb_internal_thread_index_set_max nprocs limit s"

section \<open>Thread-specific storage\<close>

text \<open>Pointers are addresses, 0 is \<^verbatim>\<open>NULL\<close>. \<open>block\<close> tells whether memory is available, \<open>garbage\<close> is what it holds.\<close>

record embb_tss =
  tss_values :: "u64 list"
  tss_size :: u32

definition embb_tss_create ::
    "u32 \<Rightarrow> bool \<Rightarrow> (nat \<Rightarrow> u64) \<Rightarrow> embb_tss \<Rightarrow> thread_indices \<Rightarrow> (embb_errors \<times> embb_tss \<times> thread_indices) option" where
  "embb_tss_create nprocs block garbage tss s =
     do { (n, s) \<leftarrow> embb_thread_get_max_count nprocs s;
          let tss = tss\<lparr>tss_size := n\<rparr>;
          if \<not> block then Some (EMBB_NOMEM, tss\<lparr>tss_values := []\<rparr>, s)
          else
            do { values \<leftarrow> for_less (\<lambda>i values. arr_set values i 0) 0 n (map garbage [0..<unat n]);
                 Some (EMBB_SUCCESS, tss\<lparr>tss_values := values\<rparr>, s) } }"

definition embb_tss_set ::
    "u32 \<Rightarrow> u32 \<Rightarrow> u64 \<Rightarrow> embb_tss \<Rightarrow> thread_indices \<Rightarrow> (embb_errors \<times> embb_tss \<times> thread_indices) option" where
  "embb_tss_set nprocs thread v tss s =
     do { (status, index, s) \<leftarrow> embb_internal_thread_index nprocs thread s;
          let index = (case index of Some i \<Rightarrow> i | None \<Rightarrow> 0);
          if status \<noteq> EMBB_SUCCESS \<or> tss_size tss \<le> index then Some (EMBB_ERROR, tss, s)
          else
            do { values \<leftarrow> arr_set (tss_values tss) index v;
                 Some (EMBB_SUCCESS, tss\<lparr>tss_values := values\<rparr>, s) } }"

definition embb_tss_get :: "u32 \<Rightarrow> u32 \<Rightarrow> embb_tss \<Rightarrow> thread_indices \<Rightarrow> (u64 \<times> thread_indices) option" where
  "embb_tss_get nprocs thread tss s =
     do { (status, index, s) \<leftarrow> embb_internal_thread_index nprocs thread s;
          let index = (case index of Some i \<Rightarrow> i | None \<Rightarrow> 0);
          if status \<noteq> EMBB_SUCCESS \<or> tss_size tss \<le> index then Some (0, s)
          else do { v \<leftarrow> arr_get (tss_values tss) index; Some (v, s) } }"

text \<open>The block is given back: no access to it is defined any more.\<close>

definition embb_tss_delete :: "embb_tss \<Rightarrow> embb_tss" where
  "embb_tss_delete tss = tss\<lparr>tss_values := []\<rparr>"

section \<open>Threads that draw indices at the same time\<close>

text \<open>
  Where a thread is in \<^verbatim>\<open>embb_try_get_next_thread_index\<close>: before it, after the increment with the value it saw, with an index, or after the comparison failed and
  before the decrement. The steps are the three parts of the function, each on the global variables as it finds them.
\<close>

datatype index_pc = Outside | Drew u32 | Owner u32 | Refused

record index_sys =
  ix_vars :: thread_indices
  ix_pc :: "nat \<Rightarrow> index_pc"

inductive index_step :: "u32 \<Rightarrow> index_sys \<Rightarrow> index_sys \<Rightarrow> bool" for nprocs where
  draw: "ix_pc s t = Outside \<Longrightarrow> thread_index_draw (ix_vars s) = Some (i, v) \<Longrightarrow>
    index_step nprocs s (s\<lparr>ix_vars := v, ix_pc := (ix_pc s)(t := Drew i)\<rparr>)"
| check: "ix_pc s t = Drew i \<Longrightarrow> thread_index_refused nprocs i (ix_vars s) = Some (refused, v) \<Longrightarrow>
    index_step nprocs s (s\<lparr>ix_vars := v, ix_pc := (ix_pc s)(t := if refused then Refused else Owner i)\<rparr>)"
| leave: "ix_pc s t = Refused \<Longrightarrow> thread_index_undo (ix_vars s) = Some v \<Longrightarrow>
    index_step nprocs s (s\<lparr>ix_vars := v, ix_pc := (ix_pc s)(t := Outside)\<rparr>)"

text \<open>
  \<open>index_reach nprocs limit n s\<close>: \<open>s\<close> is reached with \<open>n\<close> threads, from the variables as they are after the maximum has been set to \<open>limit\<close> and the
  counter has been reset.
\<close>

inductive index_reach :: "u32 \<Rightarrow> u32 \<Rightarrow> nat \<Rightarrow> index_sys \<Rightarrow> bool" for nprocs limit n where
  start: "embb_internal_thread_index_set_max nprocs limit thread_indices_start = Some v \<Longrightarrow>
    embb_internal_thread_index_reset v = Some v' \<Longrightarrow>
    index_reach nprocs limit n \<lparr>ix_vars = v', ix_pc = (\<lambda>_. Outside)\<rparr>"
| more: "index_reach nprocs limit n s \<Longrightarrow> index_step nprocs s s' \<Longrightarrow> (\<forall>t \<ge> n. ix_pc s' t = Outside) \<Longrightarrow>
    index_reach nprocs limit n s'"

abbreviation ix_counter :: "index_sys \<Rightarrow> embb_counter" where
  "ix_counter s \<equiv> tx_counter (ix_vars s)"

text \<open>The threads that have or will have an index, the threads that will be refused, and the index of a thread.\<close>

definition holders :: "u32 \<Rightarrow> index_sys \<Rightarrow> nat set" where
  "holders limit s = {t. \<exists>i. (ix_pc s t = Drew i \<or> ix_pc s t = Owner i) \<and> i < limit}"

definition losers :: "u32 \<Rightarrow> index_sys \<Rightarrow> nat set" where
  "losers limit s = {t. ix_pc s t = Refused \<or> (\<exists>i. ix_pc s t = Drew i \<and> limit \<le> i)}"

fun pc_index :: "index_pc \<Rightarrow> u32" where
  "pc_index (Drew i) = i"
| "pc_index (Owner i) = i"
| "pc_index _ = 0"

text \<open>After the first use of the variables both flags are set and stay set.\<close>

definition vars_ready :: "u32 \<Rightarrow> thread_indices \<Rightarrow> bool" where
  "vars_ready limit v \<longleftrightarrow> tx_counter_flag v = 2 \<and> tx_max_flag v = 2 \<and> tx_max v = limit"

lemma first_use_noop:
  "tx_counter_flag s = 2 \<Longrightarrow> embb_thread_index_counter s = Some (tx_counter s, s)"
  "tx_max_flag s = 2 \<Longrightarrow> embb_max_number_thread_indices nprocs s = Some (tx_max s, s)"
  by (simp_all add: embb_thread_index_counter_def embb_max_number_thread_indices_def)

lemma index_parts:
  assumes "vars_ready limit v"
  shows "thread_index_draw v =
      Some (counter_value (tx_counter v), v\<lparr>tx_counter := (tx_counter v)\<lparr>counter_value := counter_value (tx_counter v) + 1\<rparr>\<rparr>)"
    "thread_index_refused nprocs i v = Some (limit \<le> i, v)"
    "thread_index_undo v = Some (v\<lparr>tx_counter := (tx_counter v)\<lparr>counter_value := counter_value (tx_counter v) - 1\<rparr>\<rparr>)"
  using assms
  by (simp_all add: vars_ready_def thread_index_draw_def thread_index_refused_def thread_index_undo_def first_use_noop
      embb_counter_increment_def embb_counter_decrement_def embb_atomic_fetch_and_add_def)

lemma vars_ready_counter [simp]: "vars_ready limit (v\<lparr>tx_counter := c\<rparr>) = vars_ready limit v"
  by (simp add: vars_ready_def)

lemma start_ready:
  assumes "embb_internal_thread_index_set_max nprocs limit thread_indices_start = Some v"
    "embb_internal_thread_index_reset v = Some v'"
  shows "v' = \<lparr>tx_max = limit, tx_max_flag = 2, tx_counter = \<lparr>counter_value = 0\<rparr>, tx_counter_flag = 2, tx_var = (\<lambda>_. UINT_MAX)\<rparr>"
  using assms
  by (auto simp: embb_internal_thread_index_set_max_def embb_internal_thread_index_reset_def thread_indices_start_def
      embb_max_number_thread_indices_def embb_thread_index_counter_def embb_counter_init_def embb_atomic_compare_and_swap_def)

definition index_inv :: "u32 \<Rightarrow> nat \<Rightarrow> index_sys \<Rightarrow> bool" where
  "index_inv limit n s \<longleftrightarrow> vars_ready limit (ix_vars s) \<and> (\<forall>t \<ge> n. ix_pc s t = Outside) \<and> (\<forall>t i. ix_pc s t = Owner i \<longrightarrow> i < limit) \<and>
     bij_betw (\<lambda>t. unat (pc_index (ix_pc s t))) (holders limit s) {0..<card (holders limit s)} \<and>
     unat (counter_value (ix_counter s)) = card (holders limit s) + card (losers limit s) \<and>
     (losers limit s \<noteq> {} \<longrightarrow> card (holders limit s) = unat limit)"

lemma index_sets_finite:
  assumes "\<forall>t \<ge> n. ix_pc s t = Outside"
  shows "holders limit s \<subseteq> {..<n}" "losers limit s \<subseteq> {..<n}" "finite (holders limit s)" "finite (losers limit s)"
    "holders limit s \<inter> losers limit s = {}"
proof -
  show sub: "holders limit s \<subseteq> {..<n}" "losers limit s \<subseteq> {..<n}"
    using assms by (auto simp: holders_def losers_def) (metis index_pc.distinct not_less)+
  then show "finite (holders limit s)" "finite (losers limit s)"
    by (auto intro: finite_subset)
  show "holders limit s \<inter> losers limit s = {}"
    by (auto simp: holders_def losers_def)
qed

lemma holders_bound:
  assumes "index_inv limit n s"
  shows "card (holders limit s) \<le> unat limit"
proof -
  have "(\<lambda>t. unat (pc_index (ix_pc s t))) ` holders limit s \<subseteq> {0..<unat limit}"
    by (auto simp: holders_def word_less_unat)
  moreover have "(\<lambda>t. unat (pc_index (ix_pc s t))) ` holders limit s = {0..<card (holders limit s)}"
    using assms by (auto simp: index_inv_def bij_betw_def)
  ultimately show ?thesis
    by (metis atLeast0LessThan card_atLeastLessThan card_mono diff_zero finite_atLeastLessThan)
qed

lemma index_inv_draw:
  assumes inv: "index_inv limit n s" and t: "ix_pc s t = Outside" "t < n" and n: "n < 2 ^ 32"
    and step: "thread_index_draw (ix_vars s) = Some (i, v)"
  shows "index_inv limit n (s\<lparr>ix_vars := v, ix_pc := (ix_pc s)(t := Drew i)\<rparr>)"
proof -
  let ?s = "s\<lparr>ix_vars := v, ix_pc := (ix_pc s)(t := Drew i)\<rparr>"
  let ?H = "holders limit s" and ?L = "losers limit s"
  have out: "\<forall>t \<ge> n. ix_pc s t = Outside"
    using inv by (simp add: index_inv_def)
  note fin = index_sets_finite[OF out, of limit]
  have ready: "vars_ready limit (ix_vars s)"
    using inv by (simp add: index_inv_def)
  have i: "i = counter_value (ix_counter s)" "counter_value (tx_counter v) = i + 1" "vars_ready limit v"
    using step ready by (auto simp: index_parts[OF ready])
  have cnt: "unat i = card ?H + card ?L" "?L \<noteq> {} \<longrightarrow> card ?H = unat limit"
    using inv i(1) by (auto simp: index_inv_def)
  have notin: "t \<notin> ?H" "t \<notin> ?L"
    using t(1) by (auto simp: holders_def losers_def)
  have "card (?H \<union> ?L) < n"
  proof -
    have "?H \<union> ?L \<subseteq> {..<n} - {t}"
      using fin(1,2) notin by auto
    then have "card (?H \<union> ?L) \<le> card ({..<n} - {t})"
      by (intro card_mono) auto
    then show ?thesis
      using t(2) by simp
  qed
  then have "unat i < n"
    using cnt(1) fin(3-5) by (simp add: card_Un_disjoint)
  then have next_i: "unat (i + 1) = Suc (unat i)"
    using n by (intro unat_inc_bound) auto
  show ?thesis
  proof (cases "i < limit")
    case True
    have sets: "holders limit ?s = insert t ?H" "losers limit ?s = ?L"
      using True t(1) by (auto simp: holders_def losers_def not_le[symmetric])
    have L: "?L = {}"
      using True cnt by (auto simp: word_less_unat)
    let ?f = "\<lambda>u. unat (pc_index (ix_pc ?s u))"
    have "bij_betw ?f ?H {0..<card ?H} \<longleftrightarrow> bij_betw (\<lambda>u. unat (pc_index (ix_pc s u))) ?H {0..<card ?H}"
      using notin(1) by (intro bij_betw_cong) auto
    then have "bij_betw ?f ?H {0..<card ?H}"
      using inv by (simp add: index_inv_def)
    moreover have "?f t = card ?H"
      using cnt(1) L by simp
    ultimately have "bij_betw ?f (?H \<union> {t}) ({0..<card ?H} \<union> {card ?H})"
      using notIn_Un_bij_betw[of t ?H ?f "{0..<card ?H}"] notin(1) by simp
    moreover have "{0..<card ?H} \<union> {card ?H} = {0..<Suc (card ?H)}"
      by auto
    ultimately show ?thesis
      using inv sets L notin fin(3) cnt(1) i next_i t(2) by (auto simp: index_inv_def)
  next
    case False
    have sets: "holders limit ?s = ?H" "losers limit ?s = insert t ?L"
      using False t(1) by (auto simp: holders_def losers_def)
    have full: "card ?H = unat limit"
    proof (cases "?L = {}")
      case True
      then show ?thesis
        using False cnt(1) holders_bound[OF inv] by (simp add: word_less_unat)
    qed (use cnt(2) in simp)
    have "bij_betw (\<lambda>u. unat (pc_index (ix_pc ?s u))) ?H {0..<card ?H} \<longleftrightarrow> bij_betw (\<lambda>u. unat (pc_index (ix_pc s u))) ?H {0..<card ?H}"
      using notin(1) by (intro bij_betw_cong) auto
    then show ?thesis
      using inv sets full notin fin(4) cnt(1) i next_i t(2) by (auto simp: index_inv_def)
  qed
qed

lemma index_inv_step:
  assumes step: "index_step nprocs s s'" and inv: "index_inv limit n s" and out: "\<forall>t \<ge> n. ix_pc s' t = Outside" and n: "n < 2 ^ 32"
  shows "index_inv limit n s'"
proof -
  have ready: "vars_ready limit (ix_vars s)"
    using inv by (simp add: index_inv_def)
  have same: "(\<lambda>u. unat (pc_index (ix_pc s' u))) = (\<lambda>u. unat (pc_index (ix_pc s u)))"
    if "ix_pc s t = Drew i" "ix_pc s' = (ix_pc s)(t := Owner i)" for t i
    using that by (auto simp: fun_eq_iff)
  have gone: "bij_betw (\<lambda>u. unat (pc_index (ix_pc s' u))) (holders limit s) C \<longleftrightarrow>
      bij_betw (\<lambda>u. unat (pc_index (ix_pc s u))) (holders limit s) C"
    if "t \<notin> holders limit s" "ix_pc s' = (ix_pc s)(t := pc)" for t pc C
    using that by (intro bij_betw_cong) auto
  show ?thesis
    using step
  proof cases
    case (draw t i v)
    have "t < n"
      using draw(1) out by (rule_tac ccontr) (auto simp: not_less)
    then show ?thesis
      using index_inv_draw[OF inv draw(2) _ n draw(3)] draw(1) by simp
  next
    case (check t i refused v)
    then have v: "refused = (limit \<le> i)" "v = ix_vars s"
      by (simp_all add: index_parts[OF ready])
    show ?thesis
    proof (cases "limit \<le> i")
      case False
      then have "holders limit s' = holders limit s" "losers limit s' = losers limit s"
        using check v by (auto simp: holders_def losers_def)
      then show ?thesis
        using inv out same[OF check(2)] check v False by (auto simp: index_inv_def)
    next
      case True
      then have sets: "holders limit s' = holders limit s" "losers limit s' = losers limit s" "t \<notin> holders limit s"
        using check v by (auto simp: holders_def losers_def)
      then show ?thesis
        using inv out gone[OF sets(3)] check v True by (auto simp: index_inv_def)
    qed
  next
    case (leave t v)
    let ?L = "losers limit s"
    have sets: "holders limit s' = holders limit s" "losers limit s' = ?L - {t}" "t \<notin> holders limit s" "t \<in> ?L"
      using leave by (auto simp: holders_def losers_def)
    have "finite ?L"
      using index_sets_finite[of n s limit] inv by (simp add: index_inv_def)
    then have card: "card (?L - {t}) = card ?L - 1" "0 < card ?L"
      using sets(4) by (auto simp: card_gt_0_iff)
    have v: "counter_value (tx_counter v) = counter_value (ix_counter s) - 1" "vars_ready limit v"
      using leave(3) ready by (auto simp: index_parts[OF ready])
    have "0 < counter_value (ix_counter s)"
      using inv card(2) by (auto simp: index_inv_def word_less_unat)
    then have cnt: "unat (counter_value (tx_counter v)) = card (holders limit s) + card (?L - {t})"
      using inv card v unat_dec_pos[of "counter_value (ix_counter s)"] by (simp add: index_inv_def)
    then show ?thesis
      using inv out sets(1,2) cnt v gone[OF sets(3)] leave by (auto simp: index_inv_def)
  qed
qed

lemma index_reach_inv: "index_reach nprocs limit n s \<Longrightarrow> n < 2 ^ 32 \<Longrightarrow> index_inv limit n s"
proof (induction rule: index_reach.induct)
  case (start v v')
  have "holders limit \<lparr>ix_vars = v', ix_pc = \<lambda>_. Outside\<rparr> = {}"
      "losers limit \<lparr>ix_vars = v', ix_pc = \<lambda>_. Outside\<rparr> = {}"
    by (simp_all add: holders_def losers_def)
  then show ?case
    using start_ready[OF start(1,2)] by (simp add: index_inv_def bij_betw_def vars_ready_def)
next
  case (more s s')
  then show ?case
    using index_inv_step by blast
qed

section \<open>One thread alone\<close>

text \<open>The threads with an index have different ones, all below the counter.\<close>

definition indices_ok :: "thread_indices \<Rightarrow> bool" where
  "indices_ok s \<longleftrightarrow> tx_counter_flag s = 2 \<and> tx_max_flag s = 2 \<and> counter_value (tx_counter s) \<le> tx_max s \<and>
     (\<forall>t. tx_var s t \<noteq> UINT_MAX \<longrightarrow> tx_var s t < counter_value (tx_counter s)) \<and>
     (\<forall>t u. tx_var s t = tx_var s u \<and> tx_var s t \<noteq> UINT_MAX \<longrightarrow> t = u)"

lemma indices_okD:
  assumes "indices_ok s"
  shows "tx_counter_flag s = 2" "tx_max_flag s = 2" "counter_value (tx_counter s) \<le> tx_max s"
    "\<And>t. tx_var s t \<noteq> UINT_MAX \<Longrightarrow> tx_var s t < counter_value (tx_counter s)"
    "\<And>t. tx_var s t \<noteq> UINT_MAX \<Longrightarrow> tx_var s t < tx_max s"
    "\<And>t u. tx_var s t = tx_var s u \<Longrightarrow> tx_var s t \<noteq> UINT_MAX \<Longrightarrow> t = u"
proof -
  show "tx_counter_flag s = 2" "tx_max_flag s = 2" and le: "counter_value (tx_counter s) \<le> tx_max s"
    using assms unfolding indices_ok_def by blast+
  show below: "tx_var s t < counter_value (tx_counter s)" if "tx_var s t \<noteq> UINT_MAX" for t
    using assms that unfolding indices_ok_def by blast
  show "tx_var s t < tx_max s" if "tx_var s t \<noteq> UINT_MAX" for t
    using less_le_trans[OF below[OF that] le] .
  show "t = u" if "tx_var s t = tx_var s u" "tx_var s t \<noteq> UINT_MAX" for t u
    using assms that unfolding indices_ok_def by blast
qed

lemma try_get_next_ok:
  assumes "indices_ok s"
  shows "embb_try_get_next_thread_index nprocs s =
     Some (if counter_value (tx_counter s) < tx_max s
           then (EMBB_SUCCESS, Some (counter_value (tx_counter s)), s\<lparr>tx_counter := (tx_counter s)\<lparr>counter_value := counter_value (tx_counter s) + 1\<rparr>\<rparr>)
           else (EMBB_ERROR, None, s))"
proof -
  have "vars_ready (tx_max s) s"
    using indices_okD(1,2)[OF assms] by (simp add: vars_ready_def)
  then show ?thesis
    by (cases "counter_value (tx_counter s) < tx_max s") (simp_all add: embb_try_get_next_thread_index_def index_parts leD)
qed

lemma thread_index_cases:
  assumes "indices_ok s"
  obtains s' where "embb_internal_thread_index nprocs t s = Some (EMBB_SUCCESS, Some (tx_var s' t), s')" "indices_ok s'" "tx_var s' t \<noteq> UINT_MAX"
      "tx_max s' = tx_max s" "\<forall>u. u \<noteq> t \<longrightarrow> tx_var s' u = tx_var s u" "tx_var s' t < tx_max s"
  | "embb_internal_thread_index nprocs t s = Some (EMBB_ERROR, None, s)" "tx_var s t = UINT_MAX"
proof (cases "tx_var s t = UINT_MAX")
  case False
  then have "embb_internal_thread_index nprocs t s = Some (EMBB_SUCCESS, Some (tx_var s t), s)" "tx_var s t < tx_max s"
    using indices_okD(5)[OF assms] by (simp_all add: embb_internal_thread_index_def)
  then show ?thesis
    using False assms that(1)[of s] by simp
next
  case True
  let ?c = "counter_value (tx_counter s)"
  show ?thesis
  proof (cases "?c < tx_max s")
    case False
    then show ?thesis
      using True assms that(2) by (simp add: embb_internal_thread_index_def try_get_next_ok)
  next
    case c: True
    let ?s = "s\<lparr>tx_counter := (tx_counter s)\<lparr>counter_value := ?c + 1\<rparr>, tx_var := (tx_var s)(t := ?c)\<rparr>"
    have succ: "unat (?c + 1) = Suc (unat ?c)" "?c \<noteq> UINT_MAX"
      using c unat_inc_bound[of ?c "unat (tx_max s)"] unat_u32_less[of "tx_max s"] by (auto simp: word_less_unat)
    then have "?c < ?c + 1" "?c + 1 \<le> tx_max s"
      using c by (simp_all add: word_less_unat word_le_unat)
    then have bounds: "tx_var s u < ?c + 1" "tx_var s u \<noteq> ?c" if "tx_var s u \<noteq> UINT_MAX" for u
      using indices_okD(4)[OF assms that] by auto
    have ok: "indices_ok ?s"
      unfolding indices_ok_def
    proof (intro conjI allI impI)
      show "tx_var ?s u < counter_value (tx_counter ?s)" if "tx_var ?s u \<noteq> UINT_MAX" for u
        using bounds[of u] that \<open>?c < ?c + 1\<close> by (cases "u = t") simp_all
      show "u = v" if "tx_var ?s u = tx_var ?s v \<and> tx_var ?s u \<noteq> UINT_MAX" for u v
        using that bounds(2)[of u] bounds(2)[of v] indices_okD(6)[OF assms, of u v] by (cases "u = t"; cases "v = t") auto
    qed (use indices_okD(1-3)[OF assms] \<open>?c + 1 \<le> tx_max s\<close> in simp_all)
    have "embb_internal_thread_index nprocs t s = Some (EMBB_SUCCESS, Some (tx_var ?s t), ?s)"
      using True c assms by (simp add: embb_internal_thread_index_def try_get_next_ok)
    then show ?thesis
      using ok succ(2) c by (intro that(1)[of ?s]) auto
  qed
qed

section \<open>Properties\<close>

text \<open>
  C34. Thread indices under interleaving. However up to \<open>2 ^ 32 - 1\<close> threads interleave their increments, comparisons and decrements, no two threads own the same index, every index is below
  the maximum, and while a thread is being refused every index below the maximum is taken: it is owned, or by a thread that drew it.
\<close>

theorem thread_indices_unique:
  assumes "index_reach nprocs limit n s" "n < 2 ^ 32"
  shows "(\<forall>t u i. ix_pc s t = Owner i \<and> ix_pc s u = Owner i \<longrightarrow> t = u \<and> i < limit) \<and>
         (\<forall>t. ix_pc s t = Refused \<longrightarrow> (\<forall>j < limit. \<exists>u. ix_pc s u = Drew j \<or> ix_pc s u = Owner j))"
proof (intro conjI allI impI)
  note inv = index_reach_inv[OF assms]
  let ?f = "\<lambda>t. unat (pc_index (ix_pc s t))"
  have bij: "inj_on ?f (holders limit s)" "?f ` holders limit s = {0..<card (holders limit s)}"
    using inv by (auto simp: index_inv_def bij_betw_def)
  fix t u i
  assume own: "ix_pc s t = Owner i \<and> ix_pc s u = Owner i"
  then show less: "i < limit"
    using inv by (auto simp: index_inv_def)
  then have "t \<in> holders limit s" "u \<in> holders limit s" "?f t = ?f u"
    using own by (auto simp: holders_def)
  then show "t = u"
    using bij(1) by (auto dest: inj_onD)
next
  note inv = index_reach_inv[OF assms]
  fix t j
  assume "ix_pc s t = Refused" and j: "j < limit"
  then have "card (holders limit s) = unat limit"
    using inv by (auto simp: index_inv_def losers_def)
  then have "unat j \<in> (\<lambda>t. unat (pc_index (ix_pc s t))) ` holders limit s"
    using inv j by (auto simp: index_inv_def bij_betw_def word_less_unat)
  then obtain u where u: "u \<in> holders limit s" "unat j = unat (pc_index (ix_pc s u))"
    by auto
  have "j = pc_index (ix_pc s u)"
    using u(2) by (simp add: word_unat_eq_iff)
  then show "\<exists>u. ix_pc s u = Drew j \<or> ix_pc s u = Owner j"
    using u(1) by (auto simp: holders_def)
qed

theorem thread_indices_unique_witness:
  "\<exists>s. index_reach 4 1 2 s \<and> ix_pc s 0 = Owner 0 \<and> ix_pc s 1 = Refused \<and> (\<exists>u. ix_pc s u = Drew 0 \<or> ix_pc s u = Owner 0)"
proof -
  let ?v = "\<lambda>c. \<lparr>tx_max = 1, tx_max_flag = 2, tx_counter = \<lparr>counter_value = c\<rparr>, tx_counter_flag = 2, tx_var = (\<lambda>_. UINT_MAX)\<rparr>"
  let ?s = "\<lambda>c p. \<lparr>ix_vars = ?v c, ix_pc = p\<rparr>"
  let ?out = "\<lambda>_ :: nat. Outside"
  have ready: "vars_ready 1 (?v c)" for c
    by (simp add: vars_ready_def)
  note parts = index_parts[OF ready]
  have r0: "index_reach 4 1 2 (?s 0 ?out)"
    by (rule index_reach.start[where v = "thread_indices_start\<lparr>tx_max := 1, tx_max_flag := 2\<rparr>"])
      (simp_all add: thread_indices_start_def embb_internal_thread_index_set_max_def embb_internal_thread_index_reset_def
        embb_max_number_thread_indices_def embb_thread_index_counter_def embb_counter_init_def embb_atomic_compare_and_swap_def)
  have r1: "index_reach 4 1 2 (?s 1 (?out(0 := Drew 0)))"
    using index_step.draw[of "?s 0 ?out" 0 0 "?v 1" 4] by (intro index_reach.more[OF r0]) (auto simp: parts)
  have r2: "index_reach 4 1 2 (?s 2 (?out(0 := Drew 0, 1 := Drew 1)))"
    using index_step.draw[of "?s 1 (?out(0 := Drew 0))" 1 1 "?v 2" 4] by (intro index_reach.more[OF r1]) (auto simp: parts)
  let ?p = "?out(0 := Drew 0, 1 := Drew 1, 0 := Owner 0, 1 := Refused)"
  have r3: "index_reach 4 1 2 (?s 2 (?out(0 := Drew 0, 1 := Drew 1, 0 := Owner 0)))"
    using index_step.check[of "?s 2 (?out(0 := Drew 0, 1 := Drew 1))" 0 0 4 False "?v 2"]
    by (intro index_reach.more[OF r2]) (simp_all add: parts)
  have r4: "index_reach 4 1 2 (?s 2 ?p)"
    using index_step.check[of "?s 2 (?out(0 := Drew 0, 1 := Drew 1, 0 := Owner 0))" 1 1 4 True "?v 2"]
    by (intro index_reach.more[OF r3]) (simp_all add: parts)
  have "\<exists>u. ix_pc (?s 2 ?p) u = Drew 0 \<or> ix_pc (?s 2 ?p) u = Owner 0"
    using conjunct2[OF thread_indices_unique[OF r4], rule_format, of 1 0] by simp
  then show ?thesis
    using r4 by (intro exI[of _ "?s 2 ?p"]) simp
qed

text \<open>
  Thread-specific storage. Storing a value succeeds for a thread that has or gets an index, and then reading returns the value to this thread, and to every other thread with an
  index what it read before. A thread for which no index is left is refused and nothing changes.
\<close>

lemma tss_set_get:
  assumes "indices_ok s" "tss_size tss = tx_max s" "length (tss_values tss) = unat (tss_size tss)"
  shows "\<exists>status tss' s'. embb_tss_set nprocs t v tss s = Some (status, tss', s') \<and> indices_ok s' \<and>
           (if status = EMBB_SUCCESS then
              embb_tss_get nprocs t tss' s' = Some (v, s') \<and>
              (\<forall>u. u \<noteq> t \<and> tx_var s u \<noteq> UINT_MAX \<longrightarrow> (\<exists>x. embb_tss_get nprocs u tss s = Some (x, s) \<and> embb_tss_get nprocs u tss' s' = Some (x, s')))
            else status = EMBB_ERROR \<and> tss' = tss \<and> s' = s \<and> tx_var s t = UINT_MAX)"
proof (cases rule: thread_index_cases[OF assms(1), of nprocs t])
  case 2
  then show ?thesis
    using assms(1) by (simp add: embb_tss_set_def)
next
  case (1 s')
  let ?i = "tx_var s' t"
  have i: "unat ?i < length (tss_values tss)" "\<not> tss_size tss \<le> ?i"
    using 1(6) assms(2,3) by (simp_all add: word_less_unat word_le_unat)
  let ?tss = "tss\<lparr>tss_values := (tss_values tss)[unat ?i := v]\<rparr>"
  have set: "embb_tss_set nprocs t v tss s = Some (EMBB_SUCCESS, ?tss, s')"
    using 1(1) i by (simp add: embb_tss_set_def arr_simps)
  have again: "embb_internal_thread_index nprocs u s'' = Some (EMBB_SUCCESS, Some (tx_var s'' u), s'')" if "tx_var s'' u \<noteq> UINT_MAX" for u s''
    using that by (simp add: embb_internal_thread_index_def)
  have "embb_tss_get nprocs t ?tss s' = Some (v, s')"
    using again[OF 1(3)] i by (simp add: embb_tss_get_def arr_simps)
  moreover have "\<exists>x. embb_tss_get nprocs u tss s = Some (x, s) \<and> embb_tss_get nprocs u ?tss s' = Some (x, s')"
    if u: "u \<noteq> t" "tx_var s u \<noteq> UINT_MAX" for u
  proof -
    have same: "tx_var s' u = tx_var s u" "tx_var s' u \<noteq> ?i"
      using 1(3,5) u indices_okD(6)[OF 1(2), of u t] by auto
    have "tx_var s u < tx_max s"
      using indices_okD(5)[OF assms(1) u(2)] .
    then have bound: "unat (tx_var s u) < length (tss_values tss)" "\<not> tss_size tss \<le> tx_var s u"
      using assms(2,3) by (simp_all add: word_less_unat word_le_unat)
    show ?thesis
      using again[of s u] again[of s' u] u(2) same bound by (simp add: embb_tss_get_def arr_simps word_unat_eq_iff[symmetric])
  qed
  ultimately show ?thesis
    using set 1(2) by auto
qed

end
