(* ===== verification/Network_Buffer.thy ===== *)
theory Network_Buffer
  imports Prelude
begin

text \<open>
  The message buffer of the network plugin (\<^verbatim>\<open>mtapi_network_c/src/embb_mtapi_network_buffer.c\<close>). Values are copied to the end of the
  buffer and read back from its front; integers keep the byte order of the machine, which is little-endian here.

  The C type \<^verbatim>\<open>int\<close> of positions and sizes is an \<open>int\<close>, and a sum outside of 32 bits is undefined behaviour and thus \<open>None\<close>, as are
  a copy outside of the block of the buffer and a copy of a negative number of bytes. The locale \<open>byte_fifo\<close> is what clients rely on: bytes leave the buffer in the order in
  which they came.
\<close>

section \<open>Signed integers\<close>

definition int_add :: "int \<Rightarrow> int \<Rightarrow> int option" where
  "int_add a b = (if - (2 ^ 31) \<le> a + b \<and> a + b < 2 ^ 31 then Some (a + b) else None)"

text \<open>An unsigned integer that is cast to \<^verbatim>\<open>int\<close> or \<^verbatim>\<open>int32_t\<close>, and back.\<close>

definition c_int :: "'a::len word \<Rightarrow> int" where
  "c_int x = sint (ucast x :: u32)"

section \<open>Operations\<close>

record embb_mtapi_network_buffer =
  nb_position :: int
  nb_size :: int
  nb_capacity :: int
  nb_data :: "u8 list option"

text \<open>\<open>memcpy\<close> into and out of the block of the buffer.\<close>

definition copy_in :: "u8 list option \<Rightarrow> int \<Rightarrow> u8 list \<Rightarrow> u8 list option" where
  "copy_in data off bs =
     (case data of
        None \<Rightarrow> None
      | Some d \<Rightarrow> if 0 \<le> off \<and> nat off + length bs \<le> length d
                   then Some (take (nat off) d @ bs @ drop (nat off + length bs) d) else None)"

definition copy_out :: "u8 list option \<Rightarrow> int \<Rightarrow> nat \<Rightarrow> u8 list option" where
  "copy_out data off n =
     (case data of
        None \<Rightarrow> None
      | Some d \<Rightarrow> if 0 \<le> off \<and> nat off + n \<le> length d then Some (take n (drop (nat off) d)) else None)"

text \<open>\<open>alloc n\<close> is the block of \<open>n\<close> bytes that \<^verbatim>\<open>embb_alloc\<close> returns, or \<open>None\<close> for \<^verbatim>\<open>NULL\<close>.\<close>

definition embb_mtapi_network_buffer_initialize ::
    "(u64 \<Rightarrow> u8 list option) \<Rightarrow> int \<Rightarrow> embb_mtapi_network_buffer" where
  "embb_mtapi_network_buffer_initialize alloc capacity =
     (let data = alloc (word_of_int capacity) in
      \<lparr>nb_position = 0, nb_size = 0, nb_capacity = (if data \<noteq> None then capacity else 0), nb_data = data\<rparr>)"

definition embb_mtapi_network_buffer_finalize :: "embb_mtapi_network_buffer \<Rightarrow> embb_mtapi_network_buffer" where
  "embb_mtapi_network_buffer_finalize that =
     that\<lparr>nb_position := 0, nb_size := 0, nb_capacity := 0, nb_data := None\<rparr>"

definition embb_mtapi_network_buffer_clear :: "embb_mtapi_network_buffer \<Rightarrow> embb_mtapi_network_buffer" where
  "embb_mtapi_network_buffer_clear that = that\<lparr>nb_position := 0, nb_size := 0\<rparr>"

definition embb_mtapi_network_buffer_push_back_int8 ::
    "embb_mtapi_network_buffer \<Rightarrow> u8 \<Rightarrow> (int \<times> embb_mtapi_network_buffer) option" where
  "embb_mtapi_network_buffer_push_back_int8 that v =
     do { sum \<leftarrow> int_add (nb_size that) 1;
          if sum > nb_capacity that then Some (0, that)
          else do { d \<leftarrow> copy_in (nb_data that) (nb_size that) (bytes_le 1 v);
                    Some (1, that\<lparr>nb_data := Some d, nb_size := sum\<rparr>) } }"

definition embb_mtapi_network_buffer_push_back_int16 ::
    "embb_mtapi_network_buffer \<Rightarrow> u16 \<Rightarrow> (int \<times> embb_mtapi_network_buffer) option" where
  "embb_mtapi_network_buffer_push_back_int16 that v =
     do { sum \<leftarrow> int_add (nb_size that) 2;
          if sum > nb_capacity that then Some (0, that)
          else do { d \<leftarrow> copy_in (nb_data that) (nb_size that) (bytes_le 2 v);
                    Some (2, that\<lparr>nb_data := Some d, nb_size := sum\<rparr>) } }"

definition embb_mtapi_network_buffer_push_back_int32 ::
    "embb_mtapi_network_buffer \<Rightarrow> u32 \<Rightarrow> (int \<times> embb_mtapi_network_buffer) option" where
  "embb_mtapi_network_buffer_push_back_int32 that v =
     do { sum \<leftarrow> int_add (nb_size that) 4;
          if sum > nb_capacity that then Some (0, that)
          else do { d \<leftarrow> copy_in (nb_data that) (nb_size that) (bytes_le 4 v);
                    Some (4, that\<lparr>nb_data := Some d, nb_size := sum\<rparr>) } }"

text \<open>\<open>rawdata\<close> are the bytes that are readable behind the pointer.\<close>

definition embb_mtapi_network_buffer_push_back_rawdata ::
    "embb_mtapi_network_buffer \<Rightarrow> int \<Rightarrow> u8 list \<Rightarrow> (int \<times> embb_mtapi_network_buffer) option" where
  "embb_mtapi_network_buffer_push_back_rawdata that sz rawdata =
     do { sum \<leftarrow> int_add (nb_size that) sz;
          if sum > nb_capacity that then Some (0, that)
          else if sz < 0 \<or> length rawdata < nat sz then None
          else do { d \<leftarrow> copy_in (nb_data that) (nb_size that) (take (nat sz) rawdata);
                    Some (sz, that\<lparr>nb_data := Some d, nb_size := sum\<rparr>) } }"

text \<open>The value that is read is \<open>None\<close> when the variable behind the pointer is not written.\<close>

definition embb_mtapi_network_buffer_pop_front_int8 ::
    "embb_mtapi_network_buffer \<Rightarrow> (int \<times> u8 option \<times> embb_mtapi_network_buffer) option" where
  "embb_mtapi_network_buffer_pop_front_int8 that =
     do { sum \<leftarrow> int_add (nb_position that) 1;
          if sum > nb_size that then Some (0, None, that)
          else do { bs \<leftarrow> copy_out (nb_data that) (nb_position that) 1;
                    Some (1, Some (word_le bs), that\<lparr>nb_position := sum\<rparr>) } }"

definition embb_mtapi_network_buffer_pop_front_int16 ::
    "embb_mtapi_network_buffer \<Rightarrow> (int \<times> u16 option \<times> embb_mtapi_network_buffer) option" where
  "embb_mtapi_network_buffer_pop_front_int16 that =
     do { sum \<leftarrow> int_add (nb_position that) 2;
          if sum > nb_size that then Some (0, None, that)
          else do { bs \<leftarrow> copy_out (nb_data that) (nb_position that) 2;
                    Some (2, Some (word_le bs), that\<lparr>nb_position := sum\<rparr>) } }"

definition embb_mtapi_network_buffer_pop_front_int32 ::
    "embb_mtapi_network_buffer \<Rightarrow> (int \<times> u32 option \<times> embb_mtapi_network_buffer) option" where
  "embb_mtapi_network_buffer_pop_front_int32 that =
     do { sum \<leftarrow> int_add (nb_position that) 4;
          if sum > nb_size that then Some (0, None, that)
          else do { bs \<leftarrow> copy_out (nb_data that) (nb_position that) 4;
                    Some (4, Some (word_le bs), that\<lparr>nb_position := sum\<rparr>) } }"

definition embb_mtapi_network_buffer_pop_front_rawdata ::
    "embb_mtapi_network_buffer \<Rightarrow> int \<Rightarrow> (int \<times> u8 list option \<times> embb_mtapi_network_buffer) option" where
  "embb_mtapi_network_buffer_pop_front_rawdata that sz =
     do { sum \<leftarrow> int_add (nb_position that) sz;
          if sum > nb_size that then Some (0, None, that)
          else if sz < 0 then None
          else do { bs \<leftarrow> copy_out (nb_data that) (nb_position that) (nat sz);
                    Some (sz, Some bs, that\<lparr>nb_position := sum\<rparr>) } }"

section \<open>The buffer as a queue of bytes\<close>

text \<open>
  Positions inside the block, and the bytes between the position and the size. A buffer whose block could not be allocated
  has no capacity.
\<close>

definition buffer_ok :: "embb_mtapi_network_buffer \<Rightarrow> bool" where
  "buffer_ok b \<longleftrightarrow> 0 \<le> nb_position b \<and> nb_position b \<le> nb_size b \<and> nb_size b \<le> nb_capacity b \<and> nb_capacity b < 2 ^ 31 \<and>
     (\<exists>d. nb_data b = Some d \<and> int (length d) = nb_capacity b)"

definition buffer_contents :: "embb_mtapi_network_buffer \<Rightarrow> u8 list" where
  "buffer_contents b = drop (nat (nb_position b)) (take (nat (nb_size b)) (the (nb_data b)))"

definition buffer_room :: "embb_mtapi_network_buffer \<Rightarrow> nat" where
  "buffer_room b = nat (nb_capacity b - nb_size b)"

text \<open>
  What a client of a byte buffer relies on. \<open>push\<close> returns the number of bytes it has taken, \<open>pop\<close> the bytes it has
  found; both give 0, and leave the buffer alone, when they can not do all of it.
\<close>

locale byte_fifo =
  fixes ok :: "'b \<Rightarrow> bool" and contents :: "'b \<Rightarrow> u8 list" and room :: "'b \<Rightarrow> nat"
    and push :: "'b \<Rightarrow> u8 list \<Rightarrow> (int \<times> 'b) option"
    and pop :: "'b \<Rightarrow> nat \<Rightarrow> (int \<times> u8 list option \<times> 'b) option"
  assumes push_fits: "ok b \<Longrightarrow> length bs \<le> room b \<Longrightarrow>
      \<exists>b'. push b bs = Some (int (length bs), b') \<and> ok b' \<and> contents b' = contents b @ bs \<and> room b' = room b - length bs"
    and pop_has: "ok b \<Longrightarrow> n \<le> length (contents b) \<Longrightarrow>
      \<exists>b'. pop b n = Some (int n, Some (take n (contents b)), b') \<and> ok b' \<and> contents b' = drop n (contents b) \<and> room b' = room b"
begin

text \<open>A message is a list of fields.\<close>

fun push_fields :: "u8 list list \<Rightarrow> 'b \<Rightarrow> 'b option" where
  "push_fields [] b = Some b"
| "push_fields (f # fs) b = do { (_, b) \<leftarrow> push b f; push_fields fs b }"

fun pop_fields :: "nat list \<Rightarrow> 'b \<Rightarrow> (u8 list option list \<times> 'b) option" where
  "pop_fields [] b = Some ([], b)"
| "pop_fields (n # ns) b = do { (_, f, b) \<leftarrow> pop b n; (fs, b) \<leftarrow> pop_fields ns b; Some (f # fs, b) }"

lemma push_fields_contents:
  "ok b \<Longrightarrow> length (concat fs) \<le> room b \<Longrightarrow>
   \<exists>b'. push_fields fs b = Some b' \<and> ok b' \<and> contents b' = contents b @ concat fs \<and> room b' = room b - length (concat fs)"
proof (induction fs arbitrary: b)
  case (Cons f fs)
  obtain b1 where b1: "push b f = Some (int (length f), b1)" "ok b1" "contents b1 = contents b @ f" "room b1 = room b - length f"
    using push_fits[OF Cons.prems(1), of f] Cons.prems(2) by auto
  show ?case
    using Cons.IH[OF b1(2)] Cons.prems(2) b1 by (auto simp: algebra_simps)
qed simp

lemma pop_fields_contents:
  "ok b \<Longrightarrow> contents b = concat fs @ rest \<Longrightarrow>
   \<exists>b'. pop_fields (map length fs) b = Some (map Some fs, b') \<and> ok b' \<and> contents b' = rest \<and> room b' = room b"
proof (induction fs arbitrary: b)
  case (Cons f fs)
  obtain b1 where b1: "pop b (length f) = Some (int (length f), Some f, b1)" "ok b1" "contents b1 = concat fs @ rest" "room b1 = room b"
    using pop_has[OF Cons.prems(1), of "length f"] Cons.prems(2) by auto
  show ?case
    using Cons.IH[OF b1(2,3)] b1 by auto
qed simp

lemma message_round_trip:
  assumes "ok b" "contents b = []" "length (concat fs) \<le> room b"
  shows "\<exists>b1 b2. push_fields fs b = Some b1 \<and> pop_fields (map length fs) b1 = Some (map Some fs, b2) \<and> ok b2 \<and> contents b2 = []"
  using push_fields_contents[OF assms(1,3)] pop_fields_contents[of _ fs "[]"] assms(2) by fastforce

end

abbreviation raw_push :: "embb_mtapi_network_buffer \<Rightarrow> u8 list \<Rightarrow> (int \<times> embb_mtapi_network_buffer) option" where
  "raw_push b bs \<equiv> embb_mtapi_network_buffer_push_back_rawdata b (int (length bs)) bs"

abbreviation raw_pop :: "embb_mtapi_network_buffer \<Rightarrow> nat \<Rightarrow> (int \<times> u8 list option \<times> embb_mtapi_network_buffer) option" where
  "raw_pop b n \<equiv> embb_mtapi_network_buffer_pop_front_rawdata b (int n)"

lemma buffer_okE:
  assumes "buffer_ok b"
  obtains d p s where "nb_data b = Some d" "nb_position b = int p" "nb_size b = int s" "nb_capacity b = int (length d)"
    "p \<le> s" "s \<le> length d" "length d < 2 ^ 31"
proof -
  obtain d where "nb_data b = Some d" "int (length d) = nb_capacity b"
    using assms by (auto simp: buffer_ok_def)
  then show ?thesis
    using assms by (intro that[of d "nat (nb_position b)" "nat (nb_size b)"]) (auto simp: buffer_ok_def)
qed

lemma raw_push_fits:
  assumes "buffer_ok b" "length bs \<le> buffer_room b"
  shows "\<exists>b'. raw_push b bs = Some (int (length bs), b') \<and> buffer_ok b' \<and>
           buffer_contents b' = buffer_contents b @ bs \<and> buffer_room b' = buffer_room b - length bs"
proof -
  from assms(1) obtain d p s where b: "nb_data b = Some d" "nb_position b = int p" "nb_size b = int s" "nb_capacity b = int (length d)"
      "p \<le> s" "s \<le> length d" "length d < 2 ^ 31"
    by (rule buffer_okE)
  have fits: "s + length bs \<le> length d"
    using assms(2) b by (auto simp: buffer_room_def)
  have "raw_push b bs = Some (int (length bs), b\<lparr>nb_data := Some (take s d @ bs @ drop (s + length bs) d), nb_size := int (s + length bs)\<rparr>)"
    using b fits by (simp add: embb_mtapi_network_buffer_push_back_rawdata_def int_add_def copy_in_def)
  then show ?thesis
    using b fits by (auto simp: buffer_ok_def buffer_contents_def buffer_room_def nat_add_distrib)
qed

lemma raw_pop_has:
  assumes "buffer_ok b" "n \<le> length (buffer_contents b)"
  shows "\<exists>b'. raw_pop b n = Some (int n, Some (take n (buffer_contents b)), b') \<and> buffer_ok b' \<and>
           buffer_contents b' = drop n (buffer_contents b) \<and> buffer_room b' = buffer_room b"
proof -
  from assms(1) obtain d p s where b: "nb_data b = Some d" "nb_position b = int p" "nb_size b = int s" "nb_capacity b = int (length d)"
      "p \<le> s" "s \<le> length d" "length d < 2 ^ 31"
    by (rule buffer_okE)
  have has: "p + n \<le> s"
    using assms(2) b by (simp add: buffer_contents_def)
  have "raw_pop b n = Some (int n, Some (take n (drop p d)), b\<lparr>nb_position := int (p + n)\<rparr>)"
    using b has by (simp add: embb_mtapi_network_buffer_pop_front_rawdata_def int_add_def copy_out_def)
  moreover have "take n (drop p d) = take n (buffer_contents b)"
    using b has by (simp add: buffer_contents_def drop_take)
  ultimately show ?thesis
    using b has by (auto simp: buffer_ok_def buffer_contents_def buffer_room_def nat_add_distrib add.commute)
qed

interpretation nb: byte_fifo buffer_ok buffer_contents buffer_room raw_push raw_pop
  by unfold_locales (fact raw_push_fits, fact raw_pop_has)

text \<open>The operations on integers are the one on raw bytes, at the bytes of the integer.\<close>

lemma push_back_int_raw:
  shows "embb_mtapi_network_buffer_push_back_int8 b v8 = raw_push b (bytes_le 1 v8)"
    and "embb_mtapi_network_buffer_push_back_int16 b v16 = raw_push b (bytes_le 2 v16)"
    and "embb_mtapi_network_buffer_push_back_int32 b v32 = raw_push b (bytes_le 4 v32)"
  by (simp_all add: embb_mtapi_network_buffer_push_back_int8_def embb_mtapi_network_buffer_push_back_int16_def
      embb_mtapi_network_buffer_push_back_int32_def embb_mtapi_network_buffer_push_back_rawdata_def cong: if_cong)

lemma pop_front_int_raw:
  shows "embb_mtapi_network_buffer_pop_front_int8 b = map_option (\<lambda>(n, v, b). (n, map_option word_le v, b)) (raw_pop b 1)"
    and "embb_mtapi_network_buffer_pop_front_int16 b = map_option (\<lambda>(n, v, b). (n, map_option word_le v, b)) (raw_pop b 2)"
    and "embb_mtapi_network_buffer_pop_front_int32 b = map_option (\<lambda>(n, v, b). (n, map_option word_le v, b)) (raw_pop b 4)"
  by (auto simp: embb_mtapi_network_buffer_pop_front_int8_def embb_mtapi_network_buffer_pop_front_int16_def
      embb_mtapi_network_buffer_pop_front_int32_def embb_mtapi_network_buffer_pop_front_rawdata_def split: option.splits bind_splits cong: if_cong)

text \<open>Reading one value from the front, and starting over.\<close>

lemma pop_front_capacity:
  "embb_mtapi_network_buffer_pop_front_rawdata b n = Some (k, v, b') \<Longrightarrow> nb_capacity b' = nb_capacity b"
  by (auto simp: embb_mtapi_network_buffer_pop_front_rawdata_def split: bind_splits if_splits)

lemma pop_front_raw_front:
  assumes "buffer_ok b" "buffer_contents b = bs @ rest"
  obtains b' where "raw_pop b (length bs) = Some (int (length bs), Some bs, b')" "buffer_ok b'" "buffer_contents b' = rest"
    "nb_capacity b' = nb_capacity b"
  using raw_pop_has[OF assms(1), of "length bs"] assms(2) pop_front_capacity by fastforce

lemma pop_front_int8_front:
  assumes "buffer_ok b" "buffer_contents b = bytes_le 1 v @ rest"
  obtains b' where "embb_mtapi_network_buffer_pop_front_int8 b = Some (1, Some v, b')" "buffer_ok b'" "buffer_contents b' = rest"
    "nb_capacity b' = nb_capacity b"
proof -
  from assms obtain b' where "raw_pop b (length (bytes_le 1 v)) = Some (int (length (bytes_le 1 v)), Some (bytes_le 1 v), b')" "buffer_ok b'"
      "buffer_contents b' = rest" "nb_capacity b' = nb_capacity b"
    by (rule pop_front_raw_front)
  then show thesis
    by (intro that[of b']) (simp_all add: pop_front_int_raw word_le_bytes_le)
qed

lemma pop_front_int32_front:
  assumes "buffer_ok b" "buffer_contents b = bytes_le 4 v @ rest"
  obtains b' where "embb_mtapi_network_buffer_pop_front_int32 b = Some (4, Some v, b')" "buffer_ok b'" "buffer_contents b' = rest"
    "nb_capacity b' = nb_capacity b"
proof -
  from assms obtain b' where "raw_pop b (length (bytes_le 4 v)) = Some (int (length (bytes_le 4 v)), Some (bytes_le 4 v), b')" "buffer_ok b'"
      "buffer_contents b' = rest" "nb_capacity b' = nb_capacity b"
    by (rule pop_front_raw_front)
  then show thesis
    by (intro that[of b']) (simp_all add: pop_front_int_raw word_le_bytes_le)
qed

lemma buffer_clear:
  assumes "buffer_ok b"
  shows "buffer_ok (embb_mtapi_network_buffer_clear b)" "buffer_contents (embb_mtapi_network_buffer_clear b) = []"
    "buffer_room (embb_mtapi_network_buffer_clear b) = nat (nb_capacity b)" "nb_capacity (embb_mtapi_network_buffer_clear b) = nb_capacity b"
    "nb_position (embb_mtapi_network_buffer_clear b) = 0" "nb_size (embb_mtapi_network_buffer_clear b) = 0"
  using assms by (auto simp: embb_mtapi_network_buffer_clear_def buffer_ok_def buffer_contents_def buffer_room_def)

lemma c_int_unat: "unat (n :: u32) < 2 ^ 31 \<Longrightarrow> c_int n = int (unat n)"
proof -
  assume "unat n < 2 ^ 31"
  moreover have n: "int (unat n) = uint n"
    by simp
  ultimately have "uint n < 2 ^ 31"
    by (metis of_nat_less_iff of_nat_numeral of_nat_power)
  then have "signed_take_bit 31 (uint n) = uint n"
    by (intro signed_take_bit_int_eq_self) (use uint_ge_0[of n] in linarith)+
  then show ?thesis
    unfolding n c_int_def by (simp add: sint_uint)
qed

end
