(* ===== verification/Network_Socket.thy ===== *)
theory Network_Socket
  imports Network_Buffer "HOL-Library.Signed_Division"
begin

text \<open>
  The sockets of the network plugin (\<^verbatim>\<open>mtapi_network_c/src/embb_mtapi_network_socket.c\<close>, POSIX variant). The calls of the operating system are a
  parameter, the record \<open>socket_os\<close>, over a state \<open>'w\<close> of the outside. The two loops that send and receive a whole buffer in several calls
  are total functions: each turn moves the count closer to the size.
\<close>

record sockaddr_in =
  sin_addr :: u32
  sin_port :: u16

record embb_mtapi_network_socket =
  sk_handle :: int

text \<open>
  Results are those of the POSIX functions. \<open>os_connect\<close> also says whether \<^verbatim>\<open>errno\<close> is \<^verbatim>\<open>EAGAIN\<close>. \<open>os_select\<close> gets the highest handle plus one, the handles to read from and the
  time limit in seconds and microseconds, and returns the handles that are ready. \<open>os_recv\<close> returns the bytes, none of them at the end of the stream, or \<open>None\<close>
  for the result -1.
\<close>

record 'w socket_os =
  os_socket :: "'w \<Rightarrow> int \<times> 'w"
  os_close :: "int \<Rightarrow> 'w \<Rightarrow> 'w"
  os_reuseaddr :: "int \<Rightarrow> 'w \<Rightarrow> int \<times> 'w"
  os_inet_addr :: "string \<Rightarrow> u32"
  os_bind :: "int \<Rightarrow> sockaddr_in \<Rightarrow> 'w \<Rightarrow> int \<times> 'w"
  os_listen :: "int \<Rightarrow> u16 \<Rightarrow> 'w \<Rightarrow> int \<times> 'w"
  os_accept :: "int \<Rightarrow> 'w \<Rightarrow> int \<times> 'w"
  os_connect :: "int \<Rightarrow> sockaddr_in \<Rightarrow> 'w \<Rightarrow> int \<times> bool \<times> 'w"
  os_select :: "int \<Rightarrow> int list \<Rightarrow> (int \<times> int) option \<Rightarrow> 'w \<Rightarrow> int \<times> int list \<times> 'w"
  os_send :: "int \<Rightarrow> u8 list \<Rightarrow> 'w \<Rightarrow> int \<times> 'w"
  os_recv :: "int \<Rightarrow> nat \<Rightarrow> 'w \<Rightarrow> u8 list option \<times> 'w"

definition INVALID_SOCKET :: int where
  "INVALID_SOCKET = - 1"

definition SOCKET_ERROR :: int where
  "SOCKET_ERROR = - 1"

abbreviation FD_SETSIZE :: int where "FD_SETSIZE \<equiv> 1024"

definition htons :: "u16 \<Rightarrow> u16" where
  "htons p = word_le (rev (bytes_le 2 p))"

section \<open>Opening and closing\<close>

definition embb_mtapi_network_socket_initialize :: "'w socket_os \<Rightarrow> 'w \<Rightarrow> int \<times> embb_mtapi_network_socket \<times> 'w" where
  "embb_mtapi_network_socket_initialize os w =
     (let (h, w) = os_socket os w in (if h = INVALID_SOCKET then 0 else 1, \<lparr>sk_handle = h\<rparr>, w))"

definition embb_mtapi_network_socket_finalize ::
    "'w socket_os \<Rightarrow> embb_mtapi_network_socket \<Rightarrow> 'w \<Rightarrow> embb_mtapi_network_socket \<times> 'w" where
  "embb_mtapi_network_socket_finalize os that w =
     (if sk_handle that \<noteq> INVALID_SOCKET then (that\<lparr>sk_handle := INVALID_SOCKET\<rparr>, os_close os (sk_handle that) w) else (that, w))"

definition embb_mtapi_network_socket_bind_and_listen ::
    "'w socket_os \<Rightarrow> embb_mtapi_network_socket \<Rightarrow> string option \<Rightarrow> u16 \<Rightarrow> u16 \<Rightarrow> 'w \<Rightarrow> int \<times> 'w" where
  "embb_mtapi_network_socket_bind_and_listen os that host port max_connections w =
     (let (r, w) = os_reuseaddr os (sk_handle that) w in
      if r = SOCKET_ERROR then (0, w)
      else
        (let in_addr = \<lparr>sin_addr = (case host of None \<Rightarrow> 0 | Some h \<Rightarrow> os_inet_addr os h), sin_port = htons port\<rparr>;
             (r, w) = os_bind os (sk_handle that) in_addr w in
         if r = SOCKET_ERROR then (0, w)
         else
           (let (r, w) = os_listen os (sk_handle that) max_connections w in
            if r = SOCKET_ERROR then (0, w) else (1, w))))"

definition embb_mtapi_network_socket_accept ::
    "'w socket_os \<Rightarrow> embb_mtapi_network_socket \<Rightarrow> 'w \<Rightarrow> int \<times> embb_mtapi_network_socket \<times> 'w" where
  "embb_mtapi_network_socket_accept os that w =
     (let (h, w) = os_accept os (sk_handle that) w in (if h = INVALID_SOCKET then 0 else 1, \<lparr>sk_handle = h\<rparr>, w))"

definition embb_mtapi_network_socket_connect ::
    "'w socket_os \<Rightarrow> embb_mtapi_network_socket \<Rightarrow> string \<Rightarrow> u16 \<Rightarrow> 'w \<Rightarrow> int \<times> 'w" where
  "embb_mtapi_network_socket_connect os that host port w =
     (let (r, again, w) = os_connect os (sk_handle that) \<lparr>sin_addr = os_inet_addr os host, sin_port = htons port\<rparr> w in
      if r = SOCKET_ERROR then (if \<not> again then (0, w) else (1, w)) else (1, w))"

section \<open>Waiting for data\<close>

text \<open>The set of handles is a bit field of \<open>FD_SETSIZE\<close> bits: adding any other handle writes outside of it.\<close>

fun fd_set_handles :: "embb_mtapi_network_socket list \<Rightarrow> int list \<times> int \<Rightarrow> (int list \<times> int) option" where
  "fd_set_handles [] acc = Some acc"
| "fd_set_handles (x # xs) (read_set, max_fd) =
     (if 0 \<le> sk_handle x \<and> sk_handle x < FD_SETSIZE
      then fd_set_handles xs (read_set @ [sk_handle x], if sk_handle x > max_fd then sk_handle x else max_fd)
      else None)"

fun first_ready :: "int \<Rightarrow> embb_mtapi_network_socket list \<Rightarrow> int list \<Rightarrow> int" where
  "first_ready ii [] ready = - 1"
| "first_ready ii (x # xs) ready = (if sk_handle x \<in> set ready then ii else first_ready (ii + 1) xs ready)"

definition embb_mtapi_network_socket_select ::
    "'w socket_os \<Rightarrow> embb_mtapi_network_socket list \<Rightarrow> int \<Rightarrow> int \<Rightarrow> 'w \<Rightarrow> (int \<times> 'w) option" where
  "embb_mtapi_network_socket_select os sockets count timeout w =
     (if length sockets < nat count then None
      else
        do { let tv = (timeout sdiv 1000, timeout smod 1000);
             (read_set, max_fd) \<leftarrow> fd_set_handles (take (nat count) sockets) ([], 0);
             let (err, ready, w) = os_select os (max_fd + 1) read_set (if timeout \<ge> 0 then Some tv else None) w;
             Some (if err = 0 then - 1 else if err = SOCKET_ERROR then - 1
                   else first_ready 0 (take (nat count) sockets) ready, w) })"

section \<open>Whole buffers\<close>

text \<open>
  \<open>cnt\<close> bytes have been sent, and \<open>result\<close> is what the last call returned. More bytes than were offered would make the next size
  negative.
\<close>

function send_loop :: "'w socket_os \<Rightarrow> int \<Rightarrow> u8 list \<Rightarrow> int \<Rightarrow> int \<Rightarrow> 'w \<Rightarrow> (int \<times> 'w) option" where
  "send_loop os h bs cnt result w =
     (if result > 0 then
        (if cnt + result = int (length bs) then Some (cnt + result, w)
         else if cnt + result > int (length bs) then None
         else
           (case os_send os h (drop (nat (cnt + result)) bs) w of
              (result', w) \<Rightarrow> send_loop os h bs (cnt + result) result' w))
      else Some (cnt, w))"
  by pat_completeness auto
termination
  by (relation "measure (\<lambda>(os, h, bs, cnt, result, w). nat (int (length bs) - cnt))") auto

declare send_loop.simps [simp del]

definition embb_mtapi_network_socket_sendbuffer ::
    "'w socket_os \<Rightarrow> embb_mtapi_network_socket \<Rightarrow> embb_mtapi_network_buffer \<Rightarrow> 'w \<Rightarrow> (int \<times> 'w) option" where
  "embb_mtapi_network_socket_sendbuffer os that buffer w =
     do { bs \<leftarrow> copy_out (nb_data buffer) 0 (nat (nb_size buffer));
          let (result, w) = os_send os (sk_handle that) bs w;
          (cnt, w) \<leftarrow> send_loop os (sk_handle that) bs 0 result w;
          Some (if cnt = nb_size buffer then nb_size buffer else 0, w) }"

text \<open>
  \<open>cnt\<close> bytes have been received before the last call, which has brought \<open>got\<close>; the result is the last return value of \<^verbatim>\<open>recv\<close>, the count, the block
  of the buffer and the outside.
\<close>

function recv_loop ::
    "'w socket_os \<Rightarrow> int \<Rightarrow> int \<Rightarrow> u8 list \<Rightarrow> int \<Rightarrow> u8 list option \<Rightarrow> 'w \<Rightarrow> (int \<times> int \<times> u8 list \<times> 'w) option" where
  "recv_loop os h sz d cnt got w =
     (case got of
        None \<Rightarrow> Some (- 1, cnt, d, w)
      | Some bs \<Rightarrow>
          do { d \<leftarrow> copy_in (Some d) cnt bs;
               if bs \<noteq> [] then
                 (if cnt + int (length bs) = sz then Some (int (length bs), cnt + int (length bs), d, w)
                  else if cnt + int (length bs) > sz then None
                  else
                    (case os_recv os h (nat (sz - (cnt + int (length bs)))) w of
                       (got', w) \<Rightarrow> recv_loop os h sz d (cnt + int (length bs)) got' w))
               else Some (0, cnt, d, w) })"
  by pat_completeness auto
termination
  by (relation "measure (\<lambda>(os, h, sz, d, cnt, got, w). nat (sz - cnt))") auto

declare recv_loop.simps [simp del]

definition embb_mtapi_network_socket_recvbuffer_sized ::
    "'w socket_os \<Rightarrow> embb_mtapi_network_socket \<Rightarrow> embb_mtapi_network_buffer \<Rightarrow> int \<Rightarrow> 'w \<Rightarrow>
     (int \<times> embb_mtapi_network_buffer \<times> 'w) option" where
  "embb_mtapi_network_socket_recvbuffer_sized os that buffer sz w =
     (if nb_capacity buffer < sz then Some (0, buffer, w)
      else
        do { (err, buffer, w) \<leftarrow>
               (if 0 < sz then
                  do { d \<leftarrow> nb_data buffer;
                       let (got, w) = os_recv os (sk_handle that) (nat sz) w;
                       (err, cnt, d, w) \<leftarrow> recv_loop os (sk_handle that) sz d 0 got w;
                       Some (if err > 0 then cnt else err, buffer\<lparr>nb_data := Some d\<rparr>, w) }
                else Some (0, buffer, w));
             if err \<noteq> sz then Some (0, buffer, w)
             else Some (sz, buffer\<lparr>nb_size := sz\<rparr>, w) })"

definition embb_mtapi_network_socket_recvbuffer ::
    "'w socket_os \<Rightarrow> embb_mtapi_network_socket \<Rightarrow> embb_mtapi_network_buffer \<Rightarrow> 'w \<Rightarrow>
     (int \<times> embb_mtapi_network_buffer \<times> 'w) option" where
  "embb_mtapi_network_socket_recvbuffer os that buffer w =
     embb_mtapi_network_socket_recvbuffer_sized os that buffer (nb_capacity buffer) w"

section \<open>Byte streams\<close>

text \<open>
  What POSIX says of stream sockets. \<open>sent h w\<close> are the bytes that were sent through the handle \<open>h\<close>, \<open>pending h w\<close> those that will arrive at it. A call
  of \<^verbatim>\<open>send\<close> takes a part of the bytes from their front or none of them, a call of \<^verbatim>\<open>recv\<close> returns at most as many as were asked for. The stronger
  conditions describe a connection that is up: some bytes are taken, and some arrive while there are any.
\<close>

definition sends_stream :: "'w socket_os \<Rightarrow> (int \<Rightarrow> 'w \<Rightarrow> u8 list) \<Rightarrow> bool" where
  "sends_stream os sent \<longleftrightarrow> (\<forall>h bs w r w'. os_send os h bs w = (r, w') \<longrightarrow>
     r \<le> int (length bs) \<and> sent h w' = sent h w @ take (nat r) bs)"

definition sends_up :: "'w socket_os \<Rightarrow> bool" where
  "sends_up os \<longleftrightarrow> (\<forall>h bs w r w'. os_send os h bs w = (r, w') \<and> bs \<noteq> [] \<longrightarrow> 0 < r)"

definition recvs_stream :: "'w socket_os \<Rightarrow> (int \<Rightarrow> 'w \<Rightarrow> u8 list) \<Rightarrow> bool" where
  "recvs_stream os pending \<longleftrightarrow> (\<forall>h n w got w'. os_recv os h n w = (got, w') \<longrightarrow>
     (case got of None \<Rightarrow> pending h w' = pending h w | Some bs \<Rightarrow> length bs \<le> n \<and> pending h w = bs @ pending h w'))"

definition recvs_up :: "'w socket_os \<Rightarrow> (int \<Rightarrow> 'w \<Rightarrow> u8 list) \<Rightarrow> bool" where
  "recvs_up os pending \<longleftrightarrow> (\<forall>h n w got w'. os_recv os h n w = (got, w') \<and> 0 < n \<and> pending h w \<noteq> [] \<longrightarrow> got \<noteq> None \<and> got \<noteq> Some [])"

lemma sends_streamD:
  "sends_stream os sent \<Longrightarrow> os_send os h bs w = (r, w') \<Longrightarrow> r \<le> int (length bs) \<and> sent h w' = sent h w @ take (nat r) bs"
  unfolding sends_stream_def by blast

lemma sends_upD: "sends_up os \<Longrightarrow> os_send os h bs w = (r, w') \<Longrightarrow> bs \<noteq> [] \<Longrightarrow> 0 < r"
  unfolding sends_up_def by blast

lemma recvs_streamD:
  "recvs_stream os pending \<Longrightarrow> os_recv os h n w = (got, w') \<Longrightarrow>
   (case got of None \<Rightarrow> pending h w' = pending h w | Some bs \<Rightarrow> length bs \<le> n \<and> pending h w = bs @ pending h w')"
  unfolding recvs_stream_def by blast

lemma recvs_upD:
  "recvs_up os pending \<Longrightarrow> os_recv os h n w = (got, w') \<Longrightarrow> 0 < n \<Longrightarrow> pending h w \<noteq> [] \<Longrightarrow> got \<noteq> None \<and> got \<noteq> Some []"
  unfolding recvs_up_def by blast

lemma send_loop_sent:
  assumes "sends_stream os sent" "cnt + max 0 r \<le> int (length bs)" "0 \<le> cnt" "sent h w = base @ take (nat (cnt + max 0 r)) bs"
  shows "\<exists>k w'. send_loop os h bs cnt r w = Some (int k, w') \<and> k \<le> length bs \<and> sent h w' = base @ take k bs \<and>
           (sends_up os \<and> 0 < r \<longrightarrow> k = length bs)"
  using assms
proof (induction os h bs cnt r w rule: send_loop.induct)
  case (1 os h bs cnt r w)
  show ?case
  proof (cases "r > 0 \<and> cnt + r \<noteq> int (length bs)")
    case False
    then show ?thesis
      using 1(3-5) by (intro exI[of _ "nat (cnt + max 0 r)"] exI[of _ w]) (auto simp: send_loop.simps[of os h bs cnt])
  next
    case True
    then have less: "cnt + r < int (length bs)" "\<not> cnt + r > int (length bs)"
      using 1(3) by auto
    obtain r' w1 where send: "os_send os h (drop (nat (cnt + r)) bs) w = (r', w1)"
      by force
    have left: "int (length (drop (nat (cnt + r)) bs)) = int (length bs) - (cnt + r)" "drop (nat (cnt + r)) bs \<noteq> []"
      using 1(4) less True by auto
    have law: "r' \<le> int (length bs) - (cnt + r)" "sent h w1 = sent h w @ take (nat r') (drop (nat (cnt + r)) bs)"
      "sends_up os \<longrightarrow> 0 < r'"
      using sends_streamD[OF 1(2) send] sends_upD[OF _ send left(2)] unfolding left(1) by blast+
    have "nat (cnt + r + max 0 r') = nat (cnt + r) + nat r'"
      using 1(4) True by (simp add: nat_add_distrib max_def)
    then have "sent h w1 = base @ take (nat (cnt + r + max 0 r')) bs"
      using law(2) 1(5) True by (simp add: take_add)
    moreover have "cnt + r + max 0 r' \<le> int (length bs)"
      using law(1) less by linarith
    ultimately obtain k w' where "send_loop os h bs (cnt + r) r' w1 = Some (int k, w')" "k \<le> length bs" "sent h w' = base @ take k bs"
        "sends_up os \<and> 0 < r' \<longrightarrow> k = length bs"
      using 1(1)[OF _ _ _ send[symmetric] 1(2)] True less(2) 1(4) by (smt (verit))
    then show ?thesis
      using True less law(3) send by (subst send_loop.simps) auto
  qed
qed

lemma recv_loop_received:
  assumes "recvs_stream os pending" "c < n" "n \<le> length d"
    "case got of None \<Rightarrow> pending h w = P | Some bs \<Rightarrow> length bs \<le> n - c \<and> P = bs @ pending h w"
  shows "\<exists>err k d' w'. recv_loop os h (int n) d (int c) got w = Some (err, int k, d', w') \<and> c \<le> k \<and> k \<le> n \<and> length d' = length d \<and>
           take k d' = take c d @ take (k - c) P \<and> pending h w' = drop (k - c) P \<and> (0 < err \<longleftrightarrow> k = n) \<and>
           (recvs_up os pending \<and> n - c \<le> length P \<and> got \<noteq> None \<and> got \<noteq> Some [] \<longrightarrow> k = n)"
  using assms
proof (induction "n - c" arbitrary: c d got w P rule: less_induct)
  case less
  show ?case
  proof (cases "got = None \<or> got = Some []")
    case True
    then show ?thesis
      using less.prems by (intro exI[of _ "if got = None then - 1 else 0"] exI[of _ c]) (auto simp: recv_loop.simps[of os h "int n" d] copy_in_def)
  next
    case False
    then obtain bs where got: "got = Some bs" "bs \<noteq> []"
      by auto
    then have bs: "length bs \<le> n - c" "P = bs @ pending h w" "0 < length bs"
      using less.prems(4) by simp_all
    let ?c = "c + length bs" and ?d = "take c d @ bs @ drop (c + length bs) d"
    have copy: "copy_in (Some d) (int c) bs = Some ?d" "length ?d = length d" "take ?c ?d = take c d @ bs"
      using bs less.prems(2,3) by (simp_all add: copy_in_def)
    show ?thesis
    proof (cases "?c = n")
      case True
      then have "recv_loop os h (int n) d (int c) got w = Some (int (length bs), int n, ?d, w)"
        using got copy(1) by (simp add: recv_loop.simps[of os h "int n" d])
      moreover have "take n ?d = take c d @ take (n - c) P" "pending h w = drop (n - c) P"
        using copy(3) True bs(2) by auto
      ultimately show ?thesis
        using copy(2) bs(3) less.prems(2) by (intro exI[of _ "int (length bs)"] exI[of _ n]) auto
    next
      case False
      then have c: "?c < n" "n - ?c < n - c"
        using bs(1,3) less.prems(2) by linarith+
      obtain got' w1 where recv: "os_recv os h (n - ?c) w = (got', w1)"
        by force
      have law: "case got' of None \<Rightarrow> pending h w1 = pending h w | Some bs' \<Rightarrow> length bs' \<le> n - ?c \<and> pending h w = bs' @ pending h w1"
        "recvs_up os pending \<and> pending h w \<noteq> [] \<longrightarrow> got' \<noteq> None \<and> got' \<noteq> Some []"
        by (rule recvs_streamD[OF less.prems(1) recv]) (use recvs_upD[OF _ recv, of pending] c(1) in simp)
      have n: "nat (int n - (int c + int (length bs))) = n - ?c"
        by linarith
      have "recv_loop os h (int n) d (int c) got w = recv_loop os h (int n) ?d (int ?c) got' w1"
        using got copy(1) c(1) recv n by (subst recv_loop.simps) simp
      moreover obtain err k d' w' where IH: "recv_loop os h (int n) ?d (int ?c) got' w1 = Some (err, int k, d', w')" "?c \<le> k" "k \<le> n" "length d' = length ?d"
          "take k d' = take ?c ?d @ take (k - ?c) (pending h w)" "pending h w' = drop (k - ?c) (pending h w)" "0 < err \<longleftrightarrow> k = n"
          "recvs_up os pending \<and> n - ?c \<le> length (pending h w) \<and> got' \<noteq> None \<and> got' \<noteq> Some [] \<longrightarrow> k = n"
        using less.hyps[OF c(2) less.prems(1) c(1) _ law(1), of ?d] copy(2) less.prems(3) by metis
      moreover have "take k d' = take c d @ take (k - c) P" "pending h w' = drop (k - c) P"
        using IH(2,5,6) copy(3) bs(2) by (simp_all add: take_add[symmetric] le_add_diff_inverse2)
      moreover have "recvs_up os pending \<and> n - c \<le> length P \<longrightarrow> k = n"
      proof
        assume up: "recvs_up os pending \<and> n - c \<le> length P"
        then have "n - ?c \<le> length (pending h w)" "pending h w \<noteq> []"
          using bs(2) c(1) by auto
        then show "k = n"
          using IH(8) law(2) up by blast
      qed
      ultimately show ?thesis
        using copy(2) by (intro exI[of _ err] exI[of _ k] exI[of _ d'] exI[of _ w']) auto
    qed
  qed
qed

text \<open>Sending and receiving a whole buffer.\<close>

lemma sendbuffer_sent:
  assumes "buffer_ok b" "sends_stream os sent"
  shows "\<exists>k w'. embb_mtapi_network_socket_sendbuffer os that b w = Some (if k = nat (nb_size b) then nb_size b else 0, w') \<and> k \<le> nat (nb_size b) \<and>
           sent (sk_handle that) w' = sent (sk_handle that) w @ take k (take (nat (nb_size b)) (the (nb_data b))) \<and> (sends_up os \<longrightarrow> k = nat (nb_size b))"
proof -
  from assms(1) obtain d p s where b: "nb_data b = Some d" "nb_position b = int p" "nb_size b = int s" "nb_capacity b = int (length d)"
      "p \<le> s" "s \<le> length d" "length d < 2 ^ 31"
    by (rule buffer_okE)
  let ?h = "sk_handle that" and ?bs = "take s d"
  obtain r w1 where send: "os_send os ?h ?bs w = (r, w1)"
    by force
  note law = sends_streamD[OF assms(2) send]
  have len: "length ?bs = s"
    using b(6) by simp
  have "0 + max 0 r \<le> int (length ?bs)" "sent ?h w1 = sent ?h w @ take (nat (0 + max 0 r)) ?bs"
    using law b(6) by (auto simp: max_def)
  from send_loop_sent[OF assms(2) this(1) order_refl this(2)] obtain k w' where k: "send_loop os ?h ?bs 0 r w1 = Some (int k, w')"
      "k \<le> s" "sent ?h w' = sent ?h w @ take k ?bs" "sends_up os \<and> 0 < r \<longrightarrow> k = s"
    unfolding len by blast
  have "sends_up os \<longrightarrow> k = s"
  proof (cases "s = 0")
    case False
    then have "?bs \<noteq> []"
      using len by auto
    then show ?thesis
      using sends_upD[OF _ send] k(4) by blast
  qed (use k(2) in simp)
  then show ?thesis
    using b send k(1-3) by (intro exI[of _ k] exI[of _ w']) (auto simp: embb_mtapi_network_socket_sendbuffer_def copy_out_def)
qed

lemma recvbuffer_received:
  assumes "buffer_ok b" "recvs_stream os pending" "int n \<le> nb_capacity b"
  shows "\<exists>k d w'. embb_mtapi_network_socket_recvbuffer_sized os that b (int n) w =
             Some (if k = n then (int n, b\<lparr>nb_data := Some d, nb_size := int n\<rparr>, w') else (0, b\<lparr>nb_data := Some d\<rparr>, w')) \<and>
           k \<le> n \<and> length d = length (the (nb_data b)) \<and> take k d = take k (pending (sk_handle that) w) \<and>
           pending (sk_handle that) w' = drop k (pending (sk_handle that) w) \<and>
           (recvs_up os pending \<and> n \<le> length (pending (sk_handle that) w) \<longrightarrow> k = n)"
proof -
  from assms(1) obtain d p s where b: "nb_data b = Some d" "nb_position b = int p" "nb_size b = int s" "nb_capacity b = int (length d)"
      "p \<le> s" "s \<le> length d" "length d < 2 ^ 31"
    by (rule buffer_okE)
  let ?h = "sk_handle that"
  show ?thesis
  proof (cases "n = 0")
    case True
    then show ?thesis
      using b by (intro exI[of _ 0] exI[of _ d] exI[of _ w]) (simp add: embb_mtapi_network_socket_recvbuffer_sized_def)
  next
    case False
    obtain got w1 where recv: "os_recv os ?h n w = (got, w1)"
      by force
    have law: "case got of None \<Rightarrow> pending ?h w1 = pending ?h w | Some bs \<Rightarrow> length bs \<le> n - 0 \<and> pending ?h w = bs @ pending ?h w1"
      using recvs_streamD[OF assms(2) recv] unfolding diff_zero .
    have n: "0 < n" "n \<le> length d"
      using False assms(3) b(4) by auto
    from recv_loop_received[OF assms(2) n law] obtain err k d' w' where k: "recv_loop os ?h (int n) d (int 0) got w1 = Some (err, int k, d', w')"
        "k \<le> n" "length d' = length d" "take k d' = take k (pending ?h w)" "pending ?h w' = drop k (pending ?h w)" "0 < err \<longleftrightarrow> k = n"
        "recvs_up os pending \<and> n \<le> length (pending ?h w) \<and> got \<noteq> None \<and> got \<noteq> Some [] \<longrightarrow> k = n"
      unfolding take_0 append_Nil diff_zero by metis
    have up: "k = n" if "recvs_up os pending \<and> n \<le> length (pending ?h w)"
      using that k(7) recvs_upD[OF _ recv n(1)] n(1) by fastforce
    have "\<not> nb_capacity b < int n"
      using assms(3) by simp
    then show ?thesis
      using b(1) False recv k(1-6) up by (intro exI[of _ k] exI[of _ d'] exI[of _ w'])
        (auto simp: embb_mtapi_network_socket_recvbuffer_sized_def)
  qed
qed

text \<open>On a connection that is up, with enough bytes on their way, a cleared buffer holds exactly the next bytes.\<close>

lemma recvbuffer_contents:
  assumes "buffer_ok b" "nb_position b = 0" "recvs_stream os pending" "recvs_up os pending" "int n \<le> nb_capacity b"
    "pending (sk_handle that) w = bs @ rest" "length bs = n"
  obtains b' w' where "embb_mtapi_network_socket_recvbuffer_sized os that b (int n) w = Some (int n, b', w')" "buffer_ok b'"
    "buffer_contents b' = bs" "pending (sk_handle that) w' = rest" "nb_capacity b' = nb_capacity b"
proof -
  from assms(1) obtain d0 p s where b: "nb_data b = Some d0" "nb_position b = int p" "nb_size b = int s" "nb_capacity b = int (length d0)"
      "p \<le> s" "s \<le> length d0" "length d0 < 2 ^ 31"
    by (rule buffer_okE)
  obtain k d w' where k: "embb_mtapi_network_socket_recvbuffer_sized os that b (int n) w =
        Some (if k = n then (int n, b\<lparr>nb_data := Some d, nb_size := int n\<rparr>, w') else (0, b\<lparr>nb_data := Some d\<rparr>, w'))"
      "length d = length d0" "take k d = take k (bs @ rest)" "pending (sk_handle that) w' = drop k (bs @ rest)" "k = n"
    using recvbuffer_received[OF assms(1,3,5), of that w] assms(4,6,7) b(1) by auto
  let ?b = "b\<lparr>nb_data := Some d, nb_size := int n\<rparr>"
  have "buffer_ok ?b" "buffer_contents ?b = bs"
    using b k assms(2,5,7) by (auto simp: buffer_ok_def buffer_contents_def)
  then show ?thesis
    using k assms(7) by (intro that[of ?b w']) auto
qed

end
