(* ===== verification/Network_Plugin.thy ===== *)
theory Network_Plugin
  imports Network_Socket Node_Api
begin

text \<open>
  The network plugin (\<^verbatim>\<open>mtapi_network_c/src/embb_mtapi_network.c\<close>), which runs the tasks of a job on another node. Starting a task of a network action sends a message with the arguments;
  a thread on the other node starts a task there, whose completion callback sends the result back; the thread on the first node then completes the task.

  The state \<open>network_state\<close> has the state of the task library, the plugin, the structures of actions and tasks by their address, and the outside. The
  record \<open>network_env\<close> has the code that is not part of the plugin: the operating system, the allocator (\<open>ne_alloc\<close>, \<open>ne_block\<close> for the block of a buffer, \<open>ne_sockets\<close>
  for the array of sockets), the addresses of the plugin's functions and of its local variables, the content of fresh local variables, and what other threads do. A section under a mutex is one step. Assertions are
  disabled: a call whose result is only checked by one goes on whatever the result. Reading a variable that was not written is \<open>None\<close>.
\<close>

record embb_mtapi_network_plugin =
  np_sockets :: "embb_mtapi_network_socket list option"
  np_socket_count :: int
  np_run :: u32
  np_buffer_size :: u32
  np_send_buffer :: embb_mtapi_network_buffer

record embb_mtapi_network_action =
  nw_domain_id :: u32
  nw_job_id :: u32
  nw_host :: string
  nw_port :: u16
  nw_socket :: embb_mtapi_network_socket
  nw_send_buffer :: embb_mtapi_network_buffer

record embb_mtapi_network_task =
  nt_socket :: embb_mtapi_network_socket
  nt_remote_task_id :: u32
  nt_remote_task_tag :: u32

record 'w network_state =
  ns_mtapi :: mtapi_state
  ns_plugin :: embb_mtapi_network_plugin
  ns_actions :: "u64 \<Rightarrow> embb_mtapi_network_action option"
  ns_tasks :: "u64 \<Rightarrow> embb_mtapi_network_task option"
  ns_world :: 'w

record 'w network_env =
  ne_os :: "'w socket_os"
  ne_mtapi :: mtapi_env
  ne_alloc :: "u64 \<Rightarrow> 'w \<Rightarrow> u64 option \<times> 'w"
  ne_free :: "u64 \<Rightarrow> 'w \<Rightarrow> 'w"
  ne_block :: "u64 \<Rightarrow> u8 list option"
  ne_sockets :: "nat \<Rightarrow> embb_mtapi_network_socket list option"
  ne_sizeof_action :: u64
  ne_local :: u64
  ne_garbage :: mtapi_task_attributes
  ne_task_start_function :: u64
  ne_task_cancel_function :: u64
  ne_action_finalize_function :: u64
  ne_task_complete_function :: u64
  ne_others :: "'w network_state \<Rightarrow> 'w network_state option"
  ne_thread_create :: "'w \<Rightarrow> embb_errors \<times> 'w"

definition EMBB_MTAPI_NETWORK_START_TASK :: u8 where
  "EMBB_MTAPI_NETWORK_START_TASK = 0"

definition EMBB_MTAPI_NETWORK_RETURN_RESULT :: u8 where
  "EMBB_MTAPI_NETWORK_RETURN_RESULT = 1"

text \<open>A status as a number, and back; a number that names no status has no counterpart.\<close>

definition status_values :: "mtapi_status list" where
  "status_values =
    [MTAPI_SUCCESS, MTAPI_TIMEOUT, MTAPI_ERR_PARAMETER, MTAPI_ERR_ATTR_READONLY, MTAPI_ERR_ATTR_NUM, MTAPI_ERR_ATTR_SIZE,
     MTAPI_ERR_NODE_INITFAILED, MTAPI_ERR_NODE_INITIALIZED, MTAPI_ERR_NODE_INVALID, MTAPI_ERR_DOMAIN_INVALID, MTAPI_ERR_NODE_NOTINIT,
     MTAPI_ERR_ACTION_INVALID, MTAPI_ERR_ACTION_EXISTS, MTAPI_ERR_ACTION_LIMIT, MTAPI_ERR_ACTION_NUM_INVALID, MTAPI_ERR_ACTION_FAILED,
     MTAPI_ERR_ACTION_CANCELLED, MTAPI_ERR_ACTION_DELETED, MTAPI_ERR_ACTION_DISABLED, MTAPI_ERR_CONTEXT_INVALID,
     MTAPI_ERR_CONTEXT_OUTOFCONTEXT, MTAPI_ERR_TASK_INVALID, MTAPI_ERR_TASK_LIMIT, MTAPI_ERR_JOB_INVALID, MTAPI_ERR_QUEUE_INVALID,
     MTAPI_ERR_QUEUE_DELETED, MTAPI_ERR_QUEUE_DISABLED, MTAPI_ERR_QUEUE_LIMIT, MTAPI_ERR_GROUP_INVALID, MTAPI_ERR_GROUP_LIMIT,
     MTAPI_GROUP_COMPLETED, MTAPI_ERR_UNKNOWN, MTAPI_ERR_BUFFER_SIZE, MTAPI_ERR_RESULT_SIZE, MTAPI_ERR_ARG_SIZE, MTAPI_ERR_WAIT_PENDING,
     MTAPI_ERR_FUNC_NOT_IMPLEMENTED, MTAPI_ERR_ARG_NOT_IMPLEMENTED, MTAPI_ERR_RUNTIME_REMOTETASKS_NOTSUPPORTED,
     MTAPI_ERR_RUNTIME_LOADBALANCING_NOTSUPPORTED, MTAPI_ERR_CORE_NUM]"

definition status_code :: "mtapi_status \<Rightarrow> u32" where
  "status_code st = of_nat (length (takeWhile (\<lambda>x. x \<noteq> st) status_values))"

definition status_of_code :: "u32 \<Rightarrow> mtapi_status option" where
  "status_of_code c = (if unat c < length status_values then Some (status_values ! unat c) else None)"

section \<open>The start and the end of the plugin\<close>

definition embb_mtapi_network_initialize :: int where
  "embb_mtapi_network_initialize = 1"

definition mtapi_network_plugin_initialize ::
    "'w network_env \<Rightarrow> string option \<Rightarrow> u16 \<Rightarrow> u16 \<Rightarrow> u32 \<Rightarrow> 'w network_state \<Rightarrow> mtapi_status \<times> 'w network_state" where
  "mtapi_network_plugin_initialize env host port max_connections buffer_size st =
     (if embb_mtapi_network_initialize = 0 then (MTAPI_ERR_UNKNOWN, st)
      else
        (let plugin = (ns_plugin st)\<lparr>np_run := 1, np_buffer_size := buffer_size, np_socket_count := 1,
               np_sockets := ne_sockets env (1 + unat max_connections * 2),
               np_send_buffer := embb_mtapi_network_buffer_initialize (ne_block env) (c_int buffer_size)\<rparr> in
         case np_sockets plugin of
           None \<Rightarrow> (MTAPI_ERR_UNKNOWN, st\<lparr>ns_plugin := plugin\<rparr>)
         | Some sockets \<Rightarrow>
             (let (err, sock, w) = embb_mtapi_network_socket_initialize (ne_os env) (ns_world st);
                  st = st\<lparr>ns_plugin := plugin\<lparr>np_sockets := Some (sockets[0 := sock])\<rparr>, ns_world := w\<rparr> in
              if err = 0 then (MTAPI_ERR_UNKNOWN, st)
              else
                (let (err, w) = embb_mtapi_network_socket_bind_and_listen (ne_os env) sock host port max_connections (ns_world st);
                     st = st\<lparr>ns_world := w\<rparr> in
                 if err = 0 then (MTAPI_ERR_UNKNOWN, st)
                 else
                   (let (err, w) = ne_thread_create env (ns_world st) in
                    (if err = EMBB_SUCCESS then MTAPI_SUCCESS else MTAPI_ERR_UNKNOWN, st\<lparr>ns_world := w\<rparr>))))))"

text \<open>\<open>ne_others\<close> is what the thread of the plugin does until it has ended.\<close>

definition mtapi_network_plugin_finalize :: "'w network_env \<Rightarrow> 'w network_state \<Rightarrow> (mtapi_status \<times> 'w network_state) option" where
  "mtapi_network_plugin_finalize env st =
     do { st \<leftarrow> ne_others env (st\<lparr>ns_plugin := (ns_plugin st)\<lparr>np_run := 0\<rparr>\<rparr>);
          let plugin = (ns_plugin st)\<lparr>np_send_buffer := embb_mtapi_network_buffer_finalize (np_send_buffer (ns_plugin st))\<rparr>;
          sockets \<leftarrow> np_sockets plugin;
          sock \<leftarrow> arr_get sockets 0;
          let (_, w) = embb_mtapi_network_socket_finalize (ne_os env) sock (ns_world st);
          Some (MTAPI_SUCCESS, st\<lparr>ns_plugin := plugin\<lparr>np_sockets := None\<rparr>, ns_world := w\<rparr>) }"

section \<open>Network actions\<close>

text \<open>The next free place in the array of sockets. The array is not grown, and a place outside of it is undefined behaviour.\<close>

definition plugin_add_socket :: "embb_mtapi_network_socket \<Rightarrow> embb_mtapi_network_plugin \<Rightarrow> embb_mtapi_network_plugin option" where
  "plugin_add_socket sock plugin =
     do { sockets \<leftarrow> np_sockets plugin;
          if 0 \<le> np_socket_count plugin \<and> np_socket_count plugin < int (length sockets) then
            Some (plugin\<lparr>np_sockets := Some (sockets[nat (np_socket_count plugin) := sock]), np_socket_count := np_socket_count plugin + 1\<rparr>)
          else None }"

definition mtapi_network_action_create ::
    "'w network_env \<Rightarrow> u32 \<Rightarrow> u32 \<Rightarrow> u32 \<Rightarrow> string \<Rightarrow> u16 \<Rightarrow> 'w network_state \<Rightarrow> (mtapi_status \<times> mtapi_hndl \<times> 'w network_state) option" where
  "mtapi_network_action_create env domain_id local_job_id remote_job_id host port st =
     (let (action, w) = ne_alloc env (ne_sizeof_action env) (ns_world st);
          action_hndl = \<lparr>hndl_tag = 0, hndl_id = 0\<rparr> in
      case action of
        None \<Rightarrow> Some (MTAPI_ERR_UNKNOWN, action_hndl, st\<lparr>ns_world := w\<rparr>)
      | Some a \<Rightarrow>
          (let send_buffer = embb_mtapi_network_buffer_initialize (ne_block env) (c_int (np_buffer_size (ns_plugin st)));
               (_, sock, w) = embb_mtapi_network_socket_initialize (ne_os env) w;
               (err, w) = embb_mtapi_network_socket_connect (ne_os env) sock host port w;
               action = \<lparr>nw_domain_id = domain_id, nw_job_id = remote_job_id, nw_host = host, nw_port = port, nw_socket = sock,
                         nw_send_buffer = send_buffer\<rparr> in
           if err \<noteq> 0 then
             do { plugin \<leftarrow> plugin_add_socket sock (ns_plugin st);
                  (local_status, action_hndl, s) \<leftarrow> mtapi_ext_plugin_action_create local_job_id (ne_task_start_function env)
                    (ne_task_cancel_function env) (ne_action_finalize_function env) a 0 0 None (ns_mtapi st);
                  Some (local_status, action_hndl, st\<lparr>ns_mtapi := s, ns_plugin := plugin, ns_actions := (ns_actions st)(a \<mapsto> action), ns_world := w\<rparr>) }
           else
             (let (_, w) = embb_mtapi_network_socket_finalize (ne_os env) sock w in
              Some (MTAPI_ERR_UNKNOWN, action_hndl, st\<lparr>ns_world := ne_free env a w\<rparr>))))"

definition network_action_finalize ::
    "'w network_env \<Rightarrow> mtapi_hndl \<Rightarrow> 'w network_state \<Rightarrow> (mtapi_status \<times> 'w network_state) option" where
  "network_action_finalize env action st =
     (case st_node (ns_mtapi st) of
        None \<Rightarrow> Some (MTAPI_ERR_UNKNOWN, st)
      | Some node \<Rightarrow>
          do { ap \<leftarrow> action_pool (ns_mtapi st);
               valid \<leftarrow> embb_mtapi_pool_is_handle_valid ap action;
               if valid then
                 do { local_action \<leftarrow> get_action (ns_mtapi st) (embb_mtapi_pool_get_storage_for_handle ap action);
                      let p = ac_plugin_data local_action;
                      na \<leftarrow> ns_actions st p;
                      let (_, w) = embb_mtapi_network_socket_finalize (ne_os env) (nw_socket na) (ns_world st);
                      Some (MTAPI_SUCCESS, st\<lparr>ns_actions := (ns_actions st)(p := None), ns_world := ne_free env p w\<rparr>) }
               else Some (MTAPI_ERR_UNKNOWN, st) })"

section \<open>Starting a task on the other node\<close>

definition start_message ::
    "embb_mtapi_network_action \<Rightarrow> embb_mtapi_task \<Rightarrow> memory \<Rightarrow> embb_mtapi_network_buffer \<Rightarrow> embb_mtapi_network_buffer option" where
  "start_message na x m send_buf =
     do { (_, send_buf) \<leftarrow> embb_mtapi_network_buffer_push_back_int8 send_buf EMBB_MTAPI_NETWORK_START_TASK;
          (_, send_buf) \<leftarrow> embb_mtapi_network_buffer_push_back_int32 send_buf (nw_domain_id na);
          (_, send_buf) \<leftarrow> embb_mtapi_network_buffer_push_back_int32 send_buf (nw_job_id na);
          (_, send_buf) \<leftarrow> embb_mtapi_network_buffer_push_back_int32 send_buf (ta_priority (tk_attributes x));
          (_, send_buf) \<leftarrow> embb_mtapi_network_buffer_push_back_int32 send_buf (hndl_id (handle x));
          (_, send_buf) \<leftarrow> embb_mtapi_network_buffer_push_back_int32 send_buf (hndl_tag (handle x));
          (_, send_buf) \<leftarrow> embb_mtapi_network_buffer_push_back_int32 send_buf (tk_result_size x);
          (_, send_buf) \<leftarrow> embb_mtapi_network_buffer_push_back_int32 send_buf (tk_arguments_size x);
          (_, send_buf) \<leftarrow> embb_mtapi_network_buffer_push_back_rawdata send_buf (c_int (tk_arguments_size x))
             (mem_read m (tk_arguments x) (unat (tk_arguments_size x)));
          Some send_buf }"

definition network_task_start ::
    "'w network_env \<Rightarrow> mtapi_hndl \<Rightarrow> 'w network_state \<Rightarrow> (mtapi_status \<times> 'w network_state) option" where
  "network_task_start env task st =
     (let s = ns_mtapi st in
      case st_node s of
        None \<Rightarrow> Some (MTAPI_ERR_UNKNOWN, st)
      | Some node \<Rightarrow>
          do { tp \<leftarrow> task_pool s;
               valid \<leftarrow> embb_mtapi_pool_is_handle_valid tp task;
               if valid then
                 do { let t = embb_mtapi_pool_get_storage_for_handle tp task;
                      x \<leftarrow> get_task s t;
                      ap \<leftarrow> action_pool s;
                      valid \<leftarrow> embb_mtapi_pool_is_handle_valid ap (tk_action x);
                      if valid then
                        do { let a = embb_mtapi_pool_get_storage_for_handle ap (tk_action x);
                             local_action \<leftarrow> get_action s a;
                             let p = ac_plugin_data local_action;
                             na \<leftarrow> ns_actions st p;
                             send_buf \<leftarrow> start_message na x (st_memory s) (nw_send_buffer na);
                             (_, w) \<leftarrow> embb_mtapi_network_socket_sendbuffer (ne_os env) (nw_socket na) send_buf (ns_world st);
                             s \<leftarrow> upd_action a (\<lambda>b. b\<lparr>ac_num_tasks := snd (embb_atomic_fetch_and_add (ac_num_tasks b) 1)\<rparr>) s;
                             s \<leftarrow> upd_task t (\<lambda>y. y\<lparr>tk_state := MTAPI_TASK_RUNNING\<rparr>) s;
                             let na = na\<lparr>nw_send_buffer := embb_mtapi_network_buffer_clear send_buf\<rparr>;
                             Some (MTAPI_SUCCESS, st\<lparr>ns_mtapi := s, ns_actions := (ns_actions st)(p \<mapsto> na), ns_world := w\<rparr>) }
                      else Some (MTAPI_ERR_UNKNOWN, st) }
               else Some (MTAPI_ERR_UNKNOWN, st) })"

definition network_task_cancel ::
    "mtapi_hndl \<Rightarrow> 'w network_state \<Rightarrow> (mtapi_status \<times> 'w network_state) option" where
  "network_task_cancel task st = Some (MTAPI_ERR_UNKNOWN, st)"

section \<open>Returning the result\<close>

definition result_message ::
    "embb_mtapi_network_task \<Rightarrow> embb_mtapi_task \<Rightarrow> memory \<Rightarrow> embb_mtapi_network_buffer \<Rightarrow> embb_mtapi_network_buffer option" where
  "result_message nt x m send_buf =
     do { let send_buf = embb_mtapi_network_buffer_clear send_buf;
          (_, send_buf) \<leftarrow> embb_mtapi_network_buffer_push_back_int8 send_buf EMBB_MTAPI_NETWORK_RETURN_RESULT;
          (_, send_buf) \<leftarrow> embb_mtapi_network_buffer_push_back_int32 send_buf (nt_remote_task_id nt);
          (_, send_buf) \<leftarrow> embb_mtapi_network_buffer_push_back_int32 send_buf (nt_remote_task_tag nt);
          (_, send_buf) \<leftarrow> embb_mtapi_network_buffer_push_back_int32 send_buf (status_code (tk_error_code x));
          (_, send_buf) \<leftarrow> embb_mtapi_network_buffer_push_back_int32 send_buf (tk_result_size x);
          (_, send_buf) \<leftarrow> embb_mtapi_network_buffer_push_back_rawdata send_buf (c_int (tk_result_size x))
             (mem_read m (tk_result_buffer x) (unat (tk_result_size x)));
          Some send_buf }"

definition embb_mtapi_network_task_complete ::
    "'w network_env \<Rightarrow> mtapi_hndl \<Rightarrow> 'w network_state \<Rightarrow> (mtapi_status \<times> 'w network_state) option" where
  "embb_mtapi_network_task_complete env task st =
     (let s = ns_mtapi st in
      case st_node s of
        None \<Rightarrow> Some (MTAPI_ERR_UNKNOWN, st)
      | Some node \<Rightarrow>
          do { tp \<leftarrow> task_pool s;
               valid \<leftarrow> embb_mtapi_pool_is_handle_valid tp task;
               if valid then
                 do { x \<leftarrow> get_task s (embb_mtapi_pool_get_storage_for_handle tp task);
                      ap \<leftarrow> action_pool s;
                      valid \<leftarrow> embb_mtapi_pool_is_handle_valid ap (tk_action x);
                      if valid then
                        do { nt \<leftarrow> ns_tasks st (ta_user_data (tk_attributes x));
                             send_buf \<leftarrow> result_message nt x (st_memory s) (np_send_buffer (ns_plugin st));
                             (_, w) \<leftarrow> embb_mtapi_network_socket_sendbuffer (ne_os env) (nt_socket nt) send_buf (ns_world st);
                             let w = ne_free env (tk_result_buffer x) (ne_free env (tk_arguments x) w);
                             Some (MTAPI_SUCCESS, st\<lparr>ns_plugin := (ns_plugin st)\<lparr>np_send_buffer := send_buf\<rparr>, ns_world := w\<rparr>) }
                      else Some (MTAPI_ERR_UNKNOWN, st) }
               else Some (MTAPI_ERR_UNKNOWN, st) })"

end
