(* ===== verification/Network_Thread.thy ===== *)
theory Network_Thread
  imports Network_Plugin
begin

text \<open>
  The thread of the network plugin (\<^verbatim>\<open>embb_mtapi_network_thread\<close> in \<^verbatim>\<open>mtapi_network_c/src/embb_mtapi_network.c\<close>): it waits at all sockets, accepts connections, starts the tasks that other nodes
  ask for, and completes the tasks whose results have come back. The two kinds of messages have a function each.
\<close>

section \<open>A task to start\<close>

text \<open>The attributes of the task that stands for the remote one; the values pass through local variables.\<close>

definition network_task_attributes :: "'w network_env \<Rightarrow> u64 \<Rightarrow> u32 \<Rightarrow> mtapi_state \<Rightarrow> mtapi_task_attributes option option" where
  "network_task_attributes env network_task priority s =
     do { (_, attr) \<leftarrow> mtapi_taskattr_init (node_attr s) (Some (ne_garbage env));
          let m = (st_memory s);
          let (_, attr) = mtapi_taskattr_set m attr MTAPI_TASK_USER_DATA network_task 0;
          let (_, attr) = mtapi_taskattr_set (mem_write m (ne_local env) (bytes_le 1 (MTAPI_TRUE :: u8))) attr MTAPI_TASK_DETACHED (ne_local env) 1;
          let (_, attr) = mtapi_taskattr_set (mem_write m (ne_local env) (bytes_le 4 priority)) attr MTAPI_TASK_PRIORITY (ne_local env) 4;
          let (_, attr) = mtapi_taskattr_set m attr MTAPI_TASK_COMPLETE_FUNCTION (ne_task_complete_function env) 0;
          Some attr }"

text \<open>Bytes that were read are copied to the block behind a pointer; without bytes nothing is copied.\<close>

definition copy_to_block :: "u8 list option \<Rightarrow> u64 option \<Rightarrow> memory \<Rightarrow> memory option" where
  "copy_to_block bytes p m =
     (case bytes of
        None \<Rightarrow> Some m
      | Some bs \<Rightarrow> (case p of None \<Rightarrow> if bs = [] then Some m else None | Some a \<Rightarrow> Some (mem_write m a bs)))"

text \<open>The integers in front of the arguments: domain, job, priority, handle of the remote task, result size and argument size.\<close>

definition pop_start_header ::
    "embb_mtapi_network_buffer \<Rightarrow> ((u32 option \<times> u32 option \<times> u32 \<times> u32 option \<times> u32 option \<times> u32 option \<times> u32 option) \<times> embb_mtapi_network_buffer) option" where
  "pop_start_header buffer =
     do { (_, domain_id, buffer) \<leftarrow> embb_mtapi_network_buffer_pop_front_int32 buffer;
          (_, job_id, buffer) \<leftarrow> embb_mtapi_network_buffer_pop_front_int32 buffer;
          (_, priority, buffer) \<leftarrow> embb_mtapi_network_buffer_pop_front_int32 buffer;
          (_, remote_task_id, buffer) \<leftarrow> embb_mtapi_network_buffer_pop_front_int32 buffer;
          (_, remote_task_tag, buffer) \<leftarrow> embb_mtapi_network_buffer_pop_front_int32 buffer;
          (_, results_size, buffer) \<leftarrow> embb_mtapi_network_buffer_pop_front_int32 buffer;
          (_, arguments_size, buffer) \<leftarrow> embb_mtapi_network_buffer_pop_front_int32 buffer;
          Some ((domain_id, job_id, case priority of None \<Rightarrow> 0 | Some v \<Rightarrow> v, remote_task_id, remote_task_tag, results_size, arguments_size), buffer) }"

definition network_start_task ::
    "'w network_env \<Rightarrow> embb_mtapi_network_socket \<Rightarrow> embb_mtapi_network_buffer \<Rightarrow> 'w network_state \<Rightarrow>
     (embb_mtapi_network_buffer \<times> 'w network_state) option" where
  "network_start_task env socket buffer st =
     do { let (network_task, w) = ne_alloc env 12 (ns_world st);
          (_, buffer, w) \<leftarrow> embb_mtapi_network_socket_recvbuffer_sized (ne_os env) socket buffer 28 w;
          ((domain_id, job_id, priority, remote_task_id, remote_task_tag, results_size, arguments_size), buffer) \<leftarrow> pop_start_header buffer;
          nt \<leftarrow> network_task;
          remote_task_id \<leftarrow> remote_task_id;
          remote_task_tag \<leftarrow> remote_task_tag;
          results_size \<leftarrow> results_size;
          let (results, w) = ne_alloc env (scast results_size) w;
          arguments_size \<leftarrow> arguments_size;
          let (arguments, w) = ne_alloc env (scast arguments_size) w;
          let buffer = embb_mtapi_network_buffer_clear buffer;
          (_, buffer, w) \<leftarrow> embb_mtapi_network_socket_recvbuffer_sized (ne_os env) socket buffer (c_int arguments_size) w;
          (_, bytes, buffer) \<leftarrow> embb_mtapi_network_buffer_pop_front_rawdata buffer (c_int arguments_size);
          m \<leftarrow> copy_to_block bytes arguments (st_memory (ns_mtapi st));
          let s = (ns_mtapi st)\<lparr>st_memory := m\<rparr>;
          attr \<leftarrow> network_task_attributes env nt priority s;
          job_id \<leftarrow> job_id;
          domain_id \<leftarrow> domain_id;
          (_, job_hndl) \<leftarrow> mtapi_job_get job_id domain_id s;
          (_, _, s) \<leftarrow> mtapi_task_start (ne_mtapi env) 0 job_hndl (case arguments of None \<Rightarrow> 0 | Some a \<Rightarrow> a) arguments_size
             (case results of None \<Rightarrow> 0 | Some a \<Rightarrow> a) results_size attr MTAPI_HNDL_NONE s;
          Some (embb_mtapi_network_buffer_clear buffer,
            st\<lparr>ns_mtapi := s, ns_world := w,
               ns_tasks := (ns_tasks st)(nt \<mapsto> \<lparr>nt_socket = socket, nt_remote_task_id = remote_task_id, nt_remote_task_tag = remote_task_tag\<rparr>)\<rparr>) }"

section \<open>A result that has come back\<close>

definition network_complete_task :: "mtapi_hndl \<Rightarrow> u32 \<Rightarrow> u32 \<Rightarrow> embb_mtapi_network_buffer \<Rightarrow> mtapi_state \<Rightarrow>
     (embb_mtapi_network_buffer \<times> mtapi_state) option" where
  "network_complete_task task task_status results_size buffer s =
     do { tp \<leftarrow> task_pool s;
          valid \<leftarrow> embb_mtapi_pool_is_handle_valid tp task;
          if valid then
            do { let t = embb_mtapi_pool_get_storage_for_handle tp task;
                 x \<leftarrow> get_task s t;
                 ap \<leftarrow> action_pool s;
                 valid \<leftarrow> embb_mtapi_pool_is_handle_valid ap (tk_action x);
                 if valid then
                   do { (_, bytes, buffer) \<leftarrow> embb_mtapi_network_buffer_pop_front_rawdata buffer (c_int results_size);
                        m \<leftarrow> copy_to_block bytes (if tk_result_buffer x = 0 then None else Some (tk_result_buffer x)) (st_memory s);
                        let s = s\<lparr>st_memory := m\<rparr>;
                        error_code \<leftarrow> status_of_code task_status;
                        s \<leftarrow> upd_task t (\<lambda>y. y\<lparr>tk_error_code := error_code, tk_state := MTAPI_TASK_COMPLETED\<rparr>) s;
                        s \<leftarrow> upd_action (embb_mtapi_pool_get_storage_for_handle ap (tk_action x))
                               (\<lambda>b. b\<lparr>ac_num_tasks := snd (embb_atomic_fetch_and_add (ac_num_tasks b) (- 1))\<rparr>) s;
                        s \<leftarrow> task_notify_group t s;
                        Some (buffer, s) }
                 else Some (buffer, s) }
          else Some (buffer, s) }"

definition network_return_result ::
    "'w network_env \<Rightarrow> embb_mtapi_network_socket \<Rightarrow> embb_mtapi_network_buffer \<Rightarrow> 'w network_state \<Rightarrow>
     (embb_mtapi_network_buffer \<times> 'w network_state) option" where
  "network_return_result env socket buffer st =
     (if st_node (ns_mtapi st) = None then Some (embb_mtapi_network_buffer_clear buffer, st)
      else
        do { let buffer = embb_mtapi_network_buffer_clear buffer;
             (_, buffer, w) \<leftarrow> embb_mtapi_network_socket_recvbuffer_sized (ne_os env) socket buffer 16 (ns_world st);
             (_, task_id, buffer) \<leftarrow> embb_mtapi_network_buffer_pop_front_int32 buffer;
             (_, task_tag, buffer) \<leftarrow> embb_mtapi_network_buffer_pop_front_int32 buffer;
             (_, task_status, buffer) \<leftarrow> embb_mtapi_network_buffer_pop_front_int32 buffer;
             (_, results_size, buffer) \<leftarrow> embb_mtapi_network_buffer_pop_front_int32 buffer;
             let buffer = embb_mtapi_network_buffer_clear buffer;
             results_size \<leftarrow> results_size;
             (_, buffer, w) \<leftarrow> embb_mtapi_network_socket_recvbuffer_sized (ne_os env) socket buffer (c_int results_size) w;
             task_id \<leftarrow> task_id;
             task_tag \<leftarrow> task_tag;
             task_status \<leftarrow> task_status;
             (buffer, s) \<leftarrow> network_complete_task \<lparr>hndl_tag = task_tag, hndl_id = task_id\<rparr> task_status results_size buffer (ns_mtapi st);
             Some (buffer, st\<lparr>ns_mtapi := s, ns_world := w\<rparr>) })"

section \<open>The thread\<close>

definition network_message ::
    "'w network_env \<Rightarrow> embb_mtapi_network_socket \<Rightarrow> embb_mtapi_network_buffer \<Rightarrow> 'w network_state \<Rightarrow>
     (embb_mtapi_network_buffer \<times> 'w network_state) option" where
  "network_message env socket buffer st =
     do { let buffer = embb_mtapi_network_buffer_clear buffer;
          (err, buffer, w) \<leftarrow> embb_mtapi_network_socket_recvbuffer_sized (ne_os env) socket buffer 1 (ns_world st);
          let st = st\<lparr>ns_world := w\<rparr>;
          if err = 0 then Some (buffer, st)
          else
            do { (_, operation, buffer) \<leftarrow> embb_mtapi_network_buffer_pop_front_int8 buffer;
                 let buffer = embb_mtapi_network_buffer_clear buffer;
                 operation \<leftarrow> operation;
                 if operation = EMBB_MTAPI_NETWORK_START_TASK then network_start_task env socket buffer st
                 else if operation = EMBB_MTAPI_NETWORK_RETURN_RESULT then network_return_result env socket buffer st
                 else Some (buffer, st) } }"

definition network_thread_body ::
    "'w network_env \<Rightarrow> embb_mtapi_network_buffer \<times> 'w network_state \<Rightarrow> (embb_mtapi_network_buffer \<times> 'w network_state) option" where
  "network_thread_body env = (\<lambda>(buffer, st).
     do { sockets \<leftarrow> np_sockets (ns_plugin st);
          (err, w) \<leftarrow> embb_mtapi_network_socket_select (ne_os env) sockets (np_socket_count (ns_plugin st)) 100 (ns_world st);
          let st = st\<lparr>ns_world := w\<rparr>;
          if err = 0 then
            do { listening \<leftarrow> arr_get sockets 0;
                 let (err, accept_socket, w) = embb_mtapi_network_socket_accept (ne_os env) listening (ns_world st);
                 let st = st\<lparr>ns_world := w\<rparr>;
                 if 0 < err then do { plugin \<leftarrow> plugin_add_socket accept_socket (ns_plugin st); Some (buffer, st\<lparr>ns_plugin := plugin\<rparr>) }
                 else Some (buffer, st) }
          else if 0 < err then
            do { socket \<leftarrow> arr_get sockets (word_of_int err); network_message env socket buffer st }
          else Some (buffer, st) })"

text \<open>Before each test of \<^verbatim>\<open>run\<close> other threads may act.\<close>

partial_function (option) network_thread_loop ::
    "'w network_env \<Rightarrow> embb_mtapi_network_buffer \<times> 'w network_state \<Rightarrow> (embb_mtapi_network_buffer \<times> 'w network_state) option" where
  [code]: "network_thread_loop env bst =
     do { st \<leftarrow> ne_others env (snd bst);
          if np_run (ns_plugin st) \<noteq> 0 then Option.bind (network_thread_body env (fst bst, st)) (network_thread_loop env)
          else Some (fst bst, st) }"

definition embb_mtapi_network_thread :: "'w network_env \<Rightarrow> 'w network_state \<Rightarrow> (embb_errors \<times> 'w network_state) option" where
  "embb_mtapi_network_thread env st =
     do { let buffer = embb_mtapi_network_buffer_initialize (ne_block env) (c_int (np_buffer_size (ns_plugin st)));
          (buffer, st) \<leftarrow> network_thread_loop env (buffer, st);
          let buffer = embb_mtapi_network_buffer_finalize buffer;
          Some (EMBB_SUCCESS, st) }"

end
