(* ===== verification/Network_Messages.thy ===== *)
theory Network_Messages
  imports Network_Thread Example_Node
begin

text \<open>
  What the messages of the network plugin bring about, from one node to the other: a task that is started by a message gets the data of the task at the
  sender, and a task whose result comes back is completed with the data of the remote task.
\<close>

section \<open>Messages as bytes\<close>

definition start_fields :: "embb_mtapi_network_action \<Rightarrow> embb_mtapi_task \<Rightarrow> memory \<Rightarrow> u8 list list" where
  "start_fields na x m =
     [bytes_le 1 EMBB_MTAPI_NETWORK_START_TASK, bytes_le 4 (nw_domain_id na), bytes_le 4 (nw_job_id na), bytes_le 4 (ta_priority (tk_attributes x)),
      bytes_le 4 (hndl_id (handle x)), bytes_le 4 (hndl_tag (handle x)), bytes_le 4 (tk_result_size x), bytes_le 4 (tk_arguments_size x),
      mem_read m (tk_arguments x) (unat (tk_arguments_size x))]"

definition result_fields :: "embb_mtapi_network_task \<Rightarrow> embb_mtapi_task \<Rightarrow> memory \<Rightarrow> u8 list list" where
  "result_fields nt x m =
     [bytes_le 1 EMBB_MTAPI_NETWORK_RETURN_RESULT, bytes_le 4 (nt_remote_task_id nt), bytes_le 4 (nt_remote_task_tag nt),
      bytes_le 4 (status_code (tk_error_code x)), bytes_le 4 (tk_result_size x), mem_read m (tk_result_buffer x) (unat (tk_result_size x))]"

lemma start_message_fields:
  "unat (tk_arguments_size x) < 2 ^ 31 \<Longrightarrow> start_message na x m b = nb.push_fields (start_fields na x m) b"
  unfolding start_message_def start_fields_def nb.push_fields.simps push_back_int_raw by (simp only: c_int_unat length_mem_read)

lemma result_message_fields:
  "unat (tk_result_size x) < 2 ^ 31 \<Longrightarrow>
   result_message nt x m b = nb.push_fields (result_fields nt x m) (embb_mtapi_network_buffer_clear b)"
  unfolding result_message_def result_fields_def nb.push_fields.simps push_back_int_raw Let_def by (simp only: c_int_unat length_mem_read)

lemma push_fields_position: "nb.push_fields fs b = Some b' \<Longrightarrow> nb_position b' = nb_position b"
proof (induction fs arbitrary: b)
  case (Cons f fs)
  then obtain n b1 where "raw_push b f = Some (n, b1)" "nb.push_fields fs b1 = Some b'"
    by (auto simp: bind_eq_Some_conv)
  moreover from this(1) have "nb_position b1 = nb_position b"
    by (auto simp: embb_mtapi_network_buffer_push_back_rawdata_def bind_eq_Some_conv split: if_splits)
  ultimately show ?case
    using Cons.IH by simp
qed simp

lemma buffer_size_bound: "buffer_ok b \<Longrightarrow> k + int n \<le> nb_capacity b \<Longrightarrow> 0 \<le> k \<Longrightarrow> n < 2 ^ 31"
proof -
  assume "buffer_ok b" "k + int n \<le> nb_capacity b" "0 \<le> k"
  then have "int n < 2 ^ 31"
    unfolding buffer_ok_def by linarith
  then show ?thesis
    by simp
qed

text \<open>A message that fits into an empty buffer goes out as its bytes.\<close>

lemma send_fields:
  assumes "buffer_ok b" "nb_position b = 0" "nb_size b = 0" "int (length (concat fs)) \<le> nb_capacity b" "sends_stream os sent" "sends_up os"
  obtains b' r w' where "nb.push_fields fs b = Some b'" "buffer_ok b'" "embb_mtapi_network_socket_sendbuffer os that b' w = Some (r, w')"
    "sent (sk_handle that) w' = sent (sk_handle that) w @ concat fs"
proof -
  have "length (concat fs) \<le> buffer_room b" "buffer_contents b = []"
    using assms(1-4) by (simp_all add: buffer_room_def buffer_contents_def)
  then obtain b' where b': "nb.push_fields fs b = Some b'" "buffer_ok b'" "buffer_contents b' = concat fs"
    using nb.push_fields_contents[OF assms(1)] by auto
  moreover have "take (nat (nb_size b')) (the (nb_data b')) = buffer_contents b'"
    using push_fields_position[OF b'(1)] assms(2) by (simp add: buffer_contents_def)
  moreover obtain k w' where "embb_mtapi_network_socket_sendbuffer os that b' w = Some (if k = nat (nb_size b') then nb_size b' else 0, w')"
      "sent (sk_handle that) w' = sent (sk_handle that) w @ take k (take (nat (nb_size b')) (the (nb_data b')))" "k = nat (nb_size b')"
    using sendbuffer_sent[OF b'(2) assms(5), of that w] assms(6) by blast
  moreover have "take (nat (nb_size b')) (concat fs) = concat fs"
    using calculation(3,4) by (metis take_all_iff length_take min.cobounded2 nat_le_linear)
  ultimately show ?thesis
    using that[of b' "nb_size b'" w'] by simp
qed

lemma status_code_round_trip [simp]: "status_of_code (status_code st) = Some st"
  by (cases st) (simp_all add: status_of_code_def status_code_def status_values_def)

section \<open>Starting a task\<close>

text \<open>What the plugin has to know of a valid task with a valid network action.\<close>

definition network_task_of :: "'w network_state \<Rightarrow> mtapi_hndl \<Rightarrow> embb_mtapi_task \<Rightarrow> embb_mtapi_action \<Rightarrow> embb_mtapi_network_action \<Rightarrow> bool" where
  "network_task_of st task x a na \<longleftrightarrow>
     (\<exists>tp ap. task_pool (ns_mtapi st) = Some tp \<and> embb_mtapi_pool_is_handle_valid tp task = Some True \<and> pl_storage tp ! unat (hndl_id task) = x \<and>
        action_pool (ns_mtapi st) = Some ap \<and> embb_mtapi_pool_is_handle_valid ap (tk_action x) = Some True \<and>
        pl_storage ap ! unat (hndl_id (tk_action x)) = a \<and> ns_actions st (ac_plugin_data a) = Some na)"

lemma network_task_start_sends:
  assumes task: "network_task_of st task x a na"
    and buf: "buffer_ok (nw_send_buffer na)" "nb_position (nw_send_buffer na) = 0" "nb_size (nw_send_buffer na) = 0"
      "29 + int (unat (tk_arguments_size x)) \<le> nb_capacity (nw_send_buffer na)"
    and os: "sends_stream (ne_os env) sent" "sends_up (ne_os env)"
  shows "\<exists>st' s1. network_task_start env task st = Some (MTAPI_SUCCESS, st') \<and>
     sent (sk_handle (nw_socket na)) (ns_world st') = sent (sk_handle (nw_socket na)) (ns_world st) @ concat (start_fields na x (st_memory (ns_mtapi st))) \<and>
     upd_action (hndl_id (tk_action x)) (\<lambda>b. b\<lparr>ac_num_tasks := ac_num_tasks b + 1\<rparr>) (ns_mtapi st) = Some s1 \<and>
     upd_task (hndl_id task) (\<lambda>y. y\<lparr>tk_state := MTAPI_TASK_RUNNING\<rparr>) s1 = Some (ns_mtapi st')"
proof -
  obtain tp ap where t: "task_pool (ns_mtapi st) = Some tp" "embb_mtapi_pool_is_handle_valid tp task = Some True" "pl_storage tp ! unat (hndl_id task) = x"
      "action_pool (ns_mtapi st) = Some ap" "embb_mtapi_pool_is_handle_valid ap (tk_action x) = Some True"
      "pl_storage ap ! unat (hndl_id (tk_action x)) = a" "ns_actions st (ac_plugin_data a) = Some na"
    using task by (auto simp: network_task_of_def)
  note in_range = pool_valid_in_bounds[OF t(2)] pool_valid_in_bounds[OF t(5)]
  have size: "unat (tk_arguments_size x) < 2 ^ 31"
    using buffer_size_bound[OF buf(1,4)] by simp
  obtain b' r w' where b': "start_message na x (st_memory (ns_mtapi st)) (nw_send_buffer na) = Some b'" "buffer_ok b'"
      "embb_mtapi_network_socket_sendbuffer (ne_os env) (nw_socket na) b' (ns_world st) = Some (r, w')"
      "sent (sk_handle (nw_socket na)) w' = sent (sk_handle (nw_socket na)) (ns_world st) @ concat (start_fields na x (st_memory (ns_mtapi st)))"
    using send_fields[OF buf(1-3) _ os, of "start_fields na x (st_memory (ns_mtapi st))" "nw_socket na" "ns_world st"] buf(4) size
    by (auto simp: start_message_fields start_fields_def)
  obtain node where node: "st_node (ns_mtapi st) = Some node"
    using task_pool_node[OF t(1)] by blast
  have get: "get_task (ns_mtapi st) (hndl_id task) = Some x" "get_action (ns_mtapi st) (hndl_id (tk_action x)) = Some a"
    using t(3,6) by (simp_all add: upd_task_Some(3)[OF t(1) in_range(1)] upd_action_Some(3)[OF t(4) in_range(2)])
  obtain s1 where s1: "upd_action (hndl_id (tk_action x)) (\<lambda>b. b\<lparr>ac_num_tasks := ac_num_tasks b + 1\<rparr>) (ns_mtapi st) = Some s1"
      "task_pool s1 = Some tp"
    using upd_action_Some(1)[OF t(4) in_range(2)] t(1) by (simp add: state_simps)
  obtain s2 where s2: "upd_task (hndl_id task) (\<lambda>y. y\<lparr>tk_state := MTAPI_TASK_RUNNING\<rparr>) s1 = Some s2"
    using upd_task_Some(1)[OF s1(2) in_range(1)] by simp
  have "network_task_start env task st = Some (MTAPI_SUCCESS, st\<lparr>ns_mtapi := s2,
      ns_actions := (ns_actions st)(ac_plugin_data a \<mapsto> na\<lparr>nw_send_buffer := embb_mtapi_network_buffer_clear b'\<rparr>), ns_world := w'\<rparr>)"
    using t(1,2,4,5,7) node get s1(1) s2 b'(1,3)
    by (simp add: network_task_start_def embb_mtapi_pool_get_storage_for_handle_def embb_atomic_fetch_and_add_def Let_def)
  then show ?thesis
    using b'(4) s1(1) s2 by simp
qed

text \<open>The receiver is connected, and its allocations succeed without disturbing the connection.\<close>

definition receives :: "'w network_env \<Rightarrow> (int \<Rightarrow> 'w \<Rightarrow> u8 list) \<Rightarrow> bool" where
  "receives env pending \<longleftrightarrow> recvs_stream (ne_os env) pending \<and> recvs_up (ne_os env) pending \<and>
     (\<forall>n w. \<exists>a w'. ne_alloc env n w = (Some a, w') \<and> (\<forall>h. pending h w' = pending h w))"

lemma receives_alloc:
  assumes "receives env pending"
  obtains a w' where "ne_alloc env n w = (Some a, w')" "\<And>h. pending h w' = pending h w"
  using assms unfolding receives_def by blast

lemma receives_bytes:
  assumes "receives env pending" "buffer_ok b" "nb_position b = 0" "int (length bs) \<le> nb_capacity b" "pending (sk_handle socket) w = bs @ rest" "n = int (length bs)"
  obtains b' w' where "embb_mtapi_network_socket_recvbuffer_sized (ne_os env) socket b n w = Some (n, b', w')" "buffer_ok b'"
    "buffer_contents b' = bs" "pending (sk_handle socket) w' = rest" "nb_capacity b' = nb_capacity b"
proof -
  have "recvs_stream (ne_os env) pending" "recvs_up (ne_os env) pending"
    using assms(1) by (simp_all add: receives_def)
  from recvbuffer_contents[OF assms(2,3) this, of "length bs" socket w bs rest] assms(4-6) show ?thesis
    using that by metis
qed

lemma pop_start_header_front:
  assumes "buffer_ok b" "buffer_contents b = concat [bytes_le 4 v1, bytes_le 4 v2, bytes_le 4 v3, bytes_le 4 v4, bytes_le 4 v5, bytes_le 4 v6, bytes_le 4 v7]"
  obtains b' where "pop_start_header b = Some ((Some v1, Some v2, v3, Some v4, Some v5, Some v6, Some v7), b')" "buffer_ok b'" "nb_capacity b' = nb_capacity b"
proof -
  have "buffer_contents b = bytes_le 4 v1 @ bytes_le 4 v2 @ bytes_le 4 v3 @ bytes_le 4 v4 @ bytes_le 4 v5 @ bytes_le 4 v6 @ bytes_le 4 v7 @ []"
    using assms(2) by simp
  from pop_front_int32_front[OF assms(1) this] obtain b1 where b1: "embb_mtapi_network_buffer_pop_front_int32 b = Some (4, Some v1, b1)" "buffer_ok b1"
      "buffer_contents b1 = bytes_le 4 v2 @ bytes_le 4 v3 @ bytes_le 4 v4 @ bytes_le 4 v5 @ bytes_le 4 v6 @ bytes_le 4 v7 @ []" "nb_capacity b1 = nb_capacity b" .
  from pop_front_int32_front[OF b1(2,3)] obtain b2 where b2: "embb_mtapi_network_buffer_pop_front_int32 b1 = Some (4, Some v2, b2)" "buffer_ok b2"
      "buffer_contents b2 = bytes_le 4 v3 @ bytes_le 4 v4 @ bytes_le 4 v5 @ bytes_le 4 v6 @ bytes_le 4 v7 @ []" "nb_capacity b2 = nb_capacity b1" .
  from pop_front_int32_front[OF b2(2,3)] obtain b3 where b3: "embb_mtapi_network_buffer_pop_front_int32 b2 = Some (4, Some v3, b3)" "buffer_ok b3"
      "buffer_contents b3 = bytes_le 4 v4 @ bytes_le 4 v5 @ bytes_le 4 v6 @ bytes_le 4 v7 @ []" "nb_capacity b3 = nb_capacity b2" .
  from pop_front_int32_front[OF b3(2,3)] obtain b4 where b4: "embb_mtapi_network_buffer_pop_front_int32 b3 = Some (4, Some v4, b4)" "buffer_ok b4"
      "buffer_contents b4 = bytes_le 4 v5 @ bytes_le 4 v6 @ bytes_le 4 v7 @ []" "nb_capacity b4 = nb_capacity b3" .
  from pop_front_int32_front[OF b4(2,3)] obtain b5 where b5: "embb_mtapi_network_buffer_pop_front_int32 b4 = Some (4, Some v5, b5)" "buffer_ok b5"
      "buffer_contents b5 = bytes_le 4 v6 @ bytes_le 4 v7 @ []" "nb_capacity b5 = nb_capacity b4" .
  from pop_front_int32_front[OF b5(2,3)] obtain b6 where b6: "embb_mtapi_network_buffer_pop_front_int32 b5 = Some (4, Some v6, b6)" "buffer_ok b6"
      "buffer_contents b6 = bytes_le 4 v7 @ []" "nb_capacity b6 = nb_capacity b5" .
  from pop_front_int32_front[OF b6(2,3)] obtain b7 where b7: "embb_mtapi_network_buffer_pop_front_int32 b6 = Some (4, Some v7, b7)" "buffer_ok b7"
      "nb_capacity b7 = nb_capacity b6" .
  show ?thesis
    using b1 b2 b3 b4 b5 b6 b7 by (intro that[of b7]) (simp_all add: pop_start_header_def)
qed

text \<open>The first byte of a message.\<close>

lemma network_message_operation:
  assumes "receives env pending" "buffer_ok buffer" "1 \<le> nb_capacity buffer" "pending (sk_handle socket) (ns_world st) = bytes_le 1 oper @ rest"
  obtains b w where "network_message env socket buffer st =
      (if oper = EMBB_MTAPI_NETWORK_START_TASK then network_start_task env socket b (st\<lparr>ns_world := w\<rparr>)
       else if oper = EMBB_MTAPI_NETWORK_RETURN_RESULT then network_return_result env socket b (st\<lparr>ns_world := w\<rparr>)
       else Some (b, st\<lparr>ns_world := w\<rparr>))"
    "buffer_ok b" "nb_position b = 0" "nb_capacity b = nb_capacity buffer" "pending (sk_handle socket) w = rest"
proof -
  note c = buffer_clear[OF assms(2)]
  obtain b1 w where b1: "embb_mtapi_network_socket_recvbuffer_sized (ne_os env) socket (embb_mtapi_network_buffer_clear buffer) 1 (ns_world st) = Some (1, b1, w)"
      "buffer_ok b1" "buffer_contents b1 = bytes_le 1 oper" "pending (sk_handle socket) w = rest" "nb_capacity b1 = nb_capacity (embb_mtapi_network_buffer_clear buffer)"
    by (rule receives_bytes[OF assms(1) c(1,5) _ assms(4), of 1]) (use assms(3) c(4) in simp_all)
  obtain b2 where b2: "embb_mtapi_network_buffer_pop_front_int8 b1 = Some (1, Some oper, b2)" "buffer_ok b2" "nb_capacity b2 = nb_capacity b1"
    by (rule pop_front_int8_front[OF b1(2), of oper "[]"]) (use b1(3) in simp)
  show ?thesis
    by (rule that[of "embb_mtapi_network_buffer_clear b2" w])
      (use b1 b2 c(4) buffer_clear[OF b2(2)] in \<open>simp_all add: network_message_def\<close>)
qed

lemma network_start_task_receives:
  assumes env: "receives env pending" and buf: "buffer_ok buffer" "nb_position buffer = 0" "28 \<le> nb_capacity buffer" "int (unat (tk_arguments_size x)) \<le> nb_capacity buffer"
    and msg: "pending (sk_handle socket) (ns_world st) = concat (tl (start_fields na x m)) @ rest"
  shows "\<exists>p a r b w. pending (sk_handle socket) w = rest \<and>
     network_start_task env socket buffer st =
       (let s = (ns_mtapi st)\<lparr>st_memory := mem_write (st_memory (ns_mtapi st)) a (mem_read m (tk_arguments x) (unat (tk_arguments_size x)))\<rparr> in
        do { attr \<leftarrow> network_task_attributes env p (ta_priority (tk_attributes x)) s;
             (_, job) \<leftarrow> mtapi_job_get (nw_job_id na) (nw_domain_id na) s;
             (_, _, s) \<leftarrow> mtapi_task_start (ne_mtapi env) 0 job a (tk_arguments_size x) r (tk_result_size x) attr MTAPI_HNDL_NONE s;
             Some (b, st\<lparr>ns_mtapi := s, ns_world := w,
                ns_tasks := (ns_tasks st)(p \<mapsto> \<lparr>nt_socket = socket, nt_remote_task_id = hndl_id (handle x), nt_remote_task_tag = hndl_tag (handle x)\<rparr>)\<rparr>) })"
proof -
  let ?args = "mem_read m (tk_arguments x) (unat (tk_arguments_size x))"
  let ?hdr = "concat [bytes_le 4 (nw_domain_id na), bytes_le 4 (nw_job_id na), bytes_le 4 (ta_priority (tk_attributes x)),
      bytes_le 4 (hndl_id (handle x)), bytes_le 4 (hndl_tag (handle x)), bytes_le 4 (tk_result_size x), bytes_le 4 (tk_arguments_size x)]"
  obtain p w1 where p: "ne_alloc env 12 (ns_world st) = (Some p, w1)" "\<And>h. pending h w1 = pending h (ns_world st)"
    using receives_alloc[OF env] by metis
  have pend: "pending (sk_handle socket) w1 = ?hdr @ ?args @ rest"
    using msg p(2) by (simp add: start_fields_def)
  obtain b1 w2 where b1: "embb_mtapi_network_socket_recvbuffer_sized (ne_os env) socket buffer 28 w1 = Some (28, b1, w2)" "buffer_ok b1"
      "buffer_contents b1 = ?hdr" "pending (sk_handle socket) w2 = ?args @ rest" "nb_capacity b1 = nb_capacity buffer"
    by (rule receives_bytes[OF env buf(1,2) _ pend, of 28]) (use buf(3) in simp_all)
  obtain b2 where b2: "pop_start_header b1 = Some ((Some (nw_domain_id na), Some (nw_job_id na), ta_priority (tk_attributes x), Some (hndl_id (handle x)),
        Some (hndl_tag (handle x)), Some (tk_result_size x), Some (tk_arguments_size x)), b2)" "buffer_ok b2" "nb_capacity b2 = nb_capacity b1"
    by (rule pop_start_header_front[OF b1(2,3)])
  obtain r w3 where r: "ne_alloc env (scast (tk_result_size x)) w2 = (Some r, w3)" "\<And>h. pending h w3 = pending h w2"
    using receives_alloc[OF env] by metis
  obtain a w4 where a: "ne_alloc env (scast (tk_arguments_size x)) w3 = (Some a, w4)" "\<And>h. pending h w4 = pending h w3"
    using receives_alloc[OF env] by metis
  have size: "c_int (tk_arguments_size x) = int (length ?args)"
    using buffer_size_bound[OF buf(1), of 0] buf(4) by (simp add: c_int_unat)
  note c = buffer_clear[OF b2(2)]
  have pend4: "pending (sk_handle socket) w4 = ?args @ rest"
    using b1(4) a(2) r(2) by simp
  obtain b3 w5 where b3: "embb_mtapi_network_socket_recvbuffer_sized (ne_os env) socket (embb_mtapi_network_buffer_clear b2) (int (length ?args)) w4 = Some (int (length ?args), b3, w5)"
      "buffer_ok b3" "buffer_contents b3 = ?args" "pending (sk_handle socket) w5 = rest"
    by (rule receives_bytes[OF env c(1,5) _ pend4 refl]) (use buf(4) b1(5) b2(3) c(4) in simp_all)
  obtain b4 where b4: "embb_mtapi_network_buffer_pop_front_rawdata b3 (int (length ?args)) = Some (int (length ?args), Some ?args, b4)"
    by (rule pop_front_raw_front[OF b3(2), of ?args "[]"]) (use b3(3) in simp_all)
  show ?thesis
    by (rule exI[of _ p], rule exI[of _ a], rule exI[of _ r], rule exI[of _ "embb_mtapi_network_buffer_clear b4"], rule exI[of _ w5])
      (simp add: b3(4) network_start_task_def p(1) b1(1) b2(1) r(1) a(1) size[simplified] b3(1)[simplified] b4[simplified] copy_to_block_def Let_def)
qed

text \<open>The attributes of the task that stands for the remote one are the default ones, up to four of them.\<close>

lemma network_task_attributes_set:
  assumes "ne_local env \<noteq> 0"
  shows "network_task_attributes env p prio s =
     do { (_, attr) \<leftarrow> mtapi_taskattr_init (node_attr s) (Some (ne_garbage env));
          Some (map_option (\<lambda>a. a\<lparr>ta_is_detached := 1, ta_priority := prio, ta_user_data := p, ta_complete_func := ne_task_complete_function env\<rparr>) attr) }"
proof -
  have byte: "word_le (mem_read (mem_write m q (bytes_le (Suc 0) (v :: u8))) q (Suc 0)) = v" for m q v
    using mem_read_write[of "bytes_le 1 v" m q] by (simp add: word_le_bytes_le)
  have word: "word_le (mem_read (mem_write m q (bytes_le 4 (v :: u32))) q 4) = v" for m q v
    using mem_read_write[of "bytes_le 4 v" m q] by (simp add: word_le_bytes_le)
  have sets: "mtapi_taskattr_set m None k q z = (MTAPI_ERR_PARAMETER, None)"
    "mtapi_taskattr_set m (Some a) 4 q 0 = (MTAPI_SUCCESS, Some (a\<lparr>ta_user_data := q\<rparr>))"
    "mtapi_taskattr_set m (Some a) 5 q 0 = (MTAPI_SUCCESS, Some (a\<lparr>ta_complete_func := q\<rparr>))"
    "q \<noteq> 0 \<Longrightarrow> mtapi_taskattr_set (mem_write m q (bytes_le (Suc 0) (v :: u8))) (Some a) 0 q 1 = (MTAPI_SUCCESS, Some (a\<lparr>ta_is_detached := v\<rparr>))"
    "q \<noteq> 0 \<Longrightarrow> mtapi_taskattr_set (mem_write m q (bytes_le 4 (prio :: u32))) (Some a) 2 q 4 = (MTAPI_SUCCESS, Some (a\<lparr>ta_priority := prio\<rparr>))"
    for m k q z a v prio
    by (simp_all add: mtapi_taskattr_set_def attr_set_field_def embb_mtapi_attr_set_def size_of_def byte word)
  have "(let m = st_memory s;
            (_, attr) = mtapi_taskattr_set m attr MTAPI_TASK_USER_DATA p 0;
            (_, attr) = mtapi_taskattr_set (mem_write m (ne_local env) (bytes_le 1 (MTAPI_TRUE :: u8))) attr MTAPI_TASK_DETACHED (ne_local env) 1;
            (_, attr) = mtapi_taskattr_set (mem_write m (ne_local env) (bytes_le 4 prio)) attr MTAPI_TASK_PRIORITY (ne_local env) 4;
            (_, attr) = mtapi_taskattr_set m attr MTAPI_TASK_COMPLETE_FUNCTION (ne_task_complete_function env) 0
        in Some attr) =
      Some (map_option (\<lambda>a. a\<lparr>ta_is_detached := 1, ta_priority := prio, ta_user_data := p, ta_complete_func := ne_task_complete_function env\<rparr>) attr)" for attr
    using assms by (cases attr) (simp_all add: sets)
  then show ?thesis
    unfolding network_task_attributes_def by (simp only: split_def)
qed

section \<open>Completing a task\<close>

lemma network_task_complete_sends:
  assumes tp: "task_pool (ns_mtapi st) = Some tp" "embb_mtapi_pool_is_handle_valid tp task = Some True" "pl_storage tp ! unat (hndl_id task) = x"
    and ap: "action_pool (ns_mtapi st) = Some ap" "embb_mtapi_pool_is_handle_valid ap (tk_action x) = Some True"
    and nt: "ns_tasks st (ta_user_data (tk_attributes x)) = Some nt"
    and buf: "buffer_ok (np_send_buffer (ns_plugin st))" "17 + int (unat (tk_result_size x)) \<le> nb_capacity (np_send_buffer (ns_plugin st))"
    and os: "sends_stream (ne_os env) sent" "sends_up (ne_os env)" "\<And>h p w. sent h (ne_free env p w) = sent h w"
  shows "\<exists>st'. embb_mtapi_network_task_complete env task st = Some (MTAPI_SUCCESS, st') \<and> ns_mtapi st' = ns_mtapi st \<and>
     sent (sk_handle (nt_socket nt)) (ns_world st') = sent (sk_handle (nt_socket nt)) (ns_world st) @ concat (result_fields nt x (st_memory (ns_mtapi st)))"
proof -
  note c = buffer_clear[OF buf(1)]
  have size: "unat (tk_result_size x) < 2 ^ 31"
    using buffer_size_bound[OF buf] by simp
  have len: "int (length (concat (result_fields nt x (st_memory (ns_mtapi st))))) \<le> nb_capacity (embb_mtapi_network_buffer_clear (np_send_buffer (ns_plugin st)))"
    using buf(2) c(4) by (simp add: result_fields_def)
  obtain b' r w' where b': "result_message nt x (st_memory (ns_mtapi st)) (np_send_buffer (ns_plugin st)) = Some b'"
      "embb_mtapi_network_socket_sendbuffer (ne_os env) (nt_socket nt) b' (ns_world st) = Some (r, w')"
      "sent (sk_handle (nt_socket nt)) w' = sent (sk_handle (nt_socket nt)) (ns_world st) @ concat (result_fields nt x (st_memory (ns_mtapi st)))"
    unfolding result_message_fields[OF size] using send_fields[OF c(1,5,6) len os(1,2)] by blast
  obtain node where node: "st_node (ns_mtapi st) = Some node"
    using task_pool_node[OF tp(1)] by blast
  have "get_task (ns_mtapi st) (hndl_id task) = Some x"
    using tp(3) by (simp add: upd_task_Some(3)[OF tp(1) pool_valid_in_bounds[OF tp(2)]])
  then show ?thesis
    using tp(1,2) ap nt node b' os(3) by (simp add: embb_mtapi_network_task_complete_def embb_mtapi_pool_get_storage_for_handle_def)
qed

lemma network_complete_task_writes:
  assumes tp: "task_pool s = Some tp" "embb_mtapi_pool_is_handle_valid tp task = Some True" "pl_storage tp ! unat (hndl_id task) = x"
    and ap: "action_pool s = Some ap" "embb_mtapi_pool_is_handle_valid ap (tk_action x) = Some True"
    and buf: "buffer_ok b" "buffer_contents b = bs" "n = of_nat (length bs)" "length bs < 2 ^ 31" "tk_result_buffer x \<noteq> 0"
  shows "\<exists>b' s2 s3.
     upd_task (hndl_id task) (\<lambda>y. y\<lparr>tk_error_code := err, tk_state := MTAPI_TASK_COMPLETED\<rparr>)
       (s\<lparr>st_memory := mem_write (st_memory s) (tk_result_buffer x) bs\<rparr>) = Some s2 \<and>
     upd_action (hndl_id (tk_action x)) (\<lambda>b. b\<lparr>ac_num_tasks := ac_num_tasks b - 1\<rparr>) s2 = Some s3 \<and>
     network_complete_task task (status_code err) n b s = do { s \<leftarrow> task_notify_group (hndl_id task) s3; Some (b', s) }"
proof -
  let ?s = "s\<lparr>st_memory := mem_write (st_memory s) (tk_result_buffer x) bs\<rparr>"
  note in_range = pool_valid_in_bounds[OF tp(2)] pool_valid_in_bounds[OF ap(2)]
  have pools: "task_pool ?s = Some tp" "action_pool ?s = Some ap"
    using tp(1) ap(1) by (simp_all add: task_pool_def action_pool_def)
  obtain s2 where s2: "upd_task (hndl_id task) (\<lambda>y. y\<lparr>tk_error_code := err, tk_state := MTAPI_TASK_COMPLETED\<rparr>) ?s = Some s2" "action_pool s2 = Some ap"
    using upd_task_Some(1)[OF pools(1) in_range(1)] pools(2) by (simp add: state_simps)
  obtain s3 where s3: "upd_action (hndl_id (tk_action x)) (\<lambda>b. b\<lparr>ac_num_tasks := ac_num_tasks b - 1\<rparr>) s2 = Some s3"
    using upd_action_Some(1)[OF s2(2) in_range(2)] by simp
  have n: "c_int n = int (length bs)"
    using buf(3,4) by (simp add: c_int_unat unat_of_nat_u32)
  obtain b' where b': "embb_mtapi_network_buffer_pop_front_rawdata b (int (length bs)) = Some (int (length bs), Some bs, b')"
    by (rule pop_front_raw_front[OF buf(1), of bs "[]"]) (use buf(2) in simp_all)
  have "get_task s (hndl_id task) = Some x"
    using tp(3) by (simp add: upd_task_Some(3)[OF tp(1) in_range(1)])
  then have "network_complete_task task (status_code err) n b s = do { s \<leftarrow> task_notify_group (hndl_id task) s3; Some (b', s) }"
    using tp(1,2) ap b' n buf(5) s2(1) s3
    by (simp add: network_complete_task_def embb_mtapi_pool_get_storage_for_handle_def embb_atomic_fetch_and_add_def copy_to_block_def)
  then show ?thesis
    using s2(1) s3 by blast
qed

lemma network_return_result_receives:
  assumes env: "receives env pending" and node: "st_node (ns_mtapi st) \<noteq> None"
    and buf: "buffer_ok buffer" "16 \<le> nb_capacity buffer" "int (unat (tk_result_size x)) \<le> nb_capacity buffer"
    and msg: "pending (sk_handle socket) (ns_world st) = concat (tl (result_fields nt x m)) @ rest"
  obtains b w where "pending (sk_handle socket) w = rest" "buffer_ok b" "buffer_contents b = mem_read m (tk_result_buffer x) (unat (tk_result_size x))"
    "network_return_result env socket buffer st =
       do { (b, s) \<leftarrow> network_complete_task \<lparr>hndl_tag = nt_remote_task_tag nt, hndl_id = nt_remote_task_id nt\<rparr> (status_code (tk_error_code x))
              (tk_result_size x) b (ns_mtapi st);
            Some (b, st\<lparr>ns_mtapi := s, ns_world := w\<rparr>) }"
proof -
  let ?res = "mem_read m (tk_result_buffer x) (unat (tk_result_size x))"
  let ?hdr = "bytes_le 4 (nt_remote_task_id nt) @ bytes_le 4 (nt_remote_task_tag nt) @ bytes_le 4 (status_code (tk_error_code x)) @ bytes_le 4 (tk_result_size x) @ []"
  note c = buffer_clear[OF buf(1)]
  have pend: "pending (sk_handle socket) (ns_world st) = ?hdr @ ?res @ rest"
    using msg by (simp add: result_fields_def)
  obtain b1 w1 where b1: "embb_mtapi_network_socket_recvbuffer_sized (ne_os env) socket (embb_mtapi_network_buffer_clear buffer) 16 (ns_world st) = Some (16, b1, w1)"
      "buffer_ok b1" "buffer_contents b1 = ?hdr" "pending (sk_handle socket) w1 = ?res @ rest" "nb_capacity b1 = nb_capacity (embb_mtapi_network_buffer_clear buffer)"
    by (rule receives_bytes[OF env c(1,5) _ pend, of 16]) (use buf(2) c(4) in simp_all)
  from pop_front_int32_front[OF b1(2,3)] obtain b2 where b2: "embb_mtapi_network_buffer_pop_front_int32 b1 = Some (4, Some (nt_remote_task_id nt), b2)" "buffer_ok b2"
      "buffer_contents b2 = bytes_le 4 (nt_remote_task_tag nt) @ bytes_le 4 (status_code (tk_error_code x)) @ bytes_le 4 (tk_result_size x) @ []" "nb_capacity b2 = nb_capacity b1" .
  from pop_front_int32_front[OF b2(2,3)] obtain b3 where b3: "embb_mtapi_network_buffer_pop_front_int32 b2 = Some (4, Some (nt_remote_task_tag nt), b3)" "buffer_ok b3"
      "buffer_contents b3 = bytes_le 4 (status_code (tk_error_code x)) @ bytes_le 4 (tk_result_size x) @ []" "nb_capacity b3 = nb_capacity b2" .
  from pop_front_int32_front[OF b3(2,3)] obtain b4 where b4: "embb_mtapi_network_buffer_pop_front_int32 b3 = Some (4, Some (status_code (tk_error_code x)), b4)" "buffer_ok b4"
      "buffer_contents b4 = bytes_le 4 (tk_result_size x) @ []" "nb_capacity b4 = nb_capacity b3" .
  from pop_front_int32_front[OF b4(2,3)] obtain b5 where b5: "embb_mtapi_network_buffer_pop_front_int32 b4 = Some (4, Some (tk_result_size x), b5)" "buffer_ok b5"
      "nb_capacity b5 = nb_capacity b4" .
  have size: "c_int (tk_result_size x) = int (length ?res)"
    using buffer_size_bound[OF buf(1), of 0] buf(3) by (simp add: c_int_unat)
  note c5 = buffer_clear[OF b5(2)]
  obtain b6 w2 where b6: "embb_mtapi_network_socket_recvbuffer_sized (ne_os env) socket (embb_mtapi_network_buffer_clear b5) (int (length ?res)) w1 = Some (int (length ?res), b6, w2)"
      "buffer_ok b6" "buffer_contents b6 = ?res" "pending (sk_handle socket) w2 = rest"
    by (rule receives_bytes[OF env c5(1,5) _ b1(4) refl]) (use buf(3) b1(5) b2(4) b3(4) b4(4) b5(3) c(4) c5(4) in simp_all)
  show ?thesis
    by (rule that[OF b6(4,2,3)])
      (simp add: network_return_result_def node b1(1) b2(1) b3(1) b4(1) b5(1) size[simplified] b6(1)[simplified])
qed

text \<open>Both kinds of messages from their first byte on.\<close>

lemma network_message_start:
  assumes env: "receives env pending" and buf: "buffer_ok buffer" "28 \<le> nb_capacity buffer" "int (unat (tk_arguments_size x)) \<le> nb_capacity buffer"
    and pend: "pending (sk_handle socket) (ns_world st) = concat (start_fields na x m) @ rest"
  shows "\<exists>p a r b w. pending (sk_handle socket) w = rest \<and>
     network_message env socket buffer st =
       (let s = (ns_mtapi st)\<lparr>st_memory := mem_write (st_memory (ns_mtapi st)) a (mem_read m (tk_arguments x) (unat (tk_arguments_size x)))\<rparr> in
        do { attr \<leftarrow> network_task_attributes env p (ta_priority (tk_attributes x)) s;
             (_, job) \<leftarrow> mtapi_job_get (nw_job_id na) (nw_domain_id na) s;
             (_, _, s) \<leftarrow> mtapi_task_start (ne_mtapi env) 0 job a (tk_arguments_size x) r (tk_result_size x) attr MTAPI_HNDL_NONE s;
             Some (b, st\<lparr>ns_mtapi := s, ns_world := w,
               ns_tasks := (ns_tasks st)(p \<mapsto> \<lparr>nt_socket = socket, nt_remote_task_id = hndl_id (handle x), nt_remote_task_tag = hndl_tag (handle x)\<rparr>)\<rparr>) })"
proof -
  have first: "pending (sk_handle socket) (ns_world st) = bytes_le 1 EMBB_MTAPI_NETWORK_START_TASK @ concat (tl (start_fields na x m)) @ rest"
    using pend by (simp add: start_fields_def)
  obtain b w where b: "network_message env socket buffer st = network_start_task env socket b (st\<lparr>ns_world := w\<rparr>)"
      "buffer_ok b" "nb_position b = 0" "nb_capacity b = nb_capacity buffer" "pending (sk_handle socket) w = concat (tl (start_fields na x m)) @ rest"
    by (rule network_message_operation[OF env buf(1) _ first]) (use buf(2) in simp_all)
  from network_start_task_receives[OF env b(2,3), of x socket "st\<lparr>ns_world := w\<rparr>" na m rest] show ?thesis
    unfolding b(1) using b(4,5) buf(2,3) by simp
qed

lemma network_message_result:
  assumes env: "receives env pending" and buf: "buffer_ok buffer" "16 \<le> nb_capacity buffer" "int (unat (tk_result_size y)) \<le> nb_capacity buffer"
    and tp: "task_pool (ns_mtapi st) = Some tp" "embb_mtapi_pool_is_handle_valid tp \<lparr>hndl_tag = nt_remote_task_tag nt, hndl_id = nt_remote_task_id nt\<rparr> = Some True"
      "pl_storage tp ! unat (nt_remote_task_id nt) = x" "tk_result_buffer x \<noteq> 0"
    and ap: "action_pool (ns_mtapi st) = Some ap" "embb_mtapi_pool_is_handle_valid ap (tk_action x) = Some True"
    and pend: "pending (sk_handle socket) (ns_world st) = concat (result_fields nt y m) @ rest"
  shows "\<exists>b w s3 s4. pending (sk_handle socket) w = rest \<and>
     upd_task (nt_remote_task_id nt) (\<lambda>z. z\<lparr>tk_error_code := tk_error_code y, tk_state := MTAPI_TASK_COMPLETED\<rparr>)
       ((ns_mtapi st)\<lparr>st_memory := mem_write (st_memory (ns_mtapi st)) (tk_result_buffer x) (mem_read m (tk_result_buffer y) (unat (tk_result_size y)))\<rparr>) = Some s3 \<and>
     upd_action (hndl_id (tk_action x)) (\<lambda>b. b\<lparr>ac_num_tasks := ac_num_tasks b - 1\<rparr>) s3 = Some s4 \<and>
     network_message env socket buffer st =
       do { s \<leftarrow> task_notify_group (nt_remote_task_id nt) s4; Some (b, st\<lparr>ns_mtapi := s, ns_world := w\<rparr>) }"
proof -
  let ?res = "mem_read m (tk_result_buffer y) (unat (tk_result_size y))" and ?h = "\<lparr>hndl_tag = nt_remote_task_tag nt, hndl_id = nt_remote_task_id nt\<rparr>"
  have first: "pending (sk_handle socket) (ns_world st) = bytes_le 1 EMBB_MTAPI_NETWORK_RETURN_RESULT @ concat (tl (result_fields nt y m)) @ rest"
    using pend by (simp add: result_fields_def)
  obtain b w where b: "network_message env socket buffer st = network_return_result env socket b (st\<lparr>ns_world := w\<rparr>)"
      "buffer_ok b" "nb_capacity b = nb_capacity buffer" "pending (sk_handle socket) w = concat (tl (result_fields nt y m)) @ rest"
    by (rule network_message_operation[OF env buf(1) _ first])
      (use buf(2) in \<open>simp_all add: EMBB_MTAPI_NETWORK_START_TASK_def EMBB_MTAPI_NETWORK_RETURN_RESULT_def\<close>)
  obtain b2 w2 where b2: "pending (sk_handle socket) w2 = rest" "buffer_ok b2" "buffer_contents b2 = ?res"
      "network_return_result env socket b (st\<lparr>ns_world := w\<rparr>) =
         do { (b, s) \<leftarrow> network_complete_task ?h (status_code (tk_error_code y)) (tk_result_size y) b2 (ns_mtapi st);
              Some (b, st\<lparr>ns_mtapi := s, ns_world := w2\<rparr>) }"
    by (rule network_return_result_receives[OF env _ b(2), of "st\<lparr>ns_world := w\<rparr>" y socket nt m rest])
      (use task_pool_node[OF tp(1)] b(3,4) buf(2,3) in simp_all)
  have "length ?res < 2 ^ 31"
    using buffer_size_bound[OF buf(1), of 0] buf(3) by simp
  from network_complete_task_writes[OF tp(1,2) _ ap b2(2,3) _ this tp(4), of "tk_result_size y" "tk_error_code y"]
  show ?thesis
    using tp(3) b(1) b2(1,4) by auto blast
qed

section \<open>A connection\<close>

text \<open>
  A connection for examples: the first component of the outside are the bytes that were sent, the second those that will arrive. At most five bytes are
  taken or delivered at once.
\<close>

definition pipe_os :: "(u8 list \<times> u8 list) socket_os" where
  "pipe_os = \<lparr>os_socket = (\<lambda>w. (3, w)), os_close = (\<lambda>_ w. w), os_reuseaddr = (\<lambda>_ w. (0, w)), os_inet_addr = (\<lambda>_. 0), os_bind = (\<lambda>_ _ w. (0, w)),
     os_listen = (\<lambda>_ _ w. (0, w)), os_accept = (\<lambda>_ w. (4, w)), os_connect = (\<lambda>_ _ w. (0, False, w)), os_select = (\<lambda>_ hs _ w. (int (length hs), hs, w)),
     os_send = (\<lambda>_ bs w. (int (min 5 (length bs)), fst w @ take 5 bs, snd w)),
     os_recv = (\<lambda>_ n w. (Some (take (min n 5) (snd w)), fst w, drop (min n 5) (snd w)))\<rparr>"

definition pipe_env :: "(u8 list \<times> u8 list) network_env" where
  "pipe_env = \<lparr>ne_os = pipe_os, ne_mtapi = idle_env, ne_alloc = (\<lambda>n w. (Some (65536 + n), w)), ne_free = (\<lambda>_ w. w), ne_block = (\<lambda>n. Some (replicate (unat n) 0)),
     ne_sockets = (\<lambda>n. Some (replicate n \<lparr>sk_handle = 0\<rparr>)), ne_sizeof_action = 96, ne_local = 32768,
     ne_garbage = \<lparr>ta_is_detached = 0, ta_num_instances = 0, ta_priority = 0, ta_affinity = 0, ta_user_data = 0, ta_complete_func = 0\<rparr>,
     ne_task_start_function = 1, ne_task_cancel_function = 2, ne_action_finalize_function = 3, ne_task_complete_function = 4, ne_others = Some,
     ne_thread_create = (\<lambda>w. (EMBB_SUCCESS, w))\<rparr>"

lemma pipe_sends: "sends_stream pipe_os (\<lambda>_. fst)" "sends_up pipe_os"
  by (auto simp: sends_stream_def sends_up_def pipe_os_def min_def)

lemma pipe_receives: "receives pipe_env (\<lambda>_. snd)"
  by (auto simp: receives_def recvs_stream_def recvs_up_def pipe_env_def pipe_os_def)

text \<open>A buffer of 64 bytes, and a node with a connected plugin whose task has two bytes of arguments and stands for itself at the other end.\<close>

definition example_buffer :: embb_mtapi_network_buffer where
  "example_buffer = \<lparr>nb_position = 0, nb_size = 0, nb_capacity = 64, nb_data = Some (replicate 64 0)\<rparr>"

definition example_network_action :: embb_mtapi_network_action where
  "example_network_action = \<lparr>nw_domain_id = 1, nw_job_id = 1, nw_host = ''localhost'', nw_port = 12345, nw_socket = \<lparr>sk_handle = 3\<rparr>, nw_send_buffer = example_buffer\<rparr>"

definition example_network_task :: embb_mtapi_network_task where
  "example_network_task = \<lparr>nt_socket = \<lparr>sk_handle = 3\<rparr>, nt_remote_task_id = 1, nt_remote_task_tag = 0\<rparr>"

definition example_remote_task :: "mtapi_hndl \<Rightarrow> embb_mtapi_task" where
  "example_remote_task h = (example_task h)\<lparr>tk_arguments := 4096, tk_arguments_size := 2\<rparr>"

definition example_network_state :: "u8 list \<Rightarrow> (u8 list \<times> u8 list) network_state" where
  "example_network_state arriving = \<lparr>ns_mtapi = example_state\<lparr>st_node := Some (example_node\<lparr>nd_task_pool := Some (pool_of_2 example_remote_task)\<rparr>)\<rparr>,
     ns_plugin = \<lparr>np_sockets = Some [\<lparr>sk_handle = 2\<rparr>, \<lparr>sk_handle = 3\<rparr>], np_socket_count = 2, np_run = 1, np_buffer_size = 64, np_send_buffer = example_buffer\<rparr>,
     ns_actions = [0 \<mapsto> example_network_action], ns_tasks = [0 \<mapsto> example_network_task], ns_world = ([], arriving)\<rparr>"

lemma example_buffer_ok: "buffer_ok example_buffer" "nb_position example_buffer = 0" "nb_size example_buffer = 0" "nb_capacity example_buffer = 64"
  by (simp_all add: buffer_ok_def example_buffer_def)

lemma example_network_pools:
  "task_pool (ns_mtapi (example_network_state bs)) = Some (pool_of_2 example_remote_task)"
  "action_pool (ns_mtapi (example_network_state bs)) = Some (pool_of_1 example_action)"
  "ns_world (example_network_state bs) = ([], bs)" "ns_tasks (example_network_state bs) 0 = Some example_network_task"
  "np_send_buffer (ns_plugin (example_network_state bs)) = example_buffer" "ns_actions (example_network_state bs) 0 = Some example_network_action"
  by (simp_all add: example_network_state_def task_pool_def action_pool_def example_state_def example_node_def)

lemma example_network_valid:
  "embb_mtapi_pool_is_handle_valid (pool_of_2 example_remote_task) \<lparr>hndl_tag = 0, hndl_id = 1\<rparr> = Some True"
  "embb_mtapi_pool_is_handle_valid (pool_of_1 example_action) (tk_action (example_remote_task h)) = Some True"
  "pl_storage (pool_of_2 example_remote_task) ! 1 = example_remote_task \<lparr>hndl_tag = 0, hndl_id = 1\<rparr>"
  "pl_storage (pool_of_1 example_action) ! 1 = example_action \<lparr>hndl_tag = 0, hndl_id = 1\<rparr>"
  by (simp_all add: embb_mtapi_pool_is_handle_valid_def arr_get_def pool_of_1_def pool_of_2_def example_remote_task_def example_task_def example_action_def)

section \<open>Properties\<close>

text \<open>
  C20. A task of a network action reaches the other node. Starting it succeeds and sends a message; whenever this message is what the other node receives next, the thread of
  its plugin does what a local start of a task does there: with the job of the network action, a copy of the arguments, the priority of the task, room for
  a result of the same size, and with the handle of the task kept for the answer. However the bytes are split on their way, nothing of what follows the message is consumed.
\<close>

theorem network_task_start_delivered:
  assumes task: "network_task_of st1 task x act na"
    and buf1: "buffer_ok (nw_send_buffer na)" "nb_position (nw_send_buffer na) = 0" "nb_size (nw_send_buffer na) = 0"
      "29 + int (unat (tk_arguments_size x)) \<le> nb_capacity (nw_send_buffer na)"
    and env1: "sends_stream (ne_os env1) sent" "sends_up (ne_os env1)"
    and buf2: "buffer_ok buffer" "28 \<le> nb_capacity buffer" "int (unat (tk_arguments_size x)) \<le> nb_capacity buffer"
    and env2: "receives env2 pending" "ne_local env2 \<noteq> 0"
  shows "\<exists>st1' msg. network_task_start env1 task st1 = Some (MTAPI_SUCCESS, st1') \<and>
     sent (sk_handle (nw_socket na)) (ns_world st1') = sent (sk_handle (nw_socket na)) (ns_world st1) @ msg \<and>
     (\<forall>st2 rest. pending (sk_handle socket) (ns_world st2) = msg @ rest \<longrightarrow>
       (\<exists>p a r b w. pending (sk_handle socket) w = rest \<and>
          network_message env2 socket buffer st2 =
            (let s = (ns_mtapi st2)\<lparr>st_memory := mem_write (st_memory (ns_mtapi st2)) a
                        (mem_read (st_memory (ns_mtapi st1)) (tk_arguments x) (unat (tk_arguments_size x)))\<rparr> in
             do { (_, attr) \<leftarrow> mtapi_taskattr_init (node_attr s) (Some (ne_garbage env2));
                  (_, job) \<leftarrow> mtapi_job_get (nw_job_id na) (nw_domain_id na) s;
                  (_, _, s) \<leftarrow> mtapi_task_start (ne_mtapi env2) 0 job a (tk_arguments_size x) r (tk_result_size x)
                     (map_option (\<lambda>at. at\<lparr>ta_is_detached := 1, ta_priority := ta_priority (tk_attributes x), ta_user_data := p,
                        ta_complete_func := ne_task_complete_function env2\<rparr>) attr) MTAPI_HNDL_NONE s;
                  Some (b, st2\<lparr>ns_mtapi := s, ns_world := w,
                    ns_tasks := (ns_tasks st2)(p \<mapsto> \<lparr>nt_socket = socket, nt_remote_task_id = hndl_id (handle x), nt_remote_task_tag = hndl_tag (handle x)\<rparr>)\<rparr>) })))"
proof -
  let ?m = "st_memory (ns_mtapi st1)"
  let ?fields = "start_fields na x ?m"
  obtain st1' where st1': "network_task_start env1 task st1 = Some (MTAPI_SUCCESS, st1')"
      "sent (sk_handle (nw_socket na)) (ns_world st1') = sent (sk_handle (nw_socket na)) (ns_world st1) @ concat ?fields"
    using network_task_start_sends[OF task buf1 env1] by blast
  then show ?thesis
    using network_message_start[OF env2(1) buf2, unfolded network_task_attributes_set[OF env2(2)], of socket _ na ?m]
    by (intro exI[of _ st1'] exI[of _ "concat ?fields"]) (simp add: Let_def bind_assoc split_def)
qed

theorem network_task_start_delivered_witness:
  "\<exists>st1' msg p a r b w. network_task_start pipe_env \<lparr>hndl_tag = 0, hndl_id = 1\<rparr> (example_network_state []) = Some (MTAPI_SUCCESS, st1') \<and>
     fst (ns_world st1') = msg \<and> snd w = [7] \<and>
     network_message pipe_env \<lparr>sk_handle = 3\<rparr> example_buffer (example_network_state (msg @ [7])) =
       (let s = (ns_mtapi (example_network_state (msg @ [7])))\<lparr>st_memory := mem_write (\<lambda>_. 0) a [0, 0]\<rparr> in
        do { (_, attr) \<leftarrow> mtapi_taskattr_init (node_attr s) (Some (ne_garbage pipe_env));
             (_, job) \<leftarrow> mtapi_job_get 1 1 s;
             (_, _, s) \<leftarrow> mtapi_task_start idle_env 0 job a 2 r 4
                (map_option (\<lambda>at. at\<lparr>ta_is_detached := 1, ta_priority := 1, ta_user_data := p, ta_complete_func := 4\<rparr>) attr) MTAPI_HNDL_NONE s;
             Some (b, (example_network_state (msg @ [7]))\<lparr>ns_mtapi := s, ns_world := w,
               ns_tasks := [0 \<mapsto> example_network_task, p \<mapsto> \<lparr>nt_socket = \<lparr>sk_handle = 3\<rparr>, nt_remote_task_id = 1, nt_remote_task_tag = 0\<rparr>]\<rparr>) })"
proof -
  let ?x = "example_remote_task \<lparr>hndl_tag = 0, hndl_id = 1\<rparr>" and ?a = "example_action \<lparr>hndl_tag = 0, hndl_id = 1\<rparr>"
  have task: "network_task_of (example_network_state []) \<lparr>hndl_tag = 0, hndl_id = 1\<rparr> ?x ?a example_network_action"
    using example_network_valid by (auto simp: network_task_of_def example_network_pools example_remote_task_def example_task_def example_action_def)
  have size: "29 + int (unat (tk_arguments_size ?x)) \<le> nb_capacity (nw_send_buffer example_network_action)" "int (unat (tk_arguments_size ?x)) \<le> nb_capacity example_buffer"
    "28 \<le> nb_capacity example_buffer"
    by (simp_all add: example_remote_task_def example_network_action_def example_buffer_def)
  have buf: "buffer_ok (nw_send_buffer example_network_action)" "nb_position (nw_send_buffer example_network_action) = 0" "nb_size (nw_send_buffer example_network_action) = 0"
    using example_buffer_ok by (simp_all add: example_network_action_def)
  have env: "sends_stream (ne_os pipe_env) (\<lambda>_. fst)" "sends_up (ne_os pipe_env)" "ne_local pipe_env \<noteq> 0"
    using pipe_sends by (simp_all add: pipe_env_def)
  have vals: "mem_read (\<lambda>_. 0) 4096 2 = [0, 0]" "st_memory (ns_mtapi (example_network_state bs)) = (\<lambda>_. 0)" "ns_tasks (example_network_state bs) = [0 \<mapsto> example_network_task]"
    "sk_handle (nw_socket example_network_action) = 3" for bs
    by (simp_all add: mem_read_def upt_rec example_network_state_def example_state_def example_network_action_def)
  show ?thesis
    using network_task_start_delivered[OF task buf size(1) env(1,2) example_buffer_ok(1) size(3,2) pipe_receives env(3), of "\<lparr>sk_handle = 3\<rparr>"]
  proof (elim exE conjE, goal_cases)
    case (1 st1' msg)
    from 1(1,2) 1(3)[rule_format, of "example_network_state (msg @ [7])" "[7]"] show ?case
      by (intro exI[of _ st1'] exI[of _ msg])
        (simp add: vals example_network_pools example_remote_task_def example_task_def example_network_action_def pipe_env_def cong: if_cong)
  qed
qed

text \<open>
  C21. The result of a remote task completes the task at the node that has started it. When the remote task is done its callback succeeds and sends a message; whenever this message is what
  the first node receives next, the thread of its plugin writes the bytes of the remote result to the result buffer of the task named by the kept handle, sets the status of the remote task and the state
  \<^verbatim>\<open>MTAPI_TASK_COMPLETED\<close>, takes the task off the account of its action, and hands it to its group, as the completion of a local task does.
\<close>

theorem network_result_delivered:
  assumes tp2: "task_pool (ns_mtapi st2) = Some tp2" "embb_mtapi_pool_is_handle_valid tp2 task2 = Some True" "pl_storage tp2 ! unat (hndl_id task2) = x2"
    and ap2: "action_pool (ns_mtapi st2) = Some ap2" "embb_mtapi_pool_is_handle_valid ap2 (tk_action x2) = Some True"
    and nt: "ns_tasks st2 (ta_user_data (tk_attributes x2)) = Some nt"
    and buf2: "buffer_ok (np_send_buffer (ns_plugin st2))" "17 + int (unat (tk_result_size x2)) \<le> nb_capacity (np_send_buffer (ns_plugin st2))"
    and env2: "sends_stream (ne_os env2) sent" "sends_up (ne_os env2)" "\<And>h p w. sent h (ne_free env2 p w) = sent h w"
    and tp1: "task_pool (ns_mtapi st1) = Some tp1" "embb_mtapi_pool_is_handle_valid tp1 \<lparr>hndl_tag = nt_remote_task_tag nt, hndl_id = nt_remote_task_id nt\<rparr> = Some True"
      "pl_storage tp1 ! unat (nt_remote_task_id nt) = x1" "tk_result_buffer x1 \<noteq> 0"
    and ap1: "action_pool (ns_mtapi st1) = Some ap1" "embb_mtapi_pool_is_handle_valid ap1 (tk_action x1) = Some True"
    and buf1: "buffer_ok buffer" "16 \<le> nb_capacity buffer" "int (unat (tk_result_size x2)) \<le> nb_capacity buffer"
    and env1: "receives env1 pending"
  shows "\<exists>st2' msg. embb_mtapi_network_task_complete env2 task2 st2 = Some (MTAPI_SUCCESS, st2') \<and>
     sent (sk_handle (nt_socket nt)) (ns_world st2') = sent (sk_handle (nt_socket nt)) (ns_world st2) @ msg \<and>
     (\<forall>w1 rest. pending (sk_handle socket) w1 = msg @ rest \<longrightarrow>
       (\<exists>b w s3 s4. pending (sk_handle socket) w = rest \<and>
          upd_task (nt_remote_task_id nt) (\<lambda>y. y\<lparr>tk_error_code := tk_error_code x2, tk_state := MTAPI_TASK_COMPLETED\<rparr>)
            ((ns_mtapi st1)\<lparr>st_memory := mem_write (st_memory (ns_mtapi st1)) (tk_result_buffer x1)
               (mem_read (st_memory (ns_mtapi st2)) (tk_result_buffer x2) (unat (tk_result_size x2)))\<rparr>) = Some s3 \<and>
          upd_action (hndl_id (tk_action x1)) (\<lambda>b. b\<lparr>ac_num_tasks := ac_num_tasks b - 1\<rparr>) s3 = Some s4 \<and>
          network_message env1 socket buffer (st1\<lparr>ns_world := w1\<rparr>) =
            do { s \<leftarrow> task_notify_group (nt_remote_task_id nt) s4; Some (b, st1\<lparr>ns_mtapi := s, ns_world := w\<rparr>) }))"
proof -
  let ?m = "st_memory (ns_mtapi st2)"
  let ?fields = "result_fields nt x2 ?m"
  obtain st2' where st2': "embb_mtapi_network_task_complete env2 task2 st2 = Some (MTAPI_SUCCESS, st2')"
      "sent (sk_handle (nt_socket nt)) (ns_world st2') = sent (sk_handle (nt_socket nt)) (ns_world st2) @ concat ?fields"
    using network_task_complete_sends[OF tp2 ap2 nt buf2 env2] by blast
  moreover have "task_pool (ns_mtapi (st1\<lparr>ns_world := w1\<rparr>)) = Some tp1" "action_pool (ns_mtapi (st1\<lparr>ns_world := w1\<rparr>)) = Some ap1" for w1
    using tp1(1) ap1(1) by simp_all
  ultimately show ?thesis
    using network_message_result[OF env1 buf1 _ tp1(2-4) _ ap1(2), of "st1\<lparr>ns_world := _\<rparr>"]
    by (intro exI[of _ st2'] exI[of _ "concat ?fields"]) simp
qed

theorem network_result_delivered_witness:
  "\<exists>st2' msg b w s3 s4. embb_mtapi_network_task_complete pipe_env \<lparr>hndl_tag = 0, hndl_id = 1\<rparr> (example_network_state []) = Some (MTAPI_SUCCESS, st2') \<and>
     fst (ns_world st2') = msg \<and> snd w = [7] \<and>
     upd_task 1 (\<lambda>y. y\<lparr>tk_error_code := MTAPI_SUCCESS, tk_state := MTAPI_TASK_COMPLETED\<rparr>)
       ((ns_mtapi (example_network_state []))\<lparr>st_memory := mem_write (\<lambda>_. 0) 4096 [0, 0, 0, 0]\<rparr>) = Some s3 \<and>
     upd_action 1 (\<lambda>b. b\<lparr>ac_num_tasks := ac_num_tasks b - 1\<rparr>) s3 = Some s4 \<and>
     network_message pipe_env \<lparr>sk_handle = 3\<rparr> example_buffer ((example_network_state [])\<lparr>ns_world := ([], msg @ [7])\<rparr>) =
       do { s \<leftarrow> task_notify_group 1 s4; Some (b, (example_network_state [])\<lparr>ns_mtapi := s, ns_world := w\<rparr>) }"
proof -
  let ?x = "example_remote_task \<lparr>hndl_tag = 0, hndl_id = 1\<rparr>" and ?st = "example_network_state []"
  have x: "pl_storage (pool_of_2 example_remote_task) ! unat (hndl_id \<lparr>hndl_tag = 0, hndl_id = 1\<rparr>) = ?x" "tk_result_buffer ?x \<noteq> 0" "ns_tasks ?st (ta_user_data (tk_attributes ?x)) = Some example_network_task"
    using example_network_valid(3) example_network_pools by (simp_all add: example_remote_task_def example_task_def)
  have size: "17 + int (unat (tk_result_size ?x)) \<le> nb_capacity (np_send_buffer (ns_plugin ?st))" "int (unat (tk_result_size ?x)) \<le> nb_capacity example_buffer"
    "16 \<le> nb_capacity example_buffer"
    by (simp_all add: example_network_pools example_remote_task_def example_task_def example_buffer_def)
  have buf: "buffer_ok (np_send_buffer (ns_plugin ?st))"
    using example_buffer_ok by (simp add: example_network_pools)
  have env: "sends_stream (ne_os pipe_env) (\<lambda>_. fst)" "sends_up (ne_os pipe_env)" "\<And>h p w. (\<lambda>_. fst) (h :: int) (ne_free pipe_env p w) = (\<lambda>_. fst) h w"
    using pipe_sends by (simp_all add: pipe_env_def)
  have nt: "embb_mtapi_pool_is_handle_valid (pool_of_2 example_remote_task) \<lparr>hndl_tag = nt_remote_task_tag example_network_task, hndl_id = nt_remote_task_id example_network_task\<rparr> = Some True"
    "pl_storage (pool_of_2 example_remote_task) ! unat (nt_remote_task_id example_network_task) = ?x"
    using example_network_valid by (simp_all add: example_network_task_def)
  have vals: "mem_read (\<lambda>_. 0) 4096 4 = [0, 0, 0, 0]" "st_memory (ns_mtapi ?st) = (\<lambda>_. 0)"
    by (simp_all add: mem_read_def upt_rec example_network_state_def example_state_def)
  show ?thesis
    using network_result_delivered[OF example_network_pools(1) example_network_valid(1) x(1) example_network_pools(2) example_network_valid(2) x(3) buf size(1) env
        example_network_pools(1) nt x(2) example_network_pools(2) example_network_valid(2) example_buffer_ok(1) size(3,2) pipe_receives, of "[]" "\<lparr>sk_handle = 3\<rparr>"]
  proof (elim exE conjE, goal_cases)
    case (1 st2' msg)
    from 1(1,2) 1(3)[rule_format, of "([], msg @ [7])" "[7]"] show ?case
      by (intro exI[of _ st2'] exI[of _ msg]) (simp add: vals example_network_pools example_remote_task_def example_task_def example_network_task_def)
  qed
qed

end
