(* ===== verification/Log.thy ===== *)
theory Log
  imports Prelude
begin

text \<open>
  Logging (\<^verbatim>\<open>base_c/src/log.c\<close>, with the compiler variant for GNU C and \<^verbatim>\<open>EMBB_DEBUG\<close>). The global variables are the record \<open>embb_log\<close>; the log function is a
  function on the outside \<open>'w\<close>. \<open>fmt\<close> is what \<^verbatim>\<open>vsnprintf\<close> makes of a message and its arguments before it cuts the text to the size of the buffer.
\<close>

datatype embb_log_level =
  EMBB_LOG_LEVEL_NONE | EMBB_LOG_LEVEL_ERROR | EMBB_LOG_LEVEL_WARNING | EMBB_LOG_LEVEL_INFO | EMBB_LOG_LEVEL_TRACE

text \<open>Levels are compared as the numbers of the enumeration.\<close>

fun level_number :: "embb_log_level \<Rightarrow> nat" where
  "level_number EMBB_LOG_LEVEL_NONE = 0"
| "level_number EMBB_LOG_LEVEL_ERROR = 1"
| "level_number EMBB_LOG_LEVEL_WARNING = 2"
| "level_number EMBB_LOG_LEVEL_INFO = 3"
| "level_number EMBB_LOG_LEVEL_TRACE = 4"

lemma level_number_inject: "level_number a = level_number b \<longleftrightarrow> a = b"
  by (cases a; cases b) simp_all

instantiation embb_log_level :: linorder
begin

definition less_eq_embb_log_level :: "embb_log_level \<Rightarrow> embb_log_level \<Rightarrow> bool" where
  "a \<le> b \<longleftrightarrow> level_number a \<le> level_number b"

definition less_embb_log_level :: "embb_log_level \<Rightarrow> embb_log_level \<Rightarrow> bool" where
  "a < b \<longleftrightarrow> level_number a < level_number b"

instance
  by standard (auto simp: less_eq_embb_log_level_def less_embb_log_level_def level_number_inject)

end

record 'w embb_log =
  lg_level :: embb_log_level
  lg_context :: "u64 option"
  lg_function :: "u64 \<Rightarrow> string \<Rightarrow> 'w \<Rightarrow> 'w"

text \<open>\<open>fput\<close> appends text to a file.\<close>

definition embb_log_write_file :: "(u64 \<Rightarrow> string \<Rightarrow> 'w \<Rightarrow> 'w) \<Rightarrow> u64 \<Rightarrow> string \<Rightarrow> 'w \<Rightarrow> 'w" where
  "embb_log_write_file fput ff message w = fput ff message w"

definition embb_log_initial :: "(u64 \<Rightarrow> string \<Rightarrow> 'w \<Rightarrow> 'w) \<Rightarrow> 'w embb_log" where
  "embb_log_initial fput = \<lparr>lg_level = EMBB_LOG_LEVEL_NONE, lg_context = None, lg_function = embb_log_write_file fput\<rparr>"

definition embb_log_set_log_level :: "embb_log_level \<Rightarrow> 'w embb_log \<Rightarrow> 'w embb_log" where
  "embb_log_set_log_level log_level g = g\<lparr>lg_level := log_level\<rparr>"

definition embb_log_set_log_function :: "u64 option \<Rightarrow> (u64 \<Rightarrow> string \<Rightarrow> 'w \<Rightarrow> 'w) \<Rightarrow> 'w embb_log \<Rightarrow> 'w embb_log" where
  "embb_log_set_log_function ctx func g = g\<lparr>lg_context := ctx, lg_function := func\<rparr>"

text \<open>A text in a buffer of \<open>n\<close> bytes, with its terminating zero.\<close>

definition cut_to :: "nat \<Rightarrow> string \<Rightarrow> string" where
  "cut_to n s = take (n - 1) s"

definition embb_log_write_internal ::
    "u64 \<Rightarrow> (string \<Rightarrow> 'a \<Rightarrow> string) \<Rightarrow> string option \<Rightarrow> embb_log_level \<Rightarrow> string \<Rightarrow> 'a \<Rightarrow> 'w embb_log \<Rightarrow> 'w \<Rightarrow> 'w" where
  "embb_log_write_internal stdout fmt channel log_level message argp g w =
     (if log_level \<le> lg_level g then
        (let channel_str = (case channel of None \<Rightarrow> '' global '' | Some c \<Rightarrow> c);
             log_context = (case lg_context g of None \<Rightarrow> stdout | Some c \<Rightarrow> c);
             log_level_str = (case log_level of
                 EMBB_LOG_LEVEL_INFO \<Rightarrow> ''INFO ''
               | EMBB_LOG_LEVEL_ERROR \<Rightarrow> ''ERROR''
               | EMBB_LOG_LEVEL_TRACE \<Rightarrow> ''TRACE''
               | _ \<Rightarrow> ''     '');
             msg_buffer = cut_to 400 (fmt message argp);
             buffer = cut_to 500 (''['' @ channel_str @ ''] - ['' @ log_level_str @ ''] '' @ msg_buffer) in
         lg_function g log_context buffer w)
      else w)"

definition embb_log_write ::
    "u64 \<Rightarrow> (string \<Rightarrow> 'a \<Rightarrow> string) \<Rightarrow> string option \<Rightarrow> embb_log_level \<Rightarrow> string \<Rightarrow> 'a \<Rightarrow> 'w embb_log \<Rightarrow> 'w \<Rightarrow> 'w" where
  "embb_log_write stdout fmt channel log_level message argp g w = embb_log_write_internal stdout fmt channel log_level message argp g w"

definition embb_log_trace :: "u64 \<Rightarrow> (string \<Rightarrow> 'a \<Rightarrow> string) \<Rightarrow> string option \<Rightarrow> string \<Rightarrow> 'a \<Rightarrow> 'w embb_log \<Rightarrow> 'w \<Rightarrow> 'w" where
  "embb_log_trace stdout fmt channel message argp g w = embb_log_write_internal stdout fmt channel EMBB_LOG_LEVEL_TRACE message argp g w"

definition embb_log_info :: "u64 \<Rightarrow> (string \<Rightarrow> 'a \<Rightarrow> string) \<Rightarrow> string option \<Rightarrow> string \<Rightarrow> 'a \<Rightarrow> 'w embb_log \<Rightarrow> 'w \<Rightarrow> 'w" where
  "embb_log_info stdout fmt channel message argp g w = embb_log_write_internal stdout fmt channel EMBB_LOG_LEVEL_INFO message argp g w"

definition embb_log_warning :: "u64 \<Rightarrow> (string \<Rightarrow> 'a \<Rightarrow> string) \<Rightarrow> string option \<Rightarrow> string \<Rightarrow> 'a \<Rightarrow> 'w embb_log \<Rightarrow> 'w \<Rightarrow> 'w" where
  "embb_log_warning stdout fmt channel message argp g w = embb_log_write_internal stdout fmt channel EMBB_LOG_LEVEL_WARNING message argp g w"

definition embb_log_error :: "u64 \<Rightarrow> (string \<Rightarrow> 'a \<Rightarrow> string) \<Rightarrow> string option \<Rightarrow> string \<Rightarrow> 'a \<Rightarrow> 'w embb_log \<Rightarrow> 'w \<Rightarrow> 'w" where
  "embb_log_error stdout fmt channel message argp g w = embb_log_write_internal stdout fmt channel EMBB_LOG_LEVEL_ERROR message argp g w"

section \<open>What is written\<close>

text \<open>
  A message is written by one call of the log function if its level is at most the level that was set last, and not at all otherwise. A message of fewer than 400
  characters for a channel of at most 85 is written completely; a warning has no name of its level.
\<close>

lemma log_write_one_line:
  assumes "length c \<le> 85" "length (fmt message argp) < 400"
  shows "embb_log_write stdout fmt (Some c) level message argp (embb_log_set_log_level limit g) w =
     (if level \<le> limit then
        lg_function g (case lg_context g of None \<Rightarrow> stdout | Some x \<Rightarrow> x)
          (''['' @ c @ ''] - ['' @ (if level = EMBB_LOG_LEVEL_INFO then ''INFO '' else if level = EMBB_LOG_LEVEL_ERROR then ''ERROR''
             else if level = EMBB_LOG_LEVEL_TRACE then ''TRACE'' else ''     '') @ ''] '' @ fmt message argp) w
      else w)"
  using assms by (cases level) (simp_all add: embb_log_write_def embb_log_write_internal_def embb_log_set_log_level_def cut_to_def)

end
