(* ===== verification/Thread_Primitives.thy ===== *)
theory Thread_Primitives
  imports Bitset Duration_Time
begin

text \<open>
  Mutexes, condition variables and threads of base_c (\<^verbatim>\<open>mutex.c\<close>, \<^verbatim>\<open>condition_variable.c\<close>, \<^verbatim>\<open>thread.c\<close>, POSIX variants), which map to the calls of the operating system. These calls are a
  parameter, the record \<open>pthread_os\<close>, over a state \<open>'w\<close> of the outside; a call returns its error number, 0 for success. Mutexes, condition variables and threads are named by numbers.
\<close>

record 'w pthread_os =
  po_mutexattr_init :: "'w \<Rightarrow> int \<times> u64 \<times> 'w"
  po_mutexattr_settype :: "u64 \<Rightarrow> 'w \<Rightarrow> int \<times> 'w"
  po_mutexattr_destroy :: "u64 \<Rightarrow> 'w \<Rightarrow> int \<times> 'w"
  po_mutex_init :: "u64 \<Rightarrow> u64 option \<Rightarrow> 'w \<Rightarrow> int \<times> 'w"
  po_mutex_lock :: "u64 \<Rightarrow> 'w \<Rightarrow> int \<times> 'w"
  po_mutex_trylock :: "u64 \<Rightarrow> 'w \<Rightarrow> int \<times> 'w"
  po_mutex_unlock :: "u64 \<Rightarrow> 'w \<Rightarrow> int \<times> 'w"
  po_mutex_destroy :: "u64 \<Rightarrow> 'w \<Rightarrow> int \<times> 'w"
  po_cond_init :: "u64 \<Rightarrow> 'w \<Rightarrow> int \<times> 'w"
  po_cond_signal :: "u64 \<Rightarrow> 'w \<Rightarrow> int \<times> 'w"
  po_cond_broadcast :: "u64 \<Rightarrow> 'w \<Rightarrow> int \<times> 'w"
  po_cond_wait :: "u64 \<Rightarrow> u64 \<Rightarrow> 'w \<Rightarrow> int \<times> 'w"
  po_cond_timedwait :: "u64 \<Rightarrow> u64 \<Rightarrow> u64 \<times> u64 \<Rightarrow> 'w \<Rightarrow> int \<times> 'w"
  po_cond_destroy :: "u64 \<Rightarrow> 'w \<Rightarrow> int \<times> 'w"
  po_attr_init :: "'w \<Rightarrow> int \<times> u64 \<times> 'w"
  po_attr_setaffinity :: "u64 \<Rightarrow> u32 list \<Rightarrow> 'w \<Rightarrow> int \<times> 'w"
  po_attr_destroy :: "u64 \<Rightarrow> 'w \<Rightarrow> int \<times> 'w"
  po_create :: "u64 \<Rightarrow> u64 \<Rightarrow> 'w \<Rightarrow> int \<times> u64 \<times> 'w"
  po_join :: "u64 \<Rightarrow> 'w \<Rightarrow> int \<times> 'w"
  po_self :: "'w \<Rightarrow> u64"
  po_yield :: "'w \<Rightarrow> 'w"

abbreviation EBUSY :: int where "EBUSY \<equiv> 16"
abbreviation ETIMEDOUT :: int where "ETIMEDOUT \<equiv> 110"

definition success :: "int \<Rightarrow> embb_errors" where
  "success result = (if result = 0 then EMBB_SUCCESS else EMBB_ERROR)"

section \<open>Mutexes\<close>

datatype embb_mutex_type = EMBB_MUTEX_PLAIN | EMBB_MUTEX_RECURSIVE

definition embb_mutex_init :: "'w pthread_os \<Rightarrow> u64 \<Rightarrow> embb_mutex_type \<Rightarrow> 'w \<Rightarrow> embb_errors \<times> 'w" where
  "embb_mutex_init po mutex type w =
     (if type = EMBB_MUTEX_PLAIN then
        (let (r, w) = po_mutex_init po mutex None w in (success r, w))
      else
        (let (r, attributes, w) = po_mutexattr_init po w in
         if r \<noteq> 0 then (EMBB_ERROR, w)
         else
           (let (r, w) = po_mutexattr_settype po attributes w in
            if r \<noteq> 0 then (EMBB_ERROR, snd (po_mutexattr_destroy po attributes w))
            else
              (let (r, w) = po_mutex_init po mutex (Some attributes) w in
               if r \<noteq> 0 then (EMBB_ERROR, snd (po_mutexattr_destroy po attributes w))
               else
                 (let (r, w) = po_mutexattr_destroy po attributes w in (success r, w))))))"

definition embb_mutex_lock :: "'w pthread_os \<Rightarrow> u64 \<Rightarrow> 'w \<Rightarrow> embb_errors \<times> 'w" where
  "embb_mutex_lock po mutex w = (let (r, w) = po_mutex_lock po mutex w in (success r, w))"

definition embb_mutex_try_lock :: "'w pthread_os \<Rightarrow> u64 \<Rightarrow> 'w \<Rightarrow> embb_errors \<times> 'w" where
  "embb_mutex_try_lock po mutex w =
     (let (r, w) = po_mutex_trylock po mutex w in
      (if r = 0 then EMBB_SUCCESS else if r = EBUSY then EMBB_BUSY else EMBB_ERROR, w))"

definition embb_mutex_unlock :: "'w pthread_os \<Rightarrow> u64 \<Rightarrow> 'w \<Rightarrow> embb_errors \<times> 'w" where
  "embb_mutex_unlock po mutex w = (let (r, w) = po_mutex_unlock po mutex w in (success r, w))"

definition embb_mutex_destroy :: "'w pthread_os \<Rightarrow> u64 \<Rightarrow> 'w \<Rightarrow> 'w" where
  "embb_mutex_destroy po mutex w = snd (po_mutex_destroy po mutex w)"

section \<open>Condition variables\<close>

definition embb_condition_init :: "'w pthread_os \<Rightarrow> u64 \<Rightarrow> 'w \<Rightarrow> embb_errors \<times> 'w" where
  "embb_condition_init po condition_var w = (let (r, w) = po_cond_init po condition_var w in (success r, w))"

definition embb_condition_notify_one :: "'w pthread_os \<Rightarrow> u64 \<Rightarrow> 'w \<Rightarrow> embb_errors \<times> 'w" where
  "embb_condition_notify_one po condition_var w = (let (r, w) = po_cond_signal po condition_var w in (success r, w))"

definition embb_condition_notify_all :: "'w pthread_os \<Rightarrow> u64 \<Rightarrow> 'w \<Rightarrow> embb_errors \<times> 'w" where
  "embb_condition_notify_all po condition_var w = (let (r, w) = po_cond_broadcast po condition_var w in (success r, w))"

definition embb_condition_wait :: "'w pthread_os \<Rightarrow> u64 \<Rightarrow> u64 \<Rightarrow> 'w \<Rightarrow> embb_errors \<times> 'w" where
  "embb_condition_wait po condition_var mutex w = (let (r, w) = po_cond_wait po condition_var mutex w in (success r, w))"

definition embb_condition_wait_until :: "'w pthread_os \<Rightarrow> u64 \<Rightarrow> u64 \<Rightarrow> embb_time \<Rightarrow> 'w \<Rightarrow> embb_errors \<times> 'w" where
  "embb_condition_wait_until po condition_var mutex time w =
     (let (r, w) = po_cond_timedwait po condition_var mutex (ti_seconds time, ti_nanoseconds time) w in
      (if r = ETIMEDOUT then EMBB_TIMEDOUT else if r \<noteq> 0 then EMBB_ERROR else EMBB_SUCCESS, w))"

text \<open>\<open>clock\<close> is the time at the call, \<open>garbage\<close> what the local variable holds before.\<close>

definition embb_condition_wait_for ::
    "'w pthread_os \<Rightarrow> embb_time \<Rightarrow> embb_time \<Rightarrow> u64 \<Rightarrow> u64 \<Rightarrow> embb_duration \<Rightarrow> 'w \<Rightarrow> (embb_errors \<times> 'w) option" where
  "embb_condition_wait_for po clock garbage condition_var mutex duration w =
     do { (status, time) \<leftarrow> embb_time_in clock garbage duration;
          Some (if status \<noteq> EMBB_SUCCESS then (status, w) else embb_condition_wait_until po condition_var mutex time w) }"

definition embb_condition_destroy :: "'w pthread_os \<Rightarrow> u64 \<Rightarrow> 'w \<Rightarrow> embb_errors \<times> 'w" where
  "embb_condition_destroy po condition_var w = (let (r, w) = po_cond_destroy po condition_var w in (success r, w))"

section \<open>Threads\<close>

text \<open>The result of a thread is \<open>None\<close> until its function has returned. \<open>th_arg\<close> is the address of the block with the arguments, 0 for \<^verbatim>\<open>NULL\<close>.\<close>

record embb_internal_thread_arg =
  ia_func :: u64
  ia_arg :: u64
  ia_result :: "int option"

record embb_thread =
  th_handle :: u64
  th_arg :: u64

text \<open>\<open>tw_args\<close> are the blocks with arguments by their address.\<close>

record 'w thread_world =
  tw_args :: "u64 \<Rightarrow> embb_internal_thread_arg option"
  tw_os :: 'w

text \<open>\<open>run f a\<close> is the call of the function at \<open>f\<close>.\<close>

definition embb_internal_thread_start ::
    "(u64 \<Rightarrow> u64 \<Rightarrow> 'w thread_world \<Rightarrow> int \<times> 'w thread_world) \<Rightarrow> u64 \<Rightarrow> 'w thread_world \<Rightarrow> 'w thread_world option" where
  "embb_internal_thread_start run p w =
     do { a \<leftarrow> tw_args w p;
          let (result, w) = run (ia_func a) (ia_arg a) w;
          a \<leftarrow> tw_args w p;
          Some (w\<lparr>tw_args := (tw_args w)(p \<mapsto> a\<lparr>ia_result := Some result\<rparr>)\<rparr>) }"

definition embb_thread_current :: "'w pthread_os \<Rightarrow> 'w thread_world \<Rightarrow> embb_thread" where
  "embb_thread_current po w = \<lparr>th_handle = po_self po (tw_os w), th_arg = 0\<rparr>"

definition embb_thread_yield :: "'w pthread_os \<Rightarrow> 'w thread_world \<Rightarrow> 'w thread_world" where
  "embb_thread_yield po w = w\<lparr>tw_os := po_yield po (tw_os w)\<rparr>"

text \<open>The processors of a core set, in ascending order.\<close>

definition thread_cpuset :: "u32 \<Rightarrow> embb_core_set \<Rightarrow> u32 list option" where
  "thread_cpuset nprocs core_set =
     for_less (\<lambda>i cpuset. do { c \<leftarrow> embb_core_set_contains core_set i; Some (if c \<noteq> 0 then cpuset @ [i] else cpuset) })
       0 (embb_core_count_available nprocs) []"

text \<open>\<open>block\<close> is the address \<^verbatim>\<open>embb_alloc\<close> returns; \<open>None\<close> is \<^verbatim>\<open>NULL\<close>, which the code writes through.\<close>

definition embb_thread_create ::
    "'w pthread_os \<Rightarrow> u32 \<Rightarrow> u64 option \<Rightarrow> embb_thread \<Rightarrow> embb_core_set option \<Rightarrow> u64 \<Rightarrow> u64 \<Rightarrow> 'w thread_world \<Rightarrow>
     (embb_errors \<times> embb_thread \<times> 'w thread_world) option" where
  "embb_thread_create po nprocs block thread core_set func arg w =
     (let (status, attr, os) = po_attr_init po (tw_os w) in
      if status \<noteq> 0 then Some (EMBB_ERROR, thread, w\<lparr>tw_os := os\<rparr>)
      else
        do { (status, os) \<leftarrow>
               (case core_set of
                  None \<Rightarrow> Some (0, os)
                | Some cs \<Rightarrow> do { cpuset \<leftarrow> thread_cpuset nprocs cs; Some (po_attr_setaffinity po attr cpuset os) });
             if status \<noteq> 0 then Some (EMBB_ERROR, thread, w\<lparr>tw_os := os\<rparr>)
             else
               do { p \<leftarrow> block;
                    let (status, h, os) = po_create po attr p os;
                    let thread = thread\<lparr>th_arg := p\<rparr>;
                    let w = w\<lparr>tw_args := (tw_args w)(p \<mapsto> \<lparr>ia_func = func, ia_arg = arg, ia_result = None\<rparr>), tw_os := os\<rparr>;
                    if status \<noteq> 0 then Some (EMBB_ERROR, thread, w)
                    else
                      (let (status, os) = po_attr_destroy po attr os in
                       Some (success status, thread\<lparr>th_handle := h\<rparr>, w\<lparr>tw_os := os\<rparr>)) } })"

definition embb_thread_join :: "'w pthread_os \<Rightarrow> embb_thread \<Rightarrow> 'w thread_world \<Rightarrow> (embb_errors \<times> int \<times> 'w thread_world) option" where
  "embb_thread_join po thread w =
     do { let (status, os) = po_join po (th_handle thread) (tw_os w);
          a \<leftarrow> tw_args w (th_arg thread);
          result_code \<leftarrow> ia_result a;
          Some (success status, result_code, w\<lparr>tw_args := (tw_args w)(th_arg thread := None), tw_os := os\<rparr>) }"

definition embb_thread_equal :: "embb_thread \<Rightarrow> embb_thread \<Rightarrow> bool" where
  "embb_thread_equal lhs rhs \<longleftrightarrow> th_handle lhs = th_handle rhs"

section \<open>Properties\<close>

lemma thread_cpuset_members:
  assumes "unat nprocs \<le> 64"
  shows "\<exists>cpuset. thread_cpuset nprocs cs = Some cpuset \<and> distinct cpuset \<and> set cpuset = {i. i < nprocs \<and> unat i \<in> bits_of (rep cs)}"
proof -
  have "\<exists>cpuset. thread_cpuset nprocs cs = Some cpuset \<and> distinct cpuset \<and> set cpuset = {i. unat i < unat nprocs \<and> unat i \<in> bits_of (rep cs)}"
    unfolding thread_cpuset_def embb_core_count_available_def
  proof (rule for_less_rule[where P = "\<lambda>k cpuset. distinct cpuset \<and> set cpuset = {i. unat i < k \<and> unat i \<in> bits_of (rep cs)}"])
    fix k and cpuset :: "u32 list"
    assume k: "k < unat nprocs" and inv: "distinct cpuset \<and> set cpuset = {i. unat i < k \<and> unat i \<in> bits_of (rep cs)}"
    have unat: "unat (of_nat k :: u32) = k"
      using k unat_u32_less[of nprocs] by (intro unat_of_nat_u32) linarith
    have new: "{i :: u32. unat i < Suc k \<and> unat i \<in> bits_of (rep cs)} =
        (if k \<in> bits_of (rep cs) then insert (of_nat k) {i. unat i < k \<and> unat i \<in> bits_of (rep cs)} else {i. unat i < k \<and> unat i \<in> bits_of (rep cs)})"
      using unat by (auto simp: less_Suc_eq word_unat_eq_iff)
    have "embb_core_set_contains cs (of_nat k) = Some (if k \<in> bits_of (rep cs) then 1 else 0)"
      using cores.contains[of "of_nat k" cs] k assms unat by simp
    then show "\<exists>t'. do { c \<leftarrow> embb_core_set_contains cs (of_nat k); Some (if c \<noteq> 0 then cpuset @ [of_nat k] else cpuset) } = Some t' \<and>
        distinct t' \<and> set t' = {i. unat i < Suc k \<and> unat i \<in> bits_of (rep cs)}"
      unfolding new using inv unat by simp
  qed auto
  then show ?thesis
    by (simp add: word_less_unat)
qed

text \<open>
  A thread runs on the cores it was given and hands its result over. On a machine with at most 64 cores creating a thread with a core set returns; when it succeeds, the operating system was given
  exactly the cores of the set that the machine has, and when the thread has run and is joined, the joining thread receives what the function of the thread returned, called with the given argument, and the block with the
  arguments is given back.
\<close>

lemma thread_create_join:
  assumes "unat nprocs \<le> 64" "\<And>f a w. tw_args (snd (run f a w)) p = tw_args w p"
  shows "\<exists>status th' w1. embb_thread_create po nprocs (Some p) th (Some cs) func arg w = Some (status, th', w1) \<and>
     (status = EMBB_SUCCESS \<longrightarrow>
        (\<exists>attr cpuset os1 os2. po_attr_init po (tw_os w) = (0, attr, os1) \<and> po_attr_setaffinity po attr cpuset os1 = (0, os2) \<and>
           set cpuset = {i. i < nprocs \<and> unat i \<in> bits_of (rep cs)}) \<and>
        (\<exists>w2 joined w3. embb_internal_thread_start run p w1 = Some w2 \<and> embb_thread_join po th' w2 = Some (joined, fst (run func arg w1), w3) \<and>
           tw_args w3 = (tw_args (snd (run func arg w1)))(p := None)))"
proof -
  obtain attr os1 st1 where init: "po_attr_init po (tw_os w) = (st1, attr, os1)"
    by (metis prod_cases3)
  obtain cpuset where cpuset: "thread_cpuset nprocs cs = Some cpuset" "set cpuset = {i. i < nprocs \<and> unat i \<in> bits_of (rep cs)}"
    using thread_cpuset_members[OF assms(1)] by blast
  obtain st2 os2 where aff: "po_attr_setaffinity po attr cpuset os1 = (st2, os2)"
    by force
  obtain st3 h os3 where create: "po_create po attr p os2 = (st3, h, os3)"
    by (metis prod_cases3)
  obtain st4 os4 where destroy: "po_attr_destroy po attr os3 = (st4, os4)"
    by force
  let ?w = "\<lambda>os. w\<lparr>tw_args := (tw_args w)(p \<mapsto> \<lparr>ia_func = func, ia_arg = arg, ia_result = None\<rparr>), tw_os := os\<rparr>"
  have result: "embb_thread_create po nprocs (Some p) th (Some cs) func arg w =
      (if st1 \<noteq> 0 then Some (EMBB_ERROR, th, w\<lparr>tw_os := os1\<rparr>)
       else if st2 \<noteq> 0 then Some (EMBB_ERROR, th, w\<lparr>tw_os := os2\<rparr>)
       else if st3 \<noteq> 0 then Some (EMBB_ERROR, th\<lparr>th_arg := p\<rparr>, ?w os3)
       else Some (success st4, th\<lparr>th_arg := p, th_handle := h\<rparr>, ?w os4))"
    by (simp add: embb_thread_create_def init cpuset(1) aff create destroy)
  obtain r w2 where run: "run func arg (?w os4) = (r, w2)"
    by force
  have "tw_args w2 p = Some \<lparr>ia_func = func, ia_arg = arg, ia_result = None\<rparr>"
    using assms(2)[of func arg "?w os4"] by (simp add: run)
  then show ?thesis
    using init aff cpuset(2) by (auto simp: result run embb_internal_thread_start_def embb_thread_join_def split_def Let_def)
qed

text \<open>A system in which every call succeeds, and a function that returns its argument plus one.\<close>

definition example_pthread :: "nat pthread_os" where
  "example_pthread = \<lparr>po_mutexattr_init = (\<lambda>w. (0, 1, w)), po_mutexattr_settype = (\<lambda>_ w. (0, w)), po_mutexattr_destroy = (\<lambda>_ w. (0, w)), po_mutex_init = (\<lambda>_ _ w. (0, w)),
     po_mutex_lock = (\<lambda>_ w. (0, w)), po_mutex_trylock = (\<lambda>_ w. (0, w)), po_mutex_unlock = (\<lambda>_ w. (0, w)), po_mutex_destroy = (\<lambda>_ w. (0, w)), po_cond_init = (\<lambda>_ w. (0, w)),
     po_cond_signal = (\<lambda>_ w. (0, w)), po_cond_broadcast = (\<lambda>_ w. (0, w)), po_cond_wait = (\<lambda>_ _ w. (0, w)), po_cond_timedwait = (\<lambda>_ _ _ w. (0, w)), po_cond_destroy = (\<lambda>_ w. (0, w)),
     po_attr_init = (\<lambda>w. (0, 2, w)), po_attr_setaffinity = (\<lambda>_ cpus w. (0, length cpus)), po_attr_destroy = (\<lambda>_ w. (0, w)), po_create = (\<lambda>_ _ w. (0, 77, w)),
     po_join = (\<lambda>_ w. (0, w)), po_self = (\<lambda>_. 1), po_yield = (\<lambda>w. w)\<rparr>"

end
