(* ===== verification/Opencl_Plugin.thy ===== *)
theory Opencl_Plugin
  imports Node_Api Memory_Allocation Task_Lifecycle
begin

text \<open>
  The OpenCL plugin (\<^verbatim>\<open>mtapi_opencl_c/src/embb_mtapi_opencl.c\<close>), which runs the tasks of a job as kernels on a device. The OpenCL runtime is not part of the repository: its functions are a parameter,
  the record \<open>opencl_api\<close>, over a state \<open>'w\<close> of the outside. Objects of OpenCL are numbers, 0 is \<^verbatim>\<open>NULL\<close>; an error code is 0 for \<^verbatim>\<open>CL_SUCCESS\<close>. Fields of an action that are not yet written are \<open>None\<close>, and reading
  them is undefined behaviour. Where an assertion of the code fails the result is \<open>None\<close>.
\<close>

datatype cl_kind = CL_Queue | CL_Context | CL_Mem | CL_Kernel | CL_Program | CL_Event

datatype cl_arg = Arg_Mem u64 | Arg_Int u32

record 'w opencl_api =
  cl_link :: "'w \<Rightarrow> int \<times> 'w"
  cl_get_platform :: "'w \<Rightarrow> int \<times> u64 \<times> 'w"
  cl_get_device :: "u64 \<Rightarrow> 'w \<Rightarrow> int \<times> u64 \<times> 'w"
  cl_create_context :: "u64 \<Rightarrow> 'w \<Rightarrow> int \<times> u64 \<times> 'w"
  cl_work_group_size :: "u64 \<Rightarrow> 'w \<Rightarrow> int \<times> u64 \<times> 'w"
  cl_work_item_sizes :: "u64 \<Rightarrow> 'w \<Rightarrow> int \<times> u64 list \<times> 'w"
  cl_create_queue :: "u64 \<Rightarrow> u64 \<Rightarrow> 'w \<Rightarrow> int \<times> u64 \<times> 'w"
  cl_create_program :: "u64 \<Rightarrow> string \<Rightarrow> 'w \<Rightarrow> int \<times> u64 \<times> 'w"
  cl_build_program :: "u64 \<Rightarrow> u64 \<Rightarrow> 'w \<Rightarrow> int \<times> 'w"
  cl_build_info :: "u64 \<Rightarrow> u64 \<Rightarrow> 'w \<Rightarrow> int \<times> 'w"
  cl_create_kernel :: "u64 \<Rightarrow> string \<Rightarrow> 'w \<Rightarrow> int \<times> u64 \<times> 'w"
  cl_create_buffer :: "u64 \<Rightarrow> bool \<Rightarrow> u32 \<Rightarrow> 'w \<Rightarrow> int \<times> u64 \<times> 'w"
  cl_set_kernel_arg :: "u64 \<Rightarrow> nat \<Rightarrow> cl_arg \<Rightarrow> 'w \<Rightarrow> int \<times> 'w"
  cl_enqueue_write :: "u64 \<Rightarrow> u64 \<Rightarrow> bool \<Rightarrow> u64 \<Rightarrow> u64 \<Rightarrow> memory \<Rightarrow> 'w \<Rightarrow> int \<times> 'w"
  cl_enqueue_kernel :: "u64 \<Rightarrow> u64 \<Rightarrow> u64 \<Rightarrow> u64 \<Rightarrow> 'w \<Rightarrow> int \<times> 'w"
  cl_enqueue_read :: "u64 \<Rightarrow> u64 \<Rightarrow> u64 \<Rightarrow> u64 \<Rightarrow> 'w \<Rightarrow> int \<times> u64 \<times> 'w"
  cl_set_callback :: "u64 \<Rightarrow> u64 \<Rightarrow> 'w \<Rightarrow> int \<times> 'w"
  cl_flush :: "u64 \<Rightarrow> 'w \<Rightarrow> int \<times> 'w"
  cl_wait_event :: "u64 \<Rightarrow> memory \<Rightarrow> 'w \<Rightarrow> int \<times> memory \<times> 'w"
  cl_release :: "cl_kind \<Rightarrow> u64 \<Rightarrow> 'w \<Rightarrow> int \<times> 'w"

record embb_mtapi_opencl_plugin =
  op_platform_id :: u64
  op_device_id :: u64
  op_context :: u64
  op_command_queue :: u64
  op_work_group_size :: u64
  op_work_item_sizes :: "u64 list"

record embb_mtapi_opencl_action =
  oa_program :: u64
  oa_kernel :: "u64 option"
  oa_node_local_data :: u64
  oa_node_local_data_size :: u32
  oa_local_work_size :: u64
  oa_element_size :: u64

record embb_mtapi_opencl_task =
  ot_arguments :: u64
  ot_arguments_size :: u32
  ot_result_buffer :: u64
  ot_result_buffer_size :: u32
  ot_kernel_finish_event :: u64
  ot_task :: mtapi_hndl

record 'w opencl_state =
  ocl_mtapi :: mtapi_state
  ocl_plugin :: embb_mtapi_opencl_plugin
  ocl_actions :: "u64 \<Rightarrow> embb_mtapi_opencl_action option"
  ocl_tasks :: "u64 \<Rightarrow> embb_mtapi_opencl_task option"
  ocl_world :: 'w

text \<open>\<open>oe_alloc\<close> is the address of a fresh block, or \<open>None\<close> for \<^verbatim>\<open>NULL\<close>, through which the code writes.\<close>

record 'w opencl_env =
  oe_api :: "'w opencl_api"
  oe_alloc :: "'w \<Rightarrow> u64 option \<times> 'w"
  oe_task_start_function :: u64
  oe_task_cancel_function :: u64
  oe_action_finalize_function :: u64

section \<open>The plugin\<close>


text \<open>Each call is made only if all before it have succeeded.\<close>

definition mtapi_opencl_plugin_initialize :: "'w opencl_env \<Rightarrow> 'w opencl_state \<Rightarrow> mtapi_status \<times> 'w opencl_state" where
  "mtapi_opencl_plugin_initialize env st =
     (let api = oe_api env;
          (linked, w) = cl_link api (ocl_world st);
          st = st\<lparr>ocl_world := w\<rparr> in
      if linked = 0 then (MTAPI_ERR_UNKNOWN, st)
      else
        (let (err, platform, w) = cl_get_platform api (ocl_world st);
             st = st\<lparr>ocl_plugin := (ocl_plugin st)\<lparr>op_platform_id := platform\<rparr>, ocl_world := w\<rparr>;
             (err, st) =
               (if err = 0 then
                  (let (err, device, w) = cl_get_device api platform (ocl_world st) in
                   (err, st\<lparr>ocl_plugin := (ocl_plugin st)\<lparr>op_device_id := device\<rparr>, ocl_world := w\<rparr>))
                else (err, st));
             (err, st) =
               (if err = 0 then
                  (let (err, ctx, w) = cl_create_context api (op_device_id (ocl_plugin st)) (ocl_world st) in
                   (err, st\<lparr>ocl_plugin := (ocl_plugin st)\<lparr>op_context := ctx\<rparr>, ocl_world := w\<rparr>))
                else (err, st));
             (err, st) =
               (if err = 0 then
                  (let (err, n, w) = cl_work_group_size api (op_device_id (ocl_plugin st)) (ocl_world st) in
                   (err, st\<lparr>ocl_plugin := (ocl_plugin st)\<lparr>op_work_group_size := n\<rparr>, ocl_world := w\<rparr>))
                else (err, st));
             (err, st) =
               (if err = 0 then
                  (let (err, ns, w) = cl_work_item_sizes api (op_device_id (ocl_plugin st)) (ocl_world st) in
                   (err, st\<lparr>ocl_plugin := (ocl_plugin st)\<lparr>op_work_item_sizes := ns\<rparr>, ocl_world := w\<rparr>))
                else (err, st));
             (err, st) =
               (if err = 0 then
                  (let (err, q, w) = cl_create_queue api (op_context (ocl_plugin st)) (op_device_id (ocl_plugin st)) (ocl_world st) in
                   (err, st\<lparr>ocl_plugin := (ocl_plugin st)\<lparr>op_command_queue := q\<rparr>, ocl_world := w\<rparr>))
                else (err, st))
         in (if err = 0 then MTAPI_SUCCESS else MTAPI_ERR_UNKNOWN, st)))"

text \<open>A release followed by the assertion that it has succeeded.\<close>

definition cl_release_checked :: "'w opencl_api \<Rightarrow> cl_kind \<Rightarrow> u64 \<Rightarrow> 'w \<Rightarrow> 'w option" where
  "cl_release_checked api k h w = (let (err, w) = cl_release api k h w in if err = 0 then Some w else None)"

definition mtapi_opencl_plugin_finalize :: "'w opencl_env \<Rightarrow> 'w opencl_state \<Rightarrow> (mtapi_status \<times> 'w opencl_state) option" where
  "mtapi_opencl_plugin_finalize env st =
     do { w \<leftarrow> cl_release_checked (oe_api env) CL_Queue (op_command_queue (ocl_plugin st)) (ocl_world st);
          w \<leftarrow> cl_release_checked (oe_api env) CL_Context (op_context (ocl_plugin st)) w;
          Some (MTAPI_SUCCESS, st\<lparr>ocl_world := w\<rparr>) }"

section \<open>Tasks\<close>





definition opencl_task_cancel :: "mtapi_hndl \<Rightarrow> 'w opencl_state \<Rightarrow> (mtapi_status \<times> 'w opencl_state) option" where
  "opencl_task_cancel task st = Some (MTAPI_ERR_UNKNOWN, st)"

section \<open>Actions\<close>

definition opencl_action_finalize :: "'w opencl_env \<Rightarrow> mtapi_hndl \<Rightarrow> 'w opencl_state \<Rightarrow> (mtapi_status \<times> 'w opencl_state) option" where
  "opencl_action_finalize env action st =
     (let s = ocl_mtapi st in
      case st_node s of
        None \<Rightarrow> Some (MTAPI_ERR_UNKNOWN, st)
      | Some node \<Rightarrow>
          do { ap \<leftarrow> action_pool s;
               valid \<leftarrow> embb_mtapi_pool_is_handle_valid ap action;
               if valid then
                 do { local_action \<leftarrow> get_action s (embb_mtapi_pool_get_storage_for_handle ap action);
                      let p = ac_plugin_data local_action;
                      opencl_action \<leftarrow> ocl_actions st p;
                      w \<leftarrow> (if oa_node_local_data opencl_action \<noteq> 0
                            then cl_release_checked (oe_api env) CL_Mem (oa_node_local_data opencl_action) (ocl_world st) else Some (ocl_world st));
                      krn \<leftarrow> oa_kernel opencl_action;
                      w \<leftarrow> cl_release_checked (oe_api env) CL_Kernel krn w;
                      w \<leftarrow> cl_release_checked (oe_api env) CL_Program (oa_program opencl_action) w;
                      Some (MTAPI_SUCCESS, st\<lparr>ocl_actions := (ocl_actions st)(p := None), ocl_world := w\<rparr>) }
               else Some (MTAPI_ERR_UNKNOWN, st) })"

text \<open>The program and the kernel of an action: the error code, the program, the kernel if it was created, and which of them to release when a later call fails.\<close>

definition opencl_build ::
    "'w opencl_api \<Rightarrow> embb_mtapi_opencl_plugin \<Rightarrow> string \<Rightarrow> string \<Rightarrow> 'w \<Rightarrow> int \<times> u64 \<times> bool \<times> u64 option \<times> bool \<times> 'w" where
  "opencl_build api plugin kernel_source kernel_name w =
     (let (err, program, w) = cl_create_program api (op_context plugin) kernel_source w;
          free_program_on_error = (err = 0);
          (err, w) = (if err = 0 then cl_build_program api program (op_device_id plugin) w else cl_build_info api program (op_device_id plugin) w)
      in if err = 0 then
           (let (err, krn, w) = cl_create_kernel api program kernel_name w in (err, program, free_program_on_error, Some krn, err = 0, w))
         else (err, program, free_program_on_error, None, False, w))"

text \<open>The node-local data of an action: the error code, the buffer and its size, and whether to release it.\<close>

definition opencl_node_local_data ::
    "'w opencl_api \<Rightarrow> embb_mtapi_opencl_plugin \<Rightarrow> u64 \<Rightarrow> u32 \<Rightarrow> memory \<Rightarrow> int \<Rightarrow> 'w \<Rightarrow> int \<times> u64 \<times> u32 \<times> bool \<times> 'w" where
  "opencl_node_local_data api plugin node_local_data node_local_data_size m err w =
     (if 0 < node_local_data_size then
        (let (err, buffer, w) = cl_create_buffer api (op_context plugin) True node_local_data_size w;
             free_node_local_data_on_error = (err = 0);
             (err, w) =
               (if err = 0 then cl_enqueue_write api (op_command_queue plugin) buffer True (scast node_local_data_size) node_local_data m w else (err, w))
         in (err, buffer, node_local_data_size, free_node_local_data_on_error, w))
      else (err, 0, 0, False, w))"

definition mtapi_opencl_action_create ::
    "'w opencl_env \<Rightarrow> u32 \<Rightarrow> string \<Rightarrow> string \<Rightarrow> u32 \<Rightarrow> u32 \<Rightarrow> u64 \<Rightarrow> u32 \<Rightarrow> 'w opencl_state \<Rightarrow> (mtapi_status \<times> mtapi_hndl \<times> 'w opencl_state) option" where
  "mtapi_opencl_action_create env job_id kernel_source kernel_name local_work_size element_size node_local_data node_local_data_size st =
     do { let api = oe_api env;
          let plugin = ocl_plugin st;
          let (p, w) = oe_alloc env (ocl_world st);
          p \<leftarrow> p;
          let (err, program, free_program, krn, free_kernel, w) = opencl_build api plugin kernel_source kernel_name w;
          let (err, buffer, buffer_size, free_buffer, w) =
            opencl_node_local_data api plugin node_local_data node_local_data_size (st_memory (ocl_mtapi st)) err w;
          (err, w) \<leftarrow>
            (if err = 0 then do { k \<leftarrow> krn; Some (cl_set_kernel_arg api k 4 (Arg_Mem buffer) w) } else Some (err, w));
          (err, w) \<leftarrow>
            (if err = 0 then do { k \<leftarrow> krn; Some (cl_set_kernel_arg api k 5 (Arg_Int buffer_size) w) } else Some (err, w));
          if err = 0 then
            do { (local_status, action_hndl, s) \<leftarrow> mtapi_ext_plugin_action_create job_id (oe_task_start_function env) (oe_task_cancel_function env)
                   (oe_action_finalize_function env) p node_local_data node_local_data_size None (ocl_mtapi st);
                 Some (local_status, action_hndl, st\<lparr>ocl_mtapi := s, ocl_world := w,
                   ocl_actions := (ocl_actions st)(p \<mapsto> \<lparr>oa_program = program, oa_kernel = krn, oa_node_local_data = buffer,
                     oa_node_local_data_size = buffer_size, oa_local_work_size = ucast local_work_size, oa_element_size = ucast element_size\<rparr>)\<rparr>) }
          else
            do { let w = (if free_buffer then snd (cl_release api CL_Mem buffer w) else w);
                 w \<leftarrow> (if free_kernel then do { k \<leftarrow> krn; Some (snd (cl_release api CL_Kernel k w)) } else Some w);
                 let w = (if free_program then snd (cl_release api CL_Program program w) else w);
                 Some (MTAPI_ERR_UNKNOWN, \<lparr>hndl_tag = 0, hndl_id = 0\<rparr>, st\<lparr>ocl_world := w\<rparr>) } }"

section \<open>Work sizes\<close>


section \<open>Objects of OpenCL\<close>

text \<open>
  What the specification of OpenCL says of the objects that are alive, \<open>live w\<close>: a function that creates an object adds a fresh one if it succeeds, and adds none and returns \<^verbatim>\<open>NULL\<close> if it fails, a release removes
  the object, and the other functions add and remove none; \<^verbatim>\<open>NULL\<close> is no object, and a kernel can only be created in a program that is alive.
\<close>

definition creates :: "('w \<Rightarrow> (cl_kind \<times> u64) set) \<Rightarrow> cl_kind \<Rightarrow> ('w \<Rightarrow> int \<times> u64 \<times> 'w) \<Rightarrow> bool" where
  "creates live k f \<longleftrightarrow> (\<forall>w err h w'. f w = (err, h, w') \<longrightarrow>
     (if err = 0 then (k, h) \<notin> live w \<and> h \<noteq> 0 \<and> live w' = insert (k, h) (live w) else h = 0 \<and> live w' = live w))"

definition keeps :: "('w \<Rightarrow> (cl_kind \<times> u64) set) \<Rightarrow> ('w \<Rightarrow> int \<times> 'w) \<Rightarrow> bool" where
  "keeps live f \<longleftrightarrow> (\<forall>w err w'. f w = (err, w') \<longrightarrow> live w' = live w)"

definition cl_objects :: "'w opencl_api \<Rightarrow> ('w \<Rightarrow> (cl_kind \<times> u64) set) \<Rightarrow> bool" where
  "cl_objects api live \<longleftrightarrow>
     (\<forall>c src. creates live CL_Program (cl_create_program api c src)) \<and> (\<forall>p name. creates live CL_Kernel (cl_create_kernel api p name)) \<and>
     (\<forall>c ro n. creates live CL_Mem (cl_create_buffer api c ro n)) \<and> (\<forall>p d. keeps live (cl_build_program api p d)) \<and> (\<forall>p d. keeps live (cl_build_info api p d)) \<and>
     (\<forall>k n a. keeps live (cl_set_kernel_arg api k n a)) \<and> (\<forall>q b bl n p m. keeps live (cl_enqueue_write api q b bl n p m)) \<and>
     (\<forall>k h w. live (snd (cl_release api k h w)) = live w - {(k, h)}) \<and> (\<forall>k w. (k, 0) \<notin> live w) \<and>
     (\<forall>q k g l. keeps live (cl_enqueue_kernel api q k g l)) \<and> (\<forall>e p. keeps live (cl_set_callback api e p)) \<and> (\<forall>q. keeps live (cl_flush api q)) \<and>
     (\<forall>q b n p. creates live CL_Event (cl_enqueue_read api q b n p)) \<and> (\<forall>e m w. live (snd (snd (cl_wait_event api e m w))) = live w) \<and>
     (\<forall>p name w. fst (cl_create_kernel api p name w) = 0 \<longrightarrow> (CL_Program, p) \<in> live w)"




lemma createsD: "creates live k f \<Longrightarrow> f w = (err, h, w') \<Longrightarrow>
   if err = 0 then (k, h) \<notin> live w \<and> h \<noteq> 0 \<and> live w' = insert (k, h) (live w) else h = 0 \<and> live w' = live w"
  unfolding creates_def by blast

lemma keepsD: "keeps live f \<Longrightarrow> f w = (err, w') \<Longrightarrow> live w' = live w"
  unfolding keeps_def by blast

lemma cl_objectsD:
  assumes "cl_objects api live"
  shows "creates live CL_Program (cl_create_program api c src)" "creates live CL_Kernel (cl_create_kernel api p name)"
    "creates live CL_Mem (cl_create_buffer api c ro n)" "keeps live (cl_build_program api p d)" "keeps live (cl_build_info api p d)"
    "keeps live (cl_set_kernel_arg api k i a)" "keeps live (cl_enqueue_write api q b bl sz ptr m)" "live (snd (cl_release api kd h w)) = live w - {(kd, h)}"
    "(kd, 0) \<notin> live w" "fst (cl_create_kernel api p name w) = 0 \<Longrightarrow> (CL_Program, p) \<in> live w"
    "keeps live (cl_enqueue_kernel api q k g l)" "keeps live (cl_set_callback api e ptr)" "keeps live (cl_flush api q)"
    "creates live CL_Event (cl_enqueue_read api q b sz ptr)" "live (snd (snd (cl_wait_event api e m w))) = live w"
  using assms by (simp_all add: cl_objects_def)

text \<open>What the program and the kernel, and then the node-local data, leave alive.\<close>

definition held :: "bool \<Rightarrow> cl_kind \<Rightarrow> u64 \<Rightarrow> (cl_kind \<times> u64) set" where
  "held b k h = (if b then {(k, h)} else {})"

lemma opencl_build_live:
  assumes "cl_objects api live" "opencl_build api plugin src name w = (err, program, free_program, krn, free_kernel, w')"
  shows "live w' = live w \<union> held free_program CL_Program program \<union> held free_kernel CL_Kernel (the krn)"
    "held free_program CL_Program program \<inter> live w = {}" "held free_kernel CL_Kernel (the krn) \<inter> live w = {}"
    "free_kernel \<longrightarrow> krn \<noteq> None" "err = 0 \<longrightarrow> krn \<noteq> None \<and> free_kernel \<and> free_program"
proof -
  note obj = cl_objectsD[OF assms(1)]
  obtain e1 pr w1 where c: "cl_create_program api (op_context plugin) src w = (e1, pr, w1)"
    by (metis prod_cases3)
  obtain e2 w2 where b: "(if e1 = 0 then cl_build_program api pr (op_device_id plugin) w1 else cl_build_info api pr (op_device_id plugin) w1) = (e2, w2)"
    by force
  obtain e3 k w3 where n: "cl_create_kernel api pr name w2 = (e3, k, w3)"
    by (metis prod_cases3)
  have live: "live w2 = live w1" "if e1 = 0 then (CL_Program, pr) \<notin> live w \<and> live w1 = insert (CL_Program, pr) (live w) else pr = 0 \<and> live w1 = live w"
    "if e3 = 0 then (CL_Kernel, k) \<notin> live w2 \<and> live w3 = insert (CL_Kernel, k) (live w2) else live w3 = live w2"
    using keepsD[OF obj(4)[of pr "op_device_id plugin"], of w1 e2 w2] keepsD[OF obj(5)[of pr "op_device_id plugin"], of w1 e2 w2] b
      createsD[OF obj(1) c] createsD[OF obj(2) n] by (auto split: if_splits)
  have alive: "e3 = 0 \<Longrightarrow> e1 = 0"
    using obj(10)[of pr name w2] live(1,2) obj(9)[of CL_Program w1] n by (auto split: if_splits)
  have "(err, program, free_program, krn, free_kernel, w') =
      (if e2 = 0 then (e3, pr, e1 = 0, Some k, e3 = 0, w3) else (e2, pr, e1 = 0, None, False, w2))"
    using assms(2) by (auto simp: opencl_build_def c b n Let_def split: if_splits)
  then show "live w' = live w \<union> held free_program CL_Program program \<union> held free_kernel CL_Kernel (the krn)"
    "held free_program CL_Program program \<inter> live w = {}" "held free_kernel CL_Kernel (the krn) \<inter> live w = {}"
    "free_kernel \<longrightarrow> krn \<noteq> None" "err = 0 \<longrightarrow> krn \<noteq> None \<and> free_kernel \<and> free_program"
    using live alive by (auto simp: held_def split: if_splits)
qed

lemma opencl_node_local_data_live:
  assumes "cl_objects api live" "opencl_node_local_data api plugin p n m e w = (err, buffer, sz, free_buffer, w')"
  shows "live w' = live w \<union> held free_buffer CL_Mem buffer" "held free_buffer CL_Mem buffer \<inter> live w = {}" "n = 0 \<longrightarrow> err = e \<and> \<not> free_buffer" "err = 0 \<and> 0 < n \<longrightarrow> free_buffer"
proof -
  note obj = cl_objectsD[OF assms(1)]
  obtain e1 b w1 where c: "cl_create_buffer api (op_context plugin) True n w = (e1, b, w1)"
    by (metis prod_cases3)
  obtain e2 w2 where q: "cl_enqueue_write api (op_command_queue plugin) b True (scast n) p m w1 = (e2, w2)"
    by force
  have live: "live w2 = live w1" "if e1 = 0 then (CL_Mem, b) \<notin> live w \<and> live w1 = insert (CL_Mem, b) (live w) else live w1 = live w"
    using keepsD[OF obj(7) q] createsD[OF obj(3) c] by (auto split: if_splits)
  have "(err, buffer, sz, free_buffer, w') =
      (if 0 < n then (if e1 = 0 then (e2, b, n, True, w2) else (e1, b, n, False, w1)) else (e, 0, 0, False, w))"
    using assms(2) by (simp add: opencl_node_local_data_def c q Let_def split: if_splits)
  then show "live w' = live w \<union> held free_buffer CL_Mem buffer" "held free_buffer CL_Mem buffer \<inter> live w = {}" "n = 0 \<longrightarrow> err = e \<and> \<not> free_buffer" "err = 0 \<and> 0 < n \<longrightarrow> free_buffer"
    using live by (auto simp: held_def split: if_splits)
qed




section \<open>An example\<close>














section \<open>The effect of a start and of a completion\<close>







section \<open>Properties\<close>



text \<open>
  Creating an OpenCL action leaks no object of OpenCL. When the program can be built, or there is no node-local data, creating the action either fails, with exactly the objects alive that were
  alive before and the node as it was, or it goes on to register the action in the task library, holding its program, its kernel and the buffer with its node-local data. (When the program can not be
  built and there is node-local data, the kernel is used without having been written.)
\<close>

lemma opencl_action_create_objects:
  assumes api: "cl_objects (oe_api env) live"
    and alloc: "oe_alloc env (ocl_world st) = (Some p, w1)" "live w1 = live (ocl_world st)"
    and build: "n = 0 \<or> fst (opencl_build (oe_api env) (ocl_plugin st) src name w1) = 0"
  shows "(\<exists>st'. mtapi_opencl_action_create env job src name lsize esize data n st = Some (MTAPI_ERR_UNKNOWN, \<lparr>hndl_tag = 0, hndl_id = 0\<rparr>, st') \<and>
            live (ocl_world st') = live (ocl_world st) \<and> ocl_mtapi st' = ocl_mtapi st \<and> ocl_actions st' = ocl_actions st) \<or>
         (\<exists>w' a krn. oa_kernel a = Some krn \<and>
            live w' = live (ocl_world st) \<union> {(CL_Program, oa_program a), (CL_Kernel, krn)} \<union> (if 0 < n then {(CL_Mem, oa_node_local_data a)} else {}) \<and>
            mtapi_opencl_action_create env job src name lsize esize data n st =
              do { (status, h, s) \<leftarrow> mtapi_ext_plugin_action_create job (oe_task_start_function env) (oe_task_cancel_function env) (oe_action_finalize_function env)
                     p data n None (ocl_mtapi st);
                   Some (status, h, st\<lparr>ocl_mtapi := s, ocl_world := w', ocl_actions := (ocl_actions st)(p \<mapsto> a)\<rparr>) })"
proof -
  let ?api = "oe_api env" and ?L = "live (ocl_world st)"
  note obj = cl_objectsD[OF api]
  obtain e2 program free_program krn free_kernel w2 where b: "opencl_build ?api (ocl_plugin st) src name w1 = (e2, program, free_program, krn, free_kernel, w2)"
    by (metis prod_cases6)
  obtain e3 buffer bsize free_buffer w3 where d: "opencl_node_local_data ?api (ocl_plugin st) data n (st_memory (ocl_mtapi st)) e2 w2 = (e3, buffer, bsize, free_buffer, w3)"
    by (metis prod_cases5)
  note lb = opencl_build_live[OF api b] and ld = opencl_node_local_data_live[OF api d]
  have e2: "e3 = 0 \<Longrightarrow> e2 = 0"
    using build ld(3) b by auto
  obtain k where k: "krn = Some k \<or> krn = None" "e3 = 0 \<Longrightarrow> krn = Some k" "free_kernel \<Longrightarrow> krn = Some k"
    using lb(4,5) e2 by (cases krn) auto
  obtain e4 w4 where s4: "cl_set_kernel_arg ?api k 4 (Arg_Mem buffer) w3 = (e4, w4)"
    by force
  obtain e5 w5 where s5: "cl_set_kernel_arg ?api k 5 (Arg_Int bsize) w4 = (e5, w5)"
    by force
  let ?H = "held free_program CL_Program program \<union> held free_kernel CL_Kernel (the krn) \<union> held free_buffer CL_Mem buffer"
  let ?release = "\<lambda>w. let w = (if free_buffer then snd (cl_release ?api CL_Mem buffer w) else w);
        w = (if free_kernel then snd (cl_release ?api CL_Kernel k w) else w) in if free_program then snd (cl_release ?api CL_Program program w) else w"
  have fresh: "?H \<inter> ?L = {}"
    using lb(1-3) ld(2) alloc(2) by auto
  have L3: "live w3 = ?L \<union> ?H" "live w4 = ?L \<union> ?H" "live w5 = ?L \<union> ?H"
    using lb(1) ld(1) alloc(2) keepsD[OF obj(6) s4] keepsD[OF obj(6) s5] by auto
  have released: "live (?release w) = ?L" if "live w = ?L \<union> ?H" for w
    using that fresh k(3) by (auto simp: held_def obj(8) Let_def)
  have create: "mtapi_opencl_action_create env job src name lsize esize data n st =
      (if e3 = 0 \<and> e4 = 0 \<and> e5 = 0 then
         do { (status, h, s) \<leftarrow> mtapi_ext_plugin_action_create job (oe_task_start_function env) (oe_task_cancel_function env) (oe_action_finalize_function env)
                p data n None (ocl_mtapi st);
              Some (status, h, st\<lparr>ocl_mtapi := s, ocl_world := w5,
                ocl_actions := (ocl_actions st)(p \<mapsto> \<lparr>oa_program = program, oa_kernel = krn, oa_node_local_data = buffer,
                     oa_node_local_data_size = bsize, oa_local_work_size = ucast lsize, oa_element_size = ucast esize\<rparr>)\<rparr>) }
       else Some (MTAPI_ERR_UNKNOWN, \<lparr>hndl_tag = 0, hndl_id = 0\<rparr>, st\<lparr>ocl_world := ?release (if e3 \<noteq> 0 then w3 else if e4 \<noteq> 0 then w4 else w5)\<rparr>))"
    using k by (auto simp: mtapi_opencl_action_create_def alloc(1) b d s4 s5 Let_def)
  show ?thesis
  proof (cases "e3 = 0 \<and> e4 = 0 \<and> e5 = 0")
    case True
    then have ok: "free_program" "free_kernel" "krn = Some k" "free_buffer \<longleftrightarrow> 0 < n"
      using lb(5) ld(3,4) e2 k(2) by (auto simp: word_gt_0)
    let ?a = "\<lparr>oa_program = program, oa_kernel = krn, oa_node_local_data = buffer, oa_node_local_data_size = bsize,
      oa_local_work_size = ucast lsize, oa_element_size = ucast esize\<rparr>"
    have "live w5 = ?L \<union> {(CL_Program, program), (CL_Kernel, k)} \<union> (if 0 < n then {(CL_Mem, buffer)} else {})"
      using L3(3) ok by (auto simp: held_def)
    then show ?thesis
      using True ok(3) by (intro disjI2, rule_tac x = w5 in exI, rule_tac x = ?a in exI, rule_tac x = k in exI) (simp add: create)
  next
    case False
    then show ?thesis
      using released L3 by (intro disjI1) (auto simp: create)
  qed
qed

end
