(* ===== verification/Partitioner.thy ===== *)
theory Partitioner
  imports Attributes
begin

text \<open>
  Splitting a range into chunks (\<^verbatim>\<open>algorithms_cpp/internal/partition-inl.h\<close>), the policy that says on which cores an algorithm runs (\<^verbatim>\<open>tasks_cpp/src/execution_policy.cc\<close>), and what the
  parallel algorithms check before they start.

  Random access iterators are positions in a list. Distances and block sizes are natural numbers: a range has less than \<open>2 ^ 63\<close> elements, and none of the sums and products below exceeds twice
  that, so that nothing wraps in 64 bits. A division by zero is \<open>None\<close>; an exception is a value of \<open>cxx_exception\<close>.
\<close>

section \<open>Exceptions\<close>

datatype cxx_exception = ErrorException string

section \<open>Iterators\<close>

text \<open>The elements of a range.\<close>

definition segment :: "nat \<Rightarrow> nat \<Rightarrow> 'a list \<Rightarrow> 'a list" where
  "segment a b xs = take (b - a) (drop a xs)"

lemma length_segment [simp]: "b \<le> length xs \<Longrightarrow> length (segment a b xs) = b - a"
  by (simp add: segment_def)

lemma segment_empty [simp]: "segment a a xs = []"
  by (simp add: segment_def)

lemma segment_all: "segment 0 (length xs) xs = xs"
  by (simp add: segment_def)

lemma segment_append: "a \<le> b \<Longrightarrow> b \<le> c \<Longrightarrow> segment a b xs @ segment b c xs = segment a c xs"
  using take_add[of "b - a" "c - b" "drop a xs"] by (simp add: segment_def)

lemma segment_Cons: "a < b \<Longrightarrow> b \<le> length xs \<Longrightarrow> segment a b xs = xs ! a # segment (Suc a) b xs"
  by (simp add: segment_def Cons_nth_drop_Suc[symmetric] take_Cons' Suc_diff_Suc)

lemma nth_segment [simp]: "b \<le> length xs \<Longrightarrow> i < b - a \<Longrightarrow> segment a b xs ! i = xs ! (a + i)"
  by (simp add: segment_def)

lemma segment_eqI:
  assumes "length xs = length ys" "b \<le> length xs" "\<And>i. a \<le> i \<Longrightarrow> i < b \<Longrightarrow> xs ! i = ys ! i"
  shows "segment a b xs = segment a b ys"
  using assms by (intro nth_equalityI) simp_all

section \<open>Execution policies\<close>

record ExecutionPolicy =
  ep_affinity :: mtapi_affinity
  ep_priority :: u32

definition DefaultPriority :: u32 where
  "DefaultPriority = 0"

text \<open>The constructors differ in which of the two arguments are given; the affinity is set for all workers by default.\<close>

definition ExecutionPolicy_new ::
    "mtapi_node_attributes option \<Rightarrow> bool \<Rightarrow> u32 \<Rightarrow> (cxx_exception + ExecutionPolicy) option" where
  "ExecutionPolicy_new node initial_affinity priority =
     do { (status, affinity) \<leftarrow> mtapi_affinity_init node (Some 0) (if initial_affinity then MTAPI_TRUE else MTAPI_FALSE);
          if MTAPI_SUCCESS \<noteq> status then Some (Inl (ErrorException ''Could not default construct Affinity.''))
          else (case affinity of Some b \<Rightarrow> Some (Inr \<lparr>ep_affinity = b, ep_priority = priority\<rparr>) | None \<Rightarrow> None) }"

definition AddWorker :: "mtapi_node_attributes option \<Rightarrow> ExecutionPolicy \<Rightarrow> u32 \<Rightarrow> ExecutionPolicy option" where
  "AddWorker node that worker =
     do { (status, affinity) \<leftarrow> mtapi_affinity_set node (Some (ep_affinity that)) worker MTAPI_TRUE;
          b \<leftarrow> affinity;
          Some (that\<lparr>ep_affinity := b\<rparr>) }"

definition RemoveWorker :: "mtapi_node_attributes option \<Rightarrow> ExecutionPolicy \<Rightarrow> u32 \<Rightarrow> ExecutionPolicy option" where
  "RemoveWorker node that worker =
     do { (status, affinity) \<leftarrow> mtapi_affinity_set node (Some (ep_affinity that)) worker MTAPI_FALSE;
          b \<leftarrow> affinity;
          Some (that\<lparr>ep_affinity := b\<rparr>) }"

definition IsSetWorker :: "mtapi_node_attributes option \<Rightarrow> ExecutionPolicy \<Rightarrow> u32 \<Rightarrow> bool option" where
  "IsSetWorker node that worker =
     do { (status, aff) \<leftarrow> mtapi_affinity_get node (Some (ep_affinity that)) worker;
          Some (MTAPI_TRUE = aff) }"

definition GetCoreCount :: "ExecutionPolicy \<Rightarrow> u32 option" where
  "GetCoreCount that = embb_bitset_count (ep_affinity that)"

text \<open>The cores a policy names, as a set: adding and removing workers are set operations, and \<^verbatim>\<open>GetCoreCount\<close> counts them.\<close>

lemma policy_new_workers:
  assumes "unat (na_num_cores n) \<le> 64"
  shows "\<exists>p. ExecutionPolicy_new (Some n) aff prio = Some (Inr p) \<and> ep_priority p = prio \<and>
    bits_of (ep_affinity p) = (if aff then {..<unat (na_num_cores n)} else {})"
proof -
  obtain b where "embb_bitset_set_n 0 (na_num_cores n) = Some b" "bits_of b = {..<unat (na_num_cores n)}"
    using bits_of_set_n[OF assms] by blast
  moreover have "bits_of 0 = {}"
    by (simp add: bits_of_def)
  ultimately show ?thesis
    by (cases aff) (simp_all add: ExecutionPolicy_new_def mtapi_affinity_init_def embb_bitset_clear_all_def)
qed

lemma policy_add_remove_worker:
  assumes "w < na_num_cores n" "unat (na_num_cores n) \<le> 64"
  shows "\<exists>p'. AddWorker (Some n) p w = Some p' \<and> bits_of (ep_affinity p') = insert (unat w) (bits_of (ep_affinity p))"
    and "\<exists>p'. RemoveWorker (Some n) p w = Some p' \<and> bits_of (ep_affinity p') = bits_of (ep_affinity p) - {unat w}"
    and "IsSetWorker (Some n) p w = Some (unat w \<in> bits_of (ep_affinity p))"
proof -
  have w: "unat w < 64"
    using assms by (simp add: word_less_unat)
  show "\<exists>p'. AddWorker (Some n) p w = Some p' \<and> bits_of (ep_affinity p') = insert (unat w) (bits_of (ep_affinity p))"
    using bits.add[OF w, of "ep_affinity p"] assms(1) by (auto simp: AddWorker_def mtapi_affinity_set_def)
  show "\<exists>p'. RemoveWorker (Some n) p w = Some p' \<and> bits_of (ep_affinity p') = bits_of (ep_affinity p) - {unat w}"
    using bits.remove[OF w, of "ep_affinity p"] assms(1) by (auto simp: RemoveWorker_def mtapi_affinity_set_def)
  show "IsSetWorker (Some n) p w = Some (unat w \<in> bits_of (ep_affinity p))"
    using bits.contains[OF w, of "ep_affinity p"] assms(1) by (auto simp: IsSetWorker_def mtapi_affinity_get_def)
qed

lemma core_count_card: "\<exists>c. GetCoreCount p = Some c \<and> unat c = card (bits_of (ep_affinity p))"
  unfolding GetCoreCount_def by (rule bitset_count_card)

text \<open>A policy for the cores 0 and 1.\<close>

definition two_cores :: ExecutionPolicy where
  "two_cores = \<lparr>ep_affinity = 3, ep_priority = 0\<rparr>"

lemma two_cores_nonempty: "bits_of (ep_affinity two_cores) \<noteq> {}"
proof -
  have "0 \<in> bits_of (ep_affinity two_cores)"
    by (simp add: bits_of_def two_cores_def)
  then show ?thesis
    by blast
qed

section \<open>Chunks\<close>

record ChunkDescriptor =
  GetFirst :: nat
  GetLast :: nat

record BlockSizePartitioner =
  bp_first :: nat
  bp_last :: nat
  bp_elements_count :: nat
  bp_chunk_size :: nat
  bp_chunks :: nat

definition BlockSizePartitioner_new :: "nat \<Rightarrow> nat \<Rightarrow> nat \<Rightarrow> BlockSizePartitioner option" where
  "BlockSizePartitioner_new first last' chunkSize =
     (if chunkSize = 0 then None
      else let elements_count = last' - first;
               chunks = elements_count div chunkSize;
               chunks = (if elements_count mod chunkSize \<noteq> 0 then chunks + 1 else chunks)
           in Some \<lparr>bp_first = first, bp_last = last', bp_elements_count = elements_count, bp_chunk_size = chunkSize, bp_chunks = chunks\<rparr>)"

definition BlockSizePartitioner_Size :: "BlockSizePartitioner \<Rightarrow> nat" where
  "BlockSizePartitioner_Size that = bp_chunks that"

definition BlockSizePartitioner_at :: "BlockSizePartitioner \<Rightarrow> nat \<Rightarrow> ChunkDescriptor" where
  "BlockSizePartitioner_at that index =
     (let first_new = bp_first that + bp_chunk_size that * index;
          last_new = (if bp_chunks that - 1 \<le> index then bp_last that else first_new + bp_chunk_size that)
      in \<lparr>GetFirst = first_new, GetLast = last_new\<rparr>)"

record ChunkPartitioner =
  cp_size :: nat
  cp_elements_count :: nat
  cp_first :: nat
  cp_last :: nat
  cp_standard_chunk_size :: nat
  cp_bigger_chunk_count :: nat

text \<open>\<open>workers\<close> is the number of worker threads of the node, which is used when no number of chunks is given.\<close>

definition ChunkPartitioner_new :: "nat \<Rightarrow> nat \<Rightarrow> nat \<Rightarrow> nat \<Rightarrow> ChunkPartitioner option" where
  "ChunkPartitioner_new workers first last' amountChunks =
     (let sz = (if 0 < amountChunks then amountChunks else workers);
          elements_count = last' - first;
          sz = (if elements_count < sz then elements_count else sz)
      in if sz = 0 then None
         else Some \<lparr>cp_size = sz, cp_elements_count = elements_count, cp_first = first, cp_last = last',
                cp_standard_chunk_size = elements_count div sz, cp_bigger_chunk_count = elements_count mod sz\<rparr>)"

definition ChunkPartitioner_Size :: "ChunkPartitioner \<Rightarrow> nat" where
  "ChunkPartitioner_Size that = cp_size that"

definition ChunkPartitioner_at :: "ChunkPartitioner \<Rightarrow> nat \<Rightarrow> ChunkDescriptor" where
  "ChunkPartitioner_at that index =
     (let prec_elements_count =
            (if index \<le> cp_bigger_chunk_count that then index * (cp_standard_chunk_size that + 1)
             else (cp_standard_chunk_size that + 1) * cp_bigger_chunk_count that +
                  cp_standard_chunk_size that * (index - cp_bigger_chunk_count that));
          cur_elements_count =
            (if index < cp_bigger_chunk_count that then cp_standard_chunk_size that + 1 else cp_standard_chunk_size that);
          first_new = cp_first that + prec_elements_count
      in \<lparr>GetFirst = first_new, GetLast = first_new + cur_elements_count\<rparr>)"

section \<open>What an algorithm checks first\<close>

definition MTAPI_NODE_MAX_TASKS_DEFAULT :: nat where
  "MTAPI_NODE_MAX_TASKS_DEFAULT = 1024"

text \<open>
  \<^verbatim>\<open>ForEach\<close>, \<^verbatim>\<open>Reduce\<close>, \<^verbatim>\<open>Scan\<close>, \<^verbatim>\<open>QuickSort\<close> and \<^verbatim>\<open>MergeSort\<close> begin with the same statements, which differ in the texts of the exceptions only: a negative range and a policy without cores are refused, a block size of 0 is
  replaced, and the number of tasks is estimated. The result is the block size to use.
\<close>

definition determine_block_size :: "int \<Rightarrow> ExecutionPolicy \<Rightarrow> nat \<Rightarrow> string \<Rightarrow> string \<Rightarrow> (cxx_exception + nat) option" where
  "determine_block_size distance policy block_size negative_range not_enough_tasks =
     (if distance < 0 then Some (Inl (ErrorException negative_range))
      else do {
        num_cores \<leftarrow> GetCoreCount policy;
        if num_cores = 0 then Some (Inl (ErrorException ''No cores in execution policy''))
        else (let block_size = (if block_size = 0
                      then let block_size = nat distance div unat num_cores in if block_size = 0 then 1 else block_size
                      else block_size)
              in if MTAPI_NODE_MAX_TASKS_DEFAULT < nat distance div block_size * 2 + 1
                 then Some (Inl (ErrorException not_enough_tasks))
                 else Some (Inr block_size)) })"

section \<open>Properties of the partitioners\<close>

text \<open>A sequence of chunks covers a range: each begins where the one before ends, and none is empty.\<close>

definition chunks_cover :: "(nat \<Rightarrow> ChunkDescriptor) \<Rightarrow> nat \<Rightarrow> nat \<Rightarrow> nat \<Rightarrow> bool" where
  "chunks_cover chunk n first last' \<longleftrightarrow> 0 < n \<and> GetFirst (chunk 0) = first \<and> GetLast (chunk (n - 1)) = last' \<and>
     (\<forall>i<n. GetFirst (chunk i) < GetLast (chunk i)) \<and> (\<forall>i. Suc i < n \<longrightarrow> GetLast (chunk i) = GetFirst (chunk (Suc i)))"

lemma chunks_cover_bounds:
  assumes "chunks_cover chunk n first last'" "i \<le> j" "j < n"
  shows "GetFirst (chunk i) \<le> GetFirst (chunk j)" "GetLast (chunk i) \<le> GetLast (chunk j)" "first \<le> GetFirst (chunk i)" "GetLast (chunk j) \<le> last'"
proof -
  have step: "GetFirst (chunk k) \<le> GetFirst (chunk (Suc k)) \<and> GetLast (chunk k) \<le> GetLast (chunk (Suc k))" if "Suc k < n" for k
    using assms(1) that unfolding chunks_cover_def by (metis Suc_lessD less_imp_le_nat)
  have mono: "GetFirst (chunk k) \<le> GetFirst (chunk l) \<and> GetLast (chunk k) \<le> GetLast (chunk l)" if "k \<le> l" "l < n" for k l
    using that by (induction l rule: dec_induct) (auto dest: Suc_lessD order_trans step intro: order_trans)
  show "GetFirst (chunk i) \<le> GetFirst (chunk j)" "GetLast (chunk i) \<le> GetLast (chunk j)"
    using mono[OF assms(2,3)] by auto
  show "first \<le> GetFirst (chunk i)"
    using mono[of 0 i] assms by (auto simp: chunks_cover_def)
  show "GetLast (chunk j) \<le> last'"
    using mono[of j "n - 1"] assms by (auto simp: chunks_cover_def)
qed

text \<open>Two neighbouring ranges of chunks, \<open>a\<close> to \<open>m\<close> and \<open>m + 1\<close> to \<open>b\<close>.\<close>

lemma chunks_cover_split:
  assumes "chunks_cover chunk n first last'" "a \<le> m" "m + 1 \<le> b" "b < n"
  shows "GetLast (chunk m) = GetFirst (chunk (m + 1))" "GetFirst (chunk a) < GetFirst (chunk (m + 1))"
    "GetFirst (chunk (m + 1)) < GetLast (chunk b)" "first \<le> GetFirst (chunk a)" "GetLast (chunk b) \<le> last'"
proof -
  show m: "GetLast (chunk m) = GetFirst (chunk (m + 1))"
    using assms by (simp add: chunks_cover_def)
  have "GetFirst (chunk m) < GetLast (chunk m)" "GetFirst (chunk (m + 1)) < GetLast (chunk (m + 1))"
    using assms unfolding chunks_cover_def by (meson add_lessD1 le_less_trans)+
  moreover have "GetFirst (chunk a) \<le> GetFirst (chunk m)" "GetLast (chunk (m + 1)) \<le> GetLast (chunk b)"
    using chunks_cover_bounds(1)[OF assms(1), of a m] chunks_cover_bounds(2)[OF assms(1), of "m + 1" b] assms(2-4) by simp_all
  ultimately show "GetFirst (chunk a) < GetFirst (chunk (m + 1))" "GetFirst (chunk (m + 1)) < GetLast (chunk b)"
    by (simp_all add: m)
  show "first \<le> GetFirst (chunk a)" "GetLast (chunk b) \<le> last'"
    using chunks_cover_bounds(3,4)[OF assms(1), of a b] assms(2-4) by simp_all
qed

lemma chunk_split_index: "a < b \<Longrightarrow> a \<le> (a + b) div 2 \<and> (a + b) div 2 + 1 \<le> (b :: nat)"
  by auto

text \<open>The induction all algorithms on chunks share: a property of single chunks that two neighbouring ranges of chunks pass on to their union holds of all chunks.\<close>

lemma chunk_tree_induct:
  fixes f l :: nat
  assumes "f \<le> l"
    and leaf: "\<And>i. f \<le> i \<Longrightarrow> i \<le> l \<Longrightarrow> P i i"
    and node: "\<And>a b. f \<le> a \<Longrightarrow> a < b \<Longrightarrow> b \<le> l \<Longrightarrow> P a ((a + b) div 2) \<Longrightarrow> P ((a + b) div 2 + 1) b \<Longrightarrow> P a b"
  shows "P f l"
proof -
  have "P a b" if "f \<le> a" "a \<le> b" "b \<le> l" for a b
    using that
  proof (induction "b - a" arbitrary: a b rule: less_induct)
    case less
    show ?case
    proof (cases "a = b")
      case False
      then have ab: "a < b"
        using less.prems by simp
      let ?m = "(a + b) div 2"
      have "P a ?m" "P (?m + 1) b"
        using less.prems ab by (auto intro!: less.hyps)
      then show ?thesis
        using node[OF less.prems(1) ab less.prems(3)] by simp
    qed (use leaf less.prems in simp)
  qed
  then show ?thesis
    using assms(1) by blast
qed

lemma ceil_div_bounds:
  fixes n d :: nat
  assumes "0 < n" "0 < d"
  defines "c \<equiv> (if n mod d \<noteq> 0 then n div d + 1 else n div d)"
  shows "0 < c" "d * (c - 1) < n" "n \<le> d * c" "c \<le> n div d + 1"
proof -
  have n: "n = d * (n div d) + n mod d" "n mod d < d"
    using assms(2) by simp_all
  show "0 < c"
    using n assms(1) by (cases "n div d = 0") (auto simp: c_def)
  have "n \<le> d * (n div d) + d" "n mod d = 0 \<Longrightarrow> n \<le> d * (n div d)"
    using n by linarith+
  then show "n \<le> d * c"
    by (simp add: c_def)
  show "c \<le> n div d + 1"
    by (simp add: c_def)
  show "d * (c - 1) < n"
  proof (cases "n mod d = 0")
    case True
    then obtain q where q: "n = d * q" "n div d = q" "0 < q"
      using n(1) assms(1) by (metis add.right_neutral gr0I mult_0_right)
    then show ?thesis
      using True assms(2) by (simp add: c_def)
  next
    case False
    then have "d * (n div d) < n"
      using n(1) by linarith
    then show ?thesis
      using False by (simp add: c_def)
  qed
qed

lemma block_size_partitioner:
  assumes "first < last'" "0 < b"
  obtains p where "BlockSizePartitioner_new first last' b = Some p"
    "chunks_cover (BlockSizePartitioner_at p) (BlockSizePartitioner_Size p) first last'"
    "BlockSizePartitioner_Size p \<le> (last' - first) div b + 1"
    "\<forall>i < BlockSizePartitioner_Size p. GetLast (BlockSizePartitioner_at p i) - GetFirst (BlockSizePartitioner_at p i) \<le> b"
proof -
  define n where "n = last' - first"
  define c where "c = (if n mod b \<noteq> 0 then n div b + 1 else n div b)"
  define p where "p = \<lparr>bp_first = first, bp_last = last', bp_elements_count = n, bp_chunk_size = b, bp_chunks = c\<rparr>"
  have n: "0 < n" and last': "last' = first + n"
    using assms(1) by (simp_all add: n_def)
  have c: "0 < c" "b * (c - 1) < n" "n \<le> b * c" "c \<le> n div b + 1"
    using ceil_div_bounds[OF n assms(2)] by (simp_all add: c_def)
  have new: "BlockSizePartitioner_new first last' b = Some p"
    using assms(2) by (simp add: BlockSizePartitioner_new_def Let_def p_def n_def c_def)
  have chunk: "GetFirst (BlockSizePartitioner_at p i) = first + b * i"
     "GetLast (BlockSizePartitioner_at p i) = (if c - 1 \<le> i then last' else first + b * i + b)" for i
    by (simp_all add: BlockSizePartitioner_at_def Let_def p_def)
  have less: "b * i < n" if "i < c" for i
    using that by (intro le_less_trans[OF mult_le_mono2 c(2)]) simp
  have "chunks_cover (BlockSizePartitioner_at p) (BlockSizePartitioner_Size p) first last'"
    using c(1) less assms(2) unfolding chunks_cover_def chunk BlockSizePartitioner_Size_def
    by (auto simp: p_def last')
  moreover have "GetLast (BlockSizePartitioner_at p i) - GetFirst (BlockSizePartitioner_at p i) \<le> b" if "i < c" for i
  proof (cases "c - 1 \<le> i")
    case True
    then have "i = c - 1"
      using that by simp
    moreover have "n \<le> b * (c - 1) + b"
      using c(1,3) by (cases c) (simp_all add: algebra_simps)
    ultimately show ?thesis
      unfolding chunk last' by simp
  qed (simp add: chunk)
  ultimately show thesis
    using new c(4) that by (auto simp: p_def n_def BlockSizePartitioner_Size_def)
qed

text \<open>The chunks of the other partitioner cover the range as well, and their sizes differ by one at most.\<close>

lemma chunk_partitioner:
  assumes "first < last'" "0 < amount"
  obtains p where "ChunkPartitioner_new workers first last' amount = Some p"
    "ChunkPartitioner_Size p = min amount (last' - first)"
    "chunks_cover (ChunkPartitioner_at p) (ChunkPartitioner_Size p) first last'"
    "\<forall>i < ChunkPartitioner_Size p. GetLast (ChunkPartitioner_at p i) - GetFirst (ChunkPartitioner_at p i) \<in>
       {(last' - first) div ChunkPartitioner_Size p, (last' - first) div ChunkPartitioner_Size p + 1}"
proof -
  define n where "n = last' - first"
  define k where "k = min amount n"
  define q r where "q = n div k" and "r = n mod k"
  define p where "p = \<lparr>cp_size = k, cp_elements_count = n, cp_first = first, cp_last = last', cp_standard_chunk_size = q, cp_bigger_chunk_count = r\<rparr>"
  have n: "0 < n" "last' = first + n"
    using assms(1) by (simp_all add: n_def)
  have k: "0 < k" "k \<le> n"
    using assms(2) n by (simp_all add: k_def)
  have q: "0 < q" "n = q * k + r" "r < k"
    using k by (simp_all add: q_def r_def div_greater_zero_iff)
  have new: "ChunkPartitioner_new workers first last' amount = Some p"
  proof -
    have "(if n < (if 0 < amount then amount else workers) then n else (if 0 < amount then amount else workers)) = k"
      using assms(2) by (simp add: k_def)
    then show ?thesis
      unfolding ChunkPartitioner_new_def Let_def n_def[symmetric] using k(1) by (simp add: p_def q_def r_def)
  qed
  define pre where "pre i = q * i + min i r" for i
  have chunk: "GetFirst (ChunkPartitioner_at p i) = first + pre i" "GetLast (ChunkPartitioner_at p i) = first + pre (Suc i)"
      "GetLast (ChunkPartitioner_at p i) = GetFirst (ChunkPartitioner_at p i) + (if i < r then q + 1 else q)" for i
  proof -
    have "q * r + q * (i - r) = q * i" if "r < i"
      using that by (metis add_mult_distrib2 le_add_diff_inverse less_imp_le_nat)
    then have "(if i \<le> r then i * (q + 1) else (q + 1) * r + q * (i - r)) = pre i"
      by (simp add: pre_def algebra_simps)
    then show "GetFirst (ChunkPartitioner_at p i) = first + pre i"
      unfolding ChunkPartitioner_at_def Let_def p_def ChunkPartitioner.simps ChunkDescriptor.simps by (rule arg_cong)
    show at: "GetLast (ChunkPartitioner_at p i) = GetFirst (ChunkPartitioner_at p i) + (if i < r then q + 1 else q)"
      by (simp add: ChunkPartitioner_at_def Let_def p_def)
    have "pre (Suc i) = pre i + (if i < r then q + 1 else q)"
      by (simp add: pre_def)
    then show "GetLast (ChunkPartitioner_at p i) = first + pre (Suc i)"
      unfolding at using \<open>GetFirst (ChunkPartitioner_at p i) = first + pre i\<close> by simp
  qed
  have "pre k = n"
    using q by (simp add: pre_def mult.commute)
  then have "chunks_cover (ChunkPartitioner_at p) (ChunkPartitioner_Size p) first last'"
    using k(1) q(1) n unfolding chunks_cover_def ChunkPartitioner_Size_def chunk(1,2)
    by (auto simp: p_def pre_def)
  moreover have "GetLast (ChunkPartitioner_at p i) - GetFirst (ChunkPartitioner_at p i) \<in> {q, q + 1}" for i
    unfolding chunk(3) by simp
  moreover have "ChunkPartitioner_Size p = k"
    by (simp add: ChunkPartitioner_Size_def p_def)
  ultimately show thesis
    using that[OF new] unfolding q_def k_def n_def by simp
qed

text \<open>Two chunks, as the serial merge sort makes them: the first one is the larger.\<close>

lemma chunk_partitioner_halves:
  assumes "first + 1 < last'"
  shows "\<exists>p. ChunkPartitioner_new workers first last' 2 = Some p \<and>
     ChunkPartitioner_at p 0 = \<lparr>GetFirst = first, GetLast = first + (last' - first + 1) div 2\<rparr> \<and>
     ChunkPartitioner_at p 1 = \<lparr>GetFirst = first + (last' - first + 1) div 2, GetLast = last'\<rparr>"
proof -
  obtain n where n: "last' = first + n" "2 \<le> n"
    using assms by (metis add_le_cancel_left add_diff_inverse_nat less_imp_le_nat not_less one_add_one Suc_eq_plus1 Suc_leI add.assoc)
  obtain m where "n = 2 * m \<or> n = 2 * m + 1"
    by (metis oddE evenE)
  then show ?thesis
    using n by (auto simp: ChunkPartitioner_new_def ChunkPartitioner_at_def Let_def)
qed

section \<open>Properties of the checks\<close>

text \<open>
  The estimate is enough. Where the checks are passed, the block size is positive, there is at least one chunk and there are at most 512, so that a binary tree of tasks over them has at most 1023 tasks, less than
  the default capacity of a node.
\<close>

lemma determine_block_size_accepts:
  assumes "determine_block_size (int n) policy block_size e1 e2 = Some (Inr b)" "0 < n"
  shows "0 < b" "n div b \<le> 511" "0 < card (bits_of (ep_affinity policy))" "0 < block_size \<Longrightarrow> b = block_size"
proof -
  obtain c where c: "GetCoreCount policy = Some c" "unat c = card (bits_of (ep_affinity policy))"
    using core_count_card by blast
  have r: "c \<noteq> 0" "b = (if block_size = 0 then if n div unat c = 0 then 1 else n div unat c else block_size)" "n div b * 2 + 1 \<le> 1024"
    using assms(1) by (auto simp: determine_block_size_def c(1) Let_def MTAPI_NODE_MAX_TASKS_DEFAULT_def split: if_splits)
  show "0 < b" "0 < block_size \<Longrightarrow> b = block_size"
    by (auto simp: r(2))
  show "n div b \<le> 511"
    using r(3) by linarith
  show "0 < card (bits_of (ep_affinity policy))"
    using r(1) by (simp add: c(2)[symmetric] unat_gt_0)
qed

text \<open>With the default block size no policy that names a core is refused: there are at most 64 cores, and at most twice as many blocks as cores.\<close>

lemma default_block_size_accepted:
  assumes "bits_of (ep_affinity policy) \<noteq> {}"
  shows "\<exists>b. determine_block_size (int n) policy 0 e1 e2 = Some (Inr b)"
proof -
  obtain c where c: "GetCoreCount policy = Some c" "unat c = card (bits_of (ep_affinity policy))"
    using core_count_card by blast
  have "bits_of (ep_affinity policy) \<subseteq> {..<64}"
    by (auto dest: bits_of_less)
  then have "card (bits_of (ep_affinity policy)) \<le> 64"
    using card_mono[of "{..<64::nat}"] by simp
  then have k: "0 < unat c" "unat c \<le> 64"
    using assms by (simp_all add: c(2) card_gt_0_iff)
  define k where "k = unat c"
  have "n div (if n div k = 0 then 1 else n div k) \<le> 2 * k"
  proof (cases "n div k = 0")
    case True
    then show ?thesis
      using k by (auto simp: k_def div_eq_0_iff)
  next
    case False
    define q where "q = n div k"
    have "n < q * k + k"
      using k(1) mod_less_divisor[of k n] div_mult_mod_eq[of n k] unfolding q_def k_def by linarith
    also have "\<dots> \<le> q * k + q * k"
      using False by (simp add: q_def)
    finally have "n < (2 * k + 1) * q"
      by (simp add: algebra_simps)
    then have "n div q < 2 * k + 1"
      using False by (intro less_mult_imp_div_less) simp
    then show ?thesis
      using False by (simp add: q_def)
  qed
  then have "n div (if n div k = 0 then 1 else n div k) * 2 + 1 \<le> 1024"
    using k(2) unfolding k_def by linarith
  then show ?thesis
    using k(1) by (auto simp: determine_block_size_def c(1) Let_def MTAPI_NODE_MAX_TASKS_DEFAULT_def k_def unat_gt_0)
qed

lemma determine_block_size_total:
  assumes "bits_of (ep_affinity policy) \<noteq> {}" "block_size = 0 \<or> n div block_size \<le> 511"
  shows "\<exists>b. determine_block_size (int n) policy block_size e1 e2 = Some (Inr b)"
proof (cases "block_size = 0")
  case False
  obtain c where c: "GetCoreCount policy = Some c" "unat c = card (bits_of (ep_affinity policy))"
    using core_count_card by blast
  have "c \<noteq> 0"
    using assms(1) c(2) by (metis card_eq_0_iff finite_bits_of unat_0)
  then show ?thesis
    using False assms(2) by (simp add: determine_block_size_def c(1) MTAPI_NODE_MAX_TASKS_DEFAULT_def)
qed (use default_block_size_accepted[OF assms(1)] in simp)

lemma determine_block_size_refuses:
  shows "distance < 0 \<Longrightarrow> determine_block_size distance policy block_size e1 e2 = Some (Inl (ErrorException e1))"
    and "0 \<le> distance \<Longrightarrow> bits_of (ep_affinity policy) = {} \<Longrightarrow>
      determine_block_size distance policy block_size e1 e2 = Some (Inl (ErrorException ''No cores in execution policy''))"
  using core_count_card[of policy] by (auto simp: determine_block_size_def unat_eq_0)

end
