(* ===== verification/For_Each_Reduce.thy ===== *)
theory For_Each_Reduce
  imports Partitioner "HOL-Library.Multiset"
begin

text \<open>
  \<^verbatim>\<open>ForEach\<close>, \<^verbatim>\<open>Reduce\<close> and \<^verbatim>\<open>Count\<close> (\<^verbatim>\<open>algorithms_cpp/internal/for_each-inl.h\<close>, \<^verbatim>\<open>reduce-inl.h\<close>, \<^verbatim>\<open>count-inl.h\<close>).

  All three split the chunks of a range in halves until one chunk is left. A task is spawned for each half, and both are waited for. Spawning a task and waiting for it runs its function once; the
  two tasks run in any interleaving. For \<^verbatim>\<open>ForEach\<close>, whose function has side effects, an action is the set of the orders in which the elements can be visited. The functions of a
  reduction compute values, so that the order of the two tasks does not show.
\<close>

section \<open>ForEach\<close>

function ForEachFunctor_Action :: "BlockSizePartitioner \<Rightarrow> nat \<Rightarrow> nat \<Rightarrow> nat list set" where
  "ForEachFunctor_Action partitioner chunk_first chunk_last =
     (if chunk_first = chunk_last then
        (let chunk = BlockSizePartitioner_at partitioner chunk_first in {[GetFirst chunk..<GetLast chunk]})
      else if chunk_last < chunk_first then {}
      else (let chunk_split_index = (chunk_first + chunk_last) div 2 in
        (\<Union>task_l \<in> ForEachFunctor_Action partitioner chunk_first chunk_split_index.
         \<Union>task_r \<in> ForEachFunctor_Action partitioner (chunk_split_index + 1) chunk_last. shuffles task_l task_r)))"
  by pat_completeness auto
termination
  by (relation "measure (\<lambda>(p, f, l). l - f)") auto

declare ForEachFunctor_Action.simps [simp del]

definition ForEachRecursive :: "nat \<Rightarrow> nat \<Rightarrow> ExecutionPolicy \<Rightarrow> nat \<Rightarrow> (cxx_exception + nat list set) option" where
  "ForEachRecursive first last' policy block_size =
     (let distance = int last' - int first in
      if distance = 0 then Some (Inr {[]})
      else do {
        checked \<leftarrow> determine_block_size distance policy block_size ''Negative range for ForEach''
                    ''Not enough MTAPI tasks available for parallel foreach'';
        case checked of Inl e \<Rightarrow> Some (Inl e)
        | Inr block_size \<Rightarrow> do {
            partitioner \<leftarrow> BlockSizePartitioner_new first last' block_size;
            Some (Inr (ForEachFunctor_Action partitioner 0 (BlockSizePartitioner_Size partitioner - 1))) } })"

text \<open>What the visits do when the function works on the element it is given: each visit replaces the element.\<close>

definition run_visits :: "('a \<Rightarrow> 'a) \<Rightarrow> nat list \<Rightarrow> 'a list \<Rightarrow> 'a list" where
  "run_visits unary visits xs = fold (\<lambda>it xs. xs[it := unary (xs ! it)]) visits xs"

section \<open>Reduce\<close>

function reduce_loop :: "('r \<Rightarrow> 'r \<Rightarrow> 'r) \<Rightarrow> ('a \<Rightarrow> 'r) \<Rightarrow> 'a list \<Rightarrow> nat \<Rightarrow> nat \<Rightarrow> 'r \<Rightarrow> 'r option" where
  "reduce_loop reduction transformation xs it last' result =
     (if it = last' then Some result
      else if length xs \<le> it then None
      else reduce_loop reduction transformation xs (it + 1) last' (reduction result (transformation (xs ! it))))"
  by pat_completeness auto
termination
  by (relation "measure (\<lambda>(red, tr, xs, it, l, r). length xs - it)") auto

declare reduce_loop.simps [simp del]

function ReduceFunctor_Action ::
    "('r \<Rightarrow> 'r \<Rightarrow> 'r) \<Rightarrow> ('a \<Rightarrow> 'r) \<Rightarrow> 'r \<Rightarrow> 'a list \<Rightarrow> BlockSizePartitioner \<Rightarrow> nat \<Rightarrow> nat \<Rightarrow> 'r option" where
  "ReduceFunctor_Action reduction transformation neutral xs partitioner chunk_first chunk_last =
     (if chunk_first = chunk_last then
        (let chunk = BlockSizePartitioner_at partitioner chunk_first in
         reduce_loop reduction transformation xs (GetFirst chunk) (GetLast chunk) neutral)
      else if chunk_last < chunk_first then None
      else (let chunk_split_index = (chunk_first + chunk_last) div 2 in
        do { result_l \<leftarrow> ReduceFunctor_Action reduction transformation neutral xs partitioner chunk_first chunk_split_index;
             result_r \<leftarrow> ReduceFunctor_Action reduction transformation neutral xs partitioner (chunk_split_index + 1) chunk_last;
             Some (reduction result_l result_r) }))"
  by pat_completeness auto
termination
  by (relation "measure (\<lambda>(red, tr, n, xs, p, f, l). l - f)") auto

declare ReduceFunctor_Action.simps [simp del]

definition ReduceRecursive ::
    "'a list \<Rightarrow> nat \<Rightarrow> nat \<Rightarrow> 'r \<Rightarrow> ('r \<Rightarrow> 'r \<Rightarrow> 'r) \<Rightarrow> ('a \<Rightarrow> 'r) \<Rightarrow> ExecutionPolicy \<Rightarrow> nat \<Rightarrow> (cxx_exception + 'r) option" where
  "ReduceRecursive xs first last' neutral reduction transformation policy block_size =
     (let distance = int last' - int first in
      if distance = 0 then Some (Inr neutral)
      else do {
        checked \<leftarrow> determine_block_size distance policy block_size ''Negative range for Reduce''
                    ''Number of computation tasks required in reduction would exceed MTAPI maximum number of tasks'';
        case checked of Inl e \<Rightarrow> Some (Inl e)
        | Inr block_size \<Rightarrow> do {
            partitioner \<leftarrow> BlockSizePartitioner_new first last' block_size;
            result \<leftarrow> ReduceFunctor_Action reduction transformation neutral xs partitioner 0 (BlockSizePartitioner_Size partitioner - 1);
            Some (Inr result) } })"

section \<open>Count\<close>

definition ValueComparisonFunction :: "'a \<Rightarrow> 'a \<Rightarrow> int" where
  "ValueComparisonFunction v element = (if element = v then 1 else 0)"

definition FunctionComparisonFunction :: "('a \<Rightarrow> bool) \<Rightarrow> 'a \<Rightarrow> int" where
  "FunctionComparisonFunction f element = (if f element then 1 else 0)"

definition Count :: "'a list \<Rightarrow> nat \<Rightarrow> nat \<Rightarrow> 'a \<Rightarrow> ExecutionPolicy \<Rightarrow> nat \<Rightarrow> (cxx_exception + int) option" where
  "Count xs first last' v policy block_size =
     ReduceRecursive xs first last' 0 (+) (ValueComparisonFunction v) policy block_size"

definition CountIf :: "'a list \<Rightarrow> nat \<Rightarrow> nat \<Rightarrow> ('a \<Rightarrow> bool) \<Rightarrow> ExecutionPolicy \<Rightarrow> nat \<Rightarrow> (cxx_exception + int) option" where
  "CountIf xs first last' comparison policy block_size =
     ReduceRecursive xs first last' 0 (+) (FunctionComparisonFunction comparison) policy block_size"

section \<open>The tree of tasks\<close>

lemma reduce_loop_foldl:
  assumes "it \<le> last'" "last' \<le> length xs"
  shows "reduce_loop reduction transformation xs it last' result = Some (foldl reduction result (map transformation (segment it last' xs)))"
  using assms
proof (induction "last' - it" arbitrary: it result)
  case 0
  then show ?case
    by (simp add: reduce_loop.simps[of _ _ _ it])
next
  case (Suc n)
  then have it: "it < last'" "n = last' - (it + 1)"
    by simp_all
  have "reduce_loop reduction transformation xs it last' result = reduce_loop reduction transformation xs (it + 1) last' (reduction result (transformation (xs ! it)))"
    using it(1) Suc.prems by (simp add: reduce_loop.simps[of _ _ _ it])
  also have "\<dots> = Some (foldl reduction (reduction result (transformation (xs ! it))) (map transformation (segment (it + 1) last' xs)))"
    using it Suc.prems by (intro Suc.hyps(1)) simp_all
  finally show ?case
    using segment_Cons[OF it(1) Suc.prems(2)] by simp
qed

lemma foldl_assoc:
  assumes "\<And>a b c. reduction (reduction a b) c = reduction a (reduction b c)" "\<And>a. reduction neutral a = a" "ys \<noteq> []"
  shows "foldl reduction a ys = reduction a (foldl reduction neutral ys)"
proof -
  have "foldl reduction (reduction a y) zs = reduction a (foldl reduction y zs)" for y zs
    by (induction zs arbitrary: y) (simp_all add: assms(1))
  then show ?thesis
    using assms(2,3) by (cases ys) simp_all
qed

lemma reduce_action_foldl:
  assumes "chunks_cover (BlockSizePartitioner_at p) n first last'" "last' \<le> length xs" "f \<le> l" "l < n"
    and law: "\<And>a b c. reduction (reduction a b) c = reduction a (reduction b c)" "\<And>a. reduction neutral a = a"
  shows "ReduceFunctor_Action reduction transformation neutral xs p f l =
     Some (foldl reduction neutral (map transformation (segment (GetFirst (BlockSizePartitioner_at p f)) (GetLast (BlockSizePartitioner_at p l)) xs)))"
  using assms(3)
proof (rule chunk_tree_induct)
  fix i
  assume "f \<le> i" "i \<le> l"
  then have "GetFirst (BlockSizePartitioner_at p i) \<le> GetLast (BlockSizePartitioner_at p i)" "GetLast (BlockSizePartitioner_at p i) \<le> length xs"
    using assms(1,2,4) chunks_cover_bounds(4)[OF assms(1), of i i] by (auto simp: chunks_cover_def less_imp_le)
  then show "ReduceFunctor_Action reduction transformation neutral xs p i i =
     Some (foldl reduction neutral (map transformation (segment (GetFirst (BlockSizePartitioner_at p i)) (GetLast (BlockSizePartitioner_at p i)) xs)))"
    by (simp add: ReduceFunctor_Action.simps Let_def reduce_loop_foldl)
next
  fix a b :: nat
  let ?m = "(a + b) div 2" and ?c = "BlockSizePartitioner_at p"
  assume ab: "f \<le> a" "a < b" "b \<le> l"
    and IH: "ReduceFunctor_Action reduction transformation neutral xs p a ?m = Some (foldl reduction neutral (map transformation (segment (GetFirst (?c a)) (GetLast (?c ?m)) xs)))"
      "ReduceFunctor_Action reduction transformation neutral xs p (?m + 1) b = Some (foldl reduction neutral (map transformation (segment (GetFirst (?c (?m + 1))) (GetLast (?c b)) xs)))"
  define x y z where "x = GetFirst (?c a)" and "y = GetFirst (?c (?m + 1))" and "z = GetLast (?c b)"
  have m: "a \<le> ?m" "?m + 1 \<le> b" "b < n"
    using chunk_split_index[OF ab(2)] ab assms(4) by auto
  have le: "x < y" "y < z" "z \<le> length xs" and y: "GetLast (?c ?m) = y"
    using chunks_cover_split[OF assms(1) m] assms(2) by (simp_all add: x_def y_def z_def)
  then have "segment y z xs \<noteq> []"
    by (metis length_segment less_numeral_extra(3) list.size(3) zero_less_diff)
  then have "foldl reduction neutral (map transformation (segment x z xs)) =
      reduction (foldl reduction neutral (map transformation (segment x y xs))) (foldl reduction neutral (map transformation (segment y z xs)))"
    using foldl_assoc[OF law, of "map transformation (segment y z xs)"] segment_append[of x y z xs] le by (metis foldl_append less_imp_le list.map_disc_iff map_append)
  then show "ReduceFunctor_Action reduction transformation neutral xs p a b = Some (foldl reduction neutral (map transformation (segment (GetFirst (?c a)) (GetLast (?c b)) xs)))"
    using ab(2) IH[folded x_def y_def z_def, unfolded y] by (simp add: ReduceFunctor_Action.simps[of _ _ _ _ _ a b] Let_def x_def[symmetric] z_def[symmetric])
qed

lemma shuffles_nonempty: "shuffles u v \<noteq> {}"
proof -
  have "u @ v \<in> shuffles u v"
    by (induction u v rule: shuffles.induct) auto
  then show ?thesis
    by blast
qed

text \<open>Every run of the tasks below a node of the tree visits the positions of its chunks, each once.\<close>

lemma for_each_action_runs:
  assumes "chunks_cover (BlockSizePartitioner_at p) n first last'" "f \<le> l" "l < n"
  shows "ForEachFunctor_Action p f l \<noteq> {} \<and>
     (\<forall>visits \<in> ForEachFunctor_Action p f l. mset visits = mset [GetFirst (BlockSizePartitioner_at p f)..<GetLast (BlockSizePartitioner_at p l)])"
  using assms(2)
proof (rule chunk_tree_induct)
  fix a b :: nat
  let ?m = "(a + b) div 2" and ?c = "BlockSizePartitioner_at p"
  assume ab: "f \<le> a" "a < b" "b \<le> l"
    and IH: "ForEachFunctor_Action p a ?m \<noteq> {} \<and> (\<forall>visits \<in> ForEachFunctor_Action p a ?m. mset visits = mset [GetFirst (?c a)..<GetLast (?c ?m)])"
      "ForEachFunctor_Action p (?m + 1) b \<noteq> {} \<and> (\<forall>visits \<in> ForEachFunctor_Action p (?m + 1) b. mset visits = mset [GetFirst (?c (?m + 1))..<GetLast (?c b)])"
  have m: "a \<le> ?m" "?m + 1 \<le> b" "b < n"
    using chunk_split_index[OF ab(2)] ab assms(3) by auto
  have y: "GetLast (?c ?m) = GetFirst (?c (?m + 1))" and "GetFirst (?c a) \<le> GetFirst (?c (?m + 1))" "GetFirst (?c (?m + 1)) \<le> GetLast (?c b)"
    using chunks_cover_split[OF assms(1) m] by simp_all
  then have "[GetFirst (?c a)..<GetLast (?c ?m)] @ [GetFirst (?c (?m + 1))..<GetLast (?c b)] = [GetFirst (?c a)..<GetLast (?c b)]"
    unfolding y by (metis le_add_diff_inverse upt_add_eq_append)
  then have "mset [GetFirst (?c a)..<GetLast (?c ?m)] + mset [GetFirst (?c (?m + 1))..<GetLast (?c b)] = mset [GetFirst (?c a)..<GetLast (?c b)]"
    by (metis mset_append)
  moreover have "ForEachFunctor_Action p a b =
      (\<Union>task_l \<in> ForEachFunctor_Action p a ?m. \<Union>task_r \<in> ForEachFunctor_Action p (?m + 1) b. shuffles task_l task_r)"
    using ab(2) by (simp add: ForEachFunctor_Action.simps[of p a b] Let_def)
  ultimately show "ForEachFunctor_Action p a b \<noteq> {} \<and> (\<forall>visits \<in> ForEachFunctor_Action p a b. mset visits = mset [GetFirst (?c a)..<GetLast (?c b)])"
    using IH by (auto simp: mset_shuffles shuffles_nonempty)
qed (simp add: ForEachFunctor_Action.simps Let_def)

section \<open>Properties\<close>

lemma run_visits_map:
  assumes "distinct visits" "\<forall>it \<in> set visits. it < length xs"
  shows "run_visits unary visits xs = map (\<lambda>i. if i \<in> set visits then unary (xs ! i) else xs ! i) [0..<length xs]"
  using assms
proof (induction visits arbitrary: xs)
  case (Cons it visits)
  have "run_visits unary (it # visits) xs = run_visits unary visits (xs[it := unary (xs ! it)])"
    by (simp add: run_visits_def)
  also have "\<dots> = map (\<lambda>i. if i \<in> set visits then unary (xs[it := unary (xs ! it)] ! i) else xs[it := unary (xs ! it)] ! i) [0..<length xs]"
    using Cons.IH[of "xs[it := unary (xs ! it)]"] Cons.prems by simp
  also have "\<dots> = map (\<lambda>i. if i \<in> set (it # visits) then unary (xs ! i) else xs ! i) [0..<length xs]"
    using Cons.prems by (auto simp: nth_list_update)
  finally show ?case .
qed (simp add: run_visits_def map_nth)

text \<open>
  C29. A parallel loop visits each element once. On a range, with a policy that names a core and no more blocks than the task library has tasks for (or the default block size), \<^verbatim>\<open>ForEach\<close> runs, and in
  every interleaving of its tasks it calls the function for each position of the range exactly once and for no other; so a function that replaces the
  element it is given replaces exactly the elements of the range.
\<close>

theorem for_each_visits_once:
  assumes "first \<le> last'" "last' \<le> length xs" "bits_of (ep_affinity policy) \<noteq> {}" "block_size = 0 \<or> (last' - first) div block_size \<le> 511"
  shows "\<exists>runs. ForEachRecursive first last' policy block_size = Some (Inr runs) \<and> runs \<noteq> {} \<and>
     (\<forall>visits \<in> runs. mset visits = mset [first..<last'] \<and>
        run_visits unary visits xs = map (\<lambda>i. if first \<le> i \<and> i < last' then unary (xs ! i) else xs ! i) [0..<length xs])"
proof -
  have effect: "run_visits unary visits xs = map (\<lambda>i. if first \<le> i \<and> i < last' then unary (xs ! i) else xs ! i) [0..<length xs]"
    if "mset visits = mset [first..<last']" for visits
  proof -
    have "set visits = {first..<last'}" "distinct visits"
      using that by (metis set_mset_mset set_upt, metis distinct_upt mset_eq_imp_distinct_iff)
    then show ?thesis
      using run_visits_map[of visits xs unary] assms(2) by (auto intro!: map_cong)
  qed
  show ?thesis
  proof (cases "first = last'")
    case True
    then show ?thesis
      using effect[of "[]"] by (simp add: ForEachRecursive_def)
  next
    case False
    then have range: "first < last'" "int last' - int first = int (last' - first)" "int last' - int first \<noteq> 0"
      using assms(1) by auto
    obtain b where b: "determine_block_size (int last' - int first) policy block_size ''Negative range for ForEach''
                    ''Not enough MTAPI tasks available for parallel foreach'' = Some (Inr b)"
      using determine_block_size_total[OF assms(3,4)] range(2) by metis
    then have "0 < b"
      using determine_block_size_accepts(1) range by (metis zero_less_diff)
    then obtain p where p: "BlockSizePartitioner_new first last' b = Some p"
       "chunks_cover (BlockSizePartitioner_at p) (BlockSizePartitioner_Size p) first last'"
      using block_size_partitioner[OF range(1)] by metis
    define k where "k = BlockSizePartitioner_Size p"
    have k: "0 < k" "GetFirst (BlockSizePartitioner_at p 0) = first" "GetLast (BlockSizePartitioner_at p (k - 1)) = last'"
      using p(2) by (simp_all add: chunks_cover_def k_def)
    have "ForEachRecursive first last' policy block_size = Some (Inr (ForEachFunctor_Action p 0 (k - 1)))"
      using range(3) by (simp add: ForEachRecursive_def b p(1) k_def)
    moreover have "ForEachFunctor_Action p 0 (k - 1) \<noteq> {} \<and> (\<forall>visits \<in> ForEachFunctor_Action p 0 (k - 1). mset visits = mset [first..<last'])"
      using for_each_action_runs[OF p(2), of 0 "k - 1"] k by (simp add: k_def)
    ultimately show ?thesis
      using effect by blast
  qed
qed

theorem for_each_visits_once_witness:
  "\<exists>runs. ForEachRecursive 1 4 two_cores 0 = Some (Inr runs) \<and> runs \<noteq> {} \<and>
     (\<forall>visits \<in> runs. mset visits = mset [1, 2, 3] \<and> run_visits (\<lambda>x. x * x) visits [2, 3, 4, 5, 6] = [2, 9, 16, 25, 6 :: int])"
  using for_each_visits_once[of 1 4 "[2, 3, 4, 5, 6 :: int]" two_cores 0 "\<lambda>x. x * x"] two_cores_nonempty
  by (simp add: upt_rec numeral_2_eq_2 numeral_3_eq_3)

lemma reduce_recursive_foldl:
  assumes "first \<le> last'" "last' \<le> length xs" "bits_of (ep_affinity policy) \<noteq> {}" "block_size = 0 \<or> (last' - first) div block_size \<le> 511"
    and law: "\<And>a b c. reduction (reduction a b) c = reduction a (reduction b c)" "\<And>a. reduction neutral a = a"
  shows "ReduceRecursive xs first last' neutral reduction transformation policy block_size =
     Some (Inr (foldl reduction neutral (map transformation (segment first last' xs))))"
proof (cases "first = last'")
  case True
  then show ?thesis
    by (simp add: ReduceRecursive_def)
next
  case False
  then have range: "first < last'" "int last' - int first = int (last' - first)" "int last' - int first \<noteq> 0"
    using assms(1) by auto
  obtain b where b: "determine_block_size (int last' - int first) policy block_size ''Negative range for Reduce''
                    ''Number of computation tasks required in reduction would exceed MTAPI maximum number of tasks'' = Some (Inr b)"
    using determine_block_size_total[OF assms(3,4)] range(2) by metis
  then have "0 < b"
    using determine_block_size_accepts(1) range by (metis zero_less_diff)
  then obtain p where p: "BlockSizePartitioner_new first last' b = Some p"
     "chunks_cover (BlockSizePartitioner_at p) (BlockSizePartitioner_Size p) first last'"
    using block_size_partitioner[OF range(1)] by metis
  define k where "k = BlockSizePartitioner_Size p"
  have k: "0 < k" "GetFirst (BlockSizePartitioner_at p 0) = first" "GetLast (BlockSizePartitioner_at p (k - 1)) = last'"
    using p(2) by (simp_all add: chunks_cover_def k_def)
  then show ?thesis
    using range(3) reduce_action_foldl[OF p(2) assms(2), of 0 "k - 1", OF _ _ law] by (simp add: ReduceRecursive_def b p(1) k_def)
qed

text \<open>
  C28. A reduction is a fold. With an associative function and a neutral element on its left, \<^verbatim>\<open>Reduce\<close> over a range gives what a serial fold of the transformed elements gives, whatever the
  block size; on an empty range it is the neutral element. No element outside of the range is read.
\<close>

theorem reduce_is_fold:
  assumes "first \<le> last'" "last' \<le> length xs" "bits_of (ep_affinity policy) \<noteq> {}" "block_size = 0 \<or> (last' - first) div block_size \<le> 511"
    and law: "\<And>a b c. reduction (reduction a b) c = reduction a (reduction b c)" "\<And>a. reduction neutral a = a"
  shows "ReduceRecursive xs first last' neutral reduction transformation policy block_size =
     Some (Inr (foldl reduction neutral (map transformation (segment first last' xs))))"
  by (rule reduce_recursive_foldl[OF assms])

theorem reduce_is_fold_witness:
  "ReduceRecursive [''a'', ''b'', ''c'', ''d'', ''e''] 1 5 [] (@) (\<lambda>s. s @ ''.'') two_cores 1 = Some (Inr ''b.c.d.e.'')"
  using reduce_is_fold[of 1 5 "[''a'', ''b'', ''c'', ''d'', ''e'']" two_cores 1 "(@)" "[]" "\<lambda>s. s @ ''.''"] two_cores_nonempty
  by (simp add: segment_def)

text \<open>Counting is the reduction by addition of zeros and ones.\<close>

lemma foldl_add_indicator: "foldl (+) n (map (\<lambda>x. if P x then 1 else 0) ys) = n + int (length (filter P ys))"
  by (induction ys arbitrary: n) simp_all

lemma count_elements:
  assumes "first \<le> last'" "last' \<le> length xs" "bits_of (ep_affinity policy) \<noteq> {}" "block_size = 0 \<or> (last' - first) div block_size \<le> 511"
  shows "Count xs first last' v policy block_size = Some (Inr (int (count_list (segment first last' xs) v)))"
    and "CountIf xs first last' P policy block_size = Some (Inr (int (length (filter P (segment first last' xs)))))"
proof -
  have "count_list ys v = length (filter (\<lambda>x. x = v) ys)" for ys
    by (induction ys) auto
  then show "Count xs first last' v policy block_size = Some (Inr (int (count_list (segment first last' xs) v)))"
    using reduce_recursive_foldl[OF assms, of "(+)" 0 "ValueComparisonFunction v"]
    by (simp add: Count_def ValueComparisonFunction_def[abs_def] foldl_add_indicator)
  show "CountIf xs first last' P policy block_size = Some (Inr (int (length (filter P (segment first last' xs)))))"
    using reduce_recursive_foldl[OF assms, of "(+)" 0 "FunctionComparisonFunction P"]
    by (simp add: CountIf_def FunctionComparisonFunction_def[abs_def] foldl_add_indicator)
qed

end
