(* ===== verification/Scan_Algorithm.thy ===== *)
theory Scan_Algorithm
  imports For_Each_Reduce
begin

text \<open>
  \<^verbatim>\<open>Scan\<close> (\<^verbatim>\<open>algorithms_cpp/internal/scan-inl.h\<close>): prefix sums of a range. A first pass computes the prefixes inside each chunk and the sum of the chunks below each node of the tree of
  tasks; the sums are kept in an array that is indexed like a heap. A second pass adds what precedes each chunk.

  The two tasks of a node write to different parts of the output and to different entries of the array; \<open>left_first\<close> says for every node which of them runs first, and the
  theorems hold for all choices. The second pass combines sums with the operator \<^verbatim>\<open>+\<close> of the value type (\<open>plus'\<close>) and not with the function that was given.
\<close>

section \<open>Definitions\<close>

function scan_first_loop ::
    "('r \<Rightarrow> 'r \<Rightarrow> 'r) \<Rightarrow> ('a \<Rightarrow> 'r) \<Rightarrow> 'a list \<Rightarrow> nat \<Rightarrow> nat \<Rightarrow> nat \<Rightarrow> 'r \<Rightarrow> 'r list \<Rightarrow> ('r \<times> 'r list) option" where
  "scan_first_loop scan transformation xs iter_in last_in iter_out result out =
     (if iter_in = last_in then Some (result, out)
      else if length xs \<le> iter_in then None
      else do {
        let result = scan result (transformation (xs ! iter_in));
        out \<leftarrow> assign out iter_out result;
        scan_first_loop scan transformation xs (iter_in + 1) last_in (iter_out + 1) result out })"
  by pat_completeness auto
termination
  by (relation "measure (\<lambda>(s, t, xs, i, l, j, r, out). length xs - i)") auto

declare scan_first_loop.simps [simp del]

function scan_second_loop :: "('r \<Rightarrow> 'r \<Rightarrow> 'r) \<Rightarrow> 'r \<Rightarrow> nat \<Rightarrow> nat \<Rightarrow> nat \<Rightarrow> 'r list \<Rightarrow> 'r list option" where
  "scan_second_loop scan parent_value iter_in last_in iter_out out =
     (if iter_in = last_in then Some out
      else if length out \<le> iter_out then None
      else scan_second_loop scan parent_value (iter_in + 1) last_in (iter_out + 1) (out[iter_out := scan parent_value (out ! iter_out)]))"
  by pat_completeness auto
termination
  by (relation "measure (\<lambda>(s, p, i, l, j, out). length out - j)") auto

declare scan_second_loop.simps [simp del]

text \<open>The leaf of the tree: one chunk, in the first and in the second pass.\<close>

definition scan_leaf ::
    "('r \<Rightarrow> 'r \<Rightarrow> 'r) \<Rightarrow> ('a \<Rightarrow> 'r) \<Rightarrow> 'a list \<Rightarrow> ChunkDescriptor \<Rightarrow> bool \<Rightarrow> nat \<Rightarrow> nat \<Rightarrow> 'r \<Rightarrow> 'r list \<times> 'r list \<Rightarrow> ('r list \<times> 'r list) option" where
  "scan_leaf scan transformation xs chunk is_first_pass output_iterator node_id parent_value = (\<lambda>(out, tree_values).
     if is_first_pass then do {
       x \<leftarrow> deref xs (GetFirst chunk);
       let result = transformation x;
       out \<leftarrow> assign out output_iterator result;
       (result, out) \<leftarrow> scan_first_loop scan transformation xs (GetFirst chunk + 1) (GetLast chunk) (output_iterator + 1) result out;
       tree_values \<leftarrow> assign tree_values node_id result;
       Some (out, tree_values) }
     else do {
       out \<leftarrow> scan_second_loop scan parent_value (GetFirst chunk) (GetLast chunk) output_iterator out;
       Some (out, tree_values) })"

function ScanFunctor_Action ::
    "(nat \<Rightarrow> bool) \<Rightarrow> ('r \<Rightarrow> 'r \<Rightarrow> 'r) \<Rightarrow> ('r \<Rightarrow> 'r \<Rightarrow> 'r) \<Rightarrow> ('a \<Rightarrow> 'r) \<Rightarrow> 'r \<Rightarrow> 'a list \<Rightarrow> BlockSizePartitioner \<Rightarrow> bool \<Rightarrow>
     nat \<Rightarrow> nat \<Rightarrow> nat \<Rightarrow> nat \<Rightarrow> 'r \<Rightarrow> 'r list \<times> 'r list \<Rightarrow> ('r list \<times> 'r list) option" where
  "ScanFunctor_Action left_first plus' scan transformation neutral xs partitioner is_first_pass
       chunk_first chunk_last output_iterator node_id parent_value s =
     (if chunk_first = chunk_last then
        scan_leaf scan transformation xs (BlockSizePartitioner_at partitioner chunk_first) is_first_pass output_iterator node_id parent_value s
      else if chunk_last < chunk_first then None
      else do {
        let chunk_split_index = (chunk_first + chunk_last) div 2;
        let id_l = 2 * node_id + 1;
        let id_r = 2 * node_id + 2;
        let output_r = output_iterator + (GetFirst (BlockSizePartitioner_at partitioner (chunk_split_index + 1)) - GetFirst (BlockSizePartitioner_at partitioner chunk_first));
        (parent_l, parent_r) \<leftarrow> (if is_first_pass then Some (neutral, neutral)
            else do { value_l \<leftarrow> deref (snd s) id_l; Some (parent_value, plus' value_l parent_value) });
        s \<leftarrow> (if left_first node_id then do {
                s \<leftarrow> ScanFunctor_Action left_first plus' scan transformation neutral xs partitioner is_first_pass chunk_first chunk_split_index output_iterator id_l parent_l s;
                ScanFunctor_Action left_first plus' scan transformation neutral xs partitioner is_first_pass (chunk_split_index + 1) chunk_last output_r id_r parent_r s }
              else do {
                s \<leftarrow> ScanFunctor_Action left_first plus' scan transformation neutral xs partitioner is_first_pass (chunk_split_index + 1) chunk_last output_r id_r parent_r s;
                ScanFunctor_Action left_first plus' scan transformation neutral xs partitioner is_first_pass chunk_first chunk_split_index output_iterator id_l parent_l s });
        value_l \<leftarrow> deref (snd s) id_l;
        value_r \<leftarrow> deref (snd s) id_r;
        tree_values \<leftarrow> assign (snd s) node_id (scan value_l value_r);
        Some (fst s, tree_values) })"
  by pat_completeness auto
termination
  by (relation "measure (\<lambda>(lf, pl, sc, tr, n, xs, p, fp, f, l, rest). l - f)") auto

declare ScanFunctor_Action.simps [simp del]

text \<open>\<open>values\<close> is what the array of sums holds before anything is written to it.\<close>

definition ScanIteratorCheck ::
    "(bool \<Rightarrow> nat \<Rightarrow> bool) \<Rightarrow> ('r \<Rightarrow> 'r \<Rightarrow> 'r) \<Rightarrow> (nat \<Rightarrow> 'r) \<Rightarrow> 'a list \<Rightarrow> nat \<Rightarrow> nat \<Rightarrow> 'r list \<Rightarrow> nat \<Rightarrow> 'r \<Rightarrow> ('r \<Rightarrow> 'r \<Rightarrow> 'r) \<Rightarrow> ('a \<Rightarrow> 'r) \<Rightarrow>
     ExecutionPolicy \<Rightarrow> nat \<Rightarrow> (cxx_exception + 'r list) option" where
  "ScanIteratorCheck left_first plus' values xs first last' out output_iterator neutral scan transformation policy block_size =
     (let distance = int last' - int first in
      if distance = 0 then Some (Inr out)
      else do {
        checked \<leftarrow> determine_block_size distance policy block_size ''Negative range for Scan''
                    ''Not enough MTAPI tasks available for parallel scan'';
        case checked of Inl e \<Rightarrow> Some (Inl e)
        | Inr block_size \<Rightarrow> do {
            let tree_values = map values [0..<MTAPI_NODE_MAX_TASKS_DEFAULT];
            partitioner \<leftarrow> BlockSizePartitioner_new first last' block_size;
            s \<leftarrow> ScanFunctor_Action (left_first True) plus' scan transformation neutral xs partitioner True 0 (BlockSizePartitioner_Size partitioner - 1)
                   output_iterator 0 neutral (out, tree_values);
            s \<leftarrow> ScanFunctor_Action (left_first False) plus' scan transformation neutral xs partitioner False 0 (BlockSizePartitioner_Size partitioner - 1)
                   output_iterator 0 neutral s;
            Some (Inr (fst s)) } })"

section \<open>Nodes of the tree\<close>

text \<open>A node of the heap is below another one if it reaches it by going to the parent.\<close>

definition below :: "nat \<Rightarrow> nat \<Rightarrow> bool" where
  "below m node \<longleftrightarrow> (\<exists>k. ((\<lambda>i. (i - 1) div 2) ^^ k) m = node)"

lemma below_refl [simp]: "below m m"
  unfolding below_def by (rule exI[of _ 0]) simp

lemma below_trans:
  assumes "below m n" "(n - 1) div 2 = node"
  shows "below m node"
proof -
  obtain k where "((\<lambda>i. (i - 1) div 2) ^^ k) m = n"
    using assms(1) by (auto simp: below_def)
  then have "((\<lambda>i. (i - 1) div 2) ^^ Suc k) m = node"
    using assms(2) by simp
  then show ?thesis
    unfolding below_def by blast
qed

lemma below_children: "below m (2 * n + 1) \<Longrightarrow> below m n" "below m (2 * n + 2) \<Longrightarrow> below m n"
  by (erule below_trans, simp)+

lemma iterate_parent_le: "((\<lambda>i. (i - 1) div 2) ^^ k) m \<le> (m :: nat)"
  by (induction k) (auto intro: order_trans[OF div_le_dividend] order_trans[OF diff_le_self])

lemma below_le: "below m n \<Longrightarrow> n \<le> m"
  using iterate_parent_le by (auto simp: below_def)

lemma below_siblings: "below m (2 * n + 1) \<Longrightarrow> below m (2 * n + 2) \<Longrightarrow> False"
proof -
  let ?p = "\<lambda>i :: nat. (i - 1) div 2"
  assume "below m (2 * n + 1)" "below m (2 * n + 2)"
  then obtain j k where jk: "(?p ^^ j) m = 2 * n + 1" "(?p ^^ k) m = 2 * n + 2"
    by (auto simp: below_def)
  consider "j = k" | d where "k = d + j" | d where "j = Suc d + k"
    by (metis add.commute less_imp_Suc_add linorder_neqE_nat add_Suc)
  then show False
  proof cases
    case 1
    then show ?thesis
      using jk by simp
  next
    case 2
    then have "(?p ^^ d) (2 * n + 1) = 2 * n + 2"
      using jk by (simp add: funpow_add)
    then show ?thesis
      using iterate_parent_le[of d "2 * n + 1"] by simp
  next
    case 3
    then have "(?p ^^ Suc d) (2 * n + 2) = 2 * n + 1"
      using jk by (simp only: funpow_add comp_apply)
    then have "(?p ^^ d) n = 2 * n + 1"
      by (simp add: funpow_Suc_right del: funpow.simps)
    then show ?thesis
      using iterate_parent_le[of d n] by simp
  qed
qed

section \<open>The first pass\<close>

text \<open>The sum of a range of elements.\<close>

definition range_sum :: "('r \<Rightarrow> 'r \<Rightarrow> 'r) \<Rightarrow> 'r \<Rightarrow> ('a \<Rightarrow> 'r) \<Rightarrow> 'a list \<Rightarrow> nat \<Rightarrow> nat \<Rightarrow> 'r" where
  "range_sum scan neutral transformation xs a b = foldl scan neutral (map (\<lambda>i. transformation (xs ! i)) [a..<b])"

lemma range_sum_Suc: "a \<le> b \<Longrightarrow> range_sum scan neutral t xs a (Suc b) = scan (range_sum scan neutral t xs a b) (t (xs ! b))"
  by (simp add: range_sum_def)

lemma range_sum_split:
  assumes "\<And>a b c. scan (scan a b) c = scan a (scan b c)" "\<And>a. scan neutral a = a" "a \<le> b" "b < c"
  shows "range_sum scan neutral t xs a c = scan (range_sum scan neutral t xs a b) (range_sum scan neutral t xs b c)"
proof -
  have "[a..<c] = [a..<b] @ [b..<c]"
    using upt_add_eq_append[OF assms(3), of "c - b"] assms(4) by simp
  then show ?thesis
    using foldl_assoc[OF assms(1,2), of "map (\<lambda>i. t (xs ! i)) [b..<c]" "range_sum scan neutral t xs a b"] assms(4)
    by (simp add: range_sum_def)
qed

text \<open>The output of a pass over the elements from \<open>a\<close> to \<open>b\<close>, which start at \<open>j\<close> in the output: \<open>v\<close> gives the new values, and nothing else changes.\<close>

definition writes_range :: "nat \<Rightarrow> nat \<Rightarrow> nat \<Rightarrow> (nat \<Rightarrow> 'r) \<Rightarrow> 'r list \<Rightarrow> 'r list \<Rightarrow> bool" where
  "writes_range a b j v out out' \<longleftrightarrow> length out' = length out \<and> (\<forall>i. a \<le> i \<and> i < b \<longrightarrow> out' ! (j + (i - a)) = v i) \<and>
     (\<forall>k. k < j \<or> j + (b - a) \<le> k \<longrightarrow> out' ! k = out ! k)"

lemma writes_range_refl [simp]: "writes_range a a j v out out"
  by (auto simp: writes_range_def)

lemma writes_range_Cons:
  assumes "a < b" "writes_range (Suc a) b (Suc j) v (out[j := v a]) out'" "j < length out"
  shows "writes_range a b j v out out'"
proof -
  have "out' ! (j + (i - a)) = v i" if "a \<le> i" "i < b" for i
  proof (cases "i = a")
    case True
    then show ?thesis
      using assms by (simp add: writes_range_def)
  next
    case False
    then have "j + (i - a) = Suc j + (i - Suc a)"
      using that by simp
    then show ?thesis
      using assms(2) that False unfolding writes_range_def by (metis Suc_leI le_neq_implies_less)
  qed
  then show ?thesis
    using assms by (auto simp: writes_range_def)
qed

lemma writes_range_append:
  assumes "a \<le> b" "b \<le> c" "writes_range a b j v out out1" "writes_range b c (j + (b - a)) v out1 out2"
  shows "writes_range a c j v out out2"
proof -
  have "out2 ! (j + (i - a)) = v i" if "a \<le> i" "i < c" for i
  proof (cases "i < b")
    case True
    then have "out2 ! (j + (i - a)) = out1 ! (j + (i - a))"
      using assms(4) that by (simp add: writes_range_def)
    then show ?thesis
      using assms(3) that True by (simp add: writes_range_def)
  next
    case False
    then have "j + (i - a) = j + (b - a) + (i - b)"
      using assms(1) by simp
    then show ?thesis
      using assms(4) that False unfolding writes_range_def by (metis not_less)
  qed
  then show ?thesis
    using assms by (simp add: writes_range_def)
qed

lemma writes_range_append':
  assumes "a \<le> b" "b \<le> c" "writes_range b c (j + (b - a)) v out out1" "writes_range a b j v out1 out2"
  shows "writes_range a c j v out out2"
proof -
  have "out2 ! (j + (i - a)) = v i" if "a \<le> i" "i < c" for i
  proof (cases "i < b")
    case False
    then have eq: "j + (i - a) = j + (b - a) + (i - b)"
      using assms(1) by simp
    then have "out2 ! (j + (i - a)) = out1 ! (j + (i - a))"
      using assms(4) by (simp add: writes_range_def)
    then show ?thesis
      using assms(3) that False unfolding writes_range_def eq by simp
  qed (use assms(4) that in \<open>simp add: writes_range_def\<close>)
  moreover have "out2 ! k = out ! k" if "k < j \<or> j + (c - a) \<le> k" for k
  proof -
    have "out2 ! k = out1 ! k"
      using assms(1,2,4) that by (auto simp: writes_range_def)
    moreover have "out1 ! k = out ! k"
      using assms(1,2,3) that by (auto simp: writes_range_def)
    ultimately show ?thesis by simp
  qed
  ultimately show ?thesis
    using assms(3,4) by (simp add: writes_range_def)
qed

lemma first_loop_writes:
  assumes "c < a" "a \<le> b" "b \<le> length xs" "j + (b - a) \<le> length out"
  shows "\<exists>out'. scan_first_loop scan t xs a b j (range_sum scan neutral t xs c a) out = Some (range_sum scan neutral t xs c b, out') \<and>
     writes_range a b j (\<lambda>i. range_sum scan neutral t xs c (Suc i)) out out'"
  using assms
proof (induction "b - a" arbitrary: a j out)
  case 0
  then show ?case
    by (simp add: scan_first_loop.simps[of _ _ _ a])
next
  case (Suc n)
  then have ab: "a < b" "n = b - Suc a" "j < length out"
    by simp_all
  let ?v = "range_sum scan neutral t xs c (Suc a)"
  have bound: "Suc j + (b - Suc a) \<le> length (out[j := ?v])"
    using Suc.prems(4) ab(1) by simp
  have "?v = scan (range_sum scan neutral t xs c a) (t (xs ! a))"
    using Suc.prems(1) by (simp add: range_sum_Suc)
  then have step: "scan_first_loop scan t xs a b j (range_sum scan neutral t xs c a) out = scan_first_loop scan t xs (Suc a) b (Suc j) ?v (out[j := ?v])"
    using ab Suc.prems by (simp add: scan_first_loop.simps[of _ _ _ a] Let_def)
  obtain out' where out': "scan_first_loop scan t xs (Suc a) b (Suc j) ?v (out[j := ?v]) = Some (range_sum scan neutral t xs c b, out')"
     "writes_range (Suc a) b (Suc j) (\<lambda>i. range_sum scan neutral t xs c (Suc i)) (out[j := ?v]) out'"
    using Suc.hyps(1)[OF ab(2), of "Suc j" "out[j := ?v]"] Suc.prems(1,3) ab(1) bound by auto
  have "writes_range a b j (\<lambda>i. range_sum scan neutral t xs c (Suc i)) out out'"
    by (rule writes_range_Cons[OF ab(1) _ ab(3)]) (rule out'(2))
  then show ?case
    using step out'(1) by auto
qed

lemma second_loop_writes:
  assumes "a \<le> b" "j + (b - a) \<le> length out" "\<And>i. a \<le> i \<Longrightarrow> i < b \<Longrightarrow> out ! (j + (i - a)) = w i"
  shows "\<exists>out'. scan_second_loop scan p a b j out = Some out' \<and> writes_range a b j (\<lambda>i. scan p (w i)) out out'"
  using assms
proof (induction "b - a" arbitrary: a j out)
  case 0
  then show ?case
    by (simp add: scan_second_loop.simps[of _ _ a])
next
  case (Suc n)
  then have ab: "a < b" "n = b - Suc a" "j < length out"
    by simp_all
  let ?out = "out[j := scan p (w a)]"
  have bound: "Suc j + (b - Suc a) \<le> length ?out"
    using Suc.prems(2) ab(1) by simp
  have "out ! j = w a"
    using Suc.prems(3)[of a] ab(1) by simp
  then have step: "scan_second_loop scan p a b j out = scan_second_loop scan p (Suc a) b (Suc j) ?out"
    using ab by (simp add: scan_second_loop.simps[of _ _ a])
  have vals: "?out ! (Suc j + (i - Suc a)) = w i" if "Suc a \<le> i" "i < b" for i
  proof -
    have "Suc j + (i - Suc a) = j + (i - a)"
      using that(1) by simp
    then show ?thesis
      using Suc.prems(3)[of i] that by simp
  qed
  obtain out' where out': "scan_second_loop scan p (Suc a) b (Suc j) ?out = Some out'" "writes_range (Suc a) b (Suc j) (\<lambda>i. scan p (w i)) ?out out'"
    using Suc.hyps(1)[OF ab(2) _ bound vals] ab(1) by auto
  have "writes_range a b j (\<lambda>i. scan p (w i)) out out'"
    by (rule writes_range_Cons[OF ab(1) _ ab(3)]) (rule out'(2))
  then show ?case
    using step out'(1) by auto
qed

text \<open>The sums below a node: each node of the tree holds the sum of the elements of its chunks.\<close>

function tree_sums :: "(nat \<Rightarrow> nat \<Rightarrow> 'r) \<Rightarrow> (nat \<Rightarrow> ChunkDescriptor) \<Rightarrow> 'r list \<Rightarrow> nat \<Rightarrow> nat \<Rightarrow> nat \<Rightarrow> bool" where
  "tree_sums S chunk tree f l node \<longleftrightarrow> tree ! node = S (GetFirst (chunk f)) (GetLast (chunk l)) \<and>
     (f < l \<longrightarrow> tree_sums S chunk tree f ((f + l) div 2) (2 * node + 1) \<and> tree_sums S chunk tree ((f + l) div 2 + 1) l (2 * node + 2))"
  by pat_completeness auto
termination
  by (relation "measure (\<lambda>(S, c, t, f, l, m). l - f)") auto

declare tree_sums.simps [simp del]

lemma tree_sums_cong:
  assumes "tree_sums S chunk tree f l node" "\<And>m. below m node \<Longrightarrow> tree' ! m = tree ! m"
  shows "tree_sums S chunk tree' f l node"
  using assms
proof (induction S chunk tree f l node rule: tree_sums.induct)
  case (1 S chunk tree f l node)
  note ch = below_children[of _ node]
  show ?case
    using 1(3) 1(1,2) 1(4) ch unfolding tree_sums.simps[of S chunk _ f l node] by simp
qed

text \<open>Writing to one of the two subtrees of a node leaves the sums of the other one alone.\<close>

lemma tree_sums_siblings:
  shows "tree_sums S chunk tree f l (2 * node + 1) \<Longrightarrow> (\<And>m. \<not> below m (2 * node + 2) \<Longrightarrow> tree' ! m = tree ! m) \<Longrightarrow> tree_sums S chunk tree' f l (2 * node + 1)"
    and "tree_sums S chunk tree f l (2 * node + 2) \<Longrightarrow> (\<And>m. \<not> below m (2 * node + 1) \<Longrightarrow> tree' ! m = tree ! m) \<Longrightarrow> tree_sums S chunk tree' f l (2 * node + 2)"
  using below_siblings[of _ node] by (blast intro: tree_sums_cong)+

lemma tree_sums_root: "tree_sums S chunk tree f l node \<Longrightarrow> tree ! node = S (GetFirst (chunk f)) (GetLast (chunk l))"
  unfolding tree_sums.simps[of S chunk tree f l node] by blast

lemma tree_sums_leaf: "tree_sums S chunk tree k k node \<longleftrightarrow> tree ! node = S (GetFirst (chunk k)) (GetLast (chunk k))"
  by (subst tree_sums.simps) simp

text \<open>Room in the array for a tree of height \<open>h\<close>.\<close>

lemma tree_room:
  fixes a b node N :: nat
  assumes "b + 1 - a \<le> 2 ^ h" "a < b" "2 ^ h * (node + 2) \<le> N + (1 :: nat)"
  obtains k where "(a + b) div 2 + 1 - a \<le> 2 ^ k" "b + 1 - ((a + b) div 2 + 1) \<le> 2 ^ k"
    "2 ^ k * (2 * node + 1 + 2) \<le> N + 1" "2 ^ k * (2 * node + 2 + 2) \<le> N + 1"
proof -
  obtain k where h: "h = Suc k"
    using assms(1,2) by (cases h) (auto simp: le_diff_conv)
  have "b + 1 - a \<le> 2 * 2 ^ k"
    using assms(1) by (simp add: h)
  then have "(a + b) div 2 + 1 - a \<le> 2 ^ k" "b + 1 - ((a + b) div 2 + 1) \<le> 2 ^ k"
    using assms(2) by linarith+
  moreover have "2 ^ k * (2 * node + 2 + 2) \<le> N + 1"
    using assms(3) by (simp add: h algebra_simps)
  moreover have "2 ^ k * (2 * node + 1 + 2) \<le> 2 ^ k * (2 * node + 2 + 2)"
    by simp
  ultimately show thesis
    using that order_trans by blast
qed

lemma tree_room_bound: "2 ^ h * (node + 2) \<le> N + (1 :: nat) \<Longrightarrow> node < N"
proof -
  assume room: "2 ^ h * (node + 2) \<le> N + 1"
  have "1 * (node + 2) \<le> 2 ^ h * (node + 2)"
    by (rule mult_le_mono1) simp
  from order_trans[OF this room] show "node < N"
    by simp
qed

text \<open>One of two tasks runs first.\<close>

lemma writes_range_both:
  assumes "a \<le> b" "b \<le> c" "writes_range a b j v out out1" "writes_range b c (j + (b - a)) v out out1'"
  shows "writes_range b c (j + (b - a)) v out1 out2 \<Longrightarrow> writes_range a c j v out out2"
    and "writes_range a b j v out1' out2 \<Longrightarrow> writes_range a c j v out out2"
  using writes_range_append[OF assms(1,2,3)] writes_range_append'[OF assms(1,2,4)] by blast+

lemma scan_node:
  fixes a b :: nat
  assumes "a < b"
  shows "ScanFunctor_Action lf plus' scan t neutral xs p fp a b j node pv s =
     do { (parent_l, parent_r) \<leftarrow> (if fp then Some (neutral, neutral)
              else do { value_l \<leftarrow> deref (snd s) (2 * node + 1); Some (pv, plus' value_l pv) });
          s \<leftarrow> (if lf node then do {
                 s \<leftarrow> ScanFunctor_Action lf plus' scan t neutral xs p fp a ((a + b) div 2) j (2 * node + 1) parent_l s;
                 ScanFunctor_Action lf plus' scan t neutral xs p fp ((a + b) div 2 + 1) b
                   (j + (GetFirst (BlockSizePartitioner_at p ((a + b) div 2 + 1)) - GetFirst (BlockSizePartitioner_at p a))) (2 * node + 2) parent_r s }
               else do {
                 s \<leftarrow> ScanFunctor_Action lf plus' scan t neutral xs p fp ((a + b) div 2 + 1) b
                   (j + (GetFirst (BlockSizePartitioner_at p ((a + b) div 2 + 1)) - GetFirst (BlockSizePartitioner_at p a))) (2 * node + 2) parent_r s;
                 ScanFunctor_Action lf plus' scan t neutral xs p fp a ((a + b) div 2) j (2 * node + 1) parent_l s });
          value_l \<leftarrow> deref (snd s) (2 * node + 1);
          value_r \<leftarrow> deref (snd s) (2 * node + 2);
          tree_values \<leftarrow> assign (snd s) node (scan value_l value_r);
          Some (fst s, tree_values) }"
proof -
  have "(a = b) = False" "(b < a) = False"
    using assms by auto
  then show ?thesis
    by (subst ScanFunctor_Action.simps) (simp only: Let_def if_False)
qed

lemma first_leaf_effect:
  assumes "chunks_cover (BlockSizePartitioner_at p) n first last'" "last' \<le> length xs" "k < n"
    and "\<And>a. scan neutral a = a"
    and v: "\<And>i. GetFirst (BlockSizePartitioner_at p k) \<le> i \<Longrightarrow> i < GetLast (BlockSizePartitioner_at p k) \<Longrightarrow>
          v i = range_sum scan neutral t xs (GetFirst (BlockSizePartitioner_at p k)) (Suc i)"
    and room: "j + (GetLast (BlockSizePartitioner_at p k) - GetFirst (BlockSizePartitioner_at p k)) \<le> length out" "node < length tree"
  shows "\<exists>out'. scan_leaf scan t xs (BlockSizePartitioner_at p k) True j node pv (out, tree) =
       Some (out', tree[node := range_sum scan neutral t xs (GetFirst (BlockSizePartitioner_at p k)) (GetLast (BlockSizePartitioner_at p k))]) \<and>
     writes_range (GetFirst (BlockSizePartitioner_at p k)) (GetLast (BlockSizePartitioner_at p k)) j v out out'"
proof -
  define a b where "a = GetFirst (BlockSizePartitioner_at p k)" and "b = GetLast (BlockSizePartitioner_at p k)"
  let ?S = "range_sum scan neutral t xs"
  have ab: "a < b" "b \<le> length xs" "j + (b - a) \<le> length out"
    using assms(1-3) chunks_cover_bounds(4)[OF assms(1), of k k] room by (auto simp: chunks_cover_def a_def b_def)
  have one: "?S a (Suc a) = t (xs ! a)"
    by (simp add: range_sum_def assms(4))
  let ?out = "out[j := t (xs ! a)]"
  have bound: "Suc j + (b - Suc a) \<le> length ?out"
    using ab by simp
  obtain out' where out': "scan_first_loop scan t xs (Suc a) b (Suc j) (?S a (Suc a)) ?out = Some (?S a b, out')"
      "writes_range (Suc a) b (Suc j) (\<lambda>i. ?S a (Suc i)) ?out out'"
    using first_loop_writes[of a "Suc a" b xs "Suc j" ?out scan t neutral] ab(1,2) bound by auto
  have "writes_range a b j (\<lambda>i. ?S a (Suc i)) out out'"
    by (rule writes_range_Cons[OF ab(1)]) (use out'(2) one ab in simp_all)
  then have "writes_range a b j v out out'"
    using v by (simp add: writes_range_def a_def b_def)
  moreover have "j < length out" "a < length xs"
    using ab by simp_all
  ultimately show ?thesis
    using out'(1) room(2) one by (simp add: scan_leaf_def Let_def a_def[symmetric] b_def[symmetric])
qed

lemma first_pass_effect:
  assumes cover: "chunks_cover (BlockSizePartitioner_at p) n first last'" "last' \<le> length xs" "f \<le> l" "l < n"
    and law: "\<And>a b c. scan (scan a b) c = scan a (scan b c)" "\<And>a. scan neutral a = a"
    and vs: "\<forall>k i. k < n \<and> GetFirst (BlockSizePartitioner_at p k) \<le> i \<and> i < GetLast (BlockSizePartitioner_at p k) \<longrightarrow>
          v i = range_sum scan neutral t xs (GetFirst (BlockSizePartitioner_at p k)) (Suc i)"
  shows "\<forall>node h j pv out tree. l + 1 - f \<le> 2 ^ h \<longrightarrow> 2 ^ h * (node + 2) \<le> length tree + 1 \<longrightarrow>
     j + (GetLast (BlockSizePartitioner_at p l) - GetFirst (BlockSizePartitioner_at p f)) \<le> length out \<longrightarrow>
     (\<exists>out' tree'. ScanFunctor_Action lf plus' scan t neutral xs p True f l j node pv (out, tree) = Some (out', tree') \<and>
        writes_range (GetFirst (BlockSizePartitioner_at p f)) (GetLast (BlockSizePartitioner_at p l)) j v out out' \<and>
        length tree' = length tree \<and> tree_sums (range_sum scan neutral t xs) (BlockSizePartitioner_at p) tree' f l node \<and>
        (\<forall>m. \<not> below m node \<longrightarrow> tree' ! m = tree ! m))"
  using assms(3)
proof (rule chunk_tree_induct, goal_cases)
  case (1 k)
  then have k: "k < n"
    using assms(4) by simp
  then have v: "GetFirst (BlockSizePartitioner_at p k) \<le> i \<Longrightarrow> i < GetLast (BlockSizePartitioner_at p k) \<Longrightarrow>
      v i = range_sum scan neutral t xs (GetFirst (BlockSizePartitioner_at p k)) (Suc i)" for i
    using vs by blast
  show ?case
  proof (intro allI impI)
    fix node h j pv and out tree :: "'b list"
    assume room: "2 ^ h * (node + 2) \<le> length tree + 1"
      "j + (GetLast (BlockSizePartitioner_at p k) - GetFirst (BlockSizePartitioner_at p k)) \<le> length out"
    note node = tree_room_bound[OF room(1)]
    show "\<exists>out' tree'. ScanFunctor_Action lf plus' scan t neutral xs p True k k j node pv (out, tree) = Some (out', tree') \<and>
        writes_range (GetFirst (BlockSizePartitioner_at p k)) (GetLast (BlockSizePartitioner_at p k)) j v out out' \<and>
        length tree' = length tree \<and> tree_sums (range_sum scan neutral t xs) (BlockSizePartitioner_at p) tree' k k node \<and>
        (\<forall>m. \<not> below m node \<longrightarrow> tree' ! m = tree ! m)"
    proof -
      obtain out' where "scan_leaf scan t xs (BlockSizePartitioner_at p k) True j node pv (out, tree) =
            Some (out', tree[node := range_sum scan neutral t xs (GetFirst (BlockSizePartitioner_at p k)) (GetLast (BlockSizePartitioner_at p k))])"
          "writes_range (GetFirst (BlockSizePartitioner_at p k)) (GetLast (BlockSizePartitioner_at p k)) j v out out'"
        using first_leaf_effect[OF cover(1,2) k law(2) v room(2) node, where pv = pv] by blast
      moreover have "ScanFunctor_Action lf plus' scan t neutral xs p True k k j node pv (out, tree) =
          scan_leaf scan t xs (BlockSizePartitioner_at p k) True j node pv (out, tree)"
        by (subst ScanFunctor_Action.simps) simp
      ultimately show ?thesis
        using node by (auto simp: tree_sums_leaf nth_list_update)
    qed
  qed
next
  case (2 a b)
  let ?m = "(a + b) div 2" and ?c = "BlockSizePartitioner_at p"
  define x y z where "x = GetFirst (?c a)" and "y = GetFirst (?c (?m + 1))" and "z = GetLast (?c b)"
  let ?S = "range_sum scan neutral t xs" and ?act = "ScanFunctor_Action lf plus' scan t neutral xs p True"
  have m: "a \<le> ?m" "?m + 1 \<le> b" "b < n"
    using chunk_split_index[OF 2(2)] 2 assms(4) by auto
  have le: "x < y" "y < z" and y: "GetLast (?c ?m) = y"
    using chunks_cover_split[OF cover(1) m] by (simp_all add: x_def y_def z_def)
  note IH = 2(4,5)[folded x_def y_def z_def, unfolded y]
  show ?case
    unfolding x_def[symmetric] z_def[symmetric]
  proof (intro allI impI)
    fix node h j pv and out tree :: "'b list"
    assume room: "b + 1 - a \<le> 2 ^ h" "2 ^ h * (node + 2) \<le> length tree + 1" "j + (z - x) \<le> length out"
    obtain k where k: "?m + 1 - a \<le> 2 ^ k" "b + 1 - (?m + 1) \<le> 2 ^ k" "2 ^ k * (2 * node + 1 + 2) \<le> length tree + 1" "2 ^ k * (2 * node + 2 + 2) \<le> length tree + 1"
      using tree_room[OF room(1) 2(2) room(2)] by blast
    note ids = tree_room_bound[OF k(3)] tree_room_bound[OF k(4)] tree_room_bound[OF room(2)]
    have j: "j + (y - x) \<le> length out" "j + (y - x) + (z - y) \<le> length out"
      using room(3) le by simp_all
    have L: "\<exists>out' tree'. ?act a ?m j (2 * node + 1) neutral (out, tree) = Some (out', tree') \<and> writes_range x y j v out out' \<and>
        length tree' = length tree \<and> tree_sums ?S ?c tree' a ?m (2 * node + 1) \<and> (\<forall>m. \<not> below m (2 * node + 1) \<longrightarrow> tree' ! m = tree ! m)"
      if "j + (y - x) \<le> length out" "2 ^ k * (2 * node + 1 + 2) \<le> length tree + 1" for out tree
      using IH(1) k(1) that by blast
    have R: "\<exists>out' tree'. ?act (?m + 1) b (j + (y - x)) (2 * node + 2) neutral (out, tree) = Some (out', tree') \<and> writes_range y z (j + (y - x)) v out out' \<and>
        length tree' = length tree \<and> tree_sums ?S ?c tree' (?m + 1) b (2 * node + 2) \<and> (\<forall>m. \<not> below m (2 * node + 2) \<longrightarrow> tree' ! m = tree ! m)"
      if "j + (y - x) + (z - y) \<le> length out" "2 ^ k * (2 * node + 2 + 2) \<le> length tree + 1" for out tree
      using IH(2) k(2) that by blast
    have both: "\<exists>out2 tree2. (if lf node then do { s \<leftarrow> ?act a ?m j (2 * node + 1) neutral (out, tree); ?act (?m + 1) b (j + (y - x)) (2 * node + 2) neutral s }
          else do { s \<leftarrow> ?act (?m + 1) b (j + (y - x)) (2 * node + 2) neutral (out, tree); ?act a ?m j (2 * node + 1) neutral s }) = Some (out2, tree2) \<and>
        writes_range x z j v out out2 \<and> length tree2 = length tree \<and> tree_sums ?S ?c tree2 a ?m (2 * node + 1) \<and> tree_sums ?S ?c tree2 (?m + 1) b (2 * node + 2) \<and>
        (\<forall>m. \<not> below m node \<longrightarrow> tree2 ! m = tree ! m)"
    proof (cases "lf node")
      case True
      obtain out1 tree1 where 1: "?act a ?m j (2 * node + 1) neutral (out, tree) = Some (out1, tree1)" "writes_range x y j v out out1"
          "length tree1 = length tree" "tree_sums ?S ?c tree1 a ?m (2 * node + 1)" "\<forall>m. \<not> below m (2 * node + 1) \<longrightarrow> tree1 ! m = tree ! m"
        using L[OF j(1) k(3)] by blast
      then have "j + (y - x) + (z - y) \<le> length out1" "2 ^ k * (2 * node + 2 + 2) \<le> length tree1 + 1"
        using j(2) k(4) by (simp_all add: writes_range_def)
      then obtain out2 tree2 where 2: "?act (?m + 1) b (j + (y - x)) (2 * node + 2) neutral (out1, tree1) = Some (out2, tree2)" "writes_range y z (j + (y - x)) v out1 out2"
          "length tree2 = length tree1" "tree_sums ?S ?c tree2 (?m + 1) b (2 * node + 2)" "\<forall>m. \<not> below m (2 * node + 2) \<longrightarrow> tree2 ! m = tree1 ! m"
        using R by blast
      have "\<forall>m. \<not> below m node \<longrightarrow> tree2 ! m = tree ! m"
        using 1(5) 2(5) below_children[of _ node] by metis
      moreover have "tree_sums ?S ?c tree2 a ?m (2 * node + 1)"
        using tree_sums_siblings(1)[OF 1(4)] 2(5) by blast
      moreover have "length tree2 = length tree"
        using 1(3) 2(3) by simp
      ultimately show ?thesis
        using writes_range_append[OF less_imp_le[OF le(1)] less_imp_le[OF le(2)] 1(2) 2(2)] 2(4) 1(1) 2(1) True by auto
    next
      case False
      obtain out1 tree1 where 1: "?act (?m + 1) b (j + (y - x)) (2 * node + 2) neutral (out, tree) = Some (out1, tree1)" "writes_range y z (j + (y - x)) v out out1"
          "length tree1 = length tree" "tree_sums ?S ?c tree1 (?m + 1) b (2 * node + 2)" "\<forall>m. \<not> below m (2 * node + 2) \<longrightarrow> tree1 ! m = tree ! m"
        using R[OF j(2) k(4)] by blast
      then have "j + (y - x) \<le> length out1" "2 ^ k * (2 * node + 1 + 2) \<le> length tree1 + 1"
        using j(1) k(3) by (simp_all add: writes_range_def)
      then obtain out2 tree2 where 2: "?act a ?m j (2 * node + 1) neutral (out1, tree1) = Some (out2, tree2)" "writes_range x y j v out1 out2"
          "length tree2 = length tree1" "tree_sums ?S ?c tree2 a ?m (2 * node + 1)" "\<forall>m. \<not> below m (2 * node + 1) \<longrightarrow> tree2 ! m = tree1 ! m"
        using L by blast
      have "\<forall>m. \<not> below m node \<longrightarrow> tree2 ! m = tree ! m"
        using 1(5) 2(5) below_children[of _ node] by metis
      moreover have "tree_sums ?S ?c tree2 (?m + 1) b (2 * node + 2)"
        using tree_sums_siblings(2)[OF 1(4)] 2(5) by blast
      moreover have "length tree2 = length tree"
        using 1(3) 2(3) by simp
      ultimately show ?thesis
        using writes_range_append'[OF less_imp_le[OF le(1)] less_imp_le[OF le(2)] 1(2) 2(2)] 2(4) 1(1) 2(1) False by auto
    qed
    then obtain out2 tree2 where 3: "(if lf node then do { s \<leftarrow> ?act a ?m j (2 * node + 1) neutral (out, tree); ?act (?m + 1) b (j + (y - x)) (2 * node + 2) neutral s }
          else do { s \<leftarrow> ?act (?m + 1) b (j + (y - x)) (2 * node + 2) neutral (out, tree); ?act a ?m j (2 * node + 1) neutral s }) = Some (out2, tree2)"
        "writes_range x z j v out out2" "length tree2 = length tree" "tree_sums ?S ?c tree2 a ?m (2 * node + 1)" "tree_sums ?S ?c tree2 (?m + 1) b (2 * node + 2)"
        "\<forall>m. \<not> below m node \<longrightarrow> tree2 ! m = tree ! m"
      by blast
    let ?tree = "tree2[node := ?S x z]"
    have roots: "tree2 ! (2 * node + 1) = ?S x y" "tree2 ! (2 * node + 2) = ?S y z"
      using tree_sums_root[OF 3(4)] tree_sums_root[OF 3(5)] by (simp_all add: y x_def y_def z_def)
    have sum: "scan (?S x y) (?S y z) = ?S x z"
      using range_sum_split[OF law, of x y z t xs] le by simp
    have run: "?act a b j node pv (out, tree) = Some (out2, ?tree)"
      unfolding scan_node[OF 2(2)] x_def[symmetric] y_def[symmetric] using 3(1,3) ids roots sum by simp
    have away: "\<And>m. below m (2 * node + 1) \<Longrightarrow> ?tree ! m = tree2 ! m" "\<And>m. below m (2 * node + 2) \<Longrightarrow> ?tree ! m = tree2 ! m"
      by (auto dest: below_le)
    have "tree_sums ?S ?c ?tree a b node"
      unfolding tree_sums.simps[of ?S ?c ?tree a b node]
      using tree_sums_cong[OF 3(4) away(1)] tree_sums_cong[OF 3(5) away(2)] ids(3) 3(3) by (simp add: x_def z_def)
    then show "\<exists>out' tree'. ?act a b j node pv (out, tree) = Some (out', tree') \<and> writes_range x z j v out out' \<and> length tree' = length tree \<and>
        tree_sums ?S ?c tree' a b node \<and> (\<forall>m. \<not> below m node \<longrightarrow> tree' ! m = tree ! m)"
    proof -
      have "?tree ! m = tree ! m" if "\<not> below m node" for m
        using that 3(6) by (metis below_refl nth_list_update_neq)
      then show ?thesis
        using run 3(2,3) \<open>tree_sums ?S ?c ?tree a b node\<close> by auto
    qed
  qed
qed

section \<open>The second pass\<close>

lemma writes_range_cong: "writes_range a b j v out out' \<Longrightarrow> (\<And>i. a \<le> i \<Longrightarrow> i < b \<Longrightarrow> v i = w i) \<Longrightarrow> writes_range a b j w out out'"
  by (simp add: writes_range_def)

lemma second_pass_effect:
  fixes scan :: "'b \<Rightarrow> 'b \<Rightarrow> 'b" and v :: "nat \<Rightarrow> 'b"
  assumes cover: "chunks_cover (BlockSizePartitioner_at p) n first last'" "f \<le> l" "l < n"
    and law: "\<And>a b c. scan (scan a b) c = scan a (scan b c)" "\<And>a. scan neutral a = a"
    and plus: "\<And>a b. plus' a b = scan b a"
    and vs: "\<forall>k i. k < n \<and> GetFirst (BlockSizePartitioner_at p k) \<le> i \<and> i < GetLast (BlockSizePartitioner_at p k) \<longrightarrow>
          v i = range_sum scan neutral t xs (GetFirst (BlockSizePartitioner_at p k)) (Suc i)"
  shows "\<forall>node h j pv out tree. l + 1 - f \<le> 2 ^ h \<longrightarrow> 2 ^ h * (node + 2) \<le> length tree + 1 \<longrightarrow>
     j + (GetLast (BlockSizePartitioner_at p l) - GetFirst (BlockSizePartitioner_at p f)) \<le> length out \<longrightarrow>
     tree_sums (range_sum scan neutral t xs) (BlockSizePartitioner_at p) tree f l node \<longrightarrow>
     (\<forall>i. GetFirst (BlockSizePartitioner_at p f) \<le> i \<and> i < GetLast (BlockSizePartitioner_at p l) \<longrightarrow> out ! (j + (i - GetFirst (BlockSizePartitioner_at p f))) = v i) \<longrightarrow>
     (\<exists>out'. ScanFunctor_Action lf plus' scan t neutral xs p False f l j node pv (out, tree) = Some (out', tree) \<and>
        writes_range (GetFirst (BlockSizePartitioner_at p f)) (GetLast (BlockSizePartitioner_at p l)) j
          (\<lambda>i. scan pv (range_sum scan neutral t xs (GetFirst (BlockSizePartitioner_at p f)) (Suc i))) out out')"
  using assms(2)
proof (rule chunk_tree_induct, goal_cases)
  case (1 k)
  then have k: "k < n"
    using assms(3) by simp
  then have v: "GetFirst (BlockSizePartitioner_at p k) \<le> i \<Longrightarrow> i < GetLast (BlockSizePartitioner_at p k) \<Longrightarrow>
      v i = range_sum scan neutral t xs (GetFirst (BlockSizePartitioner_at p k)) (Suc i)" for i
    using vs by blast
  let ?c = "BlockSizePartitioner_at p"
  show ?case
  proof (intro allI impI)
    fix node h j pv and out tree :: "'b list"
    assume room: "j + (GetLast (?c k) - GetFirst (?c k)) \<le> length out" and vals: "\<forall>i. GetFirst (?c k) \<le> i \<and> i < GetLast (?c k) \<longrightarrow> out ! (j + (i - GetFirst (?c k))) = v i"
    have "GetFirst (?c k) \<le> GetLast (?c k)"
      using cover(1) k by (simp add: chunks_cover_def less_imp_le)
    then obtain out' where out': "scan_second_loop scan pv (GetFirst (?c k)) (GetLast (?c k)) j out = Some out'"
        "writes_range (GetFirst (?c k)) (GetLast (?c k)) j (\<lambda>i. scan pv (v i)) out out'"
      using second_loop_writes[of "GetFirst (?c k)" "GetLast (?c k)" j out v scan pv] room vals by auto
    have "writes_range (GetFirst (?c k)) (GetLast (?c k)) j (\<lambda>i. scan pv (range_sum scan neutral t xs (GetFirst (?c k)) (Suc i))) out out'"
      by (rule writes_range_cong[OF out'(2)]) (simp add: v)
    moreover have "ScanFunctor_Action lf plus' scan t neutral xs p False k k j node pv (out, tree) = Some (out', tree)"
      by (subst ScanFunctor_Action.simps) (simp add: scan_leaf_def out'(1))
    ultimately show "\<exists>out'. ScanFunctor_Action lf plus' scan t neutral xs p False k k j node pv (out, tree) = Some (out', tree) \<and>
        writes_range (GetFirst (?c k)) (GetLast (?c k)) j (\<lambda>i. scan pv (range_sum scan neutral t xs (GetFirst (?c k)) (Suc i))) out out'"
      by blast
  qed
next
  case (2 a b)
  let ?m = "(a + b) div 2" and ?c = "BlockSizePartitioner_at p"
  define x y z where "x = GetFirst (?c a)" and "y = GetFirst (?c (?m + 1))" and "z = GetLast (?c b)"
  let ?S = "range_sum scan neutral t xs" and ?act = "ScanFunctor_Action lf plus' scan t neutral xs p False"
  have m: "a \<le> ?m" "?m + 1 \<le> b" "b < n"
    using chunk_split_index[OF 2(2)] 2 assms(3) by auto
  have le: "x < y" "y < z" and y: "GetLast (?c ?m) = y"
    using chunks_cover_split[OF cover(1) m] by (simp_all add: x_def y_def z_def)
  note IH = 2(4,5)[folded x_def y_def z_def, unfolded y]
  show ?case
    unfolding x_def[symmetric] z_def[symmetric]
  proof (intro allI impI)
    fix node h j pv and out tree :: "'b list"
    assume room: "b + 1 - a \<le> 2 ^ h" "2 ^ h * (node + 2) \<le> length tree + 1" "j + (z - x) \<le> length out"
      and sums: "tree_sums ?S ?c tree a b node" and vals: "\<forall>i. x \<le> i \<and> i < z \<longrightarrow> out ! (j + (i - x)) = v i"
    obtain k where k: "?m + 1 - a \<le> 2 ^ k" "b + 1 - (?m + 1) \<le> 2 ^ k" "2 ^ k * (2 * node + 1 + 2) \<le> length tree + 1" "2 ^ k * (2 * node + 2 + 2) \<le> length tree + 1"
      using tree_room[OF room(1) 2(2) room(2)] by blast
    note ids = tree_room_bound[OF k(3)] tree_room_bound[OF k(4)] tree_room_bound[OF room(2)]
    have sub: "tree_sums ?S ?c tree a ?m (2 * node + 1)" "tree_sums ?S ?c tree (?m + 1) b (2 * node + 2)" "tree ! node = ?S x z"
      using sums 2(2) unfolding tree_sums.simps[of ?S ?c tree a b node] x_def z_def by blast+
    have roots: "tree ! (2 * node + 1) = ?S x y" "tree ! (2 * node + 2) = ?S y z"
      using tree_sums_root[OF sub(1)] tree_sums_root[OF sub(2)] by (simp_all add: y x_def y_def z_def)
    have sum: "scan (?S x y) (?S y c) = ?S x c" if "y < c" for c
      using range_sum_split[OF law, of x y c t xs] le that by simp
    let ?pr = "plus' (?S x y) pv" and ?w = "\<lambda>i. scan pv (?S x (Suc i))"
    have right: "scan ?pr (?S y (Suc i)) = ?w i" if "y \<le> i" for i
      using that sum[of "Suc i"] by (simp add: plus law(1))
    have j: "j + (y - x) \<le> length out" "j + (y - x) + (z - y) \<le> length out"
      using room(3) le by simp_all
    have pos: "j + (y - x) + (i - y) = j + (i - x)" if "y \<le> i" for i
      using that le by simp
    have L: "\<exists>out'. ?act a ?m j (2 * node + 1) pv (out, tree) = Some (out', tree) \<and> writes_range x y j ?w out out'"
      if "j + (y - x) \<le> length out" "\<forall>i. x \<le> i \<and> i < y \<longrightarrow> out ! (j + (i - x)) = v i" for out
      using IH(1) k(1,3) sub(1) that by blast
    have R: "\<exists>out'. ?act (?m + 1) b (j + (y - x)) (2 * node + 2) ?pr (out, tree) = Some (out', tree) \<and> writes_range y z (j + (y - x)) ?w out out'"
      if fits: "j + (y - x) + (z - y) \<le> length out" and vals: "\<forall>i. y \<le> i \<and> i < z \<longrightarrow> out ! (j + (i - x)) = v i" for out
    proof -
      have "\<forall>i. y \<le> i \<and> i < z \<longrightarrow> out ! (j + (y - x) + (i - y)) = v i"
        using vals pos by simp
      then obtain out' where out': "?act (?m + 1) b (j + (y - x)) (2 * node + 2) ?pr (out, tree) = Some (out', tree)"
          "writes_range y z (j + (y - x)) (\<lambda>i. scan ?pr (?S y (Suc i))) out out'"
        using IH(2)[THEN spec[of _ "2 * node + 2"], THEN spec[of _ k], THEN spec[of _ "j + (y - x)"], THEN spec[of _ ?pr], THEN spec[of _ out], THEN spec[of _ tree],
          THEN mp, OF k(2), THEN mp, OF k(4), THEN mp, OF fits, THEN mp, OF sub(2)] by blast
      then show ?thesis
        using writes_range_cong[OF out'(2), of ?w] right by blast
    qed
    have "\<exists>out2. (if lf node then do { s \<leftarrow> ?act a ?m j (2 * node + 1) pv (out, tree); ?act (?m + 1) b (j + (y - x)) (2 * node + 2) ?pr s }
          else do { s \<leftarrow> ?act (?m + 1) b (j + (y - x)) (2 * node + 2) ?pr (out, tree); ?act a ?m j (2 * node + 1) pv s }) = Some (out2, tree) \<and>
        writes_range x z j ?w out out2"
    proof (cases "lf node")
      case True
      obtain out1 where 1: "?act a ?m j (2 * node + 1) pv (out, tree) = Some (out1, tree)" "writes_range x y j ?w out out1"
        using L[OF j(1)] vals le by auto
      have "out1 ! (j + (i - x)) = v i" if "y \<le> i" "i < z" for i
        using 1(2) vals that le by (simp add: writes_range_def)
      then obtain out2 where 2: "?act (?m + 1) b (j + (y - x)) (2 * node + 2) ?pr (out1, tree) = Some (out2, tree)" "writes_range y z (j + (y - x)) ?w out1 out2"
        using R[of out1] 1(2) j(2) by (auto simp: writes_range_def)
      show ?thesis
        using 1(1) 2(1) True writes_range_append[OF less_imp_le[OF le(1)] less_imp_le[OF le(2)] 1(2) 2(2)] by auto
    next
      case False
      obtain out1 where 1: "?act (?m + 1) b (j + (y - x)) (2 * node + 2) ?pr (out, tree) = Some (out1, tree)" "writes_range y z (j + (y - x)) ?w out out1"
        using R[OF j(2)] vals le by auto
      have "out1 ! (j + (i - x)) = v i" if "x \<le> i" "i < y" for i
        using 1(2) vals that le by (simp add: writes_range_def)
      then obtain out2 where 2: "?act a ?m j (2 * node + 1) pv (out1, tree) = Some (out2, tree)" "writes_range x y j ?w out1 out2"
        using L[of out1] 1(2) j(1) by (auto simp: writes_range_def)
      show ?thesis
        using 1(1) 2(1) False writes_range_append'[OF less_imp_le[OF le(1)] less_imp_le[OF le(2)] 1(2) 2(2)] by auto
    qed
    then obtain out2 where 3: "(if lf node then do { s \<leftarrow> ?act a ?m j (2 * node + 1) pv (out, tree); ?act (?m + 1) b (j + (y - x)) (2 * node + 2) ?pr s }
          else do { s \<leftarrow> ?act (?m + 1) b (j + (y - x)) (2 * node + 2) ?pr (out, tree); ?act a ?m j (2 * node + 1) pv s }) = Some (out2, tree)"
        "writes_range x z j ?w out out2"
      by blast
    have "?act a b j node pv (out, tree) = Some (out2, tree[node := ?S x z])"
      unfolding scan_node[OF 2(2)] x_def[symmetric] y_def[symmetric] using 3(1) ids roots sum[OF le(2)] by simp
    then show "\<exists>out'. ?act a b j node pv (out, tree) = Some (out', tree) \<and> writes_range x z j ?w out out'"
      using 3(2) sub(3) by (metis list_update_id)
  qed
qed

section \<open>Properties\<close>

text \<open>Below every position of the range there is one chunk.\<close>

lemma chunk_of_position:
  assumes "chunks_cover chunk n first last'" "k < n" "k' < n" "GetFirst (chunk k) \<le> i" "i < GetLast (chunk k)" "GetFirst (chunk k') \<le> i" "i < GetLast (chunk k')"
  shows "k = k'"
proof -
  have "GetLast (chunk a) \<le> GetFirst (chunk b)" if "a < b" "b < n" for a b
    using chunks_cover_bounds(1)[OF assms(1), of "Suc a" b] that assms(1) by (simp add: chunks_cover_def)
  then show ?thesis
    using assms(2-7) by (metis leD le_less_trans linorder_neqE_nat order.strict_trans2)
qed

lemma scan_recursive:
  assumes range: "first \<le> last'" "last' \<le> length xs" "output_iterator + (last' - first) \<le> length out"
    and policy: "bits_of (ep_affinity policy) \<noteq> {}" "block_size = 0 \<or> (last' - first) div block_size \<le> 511"
    and law: "\<And>a b c. scan (scan a b) c = scan a (scan b c)" "\<And>a. scan neutral a = a"
    and plus: "\<And>a b. plus' a b = scan b a"
  shows "\<exists>out'. ScanIteratorCheck left_first plus' values xs first last' out output_iterator neutral scan t policy block_size = Some (Inr out') \<and>
     writes_range first last' output_iterator (\<lambda>i. range_sum scan neutral t xs first (Suc i)) out out'"
proof (cases "first = last'")
  case True
  then show ?thesis
    by (simp add: ScanIteratorCheck_def)
next
  case False
  then have range': "first < last'" "int last' - int first = int (last' - first)" "int last' - int first \<noteq> 0"
    using range by auto
  obtain b where b: "determine_block_size (int last' - int first) policy block_size ''Negative range for Scan''
                    ''Not enough MTAPI tasks available for parallel scan'' = Some (Inr b)"
    using determine_block_size_total[OF policy] range'(2) by metis
  then have b': "0 < b" "(last' - first) div b \<le> 511"
    using determine_block_size_accepts(1,2) range' by (metis zero_less_diff)+
  then obtain p where p: "BlockSizePartitioner_new first last' b = Some p"
     "chunks_cover (BlockSizePartitioner_at p) (BlockSizePartitioner_Size p) first last'" "BlockSizePartitioner_Size p \<le> (last' - first) div b + 1"
    using block_size_partitioner[OF range'(1)] by metis
  define n where "n = BlockSizePartitioner_Size p"
  let ?c = "BlockSizePartitioner_at p" and ?S = "range_sum scan neutral t xs"
  have n: "0 < n" "n \<le> 2 ^ 9" "GetFirst (?c 0) = first" "GetLast (?c (n - 1)) = last'"
    using p(2,3) b'(2) by (simp_all add: chunks_cover_def n_def)
  define v where "v i = ?S (GetFirst (?c (THE k. k < n \<and> GetFirst (?c k) \<le> i \<and> i < GetLast (?c k)))) (Suc i)" for i
  have v: "\<forall>k i. k < n \<and> GetFirst (?c k) \<le> i \<and> i < GetLast (?c k) \<longrightarrow> v i = ?S (GetFirst (?c k)) (Suc i)"
  proof (intro allI impI, elim conjE)
    fix k i
    assume that: "k < n" "GetFirst (?c k) \<le> i" "i < GetLast (?c k)"
    have "(THE k. k < n \<and> GetFirst (?c k) \<le> i \<and> i < GetLast (?c k)) = k"
      using that chunk_of_position[OF p(2)[folded n_def]] by (intro the_equality) auto
    then show "v i = ?S (GetFirst (?c k)) (Suc i)"
      by (simp add: v_def)
  qed
  let ?tree = "map values [0..<MTAPI_NODE_MAX_TASKS_DEFAULT]"
  have room: "n - 1 + 1 - 0 \<le> 2 ^ 9" "2 ^ 9 * (0 + 2) \<le> length ?tree + 1" "output_iterator + (GetLast (?c (n - 1)) - GetFirst (?c 0)) \<le> length out"
    using n range(3) by (simp_all add: MTAPI_NODE_MAX_TASKS_DEFAULT_def)
  obtain out1 tree1 where 1: "ScanFunctor_Action (left_first True) plus' scan t neutral xs p True 0 (n - 1) output_iterator 0 neutral (out, ?tree) = Some (out1, tree1)"
      "writes_range first last' output_iterator v out out1" "length tree1 = length ?tree" "tree_sums ?S ?c tree1 0 (n - 1) 0"
    using first_pass_effect[OF p(2)[folded n_def] range(2) le0[of "n - 1"] _ law v, where lf = "left_first True" and plus' = plus', THEN spec[of _ 0], THEN spec[of _ 9],
      THEN spec[of _ output_iterator], THEN spec[of _ neutral], THEN spec[of _ out], THEN spec[of _ ?tree]] room n(1)
    unfolding n(3,4) by auto
  have room': "2 ^ 9 * (0 + 2) \<le> length tree1 + 1" "output_iterator + (GetLast (?c (n - 1)) - GetFirst (?c 0)) \<le> length out1"
    using room 1(2,3) by (simp_all add: writes_range_def)
  have vals: "\<forall>i. GetFirst (?c 0) \<le> i \<and> i < GetLast (?c (n - 1)) \<longrightarrow> out1 ! (output_iterator + (i - GetFirst (?c 0))) = v i"
    using 1(2) n(3,4) by (simp add: writes_range_def)
  obtain out2 where 2: "ScanFunctor_Action (left_first False) plus' scan t neutral xs p False 0 (n - 1) output_iterator 0 neutral (out1, tree1) = Some (out2, tree1)"
      "writes_range first last' output_iterator (\<lambda>i. scan neutral (?S first (Suc i))) out1 out2"
    using second_pass_effect[OF p(2)[folded n_def] le0[of "n - 1"] _ law plus v, where lf = "left_first False", THEN spec[of _ 0], THEN spec[of _ 9],
      THEN spec[of _ output_iterator], THEN spec[of _ neutral], THEN spec[of _ out1], THEN spec[of _ tree1]] room(1) room' 1(4) vals n(1)
    unfolding n(3,4) by auto
  have "writes_range first last' output_iterator (\<lambda>i. ?S first (Suc i)) out out2"
    using 1(2) 2(2) law(2) by (simp add: writes_range_def)
  moreover have "ScanIteratorCheck left_first plus' values xs first last' out output_iterator neutral scan t policy block_size = Some (Inr out2)"
    using range'(3) 1(1) 2(1) by (simp add: ScanIteratorCheck_def b p(1) Let_def n_def)
  ultimately show ?thesis
    by blast
qed

text \<open>
  C30. Prefix sums. When \<^verbatim>\<open>+\<close> on the values is the scan function with its arguments swapped (as for the addition of numbers), the function is associative and \<open>neutral\<close> is neutral on its left, \<^verbatim>\<open>Scan\<close>
  writes to the output, from the output iterator on, the sum of each non-empty prefix of the range, and to nothing else. This holds whichever of the tasks runs first at each node of both passes, for
  every block size, and whatever the array of sums held before; every access is inside of its array.
\<close>

theorem scan_prefix_sums:
  assumes "first \<le> last'" "last' \<le> length xs" "output_iterator + (last' - first) \<le> length out"
    and "bits_of (ep_affinity policy) \<noteq> {}" "block_size = 0 \<or> (last' - first) div block_size \<le> 511"
    and "\<And>a b c. scan (scan a b) c = scan a (scan b c)" "\<And>a. scan neutral a = a" "\<And>a b. plus' a b = scan b a"
  shows "\<exists>out'. ScanIteratorCheck left_first plus' values xs first last' out output_iterator neutral scan t policy block_size = Some (Inr out') \<and>
     length out' = length out \<and>
     (\<forall>i < last' - first. out' ! (output_iterator + i) = foldl scan neutral (map t (take (i + 1) (segment first last' xs)))) \<and>
     (\<forall>k. k < output_iterator \<or> output_iterator + (last' - first) \<le> k \<longrightarrow> out' ! k = out ! k)"
proof -
  obtain out' where out': "ScanIteratorCheck left_first plus' values xs first last' out output_iterator neutral scan t policy block_size = Some (Inr out')"
      "writes_range first last' output_iterator (\<lambda>i. range_sum scan neutral t xs first (Suc i)) out out'"
    using scan_recursive[OF assms] by blast
  have "range_sum scan neutral t xs first (Suc (first + i)) = foldl scan neutral (map t (take (i + 1) (segment first last' xs)))" if "i < last' - first" for i
  proof -
    have "map (\<lambda>k. t (xs ! k)) [first..<Suc (first + i)] = map t (take (i + 1) (segment first last' xs))"
      using that assms(2) by (intro nth_equalityI) (auto simp del: upt_Suc)
    then show ?thesis
      by (simp add: range_sum_def)
  qed
  moreover have "out' ! (output_iterator + i) = range_sum scan neutral t xs first (Suc (first + i))" if "i < last' - first" for i
    using out'(2) that unfolding writes_range_def by (metis add_diff_cancel_left' le_add1 less_diff_conv add.commute)
  ultimately show ?thesis
    using out' by (auto simp: writes_range_def)
qed

theorem scan_prefix_sums_witness:
  "\<exists>out'. ScanIteratorCheck (\<lambda>_ _. True) (+) (\<lambda>_. 7) [3, 1, 4, 1, 5] 1 5 [9, 9, 9, 9, 9, 9] 2 0 (+) (\<lambda>x. 2 * x) two_cores 1 = Some (Inr out') \<and>
     out' ! 1 = 9 \<and> out' ! 2 = 2 \<and> out' ! 3 = 10 \<and> out' ! 4 = 12 \<and> out' ! 5 = (22 :: int)"
proof -
  have seg: "segment 1 5 [3, 1, 4, 1, 5 :: int] = [1, 4, 1, 5]"
    by (simp add: segment_def)
  have "(5 :: nat) \<le> length [3, 1, 4, 1, 5 :: int]" "2 + (5 - 1) \<le> length [9, 9, 9, 9, 9, 9 :: int]" "(1 :: nat) = 0 \<or> (5 - 1) div 1 \<le> (511 :: nat)"
    by simp_all
  from scan_prefix_sums[OF one_le_numeral this(1,2) two_cores_nonempty this(3) add.assoc add_0 add.commute, where left_first = "\<lambda>_ _. True" and t = "\<lambda>x. 2 * x", unfolded seg]
  obtain out' where out': "ScanIteratorCheck (\<lambda>_ _. True) (+) (\<lambda>_. 7) [3, 1, 4, 1, 5] 1 5 [9, 9, 9, 9, 9, 9] 2 0 (+) (\<lambda>x. 2 * x) two_cores 1 = Some (Inr out')"
      "\<forall>i < 5 - 1. out' ! (2 + i) = foldl (+) 0 (map (\<lambda>x. 2 * x) (take (i + 1) [1, 4, 1, 5 :: int]))"
      "\<forall>k. k < 2 \<or> 2 + (5 - 1) \<le> k \<longrightarrow> out' ! k = [9, 9, 9, 9, 9, 9] ! k"
    by blast
  show ?thesis
    using out'(1) out'(2)[rule_format, of 0] out'(2)[rule_format, of 1] out'(2)[rule_format, of 2] out'(2)[rule_format, of 3] out'(3)[rule_format, of 1]
    by (simp add: numeral_2_eq_2 numeral_3_eq_3 numeral_eq_Suc)
qed

text \<open>
  C31. The second pass does not use the scan function. For two elements in blocks of one, the second output is the scan function of \<open>x + neutral\<close> and \<open>y\<close>, where \<open>+\<close> is the operator of the value type. So multiplying with
  neutral element 1 gives \<open>(2 + 1) * 3\<close> for the elements 2 and 3, although multiplication is associative and 1 is neutral.
\<close>

theorem scan_uses_plus:
  assumes "bits_of (ep_affinity policy) \<noteq> {}"
  shows "ScanIteratorCheck left_first plus' values [x, y] 0 2 [u, w] 0 neutral scan t policy 1 =
     Some (Inr [scan neutral (t x), scan (plus' (t x) neutral) (t y)])"
proof -
  obtain b where "determine_block_size (int 2) policy 1 ''Negative range for Scan'' ''Not enough MTAPI tasks available for parallel scan'' = Some (Inr b)"
    using determine_block_size_total[OF assms, of 1 2] by auto
  then have b: "determine_block_size 2 policy 1 ''Negative range for Scan'' ''Not enough MTAPI tasks available for parallel scan'' = Some (Inr 1)"
    using determine_block_size_accepts(4)[of 2 policy 1] by fastforce
  define p where "p = \<lparr>bp_first = 0, bp_last = 2, bp_elements_count = 2, bp_chunk_size = 1, bp_chunks = 2\<rparr>"
  have p: "BlockSizePartitioner_new 0 2 1 = Some p" "BlockSizePartitioner_Size p = 2"
     "BlockSizePartitioner_at p 0 = \<lparr>GetFirst = 0, GetLast = 1\<rparr>" "BlockSizePartitioner_at p 1 = \<lparr>GetFirst = 1, GetLast = 2\<rparr>"
    by (simp_all add: BlockSizePartitioner_new_def BlockSizePartitioner_Size_def BlockSizePartitioner_at_def p_def Let_def)
  let ?tree = "map values [0..<1024]"
  have leaf1: "ScanFunctor_Action lf plus' scan t neutral [x, y] p True 0 0 0 node pv (out, tree) = Some (out[0 := t x], tree[node := t x])"
       "ScanFunctor_Action lf plus' scan t neutral [x, y] p True 1 1 1 node pv (out, tree) = Some (out[1 := t y], tree[node := t y])"
    if "length out = 2" "node < length tree" for lf node pv out tree
    using that by (subst ScanFunctor_Action.simps, simp add: scan_leaf_def Let_def p(3,4)[unfolded One_nat_def] scan_first_loop.simps)+
  have leaf2: "ScanFunctor_Action lf plus' scan t neutral [x, y] p False 0 0 0 node pv (out, tree) = Some (out[0 := scan pv (out ! 0)], tree)"
       "ScanFunctor_Action lf plus' scan t neutral [x, y] p False 1 1 1 node pv (out, tree) = Some (out[1 := scan pv (out ! 1)], tree)"
    if "length out = 2" for lf node pv out tree
  proof -
    have "out \<noteq> []"
      using that by auto
    then show "ScanFunctor_Action lf plus' scan t neutral [x, y] p False 0 0 0 node pv (out, tree) = Some (out[0 := scan pv (out ! 0)], tree)"
      by (subst ScanFunctor_Action.simps) (simp add: scan_leaf_def p(3)[unfolded One_nat_def] scan_second_loop.simps)
    show "ScanFunctor_Action lf plus' scan t neutral [x, y] p False 1 1 1 node pv (out, tree) = Some (out[1 := scan pv (out ! 1)], tree)"
      using that by (subst ScanFunctor_Action.simps) (simp add: scan_leaf_def p(4)[unfolded One_nat_def] scan_second_loop.simps)
  qed
  show ?thesis
    using leaf1 leaf2
    by (cases "left_first True 0"; cases "left_first False 0")
      (simp_all add: ScanIteratorCheck_def b[unfolded One_nat_def] p[unfolded One_nat_def] MTAPI_NODE_MAX_TASKS_DEFAULT_def scan_node)
qed

theorem scan_uses_plus_witness:
  "ScanIteratorCheck (\<lambda>_ _. True) (+) (\<lambda>_. 0) [2, 3] 0 2 [0, 0] 0 1 (*) (\<lambda>x. x) two_cores 1 = Some (Inr [2, 9 :: int])"
  using scan_uses_plus[OF two_cores_nonempty, of "\<lambda>_ _. True" "(+)" "\<lambda>_. 0" "2 :: int" 3 0 0 1 "(*)" "\<lambda>x. x"] by simp

end
