(* ===== verification/Sort_Order.thy ===== *)
theory Sort_Order
  imports Partitioner "HOL-Library.Multiset"
begin

text \<open>
  What the two sorting algorithms share: the laws of a comparison function, and the rearrangement of a range of an array.
\<close>

section \<open>Comparison functions\<close>

text \<open>The laws the C++ standard asks of a comparison: a strict weak order.\<close>

locale strict_weak_order =
  fixes comparison :: "'a \<Rightarrow> 'a \<Rightarrow> bool"
  assumes irrefl: "\<not> comparison a a"
    and trans: "comparison a b \<Longrightarrow> comparison b c \<Longrightarrow> comparison a c"
    and cotrans: "comparison a b \<Longrightarrow> comparison a c \<or> comparison c b"
begin

lemma asym: "comparison a b \<Longrightarrow> \<not> comparison b a"
  using irrefl trans by blast

text \<open>Not being smaller is a total preorder.\<close>

lemma not_less_trans: "\<not> comparison b a \<Longrightarrow> \<not> comparison c b \<Longrightarrow> \<not> comparison c a"
  using cotrans by blast

lemma not_less_total: "\<not> comparison b a \<or> \<not> comparison a b"
  using asym by blast

end

text \<open>The comparison the algorithms use by default, \<^verbatim>\<open>std::less\<close>.\<close>

definition std_less :: "'a::linorder \<Rightarrow> 'a \<Rightarrow> bool" where
  "std_less a b \<longleftrightarrow> a < b"

interpretation less: strict_weak_order "std_less :: 'a::linorder \<Rightarrow> 'a \<Rightarrow> bool"
  by unfold_locales (auto simp: std_less_def)

section \<open>Sorted ranges\<close>

definition sorted_range :: "('a \<Rightarrow> 'a \<Rightarrow> bool) \<Rightarrow> nat \<Rightarrow> nat \<Rightarrow> 'a list \<Rightarrow> bool" where
  "sorted_range comparison a b xs \<longleftrightarrow> (\<forall>i j. a \<le> i \<and> i < j \<and> j < b \<longrightarrow> \<not> comparison (xs ! j) (xs ! i))"

lemma sorted_range_small [simp]: "b \<le> Suc a \<Longrightarrow> sorted_range comparison a b xs"
  by (auto simp: sorted_range_def)

lemma sorted_range_segment:
  assumes "b \<le> length xs"
  shows "sorted_range comparison a b xs \<longleftrightarrow> sorted_wrt (\<lambda>x y. \<not> comparison y x) (segment a b xs)"
proof
  assume "sorted_range comparison a b xs"
  then show "sorted_wrt (\<lambda>x y. \<not> comparison y x) (segment a b xs)"
    using assms by (simp add: sorted_range_def sorted_wrt_iff_nth_less)
next
  assume *: "sorted_wrt (\<lambda>x y. \<not> comparison y x) (segment a b xs)"
  have "\<not> comparison (xs ! j) (xs ! i)" if "a \<le> i" "i < j" "j < b" for i j
    using * that assms unfolding sorted_wrt_iff_nth_less by (auto dest!: spec[of _ "i - a"] spec[of _ "j - a"] spec2[of _ "i - a" "j - a"])
  then show "sorted_range comparison a b xs"
    by (simp add: sorted_range_def)
qed

section \<open>Rearranging a range\<close>

definition permutes_range :: "nat \<Rightarrow> nat \<Rightarrow> 'a list \<Rightarrow> 'a list \<Rightarrow> bool" where
  "permutes_range a b xs ys \<longleftrightarrow> mset ys = mset xs \<and> (\<forall>i. i < a \<or> b \<le> i \<longrightarrow> ys ! i = xs ! i)"

lemma permutes_range_refl [simp]: "permutes_range a b xs xs"
  by (simp add: permutes_range_def)

lemma permutes_range_length: "permutes_range a b xs ys \<Longrightarrow> length ys = length xs"
  unfolding permutes_range_def by (metis size_mset)

lemma permutes_range_trans:
  "permutes_range a b xs ys \<Longrightarrow> permutes_range c d ys zs \<Longrightarrow> e \<le> a \<Longrightarrow> b \<le> f \<Longrightarrow> e \<le> c \<Longrightarrow> d \<le> f \<Longrightarrow> permutes_range e f xs zs"
  by (auto simp: permutes_range_def)

lemma permutes_range_swap:
  assumes "a \<le> i" "i < b" "a \<le> j" "j < b" "b \<le> length xs"
  shows "permutes_range a b xs (xs[i := xs ! j, j := xs ! i])"
  using assms mset_swap[of j xs i] by (auto simp: permutes_range_def list_update_swap)

lemma mset_segment_split:
  assumes "a \<le> b" "b \<le> length xs"
  shows "mset xs = mset (take a xs) + mset (segment a b xs) + mset (drop b xs)"
proof -
  have "xs = take a xs @ segment a b xs @ drop b xs"
    using assms by (metis append_take_drop_id drop_drop le_add_diff_inverse2 segment_def)
  then show ?thesis
    by (metis mset_append add.assoc)
qed

text \<open>The elements of the range are the same, in another order.\<close>

lemma permutes_range_segment:
  assumes "permutes_range a b xs ys" "a \<le> b" "b \<le> length xs"
  shows "mset (segment a b ys) = mset (segment a b xs)"
proof -
  have len: "length ys = length xs"
    by (rule permutes_range_length[OF assms(1)])
  have "take a ys = take a xs" "drop b ys = drop b xs"
    using assms len by (auto simp: permutes_range_def intro!: nth_equalityI)
  then show ?thesis
    using mset_segment_split[OF assms(2,3)] mset_segment_split[of a b ys] assms len by (simp add: permutes_range_def)
qed

lemma permutes_range_all:
  assumes "permutes_range a b xs ys" "b \<le> length xs" "\<And>i. a \<le> i \<Longrightarrow> i < b \<Longrightarrow> P (xs ! i)" "a \<le> i" "i < b"
  shows "P (ys ! i)"
proof -
  have "a \<le> b" and len: "length ys = length xs"
    using assms(4,5) permutes_range_length[OF assms(1)] by simp_all
  then have "set (segment a b ys) = set (segment a b xs)"
    using permutes_range_segment[OF assms(1) _ assms(2)] by (metis set_mset_mset)
  moreover have "ys ! i \<in> set (segment a b ys)"
    using assms len by (auto simp: in_set_conv_nth intro!: exI[of _ "i - a"])
  moreover have "\<forall>x \<in> set (segment a b xs). P x"
    using assms by (auto simp: in_set_conv_nth)
  ultimately show ?thesis
    by blast
qed

lemma permutes_range_frame:
  "permutes_range a b xs ys \<Longrightarrow> b \<le> c \<Longrightarrow> sorted_range comparison c d ys = sorted_range comparison c d xs"
  "permutes_range a b xs ys \<Longrightarrow> d \<le> a \<Longrightarrow> sorted_range comparison c d ys = sorted_range comparison c d xs"
  by (auto simp: permutes_range_def sorted_range_def)

end
