(* ===== verification/Quick_Sort.thy ===== *)
theory Quick_Sort
  imports Sort_Order
begin

text \<open>
  \<^verbatim>\<open>QuickSort\<close> (\<^verbatim>\<open>algorithms_cpp/internal/quick_sort-inl.h\<close>): partition around a pseudo-median of nine, parallel recursion down to the block size, serial recursion below it.

  The recursion ends only if both parts of a partition are non-empty, which depends on the comparison function: it is a partial function, and the theorems show that it returns. \<open>left_first\<close> says for the
  range of each task which of its two subtasks runs first, \<open>starts\<close> which tasks the node starts. The second result of \<open>QuickSortFunctor_Action\<close> counts the tasks that have been started. An exception in a
  task is caught by nobody and ends the program; as a result it is \<open>Inl\<close>.
\<close>

section \<open>Definitions\<close>

definition MedianOfThree :: "('a \<Rightarrow> 'a \<Rightarrow> bool) \<Rightarrow> 'a list \<Rightarrow> nat \<Rightarrow> nat \<Rightarrow> nat \<Rightarrow> nat \<Rightarrow> nat option" where
  "MedianOfThree comparison xs first left mid right =
     do { l \<leftarrow> deref xs (first + left);
          m \<leftarrow> deref xs (first + mid);
          r \<leftarrow> deref xs (first + right);
          if comparison l m then
            (if comparison m r then Some mid else if comparison l r then Some right else Some left)
          else
            (if comparison r m then Some mid else if comparison r l then Some right else Some left) }"

definition MedianOfNine :: "('a \<Rightarrow> 'a \<Rightarrow> bool) \<Rightarrow> 'a list \<Rightarrow> nat \<Rightarrow> nat \<Rightarrow> nat option" where
  "MedianOfNine comparison xs first last' =
     (let distance = last' - first; offset = distance div 8 in
      if offset = 0 then Some (distance div 2)
      else do {
        a \<leftarrow> MedianOfThree comparison xs first 0 offset (offset * 2);
        b \<leftarrow> MedianOfThree comparison xs first (offset * 3) (offset * 4) (offset * 5);
        c \<leftarrow> MedianOfThree comparison xs first (offset * 6) (offset * 7) (distance - 1);
        MedianOfThree comparison xs first a b c })"

text \<open>The two inner loops of \<^verbatim>\<open>SerialPartition\<close>; the flag says that they met the other end, where the function returns.\<close>

function partition_up :: "('a \<Rightarrow> 'a \<Rightarrow> bool) \<Rightarrow> 'a list \<Rightarrow> nat \<Rightarrow> nat \<Rightarrow> nat \<Rightarrow> (nat \<times> bool) option" where
  "partition_up comparison xs first last' pivot =
     (if length xs \<le> first then None
      else do { p \<leftarrow> deref xs pivot;
                if comparison (xs ! first) p then
                  (if first + 1 = last' then Some (first + 1, True) else partition_up comparison xs (first + 1) last' pivot)
                else Some (first, False) })"
  by pat_completeness auto
termination
  by (relation "measure (\<lambda>(c, xs, f, l, p). length xs - f)") auto

declare partition_up.simps [simp del]

function partition_down :: "('a \<Rightarrow> 'a \<Rightarrow> bool) \<Rightarrow> 'a list \<Rightarrow> nat \<Rightarrow> nat \<Rightarrow> nat \<Rightarrow> (nat \<times> bool) option" where
  "partition_down comparison xs first last' pivot =
     (if last' = 0 then None
      else (let last' = last' - 1 in
        if first = last' then Some (last', True)
        else do { p \<leftarrow> deref xs pivot;
                  l \<leftarrow> deref xs last';
                  if comparison p l then partition_down comparison xs first last' pivot else Some (last', False) }))"
  by pat_completeness auto
termination
  by (relation "measure (\<lambda>(c, xs, f, l, p). l)") auto

declare partition_down.simps [simp del]

partial_function (option) SerialPartition :: "('a \<Rightarrow> 'a \<Rightarrow> bool) \<Rightarrow> nat \<Rightarrow> nat \<Rightarrow> nat \<Rightarrow> 'a list \<Rightarrow> (nat \<times> 'a list) option" where
  [code]: "SerialPartition comparison first last' pivot xs =
     (if first = last' then Some (first, xs)
      else do {
        (first, met) \<leftarrow> partition_up comparison xs first last' pivot;
        if met then Some (first, xs)
        else do {
          (last', met) \<leftarrow> partition_down comparison xs first last' pivot;
          if met then Some (first, xs)
          else do {
            x \<leftarrow> deref xs first;
            y \<leftarrow> deref xs last';
            let xs = xs[first := y, last' := x];
            let pivot = (if pivot = first then last' else if pivot = last' then first else pivot);
            SerialPartition comparison (first + 1) last' pivot xs } } })"

partial_function (option) SerialQuickSort :: "('a \<Rightarrow> 'a \<Rightarrow> bool) \<Rightarrow> nat \<Rightarrow> nat \<Rightarrow> 'a list \<Rightarrow> 'a list option" where
  [code]: "SerialQuickSort comparison first last' xs =
     (if last' - first \<le> 1 then Some xs
      else do {
        pivot \<leftarrow> MedianOfNine comparison xs first last';
        (mid, xs) \<leftarrow> SerialPartition comparison first last' (first + pivot) xs;
        xs \<leftarrow> SerialQuickSort comparison first mid xs;
        SerialQuickSort comparison mid last' xs })"

text \<open>
  Starting a task. \<open>starts tasks first last'\<close> is what the node answers when the task of the range is started and \<open>tasks\<close> tasks of this sort have been started before it: it refuses a task, for instance, when
  its task pool has no free slot. A slot is in use from the start of a task until the task that started it has waited for it, so that a pool with more slots than \<open>tasks\<close> never refuses.
\<close>

definition Node_Spawn :: "(nat \<Rightarrow> nat \<Rightarrow> nat \<Rightarrow> bool) \<Rightarrow> nat \<Rightarrow> nat \<Rightarrow> nat \<Rightarrow> cxx_exception + nat" where
  "Node_Spawn starts first last' tasks =
     (if starts tasks first last' then Inr (tasks + 1) else Inl (ErrorException ''mtapi::Task could not be started''))"

text \<open>What follows a statement that may throw.\<close>

definition after_throw :: "('e + 'a) option \<Rightarrow> ('a \<Rightarrow> ('e + 'b) option) \<Rightarrow> ('e + 'b) option" where
  "after_throw m k = Option.bind m (\<lambda>r. case r of Inl e \<Rightarrow> Some (Inl e) | Inr x \<Rightarrow> k x)"

lemma after_throw_simps [simp]:
  "after_throw None k = None" "after_throw (Some (Inl e)) k = Some (Inl e)" "after_throw (Some (Inr x)) k = k x"
  by (simp_all add: after_throw_def)

lemma after_throw_mono [partial_function_mono]:
  assumes "mono_option m" "\<And>x. mono_option (\<lambda>f. k x f)"
  shows "mono_option (\<lambda>f. after_throw (m f) (\<lambda>x. k x f))"
  unfolding after_throw_def
proof (rule bind_mono[OF assms(1)])
  show "mono_option (\<lambda>f. case r of Inl e \<Rightarrow> Some (Inl e) | Inr x \<Rightarrow> k x f)" for r
    by (cases r) (simp_all add: assms(2) option.const_mono)
qed

partial_function (option) QuickSortFunctor_Action ::
    "(nat \<Rightarrow> nat \<Rightarrow> bool) \<Rightarrow> (nat \<Rightarrow> nat \<Rightarrow> nat \<Rightarrow> bool) \<Rightarrow> ('a \<Rightarrow> 'a \<Rightarrow> bool) \<Rightarrow> nat \<Rightarrow> nat \<Rightarrow> nat \<Rightarrow> 'a list \<Rightarrow> nat \<Rightarrow>
     (cxx_exception + 'a list \<times> nat) option" where
  [code]: "QuickSortFunctor_Action left_first starts comparison block_size first last' xs tasks =
     (let distance = last' - first in
      if distance \<le> 1 then Some (Inr (xs, tasks))
      else do {
        pivot \<leftarrow> MedianOfNine comparison xs first last';
        (mid, xs) \<leftarrow> SerialPartition comparison first last' (first + pivot) xs;
        if distance \<le> block_size then do {
          xs \<leftarrow> SerialQuickSort comparison first mid xs;
          xs \<leftarrow> SerialQuickSort comparison mid last' xs;
          Some (Inr (xs, tasks)) }
        else
          after_throw (Some (Node_Spawn starts first mid tasks)) (\<lambda>tasks.
          after_throw (Some (Node_Spawn starts mid last' tasks)) (\<lambda>tasks.
            let (a, b, c, d) = (if left_first first last' then (first, mid, mid, last') else (mid, last', first, mid)) in
              after_throw (QuickSortFunctor_Action left_first starts comparison block_size a b xs tasks) (\<lambda>(xs, tasks).
              QuickSortFunctor_Action left_first starts comparison block_size c d xs tasks))) })"

definition QuickSortIteratorCheck ::
    "(nat \<Rightarrow> nat \<Rightarrow> bool) \<Rightarrow> (nat \<Rightarrow> nat \<Rightarrow> nat \<Rightarrow> bool) \<Rightarrow> 'a list \<Rightarrow> nat \<Rightarrow> nat \<Rightarrow> ('a \<Rightarrow> 'a \<Rightarrow> bool) \<Rightarrow> ExecutionPolicy \<Rightarrow> nat \<Rightarrow>
     (cxx_exception + 'a list \<times> nat) option" where
  "QuickSortIteratorCheck left_first starts xs first last' comparison policy block_size =
     (let distance = int last' - int first in
      if distance = 0 then Some (Inr (xs, 0))
      else 
        after_throw (determine_block_size distance policy block_size ''Negative range for QuickSort''
                       ''Not enough MTAPI tasks available for performing quick sort'') (\<lambda>block_size.
        after_throw (Some (Node_Spawn starts first last' 0)) (\<lambda>tasks.
        QuickSortFunctor_Action left_first starts comparison block_size first last' xs tasks)))"

section \<open>The pivot\<close>

lemma median_of_three:
  assumes "first + left < length xs" "first + mid < length xs" "first + right < length xs"
  shows "\<exists>k. MedianOfThree comparison xs first left mid right = Some k \<and> k \<in> {left, mid, right} \<and>
    (k = left \<and> left \<noteq> mid \<and> left \<noteq> right \<longrightarrow>
       \<not> comparison (xs ! (first + left)) (xs ! (first + mid)) \<or> \<not> comparison (xs ! (first + left)) (xs ! (first + right)))"
  using assms by (auto simp: MedianOfThree_def)

text \<open>The position of the pivot is inside of the range; and if it is the first one, some other element is not greater, so that the first part of the partition is not empty.\<close>

lemma median_of_nine:
  assumes "first + 2 \<le> last'" "last' \<le> length xs"
  obtains k where "MedianOfNine comparison xs first last' = Some k" "first + k < last'"
    "k = 0 \<Longrightarrow> \<exists>i. first < i \<and> i < last' \<and> \<not> comparison (xs ! first) (xs ! i)"
proof (cases "(last' - first) div 8 = 0")
  case True
  then have "MedianOfNine comparison xs first last' = Some ((last' - first) div 2)"
    by (simp add: MedianOfNine_def Let_def)
  then show thesis
    using that assms(1) by fastforce
next
  case False
  define d o' where "d = last' - first" and "o' = d div 8"
  have d: "0 < o'" "8 * o' \<le> d" "first + d = last'" "first + d \<le> length xs"
    using False assms by (simp_all add: d_def o'_def)
  obtain a where a: "MedianOfThree comparison xs first 0 o' (o' * 2) = Some a" "a \<in> {0, o', o' * 2}"
    using median_of_three[of first 0 xs o' "o' * 2" comparison] d by auto
  obtain b where b: "MedianOfThree comparison xs first (o' * 3) (o' * 4) (o' * 5) = Some b" "b \<in> {o' * 3, o' * 4, o' * 5}"
    using median_of_three[of first "o' * 3" xs "o' * 4" "o' * 5" comparison] d by auto
  obtain c where c: "MedianOfThree comparison xs first (o' * 6) (o' * 7) (d - 1) = Some c" "c \<in> {o' * 6, o' * 7, d - 1}"
    using median_of_three[of first "o' * 6" xs "o' * 7" "d - 1" comparison] d(1-2,4) less_le_trans[of "first + (d - 1)" "first + d"] by auto
  have bounds: "a < d" "0 < b" "b < d" "0 < c" "c < d"
    using a(2) b(2) c(2) d by auto
  then have "first + a < length xs" "first + b < length xs" "first + c < length xs"
    using d by simp_all
  then obtain k where k: "MedianOfThree comparison xs first a b c = Some k" "k \<in> {a, b, c}"
      "k = a \<Longrightarrow> a \<noteq> b \<Longrightarrow> a \<noteq> c \<Longrightarrow> \<not> comparison (xs ! (first + a)) (xs ! (first + b)) \<or> \<not> comparison (xs ! (first + a)) (xs ! (first + c))"
    using median_of_three[of first a xs b c comparison] by blast
  show thesis
  proof (rule that)
    show "MedianOfNine comparison xs first last' = Some k"
      using False a(1) b(1) c(1) k(1) by (simp add: MedianOfNine_def Let_def d_def[symmetric] o'_def[symmetric])
    show "first + k < last'"
      using k(2) bounds d(3) by auto
    assume "k = 0"
    then have "\<not> comparison (xs ! first) (xs ! (first + b)) \<or> \<not> comparison (xs ! first) (xs ! (first + c))"
      using k(2,3) bounds by auto
    moreover have "first < first + b" "first + b < last'" "first < first + c" "first + c < last'"
      using bounds d(3) by auto
    ultimately show "\<exists>i. first < i \<and> i < last' \<and> \<not> comparison (xs ! first) (xs ! i)"
      by blast
  qed
qed

section \<open>Partitioning\<close>

lemma partition_up_spec:
  assumes "first < last'" "last' \<le> length xs" "pivot < length xs"
  shows "\<exists>f met. partition_up comparison xs first last' pivot = Some (f, met) \<and> first \<le> f \<and> f \<le> last' \<and>
     (\<forall>i. first \<le> i \<and> i < f \<longrightarrow> comparison (xs ! i) (xs ! pivot)) \<and> (met \<longleftrightarrow> f = last') \<and> (\<not> met \<longrightarrow> \<not> comparison (xs ! f) (xs ! pivot))"
  using assms
proof (induction "last' - first" arbitrary: first)
  case (Suc n)
  then have n: "n = last' - (first + 1)"
    by simp
  show ?case
  proof (cases "comparison (xs ! first) (xs ! pivot)")
    case False
    then have "partition_up comparison xs first last' pivot = Some (first, False)"
      using Suc.prems by (simp add: partition_up.simps[of _ _ first])
    then show ?thesis
      using False Suc.prems(1) by auto
  next
    case True
    show ?thesis
    proof (cases "first + 1 = last'")
      case last: True
      then have "partition_up comparison xs first last' pivot = Some (last', True)"
        using True Suc.prems by (simp add: partition_up.simps[of _ _ first])
      moreover have "\<forall>i. first \<le> i \<and> i < last' \<longrightarrow> comparison (xs ! i) (xs ! pivot)"
        using True last by (auto simp: less_Suc_eq_le dest: le_antisym)
      ultimately show ?thesis
        using Suc.prems(1) by auto
    next
      case more: False
      have "partition_up comparison xs first last' pivot = partition_up comparison xs (first + 1) last' pivot"
        using True more Suc.prems by (simp add: partition_up.simps[of _ _ first])
      moreover obtain f met where "partition_up comparison xs (first + 1) last' pivot = Some (f, met)" "first + 1 \<le> f" "f \<le> last'"
          "\<forall>i. first + 1 \<le> i \<and> i < f \<longrightarrow> comparison (xs ! i) (xs ! pivot)" "met \<longleftrightarrow> f = last'" "\<not> met \<longrightarrow> \<not> comparison (xs ! f) (xs ! pivot)"
        using Suc.hyps(1)[OF n] Suc.prems more by auto
      moreover have "\<forall>i. first \<le> i \<and> i < f \<longrightarrow> comparison (xs ! i) (xs ! pivot)"
        using calculation(5) True by (metis Suc_eq_plus1 Suc_leI le_neq_implies_less)
      ultimately show ?thesis
        by auto
    qed
  qed
qed simp

lemma partition_down_spec:
  assumes "first < last'" "last' \<le> length xs" "pivot < length xs"
  shows "\<exists>l met. partition_down comparison xs first last' pivot = Some (l, met) \<and> first \<le> l \<and> l < last' \<and>
     (\<forall>i. l < i \<and> i < last' \<longrightarrow> comparison (xs ! pivot) (xs ! i)) \<and> (met \<longleftrightarrow> l = first) \<and> (\<not> met \<longrightarrow> \<not> comparison (xs ! pivot) (xs ! l))"
  using assms
proof (induction last')
  case (Suc l)
  show ?case
  proof (cases "first = l")
    case True
    then have "partition_down comparison xs first (Suc l) pivot = Some (l, True)"
      by (simp add: partition_down.simps[of _ _ _ "Suc l"] Let_def)
    then show ?thesis
      using True by auto
  next
    case more: False
    show ?thesis
    proof (cases "comparison (xs ! pivot) (xs ! l)")
      case False
      then have "partition_down comparison xs first (Suc l) pivot = Some (l, False)"
        using more Suc.prems by (simp add: partition_down.simps[of _ _ _ "Suc l"] Let_def)
      then show ?thesis
        using False more Suc.prems(1) by auto
    next
      case True
      then have "partition_down comparison xs first (Suc l) pivot = partition_down comparison xs first l pivot"
        using more Suc.prems by (simp add: partition_down.simps[of _ _ _ "Suc l"] Let_def)
      moreover obtain m met where "partition_down comparison xs first l pivot = Some (m, met)" "first \<le> m" "m < l"
          "\<forall>i. m < i \<and> i < l \<longrightarrow> comparison (xs ! pivot) (xs ! i)" "met \<longleftrightarrow> m = first" "\<not> met \<longrightarrow> \<not> comparison (xs ! pivot) (xs ! m)"
        using Suc.IH Suc.prems more by auto
      moreover have "\<forall>i. m < i \<and> i < Suc l \<longrightarrow> comparison (xs ! pivot) (xs ! i)"
        using calculation(5) True by (auto simp: less_Suc_eq)
      ultimately show ?thesis
        by auto
    qed
  qed
qed simp

text \<open>The result of a partition around the value \<open>p\<close>: what is before \<open>mid\<close> is not greater, and the rest is not smaller.\<close>

definition partitioned :: "('a \<Rightarrow> 'a \<Rightarrow> bool) \<Rightarrow> nat \<Rightarrow> nat \<Rightarrow> nat \<Rightarrow> 'a \<Rightarrow> 'a list \<Rightarrow> bool" where
  "partitioned comparison first mid last' p xs \<longleftrightarrow> first \<le> mid \<and> mid \<le> last' \<and>
     (\<forall>i. first \<le> i \<and> i < mid \<longrightarrow> \<not> comparison p (xs ! i)) \<and> (\<forall>i. mid \<le> i \<and> i < last' \<longrightarrow> \<not> comparison (xs ! i) p)"

lemma serial_partition_spec:
  assumes order: "strict_weak_order comparison" and "first \<le> last'" "last' \<le> length xs" "pivot < length xs"
  shows "\<exists>mid ys. SerialPartition comparison first last' pivot xs = Some (mid, ys) \<and> permutes_range first last' xs ys \<and>
     partitioned comparison first mid last' (xs ! pivot) ys"
  using assms(2-4)
proof (induction "last' - first" arbitrary: first last' pivot xs rule: less_induct)
  case less
  note asym = strict_weak_order.asym[OF order]
  show ?case
  proof (cases "first = last'")
    case True
    then show ?thesis
      by (auto simp: SerialPartition.simps partitioned_def)
  next
    case False
    then have range: "first < last'"
      using less.prems(1) by simp
    obtain f met where up: "partition_up comparison xs first last' pivot = Some (f, met)" "first \<le> f" "f \<le> last'"
        "\<forall>i. first \<le> i \<and> i < f \<longrightarrow> comparison (xs ! i) (xs ! pivot)" "met \<longleftrightarrow> f = last'" "\<not> met \<longrightarrow> \<not> comparison (xs ! f) (xs ! pivot)"
      using partition_up_spec[OF range less.prems(2,3)] by blast
    have low: "\<not> comparison (xs ! pivot) (xs ! i)" if "first \<le> i" "i < f" for i
      using up(4) that asym by blast
    show ?thesis
    proof (cases met)
      case True
      then have "SerialPartition comparison first last' pivot xs = Some (last', xs)"
        using False up(1,5) by (simp add: SerialPartition.simps)
      then show ?thesis
        using low True up(2,5) by (auto simp: partitioned_def)
    next
      case more: False
      then have f: "f < last'"
        using up(3,5) by simp
      obtain l met' where down: "partition_down comparison xs f last' pivot = Some (l, met')" "f \<le> l" "l < last'"
          "\<forall>i. l < i \<and> i < last' \<longrightarrow> comparison (xs ! pivot) (xs ! i)" "met' \<longleftrightarrow> l = f" "\<not> met' \<longrightarrow> \<not> comparison (xs ! pivot) (xs ! l)"
        using partition_down_spec[OF f less.prems(2,3)] by blast
      have high: "\<not> comparison (xs ! i) (xs ! pivot)" if "l < i" "i < last'" for i
        using down(4) that asym by blast
      show ?thesis
      proof (cases met')
        case True
        then have "SerialPartition comparison first last' pivot xs = Some (f, xs)"
          using False up(1) more down(1) by (simp add: SerialPartition.simps)
        moreover have "\<not> comparison (xs ! i) (xs ! pivot)" if "f \<le> i" "i < last'" for i
          using high that True down(5) up(6) more by (cases "i = f") auto
        ultimately show ?thesis
          using low up(2,3) by (auto simp: partitioned_def)
      next
        case swap: False
        define zs where "zs = xs[f := xs ! l, l := xs ! f]"
        define q where "q = (if pivot = f then l else if pivot = l then f else pivot)"
        have l: "f < l" "l < length xs" "f < length xs"
          using swap down(2,3,5) less.prems(2) by auto
        have run: "SerialPartition comparison first last' pivot xs = SerialPartition comparison (f + 1) l q zs"
          using False up(1) more down(1) swap l by (subst SerialPartition.simps) (simp add: Let_def zs_def q_def)
        have zs: "permutes_range first last' xs zs" "length zs = length xs" "q < length zs" "zs ! q = xs ! pivot" "zs ! f = xs ! l" "zs ! l = xs ! f"
          using l up(2) f down(3) less.prems(2,3) permutes_range_swap[of first f last' l xs] by (auto simp: zs_def q_def nth_list_update)
        have same: "zs ! i = xs ! i" if "i \<noteq> f" "i \<noteq> l" for i
          using that by (simp add: zs_def)
        obtain mid ys where IH: "SerialPartition comparison (f + 1) l q zs = Some (mid, ys)" "permutes_range (f + 1) l zs ys"
            "partitioned comparison (f + 1) mid l (zs ! q) ys"
        proof -
          have "l - (f + 1) < last' - first" "f + 1 \<le> l" "l \<le> length zs"
            using l zs(2) up(2) down(3) by linarith+
          then show thesis
            using less.hyps[OF _ _ _ zs(3)] that by blast
        qed
        have out: "ys ! i = zs ! i" if "i < f + 1 \<or> l \<le> i" for i
          using IH(2) that unfolding permutes_range_def by blast
        have "partitioned comparison first mid last' (xs ! pivot) ys"
        proof -
          have "\<not> comparison (xs ! pivot) (ys ! i)" if "first \<le> i" "i < mid" for i
          proof (cases "i < f + 1")
            case True
            then show ?thesis
              using out[of i] low[of i] same[of i] zs(5) down(6) swap l that by (cases "i = f") auto
          qed (use IH(3) that zs(4) in \<open>auto simp: partitioned_def\<close>)
          moreover have "\<not> comparison (ys ! i) (xs ! pivot)" if "mid \<le> i" "i < last'" for i
          proof (cases "i < l")
            case False
            then show ?thesis
              using out[of i] high[of i] same[of i] zs(6) up(6) more l that by (cases "i = l") auto
          qed (use IH(3) that zs(4) in \<open>auto simp: partitioned_def\<close>)
          ultimately show ?thesis
            using IH(3) up(2) l down(3) by (auto simp: partitioned_def)
        qed
        moreover have "permutes_range first last' xs ys"
          using permutes_range_trans[OF zs(1) IH(2), of first last'] up(2) down(3) by simp
        ultimately show ?thesis
          using run IH(1) by auto
      qed
    qed
  qed
qed

text \<open>Both parts are smaller than the range if the pivot is in the range and is not a strict minimum in its first position.\<close>

lemma serial_partition_strict:
  assumes order: "strict_weak_order comparison" and "first + 2 \<le> last'" "last' \<le> length xs" "first \<le> pivot" "pivot < last'"
    and ne: "pivot = first \<Longrightarrow> \<exists>i. first < i \<and> i < last' \<and> \<not> comparison (xs ! first) (xs ! i)"
  obtains mid ys where "SerialPartition comparison first last' pivot xs = Some (mid, ys)" "permutes_range first last' xs ys"
    "partitioned comparison first mid last' (xs ! pivot) ys" "first < mid" "mid < last'"
proof -
  note irrefl = strict_weak_order.irrefl[OF order]
  have bounds: "first < last'" "pivot < length xs" "first \<le> last'"
    using assms(2-5) by simp_all
  obtain mid ys where run: "SerialPartition comparison first last' pivot xs = Some (mid, ys)" "permutes_range first last' xs ys"
      "partitioned comparison first mid last' (xs ! pivot) ys"
    using serial_partition_spec[OF order bounds(3) assms(3) bounds(2)] by blast
  obtain f met where up: "partition_up comparison xs first last' pivot = Some (f, met)" "first \<le> f" "f \<le> last'"
      "\<forall>i. first \<le> i \<and> i < f \<longrightarrow> comparison (xs ! i) (xs ! pivot)" "met \<longleftrightarrow> f = last'"
    using partition_up_spec[OF bounds(1) assms(3) bounds(2)] by blast
  have f: "f \<le> pivot" "\<not> met"
    using up(4,5) irrefl assms(4,5) by (meson not_less, metis)
  then have "f < last'"
    using assms(5) by simp
  then obtain l met' where down: "partition_down comparison xs f last' pivot = Some (l, met')" "f \<le> l" "l < last'"
      "\<forall>i. l < i \<and> i < last' \<longrightarrow> comparison (xs ! pivot) (xs ! i)" "met' \<longleftrightarrow> l = f"
    using partition_down_spec[of f last' xs pivot comparison] assms(3) bounds(2) by blast
  have "first < mid \<and> mid < last'"
  proof (cases met')
    case True
    then have "mid = f"
      using run(1) up(1) f(2) down(1) bounds(1) by (simp add: SerialPartition.simps)
    moreover have "pivot = f"
      using down(4,5) True irrefl[of "xs ! pivot"] assms(5) f(1) by (metis le_neq_implies_less)
    moreover have "f \<noteq> first"
      using ne down(4,5) True calculation(2) by auto
    ultimately show ?thesis
      using up(2) \<open>f < last'\<close> by simp
  next
    case False
    define zs where "zs = xs[f := xs ! l, l := xs ! f]"
    define q where "q = (if pivot = f then l else if pivot = l then f else pivot)"
    have l: "f < l" "l < length xs" "f < length xs"
      using False down(2,3,5) assms(3) by auto
    have "SerialPartition comparison first last' pivot xs = SerialPartition comparison (f + 1) l q zs"
      using up(1) f(2) down(1) False l bounds(1) by (subst SerialPartition.simps) (simp add: Let_def zs_def q_def)
    moreover have "f + 1 \<le> l" "l \<le> length zs" "q < length zs"
      using l bounds(2) by (simp_all add: zs_def q_def)
    then obtain mid' ys' where "SerialPartition comparison (f + 1) l q zs = Some (mid', ys')" "partitioned comparison (f + 1) mid' l (zs ! q) ys'"
      using serial_partition_spec[OF order, of "f + 1" l zs q] by blast
    ultimately show ?thesis
      using run(1) up(2) down(3) by (auto simp: partitioned_def)
  qed
  then show thesis
    using that run by blast
qed

section \<open>Sorting\<close>

text \<open>A partition whose parts are sorted is sorted.\<close>

lemma partitioned_sorted:
  assumes order: "strict_weak_order comparison" and part: "partitioned comparison first mid last' p xs"
    and "sorted_range comparison first mid xs" "sorted_range comparison mid last' xs"
  shows "sorted_range comparison first last' xs"
  unfolding sorted_range_def
proof (intro allI impI)
  fix i j
  assume ij: "first \<le> i \<and> i < j \<and> j < last'"
  show "\<not> comparison (xs ! j) (xs ! i)"
  proof (cases "i < mid \<and> mid \<le> j")
    case True
    then show ?thesis
      using part ij strict_weak_order.not_less_trans[OF order, of p "xs ! i" "xs ! j"] by (simp add: partitioned_def)
  qed (use assms(3,4) ij in \<open>auto simp: sorted_range_def not_less\<close>)
qed

text \<open>Rearranging one of the parts keeps the partition.\<close>

lemma partitioned_permutes:
  assumes "partitioned comparison first mid last' p xs" "last' \<le> length xs"
  shows "permutes_range first mid xs ys \<Longrightarrow> partitioned comparison first mid last' p ys"
    and "permutes_range mid last' xs ys \<Longrightarrow> partitioned comparison first mid last' p ys"
proof -
  have mid: "first \<le> mid" "mid \<le> last'" "mid \<le> length xs"
    using assms by (auto simp: partitioned_def)
  show "partitioned comparison first mid last' p ys" if "permutes_range first mid xs ys"
  proof -
    have "\<not> comparison p (ys ! i)" if "first \<le> i" "i < mid" for i
      using permutes_range_all[OF \<open>permutes_range first mid xs ys\<close> mid(3), of "\<lambda>x. \<not> comparison p x" i] assms(1) that by (simp add: partitioned_def)
    then show ?thesis
      using assms(1) that by (simp add: partitioned_def permutes_range_def)
  qed
  show "partitioned comparison first mid last' p ys" if "permutes_range mid last' xs ys"
  proof -
    have "\<not> comparison (ys ! i) p" if "mid \<le> i" "i < last'" for i
      using permutes_range_all[OF \<open>permutes_range mid last' xs ys\<close> assms(2), of "\<lambda>x. \<not> comparison x p" i] assms(1) that by (simp add: partitioned_def)
    then show ?thesis
      using assms(1) that by (simp add: partitioned_def permutes_range_def)
  qed
qed

text \<open>Sorting both parts of a partition, in either order, sorts the range. The premises are what the recursion promises for each part.\<close>

lemma sort_parts:
  assumes order: "strict_weak_order comparison" and part: "partitioned comparison first mid last' p xs" and len: "last' \<le> length xs"
    and one: "permutes_range a b xs ys" "sorted_range comparison a b ys" and two: "permutes_range c d ys zs" "sorted_range comparison c d zs"
    and ends: "(a, b, c, d) = (first, mid, mid, last') \<or> (a, b, c, d) = (mid, last', first, mid)"
  shows "permutes_range first last' xs zs" "sorted_range comparison first last' zs"
proof -
  have mid: "first \<le> mid" "mid \<le> last'"
    using part by (auto simp: partitioned_def)
  have len': "last' \<le> length ys"
    using permutes_range_length[OF one(1)] len by simp
  consider (left) "a = first" "b = mid" "c = mid" "d = last'" | (right) "a = mid" "b = last'" "c = first" "d = mid"
    using ends by auto
  then have "permutes_range first last' xs zs \<and> partitioned comparison first mid last' p zs \<and> sorted_range comparison a b zs"
  proof cases
    case left
    note facts = one[unfolded left] two[unfolded left]
    show ?thesis
      using permutes_range_trans[OF facts(1,3), of first last'] partitioned_permutes(2)[OF partitioned_permutes(1)[OF part len facts(1)] len' facts(3)]
        permutes_range_frame(2)[OF facts(3), of mid comparison first] facts(2) mid by (simp add: left)
  next
    case right
    note facts = one[unfolded right] two[unfolded right]
    show ?thesis
      using permutes_range_trans[OF facts(1,3), of first last'] partitioned_permutes(1)[OF partitioned_permutes(2)[OF part len facts(1)] len' facts(3)]
        permutes_range_frame(1)[OF facts(3), of mid comparison last'] facts(2) mid by (simp add: right)
  qed
  then show "permutes_range first last' xs zs" "sorted_range comparison first last' zs"
    using partitioned_sorted[OF order, of first mid last' p zs] two(2) ends by auto
qed

lemma serial_quick_sort_sorts:
  assumes order: "strict_weak_order comparison" and "last' \<le> length xs"
  shows "\<exists>ys. SerialQuickSort comparison first last' xs = Some ys \<and> permutes_range first last' xs ys \<and> sorted_range comparison first last' ys"
  using assms(2)
proof (induction "last' - first" arbitrary: first last' xs rule: less_induct)
  case less
  show ?case
  proof (cases "last' - first \<le> 1")
    case True
    then show ?thesis
      by (simp add: SerialQuickSort.simps[of _ first])
  next
    case False
    then have size: "first + 2 \<le> last'"
      by simp
    obtain k where k: "MedianOfNine comparison xs first last' = Some k" "first + k < last'" "k = 0 \<Longrightarrow> \<exists>i. first < i \<and> i < last' \<and> \<not> comparison (xs ! first) (xs ! i)"
      using median_of_nine[OF size less.prems] by blast
    obtain mid xs1 where mid: "SerialPartition comparison first last' (first + k) xs = Some (mid, xs1)" "permutes_range first last' xs xs1"
        "partitioned comparison first mid last' (xs ! (first + k)) xs1" "first < mid" "mid < last'"
      using serial_partition_strict[OF order size less.prems, of "first + k"] k(2,3) by auto
    have smaller: "mid - first < last' - first" "last' - mid < last' - first"
      using mid(4,5) by linarith+
    have len1: "last' \<le> length xs1" "mid \<le> length xs1"
      using permutes_range_length[OF mid(2)] less.prems mid(5) by simp_all
    obtain xs2 where 2: "SerialQuickSort comparison first mid xs1 = Some xs2" "permutes_range first mid xs1 xs2" "sorted_range comparison first mid xs2"
      using less.hyps[OF smaller(1) len1(2)] by blast
    have len2: "last' \<le> length xs2"
      using permutes_range_length[OF 2(2)] len1 by simp
    obtain xs3 where 3: "SerialQuickSort comparison mid last' xs2 = Some xs3" "permutes_range mid last' xs2 xs3" "sorted_range comparison mid last' xs3"
      using less.hyps[OF smaller(2) len2] by blast
    have "SerialQuickSort comparison first last' xs = Some xs3"
      using False k(1) mid(1) 2(1) 3(1) by (subst SerialQuickSort.simps) simp
    moreover have "permutes_range first last' xs1 xs3" "sorted_range comparison first last' xs3"
      using sort_parts[OF order mid(3) len1(1) 2(2,3) 3(2,3)] by simp_all
    ultimately show ?thesis
      using permutes_range_trans[OF mid(2), of first last' xs3 first last'] by auto
  qed
qed

text \<open>What comes of a task: the range is sorted and at most two tasks were started per cut, or a start was refused.\<close>

definition sort_outcome ::
    "(nat \<Rightarrow> nat \<Rightarrow> nat \<Rightarrow> bool) \<Rightarrow> ('a \<Rightarrow> 'a \<Rightarrow> bool) \<Rightarrow> nat \<Rightarrow> nat \<Rightarrow> 'a list \<Rightarrow> nat \<Rightarrow> cxx_exception + 'a list \<times> nat \<Rightarrow> bool" where
  "sort_outcome starts comparison first last' xs tasks r \<longleftrightarrow>
     (case r of
        Inr (ys, tasks') \<Rightarrow> permutes_range first last' xs ys \<and> sorted_range comparison first last' ys \<and> tasks \<le> tasks' \<and> tasks' \<le> tasks + 2 * (last' - first - 1)
      | Inl e \<Rightarrow> e = ErrorException ''mtapi::Task could not be started'' \<and>
          (\<exists>k f l. tasks \<le> k \<and> k < tasks + 2 * (last' - first - 1) \<and> first \<le> f \<and> f < l \<and> l \<le> last' \<and> \<not> starts k f l))"

lemma sort_outcome_refused:
  assumes "sort_outcome starts comparison a b xs n (Inl e)" "first \<le> a" "b \<le> last'" "tasks \<le> n" "n + 2 * (b - a - 1) \<le> tasks + 2 * (last' - first - 1)"
  shows "sort_outcome starts comparison first last' ys tasks (Inl e)"
proof -
  obtain k f l where "n \<le> k" "k < n + 2 * (b - a - 1)" "a \<le> f" "f < l" "l \<le> b" "\<not> starts k f l"
    using assms(1) by (auto simp: sort_outcome_def)
  moreover have "tasks \<le> k" "k < tasks + 2 * (last' - first - 1)" "first \<le> f" "l \<le> last'"
    using calculation assms(2-5) by linarith+
  ultimately show ?thesis
    using assms(1) unfolding sort_outcome_def sum.case by blast
qed

lemma spawn_refused:
  assumes "Node_Spawn starts f l k = Inl e" "tasks \<le> k" "k < tasks + 2 * (last' - first - 1)" "first \<le> f" "f < l" "l \<le> last'"
  shows "sort_outcome starts comparison first last' xs tasks (Inl e)"
  using assms by (auto simp: Node_Spawn_def sort_outcome_def split: if_splits)

text \<open>The two subtasks of a cut, in either order, with the premises that the induction provides for each of them.\<close>

lemma sort_two_tasks:
  fixes act :: "nat \<Rightarrow> nat \<Rightarrow> 'a list \<Rightarrow> nat \<Rightarrow> (cxx_exception + 'a list \<times> nat) option"
  assumes order: "strict_weak_order comparison" and part: "partitioned comparison first mid last' p xs" "first < mid" "mid < last'" and len: "last' \<le> length xs"
    and one: "\<exists>r. act a b xs (tasks + 2) = Some r \<and> sort_outcome starts comparison a b xs (tasks + 2) r"
    and two: "\<And>ys n. length ys = length xs \<Longrightarrow> \<exists>r. act c d ys n = Some r \<and> sort_outcome starts comparison c d ys n r"
    and ends: "(a, b, c, d) = (first, mid, mid, last') \<or> (a, b, c, d) = (mid, last', first, mid)"
  shows "\<exists>r. after_throw (act a b xs (tasks + 2)) (\<lambda>(xs, tasks). act c d xs tasks) = Some r \<and>
    sort_outcome starts comparison first last' xs tasks r"
proof -
  have room: "2 + 2 * (b - a - 1) + 2 * (d - c - 1) \<le> 2 * (last' - first - 1)" and inside: "first \<le> a" "b \<le> last'" "first \<le> c" "d \<le> last'"
    using ends part(2,3) by auto
  obtain r where r: "act a b xs (tasks + 2) = Some r" "sort_outcome starts comparison a b xs (tasks + 2) r"
    using one by blast
  show ?thesis
  proof (cases r)
    case (Inl e)
    have "sort_outcome starts comparison first last' xs tasks (Inl e)"
      by (rule sort_outcome_refused[OF r(2)[unfolded Inl] inside(1,2)]) (use room in linarith)+
    then show ?thesis
      using r(1) Inl by simp
  next
    case (Inr result)
    obtain ys n where [simp]: "result = (ys, n)"
      by (cases result)
    have ys: "permutes_range a b xs ys" "sorted_range comparison a b ys" "tasks + 2 \<le> n" "n \<le> tasks + 2 + 2 * (b - a - 1)"
      using r(2) Inr by (auto simp: sort_outcome_def)
    obtain r' where r': "act c d ys n = Some r'" "sort_outcome starts comparison c d ys n r'"
      using two[OF permutes_range_length[OF ys(1)]] by blast
    have "sort_outcome starts comparison first last' xs tasks r'"
    proof (cases r')
      case (Inl e)
      show ?thesis
        unfolding Inl by (rule sort_outcome_refused[OF r'(2)[unfolded Inl] inside(3,4)]) (use room ys in linarith)+
    next
      case (Inr result)
      then obtain zs m where zs: "r' = Inr (zs, m)" "permutes_range c d ys zs" "sorted_range comparison c d zs" "n \<le> m" "m \<le> n + 2 * (d - c - 1)"
        using r'(2) by (cases result) (auto simp: sort_outcome_def)
      then show ?thesis
        using sort_parts[OF order part(1) len ys(1,2) zs(2,3) ends] room ys(3,4) by (simp add: sort_outcome_def)
    qed
    then show ?thesis
      using r(1) Inr r'(1) by simp
  qed
qed

lemma quick_sort_action_sorts:
  assumes order: "strict_weak_order comparison" and "last' \<le> length xs"
  shows "\<exists>r. QuickSortFunctor_Action left_first starts comparison block_size first last' xs tasks = Some r \<and> sort_outcome starts comparison first last' xs tasks r"
  using assms(2)
proof (induction "last' - first" arbitrary: first last' xs tasks rule: less_induct)
  case less
  let ?act = "QuickSortFunctor_Action left_first starts comparison block_size"
  show ?case
  proof (cases "last' - first \<le> 1")
    case True
    then show ?thesis
      by (auto simp: QuickSortFunctor_Action.simps[of _ _ _ _ first] sort_outcome_def sorted_range_def)
  next
    case False
    then have size: "first + 2 \<le> last'"
      by simp
    obtain k where k: "MedianOfNine comparison xs first last' = Some k" "first + k < last'" "k = 0 \<Longrightarrow> \<exists>i. first < i \<and> i < last' \<and> \<not> comparison (xs ! first) (xs ! i)"
      using median_of_nine[OF size less.prems] by blast
    obtain mid xs1 where mid: "SerialPartition comparison first last' (first + k) xs = Some (mid, xs1)" "permutes_range first last' xs xs1"
        "partitioned comparison first mid last' (xs ! (first + k)) xs1" "first < mid" "mid < last'"
      using serial_partition_strict[OF order size less.prems, of "first + k"] k(2,3) by auto
    have smaller: "mid - first < last' - first" "last' - mid < last' - first"
      using mid(4,5) by linarith+
    have len1: "last' \<le> length xs1" "mid \<le> length xs1"
      using permutes_range_length[OF mid(2)] less.prems mid(5) by simp_all
    have whole: "sort_outcome starts comparison first last' xs tasks r" if "sort_outcome starts comparison first last' xs1 tasks r" for r
      using that permutes_range_trans[OF mid(2), of first last' _ first last'] by (auto simp: sort_outcome_def split: sum.splits)
    note act = QuickSortFunctor_Action.simps[of _ _ _ _ first last'] False[simplified] k(1) mid(1) Let_def
    show ?thesis
    proof (cases "last' - first \<le> block_size")
      case True
      obtain xs2 where 2: "SerialQuickSort comparison first mid xs1 = Some xs2" "permutes_range first mid xs1 xs2" "sorted_range comparison first mid xs2"
        using serial_quick_sort_sorts[OF order len1(2)] by blast
      obtain xs3 where 3: "SerialQuickSort comparison mid last' xs2 = Some xs3" "permutes_range mid last' xs2 xs3" "sorted_range comparison mid last' xs3"
        using serial_quick_sort_sorts[OF order, of last' xs2 mid] permutes_range_length[OF 2(2)] len1 by auto
      have "?act first last' xs tasks = Some (Inr (xs3, tasks))"
        using True 2(1) 3(1) by (simp add: act)
      then show ?thesis
        using sort_parts[OF order mid(3) len1(1) 2(2,3) 3(2,3)] whole[of "Inr (xs3, tasks)"] by (simp add: sort_outcome_def)
    next
      case big: False
      have left: "\<exists>r. ?act first mid ys n = Some r \<and> sort_outcome starts comparison first mid ys n r" if "length ys = length xs1" for ys n
        using less.hyps[OF smaller(1), of ys n] len1 that by simp
      have right: "\<exists>r. ?act mid last' ys n = Some r \<and> sort_outcome starts comparison mid last' ys n r" if "length ys = length xs1" for ys n
        using less.hyps[OF smaller(2), of ys n] len1 that by simp
      note both = sort_two_tasks[OF order mid(3-5) len1(1)]
      have refused: "\<exists>r. ?act first last' xs tasks = Some r \<and> sort_outcome starts comparison first last' xs tasks r"
        if "?act first last' xs tasks = Some (Inl e)" "Node_Spawn starts f l n = Inl e" "tasks \<le> n" "n \<le> tasks + 1" "first \<le> f" "f < l" "l \<le> last'" for e f l n
      proof -
        have "n < tasks + 2 * (last' - first - 1)"
          using that(4) size by linarith
        then show ?thesis
          using that(1) spawn_refused[OF that(2,3) _ that(5-7)] by blast
      qed
      consider (first) e where "Node_Spawn starts first mid tasks = Inl e" | (second) e where "Node_Spawn starts first mid tasks = Inr (tasks + 1)" "Node_Spawn starts mid last' (tasks + 1) = Inl e"
        | (none) "Node_Spawn starts first mid tasks = Inr (tasks + 1)" "Node_Spawn starts mid last' (tasks + 1) = Inr (tasks + 2)"
        by (cases "starts tasks first mid"; cases "starts (tasks + 1) mid last'") (auto simp: Node_Spawn_def)
      then show ?thesis
      proof cases
        case first
        then show ?thesis
          using refused[of e first mid tasks] mid(4,5) big by (simp add: act)
      next
        case second
        then show ?thesis
          using refused[of e mid last' "tasks + 1"] mid(4,5) big by (simp add: act)
      next
        case none
        then show ?thesis
          using both[of ?act first mid tasks starts mid last', OF left right] both[of ?act mid last' tasks starts first mid, OF right left] whole big
          by (cases "left_first first last'") (auto simp: act)
      qed
    qed
  qed
qed

section \<open>Properties\<close>

text \<open>
  C27. Parallel quick sort. For a comparison that is a strict weak order, \<^verbatim>\<open>QuickSort\<close> on a range of an array always comes to an end, for every block size that passes the check and whichever of the two tasks runs first at
  each step. If it returns, the range is sorted, its elements are those it had before and the rest of the array is as it was. Otherwise it ends with the exception of a task that could not be started, and the node did
  refuse to start a task of the sort. At most two tasks are started per element: a node with that many slots is never asked for more, and the sort returns.
\<close>

theorem quick_sort_sorts:
  assumes "strict_weak_order comparison" "first < last'" "last' \<le> length xs" "bits_of (ep_affinity policy) \<noteq> {}" "block_size = 0 \<or> (last' - first) div block_size \<le> 511"
  shows "\<exists>r. QuickSortIteratorCheck left_first starts xs first last' comparison policy block_size = Some r \<and>
     (case r of
        Inr (ys, tasks) \<Rightarrow> sorted_wrt (\<lambda>x y. \<not> comparison y x) (segment first last' ys) \<and> mset (segment first last' ys) = mset (segment first last' xs) \<and>
          length ys = length xs \<and> (\<forall>i. i < first \<or> last' \<le> i \<longrightarrow> ys ! i = xs ! i) \<and> tasks \<le> 2 * (last' - first) - 1
      | Inl e \<Rightarrow> e = ErrorException ''mtapi::Task could not be started'' \<and>
          (\<exists>tasks f l. tasks < 2 * (last' - first) - 1 \<and> first \<le> f \<and> f < l \<and> l \<le> last' \<and> \<not> starts tasks f l))"
proof -
  have range: "int last' - int first = int (last' - first)" "int last' - int first \<noteq> 0"
    using assms(2) by auto
  obtain b where b: "determine_block_size (int last' - int first) policy block_size ''Negative range for QuickSort''
                    ''Not enough MTAPI tasks available for performing quick sort'' = Some (Inr b)"
    using determine_block_size_total[OF assms(4,5)] range(1) by metis
  show ?thesis
  proof (cases "starts 0 first last'")
    case False
    then have "QuickSortIteratorCheck left_first starts xs first last' comparison policy block_size = Some (Inl (ErrorException ''mtapi::Task could not be started''))"
      using range(2) by (simp add: QuickSortIteratorCheck_def b Node_Spawn_def)
    moreover have "\<exists>tasks f l. tasks < 2 * (last' - first) - 1 \<and> first \<le> f \<and> f < l \<and> l \<le> last' \<and> \<not> starts tasks f l"
      using False assms(2) by (intro exI[of _ 0] exI[of _ first] exI[of _ last']) simp
    ultimately show ?thesis
      by auto
  next
    case True
    obtain r where r: "QuickSortFunctor_Action left_first starts comparison b first last' xs 1 = Some r" "sort_outcome starts comparison first last' xs 1 r"
      using quick_sort_action_sorts[OF assms(1,3)] by blast
    have run: "QuickSortIteratorCheck left_first starts xs first last' comparison policy block_size = Some r"
      using range(2) True by (simp add: QuickSortIteratorCheck_def b Node_Spawn_def r(1)[simplified])
    have most: "1 + 2 * (last' - first - 1) = 2 * (last' - first) - 1"
      using assms(2) by simp
    show ?thesis
    proof (cases r)
      case (Inl e)
      then show ?thesis
        using run r(2) unfolding sort_outcome_def most by auto
    next
      case (Inr result)
      then obtain ys tasks where ys: "r = Inr (ys, tasks)" "permutes_range first last' xs ys" "sorted_range comparison first last' ys" "tasks \<le> 2 * (last' - first) - 1"
        using r(2) unfolding sort_outcome_def most by (cases result) auto
      have len: "length ys = length xs"
        by (rule permutes_range_length[OF ys(2)])
      have "sorted_wrt (\<lambda>x y. \<not> comparison y x) (segment first last' ys)"
        using ys(3) sorted_range_segment[of last' ys comparison first] assms(3) len by simp
      then show ?thesis
        using permutes_range_segment[OF ys(2) _ assms(3)] assms(2) ys len run by (auto simp: permutes_range_def)
    qed
  qed
qed

theorem quick_sort_sorts_witness:
  "\<exists>ys tasks. QuickSortIteratorCheck (\<lambda>_ _. True) (\<lambda>tasks _ _. tasks < 7) [5, 3, 1, 4, 2 :: nat] 1 5 std_less two_cores 2 = Some (Inr (ys, tasks)) \<and>
     sorted (segment 1 5 ys) \<and> mset (segment 1 5 ys) = {#1, 2, 3, 4#} \<and> ys ! 0 = 5 \<and> tasks \<le> 7"
proof -
  have "sorted_wrt (\<lambda>x y. \<not> std_less y x) zs = sorted zs" for zs :: "nat list"
    by (simp add: std_less_def not_less)
  moreover have "mset (segment 1 5 [5, 3, 1, 4, 2 :: nat]) = {#1, 2, 3, 4#}"
    by (simp add: segment_def)
  moreover obtain r where "QuickSortIteratorCheck (\<lambda>_ _. True) (\<lambda>tasks _ _. tasks < 7) [5, 3, 1, 4, 2 :: nat] 1 5 std_less two_cores 2 = Some r"
      "case r of
        Inr (ys, tasks) \<Rightarrow> sorted_wrt (\<lambda>x y. \<not> std_less y x) (segment 1 5 ys) \<and> mset (segment 1 5 ys) = mset (segment 1 5 [5, 3, 1, 4, 2 :: nat]) \<and>
          length ys = length [5, 3, 1, 4, 2 :: nat] \<and> (\<forall>i. i < 1 \<or> 5 \<le> i \<longrightarrow> ys ! i = [5, 3, 1, 4, 2] ! i) \<and> tasks \<le> 2 * (5 - 1) - 1
      | Inl e \<Rightarrow> e = ErrorException ''mtapi::Task could not be started'' \<and> (\<exists>tasks f l. tasks < 2 * (5 - 1) - 1 \<and> 1 \<le> f \<and> f < l \<and> l \<le> (5 :: nat) \<and> \<not> tasks < (7 :: nat))"
    using quick_sort_sorts[OF less.strict_weak_order_axioms, of 1 5 "[5, 3, 1, 4, 2 :: nat]" two_cores 2 "\<lambda>_ _. True" "\<lambda>tasks _ _. tasks < 7"] two_cores_nonempty
    by auto
  ultimately show ?thesis
    by (cases r) auto
qed

text \<open>
  The check for the number of tasks counts two tasks per block and one more. Five elements in blocks of three are three tasks by that count; a node that has three slots refuses one of the tasks that the sort starts.
\<close>

lemma quick_sort_underestimates:
  "(5 div 3) * 2 + (1 :: nat) = 3 \<and>
   QuickSortIteratorCheck (\<lambda>_ _. True) (\<lambda>tasks _ _. tasks < 3) [0, 1, 4, 2, 3 :: nat] 0 5 std_less two_cores 3 = Some (Inl (ErrorException ''mtapi::Task could not be started''))"
  by code_simp

end
