(* ===== verification/Merge_Sort.thy ===== *)
theory Merge_Sort
  imports Sort_Order
begin

text \<open>
  \<^verbatim>\<open>MergeSort\<close> (\<^verbatim>\<open>algorithms_cpp/internal/merge_sort-inl.h\<close>). The input and the temporary array take turns: at an even depth of the recursion the sorted range ends up in the input, at an
  odd depth in the temporary array. Above the level of chunks the halves are tasks; \<open>left_first\<close> says which of two tasks runs first. The state is the pair of the two arrays, which do not overlap.
\<close>

section \<open>Definitions\<close>

text \<open>The three loops of \<^verbatim>\<open>SerialMerge\<close>.\<close>

function merge_loop ::
    "('a \<Rightarrow> 'a \<Rightarrow> bool) \<Rightarrow> 'a list \<Rightarrow> nat \<Rightarrow> nat \<Rightarrow> nat \<Rightarrow> nat \<Rightarrow> nat \<Rightarrow> 'a list \<Rightarrow> (nat \<times> nat \<times> nat \<times> 'a list) option" where
  "merge_loop comparison src first save_mid mid last' out dst =
     (if first \<noteq> save_mid \<and> mid \<noteq> last' then
        (if length src \<le> first \<or> length src \<le> mid then None
         else if comparison (src ! first) (src ! mid) then
           do { dst \<leftarrow> assign dst out (src ! first);
                merge_loop comparison src (first + 1) save_mid mid last' (out + 1) dst }
         else
           do { dst \<leftarrow> assign dst out (src ! mid);
                merge_loop comparison src first save_mid (mid + 1) last' (out + 1) dst })
      else Some (first, mid, out, dst))"
  by pat_completeness auto
termination
  by (relation "measure (\<lambda>(c, src, f, s, m, l, out, dst). (length src - f) + (length src - m))") auto

declare merge_loop.simps [simp del]

function copy_loop :: "'a list \<Rightarrow> nat \<Rightarrow> nat \<Rightarrow> nat \<Rightarrow> 'a list \<Rightarrow> (nat \<times> 'a list) option" where
  "copy_loop src it stop out dst =
     (if it = stop then Some (out, dst)
      else if length src \<le> it then None
      else do { dst \<leftarrow> assign dst out (src ! it);
                copy_loop src (it + 1) stop (out + 1) dst })"
  by pat_completeness auto
termination
  by (relation "measure (\<lambda>(src, i, s, out, dst). length src - i)") auto

declare copy_loop.simps [simp del]

definition SerialMerge :: "('a \<Rightarrow> 'a \<Rightarrow> bool) \<Rightarrow> 'a list \<Rightarrow> nat \<Rightarrow> nat \<Rightarrow> nat \<Rightarrow> nat \<Rightarrow> 'a list \<Rightarrow> 'a list option" where
  "SerialMerge comparison src first mid last' out dst =
     do { (first, mid', out, dst) \<leftarrow> merge_loop comparison src first mid mid last' out dst;
          (out, dst) \<leftarrow> copy_loop src first mid out dst;
          (out, dst) \<leftarrow> copy_loop src mid' last' out dst;
          Some dst }"

definition CloneBackToInput :: "nat \<Rightarrow> bool" where
  "CloneBackToInput depth = (if depth mod 2 = 0 then True else False)"

text \<open>The merge of two neighbouring ranges, with which \<^verbatim>\<open>MergeSortChunk\<close> and \<^verbatim>\<open>Action\<close> end.\<close>

definition merge_ranges ::
    "('a \<Rightarrow> 'a \<Rightarrow> bool) \<Rightarrow> nat \<Rightarrow> nat \<Rightarrow> nat \<Rightarrow> nat \<Rightarrow> nat \<Rightarrow> nat \<Rightarrow> 'a list \<times> 'a list \<Rightarrow> ('a list \<times> 'a list) option" where
  "merge_ranges comparison global_first temp_first depth first mid last' = (\<lambda>(xs, temp).
     if CloneBackToInput depth then do {
       let d_first = first - global_first;
       let d_mid = mid - global_first;
       let d_last = last' - global_first;
       xs \<leftarrow> SerialMerge comparison temp (temp_first + d_first) (temp_first + d_mid) (temp_first + d_last) first xs;
       Some (xs, temp) }
     else do {
       temp \<leftarrow> SerialMerge comparison xs first mid last' (temp_first + (first - global_first)) temp;
       Some (xs, temp) })"

function MergeSortChunk ::
    "('a \<Rightarrow> 'a \<Rightarrow> bool) \<Rightarrow> nat \<Rightarrow> nat \<Rightarrow> nat \<Rightarrow> nat \<Rightarrow> nat \<Rightarrow> nat \<Rightarrow> 'a list \<times> 'a list \<Rightarrow> ('a list \<times> 'a list) option" where
  "MergeSortChunk comparison workers global_first temp_first first last' depth s =
     (let distance = last' - first in
      if distance \<le> 1 then
        (if \<not> CloneBackToInput depth \<and> distance \<noteq> 0 then do {
           x \<leftarrow> deref (fst s) first;
           temp \<leftarrow> assign (snd s) (temp_first + (first - global_first)) x;
           Some (fst s, temp) }
         else Some s)
      else (case ChunkPartitioner_new workers first last' 2 of
          None \<Rightarrow> None
        | Some partitioner \<Rightarrow>
            (let ck_l = ChunkPartitioner_at partitioner 0; ck_r = ChunkPartitioner_at partitioner 1 in
             do { s \<leftarrow> MergeSortChunk comparison workers global_first temp_first (GetFirst ck_l) (GetLast ck_l) (depth + 1) s;
                  s \<leftarrow> MergeSortChunk comparison workers global_first temp_first (GetFirst ck_r) (GetLast ck_r) (depth + 1) s;
                  merge_ranges comparison global_first temp_first depth (GetFirst ck_l) (GetFirst ck_r) (GetLast ck_r) s })))"
  by pat_completeness auto
termination
proof (relation "measure (\<lambda>(c, w, g, t, f, l, d, s). l - f)", simp, goal_cases)
  case (1 c w g t f l d s x p ck_l ck_r)
  then show ?case
    using chunk_partitioner_halves[of f l w] by auto
next
  case (2 c w g t f l d s x p ck_l ck_r)
  then show ?case
    using chunk_partitioner_halves[of f l w] by auto
qed

declare MergeSortChunk.simps [simp del]

function MergeSortFunctor_Action ::
    "(nat \<Rightarrow> nat \<Rightarrow> bool) \<Rightarrow> ('a \<Rightarrow> 'a \<Rightarrow> bool) \<Rightarrow> nat \<Rightarrow> nat \<Rightarrow> nat \<Rightarrow> BlockSizePartitioner \<Rightarrow> nat \<Rightarrow> nat \<Rightarrow> nat \<Rightarrow> 'a list \<times> 'a list \<Rightarrow> ('a list \<times> 'a list) option" where
  "MergeSortFunctor_Action left_first comparison workers global_first temp_first partitioner chunk_first chunk_last depth s =
     (let chunk_split_index = (chunk_first + chunk_last) div 2 in
      if chunk_first = chunk_last then
        (let chunk = BlockSizePartitioner_at partitioner chunk_first in
         MergeSortChunk comparison workers global_first temp_first (GetFirst chunk) (GetLast chunk) depth s)
      else if chunk_last < chunk_first then None
      else do {
        s \<leftarrow> (if left_first chunk_first chunk_last then do {
                s \<leftarrow> MergeSortFunctor_Action left_first comparison workers global_first temp_first partitioner chunk_first chunk_split_index (depth + 1) s;
                MergeSortFunctor_Action left_first comparison workers global_first temp_first partitioner (chunk_split_index + 1) chunk_last (depth + 1) s }
              else do {
                s \<leftarrow> MergeSortFunctor_Action left_first comparison workers global_first temp_first partitioner (chunk_split_index + 1) chunk_last (depth + 1) s;
                MergeSortFunctor_Action left_first comparison workers global_first temp_first partitioner chunk_first chunk_split_index (depth + 1) s });
        merge_ranges comparison global_first temp_first depth (GetFirst (BlockSizePartitioner_at partitioner chunk_first))
          (GetFirst (BlockSizePartitioner_at partitioner (chunk_split_index + 1))) (GetLast (BlockSizePartitioner_at partitioner chunk_last)) s })"
  by pat_completeness auto
termination
  by (relation "measure (\<lambda>(lf, c, w, g, t, p, f, l, d, s). l - f)") auto

declare MergeSortFunctor_Action.simps [simp del]

text \<open>\<open>workers\<close> is the number of worker threads of the node, which the partitioner of a chunk would use if it were not told to make two chunks.\<close>

definition MergeSortIteratorCheck ::
    "(nat \<Rightarrow> nat \<Rightarrow> bool) \<Rightarrow> nat \<Rightarrow> 'a list \<Rightarrow> nat \<Rightarrow> nat \<Rightarrow> 'a list \<Rightarrow> nat \<Rightarrow> ('a \<Rightarrow> 'a \<Rightarrow> bool) \<Rightarrow> ExecutionPolicy \<Rightarrow> nat \<Rightarrow>
     (cxx_exception + 'a list \<times> 'a list) option" where
  "MergeSortIteratorCheck left_first workers xs first last' temp temporary_first comparison policy block_size =
     (let distance = int last' - int first in
      if distance = 0 then Some (Inr (xs, temp))
      else do {
        checked \<leftarrow> determine_block_size distance policy block_size ''Negative range for MergeSort''
                    ''Not enough MTAPI tasks available to perform merge sort'';
        case checked of Inl e \<Rightarrow> Some (Inl e)
        | Inr block_size \<Rightarrow> do {
            partitioner \<leftarrow> BlockSizePartitioner_new first last' block_size;
            s \<leftarrow> MergeSortFunctor_Action left_first comparison workers first temporary_first partitioner 0 (BlockSizePartitioner_Size partitioner - 1) 0 (xs, temp);
            Some (Inr s) } })"

section \<open>Merging\<close>

fun merge_lists :: "('a \<Rightarrow> 'a \<Rightarrow> bool) \<Rightarrow> 'a list \<Rightarrow> 'a list \<Rightarrow> 'a list" where
  "merge_lists comparison [] vs = vs"
| "merge_lists comparison us [] = us"
| "merge_lists comparison (u # us) (v # vs) =
     (if comparison u v then u # merge_lists comparison us (v # vs) else v # merge_lists comparison (u # us) vs)"

lemma merge_lists_Nil2 [simp]: "merge_lists comparison us [] = us"
  by (cases us) simp_all

lemma mset_merge_lists [simp]: "mset (merge_lists comparison us vs) = mset us + mset vs"
  by (induction comparison us vs rule: merge_lists.induct) simp_all

lemma length_merge_lists [simp]: "length (merge_lists comparison us vs) = length us + length vs"
  by (induction comparison us vs rule: merge_lists.induct) simp_all

lemma set_merge_lists [simp]: "set (merge_lists comparison us vs) = set us \<union> set vs"
  by (induction comparison us vs rule: merge_lists.induct) auto

lemma sorted_merge_lists:
  assumes order: "strict_weak_order comparison" and "sorted_wrt (\<lambda>x y. \<not> comparison y x) us" "sorted_wrt (\<lambda>x y. \<not> comparison y x) vs"
  shows "sorted_wrt (\<lambda>x y. \<not> comparison y x) (merge_lists comparison us vs)"
  using assms
proof (induction comparison us vs rule: merge_lists.induct)
  case (3 c u us v vs)
  note order = 3(3)
  have "\<forall>x \<in> set us. \<not> c x u" "\<forall>x \<in> set vs. \<not> c x v"
    using 3(4,5) by simp_all
  moreover have "\<not> c v u" "\<forall>x \<in> set vs. \<not> c x u" if "c u v"
    using strict_weak_order.asym[OF order that] strict_weak_order.not_less_trans[OF order] calculation(2) by blast+
  moreover have "\<forall>x \<in> set us. \<not> c x v" if "\<not> c u v"
    using strict_weak_order.not_less_trans[OF order] calculation(1) that by blast
  ultimately show ?case
    using 3 by auto
qed simp_all

text \<open>Writing a list into an array from a position on.\<close>

definition overwrite :: "'a list \<Rightarrow> nat \<Rightarrow> 'a list \<Rightarrow> 'a list" where
  "overwrite dst out ws = take out dst @ ws @ drop (out + length ws) dst"

lemma overwrite_Nil [simp]: "overwrite dst out [] = dst"
  by (simp add: overwrite_def)

lemma length_overwrite [simp]: "out + length ws \<le> length dst \<Longrightarrow> length (overwrite dst out ws) = length dst"
  by (simp add: overwrite_def)

lemma overwrite_Cons: "out < length dst \<Longrightarrow> overwrite (dst[out := w]) (Suc out) ws = overwrite dst out (w # ws)"
  by (simp add: overwrite_def take_Suc_conv_app_nth)

lemma overwrite_append:
  "out + length us \<le> length dst \<Longrightarrow> overwrite (overwrite dst out us) (out + length us) vs = overwrite dst out (us @ vs)"
  by (cases us) (auto simp: overwrite_def min_def ac_simps)

lemma nth_overwrite_out: "i < out \<or> out + length ws \<le> i \<Longrightarrow> i < length dst \<Longrightarrow> out + length ws \<le> length dst \<Longrightarrow> overwrite dst out ws ! i = dst ! i"
  by (auto simp: overwrite_def nth_append min_def)

lemma segment_overwrite: "out + length ws \<le> length dst \<Longrightarrow> segment out (out + length ws) (overwrite dst out ws) = ws"
  by (simp add: overwrite_def segment_def min_def)

lemma copy_loop_overwrite:
  assumes "it \<le> stop" "stop \<le> length src" "out + (stop - it) \<le> length dst"
  shows "copy_loop src it stop out dst = Some (out + (stop - it), overwrite dst out (segment it stop src))"
  using assms
proof (induction "stop - it" arbitrary: it out dst)
  case 0
  then show ?case
    by (simp add: copy_loop.simps[of _ it])
next
  case (Suc n)
  then have it: "it < stop" "n = stop - (it + 1)" "out < length dst"
    by simp_all
  let ?dst = "dst[out := src ! it]"
  have bound: "out + 1 + (stop - (it + 1)) \<le> length ?dst"
    using Suc.prems(3) it(1) by simp
  have "copy_loop src it stop out dst = copy_loop src (it + 1) stop (out + 1) ?dst"
    using it Suc.prems(2) by (simp add: copy_loop.simps[of _ it])
  also have "\<dots> = Some (out + 1 + (stop - (it + 1)), overwrite ?dst (out + 1) (segment (it + 1) stop src))"
    using Suc.hyps(1)[OF it(2) _ Suc.prems(2) bound] it(1) by simp
  finally show ?case
    using segment_Cons[OF it(1) Suc.prems(2)] it(1) overwrite_Cons[OF it(3)] by simp
qed

text \<open>From any state of the first loop on, \<^verbatim>\<open>SerialMerge\<close> writes the merged rest of the two ranges.\<close>

lemma merge_loops:
  assumes "first \<le> save_mid" "mid \<le> last'" "save_mid \<le> length src" "last' \<le> length src" "out + (save_mid - first) + (last' - mid) \<le> length dst"
  shows "do { (first, mid', out, dst) \<leftarrow> merge_loop comparison src first save_mid mid last' out dst;
          (out, dst) \<leftarrow> copy_loop src first save_mid out dst;
          (out, dst) \<leftarrow> copy_loop src mid' last' out dst;
          Some dst } = Some (overwrite dst out (merge_lists comparison (segment first save_mid src) (segment mid last' src)))"
  using assms
proof (induction "(save_mid - first) + (last' - mid)" arbitrary: first mid out dst)
  case 0
  then have "first = save_mid" "mid = last'"
    by simp_all
  then show ?case
    by (simp add: merge_loop.simps copy_loop.simps)
next
  case (Suc n)
  show ?case
  proof (cases "first \<noteq> save_mid \<and> mid \<noteq> last'")
    case False
    have copies: "copy_loop src first save_mid out dst = Some (out + (save_mid - first), overwrite dst out (segment first save_mid src))"
      using Suc.prems by (intro copy_loop_overwrite) simp_all
    have "copy_loop src mid last' (out + (save_mid - first)) (overwrite dst out (segment first save_mid src)) =
        Some (out + (save_mid - first) + (last' - mid), overwrite dst out (segment first save_mid src @ segment mid last' src))"
      using Suc.prems copy_loop_overwrite[of mid last' src "out + (save_mid - first)" "overwrite dst out (segment first save_mid src)"]
        overwrite_append[of out "segment first save_mid src" dst "segment mid last' src"] by simp
    moreover have "merge_lists comparison (segment first save_mid src) (segment mid last' src) = segment first save_mid src @ segment mid last' src"
      using False by auto
    moreover have "merge_loop comparison src first save_mid mid last' out dst = Some (first, mid, out, dst)"
      using False by (subst merge_loop.simps) auto
    ultimately show ?thesis
      using copies by simp
  next
    case True
    then have lt: "first < save_mid" "mid < last'" "out < length dst" "first < length src" "mid < length src"
      using Suc.prems by auto
    note segs = segment_Cons[OF lt(1) Suc.prems(3)] segment_Cons[OF lt(2) Suc.prems(4)]
    show ?thesis
    proof (cases "comparison (src ! first) (src ! mid)")
      case less: True
      have step: "merge_loop comparison src first save_mid mid last' out dst = merge_loop comparison src (first + 1) save_mid mid last' (out + 1) (dst[out := src ! first])"
        using True less lt by (simp add: merge_loop.simps[of _ _ first])
      have "n = (save_mid - (first + 1)) + (last' - mid)" "out + 1 + (save_mid - (first + 1)) + (last' - mid) \<le> length (dst[out := src ! first])"
        using Suc.hyps(2) Suc.prems(5) lt by simp_all
      from Suc.hyps(1)[OF this(1) _ Suc.prems(2-4) this(2)] show ?thesis
        unfolding step using lt(1) less overwrite_Cons[OF lt(3)] by (simp add: segs)
    next
      case not_less: False
      have step: "merge_loop comparison src first save_mid mid last' out dst = merge_loop comparison src first save_mid (mid + 1) last' (out + 1) (dst[out := src ! mid])"
        using True not_less lt by (simp add: merge_loop.simps[of _ _ first])
      have "n = (save_mid - first) + (last' - (mid + 1))" "out + 1 + (save_mid - first) + (last' - (mid + 1)) \<le> length (dst[out := src ! mid])"
        using Suc.hyps(2) Suc.prems(5) lt by simp_all
      from Suc.hyps(1)[OF this(1) Suc.prems(1) _ Suc.prems(3,4) this(2)] show ?thesis
        unfolding step using lt(2) not_less overwrite_Cons[OF lt(3)] by (simp add: segs)
    qed
  qed
qed

lemma serial_merge_overwrite:
  assumes "first \<le> mid" "mid \<le> last'" "last' \<le> length src" "out + (last' - first) \<le> length dst"
  shows "SerialMerge comparison src first mid last' out dst =
     Some (overwrite dst out (merge_lists comparison (segment first mid src) (segment mid last' src)))"
  unfolding SerialMerge_def using assms by (intro merge_loops) simp_all

text \<open>Merging two sorted ranges gives a sorted range with their elements, and changes nothing else.\<close>

lemma serial_merge_sorts:
  assumes order: "strict_weak_order comparison" and "first \<le> mid" "mid \<le> last'" "last' \<le> length src" "out + (last' - first) \<le> length dst"
    and "sorted_wrt (\<lambda>x y. \<not> comparison y x) (segment first mid src)" "sorted_wrt (\<lambda>x y. \<not> comparison y x) (segment mid last' src)"
  shows "\<exists>dst'. SerialMerge comparison src first mid last' out dst = Some dst' \<and> length dst' = length dst \<and>
     sorted_wrt (\<lambda>x y. \<not> comparison y x) (segment out (out + (last' - first)) dst') \<and>
     mset (segment out (out + (last' - first)) dst') = mset (segment first mid src) + mset (segment mid last' src) \<and>
     (\<forall>i < length dst. i < out \<or> out + (last' - first) \<le> i \<longrightarrow> dst' ! i = dst ! i)"
proof -
  define ws where "ws = merge_lists comparison (segment first mid src) (segment mid last' src)"
  have len: "length ws = last' - first"
    using assms(2-4) by (simp add: ws_def)
  then have room: "out + length ws \<le> length dst"
    using assms(5) by simp
  have "SerialMerge comparison src first mid last' out dst = Some (overwrite dst out ws)"
    unfolding ws_def by (rule serial_merge_overwrite[OF assms(2-5)])
  moreover have "segment out (out + (last' - first)) (overwrite dst out ws) = ws"
    using segment_overwrite[OF room] by (simp add: len)
  moreover have "sorted_wrt (\<lambda>x y. \<not> comparison y x) ws" "mset ws = mset (segment first mid src) + mset (segment mid last' src)"
    unfolding ws_def using sorted_merge_lists[OF order assms(6,7)] by simp_all
  ultimately show ?thesis
    using length_overwrite[OF room] nth_overwrite_out[of _ out ws dst] room by (auto simp: len)
qed

section \<open>The recursion\<close>

text \<open>Where the sorted elements of a range are, after sorting at some depth: in the input at even depths, in the temporary array at odd ones. \<open>g\<close> is the beginning of the whole range and \<open>t\<close> that of the temporary array.\<close>

definition result_at :: "nat \<Rightarrow> nat \<Rightarrow> nat \<Rightarrow> nat \<Rightarrow> nat \<Rightarrow> 'a list \<times> 'a list \<Rightarrow> 'a list" where
  "result_at g t depth a b s = (if even depth then segment a b (fst s) else segment (t + (a - g)) (t + (b - g)) (snd s))"

text \<open>Both arrays have the same length as before, and nothing outside of the range has changed.\<close>

definition frame_range :: "nat \<Rightarrow> nat \<Rightarrow> nat \<Rightarrow> nat \<Rightarrow> 'a list \<times> 'a list \<Rightarrow> 'a list \<times> 'a list \<Rightarrow> bool" where
  "frame_range g t a b s s' \<longleftrightarrow> length (fst s') = length (fst s) \<and> length (snd s') = length (snd s) \<and>
     (\<forall>i < length (fst s). i < a \<or> b \<le> i \<longrightarrow> fst s' ! i = fst s ! i) \<and>
     (\<forall>i < length (snd s). i < t + (a - g) \<or> t + (b - g) \<le> i \<longrightarrow> snd s' ! i = snd s ! i)"

definition sorts_range :: "('a \<Rightarrow> 'a \<Rightarrow> bool) \<Rightarrow> nat \<Rightarrow> nat \<Rightarrow> nat \<Rightarrow> nat \<Rightarrow> nat \<Rightarrow> 'a list \<times> 'a list \<Rightarrow> 'a list \<times> 'a list \<Rightarrow> bool" where
  "sorts_range comparison g t depth a b s s' \<longleftrightarrow> frame_range g t a b s s' \<and>
     sorted_wrt (\<lambda>x y. \<not> comparison y x) (result_at g t depth a b s') \<and> mset (result_at g t depth a b s') = mset (segment a b (fst s))"

lemma frame_range_refl [simp]: "frame_range g t a b s s"
  by (simp add: frame_range_def)

lemma frame_range_trans:
  "frame_range g t a b s s1 \<Longrightarrow> frame_range g t c d s1 s2 \<Longrightarrow> e \<le> a \<Longrightarrow> b \<le> f \<Longrightarrow> e \<le> c \<Longrightarrow> d \<le> f \<Longrightarrow> frame_range g t e f s s2"
  unfolding frame_range_def by (auto dest: diff_le_mono)

lemma frame_range_result:
  assumes "frame_range g t a b s s'" "d \<le> a \<or> b \<le> c" "d \<le> length (fst s)" "t + (d - g) \<le> length (snd s)"
  shows "result_at g t depth c d s' = result_at g t depth c d s" "segment c d (fst s') = segment c d (fst s)"
proof -
  have "fst s' ! i = fst s ! i" if "c \<le> i" "i < d" for i
    using assms that by (auto simp: frame_range_def)
  then show seg: "segment c d (fst s') = segment c d (fst s)"
    using assms by (intro segment_eqI) (auto simp: frame_range_def)
  have "snd s' ! i = snd s ! i" if "t + (c - g) \<le> i" "i < t + (d - g)" for i
    using assms that by (auto simp: frame_range_def dest: diff_le_mono[of _ _ g])
  then have "segment (t + (c - g)) (t + (d - g)) (snd s') = segment (t + (c - g)) (t + (d - g)) (snd s)"
    using assms by (intro segment_eqI) (auto simp: frame_range_def)
  then show "result_at g t depth c d s' = result_at g t depth c d s"
    using seg by (simp add: result_at_def)
qed

text \<open>Two halves that are sorted one after the other, in either order, are both sorted at the end.\<close>

lemma sorts_halves:
  assumes "a \<le> m" "m \<le> b" "b \<le> length (fst s)" "t + (b - g) \<le> length (snd s)"
    and "sorts_range comparison g t depth c d s s1" "sorts_range comparison g t depth c' d' s1 s2"
    and "(c, d, c', d') = (a, m, m, b) \<or> (c, d, c', d') = (m, b, a, m)"
  shows "frame_range g t a b s s2" "sorted_wrt (\<lambda>x y. \<not> comparison y x) (result_at g t depth a m s2)" "sorted_wrt (\<lambda>x y. \<not> comparison y x) (result_at g t depth m b s2)"
    "mset (result_at g t depth a m s2) + mset (result_at g t depth m b s2) = mset (segment a b (fst s))"
proof -
  have fr: "frame_range g t c d s s1" "frame_range g t c' d' s1 s2"
    using assms(5,6) by (simp_all add: sorts_range_def)
  show "frame_range g t a b s s2"
    using frame_range_trans[OF fr, of a b] assms(1,2,7) by auto
  have len: "length (fst s1) = length (fst s)" "length (snd s1) = length (snd s)"
    using fr(1) by (simp_all add: frame_range_def)
  have "m - g \<le> b - g"
    using assms(2) by (rule diff_le_mono)
  then have bounds: "m \<le> length (fst s)" "t + (m - g) \<le> length (snd s)"
    using assms(2-4) by simp_all
  have whole: "mset (segment a m (fst s)) + mset (segment m b (fst s)) = mset (segment a b (fst s))"
    using segment_append[OF assms(1,2), of "fst s"] by (metis mset_append)
  consider (left) "c = a" "d = m" "c' = m" "d' = b" | (right) "c = m" "d = b" "c' = a" "d' = m"
    using assms(7) by auto
  then have "sorted_wrt (\<lambda>x y. \<not> comparison y x) (result_at g t depth a m s2) \<and> sorted_wrt (\<lambda>x y. \<not> comparison y x) (result_at g t depth m b s2) \<and>
      mset (result_at g t depth a m s2) = mset (segment a m (fst s)) \<and> mset (result_at g t depth m b s2) = mset (segment m b (fst s))"
  proof cases
    case left
    have "result_at g t depth a m s2 = result_at g t depth a m s1" "segment m b (fst s1) = segment m b (fst s)"
      using frame_range_result(1)[OF fr(2), of m a depth] frame_range_result(2)[OF fr(1), of b m] assms(3,4) bounds len by (simp_all add: left)
    then show ?thesis
      using assms(5,6) by (simp add: sorts_range_def left)
  next
    case right
    have "result_at g t depth m b s2 = result_at g t depth m b s1" "segment a m (fst s1) = segment a m (fst s)"
      using frame_range_result(1)[OF fr(2), of b m depth] frame_range_result(2)[OF fr(1), of m a] assms(3,4) bounds len by (simp_all add: right)
    then show ?thesis
      using assms(5,6) by (simp add: sorts_range_def right)
  qed
  then show "sorted_wrt (\<lambda>x y. \<not> comparison y x) (result_at g t depth a m s2)" "sorted_wrt (\<lambda>x y. \<not> comparison y x) (result_at g t depth m b s2)"
    "mset (result_at g t depth a m s2) + mset (result_at g t depth m b s2) = mset (segment a b (fst s))"
    using whole by simp_all
qed

text \<open>Merging the halves moves the result to the other array.\<close>

lemma merge_ranges_sorts:
  assumes order: "strict_weak_order comparison" and "g \<le> a" "a \<le> m" "m \<le> b" "b \<le> length (fst s)" "t + (b - g) \<le> length (snd s)"
    and fr: "frame_range g t a b s0 s"
    and sorted: "sorted_wrt (\<lambda>x y. \<not> comparison y x) (result_at g t (depth + 1) a m s)" "sorted_wrt (\<lambda>x y. \<not> comparison y x) (result_at g t (depth + 1) m b s)"
    and elems: "mset (result_at g t (depth + 1) a m s) + mset (result_at g t (depth + 1) m b s) = mset (segment a b (fst s0))"
  shows "\<exists>s'. merge_ranges comparison g t depth a m b s = Some s' \<and> sorts_range comparison g t depth a b s0 s'"
proof (cases "even depth")
  case True
  let ?a = "t + (a - g)" and ?m = "t + (m - g)" and ?b = "t + (b - g)"
  have "?a \<le> ?m" "?m \<le> ?b" "?b - ?a = b - a" "a + (?b - ?a) \<le> length (fst s)" "a + (b - a) = b"
    using assms(2-5) by (simp_all add: diff_le_mono)
  then obtain xs where xs: "SerialMerge comparison (snd s) ?a ?m ?b a (fst s) = Some xs" "length xs = length (fst s)"
      "sorted_wrt (\<lambda>x y. \<not> comparison y x) (segment a b xs)" "mset (segment a b xs) = mset (segment ?a ?m (snd s)) + mset (segment ?m ?b (snd s))"
      "\<forall>i < length (fst s). i < a \<or> b \<le> i \<longrightarrow> xs ! i = fst s ! i"
    using serial_merge_sorts[OF order, of ?a ?m ?b "snd s" a "fst s"] assms(6) sorted True by (auto simp: result_at_def)
  have "merge_ranges comparison g t depth a m b s = Some (xs, snd s)"
    using xs(1) True by (cases s) (simp add: merge_ranges_def CloneBackToInput_def even_iff_mod_2_eq_zero)
  moreover have "frame_range g t a b s (xs, snd s)"
    using xs(2,5) by (simp add: frame_range_def)
  then have "frame_range g t a b s0 (xs, snd s)"
    using frame_range_trans[OF fr, of a b "(xs, snd s)" a b] by simp
  ultimately show ?thesis
    using xs(3,4) elems True by (simp add: sorts_range_def result_at_def)
next
  case False
  let ?a = "t + (a - g)" and ?b = "t + (b - g)"
  have b: "?a + (b - a) = ?b"
    using assms(2-4) by simp
  then obtain tmp where tmp: "SerialMerge comparison (fst s) a m b ?a (snd s) = Some tmp" "length tmp = length (snd s)"
      "sorted_wrt (\<lambda>x y. \<not> comparison y x) (segment ?a ?b tmp)" "mset (segment ?a ?b tmp) = mset (segment a m (fst s)) + mset (segment m b (fst s))"
      "\<forall>i < length (snd s). i < ?a \<or> ?b \<le> i \<longrightarrow> tmp ! i = snd s ! i"
    using serial_merge_sorts[OF order assms(3,4,5), of ?a "snd s", unfolded b] assms(6) sorted False by (auto simp: result_at_def)
  have "merge_ranges comparison g t depth a m b s = Some (fst s, tmp)"
    using tmp(1) False by (cases s) (simp add: merge_ranges_def CloneBackToInput_def even_iff_mod_2_eq_zero)
  moreover have "frame_range g t a b s (fst s, tmp)"
    using tmp(2,5) by (simp add: frame_range_def)
  then have "frame_range g t a b s0 (fst s, tmp)"
    using frame_range_trans[OF fr, of a b "(fst s, tmp)" a b] by simp
  ultimately show ?thesis
    using tmp(3,4) elems False by (simp add: sorts_range_def result_at_def)
qed

lemma merge_sort_chunk_sorts:
  assumes order: "strict_weak_order comparison" and "g \<le> a" "a \<le> b" "b \<le> length (fst s)" "t + (b - g) \<le> length (snd s)"
  shows "\<exists>s'. MergeSortChunk comparison workers g t a b depth s = Some s' \<and> sorts_range comparison g t depth a b s s'"
  using assms(2-5)
proof (induction "b - a" arbitrary: a b depth s rule: less_induct)
  case less
  show ?case
  proof (cases "b - a \<le> 1")
    case small: True
    then have ab: "b = a \<or> b = a + 1"
      using less.prems(2) by auto
    show ?thesis
    proof (cases "even depth \<or> b = a")
      case True
      then have "MergeSortChunk comparison workers g t a b depth s = Some s"
        using small ab by (subst MergeSortChunk.simps) (auto simp: CloneBackToInput_def even_iff_mod_2_eq_zero)
      moreover have "sorted_wrt (\<lambda>x y. \<not> comparison y x) (segment a b (fst s))"
        using ab less.prems(3) by (auto simp: segment_Cons)
      ultimately show ?thesis
        using True by (auto simp: sorts_range_def result_at_def)
    next
      case False
      define i where "i = t + (a - g)"
      have b: "b = a + 1" "a < length (fst s)" "i < length (snd s)" "t + (b - g) = Suc i"
        using False ab less.prems by (auto simp: i_def)
      have "MergeSortChunk comparison workers g t a b depth s = Some (fst s, (snd s)[i := fst s ! a])"
        using False b by (subst MergeSortChunk.simps) (simp add: CloneBackToInput_def even_iff_mod_2_eq_zero i_def)
      moreover have "segment i (Suc i) ((snd s)[i := fst s ! a]) = [fst s ! a]" "segment a b (fst s) = [fst s ! a]"
        using b(1-3) by (simp_all add: segment_Cons)
      ultimately show ?thesis
        using False b(4) by (auto simp: sorts_range_def result_at_def frame_range_def i_def nth_list_update)
    qed
  next
    case False
    define m where "m = a + (b - a + 1) div 2"
    have m: "a < m" "m < b" "m - a < b - a" "b - m < b - a" "a \<le> m" "m \<le> b"
      using False by (simp_all add: m_def)
    obtain p where p: "ChunkPartitioner_new workers a b 2 = Some p" "ChunkPartitioner_at p 0 = \<lparr>GetFirst = a, GetLast = m\<rparr>"
        "ChunkPartitioner_at p 1 = \<lparr>GetFirst = m, GetLast = b\<rparr>"
    proof -
      have "a + 1 < b"
        using False by linarith
      then show thesis
        using chunk_partitioner_halves[of a b workers] that unfolding m_def by blast
    qed
    have "m - g \<le> b - g"
      using m(6) by (rule diff_le_mono)
    then have "m \<le> length (fst s)" "t + (m - g) \<le> length (snd s)"
      using less.prems(3,4) m(6) by simp_all
    then obtain s1 where 1: "MergeSortChunk comparison workers g t a m (depth + 1) s = Some s1" "sorts_range comparison g t (depth + 1) a m s s1"
      using less.hyps[OF m(3) less.prems(1) m(5)] by blast
    then have len1: "length (fst s1) = length (fst s)" "length (snd s1) = length (snd s)"
      by (simp_all add: sorts_range_def frame_range_def)
    have "g \<le> m" "b \<le> length (fst s1)" "t + (b - g) \<le> length (snd s1)"
      using less.prems m(5) len1 by simp_all
    then obtain s2 where 2: "MergeSortChunk comparison workers g t m b (depth + 1) s1 = Some s2" "sorts_range comparison g t (depth + 1) m b s1 s2"
      using less.hyps[OF m(4) _ m(6)] by blast
    note halves = sorts_halves[OF m(5,6) less.prems(3,4) 1(2) 2(2)]
    have len2: "b \<le> length (fst s2)" "t + (b - g) \<le> length (snd s2)"
      using halves(1) less.prems(3,4) by (simp_all add: frame_range_def)
    obtain s3 where 3: "merge_ranges comparison g t depth a m b s2 = Some s3" "sorts_range comparison g t depth a b s s3"
      using merge_ranges_sorts[OF order less.prems(1) m(5,6) len2] halves by blast
    have "MergeSortChunk comparison workers g t a b depth s = Some s3"
      using False p 1(1) 2(1) 3(1) by (subst MergeSortChunk.simps) simp
    then show ?thesis
      using 3(2) by blast
  qed
qed

lemma merge_sort_action_sorts:
  assumes order: "strict_weak_order comparison" and cover: "chunks_cover (BlockSizePartitioner_at p) n g last'" and "f \<le> l" "l < n"
  shows "\<forall>depth s. last' \<le> length (fst s) \<and> t + (last' - g) \<le> length (snd s) \<longrightarrow>
     (\<exists>s'. MergeSortFunctor_Action left_first comparison workers g t p f l depth s = Some s' \<and>
        sorts_range comparison g t depth (GetFirst (BlockSizePartitioner_at p f)) (GetLast (BlockSizePartitioner_at p l)) s s')"
  using assms(3)
proof (rule chunk_tree_induct, goal_cases)
  case (1 k)
  let ?c = "BlockSizePartitioner_at p k"
  have k: "k < n"
    using 1 assms(4) by simp
  have le: "GetFirst ?c \<le> GetLast ?c" "g \<le> GetFirst ?c" "GetLast ?c \<le> last'"
    using cover k chunks_cover_bounds(3,4)[OF cover, of k k] by (auto simp: chunks_cover_def less_imp_le)
  show ?case
  proof (intro allI impI, elim conjE)
    fix depth and s :: "'a list \<times> 'a list"
    assume "last' \<le> length (fst s)" "t + (last' - g) \<le> length (snd s)"
    moreover have "GetLast ?c - g \<le> last' - g"
      using le(3) by (rule diff_le_mono)
    ultimately have "GetLast ?c \<le> length (fst s)" "t + (GetLast ?c - g) \<le> length (snd s)"
      using le(3) by simp_all
    from merge_sort_chunk_sorts[OF order le(2,1) this]
    show "\<exists>s'. MergeSortFunctor_Action left_first comparison workers g t p k k depth s = Some s' \<and>
        sorts_range comparison g t depth (GetFirst ?c) (GetLast ?c) s s'"
      by (subst MergeSortFunctor_Action.simps) (simp add: Let_def)
  qed
next
  case (2 a b)
  let ?m = "(a + b) div 2" and ?c = "BlockSizePartitioner_at p" and ?act = "MergeSortFunctor_Action left_first comparison workers g t p"
  define x y z where "x = GetFirst (?c a)" and "y = GetFirst (?c (?m + 1))" and "z = GetLast (?c b)"
  have m: "a \<le> ?m" "?m + 1 \<le> b" "b < n"
    using chunk_split_index[OF 2(2)] 2 assms(4) by auto
  have le: "x \<le> y" "y \<le> z" "g \<le> x" "z \<le> last'" and y: "GetLast (?c ?m) = y"
    using chunks_cover_split[OF cover m] by (simp_all add: x_def y_def z_def)
  note IH = 2(4,5)[folded x_def y_def z_def, unfolded y]
  show ?case
    unfolding x_def[symmetric] z_def[symmetric]
  proof (intro allI impI, elim conjE)
    fix depth and s :: "'a list \<times> 'a list"
    assume len: "last' \<le> length (fst s)" "t + (last' - g) \<le> length (snd s)"
    have "z - g \<le> last' - g"
      using le(4) by (rule diff_le_mono)
    then have room: "z \<le> length (fst s)" "t + (z - g) \<le> length (snd s)"
      using len le(4) by simp_all
    have keep: "last' \<le> length (fst s1) \<and> t + (last' - g) \<le> length (snd s1)" if "sorts_range comparison g t (depth + 1) u v s s1" for u v s1
      using that len by (simp add: sorts_range_def frame_range_def)
    have unfold: "?act a b depth s = do {
        s \<leftarrow> (if left_first a b then do { s \<leftarrow> ?act a ?m (depth + 1) s; ?act (?m + 1) b (depth + 1) s }
              else do { s \<leftarrow> ?act (?m + 1) b (depth + 1) s; ?act a ?m (depth + 1) s });
        merge_ranges comparison g t depth x y z s }"
      unfolding MergeSortFunctor_Action.simps[of left_first comparison workers g t p a b depth s] x_def y_def z_def using 2(2) by (simp add: Let_def)
    have "\<exists>s2. (if left_first a b then do { s \<leftarrow> ?act a ?m (depth + 1) s; ?act (?m + 1) b (depth + 1) s }
              else do { s \<leftarrow> ?act (?m + 1) b (depth + 1) s; ?act a ?m (depth + 1) s }) = Some s2 \<and>
        frame_range g t x z s s2 \<and> sorted_wrt (\<lambda>u v. \<not> comparison v u) (result_at g t (depth + 1) x y s2) \<and>
        sorted_wrt (\<lambda>u v. \<not> comparison v u) (result_at g t (depth + 1) y z s2) \<and>
        mset (result_at g t (depth + 1) x y s2) + mset (result_at g t (depth + 1) y z s2) = mset (segment x z (fst s))"
    proof (cases "left_first a b")
      case True
      obtain s1 where 1: "?act a ?m (depth + 1) s = Some s1" "sorts_range comparison g t (depth + 1) x y s s1"
        using IH(1) len by blast
      obtain s2 where 2: "?act (?m + 1) b (depth + 1) s1 = Some s2" "sorts_range comparison g t (depth + 1) y z s1 s2"
        using IH(2) keep[OF 1(2)] by blast
      show ?thesis
        using True 1(1) 2(1) sorts_halves[OF le(1,2) room 1(2) 2(2)] by simp
    next
      case False
      obtain s1 where 1: "?act (?m + 1) b (depth + 1) s = Some s1" "sorts_range comparison g t (depth + 1) y z s s1"
        using IH(2) len by blast
      obtain s2 where 2: "?act a ?m (depth + 1) s1 = Some s2" "sorts_range comparison g t (depth + 1) x y s1 s2"
        using IH(1) keep[OF 1(2)] by blast
      show ?thesis
        using False 1(1) 2(1) sorts_halves[OF le(1,2) room 1(2) 2(2)] by simp
    qed
    then obtain s2 where s2: "(if left_first a b then do { s \<leftarrow> ?act a ?m (depth + 1) s; ?act (?m + 1) b (depth + 1) s }
              else do { s \<leftarrow> ?act (?m + 1) b (depth + 1) s; ?act a ?m (depth + 1) s }) = Some s2"
        "frame_range g t x z s s2" "sorted_wrt (\<lambda>u v. \<not> comparison v u) (result_at g t (depth + 1) x y s2)"
        "sorted_wrt (\<lambda>u v. \<not> comparison v u) (result_at g t (depth + 1) y z s2)"
        "mset (result_at g t (depth + 1) x y s2) + mset (result_at g t (depth + 1) y z s2) = mset (segment x z (fst s))"
      by blast
    have room2: "z \<le> length (fst s2)" "t + (z - g) \<le> length (snd s2)"
      using s2(2) room by (simp_all add: frame_range_def)
    show "\<exists>s'. ?act a b depth s = Some s' \<and> sorts_range comparison g t depth x z s s'"
      unfolding unfold s2(1) using merge_ranges_sorts[OF order le(3,1,2) room2 s2(2-5)] by simp
  qed
qed

section \<open>Properties\<close>

text \<open>
  C26. Parallel merge sort. For a comparison that is a strict weak order and a temporary array with room for as many elements from \<^verbatim>\<open>temporary_first\<close> on, \<^verbatim>\<open>MergeSort\<close> on a range of an array returns: the range is sorted, its elements are
  those it had before, and the rest of the array is as it was. Of the temporary array only the given part is written. This holds for every block size that passes the check,
  whichever of the two tasks runs first at each step.
\<close>

theorem merge_sort_sorts:
  assumes "strict_weak_order comparison" "first \<le> last'" "last' \<le> length xs" "temporary_first + (last' - first) \<le> length temp"
    and "bits_of (ep_affinity policy) \<noteq> {}" "block_size = 0 \<or> (last' - first) div block_size \<le> 511"
  shows "\<exists>ys temp'. MergeSortIteratorCheck left_first workers xs first last' temp temporary_first comparison policy block_size = Some (Inr (ys, temp')) \<and>
     sorted_wrt (\<lambda>x y. \<not> comparison y x) (segment first last' ys) \<and> mset (segment first last' ys) = mset (segment first last' xs) \<and>
     length ys = length xs \<and> (\<forall>i < length xs. i < first \<or> last' \<le> i \<longrightarrow> ys ! i = xs ! i) \<and>
     length temp' = length temp \<and> (\<forall>i < length temp. i < temporary_first \<or> temporary_first + (last' - first) \<le> i \<longrightarrow> temp' ! i = temp ! i)"
proof (cases "first = last'")
  case True
  then show ?thesis
    by (simp add: MergeSortIteratorCheck_def)
next
  case False
  then have range: "first < last'" "int last' - int first = int (last' - first)" "int last' - int first \<noteq> 0"
    using assms(2) by auto
  obtain b where b: "determine_block_size (int last' - int first) policy block_size ''Negative range for MergeSort''
                    ''Not enough MTAPI tasks available to perform merge sort'' = Some (Inr b)"
    using determine_block_size_total[OF assms(5,6)] range(2) by metis
  then have "0 < b"
    using determine_block_size_accepts(1) range by (metis zero_less_diff)
  then obtain p where p: "BlockSizePartitioner_new first last' b = Some p"
     "chunks_cover (BlockSizePartitioner_at p) (BlockSizePartitioner_Size p) first last'"
    using block_size_partitioner[OF range(1)] by metis
  define k where "k = BlockSizePartitioner_Size p"
  have k: "0 < k" "k - 1 < k" "GetFirst (BlockSizePartitioner_at p 0) = first" "GetLast (BlockSizePartitioner_at p (k - 1)) = last'"
    using p(2) by (simp_all add: chunks_cover_def k_def)
  obtain s' where s': "MergeSortFunctor_Action left_first comparison workers first temporary_first p 0 (k - 1) 0 (xs, temp) = Some s'"
      "sorts_range comparison first temporary_first 0 first last' (xs, temp) s'"
    using merge_sort_action_sorts[OF assms(1) p(2)[folded k_def] le0 k(2), of temporary_first left_first workers, THEN spec[of _ 0], THEN spec[of _ "(xs, temp)"]] assms(3,4)
    unfolding k(3,4) by auto
  have "MergeSortIteratorCheck left_first workers xs first last' temp temporary_first comparison policy block_size = Some (Inr (fst s', snd s'))"
    using range(3) s'(1) by (simp add: MergeSortIteratorCheck_def b p(1) k_def)
  then show ?thesis
    using s'(2) unfolding sorts_range_def frame_range_def result_at_def by (intro exI[of _ "fst s'"] exI[of _ "snd s'"]) simp
qed

theorem merge_sort_sorts_witness:
  "\<exists>ys temp'. MergeSortIteratorCheck (\<lambda>_ _. False) 2 [5, 3, 1, 4, 2 :: nat] 1 5 [0, 0, 0, 0, 0] 1 std_less two_cores 2 = Some (Inr (ys, temp')) \<and>
     sorted (segment 1 5 ys) \<and> mset (segment 1 5 ys) = {#1, 2, 3, 4#} \<and> ys ! 0 = 5"
proof -
  have "sorted_wrt (\<lambda>x y. \<not> std_less y x) zs = sorted zs" for zs :: "nat list"
    by (simp add: std_less_def not_less)
  moreover have "mset (segment 1 5 [5, 3, 1, 4, 2 :: nat]) = {#1, 2, 3, 4#}"
    by (simp add: segment_def)
  ultimately show ?thesis
    using merge_sort_sorts[OF less.strict_weak_order_axioms, of 1 5 "[5, 3, 1, 4, 2 :: nat]" 1 "[0, 0, 0, 0, 0]" two_cores 2 "\<lambda>_ _. False" 2] two_cores_nonempty
    by fastforce
qed

end
