(* ===== verification/Spsc_Queue.thy ===== *)
theory Spsc_Queue
  imports Ring_Buffer
begin

text \<open>
  The wait-free queue for one producer and one consumer (\<^verbatim>\<open>wait_free_spsc_queue-inl.h\<close>). Head and tail are 64-bit counters that only
  grow and wrap around; the capacity is a power of two, so that the position of a counter in the array is its remainder. The
  operations are a \<open>bounded_fifo\<close>. Then the producer and the consumer run at the same time: their operations are cut into
  the accesses to the shared counters and the array, and the steps of the two threads are interleaved. The allocator gives the array,
  whose content is a parameter.
\<close>

section \<open>The queue\<close>

record 'a WaitFreeSPSCQueue =
  sq_capacity :: u64
  sq_queue_array :: "'a list"
  sq_head_index :: u64
  sq_tail_index :: u64

partial_function (option) align_loop :: "u64 \<Rightarrow> u64 \<Rightarrow> u64 option" where
  [code]: "align_loop capacity result = (if result < capacity then align_loop capacity (push_bit 1 result) else Some result)"

definition AlignCapacityToPowerOfTwo :: "u64 \<Rightarrow> u64 option" where
  "AlignCapacityToPowerOfTwo capacity = align_loop capacity 1"

definition WaitFreeSPSCQueue_new :: "(u64 \<Rightarrow> 'a list) \<Rightarrow> u64 \<Rightarrow> 'a WaitFreeSPSCQueue option" where
  "WaitFreeSPSCQueue_new allocate capacity =
     do { aligned \<leftarrow> AlignCapacityToPowerOfTwo capacity;
          Some \<lparr>sq_capacity = aligned, sq_queue_array = allocate aligned, sq_head_index = 0, sq_tail_index = 0\<rparr> }"

definition GetCapacity :: "'a WaitFreeSPSCQueue \<Rightarrow> u64" where
  "GetCapacity that = sq_capacity that"

text \<open>The position of a counter in the array; the remainder by zero is undefined.\<close>

definition queue_slot :: "'a WaitFreeSPSCQueue \<Rightarrow> u64 \<Rightarrow> nat option" where
  "queue_slot that index = (if sq_capacity that = 0 then None else Some (unat (index mod sq_capacity that)))"

definition TryEnqueue :: "'a WaitFreeSPSCQueue \<Rightarrow> 'a \<Rightarrow> (bool \<times> 'a WaitFreeSPSCQueue) option" where
  "TryEnqueue that element =
     (if sq_tail_index that - sq_head_index that = sq_capacity that then Some (False, that)
      else do {
        i \<leftarrow> queue_slot that (sq_tail_index that);
        queue_array \<leftarrow> assign (sq_queue_array that) i element;
        Some (True, that\<lparr>sq_queue_array := queue_array, sq_tail_index := sq_tail_index that + 1\<rparr>) })"

text \<open>The element is returned, or \<open>None\<close> if the queue is empty and the reference is left alone.\<close>

definition TryDequeue :: "'a WaitFreeSPSCQueue \<Rightarrow> ('a option \<times> 'a WaitFreeSPSCQueue) option" where
  "TryDequeue that =
     (if sq_tail_index that - sq_head_index that = 0 then Some (None, that)
      else do {
        i \<leftarrow> queue_slot that (sq_head_index that);
        x \<leftarrow> deref (sq_queue_array that) i;
        Some (Some x, that\<lparr>sq_head_index := sq_head_index that + 1\<rparr>) })"

section \<open>The capacity\<close>

lemma unat_two_power: "unat (2 ^ k :: u64) = (if k < 64 then 2 ^ k else 0)"
proof -
  have "unat (2 ^ k :: u64) = 2 ^ k mod 2 ^ 64"
    using unsigned_push_bit_eq[of k "1 :: u64", where ?'a = nat] by (simp add: push_bit_eq_mult take_bit_eq_mod)
  moreover have "(2 :: nat) ^ k mod 2 ^ 64 = 0" if "64 \<le> k"
    using le_imp_power_dvd[OF that, of "2 :: nat"] by (simp only: mod_eq_0_iff_dvd)
  moreover have "(2 :: nat) ^ k mod 2 ^ 64 = 2 ^ k" if "k < 64"
    using that by (intro mod_less power_strict_increasing) simp_all
  ultimately show ?thesis
    by (cases "k < 64") simp_all
qed

text \<open>The loop goes through the powers of two. Beyond \<open>2 ^ 63\<close> the shift gives 0, and the loop does not end.\<close>

lemma align_loop_powers:
  assumes "align_loop capacity result = Some r"
  shows "capacity \<le> r \<and> ((\<exists>k. result = 2 ^ k) \<longrightarrow> (\<exists>k. r = 2 ^ k))"
proof (rule align_loop.raw_induct[where P = "\<lambda>capacity result r. capacity \<le> r \<and> ((\<exists>k. result = 2 ^ k) \<longrightarrow> (\<exists>k. r = 2 ^ k))"])
  show "align_loop capacity result = Some r" by (rule assms)
next
  fix loop capacity result and r :: u64
  assume IH: "\<And>capacity result r. loop capacity result = Some r \<Longrightarrow> capacity \<le> r \<and> ((\<exists>k. result = 2 ^ k) \<longrightarrow> (\<exists>k. r = 2 ^ k))"
    and body: "(if result < capacity then loop capacity (push_bit 1 result) else Some result) = Some r"
  have shift: "\<exists>k. push_bit 1 result = 2 ^ k" if "\<exists>k. result = 2 ^ k"
  proof -
    from that obtain k where "result = 2 ^ k" ..
    then have "push_bit 1 result = 2 ^ Suc k"
      by (simp add: push_bit_eq_mult)
    then show ?thesis ..
  qed
  show "capacity \<le> r \<and> ((\<exists>k. result = 2 ^ k) \<longrightarrow> (\<exists>k. r = 2 ^ k))"
  proof (cases "result < capacity")
    case True
    then show ?thesis
      using IH body shift by simp
  next
    case False
    then show ?thesis
      using body by auto
  qed
qed

lemma align_loop_returns:
  assumes "unat capacity \<le> 2 ^ 63" "k \<le> 63" "k = 0 \<or> 2 ^ (k - 1) < unat capacity"
  shows "\<exists>j \<le> 63. align_loop capacity (2 ^ k) = Some (2 ^ j) \<and> unat capacity \<le> 2 ^ j \<and> (j = 0 \<or> 2 ^ (j - 1) < unat capacity)"
  using assms(2,3)
proof (induction "63 - k" arbitrary: k)
  case 0
  then have "k = 63"
    by simp
  then have "\<not> 2 ^ k < capacity"
    using assms(1) by (simp only: word_less_unat unat_two_power) simp
  then show ?case
    using 0 assms(1) \<open>k = 63\<close> by (intro exI[of _ 63]) (simp add: align_loop.simps[of capacity])
next
  case (Suc n)
  show ?case
  proof (cases "2 ^ k < capacity")
    case True
    then have "2 ^ k < unat capacity"
      using Suc.hyps(2) by (simp only: word_less_unat unat_two_power) (simp split: if_splits)
    moreover have "align_loop capacity (2 ^ k) = align_loop capacity (2 ^ Suc k)"
      using True by (simp add: align_loop.simps[of capacity "2 ^ k"] push_bit_eq_mult mult.commute)
    moreover have "n = 63 - Suc k" "Suc k \<le> 63"
      using Suc.hyps(2) by simp_all
    ultimately show ?thesis
      using Suc.hyps(1)[of "Suc k"] by simp
  next
    case False
    then have "unat capacity \<le> 2 ^ k"
      using Suc.prems(1) by (simp only: word_less_unat unat_two_power) (simp split: if_splits)
    then show ?thesis
      using False Suc.prems by (intro exI[of _ k]) (simp add: align_loop.simps[of capacity])
  qed
qed

lemma align_capacity:
  "AlignCapacityToPowerOfTwo capacity = Some aligned \<longleftrightarrow>
     unat capacity \<le> 2 ^ 63 \<and> (\<exists>j \<le> 63. aligned = 2 ^ j \<and> unat capacity \<le> 2 ^ j \<and> (j = 0 \<or> 2 ^ (j - 1) < unat capacity))"
proof (cases "unat capacity \<le> 2 ^ 63")
  case True
  obtain j where j: "j \<le> 63" "align_loop capacity (2 ^ 0) = Some (2 ^ j)" "unat capacity \<le> 2 ^ j" "j = 0 \<or> 2 ^ (j - 1) < unat capacity"
    using align_loop_returns[OF True, of 0] by auto
  have only: "i = j" if "i \<le> 63" "unat capacity \<le> 2 ^ i" "i = 0 \<or> 2 ^ (i - 1) < unat capacity" for i
  proof (rule linorder_cases[of i j])
    assume "i < j"
    then have "(2 :: nat) ^ i \<le> 2 ^ (j - 1)"
      by (intro power_increasing) simp_all
    then show ?thesis
      using \<open>i < j\<close> that j by linarith
  next
    assume "j < i"
    then have "(2 :: nat) ^ j \<le> 2 ^ (i - 1)"
      by (intro power_increasing) simp_all
    then show ?thesis
      using \<open>j < i\<close> that j by linarith
  qed
  have "AlignCapacityToPowerOfTwo capacity = Some (2 ^ j)"
    using j(2) by (simp only: AlignCapacityToPowerOfTwo_def power_0)
  then show ?thesis
    using True j(1,3,4) only by (metis option.inject)
next
  case False
  have "AlignCapacityToPowerOfTwo capacity \<noteq> Some r" for r
  proof
    assume "AlignCapacityToPowerOfTwo capacity = Some r"
    then have "capacity \<le> r" "\<exists>k. r = 2 ^ k"
      using align_loop_powers[of capacity 1 r] power_0[of "2 :: u64"] by (metis AlignCapacityToPowerOfTwo_def)+
    then obtain k where "unat capacity \<le> unat (2 ^ k :: u64)"
      by (auto simp: word_le_unat)
    moreover have "(2 :: nat) ^ k \<le> 2 ^ 63" if "k < 64"
      using that by (intro power_increasing) simp_all
    ultimately have "unat capacity \<le> 2 ^ 63"
      unfolding unat_two_power by (cases "k < 64") (simp_all only: if_True if_False le_zero_eq le0 order_trans)
    then show False
      using False by simp
  qed
  then show ?thesis
    using False by simp
qed

section \<open>A bounded queue\<close>

definition spsc_wf :: "'a WaitFreeSPSCQueue \<Rightarrow> bool" where
  "spsc_wf q \<longleftrightarrow> (\<exists>j \<le> 63. sq_capacity q = 2 ^ j) \<and> length (sq_queue_array q) = unat (sq_capacity q) \<and>
     unat (sq_tail_index q - sq_head_index q) \<le> unat (sq_capacity q)"

definition sq_length :: "'a WaitFreeSPSCQueue \<Rightarrow> nat" where
  "sq_length q = unat (sq_tail_index q - sq_head_index q)"

definition sq_contents :: "'a WaitFreeSPSCQueue \<Rightarrow> 'a list" where
  "sq_contents q = ring_list (sq_queue_array q) (unat (sq_head_index q mod sq_capacity q)) (sq_length q)"

lemma length_sq_contents [simp]: "length (sq_contents q) = sq_length q"
  by (simp add: sq_contents_def)

lemma capacity_power:
  assumes "j \<le> 63" "cap = (2 :: u64) ^ j"
  shows "0 < unat cap" "unat cap dvd 2 ^ 64" "unat cap \<le> 2 ^ 63"
proof -
  have "unat cap = 2 ^ j"
    using assms unat_two_power[of j] by simp
  moreover have "(2 :: nat) ^ j dvd 2 ^ 64" "(2 :: nat) ^ j \<le> 2 ^ 63"
    using assms(1) by (intro le_imp_power_dvd power_increasing; linarith)+
  ultimately show "0 < unat cap" "unat cap dvd 2 ^ 64" "unat cap \<le> 2 ^ 63"
    by (simp_all only:) simp
qed

text \<open>The counters wrap around at a multiple of the capacity, so that positions go around the array.\<close>

lemma unat_add_mod_capacity:
  assumes "unat cap dvd 2 ^ 64"
  shows "unat ((a + b) mod (cap :: u64)) = (unat (a mod cap) + unat b) mod unat cap"
proof -
  have "unat ((a + b) mod cap) = (unat a + unat b) mod 2 ^ 64 mod unat cap"
    by (simp add: unat_mod unat_word_ariths)
  also have "\<dots> = (unat a + unat b) mod unat cap"
    using assms by (rule mod_mod_cancel)
  also have "\<dots> = (unat (a mod cap) + unat b) mod unat cap"
    by (simp add: unat_mod mod_add_left_eq)
  finally show ?thesis .
qed

lemma spsc_ring_wf:
  assumes "spsc_wf q"
  shows "ring_wf (sq_queue_array q) (unat (sq_head_index q mod sq_capacity q)) (unat (sq_tail_index q mod sq_capacity q)) (sq_length q)"
    and "queue_slot q i = Some (unat (i mod sq_capacity q))" and "unat (i mod sq_capacity q) < length (sq_queue_array q)"
    and "unat ((i + 1) mod sq_capacity q) = Suc (unat (i mod sq_capacity q)) mod length (sq_queue_array q)"
    and "sq_length q < 2 ^ 64 - 1"
proof -
  obtain j where "j \<le> 63" "sq_capacity q = 2 ^ j"
    using assms by (auto simp: spsc_wf_def)
  note cap = capacity_power[OF this]
  note len = assms[unfolded spsc_wf_def, THEN conjunct2]
  have "sq_tail_index q = sq_head_index q + (sq_tail_index q - sq_head_index q)"
    by simp
  then have "unat (sq_tail_index q mod sq_capacity q) = (unat (sq_head_index q mod sq_capacity q) + sq_length q) mod unat (sq_capacity q)"
    using unat_add_mod_capacity[OF cap(2)] unfolding sq_length_def by metis
  then show "ring_wf (sq_queue_array q) (unat (sq_head_index q mod sq_capacity q)) (unat (sq_tail_index q mod sq_capacity q)) (sq_length q)"
    using cap(1) len by (simp add: ring_wf_def unat_mod sq_length_def)
  show "queue_slot q i = Some (unat (i mod sq_capacity q))"
    using cap(1) by (auto simp: queue_slot_def)
  show "unat (i mod sq_capacity q) < length (sq_queue_array q)"
    using cap(1) len by (simp add: unat_mod)
  show "unat ((i + 1) mod sq_capacity q) = Suc (unat (i mod sq_capacity q)) mod length (sq_queue_array q)"
    using unat_add_mod_capacity[OF cap(2), of i 1] len by simp
  show "sq_length q < 2 ^ 64 - 1"
    using cap(3) len by (simp add: sq_length_def)
qed

lemma spsc_full_iff: "spsc_wf q \<Longrightarrow> sq_tail_index q - sq_head_index q = sq_capacity q \<longleftrightarrow> sq_length q = unat (sq_capacity q)"
  by (simp add: sq_length_def word_unat_eq_iff)

lemma spsc_empty_iff: "sq_tail_index q - sq_head_index q = 0 \<longleftrightarrow> sq_length q = 0"
  by (simp add: sq_length_def unat_eq_0)

text \<open>Publishing an element that was written at the tail, and giving the slot at the head back.\<close>

lemma spsc_publish:
  assumes "spsc_wf q" "sq_length q < unat (sq_capacity q)" "sq_queue_array q ! unat (sq_tail_index q mod sq_capacity q) = x"
  shows "spsc_wf (q\<lparr>sq_tail_index := sq_tail_index q + 1\<rparr>)" "sq_contents (q\<lparr>sq_tail_index := sq_tail_index q + 1\<rparr>) = sq_contents q @ [x]"
proof -
  note wf = spsc_ring_wf[OF assms(1)]
  let ?t = "unat (sq_tail_index q mod sq_capacity q)" and ?arr = "sq_queue_array q"
  have "sq_tail_index q + 1 - sq_head_index q = (sq_tail_index q - sq_head_index q) + 1"
    by simp
  moreover have "unat ((sq_tail_index q - sq_head_index q) + 1) = Suc (sq_length q)"
    using wf(5) by (simp add: sq_length_def unat_word_ariths)
  ultimately have len: "unat (sq_tail_index q + 1 - sq_head_index q) = Suc (sq_length q)"
    by (simp only:)
  then show "spsc_wf (q\<lparr>sq_tail_index := sq_tail_index q + 1\<rparr>)"
    using assms(1,2) by (simp add: spsc_wf_def)
  have "sq_length q < length ?arr"
    using assms(1,2) by (simp add: spsc_wf_def)
  from ring_list_put[OF wf(1) this, of x] assms(3)
  show "sq_contents (q\<lparr>sq_tail_index := sq_tail_index q + 1\<rparr>) = sq_contents q @ [x]"
    using list_update_id[of ?arr ?t] by (simp add: sq_contents_def sq_length_def len[unfolded sq_length_def])
qed

lemma spsc_write_tail:
  assumes "spsc_wf q" "sq_length q < unat (sq_capacity q)"
  shows "spsc_wf (q\<lparr>sq_queue_array := (sq_queue_array q)[unat (sq_tail_index q mod sq_capacity q) := x]\<rparr>)"
    "sq_contents (q\<lparr>sq_queue_array := (sq_queue_array q)[unat (sq_tail_index q mod sq_capacity q) := x]\<rparr>) = sq_contents q"
proof -
  note wf = spsc_ring_wf[OF assms(1)]
  show "spsc_wf (q\<lparr>sq_queue_array := (sq_queue_array q)[unat (sq_tail_index q mod sq_capacity q) := x]\<rparr>)"
    using assms(1) by (simp add: spsc_wf_def)
  have "sq_length q < length (sq_queue_array q)"
    using assms by (simp add: spsc_wf_def)
  then have "(unat (sq_head_index q mod sq_capacity q) + k) mod length (sq_queue_array q) \<noteq> unat (sq_tail_index q mod sq_capacity q)"
    if "k < sq_length q" for k
    using ring_slot_ne[OF wf(1) _ that] by simp
  then show "sq_contents (q\<lparr>sq_queue_array := (sq_queue_array q)[unat (sq_tail_index q mod sq_capacity q) := x]\<rparr>) = sq_contents q"
    unfolding sq_contents_def ring_list_def sq_length_def by (auto intro!: map_cong nth_list_update_neq) metis
qed

lemma spsc_release:
  assumes "spsc_wf q" "sq_length q \<noteq> 0"
  shows "spsc_wf (q\<lparr>sq_head_index := sq_head_index q + 1\<rparr>)"
    "sq_contents q = sq_queue_array q ! unat (sq_head_index q mod sq_capacity q) # sq_contents (q\<lparr>sq_head_index := sq_head_index q + 1\<rparr>)"
proof -
  note wf = spsc_ring_wf[OF assms(1)]
  let ?h = "unat (sq_head_index q mod sq_capacity q)" and ?arr = "sq_queue_array q"
  have "0 < sq_tail_index q - sq_head_index q"
    using assms(2) unfolding sq_length_def word_less_unat by simp
  from unat_dec_pos[OF this]
  have len: "unat (sq_tail_index q - (sq_head_index q + 1)) = sq_length q - 1"
    by (simp add: sq_length_def diff_diff_eq)
  then show "spsc_wf (q\<lparr>sq_head_index := sq_head_index q + 1\<rparr>)"
    using assms(1) by (auto simp: spsc_wf_def sq_length_def intro: le_trans[OF diff_le_self])
  have "0 < sq_length q"
    using assms(2) by simp
  from ring_list_head[OF wf(1) this]
  show "sq_contents q = ?arr ! ?h # sq_contents (q\<lparr>sq_head_index := sq_head_index q + 1\<rparr>)"
    using len wf(4)[of "sq_head_index q"] by (simp add: sq_contents_def sq_length_def del: diff_diff_eq)
qed

lemma try_enqueue_room:
  assumes "spsc_wf q" "sq_length q < unat (sq_capacity q)"
  shows "\<exists>q'. TryEnqueue q x = Some (True, q') \<and> spsc_wf q' \<and> sq_contents q' = sq_contents q @ [x] \<and> sq_capacity q' = sq_capacity q"
proof -
  note wf = spsc_ring_wf[OF assms(1)]
  define q1 where "q1 = q\<lparr>sq_queue_array := (sq_queue_array q)[unat (sq_tail_index q mod sq_capacity q) := x]\<rparr>"
  have q1: "spsc_wf q1" "sq_contents q1 = sq_contents q" "sq_length q1 < unat (sq_capacity q1)"
      "sq_queue_array q1 ! unat (sq_tail_index q1 mod sq_capacity q1) = x"
    using spsc_write_tail[OF assms, of x] assms(2) wf(3) by (simp_all add: q1_def sq_length_def)
  have "TryEnqueue q x = Some (True, q1\<lparr>sq_tail_index := sq_tail_index q1 + 1\<rparr>)"
    using assms(2) wf(2,3) spsc_full_iff[OF assms(1)] by (simp add: TryEnqueue_def q1_def)
  then show ?thesis
    using spsc_publish[OF q1(1,3,4)] q1(2) by (simp add: q1_def)
qed

lemma try_enqueue_full: "spsc_wf q \<Longrightarrow> sq_length q = unat (sq_capacity q) \<Longrightarrow> TryEnqueue q x = Some (False, q)"
  using spsc_full_iff[of q] by (simp add: TryEnqueue_def)

lemma try_dequeue_some:
  assumes "spsc_wf q" "sq_contents q = x # xs"
  shows "\<exists>q'. TryDequeue q = Some (Some x, q') \<and> spsc_wf q' \<and> sq_contents q' = xs \<and> sq_capacity q' = sq_capacity q"
proof -
  have "sq_length q \<noteq> 0"
    using assms(2) length_sq_contents[of q] by auto
  with spsc_release[OF assms(1) this] spsc_ring_wf(2,3)[OF assms(1), of "sq_head_index q"] assms(2) spsc_empty_iff[of q] show ?thesis
    by (simp add: TryDequeue_def)
qed

lemma try_dequeue_none: "sq_contents q = [] \<Longrightarrow> TryDequeue q = Some (None, q)"
  using length_sq_contents[of q] spsc_empty_iff[of q] by (simp add: TryDequeue_def)

interpretation spsc: bounded_fifo TryEnqueue TryDequeue sq_contents "\<lambda>q. unat (sq_capacity q)" spsc_wf "\<lambda>_. True"
proof (unfold_locales, goal_cases)
  case (1 q)
  then show ?case by (simp add: spsc_wf_def sq_length_def)
next
  case (2 q x)
  then show ?case using try_enqueue_room[of q x] by auto
next
  case (3 q x)
  then show ?case by (simp add: try_enqueue_full)
next
  case (4 q x xs)
  then show ?case using try_dequeue_some[of q x xs] by auto
next
  case (5 q)
  then show ?case by (simp add: try_dequeue_none)
qed

text \<open>
  A new queue is empty and holds at least as many elements as were asked for: the least power of two that is not smaller. Without an upper bound on the
  capacity the constructor does not return.
\<close>

lemma spsc_new:
  assumes "\<forall>c. length (allocate c) = unat c"
  shows "unat capacity \<le> 2 ^ 63 \<Longrightarrow> \<exists>q. WaitFreeSPSCQueue_new allocate capacity = Some q \<and> spsc_wf q \<and> sq_contents q = [] \<and>
      unat capacity \<le> unat (GetCapacity q)"
    and "2 ^ 63 < unat capacity \<Longrightarrow> WaitFreeSPSCQueue_new allocate capacity = None"
proof -
  assume "unat capacity \<le> 2 ^ 63"
  then obtain j where "j \<le> 63" "AlignCapacityToPowerOfTwo capacity = Some (2 ^ j)" "unat capacity \<le> 2 ^ j"
    using align_loop_returns[of capacity 0] unfolding AlignCapacityToPowerOfTwo_def power_0 by auto
  then show "\<exists>q. WaitFreeSPSCQueue_new allocate capacity = Some q \<and> spsc_wf q \<and> sq_contents q = [] \<and> unat capacity \<le> unat (GetCapacity q)"
    using assms unat_two_power[of j] by (auto simp: WaitFreeSPSCQueue_new_def spsc_wf_def sq_contents_def sq_length_def GetCapacity_def)
next
  assume "2 ^ 63 < unat capacity"
  then have "AlignCapacityToPowerOfTwo capacity = None"
    using align_capacity[of capacity] by (metis not_less option.exhaust)
  then show "WaitFreeSPSCQueue_new allocate capacity = None"
    by (simp add: WaitFreeSPSCQueue_new_def)
qed

section \<open>The producer and the consumer at the same time\<close>

text \<open>
  Where the two threads are between their accesses to shared memory: the producer has found room and has the element to write, or it has
  written the element and has to publish it by advancing the tail; the consumer has found an element and has to read it, or has read it
  and has to advance the head. The sequences of the elements for which the operations have returned \<^verbatim>\<open>true\<close> are recorded beside.
\<close>

datatype 'a producer_pc = Producer_Idle | Producer_Writing 'a | Producer_Publishing 'a
datatype 'a consumer_pc = Consumer_Idle | Consumer_Reading | Consumer_Releasing 'a

record 'a spsc_system =
  sys_queue :: "'a WaitFreeSPSCQueue"
  sys_producer :: "'a producer_pc"
  sys_consumer :: "'a consumer_pc"
  sys_enqueued :: "'a list"
  sys_dequeued :: "'a list"

definition enqueue_step :: "'a \<Rightarrow> 'a spsc_system \<Rightarrow> 'a spsc_system option" where
  "enqueue_step element s =
     (let that = sys_queue s in
      case sys_producer s of
        Producer_Idle \<Rightarrow>
          Some (if sq_tail_index that - sq_head_index that = sq_capacity that then s else s\<lparr>sys_producer := Producer_Writing element\<rparr>)
      | Producer_Writing x \<Rightarrow> do {
          i \<leftarrow> queue_slot that (sq_tail_index that);
          queue_array \<leftarrow> assign (sq_queue_array that) i x;
          Some (s\<lparr>sys_queue := that\<lparr>sq_queue_array := queue_array\<rparr>, sys_producer := Producer_Publishing x\<rparr>) }
      | Producer_Publishing x \<Rightarrow>
          Some (s\<lparr>sys_queue := that\<lparr>sq_tail_index := sq_tail_index that + 1\<rparr>, sys_producer := Producer_Idle, sys_enqueued := sys_enqueued s @ [x]\<rparr>))"

definition dequeue_step :: "'a spsc_system \<Rightarrow> 'a spsc_system option" where
  "dequeue_step s =
     (let that = sys_queue s in
      case sys_consumer s of
        Consumer_Idle \<Rightarrow>
          Some (if sq_tail_index that - sq_head_index that = 0 then s else s\<lparr>sys_consumer := Consumer_Reading\<rparr>)
      | Consumer_Reading \<Rightarrow> do {
          i \<leftarrow> queue_slot that (sq_head_index that);
          x \<leftarrow> deref (sq_queue_array that) i;
          Some (s\<lparr>sys_consumer := Consumer_Releasing x\<rparr>) }
      | Consumer_Releasing x \<Rightarrow>
          Some (s\<lparr>sys_queue := that\<lparr>sq_head_index := sq_head_index that + 1\<rparr>, sys_consumer := Consumer_Idle, sys_dequeued := sys_dequeued s @ [x]\<rparr>))"

text \<open>A schedule says whose turn it is; a producer without an operation under way starts to enqueue the given element.\<close>

datatype 'a turn = Produce 'a | Consume

fun spsc_run :: "'a turn list \<Rightarrow> 'a spsc_system \<Rightarrow> 'a spsc_system option" where
  "spsc_run [] s = Some s"
| "spsc_run (Produce x # schedule) s = enqueue_step x s \<bind> spsc_run schedule"
| "spsc_run (Consume # schedule) s = dequeue_step s \<bind> spsc_run schedule"

definition spsc_start :: "'a WaitFreeSPSCQueue \<Rightarrow> 'a spsc_system" where
  "spsc_start q = \<lparr>sys_queue = q, sys_producer = Producer_Idle, sys_consumer = Consumer_Idle, sys_enqueued = [], sys_dequeued = []\<rparr>"

definition producer_ok :: "'a WaitFreeSPSCQueue \<Rightarrow> 'a producer_pc \<Rightarrow> bool" where
  "producer_ok q pc = (case pc of Producer_Idle \<Rightarrow> True
     | Producer_Writing _ \<Rightarrow> sq_length q < unat (sq_capacity q)
     | Producer_Publishing x \<Rightarrow> sq_length q < unat (sq_capacity q) \<and> sq_queue_array q ! unat (sq_tail_index q mod sq_capacity q) = x)"

definition consumer_ok :: "'a WaitFreeSPSCQueue \<Rightarrow> 'a consumer_pc \<Rightarrow> bool" where
  "consumer_ok q pc = (case pc of Consumer_Idle \<Rightarrow> True
     | Consumer_Reading \<Rightarrow> sq_contents q \<noteq> []
     | Consumer_Releasing x \<Rightarrow> sq_contents q \<noteq> [] \<and> hd (sq_contents q) = x)"

definition spsc_inv :: "'a spsc_system \<Rightarrow> bool" where
  "spsc_inv s \<longleftrightarrow> spsc_wf (sys_queue s) \<and> sys_enqueued s = sys_dequeued s @ sq_contents (sys_queue s) \<and>
     producer_ok (sys_queue s) (sys_producer s) \<and> consumer_ok (sys_queue s) (sys_consumer s)"

lemma sq_length_contents: "sq_length q = 0 \<longleftrightarrow> sq_contents q = []"
  by (metis length_0_conv length_sq_contents)

lemma enqueue_step_inv:
  assumes "spsc_inv s"
  shows "\<exists>s'. enqueue_step x s = Some s' \<and> spsc_inv s' \<and> sq_capacity (sys_queue s') = sq_capacity (sys_queue s)"
proof -
  define q where "q = sys_queue s"
  have inv: "spsc_wf q" "sys_enqueued s = sys_dequeued s @ sq_contents q" "producer_ok q (sys_producer s)" "consumer_ok q (sys_consumer s)"
    using assms by (simp_all add: spsc_inv_def q_def)
  note wf = spsc_ring_wf[OF inv(1)]
  show ?thesis
  proof (cases "sys_producer s")
    case Producer_Idle
    then show ?thesis
      using inv spsc_full_iff[OF inv(1)]
      by (cases "sq_length q = unat (sq_capacity q)") (auto simp: enqueue_step_def spsc_inv_def producer_ok_def q_def[symmetric] spsc_wf_def sq_length_def)
  next
    case (Producer_Writing y)
    have room: "sq_length q < unat (sq_capacity q)"
      using inv(3) Producer_Writing by (simp add: producer_ok_def)
    define q1 where "q1 = q\<lparr>sq_queue_array := (sq_queue_array q)[unat (sq_tail_index q mod sq_capacity q) := y]\<rparr>"
    have "enqueue_step x s = Some (s\<lparr>sys_queue := q1, sys_producer := Producer_Publishing y\<rparr>)"
      using Producer_Writing wf(2,3) by (simp add: enqueue_step_def q_def[symmetric] q1_def)
    moreover have q1: "spsc_wf q1" "sq_contents q1 = sq_contents q"
      using spsc_write_tail[OF inv(1) room] by (simp_all add: q1_def)
    moreover have "producer_ok q1 (Producer_Publishing y)"
      using room wf(3) by (simp add: producer_ok_def q1_def sq_length_def)
    moreover have "consumer_ok q1 (sys_consumer s)"
      using inv(4) unfolding consumer_ok_def q1(2) .
    ultimately show ?thesis
      using inv(2) by (simp add: spsc_inv_def q1_def q_def[symmetric])
  next
    case (Producer_Publishing y)
    have y: "sq_length q < unat (sq_capacity q)" "sq_queue_array q ! unat (sq_tail_index q mod sq_capacity q) = y"
      using inv(3) Producer_Publishing by (simp_all add: producer_ok_def)
    have "consumer_ok (q\<lparr>sq_tail_index := sq_tail_index q + 1\<rparr>) (sys_consumer s)"
      using inv(4) by (auto simp: consumer_ok_def spsc_publish[OF inv(1) y] split: consumer_pc.splits)
    then show ?thesis
      using Producer_Publishing inv(2) spsc_publish[OF inv(1) y]
      by (simp add: enqueue_step_def q_def[symmetric] spsc_inv_def producer_ok_def)
  qed
qed

lemma dequeue_step_inv:
  assumes "spsc_inv s"
  shows "\<exists>s'. dequeue_step s = Some s' \<and> spsc_inv s' \<and> sq_capacity (sys_queue s') = sq_capacity (sys_queue s)"
proof -
  define q where "q = sys_queue s"
  have inv: "spsc_wf q" "sys_enqueued s = sys_dequeued s @ sq_contents q" "producer_ok q (sys_producer s)" "consumer_ok q (sys_consumer s)"
    using assms by (simp_all add: spsc_inv_def q_def)
  note wf = spsc_ring_wf[OF inv(1)]
  show ?thesis
  proof (cases "sys_consumer s")
    case Consumer_Idle
    then show ?thesis
      using inv spsc_empty_iff[of q] sq_length_contents[of q]
      by (cases "sq_length q = 0") (auto simp: dequeue_step_def spsc_inv_def consumer_ok_def q_def[symmetric])
  next
    case Consumer_Reading
    then have "sq_length q \<noteq> 0"
      using inv(4) sq_length_contents[of q] by (simp add: consumer_ok_def)
    then show ?thesis
      using Consumer_Reading inv wf(2,3)[of "sq_head_index q"] spsc_release(2)[OF inv(1)]
      by (simp add: dequeue_step_def q_def[symmetric] spsc_inv_def consumer_ok_def)
  next
    case (Consumer_Releasing y)
    then have "sq_length q \<noteq> 0" and hd: "hd (sq_contents q) = y"
      using inv(4) sq_length_contents[of q] by (simp_all add: consumer_ok_def)
    note rel = spsc_release[OF inv(1) this(1)]
    define q1 where "q1 = q\<lparr>sq_head_index := sq_head_index q + 1\<rparr>"
    have q1: "spsc_wf q1" "sq_contents q = y # sq_contents q1" "sq_length q1 \<le> sq_length q"
      using rel hd length_sq_contents[of q] length_sq_contents[of q1] by (simp_all add: q1_def)
    have "producer_ok q1 (sys_producer s)"
      using inv(3) q1(3) by (auto simp: producer_ok_def q1_def split: producer_pc.splits)
    then show ?thesis
      using Consumer_Releasing inv(2) q1(1,2)
      by (simp add: dequeue_step_def q_def[symmetric] spsc_inv_def consumer_ok_def q1_def)
  qed
qed

lemma spsc_run_inv:
  "spsc_inv s \<Longrightarrow> \<exists>s'. spsc_run schedule s = Some s' \<and> spsc_inv s' \<and> sq_capacity (sys_queue s') = sq_capacity (sys_queue s)"
proof (induction schedule arbitrary: s)
  case (Cons turn schedule)
  show ?case
  proof (cases turn)
    case (Produce x)
    then show ?thesis
      using enqueue_step_inv[OF Cons.prems, of x] Cons.IH by fastforce
  next
    case Consume
    then show ?thesis
      using dequeue_step_inv[OF Cons.prems] Cons.IH by fastforce
  qed
qed simp

section \<open>Properties\<close>

text \<open>
  C14. One producer and one consumer without locks. On a new queue for any capacity up to \<open>2 ^ 63\<close>, in whichever order the single accesses of the two threads to the counters and to the
  array follow each other: no access is outside of the array, the elements that were dequeued are a prefix of those that were enqueued, in order and without loss or duplicates, and those that are missing
  are the content of the queue, at most as many as its capacity. This holds however often the 64-bit counters wrap around.
\<close>

theorem spsc_queue_keeps_order:
  assumes "\<forall>c. length (allocate c) = unat c" "unat capacity \<le> 2 ^ 63"
  shows "\<exists>q s. WaitFreeSPSCQueue_new allocate capacity = Some q \<and> unat capacity \<le> unat (GetCapacity q) \<and>
     spsc_run schedule (spsc_start q) = Some s \<and>
     sys_enqueued s = sys_dequeued s @ sq_contents (sys_queue s) \<and> length (sq_contents (sys_queue s)) \<le> unat (GetCapacity q)"
proof -
  obtain q where q: "WaitFreeSPSCQueue_new allocate capacity = Some q" "spsc_wf q" "sq_contents q = []" "unat capacity \<le> unat (GetCapacity q)"
    using spsc_new(1)[OF assms] by blast
  have "spsc_inv (spsc_start q)"
    using q(2,3) by (simp add: spsc_inv_def spsc_start_def producer_ok_def consumer_ok_def)
  then obtain s where s: "spsc_run schedule (spsc_start q) = Some s" "spsc_inv s" "sq_capacity (sys_queue s) = sq_capacity (sys_queue (spsc_start q))"
    using spsc_run_inv[of "spsc_start q" schedule] by blast
  have "spsc_wf (sys_queue s)" "sys_enqueued s = sys_dequeued s @ sq_contents (sys_queue s)"
    using s(2) by (simp_all add: spsc_inv_def)
  then show ?thesis
    using q(1,4) s(1,3) spsc.length_bound[of "sys_queue s"] by (auto simp: spsc_start_def GetCapacity_def)
qed

theorem spsc_queue_keeps_order_witness:
  "\<exists>q s. WaitFreeSPSCQueue_new (\<lambda>c. replicate (unat c) (0 :: nat)) 3 = Some q \<and> unat (3 :: u64) \<le> unat (GetCapacity q) \<and>
     spsc_run [Produce 7, Consume, Produce 0, Produce 0, Consume, Produce 8, Consume, Consume, Produce 0] (spsc_start q) = Some s \<and>
     sys_enqueued s = sys_dequeued s @ sq_contents (sys_queue s) \<and> length (sq_contents (sys_queue s)) \<le> unat (GetCapacity q)"
  by (rule spsc_queue_keeps_order) simp_all

text \<open>Used by one thread alone the queue is a bounded queue.\<close>

lemma spsc_fifo_law:
  assumes "spsc_wf q"
  shows "\<exists>ins outs q'. fifo_run TryEnqueue TryDequeue ops q = Some (ins, outs, q') \<and> spsc_wf q' \<and> sq_contents q @ ins = outs @ sq_contents q'"
  using spsc.fifo_law[OF assms, of ops] by auto

end
