(* ===== verification/Value_Pool.thy ===== *)
theory Value_Pool
  imports Prelude
begin

text \<open>
  What the value pools of the containers library promise to their users (the concept of a value pool in \<^verbatim>\<open>lock_free_tree_value_pool.h\<close>
  and \<^verbatim>\<open>wait_free_array_value_pool.h\<close>). A pool holds a range of values; \<^verbatim>\<open>Allocate\<close> takes one of them, with its index, and \<^verbatim>\<open>Free\<close> gives it back. Threads run at the same
  time: a turn of a thread is its next access to shared memory, and a turn of a thread without an operation under way starts
  the requested one. The locale \<open>value_pool\<close> is the contract: as long as the users only give back what they hold,
  no access is undefined, and a value that is taken is not held by anybody.
\<close>

datatype 'a pool_request = Allocate_Request | Free_Request nat 'a

text \<open>What a turn does as seen from outside: an \<^verbatim>\<open>Allocate\<close> returns with a value or without one, or a \<^verbatim>\<open>Free\<close> stores a value.\<close>

datatype 'a pool_event = Internal | Took nat 'a | Gave nat 'a | Refused

fun track :: "'a pool_event \<Rightarrow> (nat \<times> 'a) set \<Rightarrow> (nat \<times> 'a) set" where
  "track (Took i e) held = insert (i, e) held"
| "track (Gave i e) held = held - {(i, e)}"
| "track _ held = held"

text \<open>An event is sound if only values of the pool that nobody holds are taken, and only held ones given back.\<close>

definition sound_event :: "'a list \<Rightarrow> (nat \<times> 'a) set \<Rightarrow> 'a pool_event \<Rightarrow> bool" where
  "sound_event vals held ev = (case ev of
     Took i e \<Rightarrow> i < length vals \<and> e = vals ! i \<and> (\<forall>e'. (i, e') \<notin> held)
   | Gave i e \<Rightarrow> (i, e) \<in> held
   | _ \<Rightarrow> True)"

definition legal_request :: "(nat \<times> 'a) set \<Rightarrow> bool \<Rightarrow> 'a pool_request \<Rightarrow> bool" where
  "legal_request held idle r \<longleftrightarrow> (idle \<longrightarrow> (case r of Allocate_Request \<Rightarrow> True | Free_Request i e \<Rightarrow> (i, e) \<in> held))"

text \<open>
  The states that are reached from \<open>s0\<close>, with the values that are held there, when the first \<open>threads\<close> threads run and respect the contract.
\<close>

inductive pool_reach :: "(nat \<Rightarrow> 'a pool_request \<Rightarrow> 's \<Rightarrow> ('a pool_event \<times> 's) option) \<Rightarrow> (nat \<Rightarrow> 's \<Rightarrow> bool) \<Rightarrow> nat \<Rightarrow> 's \<Rightarrow> (nat \<times> 'a) set \<Rightarrow> 's \<Rightarrow> bool"
  for turn idle threads s0 where
  pool_start: "pool_reach turn idle threads s0 {} s0"
| pool_turn: "pool_reach turn idle threads s0 held s \<Longrightarrow> t < threads \<Longrightarrow> legal_request held (idle t s) r \<Longrightarrow> turn t r s = Some (ev, s') \<Longrightarrow>
    pool_reach turn idle threads s0 (track ev held) s'"

text \<open>Running a schedule of turns, with the events of the threads.\<close>

fun pool_run :: "(nat \<Rightarrow> 'a pool_request \<Rightarrow> 's \<Rightarrow> ('a pool_event \<times> 's) option) \<Rightarrow> (nat \<times> 'a pool_request) list \<Rightarrow> 's \<Rightarrow>
    ((nat \<times> 'a pool_event) list \<times> 's) option" where
  "pool_run turn [] s = Some ([], s)"
| "pool_run turn ((t, r) # schedule) s =
     do { (ev, s) \<leftarrow> turn t r s;
          (evs, s) \<leftarrow> pool_run turn schedule s;
          Some ((t, ev) # evs, s) }"

text \<open>The same while the contract is checked: \<open>None\<close> if a turn is not allowed or undefined.\<close>

fun pool_play :: "(nat \<Rightarrow> 'a pool_request \<Rightarrow> 's \<Rightarrow> ('a pool_event \<times> 's) option) \<Rightarrow> (nat \<Rightarrow> 's \<Rightarrow> bool) \<Rightarrow> nat \<Rightarrow>
    (nat \<times> 'a pool_request) list \<Rightarrow> (nat \<times> 'a) set \<Rightarrow> 's \<Rightarrow> ((nat \<times> 'a) set \<times> 's) option" where
  "pool_play turn idle threads [] held s = Some (held, s)"
| "pool_play turn idle threads ((t, r) # schedule) held s =
     (if t < threads \<and> legal_request held (idle t s) r
      then do { (ev, s) \<leftarrow> turn t r s; pool_play turn idle threads schedule (track ev held) s }
      else None)"

lemma pool_play_reach:
  "pool_play turn idle threads schedule held s = Some (held', s') \<Longrightarrow> pool_reach turn idle threads s0 held s \<Longrightarrow>
   pool_reach turn idle threads s0 held' s'"
proof (induction schedule arbitrary: held s)
  case (Cons a schedule)
  then show ?case
    by (cases a) (auto simp: bind_eq_Some_conv split: if_splits intro: pool_turn)
qed simp

text \<open>The cells of the values that are held are \<open>u\<close>, the others hold their values.\<close>

definition cells_ok :: "'a \<Rightarrow> 'a list \<Rightarrow> (nat \<times> 'a) set \<Rightarrow> 'a list \<Rightarrow> bool" where
  "cells_ok u vals held pool \<longleftrightarrow> length pool = length vals \<and> u \<notin> set vals \<and>
     (\<forall>i < length vals. pool ! i = (if (i, vals ! i) \<in> held then u else vals ! i)) \<and>
     (\<forall>(i, e) \<in> held. i < length vals \<and> e = vals ! i)"

lemma cells_take:
  assumes "cells_ok u vals held pool" "i < length vals" "pool ! i \<noteq> u"
  shows "cells_ok u vals (insert (i, vals ! i) held) (pool[i := u])" "\<forall>e'. (i, e') \<notin> held" "pool ! i = vals ! i"
  using assms by (auto simp: cells_ok_def nth_list_update split: if_splits)

lemma cells_give:
  assumes "cells_ok u vals held pool" "(i, e) \<in> held"
  shows "cells_ok u vals (held - {(i, e)}) (pool[i := e])" "i < length pool" "e \<noteq> u" "e = vals ! i"
  using assms by (auto simp: cells_ok_def nth_list_update)

locale value_pool =
  fixes turn :: "nat \<Rightarrow> 'a pool_request \<Rightarrow> 's \<Rightarrow> ('a pool_event \<times> 's) option"
    and idle :: "nat \<Rightarrow> 's \<Rightarrow> bool"
    and threads :: nat
    and vals :: "'s \<Rightarrow> 'a list"
    and inv :: "(nat \<times> 'a) set \<Rightarrow> 's \<Rightarrow> bool"
  assumes turn_law: "inv held s \<Longrightarrow> t < threads \<Longrightarrow> legal_request held (idle t s) r \<Longrightarrow>
      \<exists>ev s'. turn t r s = Some (ev, s') \<and> inv (track ev held) s' \<and> vals s' = vals s \<and> sound_event (vals s) held ev"
    and held_law: "inv held s \<Longrightarrow> (i, e) \<in> held \<Longrightarrow> i < length (vals s) \<and> e = vals s ! i"
begin

lemma reach_inv:
  assumes "inv {} s0" "pool_reach turn idle threads s0 held s"
  shows "inv held s \<and> vals s = vals s0"
  using assms(2)
proof (induction rule: pool_reach.induct)
  case pool_start
  then show ?case by (simp add: assms(1))
next
  case (pool_turn held s t r ev s')
  then show ?case
    using turn_law[of held s t r] by auto
qed

lemma turn_defined:
  assumes "inv {} s0" "pool_reach turn idle threads s0 held s" "t < threads" "legal_request held (idle t s) r"
  shows "\<exists>ev s'. turn t r s = Some (ev, s') \<and> sound_event (vals s0) held ev"
  using turn_law[OF conjunct1[OF reach_inv[OF assms(1,2)]] assms(3,4)] reach_inv[OF assms(1,2)] by auto

lemma held_at_most_once:
  assumes "inv {} s0" "pool_reach turn idle threads s0 held s"
  shows "inj_on fst held" "finite held" "card held \<le> length (vals s0)"
proof -
  note law = held_law[OF conjunct1[OF reach_inv[OF assms]]]
  show inj: "inj_on fst held"
    by (rule inj_onI) (metis law prod.collapse)
  have "fst ` held \<subseteq> {..<length (vals s0)}"
    using law reach_inv[OF assms] by auto
  then show "finite held" "card held \<le> length (vals s0)"
    using inj by (auto simp: card_image[symmetric] intro: inj_on_finite card_mono[of "{..<length (vals s0)}", simplified])
qed

end

text \<open>
  A finer contract for users that run whole operations: which operation a thread has under way, and with which event it ends.
\<close>

datatype pool_phase = Phase_Idle | Phase_Allocating | Phase_Freeing

definition phase_step :: "'a pool_request \<Rightarrow> pool_phase \<Rightarrow> 'a pool_event \<Rightarrow> pool_phase \<Rightarrow> bool" where
  "phase_step r ph ev ph' = (case ph of
     Phase_Idle \<Rightarrow> (case r of Allocate_Request \<Rightarrow> ev = Internal \<and> ph' = Phase_Allocating \<or> ev = Refused \<and> ph' = Phase_Idle
       | Free_Request i e \<Rightarrow> ev = Gave i e \<and> ph' \<noteq> Phase_Allocating)
   | Phase_Allocating \<Rightarrow> ev = Internal \<and> ph' = Phase_Allocating \<or> ev = Refused \<and> ph' = Phase_Idle \<or> (\<exists>i e. ev = Took i e) \<and> ph' = Phase_Idle
   | Phase_Freeing \<Rightarrow> ev = Internal \<and> ph' \<noteq> Phase_Allocating)"

locale phased_value_pool = value_pool +
  fixes phase :: "nat \<Rightarrow> 'b \<Rightarrow> pool_phase"
  assumes phase_idle: "idle t s \<longleftrightarrow> phase t s = Phase_Idle"
    and phase_law: "turn t r s = Some (ev, s') \<Longrightarrow> phase_step r (phase t s) ev (phase t s')"
    and phase_other: "turn t r s = Some (ev, s') \<Longrightarrow> t' \<noteq> t \<Longrightarrow> phase t' s' = phase t' s"

end
