(* ===== verification/Array_Value_Pool.thy ===== *)
theory Array_Value_Pool
  imports Value_Pool
begin

text \<open>
  The wait-free value pool (\<^verbatim>\<open>wait_free_array_value_pool-inl.h\<close>). \<^verbatim>\<open>Allocate\<close> walks through the array and tries to replace a value by \<^verbatim>\<open>Undefined\<close>
  with a compare-and-swap; \<^verbatim>\<open>Free\<close> writes the value back. Each load, store and compare-and-swap is a turn of its own. The pool
  is an instance of the contract \<open>value_pool\<close>, and an \<^verbatim>\<open>Allocate\<close> is over after two turns per element, whatever the other threads do.
\<close>

section \<open>The pool\<close>

record 'a WaitFreeArrayValuePool =
  wp_size :: nat
  wp_pool :: "'a list"

text \<open>The constructor stores the elements of the range in the array that the allocator gives for its length.\<close>

definition WaitFreeArrayValuePool_new :: "'a list \<Rightarrow> 'a WaitFreeArrayValuePool" where
  "WaitFreeArrayValuePool_new elements = \<lparr>wp_size = length elements, wp_pool = elements\<rparr>"

text \<open>
  Where a thread is in \<^verbatim>\<open>Allocate\<close>: before the load of element \<open>i\<close>, or before the compare-and-swap of element \<open>i\<close> with what it has loaded.
\<close>

datatype 'a array_pc = Array_Idle | Array_Loading nat | Array_Swapping nat 'a

record 'a array_pool =
  ap_that :: "'a WaitFreeArrayValuePool"
  ap_pc :: "nat \<Rightarrow> 'a array_pc"
  ap_values :: "'a list"

text \<open>The head of the loop, with the index that comes next.\<close>

definition array_loop :: "nat \<Rightarrow> nat \<Rightarrow> 'a array_pool \<Rightarrow> ('a pool_event \<times> 'a array_pool) option" where
  "array_loop t i s =
     (if i \<noteq> wp_size (ap_that s) then Some (Internal, s\<lparr>ap_pc := (ap_pc s)(t := Array_Loading i)\<rparr>)
      else Some (Refused, s\<lparr>ap_pc := (ap_pc s)(t := Array_Idle)\<rparr>))"

text \<open>\<open>undefined_value\<close> is the template parameter \<^verbatim>\<open>Undefined\<close>; \<^verbatim>\<open>Free\<close> asserts that it is not given back.\<close>

definition array_turn :: "'a \<Rightarrow> nat \<Rightarrow> 'a pool_request \<Rightarrow> 'a array_pool \<Rightarrow> ('a pool_event \<times> 'a array_pool) option" where
  "array_turn undefined_value t request s =
     (let that = ap_that s in
      case ap_pc s t of
        Array_Idle \<Rightarrow> (case request of
            Allocate_Request \<Rightarrow> array_loop t 0 s
          | Free_Request index element \<Rightarrow>
              if element = undefined_value then None
              else do {
                pool \<leftarrow> assign (wp_pool that) index element;
                Some (Gave index element, s\<lparr>ap_that := that\<lparr>wp_pool := pool\<rparr>\<rparr>) })
      | Array_Loading i \<Rightarrow> do {
          expected \<leftarrow> deref (wp_pool that) i;
          if undefined_value = expected then array_loop t (i + 1) s
          else Some (Internal, s\<lparr>ap_pc := (ap_pc s)(t := Array_Swapping i expected)\<rparr>) }
      | Array_Swapping i expected \<Rightarrow> do {
          current \<leftarrow> deref (wp_pool that) i;
          if current = expected then do {
            pool \<leftarrow> assign (wp_pool that) i undefined_value;
            Some (Took i expected, s\<lparr>ap_that := that\<lparr>wp_pool := pool\<rparr>, ap_pc := (ap_pc s)(t := Array_Idle)\<rparr>) }
          else array_loop t (i + 1) s })"

definition array_idle :: "nat \<Rightarrow> 'a array_pool \<Rightarrow> bool" where
  "array_idle t s = (case ap_pc s t of Array_Idle \<Rightarrow> True | _ \<Rightarrow> False)"

definition array_start :: "'a list \<Rightarrow> 'a array_pool" where
  "array_start elements = \<lparr>ap_that = WaitFreeArrayValuePool_new elements, ap_pc = (\<lambda>_. Array_Idle), ap_values = elements\<rparr>"

section \<open>The contract\<close>

definition array_pc_ok :: "'a list \<Rightarrow> 'a array_pc \<Rightarrow> bool" where
  "array_pc_ok vals pc = (case pc of Array_Idle \<Rightarrow> True | Array_Loading i \<Rightarrow> i < length vals
     | Array_Swapping i e \<Rightarrow> i < length vals \<and> e = vals ! i)"

lemma array_pc_ok_simps [simp]:
  "array_pc_ok vals Array_Idle" "array_pc_ok vals (Array_Loading i) = (i < length vals)"
  "array_pc_ok vals (Array_Swapping i e) = (i < length vals \<and> e = vals ! i)"
  by (simp_all add: array_pc_ok_def)

definition array_inv :: "'a \<Rightarrow> (nat \<times> 'a) set \<Rightarrow> 'a array_pool \<Rightarrow> bool" where
  "array_inv u held s \<longleftrightarrow> wp_size (ap_that s) = length (ap_values s) \<and> cells_ok u (ap_values s) held (wp_pool (ap_that s)) \<and>
     (\<forall>t. array_pc_ok (ap_values s) (ap_pc s t))"

lemma array_loop_inv:
  assumes "array_inv u held s" "i \<le> length (ap_values s)"
  shows "\<exists>ev s'. array_loop t i s = Some (ev, s') \<and> array_inv u (track ev held) s' \<and> ap_values s' = ap_values s \<and> sound_event (ap_values s) held ev"
  using assms by (auto simp: array_loop_def array_inv_def sound_event_def)

lemma array_turn_law:
  assumes inv: "array_inv u held s" and legal: "legal_request held (array_idle t s) r"
  shows "\<exists>ev s'. array_turn u t r s = Some (ev, s') \<and> array_inv u (track ev held) s' \<and> ap_values s' = ap_values s \<and> sound_event (ap_values s) held ev"
proof -
  define vals pool where "vals = ap_values s" and "pool = wp_pool (ap_that s)"
  have cells: "cells_ok u vals held pool" "length pool = length vals" and pc: "array_pc_ok vals (ap_pc s t)"
    using inv by (simp_all add: array_inv_def cells_ok_def vals_def pool_def)
  note loop = array_loop_inv[OF inv, of _ t, folded vals_def]
  show ?thesis
  proof (cases "ap_pc s t")
    case Array_Idle
    show ?thesis
    proof (cases r)
      case Allocate_Request
      then show ?thesis
        using Array_Idle loop[OF le0] by (simp add: array_turn_def vals_def)
    next
      case (Free_Request i e)
      then have "(i, e) \<in> held"
        using legal Array_Idle by (simp add: legal_request_def array_idle_def)
      note give = cells_give[OF cells(1) this]
      then show ?thesis
        using Array_Idle Free_Request inv \<open>(i, e) \<in> held\<close>
        by (simp add: array_turn_def array_inv_def sound_event_def Let_def flip: vals_def pool_def)
    qed
  next
    case (Array_Loading i)
    then have i: "i < length vals" "i < length pool"
      using pc cells(2) by simp_all
    show ?thesis
    proof (cases "u = pool ! i")
      case True
      then show ?thesis
        using Array_Loading i loop[of "i + 1"] by (simp add: array_turn_def flip: vals_def pool_def)
    next
      case False
      then have "pool ! i = vals ! i"
        using cells_take(3)[OF cells(1) i(1)] by simp
      then show ?thesis
        using Array_Loading i inv False by (simp add: array_turn_def array_inv_def sound_event_def flip: vals_def pool_def)
    qed
  next
    case (Array_Swapping i e)
    then have i: "i < length vals" "e = vals ! i" "i < length pool"
      using pc cells(2) by simp_all
    show ?thesis
    proof (cases "pool ! i = e")
      case True
      moreover have "u \<notin> set vals"
        using cells(1) by (simp add: cells_ok_def)
      ultimately have "pool ! i \<noteq> u"
        using i(1,2) by auto
      from cells_take[OF cells(1) i(1) this] show ?thesis
        using Array_Swapping True i inv by (simp add: array_turn_def array_inv_def sound_event_def Let_def flip: vals_def pool_def)
    next
      case False
      then show ?thesis
        using Array_Swapping i loop[of "i + 1"] by (simp add: array_turn_def flip: vals_def pool_def)
    qed
  qed
qed

interpretation array_pool: value_pool "array_turn u" array_idle threads ap_values "array_inv u" for u threads
proof (unfold_locales, goal_cases)
  case (1 held s t r)
  then show ?case by (intro array_turn_law)
next
  case (2 held s i e)
  then show ?case by (auto simp: array_inv_def cells_ok_def)
qed

definition array_phase :: "nat \<Rightarrow> 'a array_pool \<Rightarrow> pool_phase" where
  "array_phase t s = (case ap_pc s t of Array_Idle \<Rightarrow> Phase_Idle | _ \<Rightarrow> Phase_Allocating)"

lemma array_loop_phase:
  "array_loop t i s = Some (ev, s') \<Longrightarrow> (ev = Internal \<and> array_phase t s' = Phase_Allocating \<or> ev = Refused \<and> array_phase t s' = Phase_Idle) \<and>
    (\<forall>t'. t' \<noteq> t \<longrightarrow> array_phase t' s' = array_phase t' s)"
  by (auto simp: array_loop_def array_phase_def split: if_splits)

lemma array_turn_phase:
  assumes "array_turn u t r s = Some (ev, s')"
  shows "phase_step r (array_phase t s) ev (array_phase t s') \<and> (\<forall>t'. t' \<noteq> t \<longrightarrow> array_phase t' s' = array_phase t' s)"
proof (cases "ap_pc s t")
  case Array_Idle
  then have "array_phase t s = Phase_Idle"
    by (simp add: array_phase_def)
  then show ?thesis
    using assms Array_Idle array_loop_phase[of t 0 s ev s']
    by (cases r) (auto simp: array_turn_def phase_step_def array_phase_def Let_def bind_eq_Some_conv split: if_splits)
next
  case (Array_Loading i)
  then have "array_phase t s = Phase_Allocating"
    by (simp add: array_phase_def)
  then show ?thesis
    using assms Array_Loading array_loop_phase[of t "i + 1" s ev s']
    by (auto simp: array_turn_def phase_step_def array_phase_def Let_def bind_eq_Some_conv split: if_splits)
next
  case (Array_Swapping i e)
  then have "array_phase t s = Phase_Allocating"
    by (simp add: array_phase_def)
  then show ?thesis
    using assms Array_Swapping array_loop_phase[of t "i + 1" s ev s']
    by (auto simp: array_turn_def phase_step_def array_phase_def Let_def bind_eq_Some_conv split: if_splits)
qed

interpretation array_pool: phased_value_pool "array_turn u" array_idle threads ap_values "array_inv u" array_phase for u threads
proof (unfold_locales, goal_cases)
  case (1 t s)
  then show ?case by (simp add: array_idle_def array_phase_def split: array_pc.splits)
next
  case (2 t r s ev s')
  then show ?case by (rule array_turn_phase[THEN conjunct1])
next
  case (3 t r s ev s' t')
  then show ?case by (intro array_turn_phase[THEN conjunct2, rule_format])
qed

lemma array_start_inv: "u \<notin> set elements \<Longrightarrow> array_inv u {} (array_start elements)"
  by (simp add: array_inv_def cells_ok_def array_start_def WaitFreeArrayValuePool_new_def)

section \<open>Wait-freedom\<close>

text \<open>How many turns a thread has left in \<^verbatim>\<open>Allocate\<close>, at most.\<close>

definition turns_left :: "nat \<Rightarrow> 'a array_pc \<Rightarrow> nat" where
  "turns_left n pc = (case pc of Array_Idle \<Rightarrow> 0 | Array_Loading i \<Rightarrow> 2 * (n - i) | Array_Swapping i e \<Rightarrow> 2 * (n - i) - 1)"

definition array_sized :: "nat \<Rightarrow> 'a array_pool \<Rightarrow> bool" where
  "array_sized n s \<longleftrightarrow> wp_size (ap_that s) = n \<and> length (wp_pool (ap_that s)) = n"

definition returned :: "'a pool_event \<Rightarrow> bool" where
  "returned ev = (case ev of Took i e \<Rightarrow> True | Refused \<Rightarrow> True | _ \<Rightarrow> False)"

lemma array_loop_left:
  assumes "array_loop t i s = Some (ev, s')" "array_sized n s" "i \<le> n"
  shows "array_sized n s' \<and> (returned ev \<or> 0 < turns_left n (ap_pc s' t) \<and> turns_left n (ap_pc s' t) = 2 * (n - i)) \<and> (\<forall>t'. t' \<noteq> t \<longrightarrow> ap_pc s' t' = ap_pc s t')"
  using assms by (auto simp: array_loop_def array_sized_def returned_def turns_left_def split: if_splits)

lemma array_turn_left:
  assumes turn: "array_turn u t r s = Some (ev, s')" and sized: "array_sized n s"
  shows "array_sized n s' \<and> (\<forall>t'. t' \<noteq> t \<longrightarrow> ap_pc s' t' = ap_pc s t') \<and>
    (0 < turns_left n (ap_pc s t) \<longrightarrow> returned ev \<or> 0 < turns_left n (ap_pc s' t) \<and> turns_left n (ap_pc s' t) < turns_left n (ap_pc s t))"
proof (cases "ap_pc s t")
  case Array_Idle
  then show ?thesis
    using turn sized array_loop_left[OF _ sized le0, of t ev s']
    by (cases r) (auto simp: array_turn_def turns_left_def array_sized_def Let_def assign_def split: if_splits)
next
  case (Array_Loading i)
  then have i: "i < n"
    using turn sized by (auto simp: array_turn_def array_sized_def deref_eq_Some_iff bind_eq_Some_conv Let_def)
  show ?thesis
  proof (cases "u = wp_pool (ap_that s) ! i")
    case True
    then have "array_loop t (i + 1) s = Some (ev, s')"
      using turn Array_Loading i sized by (simp add: array_turn_def array_sized_def)
    from array_loop_left[OF this sized] show ?thesis
      using Array_Loading i by (auto simp: turns_left_def)
  next
    case False
    then show ?thesis
      using turn Array_Loading i sized by (auto simp: array_turn_def array_sized_def turns_left_def)
  qed
next
  case (Array_Swapping i e)
  then have i: "i < n"
    using turn sized by (auto simp: array_turn_def array_sized_def deref_eq_Some_iff bind_eq_Some_conv Let_def)
  show ?thesis
  proof (cases "wp_pool (ap_that s) ! i = e")
    case True
    then show ?thesis
      using turn Array_Swapping i sized by (auto simp: array_turn_def array_sized_def returned_def Let_def)
  next
    case False
    then have "array_loop t (i + 1) s = Some (ev, s')"
      using turn Array_Swapping i sized by (simp add: array_turn_def array_sized_def)
    from array_loop_left[OF this sized] show ?thesis
      using Array_Swapping i by (auto simp: turns_left_def)
  qed
qed

definition turns_of :: "nat \<Rightarrow> (nat \<times> 'a pool_request) list \<Rightarrow> nat" where
  "turns_of t schedule = length (filter (\<lambda>(t', r). t' = t) schedule)"

lemma array_run_returns:
  assumes "pool_run (array_turn u) schedule s = Some (evs, s')" "array_sized n s"
    and "0 < turns_left n (ap_pc s t)" "turns_left n (ap_pc s t) \<le> turns_of t schedule"
  shows "\<exists>ev. (t, ev) \<in> set evs \<and> returned ev"
  using assms
proof (induction schedule arbitrary: s evs)
  case Nil
  then show ?case by (simp add: turns_of_def)
next
  case (Cons a schedule)
  obtain t1 r where a: "a = (t1, r)"
    by (cases a)
  then obtain ev s1 evs1 where s1: "array_turn u t1 r s = Some (ev, s1)" "pool_run (array_turn u) schedule s1 = Some (evs1, s')" "evs = (t1, ev) # evs1"
    using Cons.prems(1) by (auto simp: bind_eq_Some_conv)
  note left = array_turn_left[OF s1(1) Cons.prems(2)]
  show ?case
  proof (cases "t1 = t \<and> returned ev")
    case True
    then show ?thesis
      using s1(3) by auto
  next
    case False
    then have "0 < turns_left n (ap_pc s1 t)" "turns_left n (ap_pc s1 t) \<le> turns_of t schedule"
      using left Cons.prems(3,4) by (cases "t1 = t"; force simp: a turns_of_def)+
    then show ?thesis
      using Cons.IH[OF s1(2)] left s1(3) by auto
  qed
qed

section \<open>Properties\<close>

text \<open>
  C15. Nobody gets a value that another one holds. However the turns of the threads of a pool without \<^verbatim>\<open>Undefined\<close> among its values follow each other, as long as only held values are given
  back: every turn is defined, a value that is taken belongs to its index and is held by nobody, the values that are held are told apart by their indices, and no value is
  lost: every cell that is not held contains its value.
\<close>

theorem array_pool_exclusive:
  assumes "Undefined \<notin> set elements" "pool_reach (array_turn Undefined) array_idle threads (array_start elements) held s"
    and "t < threads" "legal_request held (array_idle t s) request"
  shows "\<exists>ev s'. array_turn Undefined t request s = Some (ev, s') \<and>
     (\<forall>i e. ev = Took i e \<longrightarrow> i < length elements \<and> e = elements ! i \<and> (\<forall>e'. (i, e') \<notin> held)) \<and>
     inj_on fst held \<and> card held \<le> length elements \<and>
     (\<forall>i < length elements. wp_pool (ap_that s) ! i = (if (i, elements ! i) \<in> held then Undefined else elements ! i))"
proof -
  note start = array_start_inv[OF assms(1)]
  have vals: "ap_values (array_start elements) = elements"
    by (simp add: array_start_def)
  have "array_inv Undefined held s" "ap_values s = elements"
    using array_pool.reach_inv[OF start assms(2)] vals by simp_all
  then have "\<forall>i < length elements. wp_pool (ap_that s) ! i = (if (i, elements ! i) \<in> held then Undefined else elements ! i)"
    by (simp add: array_inv_def cells_ok_def)
  moreover obtain ev s' where "array_turn Undefined t request s = Some (ev, s')" "sound_event elements held ev"
    using array_pool.turn_defined[OF start assms(2-4)] vals by auto
  ultimately show ?thesis
    using array_pool.held_at_most_once[OF start assms(2)] vals by (auto simp: sound_event_def)
qed

theorem array_pool_exclusive_witness:
  "\<exists>s. pool_reach (array_turn 0) array_idle 2 (array_start [5, 7 :: nat]) {(0, 5)} s \<and>
     (\<exists>ev s'. array_turn 0 0 (Free_Request 0 5) s = Some (ev, s')) \<and> inj_on fst {(0 :: nat, 5 :: nat)} \<and> wp_pool (ap_that s) ! 0 = 0 \<and> wp_pool (ap_that s) ! 1 = 7"
proof -
  let ?start = "array_start [5, 7 :: nat]"
  obtain s where s: "pool_play (array_turn 0) array_idle 2 [(0, Allocate_Request), (0, Allocate_Request), (1, Allocate_Request), (0, Allocate_Request)] {} ?start = Some ({(0, 5)}, s)"
    "array_idle 0 s"
    by (simp add: array_turn_def array_loop_def array_start_def WaitFreeArrayValuePool_new_def array_idle_def legal_request_def)
  have reach: "pool_reach (array_turn 0) array_idle 2 ?start {(0, 5)} s"
    by (rule pool_play_reach[OF s(1) pool_start])
  have "legal_request {(0 :: nat, 5 :: nat)} (array_idle 0 s) (Free_Request 0 5)"
    by (simp add: legal_request_def)
  have "0 \<notin> set [5, 7 :: nat]" "(0 :: nat) < 2"
    by simp_all
  note facts = array_pool_exclusive[OF this(1) reach this(2) \<open>legal_request {(0, 5)} (array_idle 0 s) (Free_Request 0 5)\<close>]
  have "\<forall>i < length [5, 7 :: nat]. wp_pool (ap_that s) ! i = (if (i, [5, 7 :: nat] ! i) \<in> {(0, 5)} then 0 else [5, 7 :: nat] ! i)"
    using facts by blast
  from spec[OF this, of 0] spec[OF this, of 1] have "wp_pool (ap_that s) ! 0 = 0" "wp_pool (ap_that s) ! 1 = 7"
    by simp_all
  moreover have "\<exists>ev s'. array_turn 0 0 (Free_Request 0 5) s = Some (ev, s')" "inj_on fst {(0 :: nat, 5 :: nat)}"
    using facts by auto
  ultimately show ?thesis
    using reach by blast
qed

text \<open>
  C18. Allocation is wait-free. From any state that was reached, a thread that starts an \<^verbatim>\<open>Allocate\<close> and gets two turns per element of the pool after that has returned, whatever the
  turns of the other threads in between do.
\<close>

theorem array_pool_wait_free:
  assumes "Undefined \<notin> set elements" "pool_reach (array_turn Undefined) array_idle threads (array_start elements) held s" "array_idle t s"
    and "pool_run (array_turn Undefined) ((t, Allocate_Request) # schedule) s = Some (evs, s')" "2 * length elements \<le> turns_of t schedule"
  shows "\<exists>ev. (t, ev) \<in> set evs \<and> returned ev"
proof -
  have sized: "array_sized (length elements) s"
    using array_pool.reach_inv[OF array_start_inv[OF assms(1)] assms(2)] by (simp add: array_inv_def cells_ok_def array_sized_def array_start_def)
  obtain ev s1 evs1 where s1: "array_turn Undefined t Allocate_Request s = Some (ev, s1)" "pool_run (array_turn Undefined) schedule s1 = Some (evs1, s')"
      "evs = (t, ev) # evs1"
    using assms(4) by (auto simp: bind_eq_Some_conv)
  have "array_loop t 0 s = Some (ev, s1)"
    using s1(1) assms(3) by (simp add: array_turn_def array_idle_def split: array_pc.splits)
  from array_loop_left[OF this sized le0] consider "returned ev" | "array_sized (length elements) s1" "0 < turns_left (length elements) (ap_pc s1 t)"
      "turns_left (length elements) (ap_pc s1 t) \<le> turns_of t schedule"
    using assms(5) by fastforce
  then show ?thesis
  proof cases
    case 1
    then show ?thesis
      using s1(3) by auto
  next
    case 2
    then show ?thesis
      using array_run_returns[OF s1(2)] s1(3) by auto
  qed
qed

theorem array_pool_wait_free_witness:
  "\<exists>evs s' ev. pool_run (array_turn 0) ((0, Allocate_Request) # [(0, Allocate_Request), (1, Allocate_Request), (1, Allocate_Request), (1, Allocate_Request), (0, Allocate_Request)])
       (array_start [5 :: nat]) = Some (evs, s') \<and> (0, ev) \<in> set evs \<and> returned ev"
proof -
  let ?schedule = "[(0, Allocate_Request), (1, Allocate_Request), (1, Allocate_Request), (1, Allocate_Request), (0, Allocate_Request :: nat pool_request)]"
  obtain evs s' where run: "pool_run (array_turn 0) ((0, Allocate_Request) # ?schedule) (array_start [5 :: nat]) = Some (evs, s')"
    by (simp add: array_turn_def array_loop_def array_start_def WaitFreeArrayValuePool_new_def)
  have "2 * length [5 :: nat] \<le> turns_of 0 ?schedule"
    by (simp add: turns_of_def)
  from array_pool_wait_free[OF _ pool_start[where threads = 2] _ run this] run show ?thesis
    by (auto simp: array_idle_def array_start_def)
qed

end
