(* ===== verification/Tree_Value_Pool.thy ===== *)
theory Tree_Value_Pool
  imports Value_Pool
begin

text \<open>
  The lock-free value pool (\<^verbatim>\<open>lock_free_tree_value_pool-inl.h\<close>). The values are the leaves of a complete binary tree whose inner nodes, in an array, count the values
  below them. \<^verbatim>\<open>Allocate\<close> decrements the counters on its way from the root to a leaf, trying the left child before the right one; \<^verbatim>\<open>Free\<close> stores the value and
  increments the counters on the way to the root. Each load, store, compare-and-swap and fetch-and-add is a turn of its own. Assertions are modelled: \<open>None\<close> is an assertion that
  fails, an access outside of an array, or a read of a counter that was never written. This theory holds the pool and its construction; \<^verbatim>\<open>Tree_Pool_Contract\<close> shows the contract.
\<close>

section \<open>The pool\<close>

record 'a LockFreeTreeValuePool =
  tp_size :: nat
  tp_real_size :: nat
  tp_tree :: "int option list"
  tp_pool :: "'a list"

text \<open>The power of two is an \<^verbatim>\<open>int\<close>, whose shift must not overflow.\<close>

partial_function (option) power_loop :: "nat \<Rightarrow> nat \<Rightarrow> nat option" where
  [code]: "power_loop value result =
     (if result < value then (if 2 * result < 2 ^ 31 then power_loop value (2 * result) else None) else Some result)"

definition GetSmallestPowerByTwoValue :: "nat \<Rightarrow> nat option" where
  "GetSmallestPowerByTwoValue value = power_loop value 1"

definition IsLeaf :: "'a LockFreeTreeValuePool \<Rightarrow> nat \<Rightarrow> bool" where
  "IsLeaf that node = (if tp_size that - 1 \<le> node \<and> node \<le> 2 * tp_size that - 1 then True else False)"

definition IsValid :: "'a LockFreeTreeValuePool \<Rightarrow> nat \<Rightarrow> bool" where
  "IsValid that node = (node \<le> 2 * tp_size that - 1)"

definition GetLeftChildIndex :: "'a LockFreeTreeValuePool \<Rightarrow> nat \<Rightarrow> nat option" where
  "GetLeftChildIndex that node = (let index = 2 * node + 1 in if IsValid that index then Some index else None)"

definition GetRightChildIndex :: "'a LockFreeTreeValuePool \<Rightarrow> nat \<Rightarrow> nat option" where
  "GetRightChildIndex that node = (let index = 2 * node + 2 in if IsValid that index then Some index else None)"

definition NodeIndexToPoolIndex :: "'a LockFreeTreeValuePool \<Rightarrow> nat \<Rightarrow> nat option" where
  "NodeIndexToPoolIndex that node = (if IsLeaf that node then Some (node - (tp_size that - 1)) else None)"

definition PoolIndexToNodeIndex :: "'a LockFreeTreeValuePool \<Rightarrow> nat \<Rightarrow> nat option" where
  "PoolIndexToNodeIndex that index = (let node = index + (tp_size that - 1) in if IsLeaf that node then Some node else None)"

definition IsRoot :: "nat \<Rightarrow> bool" where
  "IsRoot node = (0 = node)"

definition GetParentNode :: "'a LockFreeTreeValuePool \<Rightarrow> nat \<Rightarrow> nat option" where
  "GetParentNode that node = (let parent = (node - 1) div 2 in if parent < tp_size that - 1 then Some parent else None)"

partial_function (option) Fill :: "'a LockFreeTreeValuePool \<Rightarrow> nat \<Rightarrow> nat \<Rightarrow> nat \<Rightarrow> int option list \<Rightarrow> int option list option" where
  [code]: "Fill that node elementsToStore power2Value tree =
     (if IsLeaf that node then Some tree
      else do {
        tree \<leftarrow> assign tree node (Some (int elementsToStore));
        let postPower2Value = power2Value div 2;
        left \<leftarrow> GetLeftChildIndex that node;
        if elementsToStore \<le> postPower2Value then Fill that left elementsToStore postPower2Value tree
        else do {
          tree \<leftarrow> Fill that left postPower2Value postPower2Value tree;
          right \<leftarrow> GetRightChildIndex that node;
          Fill that right (elementsToStore - postPower2Value) postPower2Value tree } })"

text \<open>
  The counters start out uninitialised. With more than \<open>2 ^ 29\<close> values the size is at least \<open>2 ^ 30\<close>, and \<^verbatim>\<open>2 * size - 1\<close> in \<^verbatim>\<open>IsLeaf\<close> overflows.
\<close>

definition LockFreeTreeValuePool_new :: "'a list \<Rightarrow> 'a LockFreeTreeValuePool option" where
  "LockFreeTreeValuePool_new elements =
     (if 2 ^ 29 < length elements then None
      else do {
        sz \<leftarrow> GetSmallestPowerByTwoValue (length elements);
        let that = \<lparr>tp_size = sz, tp_real_size = length elements, tp_tree = replicate (sz - 1) None, tp_pool = elements\<rparr>;
        tree \<leftarrow> Fill that 0 (length elements) sz (tp_tree that);
        Some (that\<lparr>tp_tree := tree\<rparr>) })"

section \<open>Allocating and freeing\<close>

text \<open>
  The recursive calls of \<^verbatim>\<open>allocate_rec\<close> that a thread is in: the call for a node waits for the call for its left child or its right child.
  A thread is before the first load in the call for a node, before the compare-and-swap of a counter, before the compare-and-swap
  of a value, or, in \<^verbatim>\<open>Free\<close>, before the fetch-and-add on the parent of a node.
\<close>

datatype frame = In_Left nat | In_Right nat

datatype 'a tree_pc = Tree_Idle | Tree_Enter nat "frame list" | Tree_Swap nat int "frame list" | Leaf_Swap nat 'a "frame list" | Tree_Up nat

record 'a tree_pool =
  tr_that :: "'a LockFreeTreeValuePool"
  tr_pc :: "nat \<Rightarrow> 'a tree_pc"
  tr_values :: "'a list"

definition tree_goto :: "nat \<Rightarrow> 'a tree_pc \<Rightarrow> 'a tree_pool \<Rightarrow> 'a tree_pool" where
  "tree_goto t pc s = s\<lparr>tr_pc := (tr_pc s)(t := pc)\<rparr>"

text \<open>
  A call returns -1: to the caller, which tries the right child, or asserts that the right child did not fail, or to the user.
\<close>

fun tree_fail :: "nat \<Rightarrow> frame list \<Rightarrow> 'a tree_pool \<Rightarrow> ('a pool_event \<times> 'a tree_pool) option" where
  "tree_fail t [] s = Some (Refused, tree_goto t Tree_Idle s)"
| "tree_fail t (In_Left node # frames) s =
     do { right \<leftarrow> GetRightChildIndex (tr_that s) node;
          Some (Internal, tree_goto t (Tree_Enter right (In_Right node # frames)) s) }"
| "tree_fail t (In_Right node # frames) s = None"

definition read_counter :: "'a LockFreeTreeValuePool \<Rightarrow> nat \<Rightarrow> int option" where
  "read_counter that node = do { counter \<leftarrow> deref (tp_tree that) node; counter }"

definition write_counter :: "'a LockFreeTreeValuePool \<Rightarrow> nat \<Rightarrow> int \<Rightarrow> 'a LockFreeTreeValuePool option" where
  "write_counter that node counter = do { tree \<leftarrow> assign (tp_tree that) node (Some counter); Some (that\<lparr>tp_tree := tree\<rparr>) }"

text \<open>One turn in \<^verbatim>\<open>allocate_rec\<close>. When a leaf is taken, all calls return its index.\<close>

definition allocate_rec :: "'a \<Rightarrow> nat \<Rightarrow> nat \<Rightarrow> frame list \<Rightarrow> 'a tree_pool \<Rightarrow> ('a pool_event \<times> 'a tree_pool) option" where
  "allocate_rec undefined_value t node frames s =
     (let that = tr_that s in
      if IsLeaf that node then do {
        pool_index \<leftarrow> NodeIndexToPoolIndex that node;
        expected \<leftarrow> deref (tp_pool that) pool_index;
        if expected = undefined_value then tree_fail t frames s
        else Some (Internal, tree_goto t (Leaf_Swap pool_index expected frames) s) }
      else do {
        current \<leftarrow> read_counter that node;
        let desired = current - 1;
        if desired < 0 then tree_fail t frames s
        else Some (Internal, tree_goto t (Tree_Swap node current frames) s) })"

definition allocate_swap :: "nat \<Rightarrow> nat \<Rightarrow> int \<Rightarrow> frame list \<Rightarrow> 'a tree_pool \<Rightarrow> ('a pool_event \<times> 'a tree_pool) option" where
  "allocate_swap t node current frames s = do {
     v \<leftarrow> read_counter (tr_that s) node;
     if v = current then do {
       that \<leftarrow> write_counter (tr_that s) node (current - 1);
       left \<leftarrow> GetLeftChildIndex that node;
       Some (Internal, tree_goto t (Tree_Enter left (In_Left node # frames)) (s\<lparr>tr_that := that\<rparr>)) }
     else Some (Internal, tree_goto t (Tree_Enter node frames) s) }"

definition allocate_take :: "'a \<Rightarrow> nat \<Rightarrow> nat \<Rightarrow> 'a \<Rightarrow> frame list \<Rightarrow> 'a tree_pool \<Rightarrow> ('a pool_event \<times> 'a tree_pool) option" where
  "allocate_take undefined_value t pool_index expected frames s =
     (let that = tr_that s in do {
       v \<leftarrow> deref (tp_pool that) pool_index;
       if v = expected then do {
         pool \<leftarrow> assign (tp_pool that) pool_index undefined_value;
         Some (Took pool_index expected, tree_goto t Tree_Idle (s\<lparr>tr_that := that\<lparr>tp_pool := pool\<rparr>\<rparr>)) }
       else tree_fail t frames s })"

text \<open>The head of the loop in \<^verbatim>\<open>Free\<close>.\<close>

definition free_loop :: "nat \<Rightarrow> nat \<Rightarrow> 'a tree_pool \<Rightarrow> 'a tree_pool" where
  "free_loop t node s = tree_goto t (if \<not> IsRoot node then Tree_Up node else Tree_Idle) s"

definition free_store :: "'a \<Rightarrow> nat \<Rightarrow> nat \<Rightarrow> 'a \<Rightarrow> 'a tree_pool \<Rightarrow> ('a pool_event \<times> 'a tree_pool) option" where
  "free_store undefined_value t index element s =
     (let that = tr_that s in
      if element = undefined_value then None
      else do {
        pool \<leftarrow> assign (tp_pool that) index element;
        if index < tp_size that then do {
          node \<leftarrow> PoolIndexToNodeIndex that index;
          Some (Gave index element, free_loop t node (s\<lparr>tr_that := that\<lparr>tp_pool := pool\<rparr>\<rparr>)) }
        else None })"

definition free_climb :: "nat \<Rightarrow> nat \<Rightarrow> 'a tree_pool \<Rightarrow> ('a pool_event \<times> 'a tree_pool) option" where
  "free_climb t node s = do {
     parent \<leftarrow> GetParentNode (tr_that s) node;
     counter \<leftarrow> read_counter (tr_that s) parent;
     that \<leftarrow> write_counter (tr_that s) parent (counter + 1);
     Some (Internal, free_loop t parent (s\<lparr>tr_that := that\<rparr>)) }"

definition tree_turn :: "'a \<Rightarrow> nat \<Rightarrow> 'a pool_request \<Rightarrow> 'a tree_pool \<Rightarrow> ('a pool_event \<times> 'a tree_pool) option" where
  "tree_turn undefined_value t request s =
     (case tr_pc s t of
        Tree_Idle \<Rightarrow> (case request of
            Allocate_Request \<Rightarrow> Some (Internal, tree_goto t (Tree_Enter 0 []) s)
          | Free_Request index element \<Rightarrow> free_store undefined_value t index element s)
      | Tree_Enter node frames \<Rightarrow> allocate_rec undefined_value t node frames s
      | Tree_Swap node current frames \<Rightarrow> allocate_swap t node current frames s
      | Leaf_Swap pool_index expected frames \<Rightarrow> allocate_take undefined_value t pool_index expected frames s
      | Tree_Up node \<Rightarrow> free_climb t node s)"

definition tree_idle :: "nat \<Rightarrow> 'a tree_pool \<Rightarrow> bool" where
  "tree_idle t s = (case tr_pc s t of Tree_Idle \<Rightarrow> True | _ \<Rightarrow> False)"

definition tree_start :: "'a LockFreeTreeValuePool \<Rightarrow> 'a list \<Rightarrow> 'a tree_pool" where
  "tree_start that elements = \<lparr>tr_that = that, tr_pc = (\<lambda>_. Tree_Idle), tr_values = elements\<rparr>"

section \<open>The power of two\<close>

lemma power_loop_returns:
  assumes "value \<le> 2 ^ 30" "k \<le> 30"
  shows "\<exists>j. k \<le> j \<and> j \<le> 30 \<and> power_loop value (2 ^ k) = Some (2 ^ j) \<and> value \<le> 2 ^ j \<and> (j = k \<or> 2 ^ (j - 1) < value)"
  using assms(2)
proof (induction "30 - k" arbitrary: k)
  case 0
  then have "k = 30"
    by simp
  then show ?case
    using assms(1) by (intro exI[of _ 30]) (simp add: power_loop.simps[of "value"])
next
  case (Suc n)
  show ?case
  proof (cases "2 ^ k < value")
    case True
    have "(2 :: nat) ^ Suc k < 2 ^ 31"
      using Suc.hyps(2) by (intro power_strict_increasing) simp_all
    then have "power_loop value (2 ^ k) = power_loop value (2 ^ Suc k)"
      using True by (simp add: power_loop.simps[of "value" "2 ^ k"])
    moreover obtain j where "Suc k \<le> j" "j \<le> 30" "power_loop value (2 ^ Suc k) = Some (2 ^ j)" "value \<le> 2 ^ j" "j = Suc k \<or> 2 ^ (j - 1) < value"
    proof -
      have "n = 30 - Suc k" "Suc k \<le> 30"
        using Suc.hyps(2) by simp_all
      from Suc.hyps(1)[OF this] show thesis
        using that by blast
    qed
    ultimately show ?thesis
      using True by (intro exI[of _ j]) auto
  next
    case False
    then show ?thesis
      using Suc.prems by (intro exI[of _ k]) (simp add: power_loop.simps[of "value"])
  qed
qed

lemma smallest_power:
  assumes "value \<le> 2 ^ 29"
  shows "\<exists>j \<le> 29. GetSmallestPowerByTwoValue value = Some (2 ^ j) \<and> value \<le> 2 ^ j \<and> (j = 0 \<or> 2 ^ (j - 1) < value)"
proof -
  obtain j where j: "power_loop value (2 ^ 0) = Some (2 ^ j)" "value \<le> 2 ^ j" "j = 0 \<or> 2 ^ (j - 1) < value"
    using power_loop_returns[of "value" 0] assms by auto
  have "j \<le> 29"
  proof (rule ccontr)
    assume "\<not> j \<le> 29"
    then have "(2 :: nat) ^ 29 \<le> 2 ^ (j - 1)"
      by (intro power_increasing) simp_all
    then show False
      using j(3) assms \<open>\<not> j \<le> 29\<close> by linarith
  qed
  then show ?thesis
    using j by (auto simp: GetSmallestPowerByTwoValue_def)
qed

section \<open>Filling the tree\<close>

text \<open>
  In a tree with \<open>sz\<close> leaves, \<open>used\<close> of them in use, a node \<open>n\<close> at height \<open>h\<close> has the leaves from \<open>(n + 1) * 2 ^ h - sz\<close> on below it, and \<open>x\<close> is \<open>j\<close> levels below \<open>n\<close> if
  \<open>(x + 1) div 2 ^ j = n + 1\<close>.
\<close>

definition leaves_below :: "nat \<Rightarrow> nat \<Rightarrow> nat \<Rightarrow> nat \<Rightarrow> nat" where
  "leaves_below sz used n h = min (2 ^ h) (used - ((n + 1) * 2 ^ h - sz))"

definition below_node :: "nat \<Rightarrow> nat \<Rightarrow> nat \<Rightarrow> bool" where
  "below_node n j x \<longleftrightarrow> (x + 1) div 2 ^ j = n + 1"

lemma leaves_below_children:
  assumes "sz \<le> (n + 1) * 2 ^ Suc h"
  shows "leaves_below sz used (2 * n + 1) h + leaves_below sz used (2 * n + 2) h = leaves_below sz used n (Suc h)"
    and "leaves_below sz used n (Suc h) \<le> 2 ^ h \<Longrightarrow> leaves_below sz used (2 * n + 1) h = leaves_below sz used n (Suc h)"
    and "2 ^ h < leaves_below sz used n (Suc h) \<Longrightarrow> leaves_below sz used (2 * n + 1) h = 2 ^ h"
proof -
  define p a where "p = (2 :: nat) ^ h" and "a = (n + 1) * 2 ^ Suc h"
  have "(2 * n + 1 + 1) * 2 ^ h = a" "(2 * n + 2 + 1) * 2 ^ h = a + p" "(2 :: nat) ^ Suc h = 2 * p" "sz \<le> a"
    using assms by (simp_all add: a_def p_def algebra_simps)
  then have eqs: "leaves_below sz used (2 * n + 1) h = min p (used - (a - sz))" "leaves_below sz used (2 * n + 2) h = min p (used - (a + p - sz))"
      "leaves_below sz used n (Suc h) = min (2 * p) (used - (a - sz))"
    unfolding leaves_below_def by (simp_all add: p_def a_def)
  have "0 < p"
    by (simp add: p_def)
  then show "leaves_below sz used (2 * n + 1) h + leaves_below sz used (2 * n + 2) h = leaves_below sz used n (Suc h)"
    and "leaves_below sz used n (Suc h) \<le> 2 ^ h \<Longrightarrow> leaves_below sz used (2 * n + 1) h = leaves_below sz used n (Suc h)"
    and "2 ^ h < leaves_below sz used n (Suc h) \<Longrightarrow> leaves_below sz used (2 * n + 1) h = 2 ^ h"
    unfolding eqs p_def[symmetric] using \<open>sz \<le> a\<close> by (simp_all add: min_def split: if_splits) linarith+
qed

lemma below_node_0 [simp]: "below_node n 0 x \<longleftrightarrow> x = n"
  by (auto simp: below_node_def)

lemma below_node_Suc: "below_node n (Suc j) x \<longleftrightarrow> below_node (2 * n + 1) j x \<or> below_node (2 * n + 2) j x"
proof -
  have "(x + 1) div 2 ^ Suc j = (x + 1) div 2 ^ j div 2"
    by (metis div_mult2_eq power_Suc2)
  then show ?thesis
    unfolding below_node_def by linarith
qed

lemma below_node_siblings: "below_node (2 * n + 1) i x \<Longrightarrow> \<not> below_node (2 * n + 2) j x"
proof (rule notI)
  assume x: "below_node (2 * n + 1) i x" "below_node (2 * n + 2) j x"
  have up: "(x + 1) div 2 ^ (i + k) = (x + 1) div 2 ^ i div 2 ^ k" for i k
    by (simp add: power_add div_mult2_eq)
  have small: "m div 2 ^ k \<le> m div 2" if "0 < k" for m k :: nat
    using that by (intro div_le_mono2) (simp_all add: self_le_power)
  show False
  proof (rule linorder_cases[of i j])
    assume "i < j"
    then have "(x + 1) div 2 ^ j \<le> (2 * n + 2) div 2"
      using up[of i "j - i"] small[of "j - i" "2 * n + 2"] x(1) by (simp add: below_node_def)
    then show False
      using x(2) by (simp add: below_node_def)
  next
    assume "j < i"
    moreover have "(x + 1) div 2 ^ j = 2 * n + 3"
      using x(2) by (simp add: below_node_def)
    ultimately have "(x + 1) div 2 ^ i \<le> (2 * n + 3) div 2"
      using up[of j "i - j"] small[of "i - j" "2 * n + 3"] by simp
    then show False
      using x(1) by (simp add: below_node_def)
  qed (use x in \<open>simp add: below_node_def\<close>)
qed

lemma below_node_empty:
  assumes "leaves_below sz used n h = 0" "below_node n j x" "j \<le> h"
  shows "leaves_below sz used x (h - j) = 0"
proof -
  have "(n + 1) * 2 ^ j \<le> x + 1"
    using assms(2) by (metis below_node_def div_times_less_eq_dividend)
  then have "(n + 1) * 2 ^ j * 2 ^ (h - j) \<le> (x + 1) * 2 ^ (h - j)"
    by (rule mult_right_mono) simp
  moreover have "(n + 1) * 2 ^ j * 2 ^ (h - j) = (n + 1) * 2 ^ h"
    using assms(3) by (simp only: mult.assoc power_add[symmetric] le_add_diff_inverse)
  ultimately show ?thesis
    using assms(1) by (auto simp: leaves_below_def min_def split: if_splits)
qed

text \<open>What \<^verbatim>\<open>Fill\<close> must have written below a node, with the rest of the array as it was.\<close>

definition filled :: "nat \<Rightarrow> nat \<Rightarrow> nat \<Rightarrow> nat \<Rightarrow> int option list \<Rightarrow> int option list \<Rightarrow> bool" where
  "filled sz used n h tree tree' \<longleftrightarrow> length tree' = length tree \<and>
     (\<forall>x < length tree. (\<forall>j < h. \<not> below_node n j x) \<longrightarrow> tree' ! x = tree ! x) \<and>
     (\<forall>x < length tree. \<forall>j < h. below_node n j x \<longrightarrow>
        tree' ! x = (if leaves_below sz used x (h - j) = 0 then tree ! x else Some (int (leaves_below sz used x (h - j)))))"

lemma filled_node:
  assumes "filled sz used (2 * n + 1) h (tree[n := Some (int (leaves_below sz used n (Suc h)))]) tree1"
    and "filled sz used (2 * n + 2) h tree1 tree2 \<or> leaves_below sz used (2 * n + 2) h = 0 \<and> tree2 = tree1"
    and "0 < leaves_below sz used n (Suc h)"
  shows "filled sz used n (Suc h) tree tree2"
proof -
  let ?c = "leaves_below sz used"
  let ?tree0 = "tree[n := Some (int (?c n (Suc h)))]"
  have len: "length tree1 = length tree" "length tree2 = length tree"
    using assms(1,2) by (auto simp: filled_def)
  have left: "tree1 ! x = ?tree0 ! x" if "x < length tree" "\<forall>j < h. \<not> below_node (2 * n + 1) j x" for x
    using assms(1) that by (simp add: filled_def)
  have left': "tree1 ! x = (if ?c x (h - j) = 0 then ?tree0 ! x else Some (int (?c x (h - j))))"
    if "x < length tree" "j < h" "below_node (2 * n + 1) j x" for x j
    using assms(1) that by (simp add: filled_def)
  have right: "tree2 ! x = tree1 ! x" if "x < length tree" "\<forall>j < h. \<not> below_node (2 * n + 2) j x" for x
    using assms(2) that len by (auto simp: filled_def)
  have right': "tree2 ! x = (if ?c x (h - j) = 0 then tree1 ! x else Some (int (?c x (h - j))))"
    if "x < length tree" "j < h" "below_node (2 * n + 2) j x" for x j
    using assms(2) that len below_node_empty[OF _ that(3) less_imp_le[OF that(2)]] by (auto simp: filled_def)
  have above: "x \<noteq> n" if "below_node (2 * n + 1) j x \<or> below_node (2 * n + 2) j x" for j x
  proof
    assume "x = n"
    moreover have "(n + 1) div 2 ^ j \<le> n + 1"
      by (rule div_le_dividend)
    ultimately show False
      using that unfolding below_node_def \<open>x = n\<close> by linarith
  qed
  show ?thesis
    unfolding filled_def
  proof (intro conjI allI impI)
    show "length tree2 = length tree"
      by (rule len(2))
  next
    fix x
    assume x: "x < length tree" "\<forall>j < Suc h. \<not> below_node n j x"
    then have "x \<noteq> n" "\<forall>j < h. \<not> below_node (2 * n + 1) j x" "\<forall>j < h. \<not> below_node (2 * n + 2) j x"
      using below_node_Suc[of n _ x] by (fastforce dest: spec[of _ 0] spec[of _ "Suc _"])+
    then show "tree2 ! x = tree ! x"
      using left right x(1) by simp
  next
    fix x j
    assume x: "x < length tree" "j < Suc h" "below_node n j x"
    show "tree2 ! x = (if ?c x (Suc h - j) = 0 then tree ! x else Some (int (?c x (Suc h - j))))"
    proof (cases j)
      case 0
      then have "x = n"
        using x(3) by simp
      then have "\<forall>i < h. \<not> below_node (2 * n + 1) i x" "\<forall>i < h. \<not> below_node (2 * n + 2) i x"
        using above by blast+
      then show ?thesis
        using left right x(1) 0 \<open>x = n\<close> assms(3) by simp
    next
      case (Suc i)
      then have i: "i < h" "Suc h - j = h - i"
        using x(2) by simp_all
      consider (left) "below_node (2 * n + 1) i x" | (right) "below_node (2 * n + 2) i x"
        using x(3) below_node_Suc Suc by blast
      then show ?thesis
      proof cases
        case left
        then show ?thesis
          using left'[OF x(1) i(1)] right[OF x(1)] below_node_siblings[OF left] above[of i x] i(2) by simp
      next
        case right
        moreover have "\<forall>i < h. \<not> below_node (2 * n + 1) i x"
          using right below_node_siblings by blast
        ultimately show ?thesis
          using right'[OF x(1) i(1)] left[OF x(1)] above[of i x] i(2) by simp
      qed
    qed
  qed
qed

lemma room_for_sibling:
  assumes "(n + 1) * 2 ^ Suc h < (2 :: nat) * 2 ^ k"
  shows "(n + 1) * 2 ^ Suc h + 2 ^ h < 2 * 2 ^ k"
proof -
  have "(2 :: nat) ^ Suc h \<le> (n + 1) * 2 ^ Suc h"
    by simp
  then have "(2 :: nat) ^ Suc h < 2 ^ Suc k"
    using assms by (metis le_less_trans power_Suc)
  then have "h < k"
    by (simp add: power_strict_increasing_iff)
  then have "(2 :: nat) * 2 ^ k = 2 ^ (k - h) * 2 ^ Suc h"
    by (simp only: power_Suc[symmetric] power_add[symmetric]) simp
  then have "n + 1 < 2 ^ (k - h)"
    using assms by (metis mult_less_cancel2)
  then have "(n + 2) * 2 ^ Suc h \<le> 2 ^ (k - h) * 2 ^ Suc h"
    by (intro mult_right_mono) simp_all
  then have "(n + 1) * 2 ^ Suc h + 2 ^ Suc h \<le> 2 * 2 ^ k"
    using \<open>2 * 2 ^ k = 2 ^ (k - h) * 2 ^ Suc h\<close> by (simp add: algebra_simps)
  moreover have "(n + 1) * 2 ^ Suc h + 2 ^ h < (n + 1) * 2 ^ Suc h + (2 :: nat) ^ Suc h"
    by simp
  ultimately show ?thesis
    by (rule less_le_trans[rotated])
qed

lemma fill_filled:
  assumes "tp_size that = sz" "sz = 2 ^ k" "sz \<le> (n + 1) * 2 ^ h" "(n + 1) * 2 ^ h < 2 * sz" "length tree = sz - 1" "0 < leaves_below sz used n h"
  shows "\<exists>tree'. Fill that n (leaves_below sz used n h) (2 ^ h) tree = Some tree' \<and> filled sz used n h tree tree'"
  using assms(3-)
proof (induction h arbitrary: n tree)
  case 0
  then have "IsLeaf that n"
    using assms(1) unfolding IsLeaf_def by simp linarith
  then show ?case
    by (simp add: Fill.simps[of that n] filled_def)
next
  case (Suc h)
  let ?c = "leaves_below sz used"
  have n: "n + 1 < sz" "2 * n + 2 \<le> 2 * sz - 1"
  proof -
    have "(n + 1) * 2 ^ h < sz"
      using Suc.prems(2) by (simp add: mult.left_commute)
    then show "n + 1 < sz"
      by (metis le_less_trans mult_le_mono2 nat_mult_1_right one_le_numeral one_le_power)
    then show "2 * n + 2 \<le> 2 * sz - 1"
      by linarith
  qed
  have node: "\<not> IsLeaf that n" "assign tree n v = Some (tree[n := v])" "GetLeftChildIndex that n = Some (2 * n + 1)"
     "GetRightChildIndex that n = Some (2 * n + 2)" for v
    using n assms(1) Suc.prems(3) by (simp_all add: IsLeaf_def GetLeftChildIndex_def GetRightChildIndex_def IsValid_def)
  define tree0 where "tree0 = tree[n := Some (int (?c n (Suc h)))]"
  have eqs: "(2 * n + 1 + 1) * 2 ^ h = (n + 1) * 2 ^ Suc h" "(2 * n + 2 + 1) * 2 ^ h = (n + 1) * 2 ^ Suc h + 2 ^ h"
    by (simp_all add: algebra_simps)
  note children = leaves_below_children[OF Suc.prems(1), of used]
  have left: "\<exists>tree'. Fill that (2 * n + 1) (?c (2 * n + 1) h) (2 ^ h) tree0 = Some tree' \<and> filled sz used (2 * n + 1) h tree0 tree'"
  proof (rule Suc.IH)
    show "0 < ?c (2 * n + 1) h"
      using children Suc.prems(4) by (cases "?c n (Suc h) \<le> 2 ^ h") simp_all
  qed (use Suc.prems eqs in \<open>simp_all add: tree0_def\<close>)
  show ?case
  proof (cases "?c n (Suc h) \<le> 2 ^ h")
    case True
    then obtain tree1 where tree1: "Fill that (2 * n + 1) (?c n (Suc h)) (2 ^ h) tree0 = Some tree1" "filled sz used (2 * n + 1) h tree0 tree1"
      using left children(2) by auto
    moreover have "?c (2 * n + 2) h = 0"
      using children(1) children(2)[OF True] by simp
    ultimately have "filled sz used n (Suc h) tree tree1"
      using filled_node[of sz used n h tree tree1 tree1] Suc.prems(4) by (simp add: tree0_def)
    then show ?thesis
      using True tree1(1) by (simp add: Fill.simps[of that n] node Let_def tree0_def)
  next
    case False
    then have c: "?c (2 * n + 1) h = 2 ^ h" "?c n (Suc h) - 2 ^ h = ?c (2 * n + 2) h"
      using children(1,3) by simp_all
    obtain tree1 where tree1: "Fill that (2 * n + 1) (2 ^ h) (2 ^ h) tree0 = Some tree1" "filled sz used (2 * n + 1) h tree0 tree1"
      using left c(1) by auto
    have "\<exists>tree'. Fill that (2 * n + 2) (?c (2 * n + 2) h) (2 ^ h) tree1 = Some tree' \<and> filled sz used (2 * n + 2) h tree1 tree'"
    proof (rule Suc.IH)
      show "(2 * n + 2 + 1) * 2 ^ h < 2 * sz"
        using room_for_sibling[of n h k] Suc.prems(2) unfolding eqs assms(2) .
    qed (use Suc.prems eqs c False tree1(2) in \<open>simp_all add: tree0_def filled_def\<close>)
    then obtain tree2 where tree2: "Fill that (2 * n + 2) (?c (2 * n + 2) h) (2 ^ h) tree1 = Some tree2" "filled sz used (2 * n + 2) h tree1 tree2"
      by blast
    then have "filled sz used n (Suc h) tree tree2"
      using filled_node[of sz used n h tree tree1 tree2] tree1(2) Suc.prems(4) by (simp add: tree0_def)
    then show ?thesis
      using False tree1(1) tree2(1) c(2) by (simp add: Fill.simps[of that n] node Let_def tree0_def)
  qed
qed

lemma node_level:
  fixes y :: nat
  assumes "1 \<le> y" "y < 2 ^ k"
  shows "\<exists>j < k. y div 2 ^ j = 1"
  using assms(2)
proof (induction k)
  case 0
  then show ?case
    using assms(1) by simp
next
  case (Suc k)
  show ?case
  proof (cases "y < 2 ^ k")
    case True
    then show ?thesis
      using Suc.IH less_SucI by blast
  next
    case False
    then have "y div 2 ^ k = 1"
      using Suc.prems by (intro div_nat_eqI) simp_all
    then show ?thesis
      by blast
  qed
qed

lemma below_root:
  assumes "below_node 0 j x" "j < k"
  shows "x < 2 ^ k - 1" "2 ^ j \<le> x + 1"
proof -
  have "x + 1 < 2 ^ j * 2"
    using assms(1) div_less_iff_less_mult[of "2 ^ j" "x + 1" 2] by (simp add: below_node_def mult.commute)
  moreover have "(2 :: nat) ^ j * 2 \<le> 2 ^ k"
    using power_increasing[of "Suc j" k "2 :: nat"] assms(2) by simp
  ultimately show "x < 2 ^ k - 1"
    by linarith
  show "2 ^ j \<le> x + 1"
    using assms(1) by (metis below_node_def add_0 div_less not_less zero_neq_one)
qed

text \<open>
  A new pool: each inner node counts the values below it, and is uninitialised if there are none.
\<close>

lemma tree_pool_new:
  assumes "elements \<noteq> []" "length elements \<le> 2 ^ 29"
  shows "\<exists>that k. LockFreeTreeValuePool_new elements = Some that \<and> tp_size that = 2 ^ k \<and> length elements \<le> 2 ^ k \<and>
     tp_pool that = elements \<and> length (tp_tree that) = 2 ^ k - 1 \<and>
     (\<forall>j < k. \<forall>x. below_node 0 j x \<longrightarrow> tp_tree that ! x =
        (if leaves_below (2 ^ k) (length elements) x (k - j) = 0 then None else Some (int (leaves_below (2 ^ k) (length elements) x (k - j)))))"
proof -
  obtain k where k: "GetSmallestPowerByTwoValue (length elements) = Some (2 ^ k)" "length elements \<le> 2 ^ k"
    using smallest_power[OF assms(2)] by blast
  define that0 where "that0 = \<lparr>tp_size = 2 ^ k, tp_real_size = length elements, tp_tree = replicate (2 ^ k - 1) None, tp_pool = elements\<rparr>"
  have root: "leaves_below (2 ^ k) (length elements) 0 k = length elements"
    using k(2) by (simp add: leaves_below_def)
  have "\<exists>tree'. Fill that0 0 (leaves_below (2 ^ k) (length elements) 0 k) (2 ^ k) (tp_tree that0) = Some tree' \<and>
      filled (2 ^ k) (length elements) 0 k (tp_tree that0) tree'"
    using assms(1) k(2) root by (intro fill_filled[where k = k]) (simp_all add: that0_def)
  then obtain tree where tree: "Fill that0 0 (length elements) (2 ^ k) (tp_tree that0) = Some tree"
      "filled (2 ^ k) (length elements) 0 k (tp_tree that0) tree"
    unfolding root by blast
  have "LockFreeTreeValuePool_new elements = Some (that0\<lparr>tp_tree := tree\<rparr>)"
    using tree(1) k(1) assms(2) by (simp add: LockFreeTreeValuePool_new_def that0_def)
  then show ?thesis
    using k(2) tree(2) below_root(1)
    by (intro exI[of _ "that0\<lparr>tp_tree := tree\<rparr>"] exI[of _ k]) (simp add: that0_def filled_def)
qed

text \<open>A pool without values reads outside of its array.\<close>

lemma empty_tree_pool:
  "\<exists>that. LockFreeTreeValuePool_new [] = Some that \<and> allocate_rec u t 0 [] (tree_start that []) = None"
proof -
  have "power_loop 0 1 = Some 1"
    by (simp add: power_loop.simps)
  then have "GetSmallestPowerByTwoValue 0 = Some 1"
    by (simp add: GetSmallestPowerByTwoValue_def)
  moreover have "IsLeaf \<lparr>tp_size = 1, tp_real_size = 0, tp_tree = tree, tp_pool = pool\<rparr> 0" for tree and pool :: "'a list"
    by (simp add: IsLeaf_def)
  ultimately have "LockFreeTreeValuePool_new [] = Some \<lparr>tp_size = 1, tp_real_size = 0, tp_tree = [], tp_pool = [] :: 'a list\<rparr>"
    by (simp add: LockFreeTreeValuePool_new_def Fill.simps[of _ 0])
  then show ?thesis
    by (simp add: allocate_rec_def IsLeaf_def NodeIndexToPoolIndex_def deref_def tree_start_def)
qed

end
