(* ===== verification/Tree_Pool_Contract.thy ===== *)
theory Tree_Pool_Contract
  imports Tree_Value_Pool
begin

text \<open>
  Why the lock-free value pool works: for each inner node, what its two children have to offer is what it offers itself, plus one for each thread that has decremented it and
  still has to take from a child, plus one for each thread that has freed below a child and still has to increment it. So a thread that
  finds nothing at the left child will find something at the right one. The pool is an instance of \<open>value_pool\<close>.
\<close>

section \<open>The balance of the tree\<close>

text \<open>What matters about a thread: which node it has decremented without having taken from a child yet, or which node it has made richer without having told the parent.\<close>

datatype position = Nowhere | At frame | Rising nat

fun frame_position :: "frame list \<Rightarrow> position" where
  "frame_position [] = Nowhere"
| "frame_position (f # fs) = At f"

lemma frame_position_not_rising [simp]: "frame_position fs \<noteq> Rising n"
  by (cases fs) simp_all

fun position_of :: "'a tree_pc \<Rightarrow> position" where
  "position_of Tree_Idle = Nowhere"
| "position_of (Tree_Enter node frames) = frame_position frames"
| "position_of (Tree_Swap node current frames) = frame_position frames"
| "position_of (Leaf_Swap i e frames) = frame_position frames"
| "position_of (Tree_Up node) = Rising node"

definition waiting :: "nat \<Rightarrow> position \<Rightarrow> int" where
  "waiting m p = (if p = At (In_Left m) \<or> p = At (In_Right m) \<or> p = Rising (2 * m + 1) \<or> p = Rising (2 * m + 2) then 1 else 0)"

definition in_right :: "nat \<Rightarrow> position \<Rightarrow> int" where
  "in_right m p = (if p = At (In_Right m) then 1 else 0)"

definition sum_over :: "(position \<Rightarrow> int) \<Rightarrow> nat \<Rightarrow> (nat \<Rightarrow> position) \<Rightarrow> int" where
  "sum_over f threads ps = (\<Sum>t < threads. f (ps t))"

text \<open>
  \<open>offers n\<close> is the counter of an inner node and 0 or 1 for a leaf; \<open>counter m\<close> is the counter of an inner node, if it was initialised.
\<close>

definition balanced :: "nat \<Rightarrow> (nat \<Rightarrow> int option) \<Rightarrow> (nat \<Rightarrow> int) \<Rightarrow> nat \<Rightarrow> (nat \<Rightarrow> position) \<Rightarrow> bool" where
  "balanced inner counter offers threads ps \<longleftrightarrow> (\<forall>m < inner. \<forall>c. counter m = Some c \<longrightarrow>
     0 \<le> c \<and> offers (2 * m + 1) + offers (2 * m + 2) = c + sum_over (waiting m) threads ps \<and> sum_over (in_right m) threads ps \<le> offers (2 * m + 2))"

lemma sum_over_update:
  assumes "t < threads"
  shows "sum_over f threads (ps(t := p)) = sum_over f threads ps - f (ps t) + f p"
proof -
  have "sum_over f threads qs = f (qs t) + (\<Sum>u \<in> {..<threads} - {t}. f (qs u))" for qs
    using assms by (simp add: sum_over_def sum.remove)
  moreover have "(\<Sum>u \<in> {..<threads} - {t}. f ((ps(t := p)) u)) = (\<Sum>u \<in> {..<threads} - {t}. f (ps u))"
    by (rule sum.cong) simp_all
  ultimately show ?thesis
    by simp
qed

lemma sum_in_right_le:
  assumes "t < threads"
  shows "sum_over (in_right m) threads ps + (waiting m (ps t) - in_right m (ps t)) \<le> sum_over (waiting m) threads ps"
    and "in_right m (ps t) \<le> sum_over (in_right m) threads ps"
proof -
  have "(\<Sum>u \<in> {t}. waiting m (ps u) - in_right m (ps u)) \<le> (\<Sum>u < threads. waiting m (ps u) - in_right m (ps u))"
    using assms by (intro sum_mono2) (auto simp: waiting_def in_right_def)
  then show "sum_over (in_right m) threads ps + (waiting m (ps t) - in_right m (ps t)) \<le> sum_over (waiting m) threads ps"
    by (simp add: sum_over_def sum_subtractf)
  have "(\<Sum>u \<in> {t}. in_right m (ps u)) \<le> (\<Sum>u < threads. in_right m (ps u))"
    using assms by (intro sum_mono2) (auto simp: in_right_def)
  then show "in_right m (ps t) \<le> sum_over (in_right m) threads ps"
    by (simp add: sum_over_def)
qed

lemma in_right_nonneg: "0 \<le> sum_over (in_right m) threads ps"
  by (simp add: sum_over_def in_right_def sum_nonneg)

text \<open>A thread in the call for a node: the root, or the child of the node it has decremented before.\<close>

definition comes_to :: "nat \<Rightarrow> (nat \<Rightarrow> int option) \<Rightarrow> position \<Rightarrow> nat \<Rightarrow> bool" where
  "comes_to inner counter p n \<longleftrightarrow> (p = Nowhere \<and> n = 0) \<or>
     (\<exists>m < inner. counter m \<noteq> None \<and> (p = At (In_Left m) \<and> n = 2 * m + 1 \<or> p = At (In_Right m) \<and> n = 2 * m + 2))"

text \<open>Taking one from a node: decrementing its counter, or taking the value of a leaf.\<close>

lemma balanced_take:
  assumes bal: "balanced inner counter offers threads ps" and t: "t < threads" and p: "comes_to inner counter (ps t) n"
    and n: "1 \<le> offers n" "n < inner \<longrightarrow> counter n = Some (offers n)"
  shows "balanced inner (if n < inner then counter(n := Some (offers n - 1)) else counter) (offers(n := offers n - 1)) threads
     (ps(t := if n < inner then At (In_Left n) else Nowhere))"
  unfolding balanced_def
proof (intro allI impI, goal_cases)
  case (1 m c)
  let ?p = "if n < inner then At (In_Left n) else Nowhere"
  note upd = sum_over_update[OF t]
  show ?case
  proof (cases "m = n")
    case True
    then have "waiting m (ps t) = 0" "in_right m (ps t) = 0" "waiting m ?p = 1" "in_right m ?p = 0" "c = offers n - 1"
      using p 1 by (auto simp: comes_to_def waiting_def in_right_def)
    then show ?thesis
      using bal 1 n True by (simp add: balanced_def upd)
  next
    case False
    then have "counter m = Some c"
      using 1(2) by (simp split: if_splits)
    then have b: "0 \<le> c" "offers (2 * m + 1) + offers (2 * m + 2) = c + sum_over (waiting m) threads ps" "sum_over (in_right m) threads ps \<le> offers (2 * m + 2)"
      using bal 1(1) unfolding balanced_def by blast+
    have new: "waiting m ?p = 0" "in_right m ?p = 0"
      using False by (simp_all add: waiting_def in_right_def)
    consider (left) "n = 2 * m + 1" | (right) "n = 2 * m + 2" | (other) "n \<noteq> 2 * m + 1" "n \<noteq> 2 * m + 2"
      by blast
    then show ?thesis
    proof cases
      case left
      then have "ps t = At (In_Left m)"
        using p unfolding comes_to_def by auto presburger+
      then show ?thesis
        using b new left by (simp add: upd waiting_def in_right_def)
    next
      case right
      then have "ps t = At (In_Right m)"
        using p unfolding comes_to_def by auto presburger+
      then show ?thesis
        using b new right by (simp add: upd waiting_def in_right_def)
    next
      case other
      then have "waiting m (ps t) = 0" "in_right m (ps t) = 0"
        using p by (auto simp: comes_to_def waiting_def in_right_def)
      then show ?thesis
        using b new other by (simp add: upd)
    qed
  qed
qed

text \<open>Giving one to a node: storing a value in a leaf, or incrementing a counter after one of the children.\<close>

lemma balanced_give:
  assumes bal: "balanced inner counter offers threads ps" and t: "t < threads"
    and p: "ps t = Nowhere \<and> inner \<le> n \<or> n < inner \<and> (ps t = Rising (2 * n + 1) \<or> ps t = Rising (2 * n + 2))"
    and n: "n < inner \<longrightarrow> counter n = Some (offers n)"
  shows "balanced inner (if n < inner then counter(n := Some (offers n + 1)) else counter) (offers(n := offers n + 1)) threads
     (ps(t := if n = 0 then Nowhere else Rising n))"
  unfolding balanced_def
proof (intro allI impI, goal_cases)
  case (1 m c)
  let ?p = "if n = 0 then Nowhere else Rising n"
  note upd = sum_over_update[OF t]
  have right: "in_right m (ps t) = 0" "in_right m ?p = 0"
    using p by (auto simp: in_right_def)
  show ?case
  proof (cases "m = n")
    case True
    then have "waiting m (ps t) = 1" "waiting m ?p = 0" "c = offers n + 1"
      using p 1 by (auto simp: waiting_def)
    then show ?thesis
      using bal 1 n True right by (simp add: balanced_def upd)
  next
    case False
    then have "counter m = Some c"
      using 1(2) by (simp split: if_splits)
    then have b: "0 \<le> c" "offers (2 * m + 1) + offers (2 * m + 2) = c + sum_over (waiting m) threads ps" "sum_over (in_right m) threads ps \<le> offers (2 * m + 2)"
      using bal 1(1) unfolding balanced_def by blast+
    have "waiting m (ps t) = 0"
      using p 1(1) False by (auto simp: waiting_def)
    moreover have "waiting m ?p = (if n = 2 * m + 1 \<or> n = 2 * m + 2 then 1 else 0)"
      by (auto simp: waiting_def)
    ultimately show ?thesis
      using b right by (auto simp: upd)
  qed
qed

text \<open>A thread that found nothing at the left child goes to the right child, which has something to offer.\<close>

lemma balanced_fail:
  assumes bal: "balanced inner counter offers threads ps" and t: "t < threads" and p: "ps t = At (In_Left m)" "m < inner" "counter m \<noteq> None"
    and empty: "offers (2 * m + 1) = 0"
  shows "balanced inner counter offers threads (ps(t := At (In_Right m)))"
  unfolding balanced_def
proof (intro allI impI, goal_cases)
  case (1 k c)
  note upd = sum_over_update[OF t]
  have b: "0 \<le> c" "offers (2 * k + 1) + offers (2 * k + 2) = c + sum_over (waiting k) threads ps" "sum_over (in_right k) threads ps \<le> offers (2 * k + 2)"
    using bal 1 unfolding balanced_def by blast+
  show ?case
  proof (cases "k = m")
    case True
    then have "sum_over (in_right m) threads ps + 1 \<le> sum_over (waiting m) threads ps"
      using sum_in_right_le(1)[OF t, of m ps] p(1) by (simp add: waiting_def in_right_def)
    then show ?thesis
      using b empty True p(1) by (simp add: upd waiting_def in_right_def)
  next
    case False
    then show ?thesis
      using b p(1) by (simp add: upd waiting_def in_right_def)
  qed
qed

lemma balanced_right_offers:
  assumes "balanced inner counter offers threads ps" "t < threads" "ps t = At (In_Right m)" "m < inner" "counter m \<noteq> None"
  shows "1 \<le> offers (2 * m + 2)"
proof -
  have "sum_over (in_right m) threads ps \<le> offers (2 * m + 2)"
    using assms(1,4,5) unfolding balanced_def by auto
  then show ?thesis
    using sum_in_right_le(2)[OF assms(2), of m ps] assms(3) by (simp add: in_right_def)
qed

lemma balanced_same:
  "balanced inner counter offers threads ps \<Longrightarrow> ps t = p \<Longrightarrow> balanced inner counter offers threads (ps(t := p))"
  by (metis fun_upd_triv)

section \<open>The invariant\<close>

definition offers :: "'a \<Rightarrow> 'a LockFreeTreeValuePool \<Rightarrow> nat \<Rightarrow> int" where
  "offers u that x = (if tp_size that - 1 \<le> x then (if x - (tp_size that - 1) < length (tp_pool that) \<and> tp_pool that ! (x - (tp_size that - 1)) \<noteq> u then 1 else 0)
     else case read_counter that x of Some c \<Rightarrow> c | None \<Rightarrow> 0)"

text \<open>A node is present if it is a leaf of the real pool or an inner node whose counter was initialised.\<close>

definition present :: "'a LockFreeTreeValuePool \<Rightarrow> nat \<Rightarrow> bool" where
  "present that x = (if tp_size that - 1 \<le> x then x - (tp_size that - 1) < length (tp_pool that) else read_counter that x \<noteq> None)"

definition tree_shape :: "'a LockFreeTreeValuePool \<Rightarrow> bool" where
  "tree_shape that \<longleftrightarrow> (\<exists>k. tp_size that = 2 ^ k) \<and> 0 < tp_size that \<and> length (tp_tree that) = tp_size that - 1 \<and> length (tp_pool that) \<le> tp_size that \<and> present that 0 \<and>
     (\<forall>m < tp_size that - 1. present that m \<longrightarrow> present that (2 * m + 1)) \<and> (\<forall>x. present that x \<and> x \<noteq> 0 \<longrightarrow> present that ((x - 1) div 2))"

definition same_shape :: "'a LockFreeTreeValuePool \<Rightarrow> 'a LockFreeTreeValuePool \<Rightarrow> bool" where
  "same_shape that that' \<longleftrightarrow> tp_size that' = tp_size that \<and> length (tp_tree that') = length (tp_tree that) \<and> length (tp_pool that') = length (tp_pool that) \<and>
     (\<forall>m. (read_counter that' m = None) = (read_counter that m = None))"

definition tree_pc_ok :: "'a LockFreeTreeValuePool \<Rightarrow> 'a list \<Rightarrow> 'a tree_pc \<Rightarrow> bool" where
  "tree_pc_ok that vals pc = (case pc of
     Tree_Idle \<Rightarrow> True
   | Tree_Enter n fs \<Rightarrow> present that n \<and> comes_to (tp_size that - 1) (read_counter that) (position_of pc) n
   | Tree_Swap n c fs \<Rightarrow> present that n \<and> n < tp_size that - 1 \<and> 1 \<le> c \<and> comes_to (tp_size that - 1) (read_counter that) (position_of pc) n
   | Leaf_Swap i e fs \<Rightarrow> i < length vals \<and> e = vals ! i \<and> comes_to (tp_size that - 1) (read_counter that) (position_of pc) (i + (tp_size that - 1))
   | Tree_Up n \<Rightarrow> present that n \<and> n \<noteq> 0)"

definition tree_inv :: "'a \<Rightarrow> nat \<Rightarrow> (nat \<times> 'a) set \<Rightarrow> 'a tree_pool \<Rightarrow> bool" where
  "tree_inv u threads held s \<longleftrightarrow> tree_shape (tr_that s) \<and> cells_ok u (tr_values s) held (tp_pool (tr_that s)) \<and>
     balanced (tp_size (tr_that s) - 1) (read_counter (tr_that s)) (offers u (tr_that s)) threads (position_of \<circ> tr_pc s) \<and>
     (\<forall>t. tree_pc_ok (tr_that s) (tr_values s) (tr_pc s t))"

lemma same_shape_present: "same_shape that that' \<Longrightarrow> present that' x = present that x"
  by (simp add: same_shape_def present_def)

lemma same_shape_shape: "same_shape that that' \<Longrightarrow> tree_shape that \<Longrightarrow> tree_shape that'"
  by (simp add: tree_shape_def same_shape_present) (simp add: same_shape_def)

lemma same_shape_comes_to: "same_shape that that' \<Longrightarrow> comes_to inner (read_counter that') p n = comes_to inner (read_counter that) p n"
  by (simp add: same_shape_def comes_to_def)

lemma same_shape_pc_ok: "same_shape that that' \<Longrightarrow> tree_pc_ok that vals pc \<Longrightarrow> tree_pc_ok that' vals pc"
  by (cases pc) (simp_all add: tree_pc_ok_def same_shape_present same_shape_comes_to, simp_all add: same_shape_def)

lemma read_counter_write:
  "n < length (tp_tree that) \<Longrightarrow> read_counter (that\<lparr>tp_tree := (tp_tree that)[n := Some c]\<rparr>) = (read_counter that)(n := Some c)"
  by (auto simp: read_counter_def deref_def fun_eq_iff nth_list_update)

lemma offers_write:
  assumes "length (tp_tree that) = tp_size that - 1" "n < tp_size that - 1"
  shows "offers u (that\<lparr>tp_tree := (tp_tree that)[n := Some c]\<rparr>) = (offers u that)(n := c)"
  using assms by (auto simp: offers_def fun_eq_iff read_counter_write)

lemma read_counter_pool: "read_counter (that\<lparr>tp_pool := pool\<rparr>) = read_counter that"
  by (simp add: read_counter_def fun_eq_iff)

lemma offers_pool:
  assumes "i < length (tp_pool that)"
  shows "offers u (that\<lparr>tp_pool := (tp_pool that)[i := v]\<rparr>) = (offers u that)(i + (tp_size that - 1) := if v \<noteq> u then 1 else 0)"
  using assms by (auto simp: offers_def fun_eq_iff read_counter_pool nth_list_update)

lemma same_shape_write:
  "n < length (tp_tree that) \<Longrightarrow> read_counter that n \<noteq> None \<Longrightarrow> same_shape that (that\<lparr>tp_tree := (tp_tree that)[n := Some c]\<rparr>)"
  by (simp add: same_shape_def read_counter_write)

lemma same_shape_pool: "length pool = length (tp_pool that) \<Longrightarrow> same_shape that (that\<lparr>tp_pool := pool\<rparr>)"
  by (simp add: same_shape_def read_counter_pool)

text \<open>A turn that changes the pool and the place of one thread.\<close>

lemma tree_inv_goto:
  assumes inv: "tree_inv u threads held s" and shape: "same_shape (tr_that s) that'"
    and cells: "cells_ok u (tr_values s) held' (tp_pool that')" and pc: "tree_pc_ok that' (tr_values s) pc"
    and bal: "balanced (tp_size (tr_that s) - 1) (read_counter that') (offers u that') threads ((position_of \<circ> tr_pc s)(t := position_of pc))"
  shows "tree_inv u threads held' (tree_goto t pc (s\<lparr>tr_that := that'\<rparr>))"
proof -
  have "tp_size that' = tp_size (tr_that s)"
    using shape by (simp add: same_shape_def)
  moreover have "position_of \<circ> (tr_pc s)(t := pc) = (position_of \<circ> tr_pc s)(t := position_of pc)"
    by (rule fun_upd_comp)
  moreover have "tree_shape that'" "\<forall>t. tree_pc_ok that' (tr_values s) (tr_pc s t)"
    using inv same_shape_shape[OF shape] same_shape_pc_ok[OF shape] by (simp_all add: tree_inv_def)
  ultimately show ?thesis
    using cells pc bal by (simp add: tree_inv_def tree_goto_def)
qed

lemma tree_inv_stay:
  assumes "tree_inv u threads held s" "tree_pc_ok (tr_that s) (tr_values s) pc" "position_of pc = position_of (tr_pc s t)"
  shows "tree_inv u threads held (tree_goto t pc s)"
proof -
  have "tree_inv u threads held (tree_goto t pc (s\<lparr>tr_that := tr_that s\<rparr>))"
    using assms by (intro tree_inv_goto[OF assms(1)] balanced_same) (simp_all add: tree_inv_def same_shape_def)
  then show ?thesis
    by simp
qed

section \<open>The turns keep the invariant\<close>

text \<open>What a turn of the pool must do: it is defined, keeps the invariant, is sound, and refuses only if the root has nothing to offer.\<close>

definition good_turn :: "'a \<Rightarrow> nat \<Rightarrow> (nat \<times> 'a) set \<Rightarrow> 'a tree_pool \<Rightarrow> ('a pool_event \<times> 'a tree_pool) option \<Rightarrow> bool" where
  "good_turn u threads held s result \<longleftrightarrow> (\<exists>ev s'. result = Some (ev, s') \<and> tree_inv u threads (track ev held) s' \<and> tr_values s' = tr_values s \<and>
     sound_event (tr_values s) held ev \<and> (ev = Refused \<longrightarrow> offers u (tr_that s) 0 = 0))"

lemma good_internal:
  "tree_inv u threads held (tree_goto t pc (s\<lparr>tr_that := that\<rparr>)) \<Longrightarrow> good_turn u threads held s (Some (Internal, tree_goto t pc (s\<lparr>tr_that := that\<rparr>)))"
  by (simp add: good_turn_def sound_event_def tree_goto_def)

lemma good_stay:
  "tree_inv u threads held (tree_goto t pc s) \<Longrightarrow> good_turn u threads held s (Some (Internal, tree_goto t pc s))"
  by (simp add: good_turn_def sound_event_def tree_goto_def)

lemma tree_fail_good:
  assumes inv: "tree_inv u threads held s" and t: "t < threads"
    and pos: "position_of (tr_pc s t) = frame_position frames"
    and comes: "comes_to (tp_size (tr_that s) - 1) (read_counter (tr_that s)) (position_of (tr_pc s t)) n"
    and empty: "offers u (tr_that s) n = 0"
  shows "good_turn u threads held s (tree_fail t frames s)"
proof -
  define that where "that = tr_that s"
  have bal: "balanced (tp_size that - 1) (read_counter that) (offers u that) threads (position_of \<circ> tr_pc s)"
    and shape: "tree_shape that" and cells: "cells_ok u (tr_values s) held (tp_pool that)"
    using inv by (simp_all add: tree_inv_def that_def)
  consider (root) "frames = []" "n = 0" | (left) m fs where "frames = In_Left m # fs" "m < tp_size that - 1" "read_counter that m \<noteq> None" "n = 2 * m + 1"
    | (right) m fs where "frames = In_Right m # fs" "m < tp_size that - 1" "read_counter that m \<noteq> None" "n = 2 * m + 2"
    using pos comes by (cases frames) (auto simp: comes_to_def that_def)
  then show ?thesis
  proof cases
    case root
    have "tree_inv u threads held (tree_goto t Tree_Idle s)"
      using inv pos root by (intro tree_inv_stay) (simp_all add: tree_pc_ok_def)
    then show ?thesis
      using root empty by (simp add: good_turn_def sound_event_def tree_goto_def)
  next
    case left
    let ?pc = "Tree_Enter (2 * m + 2) (In_Right m # fs)"
    have "balanced (tp_size that - 1) (read_counter that) (offers u that) threads ((position_of \<circ> tr_pc s)(t := At (In_Right m)))"
      using pos left empty by (intro balanced_fail[OF bal t]) (simp_all add: that_def)
    moreover from balanced_right_offers[OF this t] have "1 \<le> offers u that (2 * m + 2)"
      using left by simp
    then have "present that (2 * m + 2)"
      by (auto simp: offers_def present_def split: if_splits option.splits)
    then have "tree_pc_ok that (tr_values s) ?pc"
      using left by (simp add: tree_pc_ok_def comes_to_def)
    ultimately have "tree_inv u threads held (tree_goto t ?pc (s\<lparr>tr_that := that\<rparr>))"
      using cells by (intro tree_inv_goto[OF inv]) (simp_all add: same_shape_def that_def)
    then have "good_turn u threads held s (Some (Internal, tree_goto t ?pc s))"
      using good_internal[where s = s and that = that] by (simp add: that_def)
    moreover have "GetRightChildIndex that m = Some (2 * m + 2)"
      using left(2) by (simp add: GetRightChildIndex_def IsValid_def)
    ultimately show ?thesis
      using left(1) by (simp add: that_def)
  next
    case right
    then have "1 \<le> offers u that n"
      using balanced_right_offers[OF bal t, of m] pos by simp
    then show ?thesis
      using empty by (simp add: that_def)
  qed
qed

lemma allocate_rec_good:
  fixes u :: 'a
  assumes inv: "tree_inv u threads held s" and t: "t < threads" and pc: "tr_pc s t = Tree_Enter n frames"
  shows "good_turn u threads held s (allocate_rec u t n frames s)"
proof -
  define that where "that = tr_that s"
  have shape: "tree_shape that" and cells: "cells_ok u (tr_values s) held (tp_pool that)"
    and bal: "balanced (tp_size that - 1) (read_counter that) (offers u that) threads (position_of \<circ> tr_pc s)"
    and pc_ok: "tree_pc_ok that (tr_values s) (tr_pc s t)"
    using inv by (simp_all add: tree_inv_def that_def)
  then have ok: "present that n" "comes_to (tp_size that - 1) (read_counter that) (position_of (tr_pc s t)) n"
    by (simp_all add: pc tree_pc_ok_def)
  have pos: "position_of (tr_pc s t) = frame_position frames"
    by (simp add: pc)
  note fail = tree_fail_good[OF inv t pos ok(2)[unfolded that_def]]
  show ?thesis
  proof (cases "tp_size that - 1 \<le> n")
    case True
    let ?i = "n - (tp_size that - 1)"
    have i: "?i < length (tp_pool that)" "?i < length (tr_values s)" "?i + (tp_size that - 1) = n"
      using ok(1) cells True by (simp_all add: present_def cells_ok_def)
    have "length (tp_pool that) \<le> tp_size that" "0 < tp_size that"
      using shape by (simp_all add: tree_shape_def)
    then have leaf: "IsLeaf that n"
      using True i(1) unfolding IsLeaf_def by simp
    then have unfold: "allocate_rec u t n frames s = (if tp_pool that ! ?i = u then tree_fail t frames s
        else Some (Internal, tree_goto t (Leaf_Swap ?i (tp_pool that ! ?i) frames) s))"
      using i(1) by (simp add: allocate_rec_def that_def NodeIndexToPoolIndex_def Let_def)
    show ?thesis
    proof (cases "tp_pool that ! ?i = u")
      case empty: True
      then have "offers u that n = 0"
        using True by (simp add: offers_def)
      then show ?thesis
        using fail empty by (simp add: unfold that_def)
    next
      case False
      have "comes_to (tp_size that - 1) (read_counter that) (position_of (Leaf_Swap ?i (tp_pool that ! ?i) frames)) n"
        using ok(2) pc by simp
      then have "tree_inv u threads held (tree_goto t (Leaf_Swap ?i (tp_pool that ! ?i) frames) s)"
        using i cells_take(3)[OF cells i(2) False] pc by (intro tree_inv_stay[OF inv]) (auto simp: tree_pc_ok_def that_def split: list.splits)
      then show ?thesis
        using False good_stay by (simp add: unfold)
    qed
  next
    case False
    obtain c where c: "read_counter that n = Some c"
      using ok(1) False by (auto simp: present_def)
    then have "offers u that n = c"
      using False by (simp add: offers_def)
    have "n < tp_size that - 1"
      using False by simp
    then have "0 \<le> c"
      using bal c unfolding balanced_def by blast
    have unfold: "allocate_rec u t n frames s = (if c - 1 < 0 then tree_fail t frames s else Some (Internal, tree_goto t (Tree_Swap n c frames) s))"
      using False c by (simp add: allocate_rec_def IsLeaf_def that_def)
    show ?thesis
    proof (cases "c - 1 < 0")
      case True
      then show ?thesis
        using fail \<open>0 \<le> c\<close> \<open>offers u that n = c\<close> by (simp add: unfold that_def)
    next
      case pos: False
      have "comes_to (tp_size that - 1) (read_counter that) (position_of (Tree_Swap n c frames :: 'a tree_pc)) n"
        using ok(2) pc by simp
      then have "tree_inv u threads held (tree_goto t (Tree_Swap n c frames) s)"
        using pos pc ok(1) False by (intro tree_inv_stay[OF inv]) (auto simp: tree_pc_ok_def that_def split: list.splits)
      then show ?thesis
        using pos good_stay by (simp add: unfold)
    qed
  qed
qed

lemma allocate_swap_good:
  fixes u :: 'a
  assumes inv: "tree_inv u threads held s" and t: "t < threads" and pc: "tr_pc s t = Tree_Swap n c frames"
  shows "good_turn u threads held s (allocate_swap t n c frames s)"
proof -
  define that where "that = tr_that s"
  have shape: "tree_shape that" and cells: "cells_ok u (tr_values s) held (tp_pool that)"
    and bal: "balanced (tp_size that - 1) (read_counter that) (offers u that) threads (position_of \<circ> tr_pc s)"
    and pc_ok: "tree_pc_ok that (tr_values s) (tr_pc s t)"
    using inv by (simp_all add: tree_inv_def that_def)
  then have ok: "present that n" "n < tp_size that - 1" "1 \<le> c" "comes_to (tp_size that - 1) (read_counter that) (position_of (tr_pc s t)) n"
    by (simp_all add: pc tree_pc_ok_def)
  have n: "n < length (tp_tree that)" and left: "present that (2 * n + 1)"
    using shape ok(1,2) by (simp_all add: tree_shape_def)
  obtain v where v: "read_counter that n = Some v"
    using ok(1,2) by (auto simp: present_def)
  show ?thesis
  proof (cases "v = c")
    case True
    define that' where "that' = that\<lparr>tp_tree := (tp_tree that)[n := Some (c - 1)]\<rparr>"
    let ?pc = "Tree_Enter (2 * n + 1) (In_Left n # frames) :: 'a tree_pc"
    have same: "same_shape that that'"
      using same_shape_write[OF n] v by (simp add: that'_def)
    have len: "length (tp_tree that) = tp_size that - 1"
      using shape by (simp add: tree_shape_def)
    have off: "offers u that n = c"
      using v ok(2) True by (simp add: offers_def)
    have "balanced (tp_size that - 1) ((read_counter that)(n := Some (c - 1))) ((offers u that)(n := c - 1)) threads
        ((position_of \<circ> tr_pc s)(t := At (In_Left n)))"
      using balanced_take[OF bal t, of n] ok(2,3,4) off v True by simp
    then have "balanced (tp_size that - 1) (read_counter that') (offers u that') threads ((position_of \<circ> tr_pc s)(t := position_of ?pc))"
      using read_counter_write[OF n, of "c - 1"] offers_write[OF len ok(2), of u "c - 1"] by (simp add: that'_def)
    moreover have "tree_pc_ok that' (tr_values s) ?pc"
      using left ok(2) v same unfolding tree_pc_ok_def
      by (simp add: same_shape_present same_shape_comes_to) (simp add: comes_to_def same_shape_def)
    moreover have "cells_ok u (tr_values s) held (tp_pool that')"
      using cells by (simp add: that'_def)
    ultimately have "tree_inv u threads held (tree_goto t ?pc (s\<lparr>tr_that := that'\<rparr>))"
      using same by (intro tree_inv_goto[OF inv]) (simp_all add: that_def)
    moreover have "GetLeftChildIndex that' n = Some (2 * n + 1)"
      using ok(2) by (simp add: GetLeftChildIndex_def IsValid_def that'_def)
    moreover have "write_counter that n (c - 1) = Some that'"
      using n by (simp add: write_counter_def that'_def)
    ultimately show ?thesis
      using v True good_internal[where s = s and that = that'] by (simp add: allocate_swap_def flip: that_def)
  next
    case False
    have "tree_inv u threads held (tree_goto t (Tree_Enter n frames) s)"
      using ok(1,4) pc by (intro tree_inv_stay[OF inv]) (simp_all add: tree_pc_ok_def that_def)
    then show ?thesis
      using v False good_stay by (simp add: allocate_swap_def flip: that_def)
  qed
qed

lemma allocate_take_good:
  fixes u :: 'a
  assumes inv: "tree_inv u threads held s" and t: "t < threads" and pc: "tr_pc s t = Leaf_Swap i e frames"
  shows "good_turn u threads held s (allocate_take u t i e frames s)"
proof -
  define that where "that = tr_that s"
  define n where "n = i + (tp_size that - 1)"
  have cells: "cells_ok u (tr_values s) held (tp_pool that)"
    and bal: "balanced (tp_size that - 1) (read_counter that) (offers u that) threads (position_of \<circ> tr_pc s)"
    and pc_ok: "tree_pc_ok that (tr_values s) (tr_pc s t)"
    using inv by (simp_all add: tree_inv_def that_def)
  then have ok: "i < length (tr_values s)" "e = tr_values s ! i" "comes_to (tp_size that - 1) (read_counter that) (position_of (tr_pc s t)) n"
    by (simp_all add: pc tree_pc_ok_def n_def)
  have i: "i < length (tp_pool that)" and e: "e \<noteq> u"
    using cells ok(1,2) by (auto simp: cells_ok_def)
  show ?thesis
  proof (cases "tp_pool that ! i = e")
    case True
    define that' where "that' = that\<lparr>tp_pool := (tp_pool that)[i := u]\<rparr>"
    note take = cells_take[OF cells ok(1), unfolded True, OF e]
    have "offers u that n = 1"
      using i e True by (simp add: offers_def n_def)
    then have "balanced (tp_size that - 1) (read_counter that) ((offers u that)(n := 0)) threads ((position_of \<circ> tr_pc s)(t := Nowhere))"
      using balanced_take[OF bal t, of n] ok(3) by (simp add: n_def)
    then have "balanced (tp_size that - 1) (read_counter that') (offers u that') threads ((position_of \<circ> tr_pc s)(t := position_of Tree_Idle))"
      using offers_pool[OF i, of u u] by (simp add: that'_def read_counter_pool n_def)
    moreover have "cells_ok u (tr_values s) (insert (i, e) held) (tp_pool that')"
      using take(1) ok(2) by (simp add: that'_def)
    ultimately have "tree_inv u threads (insert (i, e) held) (tree_goto t Tree_Idle (s\<lparr>tr_that := that'\<rparr>))"
      using same_shape_pool[of "(tp_pool that)[i := u]" that]
      by (intro tree_inv_goto[OF inv]) (simp_all add: that_def[symmetric] that'_def[symmetric] tree_pc_ok_def)
    then show ?thesis
      using i True take(2) ok(1,2) by (simp add: allocate_take_def good_turn_def sound_event_def tree_goto_def that'_def flip: that_def)
  next
    case False
    then have "tp_pool that ! i = u"
      using cells_take(3)[OF cells ok(1)] ok(2) by blast
    then have "offers u (tr_that s) n = 0"
      by (simp add: offers_def n_def flip: that_def)
    moreover have "position_of (tr_pc s t) = frame_position frames"
      by (simp add: pc)
    ultimately show ?thesis
      using i False tree_fail_good[OF inv t _ ok(3)[unfolded that_def]] by (simp add: allocate_take_def flip: that_def)
  qed
qed

lemma free_store_good:
  fixes u :: 'a
  assumes inv: "tree_inv u threads held s" and t: "t < threads" and pc: "tr_pc s t = Tree_Idle" and held: "(i, e) \<in> held"
  shows "good_turn u threads held s (free_store u t i e s)"
proof -
  define that where "that = tr_that s"
  define n where "n = i + (tp_size that - 1)"
  have shape: "tree_shape that" and cells: "cells_ok u (tr_values s) held (tp_pool that)"
    and bal: "balanced (tp_size that - 1) (read_counter that) (offers u that) threads (position_of \<circ> tr_pc s)"
    using inv by (simp_all add: tree_inv_def that_def)
  note give = cells_give[OF cells held]
  have "tp_pool that ! i = u"
    using cells held by (auto simp: cells_ok_def)
  then have off: "offers u that n = 0"
    by (simp add: offers_def n_def)
  define that' where "that' = that\<lparr>tp_pool := (tp_pool that)[i := e]\<rparr>"
  have same: "same_shape that that'"
    using same_shape_pool[of "(tp_pool that)[i := e]" that] by (simp add: that'_def)
  define pc' :: "'a tree_pc" where "pc' = (if n = 0 then Tree_Idle else Tree_Up n)"
  have pos: "position_of pc' = (if n = 0 then Nowhere else Rising n)"
    by (simp add: pc'_def)
  have off': "offers u that' = (offers u that)(n := 1)" "read_counter that' = read_counter that"
    using offers_pool[OF give(2), of u e] give(3) by (simp_all add: that'_def read_counter_pool n_def)
  have "balanced (tp_size that - 1) (read_counter that) ((offers u that)(n := 1)) threads ((position_of \<circ> tr_pc s)(t := if n = 0 then Nowhere else Rising n))"
    using balanced_give[OF bal t, of n] off pc by (simp add: n_def)
  then have "balanced (tp_size that - 1) (read_counter that') (offers u that') threads ((position_of \<circ> tr_pc s)(t := position_of pc'))"
    unfolding pos off' .
  moreover have "present that n"
    using give(2) by (simp add: present_def n_def)
  then have "tree_pc_ok that' (tr_values s) pc'"
    using same by (simp add: pc'_def tree_pc_ok_def same_shape_present)
  moreover have "cells_ok u (tr_values s) (held - {(i, e)}) (tp_pool that')"
    using give(1) by (simp add: that'_def)
  ultimately have inv': "tree_inv u threads (held - {(i, e)}) (tree_goto t pc' (s\<lparr>tr_that := that'\<rparr>))"
    using same by (intro tree_inv_goto[OF inv]) (simp_all add: that_def)
  have "i < tp_size that" "IsLeaf that n"
    using shape give(2) unfolding IsLeaf_def n_def tree_shape_def by (auto simp: Let_def)
  then have "free_store u t i e s = Some (Gave i e, tree_goto t pc' (s\<lparr>tr_that := that'\<rparr>))"
    using give(2,3) by (simp add: free_store_def PoolIndexToNodeIndex_def free_loop_def IsRoot_def pc'_def that'_def n_def Let_def flip: that_def)
  then show ?thesis
    using inv' held by (simp add: good_turn_def sound_event_def tree_goto_def)
qed

lemma free_climb_good:
  fixes u :: 'a
  assumes inv: "tree_inv u threads held s" and t: "t < threads" and pc: "tr_pc s t = Tree_Up x"
  shows "good_turn u threads held s (free_climb t x s)"
proof -
  define that where "that = tr_that s"
  define n where "n = (x - 1) div 2"
  have shape: "tree_shape that" and cells: "cells_ok u (tr_values s) held (tp_pool that)"
    and bal: "balanced (tp_size that - 1) (read_counter that) (offers u that) threads (position_of \<circ> tr_pc s)"
    and pc_ok: "tree_pc_ok that (tr_values s) (tr_pc s t)"
    using inv by (simp_all add: tree_inv_def that_def)
  then have x: "present that x" "x \<noteq> 0"
    by (simp_all add: pc tree_pc_ok_def)
  then have parent: "present that n"
    using shape by (simp add: tree_shape_def n_def)
  have n: "x = 2 * n + 1 \<or> x = 2 * n + 2"
    using x(2) unfolding n_def by presburger
  have len: "length (tp_tree that) = tp_size that - 1" "0 < tp_size that" "length (tp_pool that) \<le> tp_size that"
    using shape by (simp_all add: tree_shape_def)
  have inner: "n < tp_size that - 1"
  proof (cases "tp_size that - 1 \<le> x")
    case True
    then have "x < 2 * tp_size that - 1"
      using x(1) len(2,3) unfolding present_def by simp
    then show ?thesis
      using n by linarith
  next
    case False
    then show ?thesis
      using n by linarith
  qed
  obtain c where c: "read_counter that n = Some c"
    using parent inner by (auto simp: present_def)
  then have off: "offers u that n = c"
    using inner by (simp add: offers_def)
  define that' where "that' = that\<lparr>tp_tree := (tp_tree that)[n := Some (c + 1)]\<rparr>"
  have n_len: "n < length (tp_tree that)"
    using inner len(1) by simp
  have same: "same_shape that that'"
    using same_shape_write[OF n_len] c by (simp add: that'_def)
  define pc' :: "'a tree_pc" where "pc' = (if n = 0 then Tree_Idle else Tree_Up n)"
  have pos: "position_of pc' = (if n = 0 then Nowhere else Rising n)"
    by (simp add: pc'_def)
  have off': "offers u that' = (offers u that)(n := c + 1)" "read_counter that' = (read_counter that)(n := Some (c + 1))"
    using read_counter_write[OF n_len, of "c + 1"] offers_write[OF len(1) inner, of u "c + 1"] by (simp_all add: that'_def)
  have "balanced (tp_size that - 1) ((read_counter that)(n := Some (c + 1))) ((offers u that)(n := c + 1)) threads
      ((position_of \<circ> tr_pc s)(t := if n = 0 then Nowhere else Rising n))"
    using balanced_give[OF bal t, of n] off c inner pc n by auto
  then have "balanced (tp_size that - 1) (read_counter that') (offers u that') threads ((position_of \<circ> tr_pc s)(t := position_of pc'))"
    unfolding pos off' .
  moreover have "tree_pc_ok that' (tr_values s) pc'"
    using parent same by (simp add: pc'_def tree_pc_ok_def same_shape_present)
  moreover have "cells_ok u (tr_values s) held (tp_pool that')"
    using cells by (simp add: that'_def)
  ultimately have "tree_inv u threads held (tree_goto t pc' (s\<lparr>tr_that := that'\<rparr>))"
    using same by (intro tree_inv_goto[OF inv]) (simp_all add: that_def)
  moreover have "free_climb t x s = Some (Internal, tree_goto t pc' (s\<lparr>tr_that := that'\<rparr>))"
    using c inner n_len unfolding n_def by (simp add: free_climb_def GetParentNode_def write_counter_def free_loop_def IsRoot_def pc'_def that'_def n_def Let_def flip: that_def)
  ultimately show ?thesis
    using good_internal by simp
qed

lemma tree_turn_good:
  assumes inv: "tree_inv u threads held s" and t: "t < threads" and legal: "legal_request held (tree_idle t s) r"
  shows "good_turn u threads held s (tree_turn u t r s)"
proof (cases "tr_pc s t")
  case Tree_Idle
  show ?thesis
  proof (cases r)
    case Allocate_Request
    have "tree_pc_ok (tr_that s) (tr_values s) (Tree_Enter 0 [])"
      using inv by (simp add: tree_inv_def tree_shape_def tree_pc_ok_def comes_to_def)
    then have "tree_inv u threads held (tree_goto t (Tree_Enter 0 []) s)"
      using Tree_Idle by (intro tree_inv_stay[OF inv]) simp_all
    then show ?thesis
      using Tree_Idle Allocate_Request good_stay by (simp add: tree_turn_def)
  next
    case (Free_Request i e)
    then have "(i, e) \<in> held"
      using legal Tree_Idle by (simp add: legal_request_def tree_idle_def)
    then show ?thesis
      using Tree_Idle Free_Request free_store_good[OF inv t Tree_Idle] by (simp add: tree_turn_def)
  qed
next
  case (Tree_Enter n frames)
  then show ?thesis
    using allocate_rec_good[OF inv t Tree_Enter] by (simp add: tree_turn_def)
next
  case (Tree_Swap n c frames)
  then show ?thesis
    using allocate_swap_good[OF inv t Tree_Swap] by (simp add: tree_turn_def)
next
  case (Leaf_Swap i e frames)
  then show ?thesis
    using allocate_take_good[OF inv t Leaf_Swap] by (simp add: tree_turn_def)
next
  case (Tree_Up x)
  then show ?thesis
    using free_climb_good[OF inv t Tree_Up] by (simp add: tree_turn_def)
qed

interpretation tree_pool: value_pool "tree_turn u" tree_idle threads tr_values "tree_inv u threads" for u threads
proof (unfold_locales, goal_cases)
  case (1 held s t r)
  then show ?case
    using tree_turn_good[of u threads held s t r] by (auto simp: good_turn_def)
next
  case (2 held s i e)
  then show ?case by (auto simp: tree_inv_def cells_ok_def)
qed

definition tree_phase :: "nat \<Rightarrow> 'a tree_pool \<Rightarrow> pool_phase" where
  "tree_phase t s = (case tr_pc s t of Tree_Idle \<Rightarrow> Phase_Idle | Tree_Up _ \<Rightarrow> Phase_Freeing | _ \<Rightarrow> Phase_Allocating)"

lemma tree_goto_phase [simp]:
  "tree_phase t (tree_goto t pc s) = (case pc of Tree_Idle \<Rightarrow> Phase_Idle | Tree_Up _ \<Rightarrow> Phase_Freeing | _ \<Rightarrow> Phase_Allocating)"
  "t' \<noteq> t \<Longrightarrow> tree_phase t' (tree_goto t pc s) = tree_phase t' s" "tree_phase t' (s\<lparr>tr_that := that\<rparr>) = tree_phase t' s"
  by (simp_all add: tree_phase_def tree_goto_def)

lemma tree_fail_phase:
  "tree_fail t frames s = Some (ev, s') \<Longrightarrow> (ev = Internal \<and> tree_phase t s' = Phase_Allocating \<or> ev = Refused \<and> tree_phase t s' = Phase_Idle) \<and>
    (\<forall>t'. t' \<noteq> t \<longrightarrow> tree_phase t' s' = tree_phase t' s)"
  by (induction t frames s rule: tree_fail.induct) (auto simp: bind_eq_Some_conv)

lemma tree_turn_phase:
  assumes "tree_turn u t r s = Some (ev, s')"
  shows "phase_step r (tree_phase t s) ev (tree_phase t s') \<and> (\<forall>t'. t' \<noteq> t \<longrightarrow> tree_phase t' s' = tree_phase t' s)"
proof -
  have ph: "tree_phase t s = (case tr_pc s t of Tree_Idle \<Rightarrow> Phase_Idle | Tree_Up _ \<Rightarrow> Phase_Freeing | _ \<Rightarrow> Phase_Allocating)"
    by (simp add: tree_phase_def)
  show ?thesis
  proof (cases "tr_pc s t")
    case Tree_Idle
    then show ?thesis
      using assms ph by (cases r) (auto simp: tree_turn_def free_store_def free_loop_def phase_step_def Let_def bind_eq_Some_conv split: if_splits)
  next
    case (Tree_Enter n frames)
    then show ?thesis
      using assms ph by (auto simp: tree_turn_def allocate_rec_def phase_step_def Let_def bind_eq_Some_conv dest!: tree_fail_phase split: if_splits)
  next
    case (Tree_Swap n c frames)
    then show ?thesis
      using assms ph by (auto simp: tree_turn_def allocate_swap_def phase_step_def bind_eq_Some_conv split: if_splits)
  next
    case (Leaf_Swap i e frames)
    then show ?thesis
      using assms ph by (auto simp: tree_turn_def allocate_take_def phase_step_def Let_def bind_eq_Some_conv dest!: tree_fail_phase split: if_splits)
  next
    case (Tree_Up x)
    then show ?thesis
      using assms ph by (auto simp: tree_turn_def free_climb_def free_loop_def phase_step_def bind_eq_Some_conv split: if_splits)
  qed
qed

interpretation tree_pool: phased_value_pool "tree_turn u" tree_idle threads tr_values "tree_inv u threads" tree_phase for u threads
proof (unfold_locales, goal_cases)
  case (1 t s)
  then show ?case by (simp add: tree_idle_def tree_phase_def split: tree_pc.splits)
next
  case (2 t r s ev s')
  then show ?case by (rule tree_turn_phase[THEN conjunct1])
next
  case (3 t r s ev s' t')
  then show ?case by (intro tree_turn_phase[THEN conjunct2, rule_format])
qed

section \<open>How much is left\<close>

text \<open>The inner node that a thread is busy at, if there is one, and whether it is below a node.\<close>

definition wait_node :: "position \<Rightarrow> nat option" where
  "wait_node p = (case p of Nowhere \<Rightarrow> None | At (In_Left m) \<Rightarrow> Some m | At (In_Right m) \<Rightarrow> Some m
     | Rising n \<Rightarrow> if n = 0 then None else Some ((n - 1) div 2))"

definition busy_below :: "nat \<Rightarrow> nat \<Rightarrow> position \<Rightarrow> int" where
  "busy_below n h p = (case wait_node p of None \<Rightarrow> 0 | Some m \<Rightarrow> if \<exists>j < h. below_node n j m then 1 else 0)"

lemma waiting_wait_node: "waiting m p = (if wait_node p = Some m then 1 else 0)"
  by (auto simp: waiting_def wait_node_def split: position.splits frame.splits)

lemma busy_below_Suc: "busy_below n (Suc h) p = waiting n p + busy_below (2 * n + 1) h p + busy_below (2 * n + 2) h p"
proof (cases "wait_node p")
  case None
  then show ?thesis
    by (simp add: busy_below_def waiting_wait_node)
next
  case (Some m)
  have all: "(\<exists>j < Suc h. below_node n j m) \<longleftrightarrow> m = n \<or> (\<exists>j < h. below_node (2 * n + 1) j m) \<or> (\<exists>j < h. below_node (2 * n + 2) j m)"
    by (subst Ex_less_Suc2) (auto simp: below_node_Suc)
  have "\<not> below_node (2 * n + 1) j n" "\<not> below_node (2 * n + 2) j n" for j
    using div_le_dividend[of "n + 1" "2 ^ j"] unfolding below_node_def by linarith+
  moreover have "\<not> (below_node (2 * n + 1) i m \<and> below_node (2 * n + 2) j m)" for i j
    using below_node_siblings by blast
  ultimately show ?thesis
    using Some by (simp add: busy_below_def waiting_wait_node all) blast
qed

text \<open>The values in the leaves below a node are what the node offers and what the threads below it are busy with.\<close>

definition free_below :: "'a \<Rightarrow> 'a LockFreeTreeValuePool \<Rightarrow> nat \<Rightarrow> nat \<Rightarrow> int" where
  "free_below u that n h = int (card {i. (n + 1) * 2 ^ h \<le> i + tp_size that \<and> i + tp_size that < (n + 2) * 2 ^ h \<and> i < length (tp_pool that) \<and> tp_pool that ! i \<noteq> u})"

lemma free_below_Suc: "free_below u that n (Suc h) = free_below u that (2 * n + 1) h + free_below u that (2 * n + 2) h"
proof -
  let ?S = "\<lambda>n h. {i. (n + 1) * 2 ^ h \<le> i + tp_size that \<and> i + tp_size that < (n + 2) * 2 ^ h \<and> i < length (tp_pool that) \<and> tp_pool that ! i \<noteq> u}"
  have "(n + 1) * 2 ^ Suc h = (2 * n + 1 + 1) * 2 ^ h" "(2 * n + 1 + 2) * 2 ^ h = (2 * n + 2 + 1) * 2 ^ h" "(n + 2) * 2 ^ Suc h = (2 * n + 2 + 2) * (2 :: nat) ^ h"
    "(2 * n + 1 + 1) * 2 ^ h \<le> (2 * n + 2 + 1) * (2 :: nat) ^ h" "(2 * n + 2 + 1) * 2 ^ h \<le> (2 * n + 2 + 2) * (2 :: nat) ^ h"
    by (simp_all add: algebra_simps)
  then have "?S n (Suc h) = ?S (2 * n + 1) h \<union> ?S (2 * n + 2) h" "?S (2 * n + 1) h \<inter> ?S (2 * n + 2) h = {}"
    by auto
  moreover have "finite (?S m h)" for m h
    by (rule finite_subset[of _ "{..<length (tp_pool that)}"]) auto
  ultimately show ?thesis
    by (simp add: free_below_def card_Un_disjoint)
qed

lemma free_offers:
  assumes bal: "balanced (tp_size that - 1) (read_counter that) (offers u that) threads ps" and shape: "tree_shape that" and size: "tp_size that = 2 ^ k"
    and wait: "\<And>t m. t < threads \<Longrightarrow> wait_node (ps t) = Some m \<Longrightarrow> present that m"
    and "below_node 0 j x" "j + h = k"
  shows "free_below u that x h = offers u that x + sum_over (busy_below x h) threads ps"
  using assms(5,6)
proof (induction h arbitrary: x j)
  case 0
  have le: "tp_size that \<le> x + 1"
    using below_root(2)[OF 0(1), of "Suc j"] 0(2) size by simp
  define y where "y = x + 1 - tp_size that"
  have "x + 1 \<le> i + tp_size that \<and> i + tp_size that < x + 2 \<longleftrightarrow> i = y" for i
    using le unfolding y_def by arith
  then have "((x + 1) * 2 ^ 0 \<le> i + tp_size that \<and> i + tp_size that < (x + 2) * 2 ^ 0 \<and> i < length (tp_pool that) \<and> tp_pool that ! i \<noteq> u) \<longleftrightarrow>
      i = y \<and> y < length (tp_pool that) \<and> tp_pool that ! y \<noteq> u" for i
    unfolding power_0 mult_1_right by metis
  then have "{i. (x + 1) * 2 ^ 0 \<le> i + tp_size that \<and> i + tp_size that < (x + 2) * 2 ^ 0 \<and> i < length (tp_pool that) \<and> tp_pool that ! i \<noteq> u} =
      (if y < length (tp_pool that) \<and> tp_pool that ! y \<noteq> u then {y} else {})"
    unfolding set_eq_iff mem_Collect_eq by simp
  moreover have busy: "sum_over (busy_below x 0) threads ps = 0"
    by (auto simp: sum_over_def busy_below_def intro!: sum.neutral split: option.splits)
  moreover have "y = x - (tp_size that - 1)" "tp_size that - 1 \<le> x"
    using le shape by (simp_all add: tree_shape_def y_def)
  ultimately show ?case
    using busy by (simp only: free_below_def offers_def) simp
next
  case (Suc h)
  have x: "x < tp_size that - 1"
    using below_root(1)[OF Suc.prems(1), of k] Suc.prems(2) size by simp
  have "below_node 0 (Suc j) (2 * x + 1)" "below_node 0 (Suc j) (2 * x + 2)"
    using Suc.prems(1) by (simp_all add: below_node_def div_mult2_eq)
  then have IH: "free_below u that (2 * x + 1) h = offers u that (2 * x + 1) + sum_over (busy_below (2 * x + 1) h) threads ps"
     "free_below u that (2 * x + 2) h = offers u that (2 * x + 2) + sum_over (busy_below (2 * x + 2) h) threads ps"
    using Suc.IH[of "Suc j"] Suc.prems(2) by simp_all
  have busy: "sum_over (busy_below x (Suc h)) threads ps =
      sum_over (waiting x) threads ps + sum_over (busy_below (2 * x + 1) h) threads ps + sum_over (busy_below (2 * x + 2) h) threads ps"
    by (simp add: sum_over_def busy_below_Suc sum.distrib)
  have "offers u that (2 * x + 1) + offers u that (2 * x + 2) = offers u that x + sum_over (waiting x) threads ps"
  proof (cases "read_counter that x")
    case None
    then have "\<not> present that x"
      using x by (simp add: present_def)
    then have "\<not> present that (2 * x + 1)" "\<not> present that (2 * x + 2)"
      using shape unfolding tree_shape_def by (metis add_diff_cancel_right' add_is_0 nonzero_mult_div_cancel_left one_neq_zero zero_neq_numeral, fastforce)
    moreover have "offers u that y = 0" if "\<not> present that y" for y
      using that by (auto simp: present_def offers_def split: if_splits)
    moreover have "sum_over (waiting x) threads ps = 0"
      using wait \<open>\<not> present that x\<close> by (auto simp: sum_over_def waiting_wait_node intro!: sum.neutral)
    ultimately show ?thesis
      using \<open>\<not> present that x\<close> by simp
  next
    case (Some c)
    then have "offers u that x = c"
      using x by (simp add: offers_def)
    then show ?thesis
      using bal x Some unfolding balanced_def by simp
  qed
  then show ?case
    using IH busy free_below_Suc[of u that x h] by simp
qed

lemma tree_inv_wait:
  assumes "tree_inv u threads held s" "wait_node (position_of (tr_pc s t)) = Some m"
  shows "present (tr_that s) m" "m < tp_size (tr_that s) - 1"
proof -
  have ok: "tree_pc_ok (tr_that s) (tr_values s) (tr_pc s t)" and shape: "tree_shape (tr_that s)"
    using assms(1) by (simp_all add: tree_inv_def)
  have "present (tr_that s) m \<and> m < tp_size (tr_that s) - 1"
  proof (cases "position_of (tr_pc s t)")
    case Nowhere
    then show ?thesis
      using assms(2) by (simp add: wait_node_def)
  next
    case (At f)
    then obtain n where "comes_to (tp_size (tr_that s) - 1) (read_counter (tr_that s)) (At f) n"
      using ok by (cases "tr_pc s t") (auto simp: tree_pc_ok_def)
    then show ?thesis
      using assms(2) At by (auto simp: comes_to_def wait_node_def present_def)
  next
    case (Rising n)
    then have "tr_pc s t = Tree_Up n"
      by (cases "tr_pc s t") simp_all
    then have n: "present (tr_that s) n" "n \<noteq> 0" "m = (n - 1) div 2"
      using ok assms(2) Rising by (simp_all add: tree_pc_ok_def wait_node_def)
    have "n < 2 * tp_size (tr_that s) - 1"
      using n(1) shape by (auto simp: present_def tree_shape_def split: if_splits)
    then show ?thesis
      using n shape unfolding tree_shape_def by auto
  qed
  then show "present (tr_that s) m" "m < tp_size (tr_that s) - 1"
    by simp_all
qed

lemma cell_free:
  assumes cells: "cells_ok u vals held pool" and i: "i < length vals"
  shows "pool ! i \<noteq> u \<longleftrightarrow> i \<notin> fst ` held"
proof -
  have "i \<in> fst ` held \<longleftrightarrow> (i, vals ! i) \<in> held"
    using cells unfolding cells_ok_def by force
  moreover have "pool ! i = (if (i, vals ! i) \<in> held then u else vals ! i)" "vals ! i \<noteq> u"
    using cells i unfolding cells_ok_def by (blast, metis nth_mem)
  ultimately show ?thesis
    by simp
qed

text \<open>The leaf of index \<open>i\<close> is below the node \<open>n\<close>.\<close>

definition leaf_below :: "'a LockFreeTreeValuePool \<Rightarrow> nat \<Rightarrow> nat \<Rightarrow> bool" where
  "leaf_below that n i \<longleftrightarrow> (\<exists>x j. PoolIndexToNodeIndex that i = Some x \<and> below_node n j x)"

lemma leaf_below_interval:
  assumes n: "below_node 0 j n" "j + h = k" and size: "tp_size that = 2 ^ k" "i < tp_size that"
  shows "leaf_below that n i \<longleftrightarrow> (n + 1) * 2 ^ h \<le> i + tp_size that \<and> i + tp_size that < (n + 2) * 2 ^ h"
proof -
  let ?y = "i + tp_size that"
  have div_iff: "y div 2 ^ l = m + 1 \<longleftrightarrow> (m + 1) * 2 ^ l \<le> y \<and> y < (m + 2) * 2 ^ l" for y l m :: nat
    using less_eq_div_iff_mult_less_eq[of "2 ^ l" "m + 1" y] div_less_iff_less_mult[of "2 ^ l" y "m + 2"] by auto
  have "i + (tp_size that - 1) = ?y - 1" "IsLeaf that (?y - 1)"
    using size(2) unfolding IsLeaf_def by auto
  then have node: "PoolIndexToNodeIndex that i = Some (?y - 1)" "?y - 1 + 1 = ?y"
    using size(2) by (simp_all only: PoolIndexToNodeIndex_def Let_def if_True)
  have "l = h" if l: "?y div 2 ^ l = n + 1" for l
  proof -
    have "(n + 1) div 2 ^ j = 1"
      using n(1) by (simp add: below_node_def)
    then have "?y div 2 ^ (l + j) = 1"
      using l by (simp add: power_add div_mult2_eq)
    then have "2 ^ (l + j) \<le> ?y" "?y < 2 * 2 ^ (l + j)"
      using div_iff[of ?y "l + j" 0] by simp_all
    moreover have "2 ^ k \<le> ?y" "?y < 2 * 2 ^ k"
      using size by simp_all
    ultimately have "(2 :: nat) ^ (l + j) < 2 ^ Suc k" "(2 :: nat) ^ k < 2 ^ Suc (l + j)"
      by simp_all
    then have "l + j < Suc k" "k < Suc (l + j)"
      by (simp_all only: power_strict_increasing_iff one_less_numeral_iff semiring_norm)
    then show ?thesis
      using n(2) by simp
  qed
  then show ?thesis
    unfolding leaf_below_def below_node_def node(1) option.inject div_iff[symmetric] using node(2) by metis
qed

text \<open>When no operation is under way, a counter is the number of the values below its node that nobody holds.\<close>

lemma idle_counters:
  assumes inv: "tree_inv u threads held s" and idle: "\<forall>t < threads. tree_idle t s" and c: "read_counter (tr_that s) n = Some c"
  shows "c = int (card {i. i < length (tr_values s) \<and> i \<notin> fst ` held \<and> leaf_below (tr_that s) n i})"
proof -
  let ?ps = "position_of \<circ> tr_pc s"
  define that where "that = tr_that s"
  have shape: "tree_shape that" and cells: "cells_ok u (tr_values s) held (tp_pool that)"
    and bal: "balanced (tp_size that - 1) (read_counter that) (offers u that) threads ?ps"
    using inv by (simp_all add: tree_inv_def that_def)
  obtain k where k: "tp_size that = 2 ^ k" "length (tp_pool that) \<le> 2 ^ k" "length (tp_tree that) = 2 ^ k - 1"
    using shape by (auto simp: tree_shape_def)
  have "n < length (tp_tree that)"
    using c by (auto simp: read_counter_def deref_def that_def bind_eq_Some_conv split: if_splits)
  then have n: "n + 1 < 2 ^ k"
    using k(3) by simp
  then obtain j where j: "j < k" "below_node 0 j n"
    using node_level[of "n + 1" k] by (auto simp: below_node_def)
  define h where "h = k - j"
  have h: "j + h = k"
    using j(1) by (simp add: h_def)
  have "?ps t = Nowhere" if t: "t < threads" for t
  proof -
    have "tree_idle t s"
      using idle t by blast
    then show ?thesis
      by (simp add: tree_idle_def split: tree_pc.splits)
  qed
  then have "sum_over (busy_below n h) threads ?ps = 0"
    unfolding sum_over_def by (intro sum.neutral) (simp add: busy_below_def wait_node_def)
  moreover have "free_below u that n h = offers u that n + sum_over (busy_below n h) threads ?ps"
    using tree_inv_wait(1)[OF inv] j(2) h by (intro free_offers[OF bal shape k(1)]) (simp_all add: that_def)
  moreover have "offers u that n = c"
  proof -
    have "\<not> tp_size that - 1 \<le> n"
      using n k(1) by linarith
    then show ?thesis
      using c by (simp add: offers_def that_def)
  qed
  moreover have "((n + 1) * 2 ^ h \<le> i + tp_size that \<and> i + tp_size that < (n + 2) * 2 ^ h \<and> i < length (tp_pool that) \<and> tp_pool that ! i \<noteq> u) \<longleftrightarrow>
      i < length (tr_values s) \<and> i \<notin> fst ` held \<and> leaf_below that n i" for i
  proof (cases "i < length (tr_values s)")
    case True
    then have "i < length (tp_pool that)" "i < tp_size that"
      using cells k(1,2) by (simp_all add: cells_ok_def)
    then show ?thesis
      using True cell_free[OF cells True] leaf_below_interval[OF j(2) h k(1), of i] by blast
  qed (use cells in \<open>simp add: cells_ok_def\<close>)
  ultimately show ?thesis
    by (simp add: free_below_def that_def)
qed

text \<open>In all, the values that nobody holds are as many as the root offers and operations are under way below it.\<close>

lemma tree_inv_counts:
  assumes inv: "tree_inv u threads held s" and held: "inj_on fst held"
  shows "int (length (tr_values s)) - int (card held) = offers u (tr_that s) 0 + int (card {t. t < threads \<and> position_of (tr_pc s t) \<noteq> Nowhere})"
proof -
  let ?ps = "position_of \<circ> tr_pc s" and ?n = "length (tr_values s)"
  define that where "that = tr_that s"
  have shape: "tree_shape that" and cells: "cells_ok u (tr_values s) held (tp_pool that)"
    and bal: "balanced (tp_size that - 1) (read_counter that) (offers u that) threads ?ps"
    using inv by (simp_all add: tree_inv_def that_def)
  obtain k where k: "tp_size that = 2 ^ k" "length (tp_pool that) \<le> 2 ^ k"
    using shape by (auto simp: tree_shape_def)
  have free: "free_below u that 0 k = offers u that 0 + sum_over (busy_below 0 k) threads ?ps"
    using tree_inv_wait(1)[OF inv] by (intro free_offers[OF bal shape k(1), where j = 0]) (simp_all add: that_def)
  have "busy_below 0 k (?ps t) = (if ?ps t \<noteq> Nowhere then 1 else 0)" for t
  proof (cases "wait_node (?ps t)")
    case None
    moreover have "tree_pc_ok that (tr_values s) (tr_pc s t)"
      using inv by (simp add: tree_inv_def that_def)
    ultimately have "?ps t = Nowhere"
      by (cases "tr_pc s t") (auto simp: wait_node_def tree_pc_ok_def split: position.splits frame.splits if_splits)
    then show ?thesis
      by (simp add: busy_below_def wait_node_def)
  next
    case (Some m)
    then have "m < 2 ^ k - 1"
      using tree_inv_wait(2)[OF inv, of t m] k(1) by (simp add: that_def)
    then have "\<exists>j < k. below_node 0 j m"
      using node_level[of "m + 1" k] by (simp add: below_node_def)
    then show ?thesis
      using Some by (auto simp: busy_below_def wait_node_def)
  qed
  then have "sum_over (busy_below 0 k) threads ?ps = (\<Sum>t < threads. if ?ps t \<noteq> Nowhere then 1 else 0)"
    by (simp add: sum_over_def)
  also have "\<dots> = int (card ({..<threads} \<inter> {t. ?ps t \<noteq> Nowhere}))"
    by (simp add: sum.If_cases)
  also have "{..<threads} \<inter> {t. ?ps t \<noteq> Nowhere} = {t. t < threads \<and> position_of (tr_pc s t) \<noteq> Nowhere}"
    by auto
  finally have busy: "sum_over (busy_below 0 k) threads ?ps = int (card {t. t < threads \<and> position_of (tr_pc s t) \<noteq> Nowhere})" .
  have sub: "fst ` held \<subseteq> {..<?n}"
    using cells by (auto simp: cells_ok_def)
  have "{i. (0 + 1) * 2 ^ k \<le> i + tp_size that \<and> i + tp_size that < (0 + 2) * 2 ^ k \<and> i < length (tp_pool that) \<and> tp_pool that ! i \<noteq> u} = {..<?n} - fst ` held"
  proof (rule set_eqI)
    fix i
    have "tp_pool that ! i \<noteq> u \<longleftrightarrow> i \<notin> fst ` held" if "i < ?n"
      by (rule cell_free[OF cells that])
    moreover have "length (tp_pool that) = ?n"
      using cells by (simp add: cells_ok_def)
    ultimately show "i \<in> {i. (0 + 1) * 2 ^ k \<le> i + tp_size that \<and> i + tp_size that < (0 + 2) * 2 ^ k \<and> i < length (tp_pool that) \<and> tp_pool that ! i \<noteq> u} \<longleftrightarrow>
        i \<in> {..<?n} - fst ` held"
      using k by auto
  qed
  moreover have "int (card ({..<?n} - fst ` held)) = int ?n - int (card held)"
    using sub finite_subset[OF sub] card_mono[OF _ sub] held by (simp add: card_Diff_subset card_image)
  ultimately have "free_below u that 0 k = int ?n - int (card held)"
    by (simp only: free_below_def)
  then show ?thesis
    using free busy by (simp add: that_def)
qed

section \<open>A new pool\<close>

lemma tree_start_inv:
  assumes "elements \<noteq> []" "length elements \<le> 2 ^ 29" "u \<notin> set elements"
  shows "\<exists>that. LockFreeTreeValuePool_new elements = Some that \<and> tree_inv u threads {} (tree_start that elements)"
proof -
  let ?used = "length elements"
  obtain that k where new: "LockFreeTreeValuePool_new elements = Some that" "tp_size that = 2 ^ k" "?used \<le> 2 ^ k" "tp_pool that = elements"
      "length (tp_tree that) = 2 ^ k - 1"
    and counters: "\<And>j x. j < k \<Longrightarrow> below_node 0 j x \<Longrightarrow> tp_tree that ! x =
        (if leaves_below (2 ^ k) ?used x (k - j) = 0 then None else Some (int (leaves_below (2 ^ k) ?used x (k - j))))"
    using tree_pool_new[OF assms(1,2)] by blast
  define c where "c j x = leaves_below (2 ^ k) ?used x (k - j)" for j x
  have inner: "read_counter that x = (if c j x = 0 then None else Some (int (c j x)))" "x < 2 ^ k - 1" if "j < k" "below_node 0 j x" for j x
    using counters[OF that] below_root(1)[OF that(2,1)] new(5) by (simp_all add: read_counter_def c_def)
  have leaf: "2 ^ k \<le> x + 1" "c k x = (if x + 1 - 2 ^ k < ?used then 1 else 0)" if "below_node 0 k x" for x
    using below_root(2)[OF that, of "Suc k"] by (simp_all add: c_def leaves_below_def)
  have node: "present that x \<longleftrightarrow> c j x \<noteq> 0" "offers u that x = int (c j x)" if "j \<le> k" "below_node 0 j x" for j x
  proof -
    have "(present that x \<longleftrightarrow> c j x \<noteq> 0) \<and> offers u that x = int (c j x)"
    proof (cases "j = k")
      case True
      then have x: "2 ^ k \<le> x + 1" "c k x = (if x + 1 - 2 ^ k < ?used then 1 else 0)"
        using leaf[of x] that(2) by simp_all
      moreover have "2 ^ k - 1 \<le> x" "x - (2 ^ k - 1) = x + 1 - 2 ^ k"
        using x(1) by simp_all
      moreover have "elements ! (x + 1 - 2 ^ k) \<noteq> u" if "x + 1 - 2 ^ k < ?used"
        using assms(3) nth_mem[OF that] by metis
      ultimately show ?thesis
        using True new(2,4) by (simp add: present_def offers_def)
    next
      case False
      then have "j < k"
        using that(1) by simp
      from inner[OF this that(2)] show ?thesis
        using new(2) by (simp add: present_def offers_def)
    qed
    then show "present that x \<longleftrightarrow> c j x \<noteq> 0" "offers u that x = int (c j x)"
      by simp_all
  qed
  have level: "\<exists>j \<le> k. below_node 0 j x" if "present that x" for x
  proof -
    have "x + 1 < 2 ^ Suc k"
      using that new(2-4) by (auto simp: present_def split: if_splits)
    then show ?thesis
      using node_level[of "x + 1" "Suc k"] by (auto simp: below_node_def less_Suc_eq_le)
  qed
  have children: "below_node 0 (Suc j) (2 * m + 1)" "below_node 0 (Suc j) (2 * m + 2)" "c (Suc j) (2 * m + 1) + c (Suc j) (2 * m + 2) = c j m"
      "c j m \<noteq> 0 \<Longrightarrow> c (Suc j) (2 * m + 1) \<noteq> 0" if m: "j < k" "below_node 0 j m" for j m
  proof -
    show "below_node 0 (Suc j) (2 * m + 1)" "below_node 0 (Suc j) (2 * m + 2)"
      using m(2) by (simp_all add: below_node_def div_mult2_eq)
    have h: "k - j = Suc (k - Suc j)"
      using m(1) by simp
    have "2 ^ j * 2 ^ (k - j) \<le> (m + 1) * 2 ^ (k - j)"
      using below_root(2)[OF m(2,1)] by (rule mult_right_mono) simp
    moreover have "(2 :: nat) ^ j * 2 ^ (k - j) = 2 ^ k"
      using m(1) by (simp only: power_add[symmetric]) simp
    ultimately have "2 ^ k \<le> (m + 1) * 2 ^ Suc (k - Suc j)"
      unfolding h by simp
    from leaves_below_children[OF this, of ?used]
    show "c (Suc j) (2 * m + 1) + c (Suc j) (2 * m + 2) = c j m" "c j m \<noteq> 0 \<Longrightarrow> c (Suc j) (2 * m + 1) \<noteq> 0"
      unfolding c_def h by (blast, metis not_less power_not_zero zero_neq_numeral)
  qed
  have inner_level: "\<exists>j < k. below_node 0 j m" if "m < 2 ^ k - 1" for m
    using node_level[of "m + 1" k] that by (simp add: below_node_def)
  have "tree_shape that"
    unfolding tree_shape_def new(2)
  proof (intro conjI allI impI)
    show "\<exists>i. (2 :: nat) ^ k = 2 ^ i" "(0 :: nat) < 2 ^ k" "length (tp_tree that) = 2 ^ k - 1" "length (tp_pool that) \<le> 2 ^ k"
      using new by auto
    show "present that 0"
      using node(1)[of 0 0] assms(1) new(3) by (simp add: c_def leaves_below_def)
    show "present that (2 * m + 1)" if "m < 2 ^ k - 1" "present that m" for m
      using inner_level[OF that(1)] node(1) children(1,4) that(2) by (metis Suc_leI less_imp_le)
    fix x
    assume x: "present that x \<and> x \<noteq> 0"
    then obtain j where j: "j \<le> k" "below_node 0 j x"
      using level by blast
    then obtain i where i: "j = Suc i"
      using x by (cases j) simp_all
    define m where "m = (x - 1) div 2"
    have m: "x = 2 * m + 1 \<or> x = 2 * m + 2"
      using conjunct2[OF x] unfolding m_def by presburger
    then have "below_node 0 i m"
      using j(2) by (auto simp: i below_node_def div_mult2_eq)
    then have "c i m \<noteq> 0"
      using children(3)[of i m] node(1)[OF j] x j(1) m by (auto simp: i)
    then show "present that ((x - 1) div 2)"
      using node(1)[OF _ \<open>below_node 0 i m\<close>] j(1) by (simp add: i m_def)
  qed
  moreover have "balanced (tp_size that - 1) (read_counter that) (offers u that) threads (\<lambda>_. Nowhere)"
    unfolding balanced_def new(2)
  proof (intro allI impI)
    fix m d
    assume m: "m < 2 ^ k - 1" "read_counter that m = Some d"
    then obtain j where j: "j < k" "below_node 0 j m"
      using inner_level by blast
    then have "d = int (c j m)"
      using inner(1) m(2) by (simp split: if_splits)
    then show "0 \<le> d \<and> offers u that (2 * m + 1) + offers u that (2 * m + 2) = d + sum_over (waiting m) threads (\<lambda>_. Nowhere) \<and>
        sum_over (in_right m) threads (\<lambda>_. Nowhere) \<le> offers u that (2 * m + 2)"
      using node(2)[of "Suc j"] children(1-3)[OF j] j(1) by (simp add: sum_over_def waiting_def in_right_def)
  qed
  ultimately show ?thesis
    using new(1,4) assms(3) by (simp add: tree_inv_def tree_start_def cells_ok_def tree_pc_ok_def comp_def)
qed

section \<open>Properties\<close>

lemma tree_idle_iff: "tree_idle t s \<longleftrightarrow> tr_pc s t = Tree_Idle"
  by (simp add: tree_idle_def split: tree_pc.splits)

text \<open>A small pool for the examples.\<close>

lemma new_tree_example:
  "\<exists>that. LockFreeTreeValuePool_new [5, 6 :: nat] = Some that \<and> that = \<lparr>tp_size = 2, tp_real_size = 2, tp_tree = [Some 2], tp_pool = [5, 6]\<rparr>"
proof -
  have two: "GetSmallestPowerByTwoValue (length [5, 6 :: nat]) = Some 2"
    by (simp add: GetSmallestPowerByTwoValue_def power_loop.simps)
  let ?that = "\<lparr>tp_size = 2, tp_real_size = 2, tp_tree = [None], tp_pool = [5, 6 :: nat]\<rparr>"
  have leaf: "Fill ?that 1 n p tree = Some tree" "Fill ?that 2 n p tree = Some tree" for n p tree
    by (simp_all add: Fill.simps[of ?that] IsLeaf_def)
  have "Fill ?that 0 2 2 [None] = Some [Some 2]"
    using leaf by (subst Fill.simps) (simp add: IsLeaf_def GetLeftChildIndex_def GetRightChildIndex_def IsValid_def Let_def flip: numeral_2_eq_2)
  then show ?thesis
    unfolding LockFreeTreeValuePool_new_def two by (simp add: Let_def flip: numeral_2_eq_2)
qed

lemmas tree_turn_simps = tree_turn_def tree_goto_def allocate_rec_def allocate_swap_def allocate_take_def free_store_def free_climb_def free_loop_def
  read_counter_def write_counter_def IsLeaf_def IsValid_def GetLeftChildIndex_def GetRightChildIndex_def NodeIndexToPoolIndex_def PoolIndexToNodeIndex_def
  IsRoot_def GetParentNode_def tree_start_def

text \<open>
  C13. The lock-free pool is safe. For a pool of at least one and at most \<open>2 ^ 29\<close> values without \<^verbatim>\<open>Undefined\<close>, however the turns of the threads follow each other, as long as only
  held values are given back: every turn is defined, so that no assertion fails (in particular a thread that finds nothing at a left child finds a value at the right one), no
  access is outside of the arrays and no uninitialised counter is read; and a value that is taken belongs to its index and is held by nobody.
\<close>

theorem tree_pool_safe:
  assumes "elements \<noteq> []" "length elements \<le> 2 ^ 29" "Undefined \<notin> set elements" "LockFreeTreeValuePool_new elements = Some that"
    and "pool_reach (tree_turn Undefined) tree_idle threads (tree_start that elements) held s" "t < threads" "legal_request held (tree_idle t s) request"
  shows "\<exists>ev s'. tree_turn Undefined t request s = Some (ev, s') \<and>
     (\<forall>i e. ev = Took i e \<longrightarrow> i < length elements \<and> e = elements ! i \<and> (\<forall>e'. (i, e') \<notin> held)) \<and>
     inj_on fst held \<and> card held \<le> length elements"
proof -
  have start: "tree_inv Undefined threads {} (tree_start that elements)" and vals: "tr_values (tree_start that elements) = elements"
    using tree_start_inv[OF assms(1-3), of threads] assms(4) by (simp_all add: tree_start_def)
  obtain ev s' where "tree_turn Undefined t request s = Some (ev, s')" "sound_event elements held ev"
    using tree_pool.turn_defined[OF start assms(5-7)] vals by auto
  then show ?thesis
    using tree_pool.held_at_most_once[OF start assms(5)] vals by (auto simp: sound_event_def)
qed

theorem tree_pool_safe_witness:
  "\<exists>that held s ev s'. LockFreeTreeValuePool_new [5, 6 :: nat] = Some that \<and> pool_reach (tree_turn 0) tree_idle 2 (tree_start that [5, 6]) held s \<and> held = {(0, 5)} \<and>
     tree_turn 0 1 Allocate_Request s = Some (ev, s') \<and> inj_on fst held"
proof -
  obtain that where pool: "LockFreeTreeValuePool_new [5, 6 :: nat] = Some that" "that = \<lparr>tp_size = 2, tp_real_size = 2, tp_tree = [Some 2], tp_pool = [5, 6]\<rparr>"
    using new_tree_example by blast
  define play where "play = map (\<lambda>t :: nat. (t, Allocate_Request :: nat pool_request)) [0, 1, 0, 1, 0, 1, 1, 0, 0]"
  obtain s where s: "pool_play (tree_turn 0) tree_idle 2 play {} (tree_start that [5, 6]) = Some ({(0, 5)}, s)"
    by (simp add: play_def pool(2) tree_idle_iff legal_request_def tree_turn_simps)
  have reach: "pool_reach (tree_turn 0) tree_idle 2 (tree_start that [5, 6]) {(0, 5)} s"
    by (rule pool_play_reach[OF s pool_start])
  have "[5, 6 :: nat] \<noteq> []" "length [5, 6 :: nat] \<le> 2 ^ 29" "0 \<notin> set [5, 6 :: nat]" "(1 :: nat) < 2" "legal_request {(0, 5)} (tree_idle 1 s) Allocate_Request"
    by (simp_all add: legal_request_def)
  from tree_pool_safe[OF this(1-3) pool(1) reach this(4,5)] show ?thesis
    using pool(1) reach by blast
qed

lemma tree_fail_refused: "tree_fail t frames s = Some (Refused, s') \<Longrightarrow> frames = []"
  by (induction t frames s rule: tree_fail.induct) (auto simp: bind_eq_Some_conv)

lemma refused_position:
  "tree_turn u t r s = Some (Refused, s') \<Longrightarrow> tr_pc s t \<noteq> Tree_Idle \<and> position_of (tr_pc s t) = Nowhere"
  by (auto simp: tree_turn_def free_store_def allocate_rec_def allocate_swap_def allocate_take_def free_climb_def Let_def bind_eq_Some_conv
      dest!: tree_fail_refused split: tree_pc.splits pool_request.splits if_splits)

text \<open>
  C17. What the counters of the tree mean, and why nothing is refused without a reason. In every state that is reached: if no operation is under way, each counter of the tree is the
  number of the values below its node that nobody holds. And if an \<^verbatim>\<open>Allocate\<close> returns without a value, then as many values are free as operations of other threads are under way
  in the tree, so that each free value is spoken for; if no other thread has an operation under way, all values are held.
\<close>

theorem tree_pool_refuses_when_taken:
  assumes "elements \<noteq> []" "length elements \<le> 2 ^ 29" "Undefined \<notin> set elements" "LockFreeTreeValuePool_new elements = Some that"
    and "pool_reach (tree_turn Undefined) tree_idle threads (tree_start that elements) held s" "t < threads"
  shows "((\<forall>t' < threads. tree_idle t' s) \<longrightarrow>
      (\<forall>n c. read_counter (tr_that s) n = Some c \<longrightarrow>
         c = int (card {i. i < length elements \<and> i \<notin> fst ` held \<and> leaf_below (tr_that s) n i}))) \<and>
    (\<forall>request s'. tree_turn Undefined t request s = Some (Refused, s') \<longrightarrow>
       \<not> tree_idle t s \<and> length elements - card held = card {t'. t' < threads \<and> position_of (tr_pc s t') \<noteq> Nowhere} \<and>
       ((\<forall>t'. t' \<noteq> t \<longrightarrow> tree_idle t' s) \<longrightarrow> card held = length elements))"
proof -
  have start: "tree_inv Undefined threads {} (tree_start that elements)" and vals: "tr_values (tree_start that elements) = elements"
    using tree_start_inv[OF assms(1-3), of threads] assms(4) by (simp_all add: tree_start_def)
  have inv: "tree_inv Undefined threads held s" "tr_values s = elements"
    using tree_pool.reach_inv[OF start assms(5)] vals by simp_all
  note one = tree_pool.held_at_most_once[OF start assms(5), unfolded vals]
  have counters: "c = int (card {i. i < length elements \<and> i \<notin> fst ` held \<and> leaf_below (tr_that s) n i})"
    if "\<forall>t' < threads. tree_idle t' s" "read_counter (tr_that s) n = Some c" for n c
    using idle_counters[OF inv(1) that] inv(2) by simp
  have refused: "\<not> tree_idle t s" "length elements - card held = card {t'. t' < threads \<and> position_of (tr_pc s t') \<noteq> Nowhere}"
      "(\<forall>t'. t' \<noteq> t \<longrightarrow> tree_idle t' s) \<longrightarrow> card held = length elements"
    if refusal: "tree_turn Undefined t request s = Some (Refused, s')" for request s'
  proof -
    have busy: "\<not> tree_idle t s" "position_of (tr_pc s t) = Nowhere"
      using refused_position[OF refusal] by (simp_all add: tree_idle_def split: tree_pc.splits)
    then have "legal_request held (tree_idle t s) request"
      by (simp add: legal_request_def)
    from tree_turn_good[OF inv(1) assms(6) this] have "offers Undefined (tr_that s) 0 = 0"
      using refusal by (simp add: good_turn_def)
    then have count: "int (length elements) - int (card held) = int (card {t'. t' < threads \<and> position_of (tr_pc s t') \<noteq> Nowhere})"
      using tree_inv_counts[OF inv(1) one(1)] inv(2) by simp
    then show "length elements - card held = card {t'. t' < threads \<and> position_of (tr_pc s t') \<noteq> Nowhere}"
      by linarith
    have "position_of (tr_pc s t') = Nowhere" if "\<forall>t'. t' \<noteq> t \<longrightarrow> tree_idle t' s" for t'
      using that busy(2) tree_idle_iff[of t' s] by (cases "t' = t") simp_all
    then show "(\<forall>t'. t' \<noteq> t \<longrightarrow> tree_idle t' s) \<longrightarrow> card held = length elements"
      using count by auto
    show "\<not> tree_idle t s"
      by (rule busy(1))
  qed
  then show ?thesis
    using counters by blast
qed

theorem tree_pool_refuses_when_taken_witness:
  "\<exists>that held s s'. LockFreeTreeValuePool_new [5, 6 :: nat] = Some that \<and> pool_reach (tree_turn 0) tree_idle 3 (tree_start that [5, 6]) held s \<and>
     held = {(0, 5)} \<and> tree_turn 0 2 Allocate_Request s = Some (Refused, s') \<and>
     length [5, 6 :: nat] - card held = card {t. t < 3 \<and> position_of (tr_pc s t) \<noteq> Nowhere} \<and>
     read_counter (tr_that (tree_start that [5, 6])) 0 = Some 2 \<and>
     2 = int (card {i. i < 2 \<and> i \<notin> fst ` ({} :: (nat \<times> nat) set) \<and> leaf_below (tr_that (tree_start that [5, 6])) 0 i})"
proof -
  obtain that where pool: "LockFreeTreeValuePool_new [5, 6 :: nat] = Some that" "that = \<lparr>tp_size = 2, tp_real_size = 2, tp_tree = [Some 2], tp_pool = [5, 6]\<rparr>"
    using new_tree_example by blast
  define play where "play = map (\<lambda>t :: nat. (t, Allocate_Request :: nat pool_request)) [0, 0, 0, 0, 0, 1, 1, 1, 2]"
  obtain s s' where s: "pool_play (tree_turn 0) tree_idle 3 play {} (tree_start that [5, 6]) = Some ({(0, 5)}, s)" "tree_turn 0 2 Allocate_Request s = Some (Refused, s')"
    by (simp add: play_def pool(2) tree_idle_iff legal_request_def tree_turn_simps)
  have reach: "pool_reach (tree_turn 0) tree_idle 3 (tree_start that [5, 6]) {(0, 5)} s"
    by (rule pool_play_reach[OF s(1) pool_start])
  have start: "pool_reach (tree_turn 0) tree_idle 3 (tree_start that [5, 6]) {} (tree_start that [5, 6])"
    by (rule pool_start)
  have idle: "\<forall>t < 3. tree_idle t (tree_start that [5, 6])" "read_counter (tr_that (tree_start that [5, 6])) 0 = Some 2"
    by (simp_all add: tree_idle_def tree_start_def pool(2) read_counter_def deref_def)
  have cond: "[5, 6 :: nat] \<noteq> []" "length [5, 6 :: nat] \<le> 2 ^ 29" "0 \<notin> set [5, 6 :: nat]" "(2 :: nat) < 3"
    by simp_all
  note used = tree_pool_refuses_when_taken[OF cond(1-3) pool(1) _ cond(4)]
  have "2 = int (card {i. i < length [5, 6 :: nat] \<and> i \<notin> fst ` ({} :: (nat \<times> nat) set) \<and> leaf_below (tr_that (tree_start that [5, 6])) 0 i})"
    using used[OF start] idle by blast
  then have two: "2 = int (card {i. i < 2 \<and> i \<notin> fst ` ({} :: (nat \<times> nat) set) \<and> leaf_below (tr_that (tree_start that [5, 6])) 0 i})"
    by (simp only: list.size numeral_2_eq_2 add_0 add_Suc_right add_0_right)
  have "length [5, 6 :: nat] - card {(0 :: nat, 5 :: nat)} = card {t. t < 3 \<and> position_of (tr_pc s t) \<noteq> Nowhere}"
    using used[OF reach] s(2) by blast
  then show ?thesis
    using pool(1) reach s(2) idle(2) two by blast
qed

end
