(* ===== verification/Object_Pool.thy ===== *)
theory Object_Pool
  imports Array_Value_Pool Tree_Pool_Contract
begin

text \<open>
  Object pools (\<^verbatim>\<open>object_pool-inl.h\<close>). The memory for a fixed number of objects is allocated once; a value pool of the values \<^verbatim>\<open>true\<close> says which slots are free. \<^verbatim>\<open>Allocate\<close>
  takes a value and constructs an object in the slot with its index, \<^verbatim>\<open>Free\<close> destructs the object and gives the value back. The locale \<open>object_pool_client\<close> shows that
  objects never overlap for every value pool that keeps the contract \<open>value_pool\<close>; it is interpreted for both value pools of the library.
\<close>

section \<open>The pool\<close>

text \<open>A slot without an object is \<open>None\<close>. Pointers are the indices of their slots. Next to the pool stands the operation that each thread has under way.\<close>

record ('s, 'o) ObjectPool =
  op_objects :: "'o option list"
  op_capacity :: nat
  op_p :: 's

datatype 'o object_request = Allocate_Object 'o | Free_Object nat
datatype object_event = Object_Internal | Object_Created nat | Object_Freed nat | Object_Null

record ('s, 'o) object_system =
  os_that :: "('s, 'o) ObjectPool"
  os_doing :: "nat \<Rightarrow> 'o object_request option"

type_synonym 's bool_turn = "nat \<Rightarrow> bool pool_request \<Rightarrow> 's \<Rightarrow> (bool pool_event \<times> 's) option"

text \<open>The value pool is made from a range in which each element is \<^verbatim>\<open>true\<close> (\<^verbatim>\<open>ReturningTrueIterator\<close>).\<close>

definition returning_true :: "nat \<Rightarrow> bool list" where
  "returning_true count_value = replicate count_value True"

definition ObjectPool_new :: "(bool list \<Rightarrow> 's option) \<Rightarrow> nat \<Rightarrow> ('s, 'o) ObjectPool option" where
  "ObjectPool_new make_pool capacity =
     do { p \<leftarrow> make_pool (returning_true capacity);
          Some \<lparr>op_objects = replicate capacity None, op_capacity = capacity, op_p = p\<rparr> }"

definition IsContained :: "('s, 'o) ObjectPool \<Rightarrow> nat \<Rightarrow> bool" where
  "IsContained that obj = (if op_capacity that - 1 < obj then False else True)"

definition GetIndexOfObject :: "('s, 'o) ObjectPool \<Rightarrow> nat \<Rightarrow> nat option" where
  "GetIndexOfObject that obj = (if IsContained that obj then Some obj else None)"

definition object_done :: "nat \<Rightarrow> 'o object_request option \<Rightarrow> ('s, 'o) ObjectPool \<Rightarrow> ('s, 'o) object_system \<Rightarrow> ('s, 'o) object_system" where
  "object_done t doing that s = s\<lparr>os_that := that, os_doing := (os_doing s)(t := doing)\<rparr>"

text \<open>
  One turn in \<^verbatim>\<open>Allocate\<close>, which constructs \<open>obj\<close>: a turn of the value pool, and the construction of the object once there is a slot. The construction is part of the turn in
  which the slot was taken, since nobody else can access it.
\<close>

definition object_allocate :: "'s bool_turn \<Rightarrow> nat \<Rightarrow> 'o \<Rightarrow> ('s, 'o) object_system \<Rightarrow> (object_event \<times> ('s, 'o) object_system) option" where
  "object_allocate turn t obj s =
     (let that = os_that s in do {
        (ev, p) \<leftarrow> turn t Allocate_Request (op_p that);
        case ev of
          Took allocated_index val \<Rightarrow> do {
            objects \<leftarrow> assign (op_objects that) allocated_index (Some obj);
            Some (Object_Created allocated_index, object_done t None (that\<lparr>op_objects := objects, op_p := p\<rparr>) s) }
        | Refused \<Rightarrow> Some (Object_Null, object_done t None (that\<lparr>op_p := p\<rparr>) s)
        | _ \<Rightarrow> Some (Object_Internal, object_done t (Some (Allocate_Object obj)) (that\<lparr>op_p := p\<rparr>) s) })"

text \<open>The first turn in \<^verbatim>\<open>Free\<close> destructs the object, which must be there, and gives the value back; the others are turns of the value pool.\<close>

definition object_free :: "'s bool_turn \<Rightarrow> (nat \<Rightarrow> 's \<Rightarrow> bool) \<Rightarrow> nat \<Rightarrow> nat \<Rightarrow> ('s, 'o) object_system \<Rightarrow> (object_event \<times> ('s, 'o) object_system) option" where
  "object_free turn idle t obj s =
     (let that = os_that s in do {
        index \<leftarrow> GetIndexOfObject that obj;
        live \<leftarrow> deref (op_objects that) index;
        case live of None \<Rightarrow> None
        | Some _ \<Rightarrow> do {
            (ev, p) \<leftarrow> turn t (Free_Request index True) (op_p that);
            Some (Object_Freed index, object_done t (if idle t p then None else Some (Free_Object obj))
              (that\<lparr>op_objects := (op_objects that)[index := None], op_p := p\<rparr>) s) } })"

definition object_free_rest :: "'s bool_turn \<Rightarrow> (nat \<Rightarrow> 's \<Rightarrow> bool) \<Rightarrow> nat \<Rightarrow> nat \<Rightarrow> ('s, 'o) object_system \<Rightarrow> (object_event \<times> ('s, 'o) object_system) option" where
  "object_free_rest turn idle t obj s =
     (let that = os_that s in do {
        (ev, p) \<leftarrow> turn t (Free_Request obj True) (op_p that);
        Some (Object_Internal, object_done t (if idle t p then None else Some (Free_Object obj)) (that\<lparr>op_p := p\<rparr>) s) })"

definition object_turn :: "'s bool_turn \<Rightarrow> (nat \<Rightarrow> 's \<Rightarrow> bool) \<Rightarrow> nat \<Rightarrow> 'o object_request \<Rightarrow> ('s, 'o) object_system \<Rightarrow> (object_event \<times> ('s, 'o) object_system) option" where
  "object_turn turn idle t request s =
     (case os_doing s t of
        None \<Rightarrow> (case request of Allocate_Object obj \<Rightarrow> object_allocate turn t obj s | Free_Object obj \<Rightarrow> object_free turn idle t obj s)
      | Some (Allocate_Object obj) \<Rightarrow> object_allocate turn t obj s
      | Some (Free_Object obj) \<Rightarrow> object_free_rest turn idle t obj s)"

definition object_start :: "('s, 'o) ObjectPool \<Rightarrow> ('s, 'o) object_system" where
  "object_start that = \<lparr>os_that = that, os_doing = (\<lambda>_. None)\<rparr>"

text \<open>Users free objects that exist. The states that are reached by users that do:\<close>

definition legal_object :: "'o object_request \<Rightarrow> nat \<Rightarrow> ('s, 'o) object_system \<Rightarrow> bool" where
  "legal_object request t s \<longleftrightarrow> (case os_doing s t of
     None \<Rightarrow> (case request of Allocate_Object _ \<Rightarrow> True | Free_Object i \<Rightarrow> i < op_capacity (os_that s) \<and> op_objects (os_that s) ! i \<noteq> None)
   | Some _ \<Rightarrow> True)"

inductive object_reach :: "'s bool_turn \<Rightarrow> (nat \<Rightarrow> 's \<Rightarrow> bool) \<Rightarrow> nat \<Rightarrow> ('s, 'o) ObjectPool \<Rightarrow> ('s, 'o) object_system \<Rightarrow> bool" for turn idle threads that where
  object_reach_start: "object_reach turn idle threads that (object_start that)"
| object_reach_turn: "object_reach turn idle threads that s \<Longrightarrow> t < threads \<Longrightarrow> legal_object request t s \<Longrightarrow> object_turn turn idle t request s = Some (ev, s') \<Longrightarrow>
    object_reach turn idle threads that s'"

section \<open>Objects do not overlap\<close>

definition doing_ok :: "pool_phase \<Rightarrow> 'o object_request option \<Rightarrow> bool" where
  "doing_ok ph doing = (case doing of None \<Rightarrow> ph = Phase_Idle | Some (Allocate_Object _) \<Rightarrow> ph = Phase_Allocating | Some (Free_Object _) \<Rightarrow> ph = Phase_Freeing)"

text \<open>The slots with objects are those whose values are held.\<close>

definition slots_ok :: "nat \<Rightarrow> (nat \<times> bool) set \<Rightarrow> 'o option list \<Rightarrow> bool" where
  "slots_ok capacity held objects \<longleftrightarrow> length objects = capacity \<and> (\<forall>i < capacity. objects ! i \<noteq> None \<longleftrightarrow> (i, True) \<in> held)"

text \<open>What a turn does to the objects: it creates one in a slot without an object, destructs one, or leaves them alone.\<close>

definition object_effect :: "object_event \<Rightarrow> 'o option list \<Rightarrow> 'o option list \<Rightarrow> bool" where
  "object_effect ev objects objects' = (case ev of
     Object_Created i \<Rightarrow> i < length objects \<and> objects ! i = None \<and> (\<exists>obj. objects' = objects[i := Some obj])
   | Object_Freed i \<Rightarrow> i < length objects \<and> objects ! i \<noteq> None \<and> objects' = objects[i := None]
   | _ \<Rightarrow> objects' = objects)"

definition object_inv :: "((nat \<times> bool) set \<Rightarrow> 's \<Rightarrow> bool) \<Rightarrow> ('s \<Rightarrow> bool list) \<Rightarrow> (nat \<Rightarrow> 's \<Rightarrow> pool_phase) \<Rightarrow> nat \<Rightarrow> ('s, 'o) object_system \<Rightarrow> bool" where
  "object_inv pool_ok vals phase capacity s \<longleftrightarrow> (\<exists>held. pool_ok held (op_p (os_that s)) \<and> vals (op_p (os_that s)) = returning_true capacity \<and>
     op_capacity (os_that s) = capacity \<and> slots_ok capacity held (op_objects (os_that s)) \<and> (\<forall>t. doing_ok (phase t (op_p (os_that s))) (os_doing s t)))"

lemma slots_take:
  "slots_ok capacity held objects \<Longrightarrow> i < capacity \<Longrightarrow> (i, True) \<notin> held \<Longrightarrow>
   slots_ok capacity (insert (i, True) held) (objects[i := Some obj]) \<and> i < length objects \<and> objects ! i = None"
  by (auto simp: slots_ok_def nth_list_update)

lemma slots_give:
  "slots_ok capacity held objects \<Longrightarrow> i < capacity \<Longrightarrow> objects ! i \<noteq> None \<Longrightarrow>
   slots_ok capacity (held - {(i, True)}) (objects[i := None]) \<and> i < length objects \<and> (i, True) \<in> held"
  by (auto simp: slots_ok_def nth_list_update)

locale object_pool_client = phased_value_pool turn idle threads vals inv phase
  for turn :: "'s bool_turn" and idle :: "nat \<Rightarrow> 's \<Rightarrow> bool" and threads :: nat and vals :: "'s \<Rightarrow> bool list"
    and inv :: "(nat \<times> bool) set \<Rightarrow> 's \<Rightarrow> bool" and phase :: "nat \<Rightarrow> 's \<Rightarrow> pool_phase"
begin

lemma vals_true: "inv held p \<Longrightarrow> vals p = returning_true capacity \<Longrightarrow> (i, e) \<in> held \<Longrightarrow> i < capacity \<and> e"
  using held_law[of held p i e] by (auto simp: returning_true_def)

text \<open>
  The turn of the value pool inside of a turn of the object pool: it is defined, keeps the invariant, and does what the operation under way allows.
\<close>

lemma pool_turn_ok:
  assumes "inv held p" "vals p = returning_true capacity" "\<forall>t. doing_ok (phase t p) (doing t)" "t < threads" "legal_request held (idle t p) r"
  obtains ev p' where "turn t r p = Some (ev, p')" "inv (track ev held) p'" "vals p' = returning_true capacity" "sound_event (vals p) held ev"
    "phase_step r (phase t p) ev (phase t p')" "\<forall>d. doing_ok (phase t p') d \<longrightarrow> (\<forall>u. doing_ok (phase u p') ((doing(t := d)) u))"
proof -
  obtain ev p' where p': "turn t r p = Some (ev, p')" "inv (track ev held) p'" "vals p' = vals p" "sound_event (vals p) held ev"
    using turn_law[OF assms(1,4,5)] by blast
  have "\<forall>u. doing_ok (phase u p') ((doing(t := d)) u)" if "doing_ok (phase t p') d" for d
    using that assms(3) phase_other[OF p'(1)] by simp
  then show thesis
    using that p' assms(2) phase_law[OF p'(1)] by simp
qed

lemma allocate_ok:
  assumes inv: "object_inv inv vals phase capacity s" and t: "t < threads" and doing: "os_doing s t = None \<or> os_doing s t = Some (Allocate_Object obj)"
  shows "\<exists>ev s'. object_allocate turn t obj s = Some (ev, s') \<and> object_inv inv vals phase capacity s' \<and> object_effect ev (op_objects (os_that s)) (op_objects (os_that s'))"
proof -
  define that p where "that = os_that s" and "p = op_p that"
  obtain held where held: "inv held p" "vals p = returning_true capacity" "op_capacity that = capacity" "slots_ok capacity held (op_objects that)"
      "\<forall>t. doing_ok (phase t p) (os_doing s t)"
    using inv by (auto simp: object_inv_def that_def p_def)
  have legal: "legal_request held (idle t p) Allocate_Request"
    by (simp add: legal_request_def)
  obtain ev p' where p': "turn t Allocate_Request p = Some (ev, p')" "inv (track ev held) p'" "vals p' = returning_true capacity" "sound_event (vals p) held ev"
      "phase_step Allocate_Request (phase t p) ev (phase t p')" "\<forall>d. doing_ok (phase t p') d \<longrightarrow> (\<forall>u. doing_ok (phase u p') (((os_doing s)(t := d)) u))"
    by (rule pool_turn_ok[OF held(1,2,5) t legal]) (rule that; assumption)
  have "phase t p \<noteq> Phase_Freeing"
    using held(5)[rule_format, of t] doing by (auto simp: doing_ok_def)
  then consider (internal) "ev = Internal" "phase t p' = Phase_Allocating" | (refused) "ev = Refused" "phase t p' = Phase_Idle"
    | (took) i e where "ev = Took i e" "phase t p' = Phase_Idle"
    using p'(5) by (cases "phase t p") (auto simp: phase_step_def)
  then show ?thesis
  proof cases
    case internal
    then have "\<forall>u. doing_ok (phase u p') (((os_doing s)(t := Some (Allocate_Object obj))) u)"
      by (intro p'(6)[THEN spec, THEN mp]) (simp add: doing_ok_def)
    then show ?thesis
      using internal p'(1-3) held(3,4)
      by (auto simp: object_allocate_def object_inv_def object_effect_def object_done_def simp flip: that_def p_def)
  next
    case refused
    then have "\<forall>u. doing_ok (phase u p') (((os_doing s)(t := None)) u)"
      by (intro p'(6)[THEN spec, THEN mp]) (simp add: doing_ok_def)
    then show ?thesis
      using refused p'(1-3) held(3,4)
      by (auto simp: object_allocate_def object_inv_def object_effect_def object_done_def simp flip: that_def p_def)
  next
    case took
    then have "i < capacity" "e" "(i, True) \<notin> held"
      using p'(4) held(2) by (auto simp: sound_event_def returning_true_def)
    note slots = slots_take[OF held(4) this(1,3), of obj]
    have "\<forall>u. doing_ok (phase u p') (((os_doing s)(t := None)) u)"
      using took(2) by (intro p'(6)[THEN spec, THEN mp]) (simp add: doing_ok_def)
    moreover have "inv (insert (i, True) held) p'"
      using p'(2) took(1) \<open>e\<close> by simp
    ultimately show ?thesis
      using took(1) p'(1,3) held(3) slots
      by (auto simp: object_allocate_def object_inv_def object_effect_def object_done_def Let_def simp flip: that_def p_def)
  qed
qed

lemma free_ok:
  assumes inv: "object_inv inv vals phase capacity s" and t: "t < threads" and doing: "os_doing s t = None"
    and i: "i < capacity" "op_objects (os_that s) ! i \<noteq> None"
  shows "\<exists>ev s'. object_free turn idle t i s = Some (ev, s') \<and> object_inv inv vals phase capacity s' \<and> object_effect ev (op_objects (os_that s)) (op_objects (os_that s'))"
proof -
  define that p where "that = os_that s" and "p = op_p that"
  obtain held where held: "inv held p" "vals p = returning_true capacity" "op_capacity that = capacity" "slots_ok capacity held (op_objects that)"
      "\<forall>t. doing_ok (phase t p) (os_doing s t)"
    using inv by (auto simp: object_inv_def that_def p_def)
  note slots = slots_give[OF held(4) i(1) i(2)[folded that_def]]
  have legal: "legal_request held (idle t p) (Free_Request i True)"
    using slots by (simp add: legal_request_def)
  obtain ev p' where p': "turn t (Free_Request i True) p = Some (ev, p')" "inv (track ev held) p'" "vals p' = returning_true capacity" "sound_event (vals p) held ev"
      "phase_step (Free_Request i True) (phase t p) ev (phase t p')" "\<forall>d. doing_ok (phase t p') d \<longrightarrow> (\<forall>u. doing_ok (phase u p') (((os_doing s)(t := d)) u))"
    by (rule pool_turn_ok[OF held(1,2,5) t legal]) (rule that; assumption)
  have "phase t p = Phase_Idle"
    using held(5)[rule_format, of t] doing by (simp add: doing_ok_def)
  then have ev: "ev = Gave i True" "phase t p' \<noteq> Phase_Allocating"
    using p'(5) by (simp_all add: phase_step_def)
  have "\<forall>u. doing_ok (phase u p') (((os_doing s)(t := if idle t p' then None else Some (Free_Object i))) u)"
    using ev(2) phase_idle[of t p'] by (intro p'(6)[THEN spec, THEN mp]) (cases "phase t p'"; simp add: doing_ok_def)
  moreover have "inv (held - {(i, True)}) p'"
    using p'(2) ev(1) by simp
  moreover have "GetIndexOfObject that i = Some i"
    using i(1) held(3) by (simp add: GetIndexOfObject_def IsContained_def)
  moreover obtain x where "op_objects that ! i = Some x"
    using i(2) by (auto simp: that_def)
  ultimately show ?thesis
    using p'(1,3) held(3) slots ev(1)
    by (auto simp: object_free_def object_inv_def object_effect_def object_done_def Let_def simp flip: that_def p_def)
qed

lemma free_rest_ok:
  assumes inv: "object_inv inv vals phase capacity s" and t: "t < threads" and doing: "os_doing s t = Some (Free_Object i)"
  shows "\<exists>ev s'. object_free_rest turn idle t i s = Some (ev, s') \<and> object_inv inv vals phase capacity s' \<and> object_effect ev (op_objects (os_that s)) (op_objects (os_that s'))"
proof -
  define that p where "that = os_that s" and "p = op_p that"
  obtain held where held: "inv held p" "vals p = returning_true capacity" "op_capacity that = capacity" "slots_ok capacity held (op_objects that)"
      "\<forall>t. doing_ok (phase t p) (os_doing s t)"
    using inv by (auto simp: object_inv_def that_def p_def)
  have ph: "phase t p = Phase_Freeing"
    using held(5)[rule_format, of t] doing by (simp add: doing_ok_def)
  then have legal: "legal_request held (idle t p) (Free_Request i True)"
    by (simp add: legal_request_def phase_idle)
  obtain ev p' where p': "turn t (Free_Request i True) p = Some (ev, p')" "inv (track ev held) p'" "vals p' = returning_true capacity" "sound_event (vals p) held ev"
      "phase_step (Free_Request i True) (phase t p) ev (phase t p')" "\<forall>d. doing_ok (phase t p') d \<longrightarrow> (\<forall>u. doing_ok (phase u p') (((os_doing s)(t := d)) u))"
    by (rule pool_turn_ok[OF held(1,2,5) t legal]) (rule that; assumption)
  have ev: "ev = Internal" "phase t p' \<noteq> Phase_Allocating"
    using p'(5) ph by (simp_all add: phase_step_def)
  have "\<forall>u. doing_ok (phase u p') (((os_doing s)(t := if idle t p' then None else Some (Free_Object i))) u)"
    using ev(2) phase_idle[of t p'] by (intro p'(6)[THEN spec, THEN mp]) (cases "phase t p'"; simp add: doing_ok_def)
  then show ?thesis
    using p'(1-3) held(3,4) ev(1)
    by (auto simp: object_free_rest_def object_inv_def object_effect_def object_done_def simp flip: that_def p_def)
qed

lemma object_turn_ok:
  assumes "object_inv inv vals phase capacity s" "t < threads" "legal_object request t s"
  shows "\<exists>ev s'. object_turn turn idle t request s = Some (ev, s') \<and> object_inv inv vals phase capacity s' \<and> object_effect ev (op_objects (os_that s)) (op_objects (os_that s'))"
proof -
  have "op_capacity (os_that s) = capacity"
    using assms(1) by (auto simp: object_inv_def)
  then show ?thesis
    using assms(3) allocate_ok[OF assms(1,2)] free_ok[OF assms(1,2)] free_rest_ok[OF assms(1,2)]
    by (auto simp: object_turn_def legal_object_def split: option.splits object_request.splits)
qed

text \<open>The single turns, with what they do to the objects and to the operations under way, for containers that keep their nodes in an object pool.\<close>

lemma allocate_turn:
  assumes "object_inv inv vals phase capacity s" "t < threads" and doing: "os_doing s t = None \<or> os_doing s t = Some (Allocate_Object obj)"
  shows "\<exists>ev s'. object_turn turn idle t (Allocate_Object obj) s = Some (ev, s') \<and> object_inv inv vals phase capacity s' \<and> (\<forall>u. u \<noteq> t \<longrightarrow> os_doing s' u = os_doing s u) \<and>
     ((\<exists>i. ev = Object_Created i \<and> i < capacity \<and> op_objects (os_that s) ! i = None \<and> op_objects (os_that s') = (op_objects (os_that s))[i := Some obj] \<and> os_doing s' t = None) \<or>
      (ev = Object_Null \<and> op_objects (os_that s') = op_objects (os_that s) \<and> os_doing s' t = None) \<or>
      (ev = Object_Internal \<and> op_objects (os_that s') = op_objects (os_that s) \<and> os_doing s' t = Some (Allocate_Object obj)))"
proof -
  obtain ev s' where s': "object_allocate turn t obj s = Some (ev, s')" "object_inv inv vals phase capacity s'" "object_effect ev (op_objects (os_that s)) (op_objects (os_that s'))"
    using allocate_ok[OF assms] by blast
  have "length (op_objects (os_that s)) = capacity"
    using assms(1) by (auto simp: object_inv_def slots_ok_def)
  moreover have "object_turn turn idle t (Allocate_Object obj) s = Some (ev, s')"
    using s'(1) doing by (auto simp: object_turn_def)
  moreover have "(\<forall>i. ev \<noteq> Object_Freed i) \<and> (\<forall>u. u \<noteq> t \<longrightarrow> os_doing s' u = os_doing s u) \<and>
      os_doing s' t = (if ev = Object_Internal then Some (Allocate_Object obj) else None) \<and> (\<forall>i. ev = Object_Created i \<longrightarrow> op_objects (os_that s') = (op_objects (os_that s))[i := Some obj])"
  proof -
    obtain ev' p where p: "turn t Allocate_Request (op_p (os_that s)) = Some (ev', p)"
      using s'(1) by (auto simp: object_allocate_def bind_eq_Some_conv Let_def)
    then show ?thesis
      using s'(1) by (cases ev') (auto simp: object_allocate_def object_done_def assign_def Let_def bind_eq_Some_conv split: if_splits)
  qed
  ultimately show ?thesis
    using s'(2,3) by (cases ev) (auto simp: object_effect_def)
qed

lemma free_turn:
  assumes "object_inv inv vals phase capacity s" "t < threads" and doing: "os_doing s t = None" and "i < capacity" "op_objects (os_that s) ! i \<noteq> None"
  shows "\<exists>s'. object_turn turn idle t (Free_Object i) s = Some (Object_Freed i, s') \<and> object_inv inv vals phase capacity s' \<and> (\<forall>u. u \<noteq> t \<longrightarrow> os_doing s' u = os_doing s u) \<and>
     op_objects (os_that s') = (op_objects (os_that s))[i := None] \<and> (os_doing s' t = None \<or> os_doing s' t = Some (Free_Object i))"
proof -
  obtain ev s' where s': "object_free turn idle t i s = Some (ev, s')" "object_inv inv vals phase capacity s'"
    using free_ok[OF assms] by blast
  moreover have "object_turn turn idle t (Free_Object i) s = Some (ev, s')"
    using s'(1) doing by (auto simp: object_turn_def)
  moreover have "ev = Object_Freed i \<and> (\<forall>u. u \<noteq> t \<longrightarrow> os_doing s' u = os_doing s u) \<and>
     op_objects (os_that s') = (op_objects (os_that s))[i := None] \<and> (os_doing s' t = None \<or> os_doing s' t = Some (Free_Object i))"
    using s'(1) by (auto simp: object_free_def object_done_def GetIndexOfObject_def Let_def bind_eq_Some_conv split: option.splits if_splits)
  ultimately show ?thesis
    by blast
qed

lemma free_rest_turn:
  assumes "object_inv inv vals phase capacity s" "t < threads" and doing: "os_doing s t = Some (Free_Object i)"
  shows "\<exists>s'. object_turn turn idle t (Free_Object i) s = Some (Object_Internal, s') \<and> object_inv inv vals phase capacity s' \<and> (\<forall>u. u \<noteq> t \<longrightarrow> os_doing s' u = os_doing s u) \<and>
     op_objects (os_that s') = op_objects (os_that s) \<and> (os_doing s' t = None \<or> os_doing s' t = Some (Free_Object i))"
proof -
  obtain ev s' where s': "object_free_rest turn idle t i s = Some (ev, s')" "object_inv inv vals phase capacity s'"
    using free_rest_ok[OF assms] by blast
  moreover have "object_turn turn idle t (Free_Object i) s = Some (ev, s')"
    using s'(1) doing by (auto simp: object_turn_def)
  moreover have "ev = Object_Internal \<and> (\<forall>u. u \<noteq> t \<longrightarrow> os_doing s' u = os_doing s u) \<and>
     op_objects (os_that s') = op_objects (os_that s) \<and> (os_doing s' t = None \<or> os_doing s' t = Some (Free_Object i))"
    using s'(1) by (auto simp: object_free_rest_def object_done_def Let_def bind_eq_Some_conv split: if_splits)
  ultimately show ?thesis
    by blast
qed

lemma slots_write: "slots_ok capacity held objects \<Longrightarrow> objects ! i \<noteq> None \<Longrightarrow> slots_ok capacity held (objects[i := Some x])"
  by (cases "i < length objects") (auto simp: slots_ok_def nth_list_update)

lemma write_object:
  assumes "object_inv inv vals phase capacity s" "op_objects (os_that s) ! i \<noteq> None"
  shows "object_inv inv vals phase capacity (s\<lparr>os_that := (os_that s)\<lparr>op_objects := (op_objects (os_that s))[i := Some x]\<rparr>\<rparr>)"
proof -
  obtain held where "inv held (op_p (os_that s))" "vals (op_p (os_that s)) = returning_true capacity" "op_capacity (os_that s) = capacity"
      "slots_ok capacity held (op_objects (os_that s))" "\<forall>t. doing_ok (phase t (op_p (os_that s))) (os_doing s t)"
    using assms(1) by (auto simp: object_inv_def)
  then show ?thesis
    using slots_write[of capacity held "op_objects (os_that s)" i x] assms(2) unfolding object_inv_def by (intro exI[of _ held]) simp
qed

lemma object_inv_length: "object_inv inv vals phase capacity s \<Longrightarrow> length (op_objects (os_that s)) = capacity"
  by (auto simp: object_inv_def slots_ok_def)

lemma object_reach_inv:
  assumes "object_inv inv vals phase capacity (object_start that)" "object_reach turn idle threads that s"
  shows "object_inv inv vals phase capacity s"
  using assms(2)
proof (induction rule: object_reach.induct)
  case object_reach_start
  then show ?case by (rule assms(1))
next
  case (object_reach_turn s t request ev s')
  then show ?case
    using object_turn_ok[of capacity s t request] by auto
qed

lemma object_start_ok:
  assumes "inv {} p" "vals p = returning_true capacity" "\<forall>t. idle t p"
  shows "object_inv inv vals phase capacity (object_start \<lparr>op_objects = replicate capacity None, op_capacity = capacity, op_p = p\<rparr>)"
  using assms phase_idle unfolding object_inv_def object_start_def slots_ok_def doing_ok_def by (intro exI[of _ "{}"]) simp

end

interpretation array_objects: object_pool_client "array_turn False" array_idle threads ap_values "array_inv False" array_phase for threads
  by unfold_locales

interpretation tree_objects: object_pool_client "tree_turn False" tree_idle threads tr_values "tree_inv False threads" tree_phase for threads
  by unfold_locales

section \<open>Properties\<close>

lemma object_effect_frame:
  "object_effect ev objects objects' \<Longrightarrow> (\<forall>i. ev = Object_Created i \<longrightarrow> i < length objects \<and> objects ! i = None \<and> objects' ! i \<noteq> None) \<and>
    (\<forall>j < length objects. objects ! j \<noteq> None \<and> ev \<noteq> Object_Freed j \<longrightarrow> objects' ! j = objects ! j)"
  by (cases ev) (auto simp: object_effect_def nth_list_update)

lemma array_objects_start:
  assumes "ObjectPool_new (\<lambda>r. Some (array_start r)) capacity = Some that"
  shows "object_inv (array_inv False) ap_values array_phase capacity (object_start that)"
proof -
  have "array_inv False {} (array_start (returning_true capacity))"
    by (rule array_start_inv) (simp add: returning_true_def)
  from array_objects.object_start_ok[OF this] show ?thesis
    using assms by (auto simp: ObjectPool_new_def array_start_def array_idle_def)
qed

lemma tree_objects_start:
  assumes "0 < capacity" "capacity \<le> 2 ^ 29" "ObjectPool_new (\<lambda>r. map_option (\<lambda>p. tree_start p r) (LockFreeTreeValuePool_new r)) capacity = Some that"
  shows "object_inv (tree_inv False threads) tr_values tree_phase capacity (object_start that)"
proof -
  obtain p where p: "LockFreeTreeValuePool_new (returning_true capacity) = Some p" "tree_inv False threads {} (tree_start p (returning_true capacity))"
    using tree_start_inv[of "returning_true capacity" False threads] assms(1,2) by (auto simp: returning_true_def)
  from tree_objects.object_start_ok[OF p(2)] show ?thesis
    using p(1) assms(3) by (auto simp: ObjectPool_new_def tree_start_def tree_idle_def)
qed

text \<open>
  C16. Objects do not overlap. For an object pool over the wait-free value pool, however the turns of the threads follow each other, as long as only objects that exist are freed: every turn is defined; an object
  is created only in a slot without an object; and an object that exists stays as it is until it is freed.
\<close>

theorem object_pool_no_overlap:
  assumes "ObjectPool_new (\<lambda>r. Some (array_start r)) capacity = Some that"
    and "object_reach (array_turn False) array_idle threads that s" "t < threads" "legal_object request t s"
  shows "\<exists>ev s'. object_turn (array_turn False) array_idle t request s = Some (ev, s') \<and>
     (\<forall>i. ev = Object_Created i \<longrightarrow> i < capacity \<and> op_objects (os_that s) ! i = None \<and> op_objects (os_that s') ! i \<noteq> None) \<and>
     (\<forall>j < capacity. op_objects (os_that s) ! j \<noteq> None \<and> ev \<noteq> Object_Freed j \<longrightarrow> op_objects (os_that s') ! j = op_objects (os_that s) ! j)"
proof -
  have inv: "object_inv (array_inv False) ap_values array_phase capacity s"
    using array_objects.object_reach_inv[OF array_objects_start[OF assms(1)] assms(2)] .
  then have "length (op_objects (os_that s)) = capacity"
    by (auto simp: object_inv_def slots_ok_def)
  then show ?thesis
    using array_objects.object_turn_ok[OF inv assms(3,4)] object_effect_frame by blast
qed

theorem object_pool_no_overlap_witness:
  "\<exists>that s ev s'. ObjectPool_new (\<lambda>r. Some (array_start r)) 2 = Some that \<and> object_reach (array_turn False) array_idle 2 that s \<and>
     op_objects (os_that s) = [Some (7 :: nat), None] \<and> object_turn (array_turn False) array_idle 1 (Allocate_Object 8) s = Some (ev, s') \<and>
     (ev \<noteq> Object_Freed 0 \<longrightarrow> op_objects (os_that s') ! 0 = Some 7)"
proof -
  let ?turn = "object_turn (array_turn False) array_idle 0 (Allocate_Object (7 :: nat))"
  note unfold = object_turn_def object_allocate_def object_done_def object_start_def array_turn_def array_loop_def array_start_def WaitFreeArrayValuePool_new_def
    returning_true_def numeral_2_eq_2
  obtain that :: "(bool array_pool, nat) ObjectPool" where new: "ObjectPool_new (\<lambda>r. Some (array_start r)) 2 = Some that"
      "that = \<lparr>op_objects = [None, None], op_capacity = 2, op_p = array_start [True, True]\<rparr>"
    by (simp add: ObjectPool_new_def returning_true_def numeral_2_eq_2)
  obtain e1 s1 e2 s2 e3 s where s: "?turn (object_start that) = Some (e1, s1)" "?turn s1 = Some (e2, s2)" "?turn s2 = Some (e3, s)"
      "op_objects (os_that s) = [Some 7, None]" "os_doing s 1 = None"
    by (simp add: new(2) unfold)
  have legal: "legal_object (Allocate_Object (7 :: nat)) 0 s'" for s' :: "(bool array_pool, nat) object_system"
    by (simp add: legal_object_def split: option.splits)
  have reach: "object_reach (array_turn False) array_idle 2 that s"
    by (rule object_reach_turn[OF object_reach_turn[OF object_reach_turn[OF object_reach_start _ legal s(1)] _ legal s(2)] _ legal s(3)]) simp_all
  have "(1 :: nat) < 2" "legal_object (Allocate_Object 8) 1 s"
    using s(5) by (simp_all add: legal_object_def)
  note object_pool_no_overlap[OF new(1) reach this]
  then show ?thesis
    using new(1) reach s(4) by fastforce
qed

text \<open>The same for an object pool over the lock-free value pool.\<close>

lemma object_pool_over_tree:
  assumes "0 < capacity" "capacity \<le> 2 ^ 29" "ObjectPool_new (\<lambda>r. map_option (\<lambda>p. tree_start p r) (LockFreeTreeValuePool_new r)) capacity = Some that"
    and "object_reach (tree_turn False) tree_idle threads that s" "t < threads" "legal_object request t s"
  shows "\<exists>ev s'. object_turn (tree_turn False) tree_idle t request s = Some (ev, s') \<and>
     (\<forall>i. ev = Object_Created i \<longrightarrow> i < capacity \<and> op_objects (os_that s) ! i = None \<and> op_objects (os_that s') ! i \<noteq> None) \<and>
     (\<forall>j < capacity. op_objects (os_that s) ! j \<noteq> None \<and> ev \<noteq> Object_Freed j \<longrightarrow> op_objects (os_that s') ! j = op_objects (os_that s) ! j)"
proof -
  have inv: "object_inv (tree_inv False threads) tr_values tree_phase capacity s"
    using tree_objects.object_reach_inv[OF tree_objects_start[OF assms(1-3)] assms(4)] .
  then have "length (op_objects (os_that s)) = capacity"
    by (auto simp: object_inv_def slots_ok_def)
  then show ?thesis
    using tree_objects.object_turn_ok[OF inv assms(5,6)] object_effect_frame by blast
qed

end
