(* ===== verification/Hazard_Pointer.thy ===== *)
theory Hazard_Pointer
  imports Prelude
begin

text \<open>
  Hazard pointers (\<^verbatim>\<open>hazard_pointer-inl.h\<close>), with which the lock-free containers decide when a node may be freed. Each thread has an entry with guards, in which it announces
  the pointers it is about to use, and a list of pointers it has retired. When the list has grown, the thread collects
  the guards of all threads (\<^verbatim>\<open>Scan\<close>) and frees the retired pointers that are not guarded. Each access to an atomic variable is a turn of its own. The theory shows
  that a pointer that is guarded from before it was retired is not freed, and that the lists of fixed size do not overflow.
\<close>

section \<open>Lists of fixed size\<close>

record 'a FixedSizeList =
  fl_max_size :: nat
  fl_elements :: "'a list"

definition FixedSizeList_new :: "nat \<Rightarrow> 'a FixedSizeList" where
  "FixedSizeList_new max_size = \<lparr>fl_max_size = max_size, fl_elements = []\<rparr>"

definition GetSize :: "'a FixedSizeList \<Rightarrow> nat" where
  "GetSize that = length (fl_elements that)"

definition clear :: "'a FixedSizeList \<Rightarrow> 'a FixedSizeList" where
  "clear that = that\<lparr>fl_elements := []\<rparr>"

definition PushBack :: "'a \<Rightarrow> 'a FixedSizeList \<Rightarrow> bool \<times> 'a FixedSizeList" where
  "PushBack el that =
     (if fl_max_size that < GetSize that + 1 then (False, that)
      else (True, that\<lparr>fl_elements := fl_elements that @ [el]\<rparr>))"

text \<open>Assignment copies the elements one by one; a target that is too small is an exception (\<open>None\<close>).\<close>

definition copy_assign :: "'a FixedSizeList \<Rightarrow> 'a FixedSizeList \<Rightarrow> 'a FixedSizeList option" where
  "copy_assign other that =
     (let that = clear that in
      if fl_max_size that < GetSize other then None
      else Some (fold (\<lambda>el that. snd (PushBack el that)) (fl_elements other) that))"

lemma PushBack_elements:
  "fl_elements (snd (PushBack el l)) = (if fl_max_size l < length (fl_elements l) + 1 then fl_elements l else fl_elements l @ [el])"
  "fl_max_size (snd (PushBack el l)) = fl_max_size l"
  by (simp_all add: PushBack_def GetSize_def)

lemma fold_PushBack:
  "length (fl_elements l) + length els \<le> fl_max_size l \<Longrightarrow>
   fold (\<lambda>el that. snd (PushBack el that)) els l = l\<lparr>fl_elements := fl_elements l @ els\<rparr>"
  by (induction els arbitrary: l) (simp_all add: PushBack_def GetSize_def)

lemma copy_assign_fits:
  "length (fl_elements other) \<le> fl_max_size l \<Longrightarrow> copy_assign other l = Some (l\<lparr>fl_elements := fl_elements other\<rparr>)"
  by (simp add: copy_assign_def clear_def GetSize_def fold_PushBack Let_def)

section \<open>The entry of a thread\<close>

text \<open>A guard is \<open>None\<close> if it is undefined.\<close>

record 'g HazardPointerThreadEntry =
  te_is_active :: bool
  te_guarded_pointers :: "'g option list"
  te_retired_list :: "'g FixedSizeList"
  te_retired_list_temp :: "'g FixedSizeList"
  te_hazard_pointer_list_temp :: "'g FixedSizeList"

definition HazardPointerThreadEntry_new :: "nat \<Rightarrow> nat \<Rightarrow> nat \<Rightarrow> 'g HazardPointerThreadEntry" where
  "HazardPointerThreadEntry_new threads guards_per_thread max_size_retired_list =
     \<lparr>te_is_active = True, te_guarded_pointers = replicate guards_per_thread None,
      te_retired_list = FixedSizeList_new max_size_retired_list, te_retired_list_temp = FixedSizeList_new max_size_retired_list,
      te_hazard_pointer_list_temp = FixedSizeList_new (threads * guards_per_thread)\<rparr>"

definition TryReserve :: "'g HazardPointerThreadEntry \<Rightarrow> bool \<times> 'g HazardPointerThreadEntry" where
  "TryReserve that = (if te_is_active that = False then (True, that\<lparr>te_is_active := True\<rparr>) else (False, that))"

definition SetActive :: "bool \<Rightarrow> 'g HazardPointerThreadEntry \<Rightarrow> 'g HazardPointerThreadEntry" where
  "SetActive active that = that\<lparr>te_is_active := active\<rparr>"

definition GetGuard :: "'g HazardPointerThreadEntry \<Rightarrow> nat \<Rightarrow> 'g option option" where
  "GetGuard that pos = deref (te_guarded_pointers that) pos"

definition AddRetired :: "'g \<Rightarrow> 'g HazardPointerThreadEntry \<Rightarrow> 'g HazardPointerThreadEntry" where
  "AddRetired pointerToGuard that = that\<lparr>te_retired_list := snd (PushBack pointerToGuard (te_retired_list that))\<rparr>"

definition SetRetired :: "'g FixedSizeList \<Rightarrow> 'g HazardPointerThreadEntry \<Rightarrow> 'g HazardPointerThreadEntry option" where
  "SetRetired retired_list that = do { l \<leftarrow> copy_assign retired_list (te_retired_list that); Some (that\<lparr>te_retired_list := l\<rparr>) }"

section \<open>The hazard pointers\<close>

record 'g HazardPointer =
  hp_entries :: "'g HazardPointerThreadEntry list"
  hp_guards_per_thread :: nat
  hp_active :: nat
  hp_hazard_pointers :: nat

text \<open>The threshold is a product of doubles, 1.25 times the number of guards, which is exact for these numbers.\<close>

definition GetRetiredListMaxSize :: "nat \<Rightarrow> nat \<Rightarrow> nat" where
  "GetRetiredListMaxSize threads guards_per_thread = 5 * threads * guards_per_thread div 4 + 1"

definition HazardPointer_new :: "nat \<Rightarrow> nat \<Rightarrow> 'g HazardPointer" where
  "HazardPointer_new threads guards_per_thread =
     \<lparr>hp_entries = replicate threads (HazardPointerThreadEntry_new threads guards_per_thread (GetRetiredListMaxSize threads guards_per_thread)),
      hp_guards_per_thread = guards_per_thread, hp_active = threads, hp_hazard_pointers = threads\<rparr>"

definition IsThresholdExceeded :: "nat \<Rightarrow> 'g HazardPointer \<Rightarrow> bool option" where
  "IsThresholdExceeded t that = do {
     entry \<leftarrow> deref (hp_entries that) t;
     Some (5 * hp_active that * hp_guards_per_thread that \<le> 4 * GetSize (te_retired_list entry)) }"

text \<open>
  Where a thread is: about to read whether entry \<open>i\<close> is active, or its guard \<open>pos\<close>, in a scan of entry \<open>e\<close>; at the retired pointer \<open>j\<close> in the second part
  of a scan, or in the callback that frees it; in the loop of \<^verbatim>\<open>HelpScan\<close>; or gone, after it has deactivated its entry. A thread scans its own entry or one that it helps with.
\<close>

datatype scan_kind = Scan_Own | Scan_Help

datatype hp_pc = Hp_Idle | Hp_Gone
  | Hp_Scan scan_kind nat nat | Hp_Guard scan_kind nat nat nat | Hp_Sweep scan_kind nat nat | Hp_Free scan_kind nat nat
  | Hp_Help nat | Hp_Reserve nat | Hp_Release nat

record 'g hp_system =
  hs_that :: "'g HazardPointer"
  hs_pc :: "nat \<Rightarrow> hp_pc"

definition hp_goto :: "nat \<Rightarrow> hp_pc \<Rightarrow> 'g hp_system \<Rightarrow> 'g hp_system" where
  "hp_goto t pc h = h\<lparr>hs_pc := (hs_pc h)(t := pc)\<rparr>"

definition set_entry :: "nat \<Rightarrow> 'g HazardPointerThreadEntry \<Rightarrow> 'g hp_system \<Rightarrow> 'g hp_system" where
  "set_entry e entry h = h\<lparr>hs_that := (hs_that h)\<lparr>hp_entries := (hp_entries (hs_that h))[e := entry]\<rparr>\<rparr>"

abbreviation entry_of :: "'g hp_system \<Rightarrow> nat \<Rightarrow> 'g HazardPointerThreadEntry option" where
  "entry_of h e \<equiv> deref (hp_entries (hs_that h)) e"

definition GuardPointer :: "nat \<Rightarrow> nat \<Rightarrow> 'g option \<Rightarrow> 'g hp_system \<Rightarrow> 'g hp_system option" where
  "GuardPointer t guardPosition guardedElement h = do {
     entry \<leftarrow> entry_of h t;
     guards \<leftarrow> assign (te_guarded_pointers entry) guardPosition guardedElement;
     Some (set_entry t (entry\<lparr>te_guarded_pointers := guards\<rparr>) h) }"

definition DeactivateCurrentThread :: "nat \<Rightarrow> 'g hp_system \<Rightarrow> 'g hp_system option" where
  "DeactivateCurrentThread t h = do {
     entry \<leftarrow> entry_of h t;
     if \<not> te_is_active entry then Some (hp_goto t Hp_Gone h)
     else Some (hp_goto t Hp_Gone (set_entry t (SetActive False entry) (h\<lparr>hs_that := (hs_that h)\<lparr>hp_active := hp_active (hs_that h) - 1\<rparr>\<rparr>))) }"

text \<open>The heads of the loops of \<^verbatim>\<open>Scan\<close>: over the retired pointers, the entries and the guards of an entry.\<close>

definition start_sweep :: "nat \<Rightarrow> scan_kind \<Rightarrow> nat \<Rightarrow> ('g :: linorder) hp_system \<Rightarrow> 'g hp_system option" where
  "start_sweep t kind e h = do {
     entry \<leftarrow> entry_of h e;
     let hazard = te_hazard_pointer_list_temp entry;
     Some (hp_goto t (Hp_Sweep kind e 0) (set_entry e
       (entry\<lparr>te_retired_list_temp := clear (te_retired_list_temp entry),
              te_hazard_pointer_list_temp := hazard\<lparr>fl_elements := sort (fl_elements hazard)\<rparr>\<rparr>) h)) }"

definition scan_entries :: "nat \<Rightarrow> scan_kind \<Rightarrow> nat \<Rightarrow> nat \<Rightarrow> ('g :: linorder) hp_system \<Rightarrow> 'g hp_system option" where
  "scan_entries t kind e i h =
     (if i \<noteq> hp_hazard_pointers (hs_that h) then Some (hp_goto t (Hp_Scan kind e i) h) else start_sweep t kind e h)"

definition scan_guards :: "nat \<Rightarrow> scan_kind \<Rightarrow> nat \<Rightarrow> nat \<Rightarrow> nat \<Rightarrow> ('g :: linorder) hp_system \<Rightarrow> 'g hp_system option" where
  "scan_guards t kind e i pos h =
     (if pos \<noteq> hp_guards_per_thread (hs_that h) then Some (hp_goto t (Hp_Guard kind e i pos) h) else scan_entries t kind e (i + 1) h)"

definition Scan :: "nat \<Rightarrow> scan_kind \<Rightarrow> nat \<Rightarrow> ('g :: linorder) hp_system \<Rightarrow> 'g hp_system option" where
  "Scan t kind e h = do {
     entry \<leftarrow> entry_of h e;
     scan_entries t kind e 0 (set_entry e (entry\<lparr>te_hazard_pointer_list_temp := clear (te_hazard_pointer_list_temp entry)\<rparr>) h) }"

text \<open>\<^verbatim>\<open>std::binary_search\<close> on a range that is not sorted is undefined.\<close>

definition binary_search :: "('g :: linorder) list \<Rightarrow> 'g \<Rightarrow> bool option" where
  "binary_search xs g = (if sorted xs then Some (g \<in> set xs) else None)"

definition help_loop :: "nat \<Rightarrow> nat \<Rightarrow> 'g hp_system \<Rightarrow> 'g hp_system" where
  "help_loop t i h = (if i \<noteq> hp_hazard_pointers (hs_that h) then hp_goto t (Hp_Help i) h else hp_goto t Hp_Idle h)"

definition scan_entry_turn :: "nat \<Rightarrow> scan_kind \<Rightarrow> nat \<Rightarrow> nat \<Rightarrow> ('g :: linorder) hp_system \<Rightarrow> 'g hp_system option" where
  "scan_entry_turn t kind e i h = do {
     other \<leftarrow> entry_of h i;
     if te_is_active other then scan_guards t kind e i 0 h else scan_entries t kind e (i + 1) h }"

definition scan_guard_turn :: "nat \<Rightarrow> scan_kind \<Rightarrow> nat \<Rightarrow> nat \<Rightarrow> nat \<Rightarrow> ('g :: linorder) hp_system \<Rightarrow> 'g hp_system option" where
  "scan_guard_turn t kind e i pos h = do {
     other \<leftarrow> entry_of h i;
     guard \<leftarrow> GetGuard other pos;
     case guard of
       None \<Rightarrow> scan_guards t kind e i (pos + 1) h
     | Some g \<Rightarrow> do {
         entry \<leftarrow> entry_of h e;
         scan_guards t kind e i (pos + 1)
           (set_entry e (entry\<lparr>te_hazard_pointer_list_temp := snd (PushBack g (te_hazard_pointer_list_temp entry))\<rparr>) h) } }"

text \<open>
  The second part of a scan. The callback \<open>free_turn\<close> frees a pointer, by turns that say whether they were the last one.
\<close>

definition sweep_turn :: "(nat \<Rightarrow> 'g \<Rightarrow> 'w \<Rightarrow> (bool \<times> 'w) option) \<Rightarrow> nat \<Rightarrow> scan_kind \<Rightarrow> nat \<Rightarrow> nat \<Rightarrow> ('g :: linorder) hp_system \<Rightarrow> 'w \<Rightarrow> ('g hp_system \<times> 'w) option" where
  "sweep_turn free_turn t kind e j h w = do {
     entry \<leftarrow> entry_of h e;
     if j \<noteq> GetSize (te_retired_list entry) then do {
       g \<leftarrow> deref (fl_elements (te_retired_list entry)) j;
       guarded \<leftarrow> binary_search (fl_elements (te_hazard_pointer_list_temp entry)) g;
       if False = guarded then do {
         (over, w) \<leftarrow> free_turn t g w;
         Some (hp_goto t (if over then Hp_Sweep kind e (j + 1) else Hp_Free kind e j) h, w) }
       else Some (hp_goto t (Hp_Sweep kind e (j + 1)) (set_entry e (entry\<lparr>te_retired_list_temp := snd (PushBack g (te_retired_list_temp entry))\<rparr>) h), w) }
     else do {
       entry \<leftarrow> SetRetired (te_retired_list_temp entry) entry;
       let h = set_entry e entry h;
       Some (case kind of Scan_Own \<Rightarrow> help_loop t 0 h | Scan_Help \<Rightarrow> hp_goto t (Hp_Release e) h, w) } }"

definition free_rest_turn :: "(nat \<Rightarrow> 'g \<Rightarrow> 'w \<Rightarrow> (bool \<times> 'w) option) \<Rightarrow> nat \<Rightarrow> scan_kind \<Rightarrow> nat \<Rightarrow> nat \<Rightarrow> 'g hp_system \<Rightarrow> 'w \<Rightarrow> ('g hp_system \<times> 'w) option" where
  "free_rest_turn free_turn t kind e j h w = do {
     entry \<leftarrow> entry_of h e;
     g \<leftarrow> deref (fl_elements (te_retired_list entry)) j;
     (over, w) \<leftarrow> free_turn t g w;
     Some (hp_goto t (if over then Hp_Sweep kind e (j + 1) else Hp_Free kind e j) h, w) }"

text \<open>\<^verbatim>\<open>HelpScan\<close> scans the entries of threads that are gone.\<close>

definition help_turn :: "nat \<Rightarrow> nat \<Rightarrow> 'g hp_system \<Rightarrow> 'g hp_system option" where
  "help_turn t i h = do {
     other \<leftarrow> entry_of h i;
     Some (if \<not> te_is_active other then hp_goto t (Hp_Reserve i) h else help_loop t (i + 1) h) }"

definition reserve_turn :: "nat \<Rightarrow> nat \<Rightarrow> ('g :: linorder) hp_system \<Rightarrow> 'g hp_system option" where
  "reserve_turn t i h = do {
     other \<leftarrow> entry_of h i;
     let (reserved, other) = TryReserve other;
     if reserved then
       (let h = set_entry i other h in
        if 0 < GetSize (te_retired_list other) then Scan t Scan_Help i h else Some (hp_goto t (Hp_Release i) h))
     else Some (help_loop t (i + 1) h) }"

definition release_turn :: "nat \<Rightarrow> nat \<Rightarrow> 'g hp_system \<Rightarrow> 'g hp_system option" where
  "release_turn t i h = do {
     other \<leftarrow> entry_of h i;
     Some (help_loop t (i + 1) (set_entry i (SetActive False other) h)) }"

text \<open>\<^verbatim>\<open>EnqueuePointerForDeletion\<close> up to the first turn of a scan, and the turns of the scan and of \<^verbatim>\<open>HelpScan\<close>, after which the operation is over.\<close>

definition EnqueuePointerForDeletion :: "nat \<Rightarrow> ('g :: linorder) \<Rightarrow> 'g hp_system \<Rightarrow> 'g hp_system option" where
  "EnqueuePointerForDeletion t guardedElement h = do {
     entry \<leftarrow> entry_of h t;
     let h = set_entry t (AddRetired guardedElement entry) h;
     exceeded \<leftarrow> IsThresholdExceeded t (hs_that h);
     if exceeded then Scan t Scan_Own t h else Some h }"

definition hp_turn :: "(nat \<Rightarrow> 'g \<Rightarrow> 'w \<Rightarrow> (bool \<times> 'w) option) \<Rightarrow> nat \<Rightarrow> ('g :: linorder) hp_system \<Rightarrow> 'w \<Rightarrow> ('g hp_system \<times> 'w) option" where
  "hp_turn free_turn t h w =
     (let quiet = map_option (\<lambda>h. (h, w)) in
      case hs_pc h t of
        Hp_Idle \<Rightarrow> Some (h, w)
      | Hp_Gone \<Rightarrow> Some (h, w)
      | Hp_Scan kind e i \<Rightarrow> quiet (scan_entry_turn t kind e i h)
      | Hp_Guard kind e i pos \<Rightarrow> quiet (scan_guard_turn t kind e i pos h)
      | Hp_Sweep kind e j \<Rightarrow> sweep_turn free_turn t kind e j h w
      | Hp_Free kind e j \<Rightarrow> free_rest_turn free_turn t kind e j h w
      | Hp_Help i \<Rightarrow> quiet (help_turn t i h)
      | Hp_Reserve i \<Rightarrow> quiet (reserve_turn t i h)
      | Hp_Release i \<Rightarrow> quiet (release_turn t i h))"

definition hp_start :: "nat \<Rightarrow> nat \<Rightarrow> 'g hp_system" where
  "hp_start threads guards_per_thread = \<lparr>hs_that = HazardPointer_new threads guards_per_thread, hs_pc = (\<lambda>_. Hp_Idle)\<rparr>"

section \<open>The invariant\<close>

definition retired :: "'g hp_system \<Rightarrow> nat \<Rightarrow> 'g list" where
  "retired h e = fl_elements (te_retired_list (hp_entries (hs_that h) ! e))"

definition hazard :: "'g hp_system \<Rightarrow> nat \<Rightarrow> 'g list" where
  "hazard h e = fl_elements (te_hazard_pointer_list_temp (hp_entries (hs_that h) ! e))"

definition retired_temp :: "'g hp_system \<Rightarrow> nat \<Rightarrow> 'g list" where
  "retired_temp h e = fl_elements (te_retired_list_temp (hp_entries (hs_that h) ! e))"

definition active :: "'g hp_system \<Rightarrow> nat \<Rightarrow> bool" where
  "active h e = te_is_active (hp_entries (hs_that h) ! e)"

definition guards :: "'g hp_system \<Rightarrow> nat \<Rightarrow> 'g option list" where
  "guards h t = te_guarded_pointers (hp_entries (hs_that h) ! t)"

text \<open>The entry that a thread scans, and the entry that nobody else may touch while it is there.\<close>

fun scanned :: "hp_pc \<Rightarrow> nat option" where
  "scanned (Hp_Scan _ e _) = Some e"
| "scanned (Hp_Guard _ e _ _) = Some e"
| "scanned (Hp_Sweep _ e _) = Some e"
| "scanned (Hp_Free _ e _) = Some e"
| "scanned _ = None"

fun held_entry :: "hp_pc \<Rightarrow> nat option" where
  "held_entry (Hp_Release e) = Some e"
| "held_entry pc = scanned pc"

fun own_scan :: "hp_pc \<Rightarrow> bool" where
  "own_scan (Hp_Scan kind _ _) \<longleftrightarrow> kind = Scan_Own"
| "own_scan (Hp_Guard kind _ _ _) \<longleftrightarrow> kind = Scan_Own"
| "own_scan (Hp_Sweep kind _ _) \<longleftrightarrow> kind = Scan_Own"
| "own_scan (Hp_Free kind _ _) \<longleftrightarrow> kind = Scan_Own"
| "own_scan _ \<longleftrightarrow> False"

text \<open>How many retired pointers of an entry the sweep of a scan has passed.\<close>

fun sweep_pos :: "hp_pc \<Rightarrow> (nat \<times> nat) option" where
  "sweep_pos (Hp_Sweep _ e j) = Some (e, j)"
| "sweep_pos (Hp_Free _ e j) = Some (e, Suc j)"
| "sweep_pos _ = None"

text \<open>The pointers of an entry that are not freed yet: those that the sweep has not reached or has found guarded.\<close>

definition pending :: "'g hp_system \<Rightarrow> nat \<Rightarrow> 'g set" where
  "pending h e = {g \<in> set (retired h e). \<forall>u j. sweep_pos (hs_pc h u) = Some (e, j) \<longrightarrow> g \<in> set (drop j (retired h e)) \<or> g \<in> set (hazard h e)}"

text \<open>Whether a scan has yet to read the guard \<open>pos\<close> of thread \<open>t\<close>.\<close>

fun ahead :: "hp_pc \<Rightarrow> nat \<Rightarrow> nat \<Rightarrow> bool" where
  "ahead (Hp_Scan _ _ i) t pos \<longleftrightarrow> i \<le> t"
| "ahead (Hp_Guard _ _ i p) t pos \<longleftrightarrow> i < t \<or> i = t \<and> p \<le> pos"
| "ahead _ t pos \<longleftrightarrow> False"

text \<open>
  A pointer in the guard \<open>pos\<close> of thread \<open>t\<close> is covered if each scan that may free it has seen the guard or will read it.
\<close>

definition covered :: "'g hp_system \<Rightarrow> nat \<Rightarrow> nat \<Rightarrow> 'g \<Rightarrow> bool" where
  "covered h t pos g \<longleftrightarrow> (\<forall>u e. scanned (hs_pc h u) = Some e \<and> g \<in> pending h e \<longrightarrow> g \<in> set (hazard h e) \<or> ahead (hs_pc h u) t pos)"

definition entry_shape :: "nat \<Rightarrow> nat \<Rightarrow> 'g HazardPointerThreadEntry \<Rightarrow> bool" where
  "entry_shape N G x \<longleftrightarrow> length (te_guarded_pointers x) = G \<and>
     fl_max_size (te_retired_list x) = GetRetiredListMaxSize N G \<and> fl_max_size (te_retired_list_temp x) = GetRetiredListMaxSize N G \<and>
     fl_max_size (te_hazard_pointer_list_temp x) = N * G \<and>
     distinct (fl_elements (te_retired_list x)) \<and> length (fl_elements (te_retired_list x)) \<le> GetRetiredListMaxSize N G"

definition hp_shape :: "nat \<Rightarrow> nat \<Rightarrow> 'g hp_system \<Rightarrow> bool" where
  "hp_shape N G h \<longleftrightarrow> 0 < N \<and> 0 < G \<and> hp_hazard_pointers (hs_that h) = N \<and> hp_guards_per_thread (hs_that h) = G \<and> hp_active (hs_that h) \<le> N \<and>
     length (hp_entries (hs_that h)) = N \<and> (\<forall>e < N. entry_shape N G (hp_entries (hs_that h) ! e))"

definition holder :: "nat \<Rightarrow> 'g hp_system \<Rightarrow> nat \<Rightarrow> scan_kind \<Rightarrow> nat \<Rightarrow> bool" where
  "holder N h u kind e \<longleftrightarrow> e < N \<and> active h e \<and> (case kind of Scan_Own \<Rightarrow> e = u | Scan_Help \<Rightarrow> e \<noteq> u \<and> hs_pc h e = Hp_Gone)"

definition sweep_ok :: "nat \<Rightarrow> nat \<Rightarrow> ('g :: linorder) hp_system \<Rightarrow> nat \<Rightarrow> nat \<Rightarrow> bool" where
  "sweep_ok N G h e j \<longleftrightarrow> sorted (hazard h e) \<and> length (hazard h e) \<le> N * G \<and>
     retired_temp h e = filter (\<lambda>g. g \<in> set (hazard h e)) (take j (retired h e))"

definition hp_pc_ok :: "nat \<Rightarrow> nat \<Rightarrow> ('g :: linorder) hp_system \<Rightarrow> nat \<Rightarrow> hp_pc \<Rightarrow> bool" where
  "hp_pc_ok N G h u pc = (case pc of
       Hp_Scan kind e i \<Rightarrow> holder N h u kind e \<and> i < N \<and> length (hazard h e) \<le> i * G
     | Hp_Guard kind e i pos \<Rightarrow> holder N h u kind e \<and> i < N \<and> pos < G \<and> length (hazard h e) \<le> i * G + pos
     | Hp_Sweep kind e j \<Rightarrow> holder N h u kind e \<and> j \<le> length (retired h e) \<and> sweep_ok N G h e j
     | Hp_Free kind e j \<Rightarrow> holder N h u kind e \<and> j < length (retired h e) \<and> sweep_ok N G h e j \<and> retired h e ! j \<notin> set (hazard h e)
     | Hp_Help i \<Rightarrow> i < N
     | Hp_Reserve i \<Rightarrow> i < N
     | Hp_Release i \<Rightarrow> holder N h u Scan_Help i
     | _ \<Rightarrow> True)"

definition hp_inv :: "nat \<Rightarrow> nat \<Rightarrow> ('g :: linorder) hp_system \<Rightarrow> bool" where
  "hp_inv N G h \<longleftrightarrow> hp_shape N G h \<and>
     (\<forall>u < N. hp_pc_ok N G h u (hs_pc h u) \<and> (hs_pc h u \<noteq> Hp_Gone \<longrightarrow> active h u) \<and>
        (\<not> own_scan (hs_pc h u) \<longrightarrow> 4 * length (retired h u) < 5 * N * G)) \<and>
     (\<forall>u. N \<le> u \<longrightarrow> hs_pc h u = Hp_Idle) \<and>
     (\<forall>u v e. held_entry (hs_pc h u) = Some e \<and> held_entry (hs_pc h v) = Some e \<longrightarrow> u = v) \<and>
     (\<forall>e f. e < N \<and> f < N \<and> e \<noteq> f \<longrightarrow> pending h e \<inter> pending h f = {})"

section \<open>A turn changes one entry and one thread\<close>

lemma goto_simps [simp]:
  "hs_that (hp_goto t pc h) = hs_that h" "hs_pc (hp_goto t pc h) = (hs_pc h)(t := pc)"
  "hs_pc (set_entry e x h) = hs_pc h" "hp_entries (hs_that (set_entry e x h)) = (hp_entries (hs_that h))[e := x]"
  "hp_guards_per_thread (hs_that (set_entry e x h)) = hp_guards_per_thread (hs_that h)" "hp_active (hs_that (set_entry e x h)) = hp_active (hs_that h)"
  "hp_hazard_pointers (hs_that (set_entry e x h)) = hp_hazard_pointers (hs_that h)"
  by (simp_all add: hp_goto_def set_entry_def)

lemma scanned_held: "scanned pc = Some e \<Longrightarrow> held_entry pc = Some e"
  by (cases pc) auto

lemma sweep_pos_held: "sweep_pos pc = Some (e, j) \<Longrightarrow> held_entry pc = Some e"
  by (cases pc) auto

definition moved :: "nat \<Rightarrow> nat \<Rightarrow> 'g HazardPointerThreadEntry \<Rightarrow> hp_pc \<Rightarrow> 'g hp_system \<Rightarrow> 'g hp_system" where
  "moved t e x pc h = hp_goto t pc (set_entry e x h)"

lemma moved_views:
  assumes "f \<noteq> e"
  shows "retired (moved t e x pc h) f = retired h f" "hazard (moved t e x pc h) f = hazard h f" "retired_temp (moved t e x pc h) f = retired_temp h f"
    "active (moved t e x pc h) f = active h f" "guards (moved t e x pc h) f = guards h f"
  using assms by (simp_all add: moved_def retired_def hazard_def retired_temp_def active_def guards_def)

lemma moved_views_at:
  assumes "e < length (hp_entries (hs_that h))"
  shows "retired (moved t e x pc h) e = fl_elements (te_retired_list x)" "hazard (moved t e x pc h) e = fl_elements (te_hazard_pointer_list_temp x)"
    "retired_temp (moved t e x pc h) e = fl_elements (te_retired_list_temp x)" "active (moved t e x pc h) e = te_is_active x" "guards (moved t e x pc h) e = te_guarded_pointers x"
  using assms by (simp_all add: moved_def retired_def hazard_def retired_temp_def active_def guards_def)

lemma moved_pc [simp]: "hs_pc (moved t e x pc h) = (hs_pc h)(t := pc)"
  by (simp add: moved_def)

lemma pending_other:
  assumes "f \<noteq> e" "held_entry (hs_pc h t) \<noteq> Some f" "held_entry pc \<noteq> Some f"
  shows "pending (moved t e x pc h) f = pending h f"
proof -
  have "sweep_pos (((hs_pc h)(t := pc)) u) = Some (f, j) \<longleftrightarrow> sweep_pos (hs_pc h u) = Some (f, j)" for u j
    using assms(2,3) sweep_pos_held[of pc f j] sweep_pos_held[of "hs_pc h t" f j] by auto
  then show ?thesis
    by (simp add: pending_def moved_views[OF assms(1)])
qed

lemma holder_moved:
  assumes "holder N h u kind f" "f \<noteq> e" "u \<noteq> t" "hs_pc h t \<noteq> Hp_Gone"
  shows "holder N (moved t e x pc h) u kind f"
  using assms by (auto simp: holder_def moved_views split: scan_kind.splits)

lemma hp_pc_ok_moved:
  assumes "hp_pc_ok N G h u (hs_pc h u)" "u \<noteq> t" "hs_pc h t \<noteq> Hp_Gone" "held_entry (hs_pc h u) \<noteq> Some e"
  shows "hp_pc_ok N G (moved t e x pc h) u (hs_pc h u)"
proof (cases "held_entry (hs_pc h u)")
  case None
  then show ?thesis
    using assms(1) by (cases "hs_pc h u") (auto simp: hp_pc_ok_def)
next
  case (Some f)
  then have "f \<noteq> e"
    using assms(4) by auto
  then show ?thesis
    using Some assms(1) holder_moved[OF _ _ assms(2,3), of N _ f e x pc]
    by (cases "hs_pc h u") (auto simp: hp_pc_ok_def sweep_ok_def moved_views)
qed

lemma hp_inv_moved:
  assumes inv: "hp_inv N G h" and t: "t < N" "hs_pc h t \<noteq> Hp_Gone" and e: "e < N" "\<forall>u. u \<noteq> t \<longrightarrow> held_entry (hs_pc h u) \<noteq> Some e"
    and held: "held_entry (hs_pc h t) = None \<or> held_entry (hs_pc h t) = Some e" "held_entry pc = None \<or> held_entry pc = Some e"
    and x: "entry_shape N G x" "((hs_pc h)(t := pc)) e \<noteq> Hp_Gone \<longrightarrow> te_is_active x"
    and pc: "hp_pc_ok N G (moved t e x pc h) t pc" "own_scan pc \<and> e = t \<or> 4 * length (fl_elements (te_retired_list x)) < 5 * N * G"
    and disjoint: "\<forall>f < N. f \<noteq> e \<longrightarrow> pending (moved t e x pc h) e \<inter> pending h f = {}"
  shows "hp_inv N G (moved t e x pc h)"
proof -
  let ?h = "moved t e x pc h"
  have shape: "hp_shape N G h" and N: "length (hp_entries (hs_that h)) = N"
    using inv by (simp_all add: hp_inv_def hp_shape_def)
  have "hp_shape N G ?h"
    using shape x(1) e(1) by (simp add: hp_shape_def moved_def nth_list_update)
  moreover have "hp_pc_ok N G ?h u (hs_pc ?h u) \<and> (hs_pc ?h u \<noteq> Hp_Gone \<longrightarrow> active ?h u) \<and>
        (\<not> own_scan (hs_pc ?h u) \<longrightarrow> 4 * length (retired ?h u) < 5 * N * G)" if u: "u < N" for u
  proof (intro conjI)
    have old: "hp_pc_ok N G h u (hs_pc h u)" "hs_pc h u \<noteq> Hp_Gone \<longrightarrow> active h u" "\<not> own_scan (hs_pc h u) \<longrightarrow> 4 * length (retired h u) < 5 * N * G"
      using inv u by (simp_all add: hp_inv_def)
    show "hp_pc_ok N G ?h u (hs_pc ?h u)"
      using pc(1) hp_pc_ok_moved[OF old(1) _ t(2), of e x pc] e(2) by (cases "u = t") auto
    show "hs_pc ?h u \<noteq> Hp_Gone \<longrightarrow> active ?h u"
      using x(2) old(2) t(2) e(1) N by (cases "u = e") (auto simp: moved_views moved_views_at)
    show "\<not> own_scan (hs_pc ?h u) \<longrightarrow> 4 * length (retired ?h u) < 5 * N * G"
    proof (cases "u = e")
      case True
      then show ?thesis
        using pc(2) e(1) N by (auto simp: moved_views_at)
    next
      case False
      have "own_scan (hs_pc h t) \<Longrightarrow> held_entry (hs_pc h t) = Some t"
        using inv t(1) by (cases "hs_pc h t") (auto simp: hp_inv_def hp_pc_ok_def holder_def)
      then show ?thesis
        using False old(3) held(1) by (auto simp: moved_views)
    qed
  qed
  moreover have "hs_pc ?h u = Hp_Idle" if "N \<le> u" for u
    using that t(1) inv by (auto simp: hp_inv_def)
  moreover have "u = v" if "held_entry (hs_pc ?h u) = Some f" "held_entry (hs_pc ?h v) = Some f" for u v f
    using that inv e(2) held(1,2) by (auto simp: hp_inv_def split: if_splits)
  moreover have "pending ?h f \<inter> pending ?h g = {}" if "f < N" "g < N" "f \<noteq> g" for f g
  proof -
    have other: "pending ?h d = pending h d" if "d \<noteq> e" for d
      using that held(1,2) by (intro pending_other) auto
    have "pending h f \<inter> pending h g = {}"
      using inv that by (simp add: hp_inv_def)
    then show ?thesis
      using disjoint that other[of f] other[of g] by (cases "f = e"; cases "g = e") auto
  qed
  ultimately show ?thesis
    unfolding hp_inv_def by blast
qed

lemma covered_moved:
  assumes "covered h t' pos g" "e < length (hp_entries (hs_that h))" "\<forall>u. u \<noteq> t \<longrightarrow> held_entry (hs_pc h u) \<noteq> Some e"
    and held: "held_entry (hs_pc h t) = None \<or> held_entry (hs_pc h t) = Some e" "held_entry pc = None \<or> held_entry pc = Some e"
    and "scanned pc = Some e \<and> g \<in> pending (moved t e x pc h) e \<longrightarrow> g \<in> set (hazard (moved t e x pc h) e) \<or> ahead pc t' pos"
  shows "covered (moved t e x pc h) t' pos g"
  unfolding covered_def
proof (intro allI impI, elim conjE)
  fix u f
  assume f: "scanned (hs_pc (moved t e x pc h) u) = Some f" "g \<in> pending (moved t e x pc h) f"
  show "g \<in> set (hazard (moved t e x pc h) f) \<or> ahead (hs_pc (moved t e x pc h) u) t' pos"
  proof (cases "u = t")
    case True
    then have "f = e"
      using f(1) held(2) scanned_held[of pc f] by auto
    then show ?thesis
      using True f assms(6) by simp
  next
    case False
    then have "f \<noteq> e"
      using f(1) assms(3) scanned_held[of "hs_pc h u" f] by auto
    moreover have "pending (moved t e x pc h) f = pending h f"
      using \<open>f \<noteq> e\<close> held by (intro pending_other) auto
    ultimately show ?thesis
      using False f assms(1) by (auto simp: covered_def moved_views)
  qed
qed

text \<open>
  What a turn of the scan leaves alone: the invariant, the other entries, the guards, and that pointers are covered.
\<close>

definition freeing :: "'g hp_system \<Rightarrow> nat \<Rightarrow> 'g option" where
  "freeing h t = (case hs_pc h t of Hp_Free _ e j \<Rightarrow> Some (retired h e ! j) | _ \<Rightarrow> None)"

lemma freeing_moved:
  assumes "u \<noteq> t" "held_entry (hs_pc h u) \<noteq> Some e"
  shows "freeing (moved t e x pc h) u = freeing h u"
  using assms by (cases "hs_pc h u") (auto simp: freeing_def moved_views)

definition hp_keeps :: "nat \<Rightarrow> nat \<Rightarrow> nat \<Rightarrow> ('g :: linorder) hp_system \<Rightarrow> 'g hp_system \<Rightarrow> bool" where
  "hp_keeps N G t h h' \<longleftrightarrow> hp_inv N G h' \<and> (\<forall>u. guards h' u = guards h u) \<and> (\<forall>u. u \<noteq> t \<longrightarrow> hs_pc h' u = hs_pc h u \<and> freeing h' u = freeing h u) \<and>
     (\<forall>t' pos g. t' < N \<and> pos < G \<and> guards h t' ! pos = Some g \<and> hs_pc h t' \<noteq> Hp_Gone \<and> covered h t' pos g \<longrightarrow> covered h' t' pos g)"

lemma hp_keeps_moved:
  assumes inv: "hp_inv N G h" and t: "t < N" "hs_pc h t \<noteq> Hp_Gone" and e: "e < N" "\<forall>u. u \<noteq> t \<longrightarrow> held_entry (hs_pc h u) \<noteq> Some e"
    and held: "held_entry (hs_pc h t) = None \<or> held_entry (hs_pc h t) = Some e" "held_entry pc = None \<or> held_entry pc = Some e" "pc \<noteq> Hp_Gone"
    and x: "entry_shape N G x" "((hs_pc h)(t := pc)) e \<noteq> Hp_Gone \<longrightarrow> te_is_active x" "te_guarded_pointers x = guards h e"
    and pc: "hp_pc_ok N G (moved t e x pc h) t pc" "own_scan pc \<and> e = t \<or> 4 * length (fl_elements (te_retired_list x)) < 5 * N * G"
    and pending: "pending (moved t e x pc h) e \<subseteq> pending h e"
    and covered: "\<forall>t' pos g. t' < N \<and> pos < G \<and> guards h t' ! pos = Some g \<and> hs_pc h t' \<noteq> Hp_Gone \<and> covered h t' pos g \<and> g \<in> pending (moved t e x pc h) e \<and>
      scanned pc = Some e \<longrightarrow> g \<in> set (fl_elements (te_hazard_pointer_list_temp x)) \<or> ahead pc t' pos"
  shows "hp_keeps N G t h (moved t e x pc h)" "\<forall>f. f \<noteq> e \<longrightarrow> pending (moved t e x pc h) f = pending h f"
proof -
  have N: "e < length (hp_entries (hs_that h))"
    using inv e(1) by (simp add: hp_inv_def hp_shape_def)
  have "\<forall>f < N. f \<noteq> e \<longrightarrow> pending (moved t e x pc h) e \<inter> pending h f = {}"
    using inv e(1) pending by (fastforce simp: hp_inv_def)
  note inv' = hp_inv_moved[OF inv t e held(1,2) x(1,2) pc this]
  moreover have "guards (moved t e x pc h) u = guards h u" for u
    using x(3) N by (cases "u = e") (simp_all add: moved_views moved_views_at)
  moreover have "covered (moved t e x pc h) t' pos g"
    if "t' < N" "pos < G" "guards h t' ! pos = Some g" "hs_pc h t' \<noteq> Hp_Gone" "covered h t' pos g" for t' pos g
    using covered that by (intro covered_moved[OF that(5) N e(2) held(1,2)]) (auto simp: moved_views_at[OF N])
  moreover have "freeing (moved t e x pc h) u = freeing h u" if "u \<noteq> t" for u
    using freeing_moved that e(2) by blast
  ultimately show "hp_keeps N G t h (moved t e x pc h)"
    by (simp add: hp_keeps_def)
  show "\<forall>f. f \<noteq> e \<longrightarrow> pending (moved t e x pc h) f = pending h f"
    using held(1,2) by (intro allI impI pending_other) auto
qed

section \<open>The first part of a scan\<close>

lemma pending_at:
  assumes "\<forall>u. u \<noteq> t \<longrightarrow> held_entry (hs_pc h u) \<noteq> Some e"
  shows "pending h e = {g \<in> set (retired h e). \<forall>j. sweep_pos (hs_pc h t) = Some (e, j) \<longrightarrow> g \<in> set (drop j (retired h e)) \<or> g \<in> set (hazard h e)}"
proof -
  have "u = t" if "sweep_pos (hs_pc h u) = Some (e, j)" for u j
    using assms sweep_pos_held[OF that] by auto
  then show ?thesis
    unfolding pending_def by blast
qed

text \<open>The scan is about to read the guard with the number \<open>k\<close> in the array of all guards, or has read them all.\<close>

definition swept :: "('g :: linorder) HazardPointerThreadEntry \<Rightarrow> 'g HazardPointerThreadEntry" where
  "swept x = x\<lparr>te_retired_list_temp := clear (te_retired_list_temp x),
     te_hazard_pointer_list_temp := (te_hazard_pointer_list_temp x)\<lparr>fl_elements := sort (fl_elements (te_hazard_pointer_list_temp x))\<rparr>\<rparr>"

definition scan_at :: "nat \<Rightarrow> nat \<Rightarrow> scan_kind \<Rightarrow> nat \<Rightarrow> nat \<Rightarrow> ('g :: linorder) HazardPointerThreadEntry \<Rightarrow> hp_pc \<Rightarrow> 'g HazardPointerThreadEntry \<Rightarrow> bool" where
  "scan_at N G kind e k x pc x' \<longleftrightarrow>
     (\<exists>i pos. pc = Hp_Guard kind e i pos \<and> i < N \<and> pos < G \<and> k = i * G + pos \<and> x' = x) \<or>
     (\<exists>i. pc = Hp_Scan kind e i \<and> i < N \<and> k = i * G \<and> x' = x) \<or>
     (pc = Hp_Sweep kind e 0 \<and> k = N * G \<and> x' = swept x)"

lemma pair_less: "pos < G \<Longrightarrow> i * G + p \<le> t * G + pos \<Longrightarrow> p < G \<Longrightarrow> i < t \<or> i = t \<and> p \<le> (pos :: nat)"
proof -
  assume "pos < G" "i * G + p \<le> t * G + pos" "p < G"
  moreover have "Suc t * G \<le> i * G" if "t < i"
    using that by (intro mult_le_mono1) simp
  ultimately show ?thesis
    by (cases i t rule: linorder_cases) auto
qed

lemma pair_less_eq: "i < t \<or> i = t \<and> p \<le> pos \<Longrightarrow> p < G \<Longrightarrow> i * G + p \<le> t * G + (pos :: nat)"
proof -
  assume "i < t \<or> i = t \<and> p \<le> pos" "p < G"
  moreover have "Suc i * G \<le> t * G" if "i < t"
    using that by (intro mult_le_mono1) simp
  ultimately show ?thesis
    by auto
qed

lemma scan_at_ahead:
  assumes "scan_at N G kind e k x pc x'" "k \<le> t * G + pos" "t < N" "pos < G"
  shows "ahead pc t pos"
proof -
  have "Suc t * G \<le> N * G"
    using assms(3) by (intro mult_le_mono1) simp
  moreover have "i \<le> t" if "i * G \<le> t * G + pos" for i
    using pair_less[of pos G i 0 t] that assms(4) by auto
  ultimately show ?thesis
    using assms pair_less[of pos G _ _ t] by (auto simp: scan_at_def)
qed

lemma scan_keeps:
  assumes inv: "hp_inv N G h" and t: "t < N" "hs_pc h t \<noteq> Hp_Gone" and e: "e < N" "\<forall>u. u \<noteq> t \<longrightarrow> held_entry (hs_pc h u) \<noteq> Some e"
    and held: "held_entry (hs_pc h t) = None \<or> held_entry (hs_pc h t) = Some e" "sweep_pos (hs_pc h t) = None"
    and kind: "case kind of Scan_Own \<Rightarrow> e = t | Scan_Help \<Rightarrow> e \<noteq> t \<and> hs_pc h e = Hp_Gone \<and> 4 * length (retired h e) < 5 * N * G"
    and x: "entry_shape N G x" "te_is_active x" "te_guarded_pointers x = guards h e" "fl_elements (te_retired_list x) = retired h e"
    and hz: "length (fl_elements (te_hazard_pointer_list_temp x)) \<le> k"
    and pc: "scan_at N G kind e k x pc x'"
    and seen: "\<forall>t' pos g. t' < N \<and> pos < G \<and> guards h t' ! pos = Some g \<and> hs_pc h t' \<noteq> Hp_Gone \<and> covered h t' pos g \<and> g \<in> set (retired h e) \<longrightarrow>
      g \<in> set (fl_elements (te_hazard_pointer_list_temp x)) \<or> k \<le> t' * G + pos"
  shows "hp_keeps N G t h (moved t e x' pc h) \<and> (\<forall>f. pending (moved t e x' pc h) f = pending h f)"
proof -
  have N: "e < length (hp_entries (hs_that h))"
    using inv e(1) by (simp add: hp_inv_def hp_shape_def)
  have x': "entry_shape N G x'" "te_is_active x'" "te_guarded_pointers x' = guards h e" "fl_elements (te_retired_list x') = retired h e"
      "set (fl_elements (te_hazard_pointer_list_temp x')) = set (fl_elements (te_hazard_pointer_list_temp x))"
      "length (fl_elements (te_hazard_pointer_list_temp x')) = length (fl_elements (te_hazard_pointer_list_temp x))"
    using x pc by (auto simp: scan_at_def swept_def entry_shape_def clear_def)
  have at: "held_entry pc = Some e" "scanned pc = Some e" "pc \<noteq> Hp_Gone" "own_scan pc \<longleftrightarrow> kind = Scan_Own" "\<forall>j. sweep_pos pc = Some (e, j) \<longrightarrow> j = 0"
    using pc by (auto simp: scan_at_def)
  have "holder N (moved t e x' pc h) t kind e"
    using e(1) kind x'(2) at(3) by (auto simp: holder_def moved_views_at[OF N] split: scan_kind.splits)
  moreover have "sorted (hazard (moved t e x' pc h) e) \<and> retired_temp (moved t e x' pc h) e = []" if "pc = Hp_Sweep kind e 0"
    using pc that by (auto simp: scan_at_def swept_def clear_def moved_views_at[OF N])
  ultimately have ok: "hp_pc_ok N G (moved t e x' pc h) t pc"
    using pc hz x'(6) by (auto simp: scan_at_def hp_pc_ok_def sweep_ok_def moved_views_at[OF N])
  have all: "pending h e = set (retired h e)" "pending (moved t e x' pc h) e = set (retired h e)"
    using pending_at[OF e(2)] pending_at[of t "moved t e x' pc h" e] e(2) at(5) held(2) x'(4)
    by (auto simp: moved_views_at[OF N])
  have bound: "own_scan pc \<and> e = t \<or> 4 * length (fl_elements (te_retired_list x')) < 5 * N * G"
    using kind at(4) x'(4) by (auto split: scan_kind.splits)
  have cover: "\<forall>t' pos g. t' < N \<and> pos < G \<and> guards h t' ! pos = Some g \<and> hs_pc h t' \<noteq> Hp_Gone \<and> covered h t' pos g \<and> g \<in> pending (moved t e x' pc h) e \<and>
      scanned pc = Some e \<longrightarrow> g \<in> set (fl_elements (te_hazard_pointer_list_temp x')) \<or> ahead pc t' pos"
    using seen scan_at_ahead[OF pc] by (simp add: all(2) x'(5)) blast
  note result = hp_keeps_moved[OF inv t e held(1) disjI2[OF at(1)] at(3) x'(1) _ x'(3) ok bound _ cover]
  have "pending (moved t e x' pc h) f = pending h f" for f
    using result(2) all x'(2) by (cases "f = e") auto
  then show ?thesis
    using result(1) x'(2) by simp
qed

lemma set_entry_twice [simp]: "set_entry e y (set_entry e x h) = set_entry e y h"
  by (simp add: set_entry_def)

lemma set_entry_same: "set_entry e (hp_entries (hs_that h) ! e) h = h"
  by (simp add: set_entry_def)

lemma set_entry_at: "e < length (hp_entries (hs_that h)) \<Longrightarrow> hp_entries (hs_that (set_entry e x h)) ! e = x"
  by simp

lemma scan_entries_at:
  assumes "hp_inv N G h" "e < N" "i \<le> N"
  obtains pc x' where "scan_entries t kind e i (set_entry e x h) = Some (moved t e x' pc h)" "scan_at N G kind e (i * G) x pc x'"
proof -
  have N: "hp_hazard_pointers (hs_that h) = N" "e < length (hp_entries (hs_that h))"
    using assms(1,2) by (simp_all add: hp_inv_def hp_shape_def)
  show thesis
  proof (cases "i = N")
    case True
    then have "scan_entries t kind e i (set_entry e x h) = Some (moved t e (swept x) (Hp_Sweep kind e 0) h)"
      using N by (simp add: scan_entries_def start_sweep_def moved_def swept_def Let_def)
    then show thesis
      using True by (intro that) (auto simp: scan_at_def)
  next
    case False
    then have "scan_entries t kind e i (set_entry e x h) = Some (moved t e x (Hp_Scan kind e i) h)"
      using N by (simp add: scan_entries_def moved_def)
    then show thesis
      using False assms(3) by (intro that) (auto simp: scan_at_def)
  qed
qed

lemma scan_guards_at:
  assumes "hp_inv N G h" "e < N" "i < N" "pos \<le> G"
  obtains pc x' where "scan_guards t kind e i pos (set_entry e x h) = Some (moved t e x' pc h)" "scan_at N G kind e (i * G + pos) x pc x'"
proof (cases "pos = G")
  case True
  have G: "hp_guards_per_thread (hs_that h) = G"
    using assms(1) by (simp add: hp_inv_def hp_shape_def)
  have "i + 1 \<le> N"
    using assms(3) by simp
  from scan_entries_at[OF assms(1,2) this, of t kind x] obtain pc x' where
    "scan_entries t kind e (i + 1) (set_entry e x h) = Some (moved t e x' pc h)" "scan_at N G kind e ((i + 1) * G) x pc x'" .
  then show thesis
    using True G by (intro that) (simp_all add: scan_guards_def algebra_simps)
next
  case False
  have G: "hp_guards_per_thread (hs_that h) = G"
    using assms(1) by (simp add: hp_inv_def hp_shape_def)
  then have "scan_guards t kind e i pos (set_entry e x h) = Some (moved t e x (Hp_Guard kind e i pos) h)"
    using False by (simp add: scan_guards_def moved_def)
  then show thesis
    using False assms(3,4) by (intro that) (auto simp: scan_at_def)
qed

text \<open>What the invariant says of an entry and of a thread that scans one.\<close>

lemma entry_facts:
  assumes "hp_inv N G h" "e < N"
  shows "entry_of h e = Some (hp_entries (hs_that h) ! e)" "entry_shape N G (hp_entries (hs_that h) ! e)" "e < length (hp_entries (hs_that h))"
  using assms by (simp_all add: hp_inv_def hp_shape_def)

lemma holder_facts:
  assumes inv: "hp_inv N G h" and t: "t < N" and pc: "hs_pc h t = p" "scanned p = Some e" "holder N h t kind e"
    and "\<forall>j. p \<noteq> Hp_Sweep Scan_Own e j \<and> p \<noteq> Hp_Free Scan_Own e j" "\<forall>j. p \<noteq> Hp_Sweep Scan_Help e j \<and> p \<noteq> Hp_Free Scan_Help e j"
  shows "e < N" "\<forall>u. u \<noteq> t \<longrightarrow> held_entry (hs_pc h u) \<noteq> Some e" "held_entry (hs_pc h t) = Some e" "sweep_pos (hs_pc h t) = None" "hs_pc h t \<noteq> Hp_Gone"
    "case kind of Scan_Own \<Rightarrow> e = t | Scan_Help \<Rightarrow> e \<noteq> t \<and> hs_pc h e = Hp_Gone \<and> 4 * length (retired h e) < 5 * N * G"
    "te_is_active (hp_entries (hs_that h) ! e)"
proof -
  show "e < N" and active: "te_is_active (hp_entries (hs_that h) ! e)"
    using pc(3) by (simp_all add: holder_def active_def)
  show held: "held_entry (hs_pc h t) = Some e"
    using pc(1,2) scanned_held by simp
  then show "\<forall>u. u \<noteq> t \<longrightarrow> held_entry (hs_pc h u) \<noteq> Some e"
    using inv unfolding hp_inv_def by blast
  show "sweep_pos (hs_pc h t) = None"
    using pc(1,2) assms(6,7) by (cases p; metis (full_types) scan_kind.exhaust option.inject scanned.simps sweep_pos.simps)
  show "hs_pc h t \<noteq> Hp_Gone"
    using pc(1,2) by auto
  show "case kind of Scan_Own \<Rightarrow> e = t | Scan_Help \<Rightarrow> e \<noteq> t \<and> hs_pc h e = Hp_Gone \<and> 4 * length (retired h e) < 5 * N * G"
    using pc(3) inv by (auto simp: holder_def hp_inv_def split: scan_kind.splits)
qed

lemma ahead_index:
  "ahead (Hp_Scan kind e i) t pos \<Longrightarrow> 0 < G \<Longrightarrow> i * G \<le> t * G + pos"
  "ahead (Hp_Guard kind e i p) t pos \<Longrightarrow> p < G \<Longrightarrow> i * G + p \<le> t * G + pos"
  using pair_less_eq[of i t 0 0 G] pair_less_eq[of i t p pos G] by (auto simp: trans_le_add1)

lemma seen_or_ahead:
  assumes "covered h t' pos g" "hs_pc h t = p" "scanned p = Some e" "sweep_pos p = None" "g \<in> set (retired h e)"
    "\<forall>u. u \<noteq> t \<longrightarrow> held_entry (hs_pc h u) \<noteq> Some e"
  shows "g \<in> set (hazard h e) \<or> ahead p t' pos"
proof -
  have "g \<in> pending h e"
    using assms pending_at[OF assms(6)] by simp
  then show ?thesis
    using assms(1-3) by (auto simp: covered_def)
qed

definition hp_quiet :: "nat \<Rightarrow> nat \<Rightarrow> nat \<Rightarrow> ('g :: linorder) hp_system \<Rightarrow> 'g hp_system option \<Rightarrow> bool" where
  "hp_quiet N G t h r \<longleftrightarrow> (\<exists>h'. r = Some h' \<and> hp_keeps N G t h h' \<and> (\<forall>f. pending h' f = pending h f))"

lemma hp_quietI: "r = Some h' \<Longrightarrow> hp_keeps N G t h h' \<and> (\<forall>f. pending h' f = pending h f) \<Longrightarrow> hp_quiet N G t h r"
  by (auto simp: hp_quiet_def)

lemma scan_entry_turn_ok:
  assumes inv: "hp_inv N G h" and t: "t < N" and pc: "hs_pc h t = Hp_Scan kind e i"
  shows "hp_quiet N G t h (scan_entry_turn t kind e i h)"
proof -
  have ok: "holder N h t kind e" "i < N" "length (hazard h e) \<le> i * G" and G: "0 < G"
    using inv t pc unfolding hp_inv_def hp_pc_ok_def hp_shape_def by fastforce+
  note h = holder_facts[OF inv t pc _ ok(1), simplified]
  note entry = entry_facts[OF inv h(1)]
  have seen: "g \<in> set (hazard h e) \<or> i * G \<le> t' * G + pos" if "covered h t' pos g" "g \<in> set (retired h e)" for t' pos g
    using seen_or_ahead[OF that(1) pc _ _ that(2) h(2)] ahead_index(1)[OF _ G] by auto
  note keep = scan_keeps[OF inv t h(5) h(1,2) disjI2[OF h(3)] h(4,6) entry(2) h(7) guards_def[symmetric] retired_def[symmetric]]
  have i: "entry_of h i = Some (hp_entries (hs_that h) ! i)"
    using entry_facts(1)[OF inv ok(2)] .
  show ?thesis
  proof (cases "te_is_active (hp_entries (hs_that h) ! i)")
    case True
    obtain pc' x' where *: "scan_guards t kind e i 0 (set_entry e (hp_entries (hs_that h) ! e) h) = Some (moved t e x' pc' h)"
        "scan_at N G kind e (i * G + 0) (hp_entries (hs_that h) ! e) pc' x'"
      using scan_guards_at[OF inv h(1) ok(2), of 0 t kind "hp_entries (hs_that h) ! e"] by blast
    have "scan_entry_turn t kind e i h = Some (moved t e x' pc' h)"
      using True *(1) i by (simp add: scan_entry_turn_def set_entry_same)
    then show ?thesis
      by (rule hp_quietI) (rule keep[OF _ *(2)]; use ok(3) seen in \<open>simp add: hazard_def\<close>)
  next
    case False
    have "i + 1 \<le> N"
      using ok(2) by simp
    from scan_entries_at[OF inv h(1) this, of t kind "hp_entries (hs_that h) ! e"] obtain pc' x' where
      *: "scan_entries t kind e (i + 1) (set_entry e (hp_entries (hs_that h) ! e) h) = Some (moved t e x' pc' h)"
         "scan_at N G kind e ((i + 1) * G) (hp_entries (hs_that h) ! e) pc' x'" .
    have "g \<in> set (hazard h e) \<or> (i + 1) * G \<le> t' * G + pos"
      if "t' < N" "hs_pc h t' \<noteq> Hp_Gone" "covered h t' pos g" "g \<in> set (retired h e)" for t' pos g
    proof -
      have "active h t'"
        using inv that(1,2) by (simp add: hp_inv_def)
      then have "t' \<noteq> i"
        using False by (auto simp: active_def)
      moreover have "g \<in> set (hazard h e) \<or> i \<le> t'"
        using seen_or_ahead[OF that(3) pc _ _ that(4) h(2)] by simp
      moreover have "Suc i * G \<le> t' * G" if "i < t'"
        using that by (intro mult_le_mono1) simp
      ultimately show ?thesis
        by (cases "i < t'") auto
    qed
    note seen' = this
    have "scan_entry_turn t kind e i h = Some (moved t e x' pc' h)"
      using False *(1) i by (simp add: scan_entry_turn_def set_entry_same)
    then show ?thesis
      by (rule hp_quietI) (rule keep[OF _ *(2)]; use ok(3) seen' in \<open>auto simp: hazard_def\<close>)
  qed
qed

lemma scan_guard_turn_ok:
  assumes inv: "hp_inv N G h" and t: "t < N" and pc: "hs_pc h t = Hp_Guard kind e i p"
  shows "hp_quiet N G t h (scan_guard_turn t kind e i p h)"
proof -
  have ok: "holder N h t kind e" "i < N" "p < G" "length (hazard h e) \<le> i * G + p"
    using inv t pc unfolding hp_inv_def hp_pc_ok_def by fastforce+
  note h = holder_facts[OF inv t pc _ ok(1), simplified]
  note entry = entry_facts[OF inv h(1)]
  define guard where "guard = guards h i ! p"
  define x where "x = (case guard of None \<Rightarrow> hp_entries (hs_that h) ! e
    | Some g \<Rightarrow> (hp_entries (hs_that h) ! e)\<lparr>te_hazard_pointer_list_temp := snd (PushBack g (te_hazard_pointer_list_temp (hp_entries (hs_that h) ! e)))\<rparr>)"
  have "Suc i * G \<le> N * G"
    using ok(2) by (intro mult_le_mono1) simp
  then have "length (hazard h e) < N * G"
    using ok(3,4) by simp
  then have hz: "fl_elements (te_hazard_pointer_list_temp x) = hazard h e @ (case guard of None \<Rightarrow> [] | Some g \<Rightarrow> [g])"
    using entry(2) by (simp add: x_def PushBack_elements hazard_def entry_shape_def split: option.splits)
  have x: "entry_shape N G x" "te_is_active x" "te_guarded_pointers x = guards h e" "fl_elements (te_retired_list x) = retired h e"
    using entry(2) h(7) by (auto simp: x_def entry_shape_def guards_def retired_def PushBack_elements split: option.splits)
  have i: "entry_of h i = Some (hp_entries (hs_that h) ! i)" "GetGuard (hp_entries (hs_that h) ! i) p = Some guard"
    using entry_facts[OF inv ok(2)] ok(3) by (simp_all add: GetGuard_def guards_def guard_def entry_shape_def)
  have "p + 1 \<le> G"
    using ok(3) by simp
  from scan_guards_at[OF inv h(1) ok(2) this, of t kind x] obtain pc' x' where
    *: "scan_guards t kind e i (p + 1) (set_entry e x h) = Some (moved t e x' pc' h)" "scan_at N G kind e (i * G + (p + 1)) x pc' x'" .
  have "scan_guard_turn t kind e i p h = Some (moved t e x' pc' h)"
  proof (cases guard)
    case None
    then show ?thesis
      using *(1) i by (simp add: scan_guard_turn_def x_def set_entry_same)
  next
    case (Some g)
    then show ?thesis
      using *(1) i entry(1) by (simp add: scan_guard_turn_def x_def)
  qed
  moreover have "g \<in> set (fl_elements (te_hazard_pointer_list_temp x)) \<or> i * G + (p + 1) \<le> t' * G + pos"
    if "pos < G" "guards h t' ! pos = Some g" "covered h t' pos g" "g \<in> set (retired h e)" for t' pos g
  proof (cases "t' = i \<and> pos = p")
    case True
    then show ?thesis
      using that(2) hz guard_def by simp
  next
    case False
    have "g \<in> set (hazard h e) \<or> i * G + p \<le> t' * G + pos"
      using seen_or_ahead[OF that(3) pc _ _ that(4) h(2)] ahead_index(2)[OF _ ok(3)] by auto
    moreover have "i * G + p \<noteq> t' * G + pos"
      using False pair_less[OF that(1), of i p t'] pair_less[OF ok(3), of t' pos i] ok(3) that(1) by auto
    ultimately show ?thesis
      by (auto simp: hz)
  qed
  note seen = this
  show ?thesis
    by (rule hp_quietI[OF calculation], rule scan_keeps[OF inv t h(5) h(1,2) disjI2[OF h(3)] h(4,6) x _ *(2)])
      (use hz ok(4) seen in \<open>auto split: option.splits\<close>)
qed

section \<open>Helping\<close>

lemma own_entry_free:
  assumes "hp_inv N G h" "hs_pc h t \<noteq> Hp_Gone" "u \<noteq> t"
  shows "held_entry (hs_pc h u) \<noteq> Some t"
proof (cases "u < N")
  case True
  then have "hp_pc_ok N G h u (hs_pc h u)"
    using assms(1) by (simp add: hp_inv_def)
  then show ?thesis
    using assms(2,3) by (cases "hs_pc h u") (auto simp: hp_pc_ok_def holder_def split: scan_kind.splits)
next
  case False
  then show ?thesis
    using assms(1) by (simp add: hp_inv_def)
qed

lemma inactive_entry_free:
  assumes "hp_inv N G h" "\<not> active h e" "e < N"
  shows "held_entry (hs_pc h u) \<noteq> Some e" "hs_pc h e = Hp_Gone"
proof -
  show "held_entry (hs_pc h u) \<noteq> Some e"
  proof (cases "u < N")
    case True
    then have "hp_pc_ok N G h u (hs_pc h u)"
      using assms(1) by (simp add: hp_inv_def)
    then show ?thesis
      using assms(2) by (cases "hs_pc h u") (auto simp: hp_pc_ok_def holder_def split: scan_kind.splits)
  next
    case False
    then show ?thesis
      using assms(1) by (simp add: hp_inv_def)
  qed
  show "hs_pc h e = Hp_Gone"
    using assms by (auto simp: hp_inv_def)
qed

lemma goto_keeps:
  assumes inv: "hp_inv N G h" and t: "t < N" "hs_pc h t \<noteq> Hp_Gone" and e: "e < N" "\<forall>u. u \<noteq> t \<longrightarrow> held_entry (hs_pc h u) \<noteq> Some e"
    and held: "held_entry (hs_pc h t) = None \<or> held_entry (hs_pc h t) = Some e" "sweep_pos (hs_pc h t) = None"
    and pc: "held_entry pc = None \<or> held_entry pc = Some e" "scanned pc = None" "pc \<noteq> Hp_Gone"
    and x: "x = (hp_entries (hs_that h) ! e)\<lparr>te_is_active := b\<rparr>" "((hs_pc h)(t := pc)) e \<noteq> Hp_Gone \<longrightarrow> b"
    and ok: "hp_pc_ok N G (moved t e x pc h) t pc" "4 * length (retired h e) < 5 * N * G"
  shows "hp_keeps N G t h (moved t e x pc h) \<and> (\<forall>f. pending (moved t e x pc h) f = pending h f)"
proof -
  note entry = entry_facts[OF inv e(1)]
  have shape: "entry_shape N G x" "te_guarded_pointers x = guards h e" "fl_elements (te_retired_list x) = retired h e"
      "fl_elements (te_hazard_pointer_list_temp x) = hazard h e"
    using entry(2) x(1) by (simp_all add: entry_shape_def guards_def retired_def hazard_def)
  have "sweep_pos pc = None" "\<not> own_scan pc"
    using pc(2) by (cases pc; simp)+
  then have all: "pending h e = set (retired h e)" "pending (moved t e x pc h) e = set (retired h e)"
    using pending_at[OF e(2)] pending_at[of t "moved t e x pc h" e] e(2) held(2) shape(3) by (auto simp: moved_views_at[OF entry(3)])
  have "own_scan pc \<and> e = t \<or> 4 * length (fl_elements (te_retired_list x)) < 5 * N * G"
    using ok(2) shape(3) by simp
  from hp_keeps_moved[OF inv t e held(1) pc(1,3) shape(1) _ shape(2) ok(1) this]
  have "hp_keeps N G t h (moved t e x pc h)" "\<forall>f. f \<noteq> e \<longrightarrow> pending (moved t e x pc h) f = pending h f"
    using all x pc(2) by auto
  then show ?thesis
    using all by (metis (mono_tags))
qed

text \<open>In a state like \<open>h\<close> with another place for the thread, the loop of \<^verbatim>\<open>HelpScan\<close> goes on or ends.\<close>

lemma same_entry_active: "te_is_active (hp_entries (hs_that h) ! e) \<Longrightarrow> hp_entries (hs_that h) ! e = (hp_entries (hs_that h) ! e)\<lparr>te_is_active := True\<rparr>"
  by simp

lemma help_loop_ok:
  assumes inv: "hp_inv N G h" and t: "t < N" "hs_pc h t \<noteq> Hp_Gone" and pc: "held_entry (hs_pc h t) = None" and i: "i \<le> N"
  shows "hp_keeps N G t h (help_loop t i h) \<and> (\<forall>f. pending (help_loop t i h) f = pending h f)"
proof -
  have N: "hp_hazard_pointers (hs_that h) = N" and own: "4 * length (retired h t) < 5 * N * G" and a: "te_is_active (hp_entries (hs_that h) ! t)"
    using inv t pc unfolding hp_inv_def hp_shape_def active_def by (cases "hs_pc h t"; fastforce)+
  define pc where "pc = (if i \<noteq> N then Hp_Help i else Hp_Idle)"
  have "help_loop t i h = moved t t (hp_entries (hs_that h) ! t) pc h"
    using N by (simp add: help_loop_def moved_def set_entry_same pc_def)
  moreover have "sweep_pos (hs_pc h t) = None"
    using pc by (cases "hs_pc h t") auto
  moreover have "hp_pc_ok N G h' t pc" for h' :: "'a hp_system"
    using i by (simp add: pc_def hp_pc_ok_def)
  moreover have "held_entry pc = None" "scanned pc = None" "pc \<noteq> Hp_Gone"
    by (simp_all add: pc_def)
  ultimately show ?thesis
    using goto_keeps[OF inv t t(1), of pc "hp_entries (hs_that h) ! t" True] own_entry_free[OF inv t(2)] same_entry_active[OF a] own pc
    by simp
qed

lemma hp_keeps_trans:
  assumes "hp_keeps N G t h h1" "hp_keeps N G t h1 h2" "hs_pc h t \<noteq> Hp_Gone" "hs_pc h1 t \<noteq> Hp_Gone"
  shows "hp_keeps N G t h h2"
proof -
  have "hs_pc h1 u \<noteq> Hp_Gone" if "hs_pc h u \<noteq> Hp_Gone" for u
    using assms(1,4) that by (cases "u = t") (simp_all add: hp_keeps_def)
  then show ?thesis
    using assms(1,2) unfolding hp_keeps_def by simp
qed

lemma help_turn_ok:
  assumes inv: "hp_inv N G h" and t: "t < N" and pc: "hs_pc h t = Hp_Help i"
  shows "hp_quiet N G t h (help_turn t i h)"
proof -
  have i: "i < N"
    using inv t pc unfolding hp_inv_def hp_pc_ok_def by fastforce
  show ?thesis
  proof (cases "te_is_active (hp_entries (hs_that h) ! i)")
    case True
    then have "help_turn t i h = Some (help_loop t (i + 1) h)"
      using entry_facts(1)[OF inv i] by (simp add: help_turn_def)
    then show ?thesis
      by (rule hp_quietI) (rule help_loop_ok[OF inv t]; use i pc in simp)
  next
    case False
    have own: "4 * length (retired h t) < 5 * N * G" and a: "te_is_active (hp_entries (hs_that h) ! t)"
      using inv t pc unfolding hp_inv_def active_def by fastforce+
    have "help_turn t i h = Some (moved t t (hp_entries (hs_that h) ! t) (Hp_Reserve i) h)"
      using False entry_facts(1)[OF inv i] by (simp add: help_turn_def moved_def set_entry_same)
    then show ?thesis
      by (rule hp_quietI) (rule goto_keeps[OF inv t _ t _ _ _ _ _ _ same_entry_active[OF a] _ _ own]; use i pc own_entry_free[OF inv] in \<open>simp add: hp_pc_ok_def\<close>)
  qed
qed

lemma reserve_turn_ok:
  assumes inv: "hp_inv N G h" and t: "t < N" and pc: "hs_pc h t = Hp_Reserve i"
  shows "hp_quiet N G t h (reserve_turn t i h)"
proof -
  have i: "i < N" and at: "active h t" and N: "0 < N" "hp_hazard_pointers (hs_that h) = N"
    using inv t pc unfolding hp_inv_def hp_pc_ok_def hp_shape_def by fastforce+
  note entry = entry_facts[OF inv i]
  show ?thesis
  proof (cases "active h i")
    case True
    then have "reserve_turn t i h = Some (help_loop t (i + 1) h)"
      using entry(1) by (simp add: reserve_turn_def TryReserve_def active_def)
    then show ?thesis
      by (rule hp_quietI) (rule help_loop_ok[OF inv t]; use i pc in simp)
  next
    case False
    note free = inactive_entry_free[OF inv False i]
    have "i \<noteq> t"
      using False at by auto
    have bound: "4 * length (retired h i) < 5 * N * G"
      using inv i free(2) by (auto simp: hp_inv_def)
    define x where "x = (hp_entries (hs_that h) ! i)\<lparr>te_is_active := True\<rparr>"
    have "te_retired_list x = te_retired_list (hp_entries (hs_that h) ! i)"
      by (simp add: x_def)
    show ?thesis
    proof (cases "retired h i = []")
      case True
      then have "reserve_turn t i h = Some (moved t i x (Hp_Release i) h)"
        using entry(1) False by (simp add: reserve_turn_def TryReserve_def active_def x_def GetSize_def retired_def moved_def)
      then show ?thesis
        by (rule hp_quietI) (rule goto_keeps[OF inv t _ i _ _ _ _ _ _ x_def];
          use pc free bound \<open>i \<noteq> t\<close> i entry(3) in \<open>simp add: hp_pc_ok_def holder_def moved_views_at x_def\<close>)
    next
      case nonempty: False
      define y where "y = x\<lparr>te_hazard_pointer_list_temp := clear (te_hazard_pointer_list_temp x)\<rparr>"
      from scan_entries_at[OF inv i, of 0 t Scan_Help y, simplified] obtain pc' x' where
        *: "scan_entries t Scan_Help i 0 (set_entry i y h) = Some (moved t i x' pc' h)" "scan_at N G Scan_Help i 0 y pc' x'" .
      have eq: "reserve_turn t i h = Some (moved t i x' pc' h)"
        using nonempty entry(1,3) False *(1) \<open>te_retired_list x = te_retired_list (hp_entries (hs_that h) ! i)\<close>
        by (simp add: reserve_turn_def TryReserve_def active_def GetSize_def retired_def Scan_def Let_def y_def flip: x_def)
      have "entry_shape N G y" "te_is_active y" "te_guarded_pointers y = guards h i" "fl_elements (te_retired_list y) = retired h i"
          "fl_elements (te_hazard_pointer_list_temp y) = []"
        using entry(2) by (simp_all add: y_def x_def entry_shape_def guards_def retired_def clear_def)
      then show ?thesis
        by (intro hp_quietI[OF eq] scan_keeps[OF inv t _ i _ _ _ _ _ _ _ _ _ *(2)]) (use pc free bound \<open>i \<noteq> t\<close> in simp_all)
    qed
  qed
qed

lemma release_turn_ok:
  assumes inv: "hp_inv N G h" and t: "t < N" and pc: "hs_pc h t = Hp_Release i"
  shows "hp_quiet N G t h (release_turn t i h)"
proof -
  have ok: "holder N h t Scan_Help i"
    using inv t pc unfolding hp_inv_def hp_pc_ok_def by fastforce
  then have i: "i < N" "i \<noteq> t" "hs_pc h i = Hp_Gone"
    by (simp_all add: holder_def)
  note entry = entry_facts[OF inv i(1)]
  have free: "\<forall>u. u \<noteq> t \<longrightarrow> held_entry (hs_pc h u) \<noteq> Some i"
    using inv pc unfolding hp_inv_def by fastforce
  have bound: "4 * length (retired h i) < 5 * N * G"
    using inv i by (auto simp: hp_inv_def)
  define h1 where "h1 = moved t i ((hp_entries (hs_that h) ! i)\<lparr>te_is_active := False\<rparr>) Hp_Idle h"
  have 1: "hp_keeps N G t h h1 \<and> (\<forall>f. pending h1 f = pending h f)"
    unfolding h1_def by (rule goto_keeps[OF inv t _ i(1) free _ _ _ _ _ refl]; use pc i bound in \<open>simp add: hp_pc_ok_def\<close>)
  then have inv1: "hp_inv N G h1"
    by (simp add: hp_keeps_def)
  have eq: "release_turn t i h = Some (help_loop t (i + 1) h1)"
    using entry(1) by (simp add: release_turn_def help_loop_def h1_def moved_def SetActive_def hp_goto_def set_entry_def)
  have "hp_keeps N G t h1 (help_loop t (i + 1) h1) \<and> (\<forall>f. pending (help_loop t (i + 1) h1) f = pending h1 f)"
    by (rule help_loop_ok[OF inv1 t]) (use i in \<open>simp_all add: h1_def\<close>)
  then show ?thesis
    using 1 pc hp_keeps_trans[of N G t h h1 "help_loop t (i + 1) h1"] by (intro hp_quietI[OF eq]) (simp add: h1_def)
qed

section \<open>Freeing\<close>

text \<open>
  What a turn does that frees a pointer, or goes on freeing it: \<open>g\<close> is no longer pending, and nobody's guard covers it.
\<close>

lemma sweep_facts:
  assumes inv: "hp_inv N G h" and t: "t < N" and pc: "hs_pc h t = Hp_Sweep kind e j \<or> hs_pc h t = Hp_Free kind e j"
  shows "holder N h t kind e" "sweep_ok N G h e j" "j \<le> length (retired h e)" "\<forall>u. u \<noteq> t \<longrightarrow> held_entry (hs_pc h u) \<noteq> Some e" "e < N"
    "distinct (retired h e)" "length (retired h e) \<le> GetRetiredListMaxSize N G"
    "own_scan (hs_pc h t) \<and> e = t \<or> kind = Scan_Help \<and> 4 * length (retired h e) < 5 * N * G"
proof -
  have "hp_pc_ok N G h t (hs_pc h t)"
    using inv t by (simp add: hp_inv_def)
  then show ok: "holder N h t kind e" "sweep_ok N G h e j" "j \<le> length (retired h e)"
    using pc by (auto simp: hp_pc_ok_def)
  then show e: "e < N"
    by (simp add: holder_def)
  show "\<forall>u. u \<noteq> t \<longrightarrow> held_entry (hs_pc h u) \<noteq> Some e"
    using inv pc unfolding hp_inv_def by fastforce
  show "distinct (retired h e)" "length (retired h e) \<le> GetRetiredListMaxSize N G"
    using entry_facts(2)[OF inv e] by (simp_all add: entry_shape_def retired_def)
  show "own_scan (hs_pc h t) \<and> e = t \<or> kind = Scan_Help \<and> 4 * length (retired h e) < 5 * N * G"
    using ok(1) pc inv by (cases kind) (auto simp: holder_def hp_inv_def)
qed

lemma drop_nth_set: "j < length xs \<Longrightarrow> set (drop j xs) = insert (xs ! j) (set (drop (Suc j) xs))"
  by (simp flip: Cons_nth_drop_Suc)

lemma nth_not_in_drop: "distinct xs \<Longrightarrow> j < length xs \<Longrightarrow> xs ! j \<notin> set (drop (Suc j) xs)"
  by (metis Cons_nth_drop_Suc distinct.simps(2) distinct_drop)

lemma sweep_pending:
  assumes "\<forall>u. u \<noteq> t \<longrightarrow> held_entry (hs_pc h u) \<noteq> Some e" "sweep_pos (hs_pc h t) = Some (e, j)"
  shows "pending h e = {g \<in> set (retired h e). g \<in> set (drop j (retired h e)) \<or> g \<in> set (hazard h e)}"
  using pending_at[OF assms(1)] assms(2) by simp

text \<open>A pointer that a sweep passes over, because it is guarded, was freed, or is freed now.\<close>

lemma sweep_goto:
  assumes inv: "hp_inv N G h" and t: "t < N" and pc: "hs_pc h t = Hp_Sweep kind e j \<or> hs_pc h t = Hp_Free kind e j"
    and pc': "pc' = Hp_Sweep kind e j' \<or> pc' = Hp_Free kind e j'" "hp_pc_ok N G (moved t e x pc' h) t pc'"
    and x: "entry_shape N G x" "te_is_active x" "te_guarded_pointers x = guards h e" "te_retired_list x = te_retired_list (hp_entries (hs_that h) ! e)"
      "te_hazard_pointer_list_temp x = te_hazard_pointer_list_temp (hp_entries (hs_that h) ! e)"
    and sub: "pending (moved t e x pc' h) e \<subseteq> pending h e"
  shows "hp_keeps N G t h (moved t e x pc' h)" "\<forall>f. f \<noteq> e \<longrightarrow> pending (moved t e x pc' h) f = pending h f"
proof -
  note sf = sweep_facts[OF inv t pc]
  have N: "e < length (hp_entries (hs_that h))"
    using entry_facts(3)[OF inv sf(5)] .
  have at: "held_entry (hs_pc h t) = Some e" "scanned (hs_pc h t) = Some e" "hs_pc h t \<noteq> Hp_Gone" "\<not> ahead (hs_pc h t) t' pos"
      "held_entry pc' = Some e" "pc' \<noteq> Hp_Gone" "own_scan pc' \<longleftrightarrow> own_scan (hs_pc h t)" for t' pos
    using pc pc'(1) by auto
  have bound: "own_scan pc' \<and> e = t \<or> 4 * length (fl_elements (te_retired_list x)) < 5 * N * G"
    using sf(8) at(7) x(4) by (auto simp: retired_def)
  have cover: "\<forall>t' pos g. t' < N \<and> pos < G \<and> guards h t' ! pos = Some g \<and> hs_pc h t' \<noteq> Hp_Gone \<and> covered h t' pos g \<and> g \<in> pending (moved t e x pc' h) e \<and>
      scanned pc' = Some e \<longrightarrow> g \<in> set (fl_elements (te_hazard_pointer_list_temp x)) \<or> ahead pc' t' pos"
  proof (intro allI impI, elim conjE)
    fix t' pos g
    assume "covered h t' pos g" "g \<in> pending (moved t e x pc' h) e"
    then have "g \<in> set (hazard h e) \<or> ahead (hs_pc h t) t' pos"
      using sub at(2) unfolding covered_def by blast
    then show "g \<in> set (fl_elements (te_hazard_pointer_list_temp x)) \<or> ahead pc' t' pos"
      using at(4) x(5) by (simp add: hazard_def)
  qed
  from hp_keeps_moved[OF inv t at(3) sf(5,4) disjI2[OF at(1)] disjI2[OF at(5)] at(6) x(1) _ x(3) pc'(2) bound sub cover]
  show "hp_keeps N G t h (moved t e x pc' h)" "\<forall>f. f \<noteq> e \<longrightarrow> pending (moved t e x pc' h) f = pending h f"
    using x(2) by simp_all
qed

text \<open>A turn that frees a pointer, with what the callback says about whether it is over.\<close>

definition hp_frees :: "nat \<Rightarrow> nat \<Rightarrow> nat \<Rightarrow> ('g :: linorder) hp_system \<Rightarrow> ((nat \<Rightarrow> 'g \<Rightarrow> 'w \<Rightarrow> (bool \<times> 'w) option) \<Rightarrow> 'w \<Rightarrow> ('g hp_system \<times> 'w) option) \<Rightarrow> nat \<Rightarrow> 'g \<Rightarrow> bool" where
  "hp_frees N G t h r e g \<longleftrightarrow> e < N \<and> g \<in> pending h e \<and>
     (\<forall>t' pos. t' < N \<and> pos < G \<and> guards h t' ! pos = Some g \<and> hs_pc h t' \<noteq> Hp_Gone \<longrightarrow> \<not> covered h t' pos g) \<and>
     (\<exists>h'. (\<forall>f w. r f w = (case f t g w of None \<Rightarrow> None | Some (over, w') \<Rightarrow> Some (h' over, w'))) \<and>
       (\<forall>over. hp_keeps N G t h (h' over) \<and> pending (h' over) e = pending h e - {g} \<and> (\<forall>f. f \<noteq> e \<longrightarrow> pending (h' over) f = pending h f)) \<and>
       freeing (h' False) t = Some g \<and> freeing (h' True) t = None)"

lemma sweep_pass:
  assumes inv: "hp_inv N G h" and t: "t < N" and pc: "hs_pc h t = Hp_Sweep kind e j" and j: "j < length (retired h e)" "retired h e ! j \<in> set (hazard h e)"
  shows "hp_quiet N G t h (map_option fst (sweep_turn f t kind e j h w))" "\<exists>h'. sweep_turn f t kind e j h w = Some (h', w) \<and> freeing h' t = None"
proof -
  note sf = sweep_facts[OF inv t disjI1[OF pc]]
  note entry = entry_facts[OF inv sf(5)]
  let ?e = "hp_entries (hs_that h) ! e"
  define x where "x = ?e\<lparr>te_retired_list_temp := snd (PushBack (retired h e ! j) (te_retired_list_temp ?e))\<rparr>"
  have temp: "retired_temp h e = filter (\<lambda>g. g \<in> set (hazard h e)) (take j (retired h e))" and sorted: "sorted (hazard h e)"
    using sf(2) by (simp_all add: sweep_ok_def)
  have "length (retired_temp h e) \<le> j"
    using length_filter_le[of "\<lambda>g. g \<in> set (hazard h e)" "take j (retired h e)"] j(1) by (simp add: temp)
  then have push: "fl_elements (te_retired_list_temp x) = retired_temp h e @ [retired h e ! j]"
    using entry(2) j(1) by (simp add: x_def PushBack_elements retired_temp_def retired_def entry_shape_def)
  have eq: "sweep_turn f t kind e j h w = Some (moved t e x (Hp_Sweep kind e (Suc j)) h, w)"
    using entry(1) j sorted by (simp add: sweep_turn_def GetSize_def binary_search_def moved_def x_def flip: retired_def hazard_def)
  have x: "entry_shape N G x" "te_is_active x" "te_guarded_pointers x = guards h e" "te_retired_list x = te_retired_list ?e" "te_hazard_pointer_list_temp x = te_hazard_pointer_list_temp ?e"
    using entry(2) sf(1) by (simp_all add: x_def entry_shape_def PushBack_elements guards_def holder_def active_def)
  let ?h = "moved t e x (Hp_Sweep kind e (Suc j)) h"
  have freeing_none: "freeing ?h t = None"
    by (simp add: freeing_def)
  have views: "retired ?h e = retired h e" "hazard ?h e = hazard h e" "retired_temp ?h e = retired_temp h e @ [retired h e ! j]" "active ?h e"
    using x push by (simp_all add: moved_views_at[OF entry(3)]) (simp_all add: retired_def hazard_def)
  have ok: "hp_pc_ok N G ?h t (Hp_Sweep kind e (Suc j))"
    using sf(1,2) j views temp by (auto simp: hp_pc_ok_def holder_def sweep_ok_def take_Suc_conv_app_nth split: scan_kind.splits)
  have pending: "pending ?h e = pending h e"
    using sweep_pending[OF sf(4), of j] sweep_pending[of t ?h e "Suc j"] sf(4) pc j drop_nth_set[OF j(1)] by (auto simp: views)
  from sweep_goto[OF inv t disjI1[OF pc] _ ok x equalityD1[OF pending]] pending
  have keep: "hp_keeps N G t h ?h \<and> (\<forall>f. f \<noteq> e \<longrightarrow> pending ?h f = pending h f)"
    by simp
  have "pending ?h f = pending h f" for f
    using keep pending by (cases "f = e") simp_all
  with keep show "hp_quiet N G t h (map_option fst (sweep_turn f t kind e j h w))" "\<exists>h'. sweep_turn f t kind e j h w = Some (h', w) \<and> freeing h' t = None"
    by (simp_all add: eq hp_quiet_def freeing_none)
qed

lemma sweep_end:
  assumes inv: "hp_inv N G h" and t: "t < N" and pc: "hs_pc h t = Hp_Sweep kind e j" and j: "j = length (retired h e)"
  shows "hp_quiet N G t h (map_option fst (sweep_turn f t kind e j h w))" "\<exists>h'. sweep_turn f t kind e j h w = Some (h', w) \<and> freeing h' t = None"
proof -
  note sf = sweep_facts[OF inv t disjI1[OF pc]]
  note entry = entry_facts[OF inv sf(5)]
  have N: "hp_hazard_pointers (hs_that h) = N" "0 < N * G"
    using inv by (simp_all add: hp_inv_def hp_shape_def)
  let ?e = "hp_entries (hs_that h) ! e"
  define pc' where "pc' = (case kind of Scan_Own \<Rightarrow> Hp_Help 0 | Scan_Help \<Rightarrow> Hp_Release e)"
  define x where "x = ?e\<lparr>te_retired_list := (te_retired_list ?e)\<lparr>fl_elements := retired_temp h e\<rparr>\<rparr>"
  have temp: "retired_temp h e = filter (\<lambda>g. g \<in> set (hazard h e)) (retired h e)"
    using sf(2) j by (simp add: sweep_ok_def)
  then have fits: "length (retired_temp h e) \<le> GetRetiredListMaxSize N G" "distinct (retired_temp h e)"
    using le_trans[OF length_filter_le sf(7)] sf(6) by (simp_all add: temp)
  have "length (retired_temp h e) = card (set (retired_temp h e))"
    using fits(2) by (simp add: distinct_card)
  also have "\<dots> \<le> card (set (hazard h e))"
    by (intro card_mono) (auto simp: temp)
  also have "\<dots> \<le> N * G"
    using sf(2) card_length[of "hazard h e"] by (simp add: sweep_ok_def)
  finally have "4 * length (retired_temp h e) < 5 * (N * G)"
    using N(2) by linarith
  then have bound: "4 * length (fl_elements (te_retired_list x)) < 5 * N * G"
    by (simp add: x_def)
  have "SetRetired (te_retired_list_temp ?e) ?e = Some x"
    using fits(1) entry(2) by (simp add: SetRetired_def copy_assign_fits entry_shape_def retired_temp_def x_def)
  then have eq: "sweep_turn f t kind e j h w = Some (moved t e x pc' h, w)"
    using entry(1) j N by (cases kind) (simp_all add: sweep_turn_def GetSize_def retired_def moved_def help_loop_def pc'_def Let_def)
  have x: "entry_shape N G x" "te_is_active x" "te_guarded_pointers x = guards h e" "fl_elements (te_retired_list x) = retired_temp h e"
    using entry(2) sf(1) fits by (simp_all add: x_def entry_shape_def guards_def holder_def active_def)
  let ?h = "moved t e x pc' h"
  have freeing_none: "freeing ?h t = None"
    by (simp add: freeing_def pc'_def split: scan_kind.splits)
  have kind: "kind = Scan_Own \<Longrightarrow> e = t" "kind = Scan_Help \<Longrightarrow> e \<noteq> t \<and> hs_pc h e = Hp_Gone"
    using sf(1) by (auto simp: holder_def)
  have at: "held_entry (hs_pc h t) = Some e" "hs_pc h t \<noteq> Hp_Gone" "held_entry pc' = None \<or> held_entry pc' = Some e" "pc' \<noteq> Hp_Gone" "scanned pc' = None" "sweep_pos pc' = None"
    using pc by (auto simp: pc'_def split: scan_kind.splits)
  have ok: "hp_pc_ok N G ?h t pc'"
    using kind N x(2) sf(5) by (cases kind) (simp_all add: pc'_def hp_pc_ok_def holder_def moved_views_at[OF entry(3)])
  have pending: "pending ?h e = pending h e"
    using sweep_pending[OF sf(4), of j] pending_at[of t ?h e] sf(4) pc at(6) j x(4) by (auto simp: temp moved_views_at[OF entry(3)])
  from hp_keeps_moved[OF inv t at(2) sf(5,4) disjI2[OF at(1)] at(3,4) x(1) _ x(3) ok disjI2[OF bound] equalityD1[OF pending]] pending x(2) at(5)
  have keep: "hp_keeps N G t h ?h \<and> (\<forall>f. f \<noteq> e \<longrightarrow> pending ?h f = pending h f)"
    by simp
  have "pending ?h f = pending h f" for f
    using keep pending by (cases "f = e") simp_all
  with keep show "hp_quiet N G t h (map_option fst (sweep_turn f t kind e j h w))" "\<exists>h'. sweep_turn f t kind e j h w = Some (h', w) \<and> freeing h' t = None"
    by (simp_all add: eq hp_quiet_def freeing_none)
qed

lemma sweep_free:
  assumes inv: "hp_inv N G h" and t: "t < N" and pc: "hs_pc h t = Hp_Sweep kind e j" and j: "j < length (retired h e)" "retired h e ! j \<notin> set (hazard h e)"
  shows "hp_frees N G t h (\<lambda>f w. sweep_turn f t kind e j h w) e (retired h e ! j)"
proof -
  note sf = sweep_facts[OF inv t disjI1[OF pc]]
  note entry = entry_facts[OF inv sf(5)]
  let ?e = "hp_entries (hs_that h) ! e"
  define pc' where "pc' = (\<lambda>over. if over then Hp_Sweep kind e (j + 1) else Hp_Free kind e j)"
  have form: "pc' over = Hp_Sweep kind e (if over then j + 1 else j) \<or> pc' over = Hp_Free kind e (if over then j + 1 else j)" for over
    by (simp add: pc'_def)
  have eq: "sweep_turn f t kind e j h w = (case f t (retired h e ! j) w of None \<Rightarrow> None | Some (over, w') \<Rightarrow> Some (moved t e ?e (pc' over) h, w'))" for f and w :: 'w
    using entry(1) j sf(2)
    by (simp add: sweep_turn_def sweep_ok_def GetSize_def binary_search_def moved_def set_entry_same pc'_def flip: retired_def hazard_def split: option.splits)
  have x: "te_is_active ?e" "te_guarded_pointers ?e = guards h e"
    using sf(1) by (simp_all add: guards_def holder_def active_def)
  have views: "retired (moved t e ?e p h) d = retired h d" "hazard (moved t e ?e p h) d = hazard h d" "retired_temp (moved t e ?e p h) d = retired_temp h d" "active (moved t e ?e p h) d = active h d" for p d
    by (simp_all add: moved_def set_entry_same retired_def hazard_def retired_temp_def active_def)
  have before: "pending h e = {g \<in> set (retired h e). g \<in> set (drop j (retired h e)) \<or> g \<in> set (hazard h e)}"
    using sweep_pending[OF sf(4), of j] pc by simp
  have after: "pending (moved t e ?e (pc' over) h) e = {g \<in> set (retired h e). g \<in> set (drop (Suc j) (retired h e)) \<or> g \<in> set (hazard h e)}" for over
    using sweep_pending[of t "moved t e ?e (pc' over) h" e "Suc j"] sf(4) by (auto simp: views pc'_def)
  have mem: "retired h e ! j \<in> pending h e"
    using before j(1) drop_nth_set[OF j(1)] by simp
  have minus: "pending (moved t e ?e (pc' over) h) e = pending h e - {retired h e ! j}" for over
    using j drop_nth_set[OF j(1)] nth_not_in_drop[OF sf(6) j(1)] unfolding before after by auto
  have temp: "filter (\<lambda>g. g \<in> set (hazard h e)) (take (Suc j) (retired h e)) = filter (\<lambda>g. g \<in> set (hazard h e)) (take j (retired h e))"
    using j by (simp add: take_Suc_conv_app_nth)
  have ok: "hp_pc_ok N G (moved t e ?e (pc' over) h) t (pc' over)" for over
    using sf(1,2) j temp by (auto simp: pc'_def hp_pc_ok_def holder_def sweep_ok_def views split: scan_kind.splits)
  have keep: "hp_keeps N G t h (moved t e ?e (pc' over) h) \<and> (\<forall>f. f \<noteq> e \<longrightarrow> pending (moved t e ?e (pc' over) h) f = pending h f)" for over
    using sweep_goto[OF inv t disjI1[OF pc] form ok entry(2) x refl refl, of over] minus by auto
  have scanned: "scanned (hs_pc h t) = Some e"
    using pc by simp
  have uncovered: "\<not> covered h t' pos (retired h e ! j)" for t' pos
  proof
    assume "covered h t' pos (retired h e ! j)"
    then have "retired h e ! j \<in> set (hazard h e) \<or> ahead (hs_pc h t) t' pos"
      using mem scanned unfolding covered_def by blast
    then show False
      using j(2) pc by simp
  qed
  show ?thesis
    unfolding hp_frees_def
    by (intro conjI exI[of _ "\<lambda>over. moved t e ?e (pc' over) h"]) (use sf(5) mem keep minus eq uncovered in \<open>auto simp: pc'_def views freeing_def\<close>)
qed

lemma free_rest_turn_ok:
  assumes inv: "hp_inv N G h" and t: "t < N" and pc: "hs_pc h t = Hp_Free kind e j"
  shows "\<exists>h'. (\<forall>f (w :: 'w). free_rest_turn f t kind e j h w = (case f t (retired h e ! j) w of None \<Rightarrow> None | Some (over, w') \<Rightarrow> Some (h' over, w'))) \<and>
     (\<forall>over. hp_keeps N G t h (h' over) \<and> (\<forall>f. pending (h' over) f = pending h f)) \<and>
     (hs_pc (h' False) t = Hp_Free kind e j \<and> retired (h' False) e = retired h e) \<and> (\<forall>kind f j. hs_pc (h' True) t \<noteq> Hp_Free kind f j)"
proof -
  note sf = sweep_facts[OF inv t disjI2[OF pc]]
  note entry = entry_facts[OF inv sf(5)]
  have j: "j < length (retired h e)" "retired h e ! j \<notin> set (hazard h e)"
    using inv t pc unfolding hp_inv_def hp_pc_ok_def by fastforce+
  let ?e = "hp_entries (hs_that h) ! e"
  define pc' where "pc' = (\<lambda>over. if over then Hp_Sweep kind e (j + 1) else Hp_Free kind e j)"
  have form: "pc' over = Hp_Sweep kind e (if over then j + 1 else j) \<or> pc' over = Hp_Free kind e (if over then j + 1 else j)" for over
    by (simp add: pc'_def)
  have eq: "free_rest_turn f t kind e j h w = (case f t (retired h e ! j) w of None \<Rightarrow> None | Some (over, w') \<Rightarrow> Some (moved t e ?e (pc' over) h, w'))" for f and w :: 'w
    using entry(1) j by (simp add: free_rest_turn_def moved_def set_entry_same pc'_def flip: retired_def split: option.splits)
  have x: "te_is_active ?e" "te_guarded_pointers ?e = guards h e"
    using sf(1) by (simp_all add: guards_def holder_def active_def)
  have views: "retired (moved t e ?e p h) d = retired h d" "hazard (moved t e ?e p h) d = hazard h d" "retired_temp (moved t e ?e p h) d = retired_temp h d" "active (moved t e ?e p h) d = active h d" for p d
    by (simp_all add: moved_def set_entry_same retired_def hazard_def retired_temp_def active_def)
  have same: "pending (moved t e ?e (pc' over) h) e = pending h e" for over
    using sweep_pending[OF sf(4), of "Suc j"] sweep_pending[of t "moved t e ?e (pc' over) h" e "Suc j"] sf(4) pc by (auto simp: views pc'_def)
  have temp: "filter (\<lambda>g. g \<in> set (hazard h e)) (take (Suc j) (retired h e)) = filter (\<lambda>g. g \<in> set (hazard h e)) (take j (retired h e))"
    using j by (simp add: take_Suc_conv_app_nth)
  have ok: "hp_pc_ok N G (moved t e ?e (pc' over) h) t (pc' over)" for over
    using sf(1,2) j temp by (auto simp: pc'_def hp_pc_ok_def holder_def sweep_ok_def views split: scan_kind.splits)
  have keep: "hp_keeps N G t h (moved t e ?e (pc' over) h) \<and> (\<forall>f. f \<noteq> e \<longrightarrow> pending (moved t e ?e (pc' over) h) f = pending h f)" for over
    using sweep_goto[OF inv t disjI2[OF pc] form ok entry(2) x refl refl, of over] same by auto
  have "pending (moved t e ?e (pc' over) h) f = pending h f" for over f
    using keep same by (cases "f = e") auto
  then show ?thesis
    using keep eq by (intro exI[of _ "\<lambda>over. moved t e ?e (pc' over) h"]) (auto simp: pc'_def views)
qed

section \<open>Retiring, guarding, leaving\<close>

text \<open>A pointer that is retired must not be retired already.\<close>

lemma enqueue_ok:
  assumes inv: "hp_inv N G h" and t: "t < N" and pc: "hs_pc h t = Hp_Idle" and g: "\<forall>e < N. g \<notin> pending h e"
  shows "\<exists>h'. EnqueuePointerForDeletion t g h = Some h' \<and> hp_keeps N G t h h' \<and> freeing h' t = None \<and> hs_pc h' t \<noteq> Hp_Gone \<and>
     pending h' t = insert g (pending h t) \<and> (\<forall>f. f \<noteq> t \<longrightarrow> pending h' f = pending h f)"
proof -
  note entry = entry_facts[OF inv t]
  have N: "0 < N" "0 < G" "hp_active (hs_that h) \<le> N" "hp_guards_per_thread (hs_that h) = G"
    and a: "active h t" and bound: "4 * length (retired h t) < 5 * N * G"
    using inv t pc by (auto simp: hp_inv_def hp_shape_def)
  have free: "\<forall>u. u \<noteq> t \<longrightarrow> held_entry (hs_pc h u) \<noteq> Some t"
    using own_entry_free[OF inv] pc by simp
  have before: "pending h t = set (retired h t)"
    using pending_at[OF free] pc by simp
  have room: "length (retired h t) + 1 \<le> GetRetiredListMaxSize N G"
    using bound by (simp add: GetRetiredListMaxSize_def less_eq_div_iff_mult_less_eq)
  define x where "x = AddRetired g (hp_entries (hs_that h) ! t)"
  have x: "fl_elements (te_retired_list x) = retired h t @ [g]" "te_guarded_pointers x = guards h t" "te_is_active x"
    using entry(2) room a by (simp_all add: x_def AddRetired_def PushBack_elements entry_shape_def retired_def guards_def active_def)
  have "g \<notin> set (retired h t)"
    using g t before by blast
  then have shape: "entry_shape N G x"
    using entry(2) room x(1) by (simp add: x_def AddRetired_def PushBack_elements entry_shape_def flip: retired_def)
  have keeps: "hp_keeps N G t h (moved t t x' pc' h) \<and> pending (moved t t x' pc' h) t = insert g (pending h t) \<and> (\<forall>f. f \<noteq> t \<longrightarrow> pending (moved t t x' pc' h) f = pending h f)"
    if x': "entry_shape N G x'" "te_is_active x'" "te_guarded_pointers x' = guards h t" "te_retired_list x' = te_retired_list x"
      and pc': "held_entry pc' = None \<or> held_entry pc' = Some t" "hp_pc_ok N G (moved t t x' pc' h) t pc'" "sweep_pos pc' = None" "own_scan pc' \<or> 4 * (length (retired h t) + 1) < 5 * N * G"
        "\<forall>t' pos. t' < N \<and> pos < G \<and> scanned pc' = Some t \<longrightarrow> ahead pc' t' pos" for x' pc'
  proof -
    let ?h = "moved t t x' pc' h"
    have after: "pending ?h t = insert g (pending h t)"
      using pending_at[of t ?h t] free pc'(3) x'(4) x(1) before by (auto simp: moved_views_at[OF entry(3)])
    have other: "pending ?h f = pending h f" if "f \<noteq> t" for f
      using that pc'(1) pc by (intro pending_other) auto
    have disjoint: "\<forall>f < N. f \<noteq> t \<longrightarrow> pending ?h t \<inter> pending h f = {}"
      using inv t g after by (auto simp: hp_inv_def)
    have ng: "hs_pc h t \<noteq> Hp_Gone" "held_entry (hs_pc h t) = None \<or> held_entry (hs_pc h t) = Some t"
      using pc by simp_all
    have b: "own_scan pc' \<and> t = t \<or> 4 * length (fl_elements (te_retired_list x')) < 5 * N * G"
      using pc'(4) x'(4) x(1) by simp
    have "hp_inv N G ?h"
      by (rule hp_inv_moved[OF inv t ng(1) t free ng(2) pc'(1) x'(1) _ pc'(2) b disjoint]) (simp add: x'(2))
    moreover have "guards ?h u = guards h u" for u
      using x'(3) by (cases "u = t") (simp_all add: moved_views moved_views_at[OF entry(3)])
    moreover have "covered ?h t' pos g'" if "t' < N" "pos < G" "covered h t' pos g'" for t' pos g'
      by (rule covered_moved[OF that(3) entry(3) free ng(2) pc'(1)]) (use that(1,2) pc'(5) in simp)
    moreover have "freeing ?h u = freeing h u" if "u \<noteq> t" for u
      using freeing_moved[OF that] free that by blast
    ultimately show ?thesis
      using after other by (simp add: hp_keeps_def)
  qed
  show ?thesis
  proof (cases "5 * hp_active (hs_that h) * G \<le> 4 * (length (retired h t) + 1)")
    case False
    have "5 * hp_active (hs_that h) * G \<le> 5 * N * G"
      using N(3) by (intro mult_le_mono) simp_all
    then have "4 * (length (retired h t) + 1) < 5 * N * G"
      using False by linarith
    moreover have eq: "EnqueuePointerForDeletion t g h = Some (moved t t x Hp_Idle h)"
      using False entry(1,3) N(4) x(1) pc
      by (simp add: EnqueuePointerForDeletion_def IsThresholdExceeded_def GetSize_def moved_def hp_goto_def set_entry_def fun_upd_idem flip: x_def)
    ultimately show ?thesis
      using keeps[OF shape x(3,2) refl, of Hp_Idle] by (intro exI[of _ "moved t t x Hp_Idle h"]) (simp add: hp_pc_ok_def freeing_def)
  next
    case True
    define y where "y = x\<lparr>te_hazard_pointer_list_temp := clear (te_hazard_pointer_list_temp x)\<rparr>"
    have Y: "entry_shape N G y" "te_is_active y" "te_guarded_pointers y = guards h t" "te_retired_list y = te_retired_list x"
        "fl_elements (te_hazard_pointer_list_temp y) = []"
      using shape x by (simp_all add: y_def entry_shape_def clear_def)
    have eq: "EnqueuePointerForDeletion t g h = Some (moved t t y (Hp_Scan Scan_Own t 0) h)"
      using True entry(1,3) N x(1) inv
      by (simp add: EnqueuePointerForDeletion_def IsThresholdExceeded_def GetSize_def Scan_def scan_entries_def moved_def hp_inv_def hp_shape_def y_def flip: x_def)
    have "hp_pc_ok N G (moved t t y (Hp_Scan Scan_Own t 0) h) t (Hp_Scan Scan_Own t 0)"
      using t N Y by (simp add: hp_pc_ok_def holder_def moved_views_at[OF entry(3)])
    then show ?thesis
      using keeps[OF Y(1-4), of "Hp_Scan Scan_Own t 0"] by (intro exI[of _ "moved t t y (Hp_Scan Scan_Own t 0) h"]) (simp add: eq freeing_def)
  qed
qed

lemma guard_pointer_ok:
  assumes inv: "hp_inv N G h" and t: "t < N" and pos: "pos < G"
  shows "\<exists>h'. GuardPointer t pos g h = Some h' \<and> hp_inv N G h' \<and> guards h' t = (guards h t)[pos := g] \<and> (\<forall>u. u \<noteq> t \<longrightarrow> guards h' u = guards h u) \<and>
     hs_pc h' = hs_pc h \<and> freeing h' = freeing h \<and> pending h' = pending h \<and> covered h' = covered h"
proof -
  note entry = entry_facts[OF inv t]
  define x where "x = (hp_entries (hs_that h) ! t)\<lparr>te_guarded_pointers := (guards h t)[pos := g]\<rparr>"
  define h' where "h' = set_entry t x h"
  have eq: "GuardPointer t pos g h = Some h'"
    using entry pos by (simp add: GuardPointer_def entry_shape_def h'_def x_def guards_def)
  have views: "retired h' = retired h" "hazard h' = hazard h" "retired_temp h' = retired_temp h" "active h' = active h" "hs_pc h' = hs_pc h"
    by (rule ext, simp add: h'_def x_def retired_def hazard_def retired_temp_def active_def nth_list_update entry(3))+
  have same: "pending h' = pending h" "covered h' = covered h" "freeing h' = freeing h"
    by (rule ext, simp add: pending_def views) (rule ext, rule ext, rule ext, simp add: covered_def pending_def views, rule ext, simp add: freeing_def views split: hp_pc.splits)
  have "entry_shape N G x"
    using entry(2) by (simp add: x_def entry_shape_def guards_def)
  then have "hp_shape N G h'"
    using inv entry(3) by (auto simp: hp_inv_def hp_shape_def h'_def nth_list_update)
  moreover have "hp_pc_ok N G h' u p \<longleftrightarrow> hp_pc_ok N G h u p" for u p
    by (simp add: hp_pc_ok_def holder_def sweep_ok_def views split: hp_pc.splits scan_kind.splits)
  ultimately have "hp_inv N G h'"
    using inv by (simp add: hp_inv_def views same)
  then show ?thesis
    using eq same views by (intro exI[of _ h']) (simp add: h'_def x_def guards_def entry(3))
qed

lemma deactivate_ok:
  assumes inv: "hp_inv N G h" and t: "t < N" and pc: "hs_pc h t = Hp_Idle"
  shows "\<exists>h'. DeactivateCurrentThread t h = Some h' \<and> hp_inv N G h' \<and> hs_pc h' t = Hp_Gone \<and> pending h' = pending h"
proof -
  define h1 where "h1 = h\<lparr>hs_that := (hs_that h)\<lparr>hp_active := hp_active (hs_that h) - 1\<rparr>\<rparr>"
  have views: "retired h1 = retired h" "hazard h1 = hazard h" "retired_temp h1 = retired_temp h" "active h1 = active h" "hs_pc h1 = hs_pc h"
    by (rule ext, simp add: h1_def retired_def hazard_def retired_temp_def active_def)+
  have same: "pending h1 = pending h"
    by (rule ext, simp add: pending_def views)
  have "hp_pc_ok N G h1 u p \<longleftrightarrow> hp_pc_ok N G h u p" for u p
    by (simp add: hp_pc_ok_def holder_def sweep_ok_def views split: hp_pc.splits scan_kind.splits)
  then have inv1: "hp_inv N G h1"
    using inv by (simp add: hp_inv_def hp_shape_def views same) (auto simp: h1_def)
  note entry = entry_facts[OF inv1 t]
  have a: "active h1 t" and bound: "4 * length (retired h1 t) < 5 * N * G"
    using inv1 t pc by (auto simp: hp_inv_def views)
  have free: "\<forall>u. u \<noteq> t \<longrightarrow> held_entry (hs_pc h1 u) \<noteq> Some t"
    using own_entry_free[OF inv1] pc views by simp
  define x where "x = SetActive False (hp_entries (hs_that h1) ! t)"
  have x: "entry_shape N G x" "te_retired_list x = te_retired_list (hp_entries (hs_that h1) ! t)"
    using entry(2) by (simp_all add: x_def SetActive_def entry_shape_def)
  have eq: "DeactivateCurrentThread t h = Some (moved t t x Hp_Gone h1)"
    using a entry(1) by (simp add: DeactivateCurrentThread_def moved_def x_def active_def h1_def hp_goto_def set_entry_def)
  have pending: "pending (moved t t x Hp_Gone h1) f = pending h f" for f
  proof (cases "f = t")
    case True
    then show ?thesis
      using pending_at[OF free] pending_at[of t "moved t t x Hp_Gone h1" t] free pc x(2) same
      by (simp add: moved_views_at[OF entry(3)] views) (simp add: retired_def views flip: views(1))
  next
    case False
    then show ?thesis
      using pending_other[of f t h1 t Hp_Gone x] pc same views by simp
  qed
  have "hp_inv N G (moved t t x Hp_Gone h1)"
  proof (rule hp_inv_moved[OF inv1 t _ t free])
    show "\<forall>f < N. f \<noteq> t \<longrightarrow> pending (moved t t x Hp_Gone h1) t \<inter> pending h1 f = {}"
      using inv t by (simp add: pending same hp_inv_def)
    show "own_scan Hp_Gone \<and> t = t \<or> 4 * length (fl_elements (te_retired_list x)) < 5 * N * G"
      using bound x(2) by (simp add: retired_def)
  qed (use pc views x in \<open>simp_all add: hp_pc_ok_def\<close>)
  then show ?thesis
    using eq pending by (intro exI[of _ "moved t t x Hp_Gone h1"]) auto
qed

lemma hp_start_ok:
  fixes h :: "('g :: linorder) hp_system"
  assumes "0 < N" "0 < G" and start: "h = hp_start N G"
  shows "hp_inv N G h" "\<forall>e < N. pending h e = {}" "\<forall>t < N. guards h t = replicate G None"
proof -
  have that: "hs_that h = HazardPointer_new N G" "hs_pc h u = Hp_Idle" for u
    by (simp_all add: start hp_start_def)
  have entry: "hp_entries (hs_that h) ! u = HazardPointerThreadEntry_new N G (GetRetiredListMaxSize N G)" if "u < N" for u
    using that by (simp add: start hp_start_def HazardPointer_new_def)
  have views: "retired h u = []" "guards h u = replicate G None" "active h u" if "u < N" for u
    using entry[OF that] by (simp_all add: retired_def guards_def active_def HazardPointerThreadEntry_new_def FixedSizeList_new_def)
  show pending: "\<forall>e < N. pending h e = {}" and "\<forall>t < N. guards h t = replicate G None"
    using views by (simp_all add: pending_def)
  have "hp_shape N G h"
    using assms(1,2) by (auto simp: hp_shape_def that HazardPointer_new_def entry_shape_def HazardPointerThreadEntry_new_def FixedSizeList_new_def)
  then show "hp_inv N G h"
    using assms(1,2) pending views by (simp add: hp_inv_def that hp_pc_ok_def)
qed

lemma freeing_Free: "hs_pc h t = Hp_Free kind e j \<Longrightarrow> freeing h t = Some (retired h e ! j)"
  by (simp add: freeing_def)

lemma freeing_None: "\<forall>kind e j. hs_pc h t \<noteq> Hp_Free kind e j \<Longrightarrow> freeing h t = None"
  by (cases "hs_pc h t") (simp_all add: freeing_def)

text \<open>All turns of a scan: it is quiet, begins to free a pointer that nobody's guard covers, or goes on freeing it.\<close>

lemma goes_on_not_freeing:
  "scan_entries t kind e i h = Some h' \<Longrightarrow> freeing h' t = None"
  "scan_guards t kind e i pos h = Some h' \<Longrightarrow> freeing h' t = None"
  "freeing (help_loop t i h) t = None" "freeing (hp_goto t (Hp_Release i) h) t = None" "freeing (hp_goto t (Hp_Reserve i) h) t = None"
  by (auto simp: scan_guards_def scan_entries_def start_sweep_def help_loop_def freeing_def bind_eq_Some_conv Let_def split: if_splits)

lemma quiet_not_freeing:
  "scan_entry_turn t kind e i h = Some h' \<Longrightarrow> freeing h' t = None"
  "scan_guard_turn t kind e i pos h = Some h' \<Longrightarrow> freeing h' t = None"
  "help_turn t i h = Some h' \<Longrightarrow> freeing h' t = None"
  "reserve_turn t i h = Some h' \<Longrightarrow> freeing h' t = None"
  "release_turn t i h = Some h' \<Longrightarrow> freeing h' t = None"
  by (auto simp: scan_entry_turn_def scan_guard_turn_def help_turn_def reserve_turn_def release_turn_def TryReserve_def Scan_def bind_eq_Some_conv Let_def goes_on_not_freeing
    split: if_splits option.splits)

definition hp_outcome :: "nat \<Rightarrow> nat \<Rightarrow> (nat \<Rightarrow> 'g \<Rightarrow> 'w \<Rightarrow> (bool \<times> 'w) option) \<Rightarrow> nat \<Rightarrow> ('g :: linorder) hp_system \<Rightarrow> 'w \<Rightarrow> ('g hp_system \<times> 'w) option \<Rightarrow> bool" where
  "hp_outcome N G f t h w r \<longleftrightarrow>
     (\<exists>h'. r = Some (h', w) \<and> hp_keeps N G t h h' \<and> pending h' = pending h \<and> freeing h t = None \<and> freeing h' t = None) \<or>
     (\<exists>g h'. r = (case f t g w of None \<Rightarrow> None | Some (over, w') \<Rightarrow> Some (h' over, w')) \<and>
       (\<forall>over. hp_keeps N G t h (h' over) \<and> freeing (h' over) t = (if over then None else Some g)) \<and>
       (freeing h t = Some g \<and> (\<forall>over. pending (h' over) = pending h) \<or>
        freeing h t = None \<and> (\<exists>e < N. g \<in> pending h e \<and> (\<forall>over. pending (h' over) = (pending h)(e := pending h e - {g})) \<and>
          (\<forall>t' pos. t' < N \<and> pos < G \<and> guards h t' ! pos = Some g \<and> hs_pc h t' \<noteq> Hp_Gone \<longrightarrow> \<not> covered h t' pos g))))"

lemma hp_outcome_quiet:
  assumes "hp_quiet N G t h r" "freeing h t = None" "\<forall>h'. r = Some h' \<longrightarrow> freeing h' t = None"
  shows "hp_outcome N G f t h w (map_option (\<lambda>h. (h, w)) r)"
  using assms unfolding hp_quiet_def hp_outcome_def by (intro disjI1) (auto simp: fun_eq_iff)

lemma hp_outcome_frees:
  assumes "hp_frees N G t h r e g" "freeing h t = None"
  shows "hp_outcome N G f t h w (r f w)"
proof -
  obtain h' where h': "\<forall>f w. r f w = (case f t g w of None \<Rightarrow> None | Some (over, w') \<Rightarrow> Some (h' over, w'))"
    "\<forall>over. hp_keeps N G t h (h' over) \<and> pending (h' over) e = pending h e - {g} \<and> (\<forall>f. f \<noteq> e \<longrightarrow> pending (h' over) f = pending h f)"
    "freeing (h' False) t = Some g" "freeing (h' True) t = None"
    using assms(1) unfolding hp_frees_def by (elim exE conjE) (rule that; assumption)
  have e: "e < N" "g \<in> pending h e" "\<forall>t' pos. t' < N \<and> pos < G \<and> guards h t' ! pos = Some g \<and> hs_pc h t' \<noteq> Hp_Gone \<longrightarrow> \<not> covered h t' pos g"
    using assms(1) by (simp_all add: hp_frees_def)
  have "freeing (h' over) t = (if over then None else Some g)" for over
    by (cases over) (simp_all add: h'(3,4))
  moreover have "pending (h' over) = (pending h)(e := pending h e - {g})" for over
    using h'(2) by (auto simp: fun_eq_iff)
  ultimately show ?thesis
    unfolding hp_outcome_def using h'(1,2) e assms(2) by (intro disjI2 exI[of _ g] exI[of _ h']) auto
qed

lemma hp_turn_ok:
  assumes inv: "hp_inv N G h" and t: "t < N" and pc: "hs_pc h t \<noteq> Hp_Idle" "hs_pc h t \<noteq> Hp_Gone"
  shows "hp_outcome N G f t h w (hp_turn f t h w)"
proof -
  have quiet: "\<forall>h'. r = Some h' \<longrightarrow> freeing h' t = None" if "\<And>h'. r = Some h' \<Longrightarrow> freeing h' t = None" for r
    using that by blast
  show ?thesis
  proof (cases "hs_pc h t")
    case (Hp_Scan kind e i)
    then show ?thesis
      using hp_outcome_quiet[OF scan_entry_turn_ok[OF inv t Hp_Scan] _ quiet[OF quiet_not_freeing(1)]] by (simp add: hp_turn_def freeing_None)
  next
    case (Hp_Guard kind e i pos)
    then show ?thesis
      using hp_outcome_quiet[OF scan_guard_turn_ok[OF inv t Hp_Guard] _ quiet[OF quiet_not_freeing(2)]] by (simp add: hp_turn_def freeing_None)
  next
    case (Hp_Sweep kind e j)
    have eq: "hp_turn f t h w = sweep_turn f t kind e j h w" for f and w :: 'b
      by (simp add: hp_turn_def Hp_Sweep)
    have none: "freeing h t = None"
      by (simp add: freeing_def Hp_Sweep)
    have "j \<le> length (retired h e)"
      using sweep_facts(3)[OF inv t disjI1[OF Hp_Sweep]] .
    then consider "j = length (retired h e)" | "j < length (retired h e)" "retired h e ! j \<in> set (hazard h e)"
      | "j < length (retired h e)" "retired h e ! j \<notin> set (hazard h e)"
      by linarith
    then show ?thesis
    proof cases
      case 1
      obtain h' where h': "sweep_turn f t kind e j h w = Some (h', w)" "freeing h' t = None"
        using sweep_end(2)[OF inv t Hp_Sweep 1, of f w] by (elim exE conjE) (rule that; assumption)
      show ?thesis
        using hp_outcome_quiet[OF sweep_end(1)[OF inv t Hp_Sweep 1, of f w] none, of f w] h' by (simp add: eq)
    next
      case 2
      obtain h' where h': "sweep_turn f t kind e j h w = Some (h', w)" "freeing h' t = None"
        using sweep_pass(2)[OF inv t Hp_Sweep 2, of f w] by (elim exE conjE) (rule that; assumption)
      show ?thesis
        using hp_outcome_quiet[OF sweep_pass(1)[OF inv t Hp_Sweep 2, of f w] none, of f w] h' by (simp add: eq)
    next
      case 3
      show ?thesis
        using hp_outcome_frees[OF sweep_free[OF inv t Hp_Sweep 3] none] by (simp add: eq)
    qed
  next
    case (Hp_Free kind e j)
    obtain h' where h': "\<forall>f (w :: 'b). free_rest_turn f t kind e j h w = (case f t (retired h e ! j) w of None \<Rightarrow> None | Some (over, w') \<Rightarrow> Some (h' over, w'))"
      "\<forall>over. hp_keeps N G t h (h' over) \<and> (\<forall>f. pending (h' over) f = pending h f)"
      "hs_pc (h' False) t = Hp_Free kind e j" "retired (h' False) e = retired h e" "\<forall>kind f j. hs_pc (h' True) t \<noteq> Hp_Free kind f j"
      using free_rest_turn_ok[OF inv t Hp_Free, where ?'w = 'b] by (elim exE conjE) (rule that; assumption)
    have "freeing (h' over) t = (if over then None else Some (retired h e ! j))" for over
      by (cases over) (simp_all add: freeing_Free[OF h'(3)] h'(4) freeing_None h'(5))
    moreover have "freeing h t = Some (retired h e ! j)"
      by (simp add: freeing_def Hp_Free)
    moreover have "pending (h' over) = pending h" for over
      using h'(2) by (simp add: fun_eq_iff)
    ultimately show ?thesis
      unfolding hp_outcome_def using h'(1,2) Hp_Free by (intro disjI2 exI[of _ "retired h e ! j"] exI[of _ h']) (simp add: hp_turn_def)
  next
    case (Hp_Help i)
    then show ?thesis
      using hp_outcome_quiet[OF help_turn_ok[OF inv t Hp_Help] _ quiet[OF quiet_not_freeing(3)]] by (simp add: hp_turn_def freeing_None)
  next
    case (Hp_Reserve i)
    then show ?thesis
      using hp_outcome_quiet[OF reserve_turn_ok[OF inv t Hp_Reserve] _ quiet[OF quiet_not_freeing(4)]] by (simp add: hp_turn_def freeing_None)
  next
    case (Hp_Release i)
    then show ?thesis
      using hp_outcome_quiet[OF release_turn_ok[OF inv t Hp_Release] _ quiet[OF quiet_not_freeing(5)]] by (simp add: hp_turn_def freeing_None)
  qed (use pc in simp_all)
qed

text \<open>A scan does not make a thread leave.\<close>

lemma goes_on_not_gone:
  "scan_entries t kind e i h = Some h' \<Longrightarrow> hs_pc h' t \<noteq> Hp_Gone"
  "scan_guards t kind e i pos h = Some h' \<Longrightarrow> hs_pc h' t \<noteq> Hp_Gone"
  "hs_pc (help_loop t i h) t \<noteq> Hp_Gone"
  by (auto simp: scan_guards_def scan_entries_def start_sweep_def help_loop_def bind_eq_Some_conv Let_def split: if_splits)

lemma scan_kind_not_own: "kind \<noteq> Scan_Own \<longleftrightarrow> kind = Scan_Help"
  by (cases kind) simp_all

lemma hp_turn_not_gone:
  assumes "hp_turn f t h w = Some (h', w')" "hs_pc h t \<noteq> Hp_Gone"
  shows "hs_pc h' t \<noteq> Hp_Gone"
  using assms
  by (cases "hs_pc h t")
    (auto simp: hp_turn_def scan_entry_turn_def scan_guard_turn_def sweep_turn_def free_rest_turn_def help_turn_def reserve_turn_def release_turn_def TryReserve_def Scan_def
      bind_eq_Some_conv Let_def goes_on_not_gone scan_kind_not_own split: if_splits option.splits scan_kind.splits)

text \<open>A pointer that nobody has retired is covered by any guard.\<close>

lemma covered_if_not_pending:
  assumes inv: "hp_inv N G h" and "\<forall>e < N. g \<notin> pending h e"
  shows "covered h t pos g"
  unfolding covered_def
proof (intro allI impI, elim conjE)
  fix u e
  assume e: "scanned (hs_pc h u) = Some e" "g \<in> pending h e"
  have "u < N"
    using e(1) inv by (cases "u < N") (auto simp: hp_inv_def)
  then have "hp_pc_ok N G h u (hs_pc h u)"
    using inv by (simp add: hp_inv_def)
  then have "e < N"
    using e(1) by (cases "hs_pc h u") (auto simp: hp_pc_ok_def holder_def)
  then show "g \<in> set (hazard h e) \<or> ahead (hs_pc h u) t pos"
    using assms(2) e(2) by blast
qed

end
