(* ===== verification/Lock_Free_Stack.thy ===== *)
theory Lock_Free_Stack
  imports Object_Pool Hazard_Pointer
begin

text \<open>
  The lock-free stack (\<^verbatim>\<open>lock_free_stack-inl.h\<close>): a linked list whose top is changed by compare-and-swap, with nodes from an object pool that hazard pointers
  give back when no thread looks at them. Any number of threads push and pop; each access to a shared variable is a turn of its own, those of the object pool and the hazard
  pointers included. The theory shows that no node is used after it was freed and that the operations take effect one after the other on a sequential stack.
\<close>

section \<open>The stack\<close>

text \<open>The pointer to the next node is uninitialised (\<open>None\<close>) until \<^verbatim>\<open>SetNext\<close>. Pointers are the indices of the nodes in the object pool, or \<open>None\<close> for \<^verbatim>\<open>NULL\<close>.\<close>

record 'a LockFreeStackNode =
  sn_next :: "nat option option"
  sn_element :: 'a

definition LockFreeStackNode_new :: "'a \<Rightarrow> 'a LockFreeStackNode" where
  "LockFreeStackNode_new element = \<lparr>sn_next = None, sn_element = element\<rparr>"

text \<open>
  Where a thread is: in the allocation of a node; before the load of \<open>top\<close>, \<^verbatim>\<open>SetNext\<close> and the compare-and-swap of \<^verbatim>\<open>TryPush\<close>; before the load, guarding, the check of \<open>top\<close>,
  the read of the next node, the compare-and-swap, and unguarding after a failure in \<^verbatim>\<open>TryPop\<close>; and before reading the element, unguarding, retiring the node and in the scan that may follow.
\<close>

datatype 'a stack_pc = Stack_Idle
  | Push_Allocate 'a | Push_Load nat | Push_Link nat "nat option" | Push_Swap nat "nat option"
  | Pop_Load | Pop_Guard nat | Pop_Check nat | Pop_Next nat | Pop_Swap nat "nat option" | Pop_Retry
  | Pop_Element nat | Pop_Unguard nat 'a | Pop_Retire nat 'a | Pop_Reclaim 'a

datatype 'a stack_request = TryPush_Request 'a | TryPop_Request

text \<open>What a turn does as seen from outside. A push takes effect when it returns; a pop takes effect at the compare-and-swap and returns the element later.\<close>

datatype 'a stack_event = Stack_Quiet | Pushed 'a | Push_Full | Pop_Takes_Effect | Popped 'a | Pop_Empty

record ('s, 'a) stack_system =
  ss_top :: "nat option"
  ss_hazard :: "nat hp_system"
  ss_pool :: "('s, 'a LockFreeStackNode) object_system"
  ss_pc :: "nat \<Rightarrow> 'a stack_pc"

definition LockFreeStack_new :: "nat \<Rightarrow> (bool list \<Rightarrow> 's option) \<Rightarrow> nat \<Rightarrow> ('s, 'a) stack_system option" where
  "LockFreeStack_new threads make_pool capacity =
     do { pool \<leftarrow> ObjectPool_new make_pool (GetRetiredListMaxSize threads 1 * threads + capacity);
          Some \<lparr>ss_top = None, ss_hazard = hp_start threads 1, ss_pool = object_start pool, ss_pc = (\<lambda>_. Stack_Idle)\<rparr> }"

definition stack_goto :: "nat \<Rightarrow> 'a stack_pc \<Rightarrow> ('s, 'a) stack_system \<Rightarrow> ('s, 'a) stack_system" where
  "stack_goto t pc s = s\<lparr>ss_pc := (ss_pc s)(t := pc)\<rparr>"

abbreviation nodes :: "('s, 'a) stack_system \<Rightarrow> 'a LockFreeStackNode option list" where
  "nodes s \<equiv> op_objects (os_that (ss_pool s))"

text \<open>Reading through a pointer to a node that does not exist is undefined.\<close>

definition node_at :: "nat \<Rightarrow> ('s, 'a) stack_system \<Rightarrow> 'a LockFreeStackNode option" where
  "node_at n s = do { slot \<leftarrow> deref (nodes s) n; slot }"

definition SetNext :: "nat \<Rightarrow> nat option \<Rightarrow> ('s, 'a) stack_system \<Rightarrow> ('s, 'a) stack_system option" where
  "SetNext n nxt s = do {
     node \<leftarrow> node_at n s;
     objects \<leftarrow> assign (nodes s) n (Some (node\<lparr>sn_next := Some nxt\<rparr>));
     Some (s\<lparr>ss_pool := (ss_pool s)\<lparr>os_that := (os_that (ss_pool s))\<lparr>op_objects := objects\<rparr>\<rparr>\<rparr>) }"

definition GetNext :: "nat \<Rightarrow> ('s, 'a) stack_system \<Rightarrow> nat option option" where
  "GetNext n s = do { node \<leftarrow> node_at n s; sn_next node }"

definition GetElement :: "nat \<Rightarrow> ('s, 'a) stack_system \<Rightarrow> 'a option" where
  "GetElement n s = do { node \<leftarrow> node_at n s; Some (sn_element node) }"

text \<open>The turns of the object pool and of the hazard pointers inside of the operations.\<close>

type_synonym ('s, 'a) node_pool_turn = "nat \<Rightarrow> 'a LockFreeStackNode object_request \<Rightarrow> ('s, 'a LockFreeStackNode) object_system \<Rightarrow>
  (object_event \<times> ('s, 'a LockFreeStackNode) object_system) option"

definition push_allocate :: "('s, 'a) node_pool_turn \<Rightarrow> nat \<Rightarrow> 'a \<Rightarrow> ('s, 'a) stack_system \<Rightarrow> ('a stack_event \<times> ('s, 'a) stack_system) option" where
  "push_allocate pool_turn t element s = do {
     (ev, pool) \<leftarrow> pool_turn t (Allocate_Object (LockFreeStackNode_new element)) (ss_pool s);
     let s = s\<lparr>ss_pool := pool\<rparr>;
     Some (case ev of
       Object_Created newNode \<Rightarrow> (Stack_Quiet, stack_goto t (Push_Load newNode) s)
     | Object_Null \<Rightarrow> (Push_Full, stack_goto t Stack_Idle s)
     | _ \<Rightarrow> (Stack_Quiet, stack_goto t (Push_Allocate element) s)) }"

definition DeletePointerCallback :: "('s, 'a) node_pool_turn \<Rightarrow> nat \<Rightarrow> nat \<Rightarrow> ('s, 'a LockFreeStackNode) object_system \<Rightarrow>
    (bool \<times> ('s, 'a LockFreeStackNode) object_system) option" where
  "DeletePointerCallback pool_turn t to_delete pool = do {
     (ev, pool) \<leftarrow> pool_turn t (Free_Object to_delete) pool;
     Some (os_doing pool t = None, pool) }"

definition pop_finish :: "nat \<Rightarrow> 'a \<Rightarrow> ('s, 'a) stack_system \<Rightarrow> 'a stack_event \<times> ('s, 'a) stack_system" where
  "pop_finish t data s =
     (if hs_pc (ss_hazard s) t = Hp_Idle then (Popped data, stack_goto t Stack_Idle s) else (Stack_Quiet, stack_goto t (Pop_Reclaim data) s))"

text \<open>The event \<open>Pushed\<close> names the element, which is read from the node for this purpose only.\<close>

definition TryPush :: "('s, 'a) node_pool_turn \<Rightarrow> nat \<Rightarrow> 'a stack_pc \<Rightarrow> ('s, 'a) stack_system \<Rightarrow> ('a stack_event \<times> ('s, 'a) stack_system) option" where
  "TryPush pool_turn t pc s = (case pc of
       Push_Allocate element \<Rightarrow> push_allocate pool_turn t element s
     | Push_Load newNode \<Rightarrow> Some (Stack_Quiet, stack_goto t (Push_Link newNode (ss_top s)) s)
     | Push_Link newNode top_cached \<Rightarrow> do {
         s \<leftarrow> SetNext newNode top_cached s;
         Some (Stack_Quiet, stack_goto t (Push_Swap newNode top_cached) s) }
     | Push_Swap newNode top_cached \<Rightarrow>
         (if ss_top s = top_cached then do {
            element \<leftarrow> GetElement newNode s;
            Some (Pushed element, stack_goto t Stack_Idle (s\<lparr>ss_top := Some newNode\<rparr>)) }
          else Some (Stack_Quiet, stack_goto t (Push_Load newNode) s))
     | _ \<Rightarrow> None)"

definition TryPop :: "('s, 'a) node_pool_turn \<Rightarrow> nat \<Rightarrow> 'a stack_pc \<Rightarrow> ('s, 'a) stack_system \<Rightarrow> ('a stack_event \<times> ('s, 'a) stack_system) option" where
  "TryPop pool_turn t pc s = (case pc of
       Pop_Load \<Rightarrow> Some (case ss_top s of
           None \<Rightarrow> (Pop_Empty, stack_goto t Stack_Idle s)
         | Some top_cached \<Rightarrow> (Stack_Quiet, stack_goto t (Pop_Guard top_cached) s))
     | Pop_Guard top_cached \<Rightarrow> do {
         h \<leftarrow> GuardPointer t 0 (Some top_cached) (ss_hazard s);
         Some (Stack_Quiet, stack_goto t (Pop_Check top_cached) (s\<lparr>ss_hazard := h\<rparr>)) }
     | Pop_Check top_cached \<Rightarrow>
         Some (Stack_Quiet, stack_goto t (if ss_top s \<noteq> Some top_cached then Pop_Load else Pop_Next top_cached) s)
     | Pop_Next top_cached \<Rightarrow> do {
         nxt \<leftarrow> GetNext top_cached s;
         Some (Stack_Quiet, stack_goto t (Pop_Swap top_cached nxt) s) }
     | Pop_Swap top_cached nxt \<Rightarrow>
         Some (if ss_top s = Some top_cached then (Pop_Takes_Effect, stack_goto t (Pop_Element top_cached) (s\<lparr>ss_top := nxt\<rparr>))
               else (Stack_Quiet, stack_goto t Pop_Retry s))
     | Pop_Retry \<Rightarrow> do {
         h \<leftarrow> GuardPointer t 0 None (ss_hazard s);
         Some (Stack_Quiet, stack_goto t Pop_Load (s\<lparr>ss_hazard := h\<rparr>)) }
     | Pop_Element top_cached \<Rightarrow> do {
         data \<leftarrow> GetElement top_cached s;
         Some (Stack_Quiet, stack_goto t (Pop_Unguard top_cached data) s) }
     | Pop_Unguard top_cached data \<Rightarrow> do {
         h \<leftarrow> GuardPointer t 0 None (ss_hazard s);
         Some (Stack_Quiet, stack_goto t (Pop_Retire top_cached data) (s\<lparr>ss_hazard := h\<rparr>)) }
     | Pop_Retire top_cached data \<Rightarrow> do {
         h \<leftarrow> EnqueuePointerForDeletion t top_cached (ss_hazard s);
         Some (pop_finish t data (s\<lparr>ss_hazard := h\<rparr>)) }
     | Pop_Reclaim data \<Rightarrow> do {
         (h, pool) \<leftarrow> hp_turn (DeletePointerCallback pool_turn) t (ss_hazard s) (ss_pool s);
         Some (pop_finish t data (s\<lparr>ss_hazard := h, ss_pool := pool\<rparr>)) }
     | _ \<Rightarrow> None)"

text \<open>A thread without an operation under way starts the requested one. The first load of \<open>top\<close> in \<^verbatim>\<open>TryPop\<close>, whose value is not used, is the turn that starts it.\<close>

definition stack_turn :: "('s, 'a) node_pool_turn \<Rightarrow> nat \<Rightarrow> 'a stack_request \<Rightarrow> ('s, 'a) stack_system \<Rightarrow> ('a stack_event \<times> ('s, 'a) stack_system) option" where
  "stack_turn pool_turn t request s = (case ss_pc s t of
       Stack_Idle \<Rightarrow> (case request of
           TryPush_Request element \<Rightarrow> push_allocate pool_turn t element s
         | TryPop_Request \<Rightarrow> Some (Stack_Quiet, stack_goto t Pop_Load s))
     | Push_Allocate _ \<Rightarrow> TryPush pool_turn t (ss_pc s t) s
     | Push_Load _ \<Rightarrow> TryPush pool_turn t (ss_pc s t) s
     | Push_Link _ _ \<Rightarrow> TryPush pool_turn t (ss_pc s t) s
     | Push_Swap _ _ \<Rightarrow> TryPush pool_turn t (ss_pc s t) s
     | _ \<Rightarrow> TryPop pool_turn t (ss_pc s t) s)"

fun stack_run :: "('s, 'a) node_pool_turn \<Rightarrow> (nat \<times> 'a stack_request) list \<Rightarrow> ('s, 'a) stack_system \<Rightarrow> ((nat \<times> 'a stack_event) list \<times> ('s, 'a) stack_system) option" where
  "stack_run pool_turn [] s = Some ([], s)"
| "stack_run pool_turn ((t, request) # schedule) s = do {
     (ev, s) \<leftarrow> stack_turn pool_turn t request s;
     (evs, s) \<leftarrow> stack_run pool_turn schedule s;
     Some ((t, ev) # evs, s) }"

section \<open>The sequential stack\<close>

text \<open>
  What the events do to a sequential stack, with the elements that were taken by threads that have not returned them yet. \<open>None\<close> is an event that the
  sequential stack does not allow: a pop that takes effect or finds the stack empty when it is not so, or one that returns another element than it took.
\<close>

fun spec_turn :: "nat \<Rightarrow> 'a stack_event \<Rightarrow> 'a list \<times> (nat \<Rightarrow> 'a option) \<Rightarrow> ('a list \<times> (nat \<Rightarrow> 'a option)) option" where
  "spec_turn t (Pushed x) (xs, taken) = Some (x # xs, taken)"
| "spec_turn t Pop_Takes_Effect (xs, taken) = (case xs of [] \<Rightarrow> None | x # xs \<Rightarrow> Some (xs, taken(t := Some x)))"
| "spec_turn t (Popped x) (xs, taken) = (if taken t = Some x then Some (xs, taken(t := None)) else None)"
| "spec_turn t Pop_Empty (xs, taken) = (if xs = [] then Some (xs, taken) else None)"
| "spec_turn t _ (xs, taken) = Some (xs, taken)"

fun spec_run :: "(nat \<times> 'a stack_event) list \<Rightarrow> 'a list \<times> (nat \<Rightarrow> 'a option) \<Rightarrow> ('a list \<times> (nat \<Rightarrow> 'a option)) option" where
  "spec_run [] a = Some a"
| "spec_run ((t, ev) # evs) a = do { a \<leftarrow> spec_turn t ev a; spec_run evs a }"

text \<open>The nodes from a pointer on.\<close>

primrec linked :: "'a LockFreeStackNode option list \<Rightarrow> nat option \<Rightarrow> nat list \<Rightarrow> bool" where
  "linked objects p [] \<longleftrightarrow> p = None"
| "linked objects p (n # ns) \<longleftrightarrow> p = Some n \<and> n < length objects \<and> (\<exists>node nxt. objects ! n = Some node \<and> sn_next node = Some nxt \<and> linked objects nxt ns)"

section \<open>The invariant\<close>

text \<open>The node that a thread has for itself: before it is pushed, and after it was popped.\<close>

fun new_node :: "'a stack_pc \<Rightarrow> nat option" where
  "new_node (Push_Load n) = Some n"
| "new_node (Push_Link n _) = Some n"
| "new_node (Push_Swap n _) = Some n"
| "new_node _ = None"

fun popped_node :: "'a stack_pc \<Rightarrow> nat option" where
  "popped_node (Pop_Element n) = Some n"
| "popped_node (Pop_Unguard n _) = Some n"
| "popped_node (Pop_Retire n _) = Some n"
| "popped_node _ = None"

text \<open>Each node has one owner: the stack, a thread, or the retired list of a thread.\<close>

datatype node_owner = In_List | New_Of nat | Popped_By nat | Retired_By nat

fun owns :: "nat \<Rightarrow> (nat \<Rightarrow> 'a stack_pc) \<Rightarrow> (nat \<Rightarrow> nat set) \<Rightarrow> nat list \<Rightarrow> node_owner \<Rightarrow> nat \<Rightarrow> bool" where
  "owns N pc pend ns In_List n \<longleftrightarrow> n \<in> set ns"
| "owns N pc pend ns (New_Of t) n \<longleftrightarrow> new_node (pc t) = Some n"
| "owns N pc pend ns (Popped_By t) n \<longleftrightarrow> popped_node (pc t) = Some n"
| "owns N pc pend ns (Retired_By e) n \<longleftrightarrow> e < N \<and> n \<in> pend e"

definition published :: "nat \<Rightarrow> (nat \<Rightarrow> 'a stack_pc) \<Rightarrow> (nat \<Rightarrow> nat set) \<Rightarrow> nat list \<Rightarrow> nat \<Rightarrow> bool" where
  "published N pc pend ns n \<longleftrightarrow> (\<exists>ow. owns N pc pend ns ow n \<and> (\<forall>t. ow \<noteq> New_Of t))"

definition live :: "'o option list \<Rightarrow> nat \<Rightarrow> bool" where
  "live objects n \<longleftrightarrow> n < length objects \<and> objects ! n \<noteq> None"

text \<open>The next node of a node that is live and linked.\<close>

definition next_is :: "'a LockFreeStackNode option list \<Rightarrow> nat \<Rightarrow> nat option \<Rightarrow> bool" where
  "next_is objects n nxt \<longleftrightarrow> n < length objects \<and> (\<exists>node. objects ! n = Some node \<and> sn_next node = Some nxt)"

definition protected :: "nat \<Rightarrow> nat hp_system \<Rightarrow> (nat \<Rightarrow> 'a stack_pc) \<Rightarrow> nat list \<Rightarrow> nat \<Rightarrow> nat \<Rightarrow> bool" where
  "protected N h pc ns t c \<longleftrightarrow> guards h t ! 0 = Some c \<and> covered h t 0 c \<and> published N pc (pending h) ns c"

definition element_at :: "'a LockFreeStackNode option list \<Rightarrow> nat \<Rightarrow> 'a" where
  "element_at objects n = sn_element (the (objects ! n))"

definition stack_pc_ok :: "nat \<Rightarrow> nat hp_system \<Rightarrow> 'a LockFreeStackNode option list \<Rightarrow> (nat \<Rightarrow> 'a stack_pc) \<Rightarrow> nat list \<Rightarrow> (nat \<Rightarrow> 'a option) \<Rightarrow> nat \<Rightarrow> bool" where
  "stack_pc_ok N h objects pc ns taken t \<longleftrightarrow> (case pc t of
       Push_Swap n c \<Rightarrow> next_is objects n c
     | Pop_Check c \<Rightarrow> guards h t ! 0 = Some c
     | Pop_Next c \<Rightarrow> protected N h pc ns t c
     | Pop_Swap c nxt \<Rightarrow> protected N h pc ns t c \<and> next_is objects c nxt
     | Pop_Element n \<Rightarrow> taken t = Some (element_at objects n)
     | Pop_Unguard n d \<Rightarrow> taken t = Some d
     | Pop_Retire n d \<Rightarrow> taken t = Some d
     | Pop_Reclaim d \<Rightarrow> taken t = Some d
     | _ \<Rightarrow> True)"

text \<open>What the object pool is doing for a thread.\<close>

definition pool_doing :: "'a stack_pc \<Rightarrow> nat option \<Rightarrow> 'a LockFreeStackNode object_request option" where
  "pool_doing pc fr = (case pc of Push_Allocate x \<Rightarrow> Some (Allocate_Object (LockFreeStackNode_new x)) | _ \<Rightarrow> map_option Free_Object fr)"

definition thread_ok :: "nat \<Rightarrow> nat hp_system \<Rightarrow> 'a LockFreeStackNode option list \<Rightarrow> (nat \<Rightarrow> 'a LockFreeStackNode object_request option) \<Rightarrow>
    (nat \<Rightarrow> 'a stack_pc) \<Rightarrow> nat list \<Rightarrow> (nat \<Rightarrow> 'a option) \<Rightarrow> nat \<Rightarrow> bool" where
  "thread_ok N h objects doing pc ns taken t \<longleftrightarrow> stack_pc_ok N h objects pc ns taken t \<and> doing t = pool_doing (pc t) (freeing h t) \<and>
     hs_pc h t \<noteq> Hp_Gone \<and> (hs_pc h t \<noteq> Hp_Idle \<longrightarrow> (\<exists>d. pc t = Pop_Reclaim d)) \<and> (N \<le> t \<longrightarrow> pc t = Stack_Idle)"

definition stack_ok :: "nat \<Rightarrow> nat option \<Rightarrow> nat hp_system \<Rightarrow> 'a LockFreeStackNode option list \<Rightarrow> (nat \<Rightarrow> 'a LockFreeStackNode object_request option) \<Rightarrow>
    (nat \<Rightarrow> 'a stack_pc) \<Rightarrow> nat list \<Rightarrow> 'a list \<Rightarrow> (nat \<Rightarrow> 'a option) \<Rightarrow> bool" where
  "stack_ok N tp h objects doing pc ns xs taken \<longleftrightarrow>
     linked objects tp ns \<and> distinct ns \<and> xs = map (element_at objects) ns \<and> hp_inv N 1 h \<and>
     (\<forall>n ow. owns N pc (pending h) ns ow n \<longrightarrow> live objects n \<and> (\<forall>ow'. owns N pc (pending h) ns ow' n \<longrightarrow> ow' = ow)) \<and>
     (\<forall>n. live objects n \<longrightarrow> (\<exists>ow. owns N pc (pending h) ns ow n)) \<and>
     (\<forall>n. published N pc (pending h) ns n \<longrightarrow> (\<exists>nxt. next_is objects n nxt)) \<and>
     (\<forall>t. thread_ok N h objects doing pc ns taken t)"

definition stack_inv :: "(('s, 'a LockFreeStackNode) object_system \<Rightarrow> bool) \<Rightarrow> nat \<Rightarrow> ('s, 'a) stack_system \<Rightarrow> 'a list \<Rightarrow> (nat \<Rightarrow> 'a option) \<Rightarrow> bool" where
  "stack_inv pool_ok N s xs taken \<longleftrightarrow> pool_ok (ss_pool s) \<and>
     (\<exists>ns. stack_ok N (ss_top s) (ss_hazard s) (nodes s) (os_doing (ss_pool s)) (ss_pc s) ns xs taken)"

lemma linked_cong:
  "(\<And>n. n \<in> set ns \<Longrightarrow> objects' ! n = objects ! n) \<Longrightarrow> length objects' = length objects \<Longrightarrow> linked objects' p ns \<longleftrightarrow> linked objects p ns"
  by (induction ns arbitrary: p) auto

lemma linked_next: "linked objects p ns \<Longrightarrow> n \<in> set ns \<Longrightarrow> \<exists>nxt. next_is objects n nxt"
  by (induction ns arbitrary: p) (auto simp: next_is_def)

lemma stack_ok_live: "stack_ok N tp h objects doing pc ns xs taken \<Longrightarrow> owns N pc (pending h) ns ow n \<Longrightarrow> live objects n"
  unfolding stack_ok_def by blast

lemma stack_ok_unique:
  "stack_ok N tp h objects doing pc ns xs taken \<Longrightarrow> owns N pc (pending h) ns ow n \<Longrightarrow> owns N pc (pending h) ns ow' n \<Longrightarrow> ow' = ow"
  unfolding stack_ok_def by blast

lemma stack_ok_thread: "stack_ok N tp h objects doing pc ns xs taken \<Longrightarrow> thread_ok N h objects doing pc ns taken t"
  unfolding stack_ok_def by blast

lemma owned_not_protected:
  assumes "stack_ok N tp h objects doing pc ns xs taken" "new_node (pc t) = Some n"
  shows "\<not> published N pc (pending h) ns n"
  using stack_ok_unique[OF assms(1), of "New_Of t" n] assms(2) by (auto simp: published_def)

text \<open>
  A turn of thread \<open>t\<close> keeps the invariant of another thread if it leaves the nodes alone that the other one relies on.
\<close>

lemma other_thread:
  assumes ok: "thread_ok N h objects doing pc ns taken u" and u: "u \<noteq> t"
    and pc': "pc' = pc(t := p)" and same: "doing' u = doing u" "freeing h' u = freeing h u" "hs_pc h' u = hs_pc h u" "taken' u = taken u" "guards h' u = guards h u"
    and own: "\<And>n. new_node (pc u) = Some n \<or> popped_node (pc u) = Some n \<Longrightarrow> objects' ! n = objects ! n"
    and prot: "\<And>c. u < N \<Longrightarrow> protected N h pc ns u c \<Longrightarrow> protected N h' pc' ns' u c \<and> objects' ! c = objects ! c" and len: "length objects' = length objects"
  shows "thread_ok N h' objects' doing' pc' ns' taken' u"
proof -
  have "stack_pc_ok N h' objects' pc' ns' taken' u"
    using ok u own prot len not_le[of N u] unfolding thread_ok_def stack_pc_ok_def pc'
    by (cases "pc u") (auto simp: next_is_def element_at_def same)
  then show ?thesis
    using ok u by (simp add: thread_ok_def pc' same)
qed

section \<open>How turns change the owners of nodes\<close>

text \<open>A turn that moves one node \<open>m\<close> to another owner, or creates or frees it.\<close>

lemma stack_ok_move:
  assumes ok: "stack_ok N tp h objects doing pc ns xs taken"
    and list: "linked objects' tp' ns'" "distinct ns'" "xs' = map (element_at objects') ns'" and inv: "hp_inv N 1 h'"
    and objects: "\<And>n. n \<noteq> m \<Longrightarrow> objects' ! n = objects ! n" "length objects' = length objects"
    and own: "\<And>ow n. owns N (pc(t := p)) (pending h') ns' ow n \<Longrightarrow> n \<noteq> m \<and> owns N pc (pending h) ns ow n \<or> n = m \<and> ow = ow' \<and> live objects' m"
    and own_m: "\<And>ow n. owns N pc (pending h) ns ow n \<Longrightarrow> n \<noteq> m \<Longrightarrow> owns N (pc(t := p)) (pending h') ns' ow n" "live objects' m \<Longrightarrow> owns N (pc(t := p)) (pending h') ns' ow' m"
    and linked_m: "\<forall>t. ow' \<noteq> New_Of t \<Longrightarrow> \<exists>nxt. next_is objects' m nxt"
    and m: "\<And>u. u \<noteq> t \<Longrightarrow> new_node (pc u) \<noteq> Some m \<and> popped_node (pc u) \<noteq> Some m"
    and me: "thread_ok N h' objects' doing' (pc(t := p)) ns' taken' t"
    and same: "\<And>u. u \<noteq> t \<Longrightarrow> doing' u = doing u \<and> freeing h' u = freeing h u \<and> hs_pc h' u = hs_pc h u \<and> taken' u = taken u \<and> guards h' u = guards h u"
    and prot: "\<And>u c. u \<noteq> t \<Longrightarrow> u < N \<Longrightarrow> protected N h pc ns u c \<Longrightarrow> covered h' u 0 c \<and> published N (pc(t := p)) (pending h') ns' c \<and> objects' ! c = objects ! c"
  shows "stack_ok N tp' h' objects' doing' (pc(t := p)) ns' xs' taken'"
proof -
  let ?owns = "owns N (pc(t := p)) (pending h') ns'"
  have "live objects' n \<and> (\<forall>ow''. ?owns ow'' n \<longrightarrow> ow'' = ow)" if "?owns ow n" for ow n
  proof (cases "n = m")
    case True
    then show ?thesis
      using own that by blast
  next
    case False
    then have "live objects n" "owns N pc (pending h) ns ow n"
      using own[OF that] stack_ok_live[OF ok] by blast+
    then show ?thesis
      using False objects own stack_ok_unique[OF ok] unfolding live_def by metis
  qed
  moreover have "\<exists>ow. ?owns ow n" if n: "live objects' n" for n
  proof (cases "n = m")
    case True
    then show ?thesis
      using own_m(2) n by blast
  next
    case False
    then have "live objects n"
      using n objects by (simp add: live_def)
    then obtain ow where "owns N pc (pending h) ns ow n"
      using ok unfolding stack_ok_def by blast
    then show ?thesis
      using own_m(1) False by blast
  qed
  moreover have "\<exists>nxt. next_is objects' n nxt" if n: "published N (pc(t := p)) (pending h') ns' n" for n
  proof -
    obtain ow where ow: "?owns ow n" "\<forall>t. ow \<noteq> New_Of t"
      using n by (auto simp: published_def)
    show ?thesis
    proof (cases "n = m")
      case True
      then show ?thesis
        using own[OF ow(1)] ow(2) linked_m by blast
    next
      case False
      then have "published N pc (pending h) ns n"
        using own[OF ow(1)] ow(2) by (auto simp: published_def)
      then show ?thesis
        using ok False objects by (auto simp: stack_ok_def next_is_def)
    qed
  qed
  moreover have "thread_ok N h' objects' doing' (pc(t := p)) ns' taken' u" for u
  proof (cases "u = t")
    case True
    then show ?thesis
      using me by simp
  next
    case False
    note same' = same[OF False]
    have "guards h' u = guards h u"
      using same' by simp
    show ?thesis
    proof (rule other_thread[OF stack_ok_thread[OF ok] False refl _ _ _ _ _ _ _ objects(2)])
      show "protected N h' (pc(t := p)) ns' u c \<and> objects' ! c = objects ! c" if "u < N" "protected N h pc ns u c" for c
        using prot[OF False that] that same' by (simp add: protected_def)
      show "objects' ! n = objects ! n" if "new_node (pc u) = Some n \<or> popped_node (pc u) = Some n" for n
        using m[OF False] that by (intro objects(1)) auto
    qed (use same' in simp_all)
  qed
  ultimately show ?thesis
    unfolding stack_ok_def using list inv by blast
qed

text \<open>A turn that leaves all nodes where they are.\<close>

lemma stack_ok_stay:
  assumes ok: "stack_ok N tp h objects doing pc ns xs taken" and inv: "hp_inv N 1 h'" and pending: "pending h' = pending h"
    and p: "new_node p = new_node (pc t)" "popped_node p = popped_node (pc t)"
    and me: "thread_ok N h' objects doing' (pc(t := p)) ns taken' t"
    and same: "\<And>u. u \<noteq> t \<Longrightarrow> doing' u = doing u \<and> freeing h' u = freeing h u \<and> hs_pc h' u = hs_pc h u \<and> taken' u = taken u \<and> guards h' u = guards h u"
    and prot: "\<And>u c. u \<noteq> t \<Longrightarrow> u < N \<Longrightarrow> protected N h pc ns u c \<Longrightarrow> covered h' u 0 c"
  shows "stack_ok N tp h' objects doing' (pc(t := p)) ns xs taken'"
proof -
  have owns: "owns N (pc(t := p)) (pending h') ns ow n = owns N pc (pending h) ns ow n" for ow n
    using p pending by (cases ow) auto
  then have published: "published N (pc(t := p)) (pending h') ns = published N pc (pending h) ns"
    by (simp add: published_def fun_eq_iff)
  have "thread_ok N h' objects doing' (pc(t := p)) ns taken' u" for u
  proof (cases "u = t")
    case True
    then show ?thesis
      using me by simp
  next
    case False
    then show ?thesis
      using same[OF False] prot[OF False] published
      by (intro other_thread[OF stack_ok_thread[OF ok] False refl]) (auto simp: protected_def)
  qed
  then show ?thesis
    using ok inv unfolding stack_ok_def owns published by blast
qed

lemma pool_doing_None: "new_node pc \<noteq> None \<or> popped_node pc \<noteq> None \<Longrightarrow> pool_doing pc None = None"
  by (cases pc) (simp_all add: pool_doing_def)

text \<open>The element of a new node, and its next node, are only known to the thread that has it.\<close>

lemma stack_ok_hp: "stack_ok N tp h objects doing pc ns xs taken \<Longrightarrow> hp_inv N 1 h"
  by (simp add: stack_ok_def)

lemma not_in_list: "stack_ok N tp h objects doing pc ns xs taken \<Longrightarrow> new_node (pc t) = Some m \<Longrightarrow> m \<notin> set ns"
  using stack_ok_unique[of N tp h objects doing pc ns xs taken "New_Of t" m In_List] by auto

lemma map_element_cong: "(\<And>n. n \<in> set ns \<Longrightarrow> objects' ! n = objects ! n) \<Longrightarrow> map (element_at objects') ns = map (element_at objects) ns"
  by (simp add: element_at_def)

lemma protected_owner: "protected N h pc ns u c \<Longrightarrow> \<exists>ow. owns N pc (pending h) ns ow c"
  by (auto simp: protected_def published_def)

lemma stack_ok_create:
  assumes ok: "stack_ok N tp h objects doing pc ns xs taken" and m: "m < length objects" "objects ! m = None"
    and t: "t < N" "pc t = Stack_Idle \<or> pc t = Push_Allocate x" and doing: "doing' t = None" "\<And>u. u \<noteq> t \<Longrightarrow> doing' u = doing u"
  shows "stack_ok N tp h (objects[m := Some (LockFreeStackNode_new x)]) doing' (pc(t := Push_Load m)) ns xs taken"
proof -
  let ?objects = "objects[m := Some (LockFreeStackNode_new x)]"
  have free: "\<not> owns N pc (pending h) ns ow m" for ow
    using stack_ok_live[OF ok, of ow m] m(2) by (auto simp: live_def)
  have fr: "freeing h t = None" and me: "hs_pc h t = Hp_Idle"
    using stack_ok_thread[OF ok, of t] t by (auto simp: thread_ok_def freeing_def)
  have "m \<notin> set ns"
    using free[of In_List] by simp
  then have eq: "\<And>n. n \<in> set ns \<Longrightarrow> ?objects ! n = objects ! n"
    by (metis nth_list_update_neq)
  have list: "linked objects tp ns" "distinct ns" "xs = map (element_at objects) ns"
    using ok by (simp_all add: stack_ok_def)
  show ?thesis
  proof (rule stack_ok_move[OF ok _ list(2) _ stack_ok_hp[OF ok], where m = m and ow' = "New_Of t"])
    show "linked ?objects tp ns" "xs = map (element_at ?objects) ns"
      using list linked_cong[OF eq] map_element_cong[OF eq] by simp_all
    show "n \<noteq> m \<and> owns N pc (pending h) ns ow n \<or> n = m \<and> ow = New_Of t \<and> live ?objects m"
      if "owns N (pc(t := Push_Load m)) (pending h) ns ow n" for ow n
      using that free[of ow] m by (cases ow) (auto simp: live_def split: if_splits)
    show "owns N (pc(t := Push_Load m)) (pending h) ns ow n" if "owns N pc (pending h) ns ow n" "n \<noteq> m" for ow n
      using that t(2) by (cases ow) auto
    show "new_node (pc u) \<noteq> Some m \<and> popped_node (pc u) \<noteq> Some m" for u
      using free[of "New_Of u"] free[of "Popped_By u"] by simp
    show "thread_ok N h ?objects doing' (pc(t := Push_Load m)) ns taken t"
      using t(1) doing(1) fr me by (simp add: thread_ok_def stack_pc_ok_def pool_doing_def)
    show "covered h u 0 c \<and> published N (pc(t := Push_Load m)) (pending h) ns c \<and> ?objects ! c = objects ! c"
      if u: "u \<noteq> t" "u < N" and guarded: "protected N h pc ns u c" for u c
    proof -
      obtain ow where ow: "owns N pc (pending h) ns ow c" "\<forall>t. ow \<noteq> New_Of t"
        using guarded by (auto simp: protected_def published_def)
      then have "c \<noteq> m"
        using free by auto
      moreover have "owns N (pc(t := Push_Load m)) (pending h) ns ow c"
        using ow t(2) by (cases ow) auto
      ultimately show ?thesis
        using guarded ow(2) by (auto simp: protected_def published_def)
    qed
  qed (use doing in \<open>auto simp: \<close>)
qed

lemma stack_ok_set_next:
  assumes ok: "stack_ok N tp h objects doing pc ns xs taken" and t: "t < N" "pc t = Push_Link m c" and node: "objects ! m = Some node"
  shows "stack_ok N tp h (objects[m := Some (node\<lparr>sn_next := Some c\<rparr>)]) doing (pc(t := Push_Swap m c)) ns xs taken"
proof -
  let ?objects = "objects[m := Some (node\<lparr>sn_next := Some c\<rparr>)]"
  have own: "owns N pc (pending h) ns (New_Of t) m"
    using t(2) by simp
  note unique = stack_ok_unique[OF ok own]
  have live: "m < length objects"
    using stack_ok_live[OF ok own] by (simp add: live_def)
  have "m \<notin> set ns"
    using unique[of In_List] by auto
  then have eq: "\<And>n. n \<in> set ns \<Longrightarrow> ?objects ! n = objects ! n"
    by (metis nth_list_update_neq)
  have list: "linked objects tp ns" "distinct ns" "xs = map (element_at objects) ns"
    using ok by (simp_all add: stack_ok_def)
  show ?thesis
  proof (rule stack_ok_move[OF ok _ list(2) _ stack_ok_hp[OF ok], where m = m and ow' = "New_Of t"])
    show "linked ?objects tp ns" "xs = map (element_at ?objects) ns"
      using list linked_cong[OF eq] map_element_cong[OF eq] by simp_all
    show "n \<noteq> m \<and> owns N pc (pending h) ns ow n \<or> n = m \<and> ow = New_Of t \<and> live ?objects m"
      if "owns N (pc(t := Push_Swap m c)) (pending h) ns ow n" for ow n
    proof -
      have "owns N pc (pending h) ns ow n"
        using that t(2) by (cases ow) (auto split: if_splits)
      then show ?thesis
        using unique[of ow] live by (cases "n = m") (auto simp: live_def)
    qed
    show "owns N (pc(t := Push_Swap m c)) (pending h) ns ow n" if "owns N pc (pending h) ns ow n" "n \<noteq> m" for ow n
      using that t(2) by (cases ow) auto
    show "new_node (pc u) \<noteq> Some m \<and> popped_node (pc u) \<noteq> Some m" if "u \<noteq> t" for u
      using unique[of "New_Of u"] unique[of "Popped_By u"] that by auto
    show "thread_ok N h ?objects doing (pc(t := Push_Swap m c)) ns taken t"
      using stack_ok_thread[OF ok, of t] t live by (auto simp: thread_ok_def stack_pc_ok_def pool_doing_def next_is_def)
    show "covered h u 0 d \<and> published N (pc(t := Push_Swap m c)) (pending h) ns d \<and> ?objects ! d = objects ! d"
      if u: "u \<noteq> t" "u < N" and guarded: "protected N h pc ns u d" for u d
    proof -
      obtain ow where ow: "owns N pc (pending h) ns ow d" "\<forall>t. ow \<noteq> New_Of t"
        using guarded by (auto simp: protected_def published_def)
      then have "d \<noteq> m"
        using unique[of ow] by auto
      moreover have "owns N (pc(t := Push_Swap m c)) (pending h) ns ow d"
        using ow t(2) by (cases ow) auto
      ultimately show ?thesis
        using guarded ow(2) by (auto simp: protected_def published_def)
    qed
  qed auto
qed

lemma stack_ok_push:
  assumes ok: "stack_ok N tp h objects doing pc ns xs taken" and t: "t < N" "pc t = Push_Swap m tp"
  shows "stack_ok N (Some m) h objects doing (pc(t := Stack_Idle)) (m # ns) (element_at objects m # xs) taken"
proof -
  have own: "owns N pc (pending h) ns (New_Of t) m"
    using t(2) by simp
  note unique = stack_ok_unique[OF ok own]
  have live: "m < length objects" "live objects m"
    using stack_ok_live[OF ok own] by (simp_all add: live_def)
  have m: "m \<notin> set ns"
    using unique[of In_List] by auto
  have list: "linked objects tp ns" "distinct ns" "xs = map (element_at objects) ns"
    using ok by (simp_all add: stack_ok_def)
  have nxt: "next_is objects m tp"
    using stack_ok_thread[OF ok, of t] t by (simp add: thread_ok_def stack_pc_ok_def)
  show ?thesis
  proof (rule stack_ok_move[OF ok _ _ _ stack_ok_hp[OF ok], where m = m and ow' = In_List])
    show "linked objects (Some m) (m # ns)" "distinct (m # ns)" "element_at objects m # xs = map (element_at objects) (m # ns)"
      using nxt list m by (auto simp: next_is_def)
    show "n \<noteq> m \<and> owns N pc (pending h) ns ow n \<or> n = m \<and> ow = In_List \<and> live objects m"
      if "owns N (pc(t := Stack_Idle)) (pending h) (m # ns) ow n" for ow n
    proof -
      have "owns N pc (pending h) ns ow n \<and> ow \<noteq> New_Of t \<or> n = m \<and> ow = In_List"
        using that t(2) by (cases ow) (auto split: if_splits)
      then show ?thesis
        using unique[of ow] live(2) by (cases "n = m") auto
    qed
    show "owns N (pc(t := Stack_Idle)) (pending h) (m # ns) ow n" if "owns N pc (pending h) ns ow n" "n \<noteq> m" for ow n
      using that t(2) by (cases ow) auto
    show "\<exists>nxt. next_is objects m nxt"
      using nxt by blast
    show "new_node (pc u) \<noteq> Some m \<and> popped_node (pc u) \<noteq> Some m" if "u \<noteq> t" for u
      using unique[of "New_Of u"] unique[of "Popped_By u"] that by auto
    show "thread_ok N h objects doing (pc(t := Stack_Idle)) (m # ns) taken t"
      using stack_ok_thread[OF ok, of t] t by (auto simp: thread_ok_def stack_pc_ok_def pool_doing_def)
    show "covered h u 0 d \<and> published N (pc(t := Stack_Idle)) (pending h) (m # ns) d \<and> objects ! d = objects ! d"
      if u: "u \<noteq> t" "u < N" and guarded: "protected N h pc ns u d" for u d
    proof -
      obtain ow where ow: "owns N pc (pending h) ns ow d" "\<forall>t. ow \<noteq> New_Of t"
        using guarded by (auto simp: protected_def published_def)
      then have "owns N (pc(t := Stack_Idle)) (pending h) (m # ns) ow d"
        using t(2) by (cases ow) auto
      then show ?thesis
        using guarded ow(2) by (auto simp: protected_def published_def)
    qed
  qed auto
qed

lemma stack_ok_pop:
  assumes ok: "stack_ok N (Some c) h objects doing pc ns xs taken" and t: "t < N" "pc t = Pop_Swap c nxt"
  obtains x xs' ns' where "xs = x # xs'" "stack_ok N nxt h objects doing (pc(t := Pop_Element c)) ns' xs' (taken(t := Some x))"
proof -
  have list: "linked objects (Some c) ns" "distinct ns" "xs = map (element_at objects) ns"
    using ok by (simp_all add: stack_ok_def)
  obtain ns' where ns: "ns = c # ns'"
    using list(1) by (cases ns) auto
  have own: "owns N pc (pending h) ns In_List c"
    by (simp add: ns)
  note unique = stack_ok_unique[OF ok own]
  have nxt: "next_is objects c nxt"
    using stack_ok_thread[OF ok, of t] t by (simp add: thread_ok_def stack_pc_ok_def)
  let ?pc = "pc(t := Pop_Element c)" and ?taken = "taken(t := Some (element_at objects c))"
  have "stack_ok N nxt h objects doing ?pc ns' (map (element_at objects) ns') ?taken"
  proof (rule stack_ok_move[OF ok _ _ refl stack_ok_hp[OF ok], where m = c and ow' = "Popped_By t"])
    show "linked objects nxt ns'" "distinct ns'"
      using list(1,2) nxt by (auto simp: ns next_is_def)
    show "n \<noteq> c \<and> owns N pc (pending h) ns ow n \<or> n = c \<and> ow = Popped_By t \<and> live objects c"
      if "owns N ?pc (pending h) ns' ow n" for ow n
    proof -
      have "owns N pc (pending h) ns ow n \<and> (ow = In_List \<longrightarrow> n \<noteq> c) \<or> n = c \<and> ow = Popped_By t"
        using that t(2) list(2) ns by (cases ow) (auto split: if_splits)
      then show ?thesis
        using unique[of ow] stack_ok_live[OF ok own] by (cases "n = c") auto
    qed
    show "owns N ?pc (pending h) ns' ow n" if "owns N pc (pending h) ns ow n" "n \<noteq> c" for ow n
      using that t(2) by (cases ow) (auto simp: ns)
    show "\<exists>nxt. next_is objects c nxt"
      using nxt by blast
    show "new_node (pc u) \<noteq> Some c \<and> popped_node (pc u) \<noteq> Some c" if "u \<noteq> t" for u
      using unique[of "New_Of u"] unique[of "Popped_By u"] by auto
    show "thread_ok N h objects doing ?pc ns' ?taken t"
      using stack_ok_thread[OF ok, of t] t by (auto simp: thread_ok_def stack_pc_ok_def pool_doing_def)
    show "covered h u 0 d \<and> published N ?pc (pending h) ns' d \<and> objects ! d = objects ! d"
      if u: "u \<noteq> t" "u < N" and guarded: "protected N h pc ns u d" for u d
    proof -
      obtain ow where ow: "owns N pc (pending h) ns ow d" "\<forall>t. ow \<noteq> New_Of t"
        using guarded by (auto simp: protected_def published_def)
      have "published N ?pc (pending h) ns' d"
      proof (cases "d = c")
        case True
        then show ?thesis
          unfolding published_def by (intro exI[of _ "Popped_By t"]) simp
      next
        case False
        then show ?thesis
          unfolding published_def using ow t(2) by (intro exI[of _ ow]) (cases ow; auto simp: ns)
      qed
      then show ?thesis
        using guarded by (simp add: protected_def)
    qed
  qed auto
  then show thesis
    using list(3) ns by (intro that) auto
qed

lemma stack_ok_guard:
  assumes ok: "stack_ok N tp h objects doing pc ns xs taken" and t: "t < N"
    and step: "pc t = Pop_Guard c \<and> g = Some c \<and> p = Pop_Check c \<or> pc t = Pop_Retry \<and> p = Pop_Load \<or> (\<exists>m d. pc t = Pop_Unguard m d \<and> p = Pop_Retire m d)"
  shows "\<exists>h'. GuardPointer t 0 g h = Some h' \<and> stack_ok N tp h' objects doing (pc(t := p)) ns xs taken"
proof -
  obtain h' where h': "GuardPointer t 0 g h = Some h'" "hp_inv N 1 h'" "guards h' t = (guards h t)[0 := g]" "\<forall>u. u \<noteq> t \<longrightarrow> guards h' u = guards h u"
      "hs_pc h' = hs_pc h" "freeing h' = freeing h" "pending h' = pending h" "covered h' = covered h"
    using guard_pointer_ok[OF stack_ok_hp[OF ok] t, of 0 g] by auto
  have "length (guards h t) = 1"
    using entry_facts(2)[OF stack_ok_hp[OF ok] t] by (simp add: entry_shape_def guards_def)
  then have guard: "guards h' t ! 0 = g"
    by (simp add: h'(3))
  have "stack_ok N tp h' objects doing (pc(t := p)) ns xs taken"
  proof (rule stack_ok_stay[OF ok h'(2,7)])
    show "thread_ok N h' objects doing (pc(t := p)) ns taken t"
      using stack_ok_thread[OF ok, of t] step guard t by (auto simp: thread_ok_def stack_pc_ok_def h'(5,6) pool_doing_def)
  qed (use step h' in \<open>auto simp: protected_def\<close>)
  then show ?thesis
    using h'(1) by blast
qed

lemma stack_ok_retire:
  assumes ok: "stack_ok N tp h objects doing pc ns xs taken" and t: "t < N" "pc t = Pop_Retire m d"
  shows "\<exists>h'. EnqueuePointerForDeletion t m h = Some h' \<and> stack_ok N tp h' objects doing (pc(t := Pop_Reclaim d)) ns xs taken"
proof -
  have own: "owns N pc (pending h) ns (Popped_By t) m"
    using t(2) by simp
  note unique = stack_ok_unique[OF ok own]
  have hp: "hs_pc h t = Hp_Idle"
    using stack_ok_thread[OF ok, of t] t by (auto simp: thread_ok_def)
  have "\<forall>e < N. m \<notin> pending h e"
    using unique[of "Retired_By e" for e] by fastforce
  from enqueue_ok[OF stack_ok_hp[OF ok] t(1) hp this] obtain h' where
    h': "EnqueuePointerForDeletion t m h = Some h'" "hp_keeps N 1 t h h'" "freeing h' t = None" "hs_pc h' t \<noteq> Hp_Gone"
      "pending h' t = insert m (pending h t)" "\<forall>f. f \<noteq> t \<longrightarrow> pending h' f = pending h f"
    by blast
  have keeps: "hp_inv N 1 h'" "\<And>u. guards h' u = guards h u" "\<And>u. u \<noteq> t \<Longrightarrow> hs_pc h' u = hs_pc h u \<and> freeing h' u = freeing h u"
    "\<And>u c. u < N \<Longrightarrow> guards h u ! 0 = Some c \<Longrightarrow> hs_pc h u \<noteq> Hp_Gone \<Longrightarrow> covered h u 0 c \<Longrightarrow> covered h' u 0 c"
    using h'(2) by (simp_all add: hp_keeps_def)
  have list: "linked objects tp ns" "distinct ns" "xs = map (element_at objects) ns"
    using ok by (simp_all add: stack_ok_def)
  let ?pc = "pc(t := Pop_Reclaim d)"
  have "stack_ok N tp h' objects doing ?pc ns xs taken"
  proof (rule stack_ok_move[OF ok list keeps(1), where m = m and ow' = "Retired_By t"])
    show "n \<noteq> m \<and> owns N pc (pending h) ns ow n \<or> n = m \<and> ow = Retired_By t \<and> live objects m"
      if "owns N ?pc (pending h') ns ow n" for ow n
    proof -
      have "owns N pc (pending h) ns ow n \<and> (ow = Popped_By t \<longrightarrow> n \<noteq> m) \<or> n = m \<and> ow = Retired_By t"
        using that t h'(5,6) by (cases ow) (auto split: if_splits)
      then show ?thesis
        using unique[of ow] stack_ok_live[OF ok own] by (cases "n = m") auto
    qed
    show "owns N ?pc (pending h') ns ow n" if "owns N pc (pending h) ns ow n" "n \<noteq> m" for ow n
      using that t(2) h'(5,6) by (cases ow) auto
    show "owns N ?pc (pending h') ns (Retired_By t) m"
      using t(1) h'(5) by simp
    have "published N pc (pending h) ns m"
      using own unfolding published_def by (intro exI[of _ "Popped_By t"]) simp
    then show "\<exists>nxt. next_is objects m nxt"
      using ok by (simp add: stack_ok_def)
    show "new_node (pc u) \<noteq> Some m \<and> popped_node (pc u) \<noteq> Some m" if "u \<noteq> t" for u
      using unique[of "New_Of u"] unique[of "Popped_By u"] that by auto
    show "thread_ok N h' objects doing ?pc ns taken t"
      using stack_ok_thread[OF ok, of t] t hp h'(3,4) by (auto simp: thread_ok_def stack_pc_ok_def pool_doing_def freeing_def)
    show "covered h' u 0 c \<and> published N ?pc (pending h') ns c \<and> objects ! c = objects ! c"
      if u: "u \<noteq> t" "u < N" and guarded: "protected N h pc ns u c" for u c
    proof -
      obtain ow where ow: "owns N pc (pending h) ns ow c" "\<forall>t. ow \<noteq> New_Of t"
        using guarded by (auto simp: protected_def published_def)
      have "published N ?pc (pending h') ns c"
      proof (cases "c = m")
        case True
        then show ?thesis
          unfolding published_def using t(1) h'(5) by (intro exI[of _ "Retired_By t"]) simp
      next
        case False
        then show ?thesis
          unfolding published_def using ow t(2) h'(5,6) by (intro exI[of _ ow]) (cases ow; auto)
      qed
      then show ?thesis
        using guarded keeps(4) u stack_ok_thread[OF ok, of u] by (auto simp: protected_def thread_ok_def)
    qed
  qed (use keeps in auto)
  then show ?thesis
    using h'(1) by blast
qed

lemma stack_ok_finish:
  assumes ok: "stack_ok N tp h objects doing pc ns xs taken" and t: "t < N" "pc t = Pop_Reclaim d" "hs_pc h t = Hp_Idle"
  shows "stack_ok N tp h objects doing (pc(t := Stack_Idle)) ns xs (taken(t := None))" "taken t = Some d"
proof -
  have me: "thread_ok N h objects doing pc ns taken t"
    using stack_ok_thread[OF ok] .
  then show "taken t = Some d"
    using t by (simp add: thread_ok_def stack_pc_ok_def)
  show "stack_ok N tp h objects doing (pc(t := Stack_Idle)) ns xs (taken(t := None))"
  proof (rule stack_ok_stay[OF ok stack_ok_hp[OF ok] refl])
    show "thread_ok N h objects doing (pc(t := Stack_Idle)) ns (taken(t := None)) t"
      using me t by (auto simp: thread_ok_def stack_pc_ok_def pool_doing_def)
  qed (use t in \<open>auto simp: protected_def\<close>)
qed

text \<open>Turns of a scan that do not begin to free a node.\<close>

lemma stack_ok_scan:
  assumes ok: "stack_ok N tp h objects doing pc ns xs taken" and t: "t < N" "pc t = Pop_Reclaim d" and keeps: "hp_keeps N 1 t h h'"
    and gone: "hs_pc h' t \<noteq> Hp_Gone" and pending: "pending h' = pending h" and doing: "doing' t = map_option Free_Object (freeing h' t)" "\<And>u. u \<noteq> t \<Longrightarrow> doing' u = doing u"
  shows "stack_ok N tp h' objects doing' (pc(t := Pop_Reclaim d)) ns xs taken"
proof (rule stack_ok_stay[OF ok _ pending])
  show "thread_ok N h' objects doing' (pc(t := Pop_Reclaim d)) ns taken t"
    using stack_ok_thread[OF ok, of t] t gone doing(1) by (auto simp: thread_ok_def stack_pc_ok_def pool_doing_def)
  show "covered h' u 0 c" if "u \<noteq> t" "u < N" "protected N h pc ns u c" for u c
    using that keeps stack_ok_thread[OF ok, of u] by (auto simp: protected_def thread_ok_def hp_keeps_def)
qed (use t keeps doing(2) in \<open>auto simp: hp_keeps_def\<close>)

text \<open>The turn that frees a node.\<close>

lemma stack_ok_free:
  assumes ok: "stack_ok N tp h objects doing pc ns xs taken" and t: "t < N" "pc t = Pop_Reclaim d" and keeps: "hp_keeps N 1 t h h'"
    and gone: "hs_pc h' t \<noteq> Hp_Gone" and e: "e < N" "g \<in> pending h e" "pending h' = (pending h)(e := pending h e - {g})"
    and free: "\<forall>t' pos. t' < N \<and> pos < 1 \<and> guards h t' ! pos = Some g \<and> hs_pc h t' \<noteq> Hp_Gone \<longrightarrow> \<not> covered h t' pos g"
    and doing: "doing' t = map_option Free_Object (freeing h' t)" "\<And>u. u \<noteq> t \<Longrightarrow> doing' u = doing u"
  shows "stack_ok N tp h' (objects[g := None]) doing' (pc(t := Pop_Reclaim d)) ns xs taken"
proof -
  have own: "owns N pc (pending h) ns (Retired_By e) g"
    using e by simp
  note unique = stack_ok_unique[OF ok own]
  let ?objects = "objects[g := None]" and ?pc = "pc(t := Pop_Reclaim d)"
  have "g \<notin> set ns"
    using unique[of In_List] by auto
  then have eq: "\<And>n. n \<in> set ns \<Longrightarrow> ?objects ! n = objects ! n"
    by (metis nth_list_update_neq)
  have list: "linked objects tp ns" "distinct ns" "xs = map (element_at objects) ns"
    using ok by (simp_all add: stack_ok_def)
  have inv: "hp_inv N 1 h'"
    using keeps by (simp add: hp_keeps_def)
  have own': "n \<noteq> g \<and> owns N pc (pending h) ns ow n \<longleftrightarrow> owns N ?pc (pending h') ns ow n" for ow n
  proof (cases "n = g")
    case True
    have "\<not> owns N ?pc (pending h') ns ow g"
    proof
      assume "owns N ?pc (pending h') ns ow g"
      then have "owns N pc (pending h) ns ow g" "ow \<noteq> Retired_By e"
        using t(2) by (cases ow; simp add: e(3) split: if_splits)+
      then show False
        using unique by blast
    qed
    then show ?thesis
      using True by simp
  next
    case False
    then show ?thesis
      using t(2) by (cases ow) (auto simp: e(3))
  qed
  show ?thesis
  proof (rule stack_ok_move[OF ok _ list(2) _ inv, where m = g and ow' = "New_Of t"])
    show "linked ?objects tp ns" "xs = map (element_at ?objects) ns"
      using list linked_cong[OF eq] map_element_cong[OF eq] by simp_all
    show "n \<noteq> g \<and> owns N pc (pending h) ns ow n \<or> n = g \<and> ow = New_Of t \<and> live ?objects g" if "owns N ?pc (pending h') ns ow n" for ow n
      using that own'[of n ow] by simp
    show "owns N ?pc (pending h') ns ow n" if "owns N pc (pending h) ns ow n" "n \<noteq> g" for ow n
      using that own'[of n ow] by simp
    show "owns N ?pc (pending h') ns (New_Of t) g" if "live ?objects g"
      using that by (cases "g < length objects") (simp_all add: live_def)
    show "new_node (pc u) \<noteq> Some g \<and> popped_node (pc u) \<noteq> Some g" for u
      using unique[of "New_Of u"] unique[of "Popped_By u"] by auto
    show "thread_ok N h' ?objects doing' ?pc ns taken t"
      using stack_ok_thread[OF ok, of t] t gone doing(1) by (auto simp: thread_ok_def stack_pc_ok_def pool_doing_def)
    show "covered h' u 0 c \<and> published N ?pc (pending h') ns c \<and> ?objects ! c = objects ! c"
      if u: "u \<noteq> t" "u < N" and guarded: "protected N h pc ns u c" for u c
    proof -
      have u': "hs_pc h u \<noteq> Hp_Gone"
        using stack_ok_thread[OF ok, of u] by (simp add: thread_ok_def)
      then have "c \<noteq> g"
        using free u(2) guarded by (auto simp: protected_def)
      moreover obtain ow where "owns N pc (pending h) ns ow c" "\<forall>t. ow \<noteq> New_Of t"
        using guarded by (auto simp: protected_def published_def)
      moreover have "covered h' u 0 c"
        using guarded u(2) u' keeps by (simp add: protected_def hp_keeps_def)
      ultimately show ?thesis
        using own' by (auto simp: published_def)
    qed
  qed (use keeps doing(2) in \<open>auto simp: hp_keeps_def\<close>)
qed

section \<open>The stack over an object pool\<close>

context object_pool_client
begin

abbreviation pool_ok :: "nat \<Rightarrow> ('s, 'a LockFreeStackNode) object_system \<Rightarrow> bool" where
  "pool_ok capacity \<equiv> object_inv inv vals phase capacity"

abbreviation node_turn :: "('s, 'a) node_pool_turn" where
  "node_turn \<equiv> object_turn turn idle"

text \<open>A turn of the stack is defined, is allowed by the sequential stack, and keeps the invariant.\<close>

definition good_stack_turn :: "nat \<Rightarrow> nat \<Rightarrow> 'a list \<Rightarrow> (nat \<Rightarrow> 'a option) \<Rightarrow> ('a stack_event \<times> ('s, 'a) stack_system) option \<Rightarrow> bool" where
  "good_stack_turn capacity t xs taken r \<longleftrightarrow> (\<exists>ev s' xs' taken'. r = Some (ev, s') \<and> spec_turn t ev (xs, taken) = Some (xs', taken') \<and> stack_inv (pool_ok capacity) threads s' xs' taken')"

lemma good_stack_turnI:
  "r = Some (ev, s') \<Longrightarrow> spec_turn t ev (xs, taken) = Some (xs', taken') \<Longrightarrow> pool_ok capacity (ss_pool s') \<Longrightarrow>
   stack_ok threads (ss_top s') (ss_hazard s') (nodes s') (os_doing (ss_pool s')) (ss_pc s') ns xs' taken' \<Longrightarrow> good_stack_turn capacity t xs taken r"
  unfolding good_stack_turn_def stack_inv_def by blast

lemma allocate_good:
  assumes pool: "pool_ok capacity (ss_pool s)" and ok: "stack_ok threads (ss_top s) (ss_hazard s) (nodes s) (os_doing (ss_pool s)) (ss_pc s) ns xs taken"
    and t: "t < threads" "ss_pc s t = Stack_Idle \<or> ss_pc s t = Push_Allocate x"
  shows "good_stack_turn capacity t xs taken (push_allocate node_turn t x s)"
proof -
  let ?request = "Allocate_Object (LockFreeStackNode_new x)"
  have me: "os_doing (ss_pool s) t = None \<or> os_doing (ss_pool s) t = Some ?request" "hs_pc (ss_hazard s) t = Hp_Idle" "freeing (ss_hazard s) t = None"
    using stack_ok_thread[OF ok, of t] t by (auto simp: thread_ok_def pool_doing_def freeing_def)
  obtain ev pool' where p: "node_turn t ?request (ss_pool s) = Some (ev, pool')" "pool_ok capacity pool'" "\<forall>u. u \<noteq> t \<longrightarrow> os_doing pool' u = os_doing (ss_pool s) u"
    "(\<exists>i. ev = Object_Created i \<and> i < capacity \<and> nodes s ! i = None \<and> op_objects (os_that pool') = (nodes s)[i := Some (LockFreeStackNode_new x)] \<and> os_doing pool' t = None) \<or>
      (ev = Object_Null \<and> op_objects (os_that pool') = nodes s \<and> os_doing pool' t = None) \<or>
      (ev = Object_Internal \<and> op_objects (os_that pool') = nodes s \<and> os_doing pool' t = Some ?request)"
    using allocate_turn[OF pool t(1) me(1)] by blast
  have stay: "stack_ok threads (ss_top s) (ss_hazard s) (nodes s) (os_doing pool') ((ss_pc s)(t := pc)) ns xs taken"
    if "pc = Stack_Idle \<and> os_doing pool' t = None \<or> pc = Push_Allocate x \<and> os_doing pool' t = Some ?request" for pc
  proof (rule stack_ok_stay[OF ok stack_ok_hp[OF ok] refl])
    show "thread_ok threads (ss_hazard s) (nodes s) (os_doing pool') ((ss_pc s)(t := pc)) ns taken t"
      using that me t(1) by (auto simp: thread_ok_def stack_pc_ok_def pool_doing_def)
  qed (use that t p(3) in \<open>auto simp: protected_def\<close>)
  show ?thesis
    using p(4)
  proof (elim disjE exE conjE)
    fix i assume i: "ev = Object_Created i" "i < capacity" "nodes s ! i = None" "op_objects (os_that pool') = (nodes s)[i := Some (LockFreeStackNode_new x)]" "os_doing pool' t = None"
    have "stack_ok threads (ss_top s) (ss_hazard s) ((nodes s)[i := Some (LockFreeStackNode_new x)]) (os_doing pool') ((ss_pc s)(t := Push_Load i)) ns xs taken"
      using object_inv_length[OF pool] i p(3) t by (intro stack_ok_create[OF ok]) auto
    then show ?thesis
      using p(1,2) i by (intro good_stack_turnI[where ev = Stack_Quiet and ns = ns and s' = "stack_goto t (Push_Load i) (s\<lparr>ss_pool := pool'\<rparr>)"])
        (simp_all add: push_allocate_def stack_goto_def)
  next
    assume "ev = Object_Null" "op_objects (os_that pool') = nodes s" "os_doing pool' t = None"
    then show ?thesis
      using p(1,2) stay[of Stack_Idle] by (intro good_stack_turnI[where ev = Push_Full and ns = ns and s' = "stack_goto t Stack_Idle (s\<lparr>ss_pool := pool'\<rparr>)"])
        (simp_all add: push_allocate_def stack_goto_def)
  next
    assume "ev = Object_Internal" "op_objects (os_that pool') = nodes s" "os_doing pool' t = Some ?request"
    then show ?thesis
      using p(1,2) stay[of "Push_Allocate x"] by (intro good_stack_turnI[where ev = Stack_Quiet and ns = ns and s' = "stack_goto t (Push_Allocate x) (s\<lparr>ss_pool := pool'\<rparr>)"])
        (simp_all add: push_allocate_def stack_goto_def)
  qed
qed

lemma finish_good:
  assumes "pool_ok capacity (ss_pool s)" "stack_ok threads (ss_top s) (ss_hazard s) (nodes s) (os_doing (ss_pool s)) ((ss_pc s)(t := Pop_Reclaim d)) ns xs taken" "t < threads"
  shows "good_stack_turn capacity t xs taken (Some (pop_finish t d s))"
proof (cases "hs_pc (ss_hazard s) t = Hp_Idle")
  case True
  then show ?thesis
    using assms(1) stack_ok_finish[OF assms(2,3) _ True]
    by (intro good_stack_turnI[where ev = "Popped d" and ns = ns and s' = "stack_goto t Stack_Idle s"]) (simp_all add: pop_finish_def stack_goto_def)
next
  case False
  then show ?thesis
    using assms by (intro good_stack_turnI[where ev = Stack_Quiet and ns = ns and s' = "stack_goto t (Pop_Reclaim d) s"]) (simp_all add: pop_finish_def stack_goto_def)
qed

lemma reclaim_good:
  fixes s :: "('s, 'a) stack_system"
  assumes pool: "pool_ok capacity (ss_pool s)" and ok: "stack_ok threads (ss_top s) (ss_hazard s) (nodes s) (os_doing (ss_pool s)) (ss_pc s) ns xs taken"
    and t: "t < threads" "ss_pc s t = Pop_Reclaim d" "hs_pc (ss_hazard s) t \<noteq> Hp_Idle"
  shows "good_stack_turn capacity t xs taken (TryPop node_turn t (ss_pc s t) s)"
proof -
  define h w where "h = ss_hazard s" and "w = ss_pool s"
  define f :: "nat \<Rightarrow> nat \<Rightarrow> ('s, 'a LockFreeStackNode) object_system \<Rightarrow> (bool \<times> ('s, 'a LockFreeStackNode) object_system) option"
    where "f = DeletePointerCallback node_turn"
  have me: "os_doing w t = map_option Free_Object (freeing h t)" "hs_pc h t \<noteq> Hp_Gone"
    using stack_ok_thread[OF ok, of t] t by (auto simp: thread_ok_def pool_doing_def h_def w_def)
  have eq: "TryPop node_turn t (ss_pc s t) s = (case hp_turn f t h w of None \<Rightarrow> None | Some (h', pool') \<Rightarrow> Some (pop_finish t d (s\<lparr>ss_hazard := h', ss_pool := pool'\<rparr>)))"
    by (simp add: TryPop_def t(2) h_def w_def f_def split: option.splits)
  have gone: "hs_pc h' t \<noteq> Hp_Gone" if "hp_turn f t h w = Some (h', w')" for h' w'
    using hp_turn_not_gone[OF that me(2)] .
  have good: "good_stack_turn capacity t xs taken (TryPop node_turn t (ss_pc s t) s)"
    if "hp_turn f t h w = Some (h', w')" "pool_ok capacity w'"
      "stack_ok threads (ss_top s) h' (op_objects (os_that w')) (os_doing w') ((ss_pc s)(t := Pop_Reclaim d)) ns xs taken" for h' w'
    using finish_good[of capacity "s\<lparr>ss_hazard := h', ss_pool := w'\<rparr>" t d ns xs taken] that t(1) by (simp add: eq)
  have "hp_outcome threads 1 f t h w (hp_turn f t h w)"
    using hp_turn_ok[OF stack_ok_hp[OF ok] t(1,3)] me(2) by (simp add: h_def)
  then consider (quiet) h' where "hp_turn f t h w = Some (h', w)" "hp_keeps threads 1 t h h'" "pending h' = pending h" "freeing h t = None" "freeing h' t = None"
    | (frees) g h' e where "hp_turn f t h w = (case f t g w of None \<Rightarrow> None | Some (over, w') \<Rightarrow> Some (h' over, w'))"
        "\<forall>over. hp_keeps threads 1 t h (h' over) \<and> freeing (h' over) t = (if over then None else Some g)" "freeing h t = None"
        "e < threads" "g \<in> pending h e" "\<forall>over. pending (h' over) = (pending h)(e := pending h e - {g})"
        "\<forall>t' pos. t' < threads \<and> pos < 1 \<and> guards h t' ! pos = Some g \<and> hs_pc h t' \<noteq> Hp_Gone \<longrightarrow> \<not> covered h t' pos g"
    | (rest) g h' where "hp_turn f t h w = (case f t g w of None \<Rightarrow> None | Some (over, w') \<Rightarrow> Some (h' over, w'))"
        "\<forall>over. hp_keeps threads 1 t h (h' over) \<and> freeing (h' over) t = (if over then None else Some g)" "freeing h t = Some g" "\<forall>over. pending (h' over) = pending h"
    unfolding hp_outcome_def by (elim disjE exE conjE) (rule that; assumption)+
  then show ?thesis
  proof cases
    case quiet
    have "stack_ok threads (ss_top s) h' (nodes s) (os_doing w) ((ss_pc s)(t := Pop_Reclaim d)) ns xs taken"
      by (rule stack_ok_scan[OF ok t(1,2) quiet(2)[unfolded h_def]]) (use quiet me gone in \<open>simp_all add: h_def w_def\<close>)
    then show ?thesis
      using good[OF quiet(1)] pool by (simp add: w_def)
  next
    case frees
    note e = frees(4-7)
    have "live (nodes s) g"
      using stack_ok_live[OF ok, of "Retired_By e" g] e(1,2) by (simp add: h_def)
    then have g: "g < capacity" "op_objects (os_that w) ! g \<noteq> None"
      using object_inv_length[OF pool] by (simp_all add: live_def w_def)
    have "os_doing w t = None"
      using me(1) frees(3) by simp
    from free_turn[OF pool[folded w_def] t(1) this g] obtain w' where
      w': "node_turn t (Free_Object g) w = Some (Object_Freed g, w')" "pool_ok capacity w'" "\<forall>u. u \<noteq> t \<longrightarrow> os_doing w' u = os_doing w u"
        "op_objects (os_that w') = (op_objects (os_that w))[g := None]" "os_doing w' t = None \<or> os_doing w' t = Some (Free_Object g)"
      by blast
    define h'' where "h'' = h' (os_doing w' t = None)"
    have turn: "hp_turn f t h w = Some (h'', w')"
      using frees(1) w'(1) by (simp add: f_def DeletePointerCallback_def h''_def)
    have "stack_ok threads (ss_top s) h'' ((nodes s)[g := None]) (os_doing w') ((ss_pc s)(t := Pop_Reclaim d)) ns xs taken"
      by (rule stack_ok_free[OF ok t(1,2) _ gone[OF turn] e(1) e(2)[unfolded h_def] _ e(4)[unfolded h_def]])
        (use frees(2) e(3) w'(3,5) in \<open>auto simp: h''_def h_def w_def\<close>)
    then show ?thesis
      using good[OF turn w'(2)] w'(4) by (simp add: w_def)
  next
    case rest
    have "os_doing w t = Some (Free_Object g)"
      using me(1) rest(3) by simp
    from free_rest_turn[OF pool[folded w_def] t(1) this] obtain w' where
      w': "node_turn t (Free_Object g) w = Some (Object_Internal, w')" "pool_ok capacity w'" "\<forall>u. u \<noteq> t \<longrightarrow> os_doing w' u = os_doing w u"
        "op_objects (os_that w') = op_objects (os_that w)" "os_doing w' t = None \<or> os_doing w' t = Some (Free_Object g)"
      by blast
    define h'' where "h'' = h' (os_doing w' t = None)"
    have turn: "hp_turn f t h w = Some (h'', w')"
      using rest(1) w'(1) by (simp add: f_def DeletePointerCallback_def h''_def)
    have "stack_ok threads (ss_top s) h'' (nodes s) (os_doing w') ((ss_pc s)(t := Pop_Reclaim d)) ns xs taken"
      by (rule stack_ok_scan[OF ok t(1,2) _ gone[OF turn]]) (use rest(2,4) w'(3,5) in \<open>auto simp: h''_def h_def w_def\<close>)
    then show ?thesis
      using good[OF turn w'(2)] w'(4) by (simp add: w_def)
  qed
qed

text \<open>Turns that do not touch the pool and leave all nodes where they are.\<close>

lemma stay_good:
  assumes pool: "pool_ok capacity (ss_pool s)" and ok: "stack_ok threads (ss_top s) (ss_hazard s) (nodes s) (os_doing (ss_pool s)) (ss_pc s) ns xs taken"
    and p: "new_node p = new_node (ss_pc s t)" "popped_node p = popped_node (ss_pc s t)" and r: "r = Some (ev, stack_goto t p s)"
    and spec: "spec_turn t ev (xs, taken) = Some (xs, taken)"
    and me: "thread_ok threads (ss_hazard s) (nodes s) (os_doing (ss_pool s)) ((ss_pc s)(t := p)) ns taken t"
  shows "good_stack_turn capacity t xs taken r"
proof -
  have "stack_ok threads (ss_top s) (ss_hazard s) (nodes s) (os_doing (ss_pool s)) ((ss_pc s)(t := p)) ns xs taken"
    by (rule stack_ok_stay[OF ok stack_ok_hp[OF ok] refl p me]) (auto simp: protected_def)
  then show ?thesis
    using pool spec by (intro good_stack_turnI[OF r, where ns = ns]) (simp_all add: stack_goto_def)
qed

lemma node_at_live: "live (nodes s) n \<Longrightarrow> \<exists>node. node_at n s = Some node \<and> nodes s ! n = Some node"
  by (auto simp: live_def node_at_def)

text \<open>All turns of a thread that is not idle, one by one.\<close>

lemma push_good:
  assumes pool: "pool_ok capacity (ss_pool s)" and ok: "stack_ok threads (ss_top s) (ss_hazard s) (nodes s) (os_doing (ss_pool s)) (ss_pc s) ns xs taken"
    and t: "t < threads" "ss_pc s t = pc" and pc: "(\<exists>x. pc = Push_Allocate x) \<or> new_node pc \<noteq> None"
  shows "good_stack_turn capacity t xs taken (TryPush node_turn t pc s)"
proof -
  note me = stack_ok_thread[OF ok, of t]
  show ?thesis
  proof (cases pc)
    case (Push_Allocate x)
    then show ?thesis
      using allocate_good[OF pool ok t(1)] t(2) by (simp add: TryPush_def)
  next
    case (Push_Load m)
    show ?thesis
      by (rule stay_good[OF pool ok, where p = "Push_Link m (ss_top s)" and ev = Stack_Quiet])
        (use me t Push_Load in \<open>auto simp: TryPush_def thread_ok_def stack_pc_ok_def pool_doing_def\<close>)
  next
    case (Push_Link m c)
    have "live (nodes s) m"
      using stack_ok_live[OF ok, of "New_Of t" m] t(2) Push_Link by simp
    then obtain node where node: "node_at m s = Some node" "nodes s ! m = Some node" "m < length (nodes s)"
      using node_at_live by (auto simp: live_def)
    define s' where "s' = s\<lparr>ss_pool := (ss_pool s)\<lparr>os_that := (os_that (ss_pool s))\<lparr>op_objects := (nodes s)[m := Some (node\<lparr>sn_next := Some c\<rparr>)]\<rparr>\<rparr>\<rparr>"
    have "TryPush node_turn t pc s = Some (Stack_Quiet, stack_goto t (Push_Swap m c) s')"
      using Push_Link node by (simp add: TryPush_def SetNext_def s'_def)
    moreover have sel: "ss_top s' = ss_top s" "ss_hazard s' = ss_hazard s" "ss_pc s' = ss_pc s" "os_doing (ss_pool s') = os_doing (ss_pool s)"
        "nodes s' = (nodes s)[m := Some (node\<lparr>sn_next := Some c\<rparr>)]"
      by (simp_all add: s'_def)
    moreover have "pool_ok capacity (ss_pool s')"
      using write_object[OF pool, of m] node by (simp add: s'_def)
    moreover have "stack_ok threads (ss_top s) (ss_hazard s) ((nodes s)[m := Some (node\<lparr>sn_next := Some c\<rparr>)]) (os_doing (ss_pool s)) ((ss_pc s)(t := Push_Swap m c)) ns xs taken"
      using stack_ok_set_next[OF ok t(1) _ node(2)] t(2) Push_Link by simp
    ultimately show ?thesis
      by (intro good_stack_turnI[where ev = Stack_Quiet and ns = ns and s' = "stack_goto t (Push_Swap m c) s'" and xs' = xs and taken' = taken]) (simp_all add: stack_goto_def sel)
  next
    case (Push_Swap m c)
    have "live (nodes s) m"
      using stack_ok_live[OF ok, of "New_Of t" m] t(2) Push_Swap by simp
    then obtain node where node: "node_at m s = Some node" "nodes s ! m = Some node"
      using node_at_live by blast
    show ?thesis
    proof (cases "ss_top s = c")
      case True
      have "TryPush node_turn t pc s = Some (Pushed (element_at (nodes s) m), stack_goto t Stack_Idle (s\<lparr>ss_top := Some m\<rparr>))"
        using True Push_Swap node by (simp add: TryPush_def GetElement_def element_at_def)
      moreover have "stack_ok threads (Some m) (ss_hazard s) (nodes s) (os_doing (ss_pool s)) ((ss_pc s)(t := Stack_Idle)) (m # ns) (element_at (nodes s) m # xs) taken"
        using stack_ok_push[OF ok t(1), of m] t(2) Push_Swap True by simp
      ultimately show ?thesis
        using pool by (intro good_stack_turnI[where ev = "Pushed (element_at (nodes s) m)" and s' = "stack_goto t Stack_Idle (s\<lparr>ss_top := Some m\<rparr>)" and ns = "m # ns" and xs' = "element_at (nodes s) m # xs" and taken' = taken]) (simp_all add: stack_goto_def)
    next
      case False
      then show ?thesis
        by (intro stay_good[OF pool ok, where p = "Push_Load m" and ev = Stack_Quiet])
          (use me t Push_Swap in \<open>auto simp: TryPush_def thread_ok_def stack_pc_ok_def pool_doing_def\<close>)
    qed
  qed (use pc in auto)
qed

lemma guard_good:
  assumes pool: "pool_ok capacity (ss_pool s)" and ok: "stack_ok threads (ss_top s) (ss_hazard s) (nodes s) (os_doing (ss_pool s)) (ss_pc s) ns xs taken" and t: "t < threads"
    and step: "ss_pc s t = Pop_Guard c \<and> g = Some c \<and> p = Pop_Check c \<or> ss_pc s t = Pop_Retry \<and> p = Pop_Load \<or> (\<exists>m d. ss_pc s t = Pop_Unguard m d \<and> p = Pop_Retire m d)"
  shows "good_stack_turn capacity t xs taken (do { h \<leftarrow> GuardPointer t 0 g (ss_hazard s); Some (Stack_Quiet, stack_goto t p (s\<lparr>ss_hazard := h\<rparr>)) })"
proof -
  obtain h' where h': "GuardPointer t 0 g (ss_hazard s) = Some h'" "stack_ok threads (ss_top s) h' (nodes s) (os_doing (ss_pool s)) ((ss_pc s)(t := p)) ns xs taken"
    using stack_ok_guard[OF ok t step] by blast
  then show ?thesis
    using pool by (intro good_stack_turnI[where ev = Stack_Quiet and ns = ns and s' = "stack_goto t p (s\<lparr>ss_hazard := h'\<rparr>)"]) (simp_all add: stack_goto_def)
qed

lemma pop_good:
  assumes pool: "pool_ok capacity (ss_pool s)" and ok: "stack_ok threads (ss_top s) (ss_hazard s) (nodes s) (os_doing (ss_pool s)) (ss_pc s) ns xs taken"
    and t: "t < threads" "ss_pc s t = pc" and pc: "pc \<noteq> Stack_Idle" "\<forall>x. pc \<noteq> Push_Allocate x" "new_node pc = None"
  shows "good_stack_turn capacity t xs taken (TryPop node_turn t pc s)"
proof -
  note me = stack_ok_thread[OF ok, of t]
  have list: "linked (nodes s) (ss_top s) ns" "xs = map (element_at (nodes s)) ns" "\<And>n. published threads (ss_pc s) (pending (ss_hazard s)) ns n \<Longrightarrow> \<exists>nxt. next_is (nodes s) n nxt"
    using ok by (simp_all add: stack_ok_def)
  show ?thesis
  proof (cases pc)
    case Pop_Load
    show ?thesis
    proof (cases "ss_top s")
      case None
      then have "xs = []"
        using list by (cases ns) auto
      then show ?thesis
        by (intro stay_good[OF pool ok, where p = Stack_Idle and ev = Pop_Empty])
          (use me t Pop_Load None in \<open>auto simp: TryPop_def thread_ok_def stack_pc_ok_def pool_doing_def\<close>)
    next
      case (Some c)
      then show ?thesis
        by (intro stay_good[OF pool ok, where p = "Pop_Guard c" and ev = Stack_Quiet])
          (use me t Pop_Load in \<open>auto simp: TryPop_def thread_ok_def stack_pc_ok_def pool_doing_def\<close>)
    qed
  next
    case (Pop_Guard c)
    then show ?thesis
      using guard_good[OF pool ok t(1), of c "Some c" "Pop_Check c"] t(2) by (simp add: TryPop_def)
  next
    case (Pop_Check c)
    have "protected threads (ss_hazard s) ((ss_pc s)(t := Pop_Next c)) ns t c" if "ss_top s = Some c"
    proof -
      have own: "owns threads (ss_pc s) (pending (ss_hazard s)) ns In_List c"
        using list(1) that by (cases ns) auto
      have free: "c \<notin> pending (ss_hazard s) e" if "e < threads" for e
        using stack_ok_unique[OF ok own, of "Retired_By e"] that by auto
      have "covered (ss_hazard s) t 0 c"
        by (rule covered_if_not_pending[OF stack_ok_hp[OF ok]]) (use free in blast)
      moreover have "published threads ((ss_pc s)(t := Pop_Next c)) (pending (ss_hazard s)) ns c"
        unfolding published_def using own by (intro exI[of _ In_List]) simp
      ultimately show ?thesis
        using me t Pop_Check by (simp add: protected_def thread_ok_def stack_pc_ok_def)
    qed
    then show ?thesis
      by (intro stay_good[OF pool ok, where p = "if ss_top s \<noteq> Some c then Pop_Load else Pop_Next c" and ev = Stack_Quiet])
        (use me t Pop_Check in \<open>auto simp: TryPop_def thread_ok_def stack_pc_ok_def pool_doing_def\<close>)
  next
    case (Pop_Next c)
    have prot: "protected threads (ss_hazard s) (ss_pc s) ns t c"
      using me t Pop_Next by (simp add: thread_ok_def stack_pc_ok_def)
    then obtain nxt where nxt: "next_is (nodes s) c nxt"
      using list(3) by (auto simp: protected_def)
    have "owns threads ((ss_pc s)(t := Pop_Swap c nxt)) (pending (ss_hazard s)) ns ow n \<longleftrightarrow> owns threads (ss_pc s) (pending (ss_hazard s)) ns ow n" for ow n
      using t(2) Pop_Next by (cases ow) auto
    then have "protected threads (ss_hazard s) ((ss_pc s)(t := Pop_Swap c nxt)) ns t c"
      using prot by (simp add: protected_def published_def)
    moreover have "GetNext c s = Some nxt"
      using nxt by (auto simp: GetNext_def node_at_def next_is_def)
    ultimately show ?thesis
      by (intro stay_good[OF pool ok, where p = "Pop_Swap c nxt" and ev = Stack_Quiet])
        (use me t Pop_Next nxt in \<open>auto simp: TryPop_def thread_ok_def stack_pc_ok_def pool_doing_def\<close>)
  next
    case (Pop_Swap c nxt)
    show ?thesis
    proof (cases "ss_top s = Some c")
      case True
      obtain x xs' ns' where pop: "xs = x # xs'"
          "stack_ok threads nxt (ss_hazard s) (nodes s) (os_doing (ss_pool s)) ((ss_pc s)(t := Pop_Element c)) ns' xs' (taken(t := Some x))"
        using stack_ok_pop[OF ok[unfolded True] t(1), of nxt] t(2) Pop_Swap by blast
      then show ?thesis
        using pool True Pop_Swap by (intro good_stack_turnI[where ev = Pop_Takes_Effect and ns = ns' and s' = "stack_goto t (Pop_Element c) (s\<lparr>ss_top := nxt\<rparr>)"])
          (simp_all add: TryPop_def stack_goto_def)
    next
      case False
      then show ?thesis
        by (intro stay_good[OF pool ok, where p = Pop_Retry and ev = Stack_Quiet])
          (use me t Pop_Swap in \<open>auto simp: TryPop_def thread_ok_def stack_pc_ok_def pool_doing_def\<close>)
    qed
  next
    case Pop_Retry
    then show ?thesis
      using guard_good[OF pool ok t(1), of 0 None Pop_Load] t(2) by (simp add: TryPop_def)
  next
    case (Pop_Element c)
    have "live (nodes s) c"
      using stack_ok_live[OF ok, of "Popped_By t" c] t(2) Pop_Element by simp
    then obtain node where node: "node_at c s = Some node" "nodes s ! c = Some node"
      using node_at_live by blast
    then have "GetElement c s = Some (element_at (nodes s) c)"
      by (simp add: GetElement_def element_at_def)
    then show ?thesis
      by (intro stay_good[OF pool ok, where p = "Pop_Unguard c (element_at (nodes s) c)" and ev = Stack_Quiet])
        (use me t Pop_Element in \<open>auto simp: TryPop_def thread_ok_def stack_pc_ok_def pool_doing_def\<close>)
  next
    case (Pop_Unguard c d)
    then show ?thesis
      using guard_good[OF pool ok t(1), of 0 None "Pop_Retire c d"] t(2) by (simp add: TryPop_def)
  next
    case (Pop_Retire c d)
    obtain h' where h': "EnqueuePointerForDeletion t c (ss_hazard s) = Some h'"
        "stack_ok threads (ss_top s) h' (nodes s) (os_doing (ss_pool s)) ((ss_pc s)(t := Pop_Reclaim d)) ns xs taken"
      using stack_ok_retire[OF ok t(1), of c d] t(2) Pop_Retire by blast
    then show ?thesis
      using finish_good[of capacity "s\<lparr>ss_hazard := h'\<rparr>" t d ns xs taken] pool t(1) Pop_Retire by (simp add: TryPop_def)
  next
    case (Pop_Reclaim d)
    show ?thesis
    proof (cases "hs_pc (ss_hazard s) t = Hp_Idle")
      case True
      then have "TryPop node_turn t pc s = Some (pop_finish t d s)"
        by (simp add: TryPop_def Pop_Reclaim hp_turn_def)
      then show ?thesis
        using finish_good[OF pool _ t(1), of d ns xs taken] ok t(2) Pop_Reclaim by (simp add: fun_upd_idem)
    next
      case False
      then show ?thesis
        using reclaim_good[OF pool ok t(1)] t(2) Pop_Reclaim by simp
    qed
  qed (use pc in auto)
qed

lemma stack_turn_good:
  assumes "stack_inv (pool_ok capacity) threads s xs taken" and t: "t < threads"
  shows "good_stack_turn capacity t xs taken (stack_turn node_turn t request s)"
proof -
  obtain ns where pool: "pool_ok capacity (ss_pool s)" and ok: "stack_ok threads (ss_top s) (ss_hazard s) (nodes s) (os_doing (ss_pool s)) (ss_pc s) ns xs taken"
    using assms(1) by (auto simp: stack_inv_def)
  show ?thesis
  proof (cases "ss_pc s t = Stack_Idle")
    case True
    have "good_stack_turn capacity t xs taken (Some (Stack_Quiet, stack_goto t Pop_Load s))"
      by (rule stay_good[OF pool ok, where p = Pop_Load and ev = Stack_Quiet])
        (use stack_ok_thread[OF ok, of t] t True in \<open>auto simp: thread_ok_def stack_pc_ok_def pool_doing_def\<close>)
    then show ?thesis
      using True allocate_good[OF pool ok t] by (cases request) (simp_all add: stack_turn_def)
  next
    case False
    then show ?thesis
      using push_good[OF pool ok t refl] pop_good[OF pool ok t refl] by (cases "ss_pc s t") (simp_all add: stack_turn_def)
  qed
qed

lemma stack_run_good:
  assumes "stack_inv (pool_ok capacity) threads s xs taken" "\<forall>(t, request) \<in> set schedule. t < threads"
  shows "\<exists>evs s' xs' taken'. stack_run node_turn schedule s = Some (evs, s') \<and> spec_run evs (xs, taken) = Some (xs', taken') \<and> stack_inv (pool_ok capacity) threads s' xs' taken'"
  using assms
proof (induction schedule arbitrary: s xs taken)
  case Nil
  then show ?case
    by auto
next
  case (Cons a schedule)
  obtain t request where a: "a = (t, request)"
    by fastforce
  obtain ev s1 xs1 taken1 where 1: "stack_turn node_turn t request s = Some (ev, s1)" "spec_turn t ev (xs, taken) = Some (xs1, taken1)"
      "stack_inv (pool_ok capacity) threads s1 xs1 taken1"
    using stack_turn_good[OF Cons.prems(1), of t request] Cons.prems(2) by (auto simp: a good_stack_turn_def)
  from Cons.IH[OF 1(3)] Cons.prems(2) show ?case
    using 1(1,2) by (auto simp: a)
qed

end

text \<open>The stack over the lock-free value pool, which is the default, and over the wait-free one.\<close>

lemma stack_start_inv:
  fixes s :: "('s, 'a) stack_system"
  assumes pool: "pool_ok (ss_pool s)" and N: "0 < N" and doing: "\<forall>t. os_doing (ss_pool s) t = None" "nodes s = replicate c None"
    and s: "ss_top s = None" "ss_hazard s = hp_start N 1" "ss_pc s = (\<lambda>_. Stack_Idle)"
  shows "stack_inv pool_ok N s [] (\<lambda>_. None)"
proof -
  note start = hp_start_ok[OF N zero_less_one s(2)]
  have "hs_pc (ss_hazard s) t = Hp_Idle" for t
    by (simp add: s hp_start_def)
  moreover have "\<not> owns N (ss_pc s) (pending (ss_hazard s)) [] ow n" for ow n
    using start(2) s(3) by (cases ow) auto
  ultimately have "stack_ok N None (ss_hazard s) (nodes s) (os_doing (ss_pool s)) (ss_pc s) [] [] (\<lambda>_. None)"
    using start(1) doing s(3) by (simp add: stack_ok_def live_def published_def thread_ok_def stack_pc_ok_def pool_doing_def freeing_def)
  then show ?thesis
    using pool s unfolding stack_inv_def by fastforce
qed

abbreviation tree_maker :: "bool list \<Rightarrow> bool tree_pool option" where
  "tree_maker r \<equiv> map_option (\<lambda>p. tree_start p r) (LockFreeTreeValuePool_new r)"

lemma tree_stack_start:
  assumes "LockFreeStack_new N tree_maker capacity = Some s0" "0 < N" "GetRetiredListMaxSize N 1 * N + capacity \<le> 2 ^ 29"
  shows "stack_inv (object_inv (tree_inv False N) tr_values tree_phase (GetRetiredListMaxSize N 1 * N + capacity)) N s0 [] (\<lambda>_. None)"
proof -
  let ?size = "GetRetiredListMaxSize N 1 * N + capacity"
  obtain pool where pool: "ObjectPool_new tree_maker ?size = Some pool"
      "s0 = \<lparr>ss_top = None, ss_hazard = hp_start N 1, ss_pool = object_start pool, ss_pc = (\<lambda>_. Stack_Idle)\<rparr>"
    using assms(1) by (auto simp: LockFreeStack_new_def bind_eq_Some_conv)
  have "0 < ?size"
    using assms(2) by (simp add: GetRetiredListMaxSize_def)
  note start = tree_objects_start[OF this assms(3) pool(1), of N]
  have "op_objects pool = replicate ?size None"
    using pool(1) by (auto simp: ObjectPool_new_def bind_eq_Some_conv)
  then show ?thesis
    using start assms(2) by (intro stack_start_inv) (simp_all add: pool(2) object_start_def)
qed

lemma array_stack_start:
  assumes "LockFreeStack_new N (\<lambda>r. Some (array_start r)) capacity = Some s0" "0 < N"
  shows "stack_inv (object_inv (array_inv False) ap_values array_phase (GetRetiredListMaxSize N 1 * N + capacity)) N s0 [] (\<lambda>_. None)"
proof -
  let ?size = "GetRetiredListMaxSize N 1 * N + capacity"
  obtain pool where pool: "ObjectPool_new (\<lambda>r. Some (array_start r)) ?size = Some pool"
      "s0 = \<lparr>ss_top = None, ss_hazard = hp_start N 1, ss_pool = object_start pool, ss_pc = (\<lambda>_. Stack_Idle)\<rparr>"
    using assms(1) by (auto simp: LockFreeStack_new_def bind_eq_Some_conv)
  note start = array_objects_start[OF pool(1)]
  have "op_objects pool = replicate ?size None"
    using pool(1) by (auto simp: ObjectPool_new_def)
  then show ?thesis
    using start assms(2) by (intro stack_start_inv) (simp_all add: pool(2) object_start_def)
qed

section \<open>How many elements fit\<close>

text \<open>If a node can not be had although no other thread is busy, then each node is in the list or on a retired list.\<close>

lemma tree_null_all_live:
  assumes inv: "object_inv (tree_inv False N) tr_values tree_phase slots s" and t: "t < N"
    and null: "object_turn (tree_turn False) tree_idle t (Allocate_Object x) s = Some (Object_Null, s')" "os_doing s t = None \<or> os_doing s t = Some (Allocate_Object x)"
    and idle: "\<forall>u. u \<noteq> t \<longrightarrow> os_doing s u = None" and n: "n < slots"
  shows "op_objects (os_that s) ! n \<noteq> None"
proof -
  define that p where "that = os_that s" and "p = op_p that"
  obtain held where held: "tree_inv False N held p" "tr_values p = returning_true slots" "slots_ok slots held (op_objects that)"
      "\<forall>t. doing_ok (tree_phase t p) (os_doing s t)"
    using inv by (auto simp: object_inv_def that_def p_def)
  have "object_allocate (tree_turn False) t x s = Some (Object_Null, s')"
    using null by (auto simp: object_turn_def)
  then obtain ev p' where ev: "tree_turn False t Allocate_Request p = Some (ev, p')"
    by (auto simp: object_allocate_def bind_eq_Some_conv p_def that_def Let_def)
  moreover from ev have "ev = Refused"
    using \<open>object_allocate _ _ _ _ = _\<close> by (cases ev) (auto simp: object_allocate_def Let_def assign_def bind_eq_Some_conv p_def that_def split: if_splits)
  ultimately have refused: "tree_turn False t Allocate_Request p = Some (Refused, p')"
    by simp
  have busy: "position_of (tr_pc p t) = Nowhere"
    using refused_position[OF refused] by simp
  have "legal_request held (tree_idle t p) Allocate_Request"
    by (simp add: legal_request_def)
  from tree_turn_good[OF held(1) t this] have offers: "offers False (tr_that p) 0 = 0"
    using refused by (simp add: good_turn_def)
  have "position_of (tr_pc p u) = Nowhere" for u
  proof (cases "u = t")
    case False
    then have "os_doing s u = None"
      using idle by simp
    moreover have "doing_ok (tree_phase u p) (os_doing s u)"
      using held(4) by blast
    ultimately have "tree_idle u p"
      using tree_pool.phase_idle[of u p] by (simp add: doing_ok_def)
    then show ?thesis
      by (simp add: tree_idle_iff)
  qed (use busy in simp)
  have "fst ` held \<subseteq> {..<slots}" "inj_on fst held"
    using tree_objects.vals_true[OF held(1,2)] by (auto simp: inj_on_def)
  moreover have "int (length (tr_values p)) - int (card held) = 0"
    using tree_inv_counts[OF held(1) calculation(2)] offers \<open>\<And>u. position_of (tr_pc p u) = Nowhere\<close> by simp
  ultimately have "card (fst ` held) = card {..<slots}"
    using held(2) by (simp add: card_image returning_true_def)
  then have "fst ` held = {..<slots}"
    using \<open>fst ` held \<subseteq> {..<slots}\<close> by (intro card_subset_eq) simp_all
  then have "n \<in> fst ` held"
    using n by simp
  then obtain e where "(n, e) \<in> held"
    by auto
  then have "(n, True) \<in> held"
    using tree_objects.vals_true[OF held(1,2)] by fastforce
  then show ?thesis
    using held(3) n by (simp add: slots_ok_def that_def)
qed

lemma retired_bound:
  assumes "hp_inv N G h" "e < N"
  shows "finite (pending h e)" "card (pending h e) \<le> GetRetiredListMaxSize N G"
proof -
  have sub: "pending h e \<subseteq> set (retired h e)"
    by (auto simp: pending_def)
  then show "finite (pending h e)"
    by (rule finite_subset) simp
  have "card (pending h e) \<le> card (set (retired h e))"
    using sub by (intro card_mono) simp_all
  also have "\<dots> \<le> length (retired h e)"
    by (rule card_length)
  also have "\<dots> \<le> GetRetiredListMaxSize N G"
    using entry_facts(2)[OF assms] by (simp add: entry_shape_def retired_def)
  finally show "card (pending h e) \<le> GetRetiredListMaxSize N G" .
qed

lemma all_live_count:
  assumes ok: "stack_ok N tp h objects doing pc ns xs taken" and all: "\<forall>n < slots. live objects n" and idle: "\<forall>t. new_node (pc t) = None \<and> popped_node (pc t) = None"
  shows "slots \<le> length xs + GetRetiredListMaxSize N 1 * N"
proof -
  have "{..<slots} \<subseteq> set ns \<union> (\<Union>e<N. pending h e)"
  proof
    fix n assume "n \<in> {..<slots}"
    then obtain ow where "owns N pc (pending h) ns ow n"
      using ok all unfolding stack_ok_def by blast
    then show "n \<in> set ns \<union> (\<Union>e<N. pending h e)"
      using idle by (cases ow) auto
  qed
  moreover have fin: "finite (\<Union>e<N. pending h e)"
    using retired_bound(1)[OF stack_ok_hp[OF ok]] by blast
  ultimately have "slots \<le> card (set ns \<union> (\<Union>e<N. pending h e))"
    using card_mono[of "set ns \<union> (\<Union>e<N. pending h e)" "{..<slots}"] by simp
  also have "\<dots> \<le> card (set ns) + card (\<Union>e<N. pending h e)"
    by (rule card_Un_le)
  also have "card (\<Union>e<N. pending h e) \<le> (\<Sum>e<N. card (pending h e))"
    by (rule card_UN_le) simp
  also have "\<dots> \<le> (\<Sum>e<N. GetRetiredListMaxSize N 1)"
    using retired_bound(2)[OF stack_ok_hp[OF ok]] by (intro sum_mono) simp
  also have "card (set ns) = length xs"
    using ok by (simp add: stack_ok_def distinct_card)
  finally show ?thesis
    by (simp add: mult.commute)
qed

lemma push_full_request:
  assumes "stack_turn pool_turn t request s = Some (Push_Full, s')"
  obtains x pool' where "ss_pc s t = Stack_Idle \<and> request = TryPush_Request x \<or> ss_pc s t = Push_Allocate x"
    "pool_turn t (Allocate_Object (LockFreeStackNode_new x)) (ss_pool s) = Some (Object_Null, pool')"
proof -
  have alloc: "\<exists>pool'. pool_turn t (Allocate_Object (LockFreeStackNode_new x)) (ss_pool s) = Some (Object_Null, pool')"
    if full: "push_allocate pool_turn t x s = Some (Push_Full, s')" for x
  proof -
    obtain ev pool' where "pool_turn t (Allocate_Object (LockFreeStackNode_new x)) (ss_pool s) = Some (ev, pool')"
      using full by (auto simp: push_allocate_def bind_eq_Some_conv)
    then show ?thesis
      using full by (cases ev) (auto simp: push_allocate_def Let_def)
  qed
  have pop: "TryPop pool_turn t pc s \<noteq> Some (Push_Full, s')" for pc
    by (auto simp: TryPop_def pop_finish_def bind_eq_Some_conv split: stack_pc.splits option.splits if_splits)
  show thesis
  proof (cases "ss_pc s t")
    case Stack_Idle
    then obtain x where "request = TryPush_Request x" "push_allocate pool_turn t x s = Some (Push_Full, s')"
      using assms by (auto simp: stack_turn_def split: stack_request.splits)
    then show thesis
      using alloc[of x] Stack_Idle by (auto intro: that)
  next
    case (Push_Allocate x)
    then have "push_allocate pool_turn t x s = Some (Push_Full, s')"
      using assms by (simp add: stack_turn_def TryPush_def)
    then show thesis
      using alloc[of x] Push_Allocate by (auto intro: that)
  qed (use assms pop in \<open>auto simp: stack_turn_def TryPush_def bind_eq_Some_conv split: if_splits\<close>)
qed

text \<open>A small stack for the examples: one thread, three nodes, two of which may wait on the retired list.\<close>

lemma new_tree_three:
  "LockFreeTreeValuePool_new [True, True, True] = Some \<lparr>tp_size = 4, tp_real_size = 3, tp_tree = [Some 3, Some 2, Some 1], tp_pool = [True, True, True]\<rparr>"
proof -
  have four: "GetSmallestPowerByTwoValue (length [True, True, True]) = Some 4"
    by (simp add: GetSmallestPowerByTwoValue_def power_loop.simps)
  let ?that = "\<lparr>tp_size = 4, tp_real_size = 3, tp_tree = [None, None, None], tp_pool = [True, True, True]\<rparr>"
  have leaf: "Fill ?that 3 n p tree = Some tree" "Fill ?that 4 n p tree = Some tree" "Fill ?that 5 n p tree = Some tree" for n p tree
    by (simp_all add: Fill.simps[of ?that] IsLeaf_def)
  note unf = IsLeaf_def GetLeftChildIndex_def GetRightChildIndex_def IsValid_def Let_def
  have left: "Fill ?that 1 2 2 tree = assign tree 1 (Some 2)" and right: "Fill ?that 2 1 2 tree = assign tree 2 (Some 1)" for tree
    using leaf by (subst Fill.simps, simp add: unf assign_def)+
  have right': "Fill ?that (Suc (Suc 0)) (Suc 0) 2 tree = assign tree 2 (Some 1)" for tree
    using right[of tree] by (simp only: numeral_2_eq_2 One_nat_def)
  have "Fill ?that 0 3 4 [None, None, None] = Some [Some 3, Some 2, Some 1]"
    unfolding Fill.simps[of ?that 0 3 4] using left right right' by (simp add: unf assign_def)
  then show ?thesis
    unfolding LockFreeTreeValuePool_new_def four by (simp add: Let_def numeral_3_eq_3)
qed

definition small_stack :: "(bool tree_pool, nat) stack_system" where
  "small_stack = \<lparr>ss_top = None, ss_hazard = hp_start 1 1, ss_pool = \<lparr>os_that = \<lparr>op_objects = [None, None, None], op_capacity = 3,
     op_p = \<lparr>tr_that = \<lparr>tp_size = 4, tp_real_size = 3, tp_tree = [Some 3, Some 2, Some 1], tp_pool = [True, True, True]\<rparr>,
       tr_pc = (\<lambda>_. Tree_Idle), tr_values = [True, True, True]\<rparr>\<rparr>, os_doing = (\<lambda>_. None)\<rparr>, ss_pc = (\<lambda>_. Stack_Idle)\<rparr>"

lemmas stack_turn_simps = stack_turn_def push_allocate_def TryPush_def stack_goto_def SetNext_def GetElement_def node_at_def LockFreeStackNode_new_def
  object_turn_def object_allocate_def object_done_def object_start_def tree_turn_simps

lemma bind_weak: "m = m' \<Longrightarrow> Option.bind m f = Option.bind m' f"
  by simp

lemma stack_run_step:
  "stack_turn T t r s = Some (ev, s1) \<Longrightarrow> stack_run T rest s1 = Some (evs, s') \<Longrightarrow> stack_run T ((t, r) # rest) s = Some ((t, ev) # evs, s')"
  by simp

lemma replicate_33: "replicate 33 x = [x, x, x, x, x, x, x, x, x, x, x, x, x, x, x, x, x, x, x, x, x, x, x, x, x, x, x, x, x, x, x, x, x]"
  by (simp add: numeral_eq_Suc)

lemma small_stack_run:
  "\<exists>evs s. stack_run (object_turn (tree_turn False) tree_idle) (replicate 33 (0, TryPush_Request (7 :: nat))) small_stack = Some (evs, s) \<and>
     (\<exists>s'. stack_turn (object_turn (tree_turn False) tree_idle) 0 (TryPush_Request 7) s = Some (Push_Full, s')) \<and> (\<forall>u. u \<noteq> 0 \<longrightarrow> ss_pc s u = Stack_Idle)"
  unfolding small_stack_def replicate_33
  apply (intro exI conjI)
    apply (rule stack_run_step, simp add: stack_turn_simps cong: bind_weak)+
    apply (simp add: stack_turn_simps)
   apply (simp add: stack_turn_simps)
  apply (simp add: stack_turn_simps)
  done

section \<open>Properties\<close>

text \<open>
  C10. The lock-free stack is a stack. For a stack over the lock-free value pool (the default) with at least one thread, however the turns of the threads follow each other: every turn is defined, so that
  no node is accessed that was freed or is not initialised, and no assertion fails; the pushes and pops take effect one after the other on a sequential stack, within the time they
  run, and return what they took; and in the end the list holds the elements of the sequential stack.
\<close>

theorem stack_is_linearizable:
  assumes "LockFreeStack_new threads tree_maker capacity = Some s0" "0 < threads" "GetRetiredListMaxSize threads 1 * threads + capacity \<le> 2 ^ 29"
    and "\<forall>(t, request) \<in> set schedule. t < threads"
  shows "\<exists>evs s xs taken ns. stack_run (object_turn (tree_turn False) tree_idle) schedule s0 = Some (evs, s) \<and>
     spec_run evs ([], \<lambda>_. None) = Some (xs, taken) \<and> linked (nodes s) (ss_top s) ns \<and> xs = map (element_at (nodes s)) ns"
  using tree_objects.stack_run_good[OF tree_stack_start[OF assms(1-3)] assms(4)] unfolding stack_inv_def stack_ok_def by metis

theorem stack_is_linearizable_witness:
  "\<exists>s0 evs s xs taken. LockFreeStack_new 2 tree_maker 4 = Some s0 \<and>
     stack_run (object_turn (tree_turn False) tree_idle) [(0, TryPush_Request (7 :: nat)), (1, TryPop_Request), (0, TryPop_Request)] s0 = Some (evs, s) \<and>
     spec_run evs ([], \<lambda>_. None) = Some (xs, taken)"
proof -
  have size: "GetRetiredListMaxSize 2 1 * 2 + 4 = 10"
    by (simp add: GetRetiredListMaxSize_def)
  obtain p where "LockFreeTreeValuePool_new (returning_true 10) = Some p"
    using tree_start_inv[of "returning_true 10" False 2] by (auto simp: returning_true_def)
  then obtain s0 :: "(bool tree_pool, nat) stack_system" where s0: "LockFreeStack_new 2 tree_maker 4 = Some s0"
    unfolding LockFreeStack_new_def size by (simp add: ObjectPool_new_def)
  have "(0 :: nat) < 2" "GetRetiredListMaxSize 2 1 * 2 + 4 \<le> 2 ^ 29"
    "\<forall>(t, request) \<in> set [(0, TryPush_Request (7 :: nat)), (1, TryPop_Request), (0, TryPop_Request)]. t < (2 :: nat)"
    unfolding size by simp_all
  from stack_is_linearizable[OF s0 this] show ?thesis
    using s0 by blast
qed

text \<open>
  C12. The stack holds what it promises. If a push returns without success in a state that is reached, and no other thread has an operation under way, then the stack holds
  at least as many elements as its capacity, in spite of the nodes that wait on the retired lists of the threads.
\<close>

theorem stack_refuses_when_full:
  assumes "LockFreeStack_new threads tree_maker capacity = Some s0" "0 < threads" "GetRetiredListMaxSize threads 1 * threads + capacity \<le> 2 ^ 29"
    and "\<forall>(t, request) \<in> set schedule. t < threads" "stack_run (object_turn (tree_turn False) tree_idle) schedule s0 = Some (evs, s)"
    and "t < threads" "stack_turn (object_turn (tree_turn False) tree_idle) t request s = Some (Push_Full, s')" "\<forall>u. u \<noteq> t \<longrightarrow> ss_pc s u = Stack_Idle"
  shows "\<exists>xs taken. spec_run evs ([], \<lambda>_. None) = Some (xs, taken) \<and> capacity \<le> length xs"
proof -
  define slots where "slots = GetRetiredListMaxSize threads 1 * threads + capacity"
  obtain xs taken where run: "spec_run evs ([], \<lambda>_. None) = Some (xs, taken)"
    and inv: "stack_inv (object_inv (tree_inv False threads) tr_values tree_phase slots) threads s xs taken"
    using tree_objects.stack_run_good[OF tree_stack_start[OF assms(1-3)] assms(4)] assms(5) by (auto simp: slots_def)
  then obtain ns where pool: "object_inv (tree_inv False threads) tr_values tree_phase slots (ss_pool s)"
    and ok: "stack_ok threads (ss_top s) (ss_hazard s) (nodes s) (os_doing (ss_pool s)) (ss_pc s) ns xs taken"
    by (auto simp: stack_inv_def)
  obtain x pool' where x: "ss_pc s t = Stack_Idle \<and> request = TryPush_Request x \<or> ss_pc s t = Push_Allocate x"
    "object_turn (tree_turn False) tree_idle t (Allocate_Object (LockFreeStackNode_new x)) (ss_pool s) = Some (Object_Null, pool')"
    by (rule push_full_request[OF assms(7)]) (rule that; assumption)
  have idle: "hs_pc (ss_hazard s) u = Hp_Idle" "os_doing (ss_pool s) u = (if u = t \<and> ss_pc s t = Push_Allocate x then Some (Allocate_Object (LockFreeStackNode_new x)) else None)"
      "new_node (ss_pc s u) = None \<and> popped_node (ss_pc s u) = None" for u
    using stack_ok_thread[OF ok, of u] x(1) assms(8) by (cases "u = t"; auto simp: thread_ok_def pool_doing_def freeing_def)+
  have "nodes s ! n \<noteq> None" if "n < slots" for n
    by (rule tree_null_all_live[OF pool assms(6) x(2) _ _ that]) (use idle(2) in simp_all)
  then have "\<forall>n < slots. live (nodes s) n"
    using tree_objects.object_inv_length[OF pool] by (simp add: live_def)
  then have "slots \<le> length xs + GetRetiredListMaxSize threads 1 * threads"
    using all_live_count[OF ok] idle(3) by blast
  then have "capacity \<le> length xs"
    by (simp add: slots_def)
  then show ?thesis
    using run by blast
qed

theorem stack_refuses_when_full_witness:
  "\<exists>s0 evs s s' xs taken. LockFreeStack_new 1 tree_maker 1 = Some s0 \<and>
     stack_run (object_turn (tree_turn False) tree_idle) (replicate 33 (0, TryPush_Request (7 :: nat))) s0 = Some (evs, s) \<and>
     stack_turn (object_turn (tree_turn False) tree_idle) 0 (TryPush_Request 7) s = Some (Push_Full, s') \<and> spec_run evs ([], \<lambda>_. None) = Some (xs, taken) \<and> 1 \<le> length xs"
proof -
  let ?turn = "object_turn (tree_turn False) tree_idle" and ?schedule = "replicate 33 (0 :: nat, TryPush_Request (7 :: nat))"
  have slots: "GetRetiredListMaxSize 1 1 * 1 + 1 = 3"
    by (simp add: GetRetiredListMaxSize_def)
  have three: "returning_true 3 = [True, True, True]" "replicate 3 None = [None, None, None]"
    by (simp_all add: returning_true_def numeral_3_eq_3)
  obtain s0 where s0: "LockFreeStack_new 1 tree_maker 1 = Some s0" "s0 = small_stack"
    unfolding LockFreeStack_new_def slots by (simp add: ObjectPool_new_def three new_tree_three object_start_def small_stack_def tree_start_def)
  obtain evs s s' where s: "stack_run ?turn ?schedule s0 = Some (evs, s)" "stack_turn ?turn 0 (TryPush_Request 7) s = Some (Push_Full, s')" "\<forall>u. u \<noteq> 0 \<longrightarrow> ss_pc s u = Stack_Idle"
    using small_stack_run s0(2) by auto
  have "(0 :: nat) < 1" "GetRetiredListMaxSize 1 1 * 1 + 1 \<le> 2 ^ 29" "\<forall>(t, request) \<in> set ?schedule. t < (1 :: nat)"
    unfolding slots by simp_all
  from stack_refuses_when_full[OF s0(1) this s(1) this(1) s(2,3)] show ?thesis
    using s0(1) s(1,2) by blast
qed

end
