(* ===== verification/Lock_Free_Queue.thy ===== *)
theory Lock_Free_Queue
  imports Lock_Free_Stack
begin

text \<open>
  The lock-free queue for many producers and consumers (\<^verbatim>\<open>lock_free_mpmc_queue-inl.h\<close>): a linked list that starts with a dummy node, with a pointer to its head and one that follows
  its last node. Nodes come from an object pool and are given back through hazard pointers, with two guards for each thread. Each access to a shared variable is a turn of its own.
  The theory shows that no node is used after it was freed and that the operations take effect one after the other on a sequential queue.
\<close>

section \<open>The queue\<close>

text \<open>Pointers are the indices of the nodes in the object pool, or \<open>None\<close> for \<^verbatim>\<open>NULL\<close>. The element of the dummy node is uninitialised (\<open>None\<close>).\<close>

record 'a LockFreeMPMCQueueNode =
  qn_next :: "nat option"
  qn_element :: "'a option"

definition LockFreeMPMCQueueNode_dummy :: "'a LockFreeMPMCQueueNode" where
  "LockFreeMPMCQueueNode_dummy = \<lparr>qn_next = None, qn_element = None\<rparr>"

definition LockFreeMPMCQueueNode_new :: "'a \<Rightarrow> 'a LockFreeMPMCQueueNode" where
  "LockFreeMPMCQueueNode_new element = \<lparr>qn_next = None, qn_element = Some element\<rparr>"

text \<open>
  Where a thread is, with the values of its local variables. In \<^verbatim>\<open>TryEnqueue\<close> (\<open>element\<close>, then \<open>node\<close>, \<open>my_tail\<close> and \<open>my_tail_next\<close>): in the allocation of the node, before the load of \<open>tail\<close>, guarding it,
  the first check of \<open>tail\<close>, the load of the next node, the second check, the compare-and-swap that links the node, and the two that move \<open>tail\<close>. In \<^verbatim>\<open>TryDequeue\<close> (\<open>my_head\<close>, \<open>my_tail\<close>,
  \<open>my_next\<close>, \<open>data\<close>): before the load of \<open>head\<close>, guarding it, the first check of \<open>head\<close>, the load of \<open>tail\<close>, the load of the next node, guarding it, the second check, moving \<open>tail\<close>, reading
  the element, moving \<open>head\<close>, retiring the old dummy node, and in the scan that may follow.
\<close>

datatype 'a queue_pc = Queue_Idle
  | Enq_Allocate 'a | Enq_Load 'a nat | Enq_Guard 'a nat nat | Enq_Check 'a nat nat | Enq_Next 'a nat nat | Enq_Again 'a nat nat "nat option"
  | Enq_Link 'a nat nat | Enq_Advance 'a nat nat nat | Enq_Finish nat nat
  | Deq_Load | Deq_Guard nat | Deq_Check nat | Deq_Tail nat | Deq_Next nat nat | Deq_Guard_Next nat nat "nat option" | Deq_Again nat nat "nat option"
  | Deq_Advance nat nat | Deq_Element nat nat | Deq_Swap nat nat 'a | Deq_Retire nat 'a | Deq_Reclaim 'a

datatype 'a queue_request = TryEnqueue_Request 'a | TryDequeue_Request

text \<open>
  What a turn does as seen from outside. An enqueue takes effect when its node is linked, a dequeue when \<open>head\<close> is moved; a dequeue that finds no next node has seen an empty queue, although
  it only returns so if \<open>head\<close> has not moved since.
\<close>

datatype 'a queue_event = Queue_Quiet | Enqueue_Takes_Effect 'a | Enqueued | Queue_Full | Dequeue_Takes_Effect | Dequeue_Sees_Empty | Dequeued 'a | Dequeue_Empty

record ('s, 'a) queue_system =
  qs_head :: nat
  qs_tail :: nat
  qs_hazard :: "nat hp_system"
  qs_pool :: "('s, 'a LockFreeMPMCQueueNode) object_system"
  qs_pc :: "nat \<Rightarrow> 'a queue_pc"

type_synonym ('s, 'a) queue_pool_turn = "nat \<Rightarrow> 'a LockFreeMPMCQueueNode object_request \<Rightarrow> ('s, 'a LockFreeMPMCQueueNode) object_system \<Rightarrow>
  (object_event \<times> ('s, 'a LockFreeMPMCQueueNode) object_system) option"

text \<open>
  The constructor allocates the dummy node while no other thread uses the queue, by all turns of one thread. Without a dummy node each operation would access a node through \<^verbatim>\<open>NULL\<close>,
  so that such a queue is undefined.
\<close>

partial_function (option) allocate_alone :: "('s, 'a) queue_pool_turn \<Rightarrow> 'a LockFreeMPMCQueueNode \<Rightarrow> ('s, 'a LockFreeMPMCQueueNode) object_system \<Rightarrow>
    (nat \<times> ('s, 'a LockFreeMPMCQueueNode) object_system) option" where
  [code]: "allocate_alone pool_turn node pool = do {
     (ev, pool) \<leftarrow> pool_turn 0 (Allocate_Object node) pool;
     case ev of Object_Created n \<Rightarrow> Some (n, pool) | Object_Null \<Rightarrow> None | _ \<Rightarrow> allocate_alone pool_turn node pool }"

definition LockFreeMPMCQueue_new :: "('s, 'a) queue_pool_turn \<Rightarrow> nat \<Rightarrow> (bool list \<Rightarrow> 's option) \<Rightarrow> nat \<Rightarrow> ('s, 'a) queue_system option" where
  "LockFreeMPMCQueue_new pool_turn threads make_pool capacity = do {
     pool \<leftarrow> ObjectPool_new make_pool (GetRetiredListMaxSize threads 2 * threads + capacity + 1);
     (dummyNode, pool) \<leftarrow> allocate_alone pool_turn LockFreeMPMCQueueNode_dummy (object_start pool);
     Some \<lparr>qs_head = dummyNode, qs_tail = dummyNode, qs_hazard = hp_start threads 2, qs_pool = pool, qs_pc = (\<lambda>_. Queue_Idle)\<rparr> }"

definition queue_goto :: "nat \<Rightarrow> 'a queue_pc \<Rightarrow> ('s, 'a) queue_system \<Rightarrow> ('s, 'a) queue_system" where
  "queue_goto t pc s = s\<lparr>qs_pc := (qs_pc s)(t := pc)\<rparr>"

abbreviation qnodes :: "('s, 'a) queue_system \<Rightarrow> 'a LockFreeMPMCQueueNode option list" where
  "qnodes s \<equiv> op_objects (os_that (qs_pool s))"

text \<open>Reading or writing through a pointer to a node that does not exist is undefined.\<close>

definition queue_node_at :: "nat \<Rightarrow> ('s, 'a) queue_system \<Rightarrow> 'a LockFreeMPMCQueueNode option" where
  "queue_node_at n s = do { slot \<leftarrow> deref (qnodes s) n; slot }"

definition QueueNode_GetNext :: "nat \<Rightarrow> ('s, 'a) queue_system \<Rightarrow> nat option option" where
  "QueueNode_GetNext n s = do { node \<leftarrow> queue_node_at n s; Some (qn_next node) }"

definition QueueNode_GetElement :: "nat \<Rightarrow> ('s, 'a) queue_system \<Rightarrow> 'a option" where
  "QueueNode_GetElement n s = do { node \<leftarrow> queue_node_at n s; qn_element node }"

definition swap_next :: "nat \<Rightarrow> nat option \<Rightarrow> nat \<Rightarrow> ('s, 'a) queue_system \<Rightarrow> (bool \<times> ('s, 'a) queue_system) option" where
  "swap_next n expected desired s = do {
     node \<leftarrow> queue_node_at n s;
     if qn_next node = expected then do {
       objects \<leftarrow> assign (qnodes s) n (Some (node\<lparr>qn_next := Some desired\<rparr>));
       Some (True, s\<lparr>qs_pool := (qs_pool s)\<lparr>os_that := (os_that (qs_pool s))\<lparr>op_objects := objects\<rparr>\<rparr>\<rparr>) }
     else Some (False, s) }"

definition swap_tail :: "nat \<Rightarrow> nat \<Rightarrow> ('s, 'a) queue_system \<Rightarrow> ('s, 'a) queue_system" where
  "swap_tail expected desired s = (if qs_tail s = expected then s\<lparr>qs_tail := desired\<rparr> else s)"

definition enqueue_allocate :: "('s, 'a) queue_pool_turn \<Rightarrow> nat \<Rightarrow> 'a \<Rightarrow> ('s, 'a) queue_system \<Rightarrow> ('a queue_event \<times> ('s, 'a) queue_system) option" where
  "enqueue_allocate pool_turn t element s = do {
     (ev, pool) \<leftarrow> pool_turn t (Allocate_Object (LockFreeMPMCQueueNode_new element)) (qs_pool s);
     let s = s\<lparr>qs_pool := pool\<rparr>;
     Some (case ev of
       Object_Created node \<Rightarrow> (Queue_Quiet, queue_goto t (Enq_Load element node) s)
     | Object_Null \<Rightarrow> (Queue_Full, queue_goto t Queue_Idle s)
     | _ \<Rightarrow> (Queue_Quiet, queue_goto t (Enq_Allocate element) s)) }"

definition Queue_DeletePointerCallback :: "('s, 'a) queue_pool_turn \<Rightarrow> nat \<Rightarrow> nat \<Rightarrow> ('s, 'a LockFreeMPMCQueueNode) object_system \<Rightarrow>
    (bool \<times> ('s, 'a LockFreeMPMCQueueNode) object_system) option" where
  "Queue_DeletePointerCallback pool_turn t to_delete pool = do {
     (ev, pool) \<leftarrow> pool_turn t (Free_Object to_delete) pool;
     Some (os_doing pool t = None, pool) }"

definition dequeue_finish :: "nat \<Rightarrow> 'a \<Rightarrow> ('s, 'a) queue_system \<Rightarrow> 'a queue_event \<times> ('s, 'a) queue_system" where
  "dequeue_finish t data s =
     (if hs_pc (qs_hazard s) t = Hp_Idle then (Dequeued data, queue_goto t Queue_Idle s) else (Queue_Quiet, queue_goto t (Deq_Reclaim data) s))"

text \<open>The name has a prefix since the queue for one producer and one consumer has an operation of the same name.\<close>

definition MPMC_TryEnqueue :: "('s, 'a) queue_pool_turn \<Rightarrow> nat \<Rightarrow> 'a queue_pc \<Rightarrow> ('s, 'a) queue_system \<Rightarrow> ('a queue_event \<times> ('s, 'a) queue_system) option" where
  "MPMC_TryEnqueue pool_turn t pc s = (case pc of
       Enq_Allocate element \<Rightarrow> enqueue_allocate pool_turn t element s
     | Enq_Load element node \<Rightarrow> Some (Queue_Quiet, queue_goto t (Enq_Guard element node (qs_tail s)) s)
     | Enq_Guard element node my_tail \<Rightarrow> do {
         h \<leftarrow> GuardPointer t 0 (Some my_tail) (qs_hazard s);
         Some (Queue_Quiet, queue_goto t (Enq_Check element node my_tail) (s\<lparr>qs_hazard := h\<rparr>)) }
     | Enq_Check element node my_tail \<Rightarrow>
         Some (Queue_Quiet, queue_goto t (if my_tail \<noteq> qs_tail s then Enq_Load element node else Enq_Next element node my_tail) s)
     | Enq_Next element node my_tail \<Rightarrow> do {
         my_tail_next \<leftarrow> QueueNode_GetNext my_tail s;
         Some (Queue_Quiet, queue_goto t (Enq_Again element node my_tail my_tail_next) s) }
     | Enq_Again element node my_tail my_tail_next \<Rightarrow>
         Some (Queue_Quiet, queue_goto t
           (if my_tail = qs_tail s then (case my_tail_next of None \<Rightarrow> Enq_Link element node my_tail | Some n \<Rightarrow> Enq_Advance element node my_tail n)
            else Enq_Load element node) s)
     | Enq_Link element node my_tail \<Rightarrow> do {
         (swapped, s) \<leftarrow> swap_next my_tail None node s;
         Some (if swapped then (Enqueue_Takes_Effect element, queue_goto t (Enq_Finish node my_tail) s)
               else (Queue_Quiet, queue_goto t (Enq_Load element node) s)) }
     | Enq_Advance element node my_tail my_tail_next \<Rightarrow> Some (Queue_Quiet, queue_goto t (Enq_Load element node) (swap_tail my_tail my_tail_next s))
     | Enq_Finish node my_tail \<Rightarrow> Some (Enqueued, queue_goto t Queue_Idle (swap_tail my_tail node s))
     | _ \<Rightarrow> None)"

definition MPMC_TryDequeue :: "('s, 'a) queue_pool_turn \<Rightarrow> nat \<Rightarrow> 'a queue_pc \<Rightarrow> ('s, 'a) queue_system \<Rightarrow> ('a queue_event \<times> ('s, 'a) queue_system) option" where
  "MPMC_TryDequeue pool_turn t pc s = (case pc of
       Deq_Load \<Rightarrow> Some (Queue_Quiet, queue_goto t (Deq_Guard (qs_head s)) s)
     | Deq_Guard my_head \<Rightarrow> do {
         h \<leftarrow> GuardPointer t 0 (Some my_head) (qs_hazard s);
         Some (Queue_Quiet, queue_goto t (Deq_Check my_head) (s\<lparr>qs_hazard := h\<rparr>)) }
     | Deq_Check my_head \<Rightarrow> Some (Queue_Quiet, queue_goto t (if my_head \<noteq> qs_head s then Deq_Load else Deq_Tail my_head) s)
     | Deq_Tail my_head \<Rightarrow> Some (Queue_Quiet, queue_goto t (Deq_Next my_head (qs_tail s)) s)
     | Deq_Next my_head my_tail \<Rightarrow> do {
         my_next \<leftarrow> QueueNode_GetNext my_head s;
         Some (if my_next = None then Dequeue_Sees_Empty else Queue_Quiet, queue_goto t (Deq_Guard_Next my_head my_tail my_next) s) }
     | Deq_Guard_Next my_head my_tail my_next \<Rightarrow> do {
         h \<leftarrow> GuardPointer t 1 my_next (qs_hazard s);
         Some (Queue_Quiet, queue_goto t (Deq_Again my_head my_tail my_next) (s\<lparr>qs_hazard := h\<rparr>)) }
     | Deq_Again my_head my_tail my_next \<Rightarrow>
         Some (if qs_head s \<noteq> my_head then (Queue_Quiet, queue_goto t Deq_Load s)
               else (case my_next of
                   None \<Rightarrow> (Dequeue_Empty, queue_goto t Queue_Idle s)
                 | Some n \<Rightarrow> (Queue_Quiet, queue_goto t (if my_head = my_tail then Deq_Advance my_tail n else Deq_Element my_head n) s)))
     | Deq_Advance my_tail my_next \<Rightarrow> Some (Queue_Quiet, queue_goto t Deq_Load (swap_tail my_tail my_next s))
     | Deq_Element my_head my_next \<Rightarrow> do {
         data \<leftarrow> QueueNode_GetElement my_next s;
         Some (Queue_Quiet, queue_goto t (Deq_Swap my_head my_next data) s) }
     | Deq_Swap my_head my_next data \<Rightarrow>
         Some (if qs_head s = my_head then (Dequeue_Takes_Effect, queue_goto t (Deq_Retire my_head data) (s\<lparr>qs_head := my_next\<rparr>))
               else (Queue_Quiet, queue_goto t Deq_Load s))
     | Deq_Retire my_head data \<Rightarrow> do {
         h \<leftarrow> EnqueuePointerForDeletion t my_head (qs_hazard s);
         Some (dequeue_finish t data (s\<lparr>qs_hazard := h\<rparr>)) }
     | Deq_Reclaim data \<Rightarrow> do {
         (h, pool) \<leftarrow> hp_turn (Queue_DeletePointerCallback pool_turn) t (qs_hazard s) (qs_pool s);
         Some (dequeue_finish t data (s\<lparr>qs_hazard := h, qs_pool := pool\<rparr>)) }
     | _ \<Rightarrow> None)"

text \<open>A thread without an operation under way starts the requested one.\<close>

definition queue_turn :: "('s, 'a) queue_pool_turn \<Rightarrow> nat \<Rightarrow> 'a queue_request \<Rightarrow> ('s, 'a) queue_system \<Rightarrow> ('a queue_event \<times> ('s, 'a) queue_system) option" where
  "queue_turn pool_turn t request s = (case qs_pc s t of
       Queue_Idle \<Rightarrow> (case request of
           TryEnqueue_Request element \<Rightarrow> enqueue_allocate pool_turn t element s
         | TryDequeue_Request \<Rightarrow> MPMC_TryDequeue pool_turn t Deq_Load s)
     | Enq_Allocate _ \<Rightarrow> MPMC_TryEnqueue pool_turn t (qs_pc s t) s
     | Enq_Load _ _ \<Rightarrow> MPMC_TryEnqueue pool_turn t (qs_pc s t) s
     | Enq_Guard _ _ _ \<Rightarrow> MPMC_TryEnqueue pool_turn t (qs_pc s t) s
     | Enq_Check _ _ _ \<Rightarrow> MPMC_TryEnqueue pool_turn t (qs_pc s t) s
     | Enq_Next _ _ _ \<Rightarrow> MPMC_TryEnqueue pool_turn t (qs_pc s t) s
     | Enq_Again _ _ _ _ \<Rightarrow> MPMC_TryEnqueue pool_turn t (qs_pc s t) s
     | Enq_Link _ _ _ \<Rightarrow> MPMC_TryEnqueue pool_turn t (qs_pc s t) s
     | Enq_Advance _ _ _ _ \<Rightarrow> MPMC_TryEnqueue pool_turn t (qs_pc s t) s
     | Enq_Finish _ _ \<Rightarrow> MPMC_TryEnqueue pool_turn t (qs_pc s t) s
     | _ \<Rightarrow> MPMC_TryDequeue pool_turn t (qs_pc s t) s)"

fun queue_run :: "('s, 'a) queue_pool_turn \<Rightarrow> (nat \<times> 'a queue_request) list \<Rightarrow> ('s, 'a) queue_system \<Rightarrow> ((nat \<times> 'a queue_event) list \<times> ('s, 'a) queue_system) option" where
  "queue_run pool_turn [] s = Some ([], s)"
| "queue_run pool_turn ((t, request) # schedule) s = do {
     (ev, s) \<leftarrow> queue_turn pool_turn t request s;
     (evs, s) \<leftarrow> queue_run pool_turn schedule s;
     Some ((t, ev) # evs, s) }"

section \<open>The sequential queue\<close>

text \<open>
  What the events do to a sequential queue, and what each operation under way has done to it. \<open>None\<close> is an event that the sequential queue does not allow: one that takes
  effect twice, a dequeue that takes an element from an empty queue, one that sees an empty queue where there is none, or one that returns something else than what it did.
\<close>

datatype 'a queue_effect = No_Effect | Put_It | Took_It 'a | Saw_Empty

fun queue_spec_turn :: "nat \<Rightarrow> 'a queue_event \<Rightarrow> 'a list \<times> (nat \<Rightarrow> 'a queue_effect) \<Rightarrow> ('a list \<times> (nat \<Rightarrow> 'a queue_effect)) option" where
  "queue_spec_turn t Queue_Quiet (xs, eff) = Some (xs, eff)"
| "queue_spec_turn t (Enqueue_Takes_Effect x) (xs, eff) = (if eff t = No_Effect then Some (xs @ [x], eff(t := Put_It)) else None)"
| "queue_spec_turn t Enqueued (xs, eff) = (if eff t = Put_It then Some (xs, eff(t := No_Effect)) else None)"
| "queue_spec_turn t Queue_Full (xs, eff) = (if eff t = No_Effect then Some (xs, eff) else None)"
| "queue_spec_turn t Dequeue_Takes_Effect (xs, eff) =
     (if eff t = No_Effect \<or> eff t = Saw_Empty then (case xs of [] \<Rightarrow> None | x # xs \<Rightarrow> Some (xs, eff(t := Took_It x))) else None)"
| "queue_spec_turn t Dequeue_Sees_Empty (xs, eff) =
     (if (eff t = No_Effect \<or> eff t = Saw_Empty) \<and> xs = [] then Some (xs, eff(t := Saw_Empty)) else None)"
| "queue_spec_turn t (Dequeued x) (xs, eff) = (if eff t = Took_It x then Some (xs, eff(t := No_Effect)) else None)"
| "queue_spec_turn t Dequeue_Empty (xs, eff) = (if eff t = Saw_Empty then Some (xs, eff(t := No_Effect)) else None)"

fun queue_spec_run :: "(nat \<times> 'a queue_event) list \<Rightarrow> 'a list \<times> (nat \<Rightarrow> 'a queue_effect) \<Rightarrow> ('a list \<times> (nat \<Rightarrow> 'a queue_effect)) option" where
  "queue_spec_run [] a = Some a"
| "queue_spec_run ((t, ev) # evs) a = do { a \<leftarrow> queue_spec_turn t ev a; queue_spec_run evs a }"

section \<open>The invariant\<close>

text \<open>The nodes from a pointer on.\<close>

primrec chain :: "'a LockFreeMPMCQueueNode option list \<Rightarrow> nat option \<Rightarrow> nat list \<Rightarrow> bool" where
  "chain objects p [] \<longleftrightarrow> p = None"
| "chain objects p (n # ns) \<longleftrightarrow> p = Some n \<and> n < length objects \<and> (\<exists>node. objects ! n = Some node \<and> chain objects (qn_next node) ns)"

text \<open>The node that a thread has for itself: before it is linked, and after it was taken off the list.\<close>

fun linking :: "'a queue_pc \<Rightarrow> nat option" where
  "linking (Enq_Load _ n) = Some n"
| "linking (Enq_Guard _ n _) = Some n"
| "linking (Enq_Check _ n _) = Some n"
| "linking (Enq_Next _ n _) = Some n"
| "linking (Enq_Again _ n _ _) = Some n"
| "linking (Enq_Link _ n _) = Some n"
| "linking (Enq_Advance _ n _ _) = Some n"
| "linking _ = None"

fun unlinked :: "'a queue_pc \<Rightarrow> nat option" where
  "unlinked (Deq_Retire n _) = Some n"
| "unlinked _ = None"

fun queue_owns :: "nat \<Rightarrow> (nat \<Rightarrow> 'a queue_pc) \<Rightarrow> (nat \<Rightarrow> nat set) \<Rightarrow> nat list \<Rightarrow> node_owner \<Rightarrow> nat \<Rightarrow> bool" where
  "queue_owns N pc pend ns In_List n \<longleftrightarrow> n \<in> set ns"
| "queue_owns N pc pend ns (New_Of t) n \<longleftrightarrow> linking (pc t) = Some n"
| "queue_owns N pc pend ns (Popped_By t) n \<longleftrightarrow> unlinked (pc t) = Some n"
| "queue_owns N pc pend ns (Retired_By e) n \<longleftrightarrow> e < N \<and> n \<in> pend e"

text \<open>The state of a queue with the list of its nodes.\<close>

record 'a queue_view =
  qv_head :: nat
  qv_tail :: nat
  qv_hazard :: "nat hp_system"
  qv_objects :: "'a LockFreeMPMCQueueNode option list"
  qv_doing :: "nat \<Rightarrow> 'a LockFreeMPMCQueueNode object_request option"
  qv_pc :: "nat \<Rightarrow> 'a queue_pc"
  qv_effects :: "nat \<Rightarrow> 'a queue_effect"
  qv_nodes :: "nat list"

abbreviation view_owns :: "nat \<Rightarrow> 'a queue_view \<Rightarrow> node_owner \<Rightarrow> nat \<Rightarrow> bool" where
  "view_owns N v \<equiv> queue_owns N (qv_pc v) (pending (qv_hazard v)) (qv_nodes v)"

definition queue_published :: "nat \<Rightarrow> 'a queue_view \<Rightarrow> nat \<Rightarrow> bool" where
  "queue_published N v n \<longleftrightarrow> (\<exists>ow. view_owns N v ow n \<and> (\<forall>t. ow \<noteq> New_Of t))"

definition node_next :: "'a queue_view \<Rightarrow> nat \<Rightarrow> nat \<Rightarrow> bool" where
  "node_next v c n \<longleftrightarrow> c < length (qv_objects v) \<and> (\<exists>node. qv_objects v ! c = Some node \<and> qn_next node = Some n)"

definition element_of :: "'a LockFreeMPMCQueueNode option list \<Rightarrow> nat \<Rightarrow> 'a option" where
  "element_of objects n = (case objects ! n of None \<Rightarrow> None | Some node \<Rightarrow> qn_element node)"

text \<open>A node that a guard of the thread keeps from being freed.\<close>

definition safe :: "nat \<Rightarrow> 'a queue_view \<Rightarrow> nat \<Rightarrow> nat \<Rightarrow> nat \<Rightarrow> bool" where
  "safe N v t i c \<longleftrightarrow> guards (qv_hazard v) t ! i = Some c \<and> covered (qv_hazard v) t i c \<and> queue_published N v c"

text \<open>
  What a thread knows: its new node is as it was created; the content of a guard; a node is safe, is safe and followed by another one, was the head (so that it can only be in
  the list as its head), has been left by \<open>tail\<close> if it is the head, or has an element.
\<close>

datatype 'a queue_fact = Fresh nat 'a | Guarded nat "nat option" | Safe nat | Followed nat nat | Old nat | Behind nat | Readable nat | Filled nat 'a

fun holds :: "nat \<Rightarrow> 'a queue_view \<Rightarrow> nat \<Rightarrow> 'a queue_fact \<Rightarrow> bool" where
  "holds N v t (Fresh n x) \<longleftrightarrow> n < length (qv_objects v) \<and> qv_objects v ! n = Some (LockFreeMPMCQueueNode_new x)"
| "holds N v t (Guarded i g) \<longleftrightarrow> guards (qv_hazard v) t ! i = g"
| "holds N v t (Safe c) \<longleftrightarrow> safe N v t 0 c"
| "holds N v t (Followed c n) \<longleftrightarrow> safe N v t 0 c \<and> node_next v c n"
| "holds N v t (Old c) \<longleftrightarrow> safe N v t 0 c \<and> c \<notin> set (tl (qv_nodes v))"
| "holds N v t (Behind c) \<longleftrightarrow> safe N v t 0 c \<and> c \<notin> set (tl (qv_nodes v)) \<and> (qv_head v = c \<longrightarrow> qv_tail v \<noteq> c)"
| "holds N v t (Readable n) \<longleftrightarrow> safe N v t 1 n \<and> element_of (qv_objects v) n \<noteq> None"
| "holds N v t (Filled n x) \<longleftrightarrow> safe N v t 1 n \<and> element_of (qv_objects v) n = Some x"

definition known_next :: "nat \<Rightarrow> nat option \<Rightarrow> 'a queue_fact list" where
  "known_next c nxt = (case nxt of None \<Rightarrow> [] | Some n \<Rightarrow> [Followed c n])"

definition known_tail :: "nat \<Rightarrow> nat \<Rightarrow> 'a queue_fact list" where
  "known_tail c a = Old c # (if c = a then [] else [Behind c])"

fun needs :: "'a queue_pc \<Rightarrow> 'a queue_fact list" where
  "needs (Enq_Load x n) = [Fresh n x]"
| "needs (Enq_Guard x n a) = [Fresh n x]"
| "needs (Enq_Check x n a) = [Fresh n x, Guarded 0 (Some a)]"
| "needs (Enq_Next x n a) = [Fresh n x, Safe a]"
| "needs (Enq_Again x n a nxt) = Fresh n x # Safe a # known_next a nxt"
| "needs (Enq_Link x n a) = [Fresh n x, Safe a]"
| "needs (Enq_Advance x n a m) = [Fresh n x, Followed a m]"
| "needs (Enq_Finish n a) = [Followed a n]"
| "needs (Deq_Check c) = [Guarded 0 (Some c)]"
| "needs (Deq_Tail c) = [Old c]"
| "needs (Deq_Next c a) = known_tail c a"
| "needs (Deq_Guard_Next c a nxt) = known_tail c a @ known_next c nxt"
| "needs (Deq_Again c a nxt) = Guarded 1 nxt # known_tail c a @ known_next c nxt"
| "needs (Deq_Advance c n) = [Followed c n]"
| "needs (Deq_Element c n) = [Behind c, Followed c n, Readable n]"
| "needs (Deq_Swap c n d) = [Behind c, Followed c n, Filled n d]"
| "needs _ = []"

fun effect_ok :: "'a queue_pc \<Rightarrow> 'a queue_effect \<Rightarrow> bool" where
  "effect_ok (Enq_Finish _ _) e \<longleftrightarrow> e = Put_It"
| "effect_ok (Deq_Guard_Next _ _ None) e \<longleftrightarrow> e = Saw_Empty"
| "effect_ok (Deq_Again _ _ None) e \<longleftrightarrow> e = Saw_Empty"
| "effect_ok (Deq_Retire _ d) e \<longleftrightarrow> e = Took_It d"
| "effect_ok (Deq_Reclaim d) e \<longleftrightarrow> e = Took_It d"
| "effect_ok Deq_Load e \<longleftrightarrow> e = No_Effect \<or> e = Saw_Empty"
| "effect_ok (Deq_Guard _) e \<longleftrightarrow> e = No_Effect \<or> e = Saw_Empty"
| "effect_ok (Deq_Check _) e \<longleftrightarrow> e = No_Effect \<or> e = Saw_Empty"
| "effect_ok (Deq_Tail _) e \<longleftrightarrow> e = No_Effect \<or> e = Saw_Empty"
| "effect_ok (Deq_Next _ _) e \<longleftrightarrow> e = No_Effect \<or> e = Saw_Empty"
| "effect_ok (Deq_Guard_Next _ _ (Some _)) e \<longleftrightarrow> e = No_Effect \<or> e = Saw_Empty"
| "effect_ok (Deq_Again _ _ (Some _)) e \<longleftrightarrow> e = No_Effect \<or> e = Saw_Empty"
| "effect_ok (Deq_Advance _ _) e \<longleftrightarrow> e = No_Effect \<or> e = Saw_Empty"
| "effect_ok (Deq_Element _ _) e \<longleftrightarrow> e = No_Effect \<or> e = Saw_Empty"
| "effect_ok (Deq_Swap _ _ _) e \<longleftrightarrow> e = No_Effect \<or> e = Saw_Empty"
| "effect_ok _ e \<longleftrightarrow> e = No_Effect"

text \<open>What the object pool is doing for a thread.\<close>

definition queue_pool_doing :: "'a queue_pc \<Rightarrow> nat option \<Rightarrow> 'a LockFreeMPMCQueueNode object_request option" where
  "queue_pool_doing pc fr = (case pc of Enq_Allocate x \<Rightarrow> Some (Allocate_Object (LockFreeMPMCQueueNode_new x)) | _ \<Rightarrow> map_option Free_Object fr)"

definition queue_thread_ok :: "nat \<Rightarrow> 'a queue_view \<Rightarrow> nat \<Rightarrow> bool" where
  "queue_thread_ok N v t \<longleftrightarrow> (\<forall>f \<in> set (needs (qv_pc v t)). holds N v t f) \<and> effect_ok (qv_pc v t) (qv_effects v t) \<and>
     qv_doing v t = queue_pool_doing (qv_pc v t) (freeing (qv_hazard v) t) \<and> hs_pc (qv_hazard v) t \<noteq> Hp_Gone \<and>
     (hs_pc (qv_hazard v) t \<noteq> Hp_Idle \<longrightarrow> (\<exists>d. qv_pc v t = Deq_Reclaim d)) \<and> (N \<le> t \<longrightarrow> qv_pc v t = Queue_Idle)"

text \<open>The list of the nodes, with the dummy node first, and the elements of the queue.\<close>

definition list_ok :: "'a queue_view \<Rightarrow> 'a list \<Rightarrow> bool" where
  "list_ok v xs \<longleftrightarrow> chain (qv_objects v) (Some (qv_head v)) (qv_nodes v) \<and> qv_tail v \<in> set (qv_nodes v) \<and> distinct (qv_nodes v) \<and>
     map (element_of (qv_objects v)) (tl (qv_nodes v)) = map Some xs"

definition owners_ok :: "nat \<Rightarrow> 'a queue_view \<Rightarrow> bool" where
  "owners_ok N v \<longleftrightarrow>
     (\<forall>n ow. view_owns N v ow n \<longrightarrow> live (qv_objects v) n \<and> (\<forall>ow'. view_owns N v ow' n \<longrightarrow> ow' = ow)) \<and>
     (\<forall>n. live (qv_objects v) n \<longrightarrow> (\<exists>ow. view_owns N v ow n)) \<and>
     (\<forall>n ow. view_owns N v ow n \<longrightarrow> ow \<noteq> In_List \<longrightarrow> (\<forall>t. ow \<noteq> New_Of t) \<longrightarrow> (\<exists>k. node_next v n k))"

definition queue_ok :: "nat \<Rightarrow> 'a queue_view \<Rightarrow> 'a list \<Rightarrow> bool" where
  "queue_ok N v xs \<longleftrightarrow> list_ok v xs \<and> hp_inv N 2 (qv_hazard v) \<and> owners_ok N v \<and> (\<forall>t. queue_thread_ok N v t)"

section \<open>What a turn leaves alone\<close>

text \<open>Nodes that others may read only get a next node.\<close>

definition grows :: "'a LockFreeMPMCQueueNode option \<Rightarrow> 'a LockFreeMPMCQueueNode option \<Rightarrow> bool" where
  "grows a b \<longleftrightarrow> (\<exists>x y. a = Some x \<and> b = Some y \<and> qn_element y = qn_element x \<and> (qn_next x = None \<or> qn_next y = qn_next x))"

lemma grows_refl: "a \<noteq> None \<Longrightarrow> grows a a"
  by (auto simp: grows_def)

lemma grows_element: "grows (objects ! n) (objects' ! n) \<Longrightarrow> element_of objects' n = element_of objects n"
  by (auto simp: grows_def element_of_def)

lemma grows_next: "node_next v c n \<Longrightarrow> grows (qv_objects v ! c) (qv_objects v' ! c) \<Longrightarrow> length (qv_objects v') = length (qv_objects v) \<Longrightarrow> node_next v' c n"
  by (auto simp: grows_def node_next_def)

lemma owned_live: "queue_ok N v xs \<Longrightarrow> view_owns N v ow n \<Longrightarrow> live (qv_objects v) n"
  unfolding queue_ok_def owners_ok_def by blast

lemma owner_unique: "queue_ok N v xs \<Longrightarrow> view_owns N v ow n \<Longrightarrow> view_owns N v ow' n \<Longrightarrow> ow' = ow"
  unfolding queue_ok_def owners_ok_def by blast

lemma thread_known: "queue_ok N v xs \<Longrightarrow> queue_thread_ok N v t"
  by (simp add: queue_ok_def)

lemma queue_ok_hp: "queue_ok N v xs \<Longrightarrow> hp_inv N 2 (qv_hazard v)"
  by (simp add: queue_ok_def)

lemma needs_fresh: "Fresh n x \<in> set (needs pc) \<Longrightarrow> linking pc = Some n"
  by (cases pc) (auto simp: known_next_def known_tail_def split: option.splits if_splits)

lemma linking_fresh: "linking pc = Some n \<Longrightarrow> \<exists>x. Fresh n x \<in> set (needs pc)"
  by (cases pc) auto

text \<open>A fact about a thread holds after the turn of another one.\<close>

lemma fact_kept:
  assumes "holds N v u f" and need: "f \<in> set (needs (qv_pc v u))" and len: "length (qv_objects v') = length (qv_objects v)"
    and guards: "guards (qv_hazard v') u = guards (qv_hazard v) u"
    and safe: "\<And>i c. i < 2 \<Longrightarrow> safe N v u i c \<Longrightarrow> safe N v' u i c \<and> grows (qv_objects v ! c) (qv_objects v' ! c)"
    and fresh: "\<And>n. linking (qv_pc v u) = Some n \<Longrightarrow> qv_objects v' ! n = qv_objects v ! n"
    and old: "\<And>c. queue_published N v c \<Longrightarrow> c \<notin> set (tl (qv_nodes v)) \<Longrightarrow> c \<notin> set (tl (qv_nodes v'))"
    and behind: "\<And>c. queue_published N v c \<Longrightarrow> c \<notin> set (tl (qv_nodes v)) \<Longrightarrow> (qv_head v = c \<longrightarrow> qv_tail v \<noteq> c) \<Longrightarrow> qv_head v' = c \<Longrightarrow> qv_tail v' \<noteq> c"
  shows "holds N v' u f"
proof -
  have published: "queue_published N v c" if "safe N v u i c" for i c
    using that by (simp add: safe_def)
  show ?thesis
  proof (cases f)
    case (Fresh n x)
    then show ?thesis
      using assms(1) fresh[OF needs_fresh[OF need[unfolded Fresh]]] len by simp
  next
    case (Followed c n)
    then have "safe N v u 0 c" "node_next v c n"
      using assms(1) by simp_all
    then show ?thesis
      using Followed safe[of 0 c] grows_next[of v c n v'] len by simp
  next
    case (Old c)
    then show ?thesis
      using assms(1) safe[of 0 c] old[of c] published[of 0 c] by simp
  next
    case (Behind c)
    then show ?thesis
      using assms(1) safe[of 0 c] old[of c] behind[of c] published[of 0 c] by auto
  next
    case (Readable n)
    then have "safe N v u 1 n" "element_of (qv_objects v) n \<noteq> None"
      using assms(1) by simp_all
    then show ?thesis
      using Readable safe[of 1 n] grows_element[of "qv_objects v" n "qv_objects v'"] by simp
  next
    case (Filled n x)
    then have "safe N v u 1 n" "element_of (qv_objects v) n = Some x"
      using assms(1) by simp_all
    then show ?thesis
      using Filled safe[of 1 n] grows_element[of "qv_objects v" n "qv_objects v'"] by simp
  qed (use assms(1) guards safe[of 0] in simp_all)
qed

section \<open>How turns change the owners of nodes\<close>

text \<open>A turn that moves one node \<open>m\<close> to another owner, or creates or frees it.\<close>

lemma queue_ok_move:
  assumes ok: "queue_ok N v xs" and list: "list_ok v' xs'" and inv: "hp_inv N 2 (qv_hazard v')"
    and pc: "qv_pc v' = (qv_pc v)(t := p)" and len: "length (qv_objects v') = length (qv_objects v)"
    and own: "\<And>ow n. view_owns N v' ow n \<Longrightarrow> n \<noteq> m \<and> view_owns N v ow n \<or> n = m \<and> ow = ow' \<and> live (qv_objects v') m"
    and own_m: "\<And>ow n. view_owns N v ow n \<Longrightarrow> n \<noteq> m \<Longrightarrow> view_owns N v' ow n" "live (qv_objects v') m \<Longrightarrow> view_owns N v' ow' m"
    and nodes: "\<And>n. n \<noteq> m \<Longrightarrow> live (qv_objects v) n \<Longrightarrow> grows (qv_objects v ! n) (qv_objects v' ! n)" "\<And>n. n \<noteq> m \<Longrightarrow> live (qv_objects v') n \<Longrightarrow> live (qv_objects v) n"
    and fresh: "\<And>u n. u \<noteq> t \<Longrightarrow> linking (qv_pc v u) = Some n \<Longrightarrow> qv_objects v' ! n = qv_objects v ! n"
    and next_m: "ow' \<noteq> In_List \<Longrightarrow> \<forall>t. ow' \<noteq> New_Of t \<Longrightarrow> live (qv_objects v') m \<Longrightarrow> \<exists>k. node_next v' m k"
    and me: "queue_thread_ok N v' t"
    and same: "\<And>u. u \<noteq> t \<Longrightarrow> qv_doing v' u = qv_doing v u \<and> qv_effects v' u = qv_effects v u \<and> freeing (qv_hazard v') u = freeing (qv_hazard v) u \<and>
      hs_pc (qv_hazard v') u = hs_pc (qv_hazard v) u \<and> guards (qv_hazard v') u = guards (qv_hazard v) u"
    and cov: "\<And>u i c. u \<noteq> t \<Longrightarrow> u < N \<Longrightarrow> i < 2 \<Longrightarrow> safe N v u i c \<Longrightarrow> covered (qv_hazard v') u i c"
    and safe_m: "\<And>u i. u \<noteq> t \<Longrightarrow> u < N \<Longrightarrow> i < 2 \<Longrightarrow> safe N v u i m \<Longrightarrow> queue_published N v' m \<and> grows (qv_objects v ! m) (qv_objects v' ! m)"
    and old: "\<And>c. queue_published N v c \<Longrightarrow> c \<notin> set (tl (qv_nodes v)) \<Longrightarrow> c \<notin> set (tl (qv_nodes v'))"
    and behind: "\<And>c. queue_published N v c \<Longrightarrow> c \<notin> set (tl (qv_nodes v)) \<Longrightarrow> (qv_head v = c \<longrightarrow> qv_tail v \<noteq> c) \<Longrightarrow> qv_head v' = c \<Longrightarrow> qv_tail v' \<noteq> c"
  shows "queue_ok N v' xs'"
proof -
  have "live (qv_objects v') n \<and> (\<forall>ow''. view_owns N v' ow'' n \<longrightarrow> ow'' = ow)" if n: "view_owns N v' ow n" for ow n
  proof (cases "n = m")
    case True
    then show ?thesis
      using own n by blast
  next
    case False
    then have before: "view_owns N v ow n"
      using own[OF n] by blast
    then have "live (qv_objects v') n"
      using nodes(1)[OF False owned_live[OF ok before]] owned_live[OF ok before] len by (auto simp: grows_def live_def)
    then show ?thesis
      using False own owner_unique[OF ok before] by blast
  qed
  moreover have "\<exists>ow. view_owns N v' ow n" if n: "live (qv_objects v') n" for n
  proof (cases "n = m")
    case True
    then show ?thesis
      using own_m(2) n by blast
  next
    case False
    then obtain ow where "view_owns N v ow n"
      using ok nodes(2)[OF False n] unfolding queue_ok_def owners_ok_def by blast
    then show ?thesis
      using own_m(1) False by blast
  qed
  moreover have "\<exists>k. node_next v' n k" if n: "view_owns N v' ow n" "ow \<noteq> In_List" "\<forall>t. ow \<noteq> New_Of t" for ow n
  proof (cases "n = m")
    case True
    then show ?thesis
      using own[OF n(1)] next_m n(2,3) by blast
  next
    case False
    then have "view_owns N v ow n"
      using own[OF n(1)] by blast
    moreover from this obtain k where "node_next v n k"
      using ok n(2,3) unfolding queue_ok_def owners_ok_def by blast
    ultimately show ?thesis
      using grows_next[OF _ nodes(1)[OF False owned_live[OF ok]] len] by blast
  qed
  ultimately have owners: "owners_ok N v'"
    unfolding owners_ok_def by blast
  have "queue_thread_ok N v' u" for u
  proof (cases "u = t")
    case True
    then show ?thesis
      using me by simp
  next
    case False
    have pc': "qv_pc v' u = qv_pc v u"
      using pc False by simp
    note before = thread_known[OF ok, of u]
    have "holds N v' u f" if f: "f \<in> set (needs (qv_pc v u))" for f
    proof (rule fact_kept[OF _ f len _ _ fresh[OF False] old behind])
      show "holds N v u f"
        using before f by (simp add: queue_thread_ok_def)
      have "u < N"
        using before f by (cases "u < N") (auto simp: queue_thread_ok_def)
      show "safe N v' u i c \<and> grows (qv_objects v ! c) (qv_objects v' ! c)" if i: "i < 2" and c: "safe N v u i c" for i c
      proof -
        have "queue_published N v' c \<and> grows (qv_objects v ! c) (qv_objects v' ! c)"
        proof (cases "c = m")
          case True
          then show ?thesis
            using safe_m[OF False \<open>u < N\<close> i] c by blast
        next
          case c_m: False
          obtain ow where ow: "view_owns N v ow c" "\<forall>t. ow \<noteq> New_Of t"
            using c by (auto simp: safe_def queue_published_def)
          then show ?thesis
            using own_m(1)[OF ow(1) c_m] nodes(1)[OF c_m owned_live[OF ok ow(1)]] by (auto simp: queue_published_def)
        qed
        then show ?thesis
          using cov[OF False \<open>u < N\<close> i c] c same[OF False] by (simp add: safe_def)
      qed
    qed (use same[OF False] in auto)
    then show ?thesis
      using before same[OF False] pc' by (simp add: queue_thread_ok_def)
  qed
  then show ?thesis
    using list inv owners by (simp add: queue_ok_def)
qed

text \<open>A turn that leaves all nodes where they are; it may move \<open>tail\<close> forward.\<close>

lemma queue_ok_stay:
  assumes ok: "queue_ok N v xs" and inv: "hp_inv N 2 (qv_hazard v')" and pending: "pending (qv_hazard v') = pending (qv_hazard v)"
    and pc: "qv_pc v' = (qv_pc v)(t := p)" "linking p = linking (qv_pc v t)" "unlinked p = unlinked (qv_pc v t)"
    and eq: "qv_objects v' = qv_objects v" "qv_nodes v' = qv_nodes v" "qv_head v' = qv_head v" "qv_tail v' = qv_tail v \<or> qv_tail v' \<in> set (tl (qv_nodes v))"
    and me: "queue_thread_ok N v' t"
    and same: "\<And>u. u \<noteq> t \<Longrightarrow> qv_doing v' u = qv_doing v u \<and> qv_effects v' u = qv_effects v u \<and> freeing (qv_hazard v') u = freeing (qv_hazard v) u \<and>
      hs_pc (qv_hazard v') u = hs_pc (qv_hazard v) u \<and> guards (qv_hazard v') u = guards (qv_hazard v) u"
    and cov: "\<And>u i c. u \<noteq> t \<Longrightarrow> u < N \<Longrightarrow> i < 2 \<Longrightarrow> safe N v u i c \<Longrightarrow> covered (qv_hazard v') u i c"
  shows "queue_ok N v' xs"
proof -
  have owns: "view_owns N v' ow n = view_owns N v ow n" for ow n
    using pc pending eq(2) by (cases ow) auto
  show ?thesis
  proof (rule queue_ok_move[OF ok _ inv pc(1) _ _ _ _ _ _ _ _ me same cov, where m = "length (qv_objects v)" and ow' = In_List])
    have "qv_tail v' \<in> set (qv_nodes v)"
      using ok eq(4) by (auto simp: queue_ok_def list_ok_def dest: list.set_sel(2)[rotated])
    then show "list_ok v' xs"
      using ok eq(1-3) by (simp add: queue_ok_def list_ok_def)
    show "n \<noteq> length (qv_objects v) \<and> view_owns N v ow n \<or> n = length (qv_objects v) \<and> ow = In_List \<and> live (qv_objects v') (length (qv_objects v))"
      if "view_owns N v' ow n" for ow n
      using that owned_live[OF ok, of ow n] by (auto simp: owns live_def)
    show "queue_published N v' (length (qv_objects v)) \<and> grows (qv_objects v ! length (qv_objects v)) (qv_objects v' ! length (qv_objects v))"
      if s: "safe N v u i (length (qv_objects v))" for u i
    proof -
      obtain ow where "view_owns N v ow (length (qv_objects v))"
        using s by (auto simp: safe_def queue_published_def)
      then show ?thesis
        using owned_live[OF ok] by (auto simp: live_def)
    qed
    show "qv_tail v' \<noteq> c" if "c \<notin> set (tl (qv_nodes v))" "qv_head v = c \<longrightarrow> qv_tail v \<noteq> c" "qv_head v' = c" for c
      using that eq(3,4) by auto
  qed (use eq owns in \<open>auto simp: live_def intro: grows_refl\<close>)
qed

lemma holds_stay:
  assumes "linking p = linking (qv_pc v t)" "unlinked p = unlinked (qv_pc v t)"
  shows "holds N (v\<lparr>qv_pc := (qv_pc v)(t := p), qv_effects := eff\<rparr>) u f \<longleftrightarrow> holds N v u f"
proof -
  let ?v = "v\<lparr>qv_pc := (qv_pc v)(t := p), qv_effects := eff\<rparr>"
  have "view_owns N ?v ow n = view_owns N v ow n" for ow n
    using assms by (cases ow) auto
  then have "queue_published N ?v n = queue_published N v n" for n
    by (simp add: queue_published_def)
  then show ?thesis
    by (cases f) (simp_all add: safe_def node_next_def)
qed

text \<open>A thread goes on to another place, with facts that it knows already.\<close>

lemma queue_ok_goto:
  assumes ok: "queue_ok N v xs" and t: "t < N" and old: "\<forall>d. qv_pc v t \<noteq> Deq_Reclaim d" "\<forall>x. qv_pc v t \<noteq> Enq_Allocate x" "\<forall>x. p \<noteq> Enq_Allocate x"
    and p: "linking p = linking (qv_pc v t)" "unlinked p = unlinked (qv_pc v t)" "\<forall>f \<in> set (needs p). holds N v t f" "effect_ok p e"
  shows "queue_ok N (v\<lparr>qv_pc := (qv_pc v)(t := p), qv_effects := (qv_effects v)(t := e)\<rparr>) xs"
proof (rule queue_ok_stay[OF ok, where t = t and p = p])
  let ?v = "v\<lparr>qv_pc := (qv_pc v)(t := p), qv_effects := (qv_effects v)(t := e)\<rparr>"
  have "queue_pool_doing p fr = queue_pool_doing (qv_pc v t) fr" for fr
    using old by (simp add: queue_pool_doing_def split: queue_pc.splits)
  then show "queue_thread_ok N ?v t"
    using thread_known[OF ok, of t] t old(1) p holds_stay[OF p(1,2)] by (auto simp: queue_thread_ok_def)
qed (use p(1,2) queue_ok_hp[OF ok] in \<open>auto simp: safe_def\<close>)

text \<open>The same, with a compare-and-swap of \<open>tail\<close> from a node to the next one.\<close>

lemma queue_ok_tail:
  assumes ok: "queue_ok N v xs" and t: "t < N" and known: "holds N v t (Followed c n)" and p: "p \<in> {Queue_Idle, Deq_Load} \<or> (\<exists>x m. p = Enq_Load x m)"
    and old: "\<forall>d. qv_pc v t \<noteq> Deq_Reclaim d" "\<forall>x. qv_pc v t \<noteq> Enq_Allocate x"
    and same: "linking p = linking (qv_pc v t)" "unlinked p = unlinked (qv_pc v t)" "\<forall>f \<in> set (needs p). holds N v t f" "effect_ok p e"
    and a: "a = (if qv_tail v = c then n else qv_tail v)"
  shows "queue_ok N (v\<lparr>qv_pc := (qv_pc v)(t := p), qv_effects := (qv_effects v)(t := e), qv_tail := a\<rparr>) xs"
proof (rule queue_ok_stay[OF ok, where t = t and p = p])
  let ?v = "v\<lparr>qv_pc := (qv_pc v)(t := p), qv_effects := (qv_effects v)(t := e), qv_tail := a\<rparr>"
  have "\<forall>x. p \<noteq> Enq_Allocate x"
    using p by auto
  then have doing: "queue_pool_doing p fr = queue_pool_doing (qv_pc v t) fr" for fr
    using old(2) by (simp add: queue_pool_doing_def split: queue_pc.splits)
  have "holds N ?v t f" if "f \<in> set (needs p)" for f
    using that p same(3) by auto
  then show "queue_thread_ok N ?v t"
    using thread_known[OF ok, of t] t old(1) doing same(4) by (auto simp: queue_thread_ok_def)
  have "n \<in> set (tl ns)" if "chain objects q ns" "c \<in> set ns" "qn_next node = Some n" "objects ! c = Some node" for objects node q ns
    using that
  proof (induction ns arbitrary: q)
    case (Cons b ns)
    then show ?case
      by (cases "b = c"; cases ns) auto
  qed simp
  then show "qv_tail ?v = qv_tail v \<or> qv_tail ?v \<in> set (tl (qv_nodes v))"
    using ok known a by (auto simp: queue_ok_def list_ok_def node_next_def)
qed (use same(1,2) queue_ok_hp[OF ok] in \<open>auto simp: safe_def\<close>)

text \<open>The turn that sets a guard.\<close>

lemma queue_ok_guard:
  assumes ok: "queue_ok N v xs" and t: "t < N"
    and step: "(\<exists>x n a. qv_pc v t = Enq_Guard x n a \<and> i = 0 \<and> g = Some a \<and> p = Enq_Check x n a) \<or> (\<exists>c. qv_pc v t = Deq_Guard c \<and> i = 0 \<and> g = Some c \<and> p = Deq_Check c) \<or>
      (\<exists>c a. qv_pc v t = Deq_Guard_Next c a g \<and> i = 1 \<and> p = Deq_Again c a g)"
  shows "\<exists>h'. GuardPointer t i g (qv_hazard v) = Some h' \<and> queue_ok N (v\<lparr>qv_hazard := h', qv_pc := (qv_pc v)(t := p)\<rparr>) xs"
proof -
  have i: "i < 2"
    using step by auto
  obtain h' where h': "GuardPointer t i g (qv_hazard v) = Some h'" "hp_inv N 2 h'" "guards h' t = (guards (qv_hazard v) t)[i := g]"
      "\<forall>u. u \<noteq> t \<longrightarrow> guards h' u = guards (qv_hazard v) u" "hs_pc h' = hs_pc (qv_hazard v)" "freeing h' = freeing (qv_hazard v)"
      "pending h' = pending (qv_hazard v)" "covered h' = covered (qv_hazard v)"
    using guard_pointer_ok[OF queue_ok_hp[OF ok] t i, of g] by auto
  let ?v = "v\<lparr>qv_hazard := h', qv_pc := (qv_pc v)(t := p)\<rparr>"
  have "length (guards (qv_hazard v) t) = 2"
    using entry_facts(2)[OF queue_ok_hp[OF ok] t] by (simp add: entry_shape_def guards_def)
  then have guard: "guards h' t ! i = g" "\<And>j. j \<noteq> i \<Longrightarrow> guards h' t ! j = guards (qv_hazard v) t ! j"
    using i by (simp_all add: h'(3))
  have same: "linking p = linking (qv_pc v t)" "unlinked p = unlinked (qv_pc v t)"
    using step by auto
  then have owns: "view_owns N ?v ow n = view_owns N v ow n" for ow n
    by (cases ow) (auto simp: h'(7))
  then have "safe N ?v t 0 c = safe N v t 0 c" if "i \<noteq> 0" for c
    using that guard(2)[of 0] by (simp add: safe_def queue_published_def h'(8))
  then have kept: "holds N ?v t f = holds N v t f" if "i \<noteq> 0 \<or> (\<exists>n x. f = Fresh n x)" "f \<in> set (known_tail c a @ known_next c nxt) \<or> (\<exists>n x. f = Fresh n x)" for f c a nxt
    using that by (auto simp: known_tail_def known_next_def node_next_def split: if_splits option.splits)
  have "holds N ?v t f" if f: "f \<in> set (needs p)" for f
    using step
  proof (elim disjE exE conjE)
    fix c a assume step: "qv_pc v t = Deq_Guard_Next c a g" "i = 1" "p = Deq_Again c a g"
    then have "f = Guarded 1 g \<or> f \<in> set (known_tail c a @ known_next c g)" "f \<in> set (known_tail c a @ known_next c g) \<Longrightarrow> holds N v t f"
      using f thread_known[OF ok, of t] by (auto simp: queue_thread_ok_def)
    then show ?thesis
      using guard(1) kept[of f c a g] step(2) by auto
  qed (use f guard(1) thread_known[OF ok, of t] in \<open>auto simp: queue_thread_ok_def\<close>)
  moreover have "effect_ok p e = effect_ok (qv_pc v t) e" for e
    using step by (cases g) auto
  moreover have "queue_pool_doing p fr = queue_pool_doing (qv_pc v t) fr" for fr
    using step by (auto simp: queue_pool_doing_def)
  ultimately have "queue_thread_ok N ?v t"
    using thread_known[OF ok, of t] t step by (auto simp: queue_thread_ok_def h'(5,6))
  then have "queue_ok N ?v xs"
    using same h' by (intro queue_ok_stay[OF ok, where t = t and p = p]) (auto simp: safe_def)
  then show ?thesis
    using h'(1) by blast
qed

lemma chain_cong:
  "(\<And>n. n \<in> set ns \<Longrightarrow> objects' ! n = objects ! n) \<Longrightarrow> length objects' = length objects \<Longrightarrow> chain objects' p ns \<longleftrightarrow> chain objects p ns"
  by (induction ns arbitrary: p) auto

lemma list_ok_cong:
  assumes "list_ok v xs" "\<And>n. n \<in> set (qv_nodes v) \<Longrightarrow> objects ! n = qv_objects v ! n" "length objects = length (qv_objects v)"
    and "qv_objects v' = objects" "qv_nodes v' = qv_nodes v" "qv_head v' = qv_head v" "qv_tail v' = qv_tail v"
  shows "list_ok v' xs"
proof -
  have "map (element_of objects) (tl (qv_nodes v)) = map (element_of (qv_objects v)) (tl (qv_nodes v))"
    using assms(2) by (cases "qv_nodes v") (auto simp: element_of_def)
  also have "\<dots> = map Some xs"
    using assms(1) by (simp add: list_ok_def)
  finally show ?thesis
    using assms chain_cong[of "qv_nodes v" objects "qv_objects v"] by (simp add: list_ok_def)
qed

lemma not_published: "queue_ok N v xs \<Longrightarrow> linking (qv_pc v t) = Some m \<Longrightarrow> \<not> queue_published N v m"
  using owner_unique[of N v xs "New_Of t" m] by (auto simp: queue_published_def)

text \<open>The turn in which the object pool creates a node.\<close>

lemma queue_ok_create:
  assumes ok: "queue_ok N v xs" and m: "m < length (qv_objects v)" "qv_objects v ! m = None"
    and t: "t < N" "qv_pc v t = Queue_Idle \<or> qv_pc v t = Enq_Allocate x" and doing: "doing' t = None" "\<And>u. u \<noteq> t \<Longrightarrow> doing' u = qv_doing v u"
  shows "queue_ok N (v\<lparr>qv_objects := (qv_objects v)[m := Some (LockFreeMPMCQueueNode_new x)], qv_doing := doing', qv_pc := (qv_pc v)(t := Enq_Load x m)\<rparr>) xs"
proof -
  let ?v = "v\<lparr>qv_objects := (qv_objects v)[m := Some (LockFreeMPMCQueueNode_new x)], qv_doing := doing', qv_pc := (qv_pc v)(t := Enq_Load x m)\<rparr>"
  have free: "\<not> view_owns N v ow m" for ow
    using owned_live[OF ok, of ow m] m(2) by (auto simp: live_def)
  have fr: "freeing (qv_hazard v) t = None" and me: "hs_pc (qv_hazard v) t = Hp_Idle" "effect_ok (Enq_Load x m) (qv_effects v t)"
    using thread_known[OF ok, of t] t by (auto simp: queue_thread_ok_def freeing_def)
  have m_new: "n \<noteq> m" if "view_owns N v ow n" for ow n
    using that free by blast
  show ?thesis
  proof (rule queue_ok_move[OF ok, where t = t and m = m and ow' = "New_Of t" and p = "Enq_Load x m"])
    show "list_ok ?v xs"
    proof (rule list_ok_cong[of v xs "qv_objects ?v"])
      show "qv_objects ?v ! n = qv_objects v ! n" if "n \<in> set (qv_nodes v)" for n
        using m_new[of In_List n] that by simp
    qed (use ok in \<open>simp_all add: queue_ok_def\<close>)
    show "n \<noteq> m \<and> view_owns N v ow n \<or> n = m \<and> ow = New_Of t \<and> live (qv_objects ?v) m" if "view_owns N ?v ow n" for ow n
      using that free[of ow] m t(2) by (cases ow) (auto simp: live_def split: if_splits)
    show "view_owns N ?v ow n" if "view_owns N v ow n" "n \<noteq> m" for ow n
      using that t(2) by (cases ow) auto
    show "qv_objects ?v ! n = qv_objects v ! n" if "linking (qv_pc v u) = Some n" for u n
      using that free[of "New_Of u"] by (cases "n = m") auto
    show "queue_thread_ok N ?v t"
      using t doing(1) fr me m by (simp add: queue_thread_ok_def queue_pool_doing_def)
    show "queue_published N ?v m \<and> grows (qv_objects v ! m) (qv_objects ?v ! m)" if "safe N v u i m" for u i
      using that free by (auto simp: safe_def queue_published_def)
  qed (use doing queue_ok_hp[OF ok] in \<open>auto simp: safe_def live_def grows_refl nth_list_update\<close>)
qed

text \<open>A node of the list without a next one is its last node, and so is any published node.\<close>

lemma published_last:
  assumes ok: "queue_ok N v xs" and c: "queue_published N v c" "qv_objects v ! c = Some node" "qn_next node = None"
  obtains ns where "qv_nodes v = ns @ [c]"
proof -
  obtain ow where ow: "view_owns N v ow c" "\<forall>t. ow \<noteq> New_Of t"
    using c(1) by (auto simp: queue_published_def)
  have "ow = In_List"
  proof (rule ccontr)
    assume "ow \<noteq> In_List"
    then obtain k where "node_next v c k"
      using ok ow unfolding queue_ok_def owners_ok_def by blast
    then show False
      using c(2,3) by (simp add: node_next_def)
  qed
  have "\<exists>ms. ns = ms @ [c]" if "chain objects q ns" "c \<in> set ns" "objects ! c = Some node" for objects q ns
    using that
  proof (induction ns arbitrary: q)
    case (Cons b ns)
    show ?case
    proof (cases "b = c")
      case True
      then show ?thesis
        using Cons.prems c(3) by (cases ns) auto
    next
      case False
      then obtain ms where "ns = ms @ [c]"
        using Cons by auto
      then show ?thesis
        by (intro exI[of _ "b # ms"]) simp
    qed
  qed simp
  from this[of "qv_objects v" "Some (qv_head v)" "qv_nodes v"] show thesis
    using ok ow(1) \<open>ow = In_List\<close> c(2) that by (auto simp: queue_ok_def list_ok_def)
qed

lemma chain_link:
  assumes "chain objects q (ns @ [c])" "distinct (ns @ [c])" "m \<notin> set (ns @ [c])" "objects ! c = Some node" "m < length objects" "objects ! m = Some new" "qn_next new = None"
  shows "chain (objects[c := Some (node\<lparr>qn_next := Some m\<rparr>)]) q (ns @ [c, m])"
  using assms by (induction ns arbitrary: q) auto

text \<open>The compare-and-swap that links a new node behind the last one.\<close>

lemma queue_ok_link:
  assumes ok: "queue_ok N v xs" and t: "t < N" "qv_pc v t = Enq_Link x m c" and node: "qv_objects v ! c = Some node" "qn_next node = None"
  shows "\<exists>ns. queue_ok N (v\<lparr>qv_objects := (qv_objects v)[c := Some (node\<lparr>qn_next := Some m\<rparr>)], qv_pc := (qv_pc v)(t := Enq_Finish m c),
     qv_effects := (qv_effects v)(t := Put_It), qv_nodes := ns\<rparr>) (xs @ [x]) \<and> qv_effects v t = No_Effect"
proof -
  have known: "holds N v t (Fresh m x)" "safe N v t 0 c" "qv_effects v t = No_Effect"
    using thread_known[OF ok, of t] t by (auto simp: queue_thread_ok_def)
  have own: "view_owns N v (New_Of t) m"
    using t(2) by simp
  note unique = owner_unique[OF ok own]
  have published: "queue_published N v c"
    using known(2) by (simp add: safe_def)
  obtain ns where ns: "qv_nodes v = ns @ [c]"
    using published_last[OF ok published node] .
  have m: "m \<notin> set (qv_nodes v)" "m \<noteq> c"
    using unique[of In_List] not_published[OF ok, of t m] t(2) published by auto
  let ?objects = "(qv_objects v)[c := Some (node\<lparr>qn_next := Some m\<rparr>)]"
  let ?v = "v\<lparr>qv_objects := ?objects, qv_pc := (qv_pc v)(t := Enq_Finish m c), qv_effects := (qv_effects v)(t := Put_It), qv_nodes := ns @ [c, m]\<rparr>"
  have list: "chain (qv_objects v) (Some (qv_head v)) (ns @ [c])" "distinct (ns @ [c])" "qv_tail v \<in> set (ns @ [c])" "map (element_of (qv_objects v)) (tl (ns @ [c])) = map Some xs"
    using ok by (simp_all add: queue_ok_def list_ok_def ns)
  have new: "m < length (qv_objects v)" "qv_objects v ! m = Some (LockFreeMPMCQueueNode_new x)"
    using known(1) by simp_all
  have c: "c < length (qv_objects v)"
    using owned_live[OF ok, of In_List c] ns by (simp add: live_def)
  have elements: "element_of ?objects = element_of (qv_objects v)"
    using node(1) c by (auto simp: element_of_def fun_eq_iff nth_list_update)
  have grows: "grows (qv_objects v ! n) (?objects ! n)" if "qv_objects v ! n \<noteq> None" for n
    using that node c by (cases "n = c") (auto simp: grows_def)
  have tl: "tl (ns @ [c, m]) = tl (ns @ [c]) @ [m]"
    by (cases ns) auto
  have "queue_ok N ?v (xs @ [x])"
  proof (rule queue_ok_move[OF ok, where t = t and m = m and ow' = In_List and p = "Enq_Finish m c"])
    have "element_of (qv_objects v) m = Some x"
      using new(2) by (simp add: element_of_def LockFreeMPMCQueueNode_new_def)
    then have "map (element_of ?objects) (tl (ns @ [c, m])) = map Some (xs @ [x])"
      using list(4) by (simp add: tl elements)
    moreover have "chain ?objects (Some (qv_head v)) (ns @ [c, m])"
      using chain_link[OF list(1,2) _ node(1) new] m ns by (simp add: LockFreeMPMCQueueNode_new_def)
    ultimately show "list_ok ?v (xs @ [x])"
      using list(2,3) m by (auto simp: list_ok_def ns)
    have live_m: "live ?objects m"
      using new m(2) by (simp add: live_def)
    show "n \<noteq> m \<and> view_owns N v ow n \<or> n = m \<and> ow = In_List \<and> live (qv_objects ?v) m" if "view_owns N ?v ow n" for ow n
    proof -
      have "view_owns N v ow n \<and> ow \<noteq> New_Of t \<or> n = m \<and> ow = In_List"
        using that t(2) by (cases ow) (auto simp: ns split: if_splits)
      then show ?thesis
        using unique[of ow] live_m by (cases "n = m") auto
    qed
    show "view_owns N ?v ow n" if "view_owns N v ow n" "n \<noteq> m" for ow n
      using that t(2) by (cases ow) (auto simp: ns)
    show "qv_objects ?v ! n = qv_objects v ! n" if "u \<noteq> t" "linking (qv_pc v u) = Some n" for u n
      using not_published[OF ok that(2)] published by (cases "n = c") auto
    show "grows (qv_objects v ! n) (qv_objects ?v ! n)" if "live (qv_objects v) n" for n
      using that grows by (simp add: live_def)
    show "live (qv_objects v) n" if "live (qv_objects ?v) n" for n
      using that node(1) c by (cases "n = c") (auto simp: live_def)
    show "queue_published N ?v m \<and> grows (qv_objects v ! m) (qv_objects ?v ! m)" if "safe N v u i m" for u i
      using that not_published[OF ok, of t m] t(2) by (simp add: safe_def)
    show "n \<notin> set (tl (qv_nodes ?v))" if "queue_published N v n" "n \<notin> set (tl (qv_nodes v))" for n
      using that not_published[OF ok, of t m] t(2) by (auto simp: ns tl)
    have "queue_published N ?v c"
      unfolding queue_published_def by (intro exI[of _ In_List]) simp
    then show "queue_thread_ok N ?v t"
      using thread_known[OF ok, of t] t known(2) c by (auto simp: queue_thread_ok_def queue_pool_doing_def safe_def node_next_def)
  qed (use queue_ok_hp[OF ok] in \<open>auto simp: safe_def\<close>)
  then show ?thesis
    using known(3) by blast
qed

text \<open>The compare-and-swap that moves \<open>head\<close>: the old dummy node is left to the thread.\<close>

lemma queue_ok_unlink:
  assumes ok: "queue_ok N v xs" and t: "t < N" "qv_pc v t = Deq_Swap c n d" and head: "qv_head v = c"
  obtains xs' where "xs = d # xs'" "qv_effects v t = No_Effect \<or> qv_effects v t = Saw_Empty"
    "\<exists>ns. queue_ok N (v\<lparr>qv_head := n, qv_pc := (qv_pc v)(t := Deq_Retire c d), qv_effects := (qv_effects v)(t := Took_It d), qv_nodes := ns\<rparr>) xs'"
proof -
  have known: "holds N v t (Behind c)" "node_next v c n" "element_of (qv_objects v) n = Some d" "qv_effects v t = No_Effect \<or> qv_effects v t = Saw_Empty"
    using thread_known[OF ok, of t] t by (auto simp: queue_thread_ok_def)
  have list: "chain (qv_objects v) (Some c) (qv_nodes v)" "distinct (qv_nodes v)" "qv_tail v \<in> set (qv_nodes v)"
      "map (element_of (qv_objects v)) (tl (qv_nodes v)) = map Some xs"
    using ok head by (simp_all add: queue_ok_def list_ok_def)
  obtain ns where ns: "qv_nodes v = c # n # ns"
  proof (cases "qv_nodes v")
    case (Cons b ms)
    then show ?thesis
      using list(1) known(2) that by (cases ms) (auto simp: node_next_def)
  qed (use list(1) in simp)
  obtain xs' where xs: "xs = d # xs'" "map (element_of (qv_objects v)) ns = map Some xs'"
    using list(4) known(3) by (cases xs) (auto simp: ns)
  have own: "view_owns N v In_List c"
    by (simp add: ns)
  note unique = owner_unique[OF ok own]
  let ?v = "v\<lparr>qv_head := n, qv_pc := (qv_pc v)(t := Deq_Retire c d), qv_effects := (qv_effects v)(t := Took_It d), qv_nodes := n # ns\<rparr>"
  have "queue_ok N ?v xs'"
  proof (rule queue_ok_move[OF ok, where t = t and m = c and ow' = "Popped_By t" and p = "Deq_Retire c d"])
    have "qv_tail v \<noteq> c"
      using known(1) head by simp
    then show "list_ok ?v xs'"
      using list xs(2) by (auto simp: list_ok_def ns)
    show "k \<noteq> c \<and> view_owns N v ow k \<or> k = c \<and> ow = Popped_By t \<and> live (qv_objects ?v) c" if "view_owns N ?v ow k" for ow k
    proof -
      have "view_owns N v ow k \<and> (ow = In_List \<longrightarrow> k \<noteq> c) \<or> k = c \<and> ow = Popped_By t"
        using that t(2) list(2) ns by (cases ow) (auto split: if_splits)
      then show ?thesis
        using unique[of ow] owned_live[OF ok own] by (cases "k = c") auto
    qed
    show "view_owns N ?v ow k" if "view_owns N v ow k" "k \<noteq> c" for ow k
      using that t(2) by (cases ow) (auto simp: ns)
    show "grows (qv_objects v ! k) (qv_objects ?v ! k)" if "live (qv_objects v) k" for k
      using that by (auto simp: live_def grows_refl)
    have "queue_published N ?v c"
      unfolding queue_published_def by (intro exI[of _ "Popped_By t"]) simp
    then show "queue_published N ?v c \<and> grows (qv_objects v ! c) (qv_objects ?v ! c)" for u :: nat and i :: nat
      using owned_live[OF ok own] by (simp add: live_def grows_refl)
    show "\<exists>k. node_next ?v c k"
      using known(2) by (auto simp: node_next_def)
    show "queue_thread_ok N ?v t"
      using thread_known[OF ok, of t] t by (auto simp: queue_thread_ok_def queue_pool_doing_def)
    show "qv_tail ?v \<noteq> k" if "k \<notin> set (tl (qv_nodes v))" "qv_head ?v = k" for k
      using that by (simp add: ns)
  qed (use queue_ok_hp[OF ok] in \<open>auto simp: safe_def ns\<close>)
  then show thesis
    using that xs(1) known(4) by blast
qed

lemma queue_ok_retire:
  assumes ok: "queue_ok N v xs" and t: "t < N" "qv_pc v t = Deq_Retire m d"
  shows "\<exists>h'. EnqueuePointerForDeletion t m (qv_hazard v) = Some h' \<and> queue_ok N (v\<lparr>qv_hazard := h', qv_pc := (qv_pc v)(t := Deq_Reclaim d)\<rparr>) xs"
proof -
  have own: "view_owns N v (Popped_By t) m"
    using t(2) by simp
  note unique = owner_unique[OF ok own]
  have hp: "hs_pc (qv_hazard v) t = Hp_Idle"
    using thread_known[OF ok, of t] t by (auto simp: queue_thread_ok_def)
  have "\<forall>e < N. m \<notin> pending (qv_hazard v) e"
    using unique[of "Retired_By e" for e] by fastforce
  from enqueue_ok[OF queue_ok_hp[OF ok] t(1) hp this] obtain h' where
    h': "EnqueuePointerForDeletion t m (qv_hazard v) = Some h'" "hp_keeps N 2 t (qv_hazard v) h'" "freeing h' t = None" "hs_pc h' t \<noteq> Hp_Gone"
      "pending h' t = insert m (pending (qv_hazard v) t)" "\<forall>f. f \<noteq> t \<longrightarrow> pending h' f = pending (qv_hazard v) f"
    by blast
  let ?v = "v\<lparr>qv_hazard := h', qv_pc := (qv_pc v)(t := Deq_Reclaim d)\<rparr>"
  have "queue_ok N ?v xs"
  proof (rule queue_ok_move[OF ok, where t = t and m = m and ow' = "Retired_By t" and p = "Deq_Reclaim d"])
    show "list_ok ?v xs"
      using ok by (simp add: queue_ok_def list_ok_def)
    show "n \<noteq> m \<and> view_owns N v ow n \<or> n = m \<and> ow = Retired_By t \<and> live (qv_objects ?v) m" if "view_owns N ?v ow n" for ow n
    proof -
      have "view_owns N v ow n \<and> (ow = Popped_By t \<longrightarrow> n \<noteq> m) \<or> n = m \<and> ow = Retired_By t"
        using that t h'(5,6) by (cases ow) (auto split: if_splits)
      then show ?thesis
        using unique[of ow] owned_live[OF ok own] by (cases "n = m") auto
    qed
    show "view_owns N ?v ow n" if "view_owns N v ow n" "n \<noteq> m" for ow n
      using that t(2) h'(5,6) by (cases ow) auto
    show "view_owns N ?v (Retired_By t) m"
      using t(1) h'(5) by simp
    show "grows (qv_objects v ! k) (qv_objects ?v ! k)" if "live (qv_objects v) k" for k
      using that by (auto simp: live_def grows_refl)
    obtain k where "node_next v m k"
      using ok own unfolding queue_ok_def owners_ok_def by blast
    then show "\<exists>k. node_next ?v m k"
      by (auto simp: node_next_def)
    have "queue_published N ?v m"
      unfolding queue_published_def using t(1) h'(5) by (intro exI[of _ "Retired_By t"]) simp
    then show "queue_published N ?v m \<and> grows (qv_objects v ! m) (qv_objects ?v ! m)" for u :: nat and i :: nat
      using owned_live[OF ok own] by (simp add: live_def grows_refl)
    show "queue_thread_ok N ?v t"
      using thread_known[OF ok, of t] t hp h'(3,4) by (auto simp: queue_thread_ok_def queue_pool_doing_def freeing_def)
    show "covered (qv_hazard ?v) u i c" if "u \<noteq> t" "u < N" "i < 2" "safe N v u i c" for u i c
      using that h'(2) thread_known[OF ok, of u] by (auto simp: safe_def hp_keeps_def queue_thread_ok_def)
  qed (use h'(2) in \<open>auto simp: hp_keeps_def\<close>)
  then show ?thesis
    using h'(1) by blast
qed

lemma queue_ok_finish:
  assumes ok: "queue_ok N v xs" and t: "t < N" "qv_pc v t = Deq_Reclaim d" "hs_pc (qv_hazard v) t = Hp_Idle"
  shows "queue_ok N (v\<lparr>qv_pc := (qv_pc v)(t := Queue_Idle), qv_effects := (qv_effects v)(t := No_Effect)\<rparr>) xs" "qv_effects v t = Took_It d"
proof -
  have me: "queue_thread_ok N v t"
    using thread_known[OF ok] .
  then show "qv_effects v t = Took_It d"
    using t by (simp add: queue_thread_ok_def)
  show "queue_ok N (v\<lparr>qv_pc := (qv_pc v)(t := Queue_Idle), qv_effects := (qv_effects v)(t := No_Effect)\<rparr>) xs"
  proof (rule queue_ok_stay[OF ok, where t = t and p = Queue_Idle])
    show "queue_thread_ok N (v\<lparr>qv_pc := (qv_pc v)(t := Queue_Idle), qv_effects := (qv_effects v)(t := No_Effect)\<rparr>) t"
      using me t by (auto simp: queue_thread_ok_def queue_pool_doing_def)
  qed (use t queue_ok_hp[OF ok] in \<open>auto simp: safe_def\<close>)
qed

text \<open>Turns of a scan that do not begin to free a node.\<close>

lemma queue_ok_scan:
  assumes ok: "queue_ok N v xs" and t: "t < N" "qv_pc v t = Deq_Reclaim d" and keeps: "hp_keeps N 2 t (qv_hazard v) h'"
    and gone: "hs_pc h' t \<noteq> Hp_Gone" and pending: "pending h' = pending (qv_hazard v)"
    and doing: "doing' t = map_option Free_Object (freeing h' t)" "\<And>u. u \<noteq> t \<Longrightarrow> doing' u = qv_doing v u"
  shows "queue_ok N (v\<lparr>qv_hazard := h', qv_doing := doing'\<rparr>) xs"
proof (rule queue_ok_stay[OF ok, where t = t and p = "Deq_Reclaim d"])
  show "queue_thread_ok N (v\<lparr>qv_hazard := h', qv_doing := doing'\<rparr>) t"
    using thread_known[OF ok, of t] t gone doing(1) by (auto simp: queue_thread_ok_def queue_pool_doing_def)
  show "covered (qv_hazard (v\<lparr>qv_hazard := h', qv_doing := doing'\<rparr>)) u i c" if "u \<noteq> t" "u < N" "i < 2" "safe N v u i c" for u i c
    using that keeps thread_known[OF ok, of u] by (auto simp: safe_def hp_keeps_def queue_thread_ok_def)
qed (use t keeps doing(2) pending in \<open>auto simp: hp_keeps_def\<close>)

text \<open>The turn that frees a node.\<close>

lemma queue_ok_free:
  assumes ok: "queue_ok N v xs" and t: "t < N" "qv_pc v t = Deq_Reclaim d" and keeps: "hp_keeps N 2 t (qv_hazard v) h'"
    and gone: "hs_pc h' t \<noteq> Hp_Gone" and e: "e < N" "g \<in> pending (qv_hazard v) e" "pending h' = (pending (qv_hazard v))(e := pending (qv_hazard v) e - {g})"
    and free: "\<forall>t' pos. t' < N \<and> pos < 2 \<and> guards (qv_hazard v) t' ! pos = Some g \<and> hs_pc (qv_hazard v) t' \<noteq> Hp_Gone \<longrightarrow> \<not> covered (qv_hazard v) t' pos g"
    and doing: "doing' t = map_option Free_Object (freeing h' t)" "\<And>u. u \<noteq> t \<Longrightarrow> doing' u = qv_doing v u"
  shows "queue_ok N (v\<lparr>qv_hazard := h', qv_doing := doing', qv_objects := (qv_objects v)[g := None]\<rparr>) xs"
proof -
  have own: "view_owns N v (Retired_By e) g"
    using e by simp
  note unique = owner_unique[OF ok own]
  let ?v = "v\<lparr>qv_hazard := h', qv_doing := doing', qv_objects := (qv_objects v)[g := None]\<rparr>"
  have own': "n \<noteq> g \<and> view_owns N v ow n \<longleftrightarrow> view_owns N ?v ow n" for ow n
  proof (cases "n = g")
    case True
    have "\<not> view_owns N ?v ow g"
    proof
      assume "view_owns N ?v ow g"
      then have "view_owns N v ow g" "ow \<noteq> Retired_By e"
        by (cases ow; simp add: e(3) split: if_splits)+
      then show False
        using unique by blast
    qed
    then show ?thesis
      using True by simp
  next
    case False
    then show ?thesis
      by (cases ow) (auto simp: e(3))
  qed
  have not_safe: "\<not> safe N v u i g" if "u < N" "i < 2" for u i
    using free that thread_known[OF ok, of u] by (auto simp: safe_def queue_thread_ok_def)
  show ?thesis
  proof (rule queue_ok_move[OF ok, where t = t and m = g and ow' = "New_Of t" and p = "Deq_Reclaim d"])
    show "list_ok ?v xs"
    proof (rule list_ok_cong[of v xs "qv_objects ?v"])
      show "qv_objects ?v ! n = qv_objects v ! n" if "n \<in> set (qv_nodes v)" for n
        using unique[of In_List] that by (cases "n = g") auto
    qed (use ok in \<open>simp_all add: queue_ok_def\<close>)
    show "n \<noteq> g \<and> view_owns N v ow n \<or> n = g \<and> ow = New_Of t \<and> live (qv_objects ?v) g" if "view_owns N ?v ow n" for ow n
      using that own'[of n ow] by simp
    show "view_owns N ?v ow n" if "view_owns N v ow n" "n \<noteq> g" for ow n
      using that own'[of n ow] by simp
    show "view_owns N ?v (New_Of t) g" if "live (qv_objects ?v) g"
      using that by (cases "g < length (qv_objects v)") (simp_all add: live_def)
    show "grows (qv_objects v ! n) (qv_objects ?v ! n)" if "n \<noteq> g" "live (qv_objects v) n" for n
      using that by (auto simp: live_def grows_refl)
    show "live (qv_objects v) n" if "n \<noteq> g" "live (qv_objects ?v) n" for n
      using that by (auto simp: live_def)
    show "qv_objects ?v ! n = qv_objects v ! n" if "linking (qv_pc v u) = Some n" for u n
      using unique[of "New_Of u"] that by (cases "n = g") auto
    show "queue_thread_ok N ?v t"
      using thread_known[OF ok, of t] t gone doing(1) by (auto simp: queue_thread_ok_def queue_pool_doing_def)
    show "queue_published N ?v g \<and> grows (qv_objects v ! g) (qv_objects ?v ! g)" if "u < N" "i < 2" "safe N v u i g" for u i
      using not_safe that by blast
    show "covered (qv_hazard ?v) u i c" if "u \<noteq> t" "u < N" "i < 2" "safe N v u i c" for u i c
      using that keeps thread_known[OF ok, of u] by (auto simp: safe_def hp_keeps_def queue_thread_ok_def)
  qed (use t keeps doing(2) in \<open>auto simp: hp_keeps_def\<close>)
qed

section \<open>What a thread learns\<close>

text \<open>A guarded node that is found in the list is safe.\<close>

lemma list_safe:
  assumes ok: "queue_ok N v xs" and c: "c \<in> set (qv_nodes v)" and guard: "guards (qv_hazard v) t ! i = Some c"
  shows "safe N v t i c"
proof -
  have own: "view_owns N v In_List c"
    using c by simp
  have "c \<notin> pending (qv_hazard v) e" if "e < N" for e
    using owner_unique[OF ok own, of "Retired_By e"] that by auto
  then have "covered (qv_hazard v) t i c"
    by (intro covered_if_not_pending[OF queue_ok_hp[OF ok]]) blast
  moreover have "queue_published N v c"
    unfolding queue_published_def using own by (intro exI[of _ In_List]) simp
  ultimately show ?thesis
    using guard by (simp add: safe_def)
qed

lemma head_old:
  assumes ok: "queue_ok N v xs" and guard: "guards (qv_hazard v) t ! 0 = Some (qv_head v)"
  shows "holds N v t (Old (qv_head v))"
proof -
  have "chain (qv_objects v) (Some (qv_head v)) (qv_nodes v)" "distinct (qv_nodes v)"
    using ok by (simp_all add: queue_ok_def list_ok_def)
  then have "qv_head v \<in> set (qv_nodes v) \<and> qv_head v \<notin> set (tl (qv_nodes v))"
    by (cases "qv_nodes v") auto
  then show ?thesis
    using list_safe[OF ok _ guard] by simp
qed

lemma safe_node: "queue_ok N v xs \<Longrightarrow> safe N v t i c \<Longrightarrow> \<exists>node. c < length (qv_objects v) \<and> qv_objects v ! c = Some node"
  using owned_live[of N v xs] by (fastforce simp: safe_def queue_published_def live_def)

lemma known_next_holds:
  assumes "queue_ok N v xs" "safe N v t 0 c" "qv_objects v ! c = Some node"
  shows "\<forall>f \<in> set (known_next c (qn_next node)). holds N v t f"
  using assms safe_node[OF assms(1,2)] by (auto simp: known_next_def node_next_def split: option.splits)

lemma next_none_empty:
  assumes ok: "queue_ok N v xs" and old: "holds N v t (Old c)" and node: "qv_objects v ! c = Some node" "qn_next node = None"
  shows "xs = []"
proof -
  have "queue_published N v c"
    using old by (simp add: safe_def)
  then obtain ns where ns: "qv_nodes v = ns @ [c]"
    using published_last[OF ok _ node] by blast
  then have "ns = []"
    using old by (cases ns) auto
  then show ?thesis
    using ok ns by (simp add: queue_ok_def list_ok_def)
qed

lemma second_readable:
  assumes ok: "queue_ok N v xs" and nxt: "node_next v (qv_head v) n" and guard: "guards (qv_hazard v) t ! 1 = Some n"
  shows "holds N v t (Readable n)"
proof -
  have list: "chain (qv_objects v) (Some (qv_head v)) (qv_nodes v)" "map (element_of (qv_objects v)) (tl (qv_nodes v)) = map Some xs"
    using ok by (simp_all add: queue_ok_def list_ok_def)
  obtain b ms where b: "qv_nodes v = b # ms"
    using list(1) by (cases "qv_nodes v") auto
  obtain ns where ns: "qv_nodes v = qv_head v # n # ns"
    using list(1) nxt b by (cases ms) (auto simp: node_next_def)
  then have "element_of (qv_objects v) n \<noteq> None"
    using list(2) by (cases xs) auto
  then show ?thesis
    using list_safe[OF ok _ guard] ns by simp
qed

section \<open>The queue over an object pool\<close>

definition view_of :: "('s, 'a) queue_system \<Rightarrow> (nat \<Rightarrow> 'a queue_effect) \<Rightarrow> nat list \<Rightarrow> 'a queue_view" where
  "view_of s eff ns = \<lparr>qv_head = qs_head s, qv_tail = qs_tail s, qv_hazard = qs_hazard s, qv_objects = qnodes s, qv_doing = os_doing (qs_pool s),
     qv_pc = qs_pc s, qv_effects = eff, qv_nodes = ns\<rparr>"

lemma view_of_simps:
  "qv_head (view_of s eff ns) = qs_head s" "qv_tail (view_of s eff ns) = qs_tail s" "qv_hazard (view_of s eff ns) = qs_hazard s"
  "qv_objects (view_of s eff ns) = qnodes s" "qv_doing (view_of s eff ns) = os_doing (qs_pool s)" "qv_pc (view_of s eff ns) = qs_pc s"
  "qv_effects (view_of s eff ns) = eff" "qv_nodes (view_of s eff ns) = ns"
  by (simp_all add: view_of_def)

definition queue_inv :: "(('s, 'a LockFreeMPMCQueueNode) object_system \<Rightarrow> bool) \<Rightarrow> nat \<Rightarrow> ('s, 'a) queue_system \<Rightarrow> 'a list \<Rightarrow> (nat \<Rightarrow> 'a queue_effect) \<Rightarrow> bool" where
  "queue_inv pool_ok N s xs eff \<longleftrightarrow> pool_ok (qs_pool s) \<and> (\<exists>ns. queue_ok N (view_of s eff ns) xs)"

context object_pool_client
begin

abbreviation qpool_ok :: "nat \<Rightarrow> ('s, 'a LockFreeMPMCQueueNode) object_system \<Rightarrow> bool" where
  "qpool_ok capacity \<equiv> object_inv inv vals phase capacity"

abbreviation qnode_turn :: "('s, 'a) queue_pool_turn" where
  "qnode_turn \<equiv> object_turn turn idle"

text \<open>A turn of the queue is defined, is allowed by the sequential queue, and keeps the invariant.\<close>

definition good_queue_turn :: "nat \<Rightarrow> nat \<Rightarrow> 'a list \<Rightarrow> (nat \<Rightarrow> 'a queue_effect) \<Rightarrow> ('a queue_event \<times> ('s, 'a) queue_system) option \<Rightarrow> bool" where
  "good_queue_turn capacity t xs eff r \<longleftrightarrow> (\<exists>ev s' xs' eff'. r = Some (ev, s') \<and> queue_spec_turn t ev (xs, eff) = Some (xs', eff') \<and> queue_inv (qpool_ok capacity) threads s' xs' eff')"

lemma good_queue_turnI:
  "r = Some (ev, s') \<Longrightarrow> queue_spec_turn t ev (xs, eff) = Some (xs', eff') \<Longrightarrow> qpool_ok capacity (qs_pool s') \<Longrightarrow>
   queue_ok threads v xs' \<Longrightarrow> view_of s' eff' ns = v \<Longrightarrow> good_queue_turn capacity t xs eff r"
  unfolding good_queue_turn_def queue_inv_def by blast

text \<open>Turns that only go on to another place.\<close>

lemma queue_goto_good:
  assumes pool: "qpool_ok capacity (qs_pool s)" and ok: "queue_ok threads (view_of s eff ns) xs" and t: "t < threads"
    and old: "\<forall>d. qs_pc s t \<noteq> Deq_Reclaim d" "\<forall>x. qs_pc s t \<noteq> Enq_Allocate x" "\<forall>x. p \<noteq> Enq_Allocate x"
    and p: "linking p = linking (qs_pc s t)" "unlinked p = unlinked (qs_pc s t)" "\<forall>f \<in> set (needs p). holds threads (view_of s eff ns) t f" "effect_ok p e"
    and r: "r = Some (ev, queue_goto t p s)" "queue_spec_turn t ev (xs, eff) = Some (xs, eff(t := e))"
  shows "good_queue_turn capacity t xs eff r"
  using queue_ok_goto[OF ok t, of p e] old p pool
  by (intro good_queue_turnI[OF r]) (simp_all add: queue_goto_def view_of_def)

lemma queue_quiet_good:
  assumes "qpool_ok capacity (qs_pool s)" "queue_ok threads (view_of s eff ns) xs" "t < threads"
    and "\<forall>d. qs_pc s t \<noteq> Deq_Reclaim d" "\<forall>x. qs_pc s t \<noteq> Enq_Allocate x" "\<forall>x. p \<noteq> Enq_Allocate x"
    and "linking p = linking (qs_pc s t)" "unlinked p = unlinked (qs_pc s t)" "\<forall>f \<in> set (needs p). holds threads (view_of s eff ns) t f" "effect_ok p (eff t)"
    and "r = Some (Queue_Quiet, queue_goto t p s)"
  shows "good_queue_turn capacity t xs eff r"
  using queue_goto_good[OF assms(1-11)] by simp

lemma queue_tail_good:
  assumes pool: "qpool_ok capacity (qs_pool s)" and ok: "queue_ok threads (view_of s eff ns) xs" and t: "t < threads"
    and known: "holds threads (view_of s eff ns) t (Followed c n)" and p: "p \<in> {Queue_Idle, Deq_Load} \<or> (\<exists>x m. p = Enq_Load x m)"
    and old: "\<forall>d. qs_pc s t \<noteq> Deq_Reclaim d" "\<forall>x. qs_pc s t \<noteq> Enq_Allocate x"
    and same: "linking p = linking (qs_pc s t)" "unlinked p = unlinked (qs_pc s t)" "\<forall>f \<in> set (needs p). holds threads (view_of s eff ns) t f" "effect_ok p e"
    and r: "r = Some (ev, queue_goto t p (swap_tail c n s))" "queue_spec_turn t ev (xs, eff) = Some (xs, eff(t := e))"
  shows "good_queue_turn capacity t xs eff r"
  using queue_ok_tail[OF ok t known p, of e] old same pool
  by (intro good_queue_turnI[OF r]) (auto simp: queue_goto_def view_of_def swap_tail_def)

lemma queue_guard_good:
  assumes pool: "qpool_ok capacity (qs_pool s)" and ok: "queue_ok threads (view_of s eff ns) xs" and t: "t < threads"
    and step: "(\<exists>x n a. qs_pc s t = Enq_Guard x n a \<and> i = 0 \<and> g = Some a \<and> p = Enq_Check x n a) \<or> (\<exists>c. qs_pc s t = Deq_Guard c \<and> i = 0 \<and> g = Some c \<and> p = Deq_Check c) \<or>
      (\<exists>c a. qs_pc s t = Deq_Guard_Next c a g \<and> i = 1 \<and> p = Deq_Again c a g)"
  shows "good_queue_turn capacity t xs eff (do { h \<leftarrow> GuardPointer t i g (qs_hazard s); Some (Queue_Quiet, queue_goto t p (s\<lparr>qs_hazard := h\<rparr>)) })"
proof -
  obtain h' where h': "GuardPointer t i g (qs_hazard s) = Some h'" "queue_ok threads ((view_of s eff ns)\<lparr>qv_hazard := h', qv_pc := (qs_pc s)(t := p)\<rparr>) xs"
    using queue_ok_guard[OF ok t, of i g p] step by (auto simp: view_of_simps)
  then show ?thesis
    using pool by (intro good_queue_turnI[where ev = Queue_Quiet and s' = "queue_goto t p (s\<lparr>qs_hazard := h'\<rparr>)" and eff' = eff, OF _ _ _ h'(2)]) (simp_all add: queue_goto_def view_of_def)
qed

lemma queue_allocate_good:
  assumes pool: "qpool_ok capacity (qs_pool s)" and ok: "queue_ok threads (view_of s eff ns) xs"
    and t: "t < threads" "qs_pc s t = Queue_Idle \<or> qs_pc s t = Enq_Allocate x"
  shows "good_queue_turn capacity t xs eff (enqueue_allocate qnode_turn t x s)"
proof -
  let ?request = "Allocate_Object (LockFreeMPMCQueueNode_new x)" and ?v = "view_of s eff ns"
  have me: "os_doing (qs_pool s) t = None \<or> os_doing (qs_pool s) t = Some ?request" "hs_pc (qs_hazard s) t = Hp_Idle" "freeing (qs_hazard s) t = None" "eff t = No_Effect"
    using thread_known[OF ok, of t] t by (auto simp: queue_thread_ok_def queue_pool_doing_def freeing_def view_of_simps)
  obtain ev pool' where p: "qnode_turn t ?request (qs_pool s) = Some (ev, pool')" "qpool_ok capacity pool'" "\<forall>u. u \<noteq> t \<longrightarrow> os_doing pool' u = os_doing (qs_pool s) u"
    "(\<exists>i. ev = Object_Created i \<and> i < capacity \<and> qnodes s ! i = None \<and> op_objects (os_that pool') = (qnodes s)[i := Some (LockFreeMPMCQueueNode_new x)] \<and> os_doing pool' t = None) \<or>
      (ev = Object_Null \<and> op_objects (os_that pool') = qnodes s \<and> os_doing pool' t = None) \<or>
      (ev = Object_Internal \<and> op_objects (os_that pool') = qnodes s \<and> os_doing pool' t = Some ?request)"
    using allocate_turn[OF pool t(1) me(1)] by blast
  have stay: "queue_ok threads (?v\<lparr>qv_doing := os_doing pool', qv_pc := (qs_pc s)(t := pc)\<rparr>) xs"
    if pc: "pc = Queue_Idle \<and> os_doing pool' t = None \<or> pc = Enq_Allocate x \<and> os_doing pool' t = Some ?request" for pc
  proof (rule queue_ok_stay[OF ok, where t = t and p = pc])
    show "queue_thread_ok threads (?v\<lparr>qv_doing := os_doing pool', qv_pc := (qs_pc s)(t := pc)\<rparr>) t"
      using pc me t(1) by (auto simp: queue_thread_ok_def queue_pool_doing_def view_of_simps)
  qed (use pc t p(3) queue_ok_hp[OF ok] in \<open>auto simp: safe_def view_of_simps\<close>)
  show ?thesis
    using p(4)
  proof (elim disjE exE conjE)
    fix i assume i: "ev = Object_Created i" "i < capacity" "qnodes s ! i = None" "op_objects (os_that pool') = (qnodes s)[i := Some (LockFreeMPMCQueueNode_new x)]" "os_doing pool' t = None"
    have "queue_ok threads (?v\<lparr>qv_objects := (qv_objects ?v)[i := Some (LockFreeMPMCQueueNode_new x)], qv_doing := os_doing pool', qv_pc := (qv_pc ?v)(t := Enq_Load x i)\<rparr>) xs"
      by (rule queue_ok_create[OF ok]) (use object_inv_length[OF pool] i p(3) t in \<open>auto simp: view_of_simps\<close>)
    then show ?thesis
      using p(1,2) i by (intro good_queue_turnI[where ev = Queue_Quiet and ns = ns and eff' = eff and s' = "queue_goto t (Enq_Load x i) (s\<lparr>qs_pool := pool'\<rparr>)"])
        (simp_all add: enqueue_allocate_def queue_goto_def view_of_def)
  next
    assume "ev = Object_Null" "op_objects (os_that pool') = qnodes s" "os_doing pool' t = None"
    then show ?thesis
      using p(1,2) stay[of Queue_Idle] me(4) by (intro good_queue_turnI[where ev = Queue_Full and ns = ns and eff' = eff and s' = "queue_goto t Queue_Idle (s\<lparr>qs_pool := pool'\<rparr>)"])
        (simp_all add: enqueue_allocate_def queue_goto_def view_of_def)
  next
    assume "ev = Object_Internal" "op_objects (os_that pool') = qnodes s" "os_doing pool' t = Some ?request"
    then show ?thesis
      using p(1,2) stay[of "Enq_Allocate x"] by (intro good_queue_turnI[where ev = Queue_Quiet and ns = ns and eff' = eff and s' = "queue_goto t (Enq_Allocate x) (s\<lparr>qs_pool := pool'\<rparr>)"])
        (simp_all add: enqueue_allocate_def queue_goto_def view_of_def)
  qed
qed

lemma queue_finish_good:
  assumes pool: "qpool_ok capacity (qs_pool s)" and ok: "queue_ok threads ((view_of s eff ns)\<lparr>qv_pc := (qs_pc s)(t := Deq_Reclaim d)\<rparr>) xs" and t: "t < threads"
  shows "good_queue_turn capacity t xs eff (Some (dequeue_finish t d s))"
proof (cases "hs_pc (qs_hazard s) t = Hp_Idle")
  case True
  have fin: "queue_ok threads ((view_of s eff ns)\<lparr>qv_pc := (qs_pc s)(t := Queue_Idle), qv_effects := eff(t := No_Effect)\<rparr>) xs" "eff t = Took_It d"
    using queue_ok_finish[OF ok t, of d] True by (simp_all add: view_of_simps)
  then show ?thesis
    using pool True by (intro good_queue_turnI[where ev = "Dequeued d" and s' = "queue_goto t Queue_Idle s" and eff' = "eff(t := No_Effect)", OF _ _ _ fin(1)]) (simp_all add: dequeue_finish_def queue_goto_def view_of_def)
next
  case False
  then show ?thesis
    using pool by (intro good_queue_turnI[where ev = Queue_Quiet and s' = "queue_goto t (Deq_Reclaim d) s" and eff' = eff, OF _ _ _ ok]) (simp_all add: dequeue_finish_def queue_goto_def view_of_def)
qed

lemma queue_reclaim_good:
  fixes s :: "('s, 'a) queue_system"
  assumes pool: "qpool_ok capacity (qs_pool s)" and ok: "queue_ok threads (view_of s eff ns) xs"
    and t: "t < threads" "qs_pc s t = Deq_Reclaim d" "hs_pc (qs_hazard s) t \<noteq> Hp_Idle"
  shows "good_queue_turn capacity t xs eff (MPMC_TryDequeue qnode_turn t (qs_pc s t) s)"
proof -
  define h w where "h = qs_hazard s" and "w = qs_pool s"
  define f :: "nat \<Rightarrow> nat \<Rightarrow> ('s, 'a LockFreeMPMCQueueNode) object_system \<Rightarrow> (bool \<times> ('s, 'a LockFreeMPMCQueueNode) object_system) option"
    where "f = Queue_DeletePointerCallback qnode_turn"
  let ?v = "view_of s eff ns"
  have v: "qv_hazard ?v = h" "qv_doing ?v = os_doing w" "qv_pc ?v = qs_pc s" "qv_objects ?v = op_objects (os_that w)"
    by (simp_all add: view_of_simps h_def w_def)
  have me: "os_doing w t = map_option Free_Object (freeing h t)" "hs_pc h t \<noteq> Hp_Gone"
    using thread_known[OF ok, of t] t by (auto simp: queue_thread_ok_def queue_pool_doing_def v)
  have eq: "MPMC_TryDequeue qnode_turn t (qs_pc s t) s = (case hp_turn f t h w of None \<Rightarrow> None | Some (h', pool') \<Rightarrow> Some (dequeue_finish t d (s\<lparr>qs_hazard := h', qs_pool := pool'\<rparr>)))"
    by (simp add: MPMC_TryDequeue_def t(2) h_def w_def f_def split: option.splits)
  have gone: "hs_pc h' t \<noteq> Hp_Gone" if "hp_turn f t h w = Some (h', w')" for h' w'
    using hp_turn_not_gone[OF that me(2)] .
  have good: "good_queue_turn capacity t xs eff (MPMC_TryDequeue qnode_turn t (qs_pc s t) s)"
    if "hp_turn f t h w = Some (h', w')" "qpool_ok capacity w'" "queue_ok threads (?v\<lparr>qv_hazard := h', qv_doing := os_doing w', qv_objects := op_objects (os_that w')\<rparr>) xs" for h' w'
  proof -
    have "(qs_pc s)(t := Deq_Reclaim d) = qs_pc s"
      using t(2) by auto
    then show ?thesis
      using queue_finish_good[of capacity "s\<lparr>qs_hazard := h', qs_pool := w'\<rparr>" t d eff ns xs] that t(1) by (simp add: eq view_of_def)
  qed
  have "hp_outcome threads 2 f t h w (hp_turn f t h w)"
    using hp_turn_ok[OF queue_ok_hp[OF ok] t(1)] t(3) me(2) by (simp add: h_def view_of_simps)
  then consider (quiet) h' where "hp_turn f t h w = Some (h', w)" "hp_keeps threads 2 t h h'" "pending h' = pending h" "freeing h t = None" "freeing h' t = None"
    | (frees) g h' e where "hp_turn f t h w = (case f t g w of None \<Rightarrow> None | Some (over, w') \<Rightarrow> Some (h' over, w'))"
        "\<forall>over. hp_keeps threads 2 t h (h' over) \<and> freeing (h' over) t = (if over then None else Some g)" "freeing h t = None"
        "e < threads" "g \<in> pending h e" "\<forall>over. pending (h' over) = (pending h)(e := pending h e - {g})"
        "\<forall>t' pos. t' < threads \<and> pos < 2 \<and> guards h t' ! pos = Some g \<and> hs_pc h t' \<noteq> Hp_Gone \<longrightarrow> \<not> covered h t' pos g"
    | (rest) g h' where "hp_turn f t h w = (case f t g w of None \<Rightarrow> None | Some (over, w') \<Rightarrow> Some (h' over, w'))"
        "\<forall>over. hp_keeps threads 2 t h (h' over) \<and> freeing (h' over) t = (if over then None else Some g)" "freeing h t = Some g" "\<forall>over. pending (h' over) = pending h"
    unfolding hp_outcome_def by (elim disjE exE conjE) (rule that; assumption)+
  then show ?thesis
  proof cases
    case quiet
    have "queue_ok threads (?v\<lparr>qv_hazard := h', qv_doing := os_doing w\<rparr>) xs"
      by (rule queue_ok_scan[OF ok t(1)]) (use quiet me gone t in \<open>simp_all add: v\<close>)
    then show ?thesis
      using good[OF quiet(1)] pool by (simp add: w_def view_of_def)
  next
    case frees
    note e = frees(4-7)
    have "live (qv_objects ?v) g"
      using owned_live[OF ok, of "Retired_By e" g] e(1,2) by (simp add: v)
    then have g: "g < capacity" "op_objects (os_that w) ! g \<noteq> None"
      using object_inv_length[OF pool] by (simp_all add: live_def w_def view_of_simps)
    have "os_doing w t = None"
      using me(1) frees(3) by simp
    from free_turn[OF pool[folded w_def] t(1) this g] obtain w' where
      w': "qnode_turn t (Free_Object g) w = Some (Object_Freed g, w')" "qpool_ok capacity w'" "\<forall>u. u \<noteq> t \<longrightarrow> os_doing w' u = os_doing w u"
        "op_objects (os_that w') = (op_objects (os_that w))[g := None]" "os_doing w' t = None \<or> os_doing w' t = Some (Free_Object g)"
      by blast
    define h'' where "h'' = h' (os_doing w' t = None)"
    have turn: "hp_turn f t h w = Some (h'', w')"
      using frees(1) w'(1) by (simp add: f_def Queue_DeletePointerCallback_def h''_def)
    have "queue_ok threads (?v\<lparr>qv_hazard := h'', qv_doing := os_doing w', qv_objects := (qv_objects ?v)[g := None]\<rparr>) xs"
      by (rule queue_ok_free[OF ok t(1) _ _ gone[OF turn] e(1)]) (use frees(2) e w'(3,5) t in \<open>auto simp: h''_def v\<close>)
    then show ?thesis
      using good[OF turn w'(2)] w'(4) by (simp add: w_def view_of_simps)
  next
    case rest
    have "os_doing w t = Some (Free_Object g)"
      using me(1) rest(3) by simp
    from free_rest_turn[OF pool[folded w_def] t(1) this] obtain w' where
      w': "qnode_turn t (Free_Object g) w = Some (Object_Internal, w')" "qpool_ok capacity w'" "\<forall>u. u \<noteq> t \<longrightarrow> os_doing w' u = os_doing w u"
        "op_objects (os_that w') = op_objects (os_that w)" "os_doing w' t = None \<or> os_doing w' t = Some (Free_Object g)"
      by blast
    define h'' where "h'' = h' (os_doing w' t = None)"
    have turn: "hp_turn f t h w = Some (h'', w')"
      using rest(1) w'(1) by (simp add: f_def Queue_DeletePointerCallback_def h''_def)
    have "queue_ok threads (?v\<lparr>qv_hazard := h'', qv_doing := os_doing w'\<rparr>) xs"
      by (rule queue_ok_scan[OF ok t(1) _ _ gone[OF turn]]) (use rest(2,4) w'(3,5) t in \<open>auto simp: h''_def v\<close>)
    then show ?thesis
      using good[OF turn w'(2)] w'(4) by (simp add: w_def view_of_def)
  qed
qed

lemma queue_node_known:
  "queue_ok threads (view_of s eff ns) xs \<Longrightarrow> safe threads (view_of s eff ns) t i c \<Longrightarrow> \<exists>node. queue_node_at c s = Some node \<and> qnodes s ! c = Some node \<and> c < length (qnodes s)"
  using safe_node[of threads "view_of s eff ns" xs t i c] by (auto simp: view_of_simps queue_node_at_def)

lemma enqueue_good:
  assumes pool: "qpool_ok capacity (qs_pool s)" and ok: "queue_ok threads (view_of s eff ns) xs"
    and t: "t < threads" "qs_pc s t = pc" and pc: "(\<exists>x. pc = Enq_Allocate x) \<or> linking pc \<noteq> None \<or> (\<exists>m c. pc = Enq_Finish m c)"
  shows "good_queue_turn capacity t xs eff (MPMC_TryEnqueue qnode_turn t pc s)"
proof -
  let ?v = "view_of s eff ns"
  have me: "\<forall>f \<in> set (needs pc). holds threads ?v t f" "effect_ok pc (eff t)"
    using thread_known[OF ok, of t] t by (simp_all add: queue_thread_ok_def view_of_simps)
  note quiet = queue_quiet_good[OF pool ok t(1)]
  show ?thesis
  proof (cases pc)
    case (Enq_Allocate x)
    then show ?thesis
      using queue_allocate_good[OF pool ok t(1)] t(2) by (simp add: MPMC_TryEnqueue_def)
  next
    case (Enq_Load x m)
    show ?thesis
      by (rule quiet[where p = "Enq_Guard x m (qs_tail s)"]) (use me t Enq_Load in \<open>simp_all add: MPMC_TryEnqueue_def\<close>)
  next
    case (Enq_Guard x m a)
    then show ?thesis
      using queue_guard_good[OF pool ok t(1), of 0 "Some a" "Enq_Check x m a"] t(2) by (simp add: MPMC_TryEnqueue_def)
  next
    case (Enq_Check x m a)
    have "safe threads ?v t 0 a" if "a = qs_tail s"
      by (rule list_safe[OF ok]) (use ok me(1) Enq_Check that in \<open>simp_all add: queue_ok_def list_ok_def view_of_simps\<close>)
    then show ?thesis
      by (intro quiet[where p = "if a \<noteq> qs_tail s then Enq_Load x m else Enq_Next x m a"]) (use me t Enq_Check in \<open>simp_all add: MPMC_TryEnqueue_def\<close>)
  next
    case (Enq_Next x m a)
    then have safe: "safe threads ?v t 0 a"
      using me(1) by simp
    then obtain node where node: "queue_node_at a s = Some node" "qnodes s ! a = Some node"
      using queue_node_known[OF ok] by blast
    have "\<forall>f \<in> set (known_next a (qn_next node)). holds threads ?v t f"
      using known_next_holds[OF ok safe, of node] node(2) by (simp add: view_of_simps)
    then show ?thesis
      by (intro quiet[where p = "Enq_Again x m a (qn_next node)"]) (use me t Enq_Next node in \<open>simp_all add: MPMC_TryEnqueue_def QueueNode_GetNext_def\<close>)
  next
    case (Enq_Again x m a nxt)
    show ?thesis
      by (rule quiet[where p = "if a = qs_tail s then (case nxt of None \<Rightarrow> Enq_Link x m a | Some n \<Rightarrow> Enq_Advance x m a n) else Enq_Load x m"])
        (use me t Enq_Again in \<open>auto simp: MPMC_TryEnqueue_def known_next_def split: option.splits\<close>)
  next
    case (Enq_Link x m a)
    then obtain node where node: "queue_node_at a s = Some node" "qnodes s ! a = Some node" "a < length (qnodes s)"
      using queue_node_known[OF ok, of t 0 a] me(1) by auto
    show ?thesis
    proof (cases "qn_next node")
      case None
      define s' where "s' = s\<lparr>qs_pool := (qs_pool s)\<lparr>os_that := (os_that (qs_pool s))\<lparr>op_objects := (qnodes s)[a := Some (node\<lparr>qn_next := Some m\<rparr>)]\<rparr>\<rparr>\<rparr>"
      have turn: "MPMC_TryEnqueue qnode_turn t pc s = Some (Enqueue_Takes_Effect x, queue_goto t (Enq_Finish m a) s')"
        using Enq_Link node None by (simp add: MPMC_TryEnqueue_def swap_next_def s'_def)
      obtain ns' where ns': "queue_ok threads (?v\<lparr>qv_objects := (qv_objects ?v)[a := Some (node\<lparr>qn_next := Some m\<rparr>)], qv_pc := (qv_pc ?v)(t := Enq_Finish m a),
          qv_effects := (qv_effects ?v)(t := Put_It), qv_nodes := ns'\<rparr>) (xs @ [x])" "qv_effects ?v t = No_Effect"
        using queue_ok_link[OF ok t(1) _ _ None, of x m a] t(2) Enq_Link node(2) by (auto simp: view_of_simps)
      show ?thesis
      proof (rule good_queue_turnI[OF turn _ _ ns'(1)])
        show "queue_spec_turn t (Enqueue_Takes_Effect x) (xs, eff) = Some (xs @ [x], eff(t := Put_It))"
          using ns'(2) by (simp add: view_of_simps)
        show "qpool_ok capacity (qs_pool (queue_goto t (Enq_Finish m a) s'))"
          using write_object[OF pool, of a] node by (simp add: s'_def queue_goto_def)
      qed (simp add: view_of_def queue_goto_def s'_def)
    next
      case (Some k)
      then show ?thesis
        by (intro quiet[where p = "Enq_Load x m"]) (use me t Enq_Link node in \<open>simp_all add: MPMC_TryEnqueue_def swap_next_def\<close>)
    qed
  next
    case (Enq_Advance x m a k)
    show ?thesis
      by (rule queue_tail_good[OF pool ok t(1), where c = a and n = k and p = "Enq_Load x m" and e = No_Effect and ev = Queue_Quiet])
        (use me t Enq_Advance in \<open>auto simp: MPMC_TryEnqueue_def\<close>)
  next
    case (Enq_Finish m a)
    show ?thesis
      by (rule queue_tail_good[OF pool ok t(1), where c = a and n = m and p = Queue_Idle and e = No_Effect and ev = Enqueued])
        (use me t Enq_Finish in \<open>auto simp: MPMC_TryEnqueue_def\<close>)
  qed (use pc in auto)
qed

lemma dequeue_good:
  assumes pool: "qpool_ok capacity (qs_pool s)" and ok: "queue_ok threads (view_of s eff ns) xs"
    and t: "t < threads" "qs_pc s t = pc" and pc: "pc \<noteq> Queue_Idle" "\<forall>x. pc \<noteq> Enq_Allocate x" "linking pc = None" "\<forall>m c. pc \<noteq> Enq_Finish m c"
  shows "good_queue_turn capacity t xs eff (MPMC_TryDequeue qnode_turn t pc s)"
proof -
  let ?v = "view_of s eff ns"
  have me: "\<forall>f \<in> set (needs pc). holds threads ?v t f" "effect_ok pc (eff t)"
    using thread_known[OF ok, of t] t by (simp_all add: queue_thread_ok_def view_of_simps)
  note quiet = queue_quiet_good[OF pool ok t(1)]
  show ?thesis
  proof (cases pc)
    case Deq_Load
    show ?thesis
      by (rule quiet[where p = "Deq_Guard (qs_head s)"]) (use me t Deq_Load in \<open>simp_all add: MPMC_TryDequeue_def\<close>)
  next
    case (Deq_Guard c)
    then show ?thesis
      using queue_guard_good[OF pool ok t(1), of 0 "Some c" "Deq_Check c"] t(2) by (simp add: MPMC_TryDequeue_def)
  next
    case (Deq_Check c)
    have "holds threads ?v t (Old c)" if "c = qs_head s"
      using head_old[OF ok, of t] me(1) Deq_Check that by (simp add: view_of_simps)
    then show ?thesis
      by (intro quiet[where p = "if c \<noteq> qs_head s then Deq_Load else Deq_Tail c"]) (use me t Deq_Check in \<open>simp_all add: MPMC_TryDequeue_def\<close>)
  next
    case (Deq_Tail c)
    show ?thesis
      by (rule quiet[where p = "Deq_Next c (qs_tail s)"]) (use me t Deq_Tail in \<open>simp_all add: MPMC_TryDequeue_def known_tail_def view_of_simps\<close>)
  next
    case (Deq_Next c a)
    then have old: "holds threads ?v t (Old c)"
      using me(1) by (simp add: known_tail_def)
    then have safe: "safe threads ?v t 0 c"
      by simp
    then obtain node where node: "queue_node_at c s = Some node" "qnodes s ! c = Some node"
      using queue_node_known[OF ok] by blast
    show ?thesis
    proof (cases "qn_next node")
      case None
      then have "xs = []"
        using next_none_empty[OF ok old, of node] node(2) by (simp add: view_of_simps)
      then show ?thesis
        by (intro queue_goto_good[OF pool ok t(1), where p = "Deq_Guard_Next c a None" and ev = Dequeue_Sees_Empty and e = Saw_Empty])
          (use me t Deq_Next node None in \<open>auto simp: MPMC_TryDequeue_def QueueNode_GetNext_def known_next_def\<close>)
    next
      case (Some k)
      then have "\<forall>f \<in> set (known_next c (Some k)). holds threads ?v t f"
        using known_next_holds[OF ok safe, of node] node(2) by (simp add: view_of_simps)
      then show ?thesis
        by (intro quiet[where p = "Deq_Guard_Next c a (Some k)"])
          (use me t Deq_Next node Some in \<open>auto simp: MPMC_TryDequeue_def QueueNode_GetNext_def\<close>)
    qed
  next
    case (Deq_Guard_Next c a nxt)
    then show ?thesis
      using queue_guard_good[OF pool ok t(1), of 1 nxt "Deq_Again c a nxt"] t(2) by (simp add: MPMC_TryDequeue_def)
  next
    case (Deq_Again c a nxt)
    show ?thesis
    proof (cases "qs_head s = c")
      case False
      have "effect_ok Deq_Load (eff t)"
        using me(2) Deq_Again by (cases nxt) auto
      then show ?thesis
        using False by (intro quiet[where p = Deq_Load]) (use t Deq_Again in \<open>simp_all add: MPMC_TryDequeue_def\<close>)
    next
      case True
      show ?thesis
      proof (cases nxt)
        case None
        then show ?thesis
          by (intro queue_goto_good[OF pool ok t(1), where p = Queue_Idle and ev = Dequeue_Empty and e = No_Effect])
            (use me t Deq_Again True in \<open>simp_all add: MPMC_TryDequeue_def\<close>)
      next
        case (Some n)
        have nxt: "holds threads ?v t (Followed c n)" and guard: "guards (qs_hazard s) t ! 1 = Some n"
          using me(1) Deq_Again Some by (auto simp: known_next_def view_of_simps)
        show ?thesis
        proof (cases "c = a")
          case a: True
          then show ?thesis
            by (intro quiet[where p = "Deq_Advance a n"]) (use me nxt t Deq_Again True Some in \<open>simp_all add: MPMC_TryDequeue_def\<close>)
        next
          case a: False
          have "holds threads ?v t (Readable n)"
            using second_readable[OF ok, of n t] nxt guard True by (simp add: view_of_simps)
          then show ?thesis
            by (intro quiet[where p = "Deq_Element c n"]) (use me nxt t Deq_Again True Some a in \<open>auto simp: MPMC_TryDequeue_def known_tail_def\<close>)
        qed
      qed
    qed
  next
    case (Deq_Advance c n)
    show ?thesis
      by (rule queue_tail_good[OF pool ok t(1), where c = c and n = n and p = Deq_Load and e = "eff t" and ev = Queue_Quiet])
        (use me t Deq_Advance in \<open>auto simp: MPMC_TryDequeue_def\<close>)
  next
    case (Deq_Element c n)
    then have "holds threads ?v t (Readable n)"
      using me(1) by simp
    then obtain d where d: "safe threads ?v t 1 n" "element_of (qnodes s) n = Some d"
      by (auto simp: view_of_simps)
    obtain node where node: "queue_node_at n s = Some node" "qnodes s ! n = Some node"
      using queue_node_known[OF ok d(1)] by blast
    then have "QueueNode_GetElement n s = Some d"
      using d(2) by (simp add: QueueNode_GetElement_def element_of_def)
    then show ?thesis
      by (intro quiet[where p = "Deq_Swap c n d"]) (use me t Deq_Element d in \<open>auto simp: MPMC_TryDequeue_def view_of_simps\<close>)
  next
    case (Deq_Swap c n d)
    show ?thesis
    proof (cases "qs_head s = c")
      case True
      have "qv_pc ?v t = Deq_Swap c n d" "qv_head ?v = c"
        using t(2) Deq_Swap True by (simp_all add: view_of_simps)
      then obtain xs' ns' where pop: "xs = d # xs'" "qv_effects ?v t = No_Effect \<or> qv_effects ?v t = Saw_Empty"
          "queue_ok threads (?v\<lparr>qv_head := n, qv_pc := (qv_pc ?v)(t := Deq_Retire c d), qv_effects := (qv_effects ?v)(t := Took_It d), qv_nodes := ns'\<rparr>) xs'"
        using queue_ok_unlink[OF ok t(1)] by metis
      have turn: "MPMC_TryDequeue qnode_turn t pc s = Some (Dequeue_Takes_Effect, queue_goto t (Deq_Retire c d) (s\<lparr>qs_head := n\<rparr>))"
        using True Deq_Swap by (simp add: MPMC_TryDequeue_def)
      show ?thesis
      proof (rule good_queue_turnI[OF turn _ _ pop(3)])
        show "queue_spec_turn t Dequeue_Takes_Effect (xs, eff) = Some (xs', eff(t := Took_It d))"
          using pop(1,2) by (simp add: view_of_simps)
      qed (use pool in \<open>simp_all add: view_of_def queue_goto_def\<close>)
    next
      case False
      then show ?thesis
        by (intro quiet[where p = Deq_Load]) (use me t Deq_Swap in \<open>simp_all add: MPMC_TryDequeue_def\<close>)
    qed
  next
    case (Deq_Retire c d)
    obtain h' where h': "EnqueuePointerForDeletion t c (qs_hazard s) = Some h'" "queue_ok threads (?v\<lparr>qv_hazard := h', qv_pc := (qs_pc s)(t := Deq_Reclaim d)\<rparr>) xs"
      using queue_ok_retire[OF ok t(1), of c d] t(2) Deq_Retire by (auto simp: view_of_simps)
    then show ?thesis
      using queue_finish_good[of capacity "s\<lparr>qs_hazard := h'\<rparr>" t d eff ns xs] pool t(1) Deq_Retire by (simp add: MPMC_TryDequeue_def view_of_def)
  next
    case (Deq_Reclaim d)
    show ?thesis
    proof (cases "hs_pc (qs_hazard s) t = Hp_Idle")
      case True
      then have "MPMC_TryDequeue qnode_turn t pc s = Some (dequeue_finish t d s)"
        by (simp add: MPMC_TryDequeue_def Deq_Reclaim hp_turn_def)
      moreover have "(qs_pc s)(t := Deq_Reclaim d) = qs_pc s"
        using t(2) Deq_Reclaim by auto
      ultimately show ?thesis
        using queue_finish_good[OF pool _ t(1), of d eff ns xs] ok by (simp add: view_of_def)
    next
      case False
      then show ?thesis
        using queue_reclaim_good[OF pool ok t(1)] t(2) Deq_Reclaim by simp
    qed
  qed (use pc in auto)
qed

lemma queue_turn_good:
  assumes "queue_inv (qpool_ok capacity) threads s xs eff" and t: "t < threads"
  shows "good_queue_turn capacity t xs eff (queue_turn qnode_turn t request s)"
proof -
  obtain ns where pool: "qpool_ok capacity (qs_pool s)" and ok: "queue_ok threads (view_of s eff ns) xs"
    using assms(1) by (auto simp: queue_inv_def)
  show ?thesis
  proof (cases "qs_pc s t = Queue_Idle")
    case True
    have "effect_ok (qs_pc s t) (eff t)"
      using thread_known[OF ok, of t] by (simp add: queue_thread_ok_def view_of_simps)
    then have "good_queue_turn capacity t xs eff (MPMC_TryDequeue qnode_turn t Deq_Load s)"
      using True by (intro queue_quiet_good[OF pool ok t, where p = "Deq_Guard (qs_head s)"]) (simp_all add: MPMC_TryDequeue_def)
    then show ?thesis
      using True queue_allocate_good[OF pool ok t] by (cases request) (simp_all add: queue_turn_def)
  next
    case False
    then show ?thesis
      using enqueue_good[OF pool ok t refl] dequeue_good[OF pool ok t refl] by (cases "qs_pc s t") (simp_all add: queue_turn_def)
  qed
qed

lemma queue_run_good:
  assumes "queue_inv (qpool_ok capacity) threads s xs eff" "\<forall>(t, request) \<in> set schedule. t < threads"
  shows "\<exists>evs s' xs' eff'. queue_run qnode_turn schedule s = Some (evs, s') \<and> queue_spec_run evs (xs, eff) = Some (xs', eff') \<and> queue_inv (qpool_ok capacity) threads s' xs' eff'"
  using assms
proof (induction schedule arbitrary: s xs eff)
  case Nil
  then show ?case
    by auto
next
  case (Cons a schedule)
  obtain t request where a: "a = (t, request)"
    by fastforce
  obtain ev s1 xs1 eff1 where 1: "queue_turn qnode_turn t request s = Some (ev, s1)" "queue_spec_turn t ev (xs, eff) = Some (xs1, eff1)"
      "queue_inv (qpool_ok capacity) threads s1 xs1 eff1"
    using queue_turn_good[OF Cons.prems(1), of t request] Cons.prems(2) by (auto simp: a good_queue_turn_def)
  from Cons.IH[OF 1(3)] Cons.prems(2) show ?case
    using 1(1,2) by (auto simp: a)
qed

end

section \<open>The constructor\<close>

lemma alone_internal: "pool_turn 0 (Allocate_Object x) s = Some (Object_Internal, s1) \<Longrightarrow> allocate_alone pool_turn x s = allocate_alone pool_turn x s1"
  by (subst allocate_alone.simps) simp

lemma alone_created: "pool_turn 0 (Allocate_Object x) s = Some (Object_Created n, s1) \<Longrightarrow> allocate_alone pool_turn x s = Some (n, s1)"
  by (subst allocate_alone.simps) simp

lemma spine_child: "2 * (2 ^ j - Suc 0) + 1 = 2 ^ Suc j - (1 :: nat)"
  by (simp add: diff_mult_distrib2 Suc_diff_Suc flip: Suc_diff_le)

text \<open>
  In a new pool over the lock-free value pool the constructing thread goes down the left side of the tree, where all counters are positive, to the first leaf.
\<close>

abbreviation tree_node_turn :: "(bool tree_pool, 'a) queue_pool_turn" where
  "tree_node_turn \<equiv> object_turn (tree_turn False) tree_idle"

lemma tree_object_turn:
  assumes "tree_turn False 0 Allocate_Request (op_p (os_that s)) = Some (Internal, p)" "os_doing s 0 = None \<or> os_doing s 0 = Some (Allocate_Object x)"
  shows "tree_node_turn 0 (Allocate_Object x) s = Some (Object_Internal, s\<lparr>os_that := (os_that s)\<lparr>op_p := p\<rparr>, os_doing := (os_doing s)(0 := Some (Allocate_Object x))\<rparr>)"
  using assms by (auto simp: object_turn_def object_allocate_def object_done_def)

lemma tree_alone_internal:
  assumes "tree_turn False 0 Allocate_Request (op_p (os_that s)) = Some (Internal, p)" "os_doing s 0 = None \<or> os_doing s 0 = Some (Allocate_Object x)"
  shows "allocate_alone tree_node_turn x s = allocate_alone tree_node_turn x (s\<lparr>os_that := (os_that s)\<lparr>op_p := p\<rparr>, os_doing := (os_doing s)(0 := Some (Allocate_Object x))\<rparr>)"
  by (rule alone_internal, rule tree_object_turn[OF assms])

lemma descend_left:
  fixes s :: "(bool tree_pool, 'a LockFreeMPMCQueueNode) object_system"
  assumes "j \<le> k" "tp_size (tr_that (op_p (os_that s))) = 2 ^ k" "tr_pc (op_p (os_that s)) 0 = Tree_Enter (2 ^ j - 1) frames"
    and "os_doing s 0 = Some (Allocate_Object x)" "\<forall>i. j \<le> i \<and> i < k \<longrightarrow> (\<exists>c > 0. read_counter (tr_that (op_p (os_that s))) (2 ^ i - 1) = Some c)"
    and "tp_pool (tr_that (op_p (os_that s))) = True # rest" "op_objects (os_that s) \<noteq> []"
  shows "allocate_alone tree_node_turn x s \<noteq> None"
  using assms
proof (induction "k - j" arbitrary: j s frames)
  case 0
  define p where "p = op_p (os_that s)"
  have j: "j = k"
    using 0 by simp
  have leaf: "IsLeaf (tr_that p) (2 ^ k - 1)" "NodeIndexToPoolIndex (tr_that p) (2 ^ k - 1) = Some 0"
    using 0(3) by (simp_all add: p_def IsLeaf_def NodeIndexToPoolIndex_def)
  define p1 where "p1 = tree_goto 0 (Leaf_Swap 0 True frames) p"
  have p1: "tree_turn False 0 Allocate_Request p = Some (Internal, p1)"
    using 0 leaf by (simp add: tree_turn_def allocate_rec_def j p_def p1_def)
  define s1 where "s1 = s\<lparr>os_that := (os_that s)\<lparr>op_p := p1\<rparr>, os_doing := (os_doing s)(0 := Some (Allocate_Object x))\<rparr>"
  have "allocate_alone tree_node_turn x s = allocate_alone tree_node_turn x s1"
    using tree_alone_internal[of s p1 x] p1 0 by (simp add: p_def s1_def)
  moreover obtain p2 where p2: "tree_turn False 0 Allocate_Request p1 = Some (Took 0 True, p2)"
    using 0(7) by (simp add: tree_turn_def p1_def tree_goto_def allocate_take_def p_def)
  have "\<exists>s2. tree_node_turn 0 (Allocate_Object x) s1 = Some (Object_Created 0, s2)"
    using p2 0(8) by (auto simp: object_turn_def object_allocate_def s1_def Let_def)
  ultimately show ?case
    using alone_created[of tree_node_turn x s1 0] by auto
next
  case (Suc d)
  define p where "p = op_p (os_that s)"
  define n where "n = (2 :: nat) ^ j - 1"
  have j: "j < k"
    using Suc.hyps(2) by simp
  then have small: "(2 :: nat) ^ Suc j \<le> 2 ^ k"
    by (intro power_increasing) simp_all
  then have n: "n < 2 ^ k - 1" "2 * n + 1 = 2 ^ Suc j - 1" "2 * n + 1 \<le> 2 * 2 ^ k - 1"
    using spine_child[of j] by (simp_all add: n_def)
  obtain c where c: "0 < c" "read_counter (tr_that p) n = Some c"
    using Suc.prems(5) j by (auto simp: p_def n_def)
  define p1 where "p1 = tree_goto 0 (Tree_Swap n c frames) p"
  have pc: "tr_pc p 0 = Tree_Enter n frames" "\<not> IsLeaf (tr_that p) n"
    using Suc.prems(2,3) n(1) by (simp_all add: p_def n_def IsLeaf_def)
  then have p1: "tree_turn False 0 Allocate_Request p = Some (Internal, p1)"
    using c by (simp add: tree_turn_def allocate_rec_def p1_def)
  define s1 where "s1 = s\<lparr>os_that := (os_that s)\<lparr>op_p := p1\<rparr>, os_doing := (os_doing s)(0 := Some (Allocate_Object x))\<rparr>"
  have 1: "allocate_alone tree_node_turn x s = allocate_alone tree_node_turn x s1"
    using tree_alone_internal[of s p1 x] p1 Suc.prems by (simp add: p_def s1_def)
  have len: "n < length (tp_tree (tr_that p))"
    using c(2) by (auto simp: read_counter_def bind_eq_Some_conv deref_eq_Some_iff)
  define that2 where "that2 = (tr_that p)\<lparr>tp_tree := (tp_tree (tr_that p))[n := Some (c - 1)]\<rparr>"
  define p2 where "p2 = tree_goto 0 (Tree_Enter (2 ^ Suc j - 1) (In_Left n # frames)) (p1\<lparr>tr_that := that2\<rparr>)"
  have p2: "tree_turn False 0 Allocate_Request p1 = Some (Internal, p2)"
    using c len n Suc.prems(2) by (simp add: tree_turn_def p1_def tree_goto_def allocate_swap_def write_counter_def GetLeftChildIndex_def IsValid_def Let_def p_def p2_def that2_def)
  define s2 where "s2 = s1\<lparr>os_that := (os_that s1)\<lparr>op_p := p2\<rparr>, os_doing := (os_doing s1)(0 := Some (Allocate_Object x))\<rparr>"
  have 2: "allocate_alone tree_node_turn x s1 = allocate_alone tree_node_turn x s2"
    using tree_alone_internal[of s1 p2 x] p2 by (simp add: s1_def s2_def)
  have sel: "tr_that (op_p (os_that s2)) = that2" "op_objects (os_that s2) = op_objects (os_that s)"
    by (simp_all add: s2_def s1_def p2_def tree_goto_def)
  have "allocate_alone tree_node_turn x s2 \<noteq> None"
  proof (rule Suc.hyps(1)[of "Suc j" s2 "In_Left n # frames"])
    show "\<forall>i. Suc j \<le> i \<and> i < k \<longrightarrow> (\<exists>c > 0. read_counter (tr_that (op_p (os_that s2))) (2 ^ i - 1) = Some c)"
    proof (intro allI impI)
      fix i assume i: "Suc j \<le> i \<and> i < k"
      then have "(2 :: nat) ^ j < 2 ^ i"
        by (intro power_strict_increasing) simp_all
      then have "n < (2 :: nat) ^ i - 1"
        unfolding n_def by (rule diff_less_mono) simp
      then have "read_counter that2 (2 ^ i - 1) = read_counter (tr_that p) (2 ^ i - 1)"
        by (simp add: that2_def read_counter_def deref_def)
      moreover have "\<exists>c > 0. read_counter (tr_that p) (2 ^ i - 1) = Some c"
        using Suc.prems(5) i by (simp add: p_def)
      ultimately show "\<exists>c > 0. read_counter (tr_that (op_p (os_that s2))) (2 ^ i - 1) = Some c"
        by (simp add: sel)
    qed
    show "tr_pc (op_p (os_that s2)) 0 = Tree_Enter (2 ^ Suc j - 1) (In_Left n # frames)" "os_doing s2 0 = Some (Allocate_Object x)"
      by (simp_all add: s2_def p2_def tree_goto_def)
    show "tp_size (tr_that (op_p (os_that s2))) = 2 ^ k" "tp_pool (tr_that (op_p (os_that s2))) = True # rest"
      using Suc.prems(2,6) by (simp_all add: sel that2_def p_def)
    show "op_objects (os_that s2) \<noteq> []"
      using Suc.prems(7) by (simp add: sel)
  qed (use Suc.hyps(2) j in simp_all)
  then show ?case
    using 1 2 by simp
qed

lemma queue_new_returns:
  assumes "0 < GetRetiredListMaxSize N 2 * N + capacity + 1" "GetRetiredListMaxSize N 2 * N + capacity + 1 \<le> 2 ^ 29"
  shows "\<exists>s0 :: (bool tree_pool, 'a) queue_system. LockFreeMPMCQueue_new tree_node_turn N tree_maker capacity = Some s0"
proof -
  let ?slots = "GetRetiredListMaxSize N 2 * N + capacity + 1"
  have el: "returning_true ?slots \<noteq> []" "length (returning_true ?slots) \<le> 2 ^ 29"
    using assms by (simp_all add: returning_true_def)
  obtain that k where new: "LockFreeTreeValuePool_new (returning_true ?slots) = Some that" "tp_size that = 2 ^ k" "?slots \<le> 2 ^ k"
      "tp_pool that = returning_true ?slots" "length (tp_tree that) = 2 ^ k - 1"
    and counters: "\<And>j x. j < k \<Longrightarrow> below_node 0 j x \<Longrightarrow> tp_tree that ! x =
        (if leaves_below (2 ^ k) ?slots x (k - j) = 0 then None else Some (int (leaves_below (2 ^ k) ?slots x (k - j))))"
    using tree_pool_new[OF el] by (auto simp: returning_true_def)
  define s :: "(bool tree_pool, 'a LockFreeMPMCQueueNode) object_system"
    where "s = object_start \<lparr>op_objects = replicate ?slots None, op_capacity = ?slots, op_p = tree_start that (returning_true ?slots)\<rparr>"
  define p1 where "p1 = tree_goto 0 (Tree_Enter (2 ^ 0 - 1) []) (tree_start that (returning_true ?slots))"
  define s1 where "s1 = s\<lparr>os_that := (os_that s)\<lparr>op_p := p1\<rparr>, os_doing := (os_doing s)(0 := Some (Allocate_Object (LockFreeMPMCQueueNode_dummy :: 'a LockFreeMPMCQueueNode)))\<rparr>"
  have "tree_node_turn 0 (Allocate_Object LockFreeMPMCQueueNode_dummy) s = Some (Object_Internal, s1)"
    unfolding s1_def by (rule tree_object_turn) (simp_all add: s_def object_start_def tree_start_def tree_turn_def p1_def)
  then have "allocate_alone tree_node_turn LockFreeMPMCQueueNode_dummy s = allocate_alone tree_node_turn LockFreeMPMCQueueNode_dummy s1"
    by (rule alone_internal)
  moreover have "allocate_alone tree_node_turn LockFreeMPMCQueueNode_dummy s1 \<noteq> None"
  proof (rule descend_left[of 0 k s1 "[]"])
    show "\<forall>i. 0 \<le> i \<and> i < k \<longrightarrow> (\<exists>c > 0. read_counter (tr_that (op_p (os_that s1))) (2 ^ i - 1) = Some c)"
    proof (intro allI impI)
      fix i assume i: "0 \<le> i \<and> i < k"
      have pos: "0 < leaves_below (2 ^ k) ?slots (2 ^ i - 1) (k - i)"
        using i by (simp add: leaves_below_def flip: power_add)
      have "2 ^ i - 1 < (2 :: nat) ^ k - 1"
        using i by (intro diff_less_mono power_strict_increasing) simp_all
      moreover have "tp_tree that ! (2 ^ i - 1) = Some (int (leaves_below (2 ^ k) ?slots (2 ^ i - 1) (k - i)))"
        using counters[of i "2 ^ i - 1"] i pos by (simp add: below_node_def)
      ultimately show "\<exists>c > 0. read_counter (tr_that (op_p (os_that s1))) (2 ^ i - 1) = Some c"
        using pos new(5) by (simp add: s1_def p1_def tree_goto_def tree_start_def read_counter_def)
    qed
    show "tp_pool (tr_that (op_p (os_that s1))) = True # replicate (?slots - 1) True"
      using new(4) by (simp add: s1_def p1_def tree_goto_def tree_start_def returning_true_def)
  qed (use new(2) in \<open>simp_all add: s1_def s_def p1_def tree_goto_def tree_start_def object_start_def\<close>)
  ultimately obtain n pool where "allocate_alone tree_node_turn LockFreeMPMCQueueNode_dummy s = Some (n, pool)"
    by auto
  then show ?thesis
    using new(1) by (simp add: LockFreeMPMCQueue_new_def ObjectPool_new_def s_def)
qed

context object_pool_client
begin

lemma allocate_alone_ok:
  fixes pool :: "('s, 'a LockFreeMPMCQueueNode) object_system"
  assumes "allocate_alone qnode_turn x pool = Some (n, pool')" "0 < threads" "qpool_ok capacity pool"
    and "os_doing pool 0 = None \<or> os_doing pool 0 = Some (Allocate_Object x)" "\<forall>u. u \<noteq> 0 \<longrightarrow> os_doing pool u = None"
  shows "n < capacity \<and> qpool_ok capacity pool' \<and> op_objects (os_that pool') = (op_objects (os_that pool))[n := Some x] \<and> (\<forall>u. os_doing pool' u = None)"
proof -
  let ?P = "\<lambda>(f :: ('s, 'a) queue_pool_turn) x pool (r :: nat \<times> ('s, 'a LockFreeMPMCQueueNode) object_system). f = qnode_turn \<longrightarrow> qpool_ok capacity pool \<longrightarrow>
     os_doing pool 0 = None \<or> os_doing pool 0 = Some (Allocate_Object x) \<longrightarrow> (\<forall>u. u \<noteq> 0 \<longrightarrow> os_doing pool u = None) \<longrightarrow>
     fst r < capacity \<and> qpool_ok capacity (snd r) \<and> op_objects (os_that (snd r)) = (op_objects (os_that pool))[fst r := Some x] \<and> (\<forall>u. os_doing (snd r) u = None)"
  have "?P qnode_turn x pool (n, pool')"
  proof (rule allocate_alone.raw_induct[where P = ?P, OF _ assms(1)])
    fix loop f x pool r
    assume IH: "\<And>f x pool r. loop f x pool = Some r \<Longrightarrow> ?P f x pool r"
      and step: "f 0 (Allocate_Object x) pool \<bind> (\<lambda>(ev, pool). case ev of Object_Created n \<Rightarrow> Some (n, pool) | Object_Null \<Rightarrow> None | _ \<Rightarrow> loop f x pool) = Some r"
    show "?P f x pool r"
    proof (intro impI)
      assume f: "f = qnode_turn" and pool: "qpool_ok capacity pool" and doing: "os_doing pool 0 = None \<or> os_doing pool 0 = Some (Allocate_Object x)"
        and others: "\<forall>u. u \<noteq> 0 \<longrightarrow> os_doing pool u = None"
      obtain ev s' where s': "qnode_turn 0 (Allocate_Object x) pool = Some (ev, s')" "qpool_ok capacity s'" "\<forall>u. u \<noteq> 0 \<longrightarrow> os_doing s' u = os_doing pool u"
          "(\<exists>i. ev = Object_Created i \<and> i < capacity \<and> op_objects (os_that pool) ! i = None \<and> op_objects (os_that s') = (op_objects (os_that pool))[i := Some x] \<and> os_doing s' 0 = None) \<or>
          (ev = Object_Null \<and> op_objects (os_that s') = op_objects (os_that pool) \<and> os_doing s' 0 = None) \<or>
          (ev = Object_Internal \<and> op_objects (os_that s') = op_objects (os_that pool) \<and> os_doing s' 0 = Some (Allocate_Object x))"
        using allocate_turn[OF pool assms(2) doing] by blast
      have all: "\<forall>u. os_doing s' u = None" if "os_doing s' 0 = None"
      proof
        show "os_doing s' u = None" for u
          using that s'(3) others by (cases "u = 0") simp_all
      qed
      show "fst r < capacity \<and> qpool_ok capacity (snd r) \<and> op_objects (os_that (snd r)) = (op_objects (os_that pool))[fst r := Some x] \<and> (\<forall>u. os_doing (snd r) u = None)"
        using s'(4)
      proof (elim disjE exE conjE)
        fix i assume "ev = Object_Created i" "i < capacity" "op_objects (os_that s') = (op_objects (os_that pool))[i := Some x]" "os_doing s' 0 = None"
        then show ?thesis
          using step s'(1,2) f all by auto
      next
        assume "ev = Object_Null"
        then show ?thesis
          using step s'(1) f by simp
      next
        assume "ev = Object_Internal" "op_objects (os_that s') = op_objects (os_that pool)" "os_doing s' 0 = Some (Allocate_Object x)"
        then show ?thesis
          using step s'(1-3) f others IH[of f x s' r] by simp
      qed
    qed
  qed
  then show ?thesis
    using assms(3-5) by simp
qed

end

lemma queue_start_inv:
  assumes pool: "pool_ok (qs_pool s)" and N: "0 < N" and doing: "\<forall>t. os_doing (qs_pool s) t = None"
    and nodes: "qnodes s = (replicate c None)[n := Some LockFreeMPMCQueueNode_dummy]" "n < c"
    and s: "qs_head s = n" "qs_tail s = n" "qs_hazard s = hp_start N 2" "qs_pc s = (\<lambda>_. Queue_Idle)"
  shows "queue_inv pool_ok N s [] (\<lambda>_. No_Effect)"
proof -
  have "(0 :: nat) < 2"
    by simp
  note start = hp_start_ok[OF N this s(3)]
  let ?v = "view_of s (\<lambda>_. No_Effect) [n]"
  have hp: "hs_pc (qs_hazard s) t = Hp_Idle" for t
    by (simp add: s hp_start_def)
  have owns: "view_owns N ?v ow m \<longleftrightarrow> ow = In_List \<and> m = n" for ow m
    using start(2) by (cases ow) (auto simp: view_of_simps s(4))
  have live: "live (qnodes s) m \<longleftrightarrow> m = n" for m
    using nodes by (auto simp: live_def nth_list_update)
  have "list_ok ?v []"
    using nodes s by (simp add: list_ok_def view_of_simps LockFreeMPMCQueueNode_dummy_def)
  moreover have "owners_ok N ?v"
    using owns live by (auto simp: owners_ok_def view_of_simps)
  moreover have "queue_thread_ok N ?v t" for t
    using hp doing by (simp add: queue_thread_ok_def view_of_simps s(4) queue_pool_doing_def freeing_def)
  ultimately have "queue_ok N ?v []"
    using start(1) by (simp add: queue_ok_def view_of_simps)
  then show ?thesis
    using pool unfolding queue_inv_def by blast
qed

lemma tree_queue_start:
  assumes new: "LockFreeMPMCQueue_new tree_node_turn N tree_maker capacity = Some s0" and N: "0 < N" and size: "GetRetiredListMaxSize N 2 * N + capacity + 1 \<le> 2 ^ 29"
  shows "queue_inv (object_inv (tree_inv False N) tr_values tree_phase (GetRetiredListMaxSize N 2 * N + capacity + 1)) N s0 [] (\<lambda>_. No_Effect)"
proof -
  let ?size = "GetRetiredListMaxSize N 2 * N + capacity + 1"
  obtain that n pool where pool: "ObjectPool_new tree_maker ?size = Some that" "allocate_alone tree_node_turn LockFreeMPMCQueueNode_dummy (object_start that) = Some (n, pool)"
      "s0 = \<lparr>qs_head = n, qs_tail = n, qs_hazard = hp_start N 2, qs_pool = pool, qs_pc = (\<lambda>_. Queue_Idle)\<rparr>"
    using new by (auto simp: LockFreeMPMCQueue_new_def bind_eq_Some_conv)
  have start: "object_inv (tree_inv False N) tr_values tree_phase ?size (object_start that)"
    by (rule tree_objects_start[OF _ size pool(1)]) simp
  have objects: "op_objects that = replicate ?size None"
    using pool(1) by (auto simp: ObjectPool_new_def bind_eq_Some_conv)
  have "n < ?size \<and> object_inv (tree_inv False N) tr_values tree_phase ?size pool \<and>
      op_objects (os_that pool) = (op_objects (os_that (object_start that)))[n := Some LockFreeMPMCQueueNode_dummy] \<and> (\<forall>u. os_doing pool u = None)"
    by (rule tree_objects.allocate_alone_ok[OF pool(2) N start]) (simp_all add: object_start_def)
  then show ?thesis
    using N objects by (intro queue_start_inv[where c = ?size and n = n]) (simp_all add: pool(3) object_start_def)
qed

section \<open>How many elements fit\<close>

lemma queue_all_live_count:
  assumes ok: "queue_ok N v xs" and all: "\<forall>n < slots. live (qv_objects v) n" and idle: "\<forall>t. linking (qv_pc v t) = None \<and> unlinked (qv_pc v t) = None"
  shows "slots \<le> length xs + 1 + GetRetiredListMaxSize N 2 * N"
proof -
  have "{..<slots} \<subseteq> set (qv_nodes v) \<union> (\<Union>e<N. pending (qv_hazard v) e)"
  proof
    fix n assume "n \<in> {..<slots}"
    then obtain ow where "view_owns N v ow n"
      using ok all unfolding queue_ok_def owners_ok_def by blast
    then show "n \<in> set (qv_nodes v) \<union> (\<Union>e<N. pending (qv_hazard v) e)"
      using idle by (cases ow) auto
  qed
  moreover have "finite (\<Union>e<N. pending (qv_hazard v) e)"
    using retired_bound(1)[OF queue_ok_hp[OF ok]] by blast
  ultimately have "slots \<le> card (set (qv_nodes v) \<union> (\<Union>e<N. pending (qv_hazard v) e))"
    using card_mono[of "set (qv_nodes v) \<union> (\<Union>e<N. pending (qv_hazard v) e)" "{..<slots}"] by simp
  also have "\<dots> \<le> card (set (qv_nodes v)) + card (\<Union>e<N. pending (qv_hazard v) e)"
    by (rule card_Un_le)
  also have "card (\<Union>e<N. pending (qv_hazard v) e) \<le> (\<Sum>e<N. card (pending (qv_hazard v) e))"
    by (rule card_UN_le) simp
  also have "\<dots> \<le> (\<Sum>e<N. GetRetiredListMaxSize N 2)"
    using retired_bound(2)[OF queue_ok_hp[OF ok]] by (intro sum_mono) simp
  also have "card (set (qv_nodes v)) \<le> length xs + 1"
  proof -
    have "map (element_of (qv_objects v)) (tl (qv_nodes v)) = map Some xs"
      using ok by (simp add: queue_ok_def list_ok_def)
    from arg_cong[OF this, of length] have "length (qv_nodes v) \<le> length xs + 1"
      by simp
    then show ?thesis
      using card_length[of "qv_nodes v"] by simp
  qed
  finally show ?thesis
    by (simp add: mult.commute)
qed

lemma queue_full_request:
  assumes "queue_turn pool_turn t request s = Some (Queue_Full, s')"
  obtains x pool' where "qs_pc s t = Queue_Idle \<and> request = TryEnqueue_Request x \<or> qs_pc s t = Enq_Allocate x"
    "pool_turn t (Allocate_Object (LockFreeMPMCQueueNode_new x)) (qs_pool s) = Some (Object_Null, pool')"
proof -
  have alloc: "\<exists>pool'. pool_turn t (Allocate_Object (LockFreeMPMCQueueNode_new x)) (qs_pool s) = Some (Object_Null, pool')"
    if full: "enqueue_allocate pool_turn t x s = Some (Queue_Full, s')" for x
  proof -
    obtain ev pool' where "pool_turn t (Allocate_Object (LockFreeMPMCQueueNode_new x)) (qs_pool s) = Some (ev, pool')"
      using full by (auto simp: enqueue_allocate_def bind_eq_Some_conv)
    then show ?thesis
      using full by (cases ev) (auto simp: enqueue_allocate_def Let_def)
  qed
  have deq: "MPMC_TryDequeue pool_turn t pc s \<noteq> Some (Queue_Full, s')" for pc
    by (auto simp: MPMC_TryDequeue_def dequeue_finish_def bind_eq_Some_conv split: queue_pc.splits option.splits if_splits)
  show thesis
  proof (cases "qs_pc s t")
    case Queue_Idle
    then obtain x where "request = TryEnqueue_Request x" "enqueue_allocate pool_turn t x s = Some (Queue_Full, s')"
      using assms deq by (auto simp: queue_turn_def split: queue_request.splits)
    then show thesis
      using alloc[of x] Queue_Idle by (auto intro: that)
  next
    case (Enq_Allocate x)
    then have "enqueue_allocate pool_turn t x s = Some (Queue_Full, s')"
      using assms by (simp add: queue_turn_def MPMC_TryEnqueue_def)
    then show thesis
      using alloc[of x] Enq_Allocate by (auto intro: that)
  qed (use assms deq in \<open>auto simp: queue_turn_def MPMC_TryEnqueue_def bind_eq_Some_conv split: if_splits\<close>)
qed

text \<open>A small queue for the examples: one thread, five nodes, three of which may wait on the retired list and one of which is the dummy node.\<close>

lemma new_tree_five:
  "LockFreeTreeValuePool_new [True, True, True, True, True] =
     Some \<lparr>tp_size = 8, tp_real_size = 5, tp_tree = [Some 5, Some 4, Some 1, Some 2, Some 2, Some 1, None], tp_pool = [True, True, True, True, True]\<rparr>"
proof -
  have len: "length [True, True, True, True, True] = 5"
    by simp
  have eight: "GetSmallestPowerByTwoValue 5 = Some 8"
    by (simp add: GetSmallestPowerByTwoValue_def power_loop.simps)
  let ?that = "\<lparr>tp_size = 8, tp_real_size = 5, tp_tree = replicate 7 None, tp_pool = [True, True, True, True, True]\<rparr>"
  have leaf: "Fill ?that n m p tree = Some tree" if "n \<in> {7..15}" for n m p tree
    using that by (simp add: Fill.simps[of ?that] IsLeaf_def)
  note unf = IsLeaf_def GetLeftChildIndex_def GetRightChildIndex_def IsValid_def Let_def
  have 3: "Fill ?that 3 2 2 tree = assign tree 3 (Some 2)" for tree
    using leaf by (subst Fill.simps, simp add: unf assign_def)
  have 4: "Fill ?that 4 2 2 tree = assign tree 4 (Some 2)" for tree
    using leaf by (subst Fill.simps, simp add: unf assign_def)
  have 5: "Fill ?that 5 1 2 tree = assign tree 5 (Some 1)" for tree
    using leaf by (subst Fill.simps, simp add: unf assign_def)
  have 1: "Fill ?that 1 4 4 tree = do { tree \<leftarrow> assign tree 1 (Some 4); tree \<leftarrow> assign tree 3 (Some 2); assign tree 4 (Some 2) }" for tree
    using 3 4 by (subst Fill.simps, simp add: unf)
  have 2: "Fill ?that 2 1 4 tree = do { tree \<leftarrow> assign tree 2 (Some 1); assign tree 5 (Some 1) }" for tree
    using 5 by (subst Fill.simps, simp add: unf)
  have right': "Fill ?that (Suc (Suc 0)) (Suc 0) 4 tree = do { tree \<leftarrow> assign tree 2 (Some 1); assign tree 5 (Some 1) }" for tree
    using 2[of tree] by (simp only: numeral_2_eq_2 One_nat_def)
  have seven: "replicate 7 (None :: int option) = [None, None, None, None, None, None, None]"
    by (simp add: numeral_eq_Suc)
  then have "Fill ?that 0 5 8 (replicate 7 None) = Some [Some 5, Some 4, Some 1, Some 2, Some 2, Some 1, None]"
    unfolding Fill.simps[of ?that 0 5 8] using 1 2 right' by (simp add: unf assign_def)
  then show ?thesis
    unfolding LockFreeTreeValuePool_new_def len eight by simp
qed

definition small_queue :: "(bool tree_pool, nat) queue_system" where
  "small_queue = \<lparr>qs_head = 0, qs_tail = 0, qs_hazard = hp_start 1 2,
     qs_pool = \<lparr>os_that = \<lparr>op_objects = [Some LockFreeMPMCQueueNode_dummy, None, None, None, None], op_capacity = 5,
       op_p = \<lparr>tr_that = \<lparr>tp_size = 8, tp_real_size = 5, tp_tree = [Some 4, Some 3, Some 1, Some 1, Some 2, Some 1, None], tp_pool = [False, True, True, True, True]\<rparr>,
         tr_pc = (\<lambda>_. Tree_Idle), tr_values = [True, True, True, True, True]\<rparr>\<rparr>, os_doing = (\<lambda>_. None)\<rparr>, qs_pc = (\<lambda>_. Queue_Idle)\<rparr>"

lemma alone_step:
  "pool_turn 0 (Allocate_Object x) s = Some (Object_Internal, s1) \<Longrightarrow> allocate_alone pool_turn x s1 = r \<Longrightarrow> allocate_alone pool_turn x s = r"
  by (simp add: alone_internal)

lemma const_upd: "(\<lambda>_. a)(x := a) = (\<lambda>_. a)"
  by auto

lemma small_queue_new: "LockFreeMPMCQueue_new tree_node_turn 1 tree_maker 1 = Some small_queue"
proof -
  have slots: "GetRetiredListMaxSize 1 2 * 1 + 1 + 1 = 5"
    by (simp add: GetRetiredListMaxSize_def)
  have five: "returning_true 5 = [True, True, True, True, True]" "replicate 5 None = [None, None, None, None, None]"
    by (simp_all add: returning_true_def numeral_eq_Suc)
  have "allocate_alone tree_node_turn LockFreeMPMCQueueNode_dummy (object_start \<lparr>op_objects = [None, None, None, None, None], op_capacity = 5,
      op_p = tree_start \<lparr>tp_size = 8, tp_real_size = 5, tp_tree = [Some 5, Some 4, Some 1, Some 2, Some 2, Some 1, None], tp_pool = [True, True, True, True, True]\<rparr>
        [True, True, True, True, True]\<rparr>) = Some (0, qs_pool small_queue)"
    apply (rule alone_step, (simp add: object_turn_def object_allocate_def object_done_def object_start_def tree_turn_simps; fail))+
    apply (subst alone_created, simp add: object_turn_def object_allocate_def object_done_def tree_turn_simps)
    apply (simp add: small_queue_def const_upd)
    done
  then show ?thesis
    unfolding LockFreeMPMCQueue_new_def slots by (simp add: ObjectPool_new_def five new_tree_five small_queue_def)
qed

lemmas queue_turn_simps = queue_turn_def enqueue_allocate_def MPMC_TryEnqueue_def queue_goto_def QueueNode_GetNext_def queue_node_at_def LockFreeMPMCQueueNode_new_def
  LockFreeMPMCQueueNode_dummy_def swap_next_def swap_tail_def object_turn_def object_allocate_def object_done_def object_start_def tree_turn_simps
  GuardPointer_def set_entry_def hp_start_def HazardPointer_new_def HazardPointerThreadEntry_new_def

lemma queue_run_step:
  "queue_turn T t r s = Some (ev, s1) \<Longrightarrow> queue_run T rest s1 = Some (evs, s') \<Longrightarrow> queue_run T ((t, r) # rest) s = Some ((t, ev) # evs, s')"
  by simp

lemma small_queue_run:
  "\<exists>evs s. queue_run tree_node_turn (replicate 70 (0, TryEnqueue_Request (7 :: nat))) small_queue = Some (evs, s) \<and>
     (\<exists>s'. queue_turn tree_node_turn 0 (TryEnqueue_Request 7) s = Some (Queue_Full, s')) \<and> (\<forall>u. u \<noteq> 0 \<longrightarrow> qs_pc s u = Queue_Idle)"
proof -
  have 70: "replicate 70 x = [x, x, x, x, x, x, x, x, x, x, x, x, x, x, x, x, x, x, x, x, x, x, x, x, x, x, x, x, x, x, x, x, x, x, x, x, x, x, x, x, x, x, x, x, x, x, x, x, x, x, x, x, x, x, x, x, x, x, x, x, x, x, x, x, x, x, x, x, x, x]" for x :: "nat \<times> nat queue_request"
    by (simp add: numeral_eq_Suc)
  show ?thesis
    unfolding small_queue_def 70
    apply (intro exI conjI)
      apply (rule queue_run_step, simp add: queue_turn_simps cong: bind_weak)+
      apply (simp add: queue_turn_simps)
     apply (simp add: queue_turn_simps)
    apply (simp add: queue_turn_simps)
    done
qed

section \<open>Properties\<close>

text \<open>
  C9. The lock-free queue is a queue. For at least one thread and a queue over the lock-free value pool (the default), the constructor returns, and however the turns of the threads follow each
  other: every turn is defined, so that no node is accessed that was freed or is not initialised, and no assertion fails; each operation takes effect once, on a sequential queue, within
  the time it runs, and returns what it did; and in the end the list holds the elements of the sequential queue behind its dummy node.
\<close>

theorem queue_is_linearizable:
  assumes "0 < threads" "GetRetiredListMaxSize threads 2 * threads + capacity + 1 \<le> 2 ^ 29" "\<forall>(t, request) \<in> set schedule. t < threads"
  shows "\<exists>s0 evs s xs eff ns. LockFreeMPMCQueue_new (object_turn (tree_turn False) tree_idle) threads tree_maker capacity = Some s0 \<and>
     queue_run (object_turn (tree_turn False) tree_idle) schedule s0 = Some (evs, s) \<and> queue_spec_run evs ([], \<lambda>_. No_Effect) = Some (xs, eff) \<and>
     chain (qnodes s) (Some (qs_head s)) ns \<and> map (element_of (qnodes s)) (tl ns) = map Some xs"
proof -
  obtain s0 :: "(bool tree_pool, 'a) queue_system" where s0: "LockFreeMPMCQueue_new tree_node_turn threads tree_maker capacity = Some s0"
    using queue_new_returns[OF _ assms(2)] by auto
  obtain evs s xs eff ns where "queue_run tree_node_turn schedule s0 = Some (evs, s)" "queue_spec_run evs ([], \<lambda>_. No_Effect) = Some (xs, eff)" "queue_ok threads (view_of s eff ns) xs"
    using tree_objects.queue_run_good[OF tree_queue_start[OF s0 assms(1,2)] assms(3)] by (auto simp: queue_inv_def)
  then show ?thesis
    using s0 by (auto simp: queue_ok_def list_ok_def view_of_simps)
qed

theorem queue_is_linearizable_witness:
  "\<exists>s0 evs s xs eff. LockFreeMPMCQueue_new (object_turn (tree_turn False) tree_idle) 2 tree_maker 4 = Some s0 \<and>
     queue_run (object_turn (tree_turn False) tree_idle) [(0, TryEnqueue_Request (7 :: nat)), (1, TryDequeue_Request), (0, TryDequeue_Request)] s0 = Some (evs, s) \<and>
     queue_spec_run evs ([], \<lambda>_. No_Effect) = Some (xs, eff)"
proof -
  have "(0 :: nat) < 2" "GetRetiredListMaxSize 2 2 * 2 + 4 + 1 \<le> 2 ^ 29"
    "\<forall>(t, request) \<in> set [(0, TryEnqueue_Request (7 :: nat)), (1, TryDequeue_Request), (0, TryDequeue_Request)]. t < (2 :: nat)"
    by (simp_all add: GetRetiredListMaxSize_def)
  from queue_is_linearizable[OF this] show ?thesis
    by blast
qed

text \<open>
  C11. The queue holds what it promises. If an enqueue returns without success in a state that is reached, and no other thread has an operation under way, then the queue holds at
  least as many elements as its capacity, in spite of the dummy node and the nodes that wait on the retired lists of the threads.
\<close>

theorem queue_refuses_when_full:
  assumes "LockFreeMPMCQueue_new (object_turn (tree_turn False) tree_idle) threads tree_maker capacity = Some s0" "0 < threads"
    and "GetRetiredListMaxSize threads 2 * threads + capacity + 1 \<le> 2 ^ 29"
    and "\<forall>(t, request) \<in> set schedule. t < threads" "queue_run (object_turn (tree_turn False) tree_idle) schedule s0 = Some (evs, s)"
    and "t < threads" "queue_turn (object_turn (tree_turn False) tree_idle) t request s = Some (Queue_Full, s')" "\<forall>u. u \<noteq> t \<longrightarrow> qs_pc s u = Queue_Idle"
  shows "\<exists>xs eff. queue_spec_run evs ([], \<lambda>_. No_Effect) = Some (xs, eff) \<and> capacity \<le> length xs"
proof -
  define slots where "slots = GetRetiredListMaxSize threads 2 * threads + capacity + 1"
  obtain xs eff ns where run: "queue_spec_run evs ([], \<lambda>_. No_Effect) = Some (xs, eff)"
    and pool: "object_inv (tree_inv False threads) tr_values tree_phase slots (qs_pool s)" and ok: "queue_ok threads (view_of s eff ns) xs"
    using tree_objects.queue_run_good[OF tree_queue_start[OF assms(1-3)] assms(4)] assms(5) by (auto simp: slots_def queue_inv_def)
  obtain x pool' where x: "qs_pc s t = Queue_Idle \<and> request = TryEnqueue_Request x \<or> qs_pc s t = Enq_Allocate x"
    "object_turn (tree_turn False) tree_idle t (Allocate_Object (LockFreeMPMCQueueNode_new x)) (qs_pool s) = Some (Object_Null, pool')"
    by (rule queue_full_request[OF assms(7)]) (rule that; assumption)
  have idle: "os_doing (qs_pool s) u = (if u = t \<and> qs_pc s t = Enq_Allocate x then Some (Allocate_Object (LockFreeMPMCQueueNode_new x)) else None)"
      "linking (qs_pc s u) = None \<and> unlinked (qs_pc s u) = None" for u
    using thread_known[OF ok, of u] x(1) assms(8) by (cases "u = t"; auto simp: queue_thread_ok_def queue_pool_doing_def freeing_def view_of_simps)+
  have "qnodes s ! n \<noteq> None" if "n < slots" for n
    by (rule tree_null_all_live[OF pool assms(6) x(2) _ _ that]) (use idle(1) in simp_all)
  then have "\<forall>n < slots. live (qv_objects (view_of s eff ns)) n"
    using tree_objects.object_inv_length[OF pool] by (simp add: live_def view_of_simps)
  then have "slots \<le> length xs + 1 + GetRetiredListMaxSize threads 2 * threads"
    using queue_all_live_count[OF ok] idle(2) by (simp add: view_of_simps)
  then have "capacity \<le> length xs"
    by (simp add: slots_def)
  then show ?thesis
    using run by blast
qed

theorem queue_refuses_when_full_witness:
  "\<exists>evs s s' xs eff. LockFreeMPMCQueue_new (object_turn (tree_turn False) tree_idle) 1 tree_maker 1 = Some small_queue \<and>
     queue_run (object_turn (tree_turn False) tree_idle) (replicate 70 (0, TryEnqueue_Request (7 :: nat))) small_queue = Some (evs, s) \<and>
     queue_turn (object_turn (tree_turn False) tree_idle) 0 (TryEnqueue_Request 7) s = Some (Queue_Full, s') \<and> queue_spec_run evs ([], \<lambda>_. No_Effect) = Some (xs, eff) \<and> 1 \<le> length xs"
proof -
  let ?schedule = "replicate 70 (0 :: nat, TryEnqueue_Request (7 :: nat))"
  obtain evs s s' where s: "queue_run tree_node_turn ?schedule small_queue = Some (evs, s)" "queue_turn tree_node_turn 0 (TryEnqueue_Request 7) s = Some (Queue_Full, s')"
      "\<forall>u. u \<noteq> 0 \<longrightarrow> qs_pc s u = Queue_Idle"
    using small_queue_run by auto
  have "(0 :: nat) < 1" "GetRetiredListMaxSize 1 2 * 1 + 1 + 1 \<le> 2 ^ 29" "\<forall>(t, request) \<in> set ?schedule. t < (1 :: nat)"
    by (simp_all add: GetRetiredListMaxSize_def)
  from queue_refuses_when_full[OF small_queue_new this s(1) this(1) s(2,3)] show ?thesis
    using small_queue_new s(1,2) by blast
qed

end
