(* ===== verification/Spec2Isabelle.thy ===== *)
theory Spec2Isabelle
  imports
    Prelude Ring_Buffer Spinlock Id_Pool Pool Bitset Attributes Duration_Time Task_Queue
    Node_State Example_Node Job Task Task_Execution Thread_Context Scheduler Scheduler_Search Scheduler_Order Scheduler_Placement
    Task_Api Action_Api Group_Api Queue_Api Context_Api Node_Api Task_Lifecycle Group_Wait Node_Init Action_Registry End_To_End
    Memory_Allocation Thread_Index Network_Buffer Network_Socket Network_Plugin Network_Thread Network_Messages
    Log Thread_Primitives Opencl_Plugin
    Partitioner For_Each_Reduce Scan_Algorithm Sort_Order Quick_Sort Merge_Sort
    Spsc_Queue Value_Pool Array_Value_Pool Tree_Value_Pool Tree_Pool_Contract Object_Pool
    Hazard_Pointer Lock_Free_Stack Lock_Free_Queue
begin

text \<open>
  Verification of the task management library of the Embedded Multicore Building Blocks.

  The program. \<^verbatim>\<open>src/mtapi_c\<close> implements MTAPI, an interface for running tasks on the cores of one node. An application
  registers actions (functions) under job ids, starts tasks of a job, and waits for them alone or in groups; queues
  start tasks with common attributes and in order. Each core of the node has a worker thread with one public and one private queue of
  tasks per priority; a worker without tasks steals from the public queues of the others. All objects live in
  pools of fixed capacity and are named by handles of an index and a tag. \<^verbatim>\<open>src/base_c\<close> has the parts this rests on: atomic
  integers, core sets, durations and points in time, memory allocation, threads with their indices and storage, mutexes, condition variables, and logging. \<^verbatim>\<open>src/mtapi_network_c\<close> is a plugin of the task library that
  runs tasks on another node, and \<^verbatim>\<open>src/mtapi_opencl_c\<close> one that runs them on an OpenCL device. \<^verbatim>\<open>src/algorithms_cpp\<close> has parallel algorithms over ranges of elements, which split a range into chunks
  and run a tree of tasks on them under the execution policies of \<^verbatim>\<open>src/tasks_cpp\<close>. \<^verbatim>\<open>src/containers_cpp\<close> has containers that
  threads share without locks: a queue for one producer and one consumer, pools of values, and pools of objects on top of these.

  Theories, in the order in which they build on each other:

  \<^item> \<^verbatim>\<open>Prelude\<close>: machine words, arrays whose accesses are checked (\<open>None\<close> is an access outside of the array),
    the C loops, little-endian bytes.
  \<^item> \<^verbatim>\<open>Ring_Buffer\<close>: the abstract bounded queue (locale \<open>bounded_fifo\<close>) and the ring buffer that the id pool and the task queue share.
  \<^item> \<^verbatim>\<open>Spinlock\<close> (\<^verbatim>\<open>embb_mtapi_spinlock_t.c\<close>, \<^verbatim>\<open>atomic.h\<close>): the lock, each acquire loop as a loop over one turn
    (\<open>acquire_attempt\<close>, \<open>acquire_spincount_attempt\<close>), and the interleaving of these turns between threads (\<open>lock_step\<close>).
  \<^item> \<^verbatim>\<open>Id_Pool\<close> (\<^verbatim>\<open>embb_mtapi_id_pool_t.c\<close>): a \<open>bounded_fifo\<close>; which ids are in use.
  \<^item> \<^verbatim>\<open>Pool\<close> (\<^verbatim>\<open>embb_mtapi_pool_template-inl.h\<close>): the pools, with the life cycle of handles proved once for all object
    types in the locale \<open>pool_type\<close>. It is interpreted for tasks, actions, groups and queues where these are defined.
  \<^item> \<^verbatim>\<open>Bitset\<close> (\<^verbatim>\<open>bitset.h\<close>, \<^verbatim>\<open>core_set.c\<close>): sets of small numbers (locale \<open>index_set\<close>).
  \<^item> \<^verbatim>\<open>Attributes\<close> (\<^verbatim>\<open>mtapi_*_attributes_t.c\<close>, \<^verbatim>\<open>mtapi_affinity_t.c\<close>, \<^verbatim>\<open>embb_mtapi_attr.c\<close>): attributes, which are passed through raw memory.
  \<^item> \<^verbatim>\<open>Duration_Time\<close> (\<^verbatim>\<open>duration.c\<close>, \<^verbatim>\<open>time.c\<close>).
  \<^item> \<^verbatim>\<open>Task_Queue\<close> (\<^verbatim>\<open>embb_mtapi_task_queue_t.c\<close>): a \<open>bounded_fifo\<close>, and visiting its tasks.
  \<^item> \<^verbatim>\<open>Node_State\<close>: the structures of all components and the state of a node, with the reads and writes through pointers.
  \<^item> \<^verbatim>\<open>Job\<close>, \<^verbatim>\<open>Task\<close>, \<^verbatim>\<open>Thread_Context\<close>, \<^verbatim>\<open>Scheduler\<close>: the class members of the files of the same names
    (\<^verbatim>\<open>embb_mtapi_job_t.c\<close>, \<^verbatim>\<open>embb_mtapi_task_t.c\<close>, \<^verbatim>\<open>embb_mtapi_thread_context_t.c\<close>, \<^verbatim>\<open>embb_mtapi_scheduler_t.c\<close>).
  \<^item> \<^verbatim>\<open>Scheduler_Search\<close>: the abstract specification of the search for the next task, the first non-empty queue in a list of queues, and
    the refinement of both scheduling modes to it.
  \<^item> \<^verbatim>\<open>Example_Node\<close>: a small node with two workers, on which the theorems are applied as examples.
  \<^item> \<^verbatim>\<open>Task_Execution\<close>: the life of task handles, and what executing the instances of a task does, from the drawing of the number
    of an instance on. An environment that records its calls (\<open>Action_Called\<close>) shows which instances run in which order.
  \<^item> \<^verbatim>\<open>Scheduler_Order\<close>: which task a worker takes next in the two modes, as the least queue in an order of the queues (\<open>vhpf_before\<close>, \<open>lf_rank\<close>).
  \<^item> \<^verbatim>\<open>Scheduler_Placement\<close>: which queue a started task goes to, and that a worker finds it there.
  \<^item> \<^verbatim>\<open>Task_Api\<close>, \<^verbatim>\<open>Action_Api\<close>, \<^verbatim>\<open>Group_Api\<close>, \<^verbatim>\<open>Queue_Api\<close>, \<^verbatim>\<open>Context_Api\<close>, \<^verbatim>\<open>Node_Api\<close>: the interface functions.
  \<^item> \<^verbatim>\<open>Task_Lifecycle\<close>: starting a task, the order of tasks in ordered queues, what the loop of a worker and a worker that waits do with cancelled tasks, and waiting for a task.
  \<^item> \<^verbatim>\<open>Group_Wait\<close>: waiting for a group.
  \<^item> \<^verbatim>\<open>Node_Init\<close>: a node that is initialised satisfies the invariants the other theories assume; workers that wait for the node to come up.
  \<^item> \<^verbatim>\<open>Action_Registry\<close>: registering an action, and which action of a job a task is given to.
  \<^item> \<^verbatim>\<open>End_To_End\<close>: from the initialisation of a node to the worker that finds the first task; the property itself is at the end of this theory.
  \<^item> \<^verbatim>\<open>Memory_Allocation\<close> (\<^verbatim>\<open>memory_allocation.c\<close>, \<^verbatim>\<open>embb_mtapi_alloc.c\<close>): blocks with headers in raw memory; aligned blocks lie inside what was allocated and are given back
    entirely.
  \<^item> \<^verbatim>\<open>Thread_Index\<close> (\<^verbatim>\<open>counter.c\<close>, \<^verbatim>\<open>thread_index.c\<close>, \<^verbatim>\<open>thread_specific_storage.c\<close>): drawing an index in three parts, one for each access to the shared
    variables, the interleaving of these parts (\<open>index_step\<close>), its invariant, and storage.
  \<^item> \<^verbatim>\<open>Network_Buffer\<close> (\<^verbatim>\<open>embb_mtapi_network_buffer.c\<close>): the message buffer, a queue of bytes (locale \<open>byte_fifo\<close>).
  \<^item> \<^verbatim>\<open>Network_Socket\<close> (\<^verbatim>\<open>embb_mtapi_network_socket.c\<close>): sockets over the calls of the operating system, and what the loops that send and receive do to byte streams.
  \<^item> \<^verbatim>\<open>Network_Plugin\<close>, \<^verbatim>\<open>Network_Thread\<close> (\<^verbatim>\<open>embb_mtapi_network.c\<close>): the functions of the plugin and its thread.
  \<^item> \<^verbatim>\<open>Network_Messages\<close>: a task that is started by a message, and its result on the way back.
  \<^item> \<^verbatim>\<open>Log\<close> (\<^verbatim>\<open>log.c\<close>): the order of the levels, and which messages reach the log function.
  \<^item> \<^verbatim>\<open>Thread_Primitives\<close> (\<^verbatim>\<open>mutex.c\<close>, \<^verbatim>\<open>condition_variable.c\<close>, \<^verbatim>\<open>thread.c\<close>): the functions over the POSIX calls, which are a parameter; a thread that is created and joined.
  \<^item> \<^verbatim>\<open>Opencl_Plugin\<close> (\<^verbatim>\<open>embb_mtapi_opencl.c\<close>): the plugin over the calls of an OpenCL runtime, which are a parameter: the calls
    that the start of a task makes, what its completion does before and after the start has set the state, and which objects of OpenCL are left alive.

  \<^item> \<^verbatim>\<open>Partitioner\<close> (\<^verbatim>\<open>execution_policy.cc\<close>, \<^verbatim>\<open>partition-inl.h\<close>): execution policies, the two ways of splitting a range into chunks, which cover the range without overlap, the choice of the block
    size, and the induction over the tree of chunks that the algorithms share.
  \<^item> \<^verbatim>\<open>For_Each_Reduce\<close> (\<^verbatim>\<open>for_each-inl.h\<close>, \<^verbatim>\<open>reduce-inl.h\<close>, \<^verbatim>\<open>count-inl.h\<close>): which elements are visited in which orders; the parallel reduction is a left fold.
  \<^item> \<^verbatim>\<open>Scan_Algorithm\<close> (\<^verbatim>\<open>scan-inl.h\<close>): the two passes over the tree of chunks, and the prefix sums they write.
  \<^item> \<^verbatim>\<open>Sort_Order\<close>: what a comparison must satisfy (locale \<open>strict_weak_order\<close>), sorted ranges, and permutations of a range.
  \<^item> \<^verbatim>\<open>Quick_Sort\<close> (\<^verbatim>\<open>quick_sort-inl.h\<close>), \<^verbatim>\<open>Merge_Sort\<close> (\<^verbatim>\<open>merge_sort-inl.h\<close>): the sorting algorithms return a sorted permutation.
    Quick sort may start more tasks than it has checked for; whether the node starts a task is a parameter there, and a refusal ends it with an exception.

  \<^item> \<^verbatim>\<open>Spsc_Queue\<close> (\<^verbatim>\<open>wait_free_spsc_queue-inl.h\<close>): for one thread a \<open>bounded_fifo\<close>; for a producer and a consumer, in every interleaving of their reads and writes,
    a queue that keeps the order.
  \<^item> \<^verbatim>\<open>Value_Pool\<close>: the contract of a pool of values that threads share (locale \<open>value_pool\<close>): in every interleaving a value is held by one thread at most; \<open>phased_value_pool\<close> adds when an operation
    is under way.
  \<^item> \<^verbatim>\<open>Array_Value_Pool\<close> (\<^verbatim>\<open>wait_free_array_value_pool-inl.h\<close>): meets the contract, and an allocation returns after a bounded number of its own steps.
  \<^item> \<^verbatim>\<open>Tree_Value_Pool\<close>, \<^verbatim>\<open>Tree_Pool_Contract\<close> (\<^verbatim>\<open>lock_free_tree_value_pool-inl.h\<close>): the tree of counters and how it is filled; the balance of the counters with the operations
    under way, by which no assertion fails, the contract is met, and an allocation is refused only if every value is taken or an operation is under way.
  \<^item> \<^verbatim>\<open>Object_Pool\<close> (\<^verbatim>\<open>object_pool-inl.h\<close>): objects over a value pool (locale \<open>object_pool_client\<close>, interpreted over both value pools); no slot is handed out while an object lives in it.
  \<^item> \<^verbatim>\<open>Hazard_Pointer\<close> (\<^verbatim>\<open>hazard_pointer-inl.h\<close>): guards, retired lists and their scans, also of the lists of threads that are gone. In every interleaving a pointer that was
    guarded before it was retired, or that a scan still has to see, is not freed, and the lists do not grow beyond their bounds.
  \<^item> \<^verbatim>\<open>Lock_Free_Stack\<close> (\<^verbatim>\<open>lock_free_stack-inl.h\<close>): the stack over the object pool and the hazard pointers. Each node has one owner (the list, a thread, or a retired list), and with that the
    operations take effect one after the other on a sequential stack.
  \<^item> \<^verbatim>\<open>Lock_Free_Queue\<close> (\<^verbatim>\<open>lock_free_mpmc_queue-inl.h\<close>): the queue for many producers and consumers, with two guards for each thread. What each thread knows at each place
    (\<open>needs\<close>) holds whatever the other threads do, and with that the operations take effect one after the other on a sequential queue.

  The model. The state is the record \<open>mtapi_state\<close>: the node, if there is one, the raw memory the application passes pointers into, the clock, and
  the calls made to the outside. Every function takes the state and returns it; \<open>None\<close> is undefined behaviour (an access outside of an
  array or through a null pointer, a division by zero, a shift that is too wide) or a loop that does not end. Integers have the
  width they have on a 64-bit platform, \<open>mtapi_uint_t\<close> is 32 bits wide, and wrap around. Signed counters are words that are read as signed
  where the code compares them.

  Code that is not the library's is a parameter: action functions, completion callbacks and plugins (\<open>mtapi_env\<close>), which may change the whole
  state; \<open>env_yield\<close>, what the other threads do while one yields or sleeps; the clock; the content of
  fresh memory; whether the checked allocations and the start of a thread succeed (\<open>init_params\<close>, \<open>start_outcome\<close>).

  Concurrency. Sections under a lock are modelled as one step. \<^verbatim>\<open>Spinlock\<close> justifies this: the critical sections of any number of threads, interleaved at the
  level of single memory accesses, have the effect of running them one after the other. Where a thread yields, the
  other threads act through \<open>env_yield\<close>. Interleavings inside the lock-free parts of the interface functions are not modelled.
  The containers of \<^verbatim>\<open>containers_cpp\<close> are modelled at the level of single loads, stores and read-modify-writes of their shared variables, for any number of threads (two for \<^verbatim>\<open>Spsc_Queue\<close>) and every order of their
  turns; memory is sequentially consistent, as the atomic variables of \<^verbatim>\<open>base_c\<close> with their full barriers are.

  The parallel algorithms work on lists with indices as iterators, with \<open>None\<close> for an access outside of the list; distances and block sizes are natural numbers (a range of memory is far
  smaller than 64-bit arithmetic), the distance that a caller gives is an integer since it may be negative. A task that is started and waited for runs once; but for quick sort it is taken for granted that the tasks an algorithm has checked for can be started. For tasks that touch disjoint parts of
  the data the order in which they run is a parameter (sequences in \<open>ForEachFunctor_Action\<close>, a choice for each pair of tasks in the others), and the theorems hold for all orders.

  Termination. Loops with a counter are total functions. Loops that wait are partial functions with
  the value \<open>None\<close> when they do not end, and theorems that say that they end prove a result. No fuel is used.

  Assertions. \<^verbatim>\<open>assert\<close> is disabled, as in release builds, but for \<^verbatim>\<open>Memory_Allocation\<close>, which models the variant for debugging, the releases and waits of \<^verbatim>\<open>Opencl_Plugin\<close>, and the value and object pools, the hazard pointers, the stack and the queue: there an assertion that fails is \<open>None\<close>, so
  that the theorems show that it holds.

  Not modelled: the implementation of POSIX threads and of the OpenCL runtime, which are not part of the repository; \<^verbatim>\<open>embb_mtapi_opencl_runtimelinker.c\<close>, which looks up the functions
  of that runtime in a shared library and forwards calls to them; calls of the log functions inside the task library; memory barriers; the
  memory of the task library's own structures (apart from the truncation of sizes to 32 bits and the failures the code checks); variants of the code for Windows; and the classes of \<^verbatim>\<open>base_cpp\<close>, \<^verbatim>\<open>mtapi_cpp\<close> and \<^verbatim>\<open>dataflow_cpp\<close>, which wrap
  the C libraries or build graphs of tasks from templates. Of the tree of counters pools of at most \<open>2 ^ 29\<close> values are modelled; with more the code overflows.
\<close>

text \<open>
  C1. From nothing to a task in the hands of a worker. On a node that comes up, for a job id the node has, an action that may run on all cores and a task
  with one instance, a priority the node has and no affinity of its own: initialising the node, creating the action, getting the job and starting the task all
  report success, and whichever worker looks for a task next takes exactly this one. The task is scheduled, carries the arguments and the result buffer of the call, and is bound
  to the created action, whose function is the one that was registered.
\<close>

theorem first_task_is_found:
  assumes "st_node s = None" "init_fits ip a" "\<forall>i < na_num_cores a. \<exists>t. ip_outcome ip i = Worker_Up t"
    and "0 < na_max_actions a" "0 < na_max_actions_per_job a" "0 < na_max_tasks a" "0 < na_queue_limit a"
    and "0 < job_id" "job_id \<le> na_max_jobs a"
    and "bits_of (aa_affinity b) = {..<unat (na_num_cores a)}" "bits_of (ta_affinity ta) = {..<unat (na_num_cores a)}"
    and "ta_num_instances ta = 1" "ta_priority ta < na_max_priorities a" "ta_is_detached ta = 0"
    and "hndl_id grp = 0" and "w < na_num_cores a"
  shows "\<exists>info s1 h s2 job th s3 s4 x act.
     mtapi_initialize ip env domain_id node_id (Some a) s = Some (MTAPI_SUCCESS, Some info, s1) \<and>
     mtapi_action_create job_id f data sz (Some b) s1 = Some (MTAPI_SUCCESS, h, s2) \<and>
     mtapi_job_get job_id domain_id s2 = Some (MTAPI_SUCCESS, job) \<and>
     mtapi_task_start env tid job arguments asize result rsize (Some ta) grp s2 = Some (MTAPI_SUCCESS, th, s3) \<and>
     embb_mtapi_scheduler_get_next_task w s3 = Some (Some (hndl_id th), s4) \<and>
     get_task s4 (hndl_id th) = Some x \<and> handle x = th \<and> tk_state x = MTAPI_TASK_SCHEDULED \<and> tk_arguments x = arguments \<and> tk_result_buffer x = result \<and>
     tk_action x = h \<and> get_action s4 (hndl_id h) = Some act \<and> ac_action_function act = f"
  by (rule first_task[OF assms])

theorem first_task_is_found_witness:
  "\<exists>info s1 h s2 job th s3 s4 x act.
     mtapi_initialize example_init idle_env 1 1 (Some example_attributes) (example_state\<lparr>st_node := None\<rparr>) = Some (MTAPI_SUCCESS, Some info, s1) \<and>
     mtapi_action_create 1 8192 0 0 (Some \<lparr>aa_global = 1, aa_affinity = 3, aa_domain_shared = 1\<rparr>) s1 = Some (MTAPI_SUCCESS, h, s2) \<and>
     mtapi_job_get 1 1 s2 = Some (MTAPI_SUCCESS, job) \<and>
     mtapi_task_start idle_env 7 job 5 4 4096 4 (Some (tk_attributes (example_task \<lparr>hndl_tag = 0, hndl_id = 1\<rparr>))) \<lparr>hndl_tag = 0, hndl_id = 0\<rparr> s2 = Some (MTAPI_SUCCESS, th, s3) \<and>
     embb_mtapi_scheduler_get_next_task 1 s3 = Some (Some (hndl_id th), s4) \<and>
     get_task s4 (hndl_id th) = Some x \<and> handle x = th \<and> tk_state x = MTAPI_TASK_SCHEDULED \<and> tk_arguments x = 5 \<and> tk_result_buffer x = 4096 \<and>
     tk_action x = h \<and> get_action s4 (hndl_id h) = Some act \<and> ac_action_function act = 8192"
proof (rule first_task_is_found[OF _ init_fits_example])
  show "\<forall>i < na_num_cores example_attributes. \<exists>t. ip_outcome example_init i = Worker_Up t"
    by (simp add: example_init_def)
  show "bits_of (aa_affinity \<lparr>aa_global = 1, aa_affinity = 3, aa_domain_shared = 1\<rparr>) = {..<unat (na_num_cores example_attributes)}"
     "bits_of (ta_affinity (tk_attributes (example_task \<lparr>hndl_tag = 0, hndl_id = 1\<rparr>))) = {..<unat (na_num_cores example_attributes)}"
    by (auto simp: example_task_def example_attributes_def bits_of_3)
qed (simp_all add: example_task_def example_attributes_def)

end
